(* ===== verification/Prelude.thy ===== *)
theory Prelude
  imports Main "HOL-Library.Word"
begin

text \<open>
  Shared vocabulary of the development: the C integer types as words, byte strings, the
  outcome of a C function that may fail after it has already changed its argument, and the
  big- and little-endian readings of byte strings that several components use as their
  abstract specification.

  All of the code is modelled for an LP64 target (the iOS arm64 build of the pods):
  \<open>size_t\<close> has 64 bits, \<open>int\<close> and \<open>unsigned\<close> have 32.
\<close>

unbundle bit_operations_syntax

type_synonym u8 = "8 word"
type_synonym u16 = "16 word"
type_synonym u32 = "32 word"
type_synonym u64 = "64 word"
type_synonym size_t = "64 word"
type_synonym bytes = "u8 list"

text \<open>
  A C function \<open>int f(S *s, T *out)\<close> that returns one or zero is a function to
  \<open>'a option \<times> 's\<close>: \<open>None\<close> is the zero, and the second component is the state
  the function leaves behind, on failure too.
\<close>

type_synonym ('a, 's) outcome = "'a option \<times> 's"

named_theorems byte_simps \<open>conversions between bytes, words and numbers\<close>
named_theorems shift_simps \<open>C shifts by literal amounts\<close>

section \<open>Words\<close>

lemma unat_of_nat_eq: "n < 2 ^ LENGTH('a) \<Longrightarrow> unat (of_nat n :: 'a::len word) = n"
  by (simp add: unat_of_nat take_bit_nat_eq_self)

lemma unat_of_nat_64 [byte_simps]: "n < 2 ^ 64 \<Longrightarrow> unat (of_nat n :: 64 word) = n"
  by (simp add: unat_of_nat take_bit_nat_eq_self)

lemma unat_bound: "unat (w :: 'a::len word) < 2 ^ LENGTH('a)"
  by (rule unsigned_less)

lemma unat_lt_256 [simp]: "unat (b :: u8) < 256"
  using unsigned_less [of b] by simp

lemma unat_le_255 [simp]: "unat (b :: u8) \<le> 255"
  using unat_lt_256 [of b] by linarith

text \<open>The overflow test of the code: \<open>n + 1 < n\<close>.\<close>

lemma unat_Suc_no_wrap:
  assumes "\<not> w + 1 < (w :: 'a::len word)"
  shows "unat (w + 1) = unat w + 1"
proof (cases "unat w + 1 < 2 ^ LENGTH('a)")
  case False
  then have "unat w + 1 = 2 ^ LENGTH('a)" using unat_bound [of w] by linarith
  moreover from this have "unat (w + 1) = 0" by (simp only: unat_word_ariths) simp
  moreover have "(1 :: nat) < 2 ^ LENGTH('a)" by (rule one_less_power) simp_all
  ultimately show ?thesis using assms by (simp add: word_less_nat_alt)
qed (simp add: unat_word_ariths)

lemma unat_ucast_up [byte_simps]:
  "LENGTH('a::len) \<le> LENGTH('b::len) \<Longrightarrow> unat (ucast (w :: 'a word) :: 'b word) = unat w"
  by (simp add: unsigned_ucast_eq take_bit_nat_eq_self unsigned_less
      less_le_trans [OF unsigned_less power_increasing])

lemma word_disjoint_OR_add:
  fixes x y :: "'a::len word"
  assumes "x AND y = 0"
  shows "x OR y = x + y"
  using assms by (metis word_plus_and_or add_0)

lemma unat_push_bit_OR:
  fixes x :: "'a::len word"
  assumes x: "unat x * 2 ^ n < 2 ^ LENGTH('a)" and y: "unat y < 2 ^ n" and n: "n \<le> LENGTH('a)"
  shows "unat (push_bit n x OR y) = unat x * 2 ^ n + unat y"
proof -
  have sum: "unat x * 2 ^ n + unat y < 2 ^ LENGTH('a)"
  proof -
    have "unat x * 2 ^ n < 2 ^ (LENGTH('a) - n) * 2 ^ n"
      using x n by (metis le_add_diff_inverse2 power_add)
    then have "unat x < 2 ^ (LENGTH('a) - n)" by simp
    then have "Suc (unat x) * 2 ^ n \<le> 2 ^ (LENGTH('a) - n) * 2 ^ n"
      by (intro mult_le_mono1) simp
    also have "\<dots> = 2 ^ LENGTH('a)" using n by (simp flip: power_add)
    finally show ?thesis using y by simp
  qed
  have "push_bit n x AND y = 0"
  proof (rule bit_eqI)
    fix i
    have "\<not> bit y i" if "n \<le> i"
    proof -
      have "unat y < 2 ^ i" using y that by (meson less_le_trans one_le_numeral power_increasing)
      then show ?thesis
        by (metis bit_take_bit_iff less_irrefl take_bit_nat_eq_self_iff unsigned_take_bit_eq
            word_eq_iff_unsigned)
    qed
    then show "bit (push_bit n x AND y) i \<longleftrightarrow> bit (0 :: 'a word) i"
      by (auto simp: bit_and_iff bit_push_bit_iff)
  qed
  then have "push_bit n x OR y = push_bit n x + y" by (rule word_disjoint_OR_add)
  moreover have "unat (push_bit n x) = unat x * 2 ^ n"
    using x by (simp only: unsigned_push_bit_eq) (simp add: push_bit_eq_mult take_bit_nat_eq_self)
  ultimately show ?thesis using sum by (simp add: unat_word_ariths)
qed

lemma unat_drop_bit [byte_simps]: "unat (drop_bit n (w :: 'a::len word)) = unat w div 2 ^ n"
  by (simp only: unsigned_drop_bit_eq) (simp add: drop_bit_eq_div take_bit_nat_eq_self unsigned_less)

lemma unat_and_mask [byte_simps]: "unat (w AND mask n :: 'a::len word) = unat w mod 2 ^ n"
  by (simp only: unsigned_take_bit_eq flip: take_bit_eq_mask) (simp add: take_bit_eq_mod)

section \<open>Big-endian and little-endian readings\<close>

definition be_nat :: "bytes \<Rightarrow> nat" where
  "be_nat bs = foldl (\<lambda>a b. a * 256 + unat b) 0 bs"

definition be_bytes :: "nat \<Rightarrow> nat \<Rightarrow> bytes" where
  "be_bytes n v = map (\<lambda>i. of_nat (v div 256 ^ (n - 1 - i))) [0..<n]"

primrec le_nat :: "bytes \<Rightarrow> nat" where
  "le_nat [] = 0"
| "le_nat (b # bs) = unat b + 256 * le_nat bs"

primrec le_bytes :: "nat \<Rightarrow> nat \<Rightarrow> bytes" where
  "le_bytes 0 v = []"
| "le_bytes (Suc n) v = of_nat v # le_bytes n (v div 256)"

lemma le_nat_append: "le_nat (xs @ ys) = le_nat xs + 256 ^ length xs * le_nat ys"
  by (induction xs) (auto simp: algebra_simps)

lemma le_nat_less: "le_nat xs < 256 ^ length xs"
proof (induction xs)
  case (Cons b bs)
  have "unat b + 256 * le_nat bs < 256 * Suc (le_nat bs)" by simp
  also have "\<dots> \<le> 256 * 256 ^ length bs" using Cons by (intro mult_le_mono2) simp
  finally show ?case by simp
qed simp

lemma foldl_be: "foldl (\<lambda>a b. a * 256 + unat b) a bs = a * 256 ^ length bs + le_nat (rev bs)"
  by (induction bs arbitrary: a) (auto simp: le_nat_append algebra_simps)

lemma be_nat_le: "be_nat bs = le_nat (rev bs)"
  by (simp add: be_nat_def foldl_be)

lemma be_nat_simps [simp]:
  "be_nat [] = 0"
  "be_nat (bs @ [b]) = be_nat bs * 256 + unat b"
  by (simp_all add: be_nat_def)

lemma be_nat_Cons: "be_nat (b # bs) = unat b * 256 ^ length bs + be_nat bs"
  by (simp add: be_nat_le le_nat_append)

lemma be_nat_append: "be_nat (xs @ ys) = be_nat xs * 256 ^ length ys + be_nat ys"
  by (simp add: be_nat_le le_nat_append)

lemma be_nat_less: "be_nat bs < 256 ^ length bs"
  using le_nat_less [of "rev bs"] by (simp add: be_nat_le)

lemma length_be_bytes [simp]: "length (be_bytes n v) = n"
  by (simp add: be_bytes_def)

lemma length_le_bytes [simp]: "length (le_bytes n v) = n"
  by (induction n arbitrary: v) auto

lemma unat_of_nat_u8 [byte_simps]: "unat (of_nat n :: u8) = n mod 256"
  by (simp add: unat_of_nat take_bit_eq_mod)

lemma le_nat_le_bytes: "le_nat (le_bytes n v) = v mod 256 ^ n"
  by (induction n arbitrary: v) (auto simp: byte_simps mod_mult2_eq add.commute)

lemma le_bytes_le_nat: "length bs = n \<Longrightarrow> le_bytes n (le_nat bs) = bs"
proof (induction bs arbitrary: n)
  case (Cons b bs)
  have "of_nat (unat b + 256 * le_nat bs) = b"
    by (simp add: word_unat_eq_iff byte_simps del: of_nat_add)
  then show ?case using Cons by auto
qed simp

lemma be_bytes_le: "be_bytes n v = rev (le_bytes n v)"
proof (induction n arbitrary: v)
  case (Suc n)
  have "be_bytes (Suc n) v = map (\<lambda>i. of_nat (v div 256 ^ (n - i))) [0..<n] @ [of_nat v]"
    by (simp add: be_bytes_def)
  also have "map (\<lambda>i. of_nat (v div 256 ^ (n - i)) :: u8) [0..<n] = be_bytes n (v div 256)"
    by (auto simp: be_bytes_def div_mult2_eq [symmetric] Suc_diff_Suc simp flip: power_Suc)
  finally show ?case by (simp add: Suc)
qed (simp add: be_bytes_def)

lemma be_nat_be_bytes: "be_nat (be_bytes n v) = v mod 256 ^ n"
  by (simp add: be_nat_le be_bytes_le le_nat_le_bytes)

lemma be_bytes_be_nat: "length bs = n \<Longrightarrow> be_bytes n (be_nat bs) = bs"
  by (simp add: be_nat_le be_bytes_le le_bytes_le_nat)

lemma be_bytes_0 [simp]: "be_bytes 0 v = []"
  by (simp add: be_bytes_le)

lemma be_bytes_Suc: "be_bytes (Suc n) v = be_bytes n (v div 256) @ [of_nat v]"
  by (simp add: be_bytes_le)

lemma be_nat_inj: "length xs = length ys \<Longrightarrow> be_nat xs = be_nat ys \<Longrightarrow> xs = ys"
  by (metis be_bytes_be_nat)


section \<open>Memory\<close>

text \<open>
  The allocator is not part of the model: a \<open>heap_env\<close> says for which sizes
  \<open>malloc\<close> and \<open>realloc\<close> succeed and what byte fresh memory holds at an index, and
  the theorems hold for every such environment. For the allocator of BoringSSL the size is
  the one asked for, before \<open>OPENSSL_malloc\<close> adds its header of 8 bytes. That sum wraps around for the
  eight largest sizes: \<open>Mem\<close> models it. The other theories take the allocation to have the size asked for;
  of their functions only \<open>CBB_add_space\<close>, \<open>CBB_reserve\<close> and \<open>CBB_init\<close>, with a length that no data in memory
  have, can ask for such a size.
\<close>

record heap_env =
  alloc_ok :: "size_t \<Rightarrow> bool"
  fresh :: "nat \<Rightarrow> u8"

text \<open>\<open>memcpy\<close>/\<open>memmove\<close> of \<open>ys\<close> to index \<open>i\<close> of an array.\<close>

definition poke :: "'a list \<Rightarrow> nat \<Rightarrow> 'a list \<Rightarrow> 'a list" where
  "poke xs i ys = take i xs @ ys @ drop (i + length ys) xs"

lemma length_poke [simp]: "i + length ys \<le> length xs \<Longrightarrow> length (poke xs i ys) = length xs"
  by (simp add: poke_def)

lemma poke_Nil [simp]: "poke xs i [] = xs"
  by (simp add: poke_def)

lemma take_poke_le: "n \<le> i \<Longrightarrow> i \<le> length xs \<Longrightarrow> take n (poke xs i ys) = take n xs"
  by (simp add: poke_def)

lemma take_poke_end:
  "i + length ys \<le> length xs \<Longrightarrow> take (i + length ys) (poke xs i ys) = take i xs @ ys"
  by (simp add: poke_def)

lemma nth_poke:
  "i + length ys \<le> length xs \<Longrightarrow> j < length xs \<Longrightarrow>
   poke xs i ys ! j = (if i \<le> j \<and> j < i + length ys then ys ! (j - i) else xs ! j)"
  by (auto simp: poke_def nth_append not_less)

lemma poke_append_mid:
  "length ys = length ms \<Longrightarrow> poke (pre @ ms @ post) (length pre) ys = pre @ ys @ post"
  by (simp add: poke_def)

end
