(* ===== verification/Der_Spec.thy ===== *)
theory Der_Spec
  imports Prelude
begin

text \<open>
  What the reader and the builder of byte strings promise, stated without either of them:
  the minimal big-endian digits of a number, the DER length octets (X.690, 10.1), a DER
  element with a one-byte identifier, and the DER contents of an unsigned INTEGER.
\<close>

fun min_be :: "nat \<Rightarrow> bytes" where
  "min_be n = (if n < 256 then [of_nat n] else min_be (n div 256) @ [of_nat n])"

declare min_be.simps [simp del]

definition der_length :: "nat \<Rightarrow> bytes" where
  "der_length n =
     (if n < 128 then [of_nat n] else of_nat (128 + length (min_be n)) # min_be n)"

definition der_element :: "u8 \<Rightarrow> bytes \<Rightarrow> bytes" where
  "der_element tag body = tag # der_length (length body) @ body"

definition der_uint :: "nat \<Rightarrow> bytes" where
  "der_uint n = (if hd (min_be n) AND 0x80 = 0 then min_be n else 0 # min_be n)"

section \<open>Minimal digits\<close>

lemma be_nat_min_be: "be_nat (min_be n) = n"
proof (induction n rule: min_be.induct)
  case (1 n)
  then show ?case
    by (cases "n < 256") (simp_all add: min_be.simps [of n] be_nat_Cons byte_simps)
qed

lemma min_be_not_Nil [simp]: "min_be n \<noteq> []"
  by (subst min_be.simps) simp

lemma min_be_eq:
  assumes "256 ^ k \<le> n" "n < 256 ^ Suc k"
  shows "min_be n = be_bytes (Suc k) n"
  using assms
proof (induction k arbitrary: n)
  case 0
  then show ?case by (subst min_be.simps) (simp add: be_bytes_Suc)
next
  case (Suc k)
  have "(256::nat) * 1 \<le> 256 * 256 ^ k" by (intro mult_le_mono2) simp
  moreover have "256 * 256 ^ k \<le> n" using Suc.prems(1) by simp
  ultimately have "\<not> n < 256" by linarith
  moreover have "min_be (n div 256) = be_bytes (Suc k) (n div 256)"
    using Suc.prems by (intro Suc.IH) (auto simp: less_mult_imp_div_less less_eq_div_iff_mult_less_eq mult.commute)
  ultimately show ?case by (subst min_be.simps) (simp add: be_bytes_Suc [of "Suc k"])
qed

lemma min_be_be_nat:
  assumes "bs \<noteq> []" "hd bs \<noteq> 0"
  shows "min_be (be_nat bs) = bs"
proof -
  obtain b cs where bs: "bs = b # cs" using assms(1) by (cases bs) auto
  have "1 \<le> unat b" using assms(2) bs by (simp add: Suc_le_eq unat_gt_0)
  then have "256 ^ length cs \<le> be_nat bs"
    unfolding bs be_nat_Cons by (metis mult_le_mono1 nat_mult_1 trans_le_add1)
  moreover have "be_nat bs < 256 ^ Suc (length cs)" using be_nat_less [of bs] bs by simp
  ultimately show ?thesis using min_be_eq [of "length cs"] be_bytes_be_nat [of bs] bs by simp
qed

lemma length_min_be_bounds:
  "n < 256 ^ length (min_be n)" "0 < n \<Longrightarrow> 256 ^ (length (min_be n) - 1) \<le> n"
proof -
  show "n < 256 ^ length (min_be n)" using be_nat_less [of "min_be n"] by (simp add: be_nat_min_be)
  show "256 ^ (length (min_be n) - 1) \<le> n" if "0 < n"
    using that
  proof (induction n rule: min_be.induct)
    case (1 n)
    show ?case
    proof (cases "n < 256")
      case False
      then have "256 ^ (length (min_be (n div 256)) - 1) \<le> n div 256" using 1 by simp
      then have "256 * 256 ^ (length (min_be (n div 256)) - 1) \<le> n"
        by (simp add: less_eq_div_iff_mult_less_eq mult.commute)
      then show ?thesis using False
        by (subst min_be.simps) (simp flip: power_Suc add: Suc_diff_1 del: Suc_diff_1)
    qed (use 1 in \<open>simp add: min_be.simps [of n]\<close>)
  qed
qed

lemma length_min_be:
  assumes "n < 256 ^ k" "0 < k"
  shows "length (min_be n) \<le> k"
proof (cases "n = 0")
  case True
  then show ?thesis using assms by (subst min_be.simps) simp
next
  case False
  then have "(256::nat) ^ (length (min_be n) - 1) < 256 ^ k"
    using length_min_be_bounds(2) [of n] assms by linarith
  then have "length (min_be n) - 1 < k" by (rule power_less_imp_less_exp [rotated]) simp
  then show ?thesis by simp
qed

lemma hd_min_be: "0 < n \<Longrightarrow> hd (min_be n) \<noteq> 0"
proof (induction n rule: min_be.induct)
  case (1 n)
  show ?case
  proof (cases "n < 256")
    case True
    then have "unat (of_nat n :: u8) \<noteq> 0" using 1 by (simp add: byte_simps)
    then show ?thesis using True by (subst min_be.simps) (auto simp: unat_gt_0)
  next
    case False
    then show ?thesis using 1 by (subst min_be.simps) auto
  qed
qed

section \<open>The sign bit of a byte\<close>

lemma and_0x80_eq_0 [byte_simps]: "(b :: u8) AND 0x80 = 0 \<longleftrightarrow> unat b < 128"
proof -
  have "b AND 2 ^ 7 = 0 \<longleftrightarrow> \<not> bit b 7" by (rule and_exp_eq_0_iff_not_bit)
  also have "bit b 7 \<longleftrightarrow> bit (unat b) 7" by (simp add: bit_unsigned_iff)
  also have "\<not> bit (unat b) 7 \<longleftrightarrow> unat b < 128"
  proof -
    have "unat b div 128 < 2" by (simp add: less_mult_imp_div_less)
    then show ?thesis by (auto simp: bit_iff_odd odd_iff_mod_2_eq_one)
  qed
  finally show ?thesis by simp
qed

lemma unat_and_0x7f [byte_simps]: "unat ((b :: u8) AND 0x7f) = unat b mod 128"
  using unat_and_mask [of b 7] by (simp add: mask_eq_exp_minus_1)

end
