(* ===== verification/Cbs.thy ===== *)
theory Cbs
  imports Der_Spec
begin

text \<open>
  The byte-string reader of \<open>BoringSSL/crypto/bytestring/cbs.c\<close>. A \<open>CBS\<close> is a pointer
  and a length over constant memory; it is modelled by the bytes it still covers, so that
  \<open>cbs->data += n; cbs->len -= n\<close> is \<open>drop n\<close> and \<open>CBS_len\<close> is the length of
  the list. Every reader returns what it wrote through its out-parameter and the state of the
  \<open>CBS\<close> afterwards, on failure too: several readers fail after having consumed input.
  Out-parameters that the code writes before failing are not part of the model.
\<close>

type_synonym cbs = bytes

section \<open>Definitions\<close>

subsection \<open>Fixed-size reads\<close>

definition CBS_init :: "bytes \<Rightarrow> size_t \<Rightarrow> cbs" where
  "CBS_init data len = take (unat len) data"

definition cbs_get :: "cbs \<Rightarrow> size_t \<Rightarrow> (bytes, cbs) outcome" where
  "cbs_get cbs n =
     (if length cbs < unat n then (None, cbs)
      else (Some (take (unat n) cbs), drop (unat n) cbs))"

definition CBS_skip :: "cbs \<Rightarrow> size_t \<Rightarrow> (unit, cbs) outcome" where
  "CBS_skip cbs len =
     (case cbs_get cbs len of (None, c) \<Rightarrow> (None, c) | (Some _, c) \<Rightarrow> (Some (), c))"

definition CBS_data :: "cbs \<Rightarrow> bytes" where
  "CBS_data cbs = cbs"

definition CBS_len :: "cbs \<Rightarrow> size_t" where
  "CBS_len cbs = of_nat (length cbs)"

definition CBS_contains_zero_byte :: "cbs \<Rightarrow> bool" where
  "CBS_contains_zero_byte cbs \<longleftrightarrow> 0 \<in> set cbs"

primrec cbs_get_u_loop :: "u32 \<Rightarrow> bytes \<Rightarrow> u32" where
  "cbs_get_u_loop result [] = result"
| "cbs_get_u_loop result (b # bs) = cbs_get_u_loop (push_bit 8 result OR ucast b) bs"

definition cbs_get_u :: "cbs \<Rightarrow> size_t \<Rightarrow> (u32, cbs) outcome" where
  "cbs_get_u cbs len =
     (case cbs_get cbs len of
        (None, c) \<Rightarrow> (None, c)
      | (Some data, c) \<Rightarrow> (Some (cbs_get_u_loop 0 data), c))"

definition CBS_get_u8 :: "cbs \<Rightarrow> (u8, cbs) outcome" where
  "CBS_get_u8 cbs =
     (case cbs_get cbs 1 of (None, c) \<Rightarrow> (None, c) | (Some v, c) \<Rightarrow> (Some (hd v), c))"

definition CBS_get_u16 :: "cbs \<Rightarrow> (u16, cbs) outcome" where
  "CBS_get_u16 cbs =
     (case cbs_get_u cbs 2 of (None, c) \<Rightarrow> (None, c) | (Some v, c) \<Rightarrow> (Some (ucast v), c))"

definition CBS_get_u24 :: "cbs \<Rightarrow> (u32, cbs) outcome" where
  "CBS_get_u24 cbs = cbs_get_u cbs 3"

definition CBS_get_u32 :: "cbs \<Rightarrow> (u32, cbs) outcome" where
  "CBS_get_u32 cbs = cbs_get_u cbs 4"

definition CBS_get_last_u8 :: "cbs \<Rightarrow> (u8, cbs) outcome" where
  "CBS_get_last_u8 cbs = (if cbs = [] then (None, cbs) else (Some (last cbs), butlast cbs))"

definition CBS_get_bytes :: "cbs \<Rightarrow> size_t \<Rightarrow> (cbs, cbs) outcome" where
  "CBS_get_bytes cbs len =
     (case cbs_get cbs len of (None, c) \<Rightarrow> (None, c) | (Some v, c) \<Rightarrow> (Some (CBS_init v len), c))"

definition CBS_copy_bytes :: "cbs \<Rightarrow> size_t \<Rightarrow> (bytes, cbs) outcome" where
  "CBS_copy_bytes cbs len =
     (case cbs_get cbs len of (None, c) \<Rightarrow> (None, c) | (Some v, c) \<Rightarrow> (Some (take (unat len) v), c))"

definition cbs_get_length_prefixed :: "cbs \<Rightarrow> size_t \<Rightarrow> (cbs, cbs) outcome" where
  "cbs_get_length_prefixed cbs len_len =
     (case cbs_get_u cbs len_len of
        (None, c) \<Rightarrow> (None, c)
      | (Some len, c) \<Rightarrow> CBS_get_bytes c (ucast len))"

definition CBS_get_u8_length_prefixed :: "cbs \<Rightarrow> (cbs, cbs) outcome" where
  "CBS_get_u8_length_prefixed cbs = cbs_get_length_prefixed cbs 1"

definition CBS_get_u16_length_prefixed :: "cbs \<Rightarrow> (cbs, cbs) outcome" where
  "CBS_get_u16_length_prefixed cbs = cbs_get_length_prefixed cbs 2"

definition CBS_get_u24_length_prefixed :: "cbs \<Rightarrow> (cbs, cbs) outcome" where
  "CBS_get_u24_length_prefixed cbs = cbs_get_length_prefixed cbs 3"

subsection \<open>ASN.1 elements\<close>

abbreviation (input) CBS_ASN1_BOOLEAN :: u32 where "CBS_ASN1_BOOLEAN \<equiv> 0x1"
abbreviation (input) CBS_ASN1_INTEGER :: u32 where "CBS_ASN1_INTEGER \<equiv> 0x2"
abbreviation (input) CBS_ASN1_OCTETSTRING :: u32 where "CBS_ASN1_OCTETSTRING \<equiv> 0x4"
abbreviation (input) CBS_ASN1_CONSTRUCTED :: u32 where "CBS_ASN1_CONSTRUCTED \<equiv> 0x20"

text \<open>
  \<open>cbs_get_any_asn1_element\<close> works on a copy of the header, so \<open>cbs\<close> itself only moves
  in the final \<open>CBS_get_bytes\<close>. The result is the element, its tag and its header length.
\<close>

definition asn1_take :: "cbs \<Rightarrow> u32 \<Rightarrow> size_t \<Rightarrow> size_t \<Rightarrow> (cbs \<times> u32 \<times> size_t, cbs) outcome" where
  "asn1_take cbs tag header_len len =
     (case CBS_get_bytes cbs len of
        (None, c) \<Rightarrow> (None, c)
      | (Some out, c) \<Rightarrow> (Some (out, tag, header_len), c))"

definition cbs_get_any_asn1_element ::
    "cbs \<Rightarrow> bool \<Rightarrow> (cbs \<times> u32 \<times> size_t, cbs) outcome" where
  "cbs_get_any_asn1_element cbs ber_ok =
     (case CBS_get_u8 cbs of
        (None, _) \<Rightarrow> (None, cbs)
      | (Some tag, header) \<Rightarrow>
     (case CBS_get_u8 header of
        (None, _) \<Rightarrow> (None, cbs)
      | (Some length_byte, header) \<Rightarrow>
        if tag AND 0x1f = 0x1f then (None, cbs)
        else if length_byte AND 0x80 = 0
        then asn1_take cbs (ucast tag) 2 (ucast length_byte + 2)
        else
          let num_bytes = ucast (length_byte AND 0x7f) :: size_t in
          if ber_ok \<and> ucast tag AND CBS_ASN1_CONSTRUCTED \<noteq> 0 \<and> num_bytes = 0
          then asn1_take cbs (ucast tag) 2 2
          else if num_bytes = 0 \<or> num_bytes > 4 then (None, cbs)
          else
         (case cbs_get_u header num_bytes of
            (None, _) \<Rightarrow> (None, cbs)
          | (Some len32, _) \<Rightarrow>
            if len32 < 128 then (None, cbs)
            else if drop_bit (unat ((num_bytes - 1) * 8)) len32 = 0 then (None, cbs)
            else
              let len = ucast len32 :: size_t in
              if len + 2 + num_bytes < len then (None, cbs)
              else asn1_take cbs (ucast tag) (2 + num_bytes) (len + (2 + num_bytes)))))"

definition CBS_get_any_asn1_element :: "cbs \<Rightarrow> (cbs \<times> u32 \<times> size_t, cbs) outcome" where
  "CBS_get_any_asn1_element cbs = cbs_get_any_asn1_element cbs False"

definition CBS_get_any_ber_asn1_element :: "cbs \<Rightarrow> (cbs \<times> u32 \<times> size_t, cbs) outcome" where
  "CBS_get_any_ber_asn1_element cbs = cbs_get_any_asn1_element cbs True"

definition CBS_get_any_asn1 :: "cbs \<Rightarrow> (cbs \<times> u32, cbs) outcome" where
  "CBS_get_any_asn1 cbs =
     (case CBS_get_any_asn1_element cbs of
        (None, c) \<Rightarrow> (None, c)
      | (Some (out, tag, header_len), c) \<Rightarrow>
       (case CBS_skip out header_len of
          (None, _) \<Rightarrow> (None, c)
        | (Some _, out) \<Rightarrow> (Some (out, tag), c)))"

definition cbs_get_asn1 :: "cbs \<Rightarrow> u32 \<Rightarrow> bool \<Rightarrow> (cbs, cbs) outcome" where
  "cbs_get_asn1 cbs tag_value skip_header =
     (case CBS_get_any_asn1_element cbs of
        (None, c) \<Rightarrow> (None, c)
      | (Some (out, tag, header_len), c) \<Rightarrow>
        if tag \<noteq> tag_value then (None, c)
        else if skip_header
        then (case CBS_skip out header_len of
                (None, _) \<Rightarrow> (None, c)
              | (Some _, out) \<Rightarrow> (Some out, c))
        else (Some out, c))"

definition CBS_get_asn1 :: "cbs \<Rightarrow> u32 \<Rightarrow> (cbs, cbs) outcome" where
  "CBS_get_asn1 cbs tag_value = cbs_get_asn1 cbs tag_value True"

definition CBS_get_asn1_element :: "cbs \<Rightarrow> u32 \<Rightarrow> (cbs, cbs) outcome" where
  "CBS_get_asn1_element cbs tag_value = cbs_get_asn1 cbs tag_value False"

definition CBS_peek_asn1_tag :: "cbs \<Rightarrow> u32 \<Rightarrow> bool" where
  "CBS_peek_asn1_tag cbs tag_value =
     (if CBS_len cbs < 1 then False else ucast (CBS_data cbs ! 0) = tag_value)"

primrec asn1_uint64_loop :: "u64 \<Rightarrow> bytes \<Rightarrow> u64 option" where
  "asn1_uint64_loop out [] = Some out"
| "asn1_uint64_loop out (b # bs) =
     (if drop_bit 56 out \<noteq> 0 then None else asn1_uint64_loop (push_bit 8 out OR ucast b) bs)"

definition CBS_get_asn1_uint64 :: "cbs \<Rightarrow> (u64, cbs) outcome" where
  "CBS_get_asn1_uint64 cbs =
     (case CBS_get_asn1 cbs CBS_ASN1_INTEGER of
        (None, c) \<Rightarrow> (None, c)
      | (Some data, c) \<Rightarrow>
        if length data = 0 then (None, c)
        else if data ! 0 AND 0x80 \<noteq> 0 then (None, c)
        else if data ! 0 = 0 \<and> length data > 1 \<and> data ! 1 AND 0x80 = 0 then (None, c)
        else (asn1_uint64_loop 0 data, c))"

subsection \<open>Optional elements\<close>

text \<open>
  \<open>Some None\<close> is success with \<open>*out_present = 0\<close>, \<open>Some (Some out)\<close> success with
  the element present.
\<close>

definition CBS_get_optional_asn1 :: "cbs \<Rightarrow> u32 \<Rightarrow> (cbs option, cbs) outcome" where
  "CBS_get_optional_asn1 cbs tag =
     (if CBS_peek_asn1_tag cbs tag
      then (case CBS_get_asn1 cbs tag of
              (None, c) \<Rightarrow> (None, c)
            | (Some out, c) \<Rightarrow> (Some (Some out), c))
      else (Some None, cbs))"

definition CBS_get_optional_asn1_octet_string ::
    "cbs \<Rightarrow> u32 \<Rightarrow> (cbs \<times> bool, cbs) outcome" where
  "CBS_get_optional_asn1_octet_string cbs tag =
     (case CBS_get_optional_asn1 cbs tag of
        (None, c) \<Rightarrow> (None, c)
      | (Some (Some child), c) \<Rightarrow>
       (case CBS_get_asn1 child CBS_ASN1_OCTETSTRING of
          (None, _) \<Rightarrow> (None, c)
        | (Some out, child) \<Rightarrow>
          if CBS_len child \<noteq> 0 then (None, c) else (Some (out, True), c))
      | (Some None, c) \<Rightarrow> (Some (CBS_init [] 0, False), c))"

definition CBS_get_optional_asn1_uint64 :: "cbs \<Rightarrow> u32 \<Rightarrow> u64 \<Rightarrow> (u64, cbs) outcome" where
  "CBS_get_optional_asn1_uint64 cbs tag default_value =
     (case CBS_get_optional_asn1 cbs tag of
        (None, c) \<Rightarrow> (None, c)
      | (Some (Some child), c) \<Rightarrow>
       (case CBS_get_asn1_uint64 child of
          (None, _) \<Rightarrow> (None, c)
        | (Some out, child) \<Rightarrow>
          if CBS_len child \<noteq> 0 then (None, c) else (Some out, c))
      | (Some None, c) \<Rightarrow> (Some default_value, c))"

definition CBS_get_optional_asn1_bool :: "cbs \<Rightarrow> u32 \<Rightarrow> int \<Rightarrow> (int, cbs) outcome" where
  "CBS_get_optional_asn1_bool cbs tag default_value =
     (case CBS_get_optional_asn1 cbs tag of
        (None, c) \<Rightarrow> (None, c)
      | (Some (Some child), c) \<Rightarrow>
       (case CBS_get_asn1 child CBS_ASN1_BOOLEAN of
          (None, _) \<Rightarrow> (None, c)
        | (Some child2, child) \<Rightarrow>
          if CBS_len child2 \<noteq> 1 \<or> CBS_len child \<noteq> 0 then (None, c)
          else
            let boolean = CBS_data child2 ! 0 in
            if boolean = 0 then (Some 0, c)
            else if boolean = 0xff then (Some 1, c)
            else (None, c))
      | (Some None, c) \<Rightarrow> (Some default_value, c))"

subsection \<open>Bit strings\<close>

definition CBS_is_valid_asn1_bitstring :: "cbs \<Rightarrow> bool" where
  "CBS_is_valid_asn1_bitstring cbs =
     (case CBS_get_u8 cbs of
        (None, _) \<Rightarrow> False
      | (Some num_unused_bits, rest) \<Rightarrow>
        if num_unused_bits > 7 then False
        else if num_unused_bits = 0 then True
        else (case CBS_get_last_u8 rest of
                (None, _) \<Rightarrow> False
              | (Some lst, _) \<Rightarrow>
                (ucast lst :: u32) AND (push_bit (unat num_unused_bits) 1 - 1) = 0))"

definition CBS_asn1_bitstring_has_bit :: "cbs \<Rightarrow> u32 \<Rightarrow> bool" where
  "CBS_asn1_bitstring_has_bit cbs b =
     (if \<not> CBS_is_valid_asn1_bitstring cbs then False
      else
        let byte_num = drop_bit 3 b + 1;
            bit_num = 7 - (b AND 7)
        in (ucast byte_num :: size_t) < CBS_len cbs \<and>
           (ucast (CBS_data cbs ! unat byte_num) :: u32) AND push_bit (unat bit_num) 1 \<noteq> 0)"


section \<open>Reads\<close>

lemma cbs_get_u_loop:
  "unat r * 256 ^ length bs + be_nat bs < 2 ^ 32 \<Longrightarrow>
   unat (cbs_get_u_loop r bs) = unat r * 256 ^ length bs + be_nat bs"
proof (induction bs arbitrary: r)
  case (Cons b bs)
  have "unat r * 256 \<le> unat r * 256 ^ length (b # bs)" by simp
  then have "unat r * 256 < 2 ^ 32" using Cons.prems by linarith
  then have r: "unat r * 2 ^ 8 < 2 ^ LENGTH(32)" by simp
  have "unat (push_bit 8 r OR (ucast b :: u32)) = unat r * 2 ^ 8 + unat (ucast b :: u32)"
    by (rule unat_push_bit_OR [OF r]) (simp_all add: byte_simps)
  then have step: "unat (push_bit 8 r OR (ucast b :: u32)) = unat r * 256 + unat b"
    by (simp add: byte_simps)
  show ?case
    using Cons.prems Cons.IH [of "push_bit 8 r OR ucast b"] by (simp add: step be_nat_Cons algebra_simps)
qed simp

lemma cbs_get_u_loop_be:
  assumes "length bs \<le> 4"
  shows "unat (cbs_get_u_loop 0 bs) = be_nat bs"
proof -
  have "(256::nat) ^ length bs \<le> 256 ^ 4" using assms by (intro power_increasing) auto
  then have "be_nat bs < 2 ^ 32" using be_nat_less [of bs] by simp
  then show ?thesis using cbs_get_u_loop [of 0 bs] by simp
qed

lemma cbs_get_append:
  "unat n = length xs \<Longrightarrow> cbs_get (xs @ ys) n = (Some xs, ys)"
  by (simp add: cbs_get_def)

lemma cbs_get_SomeD:
  "cbs_get c n = (Some v, c') \<Longrightarrow> c = v @ c' \<and> length v = unat n"
  by (auto simp: cbs_get_def split: if_splits)

lemma cbs_get_u_append:
  assumes "unat n = length xs" "length xs \<le> 4"
  shows "cbs_get_u (xs @ ys) n = (Some (of_nat (be_nat xs)), ys)"
  using assms by (simp add: cbs_get_u_def cbs_get_append flip: cbs_get_u_loop_be)

lemma CBS_get_u8_Cons [simp]: "CBS_get_u8 (b # bs) = (Some b, bs)"
  by (simp add: CBS_get_u8_def cbs_get_def)

lemma CBS_get_u8_Nil [simp]: "CBS_get_u8 [] = (None, [])"
  by (simp add: CBS_get_u8_def cbs_get_def)

lemma CBS_get_bytes_append:
  "unat n = length xs \<Longrightarrow> CBS_get_bytes (xs @ ys) n = (Some xs, ys)"
  by (simp add: CBS_get_bytes_def cbs_get_append CBS_init_def)

lemma CBS_get_bytes_eq:
  "CBS_get_bytes c n =
     (if length c < unat n then (None, c) else (Some (take (unat n) c), drop (unat n) c))"
  by (simp add: CBS_get_bytes_def cbs_get_def CBS_init_def)

lemma CBS_skip_eq:
  "CBS_skip c n = (if length c < unat n then (None, c) else (Some (), drop (unat n) c))"
  by (simp add: CBS_skip_def cbs_get_def)

lemma CBS_get_u8_cases:
  "CBS_get_u8 c = (case c of [] \<Rightarrow> (None, []) | b # bs \<Rightarrow> (Some b, bs))"
  by (cases c) simp_all


section \<open>DER elements\<close>

lemma any_asn1_short:
  assumes "t AND 0x1f \<noteq> 0x1f" "unat l < 128"
  shows "cbs_get_any_asn1_element (t # l # r) ber =
    (if length r < unat l then (None, t # l # r)
     else (Some (t # l # take (unat l) r, ucast t, 2), drop (unat l) r))"
proof -
  have len: "unat (ucast l + 2 :: size_t) = unat l + 2"
    using assms(2) by (simp add: unat_word_ariths byte_simps)
  show ?thesis
    using assms by (simp add: cbs_get_any_asn1_element_def asn1_take_def CBS_get_bytes_eq len byte_simps
        flip: and_0x80_eq_0)
qed

lemma unat_shift_amount:
  assumes "1 \<le> unat (n :: size_t)" "unat n \<le> 4"
  shows "unat ((n - 1) * 8) = (unat n - 1) * 8"
proof -
  have "unat n = 1 \<or> unat n = 2 \<or> unat n = 3 \<or> unat n = 4" using assms by arith
  then have "n = 1 \<or> n = 2 \<or> n = 3 \<or> n = 4" by (simp add: word_unat_eq_iff)
  then show ?thesis by auto
qed

lemma shift_eq_0_iff:
  assumes "1 \<le> unat (n :: size_t)" "unat n \<le> 4"
  shows "drop_bit (unat ((n - 1) * 8)) (w :: u32) = 0 \<longleftrightarrow> unat w < 256 ^ (unat n - 1)"
proof -
  have "drop_bit m w = 0 \<longleftrightarrow> unat w < 2 ^ m" for m
    by (simp add: word_unat_eq_iff unat_drop_bit div_eq_0_iff)
  moreover have "(2::nat) ^ ((unat n - 1) * 8) = 256 ^ (unat n - 1)"
    by (simp add: power_mult mult.commute [of _ 8])
  ultimately show ?thesis by (simp only: unat_shift_amount [OF assms])
qed

lemma any_asn1_long:
  assumes t: "t AND 0x1f \<noteq> 0x1f" and l: "128 \<le> unat l"
    and k: "k = unat l - 128" and ds: "ds = take k r" and n: "n = be_nat ds"
  shows "cbs_get_any_asn1_element (t # l # r) False =
    (if k = 0 \<or> 4 < k \<or> length r < k \<or> n < 128 \<or> n < 256 ^ (k - 1) \<or> length r - k < n
     then (None, t # l # r)
     else (Some (t # l # ds @ take n (drop k r), ucast t, of_nat (2 + k)), drop (k + n) r))"
proof -
  define nb where "nb = (ucast (l AND 0x7f) :: size_t)"
  have nb: "unat nb = k"
  proof -
    have "unat l - 128 < 128" using unat_lt_256 [of l] by linarith
    then show ?thesis using l k unfolding nb_def by (simp add: byte_simps le_mod_geq)
  qed
  have nb0: "nb = 0 \<longleftrightarrow> k = 0" and nb4: "nb > 4 \<longleftrightarrow> 4 < k"
    using nb by (simp_all add: word_unat_eq_iff word_less_nat_alt)
  have nb_word: "nb = of_nat k" by (simp flip: nb)
  show ?thesis
  proof (cases "k = 0 \<or> 4 < k \<or> length r < k")
    case True
    then show ?thesis
      using t l by (auto simp: cbs_get_any_asn1_element_def byte_simps nb_def [symmetric] nb0 nb4
          cbs_get_u_def cbs_get_def nb not_less Let_def)
  next
    case False
    then have k4: "1 \<le> k" "k \<le> 4" "k \<le> length r" by auto
    have dslen: "length ds = k" using ds k4 by simp
    define len32 where "len32 = (of_nat n :: u32)"
    have "n < 256 ^ k" using be_nat_less [of ds] n dslen by simp
    also have "(256::nat) ^ k \<le> 256 ^ 4" using k4 by (intro power_increasing) auto
    finally have n32: "n < 2 ^ 32" by simp
    have len32: "unat len32 = n" unfolding len32_def using n32 by (simp add: unat_of_nat_eq)
    have get: "cbs_get_u r nb = (Some len32, drop k r)"
      using cbs_get_u_append [of nb ds "drop k r"] ds dslen k4 nb by (simp add: n len32_def)
    have u: "unat (ucast len32 :: size_t) = n" by (simp add: byte_simps len32)
    have sum: "unat ((ucast len32 :: size_t) + 2 + nb) = n + 2 + k"
      and sum': "unat ((ucast len32 :: size_t) + (2 + nb)) = n + 2 + k"
      using n32 k4 by (simp_all add: unat_word_ariths u nb)
    have no_ovf: "\<not> (ucast len32 :: size_t) + 2 + nb < ucast len32"
      by (simp only: word_less_nat_alt sum u)
    have lt128: "len32 < 128 \<longleftrightarrow> n < 128" by (simp add: word_less_nat_alt len32)
    have sh: "drop_bit (unat (nb * 8 - 8)) len32 = 0 \<longleftrightarrow> n < 256 ^ (k - Suc 0)"
      using shift_eq_0_iff [of nb len32] k4 nb len32 by simp
    have get2: "CBS_get_bytes (t # l # r) (ucast len32 + (2 + nb)) =
      (if length r - k < n then (None, t # l # r)
       else (Some (t # l # ds @ take n (drop k r)), drop (k + n) r))"
    proof -
      have "take (n + 2 + k) (t # l # r) = t # l # ds @ take n (drop k r)"
        using ds by (simp add: take_add [of k n, symmetric] add.commute)
      moreover have "drop (n + 2 + k) (t # l # r) = drop (k + n) r"
        by (simp add: add.commute)
      moreover have "length (t # l # r) < n + 2 + k \<longleftrightarrow> length r - k < n" using k4 by auto
      ultimately show ?thesis by (simp only: CBS_get_bytes_eq sum')
    qed
    show ?thesis
      using t l k4 no_ovf
      by (simp add: cbs_get_any_asn1_element_def byte_simps nb_def [symmetric] nb0 nb4 get Let_def
          asn1_take_def get2 lt128 sh flip: nb_word)
  qed
qed


lemma min_be_of_digits:
  assumes "length ds = k" "1 \<le> k" "256 ^ (k - 1) \<le> be_nat ds"
  shows "min_be (be_nat ds) = ds"
proof (rule min_be_be_nat)
  show "ds \<noteq> []" using assms by auto
  then obtain d es where ds: "ds = d # es" by (cases ds) auto
  show "hd ds \<noteq> 0"
  proof
    assume "hd ds = 0"
    then have "be_nat ds = be_nat es" by (simp add: ds be_nat_Cons)
    then show False using assms be_nat_less [of es] by (auto simp: ds)
  qed
qed

lemma any_asn1_body:
  "CBS_get_any_asn1 (t # l # r) =
    (case CBS_get_any_asn1_element (t # l # r) of
       (None, c) \<Rightarrow> (None, c)
     | (Some (out, tag, h), c) \<Rightarrow>
         if length out < unat h then (None, c) else (Some (drop (unat h) out, tag), c))"
  by (auto simp: CBS_get_any_asn1_def CBS_skip_eq split: prod.splits option.splits)

lemma any_asn1_accepts_der:
  assumes t: "t AND 0x1f \<noteq> 0x1f" and n: "length body < 2 ^ 32"
  shows "CBS_get_any_asn1 (der_element t body @ rest) = (Some (body, ucast t), rest)"
proof (cases "length body < 128")
  case True
  then have "unat (of_nat (length body) :: u8) = length body" by (simp add: byte_simps)
  then show ?thesis
    using True t by (simp add: der_element_def der_length_def any_asn1_body CBS_get_any_asn1_element_def
        any_asn1_short)
next
  case False
  define m where "m = length body"
  define k where "k = length (min_be m)"
  have k: "1 \<le> k" "k \<le> 4"
    using length_min_be [of m 4] n unfolding k_def m_def by (simp_all add: Suc_le_eq)
  have "0 < m" using False unfolding m_def by linarith
  then have lo: "256 ^ (k - 1) \<le> m" unfolding k_def by (rule length_min_be_bounds(2))
  have l: "unat (of_nat (128 + k) :: u8) = 128 + k" using k by (simp add: byte_simps del: of_nat_add)
  have h: "unat (2 + of_nat k :: size_t) = 2 + k" using k unat_of_nat_64 [of "2 + k"] by simp
  have "cbs_get_any_asn1_element (t # of_nat (128 + k) # min_be m @ body @ rest) False =
      (Some (t # of_nat (128 + k) # min_be m @ body, ucast t, 2 + of_nat k), rest)"
    using any_asn1_long [OF t, of "of_nat (128 + k)" k "min_be m" "min_be m @ body @ rest" m]
      k lo False by (simp add: l k_def [symmetric] m_def [symmetric] be_nat_min_be del: of_nat_add)
  then show ?thesis
    using False by (simp add: der_element_def der_length_def any_asn1_body CBS_get_any_asn1_element_def
        h m_def [symmetric] k_def [symmetric] del: of_nat_add)
qed

lemma any_asn1_only_der:
  assumes "CBS_get_any_asn1 c = (Some (body, tag), rest)"
  shows "\<exists>t. tag = ucast t \<and> t AND 0x1f \<noteq> 0x1f \<and> length body < 2 ^ 32 \<and> c = der_element t body @ rest"
proof -
  obtain t l r where c: "c = t # l # r"
    using assms by (cases c; cases "tl c")
      (auto simp: CBS_get_any_asn1_def CBS_get_any_asn1_element_def cbs_get_any_asn1_element_def)
  have t: "t AND 0x1f \<noteq> 0x1f"
    using assms by (auto simp: c any_asn1_body CBS_get_any_asn1_element_def cbs_get_any_asn1_element_def)
  show ?thesis
  proof (cases "unat l < 128")
    case True
    then have "der_length (unat l) = [l]" by (simp add: der_length_def)
    then show ?thesis
      using assms t True by (auto simp: c any_asn1_body CBS_get_any_asn1_element_def any_asn1_short
          der_element_def split: if_splits)
  next
    case False
    define k where "k = unat l - 128"
    define ds where "ds = take k r"
    define n where "n = be_nat ds"
    have acc: "\<not> (k = 0 \<or> 4 < k \<or> length r < k \<or> n < 128 \<or> n < 256 ^ (k - 1) \<or> length r - k < n)"
    proof
      assume "k = 0 \<or> 4 < k \<or> length r < k \<or> n < 128 \<or> n < 256 ^ (k - 1) \<or> length r - k < n"
      then have "cbs_get_any_asn1_element (t # l # r) False = (None, t # l # r)"
        using False any_asn1_long [OF t _ k_def ds_def n_def] by (simp only: if_True not_less)
      then show False using assms by (simp add: c any_asn1_body CBS_get_any_asn1_element_def)
    qed
    have h: "unat (of_nat (2 + k) :: size_t) = 2 + k" using acc by (intro unat_of_nat_64) auto
    have out: "body = take n (drop k r)" "tag = ucast t" "rest = drop (k + n) r"
      using assms False acc h by (auto simp: c any_asn1_body CBS_get_any_asn1_element_def
          any_asn1_long [OF t _ k_def ds_def n_def] ds_def simp del: of_nat_add)
    have dslen: "length ds = k" using acc by (simp add: ds_def)
    have len: "length body = n" using acc out by simp
    have "min_be n = ds" unfolding n_def by (rule min_be_of_digits [OF dslen]) (use acc n_def in auto)
    moreover have "of_nat (128 + k) = l" using False by (simp add: k_def)
    ultimately have dl: "der_length (length body) = l # ds"
      using acc by (simp add: der_length_def len dslen)
    have "n < 256 ^ k" using be_nat_less [of ds] by (simp add: dslen n_def)
    also have "(256::nat) ^ k \<le> 256 ^ 4" using acc by (intro power_increasing) auto
    finally have "length body < 2 ^ 32" by (simp add: len)
    moreover have "r = ds @ body @ rest"
      unfolding out ds_def by (metis append_take_drop_id drop_drop add.commute)
    ultimately show ?thesis using t out(2) by (auto simp: c der_element_def dl)
  qed
qed


section \<open>Integers and length prefixes\<close>

lemma CBS_get_asn1_iff:
  "CBS_get_asn1 c (ucast t) = (Some body, rest) \<longleftrightarrow>
   t AND 0x1f \<noteq> 0x1f \<and> length body < 2 ^ 32 \<and> c = der_element t body @ rest"
proof -
  have inj: "(ucast t :: u32) = ucast t' \<longleftrightarrow> t = t'" for t' :: u8
    by (auto simp: word_unat_eq_iff byte_simps)
  have "CBS_get_asn1 c (ucast t) = (Some body, rest) \<longleftrightarrow> CBS_get_any_asn1 c = (Some (body, ucast t), rest)"
    by (auto simp: CBS_get_asn1_def cbs_get_asn1_def CBS_get_any_asn1_def split: prod.splits option.splits)
  also have "\<dots> \<longleftrightarrow> t AND 0x1f \<noteq> 0x1f \<and> length body < 2 ^ 32 \<and> c = der_element t body @ rest"
    using any_asn1_accepts_der any_asn1_only_der inj by metis
  finally show ?thesis .
qed

lemma asn1_uint64_loop_eq:
  "asn1_uint64_loop out bs =
    (if unat out * 256 ^ length bs + be_nat bs < 2 ^ 64
     then Some (of_nat (unat out * 256 ^ length bs + be_nat bs)) else None)"
proof (induction bs arbitrary: out)
  case Nil
  then show ?case using unsigned_less [of out] by simp
next
  case (Cons b bs)
  have top: "drop_bit 56 out = 0 \<longleftrightarrow> unat out < 2 ^ 56"
    by (simp add: word_unat_eq_iff unat_drop_bit div_eq_0_iff)
  show ?case
  proof (cases "unat out < 2 ^ 56")
    case True
    then have r: "unat out * 2 ^ 8 < 2 ^ LENGTH(64)" by simp
    have "unat (push_bit 8 out OR (ucast b :: u64)) = unat out * 2 ^ 8 + unat (ucast b :: u64)"
      by (rule unat_push_bit_OR [OF r]) (simp_all add: byte_simps)
    then have "unat (push_bit 8 out OR (ucast b :: u64)) = unat out * 256 + unat b"
      by (simp add: byte_simps)
    then show ?thesis using True Cons.IH [of "push_bit 8 out OR ucast b"]
      by (simp add: top be_nat_Cons algebra_simps)
  next
    case False
    have "2 ^ 64 \<le> unat out * (256::nat) ^ 1" using False by simp
    also have "\<dots> \<le> unat out * 256 ^ length (b # bs)" by (intro mult_le_mono2 power_increasing) auto
    finally show ?thesis using False by (simp add: top)
  qed
qed

lemma der_uint_iff:
  "body = der_uint n \<longleftrightarrow>
   body \<noteq> [] \<and> body ! 0 AND 0x80 = 0 \<and> \<not> (body ! 0 = 0 \<and> 1 < length body \<and> body ! 1 AND 0x80 = 0) \<and>
   be_nat body = n" (is "?l \<longleftrightarrow> ?r")
proof
  assume ?l
  show ?r
  proof (cases "hd (min_be n) AND 0x80 = 0")
    case True
    then have b: "body = min_be n" using \<open>?l\<close> by (simp add: der_uint_def)
    have "n = 0" if "hd (min_be n) = 0" using that hd_min_be [of n] by auto
    then show ?thesis using True b
      by (auto simp: hd_conv_nth be_nat_min_be) (simp add: min_be.simps)
  next
    case False
    then show ?thesis using \<open>?l\<close>
      by (auto simp: der_uint_def be_nat_Cons be_nat_min_be hd_conv_nth)
  qed
next
  assume ?r
  then obtain b bs where body: "body = b # bs" by (cases body) auto
  show ?l
  proof (cases "b = 0")
    case False
    then have "min_be (be_nat body) = body" by (intro min_be_be_nat) (auto simp: body)
    then show ?thesis using \<open>?r\<close> by (auto simp: der_uint_def body)
  next
    case True
    show ?thesis
    proof (cases bs)
      case Nil
      then show ?thesis using \<open>?r\<close> True by (auto simp: body der_uint_def be_nat_def min_be.simps)
    next
      case (Cons d ds)
      then have d: "d AND 0x80 \<noteq> 0" and n: "be_nat bs = n" using \<open>?r\<close> True by (auto simp: body be_nat_Cons)
      moreover have "d \<noteq> 0" using d by auto
      ultimately have "min_be n = bs" using Cons min_be_be_nat [of bs] by auto
      then show ?thesis using d True by (simp add: der_uint_def body Cons)
    qed
  qed
qed

lemma length_der_uint: "n < 2 ^ 64 \<Longrightarrow> length (der_uint n) \<le> 9"
  using length_min_be [of n 8] by (simp add: der_uint_def)

lemma length_prefixed_iff:
  assumes "unat n = k" "1 \<le> k" "k \<le> 4"
  shows "cbs_get_length_prefixed c n = (Some body, rest) \<longleftrightarrow>
    length body < 256 ^ k \<and> c = be_bytes k (length body) @ body @ rest" (is "?l \<longleftrightarrow> ?r")
proof
  assume ?l
  then obtain len c' where len: "cbs_get_u c n = (Some len, c')"
      and body: "CBS_get_bytes c' (ucast len) = (Some body, rest)"
    by (auto simp: cbs_get_length_prefixed_def split: prod.splits option.splits)
  then obtain p where c: "c = p @ c'" "length p = k" "len = cbs_get_u_loop 0 p"
    using assms(1) by (auto simp: cbs_get_u_def dest: cbs_get_SomeD split: prod.splits option.splits)
  have "unat len = be_nat p" using c assms cbs_get_u_loop_be by simp
  moreover have "c' = body @ rest" "length body = unat len"
    using body by (auto simp: CBS_get_bytes_eq byte_simps split: if_splits)
  ultimately show ?r using c be_nat_less [of p] be_bytes_be_nat [of p] by simp
next
  assume r: ?r
  have "(256::nat) ^ k \<le> 256 ^ 4" using assms by (intro power_increasing) auto
  then have "length body < 2 ^ 32" using r by simp
  then have "unat (ucast (of_nat (length body) :: u32) :: size_t) = length body"
    by (simp add: byte_simps unat_of_nat_eq)
  moreover have "be_nat (be_bytes k (length body)) = length body"
    using r by (simp add: be_nat_be_bytes)
  ultimately show ?l using r assms
    by (simp add: cbs_get_length_prefixed_def cbs_get_u_append CBS_get_bytes_append)
qed


lemma asn1_uint64_exact:
  "CBS_get_asn1_uint64 c = (Some v, rest) \<longleftrightarrow> c = der_element 2 (der_uint (unat v)) @ rest"
proof -
  have get: "CBS_get_asn1 c 2 = (Some body, rest) \<longleftrightarrow> length body < 2 ^ 32 \<and> c = der_element 2 body @ rest"
    for body using CBS_get_asn1_iff [of c 2 body rest] by simp
  have loop: "asn1_uint64_loop 0 body = Some v \<longleftrightarrow> be_nat body = unat v" for body
    using unat_bound [of v] by (auto simp: asn1_uint64_loop_eq unat_of_nat_eq)
  have "CBS_get_asn1_uint64 c = (Some v, rest) \<longleftrightarrow>
      (\<exists>body. CBS_get_asn1 c 2 = (Some body, rest) \<and> body = der_uint (unat v))"
    unfolding CBS_get_asn1_uint64_def
    by (simp only: der_uint_iff [of _ "unat v"] flip: loop)
       (auto split: prod.splits option.splits if_splits)
  then show ?thesis
    using get length_der_uint [of "unat v"] unat_bound [of v] by auto
qed

section \<open>Bit strings\<close>

definition msb_bits :: "bytes \<Rightarrow> bool list" where
  "msb_bits bs = concat (map (\<lambda>b. map (bit b) (rev [0..<8])) bs)"

lemma length_msb_bits [simp]: "length (msb_bits bs) = 8 * length bs"
  by (induction bs) (auto simp: msb_bits_def)

lemma nth_msb_bits:
  "i < 8 * length bs \<Longrightarrow> msb_bits bs ! i = bit (bs ! (i div 8)) (7 - i mod 8)"
proof (induction bs arbitrary: i)
  case (Cons b bs)
  have split: "msb_bits (b # bs) = map (bit b) (rev [0..<8]) @ msb_bits bs"
    by (simp add: msb_bits_def)
  show ?case
  proof (cases "i < 8")
    case True
    then show ?thesis by (simp add: split nth_append rev_nth)
  next
    case False
    then obtain j where i: "i = j + 8" by (metis add.commute le_add_diff_inverse not_less)
    then show ?thesis using Cons by (simp add: split nth_append div_add_self2 [of 8 j, simplified])
  qed
qed simp

lemma bit_test_byte:
  assumes "n < 32"
  shows "(ucast (x :: u8) :: u32) AND 2 ^ n \<noteq> 0 \<longleftrightarrow> bit x n"
proof -
  have "(ucast x :: u32) AND 2 ^ n = 0 \<longleftrightarrow> \<not> bit (ucast x :: u32) n" by (rule and_exp_eq_0_iff_not_bit)
  then show ?thesis using assms by (simp add: bit_ucast_iff)
qed

lemma low_bits_zero:
  assumes "n \<le> 7"
  shows "(ucast (x :: u8) :: u32) AND (2 ^ n - 1) = 0 \<longleftrightarrow> unat x mod 2 ^ n = 0"
proof -
  have "(ucast x :: u32) AND (2 ^ n - 1) = take_bit n (ucast x)"
    by (simp add: take_bit_eq_mask mask_eq_exp_minus_1)
  then show ?thesis
    by (simp add: word_unat_eq_iff unsigned_take_bit_eq byte_simps flip: take_bit_eq_mod)
qed

lemma CBS_is_valid_asn1_bitstring_iff:
  "CBS_is_valid_asn1_bitstring c \<longleftrightarrow>
    (\<exists>u bs. c = u # bs \<and> unat u \<le> 7 \<and> (u = 0 \<or> (bs \<noteq> [] \<and> unat (last bs) mod 2 ^ unat u = 0)))"
  by (auto simp: CBS_is_valid_asn1_bitstring_def CBS_get_u8_cases CBS_get_last_u8_def
      word_less_nat_alt low_bits_zero split: list.splits if_splits)

lemma unat_bit_index:
  fixes b :: u32
  shows "unat (drop_bit 3 b + 1) = unat b div 8 + 1" "unat (7 - (b AND 7)) = 7 - unat b mod 8"
proof -
  have "unat b div 8 + 1 < 2 ^ 32" using unat_bound [of b] by simp
  then show "unat (drop_bit 3 b + 1) = unat b div 8 + 1" by (simp add: unat_word_ariths unat_drop_bit)
  have m: "unat (b AND 7) = unat b mod 8" using unat_and_mask [of b 3] by (simp add: mask_eq_exp_minus_1)
  then have "b AND 7 \<le> 7" by (simp add: word_le_nat_alt)
  then show "unat (7 - (b AND 7)) = 7 - unat b mod 8" by (simp add: unat_sub m)
qed

section \<open>Properties\<close>

text \<open>
  C1. \<open>CBS_get_any_asn1\<close> accepts exactly the DER elements: it succeeds with contents
  \<open>body\<close>, tag and remaining input \<open>rest\<close> if and only if the input is the one DER
  encoding (single identifier octet with tag number below 31, minimal definite length) of
  \<open>body\<close> followed by \<open>rest\<close>. So parsing is deterministic, never reads past the element
  and rejects every non-minimal length.
\<close>

theorem CBS_get_any_asn1_exactly_DER:
  "CBS_get_any_asn1 c = (Some (body, tag), rest) \<longleftrightarrow>
   (\<exists>t. tag = ucast t \<and> t AND 0x1f \<noteq> 0x1f \<and> length body < 2 ^ 32 \<and> c = der_element t body @ rest)"
  using any_asn1_accepts_der any_asn1_only_der by blast

text \<open>
  C2. \<open>CBS_get_asn1_uint64\<close> returns \<open>v\<close> if and only if the input starts with the one
  DER INTEGER that encodes \<open>v\<close>: negative numbers, empty contents, superfluous leading
  zeros and values of 2^64 or more are all rejected, and the value is read without loss.
\<close>

theorem CBS_get_asn1_uint64_exact:
  "CBS_get_asn1_uint64 c = (Some v, rest) \<longleftrightarrow> c = der_element 2 (der_uint (unat v)) @ rest"
  by (rule asn1_uint64_exact)

text \<open>
  \<open>CBS_get_u16_length_prefixed\<close> succeeds if and only if the input is a two-byte
  big-endian length, that many bytes, and the rest, which it returns as its two parts.
\<close>

theorem CBS_get_u16_length_prefixed_exact:
  "CBS_get_u16_length_prefixed c = (Some body, rest) \<longleftrightarrow>
   length body < 2 ^ 16 \<and> c = be_bytes 2 (length body) @ body @ rest"
  unfolding CBS_get_u16_length_prefixed_def by (subst length_prefixed_iff [of 2 2]) auto

text \<open>
  C3. On a BIT STRING, \<open>CBS_asn1_bitstring_has_bit\<close> answers whether the numbered bit,
  counted from the most significant bit of the first content byte, is present and set; it
  is false for every string whose unused bits are miscounted or not zero.
\<close>

theorem CBS_asn1_bitstring_has_bit_spec:
  assumes "length c < 2 ^ 64"
  shows "CBS_asn1_bitstring_has_bit c b \<longleftrightarrow>
    CBS_is_valid_asn1_bitstring c \<and> unat b < 8 * length (tl c) \<and> msb_bits (tl c) ! unat b"
proof (cases "CBS_is_valid_asn1_bitstring c")
  case True
  then obtain u bs where c: "c = u # bs" by (auto simp: CBS_is_valid_asn1_bitstring_iff)
  have len: "(ucast (drop_bit 3 b + 1) :: size_t) < CBS_len c \<longleftrightarrow> unat b < 8 * length bs"
    using assms by (auto simp: CBS_len_def c word_less_nat_alt byte_simps unat_bit_index simp del: of_nat_Suc)
  have "(ucast (CBS_data c ! unat (drop_bit 3 b + 1)) :: u32) AND push_bit (unat (7 - (b AND 7))) 1 \<noteq> 0
      \<longleftrightarrow> bit (bs ! (unat b div 8)) (7 - unat b mod 8)"
    by (simp add: bit_test_byte unat_bit_index CBS_data_def c)
  then show ?thesis
    using True len by (auto simp: CBS_asn1_bitstring_has_bit_def Let_def c nth_msb_bits)
qed (simp add: CBS_asn1_bitstring_has_bit_def)

theorem CBS_asn1_bitstring_has_bit_witness:
  "length [1, 0xa0 :: u8] < 2 ^ 64 \<and> CBS_asn1_bitstring_has_bit [1, 0xa0] 2"
  using CBS_asn1_bitstring_has_bit_spec [of "[1, 0xa0]" 2]
  by (simp add: CBS_is_valid_asn1_bitstring_iff nth_msb_bits bit_iff_odd)

end
