(* ===== verification/Cbb.thy ===== *)
theory Cbb
  imports Cbs
begin

text \<open>
  The byte-string builder of \<open>BoringSSL/crypto/bytestring/cbb.c\<close>. All the \<open>CBB\<close>s of
  one message share one \<open>cbb_buffer_st\<close>, and each has at most one open child, so the
  objects reachable from a \<open>CBB\<close> form a chain. A \<open>CBB\<close> is modelled by its buffer
  (\<open>None\<close> is the null \<open>base\<close>) and the chain of its open descendants, nearest first. An
  operation on a child is the operation on the tail of the chain (\<open>in_child\<close>); a child
  that was flushed or discarded is no longer in the chain, and using it fails, as its null
  \<open>base\<close> makes it fail in the code.

  \<open>b_buf\<close> is the whole allocation of \<open>b_cap\<close> bytes; bytes past \<open>b_len\<close> are whatever
  the allocator or an earlier write left there. A pointer into the buffer is an index.
\<close>

section \<open>Definitions\<close>

record cbb_buffer =
  b_buf :: bytes
  b_len :: size_t
  b_cap :: size_t
  can_resize :: bool
  b_error :: bool

record cbb_child =
  c_offset :: size_t
  pending_len_len :: u8
  pending_is_asn1 :: bool

record CBB =
  base :: "cbb_buffer option"
  children :: "cbb_child list"
  is_top_level :: bool

abbreviation buffer_err :: "cbb_buffer \<Rightarrow> cbb_buffer" where
  "buffer_err b \<equiv> b\<lparr>b_error := True\<rparr>"

subsection \<open>The buffer\<close>

definition CBB_zero :: CBB where
  "CBB_zero = \<lparr>base = None, children = [], is_top_level = False\<rparr>"

text \<open>\<open>sizeof(struct cbb_buffer_st)\<close> is 32.\<close>

definition cbb_init :: "heap_env \<Rightarrow> CBB \<Rightarrow> bytes \<Rightarrow> size_t \<Rightarrow> (unit, CBB) outcome" where
  "cbb_init env cbb bf cp =
     (if \<not> alloc_ok env 32 then (None, cbb)
      else (Some (), cbb\<lparr>base := Some \<lparr>b_buf = bf, b_len = 0, b_cap = cp, can_resize = True,
                                       b_error = False\<rparr>,
                         is_top_level := True\<rparr>))"

definition CBB_init :: "heap_env \<Rightarrow> size_t \<Rightarrow> (unit, CBB) outcome" where
  "CBB_init env initial_capacity =
     (if initial_capacity > 0 \<and> \<not> alloc_ok env initial_capacity then (None, CBB_zero)
      else cbb_init env CBB_zero (map (fresh env) [0..<unat initial_capacity]) initial_capacity)"

definition CBB_init_fixed :: "heap_env \<Rightarrow> bytes \<Rightarrow> size_t \<Rightarrow> (unit, CBB) outcome" where
  "CBB_init_fixed env bf len =
     (case cbb_init env CBB_zero bf len of
        (None, c) \<Rightarrow> (None, c)
      | (Some _, c) \<Rightarrow> (Some (), c\<lparr>base := map_option (can_resize_update (\<lambda>_. False)) (base c)\<rparr>))"

definition CBB_cleanup :: "CBB \<Rightarrow> CBB" where
  "CBB_cleanup cbb = cbb\<lparr>base := None\<rparr>"

definition cbb_buffer_reserve ::
    "heap_env \<Rightarrow> cbb_buffer \<Rightarrow> size_t \<Rightarrow> (size_t, cbb_buffer) outcome" where
  "cbb_buffer_reserve env b len =
     (let newlen = b_len b + len in
      if newlen < b_len b then (None, buffer_err b)
      else if newlen > b_cap b then
        if \<not> can_resize b then (None, buffer_err b)
        else
          let newcap = b_cap b * 2;
              newcap = (if newcap < b_cap b \<or> newcap < newlen then newlen else newcap)
          in if \<not> alloc_ok env newcap then (None, buffer_err b)
             else (Some (b_len b),
                   b\<lparr>b_buf := take (unat (b_cap b)) (b_buf b) @
                               map (fresh env) [unat (b_cap b)..<unat newcap],
                     b_cap := newcap\<rparr>)
      else (Some (b_len b), b))"

definition cbb_buffer_add ::
    "heap_env \<Rightarrow> cbb_buffer \<Rightarrow> size_t \<Rightarrow> (size_t, cbb_buffer) outcome" where
  "cbb_buffer_add env b len =
     (case cbb_buffer_reserve env b len of
        (None, b) \<Rightarrow> (None, b)
      | (Some out, b) \<Rightarrow> (Some out, b\<lparr>b_len := b_len b + len\<rparr>))"

text \<open>
  The loop \<open>for (i = n - 1; i < n; i--) { buf[off + i] = v; v >>= 8; }\<close>, which ends when
  \<open>i\<close> wraps around; the result is the array and what is left of \<open>v\<close>.
\<close>

primrec write_be :: "nat \<Rightarrow> bytes \<Rightarrow> nat \<Rightarrow> 'a::len word \<Rightarrow> bytes \<times> 'a word" where
  "write_be 0 bf off v = (bf, v)"
| "write_be (Suc i) bf off v = write_be i (bf[off + i := ucast v]) off (drop_bit 8 v)"

definition cbb_buffer_add_u ::
    "heap_env \<Rightarrow> cbb_buffer \<Rightarrow> u32 \<Rightarrow> size_t \<Rightarrow> (unit, cbb_buffer) outcome" where
  "cbb_buffer_add_u env b v len_len =
     (if len_len = 0 then (Some (), b)
      else case cbb_buffer_add env b len_len of
        (None, b) \<Rightarrow> (None, b)
      | (Some out, b) \<Rightarrow>
          let (bf, v) = write_be (unat len_len) (b_buf b) (unat out) v;
              b = b\<lparr>b_buf := bf\<rparr>
          in if v \<noteq> 0 then (None, buffer_err b) else (Some (), b))"

subsection \<open>Flushing\<close>

text \<open>
  The length octets of an ASN.1 child: number of octets including the first, first octet, and
  the value the following octets carry; \<open>None\<close> is \<open>goto err\<close>.
\<close>

definition asn1_len_octets :: "size_t \<Rightarrow> (u8 \<times> u8 \<times> size_t) option" where
  "asn1_len_octets len =
     (if len > 0xfffffffe then None
      else if len > 0xffffff then Some (5, 0x80 OR 4, len)
      else if len > 0xffff then Some (4, 0x80 OR 3, len)
      else if len > 0xff then Some (3, 0x80 OR 2, len)
      else if len > 0x7f then Some (2, 0x80 OR 1, len)
      else Some (1, ucast len, 0))"

text \<open>
  \<open>flush_child\<close> is \<open>CBB_flush\<close> from the computation of \<open>len\<close> on: it writes the length
  prefix of the child \<open>ch\<close>, after moving the contents along when an ASN.1 length needs more
  than the one octet set aside. The \<open>memmove\<close> copies \<open>len\<close> bytes.
\<close>

definition flush_asn1_shift ::
    "heap_env \<Rightarrow> cbb_buffer \<Rightarrow> nat \<Rightarrow> size_t \<Rightarrow> u8 \<Rightarrow> (unit, cbb_buffer) outcome" where
  "flush_asn1_shift env b child_start len len_len =
     (if len_len = 1 then (Some (), b)
      else
        let extra_bytes = ucast len_len - 1 :: size_t in
        case cbb_buffer_add env b extra_bytes of
          (None, b) \<Rightarrow> (None, b)
        | (Some _, b) \<Rightarrow>
           (Some (), b\<lparr>b_buf := poke (b_buf b) (child_start + unat extra_bytes)
                                  (take (unat len) (drop child_start (b_buf b)))\<rparr>))"

definition flush_write ::
    "cbb_buffer \<Rightarrow> cbb_child \<Rightarrow> size_t \<Rightarrow> (unit, cbb_buffer \<times> cbb_child list) outcome" where
  "flush_write b ch len =
     (let (bf, len) = write_be (unat (pending_len_len ch)) (b_buf b) (unat (c_offset ch)) len;
          b = b\<lparr>b_buf := bf\<rparr>
      in if len \<noteq> 0 then (None, buffer_err b, [ch]) else (Some (), b, []))"

definition flush_child ::
    "heap_env \<Rightarrow> cbb_buffer \<Rightarrow> cbb_child \<Rightarrow> size_t \<Rightarrow>
     (unit, cbb_buffer \<times> cbb_child list) outcome" where
  "flush_child env b ch child_start =
     (let len = b_len b - child_start in
      if pending_is_asn1 ch then
        case asn1_len_octets len of
          None \<Rightarrow> (None, buffer_err b, [ch])
        | Some (len_len, initial_length_byte, len') \<Rightarrow>
           (case flush_asn1_shift env b (unat child_start) len' len_len of
              (None, b) \<Rightarrow> (None, buffer_err b, [ch])
            | (Some _, b) \<Rightarrow>
                flush_write
                  (b\<lparr>b_buf := (b_buf b)[unat (c_offset ch) := initial_length_byte]\<rparr>)
                  (ch\<lparr>c_offset := c_offset ch + 1, pending_len_len := len_len - 1\<rparr>) len')
      else flush_write b ch len)"

fun cbb_flush_chain ::
    "heap_env \<Rightarrow> cbb_child list \<Rightarrow> cbb_buffer \<Rightarrow> (unit, cbb_buffer \<times> cbb_child list) outcome" where
  "cbb_flush_chain env [] b = (if b_error b then (None, b, []) else (Some (), b, []))"
| "cbb_flush_chain env (ch # chs) b =
     (if b_error b then (None, b, ch # chs)
      else if pending_len_len ch = 0 then (Some (), b, ch # chs)
      else
        let child_start = c_offset ch + ucast (pending_len_len ch) in
        case cbb_flush_chain env chs b of
          (None, b, chs) \<Rightarrow> (None, buffer_err b, ch # chs)
        | (Some _, b, chs) \<Rightarrow>
            if child_start < c_offset ch \<or> b_len b < child_start
            then (None, buffer_err b, ch # chs)
            else flush_child env b ch child_start)"

definition CBB_flush :: "heap_env \<Rightarrow> CBB \<Rightarrow> (unit, CBB) outcome" where
  "CBB_flush env cbb =
     (case base cbb of
        None \<Rightarrow> (None, cbb)
      | Some b \<Rightarrow>
       (case cbb_flush_chain env (children cbb) b of
          (r, b, chs) \<Rightarrow> (r, cbb\<lparr>base := Some b, children := chs\<rparr>)))"


text \<open>
  \<open>CBB_finish\<close> with non-null out-parameters: the buffer's bytes up to its length, and the
  \<open>CBB\<close> cleaned up.
\<close>

definition CBB_finish :: "heap_env \<Rightarrow> CBB \<Rightarrow> (bytes, CBB) outcome" where
  "CBB_finish env cbb =
     (if \<not> is_top_level cbb then (None, cbb)
      else case CBB_flush env cbb of
        (None, cbb) \<Rightarrow> (None, cbb)
      | (Some _, cbb) \<Rightarrow>
         (case base cbb of
            None \<Rightarrow> (None, cbb)
          | Some b \<Rightarrow> (Some (take (unat (b_len b)) (b_buf b)), CBB_cleanup cbb)))"

text \<open>An operation on the nearest open child.\<close>

definition in_child :: "(CBB \<Rightarrow> ('a, CBB) outcome) \<Rightarrow> CBB \<Rightarrow> ('a, CBB) outcome" where
  "in_child f cbb =
     (case children cbb of
        [] \<Rightarrow> (None, cbb)
      | ch # chs \<Rightarrow>
         (case f (cbb\<lparr>children := chs, is_top_level := False\<rparr>) of
            (r, c) \<Rightarrow> (r, c\<lparr>children := ch # children c, is_top_level := is_top_level cbb\<rparr>)))"

subsection \<open>Adding\<close>

text \<open>
  After a successful flush the code works on \<open>cbb->base\<close>; \<open>with_base\<close> runs such a step.
\<close>

definition with_base ::
    "(cbb_buffer \<Rightarrow> ('a, cbb_buffer) outcome) \<Rightarrow> CBB \<Rightarrow> ('a, CBB) outcome" where
  "with_base f cbb =
     (case base cbb of
        None \<Rightarrow> (None, cbb)
      | Some b \<Rightarrow> (case f b of (r, b) \<Rightarrow> (r, cbb\<lparr>base := Some b\<rparr>)))"

definition flush_then ::
    "heap_env \<Rightarrow> (cbb_buffer \<Rightarrow> ('a, cbb_buffer) outcome) \<Rightarrow> CBB \<Rightarrow> ('a, CBB) outcome" where
  "flush_then env f cbb =
     (case CBB_flush env cbb of (None, cbb) \<Rightarrow> (None, cbb) | (Some _, cbb) \<Rightarrow> with_base f cbb)"

definition CBB_add_u8 :: "heap_env \<Rightarrow> u8 \<Rightarrow> CBB \<Rightarrow> (unit, CBB) outcome" where
  "CBB_add_u8 env v = flush_then env (\<lambda>b. cbb_buffer_add_u env b (ucast v) 1)"

definition CBB_add_u16 :: "heap_env \<Rightarrow> u16 \<Rightarrow> CBB \<Rightarrow> (unit, CBB) outcome" where
  "CBB_add_u16 env v = flush_then env (\<lambda>b. cbb_buffer_add_u env b (ucast v) 2)"

definition CBB_add_u24 :: "heap_env \<Rightarrow> u32 \<Rightarrow> CBB \<Rightarrow> (unit, CBB) outcome" where
  "CBB_add_u24 env v = flush_then env (\<lambda>b. cbb_buffer_add_u env b v 3)"

definition CBB_add_u32 :: "heap_env \<Rightarrow> u32 \<Rightarrow> CBB \<Rightarrow> (unit, CBB) outcome" where
  "CBB_add_u32 env v = flush_then env (\<lambda>b. cbb_buffer_add_u env b v 4)"

definition CBB_add_bytes :: "heap_env \<Rightarrow> bytes \<Rightarrow> CBB \<Rightarrow> (unit, CBB) outcome" where
  "CBB_add_bytes env data =
     flush_then env (\<lambda>b. case cbb_buffer_add env b (of_nat (length data)) of
         (None, b) \<Rightarrow> (None, b)
       | (Some dest, b) \<Rightarrow> (Some (), b\<lparr>b_buf := poke (b_buf b) (unat dest) data\<rparr>))"

definition CBB_add_space :: "heap_env \<Rightarrow> size_t \<Rightarrow> CBB \<Rightarrow> (size_t, CBB) outcome" where
  "CBB_add_space env len = flush_then env (\<lambda>b. cbb_buffer_add env b len)"

definition CBB_reserve :: "heap_env \<Rightarrow> size_t \<Rightarrow> CBB \<Rightarrow> (size_t, CBB) outcome" where
  "CBB_reserve env len = flush_then env (\<lambda>b. cbb_buffer_reserve env b len)"

definition CBB_did_write :: "size_t \<Rightarrow> CBB \<Rightarrow> (unit, CBB) outcome" where
  "CBB_did_write len cbb =
     with_base (\<lambda>b.
       let newlen = b_len b + len in
       if children cbb \<noteq> [] \<or> newlen < b_len b \<or> newlen > b_cap b then (None, b)
       else (Some (), b\<lparr>b_len := newlen\<rparr>)) cbb"

definition CBB_discard_child :: "CBB \<Rightarrow> CBB" where
  "CBB_discard_child cbb =
     (case children cbb of
        [] \<Rightarrow> cbb
      | ch # _ \<Rightarrow> cbb\<lparr>base := map_option (b_len_update (\<lambda>_. c_offset ch)) (base cbb), children := []\<rparr>)"

definition cbb_add_length_prefixed :: "heap_env \<Rightarrow> u8 \<Rightarrow> CBB \<Rightarrow> (unit, CBB) outcome" where
  "cbb_add_length_prefixed env len_len cbb =
     (case flush_then env (\<lambda>b. case cbb_buffer_add env b (ucast len_len) of
               (None, b) \<Rightarrow> (None, b)
             | (Some prefix, b) \<Rightarrow>
                 (Some prefix, b\<lparr>b_buf := poke (b_buf b) (unat prefix) (replicate (unat len_len) 0)\<rparr>))
             cbb of
        (None, cbb) \<Rightarrow> (None, cbb)
      | (Some prefix, cbb) \<Rightarrow>
          (Some (), cbb\<lparr>children := [\<lparr>c_offset = prefix, pending_len_len = len_len,
                                      pending_is_asn1 = False\<rparr>]\<rparr>))"

definition CBB_add_u8_length_prefixed :: "heap_env \<Rightarrow> CBB \<Rightarrow> (unit, CBB) outcome" where
  "CBB_add_u8_length_prefixed env = cbb_add_length_prefixed env 1"

definition CBB_add_u16_length_prefixed :: "heap_env \<Rightarrow> CBB \<Rightarrow> (unit, CBB) outcome" where
  "CBB_add_u16_length_prefixed env = cbb_add_length_prefixed env 2"

definition CBB_add_u24_length_prefixed :: "heap_env \<Rightarrow> CBB \<Rightarrow> (unit, CBB) outcome" where
  "CBB_add_u24_length_prefixed env = cbb_add_length_prefixed env 3"

text \<open>
  \<open>CBB_add_asn1\<close>: the offset of the child is the buffer's length after the tag. On a null
  \<open>base\<close> with a bad tag the code dereferences null; the model fails.
\<close>

definition CBB_add_asn1 :: "heap_env \<Rightarrow> u32 \<Rightarrow> CBB \<Rightarrow> (unit, CBB) outcome" where
  "CBB_add_asn1 env tag cbb =
     (if tag > 0xff \<or> tag AND 0x1f = 0x1f
      then (None, cbb\<lparr>base := map_option buffer_err (base cbb)\<rparr>)
      else case CBB_flush env cbb of
        (None, cbb) \<Rightarrow> (None, cbb)
      | (Some _, cbb) \<Rightarrow>
       (case CBB_add_u8 env (ucast tag) cbb of
          (None, cbb) \<Rightarrow> (None, cbb)
        | (Some _, cbb) \<Rightarrow>
         (case base cbb of
            None \<Rightarrow> (None, cbb)
          | Some b \<Rightarrow>
             (case CBB_add_u8 env 0 cbb of
                (None, cbb) \<Rightarrow> (None, cbb)
              | (Some _, cbb) \<Rightarrow>
                  (Some (), cbb\<lparr>children := [\<lparr>c_offset = b_len b, pending_len_len = 1,
                                              pending_is_asn1 = True\<rparr>]\<rparr>)))))"

text \<open>
  \<open>CBB_add_asn1_uint64\<close>: the loop over the eight bytes, most significant first, with the
  flag \<open>started\<close>; the bytes go to the child.
\<close>

primrec uint64_loop ::
    "heap_env \<Rightarrow> u64 \<Rightarrow> nat list \<Rightarrow> bool \<Rightarrow> CBB \<Rightarrow> (bool, CBB) outcome" where
  "uint64_loop env v [] started cbb = (Some started, cbb)"
| "uint64_loop env v (i # idx) started cbb =
     (let byte = ucast (drop_bit (8 * (7 - i)) v AND 0xff) :: u8 in
      if \<not> started \<and> byte = 0 then uint64_loop env v idx started cbb
      else
        case (if \<not> started \<and> byte AND 0x80 \<noteq> 0 then in_child (CBB_add_u8 env 0) cbb
              else (Some (), cbb)) of
          (None, cbb) \<Rightarrow> (None, cbb)
        | (Some _, cbb) \<Rightarrow>
           (case in_child (CBB_add_u8 env byte) cbb of
              (None, cbb) \<Rightarrow> (None, cbb)
            | (Some _, cbb) \<Rightarrow> uint64_loop env v idx True cbb))"

definition CBB_add_asn1_uint64 :: "heap_env \<Rightarrow> u64 \<Rightarrow> CBB \<Rightarrow> (unit, CBB) outcome" where
  "CBB_add_asn1_uint64 env v cbb =
     (case CBB_add_asn1 env CBS_ASN1_INTEGER cbb of
        (None, cbb) \<Rightarrow> (None, cbb)
      | (Some _, cbb) \<Rightarrow>
       (case uint64_loop env v [0..<8] False cbb of
          (None, cbb) \<Rightarrow> (None, cbb)
        | (Some started, cbb) \<Rightarrow>
           (case (if \<not> started then in_child (CBB_add_u8 env 0) cbb else (Some (), cbb)) of
              (None, cbb) \<Rightarrow> (None, cbb)
            | (Some _, cbb) \<Rightarrow> CBB_flush env cbb)))"

subsection \<open>Object identifiers\<close>

function base128_len_loop :: "u32 \<Rightarrow> u32 \<Rightarrow> u32" where
  "base128_len_loop len_len copy =
     (if copy > 0 then base128_len_loop (len_len + 1) (drop_bit 7 copy) else len_len)"
  by pat_completeness auto
termination
  by (relation "measure (\<lambda>(_, copy). unat copy)")
    (auto simp: unat_drop_bit word_less_nat_alt)

declare base128_len_loop.simps [simp del]

primrec base128_byte_loop :: "heap_env \<Rightarrow> u32 \<Rightarrow> nat \<Rightarrow> CBB \<Rightarrow> (unit, CBB) outcome" where
  "base128_byte_loop env v 0 cbb = (Some (), cbb)"
| "base128_byte_loop env v (Suc i) cbb =
     (let byte = ucast (drop_bit (7 * i) v AND 0x7f) :: u8;
          byte = (if i \<noteq> 0 then byte OR 0x80 else byte)
      in case CBB_add_u8 env byte cbb of
           (None, cbb) \<Rightarrow> (None, cbb)
         | (Some _, cbb) \<Rightarrow> base128_byte_loop env v i cbb)"

definition add_base128_integer :: "heap_env \<Rightarrow> u32 \<Rightarrow> CBB \<Rightarrow> (unit, CBB) outcome" where
  "add_base128_integer env v cbb =
     (let len_len = base128_len_loop 0 v;
          len_len = (if len_len = 0 then 1 else len_len)
      in base128_byte_loop env v (unat len_len) cbb)"

fun parse_dotted_loop :: "u32 \<Rightarrow> bool \<Rightarrow> cbs \<Rightarrow> (u32, cbs) outcome" where
  "parse_dotted_loop out seen_digit [] = (if seen_digit then Some out else None, [])"
| "parse_dotted_loop out seen_digit (u # cs) =
     (if u = 0x2e \<and> cs \<noteq> [] then (if seen_digit then Some out else None, cs)
      else if u < 0x30 \<or> u > 0x39 \<or> (seen_digit \<and> out = 0) \<or> out > 0xffffffff div 10 \<or>
              out * 10 > 0xffffffff - (ucast u - 0x30)
      then (None, cs)
      else parse_dotted_loop (out * 10 + (ucast u - 0x30)) True cs)"

definition parse_dotted_decimal :: "cbs \<Rightarrow> (u32, cbs) outcome" where
  "parse_dotted_decimal cbs = parse_dotted_loop 0 False cbs"

lemma parse_dotted_loop_shorter:
  "cs \<noteq> [] \<Longrightarrow> length (snd (parse_dotted_loop out seen cs)) < length cs"
  "length (snd (parse_dotted_loop out seen cs)) \<le> length cs"
proof (induction out seen cs rule: parse_dotted_loop.induct)
  case (2 out seen u cs)
  { case 1 then show ?case using 2 by (auto simp: less_Suc_eq_le) next
    case 2 then show ?case using "2.IH" by (auto intro: le_SucI) }
qed simp_all

function oid_component_loop :: "heap_env \<Rightarrow> cbs \<Rightarrow> CBB \<Rightarrow> (unit, CBB) outcome" where
  "oid_component_loop env cs cbb =
     (if CBS_len cs > 0 then
        case parse_dotted_decimal cs of
          (None, _) \<Rightarrow> (None, cbb)
        | (Some a, cs) \<Rightarrow>
           (case add_base128_integer env a cbb of
              (None, cbb) \<Rightarrow> (None, cbb)
            | (Some _, cbb) \<Rightarrow> oid_component_loop env cs cbb)
      else (Some (), cbb))"
  by pat_completeness auto
termination
proof (relation "measure (\<lambda>(_, cs, _). length cs)", goal_cases)
  case (2 env cs cbb p r cs' a)
  then have "cs \<noteq> []" by (auto simp: CBS_len_def)
  then show ?case using 2 parse_dotted_loop_shorter(1) [of cs 0 False]
    by (auto simp: parse_dotted_decimal_def) (metis snd_conv)
qed simp

declare oid_component_loop.simps [simp del]

definition CBB_add_asn1_oid_from_text :: "heap_env \<Rightarrow> bytes \<Rightarrow> CBB \<Rightarrow> (unit, CBB) outcome" where
  "CBB_add_asn1_oid_from_text env text cbb =
     (case CBB_flush env cbb of
        (None, cbb) \<Rightarrow> (None, cbb)
      | (Some _, cbb) \<Rightarrow>
       (case parse_dotted_decimal text of
          (None, _) \<Rightarrow> (None, cbb)
        | (Some a, cs) \<Rightarrow>
         (case parse_dotted_decimal cs of
            (None, _) \<Rightarrow> (None, cbb)
          | (Some b, cs) \<Rightarrow>
              if a > 2 \<or> (a < 2 \<and> b > 39) \<or> b > 0xffffffff - 80 then (None, cbb)
              else case add_base128_integer env (40 * a + b) cbb of
                (None, cbb) \<Rightarrow> (None, cbb)
              | (Some _, cbb) \<Rightarrow> oid_component_loop env cs cbb)))"


section \<open>The buffer\<close>

definition buffer_wf :: "cbb_buffer \<Rightarrow> bool" where
  "buffer_wf b \<longleftrightarrow> length (b_buf b) = unat (b_cap b) \<and> unat (b_len b) \<le> unat (b_cap b)"

definition contents :: "cbb_buffer \<Rightarrow> bytes" where
  "contents b = take (unat (b_len b)) (b_buf b)"

text \<open>The buffer can be resized, and every allocation succeeds.\<close>

definition can_grow :: "heap_env \<Rightarrow> cbb_buffer \<Rightarrow> bool" where
  "can_grow env b \<longleftrightarrow> can_resize b \<and> (\<forall>n. alloc_ok env n)"

lemma length_contents: "buffer_wf b \<Longrightarrow> length (contents b) = unat (b_len b)"
  by (auto simp: buffer_wf_def contents_def)

lemma buffer_err_simps [simp]:
  "can_grow env (buffer_err b) = can_grow env b" "b_error (buffer_err b)"
  by (simp_all add: can_grow_def)

lemma wrap_iff:
  fixes x y :: "'a::len word"
  shows "x + y < x \<longleftrightarrow> 2 ^ LENGTH('a) \<le> unat x + unat y"
  using no_olen_add_nat [of x y] by (simp add: not_le [symmetric])

lemma unat_add_no_wrap:
  fixes x y :: "'a::len word"
  shows "\<not> x + y < x \<Longrightarrow> unat (x + y) = unat x + unat y"
  by (simp add: wrap_iff unat_word_ariths)

lemma grown_buffer:
  assumes "buffer_wf b" "b_cap b \<le> nc"
    and b': "b' = b\<lparr>b_buf := take (unat (b_cap b)) (b_buf b) @ map (fresh env) [unat (b_cap b)..<unat nc],
                    b_cap := nc\<rparr>"
  shows "buffer_wf b'" "contents b' = contents b"
proof -
  have "unat (b_cap b) \<le> unat nc" using assms(2) by (simp add: word_le_nat_alt)
  then show "buffer_wf b'" "contents b' = contents b"
    using assms(1) by (simp_all add: b' buffer_wf_def contents_def)
qed

lemma cbb_buffer_reserve_ok:
  assumes "buffer_wf b" "cbb_buffer_reserve env b n = (Some out, b')"
  shows "out = b_len b \<and> buffer_wf b' \<and> b_len b' = b_len b \<and> contents b' = contents b \<and>
    unat (b_len b) + unat n \<le> unat (b_cap b') \<and> unat (b_len b) + unat n < 2 ^ 64 \<and>
    b_error b' = b_error b \<and> can_grow env b' = can_grow env b"
proof -
  have nw: "\<not> b_len b + n < b_len b"
    using assms(2) by (auto simp: cbb_buffer_reserve_def Let_def split: if_splits)
  then have sum: "unat (b_len b + n) = unat (b_len b) + unat n" by (rule unat_add_no_wrap)
  then have bound: "unat (b_len b) + unat n < 2 ^ 64" using unat_bound [of "b_len b + n"] by simp
  show ?thesis
  proof (cases "b_len b + n > b_cap b")
    case False
    then have "b' = b \<and> out = b_len b" using assms(2) nw by (auto simp: cbb_buffer_reserve_def Let_def)
    then show ?thesis using False assms(1) sum bound by (auto simp: word_less_nat_alt not_less)
  next
    case True
    define nc where "nc = (if b_cap b * 2 < b_cap b \<or> b_cap b * 2 < b_len b + n then b_len b + n
      else b_cap b * 2)"
    have ge: "b_len b + n \<le> nc" "b_cap b \<le> nc" using True by (auto simp: nc_def)
    have b': "b' = b\<lparr>b_buf := take (unat (b_cap b)) (b_buf b) @ map (fresh env) [unat (b_cap b)..<unat nc],
                     b_cap := nc\<rparr>" and out: "out = b_len b"
      using assms(2) nw True unfolding cbb_buffer_reserve_def Let_def nc_def [symmetric]
      by (simp_all split: if_splits)
    have "unat (b_len b) + unat n \<le> unat nc" using ge(1) by (simp add: word_le_nat_alt sum)
    then show ?thesis
      using grown_buffer [OF assms(1) ge(2) b'] bound out by (simp add: b' can_grow_def)
  qed
qed

lemma cbb_buffer_reserve_fail:
  assumes "cbb_buffer_reserve env b n = (None, b')"
  shows "b_error b' \<and> \<not> (can_grow env b \<and> unat (b_len b) + unat n < 2 ^ 64)"
  using assms wrap_iff [of "b_len b" n]
  by (auto simp: cbb_buffer_reserve_def Let_def can_grow_def not_less split: if_splits)

lemma cbb_buffer_add_ok:
  assumes "buffer_wf b" "cbb_buffer_add env b n = (Some out, b')"
  shows "out = b_len b \<and> buffer_wf b' \<and> unat (b_len b') = unat (b_len b) + unat n \<and>
    take (unat (b_len b)) (b_buf b') = contents b \<and>
    b_error b' = b_error b \<and> can_grow env b' = can_grow env b"
proof -
  obtain b1 where r: "cbb_buffer_reserve env b n = (Some out, b1)" and b': "b' = b1\<lparr>b_len := b_len b1 + n\<rparr>"
    using assms(2) by (auto simp: cbb_buffer_add_def split: prod.splits option.splits)
  note * = cbb_buffer_reserve_ok [OF assms(1) r]
  then have "unat (b_len b1 + n) = unat (b_len b) + unat n" by (simp add: unat_word_ariths)
  then show ?thesis using * b' by (auto simp: buffer_wf_def contents_def can_grow_def)
qed

lemma cbb_buffer_add_fail:
  "cbb_buffer_add env b n = (None, b') \<Longrightarrow>
   b_error b' \<and> \<not> (can_grow env b \<and> unat (b_len b) + unat n < 2 ^ 64)"
  by (auto simp: cbb_buffer_add_def split: prod.splits option.splits dest: cbb_buffer_reserve_fail)

lemma write_be_split:
  "length m = n \<Longrightarrow>
   write_be n (pre @ m @ post) (length pre) v = (pre @ be_bytes n (unat v) @ post, drop_bit (8 * n) v)"
proof (induction n arbitrary: m post v)
  case (Suc n)
  obtain m' x where m: "m = m' @ [x]" "length m' = n"
    using Suc.prems by (metis length_Suc_conv_rev)
  have "write_be (Suc n) (pre @ m @ post) (length pre) v
      = write_be n (pre @ m' @ ucast v # post) (length pre) (drop_bit 8 v)"
    by (simp add: m list_update_append)
  also have "\<dots> = (pre @ be_bytes n (unat v div 256) @ ucast v # post, drop_bit (8 * n) (drop_bit 8 v))"
    using Suc.IH [of m' "ucast v # post" "drop_bit 8 v"] m by (simp add: unat_drop_bit)
  finally show ?case by (simp add: be_bytes_Suc add.commute)
qed simp


section \<open>What an open builder stands for\<close>

text \<open>
  An open length prefix is an ASN.1 length or a fixed-size one. \<open>encode_prefix\<close> is what
  closing it must produce from its contents. A builder state is abstracted to the bytes
  already written at the outer level and the list of open prefixes, outermost first, each with
  the bytes written directly inside it; \<open>closing\<close> is the byte string these stand for once
  everything is closed.
\<close>

datatype prefix = Asn1 | Fixed nat

fun prefix_len :: "prefix \<Rightarrow> nat" where
  "prefix_len Asn1 = 1"
| "prefix_len (Fixed n) = n"

fun prefix_fits :: "prefix \<Rightarrow> nat \<Rightarrow> bool" where
  "prefix_fits Asn1 n \<longleftrightarrow> n \<le> 0xfffffffe"
| "prefix_fits (Fixed k) n \<longleftrightarrow> n < 256 ^ k"

fun encode_prefix :: "prefix \<Rightarrow> bytes \<Rightarrow> bytes" where
  "encode_prefix Asn1 body = der_length (length body) @ body"
| "encode_prefix (Fixed n) body = be_bytes n (length body) @ body"

primrec closing :: "(prefix \<times> bytes) list \<Rightarrow> bytes" where
  "closing [] = []"
| "closing (e # es) = encode_prefix (fst e) (snd e @ closing es)"

primrec all_fit :: "(prefix \<times> bytes) list \<Rightarrow> bool" where
  "all_fit [] \<longleftrightarrow> True"
| "all_fit (e # es) \<longleftrightarrow> prefix_fits (fst e) (length (snd e @ closing es)) \<and> all_fit es"

text \<open>
  \<open>chain_rep off chs w es\<close>: the chain \<open>chs\<close> with the bytes \<open>w\<close> from offset \<open>off\<close>
  on stands for the open prefixes \<open>es\<close>.
\<close>

primrec chain_rep :: "nat \<Rightarrow> cbb_child list \<Rightarrow> bytes \<Rightarrow> (prefix \<times> bytes) list \<Rightarrow> bool" where
  "chain_rep off [] w es \<longleftrightarrow> es = [] \<and> w = []"
| "chain_rep off (ch # chs) w es \<longleftrightarrow>
     (\<exists>k q es' z w'. es = (k, q) # es' \<and> w = z @ q @ w' \<and> length z = prefix_len k \<and>
        unat (c_offset ch) = off \<and> unat (pending_len_len ch) = prefix_len k \<and> 0 < prefix_len k \<and>
        pending_is_asn1 ch = (k = Asn1) \<and> chain_rep (off + length z + length q) chs w' es')"

definition buffer_live :: "cbb_buffer \<Rightarrow> bool" where
  "buffer_live b \<longleftrightarrow> buffer_wf b \<and> \<not> b_error b"

lemma der_length_octets:
  assumes "256 ^ k \<le> n" "n < 256 ^ Suc k" "128 \<le> n"
  shows "der_length n = of_nat (128 + Suc k) # be_bytes (Suc k) n"
  using assms min_be_eq [of k n] by (simp add: der_length_def)

lemma asn1_len_octets_spec:
  fixes len :: size_t
  shows "asn1_len_octets len =
    (if unat len \<le> 0x7f then Some (1, of_nat (unat len), 0)
     else if unat len \<le> 0xfffffffe
     then (let k = length (der_length (unat len)) - 1
           in Some (of_nat (Suc k), hd (der_length (unat len)), len))
     else None)"
  using der_length_octets [of 0 "unat len"] der_length_octets [of 1 "unat len"]
    der_length_octets [of 2 "unat len"] der_length_octets [of 3 "unat len"]
  by (simp add: asn1_len_octets_def word_less_nat_alt)

lemma der_length_long:
  assumes "0x7f < n" "n \<le> 0xfffffffe"
  obtains k where "1 \<le> k" "k \<le> 4" "n < 256 ^ k" "der_length n = of_nat (128 + k) # be_bytes k n"
proof -
  have "256 ^ (length (min_be n) - 1) \<le> n" using assms by (intro length_min_be_bounds) simp
  moreover have "n < 256 ^ length (min_be n)" by (rule length_min_be_bounds)
  moreover have "length (min_be n) \<le> 4" using assms by (intro length_min_be) auto
  moreover obtain j where "length (min_be n) = Suc j" by (metis Suc_pred' length_greater_0_conv min_be_not_Nil)
  ultimately show ?thesis using assms der_length_octets [of j n] that [of "Suc j"] by simp
qed


section \<open>Flushing refines closing\<close>

lemma flush_write_eq:
  assumes "b_buf b = pre @ m @ post" "length pre = unat (c_offset ch)" "length m = unat (pending_len_len ch)"
  shows "flush_write b ch len =
    (let b' = b\<lparr>b_buf := pre @ be_bytes (length m) (unat len) @ post\<rparr>
     in if unat len < 256 ^ length m then (Some (), b', []) else (None, buffer_err b', [ch]))"
proof -
  have p: "(2::nat) ^ (8 * length m) = 256 ^ length m" by (simp add: power_mult)
  have "drop_bit (8 * length m) len = 0 \<longleftrightarrow> unat len < 256 ^ length m"
    by (simp add: word_unat_eq_iff unat_drop_bit div_eq_0_iff p)
  then show ?thesis
    using write_be_split [of m "length m" pre post len] assms
    by (simp add: flush_write_def Let_def)
qed

text \<open>
  \<open>flush_post b r p w\<close>: the outcome \<open>r\<close> of flushing, from buffer \<open>b\<close>, either leaves
  a live buffer with contents \<open>p @ w\<close> and no open child, or a failed buffer; it fails only if
  the buffer cannot grow, a prefix does not fit, or the result has 2^64 bytes or more.
\<close>

definition flush_post ::
    "heap_env \<Rightarrow> cbb_buffer \<Rightarrow> (unit, cbb_buffer \<times> cbb_child list) outcome \<Rightarrow> bytes \<Rightarrow> bool \<Rightarrow> bool" where
  "flush_post env b r w fits \<longleftrightarrow>
     (case r of
        (Some _, b', chs) \<Rightarrow>
          buffer_live b' \<and> contents b' = w \<and> chs = [] \<and> can_grow env b' = can_grow env b \<and> fits
      | (None, b', _) \<Rightarrow>
          b_error b' \<and> \<not> (can_grow env b \<and> fits \<and> length w < 2 ^ 64))"

lemma live_split:
  assumes "buffer_live b" "contents b = w"
  obtains post where "b_buf b = w @ post" "unat (b_len b) = length w"
  using assms length_contents [of b] append_take_drop_id [of "unat (b_len b)" "b_buf b"]
  by (metis buffer_live_def contents_def)

lemma live_patch:
  assumes "buffer_live b" "b_buf b = w @ post" "unat (b_len b) = length w" "length w' = length w"
  shows "buffer_live (b\<lparr>b_buf := w' @ post\<rparr>)" "contents (b\<lparr>b_buf := w' @ post\<rparr>) = w'"
  using assms by (auto simp: buffer_live_def buffer_wf_def contents_def)

lemma flush_child_fixed:
  assumes live: "buffer_live b" and w: "contents b = pre @ z @ body"
    and ch: "length pre = unat (c_offset ch)" "length z = unat (pending_len_len ch)"
    and len: "unat len = length body"
  shows "flush_post env b (flush_write b ch len) (pre @ be_bytes (length z) (length body) @ body)
           (length body < 256 ^ length z)"
proof -
  obtain post where post: "b_buf b = (pre @ z @ body) @ post" "unat (b_len b) = length (pre @ z @ body)"
    using live_split [OF live w] by blast
  define w' where "w' = pre @ be_bytes (length z) (length body) @ body"
  have "length w' = length (pre @ z @ body)" by (simp add: w'_def)
  note patch = live_patch [OF live post this]
  have "flush_write b ch len = (let b' = b\<lparr>b_buf := w' @ post\<rparr>
      in if length body < 256 ^ length z then (Some (), b', []) else (None, buffer_err b', [ch]))"
    using flush_write_eq [of b pre z "body @ post" ch len] post ch len by (simp add: w'_def)
  then show ?thesis
    using patch by (simp add: flush_post_def Let_def can_grow_def w'_def [symmetric])
qed

lemma flush_child_asn1_short:
  assumes live: "buffer_live b" and w: "contents b = pre @ [z] @ body"
    and ch: "length pre = unat (c_offset ch)" "pending_is_asn1 ch"
    and len: "unat (b_len b - cs) = length body" and short: "length body \<le> 0x7f"
  shows "flush_post env b (flush_child env b ch cs) (pre @ encode_prefix Asn1 body)
           (prefix_fits Asn1 (length body))"
proof -
  obtain post where post: "b_buf b = (pre @ [z] @ body) @ post" "unat (b_len b) = length (pre @ [z] @ body)"
    using live_split [OF live w] by blast
  define w' where "w' = pre @ [of_nat (length body)] @ body"
  have "length w' = length (pre @ [z] @ body)" by (simp add: w'_def)
  note patch = live_patch [OF live post this]
  have enc: "pre @ encode_prefix Asn1 body = w'" using short by (simp add: w'_def der_length_def)
  have "(b_buf b)[unat (c_offset ch) := of_nat (length body)] = w' @ post"
    unfolding ch(1) [symmetric] post by (simp add: w'_def list_update_append)
  then have "flush_child env b ch cs = (Some (), b\<lparr>b_buf := w' @ post\<rparr>, [])"
    using ch short by (simp add: flush_child_def Let_def asn1_len_octets_spec len flush_asn1_shift_def
        flush_write_def)
  then show ?thesis
    unfolding enc using patch short by (simp add: flush_post_def can_grow_def)
qed


lemma flush_child_asn1_long:
  assumes live: "buffer_live b" and w: "contents b = pre @ [z] @ body"
    and ch: "length pre = unat (c_offset ch)" "pending_is_asn1 ch" "c_offset ch + 1 = cs"
    and cs: "unat cs = length pre + 1"
    and len: "unat (b_len b - cs) = length body" and long: "0x7f < length body"
  shows "flush_post env b (flush_child env b ch cs) (pre @ encode_prefix Asn1 body)
           (prefix_fits Asn1 (length body))"
proof (cases "length body \<le> 0xfffffffe")
  case False
  then show ?thesis
    using ch by (simp add: flush_child_def Let_def asn1_len_octets_spec len flush_post_def)
next
  case True
  obtain k where k: "1 \<le> k" "k \<le> 4" "length body < 256 ^ k"
      and dl: "der_length (length body) = of_nat (128 + k) # be_bytes k (length body)"
    using der_length_long [OF long True] by metis
  define ilb where "ilb = (of_nat (128 + k) :: u8)"
  have octets: "asn1_len_octets (b_len b - cs) = Some (1 + of_nat k, ilb, b_len b - cs)"
    using long True by (simp add: asn1_len_octets_spec len dl ilb_def Let_def)
  have ext: "ucast (1 + of_nat k :: u8) - 1 = (of_nat k :: size_t)"
    and ll: "(1 + of_nat k) - 1 = (of_nat k :: u8)" "(of_nat k :: u8) \<noteq> 0"
    and uk: "unat (of_nat k :: size_t) = k" "unat (of_nat k :: u8) = k"
  proof -
    have "k = 1 \<or> k = 2 \<or> k = 3 \<or> k = 4" using k by arith
    then show "ucast (1 + of_nat k :: u8) - 1 = (of_nat k :: size_t)"
      "(1 + of_nat k) - 1 = (of_nat k :: u8)" "(of_nat k :: u8) \<noteq> 0"
      "unat (of_nat k :: size_t) = k" "unat (of_nat k :: u8) = k" by auto
  qed
  have enc: "pre @ encode_prefix Asn1 body = pre @ [ilb] @ be_bytes k (length body) @ body"
    by (simp add: dl ilb_def)
  show ?thesis
  proof (cases "cbb_buffer_add env b (of_nat k)")
    case (Pair r b1)
    show ?thesis
    proof (cases r)
      case None
      then have "b_error b1 \<and> \<not> (can_grow env b \<and> unat (b_len b) + k < 2 ^ 64)"
        using cbb_buffer_add_fail [of env b "of_nat k" b1] Pair uk by simp
      moreover have "unat (b_len b) + k = length (pre @ encode_prefix Asn1 body)"
        using live w length_contents [of b] by (simp add: dl buffer_live_def)
      ultimately show ?thesis
        using ch Pair None by (simp add: flush_child_def Let_def octets flush_asn1_shift_def ext ll flush_post_def)
    next
      case (Some out)
      then have add: "buffer_wf b1" "unat (b_len b1) = unat (b_len b) + k"
          "take (unat (b_len b)) (b_buf b1) = contents b" "b_error b1 = b_error b" "can_grow env b1 = can_grow env b"
        using cbb_buffer_add_ok [of b env "of_nat k" out b1] Pair live uk by (auto simp: buffer_live_def)
      have blen: "unat (b_len b) = length (pre @ [z] @ body)"
        using live w length_contents [of b] by (simp add: buffer_live_def)
      obtain rest where rest: "b_buf b1 = (pre @ [z] @ body) @ rest"
        using add(3) w append_take_drop_id [of "unat (b_len b)" "b_buf b1"] by metis
      have "k \<le> length rest" using add rest blen by (auto simp: buffer_wf_def)
      then obtain ex post where ex: "rest = ex @ post" "length ex = k"
        by (metis append_take_drop_id length_take min.absorb2)
      define m where "m = take k (body @ ex)"
      define d where "d = drop k (body @ ex)"
      have m: "length m = k" "body @ ex = m @ d" "length d = length body"
        unfolding m_def d_def append_take_drop_id using ex by simp_all
      have shift: "flush_asn1_shift env b (unat cs) (b_len b - cs) ((1 + of_nat k))
          = (Some (), b1\<lparr>b_buf := pre @ [z] @ m @ body @ post\<rparr>)"
      proof -
        have "take (length body) (drop (length pre + 1) (b_buf b1)) = body" by (simp add: rest)
        moreover have "b_buf b1 = (pre @ [z]) @ (body @ ex) @ post" by (simp add: rest ex(1))
        then have "b_buf b1 = (pre @ [z] @ m) @ d @ post" unfolding m(2) by simp
        then have "poke (b_buf b1) (length pre + 1 + k) body = (pre @ [z] @ m) @ body @ post"
          using poke_append_mid [of body d "pre @ [z] @ m" post] m by simp
        ultimately show ?thesis using Pair Some by (simp add: flush_asn1_shift_def ext ll uk len cs)
      qed
      define b2 where "b2 = b1\<lparr>b_buf := pre @ [ilb] @ m @ body @ post\<rparr>"
      have upd: "(pre @ z # m @ body @ post)[unat (c_offset ch) := ilb] = pre @ ilb # m @ body @ post"
        unfolding ch(1) [symmetric] by (simp add: list_update_append)
      define ch2 where "ch2 = ch\<lparr>c_offset := cs, pending_len_len := of_nat k\<rparr>"
      have "flush_child env b ch cs = flush_write b2 ch2 (b_len b - cs)"
        using ch(2) by (simp add: flush_child_def Let_def octets shift upd b2_def ch2_def ll ch(3))
      also have "\<dots> = (Some (), b2\<lparr>b_buf := (pre @ [ilb]) @ be_bytes k (length body) @ body @ post\<rparr>, [])"
        using flush_write_eq [of b2 "pre @ [ilb]" m "body @ post" ch2] m k(3) cs uk len
        by (simp add: b2_def ch2_def)
      finally show ?thesis
        using add blen rest ex live True m
        by (simp add: flush_post_def b2_def dl ilb_def buffer_live_def buffer_wf_def
            contents_def can_grow_def)
    qed
  qed
qed


lemma length_encode_prefix: "prefix_len k + length body \<le> length (encode_prefix k body)"
  by (cases k) (simp_all add: der_length_def)

lemma flush_post_trans:
  assumes "flush_post env b' r w fits" "can_grow env b' = can_grow env b" "fits'"
  shows "flush_post env b r w (fits \<and> fits')"
  using assms by (auto simp: flush_post_def split: prod.splits option.splits)

lemma cbb_flush_chain_refines:
  assumes "buffer_live b" "contents b = p @ w" "chain_rep (length p) chs w es"
  shows "flush_post env b (cbb_flush_chain env chs b) (p @ closing es) (all_fit es)"
  using assms(2,3)
proof (induction chs arbitrary: p w es)
  case Nil
  then show ?case using assms(1) by (simp add: flush_post_def buffer_live_def)
next
  case (Cons ch chs)
  obtain k q es' z w' where es: "es = (k, q) # es'" and w: "w = z @ q @ w'" and z: "length z = prefix_len k"
    and ch: "unat (c_offset ch) = length p" "unat (pending_len_len ch) = prefix_len k" "0 < prefix_len k"
      "pending_is_asn1 ch = (k = Asn1)"
    and rep: "chain_rep (length (p @ z @ q)) chs w' es'"
    using Cons.prems(2) by (auto simp: add.assoc)
  define body where "body = q @ closing es'"
  have pll: "pending_len_len ch \<noteq> 0" using ch by auto
  define cs where "cs = c_offset ch + ucast (pending_len_len ch)"
  have IH: "flush_post env b (cbb_flush_chain env chs b) (p @ z @ body) (all_fit es')"
    using Cons.IH [of "p @ z @ q" w' es'] Cons.prems(1) rep by (simp add: w body_def)
  have bound: "length (p @ z) < 2 ^ 64"
  proof -
    have "length (p @ z) \<le> length (contents b)" using Cons.prems(1) by (simp add: w)
    also have "\<dots> = unat (b_len b)" using assms(1) by (intro length_contents) (simp add: buffer_live_def)
    finally show ?thesis using unat_bound [of "b_len b"] by simp
  qed
  have u: "unat (ucast (pending_len_len ch) :: size_t) = length z" by (simp add: byte_simps ch z)
  have cs: "unat cs = length (p @ z)" "\<not> cs < c_offset ch"
    using bound by (simp_all add: cs_def unat_word_ariths u ch wrap_iff)
  show ?case
  proof (cases "cbb_flush_chain env chs b")
    case (fields r b1 chs1)
    show ?thesis
    proof (cases r)
      case None
      have "prefix_len k + length body \<le> length (encode_prefix k body)" by (rule length_encode_prefix)
      then show ?thesis
        using IH fields None assms(1) pll
        by (auto simp: flush_post_def Let_def es body_def buffer_live_def z)
    next
      case (Some u1)
      then have b1: "buffer_live b1" "contents b1 = p @ z @ body" "all_fit es'" "can_grow env b1 = can_grow env b"
        using IH fields by (simp_all add: flush_post_def)
      then have blen: "unat (b_len b1) = length (p @ z @ body)"
        using length_contents [of b1] by (simp add: buffer_live_def)
      then have ge: "\<not> b_len b1 < cs" using cs by (simp add: word_less_nat_alt)
      then have len: "unat (b_len b1 - cs) = length body"
        using blen cs by (simp add: unat_sub word_le_nat_alt not_less)
      have step: "cbb_flush_chain env (ch # chs) b = flush_child env b1 ch cs"
        using assms(1) pll cs ge fields Some by (simp add: buffer_live_def Let_def cs_def)
      have "flush_post env b1 (flush_child env b1 ch cs) (p @ encode_prefix k body) (prefix_fits k (length body))"
      proof (cases k)
        case Asn1
        then obtain z0 where z0: "z = [z0]" using z by (cases z) auto
        have "pending_len_len ch = 1" using ch Asn1 by (simp add: word_unat_eq_iff)
        then have "c_offset ch + 1 = cs" by (simp add: cs_def)
        then show ?thesis
          using flush_child_asn1_short [OF b1(1), of p z0 body ch cs env]
            flush_child_asn1_long [OF b1(1), of p z0 body ch cs env] b1(2) z0 ch cs len Asn1
          by (cases "length body \<le> 0x7f") auto
      next
        case (Fixed n)
        then show ?thesis
          using flush_child_fixed [OF b1(1,2), of ch "b_len b1 - cs" env] ch z len
          by (simp add: flush_child_def)
      qed
      then show ?thesis
        using flush_post_trans [OF _ b1(4) b1(3)] unfolding step es by (simp add: body_def)
    qed
  qed
qed


section \<open>Operations refine appending\<close>

definition cbb_rep :: "CBB \<Rightarrow> bytes \<Rightarrow> (prefix \<times> bytes) list \<Rightarrow> bool" where
  "cbb_rep cbb p es \<longleftrightarrow>
     (\<exists>b w. base cbb = Some b \<and> buffer_live b \<and> contents b = p @ w \<and> chain_rep (length p) (children cbb) w es)"

definition cbb_grow :: "heap_env \<Rightarrow> CBB \<Rightarrow> bool" where
  "cbb_grow env cbb \<longleftrightarrow> (\<exists>b. base cbb = Some b \<and> can_grow env b)"

definition cbb_failed :: "CBB \<Rightarrow> bool" where
  "cbb_failed cbb \<longleftrightarrow> (\<exists>b. base cbb = Some b \<and> b_error b)"

text \<open>
  \<open>op_post env cbb r p es fits\<close>: the outcome \<open>r\<close> of an operation on \<open>cbb\<close> is success in
  a state that stands for \<open>p\<close> and the open prefixes \<open>es\<close>, or failure in a state where every
  later operation fails too; it fails only if the buffer cannot grow, something does not fit its
  prefix, or the finished message would have 2^64 bytes or more.
\<close>

definition op_post ::
    "heap_env \<Rightarrow> CBB \<Rightarrow> ('a, CBB) outcome \<Rightarrow> bytes \<Rightarrow> (prefix \<times> bytes) list \<Rightarrow> bool \<Rightarrow> bool" where
  "op_post env cbb r p es fits \<longleftrightarrow>
     (case r of
        (Some _, c) \<Rightarrow> cbb_rep c p es \<and> cbb_grow env c = cbb_grow env cbb \<and>
                        is_top_level c = is_top_level cbb \<and> fits
      | (None, c) \<Rightarrow> cbb_failed c \<and> \<not> (cbb_grow env cbb \<and> fits \<and> length (p @ closing es) < 2 ^ 64))"

lemma op_post_None: "op_post env cbb (None, c) p es fits \<longleftrightarrow>
    cbb_failed c \<and> \<not> (cbb_grow env cbb \<and> fits \<and> length (p @ closing es) < 2 ^ 64)"
  by (simp add: op_post_def)

lemma op_post_Some: "op_post env cbb (Some u, c) p es fits \<longleftrightarrow>
    cbb_rep c p es \<and> cbb_grow env c = cbb_grow env cbb \<and> is_top_level c = is_top_level cbb \<and> fits"
  by (simp add: op_post_def)

lemma CBB_flush_post:
  assumes "cbb_rep cbb p es"
  shows "op_post env cbb (CBB_flush env cbb) (p @ closing es) [] (all_fit es)"
proof -
  obtain b w where b: "base cbb = Some b" "buffer_live b" "contents b = p @ w" "chain_rep (length p) (children cbb) w es"
    using assms by (auto simp: cbb_rep_def)
  have "flush_post env b (cbb_flush_chain env (children cbb) b) (p @ closing es) (all_fit es)"
    using b by (intro cbb_flush_chain_refines)
  then show ?thesis
    using b(1) by (auto simp: CBB_flush_def flush_post_def op_post_def cbb_rep_def cbb_grow_def cbb_failed_def
        split: prod.splits option.splits)
qed

text \<open>
  A step that flushes and then works on the buffer: if the step appends \<open>x\<close> to the contents
  of a live buffer, so does the operation, after the bytes the flush writes.
\<close>

definition appends ::
    "heap_env \<Rightarrow> (cbb_buffer \<Rightarrow> ('a, cbb_buffer) outcome) \<Rightarrow> bytes \<Rightarrow> bool \<Rightarrow> bool" where
  "appends env f x ok \<longleftrightarrow>
     (\<forall>b. buffer_live b \<longrightarrow>
        (case f b of
           (Some _, b') \<Rightarrow> buffer_live b' \<and> contents b' = contents b @ x \<and> can_grow env b' = can_grow env b \<and> ok
         | (None, b') \<Rightarrow> b_error b' \<and> \<not> (can_grow env b \<and> ok \<and> length (contents b @ x) < 2 ^ 64)))"

lemma flush_then_post:
  assumes rep: "cbb_rep cbb p es" and f: "appends env f x ok"
  shows "op_post env cbb (flush_then env f cbb) (p @ closing es @ x) [] (all_fit es \<and> ok)"
proof -
  note flush = CBB_flush_post [OF rep, of env]
  show ?thesis
  proof (cases "CBB_flush env cbb")
    case (Pair r c)
    show ?thesis
    proof (cases r)
      case None
      then show ?thesis using flush Pair by (auto simp: op_post_None flush_then_def)
    next
      case (Some u)
      then obtain b where b: "base c = Some b" "buffer_live b" "contents b = p @ closing es" "children c = []"
          and c: "cbb_grow env c = cbb_grow env cbb" "is_top_level c = is_top_level cbb" "all_fit es"
        using flush Pair by (cases "children c") (auto simp: op_post_Some cbb_rep_def)
      have "case f b of
          (Some _, b') \<Rightarrow> buffer_live b' \<and> contents b' = contents b @ x \<and> can_grow env b' = can_grow env b \<and> ok
        | (None, b') \<Rightarrow> b_error b' \<and> \<not> (can_grow env b \<and> ok \<and> length (contents b @ x) < 2 ^ 64)"
        using f b(2) by (simp add: appends_def)
      then show ?thesis
        using b c Pair Some
        by (auto simp: flush_then_def with_base_def op_post_def cbb_rep_def cbb_grow_def cbb_failed_def
            split: prod.splits option.splits)
    qed
  qed
qed

lemma buffer_add_split:
  assumes "buffer_live b" "cbb_buffer_add env b n = (Some out, b')"
  obtains mid post where "b_buf b' = contents b @ mid @ post" "length mid = unat n"
    "unat out = length (contents b)" "unat (b_len b') = length (contents b) + unat n"
    "buffer_live b'" "can_grow env b' = can_grow env b"
proof -
  note add = cbb_buffer_add_ok [OF _ assms(2)]
  have wf: "buffer_wf b" using assms(1) by (simp add: buffer_live_def)
  obtain rest where rest: "b_buf b' = contents b @ rest"
    using add [OF wf] append_take_drop_id [of "unat (b_len b)" "b_buf b'"] by metis
  have "unat n \<le> length rest" using add [OF wf] length_contents [OF wf] rest by (auto simp: buffer_wf_def)
  then have "rest = take (unat n) rest @ drop (unat n) rest" "length (take (unat n) rest) = unat n" by simp_all
  then show ?thesis
    using that [of "take (unat n) rest" "drop (unat n) rest"] add [OF wf] rest assms(1) length_contents [OF wf]
    by (auto simp: buffer_live_def)
qed

lemma appends_add_u:
  assumes "1 \<le> unat n"
  shows "appends env (\<lambda>b. cbb_buffer_add_u env b v n) (be_bytes (unat n) (unat v)) (unat v < 256 ^ unat n)"
  unfolding appends_def
proof (intro allI impI)
  fix b assume live: "buffer_live b"
  have n0: "n \<noteq> 0" using assms by auto
  have p: "(2::nat) ^ (8 * unat n) = 256 ^ unat n" by (simp add: power_mult)
  have fits: "drop_bit (8 * unat n) v = 0 \<longleftrightarrow> unat v < 256 ^ unat n"
    by (simp add: word_unat_eq_iff unat_drop_bit div_eq_0_iff p)
  show "case cbb_buffer_add_u env b v n of
      (Some _, b') \<Rightarrow> buffer_live b' \<and> contents b' = contents b @ be_bytes (unat n) (unat v) \<and>
         can_grow env b' = can_grow env b \<and> unat v < 256 ^ unat n
    | (None, b') \<Rightarrow> b_error b' \<and> \<not> (can_grow env b \<and> unat v < 256 ^ unat n \<and>
         length (contents b @ be_bytes (unat n) (unat v)) < 2 ^ 64)"
  proof (cases "cbb_buffer_add env b n")
    case (Pair r b1)
    show ?thesis
    proof (cases r)
      case None
      then show ?thesis using cbb_buffer_add_fail [of env b n b1] Pair n0 live length_contents [of b]
        by (auto simp: cbb_buffer_add_u_def buffer_live_def)
    next
      case (Some out)
      obtain mid post where b1: "b_buf b1 = contents b @ mid @ post" "length mid = unat n"
          "unat out = length (contents b)" "unat (b_len b1) = length (contents b) + unat n"
          "buffer_live b1" "can_grow env b1 = can_grow env b"
        using buffer_add_split [OF live] Pair Some by metis
      have "write_be (unat n) (b_buf b1) (unat out) v
          = (contents b @ be_bytes (unat n) (unat v) @ post, drop_bit (8 * unat n) v)"
        unfolding b1(1,3) using b1(2) by (intro write_be_split)
      then have "cbb_buffer_add_u env b v n =
          (let b2 = b1\<lparr>b_buf := contents b @ be_bytes (unat n) (unat v) @ post\<rparr>
           in if unat v < 256 ^ unat n then (Some (), b2) else (None, buffer_err b2))"
        using n0 Pair Some fits by (simp add: cbb_buffer_add_u_def Let_def)
      moreover have "buffer_live (b1\<lparr>b_buf := contents b @ be_bytes (unat n) (unat v) @ post\<rparr>)"
        "contents (b1\<lparr>b_buf := contents b @ be_bytes (unat n) (unat v) @ post\<rparr>) = contents b @ be_bytes (unat n) (unat v)"
        using live_patch [of b1 "contents b @ mid" post "contents b @ be_bytes (unat n) (unat v)"] b1 by simp_all
      ultimately show ?thesis using b1(6) by (simp add: Let_def can_grow_def)
    qed
  qed
qed

lemma appends_poke:
  assumes "unat n = length x"
  shows "appends env (\<lambda>b. case cbb_buffer_add env b n of
       (None, b) \<Rightarrow> (None, b)
     | (Some dest, b) \<Rightarrow> (Some (r dest), b\<lparr>b_buf := poke (b_buf b) (unat dest) x\<rparr>)) x True"
  unfolding appends_def
proof (intro allI impI)
  fix b assume live: "buffer_live b"
  show "case (case cbb_buffer_add env b n of
       (None, b) \<Rightarrow> (None, b)
     | (Some dest, b) \<Rightarrow> (Some (r dest), b\<lparr>b_buf := poke (b_buf b) (unat dest) x\<rparr>)) of
      (Some _, b') \<Rightarrow> buffer_live b' \<and> contents b' = contents b @ x \<and> can_grow env b' = can_grow env b \<and> True
    | (None, b') \<Rightarrow> b_error b' \<and> \<not> (can_grow env b \<and> True \<and> length (contents b @ x) < 2 ^ 64)"
  proof (cases "cbb_buffer_add env b n")
    case (Pair o' b1)
    show ?thesis
    proof (cases o')
      case None
      then show ?thesis using cbb_buffer_add_fail [of env b n b1] Pair live length_contents [of b] assms
        by (auto simp: buffer_live_def)
    next
      case (Some out)
      obtain mid post where b1: "b_buf b1 = contents b @ mid @ post" "length mid = unat n"
          "unat out = length (contents b)" "unat (b_len b1) = length (contents b) + unat n"
          "buffer_live b1" "can_grow env b1 = can_grow env b"
        using buffer_add_split [OF live] Pair Some by metis
      have "poke (b_buf b1) (unat out) x = contents b @ x @ post"
        unfolding b1(1,3) using b1(2) assms by (intro poke_append_mid) simp
      moreover have "buffer_live (b1\<lparr>b_buf := contents b @ x @ post\<rparr>)"
        "contents (b1\<lparr>b_buf := contents b @ x @ post\<rparr>) = contents b @ x"
        using live_patch [of b1 "contents b @ mid" post "contents b @ x"] b1 assms by simp_all
      ultimately show ?thesis using b1(6) Pair Some by (simp add: can_grow_def)
    qed
  qed
qed


section \<open>The writer interface\<close>

text \<open>
  What a client of the builder relies on, whatever it writes: \<open>put v\<close> appends
  \<open>enc v\<close> after closing what is open, or fails for good, and fails without reason only when
  \<open>v\<close> is not \<open>ok\<close>.
\<close>

locale cbb_writer =
  fixes env :: heap_env
    and put :: "'v \<Rightarrow> CBB \<Rightarrow> ('r, CBB) outcome"
    and enc :: "'v \<Rightarrow> bytes"
    and ok :: "'v \<Rightarrow> bool"
  assumes put_post: "cbb_rep cbb p es \<Longrightarrow>
    op_post env cbb (put v cbb) (p @ closing es @ enc v) [] (all_fit es \<and> ok v)"
begin

lemma in_child_post:
  assumes rep: "cbb_rep cbb p ((k, q) # es)"
  shows "op_post env cbb (in_child (put v) cbb) p [(k, q @ closing es @ enc v)] (all_fit es \<and> ok v)"
proof -
  obtain b ch chs z w' where b: "base cbb = Some b" "buffer_live b" "contents b = p @ z @ q @ w'"
    and ch: "children cbb = ch # chs" "length z = prefix_len k" "unat (c_offset ch) = length p"
      "unat (pending_len_len ch) = prefix_len k" "0 < prefix_len k" "pending_is_asn1 ch = (k = Asn1)"
    and chs: "chain_rep (length p + length z + length q) chs w' es"
    using rep by (cases "children cbb") (auto simp: cbb_rep_def)
  let ?c = "cbb\<lparr>children := chs, is_top_level := False\<rparr>"
  have "cbb_rep ?c (p @ z @ q) es"
    unfolding cbb_rep_def using b chs by (intro exI [of _ b] exI [of _ w']) (simp add: add.assoc)
  from put_post [OF this, of v]
  have post: "op_post env ?c (put v ?c) (p @ z @ q @ closing es @ enc v) [] (all_fit es \<and> ok v)" by simp
  have grow: "cbb_grow env ?c = cbb_grow env cbb" by (simp add: cbb_grow_def)
  show ?thesis
  proof (cases "put v ?c")
    case (Pair r c)
    show ?thesis
    proof (cases r)
      case None
      have "length z + length (q @ closing es @ enc v) \<le> length (encode_prefix k (q @ closing es @ enc v))"
        using length_encode_prefix [of k "q @ closing es @ enc v"] ch by simp
      then show ?thesis using post Pair None ch grow
        by (auto simp: in_child_def op_post_None cbb_failed_def)
    next
      case (Some u)
      then have "cbb_rep c (p @ z @ q @ closing es @ enc v) []" using post Pair by (simp add: op_post_Some)
      then obtain b2 where b2: "base c = Some b2" "buffer_live b2" "contents b2 = p @ z @ q @ closing es @ enc v"
          "children c = []"
        by (cases "children c") (auto simp: cbb_rep_def)
      then have "cbb_rep (c\<lparr>children := ch # children c, is_top_level := is_top_level cbb\<rparr>) p [(k, q @ closing es @ enc v)]"
        using ch unfolding cbb_rep_def by (intro exI [of _ b2] exI [of _ "z @ q @ closing es @ enc v"]) simp
      then show ?thesis using post Pair Some ch grow b2
        by (simp add: in_child_def op_post_Some) (simp add: cbb_grow_def)
    qed
  qed
qed

end

interpretation u8_writer: cbb_writer env "CBB_add_u8 env" "\<lambda>v. [v]" "\<lambda>_. True" for env
proof
  fix cbb p es v assume rep: "cbb_rep cbb p es"
  have "appends env (\<lambda>b. cbb_buffer_add_u env b (ucast v) 1) [v] True"
    using appends_add_u [of 1 env "ucast v"] by (simp add: be_bytes_Suc byte_simps)
  then show "op_post env cbb (CBB_add_u8 env v cbb) (p @ closing es @ [v]) [] (all_fit es \<and> True)"
    unfolding CBB_add_u8_def by (rule flush_then_post [OF rep])
qed

interpretation u16_writer: cbb_writer env "CBB_add_u16 env" "\<lambda>v. be_bytes 2 (unat v)" "\<lambda>_. True" for env
proof
  fix cbb p es and v :: u16 assume rep: "cbb_rep cbb p es"
  have "appends env (\<lambda>b. cbb_buffer_add_u env b (ucast v) 2) (be_bytes 2 (unat v)) True"
    using appends_add_u [of 2 env "ucast v"] unat_bound [of v] by (simp add: byte_simps)
  then show "op_post env cbb (CBB_add_u16 env v cbb) (p @ closing es @ be_bytes 2 (unat v)) [] (all_fit es \<and> True)"
    unfolding CBB_add_u16_def by (rule flush_then_post [OF rep])
qed

interpretation u24_writer: cbb_writer env "CBB_add_u24 env" "\<lambda>v. be_bytes 3 (unat v)" "\<lambda>v. unat v < 256 ^ 3" for env
proof
  fix cbb p es v assume rep: "cbb_rep cbb p es"
  have "appends env (\<lambda>b. cbb_buffer_add_u env b v 3) (be_bytes 3 (unat v)) (unat v < 256 ^ 3)"
    using appends_add_u [of 3 env v] by simp
  then show "op_post env cbb (CBB_add_u24 env v cbb) (p @ closing es @ be_bytes 3 (unat v)) []
      (all_fit es \<and> unat v < 256 ^ 3)"
    unfolding CBB_add_u24_def by (rule flush_then_post [OF rep])
qed

interpretation u32_writer: cbb_writer env "CBB_add_u32 env" "\<lambda>v. be_bytes 4 (unat v)" "\<lambda>_. True" for env
proof
  fix cbb p es v assume rep: "cbb_rep cbb p es"
  have "appends env (\<lambda>b. cbb_buffer_add_u env b v 4) (be_bytes 4 (unat v)) True"
    using appends_add_u [of 4 env v] unat_bound [of v] by simp
  then show "op_post env cbb (CBB_add_u32 env v cbb) (p @ closing es @ be_bytes 4 (unat v)) [] (all_fit es \<and> True)"
    unfolding CBB_add_u32_def by (rule flush_then_post [OF rep])
qed

text \<open>\<open>len\<close> is a \<open>size_t\<close>, so a byte string handed to \<open>CBB_add_bytes\<close> is shorter than 2^64.\<close>

lemma CBB_add_bytes_post:
  assumes "cbb_rep cbb p es" "length d < 2 ^ 64"
  shows "op_post env cbb (CBB_add_bytes env d cbb) (p @ closing es @ d) [] (all_fit es)"
  using flush_then_post [OF assms(1) appends_poke [of "of_nat (length d)" d env "\<lambda>_. ()"]]
    assms(2) by (simp add: CBB_add_bytes_def byte_simps)

lemma op_post_weaken:
  assumes "op_post env cbb' r p es fits" "cbb_grow env cbb' = cbb_grow env cbb"
    "is_top_level cbb' = is_top_level cbb" "fits'"
  shows "op_post env cbb r p es (fits' \<and> fits)"
  using assms by (auto simp: op_post_def split: prod.splits option.splits)

lemma op_post_bind:
  assumes r: "op_post env cbb r pa esa fitsa"
    and mono: "length (pa @ closing esa) \<le> length (pb @ closing esb)"
    and f: "\<And>u c. r = (Some u, c) \<Longrightarrow> cbb_rep c pa esa \<Longrightarrow> op_post env c (f u c) pb esb fitsb"
  shows "op_post env cbb (case r of (None, c) \<Rightarrow> (None, c) | (Some u, c) \<Rightarrow> f u c) pb esb (fitsa \<and> fitsb)"
proof (cases r)
  case (Pair o' c)
  show ?thesis
  proof (cases o')
    case None
    then show ?thesis using r mono Pair by (auto simp: op_post_None)
  next
    case (Some u)
    then have "op_post env c (f u c) pb esb fitsb" "cbb_grow env c = cbb_grow env cbb"
        "is_top_level c = is_top_level cbb" fitsa
      using r f [of u c] Pair by (auto simp: op_post_Some)
    then show ?thesis using op_post_weaken [of env c "f u c"] Pair Some by simp
  qed
qed


section \<open>Elements, prefixes and whole messages\<close>

lemma length_der_length_mono: "m \<le> n \<Longrightarrow> length (der_length m) \<le> length (der_length n)"
proof (cases "m < 128")
  case False
  assume "m \<le> n"
  have "256 ^ (length (min_be m) - 1) \<le> m" using False by (intro length_min_be_bounds) simp
  also have "\<dots> < 256 ^ length (min_be n)" using \<open>m \<le> n\<close> length_min_be_bounds(1) [of n] by linarith
  finally have "length (min_be m) - 1 < length (min_be n)" by (rule power_less_imp_less_exp [rotated]) simp
  then show ?thesis using False \<open>m \<le> n\<close> by (simp add: der_length_def)
qed (simp add: der_length_def)

lemma length_encode_mono:
  "length a \<le> length b \<Longrightarrow> length (encode_prefix k a) \<le> length (encode_prefix k b)"
  using length_der_length_mono [of "length a" "length b"] by (cases k) simp_all

lemma rep_no_children:
  assumes "cbb_rep c p []"
  obtains b where "base c = Some b" "buffer_live b" "contents b = p" "children c = []"
    "unat (b_len b) = length p"
  using assms length_contents by (cases "children c") (auto simp: cbb_rep_def buffer_live_def)

lemma open_child_rep:
  assumes "cbb_rep c (p @ z) []" "length z = prefix_len k" "0 < prefix_len k"
    and ch: "unat (c_offset ch) = length p" "unat (pending_len_len ch) = prefix_len k"
      "pending_is_asn1 ch = (k = Asn1)"
  shows "cbb_rep (c\<lparr>children := [ch]\<rparr>) p [(k, [])]"
  using assms by (elim rep_no_children) (auto simp: cbb_rep_def)

lemma CBB_add_asn1_post:
  assumes rep: "cbb_rep cbb p es" and t: "t AND 0x1f \<noteq> (0x1f :: u8)"
  shows "op_post env cbb (CBB_add_asn1 env (ucast t) cbb) (p @ closing es @ [t]) [(Asn1, [])] (all_fit es)"
proof -
  let ?P = "p @ closing es"
  have tag: "\<not> (ucast t :: u32) > 0xff" "(ucast t :: u32) AND 0x1f \<noteq> 0x1f" "ucast (ucast t :: u32) = t"
  proof -
    show "\<not> (ucast t :: u32) > 0xff" by (simp add: word_less_nat_alt byte_simps not_less)
    have "unat ((ucast t :: u32) AND 0x1f) = unat (t AND 0x1f)"
      using unat_and_mask [of "ucast t :: u32" 5] unat_and_mask [of t 5]
      by (simp add: mask_eq_exp_minus_1 byte_simps)
    then show "(ucast t :: u32) AND 0x1f \<noteq> 0x1f" using t by (auto simp: word_unat_eq_iff)
    show "ucast (ucast t :: u32) = t" by (rule bit_eqI) (simp add: bit_ucast_iff)
  qed
  define f2 where "f2 = (\<lambda>(u :: unit) cbb. case base cbb of
            None \<Rightarrow> (None :: unit option, cbb)
          | Some b \<Rightarrow>
             (case CBB_add_u8 env 0 cbb of
                (None, cbb) \<Rightarrow> (None, cbb)
              | (Some _, cbb) \<Rightarrow>
                  (Some (), cbb\<lparr>children := [\<lparr>c_offset = b_len b, pending_len_len = 1,
                                              pending_is_asn1 = True\<rparr>]\<rparr>)))"
  have last: "op_post env c (f2 u c) (?P @ [t]) [(Asn1, [])] True" if h: "cbb_rep c (?P @ [t]) []" for u c
  proof -
    obtain b where b: "base c = Some b" "unat (b_len b) = length (?P @ [t])"
      using rep_no_children [OF h] by metis
    have "op_post env c (CBB_add_u8 env 0 c) ((?P @ [t]) @ closing [] @ [0]) [] (all_fit [] \<and> True)"
      by (rule u8_writer.put_post [OF h])
    then show ?thesis
      using b open_child_rep [of _ "?P @ [t]" "[0]" Asn1]
      by (auto simp: f2_def op_post_def der_length_def cbb_grow_def cbb_failed_def
          split: prod.splits option.splits)
  qed
  have mid: "op_post env c (case CBB_add_u8 env t c of (None, c) \<Rightarrow> (None, c) | (Some u, c) \<Rightarrow> f2 u c)
      (?P @ [t]) [(Asn1, [])] True" if "cbb_rep c ?P []" for c
    using op_post_bind [OF u8_writer.put_post [OF that] _ last] by simp
  have "op_post env cbb (case CBB_flush env cbb of (None, c) \<Rightarrow> (None, c)
      | (Some u, c) \<Rightarrow> (case CBB_add_u8 env t c of (None, c) \<Rightarrow> (None, c) | (Some u, c) \<Rightarrow> f2 u c))
      (?P @ [t]) [(Asn1, [])] (all_fit es \<and> True)"
    by (rule op_post_bind [OF CBB_flush_post [OF rep]], simp, erule mid)
  then show ?thesis using tag(1,2) unfolding CBB_add_asn1_def f2_def tag(3) by simp
qed

lemma cbb_add_length_prefixed_post:
  assumes rep: "cbb_rep cbb p es" and n: "unat n = k" "0 < k"
  shows "op_post env cbb (cbb_add_length_prefixed env n cbb) (p @ closing es) [(Fixed k, [])] (all_fit es)"
proof -
  let ?f = "\<lambda>b. case cbb_buffer_add env b (ucast n) of
               (None, b) \<Rightarrow> (None, b)
             | (Some prefix, b) \<Rightarrow>
                 (Some prefix, b\<lparr>b_buf := poke (b_buf b) (unat prefix) (replicate (unat n) 0)\<rparr>)"
  have "appends env ?f (replicate (unat n) 0) True"
    using appends_poke [of "ucast n" "replicate (unat n) 0" env "\<lambda>x. x"] by (simp add: byte_simps)
  from flush_then_post [OF rep this]
  have post: "op_post env cbb (flush_then env ?f cbb) (p @ closing es @ replicate k 0) [] (all_fit es)"
    using n by simp
  have off: "unat prefix = length (p @ closing es)" if h: "flush_then env ?f cbb = (Some prefix, c)" for prefix c
  proof -
    obtain c1 where fl: "CBB_flush env cbb = (Some (), c1)" and wb: "with_base ?f c1 = (Some prefix, c)"
      using h unfolding flush_then_def by (cases "CBB_flush env cbb"; cases "fst (CBB_flush env cbb)") simp_all
    have "cbb_rep c1 (p @ closing es) []" using CBB_flush_post [OF rep, of env] fl by (simp add: op_post_Some)
    then obtain b where b: "base c1 = Some b" "buffer_live b" "unat (b_len b) = length (p @ closing es)"
      using rep_no_children by metis
    obtain b2 where "cbb_buffer_add env b (ucast n) = (Some prefix, b2)"
      using wb b(1) by (auto simp: with_base_def split: prod.splits option.splits)
    then show ?thesis using cbb_buffer_add_ok [of b] b by (auto simp: buffer_live_def)
  qed
  show ?thesis
  proof (cases "flush_then env ?f cbb")
    case (Pair r c)
    show ?thesis
    proof (cases r)
      case None
      then show ?thesis using post Pair n by (auto simp: cbb_add_length_prefixed_def op_post_None)
    next
      case (Some prefix)
      then show ?thesis
        using post Pair n off [of prefix c]
          open_child_rep [of c "p @ closing es" "replicate k 0" "Fixed k"
            "\<lparr>c_offset = prefix, pending_len_len = n, pending_is_asn1 = False\<rparr>"]
        by (simp add: cbb_add_length_prefixed_def op_post_Some) (simp add: cbb_grow_def)
    qed
  qed
qed


section \<open>Unsigned integers\<close>

text \<open>The bytes the loop of \<open>CBB_add_asn1_uint64\<close> emits for the bytes it looks at.\<close>

fun uint64_emit :: "bool \<Rightarrow> bytes \<Rightarrow> bytes" where
  "uint64_emit started [] = []"
| "uint64_emit started (b # bs) =
     (if \<not> started \<and> b = 0 then uint64_emit started bs
      else (if \<not> started \<and> b AND 0x80 \<noteq> 0 then [0] else []) @ b # uint64_emit True bs)"

definition uint64_byte :: "u64 \<Rightarrow> nat \<Rightarrow> u8" where
  "uint64_byte v i = ucast (drop_bit (8 * (7 - i)) v AND 0xff)"

lemma uint64_emit_True: "uint64_emit True bs = bs"
  by (induction bs) auto

lemma unat_uint64_byte: "unat (uint64_byte v i) = unat v div 256 ^ (7 - i) mod 256"
proof -
  have p: "(2::nat) ^ (8 * (7 - i)) = 256 ^ (7 - i)" by (simp add: power_mult)
  have "(drop_bit (8 * (7 - i)) v AND 0xff) = take_bit 8 (drop_bit (8 * (7 - i)) v)"
    by (simp add: take_bit_eq_mask mask_eq_exp_minus_1)
  then have "unat (uint64_byte v i) = unat (drop_bit (8 * (7 - i)) v) mod 2 ^ 8"
    unfolding uint64_byte_def by (simp only: unsigned_ucast_eq unsigned_take_bit_eq) (simp add: take_bit_eq_mod)
  then show ?thesis by (simp add: unat_drop_bit p)
qed

lemma uint64_bytes: "map (uint64_byte v) [0..<8] = be_bytes 8 (unat v)"
  unfolding be_bytes_def
proof (rule map_cong)
  fix i assume "i \<in> set [0..<8::nat]"
  then have "8 - 1 - i = 7 - i" by simp
  then show "uint64_byte v i = of_nat (unat v div 256 ^ (8 - 1 - i))"
    by (simp only: word_unat_eq_iff unat_uint64_byte unat_of_nat_u8)
qed simp

lemma uint64_loop_Cons:
  "uint64_loop env v (i # idx) started cbb =
     (if \<not> started \<and> uint64_byte v i = 0 then uint64_loop env v idx started cbb
      else
        case (if \<not> started \<and> uint64_byte v i AND 0x80 \<noteq> 0 then in_child (CBB_add_u8 env 0) cbb
              else (Some (), cbb)) of
          (None, cbb) \<Rightarrow> (None, cbb)
        | (Some _, cbb) \<Rightarrow>
           (case in_child (CBB_add_u8 env (uint64_byte v i)) cbb of
              (None, cbb) \<Rightarrow> (None, cbb)
            | (Some _, cbb) \<Rightarrow> uint64_loop env v idx True cbb))"
  by (simp only: uint64_loop.simps uint64_byte_def Let_def)

lemma op_post_refl: "cbb_rep cbb p es \<Longrightarrow> op_post env cbb (Some u, cbb) p es True"
  by (simp add: op_post_Some)

lemma child_u8_post:
  "cbb_rep cbb p [(k, q)] \<Longrightarrow> op_post env cbb (in_child (CBB_add_u8 env x) cbb) p [(k, q @ [x])] True"
  using u8_writer.in_child_post [of cbb p k q "[]" env x] by simp

lemma uint64_loop_post:
  "cbb_rep cbb p [(k, q)] \<Longrightarrow>
   op_post env cbb (uint64_loop env v idx started cbb) p
     [(k, q @ uint64_emit started (map (uint64_byte v) idx))] True"
proof (induction idx arbitrary: started q cbb)
  case Nil
  then show ?case by (simp add: op_post_Some)
next
  case (Cons i idx)
  let ?b = "uint64_byte v i"
  show ?case
  proof (cases "\<not> started \<and> ?b = 0")
    case True
    then show ?thesis using Cons.IH [OF Cons.prems, of started] by (simp add: uint64_loop_Cons del: uint64_loop.simps)
  next
    case False
    define pad where "pad = (if \<not> started \<and> ?b AND 0x80 \<noteq> 0 then [0 :: u8] else [])"
    have out: "uint64_emit started (map (uint64_byte v) (i # idx)) = pad @ ?b # map (uint64_byte v) idx"
      using False by (cases started) (auto simp: pad_def uint64_emit_True)
    have fin: "op_post env c (uint64_loop env v idx True c) p
        [(k, (q @ pad @ [?b]) @ map (uint64_byte v) idx)] True" if "cbb_rep c p [(k, q @ pad @ [?b])]" for c
      using Cons.IH [OF that, of True] by (simp add: uint64_emit_True)
    have add: "op_post env c (case in_child (CBB_add_u8 env ?b) c of (None, c) \<Rightarrow> (None, c)
        | (Some u, c) \<Rightarrow> uint64_loop env v idx True c) p [(k, q @ pad @ ?b # map (uint64_byte v) idx)] (True \<and> True)"
      if h: "cbb_rep c p [(k, q @ pad)]" for c
      using child_u8_post [OF h, of env ?b] fin length_encode_mono
      by (intro op_post_bind [where esa = "[(k, (q @ pad) @ [?b])]"]) auto
    have pad: "op_post env cbb (if \<not> started \<and> ?b AND 0x80 \<noteq> 0 then in_child (CBB_add_u8 env 0) cbb
        else (Some (), cbb)) p [(k, q @ pad)] True"
      using child_u8_post [OF Cons.prems, of env 0] op_post_refl [OF Cons.prems, of env "()"] by (auto simp: pad_def)
    have "op_post env cbb (uint64_loop env v (i # idx) started cbb) p
        [(k, q @ pad @ ?b # map (uint64_byte v) idx)] (True \<and> (True \<and> True))"
      unfolding uint64_loop_Cons if_not_P [OF False]
      by (rule op_post_bind [OF pad]) (use add length_encode_mono in auto)
    then show ?thesis by (simp only: out simp_thms)
  qed
qed

lemma uint64_loop_started:
  "uint64_loop env v idx started cbb = (Some s, c) \<Longrightarrow>
   s \<longleftrightarrow> started \<or> uint64_emit started (map (uint64_byte v) idx) \<noteq> []"
proof (induction idx arbitrary: started cbb)
  case (Cons i idx)
  show ?case
  proof (cases "\<not> started \<and> uint64_byte v i = 0")
    case True
    then show ?thesis using Cons.prems Cons.IH [of False cbb]
      by (auto simp: uint64_loop_Cons simp del: uint64_loop.simps)
  next
    case False
    then obtain c' where "uint64_loop env v idx True c' = (Some s, c)"
      using Cons.prems unfolding uint64_loop_Cons by (auto split: prod.splits option.splits if_splits)
    then show ?thesis using Cons.IH False by auto
  qed
qed simp

lemma uint64_emit_der:
  "(let e = uint64_emit False bs in if e = [] then [0] else e) = der_uint (be_nat bs)"
proof (induction bs)
  case Nil
  then show ?case by (simp add: der_uint_def min_be.simps)
next
  case (Cons b bs)
  show ?case
  proof (cases "b = 0")
    case True
    then show ?thesis using Cons by (simp add: be_nat_Cons)
  next
    case False
    then have "min_be (be_nat (b # bs)) = b # bs" by (intro min_be_be_nat) auto
    then show ?thesis using False by (simp add: uint64_emit_True der_uint_def)
  qed
qed

lemma CBB_add_asn1_uint64_post:
  assumes rep: "cbb_rep cbb p es"
  shows "op_post env cbb (CBB_add_asn1_uint64 env v cbb)
           (p @ closing es @ der_element 2 (der_uint (unat v))) [] (all_fit es)"
proof -
  let ?P = "p @ closing es @ [2 :: u8]"
  define e where "e = uint64_emit False (be_bytes 8 (unat v))"
  define d where "d = (if e = [] then [0] else e)"
  have d: "d = der_uint (unat v)"
    using uint64_emit_der [of "be_bytes 8 (unat v)"] unat_bound [of v]
    by (auto simp: d_def e_def be_nat_be_bytes Let_def split: if_splits)
  have le9: "length d \<le> 9" using length_der_uint [of "unat v"] unat_bound [of v] d by simp
  have fin: "op_post env c (CBB_flush env c) (?P @ closing [(Asn1, d)]) [] True" if "cbb_rep c ?P [(Asn1, d)]" for c
    using CBB_flush_post [OF that, of env] le9 by simp
  have pad: "op_post env c (if \<not> st then in_child (CBB_add_u8 env 0) c else (Some (), c)) ?P [(Asn1, d)] True"
    if "cbb_rep c ?P [(Asn1, e)]" "st \<longleftrightarrow> e \<noteq> []" for c st
    using child_u8_post [OF that(1), of env 0] op_post_refl [OF that(1), of env "()"] that(2) by (auto simp: d_def)
  have tail: "op_post env c
      (case (if \<not> st then in_child (CBB_add_u8 env 0) c else (Some (), c)) of
         (None, c) \<Rightarrow> (None, c) | (Some u, c) \<Rightarrow> CBB_flush env c)
      (?P @ closing [(Asn1, d)]) [] (True \<and> True)"
    if "cbb_rep c ?P [(Asn1, e)]" "st \<longleftrightarrow> e \<noteq> []" for c st
    by (rule op_post_bind [OF pad [OF that]]) (use fin in auto)
  have loop: "op_post env c
      (case uint64_loop env v [0..<8] False c of
         (None, c) \<Rightarrow> (None, c)
       | (Some st, c) \<Rightarrow>
          (case (if \<not> st then in_child (CBB_add_u8 env 0) c else (Some (), c)) of
             (None, c) \<Rightarrow> (None, c) | (Some u, c) \<Rightarrow> CBB_flush env c))
      (?P @ closing [(Asn1, d)]) [] (True \<and> (True \<and> True))" if h: "cbb_rep c ?P [(Asn1, [])]" for c
  proof (rule op_post_bind)
    show "op_post env c (uint64_loop env v [0..<8] False c) ?P [(Asn1, e)] True"
      using uint64_loop_post [OF h, of env v "[0..<8]" False] by (simp only: uint64_bytes e_def append_Nil)
    show "length (?P @ closing [(Asn1, e)]) \<le> length ((?P @ closing [(Asn1, d)]) @ closing [])"
      using length_encode_mono [of e d Asn1] by (simp add: d_def)
    fix st c' assume st: "uint64_loop env v [0..<8] False c = (Some st, c')" "cbb_rep c' ?P [(Asn1, e)]"
    then have "st \<longleftrightarrow> e \<noteq> []"
      using uint64_loop_started [OF st(1)] by (simp only: uint64_bytes e_def simp_thms)
    with st(2) show "op_post env c'
      (case (if \<not> st then in_child (CBB_add_u8 env 0) c' else (Some (), c')) of
         (None, c) \<Rightarrow> (None, c) | (Some u, c) \<Rightarrow> CBB_flush env c)
      (?P @ closing [(Asn1, d)]) [] (True \<and> True)" by (rule tail)
  qed
  have "op_post env cbb (CBB_add_asn1_uint64 env v cbb) (?P @ closing [(Asn1, d)]) [] (all_fit es \<and> (True \<and> (True \<and> True)))"
    unfolding CBB_add_asn1_uint64_def
  proof (rule op_post_bind)
    show "op_post env cbb (CBB_add_asn1 env CBS_ASN1_INTEGER cbb) ?P [(Asn1, [])] (all_fit es)"
      using CBB_add_asn1_post [OF rep, of 2 env] by simp
    show "length (?P @ closing [(Asn1, [])]) \<le> length ((?P @ closing [(Asn1, d)]) @ closing [])"
      using length_encode_mono [of "[]" d Asn1] by simp
  qed (rule loop)
  then show ?thesis by (simp add: der_element_def d)
qed


section \<open>Properties\<close>

lemma CBB_init_rep:
  assumes "CBB_init env n = (Some u, c)"
  shows "cbb_rep c [] []" "is_top_level c" "(\<forall>m. alloc_ok env m) \<Longrightarrow> cbb_grow env c"
  using assms
  by (auto simp: CBB_init_def cbb_init_def CBB_zero_def cbb_rep_def buffer_live_def buffer_wf_def contents_def
      cbb_grow_def can_grow_def split: if_splits)

lemma CBB_finish_post:
  assumes "cbb_rep cbb p es" "is_top_level cbb"
  shows "case CBB_finish env cbb of
      (Some out, c) \<Rightarrow> out = p @ closing es \<and> all_fit es \<and> base c = None
    | (None, c) \<Rightarrow> \<not> (cbb_grow env cbb \<and> all_fit es \<and> length (p @ closing es) < 2 ^ 64)"
proof (cases "CBB_flush env cbb")
  case (Pair r c)
  note post = CBB_flush_post [OF assms(1), of env]
  show ?thesis
  proof (cases r)
    case None
    then show ?thesis using post Pair assms(2) by (simp add: CBB_finish_def op_post_None)
  next
    case (Some u)
    then have "cbb_rep c (p @ closing es) []" "all_fit es" using post Pair by (simp_all add: op_post_Some)
    then show ?thesis using Pair Some assms(2)
      by (auto simp: CBB_finish_def CBB_cleanup_def contents_def elim!: rep_no_children)
  qed
qed

text \<open>
  C4. \<open>CBB_finish\<close> on a builder with any nesting of open ASN.1 and fixed-size length
  prefixes returns exactly the bytes the nesting stands for, every length filled in (ASN.1
  lengths in minimal form, the contents moved along when the length needs more than one octet),
  and leaves no buffer behind; it can only fail if the buffer cannot grow, some contents do not
  fit their prefix, or the message would have 2^64 bytes.
\<close>

theorem CBB_finish_closes_all_prefixes:
  assumes "cbb_rep cbb p es" "is_top_level cbb"
  shows "case CBB_finish env cbb of
      (Some out, c) \<Rightarrow> out = p @ closing es \<and> all_fit es \<and> base c = None
    | (None, c) \<Rightarrow> \<not> (cbb_grow env cbb \<and> all_fit es \<and> length (p @ closing es) < 2 ^ 64)"
  using assms by (rule CBB_finish_post)

theorem CBB_finish_closes_all_prefixes_witness:
  "cbb_rep \<lparr>base = Some \<lparr>b_buf = [0x30, 0, 7, 9], b_len = 3, b_cap = 4, can_resize = True, b_error = False\<rparr>,
            children = [\<lparr>c_offset = 1, pending_len_len = 1, pending_is_asn1 = True\<rparr>],
            is_top_level = True\<rparr> [0x30] [(Asn1, [7])] \<and>
   fst (CBB_finish \<lparr>alloc_ok = \<lambda>_. True, fresh = \<lambda>_. 0\<rparr>
     \<lparr>base = Some \<lparr>b_buf = [0x30, 0, 7, 9], b_len = 3, b_cap = 4, can_resize = True, b_error = False\<rparr>,
            children = [\<lparr>c_offset = 1, pending_len_len = 1, pending_is_asn1 = True\<rparr>],
            is_top_level = True\<rparr>) = Some [0x30, 1, 7]" (is "cbb_rep ?c _ _ \<and> fst (CBB_finish ?e _) = _")
proof
  show rep: "cbb_rep ?c [0x30] [(Asn1, [7])]"
    by (simp add: cbb_rep_def buffer_live_def buffer_wf_def contents_def)
  show "fst (CBB_finish ?e ?c) = Some [0x30, 1, 7]"
    using CBB_finish_closes_all_prefixes [OF rep, of ?e]
    by (auto simp: cbb_grow_def can_grow_def der_length_def split: prod.splits option.splits)
qed

text \<open>
  C5. The builder and the reader agree on ASN.1 integers: on a builder that can grow,
  \<open>CBB_add_asn1_uint64\<close> and \<open>CBB_finish\<close> succeed for every 64-bit value, keep the bytes
  that were already there, and what follows them is read back by \<open>CBS_get_asn1_uint64\<close> as
  the value that was written, with nothing left over.
\<close>

theorem CBB_add_asn1_uint64_roundtrip:
  assumes "cbb_rep cbb p []" "is_top_level cbb" "cbb_grow env cbb" "length p + 16 < 2 ^ 64"
  shows "\<exists>c out d. CBB_add_asn1_uint64 env v cbb = (Some (), c) \<and> CBB_finish env c = (Some out, d) \<and>
    take (length p) out = p \<and> CBS_get_asn1_uint64 (drop (length p) out) = (Some v, [])"
proof -
  let ?x = "der_element 2 (der_uint (unat v))"
  have len: "length (p @ ?x) < 2 ^ 64"
    using assms(4) length_der_uint [of "unat v"] unat_bound [of v] by (simp add: der_element_def der_length_def)
  have post: "op_post env cbb (CBB_add_asn1_uint64 env v cbb) (p @ ?x) [] True"
    using CBB_add_asn1_uint64_post [OF assms(1), of env v] by simp
  obtain r c where c: "CBB_add_asn1_uint64 env v cbb = (r, c)" by fastforce
  then have "r = Some ()" using post assms(3) len by (cases r) (auto simp: op_post_None)
  then have rep: "cbb_rep c (p @ ?x) []" "is_top_level c" "cbb_grow env c"
    using post c assms(2,3) by (simp_all add: op_post_Some)
  obtain r' d where d: "CBB_finish env c = (r', d)" by fastforce
  then obtain out where out: "r' = Some out" "out = p @ ?x"
    using CBB_finish_post [OF rep(1,2), of env] rep(3) len by (cases r') auto
  then show ?thesis using c d \<open>r = Some ()\<close> asn1_uint64_exact [of ?x v "[]"] by simp
qed

theorem CBB_add_asn1_uint64_roundtrip_witness:
  "\<exists>c out d. CBB_add_asn1_uint64 \<lparr>alloc_ok = \<lambda>_. True, fresh = \<lambda>_. 0\<rparr> 300
       \<lparr>base = Some \<lparr>b_buf = [7], b_len = 1, b_cap = 1, can_resize = True, b_error = False\<rparr>,
        children = [], is_top_level = True\<rparr> = (Some (), c) \<and>
     CBB_finish \<lparr>alloc_ok = \<lambda>_. True, fresh = \<lambda>_. 0\<rparr> c = (Some out, d) \<and>
     take (length [7 :: u8]) out = [7] \<and> CBS_get_asn1_uint64 (drop (length [7 :: u8]) out) = (Some 300, [])"
  by (rule CBB_add_asn1_uint64_roundtrip)
    (simp_all add: cbb_rep_def buffer_live_def buffer_wf_def contents_def cbb_grow_def can_grow_def)

end
