(* ===== verification/Const_Time.thy ===== *)
theory Const_Time
  imports Prelude
begin

text \<open>
  The branch-free comparisons of \<open>BoringSSL/crypto/internal.h\<close>, on the 64-bit
  \<open>crypto_word_t\<close>: each returns a mask of all ones or all zeros.
\<close>

section \<open>Definitions\<close>

definition constant_time_msb_w :: "u64 \<Rightarrow> u64" where
  "constant_time_msb_w a = 0 - drop_bit 63 a"

definition constant_time_lt_w :: "u64 \<Rightarrow> u64 \<Rightarrow> u64" where
  "constant_time_lt_w a b = constant_time_msb_w (a XOR ((a XOR b) OR ((a - b) XOR a)))"

definition constant_time_lt_8 :: "u64 \<Rightarrow> u64 \<Rightarrow> u8" where
  "constant_time_lt_8 a b = ucast (constant_time_lt_w a b)"

definition constant_time_ge_w :: "u64 \<Rightarrow> u64 \<Rightarrow> u64" where
  "constant_time_ge_w a b = NOT (constant_time_lt_w a b)"

definition constant_time_ge_8 :: "u64 \<Rightarrow> u64 \<Rightarrow> u8" where
  "constant_time_ge_8 a b = ucast (constant_time_ge_w a b)"

definition constant_time_is_zero_w :: "u64 \<Rightarrow> u64" where
  "constant_time_is_zero_w a = constant_time_msb_w (NOT a AND (a - 1))"

definition constant_time_is_zero_8 :: "u64 \<Rightarrow> u8" where
  "constant_time_is_zero_8 a = ucast (constant_time_is_zero_w a)"

definition constant_time_eq_w :: "u64 \<Rightarrow> u64 \<Rightarrow> u64" where
  "constant_time_eq_w a b = constant_time_is_zero_w (a XOR b)"

definition constant_time_eq_8 :: "u64 \<Rightarrow> u64 \<Rightarrow> u8" where
  "constant_time_eq_8 a b = ucast (constant_time_eq_w a b)"

definition constant_time_select_w :: "u64 \<Rightarrow> u64 \<Rightarrow> u64 \<Rightarrow> u64" where
  "constant_time_select_w m a b = (m AND a) OR (NOT m AND b)"

definition constant_time_select_8 :: "u8 \<Rightarrow> u8 \<Rightarrow> u8 \<Rightarrow> u8" where
  "constant_time_select_8 m a b = ucast (constant_time_select_w (ucast m) (ucast a) (ucast b))"

text \<open>The mask of a condition.\<close>

definition mask_of :: "bool \<Rightarrow> 'a::len word" where
  "mask_of P = (if P then - 1 else 0)"

section \<open>Every primitive computes the mask of its comparison\<close>

lemma bit_63_iff: "bit (w :: u64) 63 \<longleftrightarrow> 2 ^ 63 \<le> unat w"
proof -
  have "bit w 63 \<longleftrightarrow> bit (unat w) 63" by (simp add: bit_unsigned_iff)
  also have "\<dots> \<longleftrightarrow> odd (unat w div 2 ^ 63)" by (simp add: bit_iff_odd)
  also have "\<dots> \<longleftrightarrow> 2 ^ 63 \<le> unat w"
  proof -
    have "unat w div 2 ^ 63 < 2" using unat_bound [of w] by (simp add: less_mult_imp_div_less)
    then have "unat w div 2 ^ 63 = 0 \<or> unat w div 2 ^ 63 = 1" by linarith
    then show ?thesis
    proof
      assume "unat w div 2 ^ 63 = 0"
      then show ?thesis by (simp add: div_eq_0_iff)
    next
      assume *: "unat w div 2 ^ 63 = 1"
      then have "\<not> unat w < 2 ^ 63" by auto
      then show ?thesis using * by simp
    qed
  qed
  finally show ?thesis .
qed

lemma msb_w_mask: "constant_time_msb_w a = mask_of (bit a 63)"
proof -
  have "unat (drop_bit 63 a) < 2" using unat_bound [of a] by (simp add: unat_drop_bit less_mult_imp_div_less)
  moreover have "bit a 63 \<longleftrightarrow> unat (drop_bit 63 a) \<noteq> 0"
    by (auto simp: bit_63_iff unat_drop_bit div_eq_0_iff)
  ultimately have "drop_bit 63 a = (if bit a 63 then 1 else 0)"
    by (auto simp: word_unat_eq_iff)
  then show ?thesis by (simp add: constant_time_msb_w_def mask_of_def)
qed

lemma lt_w_mask: "constant_time_lt_w a b = mask_of (a < b)"
proof -
  have "bit (a XOR ((a XOR b) OR ((a - b) XOR a))) 63 \<longleftrightarrow>
      (if bit a 63 = bit b 63 then bit (a - b) 63 else bit b 63)"
    by (auto simp: bit_xor_iff bit_or_iff)
  also have "\<dots> \<longleftrightarrow> a < b"
    using unat_bound [of a] unat_bound [of b]
    by (auto simp: bit_63_iff word_less_nat_alt unat_sub_if')
  finally show ?thesis by (simp add: constant_time_lt_w_def msb_w_mask)
qed

lemma is_zero_w_mask: "constant_time_is_zero_w a = mask_of (a = 0)"
proof -
  have "bit (NOT a AND (a - 1)) 63 \<longleftrightarrow> a = 0"
  proof (cases "a = 0")
    case False
    then have "unat (a - 1) < unat a" by (simp add: unat_minus_one unat_gt_0)
    moreover have "bit (NOT a AND (a - 1)) 63 \<longleftrightarrow> \<not> bit a 63 \<and> bit (a - 1) 63"
      by (simp add: bit_and_iff bit_not_iff)
    ultimately show ?thesis using False by (simp add: bit_63_iff [of a] bit_63_iff [of "a - 1"]) linarith
  qed simp
  then show ?thesis by (simp add: constant_time_is_zero_w_def msb_w_mask)
qed

lemma eq_w_mask: "constant_time_eq_w a b = mask_of (a = b)"
proof -
  have "a XOR b = 0 \<longleftrightarrow> a = b" by (auto simp: bit_eq_iff bit_xor_iff)
  then show ?thesis by (simp add: constant_time_eq_w_def is_zero_w_mask)
qed

lemma ge_w_mask: "constant_time_ge_w a b = mask_of (b \<le> a)"
  by (auto simp: constant_time_ge_w_def lt_w_mask mask_of_def)

lemma ucast_mask_of [simp]: "(ucast (mask_of P :: u64) :: u8) = mask_of P"
  by (rule bit_eqI) (simp add: mask_of_def bit_ucast_iff bit_minus_1_iff)

lemmas constant_time_mask =
  msb_w_mask lt_w_mask is_zero_w_mask eq_w_mask ge_w_mask
  constant_time_lt_8_def constant_time_ge_8_def constant_time_is_zero_8_def constant_time_eq_8_def

lemma select_w_mask [simp]: "constant_time_select_w (mask_of P) a b = (if P then a else b)"
  by (simp add: constant_time_select_w_def mask_of_def)

lemma select_8_mask [simp]: "constant_time_select_8 (mask_of P) a b = (if P then a else b)"
  by (rule bit_eqI)
    (auto simp: constant_time_select_8_def constant_time_select_w_def mask_of_def
      bit_ucast_iff bit_and_iff bit_or_iff bit_not_iff bit_minus_1_iff)

section \<open>Properties\<close>

text \<open>
  C6. The branch-free comparison and selection return the mask of \<open>a < b\<close> (on all 2^128
  pairs of words, with the wrap-around of \<open>a - b\<close>) and the value that mask selects.
\<close>

theorem constant_time_lt_select_correct:
  "constant_time_select_w (constant_time_lt_w a b) x y = (if a < b then x else y) \<and>
   constant_time_select_w (constant_time_ge_w a b) x y = (if b \<le> a then x else y) \<and>
   constant_time_select_w (constant_time_eq_w a b) x y = (if a = b then x else y)"
  by (simp add: constant_time_mask)

end
