(* ===== verification/Base64.thy ===== *)
theory Base64
  imports Const_Time
begin

text \<open>
  The base64 encoder and decoder of \<open>BoringSSL/crypto/base64/base64.c\<close>, in one shot and
  streaming. What the code writes through its output pointer is returned as a byte string,
  without the terminating NUL; \<open>*out_len\<close> is a value of its own where the code can make it
  differ from the number of bytes written.
\<close>

section \<open>Definitions\<close>

subsection \<open>Single characters\<close>

definition constant_time_lt_args_8 :: "u8 \<Rightarrow> u8 \<Rightarrow> u8" where
  "constant_time_lt_args_8 a b =
     (let aw = ucast a :: u64; bw = ucast b :: u64 in ucast (constant_time_msb_w (aw - bw)))"

definition constant_time_in_range_8 :: "u8 \<Rightarrow> u8 \<Rightarrow> u8 \<Rightarrow> u8" where
  "constant_time_in_range_8 a mn mx =
     (let a = a - mn in constant_time_lt_args_8 a (mx - mn + 1))"

definition conv_bin2ascii :: "u8 \<Rightarrow> u8" where
  "conv_bin2ascii a =
     (let a = a AND 0x3f;
          ret = constant_time_select_8 (constant_time_eq_8 (ucast a) 62) 0x2b 0x2f;
          ret = constant_time_select_8 (constant_time_lt_args_8 a 62) (a - 52 + 0x30) ret;
          ret = constant_time_select_8 (constant_time_lt_args_8 a 52) (a - 26 + 0x61) ret;
          ret = constant_time_select_8 (constant_time_lt_args_8 a 26) (a + 0x41) ret
      in ret)"

definition base64_ascii_to_bin :: "u8 \<Rightarrow> u8" where
  "base64_ascii_to_bin a =
     (let is_upper = constant_time_in_range_8 a 0x41 0x5a;
          is_lower = constant_time_in_range_8 a 0x61 0x7a;
          is_digit = constant_time_in_range_8 a 0x30 0x39;
          is_plus = constant_time_eq_8 (ucast a) 0x2b;
          is_slash = constant_time_eq_8 (ucast a) 0x2f;
          is_equals = constant_time_eq_8 (ucast a) 0x3d;
          ret = 0xff;
          ret = constant_time_select_8 is_upper (a - 0x41) ret;
          ret = constant_time_select_8 is_lower (a - 0x61 + 26) ret;
          ret = constant_time_select_8 is_digit (a - 0x30 + 52) ret;
          ret = constant_time_select_8 is_plus 62 ret;
          ret = constant_time_select_8 is_slash 63 ret;
          ret = constant_time_select_8 is_equals 0 ret
      in ret)"

subsection \<open>Encoding\<close>

definition EVP_EncodedLength :: "size_t \<Rightarrow> size_t option" where
  "EVP_EncodedLength len =
     (if len + 2 < len then None
      else
        let len = (len + 2) div 3 in
        if drop_bit 2 (push_bit 2 len) \<noteq> len then None
        else
          let len = push_bit 2 len in
          if len + 1 < len then None else Some (len + 1))"

fun EVP_EncodeBlock :: "bytes \<Rightarrow> bytes" where
  "EVP_EncodeBlock (b0 # b1 # b2 # src) =
     (let l = push_bit 16 (ucast b0) OR push_bit 8 (ucast b1) OR ucast b2 :: u32 in
      [conv_bin2ascii (ucast (drop_bit 18 l)), conv_bin2ascii (ucast (drop_bit 12 l)),
       conv_bin2ascii (ucast (drop_bit 6 l)), conv_bin2ascii (ucast l)] @ EVP_EncodeBlock src)"
| "EVP_EncodeBlock [] = []"
| "EVP_EncodeBlock (b0 # rest) =
     (let l = push_bit 16 (ucast b0) :: u32;
          remaining = length (b0 # rest);
          l = (if remaining = 2 then l OR push_bit 8 (ucast (rest ! 0)) else l)
      in [conv_bin2ascii (ucast (drop_bit 18 l)), conv_bin2ascii (ucast (drop_bit 12 l)),
          if remaining = 1 then 0x3d else conv_bin2ascii (ucast (drop_bit 6 l)), 0x3d])"

text \<open>\<open>EVP_ENCODE_CTX\<close>: \<open>ctx_data\<close> is the array of 48 bytes.\<close>

record EVP_ENCODE_CTX =
  data_used :: u32
  ctx_data :: bytes
  eof_seen :: bool
  error_encountered :: bool

definition EVP_EncodeInit :: EVP_ENCODE_CTX where
  "EVP_EncodeInit =
     \<lparr>data_used = 0, ctx_data = replicate 48 0, eof_seen = False, error_encountered = False\<rparr>"

text \<open>
  The loop over whole lines. \<open>Inl\<close> is the return on overflow of \<open>total\<close>, with what was
  written so far; \<open>Inr\<close> is the written bytes, the remaining input and \<open>total\<close>.
\<close>

function encode_lines ::
    "bytes \<Rightarrow> size_t \<Rightarrow> bytes \<Rightarrow> bytes + bytes \<times> bytes \<times> size_t" where
  "encode_lines out tot inp =
     (if length inp \<ge> 48 then
        let enc = EVP_EncodeBlock (take 48 inp);
            encoded = of_nat (length enc) :: size_t;
            out = out @ enc @ [0x0a]
        in if tot + encoded + 1 < tot then Inl out
           else encode_lines out (tot + (encoded + 1)) (drop 48 inp)
      else Inr (out, inp, tot))"
  by pat_completeness auto
termination
  by (relation "measure (\<lambda>(_, _, inp). length inp)") auto

declare encode_lines.simps [simp del]

text \<open>The result is the context, the bytes written and \<open>*out_len\<close>.\<close>

definition EVP_EncodeUpdate ::
    "EVP_ENCODE_CTX \<Rightarrow> bytes \<Rightarrow> EVP_ENCODE_CTX \<times> bytes \<times> int" where
  "EVP_EncodeUpdate ctx inp =
     (if length inp = 0 then (ctx, [], 0)
      else if 48 - unat (data_used ctx) > length inp
      then (ctx\<lparr>ctx_data := poke (ctx_data ctx) (unat (data_used ctx)) inp,
                data_used := data_used ctx + of_nat (length inp)\<rparr>, [], 0)
      else
        let (ctx, out, inp, tot) =
          (if data_used ctx \<noteq> 0 then
             let todo = 48 - unat (data_used ctx);
                 d = poke (ctx_data ctx) (unat (data_used ctx)) (take todo inp);
                 enc = EVP_EncodeBlock d
             in (ctx\<lparr>ctx_data := d, data_used := 0\<rparr>, enc @ [0x0a], drop todo inp,
                 of_nat (length enc) + 1)
           else (ctx, [], inp, 0 :: size_t))
        in case encode_lines out tot inp of
             Inl out \<Rightarrow> (ctx, out, 0)
           | Inr (out, inp, tot) \<Rightarrow>
               (ctx\<lparr>ctx_data := poke (ctx_data ctx) 0 inp, data_used := of_nat (length inp)\<rparr>, out,
                if tot > 0x7fffffff then 0 else uint tot))"

definition EVP_EncodeFinal :: "EVP_ENCODE_CTX \<Rightarrow> EVP_ENCODE_CTX \<times> bytes \<times> int" where
  "EVP_EncodeFinal ctx =
     (if data_used ctx = 0 then (ctx, [], 0)
      else
        let enc = EVP_EncodeBlock (take (unat (data_used ctx)) (ctx_data ctx)) @ [0x0a]
        in (ctx\<lparr>data_used := 0\<rparr>, enc, int (length enc)))"

subsection \<open>Decoding\<close>

definition EVP_DecodedLength :: "size_t \<Rightarrow> size_t option" where
  "EVP_DecodedLength len = (if len mod 4 \<noteq> 0 then None else Some (len div 4 * 3))"

definition EVP_DecodeInit :: EVP_ENCODE_CTX where
  "EVP_DecodeInit =
     \<lparr>data_used = 0, ctx_data = replicate 48 0, eof_seen = False, error_encountered = False\<rparr>"

text \<open>The bytes written for one group of four characters; \<open>None\<close> is the error return.\<close>

definition base64_decode_quad :: "bytes \<Rightarrow> bytes option" where
  "base64_decode_quad inp =
     (let a = base64_ascii_to_bin (inp ! 0);
          b = base64_ascii_to_bin (inp ! 1);
          c = base64_ascii_to_bin (inp ! 2);
          d = base64_ascii_to_bin (inp ! 3)
      in if a = 0xff \<or> b = 0xff \<or> c = 0xff \<or> d = 0xff then None
         else
           let v = push_bit 18 (ucast a) OR push_bit 12 (ucast b) OR push_bit 6 (ucast c) OR ucast d :: u32;
               padding_pattern =
                 push_bit 3 (of_bool (inp ! 0 = 0x3d)) OR push_bit 2 (of_bool (inp ! 1 = 0x3d)) OR
                 push_bit 1 (of_bool (inp ! 2 = 0x3d)) OR of_bool (inp ! 3 = 0x3d) :: u32
           in if padding_pattern = 0 then
                Some [ucast (drop_bit 16 v), ucast (drop_bit 8 v), ucast v]
              else if padding_pattern = 1 then
                Some [ucast (drop_bit 16 v), ucast (drop_bit 8 v)]
              else if padding_pattern = 3 then
                Some [ucast (drop_bit 16 v)]
              else None)"

text \<open>
  The loop of \<open>EVP_DecodeUpdate\<close>. \<open>None\<close> as outcome is the \<open>return -1\<close>, after
  which the context says so; the third component is the bytes written.
\<close>

fun decode_loop ::
    "EVP_ENCODE_CTX \<Rightarrow> bytes \<Rightarrow> bytes \<Rightarrow> EVP_ENCODE_CTX \<times> bytes \<times> bool" where
  "decode_loop ctx out [] = (ctx, out, True)"
| "decode_loop ctx out (c # inp) =
     (if c = 0x20 \<or> c = 0x09 \<or> c = 0x0d \<or> c = 0x0a then decode_loop ctx out inp
      else if eof_seen ctx then (ctx\<lparr>error_encountered := True\<rparr>, out, False)
      else
        let ctx = ctx\<lparr>ctx_data := (ctx_data ctx)[unat (data_used ctx) := c],
                      data_used := data_used ctx + 1\<rparr>
        in if data_used ctx = 4 then
             case base64_decode_quad (ctx_data ctx) of
               None \<Rightarrow> (ctx\<lparr>error_encountered := True\<rparr>, out, False)
             | Some bs \<Rightarrow>
                 let ctx = ctx\<lparr>data_used := 0\<rparr>;
                     ctx = (if length bs < 3 then ctx\<lparr>eof_seen := True\<rparr> else ctx)
                 in decode_loop ctx (out @ bs) inp
           else decode_loop ctx out inp)"

text \<open>The context, the bytes written, \<open>*out_len\<close> and the return value.\<close>

definition EVP_DecodeUpdate ::
    "EVP_ENCODE_CTX \<Rightarrow> bytes \<Rightarrow> EVP_ENCODE_CTX \<times> bytes \<times> int \<times> int" where
  "EVP_DecodeUpdate ctx inp =
     (if error_encountered ctx then (ctx, [], 0, -1)
      else case decode_loop ctx [] inp of
        (ctx, out, False) \<Rightarrow> (ctx, out, 0, -1)
      | (ctx, out, True) \<Rightarrow>
          if length out > 0x7fffffff then (ctx\<lparr>error_encountered := True\<rparr>, out, 0, -1)
          else (ctx, out, int (length out), if eof_seen ctx then 0 else 1))"

definition EVP_DecodeFinal :: "EVP_ENCODE_CTX \<Rightarrow> int" where
  "EVP_DecodeFinal ctx = (if error_encountered ctx \<or> data_used ctx \<noteq> 0 then -1 else 1)"

fun decode_quads :: "bytes \<Rightarrow> bytes option" where
  "decode_quads (c0 # c1 # c2 # c3 # rest) =
     (case base64_decode_quad [c0, c1, c2, c3] of
        None \<Rightarrow> None
      | Some bs \<Rightarrow>
          if length bs \<noteq> 3 \<and> rest \<noteq> [] then None
          else map_option ((@) bs) (decode_quads rest))"
| "decode_quads inp = Some []"

text \<open>The decoded bytes, whose number is \<open>*out_len\<close>; \<open>None\<close> is the error return.\<close>

definition EVP_DecodeBase64 :: "size_t \<Rightarrow> bytes \<Rightarrow> bytes option" where
  "EVP_DecodeBase64 max_out inp =
     (if of_nat (length inp) mod 4 \<noteq> (0 :: size_t) then None
      else case EVP_DecodedLength (of_nat (length inp)) of
        None \<Rightarrow> None
      | Some max_len \<Rightarrow> if max_out < max_len then None else decode_quads inp)"

definition EVP_DecodeBlock :: "bytes \<Rightarrow> bytes option" where
  "EVP_DecodeBlock src =
     (let src = dropWhile (\<lambda>c. c = 0x20 \<or> c = 0x09) src;
          src = rev (dropWhile (\<lambda>c. c = 0x20 \<or> c = 0x09 \<or> c = 0x0d \<or> c = 0x0a) (rev src))
      in case EVP_DecodedLength (of_nat (length src)) of
           None \<Rightarrow> None
         | Some dst_len \<Rightarrow>
             if dst_len > 0x7fffffff then None
             else map_option (\<lambda>out. out @ replicate ((3 - length out mod 3) mod 3) 0)
                    (EVP_DecodeBase64 dst_len src))"

section \<open>Single characters\<close>

text \<open>The base64 alphabet, as ASCII codes.\<close>

definition b64_alphabet :: bytes where
  "b64_alphabet =
     map of_nat ([65..<91] @ [97..<123] @ [48..<58] @ [43, 47])"

lemma b64_alphabet_list:
  "b64_alphabet =
     [65, 66, 67, 68, 69, 70, 71, 72, 73, 74, 75, 76, 77, 78, 79, 80, 81, 82, 83, 84, 85, 86, 87, 88,
      89, 90, 97, 98, 99, 100, 101, 102, 103, 104, 105, 106, 107, 108, 109, 110, 111, 112, 113, 114,
      115, 116, 117, 118, 119, 120, 121, 122, 48, 49, 50, 51, 52, 53, 54, 55, 56, 57, 43, 47]"
  by (simp add: b64_alphabet_def upt_rec)

lemma lt_args_8_mask: "constant_time_lt_args_8 a b = mask_of (a < b)"
proof -
  have a: "unat (ucast a :: u64) = unat a" and b: "unat (ucast b :: u64) = unat b"
    by (simp_all add: unat_ucast_up)
  have "bit (ucast a - ucast b :: u64) 63 \<longleftrightarrow> a < b"
    by (cases "unat b \<le> unat a"; simp add: bit_63_iff word_less_nat_alt unat_sub_if' a b;
        use unat_lt_256 [of a] unat_lt_256 [of b] in linarith)
  then show ?thesis by (simp add: constant_time_lt_args_8_def msb_w_mask Let_def)
qed

lemma in_range_8_mask:
  "constant_time_in_range_8 a mn mx = mask_of (a - mn < mx - mn + 1)"
  by (simp add: constant_time_in_range_8_def lt_args_8_mask Let_def)

lemma conv_bin2ascii_select:
  "conv_bin2ascii a =
     (let a = a AND 0x3f in
      if a < 26 then a + 0x41 else if a < 52 then a - 26 + 0x61
      else if a < 62 then a - 52 + 0x30 else if (ucast a :: u64) = 62 then 0x2b else 0x2f)"
  by (simp add: conv_bin2ascii_def lt_args_8_mask constant_time_eq_8_def eq_w_mask Let_def)

lemma base64_ascii_to_bin_select:
  "base64_ascii_to_bin a =
     (if (ucast a :: u64) = 0x3d then 0 else if (ucast a :: u64) = 0x2f then 63
      else if (ucast a :: u64) = 0x2b then 62
      else if a - 0x30 < 10 then a - 0x30 + 52 else if a - 0x61 < 26 then a - 0x61 + 26
      else if a - 0x41 < 26 then a - 0x41 else 0xff)"
  by (simp add: base64_ascii_to_bin_def in_range_8_mask constant_time_eq_8_def eq_w_mask Let_def)

lemma u8_cases_below:
  fixes w :: u8
  assumes "unat w < k" and "\<And>n. n < k \<Longrightarrow> P (of_nat n)"
  shows "P w"
  using assms(2) [OF assms(1)] by simp

lemma less_Suc_cases: "(\<forall>n < numeral k. P n) \<longleftrightarrow> (\<forall>n \<in> set [0..<numeral k]. P (n :: nat))"
  by auto

lemma conv_table:
  "\<forall>n < 64. conv_bin2ascii (of_nat n) = b64_alphabet ! n \<and> base64_ascii_to_bin (b64_alphabet ! n) = of_nat n"
  unfolding less_Suc_cases
  by (simp add: upt_rec b64_alphabet_list conv_bin2ascii_select base64_ascii_to_bin_select Let_def)

lemma conv_bin2ascii_alphabet: "conv_bin2ascii w = b64_alphabet ! (unat w mod 64)"
proof -
  have w: "w AND 0x3f = of_nat (unat w mod 64)"
    using unat_and_mask [of w 6] by (simp add: word_unat_eq_iff mask_eq_exp_minus_1 byte_simps)
  have "conv_bin2ascii w = conv_bin2ascii (w AND 0x3f)"
    by (simp add: conv_bin2ascii_select and.assoc)
  then show ?thesis using conv_table w by simp
qed

lemma ascii_to_bin_conv: "base64_ascii_to_bin (conv_bin2ascii w) = of_nat (unat w mod 64)"
  using conv_table by (simp add: conv_bin2ascii_alphabet)

lemma alphabet_excludes:
  "n < 64 \<Longrightarrow> b64_alphabet ! n \<notin> {0x3d, 0x20, 0x09, 0x0d, 0x0a}"
proof -
  have "\<forall>c \<in> set b64_alphabet. c \<notin> {0x3d, 0x20, 0x09, 0x0d, 0x0a :: u8}"
    by (simp add: b64_alphabet_list)
  moreover have "length b64_alphabet = 64" by (simp add: b64_alphabet_def)
  moreover assume "n < 64"
  ultimately show ?thesis by (metis nth_mem)
qed

lemma conv_not_special [simp]:
  "conv_bin2ascii w \<noteq> 0x3d" "conv_bin2ascii w \<noteq> 0x20" "conv_bin2ascii w \<noteq> 0x09"
  "conv_bin2ascii w \<noteq> 0x0d" "conv_bin2ascii w \<noteq> 0x0a"
  using alphabet_excludes [of "unat w mod 64"] by (simp_all add: conv_bin2ascii_alphabet)

lemma ascii_to_bin_pad: "base64_ascii_to_bin 0x3d = 0"
  by (simp add: base64_ascii_to_bin_select)

section \<open>One group of four characters\<close>

text \<open>The four characters of a 24-bit number.\<close>

definition quad_chars :: "nat \<Rightarrow> bytes" where
  "quad_chars n = map (\<lambda>k. b64_alphabet ! (n div 64 ^ k mod 64)) [3, 2, 1, 0]"

lemma unat_l3:
  "unat (push_bit 16 (ucast (b0 :: u8)) OR push_bit 8 (ucast (b1 :: u8)) OR ucast (b2 :: u8) :: u32) =
     unat b0 * 65536 + unat b1 * 256 + unat b2"
proof -
  let ?x = "push_bit 8 (ucast b1) OR ucast b2 :: u32"
  have u: "unat (ucast b :: u32) = unat b" for b :: u8 by (simp add: unat_ucast_up)
  have x: "unat ?x = unat b1 * 256 + unat b2"
    using unat_push_bit_OR [of "ucast b1 :: u32" 8 "ucast b2"] unat_lt_256 [of b1] unat_lt_256 [of b2]
    by (simp add: u)
  have "unat ?x < 65536" using x unat_lt_256 [of b1] unat_lt_256 [of b2] by linarith
  then show ?thesis
    using unat_push_bit_OR [of "ucast b0 :: u32" 16 ?x] unat_lt_256 [of b0] x by (simp add: u or.assoc)
qed

lemma unat_ucast_down_mod:
  "unat (ucast (w :: u32) :: u8) = unat w mod 256"
  by (simp add: unsigned_ucast_eq take_bit_eq_mod)

lemma conv_shift:
  "conv_bin2ascii (ucast (drop_bit (6 * k) (l :: u32))) = b64_alphabet ! (unat l div 64 ^ k mod 64)"
proof -
  have "unat l div 2 ^ (6 * k) mod 256 mod 64 = unat l div 64 ^ k mod 64"
    by (simp add: power_mult mod_mod_cancel)
  then show ?thesis by (simp add: conv_bin2ascii_alphabet unat_ucast_down_mod unat_drop_bit)
qed

lemma quad_chars_conv:
  "[conv_bin2ascii (ucast (drop_bit 18 l)), conv_bin2ascii (ucast (drop_bit 12 l)),
    conv_bin2ascii (ucast (drop_bit 6 l)), conv_bin2ascii (ucast l)] = quad_chars (unat (l :: u32))"
  using conv_shift [of 3 l] conv_shift [of 2 l] conv_shift [of 1 l] conv_shift [of 0 l]
  by (simp only: quad_chars_def list.map) simp

lemma EVP_EncodeBlock_3:
  "EVP_EncodeBlock (b0 # b1 # b2 # src) =
     quad_chars (unat b0 * 65536 + unat b1 * 256 + unat b2) @ EVP_EncodeBlock src"
  unfolding EVP_EncodeBlock.simps(1) Let_def quad_chars_conv unat_l3 ..

lemma EVP_EncodeBlock_2:
  "EVP_EncodeBlock [b0, b1] = take 3 (quad_chars (unat b0 * 65536 + unat b1 * 256)) @ [0x3d]"
proof -
  have "unat (push_bit 16 (ucast b0) OR push_bit 8 (ucast b1) :: u32) = unat b0 * 65536 + unat b1 * 256"
    using unat_l3 [of b0 b1 0] by simp
  from quad_chars_conv [of "push_bit 16 (ucast b0) OR push_bit 8 (ucast b1)", unfolded this, symmetric]
  show ?thesis by (simp add: Let_def)
qed

lemma EVP_EncodeBlock_1:
  "EVP_EncodeBlock [b0] = take 2 (quad_chars (unat b0 * 65536)) @ [0x3d, 0x3d]"
proof -
  have "unat (push_bit 16 (ucast b0) :: u32) = unat b0 * 65536"
    using unat_l3 [of b0 0 0] by simp
  from quad_chars_conv [of "push_bit 16 (ucast b0)", unfolded this, symmetric]
  show ?thesis by (simp add: Let_def)
qed

lemma unat_sextets:
  assumes "x < 64" "y < 64" "z < 64" "t < 64"
  shows "unat (push_bit 18 (ucast (of_nat x :: u8)) OR push_bit 12 (ucast (of_nat y :: u8)) OR
      push_bit 6 (ucast (of_nat z :: u8)) OR ucast (of_nat t :: u8) :: u32) =
    x * 262144 + y * 4096 + z * 64 + t"
proof -
  have u: "unat (ucast (of_nat n :: u8) :: u32) = n" if "n < 64" for n
    using that by (simp add: unat_ucast_up unat_of_nat_u8)
  let ?zt = "push_bit 6 (ucast (of_nat z :: u8)) OR ucast (of_nat t :: u8) :: u32"
  let ?yzt = "push_bit 12 (ucast (of_nat y :: u8)) OR ?zt :: u32"
  have zt: "unat ?zt = z * 64 + t"
    using unat_push_bit_OR [of "ucast (of_nat z :: u8) :: u32" 6 "ucast (of_nat t :: u8)"] assms
    by (simp add: u)
  then have yzt: "unat ?yzt = y * 4096 + z * 64 + t"
    using unat_push_bit_OR [of "ucast (of_nat y :: u8) :: u32" 12 ?zt] assms by (simp add: u)
  then show ?thesis
    using unat_push_bit_OR [of "ucast (of_nat x :: u8) :: u32" 18 ?yzt] assms
    by (simp add: u or.assoc)
qed

lemma to_bin_alphabet: "n < 64 \<Longrightarrow> base64_ascii_to_bin (b64_alphabet ! n) = of_nat n"
  using conv_table by blast

lemma ucast_shift_u8:
  "(ucast (drop_bit k (v :: u32)) :: u8) = of_nat (unat v div 2 ^ k)"
  by (simp add: word_unat_eq_iff unat_ucast_down_mod unat_drop_bit unat_of_nat_u8)

lemma mod_split: "k * (n div k mod m) + n mod k = n mod (k * m :: nat)"
  by (simp add: mod_mult2_eq)

lemma sextets_join:
  assumes "n < 16777216"
  shows "n div 262144 mod 64 * 262144 + n div 4096 mod 64 * 4096 + n div 64 mod 64 * 64 + n mod 64 = (n :: nat)"
proof -
  have "n div 262144 mod 64 = n div 262144" using assms by (simp add: less_mult_imp_div_less)
  then show ?thesis
    using mod_split [of 64 n 64, simplified] mod_split [of 4096 n 64, simplified]
      div_mult_mod_eq [of n 262144] by linarith
qed

lemma sextet_not_ff: "x < 64 \<Longrightarrow> (of_nat x :: u8) \<noteq> 0xff"
  by (auto simp: word_unat_eq_iff unat_of_nat_u8)

lemma decode_quad_sextets:
  assumes lt: "x < 64" "y < 64" "z < 64" "t < 64"
    and bin: "base64_ascii_to_bin a = of_nat x" "base64_ascii_to_bin b = of_nat y"
      "base64_ascii_to_bin c = of_nat z" "base64_ascii_to_bin d = of_nat t"
    and pad: "a \<noteq> 0x3d" "b \<noteq> 0x3d" "c = 0x3d \<Longrightarrow> d = 0x3d"
    and n: "n = x * 262144 + y * 4096 + z * 64 + t"
  shows "base64_decode_quad [a, b, c, d] =
    Some (take (if c = 0x3d then 1 else if d = 0x3d then 2 else 3)
      [of_nat (n div 65536), of_nat (n div 256), of_nat n])"
proof -
  have nth: "[a, b, c, d] ! 0 = a" "[a, b, c, d] ! 1 = b" "[a, b, c, d] ! 2 = c" "[a, b, c, d] ! 3 = d"
    by simp_all
  let ?v = "push_bit 18 (ucast (of_nat x :: u8)) OR push_bit 12 (ucast (of_nat y :: u8)) OR
      push_bit 6 (ucast (of_nat z :: u8)) OR ucast (of_nat t :: u8) :: u32"
  have v: "unat ?v = n" using unat_sextets lt n by blast
  have sh: "(ucast (drop_bit 16 ?v) :: u8) = of_nat (n div 65536)" "(ucast (drop_bit 8 ?v) :: u8) = of_nat (n div 256)"
    "(ucast ?v :: u8) = of_nat n"
    using ucast_shift_u8 [of 16 ?v] ucast_shift_u8 [of 8 ?v] ucast_shift_u8 [of 0 ?v] unfolding v by simp_all
  show ?thesis
    unfolding base64_decode_quad_def nth bin Let_def sh
    using sextet_not_ff [OF lt(1)] sextet_not_ff [OF lt(2)] sextet_not_ff [OF lt(3)] sextet_not_ff [OF lt(4)] pad
    by simp
qed

lemma quad_chars_list:
  "quad_chars n = [b64_alphabet ! (n div 262144 mod 64), b64_alphabet ! (n div 4096 mod 64),
    b64_alphabet ! (n div 64 mod 64), b64_alphabet ! (n mod 64)]"
  by (simp add: quad_chars_def)

lemma alphabet_not_pad [simp]: "b64_alphabet ! (n mod 64) \<noteq> 0x3d"
  using alphabet_excludes [of "n mod 64"] by simp

lemma bytes3_div:
  "(of_nat ((unat b0 * 65536 + unat b1 * 256 + unat (b2 :: u8)) div 65536) :: u8) = b0"
  "(of_nat ((unat b0 * 65536 + unat b1 * 256 + unat b2) div 256) :: u8) = b1"
  "(of_nat (unat b0 * 65536 + unat b1 * 256 + unat b2) :: u8) = b2"
proof -
  let ?n = "unat b0 * 65536 + unat b1 * 256 + unat b2"
  have n: "?n = unat b2 + (unat b0 * 256 + unat b1) * 256" by simp
  have n': "?n = unat b1 * 256 + unat b2 + unat b0 * 65536" by simp
  have "unat b1 * 256 + unat b2 < 65536"
    using unat_lt_256 [of b1] unat_lt_256 [of b2] by linarith
  then have "?n div 65536 = unat b0" unfolding n' by (simp del: mult_Suc mult_Suc_right)
  moreover have "?n div 256 = unat b0 * 256 + unat b1" "?n mod 256 = unat b2"
    using div_mult_self1 [of 256 "unat b2" "unat b0 * 256 + unat b1"]
      mod_mult_self1 [of "unat b2" "unat b0 * 256 + unat b1" 256]
    unfolding n by simp_all
  ultimately show "(of_nat (?n div 65536) :: u8) = b0" "(of_nat (?n div 256) :: u8) = b1"
    "(of_nat ?n :: u8) = b2"
    by (simp_all only: word_unat_eq_iff unat_of_nat_u8) simp_all
qed

lemma bytes3_less: "unat (b0 :: u8) * 65536 + unat (b1 :: u8) * 256 + unat (b2 :: u8) < 16777216"
  using unat_lt_256 [of b0] unat_lt_256 [of b1] unat_lt_256 [of b2] by linarith

lemma decode_quad_3:
  "base64_decode_quad (quad_chars (unat b0 * 65536 + unat b1 * 256 + unat b2)) = Some [b0, b1, b2]"
  unfolding quad_chars_list
  by (subst decode_quad_sextets [OF _ _ _ _ to_bin_alphabet to_bin_alphabet to_bin_alphabet to_bin_alphabet
        _ _ _ sextets_join [OF bytes3_less, symmetric]]) (simp_all only: bytes3_div, simp_all)

lemma decode_quad_2:
  "base64_decode_quad (take 3 (quad_chars (unat b0 * 65536 + unat b1 * 256)) @ [0x3d]) = Some [b0, b1]"
proof -
  let ?n = "unat b0 * 65536 + unat b1 * 256 + unat (0 :: u8)"
  have "?n = 64 * (unat b0 * 1024 + unat b1 * 4)" by simp
  then have "?n mod 64 = 0" by (metis mod_mult_self1_is_0)
  then have n: "?n = ?n div 262144 mod 64 * 262144 + ?n div 4096 mod 64 * 4096 + ?n div 64 mod 64 * 64 + 0"
    using sextets_join [OF bytes3_less, of b0 b1 0] by linarith
  have p: "base64_ascii_to_bin 0x3d = of_nat 0" by (simp add: ascii_to_bin_pad)
  have "base64_decode_quad [b64_alphabet ! (?n div 262144 mod 64), b64_alphabet ! (?n div 4096 mod 64),
    b64_alphabet ! (?n div 64 mod 64), 0x3d] = Some [b0, b1]"
    by (subst decode_quad_sextets [OF _ _ _ _ to_bin_alphabet to_bin_alphabet to_bin_alphabet p _ _ _ n])
      (simp_all only: bytes3_div, simp_all)
  then show ?thesis by (simp add: quad_chars_list)
qed

lemma decode_quad_1:
  "base64_decode_quad (take 2 (quad_chars (unat b0 * 65536)) @ [0x3d, 0x3d]) = Some [b0]"
proof -
  let ?n = "unat b0 * 65536 + unat (0 :: u8) * 256 + unat (0 :: u8)"
  have e: "?n = 4096 * (unat b0 * 16)" by simp
  have "?n mod 64 = 0" "?n div 64 mod 64 = 0" by (simp_all add: e mult.commute)
  then have n: "?n = ?n div 262144 mod 64 * 262144 + ?n div 4096 mod 64 * 4096 + 0 * 64 + 0"
    using sextets_join [OF bytes3_less, of b0 0 0] by linarith
  have p: "base64_ascii_to_bin 0x3d = of_nat 0" by (simp add: ascii_to_bin_pad)
  have "base64_decode_quad [b64_alphabet ! (?n div 262144 mod 64), b64_alphabet ! (?n div 4096 mod 64),
    0x3d, 0x3d] = Some [b0]"
    by (subst decode_quad_sextets [OF _ _ _ _ to_bin_alphabet to_bin_alphabet p p _ _ _ n])
      (simp_all only: bytes3_div, simp_all)
  then show ?thesis by (simp add: quad_chars_list)
qed

section \<open>One-shot round trip\<close>

lemma length_quad_chars [simp]: "length (quad_chars n) = 4"
  by (simp add: quad_chars_def)

lemma quad_Cons:
  "length q = 4 \<Longrightarrow> decode_quads (q @ rest) =
     (case base64_decode_quad q of
        None \<Rightarrow> None
      | Some bs \<Rightarrow>
          if length bs \<noteq> 3 \<and> rest \<noteq> [] then None else map_option ((@) bs) (decode_quads rest))"
  by (auto simp: length_Suc_conv numeral_eq_Suc)

text \<open>Induction in steps of three bytes, as \<open>EVP_EncodeBlock\<close> advances.\<close>

lemma list3_induct [case_names 0 1 2 3]:
  assumes "P []" "\<And>b0. P [b0]" "\<And>b0 b1. P [b0, b1]"
    "\<And>b0 b1 b2 src. P src \<Longrightarrow> P (b0 # b1 # b2 # src)"
  shows "P x"
proof (induction x rule: length_induct)
  case (1 xs)
  then show ?case
    using assms by (cases xs rule: remdups_adj.cases) (auto intro: assms split: list.splits, metis neq_Nil_conv assms length_Cons less_Suc_eq)
qed

lemma decode_quads_encode: "decode_quads (EVP_EncodeBlock x) = Some x"
proof (induction x rule: list3_induct)
  case (2 b0 b1)
  show ?case
    using quad_Cons [of "take 3 (quad_chars (unat b0 * 65536 + unat b1 * 256)) @ [0x3d]" "[]"]
    by (simp only: EVP_EncodeBlock_2 decode_quad_2) simp
next
  case (1 b0)
  show ?case
    using quad_Cons [of "take 2 (quad_chars (unat b0 * 65536)) @ [0x3d, 0x3d]" "[]"]
    by (simp only: EVP_EncodeBlock_1 decode_quad_1) simp
next
  case (3 b0 b1 b2 src)
  then show ?case by (simp only: EVP_EncodeBlock_3 quad_Cons length_quad_chars decode_quad_3) simp
qed simp

lemma length_EVP_EncodeBlock: "length (EVP_EncodeBlock x) = 4 * ((length x + 2) div 3)"
proof (induction x rule: list3_induct)
  case (3 b0 b1 b2 src)
  have "(length (b0 # b1 # b2 # src) + 2) div 3 = Suc ((length src + 2) div 3)"
    by (simp add: le_div_geq)
  then show ?case using 3 by (simp only: EVP_EncodeBlock_3) simp
qed (simp_all only: EVP_EncodeBlock_1 EVP_EncodeBlock_2, simp_all)

lemma EVP_DecodeBase64_EncodeBlock:
  assumes "length x < 2 ^ 61" and "(length x + 2) div 3 * 3 \<le> unat m"
  shows "EVP_DecodeBase64 m (EVP_EncodeBlock x) = Some x"
proof -
  let ?l = "of_nat (length (EVP_EncodeBlock x)) :: size_t"
  have l: "unat ?l = 4 * ((length x + 2) div 3)"
    using assms(1) by (simp add: length_EVP_EncodeBlock unat_of_nat_64 del: of_nat_mult)
  then have "unat (?l mod 4) = 0" "unat (?l div 4 * 3) = (length x + 2) div 3 * 3"
    using assms(1) by (simp_all add: unat_mod unat_div unat_word_ariths)
  then have "?l mod 4 = 0" "?l div 4 * 3 \<le> m"
    using assms(2) by (simp_all add: word_unat_eq_iff word_le_nat_alt)
  then show ?thesis
    by (simp add: EVP_DecodeBase64_def EVP_DecodedLength_def decode_quads_encode not_less)
qed

section \<open>The streaming encoder\<close>

text \<open>Whole lines of 48 input bytes, and the complete text with its last, shorter line.\<close>

function full_lines :: "bytes \<Rightarrow> bytes" where
  "full_lines xs =
     (if length xs \<ge> 48 then EVP_EncodeBlock (take 48 xs) @ [0x0a] @ full_lines (drop 48 xs) else [])"
  by pat_completeness auto
termination by (relation "measure length") auto

function b64_lines :: "bytes \<Rightarrow> bytes" where
  "b64_lines xs =
     (if xs = [] then [] else EVP_EncodeBlock (take 48 xs) @ [0x0a] @ b64_lines (drop 48 xs))"
  by pat_completeness auto
termination by (relation "measure length") auto

definition last_line :: "bytes \<Rightarrow> bytes" where
  "last_line xs = drop (length xs div 48 * 48) xs"

declare full_lines.simps [simp del] b64_lines.simps [simp del]

lemma length_last_line: "length (last_line xs) = length xs mod 48"
  by (simp add: last_line_def modulo_nat_def)

lemma last_line_short: "length xs < 48 \<Longrightarrow> last_line xs = xs"
  by (simp add: last_line_def)

lemma last_line_drop: "48 \<le> length xs \<Longrightarrow> last_line (drop 48 xs) = last_line xs"
  by (simp add: last_line_def le_div_geq [of 48 "length xs"] algebra_simps)

lemma full_lines_append:
  "full_lines (xs @ ys) = full_lines xs @ full_lines (last_line xs @ ys)"
proof (induction xs rule: full_lines.induct)
  case (1 xs)
  show ?case
  proof (cases "48 \<le> length xs")
    case True
    then show ?thesis
      using 1 [OF True] by (simp add: full_lines.simps [of "xs @ ys"] full_lines.simps [of xs] last_line_drop)
  next
    case False
    then show ?thesis by (simp add: full_lines.simps [of xs] last_line_short)
  qed
qed

lemma last_line_append: "last_line (xs @ ys) = last_line (last_line xs @ ys)"
proof (induction xs rule: full_lines.induct)
  case (1 xs)
  show ?case
  proof (cases "48 \<le> length xs")
    case True
    then show ?thesis using 1 [OF True] last_line_drop [of "xs @ ys"] by (simp add: last_line_drop)
  qed (simp add: last_line_short)
qed

lemma b64_lines_split:
  "b64_lines xs = full_lines xs @ (if last_line xs = [] then [] else EVP_EncodeBlock (last_line xs) @ [0x0a])"
proof (induction xs rule: full_lines.induct)
  case (1 xs)
  show ?case
  proof (cases "48 \<le> length xs")
    case True
    then show ?thesis
      using 1 [OF True]
      by (auto simp: b64_lines.simps [of xs] full_lines.simps [of xs] last_line_drop)
  next
    case False
    then show ?thesis
      by (simp add: b64_lines.simps [of xs] b64_lines.simps [of "[]"] full_lines.simps [of xs] last_line_short)
  qed
qed

lemma length_full_lines: "length (full_lines xs) = length xs div 48 * 65"
proof (induction xs rule: full_lines.induct)
  case (1 xs)
  show ?case
    using 1 by (cases "48 \<le> length xs")
      (simp_all add: full_lines.simps [of xs] length_EVP_EncodeBlock le_div_geq [of 48 "length xs"])
qed

lemma encode_lines_full:
  assumes "unat tot + length (full_lines inp) < 2 ^ 64"
  shows "encode_lines out tot inp =
    Inr (out @ full_lines inp, last_line inp, tot + of_nat (length (full_lines inp)))"
  using assms
proof (induction out tot inp rule: encode_lines.induct)
  case (1 out tot inp)
  show ?case
  proof (cases "48 \<le> length inp")
    case True
    have l: "length (EVP_EncodeBlock (take 48 inp)) = 64" using True by (simp add: length_EVP_EncodeBlock)
    have f: "full_lines inp = EVP_EncodeBlock (take 48 inp) @ [0x0a] @ full_lines (drop 48 inp)"
      using True by (subst full_lines.simps) simp
    have le: "unat tot + 65 < 2 ^ 64" using 1(2) f l by simp
    then have u: "unat (tot + 65) = unat tot + 65" by (simp add: unat_word_ariths)
    then have "\<not> tot + 65 < tot" by (simp add: word_less_nat_alt)
    moreover have "encode_lines (out @ EVP_EncodeBlock (take 48 inp) @ [0x0a]) (tot + 65) (drop 48 inp) =
        Inr ((out @ EVP_EncodeBlock (take 48 inp) @ [0x0a]) @ full_lines (drop 48 inp),
          last_line (drop 48 inp), tot + 65 + of_nat (length (full_lines (drop 48 inp))))"
      using 1(1) [OF True refl refl refl] 1(2) l u f \<open>\<not> tot + 65 < tot\<close> by (simp add: add.assoc)
    ultimately show ?thesis
      using True l by (subst encode_lines.simps) (simp add: Let_def f last_line_drop add.assoc)
  next
    case False
    then show ?thesis
      by (simp add: encode_lines.simps full_lines.simps [of inp] last_line_short)
  qed
qed

text \<open>A context between two calls: fewer than 48 bytes wait in \<open>ctx_data\<close>.\<close>

definition enc_ok :: "EVP_ENCODE_CTX \<Rightarrow> bool" where
  "enc_ok ctx \<longleftrightarrow> length (ctx_data ctx) = 48 \<and> unat (data_used ctx) < 48"

definition enc_pending :: "EVP_ENCODE_CTX \<Rightarrow> bytes" where
  "enc_pending ctx = take (unat (data_used ctx)) (ctx_data ctx)"

lemma length_enc_pending [simp]: "enc_ok ctx \<Longrightarrow> length (enc_pending ctx) = unat (data_used ctx)"
  by (simp add: enc_ok_def enc_pending_def)

lemma enc_Init: "enc_ok EVP_EncodeInit" "enc_pending EVP_EncodeInit = []"
  by (simp_all add: enc_ok_def enc_pending_def EVP_EncodeInit_def)

lemma unat_of_nat_u32: "n < 2 ^ 32 \<Longrightarrow> unat (of_nat n :: u32) = n"
  by (simp add: unat_of_nat take_bit_nat_eq_self)

lemma enc_store:
  assumes "length (ctx_data ctx) = 48" "length xs < 48"
  shows "enc_ok (ctx\<lparr>ctx_data := poke (ctx_data ctx) 0 xs, data_used := of_nat (length xs)\<rparr>)"
    "enc_pending (ctx\<lparr>ctx_data := poke (ctx_data ctx) 0 xs, data_used := of_nat (length xs)\<rparr>) = xs"
  using assms take_poke_end [of 0 xs "ctx_data ctx"]
  by (simp_all add: enc_ok_def enc_pending_def unat_of_nat_u32 del: of_nat_unat)

lemma enc_extend:
  assumes "enc_ok ctx" "unat (data_used ctx) + length xs < 48"
  shows "enc_ok (ctx\<lparr>ctx_data := poke (ctx_data ctx) (unat (data_used ctx)) xs,
      data_used := data_used ctx + of_nat (length xs)\<rparr>)" (is "enc_ok ?c")
    and "enc_pending (ctx\<lparr>ctx_data := poke (ctx_data ctx) (unat (data_used ctx)) xs,
      data_used := data_used ctx + of_nat (length xs)\<rparr>) = enc_pending ctx @ xs"
proof -
  have u: "unat (data_used ctx + of_nat (length xs)) = unat (data_used ctx) + length xs"
    using assms(2) by (simp add: unat_word_ariths unat_of_nat_u32)
  show "enc_ok ?c" "enc_pending ?c = enc_pending ctx @ xs"
    using assms u take_poke_end [of "unat (data_used ctx)" xs "ctx_data ctx"]
    by (simp_all add: enc_ok_def enc_pending_def)
qed

lemma EVP_EncodeUpdate_lines:
  assumes ok: "enc_ok ctx" and len: "length inp < 2 ^ 30"
  obtains ctx' where
    "EVP_EncodeUpdate ctx inp =
       (ctx', full_lines (enc_pending ctx @ inp), int (length (full_lines (enc_pending ctx @ inp))))"
    "enc_ok ctx'" "enc_pending ctx' = last_line (enc_pending ctx @ inp)"
proof -
  let ?u = "unat (data_used ctx)" and ?p = "enc_pending ctx"
  let ?F = "full_lines (?p @ inp)" and ?L = "last_line (?p @ inp)"
  note lp = length_enc_pending [OF ok]
  have bnd: "?u < 48" "length (ctx_data ctx) = 48" using ok by (simp_all add: enc_ok_def)
  then have "length (?p @ inp) < 48 + 2 ^ 30" using len lp by simp
  then have F31: "length ?F < 2 ^ 31"
    using div_times_less_eq_dividend [of "length (?p @ inp)" 48] by (simp add: length_full_lines)
  consider "inp = []" | "inp \<noteq> []" "length inp < 48 - ?u" | "inp \<noteq> []" "\<not> length inp < 48 - ?u" by blast
  then show thesis
  proof cases
    case 1
    then show thesis
      using that [of ctx] ok lp bnd(1)
      by (simp add: EVP_EncodeUpdate_def last_line_short full_lines.simps [of ?p])
  next
    case 2
    then have "length (?p @ inp) < 48" using lp by simp
    then show thesis
      using that [of "ctx\<lparr>ctx_data := poke (ctx_data ctx) ?u inp, data_used := data_used ctx + of_nat (length inp)\<rparr>"]
        2 enc_extend [OF ok, of inp] lp
      by (simp add: EVP_EncodeUpdate_def last_line_short full_lines.simps [of "?p @ inp"])
  next
    case 3
    define enc0 where "enc0 = (if ?u = 0 then [] else EVP_EncodeBlock (?p @ take (48 - ?u) inp) @ [0x0a])"
    define inp0 where "inp0 = (if ?u = 0 then inp else drop (48 - ?u) inp)"
    define ctx0 where "ctx0 = (if ?u = 0 then ctx else
      ctx\<lparr>ctx_data := poke (ctx_data ctx) ?u (take (48 - ?u) inp), data_used := 0\<rparr>)"
    have F: "?F = enc0 @ full_lines inp0" and L: "?L = last_line inp0"
      using 3 lp bnd(1) last_line_drop [of "?p @ inp"]
      by (auto simp: enc0_def inp0_def full_lines.simps [of "?p @ inp"] full_lines.simps [of inp])
    have l0: "length enc0 = (if ?u = 0 then 0 else 65)"
      using 3 lp bnd(1) by (simp add: enc0_def length_EVP_EncodeBlock)
    have d: "poke (ctx_data ctx) ?u (take (48 - ?u) inp) = ?p @ take (48 - ?u) inp"
      using 3 bnd by (simp add: poke_def enc_pending_def)
    have "encode_lines enc0 (of_nat (length enc0)) inp0 = Inr (?F, ?L, of_nat (length ?F))"
      using encode_lines_full [of "of_nat (length enc0)" inp0 enc0] F31 F l0
      by (simp add: F L unat_of_nat_64 split: if_splits)
    moreover have "uint (of_nat (length ?F) :: size_t) = int (length ?F)"
      using F31 by (simp add: uint_nat unat_of_nat_64)
    ultimately have "EVP_EncodeUpdate ctx inp =
       (ctx0\<lparr>ctx_data := poke (ctx_data ctx0) 0 ?L, data_used := of_nat (length ?L)\<rparr>, ?F, int (length ?F))"
      using 3 bnd F31 d l0
      by (auto simp: EVP_EncodeUpdate_def enc0_def inp0_def ctx0_def Let_def length_EVP_EncodeBlock
          word_less_nat_alt unat_of_nat_64 unat_eq_zero split: if_splits)
    moreover have "length (ctx_data ctx0) = 48" "length ?L < 48"
      using bnd 3 by (simp_all add: ctx0_def length_last_line)
    ultimately show thesis using that enc_store by blast
  qed
qed

text \<open>The caller of the encoder: it keeps \<open>*out_len\<close> bytes of every call.\<close>

fun encode_updates :: "EVP_ENCODE_CTX \<Rightarrow> bytes list \<Rightarrow> EVP_ENCODE_CTX \<times> bytes" where
  "encode_updates ctx [] = (ctx, [])"
| "encode_updates ctx (c # cs) =
     (case EVP_EncodeUpdate ctx c of (ctx, out, n) \<Rightarrow>
        case encode_updates ctx cs of (ctx, rest) \<Rightarrow> (ctx, take (nat n) out @ rest))"

definition encode_stream :: "bytes list \<Rightarrow> bytes" where
  "encode_stream cs =
     (case encode_updates EVP_EncodeInit cs of (ctx, out) \<Rightarrow>
        case EVP_EncodeFinal ctx of (_, lst, n) \<Rightarrow> out @ take (nat n) lst)"

lemma encode_updates_lines:
  assumes "enc_ok ctx" "\<forall>c \<in> set cs. length c < 2 ^ 30"
  shows "\<exists>ctx'. encode_updates ctx cs = (ctx', full_lines (enc_pending ctx @ concat cs)) \<and>
    enc_ok ctx' \<and> enc_pending ctx' = last_line (enc_pending ctx @ concat cs)"
  using assms
proof (induction cs arbitrary: ctx)
  case Nil
  then show ?case
    by (simp add: enc_ok_def full_lines.simps [of "enc_pending ctx"] last_line_short)
next
  case (Cons c cs)
  then have "length c < 2 ^ 30" by simp
  from EVP_EncodeUpdate_lines [OF Cons.prems(1) this] obtain ctx' where u:
    "EVP_EncodeUpdate ctx c =
       (ctx', full_lines (enc_pending ctx @ c), int (length (full_lines (enc_pending ctx @ c))))"
    "enc_ok ctx'" "enc_pending ctx' = last_line (enc_pending ctx @ c)" .
  have "\<exists>ctx''. encode_updates ctx' cs = (ctx'', full_lines (enc_pending ctx' @ concat cs)) \<and>
    enc_ok ctx'' \<and> enc_pending ctx'' = last_line (enc_pending ctx' @ concat cs)"
    using Cons.IH [OF u(2)] Cons.prems(2) by simp
  then show ?case
    using u full_lines_append [of "enc_pending ctx @ c" "concat cs"]
      last_line_append [of "enc_pending ctx @ c" "concat cs"] by auto
qed

lemma encode_stream_lines:
  assumes "\<forall>c \<in> set cs. length c < 2 ^ 30"
  shows "encode_stream cs = b64_lines (concat cs)"
proof -
  obtain ctx where c: "encode_updates EVP_EncodeInit cs = (ctx, full_lines (concat cs))"
    "enc_ok ctx" "enc_pending ctx = last_line (concat cs)"
    using encode_updates_lines [OF enc_Init(1) assms] by (auto simp: enc_Init)
  have "data_used ctx = 0 \<longleftrightarrow> last_line (concat cs) = []"
    using length_enc_pending [OF c(2)] c(3) by (auto simp: unat_eq_zero)
  then show ?thesis
    using c by (auto simp: encode_stream_def EVP_EncodeFinal_def b64_lines_split Let_def enc_pending_def)
qed

section \<open>The streaming decoder\<close>

lemma decode_loop_append:
  "decode_loop ctx out (xs @ ys) =
     (case decode_loop ctx out xs of
        (ctx', out', True) \<Rightarrow> decode_loop ctx' out' ys
      | (ctx', out', False) \<Rightarrow> (ctx', out', False))"
  by (induction ctx out xs rule: decode_loop.induct) (simp_all add: Let_def split: option.split)

lemma decode_loop_prefix:
  "decode_loop ctx (p @ out) xs = (case decode_loop ctx out xs of (ctx', o', b) \<Rightarrow> (ctx', p @ o', b))"
  by (induction ctx out xs rule: decode_loop.induct) (simp_all add: Let_def split: option.split)

lemmas decode_loop_out = decode_loop_prefix [where out = "[]", simplified]

text \<open>A context at a group boundary, before any padding.\<close>

definition dec_idle :: "EVP_ENCODE_CTX \<Rightarrow> bool" where
  "dec_idle ctx \<longleftrightarrow>
     data_used ctx = 0 \<and> \<not> eof_seen ctx \<and> \<not> error_encountered ctx \<and> length (ctx_data ctx) = 48"

definition is_space :: "u8 \<Rightarrow> bool" where
  "is_space c \<longleftrightarrow> c = 0x20 \<or> c = 0x09 \<or> c = 0x0d \<or> c = 0x0a"

lemma base64_decode_quad_take: "length xs \<ge> 4 \<Longrightarrow> base64_decode_quad xs = base64_decode_quad (take 4 xs)"
  by (simp add: base64_decode_quad_def)

lemma decode_loop_group:
  assumes "dec_idle ctx" "length q = 4" "\<forall>c \<in> set q. \<not> is_space c" "base64_decode_quad q = Some bs"
  shows "decode_loop ctx out (q @ rest) =
    decode_loop (ctx\<lparr>ctx_data := poke (ctx_data ctx) 0 q, data_used := 0, eof_seen := length bs < 3\<rparr>) (out @ bs) rest"
proof -
  obtain a b c d where q: "q = [a, b, c, d]"
    using assms(2) by (auto simp: length_Suc_conv numeral_eq_Suc)
  have upd: "(ctx_data ctx)[0 := a, Suc 0 := b, 2 := c, 3 := d] = poke (ctx_data ctx) 0 q"
    using assms(1) by (intro nth_equalityI) (auto simp: q dec_idle_def nth_poke nth_list_update nth_Cons' numeral_eq_Suc)
  have "base64_decode_quad (poke (ctx_data ctx) 0 q) = Some bs"
    using assms(1,2,4) base64_decode_quad_take [of "poke (ctx_data ctx) 0 q"] take_poke_end [of 0 q "ctx_data ctx"]
    by (simp add: dec_idle_def)
  then show ?thesis
    using assms(1,3) upd by (cases ctx) (simp add: q is_space_def dec_idle_def Let_def)
qed

text \<open>The caller of the decoder: \<open>None\<close> on any \<open>-1\<close>.\<close>

fun decode_updates :: "EVP_ENCODE_CTX \<Rightarrow> bytes list \<Rightarrow> (EVP_ENCODE_CTX \<times> bytes) option" where
  "decode_updates ctx [] = Some (ctx, [])"
| "decode_updates ctx (c # cs) =
     (case EVP_DecodeUpdate ctx c of (ctx, out, n, r) \<Rightarrow>
        if r = -1 then None
        else map_option (\<lambda>(ctx, rest). (ctx, take (nat n) out @ rest)) (decode_updates ctx cs))"

definition decode_stream :: "bytes list \<Rightarrow> bytes option" where
  "decode_stream cs =
     (case decode_updates EVP_DecodeInit cs of
        None \<Rightarrow> None
      | Some (ctx, out) \<Rightarrow> if EVP_DecodeFinal ctx = 1 then Some out else None)"

lemma decode_quad_length: "base64_decode_quad q = Some bs \<Longrightarrow> length bs \<le> 3"
  by (auto simp: base64_decode_quad_def Let_def split: if_splits)

lemma unat_Suc_small: "unat (w :: u32) \<le> 3 \<Longrightarrow> unat (w + 1) = Suc (unat w)"
  by (simp add: unat_word_ariths)

lemma unat_eq_4: "unat (w :: u32) = 4 \<longleftrightarrow> w = 4"
  by (simp add: word_unat_eq_iff)

lemma decode_loop_length:
  "decode_loop ctx out xs = (ctx', out', True) \<Longrightarrow>
   unat (data_used ctx) \<le> 3 \<Longrightarrow>
   unat (data_used ctx') \<le> 3 \<and> error_encountered ctx' = error_encountered ctx \<and>
   length out' + unat (data_used ctx') \<le> length out + length xs + unat (data_used ctx)"
proof (induction ctx out xs rule: decode_loop.induct)
  case (2 ctx out c xs)
  show ?case
  proof (cases "c = 0x20 \<or> c = 0x09 \<or> c = 0x0d \<or> c = 0x0a")
    case True
    then show ?thesis using 2(1) [OF True] 2(4,5) by auto
  next
    case False
    let ?c = "ctx\<lparr>ctx_data := (ctx_data ctx)[unat (data_used ctx) := c], data_used := data_used ctx + 1\<rparr>"
    have e: "\<not> eof_seen ctx" using 2(4) False by (auto split: if_splits)
    note u = unat_Suc_small [OF 2(5)]
    show ?thesis
    proof (cases "data_used ?c = 4")
      case True
      then obtain bs where bs: "base64_decode_quad (ctx_data ?c) = Some bs"
        using 2(4) False e by (auto simp: Let_def split: option.splits)
      have "unat (data_used ctx) = 3" using True u unat_eq_4 [of "data_used ctx + 1"] by simp
      then show ?thesis
        using 2(2) [OF False e refl True bs refl refl] 2(4) False e bs True decode_quad_length [OF bs]
        by (auto simp: Let_def split: if_splits)
    next
      case ne: False
      then have "unat (data_used ?c) \<le> 3" using u 2(5) unat_eq_4 [of "data_used ctx + 1"] by simp
      then show ?thesis using 2(3) [OF False e refl ne] 2(4) False e ne u by auto
    qed
  qed
qed simp

text \<open>Chunks given to the decoder act like their concatenation.\<close>

lemma decode_updates_concat:
  assumes "\<forall>c \<in> set cs. length c < 2 ^ 30" "unat (data_used ctx) \<le> 3" "\<not> error_encountered ctx"
    and "decode_loop ctx [] (concat cs) = (ctx', out, True)"
  shows "decode_updates ctx cs = Some (ctx', out)"
  using assms
proof (induction cs arbitrary: ctx out)
  case (Cons c cs)
  obtain ctx1 o1 b where d: "decode_loop ctx [] c = (ctx1, o1, b)" by (metis prod_cases3)
  with Cons.prems(4) have b: "b" and d2: "decode_loop ctx1 o1 (concat cs) = (ctx', out, True)"
    by (auto simp: decode_loop_append split: bool.splits)
  from decode_loop_length [OF d [unfolded eqTrueI [OF b]] Cons.prems(2)] Cons.prems
  have 1: "unat (data_used ctx1) \<le> 3" "\<not> error_encountered ctx1" "length o1 < 2 ^ 31" by auto
  obtain o2 where o2: "decode_loop ctx1 [] (concat cs) = (ctx', o2, True)" "out = o1 @ o2"
    using d2 by (subst (asm) decode_loop_out) (auto split: prod.splits)
  have "decode_updates ctx1 cs = Some (ctx', o2)" using Cons.IH [OF _ 1(1,2) o2(1)] Cons.prems(1) by simp
  then show ?case using d b 1(3) Cons.prems(3) o2(2) by (simp add: EVP_DecodeUpdate_def)
qed simp

lemma quad_chars_no_space: "\<forall>c \<in> set (quad_chars n). \<not> is_space c"
  using alphabet_excludes by (auto simp: quad_chars_list is_space_def)

lemma pad_no_space: "\<not> is_space 0x3d"
  by (simp add: is_space_def)

lemma decode_loop_EncodeBlock:
  assumes "dec_idle ctx"
  shows "\<exists>ctx'. decode_loop ctx out (EVP_EncodeBlock x @ rest) = decode_loop ctx' (out @ x) rest \<and>
    data_used ctx' = 0 \<and> \<not> error_encountered ctx' \<and> (length x mod 3 = 0 \<longrightarrow> dec_idle ctx')"
  using assms
proof (induction x arbitrary: ctx out rule: list3_induct)
  case 0
  then show ?case by (auto simp: dec_idle_def)
next
  case (1 b0)
  let ?q = "take 2 (quad_chars (unat b0 * 65536)) @ [0x3d, 0x3d]"
  have q: "\<forall>c \<in> set ?q. \<not> is_space c" using quad_chars_no_space pad_no_space by (auto dest: in_set_takeD)
  show ?case
    unfolding EVP_EncodeBlock_1
    using 1 by (subst decode_loop_group [OF 1 _ q decode_quad_1]) (auto simp: dec_idle_def)
next
  case (2 b0 b1)
  let ?q = "take 3 (quad_chars (unat b0 * 65536 + unat b1 * 256)) @ [0x3d]"
  have q: "\<forall>c \<in> set ?q. \<not> is_space c" using quad_chars_no_space pad_no_space by (auto dest: in_set_takeD)
  show ?case
    unfolding EVP_EncodeBlock_2
    using 2 by (subst decode_loop_group [OF 2 _ q decode_quad_2]) (auto simp: dec_idle_def)
next
  case (3 b0 b1 b2 src)
  let ?n = "unat b0 * 65536 + unat b1 * 256 + unat b2"
  let ?ctx = "ctx\<lparr>ctx_data := poke (ctx_data ctx) 0 (quad_chars ?n), data_used := 0, eof_seen := False\<rparr>"
  have "dec_idle ?ctx" using 3(2) by (simp add: dec_idle_def)
  from 3(1) [OF this, of "out @ [b0, b1, b2]"]
  show ?case
    using decode_loop_group [OF 3(2) _ quad_chars_no_space decode_quad_3, of b0 b1 b2 out "EVP_EncodeBlock src @ rest"]
    by (simp only: EVP_EncodeBlock_3 append_assoc) simp
qed

lemma decode_loop_lines:
  assumes "dec_idle ctx"
  shows "\<exists>ctx'. decode_loop ctx out (b64_lines x) = (ctx', out @ x, True) \<and>
    data_used ctx' = 0 \<and> \<not> error_encountered ctx'"
  using assms
proof (induction x arbitrary: ctx out rule: b64_lines.induct)
  case (1 x)
  show ?case
  proof (cases "x = []")
    case True
    then show ?thesis using 1(2) by (simp add: b64_lines.simps dec_idle_def)
  next
    case False
    then have l: "b64_lines x = EVP_EncodeBlock (take 48 x) @ [0x0a] @ b64_lines (drop 48 x)"
      by (subst b64_lines.simps) simp
    from decode_loop_EncodeBlock [OF 1(2), of out "take 48 x" "[0x0a] @ b64_lines (drop 48 x)"]
    obtain ctx' where c:
      "decode_loop ctx out (b64_lines x) = decode_loop ctx' (out @ take 48 x) ([0x0a] @ b64_lines (drop 48 x))"
      "data_used ctx' = 0" "\<not> error_encountered ctx'" "length (take 48 x) mod 3 = 0 \<longrightarrow> dec_idle ctx'"
      unfolding l by (elim exE conjE)
    show ?thesis
    proof (cases "48 \<le> length x")
      case True
      then have "dec_idle ctx'" using c(4) by simp
      then show ?thesis using 1(1) [OF False, of ctx' "out @ take 48 x"] c(1) by simp
    next
      case short: False
      then show ?thesis using c by (simp add: b64_lines.simps [of "[]"])
    qed
  qed
qed

section \<open>Properties\<close>

text \<open>
  C7. Decoding what the one-shot encoder writes gives the input back, for every input below
  2^61 bytes and every output buffer of at least \<open>EVP_DecodedLength\<close> bytes.
\<close>

theorem EVP_EncodeBlock_roundtrip:
  assumes "length x < 2 ^ 61" and "(length x + 2) div 3 * 3 \<le> unat max_out"
  shows "EVP_DecodeBase64 max_out (EVP_EncodeBlock x) = Some x"
  using assms by (rule EVP_DecodeBase64_EncodeBlock)

theorem EVP_EncodeBlock_roundtrip_witness:
  "EVP_DecodeBase64 6 (EVP_EncodeBlock [0x66, 0x6f, 0x6f, 0x62]) = Some [0x66, 0x6f, 0x6f, 0x62]"
  by (rule EVP_EncodeBlock_roundtrip) simp_all

text \<open>
  C8. Feeding data to the streaming encoder in any chunks gives the base64 lines of 48 input
  bytes each of the whole data; feeding that text to the streaming decoder, cut at any places,
  gives the data back with the final return value 1.
\<close>

theorem base64_stream_roundtrip:
  assumes "\<forall>c \<in> set cs. length c < 2 ^ 30" and "\<forall>t \<in> set ts. length t < 2 ^ 30"
    and "concat ts = encode_stream cs"
  shows "encode_stream cs = b64_lines (concat cs) \<and> decode_stream ts = Some (concat cs)"
proof -
  have e: "encode_stream cs = b64_lines (concat cs)" using assms(1) by (rule encode_stream_lines)
  have i: "dec_idle EVP_DecodeInit" by (simp add: dec_idle_def EVP_DecodeInit_def)
  obtain ctx' where "decode_loop EVP_DecodeInit [] (concat ts) = (ctx', concat cs, True)"
    "data_used ctx' = 0" "\<not> error_encountered ctx'"
    using decode_loop_lines [OF i, of "[]" "concat cs"] unfolding assms(3) e by auto
  then show ?thesis
    using e i decode_updates_concat [OF assms(2), of EVP_DecodeInit ctx' "concat cs"]
    by (simp add: decode_stream_def EVP_DecodeFinal_def dec_idle_def)
qed

theorem base64_stream_roundtrip_witness:
  "encode_stream [[0x66], [0x6f, 0x6f]] = b64_lines [0x66, 0x6f, 0x6f] \<and>
   decode_stream [[0x5a, 0x6d], [0x39, 0x76, 0x0a]] = Some [0x66, 0x6f, 0x6f]"
  using base64_stream_roundtrip [of "[[0x66], [0x6f, 0x6f]]" "[[0x5a, 0x6d], [0x39, 0x76, 0x0a]]"]
  by (simp add: encode_stream_def EVP_EncodeInit_def EVP_EncodeUpdate_def EVP_EncodeFinal_def poke_def Let_def
      conv_bin2ascii_alphabet b64_alphabet_list)

end
