(* ===== verification/Stack.thy ===== *)
theory Stack
  imports Prelude "HOL-Library.Multiset"
begin

text \<open>
  The growable array of pointers of \<open>BoringSSL/crypto/stack/stack.c\<close>. A pointer is an
  \<open>'a option\<close> whose \<open>None\<close> is \<open>NULL\<close>; the \<open>_STACK *\<close> argument of every
  function is an \<open>option\<close> as well, since every function tests it. The \<open>data\<close>
  array is kept at its allocated length, with whatever fresh memory holds past \<open>num\<close>.
  \<open>qsort\<close> and \<open>bsearch\<close> of the C library are parameters: the standard leaves the
  order of equal elements and the choice among equal matches open.
\<close>

section \<open>Definitions\<close>

type_synonym 'a ptr = "'a option"
type_synonym 'a stack_cmp_func = "'a ptr \<Rightarrow> 'a ptr \<Rightarrow> int"

record 'a stack_st =
  num :: size_t
  data :: "'a ptr list"
  sorted_flag :: bool
  num_alloc :: size_t
  comp :: "'a stack_cmp_func option"

text \<open>What memory and the C library do.\<close>

record 'a stack_env =
  ptr_alloc_ok :: "size_t \<Rightarrow> bool"
  ptr_fresh :: "nat \<Rightarrow> 'a ptr"
  qsort_fn :: "'a stack_cmp_func \<Rightarrow> 'a ptr list \<Rightarrow> 'a ptr list"
  bsearch_fn :: "'a stack_cmp_func \<Rightarrow> 'a ptr \<Rightarrow> 'a ptr list \<Rightarrow> nat option"

definition kMinSize :: size_t where "kMinSize = 4"

definition sizeof_ptr :: size_t where "sizeof_ptr = 8"

text \<open>\<open>stack_header_size\<close> is \<open>sizeof(_STACK)\<close> on the LP64 target.\<close>

definition stack_header_size :: size_t where "stack_header_size = 40"

definition sk_new :: "('a, 'b) stack_env_scheme \<Rightarrow> 'a stack_cmp_func option \<Rightarrow> 'a stack_st option" where
  "sk_new env cmp =
     (if \<not> ptr_alloc_ok env stack_header_size then None
      else if \<not> ptr_alloc_ok env (sizeof_ptr * kMinSize) then None
      else Some \<lparr>num = 0, data = replicate (unat kMinSize) None, sorted_flag = False,
                 num_alloc = kMinSize, comp = cmp\<rparr>)"

definition sk_new_null :: "('a, 'b) stack_env_scheme \<Rightarrow> 'a stack_st option" where
  "sk_new_null env = sk_new env None"

fun sk_num :: "'a stack_st option \<Rightarrow> size_t" where
  "sk_num None = 0"
| "sk_num (Some sk) = num sk"

fun sk_zero :: "'a stack_st option \<Rightarrow> 'a stack_st option" where
  "sk_zero None = None"
| "sk_zero (Some sk) =
     (if num sk = 0 then Some sk
      else Some (sk\<lparr>data := poke (data sk) 0 (replicate (unat (num sk)) None),
                    num := 0, sorted_flag := False\<rparr>))"

fun sk_value :: "'a stack_st option \<Rightarrow> size_t \<Rightarrow> 'a ptr" where
  "sk_value None i = None"
| "sk_value (Some sk) i = (if i \<ge> num sk then None else data sk ! unat i)"

fun sk_set :: "'a stack_st option \<Rightarrow> size_t \<Rightarrow> 'a ptr \<Rightarrow> 'a ptr \<times> 'a stack_st option" where
  "sk_set None i v = (None, None)"
| "sk_set (Some sk) i v =
     (if i \<ge> num sk then (None, Some sk)
      else (v, Some (sk\<lparr>data := (data sk)[unat i := v]\<rparr>)))"

text \<open>\<open>realloc\<close> of the array to \<open>n\<close> pointers.\<close>

definition ptr_realloc :: "('a, 'b) stack_env_scheme \<Rightarrow> 'a ptr list \<Rightarrow> nat \<Rightarrow> 'a ptr list" where
  "ptr_realloc env xs n = take n xs @ map (ptr_fresh env) [length xs..<n]"

text \<open>The growth step of \<open>sk_insert\<close>; \<open>None\<close> is its \<open>return 0\<close>.\<close>

definition sk_grow :: "('a, 'b) stack_env_scheme \<Rightarrow> 'a stack_st \<Rightarrow> 'a stack_st option" where
  "sk_grow env sk =
     (if num_alloc sk \<le> num sk + 1 then
        let new_alloc = push_bit 1 (num_alloc sk);
            alloc_size = new_alloc * sizeof_ptr;
            (new_alloc, alloc_size) =
              (if new_alloc < num_alloc sk \<or> alloc_size div sizeof_ptr \<noteq> new_alloc
               then (num_alloc sk + 1, (num_alloc sk + 1) * sizeof_ptr)
               else (new_alloc, alloc_size))
        in if new_alloc < num_alloc sk \<or> alloc_size div sizeof_ptr \<noteq> new_alloc then None
           else if \<not> ptr_alloc_ok env alloc_size then None
           else Some (sk\<lparr>data := ptr_realloc env (data sk) (unat new_alloc), num_alloc := new_alloc\<rparr>)
      else Some sk)"

fun sk_insert ::
    "('a, 'b) stack_env_scheme \<Rightarrow> 'a stack_st option \<Rightarrow> 'a ptr \<Rightarrow> size_t \<Rightarrow> size_t \<times> 'a stack_st option" where
  "sk_insert env None p w = (0, None)"
| "sk_insert env (Some sk) p w =
     (case sk_grow env sk of
        None \<Rightarrow> (0, Some sk)
      | Some sk \<Rightarrow>
          let d = (if w \<ge> num sk then (data sk)[unat (num sk) := p]
                   else (poke (data sk) (unat w + 1)
                           (take (unat (num sk - w)) (drop (unat w) (data sk))))[unat w := p]);
              sk = sk\<lparr>data := d, num := num sk + 1, sorted_flag := False\<rparr>
          in (num sk, Some sk))"

fun sk_delete :: "'a stack_st option \<Rightarrow> size_t \<Rightarrow> 'a ptr \<times> 'a stack_st option" where
  "sk_delete None w = (None, None)"
| "sk_delete (Some sk) w =
     (if w \<ge> num sk then (None, Some sk)
      else
        let ret = data sk ! unat w;
            d = (if w \<noteq> num sk - 1
                 then poke (data sk) (unat w)
                        (take (unat (num sk - w - 1)) (drop (unat w + 1) (data sk)))
                 else data sk)
        in (ret, Some (sk\<lparr>data := d, num := num sk - 1\<rparr>)))"

text \<open>The index of the first of the \<open>n\<close> slots from \<open>i\<close> on that holds \<open>p\<close>.\<close>

fun ptr_scan :: "'a ptr list \<Rightarrow> 'a ptr \<Rightarrow> nat \<Rightarrow> nat \<Rightarrow> nat option" where
  "ptr_scan xs p i 0 = None"
| "ptr_scan xs p i (Suc n) = (if xs ! i = p then Some i else ptr_scan xs p (i + 1) n)"

fun sk_delete_ptr :: "'a stack_st option \<Rightarrow> 'a ptr \<Rightarrow> 'a ptr \<times> 'a stack_st option" where
  "sk_delete_ptr None p = (None, None)"
| "sk_delete_ptr (Some sk) p =
     (case ptr_scan (data sk) p 0 (unat (num sk)) of
        Some i \<Rightarrow> sk_delete (Some sk) (of_nat i)
      | None \<Rightarrow> (None, Some sk))"

fun sk_sort :: "('a, 'b) stack_env_scheme \<Rightarrow> 'a stack_st option \<Rightarrow> 'a stack_st option" where
  "sk_sort env None = None"
| "sk_sort env (Some sk) =
     (case comp sk of
        None \<Rightarrow> Some sk
      | Some cmp \<Rightarrow>
          if sorted_flag sk then Some sk
          else Some (sk\<lparr>data := poke (data sk) 0 (qsort_fn env cmp (take (unat (num sk)) (data sk))),
                        sorted_flag := True\<rparr>))"

text \<open>The loop of \<open>sk_find\<close> that steps back to the first equal element.\<close>

fun first_equal :: "'a stack_cmp_func \<Rightarrow> 'a ptr \<Rightarrow> 'a ptr list \<Rightarrow> nat \<Rightarrow> nat" where
  "first_equal cmp p xs 0 = 0"
| "first_equal cmp p xs (Suc idx) = (if cmp p (xs ! idx) = 0 then first_equal cmp p xs idx else Suc idx)"

text \<open>The index found, if any, and the stack, which the search may have sorted.\<close>

fun sk_find ::
    "('a, 'b) stack_env_scheme \<Rightarrow> 'a stack_st option \<Rightarrow> 'a ptr \<Rightarrow> size_t option \<times> 'a stack_st option" where
  "sk_find env None p = (None, None)"
| "sk_find env (Some sk) p =
     (case comp sk of
        None \<Rightarrow> (map_option of_nat (ptr_scan (data sk) p 0 (unat (num sk))), Some sk)
      | Some cmp \<Rightarrow>
          if p = None then (None, Some sk)
          else
            let sk = the (sk_sort env (Some sk)) in
            case bsearch_fn env cmp p (take (unat (num sk)) (data sk)) of
              None \<Rightarrow> (None, Some sk)
            | Some r \<Rightarrow> (Some (of_nat (first_equal cmp p (data sk) r)), Some sk))"

fun sk_shift :: "'a stack_st option \<Rightarrow> 'a ptr \<times> 'a stack_st option" where
  "sk_shift None = (None, None)"
| "sk_shift (Some sk) = (if num sk = 0 then (None, Some sk) else sk_delete (Some sk) 0)"

definition sk_push ::
    "('a, 'b) stack_env_scheme \<Rightarrow> 'a stack_st \<Rightarrow> 'a ptr \<Rightarrow> size_t \<times> 'a stack_st option" where
  "sk_push env sk p = sk_insert env (Some sk) p (num sk)"

fun sk_pop :: "'a stack_st option \<Rightarrow> 'a ptr \<times> 'a stack_st option" where
  "sk_pop None = (None, None)"
| "sk_pop (Some sk) = (if num sk = 0 then (None, Some sk) else sk_delete (Some sk) (num sk - 1))"

fun sk_dup :: "('a, 'b) stack_env_scheme \<Rightarrow> 'a stack_st option \<Rightarrow> 'a stack_st option" where
  "sk_dup env None = None"
| "sk_dup env (Some sk) =
     (case sk_new env (comp sk) of
        None \<Rightarrow> None
      | Some ret \<Rightarrow>
          if \<not> ptr_alloc_ok env (sizeof_ptr * num_alloc sk) then None
          else
            let s = ptr_realloc env (data ret) (unat (num_alloc sk)) in
            Some (ret\<lparr>data := poke s 0 (take (unat (num sk)) (data sk)), num := num sk,
                      sorted_flag := sorted_flag sk, num_alloc := num_alloc sk, comp := comp sk\<rparr>))"

fun sk_is_sorted :: "'a stack_st option \<Rightarrow> bool" where
  "sk_is_sorted None = True"
| "sk_is_sorted (Some sk) = sorted_flag sk"

text \<open>The equality test on function pointers is a parameter of the model.\<close>

definition sk_set_cmp_func ::
    "('a stack_cmp_func option \<Rightarrow> 'a stack_cmp_func option \<Rightarrow> bool) \<Rightarrow> 'a stack_st \<Rightarrow>
     'a stack_cmp_func option \<Rightarrow> 'a stack_cmp_func option \<times> 'a stack_st" where
  "sk_set_cmp_func same sk cmp =
     (let old = comp sk;
          sk = (if \<not> same (comp sk) cmp then sk\<lparr>sorted_flag := False\<rparr> else sk)
      in (old, sk\<lparr>comp := cmp\<rparr>))"

text \<open>
  The callbacks of \<open>sk_pop_free\<close> and \<open>sk_deep_copy\<close> act on a state of the caller.
\<close>

fun free_all :: "('a \<Rightarrow> 's \<Rightarrow> 's) \<Rightarrow> 'a ptr list \<Rightarrow> 's \<Rightarrow> 's" where
  "free_all f [] s = s"
| "free_all f (None # xs) s = free_all f xs s"
| "free_all f (Some x # xs) s = free_all f xs (f x s)"

fun sk_pop_free :: "'a stack_st option \<Rightarrow> ('a \<Rightarrow> 's \<Rightarrow> 's) \<Rightarrow> 's \<Rightarrow> 's" where
  "sk_pop_free None f s = s"
| "sk_pop_free (Some sk) f s = free_all f (take (unat (num sk)) (data sk)) s"

text \<open>The copying loop: \<open>i\<close> is the next index and \<open>n\<close> the iterations left.\<close>

fun deep_copy_loop ::
    "('a \<Rightarrow> 's \<Rightarrow> 'a ptr \<times> 's) \<Rightarrow> ('a \<Rightarrow> 's \<Rightarrow> 's) \<Rightarrow> 'a ptr list \<Rightarrow> nat \<Rightarrow> nat \<Rightarrow> 's \<Rightarrow> 'a ptr list option \<times> 's" where
  "deep_copy_loop copy_func free_func xs i 0 s = (Some xs, s)"
| "deep_copy_loop copy_func free_func xs i (Suc n) s =
     (case xs ! i of
        None \<Rightarrow> deep_copy_loop copy_func free_func xs (i + 1) n s
      | Some x \<Rightarrow>
          (case copy_func x s of
             (None, s) \<Rightarrow> (None, free_all free_func (take i xs) s)
           | (Some y, s) \<Rightarrow> deep_copy_loop copy_func free_func (xs[i := Some y]) (i + 1) n s))"

definition sk_deep_copy ::
    "('a, 'b) stack_env_scheme \<Rightarrow> 'a stack_st option \<Rightarrow> ('a \<Rightarrow> 's \<Rightarrow> 'a ptr \<times> 's) \<Rightarrow>
     ('a \<Rightarrow> 's \<Rightarrow> 's) \<Rightarrow> 's \<Rightarrow> 'a stack_st option \<times> 's" where
  "sk_deep_copy env sk copy_func free_func s =
     (case sk_dup env sk of
        None \<Rightarrow> (None, s)
      | Some ret \<Rightarrow>
          (case deep_copy_loop copy_func free_func (data ret) 0 (unat (num ret)) s of
             (None, s) \<Rightarrow> (None, s)
           | (Some d, s) \<Rightarrow> (Some (ret\<lparr>data := d\<rparr>), s)))"

section \<open>The abstraction: a stack is a list\<close>

definition sk_list :: "'a stack_st \<Rightarrow> 'a ptr list" where
  "sk_list sk = take (unat (num sk)) (data sk)"

text \<open>The array has its allocated length and one slot more than it uses.\<close>

definition sk_ok :: "'a stack_st \<Rightarrow> bool" where
  "sk_ok sk \<longleftrightarrow> length (data sk) = unat (num_alloc sk) \<and> num sk < num_alloc sk"

lemma sk_okD:
  assumes "sk_ok sk"
  shows "length (data sk) = unat (num_alloc sk)" "unat (num sk) < unat (num_alloc sk)"
    "unat (num sk) < length (data sk)"
  using assms by (simp_all add: sk_ok_def word_less_nat_alt)

lemma length_sk_list [simp]: "sk_ok sk \<Longrightarrow> length (sk_list sk) = unat (num sk)"
  using sk_okD [of sk] by (simp add: sk_list_def)

lemma unat_Suc_word: "unat (w :: 'a::len word) < unat (v :: 'a word) \<Longrightarrow> unat (w + 1) = unat w + 1"
proof -
  assume "unat w < unat v"
  then have "unat w + 1 < 2 ^ LENGTH('a)" using unat_bound [of v] by linarith
  then show ?thesis by (simp add: unat_word_ariths)
qed

lemma length_ptr_realloc: "length (ptr_realloc env xs n) = n"
  by (simp add: ptr_realloc_def)

lemma take_ptr_realloc: "k \<le> n \<Longrightarrow> k \<le> length xs \<Longrightarrow> take k (ptr_realloc env xs n) = take k xs"
  by (simp add: ptr_realloc_def)

lemma sk_new_ok: "sk_new env cmp = Some sk \<Longrightarrow> sk_ok sk \<and> sk_list sk = [] \<and> comp sk = cmp"
  by (auto simp: sk_new_def sk_ok_def sk_list_def kMinSize_def split: if_splits)

lemma sk_grow_to:
  assumes ok: "sk_ok sk" and n: "unat n > unat (num_alloc sk)"
  shows "sk_ok (sk\<lparr>data := ptr_realloc env (data sk) (unat n), num_alloc := n\<rparr>)"
    "sk_list (sk\<lparr>data := ptr_realloc env (data sk) (unat n), num_alloc := n\<rparr>) = sk_list sk"
  using sk_okD [OF ok] n
  by (simp_all add: sk_ok_def sk_list_def length_ptr_realloc take_ptr_realloc word_less_nat_alt)

lemma sk_grow_cases:
  assumes ok: "sk_ok sk" and g: "sk_grow env sk = Some sk'"
  shows "sk' = sk \<and> unat (num sk) + 1 < unat (num_alloc sk) \<or>
    (\<exists>n. unat n > unat (num_alloc sk) \<and>
      sk' = sk\<lparr>data := ptr_realloc env (data sk) (unat n), num_alloc := n\<rparr>)"
proof (cases "num_alloc sk \<le> num sk + 1")
  case False
  then have "sk' = sk" using g by (simp add: sk_grow_def)
  then show ?thesis
    using False unat_Suc_word [OF sk_okD(2) [OF ok]] by (simp add: not_le word_less_nat_alt)
next
  case True
  let ?a = "num_alloc sk" and ?d = "push_bit 1 (num_alloc sk)"
  have d: "unat ?d > unat ?a" if "\<not> ?d < ?a"
  proof -
    have "unat ?d = unat ?a * 2 mod 2 ^ 64"
      by (simp add: push_bit_eq_mult unat_word_ariths)
    moreover have "unat ?a * 2 mod 2 ^ 64 < unat ?a" if "2 ^ 64 \<le> unat ?a * 2"
      using that unat_bound [of ?a] by (auto simp: mod_if)
    ultimately show ?thesis
      using \<open>\<not> ?d < ?a\<close> sk_okD(2) [OF ok] by (cases "2 ^ 64 \<le> unat ?a * 2") (auto simp: word_less_nat_alt)
  qed
  have i: "unat (?a + 1) > unat ?a" if "\<not> ?a + 1 < ?a"
  proof (cases "unat ?a + 1 < 2 ^ 64")
    case False
    then have "unat ?a + 1 = 2 ^ 64" using unat_bound [of ?a] by simp
    then have "unat (?a + 1) = 0" by (simp only: unat_word_ariths) simp
    then show ?thesis using that sk_okD(2) [OF ok] by (simp add: word_less_nat_alt)
  qed (simp add: unat_word_ariths)
  show ?thesis
    using g True d i by (auto simp: sk_grow_def Let_def split: if_splits)
qed

lemma sk_grow_spec:
  assumes ok: "sk_ok sk" and g: "sk_grow env sk = Some sk'"
  shows "sk_ok sk' \<and> sk_list sk' = sk_list sk \<and> num sk' = num sk \<and> comp sk' = comp sk \<and>
    unat (num sk) + 1 < unat (num_alloc sk')"
  using sk_grow_cases [OF assms] sk_grow_to [OF ok] sk_okD [OF ok] ok by fastforce

section \<open>Insertion and deletion\<close>

lemma sk_insert_list:
  assumes ok: "sk_ok sk" and i: "sk_insert env (Some sk) p w = (r, sk1)"
  shows "(r = 0 \<and> sk1 = Some sk \<and> sk_grow env sk = None) \<or>
    (\<exists>sk'. sk1 = Some sk' \<and> sk_ok sk' \<and> r = num sk' \<and> unat r = unat (num sk) + 1 \<and>
      sk_list sk' = take (unat w) (sk_list sk) @ p # drop (unat w) (sk_list sk) \<and>
      \<not> sorted_flag sk' \<and> comp sk' = comp sk)"
proof (cases "sk_grow env sk")
  case None
  then show ?thesis using i by simp
next
  case (Some g)
  note gs = sk_grow_spec [OF ok Some]
  then have gok: "sk_ok g" and gl: "sk_list g = sk_list sk" and gn: "num g = num sk" by auto
  let ?n = "unat (num sk)"
  have lg: "?n + 1 < length (data g)" using gs sk_okD [OF gok] by simp
  have un: "unat (num g + 1) = ?n + 1" using unat_Suc_word [OF sk_okD(2) [OF gok]] gn by simp
  define d where "d = (if w \<ge> num g then (data g)[unat (num g) := p]
      else (poke (data g) (unat w + 1) (take (unat (num g - w)) (drop (unat w) (data g))))[unat w := p])"
  let ?sk = "g\<lparr>data := d, num := num g + 1, sorted_flag := False\<rparr>"
  have r: "r = num g + 1" "sk1 = Some ?sk" using i Some by (auto simp: d_def Let_def)
  have tk: "take (?n + 1) d = take (unat w) (sk_list sk) @ p # drop (unat w) (sk_list sk)" and ld: "length d = length (data g)"
  proof -
    have s: "sk_list sk = take ?n (data g)" using gl gn by (simp add: sk_list_def)
    show "length d = length (data g)"
      using lg gn by (auto simp: d_def word_le_nat_alt unat_sub_if' poke_def)
    show "take (?n + 1) d = take (unat w) (sk_list sk) @ p # drop (unat w) (sk_list sk)"
    proof (cases "w \<ge> num g")
      case True
      then show ?thesis
        using lg gn by (simp add: d_def s word_le_nat_alt take_Suc_conv_app_nth nth_list_update)
    next
      case False
      then have "unat w < ?n" "unat (num g - w) = ?n - unat w"
        using gn by (simp_all add: word_le_nat_alt unat_sub_if')
      then show ?thesis
        using False lg gn
        by (intro nth_equalityI)
          (auto simp: d_def s nth_append nth_Cons' nth_list_update nth_poke)
    qed
  qed
  have "sk_ok ?sk" using gs un ld sk_okD [OF gok] by (simp add: sk_ok_def word_less_nat_alt)
  then show ?thesis using r gs un tk gn by (auto simp: sk_list_def)
qed

lemma sk_delete_list:
  assumes ok: "sk_ok sk" and w: "unat w < length (sk_list sk)"
  obtains sk' where "sk_delete (Some sk) w = (sk_list sk ! unat w, Some sk')" "sk_ok sk'"
    "sk_list sk' = take (unat w) (sk_list sk) @ drop (unat w + 1) (sk_list sk)"
    "sorted_flag sk' = sorted_flag sk" "comp sk' = comp sk"
proof -
  let ?n = "unat (num sk)"
  have lt: "unat w < ?n" "?n < length (data sk)" using w ok sk_okD [OF ok] by simp_all
  then have wn: "\<not> w \<ge> num sk" by (simp add: word_le_nat_alt)
  have un: "unat (num sk - 1) = ?n - 1" using lt by (simp add: unat_sub_if' Suc_le_eq)
  have uw: "unat (num sk - w - 1) = ?n - unat w - 1"
    using lt by (simp add: unat_sub_if')
  have eq: "w = num sk - 1 \<longleftrightarrow> unat w = ?n - 1" using un by (simp add: word_unat_eq_iff)
  define d where "d = (if w \<noteq> num sk - 1 then poke (data sk) (unat w)
      (take (unat (num sk - w - 1)) (drop (unat w + 1) (data sk))) else data sk)"
  have ld: "length d = length (data sk)" using lt uw by (simp add: d_def)
  have tk: "take (?n - 1) d = take (unat w) (sk_list sk) @ drop (unat w + 1) (sk_list sk)"
  proof (rule nth_equalityI)
    show "length (take (?n - 1) d) = length (take (unat w) (sk_list sk) @ drop (unat w + 1) (sk_list sk))"
      using lt ld by (simp add: sk_list_def)
    show "take (?n - 1) d ! i = (take (unat w) (sk_list sk) @ drop (unat w + 1) (sk_list sk)) ! i"
      if "i < length (take (?n - 1) d)" for i
    proof -
      have "i < ?n - 1" using that by simp
      then show ?thesis
        using lt uw eq by (auto simp: d_def sk_list_def nth_append nth_poke)
    qed
  qed
  have "sk_delete (Some sk) w = (sk_list sk ! unat w, Some (sk\<lparr>data := d, num := num sk - 1\<rparr>))"
    using wn lt by (simp add: d_def sk_list_def Let_def)
  moreover have "sk_ok (sk\<lparr>data := d, num := num sk - 1\<rparr>)"
    using ok ld un by (auto simp: sk_ok_def word_less_nat_alt)
  moreover have "sk_list (sk\<lparr>data := d, num := num sk - 1\<rparr>) =
      take (unat w) (sk_list sk) @ drop (unat w + 1) (sk_list sk)"
    using tk un by (simp add: sk_list_def)
  ultimately show thesis using that by simp
qed

section \<open>Sorting and searching\<close>

text \<open>What the C standard asks of a comparison function, and what it promises.\<close>

definition cmp_order :: "'a stack_cmp_func \<Rightarrow> bool" where
  "cmp_order cmp \<longleftrightarrow>
     (\<forall>x. cmp x x = 0) \<and> (\<forall>x y. cmp x y < 0 \<longleftrightarrow> cmp y x > 0) \<and>
     (\<forall>x y z. cmp x y \<le> 0 \<longrightarrow> cmp y z \<le> 0 \<longrightarrow> cmp x z \<le> 0)"

lemma cmp_orderD:
  assumes "cmp_order cmp"
  shows "cmp x x = 0" "cmp x y < 0 \<longleftrightarrow> cmp y x > 0" "cmp x y = 0 \<longleftrightarrow> cmp y x = 0"
    "cmp x y \<le> 0 \<Longrightarrow> cmp y z \<le> 0 \<Longrightarrow> cmp x z \<le> 0"
  using assms unfolding cmp_order_def by (blast, blast, metis less_irrefl linorder_less_linear, blast)

abbreviation cmp_sorted :: "'a stack_cmp_func \<Rightarrow> 'a ptr list \<Rightarrow> bool" where
  "cmp_sorted cmp \<equiv> sorted_wrt (\<lambda>x y. cmp x y \<le> 0)"

locale libc_search =
  fixes env :: "('a, 'b) stack_env_scheme"
  assumes qsort_mset: "cmp_order cmp \<Longrightarrow> mset (qsort_fn env cmp xs) = mset xs"
    and qsort_sorted: "cmp_order cmp \<Longrightarrow> cmp_sorted cmp (qsort_fn env cmp xs)"
    and bsearch_Some: "cmp_order cmp \<Longrightarrow> cmp_sorted cmp xs \<Longrightarrow> bsearch_fn env cmp p xs = Some r \<Longrightarrow>
      r < length xs \<and> cmp p (xs ! r) = 0"
    and bsearch_None: "cmp_order cmp \<Longrightarrow> cmp_sorted cmp xs \<Longrightarrow> bsearch_fn env cmp p xs = None \<Longrightarrow>
      x \<in> set xs \<Longrightarrow> cmp p x \<noteq> 0"

text \<open>The flag is honest: a stack that says it is sorted is sorted.\<close>

definition sk_sorted_ok :: "'a stack_st \<Rightarrow> bool" where
  "sk_sorted_ok sk \<longleftrightarrow>
     (case comp sk of None \<Rightarrow> True | Some cmp \<Rightarrow> sorted_flag sk \<longrightarrow> cmp_sorted cmp (sk_list sk))"

lemma sorted_wrt_drop_nth:
  "sorted_wrt R xs \<Longrightarrow> sorted_wrt R (take i xs @ drop (Suc i) xs)"
proof (induction xs arbitrary: i)
  case (Cons x xs)
  then show ?case by (cases i) (auto dest: in_set_takeD in_set_dropD)
qed simp

lemma sk_sorted_ok_delete:
  assumes "sk_ok sk" "sk_sorted_ok sk" "unat w < length (sk_list sk)" "sk_delete (Some sk) w = (p, Some sk')"
  shows "sk_sorted_ok sk'"
proof -
  from sk_delete_list [OF assms(1,3)] obtain sk2 where d: "sk_delete (Some sk) w = (sk_list sk ! unat w, Some sk2)"
    "sk_list sk2 = take (unat w) (sk_list sk) @ drop (unat w + 1) (sk_list sk)"
    "sorted_flag sk2 = sorted_flag sk" "comp sk2 = comp sk" by metis
  then have "sk2 = sk'" using assms(4) by simp
  then show ?thesis
    using d assms(2) sorted_wrt_drop_nth by (auto simp: sk_sorted_ok_def split: option.splits)
qed

lemma ptr_scan_first:
  "ptr_scan xs p i n = (if \<exists>j. i \<le> j \<and> j < i + n \<and> xs ! j = p
    then Some (LEAST j. i \<le> j \<and> xs ! j = p) else None)"
proof (induction n arbitrary: i)
  case (Suc n)
  show ?case
  proof (cases "xs ! i = p")
    case True
    then have "(LEAST j. i \<le> j \<and> xs ! j = p) = i" by (intro Least_equality) auto
    then show ?thesis using True by (auto intro: exI [of _ i])
  next
    case False
    then have le: "i \<le> j \<longleftrightarrow> i + 1 \<le> j" if "xs ! j = p" for j
      using that by (cases "i = j") auto
    then have "(\<lambda>j. i \<le> j \<and> xs ! j = p) = (\<lambda>j. i + 1 \<le> j \<and> xs ! j = p)" by blast
    moreover have "(\<exists>j. i \<le> j \<and> j < i + Suc n \<and> xs ! j = p) \<longleftrightarrow> (\<exists>j. i + 1 \<le> j \<and> j < i + 1 + n \<and> xs ! j = p)"
      using le by (metis Suc_eq_plus1 add_Suc_shift)
    ultimately show ?thesis using False Suc [of "i + 1"] by auto
  qed
qed simp

lemma first_equal_spec:
  assumes "cmp p (xs ! r) = 0"
  shows "first_equal cmp p xs r \<le> r \<and> cmp p (xs ! first_equal cmp p xs r) = 0 \<and>
    (first_equal cmp p xs r > 0 \<longrightarrow> cmp p (xs ! (first_equal cmp p xs r - 1)) \<noteq> 0)"
  using assms by (induction r) auto

text \<open>In a sorted list nothing before an unequal predecessor is equal.\<close>

lemma cmp_sorted_before:
  assumes ord: "cmp_order cmp" and s: "cmp_sorted cmp xs" and i: "i < length xs" "cmp p (xs ! i) = 0"
    and pred: "0 < i \<Longrightarrow> cmp p (xs ! (i - 1)) \<noteq> 0" and j: "j < i"
  shows "cmp p (xs ! j) \<noteq> 0"
proof
  assume eq: "cmp p (xs ! j) = 0"
  have 0: "0 < i" using j by simp
  have a: "cmp (xs ! (i - 1)) (xs ! i) \<le> 0" using s i(1) 0 by (simp add: sorted_wrt_iff_nth_less)
  have b: "cmp (xs ! j) (xs ! (i - 1)) \<le> 0"
    using s i(1) j cmp_orderD(1) [OF ord] by (cases "j = i - 1") (simp_all add: sorted_wrt_iff_nth_less)
  have "cmp p (xs ! (i - 1)) \<le> 0" using cmp_orderD(4) [OF ord _ b, of p] eq by simp
  moreover have "cmp (xs ! (i - 1)) p \<le> 0"
    using cmp_orderD(4) [OF ord a, of p] i(2) cmp_orderD(3) [OF ord, of p] by simp
  ultimately have "cmp p (xs ! (i - 1)) = 0"
    using cmp_orderD(2) [OF ord, of p "xs ! (i - 1)"] cmp_orderD(2) [OF ord, of "xs ! (i - 1)" p] by linarith
  then show False using pred 0 by simp
qed

context libc_search
begin

lemma sk_sort_spec:
  assumes ok: "sk_ok sk" and so: "sk_sorted_ok sk" and cmp: "comp sk = Some cmp" "cmp_order cmp"
  obtains sk' where "sk_sort env (Some sk) = Some sk'" "sk_ok sk'" "num sk' = num sk" "comp sk' = Some cmp"
    "mset (sk_list sk') = mset (sk_list sk)" "cmp_sorted cmp (sk_list sk')" "sorted_flag sk'"
proof (cases "sorted_flag sk")
  case True
  then show thesis using that [of sk] ok so cmp by (simp add: sk_sorted_ok_def)
next
  case False
  let ?q = "qsort_fn env cmp (sk_list sk)"
  have m: "mset ?q = mset (sk_list sk)" using qsort_mset [OF cmp(2)] .
  then have l: "length ?q = unat (num sk)" using ok by (metis length_sk_list size_mset)
  let ?sk = "sk\<lparr>data := poke (data sk) 0 ?q, sorted_flag := True\<rparr>"
  have "sk_list ?sk = ?q" using take_poke_end [of 0 ?q "data sk"] l sk_okD [OF ok] by (simp add: sk_list_def)
  moreover have "sk_ok ?sk" using ok l sk_okD [OF ok] by (simp add: sk_ok_def)
  moreover have "sk_sort env (Some sk) = Some ?sk" using cmp(1) False by (simp add: sk_list_def)
  ultimately show thesis using that [of ?sk] m cmp(1) qsort_sorted [OF cmp(2)] by simp
qed

lemma sk_find_cmp:
  assumes ok: "sk_ok sk" "sk_sorted_ok sk" and cmp: "comp sk = Some cmp" "cmp_order cmp" and p: "p \<noteq> None"
  obtains r sk' where "sk_find env (Some sk) p = (r, Some sk')" "sk_ok sk'" "sk_sorted_ok sk'"
    "mset (sk_list sk') = mset (sk_list sk)"
    "case r of
       None \<Rightarrow> \<forall>x \<in> set (sk_list sk). cmp p x \<noteq> 0
     | Some i \<Rightarrow> unat i < length (sk_list sk') \<and> cmp p (sk_list sk' ! unat i) = 0 \<and>
         (\<forall>j < unat i. cmp p (sk_list sk' ! j) \<noteq> 0)"
proof -
  from sk_sort_spec [OF ok cmp] obtain sk' where s: "sk_sort env (Some sk) = Some sk'" "sk_ok sk'"
    "comp sk' = Some cmp" "mset (sk_list sk') = mset (sk_list sk)" "cmp_sorted cmp (sk_list sk')" "sorted_flag sk'"
    by metis
  have so: "sk_sorted_ok sk'" using s by (simp add: sk_sorted_ok_def)
  obtain x where px: "p = Some x" using p by blast
  let ?xs = "sk_list sk'"
  show thesis
  proof (cases "bsearch_fn env cmp p ?xs")
    case None
    then have "sk_find env (Some sk) p = (None, Some sk')" using cmp(1) px s(1) by (simp add: sk_list_def Let_def)
    moreover have "\<forall>x \<in> set (sk_list sk). cmp p x \<noteq> 0"
      using bsearch_None [OF cmp(2) s(5) None] s(4) by (metis mset_eq_setD)
    ultimately show thesis using that [of None sk'] s so by simp
  next
    case (Some r)
    from bsearch_Some [OF cmp(2) s(5) Some] have r: "r < length ?xs" "cmp p (?xs ! r) = 0" by auto
    define i where "i = first_equal cmp p (data sk') r"
    have lx: "length ?xs = unat (num sk')" using s(2) by simp
    have nth: "data sk' ! k = ?xs ! k" if "k < length ?xs" for k using that by (simp add: sk_list_def)
    have e0: "cmp p (data sk' ! r) = 0" using r nth by simp
    have fe: "i \<le> r" "cmp p (data sk' ! i) = 0" "0 < i \<Longrightarrow> cmp p (data sk' ! (i - 1)) \<noteq> 0"
      using first_equal_spec [of cmp p "data sk'" r, OF e0] by (simp_all add: i_def)
    have il: "i < length ?xs" using fe(1) r(1) by simp
    have "\<forall>j < i. cmp p (?xs ! j) \<noteq> 0"
      using cmp_sorted_before [OF cmp(2) s(5) il] fe nth il by simp
    moreover have "unat (of_nat i :: size_t) = i"
      using il lx unat_bound [of "num sk'"] by (simp add: unat_of_nat_64)
    moreover have "sk_find env (Some sk) p = (Some (of_nat i), Some sk')"
      using cmp(1) px s(1) Some by (simp add: sk_list_def Let_def i_def)
    ultimately show thesis using that [of "Some (of_nat i)" sk'] s so fe(2) nth il by simp
  qed
qed

end

subsection \<open>A C library\<close>

text \<open>Insertion sort and binary search satisfy the contract.\<close>

fun cmp_insort :: "'a stack_cmp_func \<Rightarrow> 'a ptr \<Rightarrow> 'a ptr list \<Rightarrow> 'a ptr list" where
  "cmp_insort cmp x [] = [x]"
| "cmp_insort cmp x (y # ys) = (if cmp x y \<le> 0 then x # y # ys else y # cmp_insort cmp x ys)"

definition insertion_qsort :: "'a stack_cmp_func \<Rightarrow> 'a ptr list \<Rightarrow> 'a ptr list" where
  "insertion_qsort cmp xs = foldr (cmp_insort cmp) xs []"

function binary_search :: "'a stack_cmp_func \<Rightarrow> 'a ptr \<Rightarrow> 'a ptr list \<Rightarrow> nat \<Rightarrow> nat \<Rightarrow> nat option" where
  "binary_search cmp p xs lo hi =
     (if hi \<le> lo then None
      else
        let mid = (lo + hi) div 2; c = cmp p (xs ! mid) in
        if c = 0 then Some mid
        else if c < 0 then binary_search cmp p xs lo mid
        else binary_search cmp p xs (mid + 1) hi)"
  by pat_completeness auto
termination by (relation "measure (\<lambda>(_, _, _, lo, hi). hi - lo)") auto

declare binary_search.simps [simp del]

definition std_env :: "nat stack_env" where
  "std_env = \<lparr>ptr_alloc_ok = (\<lambda>_. True), ptr_fresh = (\<lambda>_. None), qsort_fn = insertion_qsort,
     bsearch_fn = (\<lambda>cmp p xs. binary_search cmp p xs 0 (length xs))\<rparr>"

lemma mset_cmp_insort: "mset (cmp_insort cmp x xs) = add_mset x (mset xs)"
  by (induction xs) auto

lemma mset_insertion_qsort: "mset (insertion_qsort cmp xs) = mset xs"
  by (induction xs) (auto simp: insertion_qsort_def mset_cmp_insort)

lemma set_cmp_insort: "set (cmp_insort cmp x xs) = insert x (set xs)"
  by (induction xs) auto

lemma cmp_sorted_insort:
  assumes ord: "cmp_order cmp"
  shows "cmp_sorted cmp xs \<Longrightarrow> cmp_sorted cmp (cmp_insort cmp x xs)"
proof (induction xs)
  case (Cons y ys)
  have "cmp y x \<le> 0" if "\<not> cmp x y \<le> 0" using that cmp_orderD(2) [OF ord, of y x] by linarith
  then show ?case
    using Cons cmp_orderD(4) [OF ord, of x y] by (auto simp: set_cmp_insort)
qed simp

lemma cmp_sorted_insertion_qsort: "cmp_order cmp \<Longrightarrow> cmp_sorted cmp (insertion_qsort cmp xs)"
  by (induction xs) (auto simp: insertion_qsort_def cmp_sorted_insort)

lemma binary_search_Some:
  "binary_search cmp p xs lo hi = Some r \<Longrightarrow> hi \<le> length xs \<Longrightarrow> r < length xs \<and> cmp p (xs ! r) = 0"
proof (induction cmp p xs lo hi rule: binary_search.induct)
  case (1 cmp p xs lo hi)
  show ?case
    using 1(1,2) 1(3) [unfolded binary_search.simps [of cmp p xs lo hi]] 1(4)
    by (auto simp: Let_def split: if_splits)
qed

lemma binary_search_None:
  assumes "cmp_order cmp" "cmp_sorted cmp xs"
  shows "binary_search cmp p xs lo hi = None \<Longrightarrow> hi \<le> length xs \<Longrightarrow> lo \<le> k \<Longrightarrow> k < hi \<Longrightarrow> cmp p (xs ! k) \<noteq> 0"
  using assms
proof (induction cmp p xs lo hi rule: binary_search.induct)
  case (1 cmp p xs lo hi)
  note ord = cmp_orderD [OF \<open>cmp_order cmp\<close>]
  let ?m = "(lo + hi) div 2" and ?c = "cmp p (xs ! ((lo + hi) div 2))"
  have nlh: "\<not> hi \<le> lo" using 1(5,6) by simp
  then have mlt: "?m < length xs" using 1(4) by simp
  note unf = 1(3) [unfolded binary_search.simps [of cmp p xs lo hi]]
  have c0: "?c \<noteq> 0" using unf nlh by (auto simp: Let_def)
  have mono: "cmp (xs ! i) (xs ! j) \<le> 0" if "i \<le> j" "j < length xs" for i j
    using that \<open>cmp_sorted cmp xs\<close> ord(1) by (cases "i = j") (simp_all add: sorted_wrt_iff_nth_less)
  show ?case
  proof (cases "?c < 0")
    case True
    show ?thesis
    proof (cases "k < ?m")
      case True': True
      then show ?thesis
        using 1(1) [OF nlh refl refl c0 True] unf nlh c0 True 1(4-) by (simp add: Let_def)
    next
      case False
      show ?thesis
      proof
        assume "cmp p (xs ! k) = 0"
        then have "cmp (xs ! k) p \<le> 0" using ord(3) [of p] by simp
        then have "cmp (xs ! ?m) p \<le> 0" using ord(4) [of "xs ! ?m" "xs ! k" p] mono [of ?m k] False 1(4,6) by auto
        then show False using True ord(2) [of p "xs ! ?m"] by linarith
      qed
    qed
  next
    case False
    show ?thesis
    proof (cases "?m < k")
      case True
      then show ?thesis
        using 1(2) [OF nlh refl refl c0 False] unf nlh c0 False 1(4-) True by (simp add: Let_def)
    next
      case False': False
      show ?thesis
      proof
        assume "cmp p (xs ! k) = 0"
        then have "cmp p (xs ! ?m) \<le> 0" using ord(4) [of p "xs ! k" "xs ! ?m"] mono [of k ?m] mlt False' by auto
        then show False using False c0 by linarith
      qed
    qed
  qed
qed

interpretation std: libc_search std_env
  by unfold_locales
    (auto simp: std_env_def mset_insertion_qsort cmp_sorted_insertion_qsort in_set_conv_nth
      dest: binary_search_Some binary_search_None)

section \<open>Deep copies\<close>

text \<open>
  A caller whose objects live in a multiset: \<open>copy_func\<close> adds the object it returns and
  nothing when it fails, \<open>free_func\<close> removes one.
\<close>

definition allocating :: "('a \<Rightarrow> 'a multiset \<Rightarrow> 'a ptr \<times> 'a multiset) \<Rightarrow> bool" where
  "allocating cp \<longleftrightarrow>
     (\<forall>x s. case cp x s of (None, s') \<Rightarrow> s' = s | (Some y, s') \<Rightarrow> s' = add_mset y s)"

definition release :: "'a \<Rightarrow> 'a multiset \<Rightarrow> 'a multiset" where
  "release y s = s - {#y#}"

definition non_null :: "'a ptr list \<Rightarrow> 'a list" where
  "non_null xs = List.map_filter id xs"

lemma non_null_simps [simp]:
  "non_null [] = []" "non_null (None # xs) = non_null xs" "non_null (Some x # xs) = x # non_null xs"
  "non_null (xs @ ys) = non_null xs @ non_null ys"
  by (simp_all add: non_null_def map_filter_simps) (simp add: List.map_filter_def)

lemma free_all_release: "free_all release xs s = s - mset (non_null xs)"
proof (induction xs arbitrary: s)
  case (Cons x xs)
  then show ?case by (cases x) (simp_all add: release_def)
qed simp

lemma deep_copy_loop_spec:
  assumes cp: "allocating cp" and i: "i + n \<le> length xs"
  shows "case deep_copy_loop cp release xs i n (mset (non_null (take i xs)) + s) of
      (None, s') \<Rightarrow> s' = s
    | (Some ys, s') \<Rightarrow> s' = mset (non_null (take (i + n) ys)) + s \<and> length ys = length xs \<and>
        (\<forall>k < length xs. (ys ! k = None) = (xs ! k = None)) \<and> (\<forall>k. k < i \<or> i + n \<le> k \<longrightarrow> ys ! k = xs ! k)"
  using i
proof (induction n arbitrary: i xs)
  case (Suc n)
  have tk: "take (Suc i) xs = take i xs @ [xs ! i]" using Suc.prems by (simp add: take_Suc_conv_app_nth)
  let ?s = "mset (non_null (take i xs)) + s"
  show ?case
  proof (cases "xs ! i")
    case None
    then show ?thesis using Suc.IH [of "i + 1" xs] Suc.prems tk by (auto split: prod.splits option.splits)
  next
    case (Some x)
    obtain r s' where c: "cp x ?s = (r, s')" by fastforce
    have al: "case cp x ?s of (None, s') \<Rightarrow> s' = ?s | (Some y, s') \<Rightarrow> s' = add_mset y ?s"
      using cp [unfolded allocating_def, THEN spec [of _ x], THEN spec [of _ ?s]] .
    show ?thesis
    proof (cases r)
      case None
      then show ?thesis using Some c al by (simp add: free_all_release)
    next
      case r: (Some y)
      let ?xs = "xs[i := Some y]"
      have t: "take (Suc i) ?xs = take i xs @ [Some y]"
        using Suc.prems by (simp add: take_Suc_conv_app_nth)
      have "deep_copy_loop cp release xs i (Suc n) ?s =
          deep_copy_loop cp release ?xs (i + 1) n (mset (non_null (take (i + 1) ?xs)) + s)"
        using Some c al r t by simp
      moreover have "i + 1 + n \<le> length ?xs" using Suc.prems by simp
      note Suc.IH [OF this]
      ultimately show ?thesis
        using Some Suc.prems by (auto split: prod.splits option.splits if_splits simp: nth_list_update)
    qed
  qed
qed (simp split: prod.splits)

section \<open>Properties\<close>

text \<open>
  C9. The array operations act on the list of elements: \<open>sk_insert\<close> puts the element at
  the given place (at the end when the index is too large) and returns the new length, or
  returns 0 with the stack untouched when it cannot grow; \<open>sk_delete\<close> removes and returns
  the element at the index; \<open>sk_value\<close> reads it.
\<close>

theorem stack_refines_list:
  assumes "sk_ok sk"
  shows "(case sk_insert env (Some sk) p w of
      (r, Some sk') \<Rightarrow>
        (if sk_grow env sk = None then r = 0 \<and> sk' = sk
         else sk_ok sk' \<and> unat r = length (sk_list sk) + 1 \<and>
           sk_list sk' = take (unat w) (sk_list sk) @ p # drop (unat w) (sk_list sk))
    | (r, None) \<Rightarrow> False) \<and>
   (case sk_delete (Some sk) w of
      (r, Some sk') \<Rightarrow>
        (if length (sk_list sk) \<le> unat w then r = None \<and> sk' = sk
         else r = sk_list sk ! unat w \<and> sk_ok sk' \<and>
           sk_list sk' = take (unat w) (sk_list sk) @ drop (unat w + 1) (sk_list sk))
    | (r, None) \<Rightarrow> False) \<and>
   sk_value (Some sk) w = (if unat w < length (sk_list sk) then sk_list sk ! unat w else None)"
proof (intro conjI)
  obtain r sk1 where i: "sk_insert env (Some sk) p w = (r, sk1)" by fastforce
  then have "sk_grow env sk = None \<Longrightarrow> r = 0 \<and> sk1 = Some sk" by simp
  moreover have "sk_grow env sk \<noteq> None \<Longrightarrow> r \<noteq> 0 \<or> sk_grow env sk \<noteq> None" by simp
  ultimately show "case sk_insert env (Some sk) p w of
      (r, Some sk') \<Rightarrow>
        (if sk_grow env sk = None then r = 0 \<and> sk' = sk
         else sk_ok sk' \<and> unat r = length (sk_list sk) + 1 \<and>
           sk_list sk' = take (unat w) (sk_list sk) @ p # drop (unat w) (sk_list sk))
    | (r, None) \<Rightarrow> False"
    using sk_insert_list [OF assms i] i assms by auto
  show "case sk_delete (Some sk) w of
      (r, Some sk') \<Rightarrow>
        (if length (sk_list sk) \<le> unat w then r = None \<and> sk' = sk
         else r = sk_list sk ! unat w \<and> sk_ok sk' \<and>
           sk_list sk' = take (unat w) (sk_list sk) @ drop (unat w + 1) (sk_list sk))
    | (r, None) \<Rightarrow> False"
  proof (cases "unat w < length (sk_list sk)")
    case True
    from sk_delete_list [OF assms True] obtain sk' where
      "sk_delete (Some sk) w = (sk_list sk ! unat w, Some sk')" "sk_ok sk'"
      "sk_list sk' = take (unat w) (sk_list sk) @ drop (unat w + 1) (sk_list sk)" by metis
    then show ?thesis using True by (simp del: sk_delete.simps)
  next
    case False
    then have "w \<ge> num sk" using assms by (simp add: word_le_nat_alt)
    then show ?thesis using False by simp
  qed
  show "sk_value (Some sk) w = (if unat w < length (sk_list sk) then sk_list sk ! unat w else None)"
    using sk_okD [OF assms] by (auto simp: sk_list_def word_le_nat_alt)
qed

theorem stack_refines_list_witness:
  "let sk = the (sk_new std_env None) in
   case sk_insert std_env (Some sk) (Some 7) 9 of (r, Some sk') \<Rightarrow> unat r = 1 \<and> sk_list sk' = [Some 7] | _ \<Rightarrow> False"
proof -
  let ?sk = "the (sk_new std_env None)"
  have n: "sk_new std_env None = Some ?sk" by (simp add: sk_new_def std_env_def)
  have "sk_grow std_env ?sk \<noteq> None"
    by (simp add: sk_new_def std_env_def sk_grow_def kMinSize_def word_le_nat_alt)
  then show ?thesis
    using stack_refines_list [where sk = ?sk and env = std_env and p = "Some 7" and w = 9] sk_new_ok [OF n]
    by (auto simp: Let_def simp del: sk_insert.simps sk_delete.simps split: option.splits prod.splits)
qed

text \<open>
  C10. For every \<open>qsort\<close> and \<open>bsearch\<close> that keep the promises of the C standard and
  every comparison that is a total preorder, \<open>sk_find\<close> on a stack with a comparison function
  permutes the elements at most, leaves the stack sorted, reports no index only when no element
  is equal to the key, and otherwise the index of the first equal element.
\<close>

theorem sk_find_first:
  assumes "libc_search env" and "sk_ok sk" and "sk_sorted_ok sk"
    and "comp sk = Some cmp" and "cmp_order cmp"
  shows "case sk_find env (Some sk) (Some x) of
      (None, Some sk') \<Rightarrow> sk_ok sk' \<and> mset (sk_list sk') = mset (sk_list sk) \<and> sk_sorted_ok sk' \<and>
        (\<forall>y \<in> set (sk_list sk). cmp (Some x) y \<noteq> 0)
    | (Some i, Some sk') \<Rightarrow> sk_ok sk' \<and> mset (sk_list sk') = mset (sk_list sk) \<and> sk_sorted_ok sk' \<and>
        unat i < length (sk_list sk') \<and> cmp (Some x) (sk_list sk' ! unat i) = 0 \<and>
        (\<forall>j < unat i. cmp (Some x) (sk_list sk' ! j) \<noteq> 0)
    | (_, None) \<Rightarrow> False"
proof -
  have p: "Some x \<noteq> None" by simp
  show ?thesis
  proof (rule libc_search.sk_find_cmp [OF assms p])
    fix r sk'
    assume "sk_find env (Some sk) (Some x) = (r, Some sk')" "sk_ok sk'" "sk_sorted_ok sk'"
      "mset (sk_list sk') = mset (sk_list sk)"
      "case r of
         None \<Rightarrow> \<forall>y \<in> set (sk_list sk). cmp (Some x) y \<noteq> 0
       | Some i \<Rightarrow> unat i < length (sk_list sk') \<and> cmp (Some x) (sk_list sk' ! unat i) = 0 \<and>
           (\<forall>j < unat i. cmp (Some x) (sk_list sk' ! j) \<noteq> 0)"
    then show ?thesis by (cases r) (simp_all del: sk_find.simps)
  qed
qed

definition nat_cmp :: "nat stack_cmp_func" where
  "nat_cmp a b = (case (a, b) of
     (None, None) \<Rightarrow> 0 | (None, Some _) \<Rightarrow> - 1 | (Some _, None) \<Rightarrow> 1 | (Some x, Some y) \<Rightarrow> int x - int y)"

lemma cmp_order_nat_cmp: "cmp_order nat_cmp"
  by (auto simp: cmp_order_def nat_cmp_def split: option.splits)

theorem sk_find_first_witness:
  "case sk_find std_env (Some \<lparr>num = 3, data = [Some 5, Some 2, Some 5, None], sorted_flag = False,
      num_alloc = 4, comp = Some nat_cmp\<rparr>) (Some 5) of
     (Some i, Some sk') \<Rightarrow> unat i < 3 \<and> mset (sk_list sk') = {#Some 2, Some 5, Some 5#} | _ \<Rightarrow> False"
proof -
  let ?sk = "\<lparr>num = 3, data = [Some 5, Some 2, Some 5, None], sorted_flag = False,
      num_alloc = 4, comp = Some nat_cmp\<rparr> :: nat stack_st"
  have l: "sk_list ?sk = [Some 5, Some 2, Some 5]" by code_simp
  have "sk_ok ?sk" "sk_sorted_ok ?sk" by (simp_all add: sk_ok_def sk_sorted_ok_def)
  note f = sk_find_first [OF std.libc_search_axioms this _ cmp_order_nat_cmp, of 5, simplified l]
  obtain r sk1 where r: "sk_find std_env (Some ?sk) (Some 5) = (r, sk1)" by fastforce
  have "nat_cmp (Some 5) (Some 5) = 0" by (simp add: nat_cmp_def)
  then have "r \<noteq> None" using f r by (cases r; cases sk1) auto
  then show ?thesis
    using f r mset_eq_length [of "sk_list (the sk1)" "[Some 5, Some 2, Some 5]"]
    by (cases r; cases sk1) auto
qed

text \<open>
  C11. \<open>sk_deep_copy\<close> leaks nothing and frees nothing twice: when it returns \<open>NULL\<close>
  the objects alive are those before the call, and when it succeeds they are those and the
  copies in the new stack, which has the same length and the same null entries.
\<close>

theorem sk_deep_copy_ownership:
  assumes "sk_ok sk" and "allocating cp"
  shows "case sk_deep_copy env (Some sk) cp release s of
      (None, s') \<Rightarrow> s' = s
    | (Some sk', s') \<Rightarrow> s' = mset (non_null (sk_list sk')) + s \<and>
        length (sk_list sk') = length (sk_list sk) \<and>
        (\<forall>k < length (sk_list sk). (sk_list sk' ! k = None) = (sk_list sk ! k = None))"
proof (cases "sk_dup env (Some sk)")
  case None
  then show ?thesis by (simp add: sk_deep_copy_def del: sk_dup.simps)
next
  case (Some ret)
  note okD = sk_okD [OF assms(1)]
  have r: "num ret = num sk" "sk_list ret = sk_list sk" "length (data ret) = unat (num_alloc sk)"
    using Some okD take_poke_end [of 0 "take (unat (num sk)) (data sk)"]
    by (auto simp: Let_def sk_list_def length_ptr_realloc split: option.splits if_splits)
  have nth: "data ret ! k = data sk ! k" if "k < unat (num sk)" for k
    using that r(1,2) by (metis nth_take sk_list_def)
  have "0 + unat (num ret) \<le> length (data ret)" using r okD by simp
  from deep_copy_loop_spec [OF assms(2) this, of s] show ?thesis
    using Some r okD nth assms(1)
    by (auto simp: sk_deep_copy_def sk_list_def simp del: sk_dup.simps split: prod.splits option.splits)
qed

theorem sk_deep_copy_ownership_witness:
  "snd (sk_deep_copy std_env (Some \<lparr>num = 2, data = [Some 1, Some 0, None, None], sorted_flag = False,
      num_alloc = 4, comp = None\<rparr>) (\<lambda>x s. if x = 0 then (None, s) else (Some (x + 10), add_mset (x + 10) s))
      release {#3#}) = {#3#}"
proof -
  let ?sk = "\<lparr>num = 2, data = [Some 1, Some 0, None, None], sorted_flag = False,
      num_alloc = 4, comp = None\<rparr> :: nat stack_st"
  let ?cp = "\<lambda>x s. if x = 0 then (None, s) else (Some (x + 10), add_mset (x + 10) s)"
  have "fst (sk_deep_copy std_env (Some ?sk) ?cp release {#3#}) = None"
    by code_simp
  moreover have ok: "sk_ok ?sk" by (simp add: sk_ok_def)
  have al: "allocating ?cp" by (simp add: allocating_def)
  note sk_deep_copy_ownership [OF ok al, where env = std_env and s = "{#3#}"]
  ultimately show ?thesis
    by (cases "sk_deep_copy std_env (Some ?sk) ?cp release {#3#}") (simp split: option.splits)
qed

text \<open>
  \<open>sk_set\<close> replaces an element without clearing \<open>sorted\<close>, so the flag can be wrong
  after it, and \<open>sk_find\<close> can then miss an element.
\<close>

lemma sk_set_keeps_sorted_flag:
  "sk_sorted_ok \<lparr>num = 2, data = [Some 1, Some 2, None, None], sorted_flag = True, num_alloc = 4,
      comp = Some nat_cmp\<rparr> \<and>
   (case sk_set (Some \<lparr>num = 2, data = [Some 1, Some 2, None, None], sorted_flag = True, num_alloc = 4,
      comp = Some nat_cmp\<rparr>) 0 (Some 9) of
      (_, Some sk') \<Rightarrow> \<not> sk_sorted_ok sk' \<and> fst (sk_find std_env (Some sk') (Some 9)) = None | _ \<Rightarrow> False)"
  by code_simp

end
