(* ===== verification/Lhash.thy ===== *)
theory Lhash
  imports Prelude "HOL-Library.Multiset"
begin

text \<open>
  The chained hash table of \<open>BoringSSL/crypto/lhash/lhash.c\<close>. A chain is a list of
  items, each with its cached hash; the pointer to the link that \<open>get_next_ptr_and_hash\<close>
  returns is a bucket number and a position in its chain. Stored data are values of a type
  \<open>'a\<close> (non-null pointers), compared by the table's \<open>comp\<close>.
\<close>

section \<open>Definitions\<close>

datatype 'a LHASH_ITEM = LHASH_ITEM (item_data: 'a) (item_hash: u32)

record 'a lhash_st =
  num_items :: size_t
  buckets :: "'a LHASH_ITEM list list"
  num_buckets :: size_t
  callback_depth :: u32
  lh_comp :: "'a \<Rightarrow> 'a \<Rightarrow> int"
  lh_hash :: "'a \<Rightarrow> u32"

definition kMinNumBuckets :: size_t where "kMinNumBuckets = 16"
definition kMaxAverageChainLength :: size_t where "kMaxAverageChainLength = 2"
definition kMinAverageChainLength :: size_t where "kMinAverageChainLength = 1"

text \<open>Sizes of the C structures on the LP64 target.\<close>

definition sizeof_lhash :: size_t where "sizeof_lhash = 48"
definition sizeof_item :: size_t where "sizeof_item = 24"
definition sizeof_item_ptr :: size_t where "sizeof_item_ptr = 8"

definition lh_new :: "heap_env \<Rightarrow> ('a \<Rightarrow> u32) \<Rightarrow> ('a \<Rightarrow> 'a \<Rightarrow> int) \<Rightarrow> 'a lhash_st option" where
  "lh_new env hash cmp =
     (if \<not> alloc_ok env sizeof_lhash then None
      else if \<not> alloc_ok env (sizeof_item_ptr * kMinNumBuckets) then None
      else Some \<lparr>num_items = 0, buckets = replicate (unat kMinNumBuckets) [], num_buckets = kMinNumBuckets,
                 callback_depth = 0, lh_comp = cmp, lh_hash = hash\<rparr>)"

definition lh_num_items :: "'a lhash_st \<Rightarrow> size_t" where
  "lh_num_items lh = num_items lh"

text \<open>The position in a chain of the first item equal to the data, or of the final \<open>NULL\<close>.\<close>

fun next_link :: "('a \<Rightarrow> 'a \<Rightarrow> int) \<Rightarrow> 'a \<Rightarrow> 'a LHASH_ITEM list \<Rightarrow> nat" where
  "next_link cmp d [] = 0"
| "next_link cmp d (cur # rest) = (if cmp (item_data cur) d = 0 then 0 else Suc (next_link cmp d rest))"

definition get_next_ptr_and_hash :: "'a lhash_st \<Rightarrow> 'a \<Rightarrow> u32 \<times> nat \<times> nat" where
  "get_next_ptr_and_hash lh d =
     (let hash = lh_hash lh d;
          i = unat ((ucast hash :: size_t) mod num_buckets lh)
      in (hash, i, next_link (lh_comp lh) d (buckets lh ! i)))"

definition lh_retrieve :: "'a lhash_st \<Rightarrow> 'a \<Rightarrow> 'a option" where
  "lh_retrieve lh d =
     (let (_, i, k) = get_next_ptr_and_hash lh d in
      if k = length (buckets lh ! i) then None else Some (item_data (buckets lh ! i ! k)))"

text \<open>One item moved to the front of its new chain.\<close>

definition rebucket_item ::
    "size_t \<Rightarrow> 'a LHASH_ITEM \<Rightarrow> 'a LHASH_ITEM list list \<Rightarrow> 'a LHASH_ITEM list list" where
  "rebucket_item new_num_buckets cur new_buckets =
     (let new_bucket = unat ((ucast (item_hash cur) :: size_t) mod new_num_buckets) in
      new_buckets[new_bucket := cur # new_buckets ! new_bucket])"

definition lh_rebucket :: "heap_env \<Rightarrow> 'a lhash_st \<Rightarrow> size_t \<Rightarrow> 'a lhash_st" where
  "lh_rebucket env lh new_num_buckets =
     (let alloc_size = sizeof_item_ptr * new_num_buckets in
      if alloc_size div sizeof_item_ptr \<noteq> new_num_buckets then lh
      else if \<not> alloc_ok env alloc_size then lh
      else
        lh\<lparr>num_buckets := new_num_buckets,
           buckets := fold (rebucket_item new_num_buckets) (concat (buckets lh))
                        (replicate (unat new_num_buckets) [])\<rparr>)"

definition lh_maybe_resize :: "heap_env \<Rightarrow> 'a lhash_st \<Rightarrow> 'a lhash_st" where
  "lh_maybe_resize env lh =
     (if callback_depth lh > 0 then lh
      else
        let avg_chain_length = num_items lh div num_buckets lh in
        if avg_chain_length > kMaxAverageChainLength then
          let new_num_buckets = num_buckets lh * 2 in
          if new_num_buckets > num_buckets lh then lh_rebucket env lh new_num_buckets else lh
        else if avg_chain_length < kMinAverageChainLength \<and> num_buckets lh > kMinNumBuckets then
          let new_num_buckets = num_buckets lh div 2;
              new_num_buckets = (if new_num_buckets < kMinNumBuckets then kMinNumBuckets else new_num_buckets)
          in lh_rebucket env lh new_num_buckets
        else lh)"

text \<open>The return value, \<open>*old_data\<close> and the table.\<close>

definition lh_insert :: "heap_env \<Rightarrow> 'a lhash_st \<Rightarrow> 'a \<Rightarrow> bool \<times> 'a option \<times> 'a lhash_st" where
  "lh_insert env lh d =
     (let (hash, i, k) = get_next_ptr_and_hash lh d;
          chain = buckets lh ! i
      in if k \<noteq> length chain then
           (True, Some (item_data (chain ! k)),
            lh\<lparr>buckets := (buckets lh)[i := chain[k := LHASH_ITEM d (item_hash (chain ! k))]]\<rparr>)
         else if \<not> alloc_ok env sizeof_item then (False, None, lh)
         else
           (True, None,
            lh_maybe_resize env
              (lh\<lparr>buckets := (buckets lh)[i := chain @ [LHASH_ITEM d hash]], num_items := num_items lh + 1\<rparr>)))"

definition lh_delete :: "heap_env \<Rightarrow> 'a lhash_st \<Rightarrow> 'a \<Rightarrow> 'a option \<times> 'a lhash_st" where
  "lh_delete env lh d =
     (let (_, i, k) = get_next_ptr_and_hash lh d;
          chain = buckets lh ! i
      in if k = length chain then (None, lh)
         else
           (Some (item_data (chain ! k)),
            lh_maybe_resize env
              (lh\<lparr>buckets := (buckets lh)[i := take k chain @ drop (k + 1) chain],
                 num_items := num_items lh - 1\<rparr>)))"

text \<open>
  \<open>lh_doall\<close> and \<open>lh_doall_arg\<close> with a callback that acts on a state of the caller and
  leaves the table alone: \<open>func\<close> is \<open>no_arg_func\<close>, or \<open>arg_func\<close> with its \<open>arg\<close>.
\<close>

definition lh_doall_internal ::
    "heap_env \<Rightarrow> 'a lhash_st option \<Rightarrow> ('a \<Rightarrow> 's \<Rightarrow> 's) \<Rightarrow> 's \<Rightarrow> 's \<times> 'a lhash_st option" where
  "lh_doall_internal env lh func s =
     (case lh of
        None \<Rightarrow> (s, None)
      | Some lh \<Rightarrow>
          let lh = (if callback_depth lh < 0xffffffff then lh\<lparr>callback_depth := callback_depth lh + 1\<rparr> else lh);
              s = fold (\<lambda>cur. func (item_data cur)) (concat (buckets lh)) s;
              lh = (if callback_depth lh < 0xffffffff then lh\<lparr>callback_depth := callback_depth lh - 1\<rparr> else lh)
          in (s, Some (lh_maybe_resize env lh)))"

definition lh_doall :: "heap_env \<Rightarrow> 'a lhash_st option \<Rightarrow> ('a \<Rightarrow> 's \<Rightarrow> 's) \<Rightarrow> 's \<Rightarrow> 's \<times> 'a lhash_st option" where
  "lh_doall env lh func s = lh_doall_internal env lh func s"

definition lh_doall_arg ::
    "heap_env \<Rightarrow> 'a lhash_st option \<Rightarrow> ('a \<Rightarrow> 'b \<Rightarrow> 's \<Rightarrow> 's) \<Rightarrow> 'b \<Rightarrow> 's \<Rightarrow> 's \<times> 'a lhash_st option" where
  "lh_doall_arg env lh func arg s = lh_doall_internal env lh (\<lambda>x. func x arg) s"

section \<open>The table as a finite map\<close>

text \<open>What the client's hash and comparison must satisfy.\<close>

locale hash_key =
  fixes hash :: "'a \<Rightarrow> u32" and cmp :: "'a \<Rightarrow> 'a \<Rightarrow> int"
  assumes cmp_refl: "cmp x x = 0"
    and cmp_sym: "cmp x y = 0 \<Longrightarrow> cmp y x = 0"
    and cmp_trans: "cmp x y = 0 \<Longrightarrow> cmp y z = 0 \<Longrightarrow> cmp x z = 0"
    and cmp_hash: "cmp x y = 0 \<Longrightarrow> hash x = hash y"

definition lh_items :: "'a lhash_st \<Rightarrow> 'a LHASH_ITEM list" where
  "lh_items lh = concat (buckets lh)"

definition bucket_of :: "size_t \<Rightarrow> u32 \<Rightarrow> nat" where
  "bucket_of n h = unat ((ucast h :: size_t) mod n)"

text \<open>The items equal to a key.\<close>

definition lh_match :: "'a lhash_st \<Rightarrow> 'a \<Rightarrow> 'a LHASH_ITEM multiset" where
  "lh_match lh d = filter_mset (\<lambda>x. lh_comp lh (item_data x) d = 0) (mset (lh_items lh))"

text \<open>
  Every item has the right cached hash and stands in the bucket of that hash, at most one item
  is equal to any key, and the counters count.
\<close>

definition placed :: "'a lhash_st \<Rightarrow> bool" where
  "placed lh \<longleftrightarrow>
     length (buckets lh) = unat (num_buckets lh) \<and>
     (\<forall>i < length (buckets lh). \<forall>x \<in> set (buckets lh ! i).
        item_hash x = lh_hash lh (item_data x) \<and> bucket_of (num_buckets lh) (item_hash x) = i)"

definition lh_ok :: "'a lhash_st \<Rightarrow> bool" where
  "lh_ok lh \<longleftrightarrow>
     kMinNumBuckets \<le> num_buckets lh \<and> placed lh \<and>
     unat (num_items lh) = length (lh_items lh) \<and> (\<forall>d. size (lh_match lh d) \<le> 1)"

text \<open>The stored element equal to a key.\<close>

definition lh_lookup :: "'a lhash_st \<Rightarrow> 'a \<Rightarrow> 'a option" where
  "lh_lookup lh d = List.find (\<lambda>x. lh_comp lh x d = 0) (map item_data (lh_items lh))"

lemma lh_lookup_None: "lh_lookup lh d = None \<longleftrightarrow> lh_match lh d = {#}"
  by (auto simp: lh_lookup_def lh_match_def find_None_iff filter_empty_conv simp flip: mset_filter)

lemma lh_lookup_Some:
  assumes "lh_match lh d = {#x#}"
  shows "lh_lookup lh d = Some (item_data x)"
proof -
  have "lh_lookup lh d \<noteq> None" using assms lh_lookup_None [of lh d] by simp
  then obtain y where y: "lh_lookup lh d = Some y" by blast
  then obtain i where "i < length (lh_items lh)" "y = item_data (lh_items lh ! i)" "lh_comp lh y d = 0"
    unfolding lh_lookup_def find_Some_iff by auto
  then have "lh_items lh ! i \<in># lh_match lh d" by (simp add: lh_match_def)
  then show ?thesis using assms y \<open>y = _\<close> by simp
qed

lemma size_le_1: "size M \<le> 1 \<longleftrightarrow> M = {#} \<or> (\<exists>x. M = {#x#})"
  by (auto simp: le_Suc_eq size_1_singleton_mset One_nat_def)

section \<open>Buckets\<close>

lemma bucket_of_less: "kMinNumBuckets \<le> n \<Longrightarrow> bucket_of n h < unat n"
  by (simp add: bucket_of_def kMinNumBuckets_def word_le_nat_alt unat_mod)

lemma mset_concat_update:
  "i < length bs \<Longrightarrow> mset (concat (bs[i := c])) + mset (bs ! i) = mset (concat bs) + mset c"
proof (induction bs arbitrary: i)
  case (Cons b bs)
  show ?case
  proof (cases i)
    case (Suc j)
    then show ?thesis using Cons.IH [of j] Cons.prems by (simp add: add.assoc)
  qed simp
qed simp

lemma filter_concat_one:
  "i < length bs \<Longrightarrow> (\<And>j x. j < length bs \<Longrightarrow> x \<in> set (bs ! j) \<Longrightarrow> P x \<Longrightarrow> j = i) \<Longrightarrow>
   filter P (concat bs) = filter P (bs ! i)"
proof (induction bs arbitrary: i)
  case (Cons b bs)
  show ?case
  proof (cases i)
    case 0
    have "filter P (concat bs) = []"
      using Cons.prems(2) 0 by (fastforce simp: filter_empty_conv in_set_conv_nth)
    then show ?thesis using 0 by simp
  next
    case (Suc j)
    have "filter P b = []" using Cons.prems(2) [of 0] Suc by (auto simp: filter_empty_conv)
    moreover have "filter P (concat bs) = filter P (bs ! j)"
    proof (rule Cons.IH)
      show "j < length bs" using Cons.prems(1) Suc by simp
      show "k = j" if "k < length bs" "x \<in> set (bs ! k)" "P x" for k x
        using Cons.prems(2) [of "Suc k" x] that Suc by simp
    qed
    ultimately show ?thesis using Suc by simp
  qed
qed simp

lemma next_link_le: "next_link cmp d chain \<le> length chain"
  by (induction chain) auto

lemma next_link_found:
  "next_link cmp d chain < length chain \<Longrightarrow> cmp (item_data (chain ! next_link cmp d chain)) d = 0"
  by (induction chain) (auto split: if_splits)

lemma next_link_end:
  "next_link cmp d chain = length chain \<longleftrightarrow> (\<forall>x \<in> set chain. cmp (item_data x) d \<noteq> 0)"
  by (induction chain) auto

lemma mset_drop_nth: "k < length xs \<Longrightarrow> add_mset (xs ! k) (mset (take k xs @ drop (k + 1) xs)) = mset xs"
  by (metis Suc_eq_plus1 append_take_drop_id id_take_nth_drop mset.simps(2) mset_append union_mset_add_mset_right)

subsection \<open>Rebucketing\<close>

lemma fold_rebucket:
  assumes "kMinNumBuckets \<le> n"
  shows "length bs = unat n \<Longrightarrow>
    length (fold (rebucket_item n) xs bs) = unat n \<and>
    mset (concat (fold (rebucket_item n) xs bs)) = mset (concat bs) + mset xs \<and>
    (\<forall>i < unat n. \<forall>x \<in> set (fold (rebucket_item n) xs bs ! i).
       x \<in> set (bs ! i) \<or> x \<in> set xs \<and> bucket_of n (item_hash x) = i)"
proof (induction xs arbitrary: bs)
  case (Cons x xs)
  let ?i = "bucket_of n (item_hash x)"
  let ?bs = "bs[?i := x # bs ! ?i]"
  have i: "?i < length bs" using bucket_of_less [OF assms] Cons.prems by simp
  have r: "rebucket_item n x bs = ?bs" by (simp add: rebucket_item_def bucket_of_def Let_def)
  have m: "mset (concat ?bs) = add_mset x (mset (concat bs))"
    using mset_concat_update [OF i, of "x # bs ! ?i"] by simp
  have "length ?bs = unat n" using Cons.prems by simp
  from Cons.IH [OF this] show ?case
    using r m i Cons.prems by (auto simp: nth_list_update split: if_splits)
qed simp

lemma lh_rebucket_spec:
  assumes ok: "lh_ok lh" and n: "kMinNumBuckets \<le> n"
  shows "lh_ok (lh_rebucket env lh n) \<and> mset (lh_items (lh_rebucket env lh n)) = mset (lh_items lh) \<and>
    lh_comp (lh_rebucket env lh n) = lh_comp lh \<and> lh_hash (lh_rebucket env lh n) = lh_hash lh \<and>
    num_items (lh_rebucket env lh n) = num_items lh \<and>
    callback_depth (lh_rebucket env lh n) = callback_depth lh"
proof -
  let ?B = "fold (rebucket_item n) (concat (buckets lh)) (replicate (unat n) [])"
  let ?lh = "lh\<lparr>num_buckets := n, buckets := ?B\<rparr>"
  have e: "concat (replicate k []) = ([] :: 'b list)" for k by (induction k) auto
  note f = fold_rebucket [OF n, of "replicate (unat n) []" "concat (buckets lh)"]
  have m: "mset (lh_items ?lh) = mset (lh_items lh)" using f e by (simp add: lh_items_def)
  have hx: "item_hash x = lh_hash lh (item_data x)" if "x \<in> set (lh_items lh)" for x
    using that ok by (auto simp: lh_ok_def placed_def lh_items_def in_set_conv_nth [of _ "buckets lh"])
  have p: "placed ?lh"
    unfolding placed_def
  proof (intro conjI allI impI ballI)
    show "length (buckets ?lh) = unat (num_buckets ?lh)" using f by simp
    fix i x
    assume a: "i < length (buckets ?lh)" "x \<in> set (buckets ?lh ! i)"
    then have "i < unat n" using f by simp
    then have x: "x \<in> set (lh_items lh)" "bucket_of n (item_hash x) = i"
      using f a by (auto simp: lh_items_def)
    then show "item_hash x = lh_hash ?lh (item_data x)" "bucket_of (num_buckets ?lh) (item_hash x) = i"
      using hx by simp_all
  qed
  have "length (lh_items ?lh) = length (lh_items lh)" using m by (metis size_mset)
  then have "lh_ok ?lh"
    using ok n p m by (simp add: lh_ok_def lh_match_def)
  then show ?thesis using ok m by (simp add: lh_rebucket_def Let_def)
qed

lemma lh_maybe_resize_spec:
  assumes ok: "lh_ok lh"
  shows "lh_ok (lh_maybe_resize env lh) \<and> mset (lh_items (lh_maybe_resize env lh)) = mset (lh_items lh) \<and>
    lh_comp (lh_maybe_resize env lh) = lh_comp lh \<and> lh_hash (lh_maybe_resize env lh) = lh_hash lh \<and>
    num_items (lh_maybe_resize env lh) = num_items lh \<and>
    callback_depth (lh_maybe_resize env lh) = callback_depth lh"
proof -
  have "kMinNumBuckets \<le> num_buckets lh * 2" if "num_buckets lh < num_buckets lh * 2"
    using that ok unfolding lh_ok_def by (meson less_imp_le order.trans)
  then show ?thesis
    using ok lh_rebucket_spec [OF ok, of _ env]
    by (auto simp: lh_maybe_resize_def Let_def not_less)
qed

section \<open>Lookup, insertion and deletion\<close>

lemma lh_ok_bounds:
  assumes "lh_ok lh"
  shows "bucket_of (num_buckets lh) h < length (buckets lh)"
  using assms bucket_of_less [of "num_buckets lh" h] by (simp add: lh_ok_def placed_def)

lemma placedD:
  assumes "placed lh" "i < length (buckets lh)" "x \<in> set (buckets lh ! i)"
  shows "item_hash x = lh_hash lh (item_data x)" "bucket_of (num_buckets lh) (item_hash x) = i"
  using assms unfolding placed_def by blast+

text \<open>Replacing one chain.\<close>

lemma placed_update:
  assumes "placed lh" "i < length (buckets lh)"
    and "\<And>x. x \<in> set c \<Longrightarrow> item_hash x = lh_hash lh (item_data x) \<and> bucket_of (num_buckets lh) (item_hash x) = i"
  shows "placed (lh\<lparr>buckets := (buckets lh)[i := c], num_items := n\<rparr>)"
    "placed (lh\<lparr>buckets := (buckets lh)[i := c]\<rparr>)"
  using assms unfolding placed_def by (auto simp: nth_list_update; metis)+

text \<open>How an operation ends: with the same counters, or with a resize.\<close>

definition resized :: "heap_env \<Rightarrow> 'a lhash_st \<Rightarrow> 'a lhash_st \<Rightarrow> bool" where
  "resized env lh lh' \<longleftrightarrow>
     num_buckets lh' = num_buckets lh \<and> callback_depth lh' = callback_depth lh \<and> num_items lh' = num_items lh \<or>
     (\<exists>lh2. lh_ok lh2 \<and> num_buckets lh2 = num_buckets lh \<and> callback_depth lh2 = callback_depth lh \<and>
        unat (num_items lh2) \<le> unat (num_items lh) + 1 \<and> lh' = lh_maybe_resize env lh2)"

text \<open>A well-formed table with this hash and comparison.\<close>

definition lh_table :: "('a \<Rightarrow> u32) \<Rightarrow> ('a \<Rightarrow> 'a \<Rightarrow> int) \<Rightarrow> 'a lhash_st \<Rightarrow> bool" where
  "lh_table hash cmp lh \<longleftrightarrow> lh_ok lh \<and> lh_comp lh = cmp \<and> lh_hash lh = hash"

context hash_key
begin

abbreviation tbl :: "'a lhash_st \<Rightarrow> bool" where
  "tbl lh \<equiv> lh_table hash cmp lh"

lemma match_in_bucket:
  assumes t: "tbl lh"
  shows "filter (\<lambda>x. cmp (item_data x) d = 0) (lh_items lh) =
    filter (\<lambda>x. cmp (item_data x) d = 0) (buckets lh ! bucket_of (num_buckets lh) (hash d))"
  unfolding lh_items_def
proof (rule filter_concat_one)
  show "bucket_of (num_buckets lh) (hash d) < length (buckets lh)"
    using t lh_ok_bounds [of lh] by (simp add: lh_table_def)
  fix j x
  assume a: "j < length (buckets lh)" "x \<in> set (buckets lh ! j)" "cmp (item_data x) d = 0"
  have "placed lh" "lh_hash lh = hash" using t by (simp_all add: lh_table_def lh_ok_def)
  then have "item_hash x = hash (item_data x)" "bucket_of (num_buckets lh) (item_hash x) = j"
    using a placedD by metis+
  then show "j = bucket_of (num_buckets lh) (hash d)" using cmp_hash [OF a(3)] by simp
qed

text \<open>What the search returns: a bucket, and the matching item or the end of the chain.\<close>

lemma get_next_spec:
  fixes d :: 'a
  assumes t: "tbl lh"
  defines "i \<equiv> bucket_of (num_buckets lh) (hash d)"
  defines "k \<equiv> next_link cmp d (buckets lh ! i)"
  shows "get_next_ptr_and_hash lh d = (hash d, i, k)" "i < length (buckets lh)"
    "k = length (buckets lh ! i) \<Longrightarrow> lh_match lh d = {#}"
    "k \<noteq> length (buckets lh ! i) \<Longrightarrow> k < length (buckets lh ! i) \<and> lh_match lh d = {#buckets lh ! i ! k#}"
proof -
  have M: "lh_match lh d = mset (filter (\<lambda>x. cmp (item_data x) d = 0) (buckets lh ! i))"
    using match_in_bucket [OF t, of d] t by (simp add: lh_match_def lh_table_def i_def flip: mset_filter)
  show "get_next_ptr_and_hash lh d = (hash d, i, k)"
    using t by (simp add: get_next_ptr_and_hash_def i_def k_def bucket_of_def lh_table_def Let_def)
  show "i < length (buckets lh)" using t lh_ok_bounds [of lh] by (simp add: lh_table_def i_def)
  show "lh_match lh d = {#}" if "k = length (buckets lh ! i)"
    using that M next_link_end [of cmp d "buckets lh ! i"] by (simp add: k_def filter_empty_conv)
  assume "k \<noteq> length (buckets lh ! i)"
  then have k: "k < length (buckets lh ! i)" using next_link_le [of cmp d "buckets lh ! i"] by (simp add: k_def)
  then have "buckets lh ! i ! k \<in># lh_match lh d"
    using M next_link_found [of cmp d "buckets lh ! i"] by (simp add: k_def)
  moreover have "size (lh_match lh d) \<le> 1" using t by (simp add: lh_table_def lh_ok_def)
  ultimately show "k < length (buckets lh ! i) \<and> lh_match lh d = {#buckets lh ! i ! k#}"
    using k unfolding size_le_1 by auto
qed

lemma lh_retrieve_lookup: "tbl lh \<Longrightarrow> lh_retrieve lh d = lh_lookup lh d"
  using get_next_spec [of lh d] lh_lookup_None [of lh d] lh_lookup_Some [of lh d]
  by (auto simp: lh_retrieve_def Let_def)

text \<open>Equal keys match the same items.\<close>

lemma match_cong: "cmp d q = 0 \<Longrightarrow> (cmp x d = 0) = (cmp x q = 0)"
  using cmp_sym cmp_trans by blast

lemma lookup_by_match:
  assumes "lh_comp lh = cmp" "lh_comp lh' = cmp"
    and "lh_match lh' q = {#} \<longleftrightarrow> lh_match lh q = {#}"
    and "\<And>x. lh_match lh' q = {#x#} \<longleftrightarrow> lh_match lh q = {#x#}"
    and "size (lh_match lh q) \<le> 1"
  shows "lh_lookup lh' q = lh_lookup lh q"
  using assms lh_lookup_None [of lh q] lh_lookup_None [of lh' q] lh_lookup_Some unfolding size_le_1 by metis

lemma lh_maybe_resize_tbl:
  assumes "tbl lh"
  shows "tbl (lh_maybe_resize env lh) \<and> lh_match (lh_maybe_resize env lh) q = lh_match lh q \<and>
    lh_lookup (lh_maybe_resize env lh) q = lh_lookup lh q \<and> num_items (lh_maybe_resize env lh) = num_items lh"
proof -
  have ok: "lh_ok lh" using assms by (simp add: lh_table_def)
  note r = lh_maybe_resize_spec [OF ok, of env]
  then have m: "lh_match (lh_maybe_resize env lh) q = lh_match lh q" by (simp add: lh_match_def)
  moreover have "lh_lookup (lh_maybe_resize env lh) q = lh_lookup lh q"
    using r m assms ok by (intro lookup_by_match) (auto simp: lh_table_def lh_ok_def)
  ultimately show ?thesis using r assms by (simp add: lh_table_def)
qed

text \<open>A table with one chain replaced, before the resize.\<close>

lemma update_match:
  assumes t: "tbl lh" and i: "i < length (buckets lh)"
    and m: "mset c + old = mset (buckets lh ! i) + new"
  shows "mset (concat ((buckets lh)[i := c])) + old = mset (lh_items lh) + new"
proof -
  have "mset (concat ((buckets lh)[i := c])) + mset (buckets lh ! i) = mset (lh_items lh) + mset c"
    using mset_concat_update [OF i, of c] by (simp add: lh_items_def)
  then have "mset (concat ((buckets lh)[i := c])) + old + (mset (buckets lh ! i) + mset c) =
      mset (lh_items lh) + new + (mset (buckets lh ! i) + mset c)"
    using m by (smt (verit) union_assoc union_commute)
  then show ?thesis by simp
qed

lemma match_after:
  assumes t: "tbl lh" "lh_comp lh' = cmp"
    and m: "mset (lh_items lh') + old = mset (lh_items lh) + new"
  shows "lh_match lh' q + filter_mset (\<lambda>x. cmp (item_data x) q = 0) old =
    lh_match lh q + filter_mset (\<lambda>x. cmp (item_data x) q = 0) new"
proof -
  have "filter_mset (\<lambda>x. cmp (item_data x) q = 0) (mset (lh_items lh') + old) =
      filter_mset (\<lambda>x. cmp (item_data x) q = 0) (mset (lh_items lh) + new)" using m by (rule arg_cong)
  then show ?thesis using t by (simp only: lh_match_def lh_table_def filter_union_mset)
qed

lemma match_eq: "tbl lh \<Longrightarrow> cmp d q = 0 \<Longrightarrow> lh_match lh q = lh_match lh d"
  using match_cong by (simp add: lh_match_def lh_table_def cong: filter_mset_cong)

lemma lookup_from_match:
  assumes "lh_comp lh = cmp" "lh_comp lh' = cmp" "lh_match lh' q = lh_match lh q" "size (lh_match lh q) \<le> 1"
  shows "lh_lookup lh' q = lh_lookup lh q"
  by (rule lookup_by_match [OF assms(1,2)]) (use assms in auto)

lemma match_small: "tbl lh \<Longrightarrow> size (lh_match lh q) \<le> 1"
  by (simp add: lh_table_def lh_ok_def)

text \<open>
  The table after one chain changed: \<open>old\<close> is the item that left it and \<open>new\<close> the item
  that entered it, both equal to \<open>d\<close>.
\<close>

lemma chain_update:
  assumes t: "tbl lh" and i: "i = bucket_of (num_buckets lh) (hash d)"
    and c: "mset c + old = mset (buckets lh ! i) + new" "set c \<subseteq> set (buckets lh ! i) \<union> set_mset new"
    and old: "old = lh_match lh d" and new: "new = {#} \<or> new = {#LHASH_ITEM d (hash d)#}"
    and n: "unat n + size old = unat (num_items lh) + size new"
  defines "lh2 \<equiv> lh\<lparr>buckets := (buckets lh)[i := c], num_items := n\<rparr>"
  shows "tbl lh2"
    "lh_lookup lh2 q = (if cmp d q = 0 then (if new = {#} then None else Some d) else lh_lookup lh q)"
proof -
  have il: "i < length (buckets lh)" using t lh_ok_bounds [of lh] by (simp add: lh_table_def i)
  have pl: "placed lh" "lh_hash lh = hash" "lh_comp lh = cmp" using t by (simp_all add: lh_table_def lh_ok_def)
  have m: "mset (lh_items lh2) + old = mset (lh_items lh) + new"
    using update_match [OF t il c(1)] by (simp add: lh2_def lh_items_def)
  have "placed lh2"
    unfolding lh2_def
  proof (rule placed_update(1) [OF pl(1) il])
    fix x assume "x \<in> set c"
    then have "x \<in> set (buckets lh ! i) \<or> x = LHASH_ITEM d (hash d)" using c(2) new by auto
    then show "item_hash x = lh_hash lh (item_data x) \<and> bucket_of (num_buckets lh) (item_hash x) = i"
      using placedD [OF pl(1) il] pl(2) i by auto
  qed
  have comp2: "lh_comp lh2 = cmp" using pl by (simp add: lh2_def)
  note ma = match_after [OF t comp2 m]
  have old1: "size old \<le> 1" using match_small [OF t] old by simp
  have fo: "filter_mset (\<lambda>x. cmp (item_data x) p = 0) old = (if cmp d p = 0 then old else {#})" for p
  proof -
    have "(cmp (item_data x) p = 0) = (cmp d p = 0)" if "x \<in># old" for x
    proof -
      have "cmp (item_data x) d = 0" using that unfolding old lh_match_def pl(3) by simp
      then show ?thesis using cmp_sym cmp_trans by blast
    qed
    then have "filter_mset (\<lambda>x. cmp (item_data x) p = 0) old = filter_mset (\<lambda>x. cmp d p = 0) old"
      by (intro filter_mset_cong) simp_all
    then show ?thesis by simp
  qed
  have fn: "filter_mset (\<lambda>x. cmp (item_data x) p = 0) new = (if cmp d p = 0 then new else {#})" for p
    using new by auto
  have mt: "lh_match lh2 p = (if cmp d p = 0 then new else lh_match lh p)" for p
    using ma [of p] match_eq [OF t, of d p] old unfolding fo fn by (cases "cmp d p = 0") auto
  have "size (lh_match lh2 p) \<le> 1" for p
    using mt [of p] new match_small [OF t, of p] by auto
  moreover have "unat (num_items lh2) = length (lh_items lh2)"
  proof -
    have "length (lh_items lh2) + size old = length (lh_items lh) + size new"
      using arg_cong [OF m, of size] by simp
    moreover have "unat (num_items lh) = length (lh_items lh)" using t by (simp add: lh_table_def lh_ok_def)
    ultimately show ?thesis using n by (simp add: lh2_def)
  qed
  moreover have "kMinNumBuckets \<le> num_buckets lh2" using t by (simp add: lh2_def lh_table_def lh_ok_def)
  ultimately show t2: "tbl lh2"
    using \<open>placed lh2\<close> pl comp2 by (simp add: lh_table_def lh_ok_def lh2_def)
  show "lh_lookup lh2 q = (if cmp d q = 0 then (if new = {#} then None else Some d) else lh_lookup lh q)"
  proof (cases "cmp d q = 0")
    case True
    then show ?thesis
      using mt [of q] new lh_lookup_None [of lh2 q] lh_lookup_Some [of lh2 q] by auto
  next
    case False
    then show ?thesis using mt [of q] lookup_from_match [OF pl(3) comp2] match_small [OF t] by simp
  qed
qed

lemma num_items_keep: "lh\<lparr>buckets := b, num_items := num_items lh\<rparr> = (lh :: 'a lhash_st)\<lparr>buckets := b\<rparr>"
  by (cases lh) simp

lemma lh_insert_spec:
  assumes t: "tbl lh" and small: "length (lh_items lh) < 2 ^ 64 - 1"
    and ins: "lh_insert env lh d = (ok, old, lh')"
  shows "tbl lh' \<and> old = lh_lookup lh d \<and>
    (if ok then
       (\<forall>q. lh_lookup lh' q = (if cmp d q = 0 then Some d else lh_lookup lh q)) \<and>
       unat (num_items lh') = unat (num_items lh) + (if old = None then 1 else 0)
     else lh' = lh \<and> old = None \<and> \<not> alloc_ok env sizeof_item)" (is "?A") and "resized env lh lh'"
proof -
  have "?A \<and> resized env lh lh'"
  proof -
    define i where "i = bucket_of (num_buckets lh) (hash d)"
    define k where "k = next_link cmp d (buckets lh ! i)"
    note g = get_next_spec [OF t, of d, folded i_def, folded k_def]
    let ?c = "buckets lh ! i"
    have un: "unat (num_items lh) = length (lh_items lh)" using t by (simp add: lh_table_def lh_ok_def)
    show ?thesis
    proof (cases "k = length ?c")
      case False
      note gk = g(4) [OF False]
      have h: "item_hash (?c ! k) = hash d"
      proof -
        have "?c ! k \<in># lh_match lh d" using gk by simp
        then have "cmp (item_data (?c ! k)) d = 0" using t by (simp add: lh_match_def lh_table_def)
        moreover have "item_hash (?c ! k) = lh_hash lh (item_data (?c ! k))"
          using placedD(1) [of lh i "?c ! k"] t g(2) gk by (simp add: lh_table_def lh_ok_def)
        ultimately show ?thesis using cmp_hash t by (simp add: lh_table_def)
      qed
      let ?c' = "?c[k := LHASH_ITEM d (hash d)]"
      have 1: "mset ?c' + {#?c ! k#} = mset ?c + {#LHASH_ITEM d (hash d)#}"
        using gk by (simp add: mset_update)
      have 2: "set ?c' \<subseteq> set ?c \<union> set_mset {#LHASH_ITEM d (hash d)#}"
        using set_update_subset_insert [of ?c k] by auto
      have 3: "{#?c ! k#} = lh_match lh d" by (simp add: gk)
      have 4: "{#LHASH_ITEM d (hash d)#} = {#} \<or> {#LHASH_ITEM d (hash d)#} = {#LHASH_ITEM d (hash d)#}" by simp
      have 5: "unat (num_items lh) + size {#?c ! k#} = unat (num_items lh) + size {#LHASH_ITEM d (hash d)#}" by simp
      note u = chain_update [OF t i_def 1 2 3 4 5]
      have "lh_lookup lh d = Some (item_data (?c ! k))" by (simp add: lh_lookup_Some gk)
      moreover have "ok" "old = Some (item_data (?c ! k))" and l:
          "lh' = lh\<lparr>buckets := (buckets lh)[i := ?c'], num_items := num_items lh\<rparr>"
        using ins unfolding lh_insert_def g(1) num_items_keep by (simp_all add: Let_def False h)
      ultimately show ?thesis unfolding l using u by (simp add: resized_def)
    next
      case True
      note m = g(3) [OF True]
      have none: "lh_lookup lh d = None" by (simp add: lh_lookup_None m)
      show ?thesis
      proof (cases "alloc_ok env sizeof_item")
        case False
        then have "\<not> ok" "old = None" "lh' = lh"
          using ins unfolding lh_insert_def g(1) by (simp_all add: Let_def True)
        then show ?thesis using t none False by (simp add: resized_def)
      next
        case ok: True
        let ?c' = "?c @ [LHASH_ITEM d (hash d)]"
        let ?lh = "lh\<lparr>buckets := (buckets lh)[i := ?c'], num_items := num_items lh + 1\<rparr>"
        have n: "unat (num_items lh + 1) = unat (num_items lh) + 1"
          using small un by (simp add: unat_word_ariths)
        have 1: "mset ?c' + {#} = mset ?c + {#LHASH_ITEM d (hash d)#}" by simp
        have 2: "set ?c' \<subseteq> set ?c \<union> set_mset {#LHASH_ITEM d (hash d)#}" by auto
        have 3: "{#} = lh_match lh d" by (simp add: m)
        have 4: "{#LHASH_ITEM d (hash d)#} = {#} \<or> {#LHASH_ITEM d (hash d)#} = {#LHASH_ITEM d (hash d)#}" by simp
        have 5: "unat (num_items lh + 1) + size {#} = unat (num_items lh) + size {#LHASH_ITEM d (hash d)#}"
          by (simp add: n)
        note u = chain_update [OF t i_def 1 2 3 4 5]
        have "ok" "old = None" "lh' = lh_maybe_resize env ?lh"
          using ins unfolding lh_insert_def g(1) by (simp_all add: Let_def True ok)
        moreover have "resized env lh (lh_maybe_resize env ?lh)"
          unfolding resized_def by (rule disjI2, rule exI [of _ ?lh]) (use u(1) n in \<open>simp add: lh_table_def\<close>)
        ultimately show ?thesis using u n none lh_maybe_resize_tbl [OF u(1), of env] by simp
      qed
    qed
  qed
  then show ?A "resized env lh lh'" by blast+
qed

lemma lh_delete_spec:
  assumes t: "tbl lh" and del: "lh_delete env lh d = (old, lh')"
  shows "tbl lh' \<and> old = lh_lookup lh d \<and>
    (\<forall>q. lh_lookup lh' q = (if cmp d q = 0 then None else lh_lookup lh q)) \<and>
    unat (num_items lh') = unat (num_items lh) - (if old = None then 0 else 1)" (is ?A) and "resized env lh lh'"
proof -
  have "?A \<and> resized env lh lh'"
  proof -
    define i where "i = bucket_of (num_buckets lh) (hash d)"
    define k where "k = next_link cmp d (buckets lh ! i)"
    note g = get_next_spec [OF t, of d, folded i_def, folded k_def]
    let ?c = "buckets lh ! i"
    have un: "unat (num_items lh) = length (lh_items lh)" using t by (simp add: lh_table_def lh_ok_def)
    show ?thesis
    proof (cases "k = length ?c")
      case True
      note m = g(3) [OF True]
      have "lh_lookup lh q = None" if "cmp d q = 0" for q
        using match_eq [OF t that] m lh_lookup_None by metis
      moreover have "old = None" "lh' = lh" using del unfolding lh_delete_def g(1) by (simp_all add: Let_def True)
      moreover have "lh_lookup lh d = None" by (simp add: lh_lookup_None m)
      ultimately show ?thesis using t by (simp add: resized_def)
    next
      case False
      note gk = g(4) [OF False]
      let ?c' = "take k ?c @ drop (k + 1) ?c"
      let ?lh = "lh\<lparr>buckets := (buckets lh)[i := ?c'], num_items := num_items lh - 1\<rparr>"
      have "size (lh_match lh d) \<le> length (lh_items lh)"
        by (simp add: lh_match_def flip: size_mset)
      then have pos: "0 < unat (num_items lh)" using gk un by (simp add: Suc_le_eq)
      then have n: "unat (num_items lh - 1) = unat (num_items lh) - 1" by (simp add: unat_sub_if' Suc_le_eq)
      have 1: "mset ?c' + {#?c ! k#} = mset ?c + {#}" using mset_drop_nth [of k ?c] gk by simp
      have 2: "set ?c' \<subseteq> set ?c \<union> set_mset {#}" by (auto dest: in_set_takeD in_set_dropD)
      have 3: "{#?c ! k#} = lh_match lh d" by (simp add: gk)
      have 4: "{#} = {#} \<or> {#} = {#LHASH_ITEM d (hash d)#}" by simp
      have 5: "unat (num_items lh - 1) + size {#?c ! k#} = unat (num_items lh) + size {#}" using n pos by simp
      note u = chain_update [OF t i_def 1 2 3 4 5]
      have "old = Some (item_data (?c ! k))" "lh' = lh_maybe_resize env ?lh"
        using del unfolding lh_delete_def g(1) by (simp_all add: Let_def False)
      moreover have "lh_lookup lh d = Some (item_data (?c ! k))" by (simp add: lh_lookup_Some gk)
      moreover have "resized env lh (lh_maybe_resize env ?lh)"
        unfolding resized_def by (rule disjI2, rule exI [of _ ?lh]) (use u(1) n in \<open>simp add: lh_table_def\<close>)
      ultimately show ?thesis using u n lh_maybe_resize_tbl [OF u(1), of env] by simp
    qed
  qed
  then show ?A "resized env lh lh'" by blast+
qed

end

section \<open>The load factor\<close>

lemma unat_shift_small:
  "unat n < 2 ^ 60 \<Longrightarrow> unat (n * 2 :: size_t) = unat n * 2"
  "unat n < 2 ^ 61 \<Longrightarrow> unat (8 * n :: size_t) = 8 * unat n"
  by (simp_all add: unat_word_ariths)

lemma lh_rebucket_num_buckets:
  assumes "unat n < 2 ^ 61" and "alloc_ok env (sizeof_item_ptr * n)"
  shows "num_buckets (lh_rebucket env lh n) = n"
proof -
  have "unat (8 * n div 8 :: size_t) = unat n"
    using unat_shift_small(2) [OF assms(1)] by (simp add: unat_div)
  then have "8 * n div 8 = n" by (simp only: word_unat_eq_iff)
  then show ?thesis using assms(2) by (simp add: lh_rebucket_def sizeof_item_ptr_def Let_def)
qed

lemma lh_maybe_resize_load:
  assumes ok: "lh_ok lh" and depth: "callback_depth lh = 0" and mem: "\<forall>n. alloc_ok env n"
    and n: "unat (num_items lh) \<le> 3 * unat (num_buckets lh)" and big: "unat (num_buckets lh) < 2 ^ 59"
  shows "unat (num_items lh) < 3 * unat (num_buckets (lh_maybe_resize env lh))"
proof -
  let ?n = "unat (num_items lh)" and ?b = "unat (num_buckets lh)"
  have b16: "16 \<le> ?b" using ok by (simp add: lh_ok_def kMinNumBuckets_def word_le_nat_alt)
  have avg: "unat (num_items lh div num_buckets lh) = ?n div ?b" by (simp add: unat_div)
  have dbl: "unat (num_buckets lh * 2) = ?b * 2" using unat_shift_small(1) big by simp
  consider "?n div ?b > 2" | "?n div ?b < 1" "?b > 16" | "?n div ?b \<le> 2" "\<not> (?n div ?b < 1 \<and> ?b > 16)"
    by linarith
  then show ?thesis
  proof cases
    case 1
    then have "lh_maybe_resize env lh = lh_rebucket env lh (num_buckets lh * 2)"
      using depth avg dbl b16
      by (simp add: lh_maybe_resize_def kMaxAverageChainLength_def word_less_nat_alt)
    then show ?thesis
      using lh_rebucket_num_buckets [of "num_buckets lh * 2" env lh] dbl big mem n b16 by simp
  next
    case 2
    let ?new = "if num_buckets lh div 2 < kMinNumBuckets then kMinNumBuckets else num_buckets lh div 2"
    have new: "unat ?new = max 16 (?b div 2)"
      by (auto simp: word_less_nat_alt kMinNumBuckets_def unat_div max_def)
    have "lh_maybe_resize env lh = lh_rebucket env lh ?new"
      using depth avg 2
      by (simp add: lh_maybe_resize_def kMaxAverageChainLength_def kMinAverageChainLength_def
          kMinNumBuckets_def word_less_nat_alt)
    moreover have "num_buckets (lh_rebucket env lh ?new) = ?new"
      using lh_rebucket_num_buckets [of ?new env lh] new big mem by simp
    moreover have "?n < ?b" using 2 b16 by (simp add: div_eq_0_iff)
    ultimately show ?thesis using new by (simp del: split_paired_All)
  next
    case 3
    then have "lh_maybe_resize env lh = lh"
      using depth avg
      by (auto simp: lh_maybe_resize_def kMaxAverageChainLength_def kMinAverageChainLength_def
          kMinNumBuckets_def word_less_nat_alt)
    moreover have "?n < 3 * ?b" using 3 b16 by (simp add: div_less_iff_less_mult le_less_Suc_eq less_Suc_eq_le [symmetric])
    ultimately show ?thesis by simp
  qed
qed

section \<open>Properties\<close>

text \<open>A key type of its own: numbers, equal modulo 100.\<close>

definition mod_hash :: "nat \<Rightarrow> u32" where "mod_hash x = of_nat (x mod 100)"

definition mod_cmp :: "nat \<Rightarrow> nat \<Rightarrow> int" where "mod_cmp x y = int (x mod 100) - int (y mod 100)"

interpretation mod_key: hash_key mod_hash mod_cmp
  by unfold_locales (auto simp: mod_cmp_def mod_hash_def)

text \<open>
  C12. For any hash compatible with the comparison and any allocator, the table is the map of
  its stored elements by key: retrieving finds the element equal to the key; inserting returns
  the element it replaces and then every key equal to the new element finds it and no other
  key is affected, or fails without any change exactly when there is no memory for a new item;
  deleting returns and removes the element equal to the key and nothing else. Resizing never
  loses or duplicates an element, and the invariants are kept.
\<close>

theorem lhash_refines_map:
  assumes "hash_key hash cmp" and "lh_table hash cmp lh" and "length (lh_items lh) < 2 ^ 64 - 1"
  shows "lh_retrieve lh d = lh_lookup lh d \<and>
    (case lh_insert env lh d of (ok, old, lh') \<Rightarrow>
       lh_table hash cmp lh' \<and> old = lh_lookup lh d \<and>
       (if ok then
          (\<forall>q. lh_lookup lh' q = (if cmp d q = 0 then Some d else lh_lookup lh q)) \<and>
          unat (num_items lh') = unat (num_items lh) + (if old = None then 1 else 0)
        else lh' = lh \<and> old = None \<and> \<not> alloc_ok env sizeof_item)) \<and>
    (case lh_delete env lh d of (old, lh') \<Rightarrow>
       lh_table hash cmp lh' \<and> old = lh_lookup lh d \<and>
       (\<forall>q. lh_lookup lh' q = (if cmp d q = 0 then None else lh_lookup lh q)) \<and>
       unat (num_items lh') = unat (num_items lh) - (if old = None then 0 else 1))"
proof (intro conjI)
  note hk = assms(1)
  show "lh_retrieve lh d = lh_lookup lh d" using hash_key.lh_retrieve_lookup [OF hk assms(2)] .
  obtain ok old lh' where i: "lh_insert env lh d = (ok, old, lh')" by (metis prod_cases3)
  show "case lh_insert env lh d of (ok, old, lh') \<Rightarrow>
       lh_table hash cmp lh' \<and> old = lh_lookup lh d \<and>
       (if ok then
          (\<forall>q. lh_lookup lh' q = (if cmp d q = 0 then Some d else lh_lookup lh q)) \<and>
          unat (num_items lh') = unat (num_items lh) + (if old = None then 1 else 0)
        else lh' = lh \<and> old = None \<and> \<not> alloc_ok env sizeof_item)"
    unfolding i prod.case by (rule hash_key.lh_insert_spec(1) [OF hk assms(2,3) i])
  obtain old lh' where d: "lh_delete env lh d = (old, lh')" by fastforce
  show "case lh_delete env lh d of (old, lh') \<Rightarrow>
       lh_table hash cmp lh' \<and> old = lh_lookup lh d \<and>
       (\<forall>q. lh_lookup lh' q = (if cmp d q = 0 then None else lh_lookup lh q)) \<and>
       unat (num_items lh') = unat (num_items lh) - (if old = None then 0 else 1)"
    unfolding d prod.case by (rule hash_key.lh_delete_spec(1) [OF hk assms(2) d])
qed

definition full_env :: heap_env where
  "full_env = \<lparr>alloc_ok = (\<lambda>_. True), fresh = (\<lambda>_. 0)\<rparr>"

lemma lh_new_table: "lh_new env hash cmp = Some lh \<Longrightarrow>
  lh_table hash cmp lh \<and> lh_items lh = [] \<and> callback_depth lh = 0 \<and> num_buckets lh = 16 \<and> num_items lh = 0"
proof -
  have e: "concat (replicate k []) = ([] :: 'b list)" for k by (induction k) auto
  assume "lh_new env hash cmp = Some lh"
  then have lh: "lh = \<lparr>num_items = 0, buckets = replicate 16 [], num_buckets = 16,
                 callback_depth = 0, lh_comp = cmp, lh_hash = hash\<rparr>"
    by (auto simp: lh_new_def kMinNumBuckets_def split: if_splits)
  show ?thesis unfolding lh
    by (simp add: lh_table_def lh_ok_def placed_def lh_match_def lh_items_def kMinNumBuckets_def e)
qed

definition empty_table :: "nat lhash_st" where
  "empty_table = the (lh_new full_env mod_hash mod_cmp)"

lemma empty_table: "lh_table mod_hash mod_cmp empty_table \<and> lh_items empty_table = [] \<and>
   callback_depth empty_table = 0 \<and> num_buckets empty_table = 16 \<and> num_items empty_table = 0"
  by (rule lh_new_table [of full_env]) (simp add: empty_table_def lh_new_def full_env_def)

theorem lhash_refines_map_witness:
  "case lh_insert full_env empty_table 7 of (ok, old, lh') \<Rightarrow> ok \<and> old = None \<and> lh_lookup lh' 107 = Some 7"
proof -
  note e = empty_table
  have "case lh_insert full_env empty_table 7 of (ok, old, lh') \<Rightarrow>
       lh_table mod_hash mod_cmp lh' \<and> old = lh_lookup empty_table 7 \<and>
       (if ok then
          (\<forall>q. lh_lookup lh' q = (if mod_cmp 7 q = 0 then Some 7 else lh_lookup empty_table q)) \<and>
          unat (num_items lh') = unat (num_items empty_table) + (if old = None then 1 else 0)
        else lh' = empty_table \<and> old = None \<and> \<not> alloc_ok full_env sizeof_item)"
    using lhash_refines_map [OF mod_key.hash_key_axioms, of empty_table 7 full_env] e by simp
  moreover have "lh_lookup empty_table 7 = None" using e by (simp add: lh_lookup_def)
  moreover have "mod_cmp 7 107 = 0" by (simp add: mod_cmp_def)
  ultimately show ?thesis by (auto simp: full_env_def split: prod.splits if_splits)
qed

lemma resized_load:
  assumes r: "resized env lh lh'" and n: "unat (num_items lh) < 3 * unat (num_buckets lh)"
    and depth: "callback_depth lh = 0" and mem: "\<forall>n. alloc_ok env n" and big: "unat (num_buckets lh) < 2 ^ 59"
  shows "unat (num_items lh') < 3 * unat (num_buckets lh') \<and> callback_depth lh' = 0"
  using r unfolding resized_def
proof (elim disjE exE conjE)
  fix lh2
  assume a: "lh_ok lh2" "num_buckets lh2 = num_buckets lh" "callback_depth lh2 = callback_depth lh"
    "unat (num_items lh2) \<le> unat (num_items lh) + 1" "lh' = lh_maybe_resize env lh2"
  then have "unat (num_items lh2) < 3 * unat (num_buckets lh')"
    using lh_maybe_resize_load [of lh2 env] n depth mem big by simp
  then show ?thesis using lh_maybe_resize_spec [OF a(1), of env] a depth by simp
qed (use n depth in simp)

text \<open>
  C13. While memory lasts the chains stay short: after every insertion or deletion outside an
  iteration there are fewer than three items per bucket on average, if there were before.
\<close>

theorem lhash_load_bounded:
  assumes "hash_key hash cmp" and "lh_table hash cmp lh" and "callback_depth lh = 0"
    and "\<forall>n. alloc_ok env n" and "unat (num_buckets lh) < 2 ^ 59"
    and "unat (num_items lh) < 3 * unat (num_buckets lh)"
  shows "(case lh_insert env lh d of (ok, old, lh') \<Rightarrow>
      unat (num_items lh') < 3 * unat (num_buckets lh') \<and> callback_depth lh' = 0) \<and>
    (case lh_delete env lh d of (old, lh') \<Rightarrow>
      unat (num_items lh') < 3 * unat (num_buckets lh') \<and> callback_depth lh' = 0)"
proof (intro conjI)
  have "length (lh_items lh) < 2 ^ 64 - 1" using assms(2,5,6) by (simp add: lh_table_def lh_ok_def)
  note ins = hash_key.lh_insert_spec(2) [OF assms(1,2) this]
  show "case lh_insert env lh d of (ok, old, lh') \<Rightarrow>
      unat (num_items lh') < 3 * unat (num_buckets lh') \<and> callback_depth lh' = 0"
    using resized_load [OF ins assms(6,3,4,5)] by (auto split: prod.splits)
  show "case lh_delete env lh d of (old, lh') \<Rightarrow>
      unat (num_items lh') < 3 * unat (num_buckets lh') \<and> callback_depth lh' = 0"
    using resized_load [OF hash_key.lh_delete_spec(2) [OF assms(1,2)] assms(6,3,4,5)]
    by (auto split: prod.splits)
qed

theorem lhash_load_bounded_witness:
  "case lh_insert full_env empty_table 7 of (ok, old, lh') \<Rightarrow>
     unat (num_items lh') < 3 * unat (num_buckets lh') \<and> callback_depth lh' = 0"
  using lhash_load_bounded [OF mod_key.hash_key_axioms, of empty_table full_env 7] empty_table
  by (simp add: full_env_def)

end
