(* ===== verification/Mem.thy ===== *)
theory Mem
  imports Cbs "HOL-Library.Monad_Syntax"
begin

text \<open>
  The byte and string helpers of \<open>BoringSSL/crypto/mem.c\<close>, the growable buffers and
  strings of \<open>BoringSSL/crypto/buf/buf.c\<close>, and the functions of
  \<open>bytestring/cbs.c\<close> that use them. A \<open>const char *\<close> is the list of bytes from the
  pointer to the end of its array, with a NUL somewhere in it; what lies past the array is never
  read by the code and is not modelled. A byte string that an allocating function returns has
  the length that was asked of \<open>OPENSSL_malloc\<close>.

  \<open>OPENSSL_malloc\<close> adds the size of its header to the size it is asked for, in 64 bits and
  without a check. A run in which the sum wraps around and \<open>malloc\<close> succeeds has no defined
  result: the block is shorter than the header that is written to it. It is \<open>None\<close> here and in every
  function that allocates, and the results proper are under \<open>Some\<close>.
\<close>

section \<open>Definitions\<close>

subsection \<open>mem.c\<close>

text \<open>
  The three block functions; a block is the list of its bytes, without the header. The argument of \<open>alloc_ok\<close> is
  the size before the header is added.
\<close>

definition OPENSSL_MALLOC_PREFIX :: size_t where
  "OPENSSL_MALLOC_PREFIX = 8"

definition OPENSSL_malloc :: "heap_env \<Rightarrow> size_t \<Rightarrow> bytes option option" where
  "OPENSSL_malloc env sz =
     (if \<not> alloc_ok env sz then Some None
      else if sz + OPENSSL_MALLOC_PREFIX < OPENSSL_MALLOC_PREFIX then None
      else Some (Some (map (fresh env) [0..<unat sz])))"

definition OPENSSL_realloc :: "heap_env \<Rightarrow> bytes option \<Rightarrow> size_t \<Rightarrow> bytes option option" where
  "OPENSSL_realloc env orig_ptr new_size =
     (case orig_ptr of
        None \<Rightarrow> OPENSSL_malloc env new_size
      | Some old \<Rightarrow>
          do {
            ret \<leftarrow> OPENSSL_malloc env new_size;
            (case ret of
               None \<Rightarrow> Some None
             | Some ret \<Rightarrow>
                 let to_copy = (if length old < unat new_size then length old else unat new_size)
                 in Some (Some (poke ret 0 (take to_copy old))))
          })"

definition OPENSSL_cleanse :: "bytes \<Rightarrow> bytes" where
  "OPENSSL_cleanse ptr = replicate (length ptr) 0"

fun memcmp_loop :: "u8 \<Rightarrow> bytes \<Rightarrow> bytes \<Rightarrow> u8" where
  "memcmp_loop x (a # as) (b # bs) = memcmp_loop (x OR (a XOR b)) as bs"
| "memcmp_loop x as bs = x"

definition CRYPTO_memcmp :: "bytes \<Rightarrow> bytes \<Rightarrow> nat \<Rightarrow> int" where
  "CRYPTO_memcmp a b len = uint (memcmp_loop 0 (take len a) (take len b))"

definition OPENSSL_hash32 :: "bytes \<Rightarrow> u32" where
  "OPENSSL_hash32 ptr = foldl (\<lambda>h b. (h XOR ucast b) * 16777619) 2166136261 ptr"

fun OPENSSL_strnlen :: "bytes \<Rightarrow> nat \<Rightarrow> nat" where
  "OPENSSL_strnlen s 0 = 0"
| "OPENSSL_strnlen [] (Suc n) = 0"
| "OPENSSL_strnlen (c # s) (Suc n) = (if c = 0 then 0 else Suc (OPENSSL_strnlen s n))"

text \<open>\<open>strlen\<close> and the string at a pointer.\<close>

definition c_str :: "bytes \<Rightarrow> bytes" where
  "c_str s = takeWhile (\<lambda>c. c \<noteq> 0) s"

definition strlen :: "bytes \<Rightarrow> nat" where
  "strlen s = length (c_str s)"

definition OPENSSL_strdup :: "heap_env \<Rightarrow> bytes \<Rightarrow> bytes option option" where
  "OPENSSL_strdup env s =
     (let len = of_nat (strlen s) + 1 :: size_t in
      do {
        ret \<leftarrow> OPENSSL_malloc env len;
        Some (map_option (\<lambda>ret. poke ret 0 (take (unat len) s)) ret)
      })"

text \<open>\<open>char\<close> is signed on the target.\<close>

definition OPENSSL_tolower :: "int \<Rightarrow> int" where
  "OPENSSL_tolower c = (if c \<ge> 65 \<and> c \<le> 90 then c + (97 - 65) else c)"

fun OPENSSL_strcasecmp :: "bytes \<Rightarrow> bytes \<Rightarrow> int" where
  "OPENSSL_strcasecmp (a # as) (b # bs) =
     (let aa = OPENSSL_tolower (sint a); bb = OPENSSL_tolower (sint b) in
      if aa < bb then - 1 else if aa > bb then 1 else if aa = 0 then 0
      else OPENSSL_strcasecmp as bs)"
| "OPENSSL_strcasecmp as bs = 0"

fun OPENSSL_strncasecmp :: "bytes \<Rightarrow> bytes \<Rightarrow> nat \<Rightarrow> int" where
  "OPENSSL_strncasecmp (a # as) (b # bs) (Suc n) =
     (let aa = OPENSSL_tolower (sint a); bb = OPENSSL_tolower (sint b) in
      if aa < bb then - 1 else if aa > bb then 1 else if aa = 0 then 0
      else OPENSSL_strncasecmp as bs n)"
| "OPENSSL_strncasecmp as bs n = 0"

subsection \<open>buf.c\<close>

text \<open>\<open>buf_data\<close> is \<open>NULL\<close> until the first allocation.\<close>

record BUF_MEM =
  buf_length :: size_t
  buf_data :: "bytes option"
  buf_max :: size_t

definition BUF_MEM_new :: "heap_env \<Rightarrow> BUF_MEM option" where
  "BUF_MEM_new env =
     (if alloc_ok env 24 then Some \<lparr>buf_length = 0, buf_data = None, buf_max = 0\<rparr> else None)"

definition BUF_MEM_reserve :: "heap_env \<Rightarrow> BUF_MEM \<Rightarrow> size_t \<Rightarrow> (bool \<times> BUF_MEM) option" where
  "BUF_MEM_reserve env buf cap =
     (if buf_max buf \<ge> cap then Some (True, buf)
      else
        let n = cap + 3 in
        if n < cap then Some (False, buf)
        else
          let n = n div 3; alloc_size = n * 4 in
          if alloc_size div 4 \<noteq> n then Some (False, buf)
          else
            do {
              new_buf \<leftarrow> OPENSSL_realloc env (buf_data buf) alloc_size;
              (case new_buf of
                 None \<Rightarrow> Some (False, buf)
               | Some new_buf \<Rightarrow> Some (True, buf\<lparr>buf_data := Some new_buf, buf_max := alloc_size\<rparr>))
            })"

text \<open>The bytes of the buffer; a \<open>NULL\<close> buffer has none.\<close>

definition buf_bytes :: "BUF_MEM \<Rightarrow> bytes" where
  "buf_bytes buf = (case buf_data buf of None \<Rightarrow> [] | Some d \<Rightarrow> d)"

definition BUF_MEM_grow :: "heap_env \<Rightarrow> BUF_MEM \<Rightarrow> size_t \<Rightarrow> (size_t \<times> BUF_MEM) option" where
  "BUF_MEM_grow env buf len =
     do {
       (ok, buf) \<leftarrow> BUF_MEM_reserve env buf len;
       if \<not> ok then Some (0, buf)
       else
         let buf = (if buf_length buf < len
                    then buf\<lparr>buf_data := Some (poke (buf_bytes buf) (unat (buf_length buf))
                                (replicate (unat (len - buf_length buf)) 0))\<rparr>
                    else buf)
         in Some (len, buf\<lparr>buf_length := len\<rparr>)
     }"

definition BUF_MEM_grow_clean :: "heap_env \<Rightarrow> BUF_MEM \<Rightarrow> size_t \<Rightarrow> (size_t \<times> BUF_MEM) option" where
  "BUF_MEM_grow_clean env buf len = BUF_MEM_grow env buf len"

definition BUF_MEM_append :: "heap_env \<Rightarrow> BUF_MEM \<Rightarrow> bytes \<Rightarrow> (bool \<times> BUF_MEM) option" where
  "BUF_MEM_append env buf inp =
     (let len = of_nat (length inp); new_len = buf_length buf + len in
      if new_len < len then Some (False, buf)
      else
        do {
          (ok, buf) \<leftarrow> BUF_MEM_reserve env buf new_len;
          if \<not> ok then Some (False, buf)
          else
            Some (True, buf\<lparr>buf_data := (if inp = [] then buf_data buf
                                        else Some (poke (buf_bytes buf) (unat (buf_length buf)) inp)),
                          buf_length := new_len\<rparr>)
        })"

fun BUF_strnlen :: "bytes \<Rightarrow> nat \<Rightarrow> nat" where
  "BUF_strnlen s 0 = 0"
| "BUF_strnlen [] (Suc n) = 0"
| "BUF_strnlen (c # s) (Suc n) = (if c = 0 then 0 else Suc (BUF_strnlen s n))"

definition BUF_strndup :: "heap_env \<Rightarrow> bytes option \<Rightarrow> size_t \<Rightarrow> bytes option option" where
  "BUF_strndup env str sz =
     (case str of
        None \<Rightarrow> Some None
      | Some str \<Rightarrow>
          let sz = of_nat (BUF_strnlen str (unat sz)) :: size_t;
              alloc_size = sz + 1
          in if alloc_size < sz then Some None
             else
               do {
                 ret \<leftarrow> OPENSSL_malloc env alloc_size;
                 Some (map_option (\<lambda>ret. (poke ret 0 (take (unat sz) str))[unat sz := 0]) ret)
               })"

definition BUF_strdup :: "heap_env \<Rightarrow> bytes option \<Rightarrow> bytes option option" where
  "BUF_strdup env str =
     (case str of None \<Rightarrow> Some None | Some s \<Rightarrow> BUF_strndup env (Some s) (of_nat (strlen s)))"

text \<open>
  \<open>BUF_strlcpy\<close>: the loop counts \<open>dst_size\<close> down while it copies; the result is the
  number of bytes copied and what is left of the source and of \<open>dst_size\<close>.
\<close>

fun strlcpy_loop :: "bytes \<Rightarrow> nat \<Rightarrow> nat \<times> bytes \<times> nat" where
  "strlcpy_loop (c # src) dst_size =
     (if dst_size > 1 \<and> c \<noteq> 0 then
        case strlcpy_loop src (dst_size - 1) of (l, rest, n) \<Rightarrow> (l + 1, rest, n)
      else (0, c # src, dst_size))"
| "strlcpy_loop [] dst_size = (0, [], dst_size)"

definition BUF_strlcpy :: "bytes \<Rightarrow> bytes \<Rightarrow> nat \<Rightarrow> nat \<times> bytes" where
  "BUF_strlcpy dst src dst_size =
     (case strlcpy_loop src dst_size of (l, rest, n) \<Rightarrow>
        (l + strlen rest,
         if n \<noteq> 0 then poke dst 0 (take l src @ [0]) else poke dst 0 (take l src)))"

text \<open>The skipping loop of \<open>BUF_strlcat\<close>: how many bytes it passes.\<close>

fun strlcat_skip :: "bytes \<Rightarrow> nat \<Rightarrow> nat" where
  "strlcat_skip (c # dst) (Suc n) = (if c \<noteq> 0 then strlcat_skip dst n + 1 else 0)"
| "strlcat_skip dst n = 0"

definition BUF_strlcat :: "bytes \<Rightarrow> bytes \<Rightarrow> nat \<Rightarrow> nat \<times> bytes" where
  "BUF_strlcat dst src dst_size =
     (let l = strlcat_skip dst dst_size in
      case BUF_strlcpy (drop l dst) src (dst_size - l) of (r, d) \<Rightarrow> (l + r, take l dst @ d))"

definition BUF_memdup :: "heap_env \<Rightarrow> bytes \<Rightarrow> bytes option option" where
  "BUF_memdup env d =
     (if length d = 0 then Some None
      else
        do {
          ret \<leftarrow> OPENSSL_malloc env (of_nat (length d));
          Some (map_option (\<lambda>ret. poke ret 0 d) ret)
        })"

subsection \<open>The allocating functions of cbs.c\<close>

text \<open>
  The results are the return value and \<open>*out_ptr\<close>, whose old block the functions free;
  \<open>*out_len\<close> of \<open>CBS_stow\<close> is the length of the new block, 0 for \<open>NULL\<close>.
\<close>

definition CBS_stow :: "heap_env \<Rightarrow> cbs \<Rightarrow> (bool \<times> bytes option) option" where
  "CBS_stow env cbs =
     (if CBS_len cbs = 0 then Some (True, None)
      else map_option (\<lambda>p. (p \<noteq> None, p)) (BUF_memdup env cbs))"

definition CBS_strdup :: "heap_env \<Rightarrow> cbs \<Rightarrow> (bool \<times> bytes option) option" where
  "CBS_strdup env cbs = map_option (\<lambda>out_ptr. (out_ptr \<noteq> None, out_ptr)) (BUF_strndup env (Some cbs) (CBS_len cbs))"

definition CBS_mem_equal :: "cbs \<Rightarrow> bytes \<Rightarrow> size_t \<Rightarrow> bool" where
  "CBS_mem_equal cbs d len =
     (if len \<noteq> CBS_len cbs then False else CRYPTO_memcmp cbs d (unat len) = 0)"

section \<open>Comparison and hashing\<close>

lemma or_eq_0_word: "(x :: 'a::len word) OR y = 0 \<longleftrightarrow> x = 0 \<and> y = 0"
  by (auto simp: bit_eq_iff bit_or_iff)

lemma xor_eq_0_word: "(x :: 'a::len word) XOR y = 0 \<longleftrightarrow> x = y"
  by (auto simp: bit_eq_iff bit_xor_iff)

lemma memcmp_loop_0:
  "length as = length bs \<Longrightarrow> memcmp_loop x as bs = 0 \<longleftrightarrow> x = 0 \<and> as = bs"
  by (induction x as bs rule: memcmp_loop.induct) (auto simp: or_eq_0_word xor_eq_0_word)

lemma CRYPTO_memcmp_0:
  assumes "n \<le> length a" "n \<le> length b"
  shows "CRYPTO_memcmp a b n = 0 \<longleftrightarrow> take n a = take n b"
  using assms by (simp add: CRYPTO_memcmp_def memcmp_loop_0 uint_0_iff)

section \<open>Strings\<close>

lemma strlen_le: "strlen s \<le> length s"
  by (simp add: strlen_def c_str_def length_takeWhile_le)

lemma BUF_strnlen_eq: "BUF_strnlen s n = min n (strlen s)"
  by (induction s n rule: BUF_strnlen.induct) (auto simp: strlen_def c_str_def)

lemma OPENSSL_strnlen_eq: "OPENSSL_strnlen s n = min n (strlen s)"
  by (induction s n rule: OPENSSL_strnlen.induct) (auto simp: strlen_def c_str_def)

lemma c_str_take: "take (strlen s) s = c_str s"
  by (simp add: strlen_def c_str_def takeWhile_eq_take [symmetric])

lemma length_OPENSSL_malloc: "OPENSSL_malloc env n = Some (Some p) \<Longrightarrow> length p = unat n"
  by (auto simp: OPENSSL_malloc_def split: if_splits)

lemma OPENSSL_malloc_undefined: "OPENSSL_malloc env n = None \<longleftrightarrow> alloc_ok env n \<and> 2 ^ 64 - 8 \<le> unat n"
proof -
  have "n + 8 < 8 \<longleftrightarrow> 2 ^ 64 - 8 \<le> unat n"
    using unat_bound [of n] by (auto simp: word_less_nat_alt unat_word_ariths mod_if)
  then show ?thesis by (simp add: OPENSSL_malloc_def OPENSSL_MALLOC_PREFIX_def)
qed

text \<open>Copies of data that are shorter than that are defined.\<close>

lemma BUF_memdup_defined: "length d < 2 ^ 64 - 8 \<Longrightarrow> BUF_memdup env d \<noteq> None"
  using OPENSSL_malloc_undefined [of env "of_nat (length d)"] by (auto simp: BUF_memdup_def unat_of_nat_64)

lemma BUF_strndup_spec:
  assumes "BUF_strndup env (Some s) n = Some (Some p)"
  shows "p = take (unat n) (c_str s) @ [0]"
proof -
  let ?k = "BUF_strnlen s (unat n)"
  have k: "?k \<le> unat n" "?k \<le> length s" using strlen_le [of s] by (auto simp: BUF_strnlen_eq)
  then have u: "unat (of_nat ?k :: size_t) = ?k"
    using unat_bound [of n] by (simp add: unat_of_nat_64)
  from assms obtain ret where r: "OPENSSL_malloc env (of_nat ?k + 1) = Some (Some ret)"
    "\<not> of_nat ?k + 1 < (of_nat ?k :: size_t)" "p = (poke ret 0 (take ?k s))[?k := 0]"
    by (auto simp: BUF_strndup_def Let_def u bind_eq_Some_conv split: if_splits option.splits)
  have "unat (of_nat ?k + 1 :: size_t) = ?k + 1"
    using unat_Suc_no_wrap [OF r(2)] u by simp
  then have "length ret = ?k + 1" using length_OPENSSL_malloc [OF r(1)] by simp
  then have "length (drop ?k ret) = 1" by simp
  then obtain z where "drop ?k ret = [z]" by (metis One_nat_def length_0_conv length_Suc_conv)
  then have "p = take ?k s @ [0]" using r(3) k by (simp add: poke_def list_update_append)
  moreover have "take ?k s = take (unat n) (c_str s)"
    by (simp add: BUF_strnlen_eq c_str_take [symmetric])
  ultimately show ?thesis by simp
qed

lemma strlcpy_loop_spec:
  "0 \<in> set src \<Longrightarrow> strlcpy_loop src n = (min (n - 1) (strlen src), drop (min (n - 1) (strlen src)) src,
     n - min (n - 1) (strlen src))"
proof (induction src n rule: strlcpy_loop.induct)
  case (1 c src n)
  show ?case
  proof (cases "n > 1 \<and> c \<noteq> 0")
    case True
    then have "0 \<in> set src" using 1(2) by auto
    moreover obtain m where "n = Suc (Suc m)" using True by (metis less_natE add_Suc One_nat_def plus_1_eq_Suc)
    ultimately show ?thesis using 1(1) True by (auto simp: strlen_def c_str_def)
  next
    case False
    then show ?thesis by (auto simp: strlen_def c_str_def)
  qed
qed simp

lemma strlen_drop: "k \<le> strlen s \<Longrightarrow> strlen (drop k s) = strlen s - k"
proof (induction s arbitrary: k)
  case (Cons c s)
  then show ?case by (cases k) (auto simp: strlen_def c_str_def split: if_splits)
qed (simp add: strlen_def c_str_def)

lemma BUF_strlcpy_spec:
  assumes "0 \<in> set src" "n \<le> length dst"
  shows "BUF_strlcpy dst src n =
    (strlen src, if n = 0 then dst else poke dst 0 (take (n - 1) (c_str src) @ [0]))"
proof -
  let ?l = "min (n - 1) (strlen src)"
  have "strlen (drop ?l src) = strlen src - ?l" by (rule strlen_drop) simp
  moreover have "take ?l src = take (n - 1) (c_str src)"
    by (simp add: c_str_take [symmetric])
  ultimately show ?thesis
    using strlcpy_loop_spec [OF assms(1), of n] by (auto simp: BUF_strlcpy_def)
qed

lemma strlcat_skip_eq: "strlcat_skip dst n = min n (strlen dst)"
  by (induction dst n rule: strlcat_skip.induct) (auto simp: strlen_def c_str_def)

section \<open>Growable buffers\<close>

definition buf_ok :: "BUF_MEM \<Rightarrow> bool" where
  "buf_ok buf \<longleftrightarrow> length (buf_bytes buf) = unat (buf_max buf) \<and> buf_length buf \<le> buf_max buf"

text \<open>The contents that count.\<close>

definition buf_contents :: "BUF_MEM \<Rightarrow> bytes" where
  "buf_contents buf = take (unat (buf_length buf)) (buf_bytes buf)"

lemma OPENSSL_realloc_prefix:
  assumes "OPENSSL_realloc env p n = Some (Some q)" "length (case p of None \<Rightarrow> [] | Some d \<Rightarrow> d) \<le> unat n"
  shows "length q = unat n" "take (length (case p of None \<Rightarrow> [] | Some d \<Rightarrow> d)) q = (case p of None \<Rightarrow> [] | Some d \<Rightarrow> d)"
proof -
  obtain ret where r: "OPENSSL_malloc env n = Some (Some ret)"
    "q = poke ret 0 (case p of None \<Rightarrow> [] | Some d \<Rightarrow> d)"
    using assms by (auto simp: OPENSSL_realloc_def Let_def bind_eq_Some_conv split: option.splits if_splits)
  note l = length_OPENSSL_malloc [OF r(1)]
  show "length q = unat n" "take (length (case p of None \<Rightarrow> [] | Some d \<Rightarrow> d)) q = (case p of None \<Rightarrow> [] | Some d \<Rightarrow> d)"
    using r(2) l assms(2) take_poke_end [of 0 "case p of None \<Rightarrow> [] | Some d \<Rightarrow> d" ret] by simp_all
qed

lemma OPENSSL_realloc_undefined: "OPENSSL_realloc env p n = None \<longleftrightarrow> alloc_ok env n \<and> 2 ^ 64 - 8 \<le> unat n"
  using OPENSSL_malloc_undefined [of env n]
  by (cases p; cases "OPENSSL_malloc env n") (auto simp: OPENSSL_realloc_def Let_def split: option.splits)

text \<open>
  The capacity that \<open>BUF_MEM_reserve\<close> asks for, when its two checks pass, and the capacities for which it
  is undefined: the size of the block is then within 8 of $2^{64}$.
\<close>

lemma reserve_size:
  assumes "\<not> cap + 3 < (cap :: size_t)" "(cap + 3) div 3 * 4 div 4 = (cap + 3) div 3"
  shows "unat ((cap + 3) div 3 * 4) = (unat cap + 3) div 3 * 4"
proof -
  let ?n = "(cap + 3) div 3" and ?m = "unat cap"
  have c3: "unat (cap + 3) = ?m + 3"
  proof (cases "?m + 3 < 2 ^ 64")
    case False
    then have "unat (cap + 3) < ?m"
      using unat_bound [of cap] by (simp add: unat_word_ariths mod_if)
    then show ?thesis using assms(1) by (simp add: word_less_nat_alt)
  qed (simp add: unat_word_ariths)
  then have n: "unat ?n = (?m + 3) div 3" by (simp add: unat_div)
  have n4: "unat (?n * 4) = unat ?n * 4"
  proof -
    have d4: "unat (?n * 4) div 4 = unat ?n" using arg_cong [OF assms(2), of unat] by (simp add: unat_div)
    have "unat (?n * 4) = unat ?n * 4 mod 2 ^ 64" by (simp add: unat_word_ariths)
    moreover have "unat ?n * 4 mod 2 ^ 64 div 4 < unat ?n" if "2 ^ 64 \<le> unat ?n * 4"
    proof -
      have "unat ?n * 4 mod 2 ^ 64 \<le> unat ?n * 4 - 2 ^ 64" using that by (metis mod_less_eq_dividend mod_if not_less)
      then have "unat ?n * 4 mod 2 ^ 64 < unat ?n * 4" using that by simp
      then show ?thesis by (simp add: div_less_iff_less_mult)
    qed
    ultimately show ?thesis using d4 by (cases "2 ^ 64 \<le> unat ?n * 4") simp_all
  qed
  then show ?thesis using n by simp
qed

definition short_block :: "heap_env \<Rightarrow> BUF_MEM \<Rightarrow> nat \<Rightarrow> bool" where
  "short_block env buf cap \<longleftrightarrow> unat (buf_max buf) < cap \<and> 3 * 2 ^ 62 - 9 \<le> cap \<and> cap \<le> 3 * 2 ^ 62 - 4 \<and>
     alloc_ok env (of_nat ((cap + 3) div 3 * 4))"

lemma BUF_MEM_reserve_undefined: "BUF_MEM_reserve env buf cap = None \<longleftrightarrow> short_block env buf (unat cap)"
proof -
  let ?n = "(cap + 3) div 3" and ?m = "unat cap"
  have max: "buf_max buf \<ge> cap \<longleftrightarrow> \<not> unat (buf_max buf) < ?m" by (simp add: word_le_nat_alt not_less)
  show ?thesis
  proof (cases "\<not> cap + 3 < cap \<and> ?n * 4 div 4 = ?n")
    case True
    then have sz: "unat (?n * 4) = (?m + 3) div 3 * 4" using reserve_size by blast
    then have of: "of_nat ((?m + 3) div 3 * 4) = ?n * 4" unfolding sz [symmetric] by simp
    have "2 ^ 64 - 8 \<le> unat (?n * 4) \<longleftrightarrow> 3 * 2 ^ 62 - 9 \<le> ?m \<and> ?m \<le> 3 * 2 ^ 62 - 4"
      using unat_bound [of "?n * 4"] unfolding sz by (simp add: less_eq_div_iff_mult_less_eq) linarith
    moreover have "BUF_MEM_reserve env buf cap = None \<longleftrightarrow> unat (buf_max buf) < ?m \<and> OPENSSL_realloc env (buf_data buf) (?n * 4) = None"
      using True by (auto simp: BUF_MEM_reserve_def max Let_def bind_eq_None_conv split: option.splits)
    ultimately show ?thesis unfolding short_block_def of OPENSSL_realloc_undefined by blast
  next
    case False
    have "\<not> (?m \<le> 3 * 2 ^ 62 - 4)"
    proof
      assume m: "?m \<le> 3 * 2 ^ 62 - 4"
      then have c: "unat (cap + 3) = ?m + 3" by (simp add: unat_word_ariths)
      then have n: "unat ?n = (?m + 3) div 3" by (simp add: unat_div)
      then have "unat ?n < 2 ^ 62" using m by simp
      then have "unat (?n * 4) = unat ?n * 4" by (simp add: unat_word_ariths)
      then have "unat (?n * 4 div 4) = unat ?n" by (simp add: unat_div)
      then show False using False c by (simp add: word_less_nat_alt word_unat_eq_iff)
    qed
    then show ?thesis using False by (auto simp: BUF_MEM_reserve_def short_block_def Let_def)
  qed
qed

lemma BUF_MEM_reserve_spec:
  assumes ok: "buf_ok buf" and r: "BUF_MEM_reserve env buf cap = Some (True, buf')"
  shows "buf_ok buf' \<and> buf_contents buf' = buf_contents buf \<and> cap \<le> buf_max buf' \<and>
    buf_length buf' = buf_length buf"
proof (cases "buf_max buf \<ge> cap")
  case True
  then show ?thesis using r ok by (simp add: BUF_MEM_reserve_def)
next
  case False
  let ?n = "(cap + 3) div 3" and ?m = "unat cap"
  have r': "\<not> cap + 3 < cap" "?n * 4 div 4 = ?n"
    using r False by (auto simp: BUF_MEM_reserve_def Let_def split: if_splits option.splits)
  from r False r' obtain d where d: "OPENSSL_realloc env (buf_data buf) (?n * 4) = Some (Some d)"
    "buf' = buf\<lparr>buf_data := Some d, buf_max := ?n * 4\<rparr>"
    by (auto simp: BUF_MEM_reserve_def Let_def bind_eq_Some_conv split: if_splits option.splits)
  have ge: "?m \<le> unat (?n * 4)" using reserve_size [OF r'] by linarith
  then have l: "length (case buf_data buf of None \<Rightarrow> [] | Some d \<Rightarrow> d) \<le> unat (?n * 4)"
    using ok False by (simp add: buf_ok_def buf_bytes_def word_le_nat_alt)
  note p = OPENSSL_realloc_prefix [OF d(1) l, folded buf_bytes_def]
  have "buf_length buf \<le> ?n * 4" "cap \<le> ?n * 4"
    using ok False ge by (auto simp: buf_ok_def word_le_nat_alt)
  moreover have "take (unat (buf_length buf)) d = buf_contents buf"
  proof -
    have "unat (buf_length buf) \<le> length (buf_bytes buf)" using ok by (simp add: buf_ok_def word_le_nat_alt)
    then show ?thesis using arg_cong [OF p(2), of "take (unat (buf_length buf))"] by (simp add: buf_contents_def)
  qed
  ultimately show ?thesis using d(2) p(1) by (simp add: buf_ok_def buf_contents_def buf_bytes_def)
qed

lemma BUF_MEM_reserve_fail: "BUF_MEM_reserve env buf cap = Some (False, buf') \<Longrightarrow> buf' = buf"
  by (auto simp: BUF_MEM_reserve_def Let_def bind_eq_Some_conv split: if_splits option.splits)

lemma length_buf_contents: "buf_ok buf \<Longrightarrow> length (buf_contents buf) = unat (buf_length buf)"
  by (simp add: buf_ok_def buf_contents_def word_le_nat_alt)

lemma poke_bytes_contents:
  assumes ok: "buf_ok b" and n: "unat n = unat (buf_length b) + length xs" "n \<le> buf_max b"
  shows "buf_ok (b\<lparr>buf_data := Some (poke (buf_bytes b) (unat (buf_length b)) xs), buf_length := n\<rparr>)"
    "buf_contents (b\<lparr>buf_data := Some (poke (buf_bytes b) (unat (buf_length b)) xs), buf_length := n\<rparr>) =
      buf_contents b @ xs"
proof -
  have le: "unat (buf_length b) + length xs \<le> length (buf_bytes b)"
    using ok n by (simp add: buf_ok_def word_le_nat_alt)
  show "buf_contents (b\<lparr>buf_data := Some (poke (buf_bytes b) (unat (buf_length b)) xs), buf_length := n\<rparr>) =
      buf_contents b @ xs"
    using take_poke_end [OF le] n(1) by (simp add: buf_contents_def buf_bytes_def)
  show "buf_ok (b\<lparr>buf_data := Some (poke (buf_bytes b) (unat (buf_length b)) xs), buf_length := n\<rparr>)"
    using ok n le length_poke [OF le] by (simp add: buf_ok_def buf_bytes_def)
qed

lemma BUF_MEM_append_spec:
  assumes ok: "buf_ok buf" and len: "length inp < 2 ^ 64" and a: "BUF_MEM_append env buf inp = Some (r, buf')"
  shows "buf_ok buf' \<and> buf_contents buf' = (if r then buf_contents buf @ inp else buf_contents buf)"
proof -
  let ?n = "buf_length buf + of_nat (length inp)"
  have ul: "unat (of_nat (length inp) :: size_t) = length inp" using len by (simp add: unat_of_nat_64)
  show ?thesis
  proof (cases "?n < of_nat (length inp) \<or> (\<exists>b. BUF_MEM_reserve env buf ?n = Some (False, b))")
    case True
    then have "r = False" "buf' = buf"
      using a BUF_MEM_reserve_fail [of env buf ?n] by (auto simp: BUF_MEM_append_def Let_def split: if_splits)
    then show ?thesis using ok by simp
  next
    case False
    then obtain q buf1 where res: "BUF_MEM_reserve env buf ?n = Some (q, buf1)"
      using a by (auto simp: BUF_MEM_append_def Let_def bind_eq_Some_conv split: if_splits)
    then have "\<not> ?n < of_nat (length inp)" and q: q using False by auto
    then have n: "unat ?n = unat (buf_length buf) + length inp"
      using unat_bound [of "buf_length buf"] ul len
      by (auto simp: word_less_nat_alt unat_plus_if' split: if_splits)
    from BUF_MEM_reserve_spec [OF ok, of env ?n buf1] res q
    have b1: "buf_ok buf1" "buf_contents buf1 = buf_contents buf" "?n \<le> buf_max buf1" "buf_length buf1 = buf_length buf"
      by auto
    have r: r "buf' = buf1\<lparr>buf_data := (if inp = [] then buf_data buf1
        else Some (poke (buf_bytes buf1) (unat (buf_length buf1)) inp)), buf_length := ?n\<rparr>"
      using a res False by (simp_all add: BUF_MEM_append_def Let_def)
    show ?thesis
    proof (cases "inp = []")
      case True
      then have "buf' = buf1" using r(2) b1(4) by simp
      then show ?thesis using b1 True by simp
    next
      case ne: False
      then show ?thesis
        using poke_bytes_contents [OF b1(1), of ?n inp] n b1 r by simp
    qed
  qed
qed

lemma BUF_MEM_grow_spec:
  assumes ok: "buf_ok buf" and g: "BUF_MEM_grow env buf len = Some (r, buf')"
  shows "buf_ok buf' \<and>
    (if r = len \<and> buf_length buf' = len then
       buf_contents buf' = take (unat len) (buf_contents buf @ replicate (unat len - unat (buf_length buf)) 0)
     else r = 0 \<and> buf' = buf)"
proof -
  obtain q buf1 where res: "BUF_MEM_reserve env buf len = Some (q, buf1)"
    using g by (auto simp: BUF_MEM_grow_def bind_eq_Some_conv)
  show ?thesis
  proof (cases q)
    case False
    then have "r = 0" "buf' = buf"
      using g res BUF_MEM_reserve_fail [of env buf len buf1] by (auto simp: BUF_MEM_grow_def)
    then show ?thesis using ok length_buf_contents [OF ok] by (auto simp: unat_eq_zero [symmetric])
  next
    case True
    from BUF_MEM_reserve_spec [OF ok, of env len buf1] res True
    have b1: "buf_ok buf1" "buf_contents buf1 = buf_contents buf" "len \<le> buf_max buf1" "buf_length buf1 = buf_length buf"
      by auto
    show ?thesis
    proof (cases "buf_length buf < len")
      case lt: True
      let ?z = "replicate (unat (len - buf_length buf)) 0 :: bytes"
      have u: "unat (len - buf_length buf) = unat len - unat (buf_length buf)"
        using lt by (simp add: unat_sub_if' word_less_nat_alt)
      have n: "unat len = unat (buf_length buf1) + length ?z" using lt u b1(4) by (simp add: word_less_nat_alt)
      have "r = len" "buf' = buf1\<lparr>buf_data := Some (poke (buf_bytes buf1) (unat (buf_length buf1)) ?z), buf_length := len\<rparr>"
        using g res True lt b1(4) by (auto simp: BUF_MEM_grow_def Let_def)
      then show ?thesis
        using poke_bytes_contents [OF b1(1) n b1(3)] b1(2) length_buf_contents [OF ok] u lt
        by (simp add: word_less_nat_alt)
    next
      case ge: False
      then have "r = len" "buf' = buf1\<lparr>buf_length := len\<rparr>"
        using g res True b1(4) by (auto simp: BUF_MEM_grow_def Let_def)
      moreover have "buf_contents (buf1\<lparr>buf_length := len\<rparr>) = take (unat len) (buf_contents buf1)"
        using ge b1(4) by (simp add: buf_contents_def buf_bytes_def min_absorb1 word_le_nat_alt not_less)
      moreover have "buf_ok (buf1\<lparr>buf_length := len\<rparr>)" using b1 by (simp add: buf_ok_def buf_bytes_def)
      ultimately show ?thesis
        using b1(2) ge length_buf_contents [OF ok] by (simp add: word_le_nat_alt not_less)
    qed
  qed
qed

lemma BUF_MEM_append_undefined:
  assumes "length inp < 2 ^ 64"
  shows "BUF_MEM_append env buf inp = None \<longleftrightarrow> short_block env buf (unat (buf_length buf) + length inp)"
proof -
  let ?n = "buf_length buf + of_nat (length inp)"
  have ul: "unat (of_nat (length inp) :: size_t) = length inp" using assms by (simp add: unat_of_nat_64)
  show ?thesis
  proof (cases "?n < of_nat (length inp)")
    case True
    then have "2 ^ 64 \<le> unat (buf_length buf) + length inp"
      using unat_bound [of "buf_length buf"] ul assms by (auto simp: word_less_nat_alt unat_plus_if' split: if_splits)
    then show ?thesis using True by (simp add: BUF_MEM_append_def short_block_def)
  next
    case False
    then have n: "unat ?n = unat (buf_length buf) + length inp"
      using unat_bound [of "buf_length buf"] ul assms by (auto simp: word_less_nat_alt unat_plus_if' split: if_splits)
    then show ?thesis using False BUF_MEM_reserve_undefined [of env buf ?n]
      by (auto simp: BUF_MEM_append_def Let_def bind_eq_None_conv split: if_splits)
  qed
qed

lemma BUF_MEM_grow_undefined: "BUF_MEM_grow env buf len = None \<longleftrightarrow> short_block env buf (unat len)"
  using BUF_MEM_reserve_undefined [of env buf len]
  by (auto simp: BUF_MEM_grow_def Let_def bind_eq_None_conv split: if_splits)

section \<open>Properties\<close>

text \<open>
  C14. A \<open>BUF_MEM\<close> is a byte string: \<open>BUF_MEM_append\<close> appends to it and
  \<open>BUF_MEM_grow\<close> truncates it or pads it with zeros; both keep its contents when they
  fail, and the invariant always. The size computations are on 64-bit words. The only lengths for which
  they have no defined result are the six from $3 \cdot 2^{62} - 9$ to $3 \cdot 2^{62} - 4$, if the buffer is
  smaller: both checks of \<open>BUF_MEM_reserve\<close> pass and \<open>OPENSSL_malloc\<close>, whose sum wraps, asks for at
  most seven bytes.
\<close>

theorem BUF_MEM_refines_bytes:
  assumes "buf_ok buf" and "length inp < 2 ^ 64"
  shows "(case BUF_MEM_append env buf inp of
      None \<Rightarrow> short_block env buf (unat (buf_length buf) + length inp)
    | Some (r, buf') \<Rightarrow> \<not> short_block env buf (unat (buf_length buf) + length inp) \<and>
        buf_ok buf' \<and> buf_contents buf' = (if r then buf_contents buf @ inp else buf_contents buf)) \<and>
    (case BUF_MEM_grow env buf len of
      None \<Rightarrow> short_block env buf (unat len)
    | Some (r, buf') \<Rightarrow> \<not> short_block env buf (unat len) \<and> buf_ok buf' \<and>
        (if r = len \<and> buf_length buf' = len then
           buf_contents buf' = take (unat len) (buf_contents buf @ replicate (unat len - unat (buf_length buf)) 0)
         else r = 0 \<and> buf' = buf))"
proof (intro conjI)
  note undefined = BUF_MEM_append_undefined [OF assms(2), of env buf] BUF_MEM_grow_undefined [of env buf len]
  show "case BUF_MEM_append env buf inp of
      None \<Rightarrow> short_block env buf (unat (buf_length buf) + length inp)
    | Some (r, buf') \<Rightarrow> \<not> short_block env buf (unat (buf_length buf) + length inp) \<and>
        buf_ok buf' \<and> buf_contents buf' = (if r then buf_contents buf @ inp else buf_contents buf)"
    using undefined(1) BUF_MEM_append_spec [OF assms, of env] by (cases "BUF_MEM_append env buf inp") auto
  show "case BUF_MEM_grow env buf len of
      None \<Rightarrow> short_block env buf (unat len)
    | Some (r, buf') \<Rightarrow> \<not> short_block env buf (unat len) \<and> buf_ok buf' \<and>
        (if r = len \<and> buf_length buf' = len then
           buf_contents buf' = take (unat len) (buf_contents buf @ replicate (unat len - unat (buf_length buf)) 0)
         else r = 0 \<and> buf' = buf)"
    using undefined(2) BUF_MEM_grow_spec [OF assms(1), of env len] by (cases "BUF_MEM_grow env buf len") auto
qed

text \<open>An append, and a buffer that is asked to grow to $3 \cdot 2^{62} - 4$ bytes.\<close>

theorem BUF_MEM_refines_bytes_witness:
  "(case BUF_MEM_append \<lparr>alloc_ok = (\<lambda>_. True), fresh = (\<lambda>_. 0xcd)\<rparr>
      \<lparr>buf_length = 1, buf_data = Some [1, 0], buf_max = 2\<rparr> [2, 3] of
      None \<Rightarrow> False
    | Some (r, buf') \<Rightarrow> r \<and> buf_contents buf' = [1, 2, 3]) \<and>
   BUF_MEM_grow \<lparr>alloc_ok = (\<lambda>_. True), fresh = (\<lambda>_. 0xcd)\<rparr>
      \<lparr>buf_length = 1, buf_data = Some [1, 0], buf_max = 2\<rparr> 0xbffffffffffffffc = None"
proof -
  let ?env = "\<lparr>alloc_ok = (\<lambda>_. True), fresh = (\<lambda>_. 0xcd)\<rparr>"
  let ?b = "\<lparr>buf_length = 1, buf_data = Some [1, 0], buf_max = 2\<rparr>"
  have ok: "buf_ok ?b" and c: "buf_contents ?b = [1]" by code_simp+
  have "map_option fst (BUF_MEM_append ?env ?b [2, 3]) = Some True" by code_simp
  then obtain buf' where a: "BUF_MEM_append ?env ?b [2, 3] = Some (True, buf')" by auto
  have "short_block ?env ?b (unat (0xbffffffffffffffc :: size_t))" by (simp add: short_block_def)
  then have g: "BUF_MEM_grow ?env ?b 0xbffffffffffffffc = None"
    using BUF_MEM_refines_bytes [OF ok, of "[]" ?env "0xbffffffffffffffc", THEN conjunct2] by (auto split: option.splits)
  from BUF_MEM_refines_bytes [OF ok, of "[2, 3]" ?env 0, THEN conjunct1] a c g show ?thesis by simp
qed

text \<open>
  C15. \<open>BUF_strlcat\<close> appends as much of the source as fits in \<open>n\<close> bytes with the NUL,
  always leaves a terminated string when the destination is one, and returns the length that
  the whole concatenation would have.
\<close>

theorem BUF_strlcat_truncates:
  assumes "0 \<in> set src" and "strlen dst < n" and "n \<le> length dst"
  shows "case BUF_strlcat dst src n of (r, d) \<Rightarrow>
    r = strlen dst + strlen src \<and> length d = length dst \<and>
    c_str d = take (n - 1) (c_str dst @ c_str src) \<and> drop n d = drop n dst"
proof -
  let ?l = "strlen dst"
  define w where "w = take (n - ?l - 1) (c_str src) @ [0]"
  have b: "BUF_strlcpy (drop ?l dst) src (n - ?l) = (strlen src, poke (drop ?l dst) 0 w)"
    using BUF_strlcpy_spec [OF assms(1), of "n - ?l" "drop ?l dst"] assms(2,3) by (simp add: w_def)
  have w: "length w \<le> n - ?l" using assms(2) by (simp add: w_def)
  have p: "poke (drop ?l dst) 0 w = w @ drop (length w + ?l) dst" by (simp add: poke_def add.commute)
  have e: "BUF_strlcat dst src n = (?l + strlen src, c_str dst @ w @ drop (length w + ?l) dst)"
    using b assms(2) by (simp add: BUF_strlcat_def strlcat_skip_eq c_str_take Let_def p)
  have nz: "\<forall>c \<in> set (c_str s). c \<noteq> 0" for s by (auto simp: c_str_def dest: set_takeWhileD)
  have cs: "c_str (xs @ 0 # zs) = xs" if "\<forall>c \<in> set xs. c \<noteq> 0" for xs zs
    using that by (simp add: c_str_def takeWhile_append2)
  have "\<forall>c \<in> set (c_str dst @ take (n - ?l - 1) (c_str src)). c \<noteq> 0"
    using nz [of dst] nz [of src] by (auto dest: in_set_takeD)
  from cs [OF this, of "drop (length w + ?l) dst"]
  have c: "c_str (c_str dst @ w @ drop (length w + ?l) dst) = c_str dst @ take (n - ?l - 1) (c_str src)"
    by (simp add: w_def)
  have l: "length (c_str dst) = ?l" by (simp add: strlen_def)
  have "length (c_str dst @ w @ drop (length w + ?l) dst) = length dst"
    using w l assms(2,3) by simp
  moreover have "drop n (c_str dst @ w @ drop (length w + ?l) dst) = drop n dst"
    using w l assms(2,3) by simp
  moreover have "c_str dst @ take (n - ?l - 1) (c_str src) = take (n - 1) (c_str dst @ c_str src)"
    using l assms(2) by simp
  ultimately show ?thesis using e c by simp
qed

theorem BUF_strlcat_truncates_witness:
  "case BUF_strlcat [0x61, 0, 0, 0x7a] [0x62, 0x63, 0] 3 of (r, d) \<Rightarrow> r = 3 \<and> c_str d = [0x61, 0x62]"
proof -
  have "strlen [0x61, 0, 0, 0x7a] = 1" "strlen [0x62, 0x63, 0] = 2" "c_str [0x61, 0, 0, 0x7a] = [0x61]"
    "c_str [0x62, 0x63, 0] = [0x62, 0x63]" by code_simp+
  then show ?thesis
    using BUF_strlcat_truncates [of "[0x62, 0x63, 0]" "[0x61, 0, 0, 0x7a]" 3]
    by (simp del: fun_upd_apply split: prod.splits)
qed

end
