(* ===== verification/Pool.thy ===== *)
theory Pool
  imports Lhash Mem
begin

text \<open>
  The pool of shared, reference-counted buffers of \<open>BoringSSL/crypto/pool/pool.c\<close> with
  the counters of \<open>refcount_lock.c\<close>, as a system of threads. A \<open>CRYPTO_BUFFER *\<close>
  with a pool is its address and its two immutable fields (\<open>data\<close> and its length); the
  mutable reference counts of the objects alive are a map from addresses. A function acts in
  the atomic steps that its locks delimit: \<open>CRYPTO_BUFFER_new\<close> looks up under the read
  lock, allocates without a lock and inserts under the write lock, and other threads run in
  between.
\<close>

section \<open>Definitions\<close>

subsection \<open>Reference counts\<close>

definition CRYPTO_REFCOUNT_MAX :: u32 where "CRYPTO_REFCOUNT_MAX = 0xffffffff"

definition CRYPTO_refcount_inc :: "u32 \<Rightarrow> u32" where
  "CRYPTO_refcount_inc cnt = (if cnt < CRYPTO_REFCOUNT_MAX then cnt + 1 else cnt)"

text \<open>\<open>None\<close> is \<open>abort()\<close>; otherwise whether the count reached zero, and the count.\<close>

definition CRYPTO_refcount_dec_and_test_zero :: "u32 \<Rightarrow> (bool \<times> u32) option" where
  "CRYPTO_refcount_dec_and_test_zero cnt =
     (if cnt = 0 then None
      else
        let cnt = (if cnt < CRYPTO_REFCOUNT_MAX then cnt - 1 else cnt)
        in Some (cnt = 0, cnt))"

subsection \<open>Buffers and the pool\<close>

datatype CRYPTO_BUFFER = CRYPTO_BUFFER (buffer_addr: u64) (buffer_data: bytes)

record CRYPTO_BUFFER_POOL =
  bufs :: "CRYPTO_BUFFER lhash_st"
  references :: "u64 \<Rightarrow> u32 option"

text \<open>\<open>memcmp\<close> of the C library on two blocks of one length.\<close>

fun OPENSSL_memcmp :: "bytes \<Rightarrow> bytes \<Rightarrow> int" where
  "OPENSSL_memcmp (a # as) (b # bs) = (if a \<noteq> b then uint a - uint b else OPENSSL_memcmp as bs)"
| "OPENSSL_memcmp as bs = 0"

definition CRYPTO_BUFFER_hash :: "CRYPTO_BUFFER \<Rightarrow> u32" where
  "CRYPTO_BUFFER_hash buf = OPENSSL_hash32 (buffer_data buf)"

definition CRYPTO_BUFFER_cmp :: "CRYPTO_BUFFER \<Rightarrow> CRYPTO_BUFFER \<Rightarrow> int" where
  "CRYPTO_BUFFER_cmp a b =
     (if length (buffer_data a) \<noteq> length (buffer_data b) then 1
      else OPENSSL_memcmp (buffer_data a) (buffer_data b))"

definition CRYPTO_BUFFER_POOL_new :: "heap_env \<Rightarrow> CRYPTO_BUFFER_POOL option" where
  "CRYPTO_BUFFER_POOL_new env =
     (if \<not> alloc_ok env 208 then None
      else
        (case lh_new env CRYPTO_BUFFER_hash CRYPTO_BUFFER_cmp of
           None \<Rightarrow> None
         | Some lh \<Rightarrow> Some \<lparr>bufs = lh, references = (\<lambda>_. None)\<rparr>))"

text \<open>An increment through a pointer.\<close>

definition ref_inc :: "CRYPTO_BUFFER \<Rightarrow> CRYPTO_BUFFER_POOL \<Rightarrow> CRYPTO_BUFFER_POOL" where
  "ref_inc buf pool =
     pool\<lparr>references := (references pool)
       (buffer_addr buf := map_option CRYPTO_refcount_inc (references pool (buffer_addr buf)))\<rparr>"

definition CRYPTO_BUFFER_up_ref :: "CRYPTO_BUFFER \<Rightarrow> CRYPTO_BUFFER_POOL \<Rightarrow> CRYPTO_BUFFER_POOL" where
  "CRYPTO_BUFFER_up_ref buf pool = ref_inc buf pool"

text \<open>The first part of \<open>CRYPTO_BUFFER_new\<close>, under the read lock; \<open>tmp\<close> is at address 0.\<close>

definition buffer_new_lookup :: "CRYPTO_BUFFER_POOL \<Rightarrow> bytes \<Rightarrow> CRYPTO_BUFFER option \<times> CRYPTO_BUFFER_POOL" where
  "buffer_new_lookup pool d =
     (case lh_retrieve (bufs pool) (CRYPTO_BUFFER 0 d) of
        Some duplicate \<Rightarrow> (Some duplicate, ref_inc duplicate pool)
      | None \<Rightarrow> (None, pool))"

text \<open>
  The allocation of the new object, at an address that \<open>malloc\<close> chose. The data are in memory, so they
  are shorter than $2^{64} - 8$ bytes, and \<open>BUF_memdup\<close> is defined on them (\<open>BUF_memdup_defined\<close>).
\<close>

definition buffer_new_alloc ::
    "heap_env \<Rightarrow> u64 \<Rightarrow> CRYPTO_BUFFER_POOL \<Rightarrow> bytes \<Rightarrow> CRYPTO_BUFFER option \<times> CRYPTO_BUFFER_POOL" where
  "buffer_new_alloc env a pool d =
     (if \<not> alloc_ok env 32 then (None, pool)
      else if length d \<noteq> 0 \<and> BUF_memdup env d = Some None then (None, pool)
      else (Some (CRYPTO_BUFFER a d), pool\<lparr>references := (references pool)(a \<mapsto> 1)\<rparr>))"

text \<open>The last part, under the write lock, and the release of an object that lost the race.\<close>

definition buffer_new_insert ::
    "heap_env \<Rightarrow> CRYPTO_BUFFER_POOL \<Rightarrow> CRYPTO_BUFFER \<Rightarrow> CRYPTO_BUFFER option \<times> CRYPTO_BUFFER_POOL" where
  "buffer_new_insert env pool buf =
     (let duplicate = lh_retrieve (bufs pool) buf;
          (inserted, pool) =
            (case duplicate of
               None \<Rightarrow> (case lh_insert env (bufs pool) buf of (ok, old, lh) \<Rightarrow> (ok, pool\<lparr>bufs := lh\<rparr>))
             | Some dup \<Rightarrow> (False, ref_inc dup pool))
      in if \<not> inserted then (duplicate, pool\<lparr>references := (references pool)(buffer_addr buf := None)\<rparr>)
         else (Some buf, pool))"

text \<open>The whole function when no other thread runs.\<close>

definition CRYPTO_BUFFER_new ::
    "heap_env \<Rightarrow> u64 \<Rightarrow> CRYPTO_BUFFER_POOL \<Rightarrow> bytes \<Rightarrow> CRYPTO_BUFFER option \<times> CRYPTO_BUFFER_POOL" where
  "CRYPTO_BUFFER_new env a pool d =
     (case buffer_new_lookup pool d of
        (Some duplicate, pool) \<Rightarrow> (Some duplicate, pool)
      | (None, pool) \<Rightarrow>
          (case buffer_new_alloc env a pool d of
             (None, pool) \<Rightarrow> (None, pool)
           | (Some buf, pool) \<Rightarrow> buffer_new_insert env pool buf))"

definition CRYPTO_BUFFER_new_from_CBS ::
    "heap_env \<Rightarrow> u64 \<Rightarrow> CRYPTO_BUFFER_POOL \<Rightarrow> cbs \<Rightarrow> CRYPTO_BUFFER option \<times> CRYPTO_BUFFER_POOL" where
  "CRYPTO_BUFFER_new_from_CBS env a pool cbs = CRYPTO_BUFFER_new env a pool (CBS_data cbs)"

text \<open>\<open>None\<close> is the \<open>abort()\<close> of a count of zero, or of an object that is not alive.\<close>

definition CRYPTO_BUFFER_free ::
    "heap_env \<Rightarrow> CRYPTO_BUFFER option \<Rightarrow> CRYPTO_BUFFER_POOL \<Rightarrow> CRYPTO_BUFFER_POOL option" where
  "CRYPTO_BUFFER_free env buf pool =
     (case buf of
        None \<Rightarrow> Some pool
      | Some buf \<Rightarrow>
          (case references pool (buffer_addr buf) of
             None \<Rightarrow> None
           | Some cnt \<Rightarrow>
               (case CRYPTO_refcount_dec_and_test_zero cnt of
                  None \<Rightarrow> None
                | Some (False, cnt) \<Rightarrow>
                    Some (pool\<lparr>references := (references pool)(buffer_addr buf \<mapsto> cnt)\<rparr>)
                | Some (True, cnt) \<Rightarrow>
                    (case lh_delete env (bufs pool) buf of (found, lh) \<Rightarrow>
                       Some (pool\<lparr>bufs := lh, references := (references pool)(buffer_addr buf := None)\<rparr>)))))"

definition CRYPTO_BUFFER_len :: "CRYPTO_BUFFER \<Rightarrow> nat" where
  "CRYPTO_BUFFER_len buf = length (buffer_data buf)"

definition CRYPTO_BUFFER_init_CBS :: "CRYPTO_BUFFER \<Rightarrow> cbs" where
  "CRYPTO_BUFFER_init_CBS buf = CBS_init (buffer_data buf) (of_nat (length (buffer_data buf)))"

subsection \<open>Threads\<close>

text \<open>Where a thread stands in \<open>CRYPTO_BUFFER_new\<close>.\<close>

datatype thread_pc = Idle | Missed bytes | Made CRYPTO_BUFFER

text \<open>
  The pool, the references that callers hold (with multiplicity, whichever thread has them)
  and the threads.
\<close>

record pool_sys =
  pool_of :: CRYPTO_BUFFER_POOL
  held :: "CRYPTO_BUFFER multiset"
  pcs :: "nat \<Rightarrow> thread_pc"

inductive pool_step :: "heap_env \<Rightarrow> pool_sys \<Rightarrow> pool_sys \<Rightarrow> bool" for env where
  hit: "\<lbrakk>pcs s t = Idle; buffer_new_lookup (pool_of s) d = (Some b, p)\<rbrakk>
    \<Longrightarrow> pool_step env s (s\<lparr>pool_of := p, held := add_mset b (held s)\<rparr>)"
| miss: "\<lbrakk>pcs s t = Idle; buffer_new_lookup (pool_of s) d = (None, p)\<rbrakk>
    \<Longrightarrow> pool_step env s (s\<lparr>pool_of := p, pcs := (pcs s)(t := Missed d)\<rparr>)"
| make: "\<lbrakk>pcs s t = Missed d; a \<noteq> 0; references (pool_of s) a = None;
      buffer_new_alloc env a (pool_of s) d = (Some b, p)\<rbrakk>
    \<Longrightarrow> pool_step env s (s\<lparr>pool_of := p, pcs := (pcs s)(t := Made b)\<rparr>)"
| make_fail: "\<lbrakk>pcs s t = Missed d; buffer_new_alloc env a (pool_of s) d = (None, p)\<rbrakk>
    \<Longrightarrow> pool_step env s (s\<lparr>pool_of := p, pcs := (pcs s)(t := Idle)\<rparr>)"
| insert: "\<lbrakk>pcs s t = Made b; buffer_new_insert env (pool_of s) b = (r, p)\<rbrakk>
    \<Longrightarrow> pool_step env s (s\<lparr>pool_of := p, pcs := (pcs s)(t := Idle),
          held := held s + (case r of None \<Rightarrow> {#} | Some b' \<Rightarrow> {#b'#})\<rparr>)"
| up_ref: "b \<in># held s
    \<Longrightarrow> pool_step env s (s\<lparr>pool_of := CRYPTO_BUFFER_up_ref b (pool_of s), held := add_mset b (held s)\<rparr>)"
| free: "\<lbrakk>b \<in># held s; CRYPTO_BUFFER_free env (Some b) (pool_of s) = Some p\<rbrakk>
    \<Longrightarrow> pool_step env s (s\<lparr>pool_of := p, held := held s - {#b#}\<rparr>)"

inductive pool_reachable :: "heap_env \<Rightarrow> pool_sys \<Rightarrow> bool" for env where
  start: "CRYPTO_BUFFER_POOL_new env = Some p
    \<Longrightarrow> pool_reachable env \<lparr>pool_of = p, held = {#}, pcs = (\<lambda>_. Idle)\<rparr>"
| step: "pool_reachable env s \<Longrightarrow> pool_step env s s' \<Longrightarrow> pool_reachable env s'"

section \<open>The pool as a client of the table\<close>

lemma OPENSSL_memcmp_0: "length as = length bs \<Longrightarrow> OPENSSL_memcmp as bs = 0 \<longleftrightarrow> as = bs"
  by (induction as bs rule: OPENSSL_memcmp.induct) (auto simp: word_uint_eq_iff)

lemma CRYPTO_BUFFER_cmp_0: "CRYPTO_BUFFER_cmp a b = 0 \<longleftrightarrow> buffer_data a = buffer_data b"
  by (auto simp: CRYPTO_BUFFER_cmp_def OPENSSL_memcmp_0)

interpretation key: hash_key CRYPTO_BUFFER_hash CRYPTO_BUFFER_cmp
  by unfold_locales (simp_all add: CRYPTO_BUFFER_cmp_0 CRYPTO_BUFFER_hash_def)

abbreviation pool_table :: "CRYPTO_BUFFER_POOL \<Rightarrow> bool" where
  "pool_table p \<equiv> lh_table CRYPTO_BUFFER_hash CRYPTO_BUFFER_cmp (bufs p)"

definition stored :: "CRYPTO_BUFFER_POOL \<Rightarrow> CRYPTO_BUFFER \<Rightarrow> bool" where
  "stored p b \<longleftrightarrow> lh_lookup (bufs p) b = Some b"

lemma lookup_cong:
  "buffer_data a = buffer_data b \<Longrightarrow> pool_table p \<Longrightarrow> lh_lookup (bufs p) a = lh_lookup (bufs p) b"
  by (simp add: lh_lookup_def lh_table_def CRYPTO_BUFFER_cmp_0)

lemma lookup_data:
  "pool_table p \<Longrightarrow> lh_lookup (bufs p) a = Some b \<Longrightarrow> buffer_data b = buffer_data a \<and> stored p b"
  using lookup_cong [of b a p]
  by (auto simp: lh_lookup_def find_Some_iff lh_table_def CRYPTO_BUFFER_cmp_0 stored_def)

lemma stored_inj: "pool_table p \<Longrightarrow> stored p a \<Longrightarrow> stored p b \<Longrightarrow> buffer_data a = buffer_data b \<Longrightarrow> a = b"
  using lookup_cong [of a b p] by (simp add: stored_def)

lemma distinct_items:
  assumes "pool_table p"
  shows "distinct (map item_data (lh_items (bufs p)))"
    "set (map item_data (lh_items (bufs p))) = {b. stored p b}"
proof -
  have m: "length (filter (\<lambda>x. buffer_data (item_data x) = buffer_data b) (lh_items (bufs p))) \<le> 1" for b
    using assms CRYPTO_BUFFER_cmp_0
    by (auto simp: lh_table_def lh_ok_def lh_match_def simp flip: mset_filter)
  have "distinct (map item_data xs)"
    if "\<And>b. length (filter (\<lambda>x. buffer_data (item_data x) = buffer_data b) xs) \<le> 1" for xs
    using that
  proof (induction xs)
    case (Cons x xs)
    have "filter (\<lambda>y. buffer_data (item_data y) = buffer_data (item_data x)) xs = []"
      using Cons.prems [of "item_data x"] by simp
    then have "item_data x \<notin> item_data ` set xs" by (auto simp: filter_empty_conv)
    moreover have "length (filter (\<lambda>y. buffer_data (item_data y) = buffer_data b) xs) \<le> 1" for b
      using Cons.prems [of b] by (auto split: if_splits)
    ultimately show ?case using Cons.IH by simp
  qed simp
  then show "distinct (map item_data (lh_items (bufs p)))" using m by blast
  have "stored p (item_data x)" if x: "x \<in> set (lh_items (bufs p))" for x
  proof -
    have "x \<in># lh_match (bufs p) (item_data x)"
      using x assms by (simp add: lh_match_def lh_table_def CRYPTO_BUFFER_cmp_0)
    moreover have "size (lh_match (bufs p) (item_data x)) \<le> 1" using assms by (simp add: lh_table_def lh_ok_def)
    ultimately have "lh_match (bufs p) (item_data x) = {#x#}" unfolding size_le_1 by auto
    then show ?thesis by (simp add: stored_def lh_lookup_Some)
  qed
  moreover have "b \<in> item_data ` set (lh_items (bufs p))" if "stored p b" for b
    using that by (auto simp: stored_def lh_lookup_def find_Some_iff)
  ultimately show "set (map item_data (lh_items (bufs p))) = {b. stored p b}" by auto
qed

section \<open>The invariant\<close>

text \<open>
  An object in the table is alive and its count is the number of references held, unless it
  has saturated; every reference held is to an object in the table; an object being made is
  alive, private and at an address of its own.
\<close>

definition ref_exact :: "u32 \<Rightarrow> nat \<Rightarrow> bool" where
  "ref_exact c n \<longleftrightarrow> c \<noteq> 0 \<and> (c = CRYPTO_REFCOUNT_MAX \<or> unat c = n)"

definition private_buf :: "CRYPTO_BUFFER_POOL \<Rightarrow> CRYPTO_BUFFER \<Rightarrow> bool" where
  "private_buf p b \<longleftrightarrow> buffer_addr b \<noteq> 0 \<and> references p (buffer_addr b) = Some 1 \<and>
     (\<forall>b'. stored p b' \<longrightarrow> buffer_addr b' \<noteq> buffer_addr b)"

definition pool_inv :: "CRYPTO_BUFFER_POOL \<Rightarrow> CRYPTO_BUFFER multiset \<Rightarrow> (nat \<Rightarrow> thread_pc) \<Rightarrow> bool" where
  "pool_inv p H P \<longleftrightarrow>
     pool_table p \<and>
     (\<forall>b. stored p b \<longrightarrow> buffer_addr b \<noteq> 0 \<and>
        (\<exists>c. references p (buffer_addr b) = Some c \<and> ref_exact c (count H b))) \<and>
     (\<forall>b b'. stored p b \<longrightarrow> stored p b' \<longrightarrow> buffer_addr b = buffer_addr b' \<longrightarrow> b = b') \<and>
     (\<forall>b \<in># H. stored p b) \<and>
     (\<forall>t b. P t = Made b \<longrightarrow> private_buf p b) \<and>
     (\<forall>t t' b b'. P t = Made b \<longrightarrow> P t' = Made b' \<longrightarrow> buffer_addr b = buffer_addr b' \<longrightarrow> t = t')"

lemma pool_invD:
  assumes "pool_inv p H P"
  shows "pool_table p"
    "stored p b \<Longrightarrow> buffer_addr b \<noteq> 0"
    "stored p b \<Longrightarrow> \<exists>c. references p (buffer_addr b) = Some c \<and> ref_exact c (count H b)"
    "stored p b \<Longrightarrow> stored p b' \<Longrightarrow> buffer_addr b = buffer_addr b' \<Longrightarrow> b = b'"
    "b \<in># H \<Longrightarrow> stored p b"
    "P t = Made b \<Longrightarrow> private_buf p b"
    "P t = Made b \<Longrightarrow> P t' = Made b' \<Longrightarrow> buffer_addr b = buffer_addr b' \<Longrightarrow> t = t'"
  using assms unfolding pool_inv_def by blast+

lemma pool_invI:
  assumes "pool_table p"
    and "\<And>b. stored p b \<Longrightarrow> buffer_addr b \<noteq> 0"
    and "\<And>b. stored p b \<Longrightarrow> \<exists>c. references p (buffer_addr b) = Some c \<and> ref_exact c (count H b)"
    and "\<And>b b'. stored p b \<Longrightarrow> stored p b' \<Longrightarrow> buffer_addr b = buffer_addr b' \<Longrightarrow> b = b'"
    and "\<And>b. b \<in># H \<Longrightarrow> stored p b"
    and "\<And>t b. P t = Made b \<Longrightarrow> private_buf p b"
    and "\<And>t t' b b'. P t = Made b \<Longrightarrow> P t' = Made b' \<Longrightarrow> buffer_addr b = buffer_addr b' \<Longrightarrow> t = t'"
  shows "pool_inv p H P"
  using assms unfolding pool_inv_def by blast

lemma ref_exact_inc:
  assumes "ref_exact c n"
  shows "ref_exact (CRYPTO_refcount_inc c) (Suc n)"
proof (cases "c < CRYPTO_REFCOUNT_MAX")
  case True
  then have "unat (c + 1) = unat c + 1" by (simp add: CRYPTO_REFCOUNT_MAX_def word_less_nat_alt unat_word_ariths)
  then have "c + 1 \<noteq> 0" by auto
  then show ?thesis using True assms \<open>unat (c + 1) = unat c + 1\<close> by (auto simp: ref_exact_def CRYPTO_refcount_inc_def)
next
  case False
  then have "c = CRYPTO_REFCOUNT_MAX"
    using unat_bound [of c] by (simp add: CRYPTO_REFCOUNT_MAX_def word_less_nat_alt word_unat_eq_iff)
  then show ?thesis by (simp add: ref_exact_def CRYPTO_refcount_inc_def CRYPTO_REFCOUNT_MAX_def)
qed

lemma ref_exact_dec:
  assumes "ref_exact c (Suc n)"
  obtains z c' where "CRYPTO_refcount_dec_and_test_zero c = Some (z, c')"
    "z \<Longrightarrow> n = 0" "\<not> z \<Longrightarrow> ref_exact c' n"
proof (cases "c < CRYPTO_REFCOUNT_MAX")
  case True
  then have c: "unat c = Suc n" "c \<noteq> 0" using assms by (auto simp: ref_exact_def)
  then have "unat (c - 1) = n" by (simp add: unat_minus_one)
  then show thesis
    using that [of "c - 1 = 0" "c - 1"] True c by (auto simp: CRYPTO_refcount_dec_and_test_zero_def ref_exact_def)
next
  case False
  then have "c = CRYPTO_REFCOUNT_MAX"
    using unat_bound [of c] by (simp add: CRYPTO_REFCOUNT_MAX_def word_less_nat_alt word_unat_eq_iff)
  then show thesis
    using that [of False c] by (auto simp: CRYPTO_refcount_dec_and_test_zero_def ref_exact_def CRYPTO_REFCOUNT_MAX_def)
qed

text \<open>The addresses bound the number of items, so the counter of the table never wraps.\<close>

lemma items_bounded:
  assumes inv: "pool_inv p H P" and a: "a \<noteq> 0" "\<And>b. stored p b \<Longrightarrow> buffer_addr b \<noteq> a"
  shows "length (lh_items (bufs p)) < 2 ^ 64 - 1"
proof -
  note d = distinct_items [OF pool_invD(1) [OF inv]]
  let ?A = "buffer_addr ` {b. stored p b}"
  have "inj_on buffer_addr {b. stored p b}" using pool_invD(4) [OF inv] by (auto intro!: inj_onI)
  then have "card ?A = card {b. stored p b}" by (rule card_image)
  also have "\<dots> = length (lh_items (bufs p))"
    using distinct_card [OF d(1)] d(2) by simp
  finally have c: "card ?A = length (lh_items (bufs p))" .
  have "?A \<subseteq> UNIV - {0, a}" using a(2) pool_invD(2) [OF inv] by auto
  then have "card ?A \<le> card (UNIV - {0, a} :: u64 set)" by (intro card_mono) auto
  also have "\<dots> = 2 ^ 64 - 2" using a(1) by (simp add: card_Diff_subset card_word)
  finally show ?thesis using c by simp
qed

section \<open>Every step keeps the invariant\<close>

text \<open>One more reference to an object of the table.\<close>

lemma inv_ref_inc:
  assumes inv: "pool_inv p H P" and b: "stored p b"
  shows "pool_inv (ref_inc b p) (add_mset b H) P"
proof -
  obtain c where c: "references p (buffer_addr b) = Some c" "ref_exact c (count H b)"
    using pool_invD(3) [OF inv b] by blast
  have st: "stored (ref_inc b p) x = stored p x" for x by (simp add: stored_def ref_inc_def)
  have r: "references (ref_inc b p) = (references p)(buffer_addr b \<mapsto> CRYPTO_refcount_inc c)"
    using c(1) by (simp add: ref_inc_def)
  have "\<exists>c'. references (ref_inc b p) (buffer_addr x) = Some c' \<and> ref_exact c' (count (add_mset b H) x)"
    if "stored p x" for x
  proof (cases "x = b")
    case True
    then show ?thesis using r ref_exact_inc [OF c(2)] by simp
  next
    case False
    then have "buffer_addr x \<noteq> buffer_addr b" using pool_invD(4) [OF inv that b] by blast
    then show ?thesis using r pool_invD(3) [OF inv that] False by simp
  qed
  moreover have "private_buf (ref_inc b p) x" if "P t = Made x" for t x
    using pool_invD(6) [OF inv that] b r by (auto simp: private_buf_def st)
  moreover have "pool_table (ref_inc b p)" using pool_invD(1) [OF inv] by (simp add: ref_inc_def)
  ultimately show ?thesis
    using pool_invD(2,4,5,7) [OF inv] b by (intro pool_invI) (simp_all add: st, blast+)
qed

lemma inv_pc:
  assumes "pool_inv p H P" and "\<And>b. pc \<noteq> Made b"
  shows "pool_inv p H (P(t := pc))"
  using assms unfolding pool_inv_def by (auto split: if_splits)

lemma inv_alloc:
  assumes inv: "pool_inv p H P" and a: "a \<noteq> 0" "references p a = None"
  shows "pool_inv (p\<lparr>references := (references p)(a \<mapsto> 1)\<rparr>) H (P(t := Made (CRYPTO_BUFFER a d)))"
proof -
  let ?p = "p\<lparr>references := (references p)(a \<mapsto> 1)\<rparr>"
  have st: "stored ?p x = stored p x" for x by (simp add: stored_def)
  have na: "stored p x \<Longrightarrow> buffer_addr x \<noteq> a" for x using pool_invD(3) [OF inv, of x] a(2) by auto
  have nm: "P t' = Made x \<Longrightarrow> buffer_addr x \<noteq> a" for t' x
    using pool_invD(6) [OF inv, of t' x] a(2) by (auto simp: private_buf_def)
  show ?thesis
  proof (rule pool_invI)
    show "pool_table ?p" using pool_invD(1) [OF inv] by simp
    show "\<exists>c. references ?p (buffer_addr b) = Some c \<and> ref_exact c (count H b)" if "stored ?p b" for b
      using that na [of b] pool_invD(3) [OF inv, of b] by (simp add: st)
    show "private_buf ?p b" if "(P(t := Made (CRYPTO_BUFFER a d))) t' = Made b" for t' b
      using that pool_invD(6) [OF inv, of t' b] na nm [of t' b] a(1)
      by (auto simp: private_buf_def st split: if_splits)
    show "t1 = t2" if "(P(t := Made (CRYPTO_BUFFER a d))) t1 = Made b"
      "(P(t := Made (CRYPTO_BUFFER a d))) t2 = Made b'" "buffer_addr b = buffer_addr b'" for t1 t2 b b'
      using that pool_invD(7) [OF inv, of t1 b t2 b'] nm [of t1 b] nm [of t2 b'] by (auto split: if_splits)
  qed (use pool_invD(2,4,5) [OF inv] in \<open>simp_all add: st\<close>)
qed

text \<open>An object that was never published is released.\<close>

lemma inv_drop_private:
  assumes inv: "pool_inv p H P" and b: "P t = Made b"
  shows "pool_inv (p\<lparr>references := (references p)(buffer_addr b := None)\<rparr>) H (P(t := Idle))"
proof -
  let ?p = "p\<lparr>references := (references p)(buffer_addr b := None)\<rparr>"
  have st: "stored ?p x = stored p x" for x by (simp add: stored_def)
  have pv: "private_buf p b" using pool_invD(6) [OF inv b] .
  show ?thesis
  proof (rule pool_invI)
    show "pool_table ?p" using pool_invD(1) [OF inv] by simp
    show "\<exists>c. references ?p (buffer_addr x) = Some c \<and> ref_exact c (count H x)" if "stored ?p x" for x
      using that pv pool_invD(3) [OF inv, of x] by (auto simp: st private_buf_def)
    show "private_buf ?p x" if "(P(t := Idle)) t' = Made x" for t' x
    proof -
      have "t' \<noteq> t" "P t' = Made x" using that by (auto split: if_splits)
      then have "buffer_addr x \<noteq> buffer_addr b" using pool_invD(7) [OF inv _ b] by blast
      then show ?thesis using pool_invD(6) [OF inv \<open>P t' = Made x\<close>] by (simp add: private_buf_def st)
    qed
    show "t1 = t2" if "(P(t := Idle)) t1 = Made x" "(P(t := Idle)) t2 = Made y" "buffer_addr x = buffer_addr y"
      for t1 t2 x y
      using that pool_invD(7) [OF inv, of t1 x t2 y] by (auto split: if_splits)
  qed (use pool_invD(2,4,5) [OF inv] in \<open>simp_all add: st\<close>)
qed

lemma stored_insert:
  assumes t: "pool_table p" and small: "length (lh_items (bufs p)) < 2 ^ 64 - 1"
    and none: "lh_lookup (bufs p) b = None" and ins: "lh_insert env (bufs p) b = (True, old, lh)"
  shows "pool_table (p\<lparr>bufs := lh\<rparr>)" "stored (p\<lparr>bufs := lh\<rparr>) x \<longleftrightarrow> x = b \<or> stored p x"
proof -
  have sp: "lh_table CRYPTO_BUFFER_hash CRYPTO_BUFFER_cmp lh"
    "\<And>q. lh_lookup lh q = (if buffer_data b = buffer_data q then Some b else lh_lookup (bufs p) q)"
    using key.lh_insert_spec(1) [OF t small ins] by (simp_all add: CRYPTO_BUFFER_cmp_0)
  show "pool_table (p\<lparr>bufs := lh\<rparr>)" using sp(1) by simp
  show "stored (p\<lparr>bufs := lh\<rparr>) x \<longleftrightarrow> x = b \<or> stored p x"
    using lookup_cong [OF _ t, of b x] none by (auto simp: stored_def sp(2))
qed

lemma stored_delete:
  assumes t: "pool_table p" and b: "stored p b" and del: "lh_delete env (bufs p) b = (old, lh)"
  shows "lh_table CRYPTO_BUFFER_hash CRYPTO_BUFFER_cmp lh" "old = Some b"
    "lh_lookup lh x = Some x \<longleftrightarrow> stored p x \<and> x \<noteq> b"
proof -
  have sp: "lh_table CRYPTO_BUFFER_hash CRYPTO_BUFFER_cmp lh" "old = lh_lookup (bufs p) b"
    "\<And>q. lh_lookup lh q = (if buffer_data b = buffer_data q then None else lh_lookup (bufs p) q)"
    using key.lh_delete_spec(1) [OF t del] by (simp_all add: CRYPTO_BUFFER_cmp_0)
  show "lh_table CRYPTO_BUFFER_hash CRYPTO_BUFFER_cmp lh" "old = Some b" using sp(1,2) b by (simp_all add: stored_def)
  show "lh_lookup lh x = Some x \<longleftrightarrow> stored p x \<and> x \<noteq> b"
    using stored_inj [OF t b, of x] by (auto simp: sp(3) stored_def)
qed

lemma inv_insert:
  assumes inv: "pool_inv p H P" and b: "P t = Made b" and ins: "buffer_new_insert env p b = (r, p')"
  shows "pool_inv p' (H + (case r of None \<Rightarrow> {#} | Some b' \<Rightarrow> {#b'#})) (P(t := Idle))"
proof -
  note T = pool_invD(1) [OF inv] and pv = pool_invD(6) [OF inv b]
  show ?thesis
  proof (cases "lh_lookup (bufs p) b")
    case (Some dup)
    then have dup: "stored p dup" using lookup_data [OF T] by blast
    have "r = Some dup" "p' = (ref_inc dup p)\<lparr>references := (references (ref_inc dup p))(buffer_addr b := None)\<rparr>"
      using ins Some key.lh_retrieve_lookup [OF T, of b] by (simp_all add: buffer_new_insert_def Let_def)
    then show ?thesis using inv_drop_private [OF inv_ref_inc [OF inv dup] b] by simp
  next
    case None
    obtain ok old lh where i: "lh_insert env (bufs p) b = (ok, old, lh)" by (metis prod_cases3)
    have small: "length (lh_items (bufs p)) < 2 ^ 64 - 1"
      using items_bounded [OF inv, of "buffer_addr b"] pv by (auto simp: private_buf_def)
    show ?thesis
    proof (cases ok)
      case False
      then have "lh = bufs p" using key.lh_insert_spec(1) [OF T small i] by simp
      then have "r = None" "p' = p\<lparr>references := (references p)(buffer_addr b := None)\<rparr>"
        using ins None False i key.lh_retrieve_lookup [OF T, of b] by (simp_all add: buffer_new_insert_def Let_def)
      then show ?thesis using inv_drop_private [OF inv b] by simp
    next
      case True
      then have r: "r = Some b" "p' = p\<lparr>bufs := lh\<rparr>"
        using ins None i key.lh_retrieve_lookup [OF T, of b] by (simp_all add: buffer_new_insert_def Let_def)
      note si = stored_insert [OF T small None i [unfolded eqTrueI [OF True]], folded r(2)]
      have refs: "references p' = references p" using r by simp
      have nb: "\<not> stored p b" using None by (simp add: stored_def)
      then have nH: "count H b = 0" using pool_invD(5) [OF inv] by (auto simp: count_eq_zero_iff)
      have one: "ref_exact 1 1" by (simp add: ref_exact_def)
      have "pool_inv p' (add_mset b H) (P(t := Idle))"
      proof (rule pool_invI)
        show "pool_table p'" using si(1) .
        show "buffer_addr x \<noteq> 0" if "stored p' x" for x
          using that pv pool_invD(2) [OF inv] by (auto simp: si(2) private_buf_def)
        show "\<exists>c. references p' (buffer_addr x) = Some c \<and> ref_exact c (count (add_mset b H) x)"
          if "stored p' x" for x
          using that pv pool_invD(3) [OF inv, of x] nH one nb refs
          by (cases "x = b") (auto simp: si(2) private_buf_def)
        show "x = y" if "stored p' x" "stored p' y" "buffer_addr x = buffer_addr y" for x y
          using that pv pool_invD(4) [OF inv, of x y] by (auto simp: si(2) private_buf_def)
        show "stored p' x" if "x \<in># add_mset b H" for x
          using that pool_invD(5) [OF inv] by (auto simp: si(2))
        show "private_buf p' x" if "(P(t := Idle)) t' = Made x" for t' x
        proof -
          have "t' \<noteq> t" and x: "P t' = Made x" using that by (auto split: if_splits)
          then have "buffer_addr b \<noteq> buffer_addr x" using pool_invD(7) [OF inv b x] by blast
          then show ?thesis using pool_invD(6) [OF inv x] refs by (auto simp: private_buf_def si(2))
        qed
        show "t1 = t2" if "(P(t := Idle)) t1 = Made x" "(P(t := Idle)) t2 = Made y" "buffer_addr x = buffer_addr y"
          for t1 t2 x y
          using that pool_invD(7) [OF inv, of t1 x t2 y] by (auto split: if_splits)
      qed
      then show ?thesis using r by simp
    qed
  qed
qed

text \<open>Releasing a reference that is held never aborts.\<close>

lemma inv_free:
  assumes inv: "pool_inv p H P" and b: "b \<in># H"
  obtains p' where "CRYPTO_BUFFER_free env (Some b) p = Some p'" "pool_inv p' (H - {#b#}) P"
proof -
  note T = pool_invD(1) [OF inv] and st = pool_invD(5) [OF inv b]
  obtain n where n: "count H b = Suc n" using b by (metis count_greater_zero_iff gr0_implies_Suc)
  obtain c where c: "references p (buffer_addr b) = Some c" "ref_exact c (Suc n)"
    using pool_invD(3) [OF inv st] n by auto
  obtain z c' where d: "CRYPTO_refcount_dec_and_test_zero c = Some (z, c')" "z \<Longrightarrow> n = 0"
    "\<not> z \<Longrightarrow> ref_exact c' n" using ref_exact_dec [OF c(2)] by metis
  have ne: "stored p x \<Longrightarrow> x \<noteq> b \<Longrightarrow> buffer_addr x \<noteq> buffer_addr b" for x
    using pool_invD(4) [OF inv _ st] by blast
  have pn: "P t = Made x \<Longrightarrow> buffer_addr x \<noteq> buffer_addr b" for t x
    using pool_invD(6) [OF inv, of t x] st by (auto simp: private_buf_def)
  show thesis
  proof (cases z)
    case False
    let ?p = "p\<lparr>references := (references p)(buffer_addr b \<mapsto> c')\<rparr>"
    have s: "stored ?p x = stored p x" for x by (simp add: stored_def)
    have "pool_inv ?p (H - {#b#}) P"
    proof (rule pool_invI)
      show "pool_table ?p" using T by simp
      show "\<exists>k. references ?p (buffer_addr x) = Some k \<and> ref_exact k (count (H - {#b#}) x)" if "stored ?p x" for x
        using that ne [of x] pool_invD(3) [OF inv, of x] n d(3) [OF False] by (cases "x = b") (simp_all add: s)
      show "private_buf ?p x" if "P t = Made x" for t x
        using pool_invD(6) [OF inv that] pn [OF that] by (simp add: private_buf_def s)
      show "stored ?p x" if "x \<in># H - {#b#}" for x
        using pool_invD(5) [OF inv] that by (simp add: s in_diffD)
      show "buffer_addr x \<noteq> 0" if "stored ?p x" for x using that pool_invD(2) [OF inv] by (simp add: s)
      show "x = y" if "stored ?p x" "stored ?p y" "buffer_addr x = buffer_addr y" for x y
        using that pool_invD(4) [OF inv] by (simp add: s)
      show "t1 = t2" if "P t1 = Made x" "P t2 = Made y" "buffer_addr x = buffer_addr y" for t1 t2 x y
        using pool_invD(7) [OF inv that] .
    qed
    then show thesis using that [of ?p] c d False by (simp add: CRYPTO_BUFFER_free_def)
  next
    case True
    obtain old lh where del: "lh_delete env (bufs p) b = (old, lh)" by fastforce
    note sd = stored_delete [OF T st del]
    let ?p = "p\<lparr>bufs := lh, references := (references p)(buffer_addr b := None)\<rparr>"
    have s: "stored ?p x \<longleftrightarrow> stored p x \<and> x \<noteq> b" for x using sd(3) by (simp add: stored_def)
    have "count (H - {#b#}) b = 0" using n d(2) [OF True] by simp
    then have nb: "b \<notin># H - {#b#}" by (metis count_eq_zero_iff)
    have "pool_inv ?p (H - {#b#}) P"
    proof (rule pool_invI)
      show "pool_table ?p" using sd(1) by simp
      show "\<exists>k. references ?p (buffer_addr x) = Some k \<and> ref_exact k (count (H - {#b#}) x)" if "stored ?p x" for x
        using that ne [of x] pool_invD(3) [OF inv, of x] by (auto simp: s)
      show "private_buf ?p x" if "P t = Made x" for t x
        using pool_invD(6) [OF inv that] pn [OF that] by (simp add: private_buf_def s)
      show "stored ?p x" if "x \<in># H - {#b#}" for x
        using pool_invD(5) [OF inv, of x] that nb by (auto simp: s dest: in_diffD)
      show "buffer_addr x \<noteq> 0" if "stored ?p x" for x using that pool_invD(2) [OF inv] by (simp add: s)
      show "x = y" if "stored ?p x" "stored ?p y" "buffer_addr x = buffer_addr y" for x y
        using that pool_invD(4) [OF inv] by (simp add: s)
      show "t1 = t2" if "P t1 = Made x" "P t2 = Made y" "buffer_addr x = buffer_addr y" for t1 t2 x y
        using pool_invD(7) [OF inv that] .
    qed
    then show thesis using that [of ?p] c d True del by (simp add: CRYPTO_BUFFER_free_def)
  qed
qed

lemma inv_start:
  assumes "CRYPTO_BUFFER_POOL_new env = Some p"
  shows "pool_inv p {#} (\<lambda>_. Idle)"
proof -
  obtain lh where lh: "lh_new env CRYPTO_BUFFER_hash CRYPTO_BUFFER_cmp = Some lh"
    "p = \<lparr>bufs = lh, references = (\<lambda>_. None)\<rparr>"
    using assms by (auto simp: CRYPTO_BUFFER_POOL_new_def split: if_splits option.splits)
  have T: "pool_table p" using lh_new_table [OF lh(1)] lh(2) by simp
  have "\<not> stored p x" for x using distinct_items(2) [OF T] lh_new_table [OF lh(1)] lh(2) by auto
  then show ?thesis using T by (intro pool_invI) simp_all
qed

lemma inv_step:
  assumes "pool_step env s s'" and inv: "pool_inv (pool_of s) (held s) (pcs s)"
  shows "pool_inv (pool_of s') (held s') (pcs s')"
  using assms(1)
proof cases
  case (hit t d b p)
  then have "lh_lookup (bufs (pool_of s)) (CRYPTO_BUFFER 0 d) = Some b" and p: "p = ref_inc b (pool_of s)"
    using key.lh_retrieve_lookup [OF pool_invD(1) [OF inv]]
    by (auto simp: buffer_new_lookup_def split: option.splits)
  then have "stored (pool_of s) b" using lookup_data [OF pool_invD(1) [OF inv]] by blast
  then show ?thesis using inv_ref_inc [OF inv] hit p by simp
next
  case (miss t d p)
  then have "p = pool_of s" by (auto simp: buffer_new_lookup_def split: option.splits)
  then show ?thesis using inv_pc [OF inv] miss by simp
next
  case (make t d a b p)
  then have "b = CRYPTO_BUFFER a d" "p = (pool_of s)\<lparr>references := (references (pool_of s))(a \<mapsto> 1)\<rparr>"
    by (auto simp: buffer_new_alloc_def split: if_splits)
  then show ?thesis using inv_alloc [OF inv make(3,4)] make by simp
next
  case (make_fail t d a p)
  then have "p = pool_of s" by (auto simp: buffer_new_alloc_def split: if_splits)
  then show ?thesis using inv_pc [OF inv] make_fail by simp
next
  case (insert t b r p)
  then show ?thesis using inv_insert [OF inv insert(2,3)] by simp
next
  case (up_ref b)
  then show ?thesis using inv_ref_inc [OF inv pool_invD(5) [OF inv]] by (simp add: CRYPTO_BUFFER_up_ref_def)
next
  case (free b p)
  obtain p' where "CRYPTO_BUFFER_free env (Some b) (pool_of s) = Some p'" "pool_inv p' (held s - {#b#}) (pcs s)"
    using inv_free [OF inv free(2)] .
  then show ?thesis using free by simp
qed

lemma inv_reachable: "pool_reachable env s \<Longrightarrow> pool_inv (pool_of s) (held s) (pcs s)"
proof (induction rule: pool_reachable.induct)
  case (start p)
  then show ?case using inv_start by simp
next
  case (step s s')
  then show ?case using inv_step by blast
qed

section \<open>Properties\<close>

text \<open>
  C16. However the threads interleave, every reference that a caller holds is to an object that
  is alive, whose count is at least one and exactly the number of references held unless it has
  saturated at its maximum, and releasing it never aborts and never frees the object while
  another reference is held.
\<close>

theorem pool_references_safe:
  assumes "pool_reachable env s" and "b \<in># held s"
  shows "(\<exists>c. references (pool_of s) (buffer_addr b) = Some c \<and> ref_exact c (count (held s) b)) \<and>
    (\<exists>p. CRYPTO_BUFFER_free env (Some b) (pool_of s) = Some p \<and>
       (\<forall>b' \<in># held s - {#b#}. references p (buffer_addr b') \<noteq> None))"
proof
  note inv = inv_reachable [OF assms(1)]
  show "\<exists>c. references (pool_of s) (buffer_addr b) = Some c \<and> ref_exact c (count (held s) b)"
    using pool_invD(3) [OF inv pool_invD(5) [OF inv assms(2)]] .
  obtain p where p: "CRYPTO_BUFFER_free env (Some b) (pool_of s) = Some p" "pool_inv p (held s - {#b#}) (pcs s)"
    using inv_free [OF inv assms(2)] .
  have "references p (buffer_addr b') \<noteq> None" if "b' \<in># held s - {#b#}" for b'
    using pool_invD(3) [OF p(2) pool_invD(5) [OF p(2) that]] by auto
  then show "\<exists>p. CRYPTO_BUFFER_free env (Some b) (pool_of s) = Some p \<and>
       (\<forall>b' \<in># held s - {#b#}. references p (buffer_addr b') \<noteq> None)" using p(1) by blast
qed

text \<open>Two threads that race for the same data.\<close>

definition demo_pool :: CRYPTO_BUFFER_POOL where
  "demo_pool = the (CRYPTO_BUFFER_POOL_new full_env)"

abbreviation (input) demo_1 :: CRYPTO_BUFFER where "demo_1 \<equiv> CRYPTO_BUFFER 1 [7]"
abbreviation (input) demo_2 :: CRYPTO_BUFFER where "demo_2 \<equiv> CRYPTO_BUFFER 2 [7]"

definition demo_made :: CRYPTO_BUFFER_POOL where
  "demo_made = snd (buffer_new_alloc full_env 2 (snd (buffer_new_alloc full_env 1 demo_pool [7])) [7])"

lemma run_miss:
  assumes "pool_reachable env \<lparr>pool_of = p, held = H, pcs = P\<rparr>" "P t = Idle" "buffer_new_lookup p d = (None, p')"
  shows "pool_reachable env \<lparr>pool_of = p', held = H, pcs = P(t := Missed d)\<rparr>"
  using pool_step.miss [of "\<lparr>pool_of = p, held = H, pcs = P\<rparr>" t d p' env] assms
  by (auto intro: pool_reachable.step)

lemma run_make:
  assumes "pool_reachable env \<lparr>pool_of = p, held = H, pcs = P\<rparr>" "P t = Missed d" "a \<noteq> 0" "references p a = None"
    "buffer_new_alloc env a p d = (Some b, p')"
  shows "pool_reachable env \<lparr>pool_of = p', held = H, pcs = P(t := Made b)\<rparr>"
  using pool_step.make [of "\<lparr>pool_of = p, held = H, pcs = P\<rparr>" t d a env b p'] assms
  by (auto intro: pool_reachable.step)

lemma run_insert:
  assumes "pool_reachable env \<lparr>pool_of = p, held = H, pcs = P\<rparr>" "P t = Made b"
    "buffer_new_insert env p b = (Some b', p')"
  shows "pool_reachable env \<lparr>pool_of = p', held = add_mset b' H, pcs = P(t := Idle)\<rparr>"
  using pool_step.insert [of "\<lparr>pool_of = p, held = H, pcs = P\<rparr>" t b env "Some b'" p'] assms
  by (auto intro: pool_reachable.step)

lemma demo_race: "\<exists>s. pool_reachable full_env s \<and> held s = {#demo_1, demo_1#}"
proof -
  let ?p2 = "snd (buffer_new_alloc full_env 1 demo_pool [7])"
  have 0: "CRYPTO_BUFFER_POOL_new full_env = Some demo_pool"
    by (simp add: demo_pool_def CRYPTO_BUFFER_POOL_new_def lh_new_def full_env_def)
  have l: "buffer_new_lookup demo_pool [7] = (None, demo_pool)"
  proof -
    have "fst (buffer_new_lookup demo_pool [7]) = None" by code_simp
    then show ?thesis by (auto simp: buffer_new_lookup_def split: option.splits)
  qed
  have m1: "buffer_new_alloc full_env 1 demo_pool [7] = (Some demo_1, ?p2)"
    and m2: "buffer_new_alloc full_env 2 ?p2 [7] = (Some demo_2, demo_made)"
    by (simp_all add: buffer_new_alloc_def full_env_def demo_made_def BUF_memdup_def OPENSSL_malloc_def)
  have r: "references demo_pool 1 = None" "references ?p2 2 = None" by code_simp+
  let ?p5 = "snd (buffer_new_insert full_env demo_made demo_1)"
  have i1: "buffer_new_insert full_env demo_made demo_1 = (Some demo_1, ?p5)"
  proof -
    have "fst (buffer_new_insert full_env demo_made demo_1) = Some demo_1" by code_simp
    then show ?thesis by (metis prod.collapse)
  qed
  let ?p6 = "snd (buffer_new_insert full_env ?p5 demo_2)"
  have i2: "buffer_new_insert full_env ?p5 demo_2 = (Some demo_1, ?p6)"
  proof -
    have "fst (buffer_new_insert full_env ?p5 demo_2) = Some demo_1" by code_simp
    then show ?thesis by (metis prod.collapse)
  qed
  note s0 = pool_reachable.start [OF 0]
  note s1 = run_miss [OF s0 _ l, of 0, simplified]
  note s2 = run_miss [OF s1 _ l, of 1, simplified]
  note s3 = run_make [OF s2 _ _ r(1) m1, of 0, simplified]
  note s4 = run_make [OF s3 _ _ r(2) m2, of 1, simplified]
  note s5 = run_insert [OF s4 _ i1, of 0, simplified]
  note s6 = run_insert [OF s5 _ i2, of 1, simplified]
  show ?thesis by (rule exI, rule conjI, rule s6) (simp only: pool_sys.select_convs)
qed

theorem pool_references_safe_witness:
  "\<exists>s. pool_reachable full_env s \<and>
     (\<exists>c. references (pool_of s) 1 = Some c \<and> ref_exact c 2) \<and>
     (\<exists>p. CRYPTO_BUFFER_free full_env (Some demo_1) (pool_of s) = Some p \<and> references p 1 \<noteq> None)"
proof -
  obtain s where s: "pool_reachable full_env s" "held s = {#demo_1, demo_1#}" using demo_race by blast
  then have "demo_1 \<in># held s" by simp
  from pool_references_safe [OF s(1) this] show ?thesis using s by (intro exI [of _ s]) (simp add: numeral_2_eq_2)
qed

text \<open>
  C17. The pool interns: whatever the interleaving, two references held to buffers with the same
  bytes are references to one object, and an object that won no place in the pool is never
  returned.
\<close>

theorem pool_interns:
  assumes "pool_reachable env s" and "a \<in># held s" and "b \<in># held s" and "buffer_data a = buffer_data b"
  shows "a = b \<and> lh_retrieve (bufs (pool_of s)) a = Some a"
proof -
  note inv = inv_reachable [OF assms(1)]
  have st: "stored (pool_of s) a" "stored (pool_of s) b" using pool_invD(5) [OF inv] assms(2,3) by auto
  then show ?thesis
    using stored_inj [OF pool_invD(1) [OF inv]] assms(4) key.lh_retrieve_lookup [OF pool_invD(1) [OF inv]]
    by (simp add: stored_def)
qed

theorem pool_interns_witness:
  "\<exists>s. pool_reachable full_env s \<and> lh_retrieve (bufs (pool_of s)) demo_1 = Some demo_1"
proof -
  obtain s where s: "pool_reachable full_env s" "held s = {#demo_1, demo_1#}" using demo_race by blast
  then have "demo_1 \<in># held s" by simp
  from pool_interns [OF s(1) this this refl] show ?thesis using s(1) by blast
qed

text \<open>
  C18. When every reference has been released the pool is empty, unless a count saturated: the
  assertion of \<open>CRYPTO_BUFFER_POOL_free\<close> holds.
\<close>

theorem pool_empty_when_released:
  assumes "pool_reachable env s" and "held s = {#}"
    and "\<And>a. references (pool_of s) a \<noteq> Some CRYPTO_REFCOUNT_MAX"
  shows "lh_num_items (bufs (pool_of s)) = 0"
proof -
  note inv = inv_reachable [OF assms(1)]
  have "\<not> stored (pool_of s) b" for b
    using pool_invD(3) [OF inv, of b] assms(2,3) by (auto simp: ref_exact_def unat_eq_zero)
  then have "lh_items (bufs (pool_of s)) = []" using distinct_items(2) [OF pool_invD(1) [OF inv]] by simp
  moreover have "unat (num_items (bufs (pool_of s))) = length (lh_items (bufs (pool_of s)))"
    using pool_invD(1) [OF inv] by (simp add: lh_table_def lh_ok_def)
  ultimately show ?thesis by (simp add: lh_num_items_def unat_eq_zero)
qed

text \<open>A buffer that is made, put into the pool and released.\<close>

theorem pool_empty_when_released_witness:
  "\<exists>p p'. pool_reachable full_env \<lparr>pool_of = p, held = {#demo_1#}, pcs = (\<lambda>_. Idle)\<rparr> \<and>
     lh_num_items (bufs p) = 1 \<and> CRYPTO_BUFFER_free full_env (Some demo_1) p = Some p' \<and> lh_num_items (bufs p') = 0"
proof -
  let ?p2 = "demo_pool\<lparr>references := (references demo_pool)(1 \<mapsto> 1)\<rparr>"
  let ?lh = "snd (snd (lh_insert full_env (bufs demo_pool) demo_1))"
  let ?p3 = "?p2\<lparr>bufs := ?lh\<rparr>"
  let ?lh' = "snd (lh_delete full_env ?lh demo_1)"
  let ?p4 = "?p3\<lparr>bufs := ?lh', references := (references ?p2)(1 := None)\<rparr>"
  have new: "CRYPTO_BUFFER_POOL_new full_env = Some demo_pool"
    by (simp add: demo_pool_def CRYPTO_BUFFER_POOL_new_def lh_new_def full_env_def)
  then obtain lh where "demo_pool = \<lparr>bufs = lh, references = (\<lambda>_. None)\<rparr>"
    by (auto simp: CRYPTO_BUFFER_POOL_new_def dest: sym split: if_splits option.splits)
  then have none: "references demo_pool a = None" for a by (metis CRYPTO_BUFFER_POOL.select_convs(2))
  have free: "fst (lh_insert full_env (bufs demo_pool) demo_1) = True" "lh_retrieve (bufs demo_pool) demo_1 = None"
    "lh_retrieve (bufs demo_pool) (CRYPTO_BUFFER 0 [7]) = None" by code_simp+
  have "buffer_new_lookup demo_pool [7] = (None, demo_pool)" by (simp add: buffer_new_lookup_def free(3))
  note s1 = run_miss [OF pool_reachable.start [OF new] _ this, of 0, simplified]
  have "buffer_new_alloc full_env 1 demo_pool [7] = (Some demo_1, ?p2)"
    by (simp add: buffer_new_alloc_def full_env_def BUF_memdup_def OPENSSL_malloc_def)
  note s2 = run_make [OF s1 _ _ none this, of 0, simplified]
  have "buffer_new_insert full_env ?p2 demo_1 = (Some demo_1, ?p3)"
    using free(1,2) by (cases "lh_insert full_env (bufs demo_pool) demo_1") (simp add: buffer_new_insert_def)
  moreover have "(\<lambda>_. Idle)(0 := Idle) = (\<lambda>_ :: nat. Idle)" by auto
  ultimately have s3: "pool_reachable full_env \<lparr>pool_of = ?p3, held = {#demo_1#}, pcs = (\<lambda>_. Idle)\<rparr>"
    using run_insert [OF s2, of 0 demo_1 demo_1 ?p3] by simp
  have p4: "CRYPTO_BUFFER_free full_env (Some demo_1) ?p3 = Some ?p4"
    by (cases "lh_delete full_env ?lh demo_1")
      (simp add: CRYPTO_BUFFER_free_def CRYPTO_refcount_dec_and_test_zero_def CRYPTO_REFCOUNT_MAX_def)
  then have "pool_reachable full_env \<lparr>pool_of = ?p4, held = {#}, pcs = (\<lambda>_. Idle)\<rparr>"
    using pool_step.free [of demo_1 "\<lparr>pool_of = ?p3, held = {#demo_1#}, pcs = (\<lambda>_. Idle)\<rparr>" full_env ?p4] s3
    by (auto intro: pool_reachable.step)
  from pool_empty_when_released [OF this] have "lh_num_items (bufs ?p4) = 0" by (simp add: none)
  moreover have "lh_num_items ?lh = 1" by code_simp
  ultimately show ?thesis using s3 p4 by (intro exI [of _ ?p3] exI [of _ ?p4]) simp
qed

end
