(* ===== verification/Varint.thy ===== *)
theory Varint
  imports Prelude
begin

text \<open>
  The base-128 varints of protocol buffers and of leveldb, as byte strings: which strings are
  varints, the number one stands for, and the one the encoders write. Both libraries are
  proved against these definitions.
\<close>

section \<open>Groups of bytes\<close>

text \<open>
  A varint on the wire is a group of bytes of which all but the last have the top bit set;
  its value reads the low seven bits of each, the least significant group first.
\<close>

fun varint_group :: "bytes \<Rightarrow> bool" where
  "varint_group [] = False"
| "varint_group (b # bs) = (if b AND 0x80 = 0 then bs = [] else varint_group bs)"

primrec varint_value :: "bytes \<Rightarrow> nat" where
  "varint_value [] = 0"
| "varint_value (b # bs) = unat (b AND 0x7f) + 128 * varint_value bs"

lemma varint_group_unique:
  "varint_group g \<Longrightarrow> varint_group h \<Longrightarrow> g @ x = h @ y \<Longrightarrow> g = h"
  by (induction g arbitrary: h; case_tac h) (auto split: if_splits)

lemma seven_bits_OR:
  "(ucast (b AND 0x7f :: u8) :: 'a::len word) OR push_bit 7 w = ucast (b AND 0x7f) + 128 * w"
proof -
  have "b AND 0x7f = take_bit 7 b" by (simp add: take_bit_eq_mask mask_eq_decr_exp)
  then have "(ucast (b AND 0x7f) :: 'a word) AND push_bit 7 w = 0"
    by (intro bit_eqI) (auto simp: bit_and_iff bit_push_bit_iff bit_ucast_iff bit_take_bit_iff)
  then have "(ucast (b AND 0x7f) :: 'a word) OR push_bit 7 w = ucast (b AND 0x7f) + push_bit 7 w"
    by (rule word_disjoint_OR_add)
  then show ?thesis by (simp add: push_bit_eq_mult mult.commute)
qed

lemma of_nat_varint_Cons:
  "(of_nat (varint_value (b # bs)) :: 'a::len word) = ucast (b AND 0x7f) OR push_bit 7 (of_nat (varint_value bs))"
  by (simp only: seven_bits_OR) simp

lemma varint_value_single: "(of_nat (varint_value [b]) :: 'a::len word) = ucast (b AND 0x7f)"
  by simp

lemma varint_value_step:
  "(r OR push_bit k (ucast (b AND 0x7f))) OR push_bit (k + 7) (of_nat (varint_value g)) =
   (r OR push_bit k (of_nat (varint_value (b # g))) :: 'a::len word)"
  unfolding of_nat_varint_Cons by (simp add: push_bit_or or.assoc)

text \<open>The groups at the front of a string, by its first byte.\<close>

lemma varint_group_Cons_ex:
  "(\<exists>g rest. varint_group g \<and> b # bs = g @ rest \<and> P g) \<longleftrightarrow>
   (if b AND 0x80 = 0 then P [b] else (\<exists>g rest. varint_group g \<and> bs = g @ rest \<and> P (b # g)))"
proof (cases "b AND 0x80 = 0")
  case True
  then show ?thesis by (auto simp: Cons_eq_append_conv intro: exI [of _ "[b]"])
next
  case False
  then show ?thesis by (auto simp: Cons_eq_append_conv intro: exI [of _ "b # _"])
qed

lemma low_byte_value:
  assumes "b AND 0x80 = 0"
  shows "b AND 0x7f = (b :: u8)"
proof -
  have "(0x7f OR 0x80 :: u8) = -1" by code_simp
  then have "b = b AND (0x7f OR 0x80)" by (simp only: word_and_max)
  also have "\<dots> = (b AND 0x7f) OR (b AND 0x80)" by (rule bit.conj_disj_distrib)
  finally show ?thesis using assms by simp
qed

lemma varint_group_Cons_eq:
  "varint_group g \<and> b # bs = g @ rest \<longleftrightarrow>
     (if b AND 0x80 = 0 then g = [b] \<and> rest = bs else (\<exists>h. g = b # h \<and> varint_group h \<and> bs = h @ rest))"
  by (cases g) auto

text \<open>A byte widened to a word.\<close>

lemma byte_masks:
  assumes "8 \<le> LENGTH('a)"
  shows "(ucast (b :: u8) :: 'a::len word) AND 128 = ucast (b AND 0x80)"
    "(ucast (b :: u8) :: 'a::len word) AND 127 = ucast (b AND 0x7f)"
    "(ucast (b AND 0x80) :: 'a word) = 0 \<longleftrightarrow> b AND 0x80 = 0"
proof -
  have c: "(128 :: 'a word) = ucast (128 :: u8)" "(127 :: 'a word) = ucast (127 :: u8)" by simp_all
  show "(ucast (b :: u8) :: 'a::len word) AND 128 = ucast (b AND 0x80)"
    "(ucast (b :: u8) :: 'a::len word) AND 127 = ucast (b AND 0x7f)"
    unfolding c by (simp_all only: unsigned_and_eq)
  have "unat (ucast (b AND 0x80) :: 'a word) = unat (b AND 0x80)"
    using assms by (intro unat_ucast_up) simp
  then show "(ucast (b AND 0x80) :: 'a word) = 0 \<longleftrightarrow> b AND 0x80 = 0"
    by (metis unat_eq_zero)
qed

subsection \<open>The encoder's groups\<close>

fun varint_bytes :: "nat \<Rightarrow> bytes" where
  "varint_bytes n = (if n < 128 then [of_nat n] else of_nat (n mod 128 + 128) # varint_bytes (n div 128))"

declare varint_bytes.simps [simp del]

lemma low_bits_of_nat: "unat ((of_nat n :: u8) AND 0x7f) = n mod 128"
proof -
  have "(0x7f :: u8) = mask 7" by code_simp
  then show ?thesis by (simp only: unat_and_mask) (simp add: byte_simps mod_mod_cancel)
qed

lemma top_bit_of_nat: "(of_nat n :: u8) AND 0x80 = 0 \<longleftrightarrow> even (n div 128)"
proof -
  have "(0x80 :: u8) = 2 ^ 7" by simp
  then have "(of_nat n :: u8) AND 0x80 = 0 \<longleftrightarrow> \<not> bit (of_nat n :: u8) 7"
    by (simp only: and_exp_eq_0_iff_not_bit)
  also have "\<dots> \<longleftrightarrow> \<not> bit n 7" by (simp only: bit_of_nat_iff) simp
  finally show ?thesis by (simp add: bit_iff_odd)
qed

lemma varint_bytes_group [simp]: "varint_group (varint_bytes n)"
proof (induction n rule: varint_bytes.induct)
  case (1 n)
  have "(n mod 128 + 128) div 128 = (1 :: nat)" by (simp add: div_add_self2)
  with 1 show ?case by (subst varint_bytes.simps) (simp add: top_bit_of_nat del: of_nat_add)
qed

lemma varint_bytes_value [simp]: "varint_value (varint_bytes n) = n"
proof (induction n rule: varint_bytes.induct)
  case (1 n)
  then show ?case by (subst varint_bytes.simps) (simp add: low_bits_of_nat del: of_nat_add)
qed

lemma varint_bytes_length: "n < 128 ^ Suc k \<Longrightarrow> length (varint_bytes n) \<le> Suc k"
proof (induction k arbitrary: n)
  case (Suc k)
  then have "n div 128 < 128 ^ Suc k" by (simp add: less_mult_imp_div_less mult.commute)
  from Suc.IH [OF this] show ?case by (subst varint_bytes.simps) simp
qed (subst varint_bytes.simps, simp)

lemma varint_bytes_length_u64: "length (varint_bytes (unat (v :: u64))) \<le> 10"
proof (rule varint_bytes_length [of _ 9, simplified])
  show "unat v < 1180591620717411303424" using unat_bound [of v] by simp
qed


lemma varint_byte:
  "(ucast (((v :: u64) AND 0x7f) OR 0x80) :: u8) = of_nat (unat v mod 128 + 128)"
proof -
  have m: "(0x7f :: u64) = mask 7" "(0x80 :: u64) = push_bit 7 1" by code_simp+
  have "unat (push_bit 7 1 OR (v AND mask 7)) = unat (1 :: u64) * 2 ^ 7 + unat (v AND mask 7)"
    by (rule unat_push_bit_OR) (simp_all add: unat_and_mask)
  then have "unat ((v AND 0x7f) OR 0x80) = unat v mod 128 + 128"
    by (simp only: m unat_and_mask or.commute) simp
  then show ?thesis by (metis of_nat_unat ucast_id)
qed

lemma fixed_byte:
  assumes "8 \<le> LENGTH('a)"
  shows "(ucast (w AND 0xff) :: u8) = ucast (w :: 'a::len word)"
proof -
  have m: "(0xff :: 'a word) = mask 8" by (simp add: mask_eq_decr_exp)
  show ?thesis unfolding m
    by (rule bit_eqI) (auto simp: bit_ucast_iff bit_and_iff bit_mask_iff dest: bit_imp_le_length)
qed

lemma byte_of_unat: "(of_nat (unat w div 2 ^ n) :: u8) = ucast (drop_bit n (w :: 'a::len word))"
  by (simp flip: unat_drop_bit)

lemma le_bytes_u32:
  "le_bytes 4 (unat (v :: u32)) = [ucast v, ucast (drop_bit 8 v), ucast (drop_bit 16 v), ucast (drop_bit 24 v)]"
proof -
  have n: "(4 :: nat) = (Suc (Suc (Suc (Suc 0))))" by simp
  show ?thesis using byte_of_unat [of v 8] byte_of_unat [of v 16] byte_of_unat [of v 24]
    by (simp only: n le_bytes.simps) (simp flip: div_mult2_eq)
qed

lemma le_bytes_u64:
  "le_bytes 8 (unat (v :: u64)) = [ucast v, ucast (drop_bit 8 v), ucast (drop_bit 16 v), ucast (drop_bit 24 v),
     ucast (drop_bit 32 v), ucast (drop_bit 40 v), ucast (drop_bit 48 v), ucast (drop_bit 56 v)]"
proof -
  have n: "(8 :: nat) = (Suc (Suc (Suc (Suc (Suc (Suc (Suc (Suc 0))))))))" by simp
  show ?thesis using byte_of_unat [of v 8] byte_of_unat [of v 16] byte_of_unat [of v 24]
    byte_of_unat [of v 32] byte_of_unat [of v 40] byte_of_unat [of v 48] byte_of_unat [of v 56]
    by (simp only: n le_bytes.simps) (simp flip: div_mult2_eq)
qed

lemma varint_last_byte: "(of_nat (n mod 128 + 128) :: u8) AND 0x7f = of_nat (n mod 128)"
  by (rule word_unat_eq_iff [THEN iffD2]) (simp only: low_bits_of_nat, simp add: byte_simps)

end
