(* ===== verification/Pb_Stream.thy ===== *)
theory Pb_Stream
  imports Varint
begin

text \<open>
  The streams and the wire format of nanopb (\<open>pb_encode.c\<close>, \<open>pb_decode.c\<close>), built
  as the pods build it: with error messages, with \<open>PB_FIELD_32BIT\<close>, without
  \<open>PB_BUFFER_ONLY\<close> and without \<open>PB_ENABLE_MALLOC\<close>. A stream's callback is a function
  on the callback's own state. The buffer of \<open>pb_istream_from_buffer\<close> is the list of bytes
  from the read pointer on; the buffer of \<open>pb_ostream_from_buffer\<close> is the array with the
  write position.
\<close>

section \<open>Definitions\<close>

subsection \<open>Input streams\<close>

text \<open>
  Either \<open>buf_read\<close> with its pointer, or a callback of the application, which delivers the
  bytes or fails.
\<close>

datatype 's pb_source = Buf_read bytes | In_callback "'s \<Rightarrow> nat \<Rightarrow> bytes option \<times> 's" 's

record 's pb_istream =
  in_source :: "'s pb_source"
  bytes_left :: size_t
  in_errmsg :: "string option"

text \<open>\<open>PB_SET_ERROR\<close> keeps the first message.\<close>

definition in_error :: "'s pb_istream \<Rightarrow> string \<Rightarrow> 's pb_istream" where
  "in_error s msg = s\<lparr>in_errmsg := (case in_errmsg s of Some m \<Rightarrow> Some m | None \<Rightarrow> Some msg)\<rparr>"

definition pb_istream_from_buffer :: "bytes \<Rightarrow> size_t \<Rightarrow> 's pb_istream" where
  "pb_istream_from_buffer buf bufsize = \<lparr>in_source = Buf_read buf, bytes_left = bufsize, in_errmsg = None\<rparr>"

text \<open>The call of the stream's callback for \<open>n\<close> bytes.\<close>

definition source_read :: "'s pb_source \<Rightarrow> nat \<Rightarrow> bytes option \<times> 's pb_source" where
  "source_read src n =
     (case src of
        Buf_read ptr \<Rightarrow> (Some (take n ptr), Buf_read (drop n ptr))
      | In_callback f st \<Rightarrow> (case f st n of (r, st) \<Rightarrow> (r, In_callback f st)))"

text \<open>\<open>pb_read\<close> into a buffer.\<close>

definition pb_read_buf :: "'s pb_istream \<Rightarrow> size_t \<Rightarrow> (bytes, 's pb_istream) outcome" where
  "pb_read_buf s cnt =
     (if bytes_left s < cnt then (None, in_error s ''end-of-stream'')
      else
        (case source_read (in_source s) (unat cnt) of
           (None, src) \<Rightarrow> (None, in_error (s\<lparr>in_source := src\<rparr>) ''io error'')
         | (Some bs, src) \<Rightarrow> (Some bs, s\<lparr>in_source := src, bytes_left := bytes_left s - cnt\<rparr>)))"

text \<open>\<open>pb_read\<close> with a \<open>NULL\<close> buffer: a callback is asked for 16 bytes at a time.\<close>

function pb_skip_bytes :: "'s pb_istream \<Rightarrow> size_t \<Rightarrow> (unit, 's pb_istream) outcome" where
  "pb_skip_bytes s cnt =
     (case in_source s of
        Buf_read _ \<Rightarrow> (case pb_read_buf s cnt of (r, s) \<Rightarrow> (map_option (\<lambda>_. ()) r, s))
      | In_callback _ _ \<Rightarrow>
          if cnt > 16 then
            (case pb_read_buf s 16 of
               (None, s) \<Rightarrow> (None, s)
             | (Some _, s) \<Rightarrow> pb_skip_bytes s (cnt - 16))
          else (case pb_read_buf s cnt of (r, s) \<Rightarrow> (map_option (\<lambda>_. ()) r, s)))"
  by pat_completeness auto
termination
proof (relation "measure (\<lambda>(s, cnt). unat cnt)")
  show "((s', cnt - 16), s, cnt) \<in> measure (\<lambda>(s, cnt). unat cnt)" if "16 < cnt" for s s' :: "'s pb_istream" and cnt :: size_t
    using that by (simp add: unat_sub_if' word_less_nat_alt)
qed simp

declare pb_skip_bytes.simps [simp del]

definition pb_readbyte :: "'s pb_istream \<Rightarrow> (u8, 's pb_istream) outcome" where
  "pb_readbyte s =
     (if bytes_left s = 0 then (None, in_error s ''end-of-stream'')
      else
        (case source_read (in_source s) 1 of
           (None, src) \<Rightarrow> (None, in_error (s\<lparr>in_source := src\<rparr>) ''io error'')
         | (Some bs, src) \<Rightarrow> (Some (hd bs), s\<lparr>in_source := src, bytes_left := bytes_left s - 1\<rparr>)))"

subsection \<open>Decoding\<close>

function varint32_loop :: "'s pb_istream \<Rightarrow> nat \<Rightarrow> u32 \<Rightarrow> (u32, 's pb_istream) outcome" where
  "varint32_loop s bitpos result =
     (if bitpos \<ge> 32 then (None, in_error s ''varint overflow'')
      else
        (case pb_readbyte s of
           (None, s) \<Rightarrow> (None, s)
         | (Some byte, s) \<Rightarrow>
             let result = result OR push_bit bitpos (ucast (byte AND 0x7f)); bitpos = bitpos + 7 in
             if byte AND 0x80 \<noteq> 0 then varint32_loop s bitpos result else (Some result, s)))"
  by pat_completeness auto
termination by (relation "measure (\<lambda>(_, bitpos, _). 32 - bitpos)") auto

definition pb_decode_varint32 :: "'s pb_istream \<Rightarrow> (u32, 's pb_istream) outcome" where
  "pb_decode_varint32 s =
     (case pb_readbyte s of
        (None, s) \<Rightarrow> (None, s)
      | (Some byte, s) \<Rightarrow>
          if byte AND 0x80 = 0 then (Some (ucast byte), s)
          else varint32_loop s 7 (ucast (byte AND 0x7f)))"

function varint_loop :: "'s pb_istream \<Rightarrow> nat \<Rightarrow> u64 \<Rightarrow> (u64, 's pb_istream) outcome" where
  "varint_loop s bitpos result =
     (if bitpos \<ge> 64 then (None, in_error s ''varint overflow'')
      else
        (case pb_readbyte s of
           (None, s) \<Rightarrow> (None, s)
         | (Some byte, s) \<Rightarrow>
             let result = result OR push_bit bitpos (ucast (byte AND 0x7f)); bitpos = bitpos + 7 in
             if byte AND 0x80 \<noteq> 0 then varint_loop s bitpos result else (Some result, s)))"
  by pat_completeness auto
termination by (relation "measure (\<lambda>(_, bitpos, _). 64 - bitpos)") auto

declare varint32_loop.simps [simp del] varint_loop.simps [simp del]

definition pb_decode_varint :: "'s pb_istream \<Rightarrow> (u64, 's pb_istream) outcome" where
  "pb_decode_varint s = varint_loop s 0 0"

lemma pb_read_buf_left:
  "pb_read_buf s n = (Some bs, s') \<Longrightarrow> n \<le> bytes_left s \<and> bytes_left s' = bytes_left s - n"
  by (auto simp: pb_read_buf_def not_less split: if_splits option.splits prod.splits)

function pb_skip_varint :: "'s pb_istream \<Rightarrow> (unit, 's pb_istream) outcome" where
  "pb_skip_varint s =
     (case pb_read_buf s 1 of
        (None, s) \<Rightarrow> (None, s)
      | (Some bs, s) \<Rightarrow> if hd bs AND 0x80 \<noteq> 0 then pb_skip_varint s else (Some (), s))"
  by pat_completeness auto
termination
  by (relation "measure (\<lambda>s. unat (bytes_left s))")
    (auto dest!: pb_read_buf_left [OF sym] simp: unat_sub_if' word_le_nat_alt)

declare pb_skip_varint.simps [simp del]

definition pb_skip_string :: "'s pb_istream \<Rightarrow> (unit, 's pb_istream) outcome" where
  "pb_skip_string s =
     (case pb_decode_varint32 s of
        (None, s) \<Rightarrow> (None, s)
      | (Some len, s) \<Rightarrow> pb_skip_bytes s (ucast len))"

text \<open>The wire types; the code casts any number from 0 to 7 to the enumeration.\<close>

type_synonym pb_wire_type = u32

abbreviation (input) PB_WT_VARINT :: pb_wire_type where "PB_WT_VARINT \<equiv> 0"
abbreviation (input) PB_WT_64BIT :: pb_wire_type where "PB_WT_64BIT \<equiv> 1"
abbreviation (input) PB_WT_STRING :: pb_wire_type where "PB_WT_STRING \<equiv> 2"
abbreviation (input) PB_WT_32BIT :: pb_wire_type where "PB_WT_32BIT \<equiv> 5"

text \<open>The wire type and tag on success, \<open>*eof\<close>, and the stream.\<close>

definition pb_decode_tag :: "'s pb_istream \<Rightarrow> (pb_wire_type \<times> u32) option \<times> bool \<times> 's pb_istream" where
  "pb_decode_tag s =
     (case pb_decode_varint32 s of
        (None, s) \<Rightarrow> (None, bytes_left s = 0, s)
      | (Some temp, s) \<Rightarrow>
          if temp = 0 then (None, True, s)
          else (Some (temp AND 7, drop_bit 3 temp), False, s))"

definition pb_skip_field :: "'s pb_istream \<Rightarrow> pb_wire_type \<Rightarrow> (unit, 's pb_istream) outcome" where
  "pb_skip_field s wire_type =
     (if wire_type = PB_WT_VARINT then pb_skip_varint s
      else if wire_type = PB_WT_64BIT then pb_skip_bytes s 8
      else if wire_type = PB_WT_STRING then pb_skip_string s
      else if wire_type = PB_WT_32BIT then pb_skip_bytes s 4
      else (None, in_error s ''invalid wire_type''))"

text \<open>The loop of \<open>read_raw_value\<close>: the bytes of a varint, at most \<open>max_size\<close> of them.\<close>

fun raw_varint :: "nat \<Rightarrow> 's pb_istream \<Rightarrow> (bytes, 's pb_istream) outcome" where
  "raw_varint 0 s = (None, s)"
| "raw_varint (Suc room) s =
     (case pb_read_buf s 1 of
        (None, s) \<Rightarrow> (None, s)
      | (Some bs, s) \<Rightarrow>
          if hd bs AND 0x80 \<noteq> 0 then
            (case raw_varint room s of (r, s) \<Rightarrow> (map_option ((#) (hd bs)) r, s))
          else (Some [hd bs], s))"

definition read_raw_value :: "'s pb_istream \<Rightarrow> pb_wire_type \<Rightarrow> nat \<Rightarrow> (bytes, 's pb_istream) outcome" where
  "read_raw_value s wire_type max_size =
     (if wire_type = PB_WT_VARINT then raw_varint max_size s
      else if wire_type = PB_WT_64BIT then pb_read_buf s 8
      else if wire_type = PB_WT_32BIT then pb_read_buf s 4
      else (None, in_error s ''invalid wire_type''))"

text \<open>The substream, if made, and the parent stream.\<close>

definition pb_make_string_substream :: "'s pb_istream \<Rightarrow> ('s pb_istream, 's pb_istream) outcome" where
  "pb_make_string_substream s =
     (case pb_decode_varint32 s of
        (None, s) \<Rightarrow> (None, s)
      | (Some len, s) \<Rightarrow>
          if bytes_left s < ucast len then (None, in_error s ''parent stream too short'')
          else (Some (s\<lparr>bytes_left := ucast len\<rparr>), s\<lparr>bytes_left := bytes_left s - ucast len\<rparr>))"

definition pb_close_string_substream :: "'s pb_istream \<Rightarrow> 's pb_istream \<Rightarrow> (unit, 's pb_istream) outcome" where
  "pb_close_string_substream s sub =
     (case (if bytes_left sub \<noteq> 0 then pb_skip_bytes sub (bytes_left sub) else (Some (), sub)) of
        (None, sub) \<Rightarrow> (None, s)
      | (Some _, sub) \<Rightarrow> (Some (), s\<lparr>in_source := in_source sub, in_errmsg := in_errmsg sub\<rparr>))"

definition pb_decode_svarint :: "'s pb_istream \<Rightarrow> (u64, 's pb_istream) outcome" where
  "pb_decode_svarint s =
     (case pb_decode_varint s of
        (None, s) \<Rightarrow> (None, s)
      | (Some v, s) \<Rightarrow>
          (Some (if v AND 1 \<noteq> 0 then NOT (drop_bit 1 v) else drop_bit 1 v), s))"

definition pb_decode_fixed32 :: "'s pb_istream \<Rightarrow> (u32, 's pb_istream) outcome" where
  "pb_decode_fixed32 s =
     (case pb_read_buf s 4 of
        (None, s) \<Rightarrow> (None, s)
      | (Some b, s) \<Rightarrow>
          (Some (ucast (b ! 0) OR push_bit 8 (ucast (b ! 1)) OR push_bit 16 (ucast (b ! 2)) OR
                 push_bit 24 (ucast (b ! 3))), s))"

definition pb_decode_fixed64 :: "'s pb_istream \<Rightarrow> (u64, 's pb_istream) outcome" where
  "pb_decode_fixed64 s =
     (case pb_read_buf s 8 of
        (None, s) \<Rightarrow> (None, s)
      | (Some b, s) \<Rightarrow>
          (Some (ucast (b ! 0) OR push_bit 8 (ucast (b ! 1)) OR push_bit 16 (ucast (b ! 2)) OR
                 push_bit 24 (ucast (b ! 3)) OR push_bit 32 (ucast (b ! 4)) OR push_bit 40 (ucast (b ! 5)) OR
                 push_bit 48 (ucast (b ! 6)) OR push_bit 56 (ucast (b ! 7))), s))"

subsection \<open>Output streams\<close>

text \<open>\<open>callback\<close> is \<open>NULL\<close> for a stream that only counts.\<close>

record 's pb_ostream =
  callback :: "('s \<Rightarrow> bytes \<Rightarrow> bool \<times> 's) option"
  out_state :: 's
  max_size :: size_t
  bytes_written :: size_t
  out_errmsg :: "string option"

definition out_error :: "'s pb_ostream \<Rightarrow> string \<Rightarrow> 's pb_ostream" where
  "out_error s msg = s\<lparr>out_errmsg := (case out_errmsg s of Some m \<Rightarrow> Some m | None \<Rightarrow> Some msg)\<rparr>"

definition buf_write :: "bytes \<times> nat \<Rightarrow> bytes \<Rightarrow> bool \<times> bytes \<times> nat" where
  "buf_write st bs = (case st of (arr, pos) \<Rightarrow> (True, poke arr pos bs, pos + length bs))"

definition pb_ostream_from_buffer :: "bytes \<Rightarrow> size_t \<Rightarrow> (bytes \<times> nat) pb_ostream" where
  "pb_ostream_from_buffer buf bufsize =
     \<lparr>callback = Some buf_write, out_state = (buf, 0), max_size = bufsize, bytes_written = 0, out_errmsg = None\<rparr>"

definition PB_OSTREAM_SIZING :: "'s \<Rightarrow> 's pb_ostream" where
  "PB_OSTREAM_SIZING st = \<lparr>callback = None, out_state = st, max_size = 0, bytes_written = 0, out_errmsg = None\<rparr>"

text \<open>\<open>count\<close> bytes of \<open>buf\<close>, which is not read by a counting stream.\<close>

definition pb_write :: "'s pb_ostream \<Rightarrow> bytes \<Rightarrow> size_t \<Rightarrow> bool \<times> 's pb_ostream" where
  "pb_write s buf cnt =
     (case callback s of
        Some cb \<Rightarrow>
          if bytes_written s + cnt > max_size s then (False, out_error s ''stream full'')
          else
            (case cb (out_state s) (take (unat cnt) buf) of
               (False, st) \<Rightarrow> (False, out_error (s\<lparr>out_state := st\<rparr>) ''io error'')
             | (True, st) \<Rightarrow> (True, s\<lparr>out_state := st, bytes_written := bytes_written s + cnt\<rparr>))
      | None \<Rightarrow> (True, s\<lparr>bytes_written := bytes_written s + cnt\<rparr>))"

subsection \<open>Encoding\<close>

text \<open>The loop that fills \<open>buffer\<close>, and the clearing of the last continuation bit.\<close>

function varint_buffer :: "u64 \<Rightarrow> bytes" where
  "varint_buffer v = (if v = 0 then [] else (ucast ((v AND 0x7f) OR 0x80)) # varint_buffer (drop_bit 7 v))"
  by pat_completeness auto
termination
proof (relation "measure unat")
  show "(drop_bit 7 v, v) \<in> measure unat" if "v \<noteq> 0" for v :: u64
    using that by (simp add: unat_drop_bit unat_gt_0 div_less_dividend)
qed simp

declare varint_buffer.simps [simp del]

definition pb_encode_varint :: "'s pb_ostream \<Rightarrow> u64 \<Rightarrow> bool \<times> 's pb_ostream" where
  "pb_encode_varint s v =
     (if v \<le> 0x7f then pb_write s [ucast v] 1
      else
        let buffer = varint_buffer v; i = length buffer;
            buffer = buffer[i - 1 := buffer ! (i - 1) AND 0x7f]
        in pb_write s buffer (of_nat i))"

text \<open>The \<open>int64_t\<close> argument is its word.\<close>

definition pb_encode_svarint :: "'s pb_ostream \<Rightarrow> u64 \<Rightarrow> bool \<times> 's pb_ostream" where
  "pb_encode_svarint s v =
     (let zigzagged = (if sint v < 0 then NOT (push_bit 1 v) else push_bit 1 v)
      in pb_encode_varint s zigzagged)"

definition pb_encode_fixed32 :: "'s pb_ostream \<Rightarrow> u32 \<Rightarrow> bool \<times> 's pb_ostream" where
  "pb_encode_fixed32 s v =
     pb_write s [ucast (v AND 0xff), ucast (drop_bit 8 v AND 0xff), ucast (drop_bit 16 v AND 0xff),
                 ucast (drop_bit 24 v AND 0xff)] 4"

definition pb_encode_fixed64 :: "'s pb_ostream \<Rightarrow> u64 \<Rightarrow> bool \<times> 's pb_ostream" where
  "pb_encode_fixed64 s v =
     pb_write s [ucast (v AND 0xff), ucast (drop_bit 8 v AND 0xff), ucast (drop_bit 16 v AND 0xff),
                 ucast (drop_bit 24 v AND 0xff), ucast (drop_bit 32 v AND 0xff), ucast (drop_bit 40 v AND 0xff),
                 ucast (drop_bit 48 v AND 0xff), ucast (drop_bit 56 v AND 0xff)] 8"

definition pb_encode_tag :: "'s pb_ostream \<Rightarrow> pb_wire_type \<Rightarrow> u32 \<Rightarrow> bool \<times> 's pb_ostream" where
  "pb_encode_tag s wiretype field_number =
     pb_encode_varint s (push_bit 3 (ucast field_number) OR ucast wiretype)"

definition pb_encode_string :: "'s pb_ostream \<Rightarrow> bytes \<Rightarrow> size_t \<Rightarrow> bool \<times> 's pb_ostream" where
  "pb_encode_string s buffer n =
     (case pb_encode_varint s n of
        (False, s) \<Rightarrow> (False, s)
      | (True, s) \<Rightarrow> pb_write s buffer n)"


section \<open>Streams over a buffer\<close>

text \<open>
  The abstract contents of an input stream over a buffer are the bytes inside its window of
  \<open>bytes_left\<close> bytes; \<open>advance n\<close> is the stream after \<open>n\<close> of them.
\<close>

definition buffered :: "'s pb_istream \<Rightarrow> bool" where
  "buffered s \<longleftrightarrow> (case in_source s of Buf_read ptr \<Rightarrow> unat (bytes_left s) \<le> length ptr | In_callback _ _ \<Rightarrow> False)"

definition stream_data :: "'s pb_istream \<Rightarrow> bytes" where
  "stream_data s = (case in_source s of Buf_read ptr \<Rightarrow> take (unat (bytes_left s)) ptr | In_callback _ _ \<Rightarrow> [])"

definition advance :: "nat \<Rightarrow> 's pb_istream \<Rightarrow> 's pb_istream" where
  "advance n s =
     (case in_source s of
        Buf_read ptr \<Rightarrow> s\<lparr>in_source := Buf_read (drop n ptr), bytes_left := bytes_left s - of_nat n\<rparr>
      | In_callback _ _ \<Rightarrow> s)"

lemma buffered_length: "buffered s \<Longrightarrow> length (stream_data s) = unat (bytes_left s)"
  by (auto simp: buffered_def stream_data_def split: pb_source.splits)

lemma buffered_empty: "buffered s \<Longrightarrow> bytes_left s = 0 \<longleftrightarrow> stream_data s = []"
  by (metis buffered_length length_0_conv unat_eq_zero)

lemma unat_minus_of_nat:
  "n \<le> unat w \<Longrightarrow> unat (w - of_nat n :: size_t) = unat w - n"
  using unat_bound [of w] by (simp add: unat_sub_if' unat_of_nat_eq)

lemma advance_in [simp]: "in_errmsg (advance n s) = in_errmsg s"
  by (simp add: advance_def split: pb_source.splits)

lemma advance_buffered:
  assumes "buffered s" "n \<le> length (stream_data s)"
  shows "buffered (advance n s)" "stream_data (advance n s) = drop n (stream_data s)"
  using assms by (auto simp: buffered_def stream_data_def advance_def unat_minus_of_nat min_def drop_take
      split: pb_source.splits if_splits)

lemma advance_0 [simp]: "advance 0 s = s"
  by (simp add: advance_def split: pb_source.splits)

lemma advance_advance: "advance m (advance n s) = advance (n + m) s"
  by (simp add: advance_def add.commute diff_diff_add split: pb_source.splits)

lemma pb_istream_from_buffer_buffered:
  "unat n \<le> length buf \<Longrightarrow> buffered (pb_istream_from_buffer buf n)"
  "stream_data (pb_istream_from_buffer buf n) = take (unat n) buf"
  by (simp_all add: buffered_def stream_data_def pb_istream_from_buffer_def)

lemma pb_read_buf_buffered:
  assumes "buffered s"
  shows "pb_read_buf s n =
    (if unat n \<le> length (stream_data s) then (Some (take (unat n) (stream_data s)), advance (unat n) s)
     else (None, in_error s ''end-of-stream''))"
  using assms
  by (auto simp: buffered_def stream_data_def pb_read_buf_def advance_def source_read_def word_less_nat_alt
      min_def split: pb_source.splits)

lemma pb_skip_bytes_buffered:
  assumes "buffered s"
  shows "pb_skip_bytes s n =
    (if unat n \<le> length (stream_data s) then (Some (), advance (unat n) s)
     else (None, in_error s ''end-of-stream''))"
proof -
  have "pb_skip_bytes s n = (case pb_read_buf s n of (r, s) \<Rightarrow> (map_option (\<lambda>_. ()) r, s))"
    using assms by (subst pb_skip_bytes.simps) (simp add: buffered_def split: pb_source.splits)
  then show ?thesis by (simp add: pb_read_buf_buffered [OF assms])
qed

lemma pb_readbyte_buffered:
  assumes "buffered s"
  shows "pb_readbyte s =
    (case stream_data s of [] \<Rightarrow> (None, in_error s ''end-of-stream'') | b # _ \<Rightarrow> (Some b, advance 1 s))"
proof (cases "stream_data s")
  case Nil
  then show ?thesis using buffered_empty [OF assms] by (simp add: pb_readbyte_def)
next
  case (Cons b bs)
  then have "bytes_left s \<noteq> 0" using buffered_empty [OF assms] by simp
  with Cons show ?thesis using assms
    by (auto simp: pb_readbyte_def source_read_def buffered_def stream_data_def advance_def take_Suc_conv_app_nth
        take_eq_Nil split: pb_source.splits) (metis hd_take gr0I length_0_conv list.sel(1) list.simps(3) take_eq_Nil)+
qed


section \<open>Varints\<close>

lemma varint_loop_exact:
  assumes "buffered s"
  shows "varint_loop s (7 * k) r = (Some v, s') \<longleftrightarrow>
    (\<exists>g rest. varint_group g \<and> stream_data s = g @ rest \<and> length g + k \<le> 10 \<and>
       v = r OR push_bit (7 * k) (of_nat (varint_value g)) \<and> s' = advance (length g) s)"
  using assms
proof (induction "10 - k" arbitrary: k s r)
  case 0
  then have "64 \<le> 7 * k" by simp
  moreover have "length g + k > 10" if "varint_group g" for g using that 0 by (cases g) auto
  ultimately show ?case by (subst varint_loop.simps) (auto simp: not_le)
next
  case (Suc n)
  then have k: "k < 10" and n: "n = 10 - Suc k" by simp_all
  show ?case
  proof (cases "stream_data s")
    case Nil
    then show ?thesis using k by (subst varint_loop.simps) (auto simp: pb_readbyte_buffered [OF Suc.prems])
  next
    case (Cons b bs)
    have adv: "buffered (advance 1 s)" "stream_data (advance 1 s) = bs"
      using advance_buffered [OF Suc.prems, of 1] Cons by simp_all
    let ?r = "r OR push_bit (7 * k) (ucast (b AND 0x7f))"
    have IH: "varint_loop (advance 1 s) (7 * k + 7) ?r = (Some v, s') \<longleftrightarrow>
       (\<exists>g rest. varint_group g \<and> bs = g @ rest \<and> length g + Suc k \<le> 10 \<and>
          v = r OR push_bit (7 * k) (of_nat (varint_value (b # g))) \<and> s' = advance (Suc (length g)) s)"
      using Suc.hyps(1) [OF n adv(1), of ?r] adv varint_value_step [of r "7 * k" b]
      by (simp add: add.commute [of 7] advance_advance del: varint_value.simps)
    have step: "varint_loop s (7 * k) r =
        (if b AND 0x80 \<noteq> 0 then varint_loop (advance 1 s) (7 * k + 7) ?r else (Some ?r, advance 1 s))"
      using k Cons by (subst varint_loop.simps) (simp add: pb_readbyte_buffered [OF Suc.prems])
    show ?thesis
    proof (cases "b AND 0x80 = 0")
      case True
      then show ?thesis unfolding Cons varint_group_Cons_ex step using k
        by (auto simp: varint_value_single simp del: varint_value.simps)
    next
      case False
      then show ?thesis unfolding Cons varint_group_Cons_ex step
        by (simp add: IH del: varint_value.simps One_nat_def)
    qed
  qed
qed

lemma varint32_loop_exact:
  assumes "buffered s"
  shows "varint32_loop s (7 * k) r = (Some v, s') \<longleftrightarrow>
    (\<exists>g rest. varint_group g \<and> stream_data s = g @ rest \<and> length g + k \<le> 5 \<and>
       v = r OR push_bit (7 * k) (of_nat (varint_value g)) \<and> s' = advance (length g) s)"
  using assms
proof (induction "5 - k" arbitrary: k s r)
  case 0
  then have "32 \<le> 7 * k" by simp
  moreover have "length g + k > 5" if "varint_group g" for g using that 0 by (cases g) auto
  ultimately show ?case by (subst varint32_loop.simps) (auto simp: not_le)
next
  case (Suc n)
  then have k: "k < 5" and n: "n = 5 - Suc k" by simp_all
  show ?case
  proof (cases "stream_data s")
    case Nil
    then show ?thesis using k by (subst varint32_loop.simps) (auto simp: pb_readbyte_buffered [OF Suc.prems])
  next
    case (Cons b bs)
    have adv: "buffered (advance 1 s)" "stream_data (advance 1 s) = bs"
      using advance_buffered [OF Suc.prems, of 1] Cons by simp_all
    let ?r = "r OR push_bit (7 * k) (ucast (b AND 0x7f))"
    have IH: "varint32_loop (advance 1 s) (7 * k + 7) ?r = (Some v, s') \<longleftrightarrow>
       (\<exists>g rest. varint_group g \<and> bs = g @ rest \<and> length g + Suc k \<le> 5 \<and>
          v = r OR push_bit (7 * k) (of_nat (varint_value (b # g))) \<and> s' = advance (Suc (length g)) s)"
      using Suc.hyps(1) [OF n adv(1), of ?r] adv varint_value_step [of r "7 * k" b]
      by (simp add: add.commute [of 7] advance_advance del: varint_value.simps)
    have step: "varint32_loop s (7 * k) r =
        (if b AND 0x80 \<noteq> 0 then varint32_loop (advance 1 s) (7 * k + 7) ?r else (Some ?r, advance 1 s))"
      using k Cons by (subst varint32_loop.simps) (simp add: pb_readbyte_buffered [OF Suc.prems])
    show ?thesis
    proof (cases "b AND 0x80 = 0")
      case True
      then show ?thesis unfolding Cons varint_group_Cons_ex step using k
        by (auto simp: varint_value_single simp del: varint_value.simps)
    next
      case False
      then show ?thesis unfolding Cons varint_group_Cons_ex step
        by (simp add: IH del: varint_value.simps One_nat_def)
    qed
  qed
qed


lemma pb_decode_varint32_loop: "pb_decode_varint32 s = varint32_loop s 0 0"
  by (subst varint32_loop.simps)
    (auto simp: pb_decode_varint32_def low_byte_value split: prod.splits option.splits)


text \<open>
  C19. The 64-bit varint decoder succeeds on exactly the windows that start with a group of
  at most ten bytes; it consumes the group and returns its value modulo \<open>2^64\<close>.
\<close>
theorem pb_decode_varint_exact:
  assumes "buffered s"
  shows "pb_decode_varint s = (Some v, s') \<longleftrightarrow>
    (\<exists>g rest. varint_group g \<and> stream_data s = g @ rest \<and> length g \<le> 10 \<and>
       v = of_nat (varint_value g) \<and> s' = advance (length g) s)"
  using varint_loop_exact [OF assms, of 0 0] by (simp add: pb_decode_varint_def)

theorem pb_decode_varint_exact_witness:
  "pb_decode_varint (pb_istream_from_buffer [0xac, 0x02, 0xff] 3 :: unit pb_istream) =
     (Some 300, advance 2 (pb_istream_from_buffer [0xac, 0x02, 0xff] 3))"
proof (subst pb_decode_varint_exact)
  let ?s = "pb_istream_from_buffer [0xac, 0x02, 0xff] 3 :: unit pb_istream"
  show "buffered ?s" by (rule pb_istream_from_buffer_buffered) simp
  have "varint_group [0xac, 0x02]" "(300 :: u64) = of_nat (varint_value [0xac, 0x02])" by code_simp+
  moreover have "stream_data ?s = [0xac, 0x02] @ [0xff]" by (simp add: pb_istream_from_buffer_buffered(2))
  moreover have "length [0xac, 0x02 :: u8] \<le> 10" "advance 2 ?s = advance (length [0xac, 0x02 :: u8]) ?s"
    by (simp_all add: numeral_2_eq_2)
  ultimately show "\<exists>g rest. varint_group g \<and> stream_data ?s = g @ rest \<and> length g \<le> 10 \<and>
      300 = (of_nat (varint_value g) :: u64) \<and> advance 2 ?s = advance (length g) ?s" by blast
qed

lemma pb_decode_varint32_exact:
  assumes "buffered s"
  shows "pb_decode_varint32 s = (Some v, s') \<longleftrightarrow>
    (\<exists>g rest. varint_group g \<and> stream_data s = g @ rest \<and> length g \<le> 5 \<and>
       v = of_nat (varint_value g) \<and> s' = advance (length g) s)"
  using varint32_loop_exact [OF assms, of 0 0] by (simp add: pb_decode_varint32_loop)

subsection \<open>The encoder\<close>

lemma varint_buffer_bytes:
  assumes "v \<noteq> 0"
  shows "(varint_buffer v)[length (varint_buffer v) - 1 :=
           varint_buffer v ! (length (varint_buffer v) - 1) AND 0x7f] = varint_bytes (unat v)"
  using assms
proof (induction v rule: varint_buffer.induct)
  case (1 v)
  have div: "unat (drop_bit 7 v) = unat v div 128" by (simp add: unat_drop_bit)
  show ?case
  proof (cases "drop_bit 7 v = 0")
    case True
    then have "unat v < 128" using div by (simp add: div_eq_0_iff)
    moreover have "varint_buffer v = [of_nat (unat v mod 128 + 128)]"
      using 1(2) True by (subst varint_buffer.simps, subst varint_buffer.simps) (simp add: varint_byte del: of_nat_add)
    ultimately show ?thesis
      using varint_last_byte [of "unat v"] by (subst varint_bytes.simps) simp
  next
    case False
    then have big: "\<not> unat v < 128" using div by (metis div_less unat_eq_zero)
    have step: "varint_buffer v = of_nat (unat v mod 128 + 128) # varint_buffer (drop_bit 7 v)"
      using 1(2) by (subst varint_buffer.simps) (simp add: varint_byte del: of_nat_add)
    have "varint_buffer (drop_bit 7 v) \<noteq> []" using False by (subst varint_buffer.simps) simp
    then obtain k where "length (varint_buffer (drop_bit 7 v)) = Suc k" by (cases "varint_buffer (drop_bit 7 v)") auto
    then show ?thesis using 1(1) [OF 1(2) False] big
      by (subst varint_bytes.simps) (simp add: step div del: of_nat_add)
  qed
qed

lemma pb_encode_varint_bytes:
  "pb_encode_varint s v = pb_write s (varint_bytes (unat v)) (of_nat (length (varint_bytes (unat v))))"
proof (cases "v \<le> 0x7f")
  case True
  then have "unat v < 128" by (simp add: word_le_nat_alt)
  then show ?thesis using True
    by (subst (1 2) varint_bytes.simps) (simp add: pb_encode_varint_def)
next
  case False
  then have "v \<noteq> 0" by auto
  from varint_buffer_bytes [OF this] show ?thesis using False
    by (simp add: pb_encode_varint_def Let_def) (metis length_list_update)
qed

section \<open>Output streams\<close>

text \<open>
  What the encoder relies on in a stream's callback: as long as there is room it takes the
  bytes, appends them to what it holds and uses that much of the room. \<open>content\<close> and
  \<open>room\<close> are the abstract view of the callback's state.
\<close>

definition sink_ok :: "('s \<Rightarrow> bytes \<Rightarrow> bool \<times> 's) \<Rightarrow> ('s \<Rightarrow> nat) \<Rightarrow> 's pb_ostream \<Rightarrow> bool" where
  "sink_ok cb room s \<longleftrightarrow>
     callback s = None \<or>
     callback s = Some cb \<and> bytes_written s \<le> max_size s \<and>
     unat (max_size s) - unat (bytes_written s) \<le> room (out_state s)"

definition fits :: "'s pb_ostream \<Rightarrow> nat \<Rightarrow> bool" where
  "fits s n \<longleftrightarrow> callback s = None \<or> unat (bytes_written s) + n \<le> unat (max_size s)"

definition wrote :: "('s \<Rightarrow> bytes) \<Rightarrow> ('s \<Rightarrow> nat) \<Rightarrow> 's pb_ostream \<Rightarrow> bytes \<Rightarrow> 's pb_ostream \<Rightarrow> bool" where
  "wrote content room s bs s' \<longleftrightarrow>
     callback s' = callback s \<and> max_size s' = max_size s \<and> (out_errmsg s = None \<longrightarrow> out_errmsg s' = None) \<and>
     bytes_written s' = bytes_written s + of_nat (length bs) \<and>
     (if callback s = None then out_state s' = out_state s
      else content (out_state s') = content (out_state s) @ bs \<and>
           room (out_state s) \<le> room (out_state s') + length bs)"

text \<open>An encoder that writes exactly \<open>bs\<close>, or fails for want of room.\<close>

definition emits :: "('s \<Rightarrow> bytes \<Rightarrow> bool \<times> 's) \<Rightarrow> ('s \<Rightarrow> bytes) \<Rightarrow> ('s \<Rightarrow> nat) \<Rightarrow>
    ('s pb_ostream \<Rightarrow> bool \<times> 's pb_ostream) \<Rightarrow> bytes \<Rightarrow> bool" where
  "emits cb content room enc bs \<longleftrightarrow>
     (\<forall>s. sink_ok cb room s \<longrightarrow>
        (if fits s (length bs) then \<exists>s'. enc s = (True, s') \<and> wrote content room s bs s' \<and> sink_ok cb room s'
         else unat (bytes_written s) + length bs < 2 ^ 64 \<longrightarrow> \<not> fst (enc s)))"

lemma emitsI:
  assumes "\<And>s. sink_ok cb room s \<Longrightarrow> fits s (length bs) \<Longrightarrow>
      \<exists>s'. enc s = (True, s') \<and> wrote content room s bs s' \<and> sink_ok cb room s'"
    and "\<And>s. sink_ok cb room s \<Longrightarrow> \<not> fits s (length bs) \<Longrightarrow> unat (bytes_written s) + length bs < 2 ^ 64 \<Longrightarrow>
      \<not> fst (enc s)"
  shows "emits cb content room enc bs"
  using assms by (auto simp: emits_def)

lemma emitsD:
  assumes "emits cb content room enc bs" "sink_ok cb room s" "fits s (length bs)"
  obtains s' where "enc s = (True, s')" "wrote content room s bs s'" "sink_ok cb room s'"
proof -
  have "if fits s (length bs) then \<exists>s'. enc s = (True, s') \<and> wrote content room s bs s' \<and> sink_ok cb room s'
      else unat (bytes_written s) + length bs < 2 ^ 64 \<longrightarrow> \<not> fst (enc s)"
    using assms(1,2) unfolding emits_def by blast
  then show thesis using assms(3) that by auto
qed

lemma emits_full:
  assumes "emits cb content room enc bs" "sink_ok cb room s" "\<not> fits s (length bs)"
    "unat (bytes_written s) + length bs < 2 ^ 64"
  shows "\<not> fst (enc s)"
  using assms by (auto simp: emits_def)

lemma emits_cong: "(\<And>s. enc s = enc' s) \<Longrightarrow> emits cb content room enc bs = emits cb content room enc' bs"
  by (simp add: emits_def)

lemma unat_add_of_nat:
  "unat w + n < 2 ^ 64 \<Longrightarrow> unat (w + of_nat n :: size_t) = unat w + n"
  by (subst unat_word_ariths) (simp add: byte_simps)

lemma wrote_fits:
  assumes "wrote content room s bs s'" "fits s (length bs + n)"
  shows "fits s' n"
  using assms unat_bound [of "max_size s"] by (auto simp: wrote_def fits_def unat_add_of_nat)

lemma wrote_append:
  "wrote content room s bs s' \<Longrightarrow> wrote content room s' cs s'' \<Longrightarrow> wrote content room s (bs @ cs) s''"
  by (auto simp: wrote_def add.assoc split: if_splits)

text \<open>An encoder followed by another, as every caller in the code chains them.\<close>

definition enc_seq :: "('s pb_ostream \<Rightarrow> bool \<times> 's pb_ostream) \<Rightarrow> ('s pb_ostream \<Rightarrow> bool \<times> 's pb_ostream) \<Rightarrow>
    's pb_ostream \<Rightarrow> bool \<times> 's pb_ostream" where
  "enc_seq f g s = (case f s of (False, s) \<Rightarrow> (False, s) | (True, s) \<Rightarrow> g s)"

lemma emits_seq:
  assumes f: "emits cb content room f bs" and g: "emits cb content room g cs"
  shows "emits cb content room (enc_seq f g) (bs @ cs)"
proof (rule emitsI)
  fix s assume ok: "sink_ok cb room s" and fit: "fits s (length (bs @ cs))"
  then have fitb: "fits s (length bs)" by (auto simp: fits_def)
  obtain s' where s': "f s = (True, s')" "wrote content room s bs s'" "sink_ok cb room s'"
    using emitsD [OF f ok fitb] by blast
  have fitc: "fits s' (length cs)" using wrote_fits [OF s'(2)] fit by simp
  obtain s'' where "g s' = (True, s'')" "wrote content room s' cs s''" "sink_ok cb room s''"
    using emitsD [OF g s'(3) fitc] by blast
  then show "\<exists>s''. enc_seq f g s = (True, s'') \<and> wrote content room s (bs @ cs) s'' \<and> sink_ok cb room s''"
    using s' wrote_append by (auto simp: enc_seq_def)
next
  fix s assume ok: "sink_ok cb room s" and full: "\<not> fits s (length (bs @ cs))"
    and small: "unat (bytes_written s) + length (bs @ cs) < 2 ^ 64"
  show "\<not> fst (enc_seq f g s)"
  proof (cases "fits s (length bs)")
    case False
    then have "\<not> fst (f s)" using emits_full [OF f ok] small by simp
    then show ?thesis by (auto simp: enc_seq_def split: prod.splits bool.splits)
  next
    case True
    obtain s' where s': "f s = (True, s')" "wrote content room s bs s'" "sink_ok cb room s'"
      using emitsD [OF f ok True] by blast
    have "unat (bytes_written s') = unat (bytes_written s) + length bs"
      using s'(2) small by (simp add: wrote_def unat_add_of_nat)
    then have "\<not> fits s' (length cs)" "unat (bytes_written s') + length cs < 2 ^ 64"
      using full small s'(2) by (auto simp: fits_def wrote_def)
    then show ?thesis using emits_full [OF g s'(3)] s'(1) by (simp add: enc_seq_def)
  qed
qed

lemma emits_Nil: "emits cb content room (\<lambda>s. (True, s)) []"
  by (rule emitsI) (auto simp: wrote_def fits_def sink_ok_def word_le_nat_alt)

locale byte_sink =
  fixes cb :: "'s \<Rightarrow> bytes \<Rightarrow> bool \<times> 's" and content :: "'s \<Rightarrow> bytes" and room :: "'s \<Rightarrow> nat"
  assumes accepts: "length bs \<le> room st \<Longrightarrow>
    \<exists>st'. cb st bs = (True, st') \<and> content st' = content st @ bs \<and> room st' = room st - length bs"
begin

lemma emits_pb_write:
  assumes n: "unat n \<le> length bs"
  shows "emits cb content room (\<lambda>s. pb_write s bs n) (take (unat n) bs)"
proof (rule emitsI)
  have len: "length (take (unat n) bs) = unat n" using n by simp
  fix s assume ok: "sink_ok cb room s" and fit: "fits s (length (take (unat n) bs))"
  show "\<exists>s'. pb_write s bs n = (True, s') \<and> wrote content room s (take (unat n) bs) s' \<and> sink_ok cb room s'"
  proof (cases "callback s")
    case None
    then show ?thesis using n by (simp add: pb_write_def wrote_def sink_ok_def)
  next
    case (Some f)
    then have f: "f = cb" and le: "unat (bytes_written s) + unat n \<le> unat (max_size s)"
      and space: "unat (max_size s) - unat (bytes_written s) \<le> room (out_state s)"
      using ok fit len by (auto simp: sink_ok_def fits_def)
    have sum: "unat (bytes_written s + n) = unat (bytes_written s) + unat n"
      using le unat_bound [of "max_size s"] by (simp add: unat_word_ariths)
    have "length (take (unat n) bs) \<le> room (out_state s)" using le space len by linarith
    from accepts [OF this] obtain st' where "cb (out_state s) (take (unat n) bs) = (True, st')"
      "content st' = content (out_state s) @ take (unat n) bs" "room st' = room (out_state s) - unat n"
      using len by auto
    then show ?thesis using Some f le space sum n
      by (auto simp: pb_write_def wrote_def sink_ok_def word_le_nat_alt word_less_nat_alt)
  qed
next
  fix s assume ok: "sink_ok cb room s" and full: "\<not> fits s (length (take (unat n) bs))"
    and small: "unat (bytes_written s) + length (take (unat n) bs) < 2 ^ 64"
  then have "unat (bytes_written s + n) = unat (bytes_written s) + unat n"
    using n by (simp add: unat_word_ariths)
  then show "\<not> fst (pb_write s bs n)" using full n
    by (auto simp: pb_write_def fits_def word_less_nat_alt split: option.splits)
qed

lemma emits_pb_write_all:
  "length bs < 2 ^ 64 \<Longrightarrow> emits cb content room (\<lambda>s. pb_write s bs (of_nat (length bs))) bs"
  using emits_pb_write [of "of_nat (length bs)" bs] by (simp add: byte_simps)

lemma emits_varint: "emits cb content room (\<lambda>s. pb_encode_varint s v) (varint_bytes (unat v))"
proof -
  have "length (varint_bytes (unat v)) < 2 ^ 64" using varint_bytes_length_u64 [of v] by simp
  from emits_pb_write_all [OF this] show ?thesis by (simp only: pb_encode_varint_bytes)
qed

lemma emits_svarint:
  "emits cb content room (\<lambda>s. pb_encode_svarint s v)
     (varint_bytes (unat (if sint v < 0 then NOT (push_bit 1 v) else push_bit 1 v)))"
  using emits_varint by (simp add: pb_encode_svarint_def)

lemma emits_fixed32: "emits cb content room (\<lambda>s. pb_encode_fixed32 s v) (le_bytes 4 (unat v))"
proof -
  have "le_bytes 4 (unat v) = [ucast (v AND 0xff), ucast (drop_bit 8 v AND 0xff), ucast (drop_bit 16 v AND 0xff),
      ucast (drop_bit 24 v AND 0xff)]"
    by (simp add: le_bytes_u32 fixed_byte)
  then show ?thesis using emits_pb_write_all [of "le_bytes 4 (unat v)"] by (simp add: pb_encode_fixed32_def)
qed

lemma emits_fixed64: "emits cb content room (\<lambda>s. pb_encode_fixed64 s v) (le_bytes 8 (unat v))"
proof -
  have "le_bytes 8 (unat v) = [ucast (v AND 0xff), ucast (drop_bit 8 v AND 0xff), ucast (drop_bit 16 v AND 0xff),
      ucast (drop_bit 24 v AND 0xff), ucast (drop_bit 32 v AND 0xff), ucast (drop_bit 40 v AND 0xff),
      ucast (drop_bit 48 v AND 0xff), ucast (drop_bit 56 v AND 0xff)]"
    by (simp add: le_bytes_u64 fixed_byte)
  then show ?thesis using emits_pb_write_all [of "le_bytes 8 (unat v)"] by (simp add: pb_encode_fixed64_def)
qed

lemma emits_tag:
  "emits cb content room (\<lambda>s. pb_encode_tag s wt field) (varint_bytes (unat (push_bit 3 (ucast field) OR ucast wt :: u64)))"
  using emits_varint by (simp add: pb_encode_tag_def)

lemma emits_string:
  assumes "unat n \<le> length bs"
  shows "emits cb content room (\<lambda>s. pb_encode_string s bs n) (varint_bytes (unat n) @ take (unat n) bs)"
  using emits_seq [OF emits_varint [of n] emits_pb_write [OF assms]]
  by (simp add: enc_seq_def [abs_def] pb_encode_string_def [abs_def])

end

text \<open>The callback of a buffer holds the bytes before the write position.\<close>

definition buf_content :: "bytes \<times> nat \<Rightarrow> bytes" where
  "buf_content st = (case st of (arr, pos) \<Rightarrow> take pos arr)"

definition buf_room :: "bytes \<times> nat \<Rightarrow> nat" where
  "buf_room st = (case st of (arr, pos) \<Rightarrow> length arr - pos)"

interpretation buf_sink: byte_sink buf_write buf_content buf_room
proof (unfold_locales, goal_cases)
  case (1 bs st)
  obtain arr pos where st: "st = (arr, pos)" by (cases st)
  show ?case
  proof (cases "pos \<le> length arr")
    case True
    then show ?thesis using 1 by (simp add: st buf_write_def buf_content_def buf_room_def take_poke_end)
  next
    case False
    then have "bs = []" using 1 by (simp add: st buf_room_def)
    then show ?thesis by (simp add: st buf_write_def buf_content_def buf_room_def)
  qed
qed

lemma pb_ostream_from_buffer_ok:
  "unat n \<le> length buf \<Longrightarrow> sink_ok buf_write buf_room (pb_ostream_from_buffer buf n)"
  by (simp add: sink_ok_def pb_ostream_from_buffer_def buf_room_def)

lemma pb_ostream_from_buffer_fits [simp]: "fits (pb_ostream_from_buffer buf n) m \<longleftrightarrow> m \<le> unat n"
  by (simp add: fits_def pb_ostream_from_buffer_def)


section \<open>Round trips\<close>

text \<open>A value written to a buffer and read back from it.\<close>

definition via_buffer :: "bytes \<Rightarrow> size_t \<Rightarrow> ((bytes \<times> nat) pb_ostream \<Rightarrow> bool \<times> (bytes \<times> nat) pb_ostream) \<Rightarrow>
    (unit pb_istream \<Rightarrow> ('a, unit pb_istream) outcome) \<Rightarrow> 'a option" where
  "via_buffer buf n enc dec =
     (case enc (pb_ostream_from_buffer buf n) of
        (False, _) \<Rightarrow> None
      | (True, os) \<Rightarrow> fst (dec (pb_istream_from_buffer (fst (out_state os)) (bytes_written os))))"

lemma via_buffer_emits:
  assumes enc: "emits buf_write buf_content buf_room enc bs"
    and fit: "length bs \<le> unat n" "unat n \<le> length buf"
  obtains s where "via_buffer buf n enc dec = fst (dec s)" "buffered s" "stream_data s = bs"
proof -
  let ?os = "pb_ostream_from_buffer buf n"
  obtain os' where run: "enc ?os = (True, os')" and wr: "wrote buf_content buf_room ?os bs os'"
    using emitsD [OF enc pb_ostream_from_buffer_ok [OF fit(2)]] fit(1) by auto
  obtain arr pos where st: "out_state os' = (arr, pos)" by (cases "out_state os'")
  have "take pos arr = bs" and len: "bytes_written os' = of_nat (length bs)"
    using wr by (simp_all add: wrote_def pb_ostream_from_buffer_def buf_content_def st)
  then have pre: "take (length bs) arr = bs" by (metis append_eq_conv_conj append_take_drop_id)
  have "unat (of_nat (length bs) :: size_t) = length bs"
    using fit(1) unat_bound [of n] by (simp add: byte_simps)
  moreover have "length bs \<le> length arr" using pre by (metis length_take min.cobounded1)
  moreover have "via_buffer buf n enc dec = fst (dec (pb_istream_from_buffer arr (of_nat (length bs))))"
    by (simp add: via_buffer_def run st len)
  ultimately show thesis using that pre by (metis pb_istream_from_buffer_buffered)
qed

lemma varint_bytes_lower: "n < 128 ^ length (varint_bytes n)"
proof (induction n rule: varint_bytes.induct)
  case (1 n)
  show ?case
  proof (cases "n < 128")
    case False
    then have "n div 128 < 128 ^ length (varint_bytes (n div 128))" using 1 by simp
    then have "n < 128 * 128 ^ length (varint_bytes (n div 128))" by (simp add: div_less_iff_less_mult mult.commute)
    then show ?thesis using False by (subst varint_bytes.simps) simp
  qed (subst varint_bytes.simps, simp)
qed

lemma eight_bits_OR: "(ucast (b :: u8) :: 'a::len word) OR push_bit 8 w = ucast b + 256 * w"
proof -
  have "(ucast b :: 'a word) AND push_bit 8 w = 0"
    by (intro bit_eqI) (auto simp: bit_and_iff bit_push_bit_iff bit_ucast_iff dest: bit_imp_le_length)
  from word_disjoint_OR_add [OF this] show ?thesis by (simp add: push_bit_eq_mult mult.commute)
qed

lemma fixed32_value:
  "length b = 4 \<Longrightarrow> (ucast (b ! 0) OR push_bit 8 (ucast (b ! 1)) OR push_bit 16 (ucast (b ! 2)) OR
     push_bit 24 (ucast (b ! 3)) :: u32) = of_nat (le_nat b)"
proof -
  assume "length b = 4"
  then obtain b0 b1 b2 b3 where b: "b = [b0, b1, b2, b3]" by (auto simp: numeral_eq_Suc length_Suc_conv)
  have "(ucast b0 OR push_bit 8 (ucast b1 OR push_bit 8 (ucast b2 OR push_bit 8 (ucast b3))) :: u32) = of_nat (le_nat b)"
    by (simp only: eight_bits_OR) (simp add: b)
  then show ?thesis by (simp add: b push_bit_or push_bit_push_bit)
qed

lemma fixed64_value:
  "length b = 8 \<Longrightarrow> (ucast (b ! 0) OR push_bit 8 (ucast (b ! 1)) OR push_bit 16 (ucast (b ! 2)) OR
     push_bit 24 (ucast (b ! 3)) OR push_bit 32 (ucast (b ! 4)) OR push_bit 40 (ucast (b ! 5)) OR
     push_bit 48 (ucast (b ! 6)) OR push_bit 56 (ucast (b ! 7)) :: u64) = of_nat (le_nat b)"
proof -
  assume "length b = 8"
  then obtain b0 b1 b2 b3 b4 b5 b6 b7 where b: "b = [b0, b1, b2, b3, b4, b5, b6, b7]"
    by (auto simp: numeral_eq_Suc length_Suc_conv)
  have "(ucast b0 OR push_bit 8 (ucast b1 OR push_bit 8 (ucast b2 OR push_bit 8 (ucast b3 OR push_bit 8
      (ucast b4 OR push_bit 8 (ucast b5 OR push_bit 8 (ucast b6 OR push_bit 8 (ucast b7))))))) :: u64) =
    of_nat (le_nat b)"
    by (simp only: eight_bits_OR) (simp add: b)
  then show ?thesis by (simp add: b push_bit_or push_bit_push_bit)
qed

lemma le_nat_word:
  "le_nat (le_bytes 4 (unat (w :: u32))) = unat w" "le_nat (le_bytes 8 (unat (v :: u64))) = unat v"
  using unat_bound [of w] unat_bound [of v] by (simp_all add: le_nat_le_bytes)

lemma pb_decode_fixed32_buffered:
  "buffered s \<Longrightarrow> 4 \<le> length (stream_data s) \<Longrightarrow>
   pb_decode_fixed32 s = (Some (of_nat (le_nat (take 4 (stream_data s)))), advance 4 s)"
  by (simp add: pb_decode_fixed32_def pb_read_buf_buffered fixed32_value del: One_nat_def nth_take)

lemma pb_decode_fixed64_buffered:
  "buffered s \<Longrightarrow> 8 \<le> length (stream_data s) \<Longrightarrow>
   pb_decode_fixed64 s = (Some (of_nat (le_nat (take 8 (stream_data s)))), advance 8 s)"
  by (simp add: pb_decode_fixed64_def pb_read_buf_buffered fixed64_value del: One_nat_def nth_take)

lemma zigzag:
  fixes v :: u64
  assumes "z = (if sint v < 0 then NOT (push_bit 1 v) else push_bit 1 v)"
  shows "(if z AND 1 \<noteq> 0 then NOT (drop_bit 1 z) else drop_bit 1 z) = v"
proof -
  have neg: "sint v < 0 \<longleftrightarrow> bit v 63" using bit_last_iff [of v] by simp
  have "\<not> bit (push_bit 1 v) 0" "bit (NOT (push_bit 1 v)) 0"
    by (simp_all only: bit_not_iff bit_push_bit_iff) simp_all
  then have "bit z 0 \<longleftrightarrow> sint v < 0" using assms by metis
  then have odd: "z AND 1 \<noteq> 0 \<longleftrightarrow> sint v < 0" by (metis and_exp_eq_0_iff_not_bit power_0)
  have shifted: "bit (push_bit 1 v) (Suc n) \<longleftrightarrow> bit v n" if "n < 63" for n
    using that by (simp only: bit_push_bit_iff) simp
  have "NOT (drop_bit 1 (NOT (push_bit 1 v))) = v" if "bit v 63"
  proof (rule bit_word_eqI)
    fix n assume "n < LENGTH(64)"
    then show "bit (NOT (drop_bit 1 (NOT (push_bit 1 v)))) n = bit v n"
      using that shifted [of n] by (cases "n = 63") (auto simp: bit_not_iff bit_drop_bit_eq simp del: push_bit_Suc push_bit_numeral push_bit_eq_mult)
  qed
  moreover have "drop_bit 1 (push_bit 1 v) = v" if "\<not> bit v 63"
  proof (rule bit_word_eqI)
    fix n assume "n < LENGTH(64)"
    then show "bit (drop_bit 1 (push_bit 1 v)) n = bit v n"
      using that shifted [of n] bit_imp_le_length [of "push_bit 1 v" 64]
      by (cases "n = 63") (auto simp: bit_drop_bit_eq)
  qed
  ultimately show ?thesis using assms neg odd by metis
qed


lemma pb_decode_varint_bytes:
  "buffered s \<Longrightarrow> stream_data s = varint_bytes (unat v) \<Longrightarrow>
   pb_decode_varint s = (Some v, advance (length (stream_data s)) s)"
  using varint_bytes_length_u64 [of v]
  by (subst pb_decode_varint_exact) (simp_all add: exI [of _ "varint_bytes (unat v)"] exI [of _ "[]"])

lemma pb_decode_varint32_bytes:
  assumes "buffered s" and data: "stream_data s = varint_bytes (unat (v :: u64))"
  shows "fst (pb_decode_varint32 s) = (if v < 2 ^ 35 then Some (ucast v) else None)"
proof (cases "v < 2 ^ 35")
  case True
  then have "length (stream_data s) \<le> 5"
    using varint_bytes_length [of "unat v" 4] data by (simp add: word_less_nat_alt)
  then have "pb_decode_varint32 s = (Some (ucast v), advance (length (stream_data s)) s)"
    using data by (subst pb_decode_varint32_exact [OF assms(1)]) (simp add: exI [of _ "varint_bytes (unat v)"])
  then show ?thesis using True by simp
next
  case False
  have "pb_decode_varint32 s \<noteq> (Some x, s')" for x s'
  proof
    assume "pb_decode_varint32 s = (Some x, s')"
    then obtain g rest where g: "varint_group g" "varint_bytes (unat v) = g @ rest" "length g \<le> 5"
      using data by (auto simp: pb_decode_varint32_exact [OF assms(1)])
    then have "varint_bytes (unat v) = g"
      using varint_group_unique [of "varint_bytes (unat v)" g "[]" rest] by (metis append_Nil2 varint_bytes_group)
    then have "unat v < 128 ^ 5" using varint_bytes_lower [of "unat v"] g(3)
      by (meson less_le_trans one_le_numeral power_increasing)
    then show False using False by (simp add: word_less_nat_alt)
  qed
  then show ?thesis using False by (cases "pb_decode_varint32 s") (metis fst_conv not_Some_eq)
qed

text \<open>
  C20. What \<open>pb_encode_varint\<close>, \<open>pb_encode_svarint\<close>, \<open>pb_encode_fixed32\<close> and
  \<open>pb_encode_fixed64\<close> write to a buffer of ten bytes or more, their decoders read back, for
  every value. \<open>pb_decode_varint32\<close> reads a varint back when it is below \<open>2^35\<close>, without
  the bits from 32 on, and refuses every other one; in particular it refuses the ten bytes
  that stand for a negative \<open>int32\<close>.
\<close>
theorem pb_scalar_roundtrip:
  assumes "10 \<le> unat n" and "unat n \<le> length buf"
  shows "via_buffer buf n (\<lambda>s. pb_encode_varint s v) pb_decode_varint = Some v \<and>
    via_buffer buf n (\<lambda>s. pb_encode_svarint s v) pb_decode_svarint = Some v \<and>
    via_buffer buf n (\<lambda>s. pb_encode_fixed32 s w) pb_decode_fixed32 = Some w \<and>
    via_buffer buf n (\<lambda>s. pb_encode_fixed64 s v) pb_decode_fixed64 = Some v \<and>
    via_buffer buf n (\<lambda>s. pb_encode_varint s v) pb_decode_varint32 =
      (if v < 2 ^ 35 then Some (ucast v) else None)"
proof (intro conjI)
  have room: "length (varint_bytes (unat x)) \<le> unat n" for x :: u64
    using varint_bytes_length_u64 [of x] assms(1) by linarith
  show "via_buffer buf n (\<lambda>s. pb_encode_varint s v) pb_decode_varint = Some v"
    by (rule via_buffer_emits [where dec = pb_decode_varint, OF buf_sink.emits_varint [of v] room assms(2)]) (simp add: pb_decode_varint_bytes)
  show "via_buffer buf n (\<lambda>s. pb_encode_varint s v) pb_decode_varint32 = (if v < 2 ^ 35 then Some (ucast v) else None)"
    by (rule via_buffer_emits [where dec = pb_decode_varint32, OF buf_sink.emits_varint [of v] room assms(2)]) (simp add: pb_decode_varint32_bytes)
  show "via_buffer buf n (\<lambda>s. pb_encode_svarint s v) pb_decode_svarint = Some v"
    by (rule via_buffer_emits [where dec = pb_decode_svarint, OF buf_sink.emits_svarint [of v] room assms(2)])
      (simp only: pb_decode_svarint_def pb_decode_varint_bytes option.case prod.case fst_conv zigzag [OF refl])
  have fit: "length (le_bytes 4 (unat w)) \<le> unat n" "length (le_bytes 8 (unat v)) \<le> unat n" using assms(1) by simp_all
  show "via_buffer buf n (\<lambda>s. pb_encode_fixed32 s w) pb_decode_fixed32 = Some w"
    by (rule via_buffer_emits [where dec = pb_decode_fixed32, OF buf_sink.emits_fixed32 [of w] fit(1) assms(2)])
      (simp add: pb_decode_fixed32_buffered le_nat_word)
  show "via_buffer buf n (\<lambda>s. pb_encode_fixed64 s v) pb_decode_fixed64 = Some v"
    by (rule via_buffer_emits [where dec = pb_decode_fixed64, OF buf_sink.emits_fixed64 [of v] fit(2) assms(2)])
      (simp add: pb_decode_fixed64_buffered le_nat_word)
qed

theorem pb_scalar_roundtrip_witness:
  "via_buffer (replicate 12 0) 12 (\<lambda>s. pb_encode_varint s (- 1)) pb_decode_varint = Some (- 1) \<and>
   via_buffer (replicate 12 0) 12 (\<lambda>s. pb_encode_varint s (- 1)) pb_decode_varint32 = None"
proof -
  have "\<not> (- 1 :: u64) < 2 ^ 35" by code_simp
  moreover have "10 \<le> unat (12 :: size_t)" "unat (12 :: size_t) \<le> length (replicate 12 (0 :: u8))" by simp_all
  ultimately show ?thesis using pb_scalar_roundtrip [of 12 "replicate 12 0" "- 1" 0] by metis
qed

section \<open>Fields on the wire\<close>

text \<open>
  What may follow a tag of wire type \<open>wt\<close>: a varint group of any length, eight or four
  bytes, or a length of at most five varint bytes and that many bytes.
\<close>

definition wire_payload :: "pb_wire_type \<Rightarrow> bytes \<Rightarrow> bool" where
  "wire_payload wt p \<longleftrightarrow>
     (wt = PB_WT_VARINT \<and> varint_group p) \<or>
     (wt = PB_WT_64BIT \<and> length p = 8) \<or>
     (wt = PB_WT_32BIT \<and> length p = 4) \<or>
     (wt = PB_WT_STRING \<and>
       (\<exists>g body. p = g @ body \<and> varint_group g \<and> length g \<le> 5 \<and>
          length body = unat (of_nat (varint_value g) :: u32)))"

lemma pb_skip_varint_exact:
  assumes "buffered s"
  shows "pb_skip_varint s = (Some (), s') \<longleftrightarrow>
    (\<exists>g rest. varint_group g \<and> stream_data s = g @ rest \<and> s' = advance (length g) s)"
  using assms
proof (induction "stream_data s" arbitrary: s)
  case Nil
  then show ?case by (subst pb_skip_varint.simps) (auto simp: pb_read_buf_buffered)
next
  case (Cons b bs)
  have adv: "buffered (advance 1 s)" "stream_data (advance 1 s) = bs"
    using advance_buffered [OF Cons.prems, of 1] Cons.hyps(2) [symmetric] by simp_all
  have step: "pb_skip_varint s = (if b AND 0x80 \<noteq> 0 then pb_skip_varint (advance 1 s) else (Some (), advance 1 s))"
    using Cons.hyps(2) [symmetric] by (subst pb_skip_varint.simps) (simp add: pb_read_buf_buffered [OF Cons.prems])
  show ?case
    unfolding step Cons.hyps(2) [symmetric] varint_group_Cons_ex
    by (cases "b AND 0x80 = 0")
      (use Cons.hyps(1) [OF adv(2) [symmetric] adv(1)] adv(2) in \<open>auto simp: advance_advance\<close>)
qed


lemma take_exact:
  "(if n \<le> length xs then (Some (), t n) else (None, e)) = (Some (), s') \<longleftrightarrow>
   (\<exists>p rest. length p = n \<and> xs = p @ rest \<and> s' = t (length p))"
proof (cases "n \<le> length xs")
  case True
  then have "length (take n xs) = n" by simp
  then have "\<exists>p rest. length p = n \<and> xs = p @ rest \<and> s' = t (length p)" if "s' = t n"
    using that by (metis append_take_drop_id)
  then have "(\<exists>p rest. length p = n \<and> xs = p @ rest \<and> s' = t (length p)) \<longleftrightarrow> s' = t n" by blast
  with True show ?thesis by (simp only: if_True Pair_inject simp_thms) blast
qed auto

lemma pb_skip_bytes_exact:
  "buffered s \<Longrightarrow> pb_skip_bytes s n = (Some (), s') \<longleftrightarrow>
    (\<exists>p rest. length p = unat n \<and> stream_data s = p @ rest \<and> s' = advance (length p) s)"
  by (simp only: pb_skip_bytes_buffered take_exact [where t = "\<lambda>n. advance n s"])

lemma pb_skip_string_exact:
  assumes "buffered s"
  shows "pb_skip_string s = (Some (), s') \<longleftrightarrow>
    (\<exists>p rest. wire_payload PB_WT_STRING p \<and> stream_data s = p @ rest \<and> s' = advance (length p) s)"
    (is "?L \<longleftrightarrow> ?R")
proof
  assume ?L
  then obtain len s1 where len: "pb_decode_varint32 s = (Some len, s1)" and skip: "pb_skip_bytes s1 (ucast len) = (Some (), s')"
    by (auto simp: pb_skip_string_def split: prod.splits option.splits)
  from len obtain g rest where g: "varint_group g" "stream_data s = g @ rest" "length g \<le> 5"
    "len = of_nat (varint_value g)" "s1 = advance (length g) s"
    by (auto simp: pb_decode_varint32_exact [OF assms])
  then have s1: "buffered s1" "stream_data s1 = rest" using advance_buffered [OF assms] by simp_all
  from skip obtain body rest' where "length body = unat len" "rest = body @ rest'" "s' = advance (length body) s1"
    by (auto simp: pb_skip_bytes_exact [OF s1(1)] s1(2) unat_ucast_up)
  then show ?R using g by (intro exI [of _ "g @ body"] exI [of _ rest'])
      (auto simp: wire_payload_def advance_advance)
next
  assume ?R
  then obtain g body rest where g: "varint_group g" "length g \<le> 5" and data: "stream_data s = g @ body @ rest"
    and body: "length body = unat (of_nat (varint_value g) :: u32)" and s': "s' = advance (length g + length body) s"
    by (auto simp: wire_payload_def)
  have len: "pb_decode_varint32 s = (Some (of_nat (varint_value g)), advance (length g) s)"
    using g data by (auto simp: pb_decode_varint32_exact [OF assms])
  have s1: "buffered (advance (length g) s)" "stream_data (advance (length g) s) = body @ rest"
    using advance_buffered [OF assms] data by simp_all
  have "pb_skip_bytes (advance (length g) s) (ucast (of_nat (varint_value g) :: u32)) = (Some (), s')"
    using s1(2) body s' by (auto simp: pb_skip_bytes_exact [OF s1(1)] unat_ucast_up advance_advance)
  then show ?L by (simp add: pb_skip_string_def len)
qed

text \<open>
  C21. \<open>pb_skip_field\<close>, which the decoder calls for every field it does not know, succeeds on
  exactly the windows that start with a payload of the wire type, and consumes just that
  payload; groups and reserved wire types are refused.
\<close>
theorem pb_skip_field_exact:
  assumes "buffered s"
  shows "pb_skip_field s wt = (Some (), s') \<longleftrightarrow>
    (\<exists>p rest. wire_payload wt p \<and> stream_data s = p @ rest \<and> s' = advance (length p) s)"
proof -
  consider "wt = PB_WT_VARINT" | "wt = PB_WT_64BIT" | "wt = PB_WT_32BIT" | "wt = PB_WT_STRING"
    | "wt \<noteq> PB_WT_VARINT" "wt \<noteq> PB_WT_64BIT" "wt \<noteq> PB_WT_32BIT" "wt \<noteq> PB_WT_STRING" by blast
  then show ?thesis
  proof cases
    case 1
    then show ?thesis by (simp add: pb_skip_field_def wire_payload_def pb_skip_varint_exact [OF assms])
  next
    case 2
    then show ?thesis by (simp add: pb_skip_field_def wire_payload_def pb_skip_bytes_exact [OF assms])
  next
    case 3
    then show ?thesis by (simp add: pb_skip_field_def wire_payload_def pb_skip_bytes_exact [OF assms])
  next
    case 4
    then show ?thesis by (simp add: pb_skip_field_def pb_skip_string_exact [OF assms])
  next
    case 5
    then show ?thesis by (simp add: pb_skip_field_def wire_payload_def)
  qed
qed

theorem pb_skip_field_exact_witness:
  "pb_skip_field (pb_istream_from_buffer [0x02, 0xaa, 0xbb, 0x07] 4 :: unit pb_istream) PB_WT_STRING =
     (Some (), advance 3 (pb_istream_from_buffer [0x02, 0xaa, 0xbb, 0x07] 4))"
proof (subst pb_skip_field_exact)
  let ?s = "pb_istream_from_buffer [0x02, 0xaa, 0xbb, 0x07] 4 :: unit pb_istream"
  show "buffered ?s" by (rule pb_istream_from_buffer_buffered) simp
  have "varint_group [0x02]" "length [0xaa, 0xbb :: u8] = unat (of_nat (varint_value [0x02]) :: u32)" by code_simp+
  moreover have "[0x02, 0xaa, 0xbb] = [0x02] @ [0xaa, 0xbb :: u8]" "length [0x02 :: u8] \<le> 5" by simp_all
  ultimately have "wire_payload PB_WT_STRING [0x02, 0xaa, 0xbb]" unfolding wire_payload_def by blast
  moreover have "stream_data ?s = [0x02, 0xaa, 0xbb] @ [0x07]" by (simp add: pb_istream_from_buffer_buffered(2))
  moreover have "advance 3 ?s = advance (length [0x02, 0xaa, 0xbb :: u8]) ?s" by (simp add: numeral_3_eq_3)
  ultimately show "\<exists>p rest. wire_payload PB_WT_STRING p \<and> stream_data ?s = p @ rest \<and> advance 3 ?s = advance (length p) ?s"
    by blast
qed


section \<open>Reading only shrinks a stream\<close>

text \<open>
  A callback that follows the rules of \<open>pb_decode.h\<close> never delivers more bytes than it is
  asked for. Every operation leaves a stream with at most the bytes it had, and one that
  reads something leaves fewer: the measure of the decoder's loops.
\<close>

definition source_ok :: "'s pb_istream \<Rightarrow> bool" where
  "source_ok s \<longleftrightarrow>
     (case in_source s of
        Buf_read _ \<Rightarrow> True
      | In_callback f _ \<Rightarrow> \<forall>st n bs st'. f st n = (Some bs, st') \<longrightarrow> length bs \<le> n)"

definition drains :: "'s pb_istream \<Rightarrow> 's pb_istream \<Rightarrow> bool" where
  "drains s s' \<longleftrightarrow> bytes_left s' \<le> bytes_left s \<and> (source_ok s \<longrightarrow> source_ok s')"

definition consumes :: "'s pb_istream \<Rightarrow> 'a option \<Rightarrow> 's pb_istream \<Rightarrow> bool" where
  "consumes s r s' \<longleftrightarrow> drains s s' \<and> (r \<noteq> None \<longrightarrow> bytes_left s' < bytes_left s)"

lemma drains_refl [simp, intro]: "drains s s"
  by (simp add: drains_def)

lemma drains_trans [trans]: "drains s s' \<Longrightarrow> drains s' s'' \<Longrightarrow> drains s s''"
  by (auto simp: drains_def)

lemma drains_error [simp]: "drains s (in_error s' msg) \<longleftrightarrow> drains s s'"
  by (simp add: drains_def in_error_def source_ok_def)

lemma consumes_drains [dest]: "consumes s r s' \<Longrightarrow> drains s s'"
  by (simp add: consumes_def)

lemma consumes_simps [simp]:
  "consumes s (Some x) s' \<longleftrightarrow> drains s s' \<and> bytes_left s' < bytes_left s"
  "consumes s None s' \<longleftrightarrow> drains s s'"
  by (simp_all add: consumes_def)

lemma consumes_then: "consumes s (Some x) s' \<Longrightarrow> drains s' s'' \<Longrightarrow> consumes s r s''"
  by (auto simp: consumes_def drains_def)

lemma source_read_ok:
  "source_read (in_source s) n = (r, src) \<Longrightarrow> source_ok s \<Longrightarrow>
   source_ok (s\<lparr>in_source := src, bytes_left := k\<rparr>) \<and> source_ok (s\<lparr>in_source := src\<rparr>) \<and>
   (\<forall>bs. r = Some bs \<longrightarrow> length bs \<le> n)"
  by (auto simp: source_read_def source_ok_def split: pb_source.splits prod.splits)

lemma pb_read_buf_drains:
  assumes "pb_read_buf s n = (r, s')"
  shows "drains s s'" "0 < n \<Longrightarrow> consumes s r s'" "source_ok s \<Longrightarrow> r = Some bs \<Longrightarrow> length bs \<le> unat n"
proof -
  obtain r0 src where read: "source_read (in_source s) (unat n) = (r0, src)" by (cases "source_read (in_source s) (unat n)")
  have sub: "bytes_left s - n \<le> bytes_left s" "0 < n \<longrightarrow> bytes_left s - n < bytes_left s" if "n \<le> bytes_left s"
    using that by (auto simp: word_le_nat_alt word_less_nat_alt unat_sub)
  show "drains s s'" "0 < n \<Longrightarrow> consumes s r s'" "source_ok s \<Longrightarrow> r = Some bs \<Longrightarrow> length bs \<le> unat n"
    using assms sub source_read_ok [OF read]
    by (auto simp: pb_read_buf_def read consumes_def drains_def not_less in_error_def source_ok_def
        split: if_splits option.splits)
qed

lemma pb_readbyte_consumes: "pb_readbyte s = (r, s') \<Longrightarrow> consumes s r s'"
proof -
  assume *: "pb_readbyte s = (r, s')"
  obtain r0 src where read: "source_read (in_source s) 1 = (r0, src)" by (cases "source_read (in_source s) 1")
  have sub: "bytes_left s - 1 < bytes_left s" if "bytes_left s \<noteq> 0"
    using that by (simp add: word_less_nat_alt unat_minus_one unat_gt_0)
  show ?thesis
    using * sub source_read_ok [OF read]
    by (auto simp: pb_readbyte_def read consumes_def drains_def in_error_def source_ok_def less_imp_le
        simp del: One_nat_def split: if_splits option.splits)
qed

lemma varint32_loop_consumes: "varint32_loop s k r = (v, s') \<Longrightarrow> consumes s v s'"
proof (induction s k r rule: varint32_loop.induct)
  case (1 s k r)
  obtain b s1 where rb: "pb_readbyte s = (b, s1)" by (cases "pb_readbyte s")
  note c = pb_readbyte_consumes [OF rb]
  show ?case
  proof (cases "32 \<le> k \<or> b = None")
    case True
    then show ?thesis using 1(2) c by (subst (asm) varint32_loop.simps) (auto simp: rb split: if_splits)
  next
    case False
    then obtain byte where b: "b = Some byte" by auto
    show ?thesis
    proof (cases "byte AND 0x80 = 0")
      case True
      then show ?thesis using 1(2) False c b by (subst (asm) varint32_loop.simps) (auto simp: rb)
    next
      case cont: False
      then have "varint32_loop s1 (k + 7) (r OR push_bit k (ucast (byte AND 0x7f))) = (v, s')"
        using 1(2) False b by (subst (asm) varint32_loop.simps) (simp add: rb)
      then have "consumes s1 v s'" using 1(1) [OF _ rb [symmetric] b refl refl] False cont by simp
      then show ?thesis using consumes_then [OF c [unfolded b]] by blast
    qed
  qed
qed

lemma varint_loop_consumes: "varint_loop s k r = (v, s') \<Longrightarrow> consumes s v s'"
proof (induction s k r rule: varint_loop.induct)
  case (1 s k r)
  obtain b s1 where rb: "pb_readbyte s = (b, s1)" by (cases "pb_readbyte s")
  note c = pb_readbyte_consumes [OF rb]
  show ?case
  proof (cases "64 \<le> k \<or> b = None")
    case True
    then show ?thesis using 1(2) c by (subst (asm) varint_loop.simps) (auto simp: rb split: if_splits)
  next
    case False
    then obtain byte where b: "b = Some byte" by auto
    show ?thesis
    proof (cases "byte AND 0x80 = 0")
      case True
      then show ?thesis using 1(2) False c b by (subst (asm) varint_loop.simps) (auto simp: rb)
    next
      case cont: False
      then have "varint_loop s1 (k + 7) (r OR push_bit k (ucast (byte AND 0x7f))) = (v, s')"
        using 1(2) False b by (subst (asm) varint_loop.simps) (simp add: rb)
      then have "consumes s1 v s'" using 1(1) [OF _ rb [symmetric] b refl refl] False cont by simp
      then show ?thesis using consumes_then [OF c [unfolded b]] by blast
    qed
  qed
qed

lemma pb_decode_varint32_consumes: "pb_decode_varint32 s = (v, s') \<Longrightarrow> consumes s v s'"
  using varint32_loop_consumes by (simp add: pb_decode_varint32_loop)

lemma pb_decode_varint_consumes: "pb_decode_varint s = (v, s') \<Longrightarrow> consumes s v s'"
  using varint_loop_consumes by (simp add: pb_decode_varint_def)

lemma pb_decode_svarint_consumes: "pb_decode_svarint s = (v, s') \<Longrightarrow> consumes s v s'"
  by (cases "pb_decode_varint s") (auto simp: pb_decode_svarint_def dest: pb_decode_varint_consumes split: option.splits)

lemma pb_decode_fixed32_consumes: "pb_decode_fixed32 s = (v, s') \<Longrightarrow> consumes s v s'"
  by (cases "pb_read_buf s 4") (auto simp: pb_decode_fixed32_def dest: pb_read_buf_drains split: option.splits)

lemma pb_decode_fixed64_consumes: "pb_decode_fixed64 s = (v, s') \<Longrightarrow> consumes s v s'"
  by (cases "pb_read_buf s 8") (auto simp: pb_decode_fixed64_def dest: pb_read_buf_drains split: option.splits)

lemma pb_skip_bytes_drains: "pb_skip_bytes s n = (r, s') \<Longrightarrow> drains s s'"
proof (induction s n arbitrary: r s' rule: pb_skip_bytes.induct)
  case (1 s n)
  obtain r1 s1 where rb: "pb_read_buf s n = (r1, s1)" by (cases "pb_read_buf s n")
  obtain r2 s2 where rb16: "pb_read_buf s 16 = (r2, s2)" by (cases "pb_read_buf s 16")
  show ?case
  proof (cases "\<exists>f st. in_source s = In_callback f st \<and> 16 < n \<and> r2 \<noteq> None")
    case True
    then obtain f st bs where src: "in_source s = In_callback f st" "16 < n" "r2 = Some bs" by auto
    then have "pb_skip_bytes s2 (n - 16) = (r, s')"
      using 1(2) by (subst (asm) pb_skip_bytes.simps) (simp add: rb16)
    then have "drains s2 s'" using 1(1) [OF src(1,2) rb16 [symmetric] src(3)] by simp
    then show ?thesis using drains_trans pb_read_buf_drains(1) [OF rb16] by blast
  next
    case False
    then show ?thesis
      using 1(2) pb_read_buf_drains(1) [OF rb] pb_read_buf_drains(1) [OF rb16]
      by (subst (asm) pb_skip_bytes.simps) (auto simp: rb rb16 split: pb_source.splits if_splits option.splits)
  qed
qed

lemma pb_skip_varint_drains: "pb_skip_varint s = (r, s') \<Longrightarrow> drains s s'"
proof (induction s arbitrary: r s' rule: pb_skip_varint.induct)
  case (1 s)
  obtain r1 s1 where rb: "pb_read_buf s 1 = (r1, s1)" by (cases "pb_read_buf s 1")
  show ?case
  proof (cases "\<exists>bs. r1 = Some bs \<and> hd bs AND 0x80 \<noteq> 0")
    case True
    then obtain bs where bs: "r1 = Some bs" "hd bs AND 0x80 \<noteq> 0" by blast
    then have "pb_skip_varint s1 = (r, s')" using 1(2) by (subst (asm) pb_skip_varint.simps) (simp add: rb)
    then have "drains s1 s'" using 1(1) [OF rb [symmetric] bs] by simp
    then show ?thesis using drains_trans pb_read_buf_drains(1) [OF rb] by blast
  next
    case False
    then show ?thesis using 1(2) pb_read_buf_drains(1) [OF rb]
      by (subst (asm) pb_skip_varint.simps) (auto simp: rb split: option.splits)
  qed
qed

lemma pb_skip_string_drains: "pb_skip_string s = (r, s') \<Longrightarrow> drains s s'"
  by (cases "pb_decode_varint32 s")
    (auto simp: pb_skip_string_def split: option.splits
      dest!: pb_decode_varint32_consumes pb_skip_bytes_drains intro: drains_trans)

lemma pb_skip_field_drains: "pb_skip_field s wt = (r, s') \<Longrightarrow> drains s s'"
  by (auto simp: pb_skip_field_def split: if_splits
      dest: pb_skip_varint_drains pb_skip_bytes_drains pb_skip_string_drains)

lemma pb_decode_tag_consumes: "pb_decode_tag s = (r, eof, s') \<Longrightarrow> consumes s r s'"
  by (cases "pb_decode_varint32 s")
    (auto simp: pb_decode_tag_def split: option.splits if_splits dest!: pb_decode_varint32_consumes)

text \<open>A tag has at most 29 bits.\<close>

lemma pb_decode_tag_small: "pb_decode_tag s = (Some (wt, tag), eof, s') \<Longrightarrow> tag < - 1"
proof -
  assume "pb_decode_tag s = (Some (wt, tag), eof, s')"
  then obtain temp where "tag = drop_bit 3 temp" by (auto simp: pb_decode_tag_def split: prod.splits option.splits if_splits)
  moreover have "unat temp div 8 < 2 ^ 29" using unat_bound [of temp] by simp
  moreover have "unat (- 1 :: u32) = 2 ^ 32 - 1" by (simp add: unsigned_minus_1_eq_mask mask_eq_exp_minus_1)
  ultimately show ?thesis by (simp add: word_less_nat_alt unat_drop_bit)
qed

lemma pb_make_string_substream_drains:
  "pb_make_string_substream s = (r, s') \<Longrightarrow> consumes s r s'"
  "pb_make_string_substream s = (Some sub, s') \<Longrightarrow> drains s sub"
proof -
  obtain v s1 where v: "pb_decode_varint32 s = (v, s1)" by (cases "pb_decode_varint32 s")
  note c = pb_decode_varint32_consumes [OF v]
  have sub: "bytes_left s1 - ucast n \<le> bytes_left s1" if "\<not> bytes_left s1 < ucast n" for n :: u32
    using that by (simp add: word_le_nat_alt word_less_nat_alt unat_sub)
  show "consumes s r s'" if "pb_make_string_substream s = (r, s')"
  proof (cases v)
    case None
    then show ?thesis using that c by (auto simp: pb_make_string_substream_def v)
  next
    case (Some n)
    have "consumes s r' (s1\<lparr>bytes_left := bytes_left s1 - ucast n\<rparr>)" if "\<not> bytes_left s1 < ucast n" for r' :: "'s pb_istream option"
      by (rule consumes_then [OF c [unfolded Some]]) (use sub [OF that] in \<open>simp add: drains_def source_ok_def\<close>)
    then show ?thesis using that c Some by (auto simp: pb_make_string_substream_def v split: if_splits)
  qed
  show "drains s sub" if "pb_make_string_substream s = (Some sub, s')"
    using that c by (auto simp: pb_make_string_substream_def v drains_def source_ok_def not_less split: option.splits if_splits)
qed

lemma pb_close_string_substream_drains:
  assumes "pb_close_string_substream s sub = (r, s')" "source_ok s \<longrightarrow> source_ok sub"
  shows "drains s s'"
proof -
  obtain r1 sub1 where sub1: "(if bytes_left sub \<noteq> 0 then pb_skip_bytes sub (bytes_left sub) else (Some (), sub)) = (r1, sub1)"
    by (cases "if bytes_left sub \<noteq> 0 then pb_skip_bytes sub (bytes_left sub) else (Some (), sub)")
  then have "drains sub sub1" by (auto split: if_splits dest: pb_skip_bytes_drains)
  then show ?thesis using assms
    by (auto simp: pb_close_string_substream_def sub1 drains_def source_ok_def split: option.splits)
qed

end
