(* ===== verification/Pb_Common.thy ===== *)
theory Pb_Common
  imports Prelude "HOL-Library.Monad_Syntax"
begin

text \<open>
  Memory, field descriptors and the field iterator of nanopb (\<open>pb.h\<close>, \<open>pb_common.c\<close>).

  The memory of the process is a function from addresses to bytes, as the code itself
  walks message structures by byte offsets; integers are little-endian and pointers have
  eight bytes. A descriptor array is the list of its fields without the terminating
  \<open>PB_LAST_FIELD\<close>: \<open>ptr\<close> is a tree, so the messages are those without recursive types.
  A result \<open>None\<close> stands for a run that the C standard gives no meaning or that does not
  return.
\<close>

section \<open>Memory\<close>

type_synonym addr = int
type_synonym memory = "addr \<Rightarrow> u8"

definition load :: "memory \<Rightarrow> addr \<Rightarrow> nat \<Rightarrow> bytes" where
  "load m a n = map (\<lambda>i. m (a + int i)) [0..<n]"

definition store :: "memory \<Rightarrow> addr \<Rightarrow> bytes \<Rightarrow> memory" where
  "store m a bs = (\<lambda>x. if a \<le> x \<and> x < a + int (length bs) then bs ! nat (x - a) else m x)"

definition load_u32 :: "memory \<Rightarrow> addr \<Rightarrow> u32" where
  "load_u32 m a = of_nat (le_nat (load m a 4))"

definition load_ptr :: "memory \<Rightarrow> addr \<Rightarrow> addr" where
  "load_ptr m a = int (le_nat (load m a 8))"

definition store_u32 :: "memory \<Rightarrow> addr \<Rightarrow> u32 \<Rightarrow> memory" where
  "store_u32 m a w = store m a (le_bytes 4 (unat w))"

definition store_ptr :: "memory \<Rightarrow> addr \<Rightarrow> addr \<Rightarrow> memory" where
  "store_ptr m a p = store m a (le_bytes 8 (nat p))"

lemma length_load [simp]: "length (load m a n) = n"
  by (simp add: load_def)

lemma load_nth [simp]: "i < n \<Longrightarrow> load m a n ! i = m (a + int i)"
  by (simp add: load_def)

lemma load_store [simp]: "load (store m a bs) a (length bs) = bs"
  by (rule nth_equalityI) (auto simp: store_def)

lemma store_outside: "x < a \<or> a + int (length bs) \<le> x \<Longrightarrow> store m a bs x = m x"
  by (auto simp: store_def)

lemma load_u32_store_u32 [simp]: "load_u32 (store_u32 m a w) a = w"
proof -
  have "load (store_u32 m a w) a 4 = le_bytes 4 (unat w)"
    using load_store [of m a "le_bytes 4 (unat w)"] by (simp add: store_u32_def)
  then show ?thesis using unat_bound [of w] by (simp add: load_u32_def le_nat_le_bytes)
qed

text \<open>Memory that changes only inside the \<open>n\<close> bytes from \<open>a\<close> and in the set \<open>W\<close>.\<close>

definition only_writes :: "addr set \<Rightarrow> addr \<Rightarrow> nat \<Rightarrow> memory \<Rightarrow> memory \<Rightarrow> bool" where
  "only_writes W a n m m' \<longleftrightarrow> (\<forall>x. x \<notin> W \<and> (x < a \<or> a + int n \<le> x) \<longrightarrow> m' x = m x)"

lemma only_writes_refl [simp, intro]: "only_writes W a n m m"
  by (simp add: only_writes_def)

lemma only_writes_trans [trans]: "only_writes W a n m m' \<Longrightarrow> only_writes W a n m' m'' \<Longrightarrow> only_writes W a n m m''"
  by (simp add: only_writes_def)

lemma only_writes_mono:
  "only_writes W b k m m' \<Longrightarrow> a \<le> b \<Longrightarrow> b + int k \<le> a + int n \<Longrightarrow> only_writes W a n m m'"
  by (auto simp: only_writes_def)

lemma only_writes_store: "a \<le> b \<Longrightarrow> b + int (length bs) \<le> a + int n \<Longrightarrow> only_writes W a n m (store m b bs)"
  by (auto simp: only_writes_def store_outside)

lemma only_writes_at: "length bs \<le> n \<Longrightarrow> only_writes W a n m (store m a bs)"
  by (rule only_writes_store) simp_all

lemma only_writes_offset: "off + length bs \<le> n \<Longrightarrow> only_writes W a n m (store m (a + int off) bs)"
  by (rule only_writes_store) simp_all

section \<open>Field descriptors\<close>

type_synonym pb_size_t = u32
type_synonym pb_type_t = u8

text \<open>\<open>ptr\<close> is \<open>NULL\<close>, the fields of a submessage, or the bytes of a default value.\<close>

datatype pb_field =
  Pb_field (field_tag: pb_size_t) (field_type: pb_type_t) (data_offset: pb_size_t) (size_offset: int)
    (data_size: pb_size_t) (array_size: pb_size_t) (field_ptr: pb_ptr)
and pb_ptr = Null | Submsg "pb_field list" | Default bytes

abbreviation PB_SIZE_MAX :: pb_size_t where "PB_SIZE_MAX \<equiv> - 1"

definition PB_LAST_FIELD :: pb_field where "PB_LAST_FIELD = Pb_field 0 0 0 0 0 0 Null"

abbreviation (input) PB_LTYPE_VARINT :: pb_type_t where "PB_LTYPE_VARINT \<equiv> 0"
abbreviation (input) PB_LTYPE_UVARINT :: pb_type_t where "PB_LTYPE_UVARINT \<equiv> 1"
abbreviation (input) PB_LTYPE_SVARINT :: pb_type_t where "PB_LTYPE_SVARINT \<equiv> 2"
abbreviation (input) PB_LTYPE_FIXED32 :: pb_type_t where "PB_LTYPE_FIXED32 \<equiv> 3"
abbreviation (input) PB_LTYPE_FIXED64 :: pb_type_t where "PB_LTYPE_FIXED64 \<equiv> 4"
abbreviation (input) PB_LTYPE_LAST_PACKABLE :: pb_type_t where "PB_LTYPE_LAST_PACKABLE \<equiv> 4"
abbreviation (input) PB_LTYPE_BYTES :: pb_type_t where "PB_LTYPE_BYTES \<equiv> 5"
abbreviation (input) PB_LTYPE_STRING :: pb_type_t where "PB_LTYPE_STRING \<equiv> 6"
abbreviation (input) PB_LTYPE_SUBMESSAGE :: pb_type_t where "PB_LTYPE_SUBMESSAGE \<equiv> 7"
abbreviation (input) PB_LTYPE_EXTENSION :: pb_type_t where "PB_LTYPE_EXTENSION \<equiv> 8"
abbreviation (input) PB_LTYPE_FIXED_LENGTH_BYTES :: pb_type_t where "PB_LTYPE_FIXED_LENGTH_BYTES \<equiv> 9"

abbreviation (input) PB_HTYPE_REQUIRED :: pb_type_t where "PB_HTYPE_REQUIRED \<equiv> 0x00"
abbreviation (input) PB_HTYPE_OPTIONAL :: pb_type_t where "PB_HTYPE_OPTIONAL \<equiv> 0x10"
abbreviation (input) PB_HTYPE_REPEATED :: pb_type_t where "PB_HTYPE_REPEATED \<equiv> 0x20"
abbreviation (input) PB_HTYPE_ONEOF :: pb_type_t where "PB_HTYPE_ONEOF \<equiv> 0x30"

abbreviation (input) PB_ATYPE_STATIC :: pb_type_t where "PB_ATYPE_STATIC \<equiv> 0x00"
abbreviation (input) PB_ATYPE_POINTER :: pb_type_t where "PB_ATYPE_POINTER \<equiv> 0x80"
abbreviation (input) PB_ATYPE_CALLBACK :: pb_type_t where "PB_ATYPE_CALLBACK \<equiv> 0x40"

definition PB_LTYPE :: "pb_type_t \<Rightarrow> pb_type_t" where "PB_LTYPE t = t AND 0x0f"
definition PB_HTYPE :: "pb_type_t \<Rightarrow> pb_type_t" where "PB_HTYPE t = t AND 0x30"
definition PB_ATYPE :: "pb_type_t \<Rightarrow> pb_type_t" where "PB_ATYPE t = t AND 0xc0"

lemma and_push_mask: "t AND push_bit n (mask k) = push_bit n (drop_bit n t AND mask k :: 'a::len word)"
  by (rule bit_word_eqI) (auto simp: bit_simps)

lemma htype_cases:
  obtains "PB_HTYPE t = PB_HTYPE_REQUIRED" | "PB_HTYPE t = PB_HTYPE_OPTIONAL"
    | "PB_HTYPE t = PB_HTYPE_REPEATED" | "PB_HTYPE t = PB_HTYPE_ONEOF"
proof -
  have "(0x30 :: u8) = push_bit 4 (mask 2)" by code_simp
  then have t: "PB_HTYPE t = push_bit 4 (drop_bit 4 t AND mask 2)"
    by (simp only: PB_HTYPE_def and_push_mask)
  define x where "x = drop_bit 4 t AND mask 2"
  have "unat x < 4" by (simp add: x_def unat_and_mask)
  then have "unat x = 0 \<or> unat x = 1 \<or> unat x = 2 \<or> unat x = 3" by arith
  then have "x = 0 \<or> x = 1 \<or> x = 2 \<or> x = 3" by (auto simp: word_unat_eq_iff)
  then show thesis using that t unfolding x_def [symmetric] by auto
qed

lemma ltype_cases:
  assumes "l < (10 :: u8)" "l \<noteq> PB_LTYPE_EXTENSION"
  obtains "l = PB_LTYPE_VARINT" | "l = PB_LTYPE_UVARINT" | "l = PB_LTYPE_SVARINT" | "l = PB_LTYPE_FIXED32"
    | "l = PB_LTYPE_FIXED64" | "l = PB_LTYPE_BYTES" | "l = PB_LTYPE_STRING" | "l = PB_LTYPE_SUBMESSAGE"
    | "l = PB_LTYPE_FIXED_LENGTH_BYTES"
proof -
  have "unat l < 10" "unat l \<noteq> 8" using assms by (auto simp: word_less_nat_alt word_unat_eq_iff)
  then have "unat l = 0 \<or> unat l = 1 \<or> unat l = 2 \<or> unat l = 3 \<or> unat l = 4 \<or> unat l = 5 \<or> unat l = 6 \<or>
    unat l = 7 \<or> unat l = 9" by arith
  then show thesis using that by (auto simp: word_unat_eq_iff)
qed

text \<open>\<open>offsetof(pb_bytes_array_t, bytes)\<close> is 4.\<close>

definition PB_BYTES_ARRAY_T_ALLOCSIZE :: "size_t \<Rightarrow> size_t" where
  "PB_BYTES_ARRAY_T_ALLOCSIZE n = n + 4"

section \<open>The field iterator\<close>

record pb_field_iter =
  start :: "pb_field list"
  pos :: nat
  required_field_index :: u32
  dest_struct :: addr
  pData :: addr
  pSize :: addr

definition field_at :: "pb_field list \<Rightarrow> nat \<Rightarrow> pb_field" where
  "field_at fs i = (if i < length fs then fs ! i else PB_LAST_FIELD)"

abbreviation cur :: "pb_field_iter \<Rightarrow> pb_field" where
  "cur iter \<equiv> field_at (start iter) (pos iter)"

definition pb_field_iter_begin :: "pb_field list \<Rightarrow> addr \<Rightarrow> bool \<times> pb_field_iter" where
  "pb_field_iter_begin fs dest =
     (let f = field_at fs 0; data = dest + uint (data_offset f) in
      (field_tag f \<noteq> 0,
       \<lparr>start = fs, pos = 0, required_field_index = 0, dest_struct = dest,
        pData = data, pSize = data + size_offset f\<rparr>))"

definition pb_field_iter_next :: "pb_field_iter \<Rightarrow> bool \<times> pb_field_iter" where
  "pb_field_iter_next iter =
     (let prev_field = cur iter in
      if field_tag prev_field = 0 then (False, iter)
      else
        let iter = iter\<lparr>pos := pos iter + 1\<rparr>; f = cur iter in
        if field_tag f = 0 then (False, snd (pb_field_iter_begin (start iter) (dest_struct iter)))
        else if PB_HTYPE (field_type prev_field) = PB_HTYPE_ONEOF \<and>
                PB_HTYPE (field_type f) = PB_HTYPE_ONEOF \<and> data_offset f = PB_SIZE_MAX
        then (True, iter)
        else
          let prev_size =
            (if PB_ATYPE (field_type prev_field) = PB_ATYPE_STATIC \<and>
                PB_HTYPE (field_type prev_field) = PB_HTYPE_REPEATED
             then uint (data_size prev_field) * uint (array_size prev_field)
             else if PB_ATYPE (field_type prev_field) = PB_ATYPE_POINTER then 8
             else uint (data_size prev_field));
            idx = (if PB_HTYPE (field_type prev_field) = PB_HTYPE_REQUIRED
                   then required_field_index iter + 1 else required_field_index iter);
            data = pData iter + prev_size + uint (data_offset f)
          in (True, iter\<lparr>required_field_index := idx, pData := data, pSize := data + size_offset f\<rparr>))"

lemma pb_field_iter_next_pos:
  "pb_field_iter_next iter = (True, iter') \<Longrightarrow>
   start iter' = start iter \<and> dest_struct iter' = dest_struct iter \<and> pos iter' = Suc (pos iter) \<and>
   pos iter' < length (start iter)"
  by (auto simp: pb_field_iter_next_def Let_def field_at_def PB_LAST_FIELD_def split: if_splits)

lemma pb_field_iter_next_wrap:
  "pb_field_iter_next iter = (False, iter') \<Longrightarrow> field_tag (cur iter) \<noteq> 0 \<Longrightarrow>
   iter' = snd (pb_field_iter_begin (start iter) (dest_struct iter))"
  by (auto simp: pb_field_iter_next_def Let_def split: if_splits)

text \<open>
  The loop of \<open>pb_field_iter_find\<close> and \<open>find_extension_field\<close>: it looks for a field that
  \<open>wanted\<close> accepts; \<open>first\<close> is the position it began at.
\<close>

partial_function (option) iter_search ::
    "(pb_field \<Rightarrow> bool) \<Rightarrow> nat \<Rightarrow> pb_field_iter \<Rightarrow> (bool \<times> pb_field_iter) option" where
  "iter_search wanted first iter =
     (if wanted (cur iter) then Some (True, iter)
      else
        (case pb_field_iter_next iter of
           (_, iter) \<Rightarrow> if pos iter \<noteq> first then iter_search wanted first iter else Some (False, iter)))"

definition pb_field_iter_find :: "pb_field_iter \<Rightarrow> u32 \<Rightarrow> (bool \<times> pb_field_iter) option" where
  "pb_field_iter_find iter tag =
     iter_search (\<lambda>f. field_tag f = tag \<and> PB_LTYPE (field_type f) \<noteq> PB_LTYPE_EXTENSION) (pos iter) iter"

text \<open>
  The loops \<open>do { ... } while (pb_field_iter_next(&iter))\<close> of the encoder and the decoder:
  the body returns false when the function returns from inside the loop.
\<close>

function iter_do :: "(pb_field_iter \<Rightarrow> 'st \<Rightarrow> (bool \<times> 'st) option) \<Rightarrow> pb_field_iter \<Rightarrow> 'st \<Rightarrow> (bool \<times> 'st) option" where
  "iter_do body iter st =
     do {
       (ok, st) \<leftarrow> body iter st;
       if \<not> ok then Some (False, st)
       else (case pb_field_iter_next iter of
               (again, iter) \<Rightarrow> if again then iter_do body iter st else Some (True, st))
     }"
  by pat_completeness auto
termination
  by (relation "measure (\<lambda>(_, iter, _). length (start iter) - pos iter)")
    (auto dest!: pb_field_iter_next_pos [OF sym])

declare iter_do.simps [simp del]


section \<open>The fields in order\<close>

text \<open>The values of the iterator from one on to the last field, and from the first field on.\<close>

function iter_seq :: "pb_field_iter \<Rightarrow> pb_field_iter list" where
  "iter_seq iter = iter # (case pb_field_iter_next iter of (again, iter) \<Rightarrow> if again then iter_seq iter else [])"
  by pat_completeness auto
termination
  by (relation "measure (\<lambda>iter. length (start iter) - pos iter)") (auto dest!: pb_field_iter_next_pos [OF sym])

declare iter_seq.simps [simp del]

definition iters :: "pb_field list \<Rightarrow> addr \<Rightarrow> pb_field_iter list" where
  "iters fs a = (case pb_field_iter_begin fs a of (nonempty, iter) \<Rightarrow> if nonempty then iter_seq iter else [])"

primrec list_do :: "('a \<Rightarrow> 'st \<Rightarrow> (bool \<times> 'st) option) \<Rightarrow> 'a list \<Rightarrow> 'st \<Rightarrow> (bool \<times> 'st) option" where
  "list_do f [] st = Some (True, st)"
| "list_do f (x # xs) st = do { (ok, st) \<leftarrow> f x st; if \<not> ok then Some (False, st) else list_do f xs st }"

lemma iter_do_seq: "iter_do f iter st = list_do f (iter_seq iter) st"
proof (induction iter arbitrary: st rule: iter_seq.induct)
  case (1 iter)
  obtain again iter' where nxt: "pb_field_iter_next iter = (again, iter')" by (cases "pb_field_iter_next iter")
  show ?case
    using 1 [OF nxt [symmetric]]
    by (subst iter_do.simps, subst iter_seq.simps, cases "f iter st") (auto simp: nxt split: prod.splits)
qed

lemma iter_do_iters:
  "(case pb_field_iter_begin fs a of (False, _) \<Rightarrow> Some (True, st) | (True, iter) \<Rightarrow> iter_do f iter st) =
   list_do f (iters fs a) st"
  by (auto simp: iters_def iter_do_seq split: prod.splits bool.splits)

lemma list_do_map: "list_do f (map g xs) st = list_do (\<lambda>x. f (g x)) xs st"
proof (induction xs arbitrary: st)
  case (Cons x xs)
  then show ?case by (cases "f (g x) st") auto
qed simp

lemma list_do_total: "(\<And>x st. x \<in> set xs \<Longrightarrow> f x st \<noteq> None) \<Longrightarrow> list_do f xs st \<noteq> None"
proof (induction xs arbitrary: st)
  case (Cons x xs)
  obtain ok st' where "f x st = Some (ok, st')" using Cons.prems [of x st] by auto
  then show ?case using Cons.IH [of st'] Cons.prems by (cases ok) auto
qed simp

lemma iter_seq_start:
  "iter' \<in> set (iter_seq iter) \<Longrightarrow> pos iter < length (start iter) \<Longrightarrow>
   start iter' = start iter \<and> dest_struct iter' = dest_struct iter \<and> pos iter' < length (start iter')"
proof (induction iter rule: iter_seq.induct)
  case (1 iter)
  obtain again iter1 where nxt: "pb_field_iter_next iter = (again, iter1)" by (cases "pb_field_iter_next iter")
  consider "iter' = iter" | "again" "iter' \<in> set (iter_seq iter1)"
    using 1(2) by (subst (asm) iter_seq.simps) (auto simp: nxt split: if_splits)
  then show ?case
  proof cases
    case 2
    then show ?thesis using 1(1) [OF nxt [symmetric] 2] pb_field_iter_next_pos [of iter iter1] nxt by auto
  qed (simp add: 1(3))
qed

lemma iters_begin:
  assumes "iter \<in> set (iters fs a)"
  shows "start iter = fs" "dest_struct iter = a" "cur iter \<in> set fs" "pb_field_iter_begin fs a = (True, hd (iters fs a))"
proof -
  obtain iter0 where it0: "pb_field_iter_begin fs a = (True, iter0)" "iter \<in> set (iter_seq iter0)"
    using assms by (cases "pb_field_iter_begin fs a") (auto simp: iters_def split: if_splits)
  then have "start iter0 = fs" "dest_struct iter0 = a" "pos iter0 < length fs"
    by (auto simp: pb_field_iter_begin_def field_at_def PB_LAST_FIELD_def Let_def split: if_splits)
  then show "start iter = fs" "dest_struct iter = a" "cur iter \<in> set fs"
    using iter_seq_start [OF it0(2)] by (auto simp: field_at_def)
  show "pb_field_iter_begin fs a = (True, hd (iters fs a))"
    by (simp add: iters_def it0(1)) (subst iter_seq.simps, simp)
qed


text \<open>Moving the message moves the iterator.\<close>

definition shift :: "int \<Rightarrow> pb_field_iter \<Rightarrow> pb_field_iter" where
  "shift a iter = iter\<lparr>dest_struct := dest_struct iter + a, pData := pData iter + a, pSize := pSize iter + a\<rparr>"

lemma shift_simps [simp]:
  "start (shift a iter) = start iter" "pos (shift a iter) = pos iter"
  "required_field_index (shift a iter) = required_field_index iter"
  "pData (shift a iter) = pData iter + a" "pSize (shift a iter) = pSize iter + a"
  "dest_struct (shift a iter) = dest_struct iter + a"
  by (simp_all add: shift_def)

lemma pb_field_iter_begin_shift:
  "pb_field_iter_begin fs (b + a) = (case pb_field_iter_begin fs b of (r, iter) \<Rightarrow> (r, shift a iter))"
  by (simp add: pb_field_iter_begin_def shift_def Let_def)

lemma pb_field_iter_next_shift:
  "pb_field_iter_next (shift a iter) = (case pb_field_iter_next iter of (r, iter) \<Rightarrow> (r, shift a iter))"
  by (simp add: pb_field_iter_next_def pb_field_iter_begin_shift Let_def)
    (auto simp: shift_def pb_field_iter_begin_def Let_def)

lemma iter_seq_shift: "iter_seq (shift a iter) = map (shift a) (iter_seq iter)"
proof (induction iter rule: iter_seq.induct)
  case (1 iter)
  obtain again iter1 where nxt: "pb_field_iter_next iter = (again, iter1)" by (cases "pb_field_iter_next iter")
  show ?case using 1 [OF nxt [symmetric]]
    by (subst (1 2) iter_seq.simps) (simp add: pb_field_iter_next_shift nxt)
qed

lemma iters_shift: "iters fs a = map (shift a) (iters fs 0)"
  using pb_field_iter_begin_shift [of fs 0 a] by (simp add: iters_def iter_seq_shift split: prod.splits)

text \<open>The fields as a cycle.\<close>

lemma iter_seq_nth:
  assumes "i < length (iter_seq iter)" "pos iter < length (start iter)" "field_tag (cur iter) \<noteq> 0"
  shows "pos (iter_seq iter ! i) = pos iter + i \<and> field_tag (cur (iter_seq iter ! i)) \<noteq> 0 \<and>
    pb_field_iter_next (iter_seq iter ! i) =
      (if Suc i < length (iter_seq iter) then (True, iter_seq iter ! Suc i)
       else (False, snd (pb_field_iter_begin (start iter) (dest_struct iter))))"
  using assms
proof (induction iter arbitrary: i rule: iter_seq.induct)
  case (1 iter)
  obtain again iter1 where nxt: "pb_field_iter_next iter = (again, iter1)" by (cases "pb_field_iter_next iter")
  have seq: "iter_seq iter = iter # (if again then iter_seq iter1 else [])"
    by (subst iter_seq.simps) (simp add: nxt)
  have seq1: "iter_seq iter1 = iter1 # tl (iter_seq iter1)" by (metis iter_seq.simps list.sel(3))
  show ?case
  proof (cases again)
    case False
    then show ?thesis using 1(2,4) pb_field_iter_next_wrap [of iter iter1] nxt by (simp add: seq)
  next
    case True
    then have iter1: "start iter1 = start iter" "dest_struct iter1 = dest_struct iter" "pos iter1 = Suc (pos iter)"
      "pos iter1 < length (start iter1)"
      using pb_field_iter_next_pos [of iter iter1] nxt by auto
    have tag1: "field_tag (cur iter1) \<noteq> 0"
      using nxt True 1(4) by (auto simp: pb_field_iter_next_def Let_def split: if_splits)
    have len: "0 < length (iter_seq iter1)" by (subst seq1) simp
    show ?thesis
    proof (cases i)
      case 0
      then show ?thesis using nxt True len 1(4) by (simp add: seq) (metis nth_Cons_0 seq1)
    next
      case (Suc j)
      then have "j < length (iter_seq iter1)" using 1(2) True by (simp add: seq)
      note IH = 1(1) [OF nxt [symmetric] True this iter1(4) tag1]
      show ?thesis
        using IH [THEN conjunct1] IH [THEN conjunct2, THEN conjunct1] IH [THEN conjunct2, THEN conjunct2] Suc True iter1
        by (simp add: seq)
    qed
  qed
qed

lemma iters_nth:
  assumes "i < length (iters fs a)"
  shows "pos (iters fs a ! i) = i" "field_tag (cur (iters fs a ! i)) \<noteq> 0"
    "pb_field_iter_next (iters fs a ! i) =
      (if Suc i < length (iters fs a) then (True, iters fs a ! Suc i) else (False, iters fs a ! 0))"
proof -
  obtain iter where it: "pb_field_iter_begin fs a = (True, iter)" "iters fs a = iter_seq iter"
    using assms by (cases "pb_field_iter_begin fs a") (auto simp: iters_def split: if_splits)
  then have "start iter = fs" "dest_struct iter = a" "pos iter = 0" "pos iter < length (start iter)"
    "field_tag (cur iter) \<noteq> 0"
    by (auto simp: pb_field_iter_begin_def field_at_def PB_LAST_FIELD_def Let_def split: if_splits)
  moreover have "iters fs a ! 0 = iter" unfolding it(2) by (subst iter_seq.simps) simp
  ultimately show "pos (iters fs a ! i) = i" "field_tag (cur (iters fs a ! i)) \<noteq> 0"
    "pb_field_iter_next (iters fs a ! i) =
      (if Suc i < length (iters fs a) then (True, iters fs a ! Suc i) else (False, iters fs a ! 0))"
    using iter_seq_nth [of i iter] assms it by auto
qed

text \<open>A search returns, at a field of the message.\<close>

lemma iter_search_returns:
  assumes "i < length (iters fs a)" "first < length (iters fs a)"
  shows "\<exists>found j. iter_search wanted first (iters fs a ! i) = Some (found, iters fs a ! j) \<and>
    j < length (iters fs a) \<and> (found \<longrightarrow> wanted (cur (iters fs a ! j)))"
  using assms(1)
proof (induction "if i < first then first - i else length (iters fs a) - i + first" arbitrary: i rule: less_induct)
  case less
  let ?j = "if Suc i < length (iters fs a) then Suc i else 0"
  have nxt: "pb_field_iter_next (iters fs a ! i) = (Suc i < length (iters fs a), iters fs a ! ?j)"
    using iters_nth(3) [OF less.prems] by simp
  have j: "?j < length (iters fs a)" using less.prems by auto
  have pos: "pos (iters fs a ! ?j) = ?j" by (rule iters_nth(1) [OF j])
  consider (found) "wanted (cur (iters fs a ! i))" | (around) "\<not> wanted (cur (iters fs a ! i))" "?j = first"
    | (on) "\<not> wanted (cur (iters fs a ! i))" "?j \<noteq> first" by blast
  then show ?case
  proof cases
    case found
    then have "iter_search wanted first (iters fs a ! i) = Some (True, iters fs a ! i)"
      by (subst iter_search.simps) simp
    then show ?thesis using less.prems found by blast
  next
    case around
    then have "iter_search wanted first (iters fs a ! i) = Some (False, iters fs a ! ?j)"
      using pos by (subst iter_search.simps) (simp add: nxt)
    then show ?thesis using j by blast
  next
    case on
    have "(if ?j < first then first - ?j else length (iters fs a) - ?j + first) <
      (if i < first then first - i else length (iters fs a) - i + first)"
      using on less.prems assms(2) by auto
    from less.hyps [OF this j]
    have "\<exists>found k. iter_search wanted first (iters fs a ! ?j) = Some (found, iters fs a ! k) \<and>
      k < length (iters fs a) \<and> (found \<longrightarrow> wanted (cur (iters fs a ! k)))" .
    moreover have "iter_search wanted first (iters fs a ! i) = iter_search wanted first (iters fs a ! ?j)"
      using on pos by (subst iter_search.simps) (simp add: nxt)
    ultimately show ?thesis by presburger
  qed
qed

end
