(* ===== verification/Pb_Encode.thy ===== *)
theory Pb_Encode
  imports Pb_Stream Pb_Common
begin

text \<open>
  The message encoder of nanopb (\<open>pb_encode.c\<close>). The recursion through submessages is
  open: the field encoders take the encoder for submessages as an argument, and
  \<open>pb_encode\<close> ties the knot with a bound on the depth of nested messages. Callbacks of the
  application and of its extensions are an environment, addressed by their function
  pointers; they may change the stream and the memory.
\<close>

section \<open>Definitions\<close>

type_synonym 's enc_result = "(bool \<times> 's pb_ostream \<times> memory) option"
type_synonym 's pb_encoder_t = "pb_field \<Rightarrow> addr \<Rightarrow> 's pb_ostream \<Rightarrow> memory \<Rightarrow> 's enc_result"
type_synonym 's message_encoder = "pb_field list \<Rightarrow> addr \<Rightarrow> 's pb_ostream \<Rightarrow> memory \<Rightarrow> 's enc_result"

text \<open>
  \<open>enc_callback\<close> is \<open>funcs.encode\<close> of a callback field and gets the address of its \<open>arg\<close>;
  \<open>enc_extension\<close> is \<open>type->encode\<close> of an extension; \<open>ext_field\<close> the descriptor that
  \<open>type->arg\<close> points to; \<open>null_state\<close> the \<open>state\<close> of a stream that only counts.
\<close>

record 's pb_out_env =
  enc_callback :: "addr \<Rightarrow> 's pb_ostream \<Rightarrow> pb_field \<Rightarrow> addr \<Rightarrow> memory \<Rightarrow> bool \<times> 's pb_ostream \<times> memory"
  enc_extension :: "addr \<Rightarrow> 's pb_ostream \<Rightarrow> addr \<Rightarrow> memory \<Rightarrow> bool \<times> 's pb_ostream \<times> memory"
  ext_field :: "addr \<Rightarrow> pb_field"
  null_state :: 's

text \<open>A result of a function that does not touch the memory.\<close>

definition ret :: "memory \<Rightarrow> bool \<times> 's pb_ostream \<Rightarrow> 's enc_result" where
  "ret m r = (case r of (ok, s) \<Rightarrow> Some (ok, s, m))"

subsection \<open>Field encoders\<close>

text \<open>
  \<open>*(const intN_t*)src\<close> and \<open>*(const uintN_t*)src\<close> for the size of the field, extended to
  64 bits; no other size is accepted.
\<close>

definition load_signed :: "memory \<Rightarrow> addr \<Rightarrow> pb_size_t \<Rightarrow> u64 option" where
  "load_signed m a n =
     (let v = le_nat (load m a (unat n)) in
      if n = 1 then Some (scast (of_nat v :: u8))
      else if n = 2 then Some (scast (of_nat v :: u16))
      else if n = 4 then Some (scast (of_nat v :: u32))
      else if n = 8 then Some (of_nat v)
      else None)"

definition load_unsigned :: "memory \<Rightarrow> addr \<Rightarrow> pb_size_t \<Rightarrow> u64 option" where
  "load_unsigned m a n =
     (if n = 1 \<or> n = 2 \<or> n = 4 \<or> n = 8 then Some (of_nat (le_nat (load m a (unat n)))) else None)"

definition pb_enc_varint :: "'s pb_encoder_t" where
  "pb_enc_varint field src s m =
     (case load_signed m src (data_size field) of
        None \<Rightarrow> Some (False, out_error s ''invalid data_size'', m)
      | Some value \<Rightarrow> ret m (pb_encode_varint s value))"

definition pb_enc_uvarint :: "'s pb_encoder_t" where
  "pb_enc_uvarint field src s m =
     (case load_unsigned m src (data_size field) of
        None \<Rightarrow> Some (False, out_error s ''invalid data_size'', m)
      | Some value \<Rightarrow> ret m (pb_encode_varint s value))"

definition pb_enc_svarint :: "'s pb_encoder_t" where
  "pb_enc_svarint field src s m =
     (case load_signed m src (data_size field) of
        None \<Rightarrow> Some (False, out_error s ''invalid data_size'', m)
      | Some value \<Rightarrow> ret m (pb_encode_svarint s value))"

definition pb_enc_fixed32 :: "'s pb_encoder_t" where
  "pb_enc_fixed32 field src s m = ret m (pb_encode_fixed32 s (load_u32 m src))"

definition pb_enc_fixed64 :: "'s pb_encoder_t" where
  "pb_enc_fixed64 field src s m = ret m (pb_encode_fixed64 s (of_nat (le_nat (load m src 8))))"

definition pb_enc_bytes :: "'s pb_encoder_t" where
  "pb_enc_bytes field src s m =
     (if src = 0 then ret m (pb_encode_string s [] 0)
      else
        let n = load_u32 m src in
        if PB_ATYPE (field_type field) = PB_ATYPE_STATIC \<and>
           PB_BYTES_ARRAY_T_ALLOCSIZE (ucast n) > ucast (data_size field)
        then Some (False, out_error s ''bytes size exceeded'', m)
        else ret m (pb_encode_string s (load m (src + 4) (unat n)) (ucast n)))"

text \<open>The loop of \<open>pb_enc_string\<close>, with the number of bytes still allowed.\<close>

fun str_size :: "memory \<Rightarrow> addr \<Rightarrow> nat \<Rightarrow> nat" where
  "str_size m p 0 = 0"
| "str_size m p (Suc n) = (if m p = 0 then 0 else Suc (str_size m (p + 1) n))"

definition pb_enc_string :: "'s pb_encoder_t" where
  "pb_enc_string field src s m =
     (let max_size = (if PB_ATYPE (field_type field) = PB_ATYPE_POINTER then 2 ^ 64 - 1 else unat (data_size field));
          n = (if src = 0 then 0 else str_size m src max_size)
      in ret m (pb_encode_string s (load m src n) (of_nat n)))"

definition pb_enc_fixed_length_bytes :: "'s pb_encoder_t" where
  "pb_enc_fixed_length_bytes field src s m =
     ret m (pb_encode_string s (load m src (unat (data_size field))) (ucast (data_size field)))"

definition pb_encode_tag_for_field :: "'s pb_ostream \<Rightarrow> pb_field \<Rightarrow> bool \<times> 's pb_ostream" where
  "pb_encode_tag_for_field s field =
     (let l = PB_LTYPE (field_type field) in
      if l = PB_LTYPE_VARINT \<or> l = PB_LTYPE_UVARINT \<or> l = PB_LTYPE_SVARINT
      then pb_encode_tag s PB_WT_VARINT (field_tag field)
      else if l = PB_LTYPE_FIXED32 then pb_encode_tag s PB_WT_32BIT (field_tag field)
      else if l = PB_LTYPE_FIXED64 then pb_encode_tag s PB_WT_64BIT (field_tag field)
      else if l = PB_LTYPE_BYTES \<or> l = PB_LTYPE_STRING \<or> l = PB_LTYPE_SUBMESSAGE \<or> l = PB_LTYPE_FIXED_LENGTH_BYTES
      then pb_encode_tag s PB_WT_STRING (field_tag field)
      else (False, out_error s ''invalid field type''))"

text \<open>\<open>enc\<close> is \<open>pb_encode\<close> and \<open>nst\<close> the state of a counting stream.\<close>

definition pb_encode_submessage :: "'s message_encoder \<Rightarrow> 's \<Rightarrow> 's message_encoder" where
  "pb_encode_submessage enc nst fs src s m =
     do {
       (ok, sub, m) \<leftarrow> enc fs src (PB_OSTREAM_SIZING nst) m;
       if \<not> ok then Some (False, s\<lparr>out_errmsg := out_errmsg sub\<rparr>, m)
       else
         let n = bytes_written sub in
         (case pb_encode_varint s n of
            (False, s) \<Rightarrow> Some (False, s, m)
          | (True, s) \<Rightarrow>
              if callback s = None then ret m (pb_write s [] n)
              else if bytes_written s + n > max_size s then Some (False, out_error s ''stream full'', m)
              else
                do {
                  (status, sub, m) \<leftarrow> enc fs src \<lparr>callback = callback s, out_state = out_state s, max_size = n,
                     bytes_written = 0, out_errmsg = None\<rparr> m;
                  let s = s\<lparr>bytes_written := bytes_written s + bytes_written sub, out_state := out_state sub,
                            out_errmsg := out_errmsg sub\<rparr>;
                  if bytes_written sub \<noteq> n then Some (False, out_error s ''submsg size changed'', m)
                  else Some (status, s, m)
                })
     }"

definition pb_enc_submessage :: "'s message_encoder \<Rightarrow> 's \<Rightarrow> 's pb_encoder_t" where
  "pb_enc_submessage enc nst field src s m =
     (case field_ptr field of
        Null \<Rightarrow> Some (False, out_error s ''invalid field descriptor'', m)
      | Submsg fs \<Rightarrow> pb_encode_submessage enc nst fs src s m
      | Default _ \<Rightarrow> None)"

text \<open>The table; the entry for extensions is \<open>NULL\<close>.\<close>

definition PB_ENCODERS :: "'s message_encoder \<Rightarrow> 's \<Rightarrow> pb_type_t \<Rightarrow> 's pb_encoder_t" where
  "PB_ENCODERS enc nst l =
     (if l = PB_LTYPE_VARINT then pb_enc_varint
      else if l = PB_LTYPE_UVARINT then pb_enc_uvarint
      else if l = PB_LTYPE_SVARINT then pb_enc_svarint
      else if l = PB_LTYPE_FIXED32 then pb_enc_fixed32
      else if l = PB_LTYPE_FIXED64 then pb_enc_fixed64
      else if l = PB_LTYPE_BYTES then pb_enc_bytes
      else if l = PB_LTYPE_STRING then pb_enc_string
      else if l = PB_LTYPE_SUBMESSAGE then pb_enc_submessage enc nst
      else if l = PB_LTYPE_FIXED_LENGTH_BYTES then pb_enc_fixed_length_bytes
      else (\<lambda>_ _ _ _. None))"

subsection \<open>Arrays and fields\<close>

text \<open>The loops of \<open>encode_array\<close>: \<open>n\<close> more items from \<open>p\<close> on.\<close>

fun packed_items :: "'s pb_encoder_t \<Rightarrow> pb_field \<Rightarrow> nat \<Rightarrow> addr \<Rightarrow> 's pb_ostream \<Rightarrow> memory \<Rightarrow> 's enc_result" where
  "packed_items func field 0 p s m = Some (True, s, m)"
| "packed_items func field (Suc n) p s m =
     do {
       (ok, s, m) \<leftarrow> func field p s m;
       if \<not> ok then Some (False, s, m)
       else packed_items func field n (p + uint (data_size field)) s m
     }"

fun tagged_items :: "'s pb_encoder_t \<Rightarrow> pb_field \<Rightarrow> nat \<Rightarrow> addr \<Rightarrow> 's pb_ostream \<Rightarrow> memory \<Rightarrow> 's enc_result" where
  "tagged_items func field 0 p s m = Some (True, s, m)"
| "tagged_items func field (Suc n) p s m =
     (case pb_encode_tag_for_field s field of
        (False, s) \<Rightarrow> Some (False, s, m)
      | (True, s) \<Rightarrow>
          do {
            (ok, s, m) \<leftarrow>
              (if PB_ATYPE (field_type field) = PB_ATYPE_POINTER \<and>
                  (PB_LTYPE (field_type field) = PB_LTYPE_STRING \<or> PB_LTYPE (field_type field) = PB_LTYPE_BYTES)
               then func field (load_ptr m p) s m
               else func field p s m);
            if \<not> ok then Some (False, s, m)
            else tagged_items func field n (p + uint (data_size field)) s m
          })"

text \<open>The size of a packed array, or \<open>None\<close> inside when an item cannot be encoded.\<close>

definition packed_size ::
    "'s \<Rightarrow> 's pb_encoder_t \<Rightarrow> pb_field \<Rightarrow> size_t \<Rightarrow> addr \<Rightarrow> memory \<Rightarrow> (size_t option \<times> memory) option" where
  "packed_size nst func field cnt p m =
     (if PB_LTYPE (field_type field) = PB_LTYPE_FIXED32 then Some (Some (4 * cnt), m)
      else if PB_LTYPE (field_type field) = PB_LTYPE_FIXED64 then Some (Some (8 * cnt), m)
      else
        do {
          (ok, sizestream, m) \<leftarrow> packed_items func field (unat cnt) p (PB_OSTREAM_SIZING nst) m;
          Some (if ok then Some (bytes_written sizestream) else None, m)
        })"

definition encode_array ::
    "'s \<Rightarrow> 's pb_encoder_t \<Rightarrow> pb_field \<Rightarrow> addr \<Rightarrow> size_t \<Rightarrow> 's pb_ostream \<Rightarrow> memory \<Rightarrow> 's enc_result" where
  "encode_array nst func field p cnt s m =
     (if cnt = 0 then Some (True, s, m)
      else if PB_ATYPE (field_type field) \<noteq> PB_ATYPE_POINTER \<and> cnt > ucast (array_size field)
      then Some (False, out_error s ''array max size exceeded'', m)
      else if PB_LTYPE (field_type field) \<le> PB_LTYPE_LAST_PACKABLE then
        (case pb_encode_tag s PB_WT_STRING (field_tag field) of
           (False, s) \<Rightarrow> Some (False, s, m)
         | (True, s) \<Rightarrow>
             do {
               (sz, m) \<leftarrow> packed_size nst func field cnt p m;
               (case sz of
                  None \<Rightarrow> Some (False, s, m)
                | Some sz \<Rightarrow>
                    (case pb_encode_varint s sz of
                       (False, s) \<Rightarrow> Some (False, s, m)
                     | (True, s) \<Rightarrow>
                         if callback s = None then ret m (pb_write s [] sz)
                         else packed_items func field (unat cnt) p s m))
             })
      else tagged_items func field (unat cnt) p s m)"

text \<open>\<open>d\<close> bounds the depth of the submessages it looks into.\<close>

fun pb_check_proto3_default_value :: "nat \<Rightarrow> pb_field \<Rightarrow> addr \<Rightarrow> memory \<Rightarrow> bool option" where
  "pb_check_proto3_default_value 0 field p m = None"
| "pb_check_proto3_default_value (Suc d) field p m =
     (if PB_ATYPE (field_type field) = PB_ATYPE_STATIC \<and> PB_LTYPE (field_type field) = PB_LTYPE_BYTES
      then Some (load_u32 m p = 0)
      else if PB_ATYPE (field_type field) = PB_ATYPE_STATIC \<and> PB_LTYPE (field_type field) = PB_LTYPE_STRING
      then Some (m p = 0)
      else if PB_ATYPE (field_type field) = PB_ATYPE_STATIC \<and> PB_LTYPE (field_type field) = PB_LTYPE_FIXED_LENGTH_BYTES
      then Some (data_size field = 0)
      else if PB_ATYPE (field_type field) = PB_ATYPE_STATIC \<and> PB_LTYPE (field_type field) = PB_LTYPE_SUBMESSAGE
      then
        (case field_ptr field of
           Submsg fs \<Rightarrow>
             (case pb_field_iter_begin fs p of
                (False, _) \<Rightarrow> Some True
              | (True, iter) \<Rightarrow>
                  map_option fst (iter_do (\<lambda>iter _.
                    map_option (\<lambda>r. (r, ())) (pb_check_proto3_default_value d (cur iter) (pData iter) m)) iter ()))
         | _ \<Rightarrow> None)
      else Some (list_all (\<lambda>b. b = 0) (load m p (unat (data_size field)))))"

text \<open>\<open>pSize\<close> points to the local \<open>implicit_has\<close> or into the message.\<close>

fun has_flag :: "memory \<Rightarrow> bool + addr \<Rightarrow> bool" where
  "has_flag m (Inl implicit_has) = implicit_has"
| "has_flag m (Inr p) = (m p \<noteq> 0)"

fun size_count :: "memory \<Rightarrow> bool + addr \<Rightarrow> pb_size_t option" where
  "size_count m (Inl _) = None"
| "size_count m (Inr p) = Some (load_u32 m p)"

definition encode_one :: "'s pb_encoder_t \<Rightarrow> 's pb_encoder_t" where
  "encode_one func field p s m =
     (case pb_encode_tag_for_field s field of
        (False, s) \<Rightarrow> Some (False, s, m)
      | (True, s) \<Rightarrow> func field p s m)"

definition encode_basic_field :: "nat \<Rightarrow> 's message_encoder \<Rightarrow> 's \<Rightarrow> 's pb_encoder_t" where
  "encode_basic_field d enc nst field p s m =
     (let t = field_type field; func = PB_ENCODERS enc nst (PB_LTYPE t) in
      if PB_LTYPE t \<ge> 10 then None
      else
        do {
          size \<leftarrow>
            (if size_offset field \<noteq> 0 then Some (Inr (p + size_offset field))
             else if PB_HTYPE t = PB_HTYPE_OPTIONAL
             then map_option (\<lambda>zero. Inl (\<not> zero)) (pb_check_proto3_default_value d field p m)
             else Some (Inl True));
          let (p, size) =
            (if PB_ATYPE t = PB_ATYPE_POINTER
             then let p = load_ptr m p in
                  (p, case size of Inl _ \<Rightarrow> Inl (p \<noteq> 0) | Inr a \<Rightarrow> Inr a)
             else (p, size));
          if PB_HTYPE t = PB_HTYPE_REQUIRED then
            if p = 0 then Some (False, out_error s ''missing required field'', m)
            else encode_one func field p s m
          else if PB_HTYPE t = PB_HTYPE_OPTIONAL then
            if has_flag m size then encode_one func field p s m else Some (True, s, m)
          else if PB_HTYPE t = PB_HTYPE_REPEATED then
            do { cnt \<leftarrow> size_count m size; encode_array nst func field p (ucast cnt) s m }
          else
            do {
              which \<leftarrow> size_count m size;
              if which = field_tag field then encode_one func field p s m else Some (True, s, m)
            }
        })"

definition encode_callback_field :: "'s pb_out_env \<Rightarrow> 's pb_encoder_t" where
  "encode_callback_field env field p s m =
     (let f = load_ptr m p in
      if f \<noteq> 0 then
        (case enc_callback env f s field (p + 8) m of
           (False, s, m) \<Rightarrow> Some (False, out_error s ''callback error'', m)
         | (True, s, m) \<Rightarrow> Some (True, s, m))
      else Some (True, s, m))"

definition encode_field :: "'s pb_out_env \<Rightarrow> nat \<Rightarrow> 's message_encoder \<Rightarrow> 's pb_encoder_t" where
  "encode_field env d enc field p s m =
     (if PB_ATYPE (field_type field) = PB_ATYPE_STATIC \<or> PB_ATYPE (field_type field) = PB_ATYPE_POINTER
      then encode_basic_field d enc (null_state env) field p s m
      else if PB_ATYPE (field_type field) = PB_ATYPE_CALLBACK then encode_callback_field env field p s m
      else Some (False, out_error s ''invalid field type'', m))"

text \<open>
  An extension is \<open>type\<close>, \<open>dest\<close>, \<open>next\<close> and \<open>found\<close> at 0, 8, 16 and 24; its type is
  \<open>decode\<close>, \<open>encode\<close> and \<open>arg\<close> at 0, 8 and 16.
\<close>

definition default_extension_encoder ::
    "'s pb_out_env \<Rightarrow> nat \<Rightarrow> 's message_encoder \<Rightarrow> 's pb_ostream \<Rightarrow> addr \<Rightarrow> memory \<Rightarrow> 's enc_result" where
  "default_extension_encoder env d enc s ext m =
     (let field = ext_field env (load_ptr m (load_ptr m ext + 16)) in
      if PB_ATYPE (field_type field) = PB_ATYPE_POINTER then encode_field env d enc field (ext + 8) s m
      else encode_field env d enc field (load_ptr m (ext + 8)) s m)"

partial_function (option) encode_extensions ::
    "'s pb_out_env \<Rightarrow> nat \<Rightarrow> 's message_encoder \<Rightarrow> addr \<Rightarrow> 's pb_ostream \<Rightarrow> memory \<Rightarrow> 's enc_result" where
  "encode_extensions env d enc ext s m =
     (if ext = 0 then Some (True, s, m)
      else
        do {
          (ok, s, m) \<leftarrow>
            (if load_ptr m (load_ptr m ext + 8) \<noteq> 0
             then Some (enc_extension env (load_ptr m (load_ptr m ext + 8)) s ext m)
             else default_extension_encoder env d enc s ext m);
          if \<not> ok then Some (False, s, m)
          else encode_extensions env d enc (load_ptr m (ext + 16)) s m
        })"

definition encode_extension_field :: "'s pb_out_env \<Rightarrow> nat \<Rightarrow> 's message_encoder \<Rightarrow> 's pb_encoder_t" where
  "encode_extension_field env d enc field p s m = encode_extensions env d enc (load_ptr m p) s m"

subsection \<open>Messages\<close>

fun pb_encode :: "'s pb_out_env \<Rightarrow> nat \<Rightarrow> 's message_encoder" where
  "pb_encode env 0 fs src s m = None"
| "pb_encode env (Suc d) fs src s m =
     (case pb_field_iter_begin fs src of
        (False, _) \<Rightarrow> Some (True, s, m)
      | (True, iter) \<Rightarrow>
          iter_do (\<lambda>iter (s, m).
            if PB_LTYPE (field_type (cur iter)) = PB_LTYPE_EXTENSION
            then encode_extension_field env d (pb_encode env d) (cur iter) (pData iter) s m
            else encode_field env d (pb_encode env d) (cur iter) (pData iter) s m) iter (s, m))"

definition pb_encode_delimited :: "'s pb_out_env \<Rightarrow> nat \<Rightarrow> 's message_encoder" where
  "pb_encode_delimited env d = pb_encode_submessage (pb_encode env d) (null_state env)"

definition pb_get_encoded_size ::
    "'s pb_out_env \<Rightarrow> nat \<Rightarrow> pb_field list \<Rightarrow> addr \<Rightarrow> memory \<Rightarrow> (size_t option \<times> memory) option" where
  "pb_get_encoded_size env d fs src m =
     do {
       (ok, s, m) \<leftarrow> pb_encode env d fs src (PB_OSTREAM_SIZING (null_state env)) m;
       Some (if ok then Some (bytes_written s) else None, m)
     }"


section \<open>What a message is on the wire\<close>

text \<open>
  The abstract encoder: the bytes of a value, an array, a field and a message that lie in
  memory, without streams, sizing passes or buffers. \<open>None\<close> is a message that cannot be
  encoded. \<open>wm\<close> is the encoding of submessages.
\<close>

definition wire_string :: "bytes \<Rightarrow> bytes" where
  "wire_string bs = varint_bytes (length bs) @ bs"

definition wire_type :: "pb_type_t \<Rightarrow> pb_wire_type" where
  "wire_type l = (if l \<le> PB_LTYPE_SVARINT then PB_WT_VARINT else if l = PB_LTYPE_FIXED32 then PB_WT_32BIT
     else if l = PB_LTYPE_FIXED64 then PB_WT_64BIT else PB_WT_STRING)"

definition wire_key :: "pb_wire_type \<Rightarrow> pb_field \<Rightarrow> bytes" where
  "wire_key wt field = varint_bytes (unat (push_bit 3 (ucast (field_tag field)) OR ucast wt :: u64))"

definition wire_value :: "(pb_field list \<Rightarrow> addr \<Rightarrow> bytes option) \<Rightarrow> memory \<Rightarrow> pb_field \<Rightarrow> addr \<Rightarrow> bytes option" where
  "wire_value wm m field p =
     (let l = PB_LTYPE (field_type field) in
      if l = PB_LTYPE_VARINT then map_option (\<lambda>v. varint_bytes (unat v)) (load_signed m p (data_size field))
      else if l = PB_LTYPE_UVARINT then map_option (\<lambda>v. varint_bytes (unat v)) (load_unsigned m p (data_size field))
      else if l = PB_LTYPE_SVARINT then
        map_option (\<lambda>v. varint_bytes (unat (if sint v < 0 then NOT (push_bit 1 v) else push_bit 1 v)))
          (load_signed m p (data_size field))
      else if l = PB_LTYPE_FIXED32 then Some (load m p 4)
      else if l = PB_LTYPE_FIXED64 then Some (load m p 8)
      else if l = PB_LTYPE_BYTES then
        (if p = 0 then Some (wire_string [])
         else if PB_ATYPE (field_type field) = PB_ATYPE_STATIC \<and>
                 unat (load_u32 m p) + 4 > unat (data_size field) then None
         else Some (wire_string (load m (p + 4) (unat (load_u32 m p)))))
      else if l = PB_LTYPE_STRING then
        Some (wire_string (if p = 0 then [] else load m p (str_size m p
          (if PB_ATYPE (field_type field) = PB_ATYPE_POINTER then 2 ^ 64 - 1 else unat (data_size field)))))
      else if l = PB_LTYPE_SUBMESSAGE then
        (case field_ptr field of Submsg fs \<Rightarrow> map_option wire_string (wm fs p) | _ \<Rightarrow> None)
      else if l = PB_LTYPE_FIXED_LENGTH_BYTES then Some (wire_string (load m p (unat (data_size field))))
      else None)"

text \<open>The parts of a message in sequence, if each can be encoded.\<close>

primrec cat_opt :: "bytes option list \<Rightarrow> bytes option" where
  "cat_opt [] = Some []"
| "cat_opt (x # xs) = do { a \<leftarrow> x; b \<leftarrow> cat_opt xs; Some (a @ b) }"

definition wire_one :: "(pb_field list \<Rightarrow> addr \<Rightarrow> bytes option) \<Rightarrow> memory \<Rightarrow> pb_field \<Rightarrow> addr \<Rightarrow> bytes option" where
  "wire_one wm m field p =
     map_option ((@) (wire_key (wire_type (PB_LTYPE (field_type field))) field)) (wire_value wm m field p)"

definition item_addr :: "memory \<Rightarrow> pb_field \<Rightarrow> addr \<Rightarrow> addr" where
  "item_addr m field p =
     (if PB_ATYPE (field_type field) = PB_ATYPE_POINTER \<and>
         (PB_LTYPE (field_type field) = PB_LTYPE_STRING \<or> PB_LTYPE (field_type field) = PB_LTYPE_BYTES)
      then load_ptr m p else p)"

text \<open>The addresses of \<open>n\<close> items of \<open>sz\<close> bytes.\<close>

definition items :: "addr \<Rightarrow> int \<Rightarrow> nat \<Rightarrow> addr list" where
  "items p sz n = map (\<lambda>i. p + int i * sz) [0..<n]"

definition wire_array ::
    "(pb_field list \<Rightarrow> addr \<Rightarrow> bytes option) \<Rightarrow> memory \<Rightarrow> pb_field \<Rightarrow> addr \<Rightarrow> nat \<Rightarrow> bytes option" where
  "wire_array wm m field p n =
     (let qs = items p (uint (data_size field)) n in
      if n = 0 then Some []
      else if PB_ATYPE (field_type field) \<noteq> PB_ATYPE_POINTER \<and> n > unat (array_size field) then None
      else if PB_LTYPE (field_type field) \<le> PB_LTYPE_LAST_PACKABLE then
        map_option (\<lambda>bs. wire_key PB_WT_STRING field @ wire_string bs) (cat_opt (map (wire_value wm m field) qs))
      else cat_opt (map (\<lambda>q. wire_one wm m field (item_addr m field q)) qs))"

definition wire_field ::
    "nat \<Rightarrow> (pb_field list \<Rightarrow> addr \<Rightarrow> bytes option) \<Rightarrow> memory \<Rightarrow> pb_field \<Rightarrow> addr \<Rightarrow> bytes option" where
  "wire_field d wm m field p =
     (let t = field_type field; ptr = (PB_ATYPE t = PB_ATYPE_POINTER);
          q = (if ptr then load_ptr m p else p); r = p + size_offset field in
      if PB_HTYPE t = PB_HTYPE_REQUIRED then if q = 0 then None else wire_one wm m field q
      else if PB_HTYPE t = PB_HTYPE_OPTIONAL then
        (if (if size_offset field \<noteq> 0 then m r \<noteq> 0 else if ptr then q \<noteq> 0
             else pb_check_proto3_default_value d field p m = Some False)
         then wire_one wm m field q else Some [])
      else if PB_HTYPE t = PB_HTYPE_REPEATED then wire_array wm m field q (unat (load_u32 m r))
      else if load_u32 m r = field_tag field then wire_one wm m field q else Some [])"

text \<open>The fields of a message and where they lie.\<close>

definition layout :: "pb_field list \<Rightarrow> addr \<Rightarrow> (pb_field \<times> addr) list" where
  "layout fs a = map (\<lambda>iter. (cur iter, pData iter)) (iters fs a)"

fun wire_message :: "nat \<Rightarrow> memory \<Rightarrow> pb_field list \<Rightarrow> addr \<Rightarrow> bytes option" where
  "wire_message 0 m fs a = None"
| "wire_message (Suc d) m fs a = cat_opt (map (\<lambda>(field, p). wire_field d (wire_message d m) m field p) (layout fs a))"

text \<open>
  The descriptors the refinement is about: static and pointer fields of the declared types,
  with counts in the message and submessages nested less than \<open>d\<close> deep.
\<close>

definition plain_field :: "(pb_field list \<Rightarrow> bool) \<Rightarrow> pb_field \<Rightarrow> bool" where
  "plain_field sub f \<longleftrightarrow>
     (PB_ATYPE (field_type f) = PB_ATYPE_STATIC \<or> PB_ATYPE (field_type f) = PB_ATYPE_POINTER) \<and>
     PB_LTYPE (field_type f) < 10 \<and> PB_LTYPE (field_type f) \<noteq> PB_LTYPE_EXTENSION \<and>
     (PB_HTYPE (field_type f) = PB_HTYPE_REPEATED \<or> PB_HTYPE (field_type f) = PB_HTYPE_ONEOF \<longrightarrow> size_offset f \<noteq> 0) \<and>
     (PB_LTYPE (field_type f) = PB_LTYPE_SUBMESSAGE \<longrightarrow>
        (case field_ptr f of Submsg fs \<Rightarrow> sub fs | _ \<Rightarrow> False))"

fun plain :: "nat \<Rightarrow> pb_field list \<Rightarrow> bool" where
  "plain 0 fs = False"
| "plain (Suc d) fs = (0 < d \<and> list_all (plain_field (plain d)) fs)"

text \<open>An encoder that leaves the memory \<open>m\<close> alone, always returns, and writes \<open>bs\<close>.\<close>

definition emits_m :: "('s \<Rightarrow> bytes \<Rightarrow> bool \<times> 's) \<Rightarrow> ('s \<Rightarrow> bytes) \<Rightarrow> ('s \<Rightarrow> nat) \<Rightarrow> memory \<Rightarrow>
    ('s pb_ostream \<Rightarrow> memory \<Rightarrow> 's enc_result) \<Rightarrow> bytes \<Rightarrow> bool" where
  "emits_m cb content room m enc bs \<longleftrightarrow> (\<exists>e. (\<forall>s. enc s m = ret m (e s)) \<and> emits cb content room e bs)"

lemma emits_m_ret: "emits cb content room e bs \<Longrightarrow> emits_m cb content room m (\<lambda>s m. ret m (e s)) bs"
  by (auto simp: emits_m_def)

lemma emits_m_cong:
  "emits_m cb content room m enc bs \<Longrightarrow> (\<And>s. enc' s m = enc s m) \<Longrightarrow> emits_m cb content room m enc' bs"
  by (auto simp: emits_m_def)

lemma emits_m_Nil: "(\<And>s. enc s m = Some (True, s, m)) \<Longrightarrow> emits_m cb content room m enc []"
  using emits_m_ret [OF emits_Nil] by (rule emits_m_cong) (simp add: ret_def)

definition then_m :: "('s pb_ostream \<Rightarrow> bool \<times> 's pb_ostream) \<Rightarrow> ('s pb_ostream \<Rightarrow> memory \<Rightarrow> 's enc_result) \<Rightarrow>
    's pb_ostream \<Rightarrow> memory \<Rightarrow> 's enc_result" where
  "then_m e g s m = (case e s of (False, s) \<Rightarrow> Some (False, s, m) | (True, s) \<Rightarrow> g s m)"

definition seq_m :: "('s pb_ostream \<Rightarrow> memory \<Rightarrow> 's enc_result) \<Rightarrow> ('s pb_ostream \<Rightarrow> memory \<Rightarrow> 's enc_result) \<Rightarrow>
    's pb_ostream \<Rightarrow> memory \<Rightarrow> 's enc_result" where
  "seq_m f g s m = do { (ok, s, m) \<leftarrow> f s m; if \<not> ok then Some (False, s, m) else g s m }"

lemma emits_m_then:
  assumes "emits cb content room e bs" "emits_m cb content room m g cs"
  shows "emits_m cb content room m (then_m e g) (bs @ cs)"
proof -
  from assms(2) obtain e' where e': "\<And>s. g s m = ret m (e' s)" "emits cb content room e' cs" by (auto simp: emits_m_def)
  have "then_m e g s m = ret m (enc_seq e e' s)" for s
    by (auto simp: then_m_def enc_seq_def ret_def e' split: prod.splits bool.splits)
  then show ?thesis using emits_seq [OF assms(1) e'(2)] by (auto simp: emits_m_def)
qed

lemma emits_m_seq:
  assumes "emits_m cb content room m f bs" "emits_m cb content room m g cs"
  shows "emits_m cb content room m (seq_m f g) (bs @ cs)"
proof -
  from assms(1) obtain e where e: "\<And>s. f s m = ret m (e s)" "emits cb content room e bs" by (auto simp: emits_m_def)
  show ?thesis
    by (rule emits_m_cong [OF emits_m_then [OF e(2) assms(2)]])
      (auto simp: e(1) ret_def then_m_def seq_m_def split: prod.splits bool.splits)
qed

lemma emits_mI:
  "(\<And>s. enc s m = ret m (e s)) \<Longrightarrow> emits cb content room e bs \<Longrightarrow> emits_m cb content room m enc bs"
  by (auto simp: emits_m_def)

text \<open>The encoder of submessages writes what \<open>wm\<close> says, for the submessages of a field.\<close>

definition sub_emits where
  "sub_emits cb content room m wm enc field \<longleftrightarrow>
     (\<forall>fs p cs. PB_LTYPE (field_type field) = PB_LTYPE_SUBMESSAGE \<longrightarrow> field_ptr field = Submsg fs \<longrightarrow>
        wm fs p = Some cs \<longrightarrow> length cs < 2 ^ 64 \<longrightarrow> emits_m cb content room m (enc fs p) cs)"

lemma wire_stringD: "length (wire_string bs) < 2 ^ 64 \<Longrightarrow> length bs < 2 ^ 64"
  by (simp add: wire_string_def)

lemma unat_load_u32: "unat (load_u32 m a) = le_nat (load m a 4)"
  using le_nat_less [of "load m a 4"] by (simp add: load_u32_def unat_of_nat_eq)

lemma le_bytes_load: "le_bytes n (le_nat (load m a n)) = load m a n"
  by (rule le_bytes_le_nat) simp

lemma items_simps [simp]: "items p sz 0 = []" "items p sz (Suc n) = p # items (p + sz) sz n"
proof -
  have "items p sz (Suc n) = p # map (\<lambda>i. p + int (Suc i) * sz) [0..<n]"
    unfolding items_def by (subst upt_conv_Cons) (simp_all add: map_Suc_upt [symmetric] del: upt_Suc)
  then show "items p sz (Suc n) = p # items (p + sz) sz n" by (simp add: items_def algebra_simps)
qed (simp add: items_def)

lemma cat_opt_Cons:
  "cat_opt (x # xs) = Some bs \<longleftrightarrow> (\<exists>a b. x = Some a \<and> cat_opt xs = Some b \<and> bs = a @ b)"
  by (auto simp: bind_eq_Some_conv)

context byte_sink
begin

lemma emits_wire_string:
  assumes "length bs < 2 ^ 64" "unat n = length bs"
  shows "emits cb content room (\<lambda>s. pb_encode_string s bs n) (wire_string bs)"
  using emits_string [of n bs] assms by (simp add: wire_string_def)

lemma emits_key:
  "emits cb content room (\<lambda>s. pb_encode_tag s wt (field_tag field)) (wire_key wt field)"
  using emits_tag by (simp add: wire_key_def)

lemma emits_tag_for_field:
  assumes "PB_LTYPE (field_type field) < 10" "PB_LTYPE (field_type field) \<noteq> PB_LTYPE_EXTENSION"
  shows "emits cb content room (\<lambda>s. pb_encode_tag_for_field s field) (wire_key (wire_type (PB_LTYPE (field_type field))) field)"
proof -
  have "pb_encode_tag_for_field s field = pb_encode_tag s (wire_type (PB_LTYPE (field_type field))) (field_tag field)" for s :: "'s pb_ostream"
    using assms by (cases rule: ltype_cases [of "PB_LTYPE (field_type field)"])
      (auto simp: pb_encode_tag_for_field_def wire_type_def Let_def)
  then show ?thesis using emits_key by simp
qed

text \<open>The sizing pass and the second pass of a submessage agree.\<close>

lemma emits_submessage:
  assumes enc: "emits_m cb content room m (enc fs src) bs" and len: "length bs < 2 ^ 64"
  shows "emits_m cb content room m (pb_encode_submessage enc nst fs src) (wire_string bs)"
proof -
  obtain e where e: "\<And>s. enc fs src s m = ret m (e s)" "emits cb content room e bs"
    using enc by (auto simp: emits_m_def)
  let ?n = "of_nat (length bs) :: size_t"
  define sub where "sub s = \<lparr>callback = callback s, out_state = out_state s, max_size = ?n,
     bytes_written = 0, out_errmsg = None\<rparr>" for s :: "'s pb_ostream"
  define body where "body s =
     (if callback s = None then pb_write s [] ?n
      else if bytes_written s + ?n > max_size s then (False, out_error s ''stream full'')
      else
        case e (sub s) of (status, sub) \<Rightarrow>
          let s = s\<lparr>bytes_written := bytes_written s + bytes_written sub, out_state := out_state sub,
                    out_errmsg := out_errmsg sub\<rparr>
          in if bytes_written sub \<noteq> ?n then (False, out_error s ''submsg size changed'') else (status, s))" for s
  have ok0: "sink_ok cb room (PB_OSTREAM_SIZING nst)" "fits (PB_OSTREAM_SIZING nst) (length bs)"
    by (simp_all add: sink_ok_def fits_def PB_OSTREAM_SIZING_def)
  then obtain sz where sz: "e (PB_OSTREAM_SIZING nst) = (True, sz)" "wrote content room (PB_OSTREAM_SIZING nst) bs sz"
    using emitsD [OF e(2)] by blast
  then have n: "bytes_written sz = ?n" by (simp add: wrote_def PB_OSTREAM_SIZING_def)
  have "pb_encode_submessage enc nst fs src s m = ret m (enc_seq (\<lambda>s. pb_encode_varint s ?n) body s)" for s
    by (auto simp: pb_encode_submessage_def e(1) sz n ret_def enc_seq_def body_def sub_def Let_def
        split: prod.splits bool.splits)
  moreover have "emits cb content room body bs"
  proof (rule emitsI)
    fix s assume ok: "sink_ok cb room s" and fit: "fits s (length bs)"
    show "\<exists>s'. body s = (True, s') \<and> wrote content room s bs s' \<and> sink_ok cb room s'"
    proof (cases "callback s")
      case None
      then show ?thesis by (simp add: body_def pb_write_def wrote_def sink_ok_def)
    next
      case (Some f)
      then have f: "f = cb" and le: "unat (bytes_written s) + length bs \<le> unat (max_size s)"
        and space: "unat (max_size s) - unat (bytes_written s) \<le> room (out_state s)"
        using ok fit by (auto simp: sink_ok_def fits_def)
      have un: "unat ?n = length bs" using len by (simp add: byte_simps)
      have sum: "unat (bytes_written s + ?n) = unat (bytes_written s) + length bs"
        using le unat_bound [of "max_size s"] by (intro unat_add_of_nat) simp
      have "sink_ok cb room (sub s)" "fits (sub s) (length bs)"
        using Some f le space un by (simp_all add: sub_def sink_ok_def fits_def)
      then obtain s' where s': "e (sub s) = (True, s')" "wrote content room (sub s) bs s'" "sink_ok cb room s'"
        using emitsD [OF e(2)] by blast
      have "bytes_written s' = ?n" using s'(2) by (simp add: wrote_def sub_def)
      moreover have "\<not> max_size s < bytes_written s + ?n" using le sum by (simp add: word_less_nat_alt)
      ultimately show ?thesis using Some f le space un sum s'
        by (auto simp: body_def sub_def wrote_def sink_ok_def word_le_nat_alt)
    qed
  next
    fix s assume ok: "sink_ok cb room s" and full: "\<not> fits s (length bs)"
      and small: "unat (bytes_written s) + length bs < 2 ^ 64"
    have "unat (bytes_written s + ?n) = unat (bytes_written s) + length bs" by (rule unat_add_of_nat [OF small])
    then show "\<not> fst (body s)" using full by (auto simp: body_def fits_def word_less_nat_alt)
  qed
  ultimately show ?thesis
    using emits_seq [OF emits_varint [of ?n]] len by (auto simp: emits_m_def wire_string_def byte_simps)
qed

lemma emits_value:
  assumes wire: "wire_value wm m field p = Some bs" and len: "length bs < 2 ^ 64"
    and lt: "PB_LTYPE (field_type field) < 10" "PB_LTYPE (field_type field) \<noteq> PB_LTYPE_EXTENSION"
    and sub: "sub_emits cb content room m wm enc field"
  shows "emits_m cb content room m (PB_ENCODERS enc nst (PB_LTYPE (field_type field)) field p) bs"
proof (cases rule: ltype_cases [OF lt])
  case 1
  then obtain v where "load_signed m p (data_size field) = Some v" "bs = varint_bytes (unat v)"
    using wire by (auto simp: wire_value_def)
  then show ?thesis using 1 emits_varint [of v]
    by (auto intro!: emits_mI simp: PB_ENCODERS_def pb_enc_varint_def)
next
  case 2
  then obtain v where "load_unsigned m p (data_size field) = Some v" "bs = varint_bytes (unat v)"
    using wire by (auto simp: wire_value_def)
  then show ?thesis using 2 emits_varint [of v]
    by (auto intro!: emits_mI simp: PB_ENCODERS_def pb_enc_uvarint_def)
next
  case 3
  then obtain v where "load_signed m p (data_size field) = Some v"
    "bs = varint_bytes (unat (if sint v < 0 then NOT (push_bit 1 v) else push_bit 1 v))"
    using wire by (auto simp: wire_value_def)
  then show ?thesis using 3 emits_svarint [of v]
    by (intro emits_mI [where e = "\<lambda>s. pb_encode_svarint s v"]) (simp_all add: PB_ENCODERS_def pb_enc_svarint_def)
next
  case 4
  then show ?thesis using wire emits_fixed32 [of "load_u32 m p"]
    by (intro emits_mI [where e = "\<lambda>s. pb_encode_fixed32 s (load_u32 m p)"])
      (auto simp: wire_value_def PB_ENCODERS_def pb_enc_fixed32_def unat_load_u32 le_bytes_load)
next
  case 5
  have "unat (of_nat (le_nat (load m p 8)) :: u64) = le_nat (load m p 8)"
    using le_nat_less [of "load m p 8"] by (simp add: unat_of_nat_eq)
  then show ?thesis using 5 wire emits_fixed64 [of "of_nat (le_nat (load m p 8))"]
    by (intro emits_mI [where e = "\<lambda>s. pb_encode_fixed64 s (of_nat (le_nat (load m p 8)))"])
      (auto simp: wire_value_def PB_ENCODERS_def pb_enc_fixed64_def le_bytes_load)
next
  case 6
  let ?n = "load_u32 m p"
  have alloc: "unat (PB_BYTES_ARRAY_T_ALLOCSIZE (ucast ?n)) = unat ?n + 4"
    using unat_bound [of ?n] by (simp add: PB_BYTES_ARRAY_T_ALLOCSIZE_def unat_word_ariths unat_ucast_up)
  have eq: "PB_ENCODERS enc nst (PB_LTYPE (field_type field)) field p s m =
      ret m (pb_encode_string s (if p = 0 then [] else load m (p + 4) (unat ?n)) (if p = 0 then 0 else ucast ?n))" for s
    using 6 wire alloc
    by (auto simp: PB_ENCODERS_def pb_enc_bytes_def wire_value_def word_less_nat_alt unat_ucast_up Let_def split: if_splits)
  have bs: "bs = wire_string (if p = 0 then [] else load m (p + 4) (unat ?n))"
    using 6 wire by (auto simp: wire_value_def split: if_splits)
  have "emits cb content room (\<lambda>s. pb_encode_string s (if p = 0 then [] else load m (p + 4) (unat ?n))
      (if p = 0 then 0 else ucast ?n)) bs"
    unfolding bs using unat_bound [of ?n] by (intro emits_wire_string) (auto simp: unat_ucast_up)
  then show ?thesis by (rule emits_mI [rotated]) (rule eq)
next
  case 7
  let ?n = "if p = 0 then 0 else str_size m p
    (if PB_ATYPE (field_type field) = PB_ATYPE_POINTER then 2 ^ 64 - 1 else unat (data_size field))"
  have bs: "bs = wire_string (load m p ?n)"
    using 7 wire by (auto simp: wire_value_def load_def split: if_splits)
  have "length (load m p ?n) < 2 ^ 64" using len unfolding bs by (rule wire_stringD)
  then have "emits cb content room (\<lambda>s. pb_encode_string s (load m p ?n) (of_nat ?n)) bs"
    unfolding bs by (intro emits_wire_string) (simp_all add: byte_simps)
  then show ?thesis by (rule emits_mI [rotated]) (use 7 in \<open>simp add: PB_ENCODERS_def pb_enc_string_def Let_def\<close>)
next
  case 8
  then obtain fs cs where fs: "field_ptr field = Submsg fs" "wm fs p = Some cs" "bs = wire_string cs"
    using wire by (auto simp: wire_value_def split: pb_ptr.splits)
  then have cs: "length cs < 2 ^ 64" using len wire_stringD by blast
  then have "emits_m cb content room m (enc fs p) cs" using sub 8 fs by (auto simp: sub_emits_def)
  from emits_submessage [where enc = enc and fs = fs and src = p, OF this cs] show ?thesis
    unfolding fs(3) by (rule emits_m_cong) (use 8 fs in \<open>simp add: PB_ENCODERS_def pb_enc_submessage_def\<close>)
next
  case 9
  have bs: "bs = wire_string (load m p (unat (data_size field)))" using 9 wire by (auto simp: wire_value_def)
  have "emits cb content room (\<lambda>s. pb_encode_string s (load m p (unat (data_size field))) (ucast (data_size field))) bs"
    unfolding bs using unat_bound [of "data_size field"] by (intro emits_wire_string) (auto simp: unat_ucast_up)
  then show ?thesis
    by (rule emits_mI [rotated]) (use 9 in \<open>simp add: PB_ENCODERS_def pb_enc_fixed_length_bytes_def\<close>)
qed

lemma emits_packed_items:
  assumes "cat_opt (map (wire_value wm m field) (items p (uint (data_size field)) n)) = Some bs" "length bs < 2 ^ 64"
    and lt: "PB_LTYPE (field_type field) < 10" "PB_LTYPE (field_type field) \<noteq> PB_LTYPE_EXTENSION"
      "PB_LTYPE (field_type field) \<noteq> PB_LTYPE_SUBMESSAGE"
  shows "emits_m cb content room m
    (packed_items (PB_ENCODERS enc nst (PB_LTYPE (field_type field))) field n p) bs"
  using assms(1,2)
proof (induction n arbitrary: p bs)
  case (Suc n)
  then obtain a b where ab: "wire_value wm m field p = Some a"
    "cat_opt (map (wire_value wm m field) (items (p + uint (data_size field)) (uint (data_size field)) n)) = Some b"
    "bs = a @ b"
    by (auto simp: bind_eq_Some_conv)
  then have len: "length a < 2 ^ 64" "length b < 2 ^ 64" using Suc.prems(2) by simp_all
  have sub: "sub_emits cb content room m wm enc field" using lt(3) by (simp add: sub_emits_def)
  show ?case unfolding ab(3)
    by (rule emits_m_cong [OF emits_m_seq [OF emits_value [OF ab(1) len(1) lt(1,2) sub, where nst = nst] Suc.IH [OF ab(2) len(2)]]])
      (simp add: seq_m_def)
qed (simp add: emits_m_Nil)

lemma emits_one:
  assumes wire: "wire_one wm m field p = Some bs" and len: "length bs < 2 ^ 64"
    and lt: "PB_LTYPE (field_type field) < 10" "PB_LTYPE (field_type field) \<noteq> PB_LTYPE_EXTENSION"
    and sub: "sub_emits cb content room m wm enc field"
  shows "emits_m cb content room m
    (encode_one (PB_ENCODERS enc nst (PB_LTYPE (field_type field))) field p) bs"
proof -
  obtain b where b: "wire_value wm m field p = Some b"
    "bs = wire_key (wire_type (PB_LTYPE (field_type field))) field @ b"
    using wire by (auto simp: wire_one_def)
  then have "length b < 2 ^ 64" using len by simp
  from emits_m_then [OF emits_tag_for_field [OF lt] emits_value [OF b(1) this lt sub]]
  show ?thesis unfolding b(2) by (rule emits_m_cong) (simp add: encode_one_def then_m_def)
qed

lemma emits_tagged_items:
  assumes "cat_opt (map (\<lambda>q. wire_one wm m field (item_addr m field q)) (items p (uint (data_size field)) n)) = Some bs"
    "length bs < 2 ^ 64"
    and lt: "PB_LTYPE (field_type field) < 10" "PB_LTYPE (field_type field) \<noteq> PB_LTYPE_EXTENSION"
    and sub: "sub_emits cb content room m wm enc field"
  shows "emits_m cb content room m
    (tagged_items (PB_ENCODERS enc nst (PB_LTYPE (field_type field))) field n p) bs"
  using assms(1,2)
proof (induction n arbitrary: p bs)
  case (Suc n)
  let ?func = "PB_ENCODERS enc nst (PB_LTYPE (field_type field))" and ?sz = "uint (data_size field)"
  from Suc.prems obtain a b where ab: "wire_one wm m field (item_addr m field p) = Some a"
    "cat_opt (map (\<lambda>q. wire_one wm m field (item_addr m field q)) (items (p + ?sz) ?sz n)) = Some b" "bs = a @ b"
    by (auto simp: bind_eq_Some_conv)
  then have len: "length a < 2 ^ 64" "length b < 2 ^ 64" using Suc.prems(2) by simp_all
  have eq: "tagged_items ?func field (Suc n) p s m =
      seq_m (encode_one ?func field (item_addr m field p)) (tagged_items ?func field n (p + ?sz)) s m" for s
    by (auto simp: seq_m_def encode_one_def item_addr_def split: prod.splits bool.splits)
  show ?case unfolding ab(3)
    by (rule emits_m_cong [OF emits_m_seq [OF emits_one [OF ab(1) len(1) lt sub, where nst = nst] Suc.IH [OF ab(2) len(2)]]]) (rule eq)
qed (simp add: emits_m_Nil)

lemma fixed_packed_length:
  assumes "cat_opt (map (wire_value wm m field) (items p sz n)) = Some bs"
    and "\<And>q b. wire_value wm m field q = Some b \<Longrightarrow> length b = k"
  shows "length bs = k * n"
  using assms(1)
proof (induction n arbitrary: p bs)
  case (Suc n)
  then show ?case using assms(2) by (auto simp: bind_eq_Some_conv)
qed simp

lemma emits_array:
  assumes wire: "wire_array wm m field p (unat cnt) = Some bs" and len: "length bs < 2 ^ 64"
    and lt: "PB_LTYPE (field_type field) < 10" "PB_LTYPE (field_type field) \<noteq> PB_LTYPE_EXTENSION"
    and sub: "sub_emits cb content room m wm enc field"
  shows "emits_m cb content room m
    (encode_array nst (PB_ENCODERS enc nst (PB_LTYPE (field_type field))) field p cnt) bs"
proof -
  let ?l = "PB_LTYPE (field_type field)"
  let ?func = "PB_ENCODERS enc nst ?l"
  have nonzero: "(unat cnt = 0) = False" if "cnt \<noteq> 0" using that by (simp add: unat_eq_zero)
  have allowed: "(PB_ATYPE (field_type field) \<noteq> PB_ATYPE_POINTER \<and> unat cnt > unat (array_size field)) = False" if "cnt \<noteq> 0"
    using wire nonzero [OF that] by (auto simp: wire_array_def Let_def)
  have allowed': "\<not> (PB_ATYPE (field_type field) \<noteq> PB_ATYPE_POINTER \<and> cnt > ucast (array_size field))" if "cnt \<noteq> 0"
    using allowed [OF that] by (simp add: word_less_nat_alt unat_ucast_up)
  consider (none) "cnt = 0" | (packed) "cnt \<noteq> 0" "?l \<le> PB_LTYPE_LAST_PACKABLE" | (tagged) "cnt \<noteq> 0" "\<not> ?l \<le> PB_LTYPE_LAST_PACKABLE"
    by blast
  then show ?thesis
  proof cases
    case none
    then show ?thesis using wire by (auto simp: wire_array_def encode_array_def intro: emits_m_Nil)
  next
    case tagged
    have items: "cat_opt (map (\<lambda>q. wire_one wm m field (item_addr m field q)) (items p (uint (data_size field)) (unat cnt))) = Some bs"
      using wire by (simp only: wire_array_def Let_def nonzero [OF tagged(1)] allowed [OF tagged(1)] tagged(2) if_False)
    note fits = allowed' [OF tagged(1)]
    show ?thesis
      by (rule emits_m_cong [OF emits_tagged_items [OF items len lt sub]]) (use tagged fits in \<open>auto simp: encode_array_def\<close>)
  next
    case packed
    have "map_option (\<lambda>bs. wire_key PB_WT_STRING field @ wire_string bs)
        (cat_opt (map (wire_value wm m field) (items p (uint (data_size field)) (unat cnt)))) = Some bs"
      using wire by (simp only: wire_array_def Let_def nonzero [OF packed(1)] allowed [OF packed(1)] packed(2) if_False if_True)
    then obtain cs where items: "cat_opt (map (wire_value wm m field) (items p (uint (data_size field)) (unat cnt))) = Some cs"
      and bs: "bs = wire_key PB_WT_STRING field @ wire_string cs"
      by (auto simp only: map_option_eq_Some)
    note fits = allowed' [OF packed(1)]
    have cs: "length cs < 2 ^ 64" by (rule wire_stringD) (use len bs in simp)
    have notsub: "?l \<noteq> PB_LTYPE_SUBMESSAGE" using packed by auto
    have body: "emits_m cb content room m (packed_items ?func field (unat cnt) p) cs"
      by (rule emits_packed_items [OF items cs lt notsub])
    let ?n = "of_nat (length cs) :: size_t"
    have size: "packed_size nst ?func field cnt p m = Some (Some ?n, m)"
    proof -
      have 32: "length cs = 4 * unat cnt" if "?l = PB_LTYPE_FIXED32"
        by (rule fixed_packed_length [OF items]) (use that in \<open>auto simp: wire_value_def\<close>)
      have 64: "length cs = 8 * unat cnt" if "?l = PB_LTYPE_FIXED64"
        by (rule fixed_packed_length [OF items]) (use that in \<open>auto simp: wire_value_def\<close>)
      obtain e where e: "\<And>s. packed_items ?func field (unat cnt) p s m = ret m (e s)" "emits cb content room e cs"
        using body by (auto simp: emits_m_def)
      have "sink_ok cb room (PB_OSTREAM_SIZING nst)" "fits (PB_OSTREAM_SIZING nst) (length cs)"
        by (simp_all add: sink_ok_def fits_def PB_OSTREAM_SIZING_def)
      then obtain sz where "e (PB_OSTREAM_SIZING nst) = (True, sz)" "wrote content room (PB_OSTREAM_SIZING nst) cs sz"
        using emitsD [OF e(2)] by blast
      then show ?thesis using 32 64
        by (auto simp: packed_size_def e(1) ret_def wrote_def PB_OSTREAM_SIZING_def)
    qed
    define body2 where "body2 s m =
      (if callback s = None then ret m (pb_write s [] ?n) else packed_items ?func field (unat cnt) p s m)" for s m
    have "emits_m cb content room m body2 cs"
    proof -
      obtain e where e: "\<And>s. packed_items ?func field (unat cnt) p s m = ret m (e s)" "emits cb content room e cs"
        using body by (auto simp: emits_m_def)
      define e2 where "e2 s = (if callback s = None then pb_write s [] ?n else e s)" for s
      have "emits cb content room e2 cs"
      proof (rule emitsI)
        fix s assume ok: "sink_ok cb room s" and fit: "fits s (length cs)"
        obtain s' where s': "e s = (True, s')" "wrote content room s cs s'" "sink_ok cb room s'"
          using emitsD [OF e(2) ok fit] by blast
        show "\<exists>s'. e2 s = (True, s') \<and> wrote content room s cs s' \<and> sink_ok cb room s'"
        proof (cases "callback s")
          case None
          then show ?thesis by (simp add: e2_def pb_write_def wrote_def sink_ok_def)
        next
          case (Some f)
          then show ?thesis using s' by (simp add: e2_def)
        qed
      next
        fix s assume ok: "sink_ok cb room s" and full: "\<not> fits s (length cs)" "unat (bytes_written s) + length cs < 2 ^ 64"
        then have "callback s \<noteq> None" by (simp add: fits_def)
        then show "\<not> fst (e2 s)" using emits_full [OF e(2) ok full] by (auto simp: e2_def)
      qed
      moreover have "body2 s m = ret m (e2 s)" for s by (simp add: body2_def e2_def e(1))
      ultimately show ?thesis by (auto simp: emits_m_def)
    qed
    from emits_m_then [OF emits_key [of PB_WT_STRING field] emits_m_then [OF emits_varint [of ?n] this]]
    have "emits_m cb content room m (then_m (\<lambda>s. pb_encode_tag s PB_WT_STRING (field_tag field))
        (then_m (\<lambda>s. pb_encode_varint s ?n) body2)) bs"
      using cs by (simp add: bs wire_string_def byte_simps)
    then show ?thesis
      by (rule emits_m_cong)
        (use packed fits in \<open>auto simp: encode_array_def size then_m_def body2_def split: prod.splits bool.splits\<close>)
  qed
qed

end

subsection \<open>The loop over the fields\<close>

lemma layout_set: "(f, q) \<in> set (layout fs a) \<Longrightarrow> f \<in> set fs"
  by (auto simp: layout_def dest: iters_begin(3))

lemma iter_do_layout:
  "(case pb_field_iter_begin fs a of (False, _) \<Rightarrow> Some (True, st)
     | (True, iter) \<Rightarrow> iter_do (\<lambda>iter st. f (cur iter, pData iter) st) iter st) = list_do f (layout fs a) st"
  by (simp only: iter_do_iters layout_def list_do_map)

lemma check_total:
  assumes "0 < d" "plain_field (plain d) f"
  shows "pb_check_proto3_default_value d f p m \<noteq> None"
  using assms
proof (induction d arbitrary: f p)
  case (Suc d)
  show ?case
  proof (cases "PB_LTYPE (field_type f) = PB_LTYPE_SUBMESSAGE")
    case True
    then obtain sub where sub: "field_ptr f = Submsg sub" "plain (Suc d) sub"
      using Suc.prems by (auto simp: plain_field_def split: pb_ptr.splits)
    let ?body = "\<lambda>(f, q) (_ :: unit). map_option (\<lambda>r. (r, ())) (pb_check_proto3_default_value d f q m)"
    have "list_do ?body (layout sub p) () \<noteq> None"
    proof (rule list_do_total)
      fix x st assume "x \<in> set (layout sub p)"
      moreover obtain f q where "x = (f, q)" by (cases x)
      ultimately have x: "x = (f, q)" "f \<in> set sub" using layout_set by simp_all
      then have "pb_check_proto3_default_value d f q m \<noteq> None"
        using sub(2) by (intro Suc.IH) (auto simp: list_all_iff)
      then show "?body x st \<noteq> None" using x by auto
    qed
    then have "map_option fst (case pb_field_iter_begin sub p of (False, _) \<Rightarrow> Some (True, ())
       | (True, iter) \<Rightarrow> iter_do (\<lambda>iter st. ?body (cur iter, pData iter) st) iter ()) \<noteq> None"
      by (simp only: iter_do_layout) simp
    then show ?thesis using True sub(1) by (auto split: prod.splits bool.splits)
  qed auto
qed simp


context byte_sink
begin

lemma emits_field:
  assumes wire: "wire_field d wm m field p = Some bs" and len: "length bs < 2 ^ 64" and d: "0 < d"
    and field: "plain_field (plain d) field"
    and sub: "sub_emits cb content room m wm enc field"
  shows "emits_m cb content room m (encode_field env d enc field p) bs"
proof -
  let ?t = "field_type field"
  let ?func = "PB_ENCODERS enc (null_state env) (PB_LTYPE ?t)"
  let ?ptr = "PB_ATYPE ?t = PB_ATYPE_POINTER"
  let ?q = "if ?ptr then load_ptr m p else p" and ?r = "p + size_offset field"
  have lt: "PB_LTYPE ?t < 10" "PB_LTYPE ?t \<noteq> PB_LTYPE_EXTENSION" "\<not> 10 \<le> PB_LTYPE ?t"
    and counted: "PB_HTYPE ?t = PB_HTYPE_REPEATED \<or> PB_HTYPE ?t = PB_HTYPE_ONEOF \<longrightarrow> size_offset field \<noteq> 0"
    and alloc: "PB_ATYPE ?t = PB_ATYPE_STATIC \<or> ?ptr"
    using field by (auto simp: plain_field_def not_le)
  have entry: "encode_field env d enc field p s m = encode_basic_field d enc (null_state env) field p s m" for s
    using alloc by (auto simp: encode_field_def)
  have one: "emits_m cb content room m (encode_one ?func field ?q) bs" if "wire_one wm m field ?q = Some bs"
    by (rule emits_one [OF that len lt(1,2) sub])
  obtain zero where zero: "pb_check_proto3_default_value d field p m = Some zero"
    using check_total [OF d field] by blast
  show ?thesis
  proof (cases rule: htype_cases [of ?t])
    case 1
    then have q: "?q \<noteq> 0" and wire1: "wire_one wm m field ?q = Some bs"
      using wire by (auto simp: wire_field_def Let_def split: if_splits)
    from one [OF wire1] show ?thesis
      by (rule emits_m_cong) (use 1 lt q zero in \<open>auto simp: entry encode_basic_field_def Let_def split: if_splits\<close>)
  next
    case 2
    define present where "present =
      (if size_offset field \<noteq> 0 then m ?r \<noteq> 0 else if ?ptr then ?q \<noteq> 0 else \<not> zero)"
    have run: "encode_field env d enc field p s m =
        (if present then encode_one ?func field ?q s m else Some (True, s, m))" for s
      using 2 lt by (auto simp: entry encode_basic_field_def Let_def zero present_def)
    have "bs = []" if "\<not> present" using wire 2 that by (auto simp: wire_field_def Let_def zero present_def split: if_splits)
    moreover have "wire_one wm m field ?q = Some bs" if present
      using wire 2 that by (auto simp: wire_field_def Let_def zero present_def split: if_splits)
    ultimately show ?thesis
      by (cases present) (auto simp: run intro: emits_m_Nil emits_m_cong [OF one])
  next
    case 3
    then have "wire_array wm m field ?q (unat (ucast (load_u32 m ?r) :: size_t)) = Some bs"
      using wire by (auto simp: wire_field_def Let_def unat_ucast_up split: if_splits)
    from emits_array [OF this len lt(1,2) sub, where nst = "null_state env"] show ?thesis
      by (rule emits_m_cong) (use 3 lt counted in \<open>auto simp: entry encode_basic_field_def Let_def\<close>)
  next
    case 4
    have run: "encode_field env d enc field p s m =
        (if load_u32 m ?r = field_tag field then encode_one ?func field ?q s m else Some (True, s, m))" for s
      using 4 lt counted by (auto simp: entry encode_basic_field_def Let_def)
    have "bs = []" if "load_u32 m ?r \<noteq> field_tag field" using wire 4 that by (auto simp: wire_field_def Let_def split: if_splits)
    moreover have "wire_one wm m field ?q = Some bs" if "load_u32 m ?r = field_tag field"
      using wire 4 that by (auto simp: wire_field_def Let_def split: if_splits)
    ultimately show ?thesis
      by (cases "load_u32 m ?r = field_tag field") (auto simp: run intro: emits_m_Nil emits_m_cong [OF one])
  qed
qed

end

text \<open>A message is the sequence of its fields.\<close>

definition field_step where
  "field_step env d x st =
     (case x of (field, p) \<Rightarrow> case st of (s, m) \<Rightarrow>
        if PB_LTYPE (field_type field) = PB_LTYPE_EXTENSION
        then encode_extension_field env d (pb_encode env d) field p s m
        else encode_field env d (pb_encode env d) field p s m)"

lemma pb_encode_list: "pb_encode env (Suc d) fs src s m = list_do (field_step env d) (layout fs src) (s, m)"
proof -
  have "(\<lambda>iter (s, m). if PB_LTYPE (field_type (cur iter)) = PB_LTYPE_EXTENSION
        then encode_extension_field env d (pb_encode env d) (cur iter) (pData iter) s m
        else encode_field env d (pb_encode env d) (cur iter) (pData iter) s m) =
      (\<lambda>iter st. field_step env d (cur iter, pData iter) st)"
    by (auto simp: field_step_def fun_eq_iff)
  then show ?thesis by (simp only: pb_encode.simps iter_do_layout [symmetric])
qed

context byte_sink
begin

lemma emits_fields:
  assumes "cat_opt (map (\<lambda>(field, p). wire_field d (wire_message d m) m field p) xs) = Some bs" "length bs < 2 ^ 64"
    and d: "0 < d" and fields: "\<And>f q. (f, q) \<in> set xs \<Longrightarrow> plain_field (plain d) f"
    and sub: "\<And>f. plain_field (plain d) f \<Longrightarrow> sub_emits cb content room m (wire_message d m) (pb_encode env d) f"
  shows "emits_m cb content room m (\<lambda>s m. list_do (field_step env d) xs (s, m)) bs"
  using assms(1,2) fields
proof (induction xs arbitrary: bs)
  case (Cons x xs)
  obtain f q where x: "x = (f, q)" by (cases x)
  obtain a b where ab: "wire_field d (wire_message d m) m f q = Some a"
    "cat_opt (map (\<lambda>(field, p). wire_field d (wire_message d m) m field p) xs) = Some b" "bs = a @ b"
    using Cons.prems(1) by (auto simp: x bind_eq_Some_conv)
  then have len: "length a < 2 ^ 64" "length b < 2 ^ 64" using Cons.prems(2) by simp_all
  have f: "plain_field (plain d) f" using Cons.prems(3) [of f q] x by simp
  have tl: "emits_m cb content room m (\<lambda>s m. list_do (field_step env d) xs (s, m)) b"
    by (rule Cons.IH [OF ab(2) len(2)]) (use Cons.prems(3) in auto)
  have hd: "emits_m cb content room m (encode_field env d (pb_encode env d) f q) a"
    by (rule emits_field [OF ab(1) len(1) d f sub [OF f]])
  have "field_step env d x (s, m) = encode_field env d (pb_encode env d) f q s m" for s
    using f by (simp add: x field_step_def plain_field_def)
  then have "list_do (field_step env d) (x # xs) (s, m) =
      seq_m (encode_field env d (pb_encode env d) f q) (\<lambda>s m. list_do (field_step env d) xs (s, m)) s m" for s
    by (cases "encode_field env d (pb_encode env d) f q s m") (auto simp: seq_m_def)
  then show ?case unfolding ab(3) by (rule emits_m_cong [OF emits_m_seq [OF hd tl]])
qed (simp add: emits_m_Nil)

lemma emits_message:
  "plain d fs \<Longrightarrow> wire_message d m fs src = Some bs \<Longrightarrow> length bs < 2 ^ 64 \<Longrightarrow>
   emits_m cb content room m (pb_encode env d fs src) bs"
proof (induction d arbitrary: fs src bs)
  case (Suc d)
  have sub: "sub_emits cb content room m (wire_message d m) (pb_encode env d) f" if "plain_field (plain d) f" for f
    using that Suc.IH by (auto simp: sub_emits_def plain_field_def)
  have "emits_m cb content room m (\<lambda>s m. list_do (field_step env d) (layout fs src) (s, m)) bs"
    by (rule emits_fields [OF _ Suc.prems(3) _ _ sub])
      (use Suc.prems in \<open>auto simp: list_all_iff dest: layout_set\<close>)
  then show ?case by (rule emits_m_cong) (simp only: pb_encode_list)
qed simp

end

text \<open>
  C22. Encoding refines the abstract encoder: for every message in memory that has an encoding
  \<open>bs\<close>, \<open>pb_get_encoded_size\<close> returns its length and \<open>pb_encode\<close> to a buffer writes exactly
  \<open>bs\<close> when there is room, and returns false when there is not. Both return, and neither
  changes the message; the two passes of the encoder over every submessage and packed array
  agree.
\<close>
theorem pb_encode_refines_wire:
  assumes "plain d fs" and "wire_message d m fs src = Some bs" and "length bs < 2 ^ 64"
    and "unat n \<le> length buf"
  shows "pb_get_encoded_size env d fs src m = Some (Some (of_nat (length bs)), m) \<and>
    (\<exists>ok os. pb_encode env d fs src (pb_ostream_from_buffer buf n) m = Some (ok, os, m) \<and>
       (ok \<longleftrightarrow> length bs \<le> unat n) \<and>
       (ok \<longrightarrow> bytes_written os = of_nat (length bs) \<and> take (length bs) (fst (out_state os)) = bs))"
proof
  obtain e where e: "\<And>s. pb_encode env d fs src s m = ret m (e s)" "emits buf_write buf_content buf_room e bs"
    using buf_sink.emits_message [OF assms(1-3), of env] by (auto simp: emits_m_def)
  let ?sz = "PB_OSTREAM_SIZING (null_state env)"
  obtain sz where "e ?sz = (True, sz)" "wrote buf_content buf_room ?sz bs sz"
    by (rule emitsD [OF e(2), of ?sz]) (simp_all add: sink_ok_def fits_def PB_OSTREAM_SIZING_def)
  then show "pb_get_encoded_size env d fs src m = Some (Some (of_nat (length bs)), m)"
    by (simp add: pb_get_encoded_size_def e(1) ret_def wrote_def PB_OSTREAM_SIZING_def)
  let ?os = "pb_ostream_from_buffer buf n"
  have ok: "sink_ok buf_write buf_room ?os" by (rule pb_ostream_from_buffer_ok [OF assms(4)])
  show "\<exists>ok os. pb_encode env d fs src ?os m = Some (ok, os, m) \<and> (ok \<longleftrightarrow> length bs \<le> unat n) \<and>
       (ok \<longrightarrow> bytes_written os = of_nat (length bs) \<and> take (length bs) (fst (out_state os)) = bs)"
  proof (cases "length bs \<le> unat n")
    case True
    then obtain os where os: "e ?os = (True, os)" "wrote buf_content buf_room ?os bs os"
      using emitsD [OF e(2) ok] by auto
    obtain arr pos where st: "out_state os = (arr, pos)" by (cases "out_state os")
    have "take pos arr = bs" "bytes_written os = of_nat (length bs)"
      using os(2) by (simp_all add: wrote_def pb_ostream_from_buffer_def buf_content_def st)
    moreover from this have "take (length bs) arr = bs" by (metis append_eq_conv_conj append_take_drop_id)
    ultimately show ?thesis using True by (intro exI [of _ True] exI [of _ os]) (simp add: e(1) ret_def os(1) st)
  next
    case False
    have "\<not> fst (e ?os)"
      using emits_full [OF e(2) ok] False assms(3) by (simp add: pb_ostream_from_buffer_def fits_def)
    then obtain os where "e ?os = (False, os)" by (cases "e ?os") simp
    then show ?thesis using False by (intro exI [of _ False] exI [of _ os]) (simp add: e(1) ret_def)
  qed
qed

text \<open>A message with a required \<open>int32\<close>, a packed array of \<open>uint32\<close> and a submessage with a string.\<close>

definition demo_fields :: "pb_field list" where
  "demo_fields =
     [Pb_field 1 0x00 0 0 4 0 Null,
      Pb_field 2 0x21 4 (- 4) 4 2 Null,
      Pb_field 3 0x07 0 0 4 0 (Submsg [Pb_field 1 0x16 0 0 4 0 Null])]"

definition demo_memory :: memory where
  "demo_memory = store (\<lambda>_. 0) 100 [150, 0, 0, 0,  2, 0, 0, 0,  1, 0, 0, 0,  0, 1, 0, 0,  104, 105, 0, 0]"

definition demo_bytes :: bytes where
  "demo_bytes = [0x08, 0x96, 0x01,  0x12, 0x03, 0x01, 0x80, 0x02,  0x1a, 0x04, 0x0a, 0x02, 104, 105]"

theorem pb_encode_refines_wire_witness:
  "plain 4 demo_fields \<and> wire_message 4 demo_memory demo_fields 100 = Some demo_bytes \<and>
   (\<forall>env :: (bytes \<times> nat) pb_out_env.
      pb_get_encoded_size env 4 demo_fields 100 demo_memory = Some (Some 14, demo_memory))"
proof -
  have plain: "plain 4 demo_fields" by code_simp
  have wire: "wire_message 4 demo_memory demo_fields 100 = Some demo_bytes" by code_simp
  have "length demo_bytes < 2 ^ 64" "length demo_bytes = 14" by (simp_all add: demo_bytes_def)
  then show ?thesis
    using pb_encode_refines_wire [OF plain wire, of 20 "replicate 20 0"] plain wire by simp
qed

end
