(* ===== verification/Pb_Decode.thy ===== *)
theory Pb_Decode
  imports Pb_Stream Pb_Common
begin

text \<open>
  The message decoder of nanopb (\<open>pb_decode.c\<close>). As in the encoder, the recursion through
  submessages is open and tied with a bound on the nesting; the callbacks of the application
  are an environment. The loops run as long as the input lasts: they are partial functions,
  and \<open>None\<close> is a run without a defined result.
\<close>

section \<open>Definitions\<close>

type_synonym 's dec_result = "(bool \<times> 's pb_istream \<times> memory) option"
type_synonym 's pb_decoder_t = "pb_field \<Rightarrow> addr \<Rightarrow> 's pb_istream \<Rightarrow> memory \<Rightarrow> 's dec_result"
type_synonym 's message_decoder = "pb_field list \<Rightarrow> addr \<Rightarrow> 's pb_istream \<Rightarrow> memory \<Rightarrow> 's dec_result"

text \<open>
  \<open>dec_callback\<close> is \<open>funcs.decode\<close> of a callback field and gets the address of its \<open>arg\<close>;
  \<open>dec_extension\<close> is \<open>type->decode\<close> of an extension; \<open>dec_ext_field\<close> the descriptor that
  \<open>type->arg\<close> points to.
\<close>

record 's pb_in_env =
  dec_callback :: "addr \<Rightarrow> 's pb_istream \<Rightarrow> pb_field \<Rightarrow> addr \<Rightarrow> memory \<Rightarrow> bool \<times> 's pb_istream \<times> memory"
  dec_extension :: "addr \<Rightarrow> 's pb_istream \<Rightarrow> addr \<Rightarrow> u32 \<Rightarrow> pb_wire_type \<Rightarrow> memory \<Rightarrow> bool \<times> 's pb_istream \<times> memory"
  dec_ext_field :: "addr \<Rightarrow> pb_field"

subsection \<open>Field decoders\<close>

text \<open>The assignment \<open>clamped = *(intN_t*)dest = (intN_t)svalue\<close>: the value that is stored.\<close>

definition clamp_signed :: "u64 \<Rightarrow> pb_size_t \<Rightarrow> u64 option" where
  "clamp_signed v n =
     (if n = 8 then Some v
      else if n = 4 then Some (scast (ucast v :: u32))
      else if n = 2 then Some (scast (ucast v :: u16))
      else if n = 1 then Some (scast (ucast v :: u8))
      else None)"

definition clamp_unsigned :: "u64 \<Rightarrow> pb_size_t \<Rightarrow> u64 option" where
  "clamp_unsigned v n =
     (if n = 8 then Some v
      else if n = 4 then Some (ucast (ucast v :: u32))
      else if n = 2 then Some (ucast (ucast v :: u16))
      else if n = 1 then Some (ucast (ucast v :: u8))
      else None)"

text \<open>The end of the integer decoders: the value is stored even when it does not fit.\<close>

definition store_clamped :: "u64 option \<Rightarrow> u64 \<Rightarrow> pb_field \<Rightarrow> addr \<Rightarrow> 's pb_istream \<Rightarrow> memory \<Rightarrow> 's dec_result" where
  "store_clamped clamped v field dest s m =
     (case clamped of
        None \<Rightarrow> Some (False, in_error s ''invalid data_size'', m)
      | Some c \<Rightarrow>
          let m = store m dest (le_bytes (unat (data_size field)) (unat c)) in
          if c \<noteq> v then Some (False, in_error s ''integer too large'', m) else Some (True, s, m))"

definition pb_dec_varint :: "'s pb_decoder_t" where
  "pb_dec_varint field dest s m =
     (case pb_decode_varint s of
        (None, s) \<Rightarrow> Some (False, s, m)
      | (Some value, s) \<Rightarrow>
          let svalue = (if data_size field = 8 then value else scast (ucast value :: u32)) in
          store_clamped (clamp_signed svalue (data_size field)) svalue field dest s m)"

definition pb_dec_uvarint :: "'s pb_decoder_t" where
  "pb_dec_uvarint field dest s m =
     (case pb_decode_varint s of
        (None, s) \<Rightarrow> Some (False, s, m)
      | (Some value, s) \<Rightarrow> store_clamped (clamp_unsigned value (data_size field)) value field dest s m)"

definition pb_dec_svarint :: "'s pb_decoder_t" where
  "pb_dec_svarint field dest s m =
     (case pb_decode_svarint s of
        (None, s) \<Rightarrow> Some (False, s, m)
      | (Some value, s) \<Rightarrow> store_clamped (clamp_signed value (data_size field)) value field dest s m)"

definition pb_dec_fixed32 :: "'s pb_decoder_t" where
  "pb_dec_fixed32 field dest s m =
     (case pb_decode_fixed32 s of
        (None, s) \<Rightarrow> Some (False, s, m)
      | (Some v, s) \<Rightarrow> Some (True, s, store_u32 m dest v))"

definition pb_dec_fixed64 :: "'s pb_decoder_t" where
  "pb_dec_fixed64 field dest s m =
     (case pb_decode_fixed64 s of
        (None, s) \<Rightarrow> Some (False, s, m)
      | (Some v, s) \<Rightarrow> Some (True, s, store m dest (le_bytes 8 (unat v))))"

definition pb_dec_bytes :: "'s pb_decoder_t" where
  "pb_dec_bytes field dest s m =
     (case pb_decode_varint32 s of
        (None, s) \<Rightarrow> Some (False, s, m)
      | (Some n, s) \<Rightarrow>
          let alloc_size = PB_BYTES_ARRAY_T_ALLOCSIZE (ucast n) in
          if n > PB_SIZE_MAX then Some (False, in_error s ''bytes overflow'', m)
          else if ucast n > alloc_size then Some (False, in_error s ''size too large'', m)
          else if PB_ATYPE (field_type field) = PB_ATYPE_POINTER
          then Some (False, in_error s ''no malloc support'', m)
          else if alloc_size > ucast (data_size field) then Some (False, in_error s ''bytes overflow'', m)
          else
            let m = store_u32 m dest n in
            (case pb_read_buf s (ucast n) of
               (None, s) \<Rightarrow> Some (False, s, m)
             | (Some bs, s) \<Rightarrow> Some (True, s, store m (dest + 4) bs)))"

definition pb_dec_string :: "'s pb_decoder_t" where
  "pb_dec_string field dest s m =
     (case pb_decode_varint32 s of
        (None, s) \<Rightarrow> Some (False, s, m)
      | (Some n, s) \<Rightarrow>
          let alloc_size = (ucast (n + 1) :: size_t) in
          if alloc_size < ucast n then Some (False, in_error s ''size too large'', m)
          else if PB_ATYPE (field_type field) = PB_ATYPE_POINTER
          then Some (False, in_error s ''no malloc support'', m)
          else if alloc_size > ucast (data_size field) then Some (False, in_error s ''string overflow'', m)
          else
            (case pb_read_buf s (ucast n) of
               (None, s) \<Rightarrow> Some (False, s, store m (dest + uint n) [0])
             | (Some bs, s) \<Rightarrow> Some (True, s, store (store m dest bs) (dest + uint n) [0])))"

text \<open>\<open>dec_init\<close> is \<open>pb_decode\<close> and \<open>dec_noinit\<close> is \<open>pb_decode_noinit\<close>.\<close>

definition pb_dec_submessage :: "'s message_decoder \<Rightarrow> 's message_decoder \<Rightarrow> 's pb_decoder_t" where
  "pb_dec_submessage dec_init dec_noinit field dest s m =
     (case pb_make_string_substream s of
        (None, s) \<Rightarrow> Some (False, s, m)
      | (Some sub, s) \<Rightarrow>
          (case field_ptr field of
             Null \<Rightarrow> Some (False, in_error s ''invalid field descriptor'', m)
           | Default _ \<Rightarrow> None
           | Submsg fs \<Rightarrow>
               do {
                 (status, sub, m) \<leftarrow>
                   (if PB_HTYPE (field_type field) = PB_HTYPE_REPEATED
                    then dec_init fs dest sub m else dec_noinit fs dest sub m);
                 (case pb_close_string_substream s sub of
                    (None, s) \<Rightarrow> Some (False, s, m)
                  | (Some _, s) \<Rightarrow> Some (status, s, m))
               }))"

definition pb_dec_fixed_length_bytes :: "'s pb_decoder_t" where
  "pb_dec_fixed_length_bytes field dest s m =
     (case pb_decode_varint32 s of
        (None, s) \<Rightarrow> Some (False, s, m)
      | (Some n, s) \<Rightarrow>
          if n > PB_SIZE_MAX then Some (False, in_error s ''bytes overflow'', m)
          else if n = 0 then Some (True, s, store m dest (replicate (unat (data_size field)) 0))
          else if n \<noteq> data_size field
          then Some (False, in_error s ''incorrect fixed length bytes size'', m)
          else
            (case pb_read_buf s (ucast (data_size field)) of
               (None, s) \<Rightarrow> Some (False, s, m)
             | (Some bs, s) \<Rightarrow> Some (True, s, store m dest bs)))"

text \<open>The table; the entry for extensions is \<open>NULL\<close>.\<close>

definition PB_DECODERS :: "'s message_decoder \<Rightarrow> 's message_decoder \<Rightarrow> pb_type_t \<Rightarrow> 's pb_decoder_t" where
  "PB_DECODERS dec_init dec_noinit l =
     (if l = PB_LTYPE_VARINT then pb_dec_varint
      else if l = PB_LTYPE_UVARINT then pb_dec_uvarint
      else if l = PB_LTYPE_SVARINT then pb_dec_svarint
      else if l = PB_LTYPE_FIXED32 then pb_dec_fixed32
      else if l = PB_LTYPE_FIXED64 then pb_dec_fixed64
      else if l = PB_LTYPE_BYTES then pb_dec_bytes
      else if l = PB_LTYPE_STRING then pb_dec_string
      else if l = PB_LTYPE_SUBMESSAGE then pb_dec_submessage dec_init dec_noinit
      else if l = PB_LTYPE_FIXED_LENGTH_BYTES then pb_dec_fixed_length_bytes
      else (\<lambda>_ _ _ _. None))"

subsection \<open>Defaults\<close>

text \<open>\<open>found\<close> is at offset 24 of an extension and \<open>dest\<close> at 8.\<close>

definition iter_from_extension :: "'s pb_in_env \<Rightarrow> addr \<Rightarrow> memory \<Rightarrow> pb_field_iter" where
  "iter_from_extension env ext m =
     (let field = dec_ext_field env (load_ptr m (load_ptr m ext + 16)); dest = load_ptr m (ext + 8);
          iter = (snd (pb_field_iter_begin [field] dest))\<lparr>pData := dest, pSize := ext + 24\<rparr>
      in if PB_ATYPE (field_type field) = PB_ATYPE_POINTER then iter\<lparr>pData := ext + 8\<rparr> else iter)"

definition each_field :: "(pb_field_iter \<Rightarrow> memory \<Rightarrow> memory option) \<Rightarrow> pb_field list \<Rightarrow> addr \<Rightarrow> memory \<Rightarrow> memory option" where
  "each_field set_field fs dest m =
     (case pb_field_iter_begin fs dest of
        (False, _) \<Rightarrow> Some m
      | (True, iter) \<Rightarrow> map_option snd (iter_do (\<lambda>iter m. map_option (Pair True) (set_field iter m)) iter m))"

partial_function (option) each_extension ::
    "'s pb_in_env \<Rightarrow> (pb_field_iter \<Rightarrow> memory \<Rightarrow> memory option) \<Rightarrow> addr \<Rightarrow> memory \<Rightarrow> memory option" where
  "each_extension env set_field ext m =
     (if ext = 0 then Some m
      else
        do {
          let m = store m (ext + 24) [0];
          m \<leftarrow> set_field (iter_from_extension env ext m) m;
          each_extension env set_field (load_ptr m (ext + 16)) m
        })"

fun pb_field_set_to_default :: "'s pb_in_env \<Rightarrow> nat \<Rightarrow> pb_field_iter \<Rightarrow> memory \<Rightarrow> memory option" where
  "pb_field_set_to_default env 0 iter m = None"
| "pb_field_set_to_default env (Suc d) iter m =
     (let f = cur iter; t = field_type f in
      if PB_LTYPE t = PB_LTYPE_EXTENSION
      then each_extension env (pb_field_set_to_default env d) (load_ptr m (pData iter)) m
      else if PB_ATYPE t = PB_ATYPE_STATIC then
        (if PB_HTYPE t = PB_HTYPE_REPEATED \<or> PB_HTYPE t = PB_HTYPE_ONEOF
         then Some (store_u32 m (pSize iter) 0)
         else
           let m = (if PB_HTYPE t = PB_HTYPE_OPTIONAL \<and> pSize iter \<noteq> pData iter
                    then store m (pSize iter) [0] else m) in
           if PB_LTYPE t = PB_LTYPE_SUBMESSAGE then
             (case field_ptr f of
                Submsg fs \<Rightarrow> each_field (pb_field_set_to_default env d) fs (pData iter) m
              | _ \<Rightarrow> None)
           else
             (case field_ptr f of
                Null \<Rightarrow> Some (store m (pData iter) (replicate (unat (data_size f)) 0))
              | Default bs \<Rightarrow>
                  if length bs < unat (data_size f) then None
                  else Some (store m (pData iter) (take (unat (data_size f)) bs))
              | Submsg _ \<Rightarrow> None))
      else if PB_ATYPE t = PB_ATYPE_POINTER then
        (let m = store_ptr m (pData iter) 0 in
         Some (if PB_HTYPE t = PB_HTYPE_REPEATED \<or> PB_HTYPE t = PB_HTYPE_ONEOF
               then store_u32 m (pSize iter) 0 else m))
      else Some m)"

definition pb_message_set_to_defaults :: "'s pb_in_env \<Rightarrow> nat \<Rightarrow> pb_field list \<Rightarrow> addr \<Rightarrow> memory \<Rightarrow> memory option" where
  "pb_message_set_to_defaults env d = each_field (pb_field_set_to_default env d)"


subsection \<open>Fields\<close>

text \<open>The loop over a packed array: the status, the substream and the memory after it.\<close>

partial_function (option) packed_loop ::
    "'s pb_decoder_t \<Rightarrow> pb_field_iter \<Rightarrow> 's pb_istream \<Rightarrow> memory \<Rightarrow> 's dec_result" where
  "packed_loop func iter sub m =
     (let n = load_u32 m (pSize iter) in
      if bytes_left sub > 0 \<and> n < array_size (cur iter) then
        do {
          (ok, sub, m) \<leftarrow> func (cur iter) (pData iter + uint (data_size (cur iter) * n)) sub m;
          if \<not> ok then Some (False, sub, m)
          else packed_loop func iter sub (store_u32 m (pSize iter) (load_u32 m (pSize iter) + 1))
        }
      else Some (True, sub, m))"

text \<open>\<open>set_defaults\<close> is \<open>pb_message_set_to_defaults\<close>.\<close>

definition decode_static_field ::
    "'s message_decoder \<Rightarrow> 's message_decoder \<Rightarrow> (pb_field list \<Rightarrow> addr \<Rightarrow> memory \<Rightarrow> memory option) \<Rightarrow>
     pb_wire_type \<Rightarrow> pb_field_iter \<Rightarrow> 's pb_istream \<Rightarrow> memory \<Rightarrow> 's dec_result" where
  "decode_static_field dec_init dec_noinit set_defaults wire_type iter s m =
     (let f = cur iter; t = field_type f; func = PB_DECODERS dec_init dec_noinit (PB_LTYPE t) in
      if PB_LTYPE t \<ge> 10 then None
      else if PB_HTYPE t = PB_HTYPE_REQUIRED then func f (pData iter) s m
      else if PB_HTYPE t = PB_HTYPE_OPTIONAL then
        let m = (if pSize iter \<noteq> pData iter then store m (pSize iter) [1] else m) in func f (pData iter) s m
      else if PB_HTYPE t = PB_HTYPE_REPEATED then
        if wire_type = PB_WT_STRING \<and> PB_LTYPE t \<le> PB_LTYPE_LAST_PACKABLE then
          (case pb_make_string_substream s of
             (None, s) \<Rightarrow> Some (False, s, m)
           | (Some sub, s) \<Rightarrow>
               do {
                 (status, sub, m) \<leftarrow> packed_loop func iter sub m;
                 if bytes_left sub \<noteq> 0 then Some (False, in_error s ''array overflow'', m)
                 else
                   (case pb_close_string_substream s sub of
                      (None, s) \<Rightarrow> Some (False, s, m)
                    | (Some _, s) \<Rightarrow> Some (status, s, m))
               })
        else
          let n = load_u32 m (pSize iter) in
          if n \<ge> array_size f then Some (False, in_error s ''array overflow'', m)
          else
            func f (pData iter + uint (data_size f * n)) s (store_u32 m (pSize iter) (n + 1))
      else
        let m = store_u32 m (pSize iter) (field_tag f) in
        if PB_LTYPE t = PB_LTYPE_SUBMESSAGE then
          do {
            let m = store m (pData iter) (replicate (unat (data_size f)) 0);
            m \<leftarrow> (case field_ptr f of Submsg fs \<Rightarrow> set_defaults fs (pData iter) m | _ \<Rightarrow> None);
            func f (pData iter) s m
          }
        else func f (pData iter) s m)"

text \<open>Without \<open>PB_ENABLE_MALLOC\<close>.\<close>

definition decode_pointer_field :: "'s pb_istream \<Rightarrow> memory \<Rightarrow> 's dec_result" where
  "decode_pointer_field s m = Some (False, in_error s ''no malloc support'', m)"

text \<open>A callback has its function at offset 0 and \<open>arg\<close> at 8.\<close>

partial_function (option) callback_loop ::
    "'s pb_in_env \<Rightarrow> addr \<Rightarrow> pb_field \<Rightarrow> addr \<Rightarrow> 's pb_istream \<Rightarrow> memory \<Rightarrow> 's dec_result" where
  "callback_loop env f field arg sub m =
     (case dec_callback env f sub field arg m of
        (ok, sub, m) \<Rightarrow>
          if \<not> ok then Some (False, sub, m)
          else if bytes_left sub \<noteq> 0 then callback_loop env f field arg sub m
          else Some (True, sub, m))"

definition decode_callback_field ::
    "'s pb_in_env \<Rightarrow> pb_wire_type \<Rightarrow> pb_field_iter \<Rightarrow> 's pb_istream \<Rightarrow> memory \<Rightarrow> 's dec_result" where
  "decode_callback_field env wire_type iter s m =
     (let f = load_ptr m (pData iter); arg = pData iter + 8 in
      if f = 0 then (case pb_skip_field s wire_type of (r, s) \<Rightarrow> Some (r \<noteq> None, s, m))
      else if wire_type = PB_WT_STRING then
        (case pb_make_string_substream s of
           (None, s) \<Rightarrow> Some (False, s, m)
         | (Some sub, s) \<Rightarrow>
             do {
               (ok, sub, m) \<leftarrow> callback_loop env f (cur iter) arg sub m;
               if \<not> ok then Some (False, in_error s ''callback failed'', m)
               else
                 (case pb_close_string_substream s sub of
                    (None, s) \<Rightarrow> Some (False, s, m)
                  | (Some _, s) \<Rightarrow> Some (True, s, m))
             })
      else
        (case read_raw_value s wire_type 10 of
           (None, s) \<Rightarrow> Some (False, s, m)
         | (Some buffer, s) \<Rightarrow>
             (case dec_callback env f (pb_istream_from_buffer buffer (of_nat (length buffer))) (cur iter) arg m of
                (ok, _, m) \<Rightarrow> Some (ok, s, m))))"

definition decode_field ::
    "'s pb_in_env \<Rightarrow> 's message_decoder \<Rightarrow> 's message_decoder \<Rightarrow> (pb_field list \<Rightarrow> addr \<Rightarrow> memory \<Rightarrow> memory option) \<Rightarrow>
     pb_wire_type \<Rightarrow> pb_field_iter \<Rightarrow> 's pb_istream \<Rightarrow> memory \<Rightarrow> 's dec_result" where
  "decode_field env dec_init dec_noinit set_defaults wire_type iter s m =
     (let a = PB_ATYPE (field_type (cur iter)) in
      if a = PB_ATYPE_STATIC then decode_static_field dec_init dec_noinit set_defaults wire_type iter s m
      else if a = PB_ATYPE_POINTER then decode_pointer_field s m
      else if a = PB_ATYPE_CALLBACK then decode_callback_field env wire_type iter s m
      else Some (False, in_error s ''invalid field type'', m))"

text \<open>
  \<open>dec_f\<close> is \<open>decode_field\<close> with its environment: the wire type, the iterator, the stream
  and the memory.
\<close>

type_synonym 's field_decoder = "pb_wire_type \<Rightarrow> pb_field_iter \<Rightarrow> 's pb_istream \<Rightarrow> memory \<Rightarrow> 's dec_result"

definition default_extension_decoder ::
    "'s pb_in_env \<Rightarrow> 's field_decoder \<Rightarrow> 's pb_istream \<Rightarrow> addr \<Rightarrow> u32 \<Rightarrow> pb_wire_type \<Rightarrow> memory \<Rightarrow> 's dec_result" where
  "default_extension_decoder env dec_f s ext tag wire_type m =
     (let field = dec_ext_field env (load_ptr m (load_ptr m ext + 16)) in
      if field_tag field \<noteq> tag then Some (True, s, m)
      else
        let iter = iter_from_extension env ext m in
        dec_f wire_type iter s (store m (ext + 24) [1]))"

partial_function (option) extension_loop ::
    "'s pb_in_env \<Rightarrow> 's field_decoder \<Rightarrow> size_t \<Rightarrow> addr \<Rightarrow> u32 \<Rightarrow> pb_wire_type \<Rightarrow> 's pb_istream \<Rightarrow> memory \<Rightarrow> 's dec_result" where
  "extension_loop env dec_f before ext tag wire_type s m =
     (if ext \<noteq> 0 \<and> before = bytes_left s then
        do {
          (status, s, m) \<leftarrow>
            (if load_ptr m (load_ptr m ext) \<noteq> 0
             then Some (dec_extension env (load_ptr m (load_ptr m ext)) s ext tag wire_type m)
             else default_extension_decoder env dec_f s ext tag wire_type m);
          if \<not> status then Some (False, s, m)
          else extension_loop env dec_f before (load_ptr m (ext + 16)) tag wire_type s m
        }
      else Some (True, s, m))"

definition decode_extension ::
    "'s pb_in_env \<Rightarrow> 's field_decoder \<Rightarrow> u32 \<Rightarrow> pb_wire_type \<Rightarrow> pb_field_iter \<Rightarrow> 's pb_istream \<Rightarrow> memory \<Rightarrow> 's dec_result" where
  "decode_extension env dec_f tag wire_type iter s m =
     extension_loop env dec_f (bytes_left s) (load_ptr m (pData iter)) tag wire_type s m"

definition find_extension_field :: "pb_field_iter \<Rightarrow> (bool \<times> pb_field_iter) option" where
  "find_extension_field iter =
     iter_search (\<lambda>f. PB_LTYPE (field_type f) = PB_LTYPE_EXTENSION) (pos iter) iter"

subsection \<open>Messages\<close>

text \<open>
  The loop of \<open>pb_decode_noinit\<close>, with \<open>fields_seen\<close> and \<open>extension_range_start\<close>; when it
  ends without an error, the iterator and \<open>fields_seen\<close> are returned.
\<close>

partial_function (option) decode_fields_loop ::
    "'s pb_in_env \<Rightarrow> 's field_decoder \<Rightarrow> u32 list \<Rightarrow> u32 \<Rightarrow> pb_field_iter \<Rightarrow> 's pb_istream \<Rightarrow> memory \<Rightarrow>
     ((pb_field_iter \<times> u32 list) option \<times> 's pb_istream \<times> memory) option" where
  "decode_fields_loop env dec_f fields_seen ext_start iter s m =
     (if bytes_left s = 0 then Some (Some (iter, fields_seen), s, m)
      else
        (case pb_decode_tag s of
           (None, eof, s) \<Rightarrow> Some (if eof then Some (iter, fields_seen) else None, s, m)
         | (Some (wire_type, tag), _, s) \<Rightarrow>
             do {
               (found, iter) \<leftarrow> pb_field_iter_find iter tag;
               if \<not> found then
                 do {
                   (ext_start, iter) \<leftarrow>
                     (if tag \<ge> ext_start then
                        do {
                          (ext, iter) \<leftarrow> find_extension_field iter;
                          Some (if ext then field_tag (cur iter) else - 1, iter)
                        }
                      else Some (ext_start, iter));
                   let before = bytes_left s;
                   (ok, s, m) \<leftarrow>
                     (if tag \<ge> ext_start then decode_extension env dec_f tag wire_type iter s m
                      else Some (True, s, m));
                   if \<not> ok then Some (None, s, m)
                   else if before \<noteq> bytes_left s then decode_fields_loop env dec_f fields_seen ext_start iter s m
                   else
                     (case pb_skip_field s wire_type of
                        (None, s) \<Rightarrow> Some (None, s, m)
                      | (Some _, s) \<Rightarrow> decode_fields_loop env dec_f fields_seen ext_start iter s m)
                 }
               else
                 do {
                   let idx = required_field_index iter;
                   let fields_seen =
                     (if PB_HTYPE (field_type (cur iter)) = PB_HTYPE_REQUIRED \<and> idx < 64
                      then fields_seen[unat (drop_bit 5 idx) :=
                             fields_seen ! unat (drop_bit 5 idx) OR push_bit (unat (idx AND 31)) 1]
                      else fields_seen);
                   (ok, s, m) \<leftarrow> dec_f wire_type iter s m;
                   if \<not> ok then Some (None, s, m)
                   else decode_fields_loop env dec_f fields_seen ext_start iter s m
                 }
             }))"

text \<open>The loop that runs the iterator to the end: its last value, and the value after it.\<close>

function iter_end :: "pb_field_iter \<Rightarrow> pb_field_iter \<times> pb_field_iter" where
  "iter_end iter = (case pb_field_iter_next iter of (again, iter') \<Rightarrow> if again then iter_end iter' else (iter, iter'))"
  by pat_completeness auto
termination
  by (relation "measure (\<lambda>iter. length (start iter) - pos iter)") (auto dest!: pb_field_iter_next_pos [OF sym])

declare iter_end.simps [simp del]

definition req_field_count :: "pb_field_iter \<Rightarrow> u32" where
  "req_field_count iter =
     (case iter_end iter of
        (fin, iter) \<Rightarrow>
          if PB_HTYPE (field_type (cur fin)) = PB_HTYPE_REQUIRED \<and> field_tag (cur iter) \<noteq> 0
          then required_field_index fin + 1 else required_field_index fin)"

text \<open>
  The check of \<open>fields_seen\<close>. Reading past the array and shifting a 32-bit value by 32 have no
  defined result.
\<close>

fun whole_words :: "u32 list \<Rightarrow> nat \<Rightarrow> bool option" where
  "whole_words seen 0 = Some True"
| "whole_words [] (Suc n) = None"
| "whole_words (w # ws) (Suc n) = (if w \<noteq> - 1 then Some False else whole_words ws n)"

definition check_required :: "u32 list \<Rightarrow> u32 \<Rightarrow> bool option" where
  "check_required fields_seen cnt =
     (if cnt = 0 then Some True
      else
        do {
          whole \<leftarrow> whole_words fields_seen (unat (drop_bit 5 cnt));
          if \<not> whole then Some False
          else if unat (drop_bit 5 cnt) \<ge> length fields_seen then None
          else if cnt AND 31 = 0 then None
          else Some (fields_seen ! unat (drop_bit 5 cnt) = drop_bit (32 - unat (cnt AND 31)) (- 1))
        })"

fun pb_decode_noinit :: "'s pb_in_env \<Rightarrow> nat \<Rightarrow> 's message_decoder" where
  "pb_decode_noinit env 0 fs dest s m = None"
| "pb_decode_noinit env (Suc d) fs dest s m =
     (let dec_init = (\<lambda>fs dest s m. do { m \<leftarrow> pb_message_set_to_defaults env d fs dest m; pb_decode_noinit env d fs dest s m });
          dec_f = decode_field env dec_init (pb_decode_noinit env d) (pb_message_set_to_defaults env d)
      in
      do {
        (r, s, m) \<leftarrow> decode_fields_loop env dec_f [0, 0] 0 (snd (pb_field_iter_begin fs dest)) s m;
        (case r of
           None \<Rightarrow> Some (False, s, m)
         | Some (iter, fields_seen) \<Rightarrow>
             do {
               complete \<leftarrow> check_required fields_seen (req_field_count iter);
               Some (if complete then (True, s, m) else (False, in_error s ''missing required field'', m))
             })
      })"

definition pb_decode :: "'s pb_in_env \<Rightarrow> nat \<Rightarrow> 's message_decoder" where
  "pb_decode env d fs dest s m =
     do {
       m \<leftarrow> pb_message_set_to_defaults env d fs dest m;
       pb_decode_noinit env d fs dest s m
     }"

definition pb_decode_delimited :: "'s pb_in_env \<Rightarrow> nat \<Rightarrow> 's message_decoder" where
  "pb_decode_delimited env d fs dest s m =
     (case pb_make_string_substream s of
        (None, s) \<Rightarrow> Some (False, s, m)
      | (Some sub, s) \<Rightarrow>
          do {
            (status, sub, m) \<leftarrow> pb_decode env d fs dest sub m;
            (case pb_close_string_substream s sub of
               (None, s) \<Rightarrow> Some (False, s, m)
             | (Some _, s) \<Rightarrow> Some (status, s, m))
          })"

end
