(* ===== verification/Pb_Decode_Safe.thy ===== *)
theory Pb_Decode_Safe
  imports Pb_Decode
begin

text \<open>
  Memory safety and termination of the nanopb decoder: for a descriptor that describes a
  structure of \<open>n\<close> bytes, decoding any input into it returns, writes to those bytes, and where the
  callbacks of the application write, only, and never reads past the end of the stream.
\<close>

section \<open>Descriptors that fit a structure\<close>

text \<open>
  What the declarations of \<open>pb.h\<close> give for the field that an iterator is at, in a structure of
  \<open>n\<close> bytes at address \<open>a\<close>. The data of a static field, its array and its count or \<open>has_\<close> flag lie inside, its
  size suits its type, and a default value is as long as the field. A pointer field is a pointer, with a count when it is
  repeated; a callback field is a \<open>pb_callback_t\<close>, with the function at offset 0 and its argument at 8.
  Callback fields are there only if \<open>cb\<close> says so, and extension fields are not: the objects of an
  extension are outside the structure.
\<close>

definition field_room :: "pb_field \<Rightarrow> int" where
  "field_room f =
     (if PB_HTYPE (field_type f) = PB_HTYPE_REPEATED then uint (data_size f) * uint (array_size f) else uint (data_size f))"

definition static_field :: "(nat \<Rightarrow> pb_field list \<Rightarrow> bool) \<Rightarrow> addr \<Rightarrow> nat \<Rightarrow> pb_field_iter \<Rightarrow> bool" where
  "static_field sub a n iter \<longleftrightarrow>
     (let f = cur iter; t = field_type f in
      PB_ATYPE t = PB_ATYPE_STATIC \<and> PB_LTYPE t < 10 \<and> PB_LTYPE t \<noteq> PB_LTYPE_EXTENSION \<and>
      a \<le> pData iter \<and> pData iter + field_room f \<le> a + int n \<and>
      (PB_HTYPE t = PB_HTYPE_OPTIONAL \<and> pSize iter \<noteq> pData iter \<longrightarrow> a \<le> pSize iter \<and> pSize iter + 1 \<le> a + int n) \<and>
      (PB_HTYPE t = PB_HTYPE_REPEATED \<or> PB_HTYPE t = PB_HTYPE_ONEOF \<longrightarrow> a \<le> pSize iter \<and> pSize iter + 4 \<le> a + int n) \<and>
      (PB_LTYPE t = PB_LTYPE_FIXED32 \<longrightarrow> 4 \<le> data_size f) \<and>
      (PB_LTYPE t = PB_LTYPE_FIXED64 \<longrightarrow> 8 \<le> data_size f) \<and>
      (PB_LTYPE t = PB_LTYPE_SUBMESSAGE \<longrightarrow>
         (case field_ptr f of Submsg fs \<Rightarrow> sub (unat (data_size f)) fs | _ \<Rightarrow> False)) \<and>
      (PB_LTYPE t \<noteq> PB_LTYPE_SUBMESSAGE \<and> (PB_HTYPE t = PB_HTYPE_REQUIRED \<or> PB_HTYPE t = PB_HTYPE_OPTIONAL) \<longrightarrow>
         (case field_ptr f of Null \<Rightarrow> True | Default bs \<Rightarrow> unat (data_size f) \<le> length bs | Submsg _ \<Rightarrow> False)))"

definition pointer_field :: "addr \<Rightarrow> nat \<Rightarrow> pb_field_iter \<Rightarrow> bool" where
  "pointer_field a n iter \<longleftrightarrow>
     (let t = field_type (cur iter) in
      PB_ATYPE t = PB_ATYPE_POINTER \<and> PB_LTYPE t \<noteq> PB_LTYPE_EXTENSION \<and>
      a \<le> pData iter \<and> pData iter + 8 \<le> a + int n \<and>
      (PB_HTYPE t = PB_HTYPE_REPEATED \<or> PB_HTYPE t = PB_HTYPE_ONEOF \<longrightarrow> a \<le> pSize iter \<and> pSize iter + 4 \<le> a + int n))"

definition callback_field :: "addr \<Rightarrow> nat \<Rightarrow> pb_field_iter \<Rightarrow> bool" where
  "callback_field a n iter \<longleftrightarrow>
     (let t = field_type (cur iter) in
      PB_ATYPE t = PB_ATYPE_CALLBACK \<and> PB_LTYPE t \<noteq> PB_LTYPE_EXTENSION \<and>
      a \<le> pData iter \<and> pData iter + 16 \<le> a + int n)"

definition sound_field :: "bool \<Rightarrow> (nat \<Rightarrow> pb_field list \<Rightarrow> bool) \<Rightarrow> addr \<Rightarrow> nat \<Rightarrow> pb_field_iter \<Rightarrow> bool" where
  "sound_field cb sub a n iter \<longleftrightarrow>
     static_field sub a n iter \<or> pointer_field a n iter \<or> cb \<and> callback_field a n iter"

text \<open>
  \<open>sound cb d n fs\<close>: \<open>fs\<close> describes a structure of \<open>n\<close> bytes with submessages nested less than
  \<open>d\<close> deep. The number of required fields is one for which \<open>check_required\<close> is defined.
\<close>

fun sound :: "bool \<Rightarrow> nat \<Rightarrow> nat \<Rightarrow> pb_field list \<Rightarrow> bool" where
  "sound cb 0 n fs = False"
| "sound cb (Suc d) n fs =
     (list_all (sound_field cb (sound cb d) 0 n) (iters fs 0) \<and>
      (fs = [] \<or> field_tag (hd fs) \<noteq> 0) \<and>
      (let r = req_field_count (snd (pb_field_iter_begin fs 0)) in r = 0 \<or> r < 64 \<and> r AND 31 \<noteq> 0))"

text \<open>
  What \<open>pb.h\<close> asks of the decoding callbacks of the application, which may use the memory \<open>W\<close> and their
  argument: they read from the stream they are given, and one that succeeds has read something
  if there was anything, as the loop of \<open>decode_callback_field\<close> calls it until nothing is left.
\<close>

definition callbacks_ok :: "'s pb_in_env \<Rightarrow> addr set \<Rightarrow> bool" where
  "callbacks_ok env W \<longleftrightarrow>
     (\<forall>f s field arg m ok s' m'. source_ok s \<longrightarrow> dec_callback env f s field arg m = (ok, s', m') \<longrightarrow>
        only_writes W arg 8 m m' \<and> drains s s' \<and> (ok \<and> 0 < bytes_left s \<longrightarrow> bytes_left s' < bytes_left s))"

section \<open>Runs that stay inside\<close>

definition stays :: "addr set \<Rightarrow> addr \<Rightarrow> nat \<Rightarrow> 's pb_istream \<Rightarrow> memory \<Rightarrow> 's dec_result \<Rightarrow> bool" where
  "stays W a n s m r \<longleftrightarrow>
     (case r of None \<Rightarrow> False | Some (ok, s', m') \<Rightarrow> only_writes W a n m m' \<and> drains s s')"

text \<open>A field decoder that succeeds has also consumed something.\<close>

definition eats :: "addr set \<Rightarrow> addr \<Rightarrow> nat \<Rightarrow> 's pb_istream \<Rightarrow> memory \<Rightarrow> 's dec_result \<Rightarrow> bool" where
  "eats W a n s m r \<longleftrightarrow>
     (case r of None \<Rightarrow> False
      | Some (ok, s', m') \<Rightarrow> only_writes W a n m m' \<and> drains s s' \<and> (ok \<longrightarrow> bytes_left s' < bytes_left s))"

lemma eatsI:
  "r = Some (ok, s', m') \<Longrightarrow> only_writes W a n m m' \<Longrightarrow> drains s s' \<Longrightarrow> (ok \<Longrightarrow> bytes_left s' < bytes_left s) \<Longrightarrow> eats W a n s m r"
  by (auto simp: eats_def)

lemma eatsE:
  assumes "eats W a n s m r"
  obtains ok s' m' where "r = Some (ok, s', m')" "only_writes W a n m m'" "drains s s'" "ok \<longrightarrow> bytes_left s' < bytes_left s"
  using assms by (auto simp: eats_def split: option.splits prod.splits)

lemma staysE:
  assumes "stays W a n s m r"
  obtains ok s' m' where "r = Some (ok, s', m')" "only_writes W a n m m'" "drains s s'"
  using assms by (auto simp: stays_def split: option.splits prod.splits)

lemma eats_mono: "eats W b k s m r \<Longrightarrow> a \<le> b \<Longrightarrow> b + int k \<le> a + int n \<Longrightarrow> eats W a n s m r"
  by (auto simp: eats_def intro: only_writes_mono split: option.splits)

lemma eats_before: "only_writes W a n m m1 \<Longrightarrow> eats W a n s m1 r \<Longrightarrow> eats W a n s m r"
  by (auto simp: eats_def intro: only_writes_trans split: option.splits)

lemma eats_False: "drains s s' \<Longrightarrow> only_writes W a n m m' \<Longrightarrow> eats W a n s m (Some (False, s', m'))"
  by (auto simp: eats_def)

subsection \<open>Scalars, strings and bytes\<close>

lemma store_clamped_eats:
  assumes "drains s0 s" "bytes_left s < bytes_left s0"
  shows "eats W dest (unat (data_size field)) s0 m (store_clamped c v field dest s m)"
proof (cases c)
  case None
  then show ?thesis using assms by (simp add: store_clamped_def eats_False)
next
  case (Some x)
  have "only_writes W dest (unat (data_size field)) m (store m dest (le_bytes (unat (data_size field)) (unat x)))"
    by (rule only_writes_at) simp
  then show ?thesis using assms Some by (auto simp: store_clamped_def eats_def Let_def)
qed

lemma pb_dec_varint_eats: "eats W dest (unat (data_size field)) s m (pb_dec_varint field dest s m)"
proof (cases "pb_decode_varint s")
  case (Pair r s1)
  then show ?thesis using pb_decode_varint_consumes [OF Pair]
    by (cases r) (simp_all add: pb_dec_varint_def Let_def eats_False store_clamped_eats del: split_paired_All)
qed

lemma pb_dec_uvarint_eats: "eats W dest (unat (data_size field)) s m (pb_dec_uvarint field dest s m)"
proof (cases "pb_decode_varint s")
  case (Pair r s1)
  then show ?thesis using pb_decode_varint_consumes [OF Pair]
    by (cases r) (simp_all add: pb_dec_uvarint_def eats_False store_clamped_eats)
qed

lemma pb_dec_svarint_eats: "eats W dest (unat (data_size field)) s m (pb_dec_svarint field dest s m)"
proof (cases "pb_decode_svarint s")
  case (Pair r s1)
  then show ?thesis using pb_decode_svarint_consumes [OF Pair]
    by (cases r) (simp_all add: pb_dec_svarint_def eats_False store_clamped_eats)
qed

lemma pb_dec_fixed32_eats:
  assumes "4 \<le> data_size field"
  shows "eats W dest (unat (data_size field)) s m (pb_dec_fixed32 field dest s m)"
proof (cases "pb_decode_fixed32 s")
  case (Pair r s1)
  have "only_writes W dest (unat (data_size field)) m (store_u32 m dest v)" for v
    unfolding store_u32_def by (rule only_writes_at) (use assms in \<open>simp add: word_le_nat_alt\<close>)
  then show ?thesis using pb_decode_fixed32_consumes [OF Pair]
    by (cases r) (simp_all add: pb_dec_fixed32_def Pair eats_def)
qed

lemma pb_dec_fixed64_eats:
  assumes "8 \<le> data_size field"
  shows "eats W dest (unat (data_size field)) s m (pb_dec_fixed64 field dest s m)"
proof (cases "pb_decode_fixed64 s")
  case (Pair r s1)
  have "only_writes W dest (unat (data_size field)) m (store m dest (le_bytes 8 k))" for k
    by (rule only_writes_at) (use assms in \<open>simp add: word_le_nat_alt\<close>)
  then show ?thesis using pb_decode_fixed64_consumes [OF Pair]
    by (cases r) (simp_all add: pb_dec_fixed64_def Pair eats_def)
qed

text \<open>After the length, the rest of a string, bytes or fixed-length field only drains the stream.\<close>

lemma eats_after_length:
  assumes "pb_decode_varint32 s = (Some n, s1)" "stays W a k s1 m r"
  shows "eats W a k s m r"
proof -
  have c: "consumes s (Some n) s1" by (rule pb_decode_varint32_consumes [OF assms(1)])
  from assms(2) obtain ok s' m' where r: "r = Some (ok, s', m')" "only_writes W a k m m'" "drains s1 s'" by (rule staysE)
  from consumes_then [OF c r(3), of "Some ()"] show ?thesis using r(1,2) by (auto simp: eats_def)
qed

lemma pb_dec_bytes_eats:
  assumes src: "source_ok s"
  shows "eats W dest (unat (data_size field)) s m (pb_dec_bytes field dest s m)"
proof (cases "pb_decode_varint32 s")
  case (Pair r s1)
  note c = pb_decode_varint32_consumes [OF Pair]
  show ?thesis
  proof (cases r)
    case None
    then show ?thesis using c Pair by (auto simp: pb_dec_bytes_def intro: eats_False)
  next
    case (Some n)
    have ok1: "source_ok s1" using c src Some by (simp add: drains_def)
    have alloc: "unat (PB_BYTES_ARRAY_T_ALLOCSIZE (ucast n)) = unat n + 4"
      using unat_bound [of n] by (simp add: PB_BYTES_ARRAY_T_ALLOCSIZE_def unat_word_ariths unat_ucast_up)
    obtain r2 s2 where rd: "pb_read_buf s1 (ucast n) = (r2, s2)" by (cases "pb_read_buf s1 (ucast n)")
    have len: "length bs \<le> unat n" if "r2 = Some bs" for bs
      using pb_read_buf_drains(3) [OF rd ok1 that] by (simp add: unat_ucast_up)
    have "stays W dest (unat (data_size field)) s1 m (pb_dec_bytes field dest s m)"
    proof (cases "PB_BYTES_ARRAY_T_ALLOCSIZE (ucast n) > ucast (data_size field)")
      case True
      then show ?thesis by (auto simp: pb_dec_bytes_def Pair Some stays_def Let_def)
    next
      case False
      then have fit: "unat n + 4 \<le> unat (data_size field)" by (simp add: word_less_nat_alt alloc unat_ucast_up)
      have w: "only_writes W dest (unat (data_size field)) m (store_u32 m dest n)"
        unfolding store_u32_def using fit by (intro only_writes_at) simp
      have "only_writes W dest (unat (data_size field)) m (store (store_u32 m dest n) (dest + 4) bs)" if "r2 = Some bs" for bs
        using only_writes_trans [OF w only_writes_offset [of 4 bs]] fit len [OF that] by simp
      then show ?thesis using w pb_read_buf_drains(1) [OF rd] False
        by (auto simp: pb_dec_bytes_def Pair Some stays_def Let_def rd split: option.splits)
    qed
    then show ?thesis using eats_after_length Pair Some by blast
  qed
qed

lemma pb_dec_string_eats:
  assumes src: "source_ok s"
  shows "eats W dest (unat (data_size field)) s m (pb_dec_string field dest s m)"
proof (cases "pb_decode_varint32 s")
  case (Pair r s1)
  note c = pb_decode_varint32_consumes [OF Pair]
  show ?thesis
  proof (cases r)
    case None
    then show ?thesis using c Pair by (auto simp: pb_dec_string_def intro: eats_False)
  next
    case (Some n)
    have ok1: "source_ok s1" using c src Some by (simp add: drains_def)
    obtain r2 s2 where rd: "pb_read_buf s1 (ucast n) = (r2, s2)" by (cases "pb_read_buf s1 (ucast n)")
    have len: "length bs \<le> unat n" if "r2 = Some bs" for bs
      using pb_read_buf_drains(3) [OF rd ok1 that] by (simp add: unat_ucast_up)
    have "stays W dest (unat (data_size field)) s1 m (pb_dec_string field dest s m)"
    proof (cases "(ucast (n + 1) :: size_t) < ucast n \<or> PB_ATYPE (field_type field) = PB_ATYPE_POINTER \<or>
        (ucast (n + 1) :: size_t) > ucast (data_size field)")
      case True
      then show ?thesis by (auto simp: pb_dec_string_def Pair Some stays_def Let_def)
    next
      case False
      then have "\<not> n + 1 < n" by (simp add: word_less_nat_alt unat_ucast_up)
      then have "unat n + 1 \<le> unat (data_size field)"
        using False unat_Suc_no_wrap [of n] by (simp add: word_less_nat_alt unat_ucast_up)
      then have w: "only_writes W dest (unat (data_size field)) m' (store m' (dest + uint n) [0])" for m'
        using only_writes_offset [of "unat n" "[0]"] by simp
      have w1: "only_writes W dest (unat (data_size field)) m (store (store m dest bs) (dest + uint n) [0])" if "r2 = Some bs" for bs
        by (rule only_writes_trans [OF only_writes_at w]) (use len [OF that] \<open>unat n + 1 \<le> _\<close> in simp)
      have run: "pb_dec_string field dest s m =
          Some (r2 \<noteq> None, s2, case r2 of None \<Rightarrow> store m (dest + uint n) [0] | Some bs \<Rightarrow> store (store m dest bs) (dest + uint n) [0])"
        using False by (simp add: pb_dec_string_def Pair Some Let_def rd split: option.splits)
      show ?thesis using w w1 pb_read_buf_drains(1) [OF rd]
        by (cases r2) (simp_all add: run stays_def)
    qed
    then show ?thesis using eats_after_length Pair Some by blast
  qed
qed

lemma pb_dec_fixed_length_bytes_eats:
  assumes src: "source_ok s"
  shows "eats W dest (unat (data_size field)) s m (pb_dec_fixed_length_bytes field dest s m)"
proof (cases "pb_decode_varint32 s")
  case (Pair r s1)
  note c = pb_decode_varint32_consumes [OF Pair]
  show ?thesis
  proof (cases r)
    case None
    then show ?thesis using c Pair by (auto simp: pb_dec_fixed_length_bytes_def intro: eats_False)
  next
    case (Some n)
    have ok1: "source_ok s1" using c src Some by (simp add: drains_def)
    obtain r2 s2 where rd: "pb_read_buf s1 (ucast (data_size field)) = (r2, s2)"
      by (cases "pb_read_buf s1 (ucast (data_size field))")
    have len: "length bs \<le> unat (data_size field)" if "r2 = Some bs" for bs
      using pb_read_buf_drains(3) [OF rd ok1 that] by (simp add: unat_ucast_up)
    have w: "only_writes W dest (unat (data_size field)) m (store m dest bs)" if "length bs \<le> unat (data_size field)" for bs
      using that by (rule only_writes_at)
    have "stays W dest (unat (data_size field)) s1 m (pb_dec_fixed_length_bytes field dest s m)"
      using w len pb_read_buf_drains(1) [OF rd]
      by (auto simp: pb_dec_fixed_length_bytes_def Pair Some stays_def Let_def rd split: option.splits)
    then show ?thesis using eats_after_length Pair Some by blast
  qed
qed


subsection \<open>Defaults\<close>

lemma sound_iters:
  assumes "sound cb (Suc d) n fs" "iter \<in> set (iters fs a)"
  shows "sound_field cb (sound cb d) a n iter"
proof -
  obtain iter0 where "iter = shift a iter0" "iter0 \<in> set (iters fs 0)"
    using assms(2) by (subst (asm) iters_shift) auto
  moreover from this have "sound_field cb (sound cb d) 0 n iter0" using assms(1) by (simp add: list_all_iff)
  ultimately show ?thesis by (auto simp: sound_field_def static_field_def pointer_field_def callback_field_def Let_def)
qed

definition writes_inside :: "addr set \<Rightarrow> addr \<Rightarrow> nat \<Rightarrow> memory \<Rightarrow> memory option \<Rightarrow> bool" where
  "writes_inside W a n m r \<longleftrightarrow> (case r of None \<Rightarrow> False | Some m' \<Rightarrow> only_writes W a n m m')"

lemma each_field_inside:
  assumes "\<And>iter m. iter \<in> set (iters fs a) \<Longrightarrow> writes_inside W a n m (f iter m)"
  shows "writes_inside W a n m (each_field f fs a m)"
proof -
  have loop: "\<exists>m'. list_do (\<lambda>iter m. map_option (Pair True) (f iter m)) xs m = Some (True, m') \<and> only_writes W a n m m'"
    if "set xs \<subseteq> set (iters fs a)" for xs
    using that
  proof (induction xs arbitrary: m)
    case (Cons x xs)
    obtain m1 where m1: "f x m = Some m1" "only_writes W a n m m1"
      using assms [of x m] Cons.prems by (auto simp: writes_inside_def split: option.splits)
    from Cons.IH [of m1] Cons.prems obtain m' where
      "list_do (\<lambda>iter m. map_option (Pair True) (f iter m)) xs m1 = Some (True, m')" "only_writes W a n m1 m'" by auto
    then show ?case using m1 by (auto intro: only_writes_trans)
  qed simp
  have eq: "each_field f fs a m = map_option snd (list_do (\<lambda>iter m. map_option (Pair True) (f iter m)) (iters fs a) m)"
    unfolding each_field_def iter_do_iters [symmetric] by (auto split: prod.splits bool.splits)
  show ?thesis using loop [of "iters fs a"] by (auto simp: eq writes_inside_def)
qed

lemma static_default_inside:
  assumes sf: "static_field S a n iter"
    and sub: "\<And>k gs p m. S k gs \<Longrightarrow> writes_inside W p k m (pb_message_set_to_defaults env d gs p m)"
  shows "writes_inside W a n m (pb_field_set_to_default env (Suc d) iter m)"
proof -
  let ?f = "cur iter" and ?t = "field_type (cur iter)"
  have atype: "PB_ATYPE ?t = PB_ATYPE_STATIC" "PB_LTYPE ?t \<noteq> PB_LTYPE_EXTENSION"
    using sf by (auto simp: static_field_def Let_def)
  show ?thesis
  proof (cases "PB_HTYPE ?t = PB_HTYPE_REPEATED \<or> PB_HTYPE ?t = PB_HTYPE_ONEOF")
    case True
    then have "a \<le> pSize iter" "pSize iter + 4 \<le> a + int n" using sf by (auto simp: static_field_def Let_def)
    then have "only_writes W a n m (store_u32 m (pSize iter) 0)" unfolding store_u32_def by (intro only_writes_store) simp_all
    then show ?thesis using True atype by (auto simp: writes_inside_def Let_def)
  next
    case False
    define m1 where "m1 = (if PB_HTYPE ?t = PB_HTYPE_OPTIONAL \<and> pSize iter \<noteq> pData iter then store m (pSize iter) [0] else m)"
    have w1: "only_writes W a n m m1"
      using sf by (auto simp: m1_def static_field_def Let_def intro!: only_writes_store)
    have htype: "PB_HTYPE ?t = PB_HTYPE_REQUIRED \<or> PB_HTYPE ?t = PB_HTYPE_OPTIONAL"
      using False by (cases rule: htype_cases [of ?t]) auto
    have room: "a \<le> pData iter" "pData iter + uint (data_size ?f) \<le> a + int n"
      using sf False by (auto simp: static_field_def field_room_def Let_def)
    show ?thesis
    proof (cases "PB_LTYPE ?t = PB_LTYPE_SUBMESSAGE")
      case submsg: True
      then obtain fs' where fs': "field_ptr ?f = Submsg fs'" "S (unat (data_size ?f)) fs'"
        using sf by (auto simp: static_field_def Let_def split: pb_ptr.splits)
      have "only_writes W a n m1 x" if "only_writes W (pData iter) (unat (data_size ?f)) m1 x" for x
        using only_writes_mono [OF that] room by simp
      with sub [OF fs'(2), of "pData iter" m1]
      have "writes_inside W a n m (each_field (pb_field_set_to_default env d) fs' (pData iter) m1)"
        using room w1 by (auto simp: writes_inside_def pb_message_set_to_defaults_def
            intro: only_writes_trans [OF w1] split: option.splits)
      then show ?thesis using False atype submsg fs' by (simp add: m1_def Let_def)
    next
      case nosub: False
      have st: "only_writes W a n m (store m1 (pData iter) bs)" if "length bs = unat (data_size ?f)" for bs
        by (rule only_writes_trans [OF w1]) (rule only_writes_store, use room that in simp_all)
      show ?thesis using sf False atype nosub htype st
        by (auto simp: writes_inside_def m1_def static_field_def Let_def split: pb_ptr.splits)
    qed
  qed
qed

lemma pointer_default_inside:
  assumes "pointer_field a n iter"
  shows "writes_inside W a n m (pb_field_set_to_default env (Suc d) iter m)"
proof -
  have w: "only_writes W a n m (store_ptr m (pData iter) 0)"
    unfolding store_ptr_def by (rule only_writes_store) (use assms in \<open>simp_all add: pointer_field_def Let_def\<close>)
  have "only_writes W a n m (store_u32 (store_ptr m (pData iter) 0) (pSize iter) 0)"
    if "PB_HTYPE (field_type (cur iter)) = PB_HTYPE_REPEATED \<or> PB_HTYPE (field_type (cur iter)) = PB_HTYPE_ONEOF"
    unfolding store_u32_def by (rule only_writes_trans [OF w]) (rule only_writes_store, use assms that in \<open>auto simp: pointer_field_def Let_def\<close>)
  then show ?thesis using w assms
    by (auto simp: writes_inside_def pointer_field_def Let_def)
qed

lemma callback_default_inside:
  "callback_field a n iter \<Longrightarrow> writes_inside W a n m (pb_field_set_to_default env (Suc d) iter m)"
  by (simp add: writes_inside_def callback_field_def Let_def)

lemma set_to_defaults_inside:
  "sound cb d n fs \<Longrightarrow> writes_inside W a n m (pb_message_set_to_defaults env d fs a m)"
proof (induction d arbitrary: n fs a m)
  case (Suc d)
  show ?case unfolding pb_message_set_to_defaults_def
  proof (rule each_field_inside)
    fix iter m assume "iter \<in> set (iters fs a)"
    then have "sound_field cb (sound cb d) a n iter" by (rule sound_iters [OF Suc.prems])
    then show "writes_inside W a n m (pb_field_set_to_default env (Suc d) iter m)"
      using static_default_inside [OF _ Suc.IH] pointer_default_inside callback_default_inside
      by (auto simp only: sound_field_def)
  qed
qed simp


subsection \<open>Submessages and arrays\<close>

definition decoder_stays :: "addr set \<Rightarrow> 's message_decoder \<Rightarrow> nat \<Rightarrow> pb_field list \<Rightarrow> bool" where
  "decoder_stays W dec n fs \<longleftrightarrow> (\<forall>a s m. source_ok s \<longrightarrow> stays W a n s m (dec fs a s m))"

lemma close_after:
  assumes mk: "pb_make_string_substream s = (Some sub, s1)" and src: "source_ok s" and dr: "drains sub sub'"
    and close: "pb_close_string_substream s1 sub' = (r, s2)"
  shows "drains s s2" "bytes_left s2 < bytes_left s"
proof -
  have "source_ok sub'" using pb_make_string_substream_drains(2) [OF mk] src dr by (simp add: drains_def)
  then have "drains s1 s2" using pb_close_string_substream_drains [OF close] by simp
  from consumes_then [OF pb_make_string_substream_drains(1) [OF mk] this, of "Some ()"]
  show "drains s s2" "bytes_left s2 < bytes_left s" by simp_all
qed

lemma pb_dec_submessage_eats:
  assumes src: "source_ok s" and fs: "field_ptr field = Submsg fs"
    and dec: "decoder_stays W dec_init (unat (data_size field)) fs" "decoder_stays W dec_noinit (unat (data_size field)) fs"
  shows "eats W dest (unat (data_size field)) s m (pb_dec_submessage dec_init dec_noinit field dest s m)"
proof (cases "pb_make_string_substream s")
  case (Pair r s1)
  show ?thesis
  proof (cases r)
    case None
    then show ?thesis using pb_make_string_substream_drains(1) [OF Pair] Pair
      by (simp add: pb_dec_submessage_def eats_False)
  next
    case (Some sub)
    note mk = Pair [unfolded Some]
    have "source_ok sub" using pb_make_string_substream_drains(2) [OF mk] src by (simp add: drains_def)
    then have "stays W dest (unat (data_size field)) sub m
        (if PB_HTYPE (field_type field) = PB_HTYPE_REPEATED then dec_init fs dest sub m else dec_noinit fs dest sub m)"
      using dec by (simp add: decoder_stays_def)
    then obtain status sub' m' where run:
      "(if PB_HTYPE (field_type field) = PB_HTYPE_REPEATED then dec_init fs dest sub m else dec_noinit fs dest sub m) =
         Some (status, sub', m')"
      "only_writes W dest (unat (data_size field)) m m'" "drains sub sub'"
      by (rule staysE)
    obtain r2 s2 where cl: "pb_close_string_substream s1 sub' = (r2, s2)" by (cases "pb_close_string_substream s1 sub'")
    have "pb_dec_submessage dec_init dec_noinit field dest s m = Some (r2 \<noteq> None \<and> status, s2, m')"
      by (simp only: pb_dec_submessage_def mk fs prod.case option.case pb_ptr.case run(1)) (simp add: cl split: option.splits)
    then show ?thesis using close_after [OF mk src run(3) cl] run(2) by (simp add: eats_def)
  qed
qed

lemma decoder_eats:
  assumes src: "source_ok s" and lt: "PB_LTYPE (field_type field) < 10" "PB_LTYPE (field_type field) \<noteq> PB_LTYPE_EXTENSION"
    and fixed: "PB_LTYPE (field_type field) = PB_LTYPE_FIXED32 \<Longrightarrow> 4 \<le> data_size field"
      "PB_LTYPE (field_type field) = PB_LTYPE_FIXED64 \<Longrightarrow> 8 \<le> data_size field"
    and sub: "PB_LTYPE (field_type field) = PB_LTYPE_SUBMESSAGE \<Longrightarrow>
      \<exists>fs. field_ptr field = Submsg fs \<and> decoder_stays W dec_init (unat (data_size field)) fs \<and>
        decoder_stays W dec_noinit (unat (data_size field)) fs"
  shows "eats W dest (unat (data_size field)) s m
    (PB_DECODERS dec_init dec_noinit (PB_LTYPE (field_type field)) field dest s m)"
  using pb_dec_submessage_eats [OF src] sub fixed
  by (cases rule: ltype_cases [OF lt])
    (auto simp: PB_DECODERS_def pb_dec_varint_eats pb_dec_uvarint_eats pb_dec_svarint_eats pb_dec_fixed32_eats
      pb_dec_fixed64_eats pb_dec_bytes_eats [OF src] pb_dec_string_eats [OF src] pb_dec_fixed_length_bytes_eats [OF src])

text \<open>An item below \<open>array_size\<close> lies in the array, also when its 32-bit offset wraps.\<close>

lemma item_inside:
  assumes "i < array_size f" "a \<le> p" "p + uint (data_size f) * uint (array_size f) \<le> a + int n"
  shows "a \<le> p + uint (data_size f * i)" "p + uint (data_size f * i) + int (unat (data_size f)) \<le> a + int n"
proof -
  have "uint (data_size f * i) \<le> uint (data_size f) * uint i"
    by (simp add: uint_word_ariths zmod_le_nonneg_dividend)
  also have "\<dots> \<le> uint (data_size f) * (uint (array_size f) - 1)"
    using assms(1) by (intro mult_left_mono) (simp_all add: word_less_alt)
  finally have "uint (data_size f * i) + uint (data_size f) \<le> uint (data_size f) * uint (array_size f)"
    by (simp add: algebra_simps)
  then show "a \<le> p + uint (data_size f * i)" "p + uint (data_size f * i) + int (unat (data_size f)) \<le> a + int n"
    using assms(2,3) uint_ge_0 [of "data_size f * i"] by (linarith, simp)
qed

lemma packed_loop_stays:
  assumes func: "\<And>i s m. i < array_size (cur iter) \<Longrightarrow> source_ok s \<Longrightarrow>
      eats W a n s m (func (cur iter) (pData iter + uint (data_size (cur iter) * i)) s m)"
    and size: "a \<le> pSize iter" "pSize iter + 4 \<le> a + int n"
    and src: "source_ok sub"
  shows "stays W a n sub m (packed_loop func iter sub m)"
  using src
proof (induction "unat (bytes_left sub)" arbitrary: sub m rule: less_induct)
  case less
  let ?i = "load_u32 m (pSize iter)"
  show ?case
  proof (cases "bytes_left sub > 0 \<and> ?i < array_size (cur iter)")
    case False
    then have "packed_loop func iter sub m = Some (True, sub, m)" by (subst packed_loop.simps) (auto simp: Let_def)
    then show ?thesis by (simp add: stays_def)
  next
    case True
    then have "eats W a n sub m (func (cur iter) (pData iter + uint (data_size (cur iter) * ?i)) sub m)"
      using func less.prems by blast
    then obtain ok sub' m' where run: "func (cur iter) (pData iter + uint (data_size (cur iter) * ?i)) sub m = Some (ok, sub', m')"
      "only_writes W a n m m'" "drains sub sub'" "ok \<longrightarrow> bytes_left sub' < bytes_left sub"
      by (rule eatsE)
    let ?m = "store_u32 m' (pSize iter) (load_u32 m' (pSize iter) + 1)"
    have step: "packed_loop func iter sub m = (if ok then packed_loop func iter sub' ?m else Some (False, sub', m'))"
      using True by (subst packed_loop.simps) (simp add: run(1) Let_def)
    have w: "only_writes W a n m ?m"
      unfolding store_u32_def by (rule only_writes_trans [OF run(2)]) (rule only_writes_store, use size in simp_all)
    show ?thesis
    proof (cases ok)
      case False
      then show ?thesis using run by (simp add: step stays_def)
    next
      case ok: True
      have "stays W a n sub' ?m (packed_loop func iter sub' ?m)"
        by (rule less.hyps) (use run ok less.prems in \<open>auto simp: word_less_nat_alt drains_def\<close>)
      then show ?thesis using ok w run(3)
        by (auto simp: step stays_def intro: only_writes_trans drains_trans split: option.splits)
    qed
  qed
qed

lemma decode_static_field_eats:
  assumes sf: "static_field sub a n iter" and src: "source_ok s"
    and dec: "\<And>k fs. sub k fs \<Longrightarrow> decoder_stays W dec_init k fs \<and> decoder_stays W dec_noinit k fs"
    and def: "\<And>k fs p m. sub k fs \<Longrightarrow> writes_inside W p k m (set_defaults fs p m)"
  shows "eats W a n s m (decode_static_field dec_init dec_noinit set_defaults wt iter s m)"
proof -
  let ?f = "cur iter" and ?t = "field_type (cur iter)"
  let ?func = "PB_DECODERS dec_init dec_noinit (PB_LTYPE ?t)"
  have lt: "PB_LTYPE ?t < 10" "PB_LTYPE ?t \<noteq> PB_LTYPE_EXTENSION" "\<not> 10 \<le> PB_LTYPE ?t"
    using sf by (auto simp: static_field_def Let_def not_le)
  have base: "a \<le> pData iter" "pData iter + field_room ?f \<le> a + int n"
    using sf by (auto simp: static_field_def Let_def)
  have func: "eats W dest (unat (data_size ?f)) s m (?func ?f dest s m)" if "source_ok s" for dest s m
    by (rule decoder_eats [OF that lt(1,2)])
      (use sf dec in \<open>auto simp: static_field_def Let_def split: pb_ptr.splits\<close>)
  show ?thesis
  proof (cases rule: htype_cases [of ?t])
    case 1
    then have "pData iter + int (unat (data_size ?f)) \<le> a + int n" using base by (simp add: field_room_def)
    from eats_mono [OF func [OF src] base(1) this] show ?thesis using 1 lt by (simp add: decode_static_field_def Let_def)
  next
    case 2
    define m1 where "m1 = (if pSize iter \<noteq> pData iter then store m (pSize iter) [1] else m)"
    have w1: "only_writes W a n m m1"
      using sf 2 by (auto simp: m1_def static_field_def Let_def intro!: only_writes_store)
    have "pData iter + int (unat (data_size ?f)) \<le> a + int n" using base 2 by (simp add: field_room_def)
    from eats_before [OF w1 eats_mono [OF func [OF src] base(1) this]] show ?thesis
      using 2 lt by (simp add: decode_static_field_def Let_def m1_def)
  next
    case 3
    then have size: "a \<le> pSize iter" "pSize iter + 4 \<le> a + int n" using sf by (auto simp: static_field_def Let_def)
    have item: "eats W a n s m (?func ?f (pData iter + uint (data_size ?f * i)) s m)"
      if "i < array_size ?f" "source_ok s" for i s m
      by (rule eats_mono [OF func [OF that(2)] item_inside [OF that(1)]]) (use base 3 in \<open>simp_all add: field_room_def\<close>)
    have w: "only_writes W a n m (store_u32 m (pSize iter) v)" for m v
      unfolding store_u32_def by (rule only_writes_store) (use size in simp_all)
    show ?thesis
    proof (cases "wt = PB_WT_STRING \<and> PB_LTYPE ?t \<le> PB_LTYPE_LAST_PACKABLE")
      case False
      have "eats W a n s m (?func ?f (pData iter + uint (data_size ?f * load_u32 m (pSize iter))) s
          (store_u32 m (pSize iter) (load_u32 m (pSize iter) + 1)))"
        if "load_u32 m (pSize iter) < array_size ?f"
        by (rule eats_before [OF w item [OF that src]])
      with False show ?thesis using 3 lt
        by (auto simp: decode_static_field_def Let_def not_le intro: eats_False)
    next
      case packed: True
      show ?thesis
      proof (cases "pb_make_string_substream s")
        case (Pair r s1)
        show ?thesis
        proof (cases r)
          case None
          then show ?thesis using 3 lt packed pb_make_string_substream_drains(1) [OF Pair] Pair
            by (simp add: decode_static_field_def Let_def eats_False)
        next
          case (Some sb)
          note mk = Pair [unfolded Some]
          have "source_ok sb" using pb_make_string_substream_drains(2) [OF mk] src by (simp add: drains_def)
          then have "stays W a n sb m (packed_loop ?func iter sb m)"
            by (intro packed_loop_stays [where func = ?func]) (use item size in auto)
          then obtain status sub' m' where
            run: "packed_loop ?func iter sb m = Some (status, sub', m')" "only_writes W a n m m'" "drains sb sub'"
            by (rule staysE)
          obtain r2 s2 where cl: "pb_close_string_substream s1 sub' = (r2, s2)" by (cases "pb_close_string_substream s1 sub'")
          note ca = close_after [OF mk src run(3) cl]
          have d1: "drains s s1" using pb_make_string_substream_drains(1) [OF mk] by simp
          have eq: "decode_static_field dec_init dec_noinit set_defaults wt iter s m =
              (if bytes_left sub' \<noteq> 0 then Some (False, in_error s1 ''array overflow'', m')
               else Some (r2 \<noteq> None \<and> status, s2, m'))"
            using 3 lt packed by (simp add: decode_static_field_def Let_def mk run(1) cl split: option.splits)
          then show ?thesis using ca d1 run(2) by (simp add: eats_def)
        qed
      qed
    qed
  next
    case 4
    then have size: "a \<le> pSize iter" "pSize iter + 4 \<le> a + int n" using sf by (auto simp: static_field_def Let_def)
    have w: "only_writes W a n m (store_u32 m (pSize iter) v)" for m v
      unfolding store_u32_def by (rule only_writes_store) (use size in simp_all)
    have room: "pData iter + int (unat (data_size ?f)) \<le> a + int n" using base 4 by (simp add: field_room_def)
    let ?m1 = "store_u32 m (pSize iter) (field_tag ?f)"
    show ?thesis
    proof (cases "PB_LTYPE ?t = PB_LTYPE_SUBMESSAGE")
      case False
      from eats_before [OF w eats_mono [OF func [OF src] base(1) room]] show ?thesis
        using 4 lt False by (simp add: decode_static_field_def Let_def)
    next
      case True
      then obtain fs where fs: "field_ptr ?f = Submsg fs" "sub (unat (data_size ?f)) fs"
        using sf by (auto simp: static_field_def Let_def split: pb_ptr.splits)
      let ?m2 = "store ?m1 (pData iter) (replicate (unat (data_size ?f)) 0)"
      have w2: "only_writes W a n m ?m2"
        by (rule only_writes_trans [OF w]) (rule only_writes_store, use base room in simp_all)
      from def [OF fs(2), of "pData iter" ?m2] obtain m3 where m3: "set_defaults fs (pData iter) ?m2 = Some m3"
        "only_writes W (pData iter) (unat (data_size ?f)) ?m2 m3"
        by (auto simp: writes_inside_def split: option.splits)
      have w3: "only_writes W a n m m3" by (rule only_writes_trans [OF w2 only_writes_mono [OF m3(2) base(1) room]])
      from eats_before [OF w3 eats_mono [OF func [OF src] base(1) room]] show ?thesis
        using 4 lt True by (simp add: decode_static_field_def Let_def fs(1) m3(1))
    qed
  qed
qed


subsection \<open>Callback fields\<close>

lemma eats_stays: "eats W a n s m r \<Longrightarrow> stays W a n s m r"
  by (auto simp: eats_def stays_def split: option.splits)

lemma raw_varint_drains: "raw_varint k s = (r, s') \<Longrightarrow> drains s s'"
proof (induction k s arbitrary: r s' rule: raw_varint.induct)
  case (2 room s)
  obtain r1 s1 where rd: "pb_read_buf s 1 = (r1, s1)" by (cases "pb_read_buf s 1")
  note d = pb_read_buf_drains(1) [OF rd]
  show ?case
  proof (cases r1)
    case None
    then show ?thesis using 2(2) d by (simp add: rd)
  next
    case (Some bs)
    obtain r2 s2 where nx: "raw_varint room s1 = (r2, s2)" by (cases "raw_varint room s1")
    show ?thesis using 2(1) [OF rd [symmetric] Some _ nx] 2(2) d nx
      by (cases "hd bs AND 0x80 \<noteq> 0") (auto simp: rd Some intro: drains_trans)
  qed
qed simp

lemma read_raw_value_drains: "read_raw_value s wt k = (r, s') \<Longrightarrow> drains s s'"
  by (auto simp: read_raw_value_def split: if_splits dest: raw_varint_drains pb_read_buf_drains(1))

lemma callback_loop_stays:
  assumes cb: "callbacks_ok env W" and src: "source_ok sub"
  shows "stays W arg 8 sub m (callback_loop env f field arg sub m)"
  using src
proof (induction "unat (bytes_left sub)" arbitrary: sub m rule: less_induct)
  case less
  obtain ok s1 m1 where run: "dec_callback env f sub field arg m = (ok, s1, m1)" by (metis prod_cases3)
  then have post: "only_writes W arg 8 m m1" "drains sub s1" "ok \<and> 0 < bytes_left sub \<longrightarrow> bytes_left s1 < bytes_left sub"
    using cb less.prems unfolding callbacks_ok_def by blast+
  show ?case
  proof (cases "ok \<and> bytes_left s1 \<noteq> 0")
    case False
    then show ?thesis using post by (subst callback_loop.simps) (auto simp: run stays_def)
  next
    case True
    then have "0 < bytes_left sub" using post(2) by (cases "bytes_left sub = 0") (auto simp: drains_def word_neq_0_conv)
    then have "unat (bytes_left s1) < unat (bytes_left sub)" "source_ok s1"
      using post True less.prems by (auto simp: word_less_nat_alt drains_def)
    from less.hyps [OF this, of m1] have "stays W arg 8 s1 m1 (callback_loop env f field arg s1 m1)" .
    moreover have "callback_loop env f field arg sub m = callback_loop env f field arg s1 m1"
      using True by (subst callback_loop.simps) (simp add: run)
    ultimately show ?thesis using post(1,2)
      by (auto simp: stays_def intro: only_writes_trans drains_trans split: option.splits)
  qed
qed

lemma decode_callback_field_stays:
  assumes cb: "callbacks_ok env W" and cf: "callback_field a n iter" and src: "source_ok s"
  shows "stays W a n s m (decode_callback_field env wt iter s m)"
proof -
  let ?f = "load_ptr m (pData iter)" and ?arg = "pData iter + 8"
  have arg: "only_writes W a n m m'" if "only_writes W ?arg 8 m m'" for m'
    by (rule only_writes_mono [OF that]) (use cf in \<open>simp_all add: callback_field_def Let_def\<close>)
  consider (skip) "?f = 0" | (string) "?f \<noteq> 0" "wt = PB_WT_STRING" | (raw) "?f \<noteq> 0" "wt \<noteq> PB_WT_STRING" by blast
  then show ?thesis
  proof cases
    case skip
    obtain r s1 where "pb_skip_field s wt = (r, s1)" by (cases "pb_skip_field s wt")
    then show ?thesis using skip pb_skip_field_drains by (auto simp: decode_callback_field_def stays_def Let_def)
  next
    case string
    obtain r s1 where mk: "pb_make_string_substream s = (r, s1)" by (cases "pb_make_string_substream s")
    note c = pb_make_string_substream_drains(1) [OF mk]
    show ?thesis
    proof (cases r)
      case None
      then show ?thesis using string mk c by (auto simp: decode_callback_field_def stays_def Let_def)
    next
      case (Some sub)
      have "source_ok sub" using pb_make_string_substream_drains(2) [OF mk [unfolded Some]] src by (simp add: drains_def)
      then obtain ok sub' m' where run: "callback_loop env ?f (cur iter) ?arg sub m = Some (ok, sub', m')"
        "only_writes W ?arg 8 m m'" "drains sub sub'"
        by (rule staysE [OF callback_loop_stays [OF cb]])
      obtain r2 s2 where cl: "pb_close_string_substream s1 sub' = (r2, s2)" by (cases "pb_close_string_substream s1 sub'")
      have "decode_callback_field env wt iter s m =
          Some (if ok then (r2 \<noteq> None, s2, m') else (False, in_error s1 ''callback failed'', m'))"
        using string by (simp add: decode_callback_field_def Let_def mk Some run(1) cl split: option.splits)
      then show ?thesis using arg [OF run(2)] close_after(1) [OF mk [unfolded Some] src run(3) cl] c
        by (cases ok) (auto simp: stays_def)
    qed
  next
    case raw
    obtain r s1 where rd: "read_raw_value s wt 10 = (r, s1)" by (cases "read_raw_value s wt 10")
    note d = read_raw_value_drains [OF rd]
    show ?thesis
    proof (cases r)
      case None
      then show ?thesis using raw rd d by (auto simp: decode_callback_field_def stays_def Let_def)
    next
      case (Some buffer)
      let ?b = "pb_istream_from_buffer buffer (of_nat (length buffer)) :: 'a pb_istream"
      obtain ok b' m' where run: "dec_callback env ?f ?b (cur iter) ?arg m = (ok, b', m')" by (metis prod_cases3)
      have "source_ok ?b" by (simp add: source_ok_def pb_istream_from_buffer_def)
      then have "only_writes W ?arg 8 m m'" using cb run unfolding callbacks_ok_def by blast
      then show ?thesis using raw rd Some run d arg by (auto simp: decode_callback_field_def stays_def Let_def)
    qed
  qed
qed

subsection \<open>Messages\<close>

text \<open>
  The iterator of the decoder is always at a field of the message, or at the terminator of an
  empty one, which \<open>pb_field_iter_find\<close> reports as found for the tag 0.
\<close>

definition at_field :: "pb_field list \<Rightarrow> addr \<Rightarrow> pb_field_iter \<Rightarrow> bool" where
  "at_field fs a iter \<longleftrightarrow> iter \<in> set (iters fs a) \<or> fs = [] \<and> iter = snd (pb_field_iter_begin [] a)"

lemma search_at_field:
  assumes "at_field fs a iter"
  obtains found iter' where "iter_search wanted (pos iter) iter = Some (found, iter')" "at_field fs a iter'"
    "found \<longrightarrow> wanted (cur iter')"
proof (cases "iter \<in> set (iters fs a)")
  case True
  then obtain i where i: "i < length (iters fs a)" "iter = iters fs a ! i" by (auto simp: in_set_conv_nth)
  then have "pos iter = i" using iters_nth(1) by simp
  then have "\<exists>found j. iter_search wanted (pos iter) iter = Some (found, iters fs a ! j) \<and>
      j < length (iters fs a) \<and> (found \<longrightarrow> wanted (cur (iters fs a ! j)))"
    using iter_search_returns [OF i(1) i(1)] i(2) by simp
  then show thesis using that by (auto simp: at_field_def)
next
  case False
  then have e: "fs = []" "iter = snd (pb_field_iter_begin [] a)" using assms by (auto simp: at_field_def)
  have "pb_field_iter_next iter = (False, iter)" "pos iter = 0"
    by (simp_all add: e pb_field_iter_begin_def pb_field_iter_next_def field_at_def PB_LAST_FIELD_def Let_def)
  then have "iter_search wanted (pos iter) iter = Some (wanted (cur iter), iter)"
    by (subst iter_search.simps) simp
  then show thesis using that assms by blast
qed

lemma terminator_eats:
  assumes "iter = snd (pb_field_iter_begin [] a)"
  shows "eats W a n s m (decode_field env dec_init dec_noinit set_defaults wt iter s m)"
proof -
  have cur: "cur iter = PB_LAST_FIELD" by (simp add: assms pb_field_iter_begin_def field_at_def Let_def)
  have "eats W a 0 s m (pb_dec_varint PB_LAST_FIELD (pData iter) s m)"
    using pb_dec_varint_eats [of _ a PB_LAST_FIELD s m]
    by (simp add: assms pb_field_iter_begin_def field_at_def PB_LAST_FIELD_def Let_def)
  then have "eats W a n s m (pb_dec_varint PB_LAST_FIELD (pData iter) s m)" by (rule eats_mono) simp_all
  then show ?thesis
    by (simp add: decode_field_def decode_static_field_def cur PB_LAST_FIELD_def PB_ATYPE_def PB_HTYPE_def
        PB_LTYPE_def PB_DECODERS_def)
qed

lemma decode_fields_loop_inside:
  assumes field: "\<And>wt iter s m. at_field fs a iter \<Longrightarrow> PB_LTYPE (field_type (cur iter)) \<noteq> PB_LTYPE_EXTENSION \<Longrightarrow>
      source_ok s \<Longrightarrow> stays W a n s m (dec_f wt iter s m)"
    and noext: "\<And>iter. at_field fs a iter \<Longrightarrow> PB_LTYPE (field_type (cur iter)) \<noteq> PB_LTYPE_EXTENSION"
    and "at_field fs a iter" "source_ok s"
  shows "\<exists>r s' m'. decode_fields_loop env dec_f seen ext_start iter s m = Some (r, s', m') \<and> only_writes W a n m m' \<and> drains s s' \<and>
      (\<forall>iter' seen'. r = Some (iter', seen') \<longrightarrow> at_field fs a iter' \<and> length seen' = length seen)"
  using assms(3,4)
proof (induction "unat (bytes_left s)" arbitrary: s m seen ext_start iter rule: less_induct)
  case less
  show ?case
  proof (cases "bytes_left s = 0")
    case True
    then show ?thesis using less.prems by (subst decode_fields_loop.simps) simp
  next
    case False
    obtain tg eof s1 where tg: "pb_decode_tag s = (tg, eof, s1)" by (cases "pb_decode_tag s")
    note c = pb_decode_tag_consumes [OF tg]
    show ?thesis
    proof (cases tg)
      case None
      then show ?thesis using False less.prems c by (subst decode_fields_loop.simps) (simp add: tg)
    next
      case (Some p)
      obtain wt tag where p: "p = (wt, tag)" by (cases p)
      have lt: "bytes_left s1 < bytes_left s" and d1: "drains s s1" and ok1: "source_ok s1"
        using c Some less.prems(2) by (auto simp: drains_def)
      have again: "\<exists>r s' m'. decode_fields_loop env dec_f seen2 e2 iter2 s2 m2 = Some (r, s', m') \<and> only_writes W a n m m' \<and> drains s s' \<and>
          (\<forall>iter' seen'. r = Some (iter', seen') \<longrightarrow> at_field fs a iter' \<and> length seen' = length seen)"
        if "at_field fs a iter2" "drains s1 s2" "only_writes W a n m m2" "length seen2 = length seen" for seen2 e2 iter2 s2 m2
      proof -
        have s2: "unat (bytes_left s2) < unat (bytes_left s)" "source_ok s2" "drains s s2"
          using that(2) lt d1 ok1 by (auto simp: drains_def word_less_nat_alt word_le_nat_alt)
        from less.hyps [OF s2(1) that(1) s2(2), of seen2 e2 m2] show ?thesis
          using that(3,4) s2(3) by (auto intro: only_writes_trans drains_trans)
      qed
      obtain found iter1 where find: "pb_field_iter_find iter tag = Some (found, iter1)" "at_field fs a iter1"
        unfolding pb_field_iter_find_def by (rule search_at_field [OF less.prems(1)])
      show ?thesis
      proof (cases found)
        case True
        define seen1 where "seen1 = (if PB_HTYPE (field_type (cur iter1)) = PB_HTYPE_REQUIRED \<and> required_field_index iter1 < 64
          then seen[unat (drop_bit 5 (required_field_index iter1)) := seen ! unat (drop_bit 5 (required_field_index iter1)) OR
             push_bit (unat (required_field_index iter1 AND 31)) 1] else seen)"
        obtain ok s2 m2 where run: "dec_f wt iter1 s1 m = Some (ok, s2, m2)" "only_writes W a n m m2" "drains s1 s2"
          by (rule staysE [OF field [OF find(2) noext [OF find(2)] ok1]])
        have step: "decode_fields_loop env dec_f seen ext_start iter s m =
            (if ok then decode_fields_loop env dec_f seen1 ext_start iter1 s2 m2 else Some (None, s2, m2))"
          using False by (subst decode_fields_loop.simps) (simp add: tg Some p find(1) True run(1) seen1_def Let_def)
        have len: "length seen1 = length seen" by (simp add: seen1_def)
        show ?thesis
        proof (cases ok)
          case True
          then show ?thesis using again [OF find(2) run(3,2) len, of ext_start] by (simp only: step if_True)
        next
          case False
          then show ?thesis using run(2) drains_trans [OF d1 run(3)] by (simp add: step)
        qed
      next
        case notfound: False
        obtain found2 iter2 where ext: "find_extension_field iter1 = Some (found2, iter2)" "at_field fs a iter2"
            "found2 \<longrightarrow> PB_LTYPE (field_type (cur iter2)) = PB_LTYPE_EXTENSION"
          unfolding find_extension_field_def by (rule search_at_field [OF find(2)])
        then have nofound2: "\<not> found2" using noext by blast
        obtain sk s2 where sk: "pb_skip_field s1 wt = (sk, s2)" by (cases "pb_skip_field s1 wt")
        have dsk: "drains s1 s2" by (rule pb_skip_field_drains [OF sk])
        have tag: "tag < - 1" using pb_decode_tag_small [OF tg [unfolded Some p]] .
        then have small: "\<not> - 1 \<le> tag" by (simp add: not_le)
        have "decode_fields_loop env dec_f seen ext_start iter s m =
            (if sk = None then Some (None, s2, m)
             else decode_fields_loop env dec_f seen (if tag \<ge> ext_start then - 1 else ext_start)
                    (if tag \<ge> ext_start then iter2 else iter1) s2 m)"
          using False small
          by (subst decode_fields_loop.simps) (simp add: tg Some p find(1) notfound ext(1) nofound2 sk Let_def split: option.splits)
        moreover have "at_field fs a (if tag \<ge> ext_start then iter2 else iter1)" using find(2) ext(2) by simp
        note again [OF this dsk only_writes_refl refl, of "if tag \<ge> ext_start then - 1 else ext_start"]
        ultimately show ?thesis using drains_trans [OF d1 dsk] by (cases "sk = None") simp_all
      qed
    qed
  qed
qed


subsection \<open>Required fields\<close>

lemma iter_end_at_field:
  assumes "at_field fs a iter"
  shows "iter_end iter = iter_end (snd (pb_field_iter_begin fs a))"
proof -
  have seq: "iter_end (iters fs a ! i) = (iters fs a ! (length (iters fs a) - 1), iters fs a ! 0)"
    if "i < length (iters fs a)" for i
    using that
  proof (induction "length (iters fs a) - i" arbitrary: i rule: less_induct)
    case less
    show ?case
    proof (cases "Suc i < length (iters fs a)")
      case True
      then show ?thesis using less.hyps [of "Suc i"] iters_nth(3) [OF less.prems]
        by (subst iter_end.simps) simp
    next
      case False
      then have "i = length (iters fs a) - 1" using less.prems by simp
      then show ?thesis using False iters_nth(3) [OF less.prems] by (subst iter_end.simps) simp
    qed
  qed
  show ?thesis
  proof (cases "iter \<in> set (iters fs a)")
    case True
    then obtain i where i: "i < length (iters fs a)" "iter = iters fs a ! i" by (auto simp: in_set_conv_nth)
    have "snd (pb_field_iter_begin fs a) = iters fs a ! 0"
      using iters_begin(4) [OF True] i(1) by (cases "iters fs a") auto
    then show ?thesis using seq [OF i(1)] seq [of 0] i by (cases "iters fs a") simp_all
  next
    case False
    then show ?thesis using assms by (simp add: at_field_def)
  qed
qed

lemma iter_end_shift: "iter_end (shift a iter) = (case iter_end iter of (x, y) \<Rightarrow> (shift a x, shift a y))"
proof (induction iter rule: iter_end.induct)
  case (1 iter)
  obtain again iter1 where nxt: "pb_field_iter_next iter = (again, iter1)" by (cases "pb_field_iter_next iter")
  show ?case using 1 [OF nxt [symmetric]]
    by (subst (1 2) iter_end.simps) (simp add: pb_field_iter_next_shift nxt)
qed

lemma req_field_count_at_field:
  assumes "at_field fs a iter"
  shows "req_field_count iter = req_field_count (snd (pb_field_iter_begin fs 0))"
proof -
  have "snd (pb_field_iter_begin fs a) = shift a (snd (pb_field_iter_begin fs 0))"
    using pb_field_iter_begin_shift [of fs 0 a] by (simp split: prod.splits)
  then show ?thesis
    by (simp add: req_field_count_def iter_end_at_field [OF assms] iter_end_shift split: prod.splits)
qed

lemma whole_words_defined: "n \<le> length seen \<Longrightarrow> whole_words seen n = Some (list_all (\<lambda>w. w = - 1) (take n seen))"
  by (induction seen n rule: whole_words.induct) auto

lemma check_required_defined:
  assumes "length seen = 2" "r = 0 \<or> r < 64 \<and> r AND 31 \<noteq> 0"
  shows "check_required seen r \<noteq> None"
proof (cases "r = 0")
  case False
  then have "unat r < 64" using assms(2) by (simp add: word_less_nat_alt)
  then have "unat (drop_bit 5 r) < 2" by (simp add: unat_drop_bit less_mult_imp_div_less)
  then have "unat (drop_bit 5 r) \<le> length seen" "\<not> length seen \<le> unat (drop_bit 5 r)" using assms(1) by simp_all
  then show ?thesis using assms(2) False by (auto simp: check_required_def whole_words_defined)
qed (simp add: check_required_def)


section \<open>Decoding is safe\<close>

lemma stays_before: "only_writes W a n m m1 \<Longrightarrow> stays W a n s m1 r \<Longrightarrow> stays W a n s m r"
  by (auto simp: stays_def intro: only_writes_trans split: option.splits)

lemma iters_empty: "iters [] a = []"
  by (simp add: iters_def pb_field_iter_begin_def field_at_def PB_LAST_FIELD_def)

lemma pb_decode_noinit_stays:
  assumes cb: "cb \<Longrightarrow> callbacks_ok env W"
  shows "sound cb d n fs \<Longrightarrow> decoder_stays W (pb_decode_noinit env d) n fs"
proof (induction d arbitrary: n fs)
  case (Suc d)
  let ?init = "\<lambda>fs dest s m. do { m \<leftarrow> pb_message_set_to_defaults env d fs dest m; pb_decode_noinit env d fs dest s m }"
  let ?f = "decode_field env ?init (pb_decode_noinit env d) (pb_message_set_to_defaults env d)"
  have init: "decoder_stays W ?init k gs" if gs: "sound cb d k gs" for k gs
    unfolding decoder_stays_def
  proof (intro allI impI)
    fix a m and s :: "'a pb_istream" assume s: "source_ok s"
    obtain m1 where "pb_message_set_to_defaults env d gs a m = Some m1" "only_writes W a k m m1"
      using set_to_defaults_inside [OF gs, of W a m env] by (auto simp: writes_inside_def split: option.splits)
    then show "stays W a k s m (?init gs a s m)"
      using Suc.IH [OF gs] s by (auto simp: decoder_stays_def intro: stays_before)
  qed
  show ?case unfolding decoder_stays_def
  proof (intro allI impI)
    fix a m and s :: "'a pb_istream" assume s: "source_ok s"
    have noext: "PB_LTYPE (field_type (cur iter)) \<noteq> PB_LTYPE_EXTENSION" if "at_field fs a iter" for iter
    proof (cases "iter \<in> set (iters fs a)")
      case True
      from sound_iters [OF Suc.prems this] show ?thesis
        by (auto simp: sound_field_def static_field_def pointer_field_def callback_field_def Let_def)
    next
      case False
      then show ?thesis using that
        by (simp add: at_field_def pb_field_iter_begin_def field_at_def PB_LAST_FIELD_def PB_LTYPE_def Let_def)
    qed
    have field: "stays W a n s m (?f wt iter s m)" if at: "at_field fs a iter" and ok: "source_ok s" for wt iter m
      and s :: "'a pb_istream"
    proof (cases "iter \<in> set (iters fs a)")
      case True
      from sound_iters [OF Suc.prems this] consider "static_field (sound cb d) a n iter" | "pointer_field a n iter"
        | "cb" "callback_field a n iter" by (auto simp: sound_field_def)
      then show ?thesis
      proof cases
        case 1
        then have "PB_ATYPE (field_type (cur iter)) = PB_ATYPE_STATIC" by (simp add: static_field_def Let_def)
        moreover have "eats W a n s m (decode_static_field ?init (pb_decode_noinit env d)
            (pb_message_set_to_defaults env d) wt iter s m)"
          by (rule decode_static_field_eats [OF 1 ok]) (use init Suc.IH set_to_defaults_inside in blast)+
        ultimately show ?thesis by (simp add: decode_field_def eats_stays)
      next
        case 2
        then show ?thesis
          by (simp add: decode_field_def decode_pointer_field_def pointer_field_def stays_def Let_def
             )
      next
        case 3
        then have "PB_ATYPE (field_type (cur iter)) = PB_ATYPE_CALLBACK" by (simp add: callback_field_def Let_def)
        then show ?thesis using decode_callback_field_stays [OF cb [OF 3(1)] 3(2) ok]
          by (simp add: decode_field_def)
      qed
    next
      case False
      then have "iter = snd (pb_field_iter_begin [] a)" using at by (simp add: at_field_def)
      then show ?thesis by (rule eats_stays [OF terminator_eats])
    qed
    have first: "at_field fs a (snd (pb_field_iter_begin fs a))"
    proof (cases fs)
      case (Cons f gs)
      then have "pb_field_iter_begin fs a = (True, snd (pb_field_iter_begin fs a))"
        using Suc.prems by (simp add: pb_field_iter_begin_def field_at_def Let_def)
      then have "snd (pb_field_iter_begin fs a) \<in> set (iters fs a)"
        by (cases "pb_field_iter_begin fs a") (simp add: iters_def, subst iter_seq.simps, simp)
      then show ?thesis by (simp add: at_field_def)
    qed (simp add: at_field_def)
    obtain r s' m' where loop:
      "decode_fields_loop env ?f [0, 0] 0 (snd (pb_field_iter_begin fs a)) s m = Some (r, s', m')"
      "only_writes W a n m m'" "drains s s'"
      "\<And>iter' seen'. r = Some (iter', seen') \<Longrightarrow> at_field fs a iter' \<and> length seen' = 2"
      using decode_fields_loop_inside [where dec_f = ?f and env = env and seen = "[0, 0]" and ext_start = 0,
          OF field noext first s] by force
    show "stays W a n s m (pb_decode_noinit env (Suc d) fs a s m)"
    proof (cases r)
      case None
      then show ?thesis using loop(2,3) by (simp add: stays_def loop(1))
    next
      case (Some p)
      obtain iter' seen' where p: "p = (iter', seen')" by (cases p)
      have "check_required seen' (req_field_count iter') \<noteq> None"
        using loop(4) [of iter' seen'] Some p Suc.prems
        by (intro check_required_defined) (auto simp: req_field_count_at_field [of fs a iter'] Let_def)
      then obtain complete where "check_required seen' (req_field_count iter') = Some complete" by blast
      then show ?thesis using loop(2,3) by (simp add: stays_def loop(1) Some p)
    qed
  qed
qed simp

text \<open>
  C23. Decoding is safe and returns, whatever the input is: for a descriptor of a structure of
  \<open>n\<close> bytes with static, pointer and callback fields, and a buffer or a callback that never delivers more than it is asked for,
  \<open>pb_decode\<close> ends (no case of undefined behaviour of the model is reached and the nesting
  bound is enough), it has written to the \<open>n\<close> bytes of the structure only, and the stream has
  no more bytes left than before. If there are callback fields, their callbacks keep the contract of
  \<open>pb.h\<close>, and may write to their own memory \<open>W\<close> as well. Extension fields are not
  covered, nor are descriptors with 32 or with 64 and more required fields, for which \<open>check_required\<close> is undefined.
\<close>

theorem pb_decode_safe:
  assumes "sound cb d n fs" "source_ok s" "cb \<longrightarrow> callbacks_ok env W"
  shows "\<exists>ok s' m'. pb_decode env d fs a s m = Some (ok, s', m') \<and> only_writes (if cb then W else {}) a n m m' \<and>
    bytes_left s' \<le> bytes_left s"
proof -
  let ?W = "if cb then W else {}"
  have cb: "cb \<Longrightarrow> callbacks_ok env ?W" using assms(3) by simp
  obtain m1 where m1: "pb_message_set_to_defaults env d fs a m = Some m1" "only_writes ?W a n m m1"
    using set_to_defaults_inside [OF assms(1), of ?W a m env] by (auto simp: writes_inside_def split: option.splits)
  have "stays ?W a n s m1 (pb_decode_noinit env d fs a s m1)"
    using pb_decode_noinit_stays [OF cb assms(1)] assms(2) by (simp add: decoder_stays_def)
  then show ?thesis
    by (rule staysE) (use m1 in \<open>auto simp: pb_decode_def drains_def intro: only_writes_trans\<close>)
qed

text \<open>
  The descriptors of \<open>load_balancer.pb.c\<close> with which gRPC decodes the answers of a load balancer
  (\<open>load_balancer_api.cc\<close>), with the offsets and sizes of the 64-bit target. The list of servers is a
  callback field.
\<close>

definition grpc_lb_v1_Duration_fields :: "pb_field list" where
  "grpc_lb_v1_Duration_fields =
     [Pb_field 1 0x10 8 (- 8) 8 0 Null,
      Pb_field 2 0x10 4 (- 4) 4 0 Null]"

definition grpc_lb_v1_InitialLoadBalanceResponse_fields :: "pb_field list" where
  "grpc_lb_v1_InitialLoadBalanceResponse_fields =
     [Pb_field 1 0x16 1 (- 1) 64 0 Null,
      Pb_field 2 0x17 7 (- 7) 24 0 (Submsg grpc_lb_v1_Duration_fields)]"

definition grpc_lb_v1_Server_fields :: "pb_field list" where
  "grpc_lb_v1_Server_fields =
     [Pb_field 1 0x15 4 (- 4) 20 0 Null,
      Pb_field 2 0x10 4 (- 4) 4 0 Null,
      Pb_field 3 0x16 1 (- 1) 50 0 Null,
      Pb_field 4 0x10 1 (- 1) 1 0 Null]"

definition grpc_lb_v1_ServerList_fields :: "pb_field list" where
  "grpc_lb_v1_ServerList_fields = [Pb_field 1 0x67 0 0 16 0 (Submsg grpc_lb_v1_Server_fields)]"

definition grpc_lb_v1_LoadBalanceResponse_fields :: "pb_field list" where
  "grpc_lb_v1_LoadBalanceResponse_fields =
     [Pb_field 1 0x17 8 (- 8) 96 0 (Submsg grpc_lb_v1_InitialLoadBalanceResponse_fields),
      Pb_field 2 0x17 8 (- 8) 16 0 (Submsg grpc_lb_v1_ServerList_fields)]"

lemma load_balancer_sound:
  "sound True 3 128 grpc_lb_v1_LoadBalanceResponse_fields" "sound False 1 88 grpc_lb_v1_Server_fields"
  by code_simp+

text \<open>A callback that reads all of its stream and stores a byte.\<close>

definition demo_callbacks :: "nat pb_in_env" where
  "demo_callbacks =
     \<lparr>dec_callback = (\<lambda>f s field arg m. case pb_read_buf s (bytes_left s) of (r, s') \<Rightarrow> (r \<noteq> None, s', store m 5000 [1])),
      dec_extension = (\<lambda>f s ext tag wt m. (False, s, m)), dec_ext_field = (\<lambda>_. PB_LAST_FIELD)\<rparr>"

lemma demo_callbacks_ok: "callbacks_ok demo_callbacks {5000}"
  unfolding callbacks_ok_def
proof (intro allI impI)
  fix f field arg m ok s' m' and s :: "nat pb_istream"
  assume s: "source_ok s" and run: "dec_callback demo_callbacks f s field arg m = (ok, s', m')"
  obtain r s1 where rd: "pb_read_buf s (bytes_left s) = (r, s1)" by (cases "pb_read_buf s (bytes_left s)")
  then have eq: "ok = (r \<noteq> None)" "s' = s1" "m' = store m 5000 [1]" using run by (simp_all add: demo_callbacks_def)
  have "only_writes {5000} arg 8 m m'" by (auto simp: eq only_writes_def store_def)
  moreover have "bytes_left s1 < bytes_left s" if "ok" "0 < bytes_left s"
    using pb_read_buf_drains(2) [OF rd] that eq by auto
  ultimately show "only_writes {5000} arg 8 m m' \<and> drains s s' \<and> (ok \<and> 0 < bytes_left s \<longrightarrow> bytes_left s' < bytes_left s)"
    using pb_read_buf_drains(1) [OF rd] eq by blast
qed

text \<open>
  A message with a required varint, a packed repeated varint of two items, an optional string of
  four bytes with its \<open>has_\<close> flag and a repeated submessage, and an answer of a load balancer with one server.
\<close>

definition demo_message :: "pb_field list" where
  "demo_message =
     [Pb_field 1 0x00 0 0 4 0 Null,
      Pb_field 2 0x20 4 (- 4) 4 2 Null,
      Pb_field 3 0x16 1 (- 1) 4 0 Null,
      Pb_field 4 0x27 3 (- 4) 4 2 (Submsg [Pb_field 1 0x03 0 0 4 0 Null])]"

theorem pb_decode_safe_witness:
  "(\<forall>(env :: nat pb_in_env) m. \<exists>ok s' m'.
      pb_decode env 2 demo_message 1000 (pb_istream_from_buffer [0x08, 0x96, 0x01, 0x22, 0x7f] 5) m = Some (ok, s', m') \<and>
      only_writes {} 1000 32 m m' \<and> bytes_left s' \<le> 5) \<and>
   (\<forall>m. \<exists>ok s' m'.
      pb_decode demo_callbacks 3 grpc_lb_v1_LoadBalanceResponse_fields 1000
        (pb_istream_from_buffer [0x12, 0x04, 0x0a, 0x02, 0x10, 0x50] 6) m = Some (ok, s', m') \<and>
      only_writes {5000} 1000 128 m m' \<and> bytes_left s' \<le> 6)"
proof -
  have sound: "sound False 2 32 demo_message" by code_simp
  have "source_ok (pb_istream_from_buffer xs k :: nat pb_istream)" for xs k
    by (simp add: source_ok_def pb_istream_from_buffer_def)
  from pb_decode_safe [OF sound this] pb_decode_safe [OF load_balancer_sound(1) this, of demo_callbacks "{5000}"]
  show ?thesis using demo_callbacks_ok by (simp add: pb_istream_from_buffer_def del: sound.simps)
qed

section \<open>Missing required fields\<close>

definition field_seen :: "u32 list \<Rightarrow> nat \<Rightarrow> bool" where
  "field_seen seen i = bit (seen ! (i div 32)) (i mod 32)"

lemma u32_ones_iff: "(w :: u32) = - 1 \<longleftrightarrow> (\<forall>i<32. bit w i)"
  by (simp add: bit_eq_iff)

lemma u32_low_ones_iff:
  assumes "k < 32"
  shows "(w :: u32) = drop_bit (32 - k) (- 1) \<longleftrightarrow> (\<forall>i<32. bit w i \<longleftrightarrow> i < k)"
    "(w :: u32) = mask k \<longleftrightarrow> (\<forall>i<32. bit w i \<longleftrightarrow> i < k)"
  using assms by (auto simp: bit_eq_iff bit_mask_iff)

lemma unat_and_31: "unat (r AND 31 :: u32) = unat r mod 32"
proof -
  have "(31 :: u32) = mask 5" by code_simp
  then have "r AND 31 = take_bit 5 r" by (simp only: take_bit_eq_mask)
  then have "unat (r AND 31) = take_bit 5 (unat r)" by (simp only: unsigned_take_bit_eq)
  then show ?thesis by (simp add: take_bit_eq_mod)
qed

lemma field_seen_simps:
  "i < 32 \<Longrightarrow> field_seen [a, b] i = bit a i"
  "32 \<le> i \<Longrightarrow> i < 64 \<Longrightarrow> field_seen [a, b] i = bit b (i - 32)"
proof -
  show "i < 32 \<Longrightarrow> field_seen [a, b] i = bit a i" by (simp add: field_seen_def)
  assume i: "32 \<le> i" "i < 64"
  then have "i div 32 = 1" "i mod 32 = i - 32" by (simp_all add: div_nat_eqI le_mod_geq)
  then show "field_seen [a, b] i = bit b (i - 32)" by (simp add: field_seen_def)
qed

lemma all_nat_from: "(\<forall>i. (m :: nat) \<le> i \<and> i < m + k \<longrightarrow> P i) \<longleftrightarrow> (\<forall>i<k. P (m + i))"
  by (metis add_less_cancel_left le_Suc_ex le_add1)

text \<open>The words against the flags below \<open>n\<close>.\<close>

lemma fields_seen_words:
  "(\<forall>i<32. field_seen [a, b] i) \<longleftrightarrow> a = - 1"
  "k \<le> 32 \<Longrightarrow> (\<forall>i<32 + k. field_seen [a, b] i) \<longleftrightarrow> a = - 1 \<and> (\<forall>i<k. bit b i)"
proof -
  show a: "(\<forall>i<32. field_seen [a, b] i) \<longleftrightarrow> a = - 1" by (simp add: u32_ones_iff field_seen_simps)
  assume k: "k \<le> 32"
  have "(\<forall>i<32 + k. field_seen [a, b] i) \<longleftrightarrow> (\<forall>i<32. field_seen [a, b] i) \<and> (\<forall>i<k. field_seen [a, b] (32 + i))"
    unfolding all_nat_from [symmetric] by (meson le_add1 less_le_trans not_le)
  also have "(\<forall>i<k. field_seen [a, b] (32 + i)) \<longleftrightarrow> (\<forall>i<k. bit b i)" using k by (simp add: field_seen_simps)
  finally show "(\<forall>i<32 + k. field_seen [a, b] i) \<longleftrightarrow> a = - 1 \<and> (\<forall>i<k. bit b i)" unfolding a .
qed

lemma check_required_two:
  assumes "r \<noteq> 0"
  shows "check_required [a, b] r =
    (let q = unat r div 32; k = unat r mod 32 in
     if q = 0 then if k = 0 then None else Some (a = drop_bit (32 - k) (- 1))
     else if a \<noteq> - 1 then Some False
     else if q = 1 then if k = 0 then None else Some (b = drop_bit (32 - k) (- 1))
     else if b \<noteq> - 1 then Some False
     else None)"
proof -
  have k: "r AND 31 = 0 \<longleftrightarrow> unat r mod 32 = 0" "unat (r AND 31) = unat r mod 32"
    using unat_and_31 [of r] by (simp_all add: word_unat_eq_iff)
  have q: "unat (drop_bit 5 r) = unat r div 32" by (simp add: unat_drop_bit)
  define n where "n = unat r div 32"
  have c: "check_required [a, b] r =
    (case whole_words [a, b] n of None \<Rightarrow> None | Some whole \<Rightarrow>
      if \<not> whole then Some False else if n \<ge> 2 then None else if unat r mod 32 = 0 then None
      else Some ([a, b] ! n = drop_bit (32 - unat r mod 32) (- 1)))"
    using assms by (simp add: check_required_def q k n_def [symmetric] del: drop_bit_of_minus_1_eq split: option.split)
  have w: "whole_words [a, b] (Suc (Suc p)) =
      (if a \<noteq> - 1 \<or> b \<noteq> - 1 then Some False else if p = 0 then Some True else None)" for p
    by (cases p) simp_all
  consider "n = 0" | "n = 1" | p where "n = Suc (Suc p)" by (metis One_nat_def not0_implies_Suc)
  then show ?thesis
  proof cases
    case 3
    then show ?thesis by (simp add: c Let_def w n_def [symmetric] del: whole_words.simps)
  qed (simp_all add: c Let_def n_def [symmetric] del: drop_bit_of_minus_1_eq)
qed

text \<open>
  C24. The check of the required fields, with two words of flags and no flag set past the
  number \<open>r\<close> of required fields: a message in which one of the first \<open>r\<close> (at most 64)
  fields was not seen is rejected, one in which all were seen is accepted, except that the
  check of a complete message has no defined result when \<open>r\<close> is a multiple of 32 (a shift of
  a 32-bit value by 32, and for 64 a read past the array) or larger than 64.
\<close>

theorem check_required_exact:
  assumes "length seen = 2" "\<forall>i<64. field_seen seen i \<longrightarrow> i < unat r"
  shows "check_required seen r =
    (if r = 0 then Some True
     else if \<exists>i<min (unat r) 64. \<not> field_seen seen i then Some False
     else if r AND 31 = 0 \<or> 64 < r then None
     else Some True)"
proof (cases "r = 0")
  case False
  obtain a b where ab: "seen = [a, b]" using assms(1) by (auto simp: numeral_2_eq_2 length_Suc_conv)
  define n q k where "n = unat r" and "q = unat r div 32" and "k = unat r mod 32"
  have n: "n = 32 * q + k" "k < 32" "n \<noteq> 0" using False by (simp_all add: n_def q_def k_def unat_eq_zero)
  have k0: "r AND 31 = 0 \<longleftrightarrow> k = 0" using unat_and_31 [of r] by (simp add: word_unat_eq_iff k_def)
  have r64: "64 < r \<longleftrightarrow> 64 < n" by (simp add: word_less_nat_alt n_def)
  note check = check_required_two [OF False, of a b, folded q_def k_def, unfolded Let_def]
  have low: "w = drop_bit (32 - k) (- 1) \<longleftrightarrow> (\<forall>i<k. bit w i)" if "\<And>i. i < 32 \<Longrightarrow> bit w i \<Longrightarrow> i < k" for w :: u32
    unfolding u32_low_ones_iff(1) [OF n(2)] using that n(2) by auto
  have result: ?thesis if "min n 64 = l" "r AND 31 = 0 \<or> 64 < r \<longleftrightarrow> bad"
    "check_required [a, b] r = (if \<not> (\<forall>i<l. field_seen [a, b] i) then Some False else if bad then None else Some True)" for l bad
    using that False unfolding n_def by (auto simp: ab)
  consider (zero) "q = 0" | (one) "q = 1" | (more) "2 \<le> q" by linarith
  then show ?thesis
  proof cases
    case zero
    have "bit a i \<Longrightarrow> i < k" if "i < 32" for i
      using assms(2) [rule_format, of i] that zero n(1) by (simp add: ab field_seen_simps n_def)
    from low [OF this] have "a = drop_bit (32 - k) (- 1) \<longleftrightarrow> (\<forall>i<n. field_seen [a, b] i)"
      using zero n by (simp add: field_seen_simps)
    then show ?thesis using zero n by (intro result [of n False]) (simp_all add: check k0 r64)
  next
    case one
    have "bit b i \<Longrightarrow> i < k" if "i < 32" for i
      using assms(2) [rule_format, of "32 + i"] that one n(1) by (simp add: ab field_seen_simps n_def)
    from low [OF this] have "a = - 1 \<and> b = drop_bit (32 - k) (- 1) \<longleftrightarrow> (\<forall>i<n. field_seen [a, b] i)"
      using fields_seen_words(2) [of k a b] n(2) one n(1) by simp
    then show ?thesis using one n fields_seen_words(1) [of a b]
      by (intro result [of n "k = 0"]) (auto simp: check k0 r64)
  next
    case more
    then have "min n 64 = 64" "k = 0 \<or> 64 < n" using n by auto
    moreover have "(\<forall>i<64. field_seen [a, b] i) \<longleftrightarrow> a = - 1 \<and> b = - 1"
      using fields_seen_words(2) [of 32 a b] u32_ones_iff [of b] by simp
    ultimately show ?thesis using more by (intro result [of 64 True]) (auto simp: check k0 r64)
  qed
qed (simp add: check_required_def)

theorem check_required_exact_witness:
  "check_required [7, 0] 3 = Some True \<and> check_required [5, 0] 3 = Some False \<and> check_required [- 1, 0] 32 = None"
proof -
  have low: "bit (7 :: u32) i \<longleftrightarrow> i < 3" for i
  proof -
    have "(7 :: u32) = mask 3" by code_simp
    then have "bit (7 :: u32) i \<longleftrightarrow> bit (mask 3 :: u32) i" by simp
    then show ?thesis by (auto simp only: bit_mask_iff) simp_all
  qed
  have five: "bit (5 :: u32) i \<longleftrightarrow> i = 0 \<or> i = 2" for i
  proof -
    have "(5 :: u32) = 2 ^ 2 OR 2 ^ 0" by code_simp
    then have "bit (5 :: u32) i \<longleftrightarrow> bit (2 ^ 2 OR 2 ^ 0 :: u32) i" by (simp only:)
    then show ?thesis by (auto simp only: bit_or_iff bit_exp_iff) simp_all
  qed
  have seen: "field_seen [a, 0] i \<longleftrightarrow> i < 32 \<and> bit a i" if "i < 64" for a i
    using that field_seen_simps [of i a 0] by (cases "i < 32") simp_all
  have 1: "check_required [7, 0] 3 = Some True"
    by (subst check_required_exact) (use low in \<open>auto simp: seen\<close>)
  have f: "field_seen [5, 0] i \<longleftrightarrow> i = 0 \<or> i = 2" if "i < 64" for i
    unfolding seen [OF that] five by auto
  have "\<forall>i<64. field_seen [5, 0] i \<longrightarrow> i < unat (3 :: u32)" using f by fastforce
  moreover have "\<exists>i<min (unat (3 :: u32)) 64. \<not> field_seen [5, 0] i" using f [of 1] by (intro exI [of _ 1]) simp
  ultimately have 2: "check_required [5, 0] 3 = Some False" using check_required_exact [of "[5, 0]" 3] by simp
  have 3: "check_required [- 1, 0] 32 = None" by (subst check_required_exact) (auto simp: seen)
  show ?thesis using 1 2 3 by blast
qed

end
