(* ===== verification/Ldb_Coding.thy ===== *)
theory Ldb_Coding
  imports Varint
begin

text \<open>
  The number and string encodings of leveldb (\<open>util/coding.cc\<close>, \<open>util/coding.h\<close>):
  fixed-width little-endian numbers, varints and length-prefixed strings, and what a decoder
  accepts. A pointer and a limit are the bytes between them.
\<close>

section \<open>Definitions\<close>

subsection \<open>Fixed width\<close>

text \<open>\<open>port::kLittleEndian\<close> on the devices the pods are built for.\<close>

definition kLittleEndian :: bool where "kLittleEndian = True"

definition EncodeFixed32 :: "u32 \<Rightarrow> bytes" where
  "EncodeFixed32 val =
     (if kLittleEndian then le_bytes 4 (unat val)
      else [ucast (val AND 0xff), ucast (drop_bit 8 val AND 0xff),
            ucast (drop_bit 16 val AND 0xff), ucast (drop_bit 24 val AND 0xff)])"

definition EncodeFixed64 :: "u64 \<Rightarrow> bytes" where
  "EncodeFixed64 val =
     (if kLittleEndian then le_bytes 8 (unat val)
      else [ucast (val AND 0xff), ucast (drop_bit 8 val AND 0xff),
            ucast (drop_bit 16 val AND 0xff), ucast (drop_bit 24 val AND 0xff),
            ucast (drop_bit 32 val AND 0xff), ucast (drop_bit 40 val AND 0xff),
            ucast (drop_bit 48 val AND 0xff), ucast (drop_bit 56 val AND 0xff)])"

definition PutFixed32 :: "bytes \<Rightarrow> u32 \<Rightarrow> bytes" where
  "PutFixed32 dst val = dst @ EncodeFixed32 val"

definition PutFixed64 :: "bytes \<Rightarrow> u64 \<Rightarrow> bytes" where
  "PutFixed64 dst val = dst @ EncodeFixed64 val"

definition DecodeFixed32 :: "bytes \<Rightarrow> u32" where
  "DecodeFixed32 p =
     (if kLittleEndian then of_nat (le_nat (take 4 p))
      else ucast (p ! 0) OR push_bit 8 (ucast (p ! 1)) OR push_bit 16 (ucast (p ! 2)) OR push_bit 24 (ucast (p ! 3)))"

definition DecodeFixed64 :: "bytes \<Rightarrow> u64" where
  "DecodeFixed64 p =
     (if kLittleEndian then of_nat (le_nat (take 8 p))
      else
        let lo = ucast (DecodeFixed32 p); hi = ucast (DecodeFixed32 (drop 4 p)) in
        push_bit 32 hi OR lo)"

subsection \<open>Varints\<close>

definition EncodeVarint32 :: "u32 \<Rightarrow> bytes" where
  "EncodeVarint32 v =
     (let B = 128 in
      if v < 2 ^ 7 then [ucast v]
      else if v < 2 ^ 14 then [ucast (v OR B), ucast (drop_bit 7 v)]
      else if v < 2 ^ 21 then [ucast (v OR B), ucast (drop_bit 7 v OR B), ucast (drop_bit 14 v)]
      else if v < 2 ^ 28 then
        [ucast (v OR B), ucast (drop_bit 7 v OR B), ucast (drop_bit 14 v OR B), ucast (drop_bit 21 v)]
      else
        [ucast (v OR B), ucast (drop_bit 7 v OR B), ucast (drop_bit 14 v OR B), ucast (drop_bit 21 v OR B),
         ucast (drop_bit 28 v)])"

definition PutVarint32 :: "bytes \<Rightarrow> u32 \<Rightarrow> bytes" where
  "PutVarint32 dst v = dst @ EncodeVarint32 v"

function EncodeVarint64 :: "u64 \<Rightarrow> bytes" where
  "EncodeVarint64 v =
     (if v \<ge> 128 then ucast ((v AND (128 - 1)) OR 128) # EncodeVarint64 (drop_bit 7 v) else [ucast v])"
  by pat_completeness auto
termination
  by (relation "measure unat") (auto simp: unat_drop_bit word_le_nat_alt)

declare EncodeVarint64.simps [simp del]

definition PutVarint64 :: "bytes \<Rightarrow> u64 \<Rightarrow> bytes" where
  "PutVarint64 dst v = dst @ EncodeVarint64 v"

definition PutLengthPrefixedSlice :: "bytes \<Rightarrow> bytes \<Rightarrow> bytes" where
  "PutLengthPrefixedSlice dst val = PutVarint32 dst (of_nat (length val)) @ val"

function VarintLength_loop :: "u64 \<Rightarrow> int \<Rightarrow> int" where
  "VarintLength_loop v len = (if v \<ge> 128 then VarintLength_loop (drop_bit 7 v) (len + 1) else len)"
  by pat_completeness auto
termination
  by (relation "measure (\<lambda>(v, _). unat v)") (auto simp: unat_drop_bit word_le_nat_alt)

declare VarintLength_loop.simps [simp del]

definition VarintLength :: "u64 \<Rightarrow> int" where
  "VarintLength v = VarintLength_loop v 1"

text \<open>A pointer-based decoder returns the value and the bytes from the returned pointer on.\<close>

function varint32_ptr_loop :: "nat \<Rightarrow> u32 \<Rightarrow> bytes \<Rightarrow> (u32 \<times> bytes) option" where
  "varint32_ptr_loop shift result p =
     (if shift \<le> 28 \<and> p \<noteq> [] then
        let byte = ucast (hd p); p = tl p in
        if byte AND 128 \<noteq> 0 then varint32_ptr_loop (shift + 7) (result OR push_bit shift (byte AND 127)) p
        else Some (result OR push_bit shift byte, p)
      else None)"
  by pat_completeness auto
termination
  by (relation "measure (\<lambda>(_, _, p). length p)") auto

definition GetVarint32PtrFallback :: "bytes \<Rightarrow> (u32 \<times> bytes) option" where
  "GetVarint32PtrFallback p = varint32_ptr_loop 0 0 p"

definition GetVarint32Ptr :: "bytes \<Rightarrow> (u32 \<times> bytes) option" where
  "GetVarint32Ptr p =
     (if p \<noteq> [] \<and> (ucast (hd p) :: u32) AND 128 = 0 then Some (ucast (hd p), tl p)
      else GetVarint32PtrFallback p)"

function varint64_ptr_loop :: "nat \<Rightarrow> u64 \<Rightarrow> bytes \<Rightarrow> (u64 \<times> bytes) option" where
  "varint64_ptr_loop shift result p =
     (if shift \<le> 63 \<and> p \<noteq> [] then
        let byte = ucast (hd p); p = tl p in
        if byte AND 128 \<noteq> 0 then varint64_ptr_loop (shift + 7) (result OR push_bit shift (byte AND 127)) p
        else Some (result OR push_bit shift byte, p)
      else None)"
  by pat_completeness auto
termination
  by (relation "measure (\<lambda>(_, _, p). length p)") auto

declare varint32_ptr_loop.simps [simp del] varint64_ptr_loop.simps [simp del]

definition GetVarint64Ptr :: "bytes \<Rightarrow> (u64 \<times> bytes) option" where
  "GetVarint64Ptr p = varint64_ptr_loop 0 0 p"

text \<open>The decoders on a \<open>Slice\<close> also return the slice they leave behind.\<close>

definition GetVarint32 :: "bytes \<Rightarrow> (u32, bytes) outcome" where
  "GetVarint32 input =
     (case GetVarint32Ptr input of None \<Rightarrow> (None, input) | Some (v, q) \<Rightarrow> (Some v, q))"

definition GetVarint64 :: "bytes \<Rightarrow> (u64, bytes) outcome" where
  "GetVarint64 input =
     (case GetVarint64Ptr input of None \<Rightarrow> (None, input) | Some (v, q) \<Rightarrow> (Some v, q))"

definition GetLengthPrefixedSlicePtr :: "bytes \<Rightarrow> (bytes \<times> bytes) option" where
  "GetLengthPrefixedSlicePtr p =
     (case GetVarint32Ptr p of
        None \<Rightarrow> None
      | Some (len, p) \<Rightarrow>
          if unat len > length p then None else Some (take (unat len) p, drop (unat len) p))"

definition GetLengthPrefixedSlice :: "bytes \<Rightarrow> (bytes, bytes) outcome" where
  "GetLengthPrefixedSlice input =
     (case GetVarint32 input of
        (Some len, input) \<Rightarrow>
          if length input \<ge> unat len then (Some (take (unat len) input), drop (unat len) input)
          else (None, input)
      | (None, input) \<Rightarrow> (None, input))"

section \<open>Fixed-width numbers\<close>

lemma EncodeFixed32_le [simp]: "EncodeFixed32 v = le_bytes 4 (unat v)"
  by (simp add: EncodeFixed32_def le_bytes_u32 fixed_byte)

lemma EncodeFixed64_le [simp]: "EncodeFixed64 v = le_bytes 8 (unat v)"
  by (simp add: EncodeFixed64_def le_bytes_u64 fixed_byte)

lemma DecodeFixed32_le: "DecodeFixed32 p = of_nat (le_nat (take 4 p))"
  by (simp add: DecodeFixed32_def kLittleEndian_def)

lemma DecodeFixed32_Encode [simp]: "DecodeFixed32 (le_bytes 4 (unat v) @ rest) = v"
  using unat_bound [of v] by (simp add: DecodeFixed32_le le_nat_le_bytes)

lemma DecodeFixed64_Encode [simp]: "DecodeFixed64 (le_bytes 8 (unat v) @ rest) = v"
  using unat_bound [of v] by (simp add: DecodeFixed64_def kLittleEndian_def le_nat_le_bytes)

section \<open>Varints\<close>

lemma varint_high_byte:
  assumes "8 \<le> LENGTH('a)"
  shows "(ucast (w OR 128) :: u8) = of_nat (unat (w :: 'a::len word) mod 128 + 128)"
proof -
  have m: "(128 :: u8) = push_bit 7 1" "(127 :: u8) = mask 7" by code_simp+
  have "(128 :: 'a word) = push_bit 7 1" by (simp add: push_bit_eq_mult)
  then have "(ucast (w OR 128) :: u8) = push_bit 7 1 OR (ucast w AND mask 7)"
    using assms by (intro bit_eqI) (auto simp: bit_or_iff bit_and_iff bit_push_bit_iff bit_ucast_iff bit_mask_iff
      less_Suc_eq numeral_eq_Suc)
  moreover have "unat (push_bit 7 1 OR ((ucast w :: u8) AND mask 7)) = unat (1 :: u8) * 2 ^ 7 + unat ((ucast w :: u8) AND mask 7)"
    by (rule unat_push_bit_OR) (simp_all add: unat_and_mask)
  moreover have "unat ((ucast w :: u8) AND mask 7) = unat w mod 128"
    by (simp add: unat_and_mask unsigned_ucast_eq take_bit_eq_mod mod_mod_cancel)
  ultimately have "unat (ucast (w OR 128) :: u8) = unat w mod 128 + 128" by simp
  then show ?thesis by (metis of_nat_unat ucast_id)
qed

lemma EncodeVarint64_bytes: "EncodeVarint64 v = varint_bytes (unat v)"
proof (induction v rule: EncodeVarint64.induct)
  case (1 v)
  show ?case
  proof (cases "v \<ge> 128")
    case True
    then have "\<not> unat v < 128" by (simp add: word_le_nat_alt)
    then show ?thesis using 1 True varint_byte [of v]
      by (subst EncodeVarint64.simps, subst varint_bytes.simps) (simp add: unat_drop_bit del: of_nat_add)
  next
    case False
    then have "unat v < 128" by (simp add: word_le_nat_alt)
    then show ?thesis using False by (subst EncodeVarint64.simps, subst varint_bytes.simps) simp
  qed
qed

lemma EncodeVarint32_bytes: "EncodeVarint32 v = varint_bytes (unat v)"
proof -
  have le: "v < 2 ^ n \<longleftrightarrow> unat v < 2 ^ n" if "n < 32" for n
  proof -
    have "(2 :: nat) ^ n < 2 ^ 32" by (rule power_strict_increasing) (use that in simp_all)
    then have "unat (2 ^ n :: u32) = 2 ^ n" using unat_of_nat_eq [of "2 ^ n", where 'a = 32] by simp
    then show ?thesis by (simp add: word_less_nat_alt)
  qed
  have high: "(ucast (drop_bit n v OR 128) :: u8) = of_nat (unat v div 2 ^ n mod 128 + 128)" for n
    using varint_high_byte [of "drop_bit n v"] by (simp add: unat_drop_bit)
  have last: "(ucast (drop_bit n v) :: u8) = of_nat (unat v div 2 ^ n)" for n
    by (simp add: byte_of_unat)
  have b: "unat v < 2 ^ 32" using unat_bound [of v] by simp
  note unfold = varint_bytes.simps [of "unat v"] varint_bytes.simps [of "unat v div 128"]
    varint_bytes.simps [of "unat v div 16384"] varint_bytes.simps [of "unat v div 2097152"]
    varint_bytes.simps [of "unat v div 268435456"]
  have d: "unat v div 2 ^ k < 2 ^ 7 \<longleftrightarrow> unat v < 2 ^ (k + 7)" for k
    by (simp add: div_less_iff_less_mult power_add mult.commute)
  have five: "unat v div 268435456 < 128" using b by (simp add: div_less_iff_less_mult)
  show ?thesis
    using varint_high_byte [of v] high [of 7] high [of 14] high [of 21] last [of 7] last [of 14] last [of 21] last [of 28]
      le [of 7] le [of 14] le [of 21] le [of 28] d [of 7] d [of 14] d [of 21] five
    by (simp add: EncodeVarint32_def Let_def unfold div_mult2_eq [symmetric] del: of_nat_add)
qed

lemma varint64_ptr_loop_exact:
  "varint64_ptr_loop (7 * k) r p = Some (v, q) \<longleftrightarrow>
    (\<exists>g. varint_group g \<and> p = g @ q \<and> length g + k \<le> 10 \<and> v = r OR push_bit (7 * k) (of_nat (varint_value g)))"
proof (induction p arbitrary: k r)
  case Nil
  show ?case by (subst varint64_ptr_loop.simps) auto
next
  case (Cons b bs)
  note masks = byte_masks [where 'a = 64, simplified, of b]
  have low: "b AND 0x80 = 0 \<Longrightarrow> (ucast b :: u64) = of_nat (varint_value [b])"
    by (simp add: low_byte_value)
  have step: "varint64_ptr_loop (7 * k) r (b # bs) =
      (if k \<le> 9 then
         if b AND 0x80 \<noteq> 0 then varint64_ptr_loop (7 * k + 7) (r OR push_bit (7 * k) (ucast (b AND 0x7f))) bs
         else Some (r OR push_bit (7 * k) (of_nat (varint_value [b])), bs)
       else None)"
    using low masks by (subst varint64_ptr_loop.simps) (simp add: Let_def add.commute [of 7])
  show ?case
  proof (cases "b AND 0x80 = 0")
    case True
    then have "(\<exists>g. varint_group g \<and> b # bs = g @ q \<and> P g) \<longleftrightarrow> bs = q \<and> P [b]" for P
      unfolding conj_assoc [symmetric] varint_group_Cons_eq by auto
    then show ?thesis using True by (auto simp: step)
  next
    case False
    then have ex: "(\<exists>g. varint_group g \<and> b # bs = g @ q \<and> P g) \<longleftrightarrow> (\<exists>h. varint_group h \<and> bs = h @ q \<and> P (b # h))" for P
      unfolding conj_assoc [symmetric] varint_group_Cons_eq by auto
    have big: "varint_group h \<Longrightarrow> length (b # h) + k \<le> 10 \<Longrightarrow> k \<le> 9" for h by simp
    let ?r = "r OR push_bit (7 * k) (ucast (b AND 0x7f))"
    have IH: "varint64_ptr_loop (7 * k + 7) ?r bs = Some (v, q) \<longleftrightarrow>
        (\<exists>g. varint_group g \<and> bs = g @ q \<and> length (b # g) + k \<le> 10 \<and>
           v = r OR push_bit (7 * k) (of_nat (varint_value (b # g))))"
      using Cons.IH [of "Suc k" ?r] varint_value_step [of r "7 * k" b]
      by (simp add: add.commute [of 7] del: varint_value.simps)
    show ?thesis unfolding ex step using False big by (auto simp: IH simp del: varint_value.simps)
  qed
qed

lemma varint32_ptr_loop_exact:
  "varint32_ptr_loop (7 * k) r p = Some (v, q) \<longleftrightarrow>
    (\<exists>g. varint_group g \<and> p = g @ q \<and> length g + k \<le> 5 \<and> v = r OR push_bit (7 * k) (of_nat (varint_value g)))"
proof (induction p arbitrary: k r)
  case Nil
  show ?case by (subst varint32_ptr_loop.simps) auto
next
  case (Cons b bs)
  note masks = byte_masks [where 'a = 32, simplified, of b]
  have low: "b AND 0x80 = 0 \<Longrightarrow> (ucast b :: u32) = of_nat (varint_value [b])"
    by (simp add: low_byte_value)
  have step: "varint32_ptr_loop (7 * k) r (b # bs) =
      (if k \<le> 4 then
         if b AND 0x80 \<noteq> 0 then varint32_ptr_loop (7 * k + 7) (r OR push_bit (7 * k) (ucast (b AND 0x7f))) bs
         else Some (r OR push_bit (7 * k) (of_nat (varint_value [b])), bs)
       else None)"
    using low masks by (subst varint32_ptr_loop.simps) (simp add: Let_def add.commute [of 7])
  show ?case
  proof (cases "b AND 0x80 = 0")
    case True
    then have "(\<exists>g. varint_group g \<and> b # bs = g @ q \<and> P g) \<longleftrightarrow> bs = q \<and> P [b]" for P
      unfolding conj_assoc [symmetric] varint_group_Cons_eq by auto
    then show ?thesis using True by (auto simp: step)
  next
    case False
    then have ex: "(\<exists>g. varint_group g \<and> b # bs = g @ q \<and> P g) \<longleftrightarrow> (\<exists>h. varint_group h \<and> bs = h @ q \<and> P (b # h))" for P
      unfolding conj_assoc [symmetric] varint_group_Cons_eq by auto
    have big: "varint_group h \<Longrightarrow> length (b # h) + k \<le> 5 \<Longrightarrow> k \<le> 4" for h by simp
    let ?r = "r OR push_bit (7 * k) (ucast (b AND 0x7f))"
    have IH: "varint32_ptr_loop (7 * k + 7) ?r bs = Some (v, q) \<longleftrightarrow>
        (\<exists>g. varint_group g \<and> bs = g @ q \<and> length (b # g) + k \<le> 5 \<and>
           v = r OR push_bit (7 * k) (of_nat (varint_value (b # g))))"
      using Cons.IH [of "Suc k" ?r] varint_value_step [of r "7 * k" b]
      by (simp add: add.commute [of 7] del: varint_value.simps)
    show ?thesis unfolding ex step using False big by (auto simp: IH simp del: varint_value.simps)
  qed
qed

lemma GetVarint64Ptr_exact:
  "GetVarint64Ptr p = Some (v, q) \<longleftrightarrow>
    (\<exists>g. varint_group g \<and> p = g @ q \<and> length g \<le> 10 \<and> v = of_nat (varint_value g))"
  using varint64_ptr_loop_exact [of 0 0 p] by (simp add: GetVarint64Ptr_def)

lemma GetVarint32Ptr_exact:
  "GetVarint32Ptr p = Some (v, q) \<longleftrightarrow>
    (\<exists>g. varint_group g \<and> p = g @ q \<and> length g \<le> 5 \<and> v = of_nat (varint_value g))"
proof -
  have "GetVarint32Ptr p = varint32_ptr_loop 0 0 p"
    by (cases "p = []")
      (simp_all add: GetVarint32Ptr_def GetVarint32PtrFallback_def varint32_ptr_loop.simps [of 0 0 p]
        varint32_ptr_loop.simps [of 0 0 "[]"] Let_def)
  then show ?thesis using varint32_ptr_loop_exact [of 0 0 p] by simp
qed

text \<open>What an encoder wrote is read back.\<close>

lemma GetVarint64_Encode: "GetVarint64 (EncodeVarint64 v @ rest) = (Some v, rest)"
proof -
  have "GetVarint64Ptr (varint_bytes (unat v) @ rest) = Some (v, rest)"
    unfolding GetVarint64Ptr_exact
    by (intro exI [of _ "varint_bytes (unat v)"]) (simp add: varint_bytes_length_u64)
  then show ?thesis by (simp add: GetVarint64_def EncodeVarint64_bytes)
qed

lemma varint_bytes_length_u32: "length (varint_bytes (unat (v :: u32))) \<le> 5"
  using varint_bytes_length [of "unat v" 4] unat_bound [of v] by simp

lemma GetVarint32Ptr_Encode: "GetVarint32Ptr (EncodeVarint32 v @ rest) = Some (v, rest)"
  unfolding GetVarint32Ptr_exact EncodeVarint32_bytes
  by (intro exI [of _ "varint_bytes (unat v)"]) (simp add: varint_bytes_length_u32)

lemma GetVarint32_Encode: "GetVarint32 (EncodeVarint32 v @ rest) = (Some v, rest)"
  by (simp add: GetVarint32_def GetVarint32Ptr_Encode)

lemma VarintLength_bytes: "VarintLength v = int (length (varint_bytes (unat v)))"
proof -
  have "VarintLength_loop v n = n - 1 + int (length (varint_bytes (unat v)))" for n
  proof (induction v n rule: VarintLength_loop.induct)
    case (1 v n)
    have "v \<ge> 128 \<longleftrightarrow> \<not> unat v < 128" by (auto simp: word_le_nat_alt)
    then show ?case using 1
      by (subst VarintLength_loop.simps, subst varint_bytes.simps) (simp add: unat_drop_bit)
  qed
  then show ?thesis by (simp add: VarintLength_def)
qed

section \<open>Length-prefixed strings\<close>

lemma GetLengthPrefixedSlice_exact:
  "GetLengthPrefixedSlice input = (Some v, rest) \<longleftrightarrow>
    (\<exists>g. varint_group g \<and> length g \<le> 5 \<and> input = g @ v @ rest \<and> length v = unat (of_nat (varint_value g) :: u32))"
proof
  assume "GetLengthPrefixedSlice input = (Some v, rest)"
  then obtain len q where q: "GetVarint32Ptr input = Some (len, q)" "unat len \<le> length q"
      "v = take (unat len) q" "rest = drop (unat len) q"
    by (auto simp: GetLengthPrefixedSlice_def GetVarint32_def split: option.splits if_splits)
  then obtain g where "varint_group g" "input = g @ q" "length g \<le> 5" "len = of_nat (varint_value g)"
    by (auto simp: GetVarint32Ptr_exact)
  then show "\<exists>g. varint_group g \<and> length g \<le> 5 \<and> input = g @ v @ rest \<and> length v = unat (of_nat (varint_value g) :: u32)"
    using q(2-4) by (intro exI [of _ g]) simp
next
  assume "\<exists>g. varint_group g \<and> length g \<le> 5 \<and> input = g @ v @ rest \<and> length v = unat (of_nat (varint_value g) :: u32)"
  then obtain g where g: "varint_group g" "length g \<le> 5" "input = g @ v @ rest"
    "length v = unat (of_nat (varint_value g) :: u32)" by blast
  then have "GetVarint32Ptr input = Some (of_nat (varint_value g), v @ rest)" unfolding GetVarint32Ptr_exact by blast
  then show "GetLengthPrefixedSlice input = (Some v, rest)"
    using g(4) by (simp add: GetLengthPrefixedSlice_def GetVarint32_def)
qed

lemma GetLengthPrefixedSlicePtr_eq:
  "GetLengthPrefixedSlicePtr p =
     (case GetLengthPrefixedSlice p of (None, _) \<Rightarrow> None | (Some v, q) \<Rightarrow> Some (v, q))"
  by (simp add: GetLengthPrefixedSlicePtr_def GetLengthPrefixedSlice_def GetVarint32_def split: option.split)

lemma GetLengthPrefixedSlice_Put:
  assumes "length val < 2 ^ 32"
  shows "GetLengthPrefixedSlice (PutLengthPrefixedSlice [] val @ rest) = (Some val, rest)"
proof -
  define w where "w = (of_nat (length val) :: u32)"
  have "length val = unat w" using assms by (simp add: w_def unat_of_nat_eq)
  then have "varint_group (EncodeVarint32 w)" "length (EncodeVarint32 w) \<le> 5"
    "length val = unat (of_nat (varint_value (EncodeVarint32 w)) :: u32)"
    using varint_bytes_length_u32 [of w] by (simp_all add: EncodeVarint32_bytes)
  then show ?thesis unfolding GetLengthPrefixedSlice_exact PutLengthPrefixedSlice_def w_def [symmetric]
    by (intro exI [of _ "EncodeVarint32 w"]) (simp add: PutVarint32_def)
qed

lemma Put_append:
  "PutFixed32 dst x = dst @ PutFixed32 [] x" "PutFixed64 dst y = dst @ PutFixed64 [] y"
  "PutVarint32 dst x = dst @ PutVarint32 [] x" "PutVarint64 dst y = dst @ PutVarint64 [] y"
  "PutLengthPrefixedSlice dst val = dst @ PutLengthPrefixedSlice [] val"
  by (simp_all add: PutFixed32_def PutFixed64_def PutVarint32_def PutVarint64_def PutLengthPrefixedSlice_def)

text \<open>
  C26. Whatever is written with a \<open>Put\<close> function in front of other data is read back by its
  \<open>Get\<close> or \<open>Decode\<close> function, which leaves exactly the other data; and
  \<open>GetLengthPrefixedSlice\<close>, the reader of every string in leveldb's files, succeeds on
  exactly the inputs that start with a varint of at most five bytes and as many bytes as the
  varint, modulo \<open>2^32\<close>, says.
\<close>

theorem coding_roundtrip:
  assumes "length val < 2 ^ 32"
  shows "DecodeFixed32 (PutFixed32 [] x @ rest) = x \<and> DecodeFixed64 (PutFixed64 [] y @ rest) = y \<and>
    GetVarint32 (PutVarint32 [] x @ rest) = (Some x, rest) \<and>
    GetVarint64 (PutVarint64 [] y @ rest) = (Some y, rest) \<and>
    int (length (PutVarint64 [] y)) = VarintLength y \<and>
    GetLengthPrefixedSlice (PutLengthPrefixedSlice [] val @ rest) = (Some val, rest) \<and>
    (GetLengthPrefixedSlice input = (Some val, rest) \<longleftrightarrow>
      (\<exists>g. varint_group g \<and> length g \<le> 5 \<and> input = g @ val @ rest \<and>
         length val = unat (of_nat (varint_value g) :: u32)))"
  using GetLengthPrefixedSlice_Put [OF assms] GetLengthPrefixedSlice_exact [of input val rest]
  by (simp add: PutFixed32_def PutFixed64_def PutVarint32_def PutVarint64_def GetVarint32_Encode
      GetVarint64_Encode [unfolded EncodeVarint64_bytes] VarintLength_bytes EncodeVarint64_bytes)

theorem coding_roundtrip_witness:
  "DecodeFixed32 (PutFixed32 [] 0xdeadbeef @ [9]) = 0xdeadbeef \<and>
   GetVarint64 (PutVarint64 [] 300 @ [9]) = (Some 300, [9]) \<and>
   GetLengthPrefixedSlice (PutLengthPrefixedSlice [] [1, 2, 3] @ [9]) = (Some [1, 2, 3], [9])"
  using coding_roundtrip [where val = "[1, 2, 3]" and rest = "[9]" and x = "0xdeadbeef" and y = "300"] by simp

end
