(* ===== verification/Ldb_Key.thy ===== *)
theory Ldb_Key
  imports Ldb_Coding "HOL-Library.List_Lexorder"
begin

text \<open>
  The order of keys in leveldb: \<open>Slice::compare\<close>, the bytewise comparator
  (\<open>util/comparator.cc\<close>), internal keys and their comparator, and lookup keys
  (\<open>db/dbformat.h\<close>, \<open>db/dbformat.cc\<close>). What every comparator promises is the
  locale \<open>comparator\<close>, which both comparators satisfy.
\<close>

section \<open>Definitions\<close>

subsection \<open>Slices and the bytewise comparator\<close>

text \<open>The C function \<open>memcmp\<close> on two blocks of the same size.\<close>

fun c_memcmp :: "bytes \<Rightarrow> bytes \<Rightarrow> int" where
  "c_memcmp (a # as) (b # bs) = (if a = b then c_memcmp as bs else if a < b then -1 else 1)"
| "c_memcmp as bs = 0"

definition Slice_compare :: "bytes \<Rightarrow> bytes \<Rightarrow> int" where
  "Slice_compare a b =
     (let min_len = (if length a < length b then length a else length b);
          r = c_memcmp (take min_len a) (take min_len b)
      in if r = 0 then if length a < length b then -1 else if length a > length b then 1 else r
         else r)"

definition Slice_starts_with :: "bytes \<Rightarrow> bytes \<Rightarrow> bool" where
  "Slice_starts_with s x \<longleftrightarrow> length s \<ge> length x \<and> c_memcmp (take (length x) s) x = 0"

text \<open>The virtual functions of \<open>Comparator\<close>.\<close>

record comparator_class =
  Compare :: "bytes \<Rightarrow> bytes \<Rightarrow> int"
  FindShortestSeparator :: "bytes \<Rightarrow> bytes \<Rightarrow> bytes"
  FindShortSuccessor :: "bytes \<Rightarrow> bytes"

text \<open>The index of the first difference, by the loop of the code.\<close>

function diff_loop :: "bytes \<Rightarrow> bytes \<Rightarrow> nat \<Rightarrow> nat \<Rightarrow> nat" where
  "diff_loop s limit min_length diff_index =
     (if diff_index < min_length \<and> s ! diff_index = limit ! diff_index
      then diff_loop s limit min_length (diff_index + 1) else diff_index)"
  by pat_completeness auto
termination
  by (relation "measure (\<lambda>(_, _, m, i). m - i)") auto

definition Bytewise_FindShortestSeparator :: "bytes \<Rightarrow> bytes \<Rightarrow> bytes" where
  "Bytewise_FindShortestSeparator s limit =
     (let min_length = min (length s) (length limit);
          diff_index = diff_loop s limit min_length 0
      in if diff_index \<ge> min_length then s
         else
           let diff_byte = s ! diff_index in
           if diff_byte < 0xff \<and> uint diff_byte + 1 < uint (limit ! diff_index)
           then take (diff_index + 1) (s[diff_index := s ! diff_index + 1])
           else s)"

function successor_loop :: "bytes \<Rightarrow> nat \<Rightarrow> bytes" where
  "successor_loop key i =
     (if i < length key then
        let byte = key ! i in
        if byte \<noteq> 0xff then take (i + 1) (key[i := byte + 1]) else successor_loop key (i + 1)
      else key)"
  by pat_completeness auto
termination
  by (relation "measure (\<lambda>(key, i). length key - i)") auto

declare diff_loop.simps [simp del] successor_loop.simps [simp del]

definition Bytewise_FindShortSuccessor :: "bytes \<Rightarrow> bytes" where
  "Bytewise_FindShortSuccessor key = successor_loop key 0"

definition BytewiseComparator :: comparator_class where
  "BytewiseComparator = \<lparr>Compare = Slice_compare,
     FindShortestSeparator = Bytewise_FindShortestSeparator,
     FindShortSuccessor = Bytewise_FindShortSuccessor\<rparr>"

subsection \<open>Internal keys\<close>

text \<open>
  The \<open>enum ValueType\<close> holds whatever byte \<open>ParseInternalKey\<close> casts into it.
\<close>

type_synonym ValueType = u8

definition kTypeDeletion :: ValueType where "kTypeDeletion = 0"
definition kTypeValue :: ValueType where "kTypeValue = 1"
definition kValueTypeForSeek :: ValueType where "kValueTypeForSeek = kTypeValue"
definition kMaxSequenceNumber :: u64 where "kMaxSequenceNumber = push_bit 56 1 - 1"

record ParsedInternalKey =
  user_key :: bytes
  sequence :: u64
  key_type :: ValueType

definition PackSequenceAndType :: "u64 \<Rightarrow> ValueType \<Rightarrow> u64" where
  "PackSequenceAndType seq t = push_bit 8 seq OR ucast t"

definition AppendInternalKey :: "bytes \<Rightarrow> ParsedInternalKey \<Rightarrow> bytes" where
  "AppendInternalKey result key =
     PutFixed64 (result @ user_key key) (PackSequenceAndType (sequence key) (key_type key))"

definition InternalKeyEncodingLength :: "ParsedInternalKey \<Rightarrow> nat" where
  "InternalKeyEncodingLength key = length (user_key key) + 8"

definition ExtractUserKey :: "bytes \<Rightarrow> bytes" where
  "ExtractUserKey internal_key = take (length internal_key - 8) internal_key"

definition ExtractValueType :: "bytes \<Rightarrow> ValueType" where
  "ExtractValueType internal_key =
     (let num = DecodeFixed64 (drop (length internal_key - 8) internal_key) in ucast (num AND 0xff))"

definition ParseInternalKey :: "bytes \<Rightarrow> ParsedInternalKey \<Rightarrow> bool \<times> ParsedInternalKey" where
  "ParseInternalKey internal_key result =
     (let n = length internal_key in
      if n < 8 then (False, result)
      else
        let num = DecodeFixed64 (drop (n - 8) internal_key);
            c = ucast (num AND 0xff)
        in (c \<le> kTypeValue,
            result\<lparr>sequence := drop_bit 8 num, key_type := c, user_key := take (n - 8) internal_key\<rparr>))"

definition InternalKey_Compare :: "comparator_class \<Rightarrow> bytes \<Rightarrow> bytes \<Rightarrow> int" where
  "InternalKey_Compare user_comparator akey bkey =
     (let r = Compare user_comparator (ExtractUserKey akey) (ExtractUserKey bkey) in
      if r = 0 then
        let anum = DecodeFixed64 (drop (length akey - 8) akey);
            bnum = DecodeFixed64 (drop (length bkey - 8) bkey)
        in if anum > bnum then -1 else if anum < bnum then 1 else r
      else r)"

definition InternalKey_FindShortestSeparator :: "comparator_class \<Rightarrow> bytes \<Rightarrow> bytes \<Rightarrow> bytes" where
  "InternalKey_FindShortestSeparator user_comparator s limit =
     (let user_start = ExtractUserKey s;
          user_limit = ExtractUserKey limit;
          tmp = FindShortestSeparator user_comparator user_start user_limit
      in if length tmp < length user_start \<and> Compare user_comparator user_start tmp < 0
         then PutFixed64 tmp (PackSequenceAndType kMaxSequenceNumber kValueTypeForSeek)
         else s)"

definition InternalKey_FindShortSuccessor :: "comparator_class \<Rightarrow> bytes \<Rightarrow> bytes" where
  "InternalKey_FindShortSuccessor user_comparator key =
     (let ukey = ExtractUserKey key;
          tmp = FindShortSuccessor user_comparator ukey
      in if length tmp < length ukey \<and> Compare user_comparator ukey tmp < 0
         then PutFixed64 tmp (PackSequenceAndType kMaxSequenceNumber kValueTypeForSeek)
         else key)"

definition InternalKeyComparator :: "comparator_class \<Rightarrow> comparator_class" where
  "InternalKeyComparator user_comparator = \<lparr>Compare = InternalKey_Compare user_comparator,
     FindShortestSeparator = InternalKey_FindShortestSeparator user_comparator,
     FindShortSuccessor = InternalKey_FindShortSuccessor user_comparator\<rparr>"

text \<open>
  \<open>LookupKey\<close>: the bytes from \<open>start_\<close> to \<open>end_\<close>, and the offset of \<open>kstart_\<close>.
\<close>

record lookup_key =
  lk_bytes :: bytes
  lk_kstart :: nat

definition LookupKey :: "bytes \<Rightarrow> u64 \<Rightarrow> lookup_key" where
  "LookupKey ukey s =
     (let usize = length ukey;
          prefix = EncodeVarint32 (of_nat (usize + 8))
      in \<lparr>lk_bytes = prefix @ ukey @ EncodeFixed64 (PackSequenceAndType s kValueTypeForSeek),
          lk_kstart = length prefix\<rparr>)"

definition lookup_memtable_key :: "lookup_key \<Rightarrow> bytes" where
  "lookup_memtable_key k = lk_bytes k"

definition lookup_internal_key :: "lookup_key \<Rightarrow> bytes" where
  "lookup_internal_key k = drop (lk_kstart k) (lk_bytes k)"

definition lookup_user_key :: "lookup_key \<Rightarrow> bytes" where
  "lookup_user_key k = take (length (lk_bytes k) - lk_kstart k - 8) (drop (lk_kstart k) (lk_bytes k))"

section \<open>What a comparator promises\<close>

text \<open>
  A comparator orders the keys that are valid for it, and its two shortening functions only
  move a key up, a separator never past the limit.
\<close>

locale comparator =
  fixes C :: comparator_class and ok :: "bytes \<Rightarrow> bool"
  assumes eq_iff: "ok a \<Longrightarrow> ok b \<Longrightarrow> Compare C a b = 0 \<longleftrightarrow> a = b"
    and swap: "ok a \<Longrightarrow> ok b \<Longrightarrow> Compare C a b < 0 \<longleftrightarrow> Compare C b a > 0"
    and trans: "ok a \<Longrightarrow> ok b \<Longrightarrow> ok c \<Longrightarrow> Compare C a b < 0 \<Longrightarrow> Compare C b c < 0 \<Longrightarrow> Compare C a c < 0"
    and separator_ok: "ok s \<Longrightarrow> ok l \<Longrightarrow> ok (FindShortestSeparator C s l)"
    and separator: "ok s \<Longrightarrow> ok l \<Longrightarrow> FindShortestSeparator C s l = s \<or>
      Compare C s (FindShortestSeparator C s l) < 0 \<and> Compare C (FindShortestSeparator C s l) l < 0"
    and successor_ok: "ok s \<Longrightarrow> ok (FindShortSuccessor C s)"
    and successor: "ok s \<Longrightarrow> FindShortSuccessor C s = s \<or> Compare C s (FindShortSuccessor C s) < 0"
begin

abbreviation lt :: "bytes \<Rightarrow> bytes \<Rightarrow> bool" where "lt a b \<equiv> Compare C a b < 0"

lemma irrefl: "ok a \<Longrightarrow> \<not> lt a a"
  using eq_iff [of a a] by simp

lemma not_lt: "ok a \<Longrightarrow> ok b \<Longrightarrow> \<not> lt a b \<longleftrightarrow> lt b a \<or> a = b"
  using swap [of a b] swap [of b a] eq_iff [of a b] eq_iff [of b a] by (auto simp: not_less order_le_less)

lemma le_lt_trans: "ok a \<Longrightarrow> ok b \<Longrightarrow> ok c \<Longrightarrow> \<not> lt b a \<Longrightarrow> lt b c \<Longrightarrow> lt a c"
  using not_lt [of b a] trans [of a b c] by auto

lemma lt_le_trans: "ok a \<Longrightarrow> ok b \<Longrightarrow> ok c \<Longrightarrow> lt a b \<Longrightarrow> \<not> lt c b \<Longrightarrow> lt a c"
  using not_lt [of c b] trans [of a b c] by auto

lemma asym: "ok a \<Longrightarrow> ok b \<Longrightarrow> lt a b \<Longrightarrow> \<not> lt b a"
  using trans [of a b a] irrefl [of a] by auto

end

section \<open>The bytewise comparator\<close>

lemma Slice_compare_simps [simp]:
  "Slice_compare [] [] = 0"
  "Slice_compare [] (b # bs) = -1"
  "Slice_compare (a # as) [] = 1"
  "Slice_compare (a # as) (b # bs) = (if a = b then Slice_compare as bs else if a < b then -1 else 1)"
  by (simp_all add: Slice_compare_def Let_def)

lemma Slice_compare_less: "Slice_compare a b < 0 \<longleftrightarrow> a < b"
  by (induction a b rule: list_induct2') auto

lemma Slice_compare_greater: "0 < Slice_compare a b \<longleftrightarrow> b < a"
  by (induction a b rule: list_induct2') auto

lemma Slice_compare_eq: "Slice_compare a b = 0 \<longleftrightarrow> a = b"
  by (induction a b rule: list_induct2') auto

lemmas Slice_compare_iff = Slice_compare_less Slice_compare_greater Slice_compare_eq

lemma c_memcmp_eq: "length a = length b \<Longrightarrow> c_memcmp a b = 0 \<longleftrightarrow> a = b"
  by (induction a b rule: list_induct2) auto

lemma Slice_starts_with_prefix: "Slice_starts_with s x \<longleftrightarrow> (\<exists>t. s = x @ t)"
  by (auto simp: Slice_starts_with_def c_memcmp_eq) (metis append_take_drop_id)

text \<open>The loops find the first difference and the first byte that can be incremented.\<close>

lemma diff_loop_spec:
  assumes "i \<le> m" "take i s = take i l" "m \<le> length s" "m \<le> length l"
  shows "i \<le> diff_loop s l m i \<and> diff_loop s l m i \<le> m \<and>
    take (diff_loop s l m i) s = take (diff_loop s l m i) l \<and>
    (diff_loop s l m i < m \<longrightarrow> s ! diff_loop s l m i \<noteq> l ! diff_loop s l m i)"
  using assms
proof (induction s l m i rule: diff_loop.induct)
  case (1 s l m i)
  show ?case
  proof (cases "i < m \<and> s ! i = l ! i")
    case True
    then have "take (i + 1) s = take (i + 1) l" using "1.prems" by (simp add: take_Suc_conv_app_nth)
    with 1 True show ?thesis by (simp add: diff_loop.simps [of s l m i])
  qed (use "1.prems" in \<open>auto simp: diff_loop.simps [of s l m i]\<close>)
qed

lemma bytes_less_at:
  assumes "take i s = take i l" "i < length s" "i < length l" "s ! i < (l ! i :: u8)"
  shows "s < l"
proof -
  have split: "s = take i s @ s ! i # drop (Suc i) s" "l = take i s @ l ! i # drop (Suc i) l"
    using assms id_take_nth_drop [of i s] id_take_nth_drop [of i l] by simp_all
  have "p @ a # x < p @ b # y" if "a < b" for p x y and a b :: u8
    using that by (induction p) auto
  then show ?thesis using split assms(4) by metis
qed

lemma byte_succ:
  assumes "b \<noteq> (0xff :: u8)"
  shows "unat (b + 1) = unat b + 1"
proof (rule unat_Suc_no_wrap)
  have "unat b \<noteq> 255" using assms by (simp add: word_unat_eq_iff)
  then have "unat b + 1 < 256" using unat_lt_256 [of b] by linarith
  then have "unat (b + 1) = unat b + 1" by (simp add: unat_word_ariths)
  then show "\<not> b + 1 < b" by (simp add: word_less_nat_alt)
qed

lemma byte_succ_less: "b \<noteq> (0xff :: u8) \<Longrightarrow> uint b + 1 < uint c \<Longrightarrow> b + 1 < c"
  using byte_succ [of b] unfolding uint_nat word_less_nat_alt by linarith

lemma raise_byte_less:
  fixes s :: bytes
  assumes "i < length s" "s ! i \<noteq> 0xff"
  shows "s < take (i + 1) (s[i := s ! i + 1])"
proof (rule bytes_less_at [of i])
  show "s ! i < take (i + 1) (s[i := s ! i + 1]) ! i"
    using assms byte_succ [of "s ! i"] by (simp add: word_less_nat_alt)
qed (use assms in simp_all)

lemma Bytewise_FindShortestSeparator_between:
  "Bytewise_FindShortestSeparator s l = s \<or>
   s < Bytewise_FindShortestSeparator s l \<and> Bytewise_FindShortestSeparator s l < l"
proof (cases "Bytewise_FindShortestSeparator s l = s")
  case False
  let ?d = "diff_loop s l (min (length s) (length l)) 0"
  have eq: "Bytewise_FindShortestSeparator s l =
      (if ?d \<ge> min (length s) (length l) then s
       else if s ! ?d < 0xff \<and> uint (s ! ?d) + 1 < uint (l ! ?d) then take (?d + 1) (s[?d := s ! ?d + 1]) else s)"
    unfolding Bytewise_FindShortestSeparator_def Let_def ..
  have a: "\<not> ?d \<ge> min (length s) (length l)" using False unfolding eq by metis
  have b: "s ! ?d < 0xff \<and> uint (s ! ?d) + 1 < uint (l ! ?d)" using False a unfolding eq by metis
  have d: "?d < min (length s) (length l)" "s ! ?d < 0xff" "uint (s ! ?d) + 1 < uint (l ! ?d)"
    using a b by (metis not_le, blast, blast)
  have sep: "Bytewise_FindShortestSeparator s l = take (?d + 1) (s[?d := s ! ?d + 1])"
    unfolding eq using a b by (simp only: if_False if_True simp_thms)
  have pre: "take ?d s = take ?d l"
    using diff_loop_spec [of 0 "min (length s) (length l)" s l] by simp
  have "take (?d + 1) (s[?d := s ! ?d + 1]) < l"
  proof (rule bytes_less_at [of ?d])
    have "s ! ?d \<noteq> 0xff" using d(2) by auto
    then have "s ! ?d + 1 < l ! ?d" using d(3) by (rule byte_succ_less)
    then show "take (?d + 1) (s[?d := s ! ?d + 1]) ! ?d < l ! ?d" using d(1) by simp
  qed (use d pre in simp_all)
  then show ?thesis using raise_byte_less [of ?d s] d sep by auto
qed simp

lemma successor_loop_above: "successor_loop s i = s \<or> s < successor_loop s i"
proof (induction s i rule: successor_loop.induct)
  case (1 s i)
  then show ?case using raise_byte_less [of i s] by (simp add: successor_loop.simps [of s i] Let_def)
qed

lemma BytewiseComparator_sel [simp]:
  "Compare BytewiseComparator = Slice_compare"
  "FindShortestSeparator BytewiseComparator = Bytewise_FindShortestSeparator"
  "FindShortSuccessor BytewiseComparator = Bytewise_FindShortSuccessor"
  by (simp_all add: BytewiseComparator_def)

interpretation bytewise: comparator BytewiseComparator "\<lambda>_. True"
  using Bytewise_FindShortestSeparator_between successor_loop_above
  by unfold_locales (auto simp: Slice_compare_iff Bytewise_FindShortSuccessor_def)

section \<open>Internal keys\<close>

lemma pack_unat:
  assumes "s \<le> kMaxSequenceNumber"
  shows "unat (PackSequenceAndType s t) = unat s * 256 + unat t"
proof -
  have "kMaxSequenceNumber = 72057594037927935" by (simp add: kMaxSequenceNumber_def push_bit_eq_mult)
  then have "unat kMaxSequenceNumber = unat (72057594037927935 :: u64)" by (rule arg_cong)
  then have "unat s < 2 ^ 56" using assms unfolding word_le_nat_alt by simp
  then show ?thesis unfolding PackSequenceAndType_def
    using unat_push_bit_OR [of s 8 "ucast t"] by (simp add: unat_ucast_up)
qed

text \<open>The keys of a table: at least the eight bytes of the number.\<close>

definition valid_ikey :: "(bytes \<Rightarrow> bool) \<Rightarrow> bytes \<Rightarrow> bool" where
  "valid_ikey ok k \<longleftrightarrow> length k \<ge> 8 \<and> ok (ExtractUserKey k)"

definition ikey :: "bytes \<Rightarrow> u64 \<Rightarrow> ValueType \<Rightarrow> bytes" where
  "ikey ukey seq t = ukey @ le_bytes 8 (unat (PackSequenceAndType seq t))"

definition key_number :: "bytes \<Rightarrow> u64" where
  "key_number k = DecodeFixed64 (drop (length k - 8) k)"

lemma AppendInternalKey_ikey: "AppendInternalKey r k = r @ ikey (user_key k) (sequence k) (key_type k)"
  by (simp add: AppendInternalKey_def PutFixed64_def ikey_def)

lemma ikey_parts [simp]:
  "length (ikey u s t) = length u + 8" "ExtractUserKey (ikey u s t) = u"
  "key_number (ikey u s t) = PackSequenceAndType s t"
  using DecodeFixed64_Encode [of "PackSequenceAndType s t" "[]"]
  by (simp_all add: ikey_def ExtractUserKey_def key_number_def del: DecodeFixed64_Encode)

lemma valid_ikey_ikey [simp]: "valid_ikey ok (ikey u s t) = ok u"
  by (simp add: valid_ikey_def)

lemma key_number_inj:
  assumes "length k \<ge> 8" "length k' \<ge> 8" "ExtractUserKey k = ExtractUserKey k'" "key_number k = key_number k'"
  shows "k = k'"
proof -
  have d: "le_bytes 8 (unat (key_number k)) = drop (length k - 8) k" if "length k \<ge> 8" for k
    using that le_nat_less [of "drop (length k - 8) k"]
    by (simp add: key_number_def DecodeFixed64_def kLittleEndian_def byte_simps le_bytes_le_nat)
  have "k = ExtractUserKey k @ le_bytes 8 (unat (key_number k))" if "length k \<ge> 8" for k
    using that by (simp add: d ExtractUserKey_def)
  then show ?thesis using assms by metis
qed

lemma InternalKey_Compare_eq:
  "InternalKey_Compare C a b =
     (if Compare C (ExtractUserKey a) (ExtractUserKey b) = 0
      then if key_number a > key_number b then -1 else if key_number a < key_number b then 1 else 0
      else Compare C (ExtractUserKey a) (ExtractUserKey b))"
  by (simp add: InternalKey_Compare_def Let_def key_number_def)

lemma InternalKeyComparator_sel [simp]:
  "Compare (InternalKeyComparator C) = InternalKey_Compare C"
  "FindShortestSeparator (InternalKeyComparator C) = InternalKey_FindShortestSeparator C"
  "FindShortSuccessor (InternalKeyComparator C) = InternalKey_FindShortSuccessor C"
  by (simp_all add: InternalKeyComparator_def)

text \<open>The number that \<open>FindShortestSeparator\<close> tacks on.\<close>

lemma shortened_key:
  "PutFixed64 u (PackSequenceAndType kMaxSequenceNumber kValueTypeForSeek) = ikey u kMaxSequenceNumber kValueTypeForSeek"
  by (simp add: PutFixed64_def ikey_def)

context comparator
begin

lemma internal_lt:
  assumes "valid_ikey ok a" "valid_ikey ok b"
  shows "InternalKey_Compare C a b < 0 \<longleftrightarrow>
    lt (ExtractUserKey a) (ExtractUserKey b) \<or>
    ExtractUserKey a = ExtractUserKey b \<and> key_number b < key_number a"
  using assms eq_iff [of "ExtractUserKey a" "ExtractUserKey b"]
  by (auto simp: InternalKey_Compare_eq valid_ikey_def)

lemma internal_gt:
  assumes "valid_ikey ok a" "valid_ikey ok b"
  shows "0 < InternalKey_Compare C a b \<longleftrightarrow>
    lt (ExtractUserKey b) (ExtractUserKey a) \<or>
    ExtractUserKey a = ExtractUserKey b \<and> key_number a < key_number b"
  using assms eq_iff [of "ExtractUserKey a" "ExtractUserKey b"] swap [of "ExtractUserKey b" "ExtractUserKey a"]
  by (auto simp: InternalKey_Compare_eq valid_ikey_def)

lemma internal_shortened:
  assumes "ok u" "ok u'" "u' = u \<or> lt u u' \<and> Q u'" "valid_ikey ok k" "ExtractUserKey k = u"
  defines "k' \<equiv> if length u' < length u \<and> lt u u' then ikey u' kMaxSequenceNumber kValueTypeForSeek else k"
  shows "k' = k \<or> InternalKey_Compare C k k' < 0 \<and> Q (ExtractUserKey k')" "valid_ikey ok k'"
  using assms by (auto simp: internal_lt k'_def irrefl)

lemma internal_comparator: "comparator (InternalKeyComparator C) (valid_ikey ok)"
proof (unfold_locales, simp_all)
  fix a b c
  assume a: "valid_ikey ok a" and b: "valid_ikey ok b" and c: "valid_ikey ok c"
  note u = a [unfolded valid_ikey_def] b [unfolded valid_ikey_def] c [unfolded valid_ikey_def]
  show "InternalKey_Compare C a b < 0 \<Longrightarrow> InternalKey_Compare C b c < 0 \<Longrightarrow> InternalKey_Compare C a c < 0"
    using a b c u trans [of "ExtractUserKey a" "ExtractUserKey b" "ExtractUserKey c"]
    by (auto simp: internal_lt)
next
  fix a b
  assume a: "valid_ikey ok a" and b: "valid_ikey ok b"
  note u = a [unfolded valid_ikey_def] b [unfolded valid_ikey_def]
  show "InternalKey_Compare C a b = 0 \<longleftrightarrow> a = b"
    using u eq_iff [of "ExtractUserKey a" "ExtractUserKey b"] eq_iff [of "ExtractUserKey a" "ExtractUserKey a"]
      key_number_inj [of a b] by (auto simp: InternalKey_Compare_eq)
  show "InternalKey_Compare C a b < 0 \<longleftrightarrow> 0 < InternalKey_Compare C b a"
    using a b by (auto simp: internal_lt internal_gt)
  let ?u = "FindShortestSeparator C (ExtractUserKey a) (ExtractUserKey b)"
  have sep: "InternalKey_FindShortestSeparator C a b =
      (if length ?u < length (ExtractUserKey a) \<and> lt (ExtractUserKey a) ?u
       then ikey ?u kMaxSequenceNumber kValueTypeForSeek else a)"
    by (simp add: InternalKey_FindShortestSeparator_def Let_def shortened_key)
  have u_ok: "ok ?u" using u separator_ok by blast
  have *: "?u = ExtractUserKey a \<or> lt (ExtractUserKey a) ?u \<and> lt ?u (ExtractUserKey b)"
    using u separator by blast
  note short = internal_shortened [where Q = "\<lambda>k. lt k (ExtractUserKey b)", OF _ u_ok * a refl, folded sep]
  show valid: "valid_ikey ok (InternalKey_FindShortestSeparator C a b)" using short u by blast
  show "InternalKey_FindShortestSeparator C a b = a \<or>
      InternalKey_Compare C a (InternalKey_FindShortestSeparator C a b) < 0 \<and>
      InternalKey_Compare C (InternalKey_FindShortestSeparator C a b) b < 0"
    using short(1) u valid b by (auto simp: internal_lt)
next
  fix a
  assume a: "valid_ikey ok a"
  note u = a [unfolded valid_ikey_def]
  let ?u = "FindShortSuccessor C (ExtractUserKey a)"
  have suc: "InternalKey_FindShortSuccessor C a =
      (if length ?u < length (ExtractUserKey a) \<and> lt (ExtractUserKey a) ?u
       then ikey ?u kMaxSequenceNumber kValueTypeForSeek else a)"
    by (simp add: InternalKey_FindShortSuccessor_def Let_def shortened_key)
  have u_ok: "ok ?u" using u successor_ok by blast
  have *: "?u = ExtractUserKey a \<or> lt (ExtractUserKey a) ?u \<and> True" using u successor by blast
  note short = internal_shortened [where Q = "\<lambda>k. True", OF _ u_ok * a refl, folded suc]
  show "valid_ikey ok (InternalKey_FindShortSuccessor C a)" using short u by blast
  show "InternalKey_FindShortSuccessor C a = a \<or>
      InternalKey_Compare C a (InternalKey_FindShortSuccessor C a) < 0" using short(1) u by blast
qed

end

interpretation internal: comparator "InternalKeyComparator BytewiseComparator" "valid_ikey (\<lambda>_. True)"
  by (rule bytewise.internal_comparator)

lemma LookupKey_parts:
  "lookup_internal_key (LookupKey u s) = ikey u s kValueTypeForSeek"
  "lookup_user_key (LookupKey u s) = u"
  "lookup_memtable_key (LookupKey u s) =
     EncodeVarint32 (of_nat (length u + 8)) @ ikey u s kValueTypeForSeek"
  by (simp_all add: LookupKey_def Let_def lookup_internal_key_def lookup_user_key_def lookup_memtable_key_def
      ikey_def)

lemma ParseInternalKey_ikey:
  assumes "s \<le> kMaxSequenceNumber"
  shows "ParseInternalKey (ikey u s t) r = (t \<le> kTypeValue, \<lparr>user_key = u, sequence = s, key_type = t\<rparr>)"
proof -
  let ?n = "PackSequenceAndType s t"
  have d: "DecodeFixed64 (drop (length u) (ikey u s t)) = ?n"
    using ikey_parts(3) [of u s t] by (simp add: key_number_def)
  have "unat (drop_bit 8 ?n) = unat s" using pack_unat [OF assms, of t] by (simp add: unat_drop_bit)
  then have seq: "drop_bit 8 ?n = s" by (simp add: word_unat_eq_iff)
  have "unat (ucast ?n :: u8) = unat t"
    using pack_unat [OF assms, of t] by (simp add: unsigned_ucast_eq take_bit_eq_mod)
  then have "(ucast (?n AND 0xff) :: u8) = t" by (simp add: fixed_byte word_unat_eq_iff)
  with d seq show ?thesis by (simp add: ParseInternalKey_def Let_def) (simp add: ikey_def)
qed

lemma key_number_order:
  assumes "s \<le> kMaxSequenceNumber" "s' \<le> kMaxSequenceNumber"
  shows "PackSequenceAndType s t < PackSequenceAndType s' t' \<longleftrightarrow> s < s' \<or> s = s' \<and> t < t'"
proof -
  have "a * 256 + unat t < b * 256 + unat t' \<longleftrightarrow> a < b \<or> a = b \<and> unat t < unat t'" for a b
    using unat_lt_256 [of t] unat_lt_256 [of t'] by (cases a b rule: linorder_cases) linarith+
  then show ?thesis
    unfolding word_less_nat_alt [of "PackSequenceAndType s t"] word_less_nat_alt [of s] word_less_nat_alt [of t]
      pack_unat [OF assms(1)] pack_unat [OF assms(2)] word_unat_eq_iff [of s] .
qed

lemma ikey_less:
  assumes "s \<le> kMaxSequenceNumber" "s' \<le> kMaxSequenceNumber"
  shows "InternalKey_Compare BytewiseComparator (ikey u s t) (ikey u' s' t') < 0 \<longleftrightarrow>
    u < u' \<or> u = u' \<and> (s' < s \<or> s' = s \<and> t' < t)"
  using assms by (simp add: bytewise.internal_lt Slice_compare_iff key_number_order)

lemma lookup_key_below:
  assumes "s \<le> kMaxSequenceNumber" "s' \<le> kMaxSequenceNumber" "t \<le> kTypeValue"
  shows "InternalKey_Compare BytewiseComparator (ikey u s t) (lookup_internal_key (LookupKey u' s')) < 0 \<longleftrightarrow>
    u < u' \<or> u = u' \<and> s' < s"
  using assms by (auto simp: LookupKey_parts ikey_less kValueTypeForSeek_def)

lemma internal_key_facts:
  assumes a: "sequence a \<le> kMaxSequenceNumber" and b: "sequence b \<le> kMaxSequenceNumber"
    and s: "s \<le> kMaxSequenceNumber"
  defines "A \<equiv> AppendInternalKey [] a" and "B \<equiv> AppendInternalKey [] b"
    and "cmp \<equiv> Compare (InternalKeyComparator BytewiseComparator)"
  shows "ParseInternalKey A r = (key_type a \<le> kTypeValue, a)"
    and "cmp A B < 0 \<longleftrightarrow> user_key a < user_key b \<or>
      user_key a = user_key b \<and> (sequence b < sequence a \<or> sequence b = sequence a \<and> key_type b < key_type a)"
    and "cmp A B < 0 \<Longrightarrow> \<not> cmp (FindShortestSeparator (InternalKeyComparator BytewiseComparator) A B) A < 0 \<and>
      cmp (FindShortestSeparator (InternalKeyComparator BytewiseComparator) A B) B < 0"
    and "key_type a \<le> kTypeValue \<Longrightarrow> cmp A (lookup_internal_key (LookupKey u s)) < 0 \<longleftrightarrow>
      user_key a < u \<or> user_key a = u \<and> s < sequence a"
proof -
  have AB: "A = ikey (user_key a) (sequence a) (key_type a)" "B = ikey (user_key b) (sequence b) (key_type b)"
    by (simp_all add: A_def B_def AppendInternalKey_ikey)
  then have valid: "valid_ikey (\<lambda>_. True) A" "valid_ikey (\<lambda>_. True) B" by simp_all
  show "ParseInternalKey A r = (key_type a \<le> kTypeValue, a)" using ParseInternalKey_ikey [OF a] by (simp add: AB)
  show "cmp A B < 0 \<longleftrightarrow> user_key a < user_key b \<or>
      user_key a = user_key b \<and> (sequence b < sequence a \<or> sequence b = sequence a \<and> key_type b < key_type a)"
    using ikey_less [OF a b] by (simp add: AB cmp_def)
  show "key_type a \<le> kTypeValue \<Longrightarrow> cmp A (lookup_internal_key (LookupKey u s)) < 0 \<longleftrightarrow>
      user_key a < u \<or> user_key a = u \<and> s < sequence a"
    using lookup_key_below [OF a s] by (simp add: AB cmp_def)
  assume "cmp A B < 0"
  then show "\<not> cmp (FindShortestSeparator (InternalKeyComparator BytewiseComparator) A B) A < 0 \<and>
      cmp (FindShortestSeparator (InternalKeyComparator BytewiseComparator) A B) B < 0"
    unfolding cmp_def using internal.separator [OF valid] internal.separator_ok [OF valid] internal.irrefl [OF valid(1)]
      internal.asym [OF valid(1)] by fastforce
qed

section \<open>Properties\<close>

text \<open>
  C29. Internal keys: \<open>ParseInternalKey\<close> reads back what \<open>AppendInternalKey\<close> wrote and
  rejects an unknown type; \<open>InternalKeyComparator\<close> over the bytewise comparator orders them by
  user key, then by falling sequence number, then by falling type; between a key and a larger
  one \<open>FindShortestSeparator\<close> returns a key at or above the first and below the second; and
  the key that \<open>LookupKey\<close> builds for a snapshot lies above exactly the entries with a smaller
  user key or the same user key and a later sequence number.
\<close>

theorem internal_key_order:
  assumes "sequence a \<le> kMaxSequenceNumber" "sequence b \<le> kMaxSequenceNumber" "s \<le> kMaxSequenceNumber"
    and "key_type a \<le> kTypeValue"
  shows "let A = AppendInternalKey [] a; B = AppendInternalKey [] b;
      C = InternalKeyComparator BytewiseComparator; sep = FindShortestSeparator C A B in
    ParseInternalKey A r = (True, a) \<and>
    (Compare C A B < 0 \<longleftrightarrow> user_key a < user_key b \<or>
      user_key a = user_key b \<and> (sequence b < sequence a \<or> sequence b = sequence a \<and> key_type b < key_type a)) \<and>
    (\<not> Compare C A B < 0 \<or> \<not> Compare C sep A < 0 \<and> Compare C sep B < 0) \<and>
    (Compare C A (lookup_internal_key (LookupKey u s)) < 0 \<longleftrightarrow> user_key a < u \<or> user_key a = u \<and> s < sequence a)"
  unfolding Let_def using internal_key_facts [OF assms(1-3)] assms(4) by auto

theorem internal_key_order_witness:
  "let A = AppendInternalKey [] \<lparr>user_key = [1, 2, 3], sequence = 5, key_type = kTypeValue\<rparr>;
       B = AppendInternalKey [] \<lparr>user_key = [1, 4], sequence = 9, key_type = kTypeDeletion\<rparr> in
    Compare (InternalKeyComparator BytewiseComparator) A B < 0 \<and>
    ParseInternalKey A \<lparr>user_key = [], sequence = 0, key_type = 0\<rparr> =
      (True, \<lparr>user_key = [1, 2, 3], sequence = 5, key_type = kTypeValue\<rparr>)"
  using internal_key_order [of "\<lparr>user_key = [1, 2, 3], sequence = 5, key_type = kTypeValue\<rparr>"
      "\<lparr>user_key = [1, 4], sequence = 9, key_type = kTypeDeletion\<rparr>" 7
      "\<lparr>user_key = [], sequence = 0, key_type = 0\<rparr>"]
  by (simp add: Let_def kMaxSequenceNumber_def push_bit_eq_mult Cons_less_Cons)

end
