(* ===== verification/Ldb_Log.thy ===== *)
theory Ldb_Log
  imports Ldb_Coding Ldb_Crc "HOL-Library.Monad_Syntax"
begin

text \<open>
  The write-ahead log of leveldb (\<open>db/log_writer.cc\<close>, \<open>db/log_reader.cc\<close>): records
  are cut into fragments that do not cross the 32 KiB blocks of the file, each with a checksum.
  The file classes of \<open>env_posix.cc\<close> are below the writer and the reader; the interfaces
  are locales.
\<close>

section \<open>Definitions\<close>

subsection \<open>Status and files\<close>

datatype Status =
    Status_OK
  | NotFound string
  | Corruption string
  | NotSupported string
  | InvalidArgument string
  | IOError string

abbreviation status_ok :: "Status \<Rightarrow> bool" where "status_ok s \<equiv> s = Status_OK"

text \<open>
  A \<open>FILE\<close> of the C library open for reading: its bytes, the position, the position at
  which reading hits an I/O error, if any, and whether the file can be positioned.
\<close>

record posix_in =
  in_data :: bytes
  in_pos :: nat
  in_fault :: "nat option"
  in_seekable :: bool

definition fread_unlocked :: "nat \<Rightarrow> posix_in \<Rightarrow> bytes \<times> bool \<times> posix_in" where
  "fread_unlocked n f =
     (let stop = (case in_fault f of None \<Rightarrow> length (in_data f) | Some i \<Rightarrow> min i (length (in_data f)));
          r = take (min n (stop - in_pos f)) (drop (in_pos f) (in_data f));
          f' = f\<lparr>in_pos := in_pos f + length r\<rparr>
      in (r, length (in_data f) \<le> in_pos f', f'))"

definition PosixSequentialFile_Read :: "posix_in \<Rightarrow> nat \<Rightarrow> Status \<times> bytes \<times> posix_in" where
  "PosixSequentialFile_Read f n =
     (case fread_unlocked n f of
        (r, at_eof, f) \<Rightarrow>
          (if length r < n then if at_eof then Status_OK else IOError ''read'' else Status_OK, r, f))"

text \<open>
  The argument of \<open>fseek\<close> is a signed 64-bit number; it refuses a position that is negative or above the
  range of the type, and a file that cannot be positioned.
\<close>

definition fseek_cur :: "posix_in \<Rightarrow> int \<Rightarrow> posix_in option" where
  "fseek_cur f offset =
     (let pos = int (in_pos f) + offset in
      if \<not> in_seekable f \<or> pos < 0 \<or> 2 ^ 63 \<le> pos then None else Some (f\<lparr>in_pos := nat pos\<rparr>))"

definition PosixSequentialFile_Skip :: "posix_in \<Rightarrow> u64 \<Rightarrow> Status \<times> posix_in" where
  "PosixSequentialFile_Skip f n =
     (case fseek_cur f (sint n) of None \<Rightarrow> (IOError ''fseek'', f) | Some f \<Rightarrow> (Status_OK, f))"

text \<open>
  A \<open>FILE\<close> open for writing: its bytes, the room left on the device, if it is bounded, and whether
  flushing its buffer works.
\<close>

record posix_out =
  out_data :: bytes
  out_room :: "nat option"
  out_flush_ok :: bool

definition PosixWritableFile_Append :: "posix_out \<Rightarrow> bytes \<Rightarrow> Status \<times> posix_out" where
  "PosixWritableFile_Append f data =
     (let r = (case out_room f of None \<Rightarrow> length data | Some n \<Rightarrow> min n (length data));
          f = f\<lparr>out_data := out_data f @ take r data, out_room := map_option (\<lambda>n. n - r) (out_room f)\<rparr>
      in (if r \<noteq> length data then IOError ''write'' else Status_OK, f))"

definition PosixWritableFile_Flush :: "posix_out \<Rightarrow> Status \<times> posix_out" where
  "PosixWritableFile_Flush f = (if out_flush_ok f then Status_OK else IOError ''fflush'', f)"

text \<open>The virtual functions of \<open>WritableFile\<close> and \<open>SequentialFile\<close> that the log calls.\<close>

record 'f writable_file_class =
  wf_append :: "'f \<Rightarrow> bytes \<Rightarrow> Status \<times> 'f"
  wf_flush :: "'f \<Rightarrow> Status \<times> 'f"

record 'f sequential_file_class =
  sf_read :: "'f \<Rightarrow> nat \<Rightarrow> Status \<times> bytes \<times> 'f"
  sf_skip :: "'f \<Rightarrow> u64 \<Rightarrow> Status \<times> 'f"

definition posix_writable :: "posix_out writable_file_class" where
  "posix_writable = \<lparr>wf_append = PosixWritableFile_Append, wf_flush = PosixWritableFile_Flush\<rparr>"

definition posix_sequential :: "posix_in sequential_file_class" where
  "posix_sequential = \<lparr>sf_read = PosixSequentialFile_Read, sf_skip = PosixSequentialFile_Skip\<rparr>"

subsection \<open>The format\<close>

abbreviation (input) kZeroType :: u32 where "kZeroType \<equiv> 0"
abbreviation (input) kFullType :: u32 where "kFullType \<equiv> 1"
abbreviation (input) kFirstType :: u32 where "kFirstType \<equiv> 2"
abbreviation (input) kMiddleType :: u32 where "kMiddleType \<equiv> 3"
abbreviation (input) kLastType :: u32 where "kLastType \<equiv> 4"
abbreviation (input) kMaxRecordType :: nat where "kMaxRecordType \<equiv> 4"
abbreviation (input) kEof :: u32 where "kEof \<equiv> 5"
abbreviation (input) kBadRecord :: u32 where "kBadRecord \<equiv> 6"
abbreviation (input) kBlockSize :: nat where "kBlockSize \<equiv> 32768"
abbreviation (input) kHeaderSize :: nat where "kHeaderSize \<equiv> 7"

subsection \<open>The writer\<close>

record 'f log_writer =
  lw_dest :: 'f
  lw_block_offset :: nat
  lw_type_crc :: "u32 list"

definition InitTypeCrc :: "u32 list" where
  "InitTypeCrc = map (\<lambda>i. Value 0 [of_nat i]) [0..<kMaxRecordType + 1]"

definition Writer :: "'f \<Rightarrow> u64 \<Rightarrow> 'f log_writer" where
  "Writer dest dest_length =
     \<lparr>lw_dest = dest, lw_block_offset = unat (dest_length mod of_nat kBlockSize), lw_type_crc = InitTypeCrc\<rparr>"

definition EmitPhysicalRecord ::
    "'f writable_file_class \<Rightarrow> 'f log_writer \<Rightarrow> u32 \<Rightarrow> bytes \<Rightarrow> Status \<times> 'f log_writer" where
  "EmitPhysicalRecord cls w t frag =
     (let n = of_nat (length frag) :: u64;
          crc = Mask (Extend 0 (lw_type_crc w ! unat t) frag);
          buf = EncodeFixed32 crc @ [ucast (n AND 0xff), ucast (drop_bit 8 n), ucast t];
          (s, f) = wf_append cls (lw_dest w) buf;
          (s, f) = (if status_ok s then
                      case wf_append cls f frag of
                        (s, f) \<Rightarrow> if status_ok s then wf_flush cls f else (s, f)
                    else (s, f))
      in (s, w\<lparr>lw_dest := f, lw_block_offset := lw_block_offset w + kHeaderSize + length frag\<rparr>))"

text \<open>The top of the loop of \<open>AddRecord\<close>: a new block when not even a header fits.\<close>

definition switch_block :: "'f writable_file_class \<Rightarrow> 'f log_writer \<Rightarrow> 'f log_writer" where
  "switch_block cls w =
     (let leftover = int kBlockSize - int (lw_block_offset w) in
      if leftover < int kHeaderSize then
        let f = (if leftover > 0 then snd (wf_append cls (lw_dest w) (replicate (nat leftover) 0)) else lw_dest w)
        in w\<lparr>lw_dest := f, lw_block_offset := 0\<rparr>
      else w)"

lemma switch_block_offset: "lw_block_offset (switch_block cls w) + kHeaderSize \<le> kBlockSize"
  by (auto simp: switch_block_def Let_def)

lemma EmitPhysicalRecord_offset:
  "lw_block_offset (snd (EmitPhysicalRecord cls w t frag)) = lw_block_offset w + kHeaderSize + length frag"
  by (simp add: EmitPhysicalRecord_def Let_def split: prod.split)

text \<open>
  A fragment of length zero is written only at the very end of a block, and the next one is
  not: the loop makes progress.
\<close>

lemma AddRecord_progress:
  assumes emit: "EmitPhysicalRecord cls (switch_block cls w) t frag = (s, w')"
    and frag: "length frag = kBlockSize - lw_block_offset (switch_block cls w) - kHeaderSize" "length frag < n"
  shows "2 * (n - length frag) + (if lw_block_offset w' = kBlockSize - kHeaderSize then 1 else 0) <
    2 * n + (if lw_block_offset w = kBlockSize - kHeaderSize then 1 else 0 :: nat)"
proof (cases "frag = []")
  case True
  then have bo: "lw_block_offset (switch_block cls w) = kBlockSize - kHeaderSize"
    using frag(1) switch_block_offset [of cls w] by simp
  then have "lw_block_offset w = kBlockSize - kHeaderSize" by (auto simp: switch_block_def Let_def split: if_splits)
  moreover have "lw_block_offset w' = kBlockSize"
    using EmitPhysicalRecord_offset [of cls "switch_block cls w" t frag] emit bo True by simp
  ultimately show ?thesis using True by simp
next
  case False
  then have "0 < length frag" by simp
  then have "2 * (n - length frag) + 1 < 2 * n" using frag(2) by arith
  then show ?thesis by auto
qed

function AddRecord_loop ::
    "'f writable_file_class \<Rightarrow> 'f log_writer \<Rightarrow> bytes \<Rightarrow> bool \<Rightarrow> Status \<times> 'f log_writer" where
  "AddRecord_loop cls w ptr begin_rec =
     (let w = switch_block cls w;
          avail = kBlockSize - lw_block_offset w - kHeaderSize;
          fragment_length = (if length ptr < avail then length ptr else avail);
          end_rec = (length ptr = fragment_length);
          t = (if begin_rec \<and> end_rec then kFullType else if begin_rec then kFirstType
               else if end_rec then kLastType else kMiddleType);
          (s, w) = EmitPhysicalRecord cls w t (take fragment_length ptr);
          ptr = drop fragment_length ptr
      in if status_ok s \<and> length ptr > 0 then AddRecord_loop cls w ptr False else (s, w))"
  by pat_completeness auto
termination
proof (relation "measure (\<lambda>(_, w, ptr, _). 2 * length ptr + (if lw_block_offset w = kBlockSize - kHeaderSize then 1 else 0))",
    goal_cases)
  case (2 cls w ptr begin_rec w1 avail fragment_length end_rec t p s w2 ptr')
  then have "length ptr' = length ptr - fragment_length" "0 < length ptr'" by simp_all
  then have "fragment_length = avail" "avail < length ptr" using 2(3) by (auto split: if_splits)
  then show ?case
    using AddRecord_progress [of cls w t "take avail ptr" s w2 "length ptr"] 2 by simp
qed simp

declare AddRecord_loop.simps [simp del]

definition AddRecord :: "'f writable_file_class \<Rightarrow> 'f log_writer \<Rightarrow> bytes \<Rightarrow> Status \<times> 'f log_writer" where
  "AddRecord cls w data = AddRecord_loop cls w data True"

subsection \<open>The reader\<close>

text \<open>
  The reports to the reporter, if there is one, are kept in order. \<open>lr_buffer\<close> is what
  remains of the block last read.
\<close>

record 'f log_reader =
  lr_file :: 'f
  lr_reporter :: "(u64 \<times> Status) list option"
  lr_checksum :: bool
  lr_buffer :: bytes
  lr_eof :: bool
  lr_last_record_offset :: u64
  lr_end_of_buffer_offset :: u64
  lr_initial_offset :: u64
  lr_resyncing :: bool

definition Reader :: "'f \<Rightarrow> (u64 \<times> Status) list option \<Rightarrow> bool \<Rightarrow> u64 \<Rightarrow> 'f log_reader" where
  "Reader file reporter checksum initial_offset =
     \<lparr>lr_file = file, lr_reporter = reporter, lr_checksum = checksum, lr_buffer = [], lr_eof = False,
      lr_last_record_offset = 0, lr_end_of_buffer_offset = 0, lr_initial_offset = initial_offset,
      lr_resyncing = (initial_offset > 0)\<rparr>"

abbreviation buffer_size :: "'f log_reader \<Rightarrow> u64" where "buffer_size r \<equiv> of_nat (length (lr_buffer r))"

definition ReportDrop :: "'f log_reader \<Rightarrow> u64 \<Rightarrow> Status \<Rightarrow> 'f log_reader" where
  "ReportDrop r n reason =
     (case lr_reporter r of
        None \<Rightarrow> r
      | Some rs \<Rightarrow>
          if lr_end_of_buffer_offset r - buffer_size r - n \<ge> lr_initial_offset r
          then r\<lparr>lr_reporter := Some (rs @ [(n, reason)])\<rparr> else r)"

definition ReportCorruption :: "'f log_reader \<Rightarrow> u64 \<Rightarrow> string \<Rightarrow> 'f log_reader" where
  "ReportCorruption r n reason = ReportDrop r n (Corruption reason)"

definition SkipToInitialBlock :: "'f sequential_file_class \<Rightarrow> 'f log_reader \<Rightarrow> bool \<times> 'f log_reader" where
  "SkipToInitialBlock cls r =
     (let offset_in_block = lr_initial_offset r mod of_nat kBlockSize;
          block_start_location = lr_initial_offset r - offset_in_block;
          block_start_location =
            (if offset_in_block > of_nat kBlockSize - 6 then block_start_location + of_nat kBlockSize
             else block_start_location);
          r = r\<lparr>lr_end_of_buffer_offset := block_start_location\<rparr>
      in if block_start_location > 0 then
           (case sf_skip cls (lr_file r) block_start_location of
              (s, f) \<Rightarrow>
                let r = r\<lparr>lr_file := f\<rparr> in
                if \<not> status_ok s then (False, ReportDrop r block_start_location s) else (True, r))
         else (True, r))"

text \<open>The length in a header.\<close>

definition header_size :: "bytes \<Rightarrow> nat" where
  "header_size hdr =
     (let a = ucast (hdr ! 4) AND 0xff; b = ucast (hdr ! 5) AND 0xff in unat (a OR push_bit 8 b :: u32))"

text \<open>
  \<open>ReadPhysicalRecord\<close>: the type or a special value, and the fragment, which keeps its old
  value when the function does not set it. \<open>header[6]\<close> is a signed \<open>char\<close>.
\<close>

function ReadPhysicalRecord ::
    "'f sequential_file_class \<Rightarrow> 'f log_reader \<Rightarrow> bytes \<Rightarrow> u32 \<times> bytes \<times> 'f log_reader" where
  "ReadPhysicalRecord cls r result =
     (if length (lr_buffer r) < kHeaderSize then
        if \<not> lr_eof r then
          (case sf_read cls (lr_file r) kBlockSize of
             (s, buf, f) \<Rightarrow>
               let r = r\<lparr>lr_file := f, lr_buffer := buf,
                        lr_end_of_buffer_offset := lr_end_of_buffer_offset r + of_nat (length buf)\<rparr>
               in if \<not> status_ok s then
                    (kEof, result, (ReportDrop (r\<lparr>lr_buffer := []\<rparr>) (of_nat kBlockSize) s)\<lparr>lr_eof := True\<rparr>)
                  else if length buf < kBlockSize then ReadPhysicalRecord cls (r\<lparr>lr_eof := True\<rparr>) result
                  else ReadPhysicalRecord cls r result)
        else (kEof, result, r\<lparr>lr_buffer := []\<rparr>)
      else
        let hdr = lr_buffer r;
            len = header_size hdr;
            t = scast (hdr ! 6)
        in if kHeaderSize + len > length (lr_buffer r) then
             let drop_size = of_nat (length (lr_buffer r)); r = r\<lparr>lr_buffer := []\<rparr> in
             if \<not> lr_eof r then (kBadRecord, result, ReportCorruption r drop_size ''bad record length'')
             else (kEof, result, r)
           else if t = kZeroType \<and> len = 0 then (kBadRecord, result, r\<lparr>lr_buffer := []\<rparr>)
           else if lr_checksum r \<and> Value 0 (take (1 + len) (drop 6 hdr)) \<noteq> Unmask (DecodeFixed32 hdr) then
             let drop_size = of_nat (length (lr_buffer r)); r = r\<lparr>lr_buffer := []\<rparr> in
             (kBadRecord, result, ReportCorruption r drop_size ''checksum mismatch'')
           else
             let r = r\<lparr>lr_buffer := drop (kHeaderSize + len) (lr_buffer r)\<rparr> in
             if lr_end_of_buffer_offset r - buffer_size r - of_nat kHeaderSize - of_nat len < lr_initial_offset r
             then (kBadRecord, [], r)
             else (t, take len (drop kHeaderSize hdr), r))"
  by pat_completeness auto
termination
  by (relation "measure (\<lambda>(_, r, _). if lr_eof r \<or> kHeaderSize \<le> length (lr_buffer r) then 0 else 1)") auto

declare ReadPhysicalRecord.simps [simp del]

fun decimal :: "nat \<Rightarrow> string" where
  "decimal n = (if n < 10 then [char_of (48 + n)] else decimal (n div 10) @ [char_of (48 + n mod 10)])"

declare decimal.simps [simp del]

text \<open>
  The loop of \<open>ReadRecord\<close> with its variables \<open>scratch\<close>, \<open>in_fragmented_record\<close>,
  \<open>prospective_record_offset\<close> and \<open>fragment\<close>: the record, if one was read.
\<close>

partial_function (option) ReadRecord_loop ::
    "'f sequential_file_class \<Rightarrow> 'f log_reader \<Rightarrow> bytes \<Rightarrow> bool \<Rightarrow> u64 \<Rightarrow> bytes \<Rightarrow> (bytes option \<times> 'f log_reader) option" where
  "ReadRecord_loop cls r scratch in_fragmented prospective fragment =
     (case ReadPhysicalRecord cls r fragment of
        (t, fragment, r) \<Rightarrow>
          let physical = lr_end_of_buffer_offset r - buffer_size r - of_nat kHeaderSize - of_nat (length fragment) in
          if lr_resyncing r \<and> t = kMiddleType then ReadRecord_loop cls r scratch in_fragmented prospective fragment
          else if lr_resyncing r \<and> t = kLastType then
            ReadRecord_loop cls (r\<lparr>lr_resyncing := False\<rparr>) scratch in_fragmented prospective fragment
          else
            let r = r\<lparr>lr_resyncing := False\<rparr> in
            if t = kFullType then
              let r = (if in_fragmented \<and> scratch \<noteq> [] then
                         ReportCorruption r (of_nat (length scratch)) ''partial record without end(1)'' else r)
              in Some (Some fragment, r\<lparr>lr_last_record_offset := physical\<rparr>)
            else if t = kFirstType then
              let r = (if in_fragmented \<and> scratch \<noteq> [] then
                         ReportCorruption r (of_nat (length scratch)) ''partial record without end(2)'' else r)
              in ReadRecord_loop cls r fragment True physical fragment
            else if t = kMiddleType then
              if \<not> in_fragmented then
                ReadRecord_loop cls
                  (ReportCorruption r (of_nat (length fragment)) ''missing start of fragmented record(1)'')
                  scratch in_fragmented prospective fragment
              else ReadRecord_loop cls r (scratch @ fragment) in_fragmented prospective fragment
            else if t = kLastType then
              if \<not> in_fragmented then
                ReadRecord_loop cls
                  (ReportCorruption r (of_nat (length fragment)) ''missing start of fragmented record(2)'')
                  scratch in_fragmented prospective fragment
              else Some (Some (scratch @ fragment), r\<lparr>lr_last_record_offset := prospective\<rparr>)
            else if t = kEof then Some (None, r)
            else if t = kBadRecord then
              if in_fragmented then
                ReadRecord_loop cls (ReportCorruption r (of_nat (length scratch)) ''error in middle of record'')
                  [] False prospective fragment
              else ReadRecord_loop cls r scratch in_fragmented prospective fragment
            else
              ReadRecord_loop cls
                (ReportCorruption r
                  (of_nat (length fragment + (if in_fragmented then length scratch else 0)))
                  (''unknown record type '' @ decimal (unat t)))
                [] False prospective fragment)"

definition ReadRecord ::
    "'f sequential_file_class \<Rightarrow> 'f log_reader \<Rightarrow> (bytes option \<times> 'f log_reader) option" where
  "ReadRecord cls r =
     (case (if lr_last_record_offset r < lr_initial_offset r then SkipToInitialBlock cls r else (True, r)) of
        (ok, r) \<Rightarrow> if \<not> ok then Some (None, r) else ReadRecord_loop cls r [] False 0 [])"

section \<open>The layout of the file\<close>

text \<open>
  A physical record, and the bytes from offset \<open>bo\<close> of a block to offset \<open>bo'\<close> that
  hold the physical records \<open>ps\<close>: where no header fits, the rest of the block is zero.
\<close>

definition physical :: "u32 \<Rightarrow> bytes \<Rightarrow> bytes" where
  "physical t frag =
     EncodeFixed32 (Mask (Value 0 (ucast t # frag))) @
     [of_nat (length frag), of_nat (length frag div 256), ucast t] @ frag"

definition gap :: "nat \<Rightarrow> nat" where
  "gap bo = (if bo + kHeaderSize \<le> kBlockSize then 0 else kBlockSize - bo)"

definition slot :: "nat \<Rightarrow> nat" where
  "slot bo = (if bo + kHeaderSize \<le> kBlockSize then bo else 0)"

inductive frames :: "nat \<Rightarrow> bytes \<Rightarrow> (u32 \<times> bytes) list \<Rightarrow> nat \<Rightarrow> bool" where
  frames_Nil: "frames bo [] [] bo"
| frames_Cons: "t \<in> {1..4} \<Longrightarrow> slot bo + kHeaderSize + length frag \<le> kBlockSize \<Longrightarrow>
    frames (slot bo + kHeaderSize + length frag) bs ps bo' \<Longrightarrow>
    frames bo (replicate (gap bo) 0 @ physical t frag @ bs) ((t, frag) # ps) bo'"

inductive_cases frames_ConsE: "frames bo bs (p # ps) bo'"
inductive_simps frames_Nil_iff [simp]: "frames bo bs [] bo'"

lemma frames_append: "frames bo xs ps bo1 \<Longrightarrow> frames bo1 ys qs bo2 \<Longrightarrow> frames bo (xs @ ys) (ps @ qs) bo2"
proof (induction rule: frames.induct)
  case (frames_Cons t bo frag bs ps bo')
  then show ?case using frames.frames_Cons [of t bo frag "bs @ ys" "ps @ qs"] by simp
qed simp

text \<open>The fragments of a record: \<open>b\<close> tells whether the record begins with them.\<close>

fun pieces :: "bool \<Rightarrow> (u32 \<times> bytes) list \<Rightarrow> bytes \<Rightarrow> bool" where
  "pieces b [] data \<longleftrightarrow> False"
| "pieces b [(t, frag)] data \<longleftrightarrow> t = (if b then kFullType else kLastType) \<and> data = frag"
| "pieces b ((t, frag) # p # ps) data \<longleftrightarrow>
     t = (if b then kFirstType else kMiddleType) \<and> (\<exists>rest. data = frag @ rest \<and> pieces False (p # ps) rest)"

section \<open>Interfaces\<close>

text \<open>
  What the log needs of a file: a healthy file takes everything that is appended to it, and
  gives \<open>n\<close> bytes or what is left.
\<close>

locale writable_file =
  fixes cls :: "'f writable_file_class" and content :: "'f \<Rightarrow> bytes" and healthy :: "'f \<Rightarrow> bool"
  assumes append: "healthy f \<Longrightarrow>
      \<exists>f'. wf_append cls f data = (Status_OK, f') \<and> content f' = content f @ data \<and> healthy f'"
    and flush: "healthy f \<Longrightarrow> \<exists>f'. wf_flush cls f = (Status_OK, f') \<and> content f' = content f \<and> healthy f'"
begin

lemma EmitPhysicalRecord_writes:
  assumes w: "healthy (lw_dest w)" "lw_type_crc w = InitTypeCrc" and t: "t \<in> {1..4}" and len: "length frag < 2 ^ 16"
  shows "\<exists>w'. EmitPhysicalRecord cls w t frag = (Status_OK, w') \<and> healthy (lw_dest w') \<and> lw_type_crc w' = InitTypeCrc \<and>
    content (lw_dest w') = content (lw_dest w) @ physical t frag \<and>
    lw_block_offset w' = lw_block_offset w + kHeaderSize + length frag"
proof -
  have "unat t \<le> 4" using t by (simp add: word_le_nat_alt)
  then have "lw_type_crc w ! unat t = Value 0 [of_nat (unat t)]"
    by (simp add: w(2) InitTypeCrc_def del: upt_Suc)
  then have crc: "Extend 0 (lw_type_crc w ! unat t) frag = Value 0 (ucast t # frag)"
    by (simp add: Value_def Extend_crc crc32c_append)
  have n: "(ucast ((of_nat (length frag) :: u64) AND 0xff) :: u8) = of_nat (length frag)"
    "(ucast (drop_bit 8 (of_nat (length frag) :: u64)) :: u8) = of_nat (length frag div 256)"
  proof -
    have u: "unat (of_nat (length frag) :: u64) = length frag" using len by (intro unat_of_nat_eq) simp
    have "(ucast (of_nat (length frag) :: u64) :: u8) = of_nat (length frag)" by (rule word_unat_eq_iff [THEN iffD2])
      (simp add: unsigned_ucast_eq take_bit_eq_mod u byte_simps)
    then show "(ucast ((of_nat (length frag) :: u64) AND 0xff) :: u8) = of_nat (length frag)"
      using fixed_byte [of "of_nat (length frag) :: u64"] by (simp only:) simp
    show "(ucast (drop_bit 8 (of_nat (length frag) :: u64)) :: u8) = of_nat (length frag div 256)"
      using byte_of_unat [of "of_nat (length frag) :: u64" 8] u by simp
  qed
  obtain f1 where f1: "wf_append cls (lw_dest w) (EncodeFixed32 (Mask (Value 0 (ucast t # frag))) @
      [of_nat (length frag), of_nat (length frag div 256), ucast t]) = (Status_OK, f1)"
    "content f1 = content (lw_dest w) @ EncodeFixed32 (Mask (Value 0 (ucast t # frag))) @
      [of_nat (length frag), of_nat (length frag div 256), ucast t]" "healthy f1"
    using append [OF w(1)] by blast
  obtain f2 where f2: "wf_append cls f1 frag = (Status_OK, f2)" "content f2 = content f1 @ frag" "healthy f2"
    using append [OF f1(3)] by blast
  obtain f3 where f3: "wf_flush cls f2 = (Status_OK, f3)" "content f3 = content f2" "healthy f3"
    using flush [OF f2(3)] by blast
  show ?thesis
    using f1 f2 f3 by (simp add: EmitPhysicalRecord_def Let_def crc [unfolded w(2)] n physical_def w(2) del: EncodeFixed32_le)
qed

lemma switch_block_writes:
  assumes "healthy (lw_dest w)" "lw_block_offset w \<le> kBlockSize"
  shows "healthy (lw_dest (switch_block cls w))" "lw_type_crc (switch_block cls w) = lw_type_crc w"
    "content (lw_dest (switch_block cls w)) = content (lw_dest w) @ replicate (gap (lw_block_offset w)) 0"
    "lw_block_offset (switch_block cls w) = slot (lw_block_offset w)"
proof -
  let ?n = "kBlockSize - lw_block_offset w"
  obtain f where f: "wf_append cls (lw_dest w) (replicate ?n 0) = (Status_OK, f)"
    "content f = content (lw_dest w) @ replicate ?n 0" "healthy f"
    using append [OF assms(1)] by blast
  have n: "nat (32768 - int (lw_block_offset w)) = ?n" using assms(2) by simp
  show "healthy (lw_dest (switch_block cls w))" "lw_type_crc (switch_block cls w) = lw_type_crc w"
    "content (lw_dest (switch_block cls w)) = content (lw_dest w) @ replicate (gap (lw_block_offset w)) 0"
    "lw_block_offset (switch_block cls w) = slot (lw_block_offset w)"
    using assms f by (auto simp: switch_block_def Let_def n gap_def slot_def)
qed

lemma AddRecord_loop_writes:
  assumes "healthy (lw_dest w)" "lw_type_crc w = InitTypeCrc" "lw_block_offset w \<le> kBlockSize"
  shows "\<exists>w' bs ps. AddRecord_loop cls w ptr b = (Status_OK, w') \<and> healthy (lw_dest w') \<and> lw_type_crc w' = InitTypeCrc \<and>
    content (lw_dest w') = content (lw_dest w) @ bs \<and> frames (lw_block_offset w) bs ps (lw_block_offset w') \<and>
    pieces b ps ptr \<and> lw_block_offset w' \<le> kBlockSize"
  using assms
proof (induction "2 * length ptr + (if lw_block_offset w = kBlockSize - kHeaderSize then 1 else 0)"
    arbitrary: w ptr b rule: less_induct)
  case less
  define w1 where "w1 = switch_block cls w"
  note sw = switch_block_writes [OF less.prems(1,3), folded w1_def]
  define avail where "avail = kBlockSize - lw_block_offset w1 - kHeaderSize"
  define n where "n = (if length ptr < avail then length ptr else avail)"
  define last_one where "last_one = (length ptr = n)"
  define t where "t = (if b \<and> last_one then kFullType else if b then kFirstType
      else if last_one then kLastType else kMiddleType)"
  have t: "t \<in> {1..4}" by (auto simp: t_def)
  have off: "lw_block_offset w1 + kHeaderSize \<le> kBlockSize" using switch_block_offset [of cls w] by (simp add: w1_def)
  have n: "length (take n ptr) = n" "n \<le> length ptr" "lw_block_offset w1 + kHeaderSize + n \<le> kBlockSize" "n < 2 ^ 16"
    using off by (auto simp: n_def avail_def)
  obtain w2 where w2: "EmitPhysicalRecord cls w1 t (take n ptr) = (Status_OK, w2)" "healthy (lw_dest w2)"
    "lw_type_crc w2 = InitTypeCrc" "content (lw_dest w2) = content (lw_dest w1) @ physical t (take n ptr)"
    "lw_block_offset w2 = lw_block_offset w1 + kHeaderSize + n"
    using EmitPhysicalRecord_writes [of w1 t "take n ptr"] sw less.prems(2) t n by auto
  have step: "AddRecord_loop cls w ptr b =
      (if length ptr > n then AddRecord_loop cls w2 (drop n ptr) False else (Status_OK, w2))"
    by (subst AddRecord_loop.simps)
      (simp only: Let_def w1_def [symmetric] avail_def [symmetric] n_def [symmetric] last_one_def [symmetric]
        t_def [symmetric] w2(1) prod.case, simp)
  let ?head = "replicate (gap (lw_block_offset w)) 0 @ physical t (take n ptr)"
  have head: "frames (lw_block_offset w) (?head @ bs) ((t, take n ptr) # ps) bo'" if "frames (lw_block_offset w2) bs ps bo'" for bs ps bo'
    using frames_Cons [of t "lw_block_offset w" "take n ptr" bs ps bo'] t n that w2(5) by (simp add: sw(4) min_absorb2)
  show ?case
  proof (cases "length ptr > n")
    case False
    then have "last_one" "take n ptr = ptr" using n(2) by (simp_all add: last_one_def)
    then have "pieces b [(t, take n ptr)] ptr" by (auto simp: t_def)
    then show ?thesis using False head [OF frames_Nil] w2 sw n(3) by (auto simp: step intro!: exI [of _ ?head])
  next
    case True
    then have "n = avail" by (simp add: n_def split: if_splits)
    have "2 * (length ptr - n) + (if lw_block_offset w2 = kBlockSize - kHeaderSize then 1 else 0) <
        2 * length ptr + (if lw_block_offset w = kBlockSize - kHeaderSize then 1 else 0 :: nat)"
      using AddRecord_progress [OF w2(1) [unfolded w1_def], of "length ptr"] True n(1) \<open>n = avail\<close>
      by (simp add: avail_def w1_def)
    then have less1: "2 * length (drop n ptr) + (if lw_block_offset w2 = kBlockSize - kHeaderSize then 1 else 0) <
        2 * length ptr + (if lw_block_offset w = kBlockSize - kHeaderSize then 1 else 0 :: nat)" by simp
    have "lw_block_offset w2 \<le> kBlockSize" using w2(5) n(3) by simp
    from less.hyps [OF less1 w2(2,3) this, of False] obtain w' bs ps where IH:
      "AddRecord_loop cls w2 (drop n ptr) False = (Status_OK, w')" "healthy (lw_dest w')" "lw_type_crc w' = InitTypeCrc"
      "content (lw_dest w') = content (lw_dest w2) @ bs" "frames (lw_block_offset w2) bs ps (lw_block_offset w')"
      "pieces False ps (drop n ptr)" "lw_block_offset w' \<le> kBlockSize" by auto
    have "pieces b ((t, take n ptr) # ps) ptr"
    proof (cases ps)
      case (Cons p qs)
      have "\<not> last_one" using True by (simp add: last_one_def)
      then show ?thesis using IH(6) Cons by (auto simp: t_def intro!: exI [of _ "drop n ptr"])
    qed (use IH(6) in simp)
    then show ?thesis using True IH head [OF IH(5)] w2(4) sw(3)
      by (auto simp: step intro!: exI [of _ "?head @ bs"])
  qed
qed

lemma AddRecord_writes:
  assumes "healthy (lw_dest w)" "lw_type_crc w = InitTypeCrc" "lw_block_offset w \<le> kBlockSize"
  obtains w' bs ps where "AddRecord cls w data = (Status_OK, w')" "healthy (lw_dest w')" "lw_type_crc w' = InitTypeCrc"
    "content (lw_dest w') = content (lw_dest w) @ bs" "frames (lw_block_offset w) bs ps (lw_block_offset w')"
    "pieces True ps data" "lw_block_offset w' \<le> kBlockSize"
  using AddRecord_loop_writes [OF assms, of data True] unfolding AddRecord_def by blast

end

subsection \<open>The header of a physical record\<close>

definition header :: "u32 \<Rightarrow> bytes \<Rightarrow> bytes" where
  "header t frag = take kHeaderSize (physical t frag)"

lemma physical_header: "physical t frag = header t frag @ frag" "length (header t frag) = kHeaderSize"
  by (simp_all add: header_def physical_def)

lemma header_fields:
  "header t frag ! 4 = of_nat (length frag)" "header t frag ! 5 = of_nat (length frag div 256)"
  "header t frag ! 6 = ucast t" "take 4 (header t frag) = EncodeFixed32 (Mask (Value 0 (ucast t # frag)))"
  "drop 6 (header t frag) = [ucast t]"
  by (simp_all add: header_def physical_def nth_append)

lemma header_length:
  assumes "length frag < 2 ^ 16"
  shows "unat ((ucast (of_nat (length frag) :: u8) AND 0xff) OR
    push_bit 8 (ucast (of_nat (length frag div 256) :: u8) AND 0xff) :: u32) = length frag"
proof -
  have m: "(0xff :: u32) = ucast (0xff :: u8)" by simp
  have id: "(b :: u8) AND 0xff = b" for b
  proof -
    have "(0xff :: u8) = - 1" by simp
    then show ?thesis by (simp only: word_and_max)
  qed
  have low: "(ucast (b :: u8) :: u32) AND 0xff = ucast b" for b
    unfolding m by (simp only: id flip: unsigned_and_eq)
  let ?b = "ucast (of_nat (length frag div 256) :: u8) :: u32" and ?a = "ucast (of_nat (length frag) :: u8) :: u32"
  have u: "unat ?b = length frag div 256" "unat ?a = length frag mod 256"
    using assms by (simp_all add: unat_ucast_up byte_simps)
  have "unat (push_bit 8 ?b OR ?a) = unat ?b * 2 ^ 8 + unat ?a"
    by (rule unat_push_bit_OR) (use u assms in simp_all)
  then show ?thesis unfolding low by (simp only: or.commute u) simp
qed

lemma header_type: "t \<in> {1..4} \<Longrightarrow> scast (ucast (t :: u32) :: u8) = t"
proof -
  assume "t \<in> {1..4}"
  then have "1 \<le> unat t \<and> unat t \<le> 4" by (auto simp: word_le_nat_alt)
  then have "unat t = 1 \<or> unat t = 2 \<or> unat t = 3 \<or> unat t = 4" by arith
  then have "t = 1 \<or> t = 2 \<or> t = 3 \<or> t = 4" by (auto simp: word_unat_eq_iff)
  then show ?thesis by auto
qed

text \<open>A buffer that starts with the header of a record.\<close>

lemma ReadPhysicalRecord_header:
  assumes buf: "lr_buffer r = header t frag @ xs" and t: "t \<in> {1..4}" and len: "length frag < 2 ^ 16"
    and init: "lr_initial_offset r = 0"
  shows "length xs < length frag \<Longrightarrow> lr_eof r \<Longrightarrow> ReadPhysicalRecord cls r result = (kEof, result, r\<lparr>lr_buffer := []\<rparr>)"
    "length frag \<le> length xs \<Longrightarrow> take (length frag) xs = frag \<Longrightarrow>
      ReadPhysicalRecord cls r result = (t, frag, r\<lparr>lr_buffer := drop (length frag) xs\<rparr>)"
proof -
  have "(header t frag @ xs) ! i = header t frag ! i" if "i < 7" for i
    using that by (simp add: nth_append physical_header(2))
  note nth = this [of 4] this [of 5] this [of 6]
  have f: "header_size (header t frag @ xs) = length frag" "scast ((header t frag @ xs) ! 6) = t"
    using header_length [OF len] header_type [OF t] by (simp_all only: header_size_def Let_def nth header_fields)
  have "unat t \<noteq> 0" using t by (auto simp: word_le_nat_alt)
  then have t0: "t \<noteq> 0" by auto
  show "ReadPhysicalRecord cls r result = (kEof, result, r\<lparr>lr_buffer := []\<rparr>)"
    if "length xs < length frag" "lr_eof r"
    using that buf by (subst ReadPhysicalRecord.simps)
      (simp add: f physical_header(2) Let_def)
  show "ReadPhysicalRecord cls r result = (t, frag, r\<lparr>lr_buffer := drop (length frag) xs\<rparr>)"
    if "length frag \<le> length xs" "take (length frag) xs = frag"
  proof -
    have "take (1 + length frag) (drop 6 (header t frag @ xs)) = ucast t # frag"
      using that by (simp add: header_fields physical_header(2))
    moreover have "take 4 (header t frag @ xs) = EncodeFixed32 (Mask (Value 0 (ucast t # frag)))"
      by (simp add: header_fields physical_header(2))
    then have "DecodeFixed32 (header t frag @ xs) = Mask (Value 0 (ucast t # frag))"
      using DecodeFixed32_Encode [of "Mask (Value 0 (ucast t # frag))" "[]"] by (simp add: DecodeFixed32_le)
    ultimately show ?thesis
      using that buf t0 init by (subst ReadPhysicalRecord.simps)
        (simp add: f physical_header(2) Mask_inverse Let_def)
  qed
qed

section \<open>Reading back\<close>

text \<open>
  \<open>positioned rest healthy r bo bs\<close>: the reader \<open>r\<close>, on a file that still delivers
  \<open>rest\<close>, is at offset \<open>bo\<close> of a block with the bytes \<open>bs\<close> before it.
\<close>

definition positioned :: "('f \<Rightarrow> bytes) \<Rightarrow> ('f \<Rightarrow> bool) \<Rightarrow> 'f log_reader \<Rightarrow> nat \<Rightarrow> bytes \<Rightarrow> bool" where
  "positioned rest healthy r bo bs \<longleftrightarrow>
     healthy (lr_file r) \<and> bs = lr_buffer r @ rest (lr_file r) \<and> bo \<le> kBlockSize \<and>
     lr_initial_offset r = 0 \<and> \<not> lr_resyncing r \<and>
     (if lr_eof r then rest (lr_file r) = [] \<and> length (lr_buffer r) \<le> kBlockSize - bo
      else length (lr_buffer r) = kBlockSize - bo)"

locale sequential_file =
  fixes cls :: "'f sequential_file_class" and rest :: "'f \<Rightarrow> bytes" and healthy :: "'f \<Rightarrow> bool"
  assumes read: "healthy f \<Longrightarrow>
    \<exists>f'. sf_read cls f n = (Status_OK, take n (rest f), f') \<and> rest f' = drop n (rest f) \<and> healthy f'"
begin

abbreviation "at_pos \<equiv> positioned rest healthy"

text \<open>What is left of a block that no header fits in is dropped and the next block read.\<close>

lemma next_block:
  assumes pos: "at_pos r bo bs" and few: "length (lr_buffer r) < kHeaderSize" and eof: "\<not> lr_eof r"
  shows "\<exists>r'. ReadPhysicalRecord cls r result = ReadPhysicalRecord cls r' result \<and>
    at_pos r' 0 (rest (lr_file r)) \<and> lr_reporter r' = lr_reporter r \<and>
    (lr_eof r' \<longrightarrow> lr_buffer r' = rest (lr_file r))"
proof -
  obtain f' where f': "sf_read cls (lr_file r) 32768 = (Status_OK, take 32768 (rest (lr_file r)), f')"
    "rest f' = drop 32768 (rest (lr_file r))" "healthy f'"
    using read [of "lr_file r" 32768] pos by (auto simp: positioned_def)
  define r' where "r' = r\<lparr>lr_file := f', lr_buffer := take 32768 (rest (lr_file r)),
      lr_end_of_buffer_offset := lr_end_of_buffer_offset r + of_nat (length (take 32768 (rest (lr_file r)))),
      lr_eof := length (take 32768 (rest (lr_file r))) < 32768\<rparr>"
  have "ReadPhysicalRecord cls r result = ReadPhysicalRecord cls r' result"
    using few eof f' by (cases r, cases "length (rest (lr_file r)) < 32768")
      (subst ReadPhysicalRecord.simps, simp add: Let_def r'_def)+
  then show ?thesis using pos f' by (intro exI [of _ r']) (auto simp: r'_def positioned_def)
qed

lemma read_end:
  assumes pos: "at_pos r bo bs" and few: "length bs < kHeaderSize"
  shows "\<exists>r'. ReadPhysicalRecord cls r result = (kEof, result, r') \<and> lr_reporter r' = lr_reporter r \<and> \<not> lr_resyncing r'"
proof -
  have ended: "ReadPhysicalRecord cls r result = (kEof, result, r\<lparr>lr_buffer := []\<rparr>)" 
    if "lr_eof r" "length (lr_buffer r) < kHeaderSize" for r
    using that by (subst ReadPhysicalRecord.simps) simp
  have small: "length (lr_buffer r) < kHeaderSize" using pos few by (auto simp: positioned_def)
  show ?thesis
  proof (cases "lr_eof r")
    case True
    then show ?thesis using ended small pos by (auto simp: positioned_def)
  next
    case False
    from next_block [OF pos small False] obtain r' where r':
      "ReadPhysicalRecord cls r result = ReadPhysicalRecord cls r' result" "at_pos r' 0 (rest (lr_file r))"
      "lr_reporter r' = lr_reporter r" "lr_eof r' \<longrightarrow> lr_buffer r' = rest (lr_file r)" by blast
    have "length (rest (lr_file r)) < 7" using pos few by (auto simp: positioned_def)
    then have "lr_eof r'" "length (lr_buffer r') < 7" using r'(2) by (auto simp: positioned_def split: if_splits)
    then show ?thesis using ended r' by (auto simp: positioned_def)
  qed
qed

lemma read_record_here:
  assumes pos: "at_pos r bo bs" and t: "t \<in> {1..4}" and fits: "bo + kHeaderSize + length frag \<le> kBlockSize"
    and bs: "physical t frag @ more_bytes = bs @ lost"
  shows "if length bs < kHeaderSize + length frag
    then \<exists>r'. ReadPhysicalRecord cls r result = (kEof, result, r') \<and> lr_reporter r' = lr_reporter r \<and> \<not> lr_resyncing r'
    else \<exists>r'. ReadPhysicalRecord cls r result = (t, frag, r') \<and> lr_reporter r' = lr_reporter r \<and>
      at_pos r' (bo + kHeaderSize + length frag) (drop (kHeaderSize + length frag) bs)"
proof (cases "length bs < kHeaderSize")
  case True
  then show ?thesis using read_end [OF pos True, of result] by simp
next
  case False
  have len: "length frag < 2 ^ 16" using fits by simp
  have prefix: "take n bs = take n (header t frag @ frag)" if "n \<le> length bs" "n \<le> 7 + length frag" for n
    using arg_cong [OF bs, of "take n"] that by (simp add: physical_header)
  have long: "\<not> lr_eof r \<Longrightarrow> 7 + length frag \<le> length (lr_buffer r)"
    using pos fits by (simp add: positioned_def)
  have seven: "7 \<le> length (lr_buffer r)" using long pos False by (cases "lr_eof r") (auto simp: positioned_def)
  moreover have "take n (lr_buffer r) = take n bs" if "n \<le> length (lr_buffer r)" for n
    using pos that by (simp add: positioned_def)
  ultimately have "take 7 (lr_buffer r) = header t frag"
    using prefix [of 7] False by (simp add: physical_header(2))
  then have buf: "lr_buffer r = header t frag @ drop 7 (lr_buffer r)" by (metis append_take_drop_id)
  have init: "lr_initial_offset r = 0" using pos by (simp add: positioned_def)
  note hdr = ReadPhysicalRecord_header [OF buf t len init, of cls result]
  show ?thesis
  proof (cases "length bs < kHeaderSize + length frag")
    case True
    then have "lr_eof r" using long pos by (cases "lr_eof r") (simp_all add: positioned_def)
    then have "length (drop 7 (lr_buffer r)) < length frag" using True pos seven by (auto simp: positioned_def)
    then show ?thesis using hdr(1) \<open>lr_eof r\<close> True pos by (auto simp: positioned_def)
  next
    case whole: False
    have l: "7 + length frag \<le> length (lr_buffer r)" using long whole pos by (cases "lr_eof r") (auto simp: positioned_def)
    then have "take (7 + length frag) (lr_buffer r) = header t frag @ frag"
      using prefix [of "7 + length frag"] whole pos by (simp add: positioned_def physical_header(2))
    then have "take (length frag) (drop 7 (lr_buffer r)) = frag"
      by (subst take_drop, subst add.commute) (simp add: physical_header(2))
    then have "ReadPhysicalRecord cls r result = (t, frag, r\<lparr>lr_buffer := drop (length frag) (drop 7 (lr_buffer r))\<rparr>)"
      using hdr(2) l by simp
    then show ?thesis using whole l pos fits by (auto simp: positioned_def add.commute)
  qed
qed

lemma read_record:
  assumes pos: "at_pos r bo bs" and t: "t \<in> {1..4}" and fits: "slot bo + kHeaderSize + length frag \<le> kBlockSize"
    and bs: "replicate (gap bo) 0 @ physical t frag @ more_bytes = bs @ lost"
  shows "if length bs < gap bo + kHeaderSize + length frag
    then \<exists>r'. ReadPhysicalRecord cls r result = (kEof, result, r') \<and> lr_reporter r' = lr_reporter r \<and> \<not> lr_resyncing r'
    else \<exists>r'. ReadPhysicalRecord cls r result = (t, frag, r') \<and> lr_reporter r' = lr_reporter r \<and>
      at_pos r' (slot bo + kHeaderSize + length frag) (drop (gap bo + kHeaderSize + length frag) bs)"
proof (cases "bo + kHeaderSize \<le> kBlockSize")
  case True
  then show ?thesis
    using read_record_here [OF pos t, of frag more_bytes lost result] fits bs by (simp add: gap_def slot_def)
next
  case gap: False
  then have g: "gap bo = kBlockSize - bo" "slot bo = 0" "gap bo < 7" by (simp_all add: gap_def slot_def)
  show ?thesis
  proof (cases "lr_eof r")
    case True
    then have "length bs < 7" using pos g by (simp add: positioned_def)
    moreover have "length bs < gap bo + kHeaderSize + length frag" using calculation by simp
    ultimately show ?thesis using read_end [OF pos, of result] by simp
  next
    case False
    then have buf: "length (lr_buffer r) = gap bo" "bs = lr_buffer r @ rest (lr_file r)"
      using pos g by (simp_all add: positioned_def)
    then have few: "length (lr_buffer r) < 7" using g by simp
    from next_block [OF pos few False, of result] obtain r' where r':
      "ReadPhysicalRecord cls r result = ReadPhysicalRecord cls r' result" "at_pos r' 0 (rest (lr_file r))"
      "lr_reporter r' = lr_reporter r" by blast
    have "physical t frag @ more_bytes = rest (lr_file r) @ lost"
      using arg_cong [OF bs, of "drop (gap bo)"] buf by simp
    from read_record_here [OF r'(2) t _ this, of result] fits g r' buf show ?thesis
      by (auto simp: not_less split: if_splits)
  qed
qed

text \<open>
  Reading a record of which all fragments are there, and one that the end of the file cuts
  off.
\<close>

lemma ReadRecord_loop_pieces:
  assumes "pieces b ps data" "frames bo full ps bo'" "at_pos r bo bs" "full @ more_bytes = bs @ lost" "b \<longrightarrow> scratch = []"
  shows "if length bs < length full
    then \<exists>r'. ReadRecord_loop cls r scratch (\<not> b) prospective fragment = Some (None, r') \<and> lr_reporter r' = lr_reporter r
    else \<exists>r'. ReadRecord_loop cls r scratch (\<not> b) prospective fragment = Some (Some (scratch @ data), r') \<and>
      lr_reporter r' = lr_reporter r \<and> at_pos r' bo' (drop (length full) bs)"
  using assms
proof (induction b ps data arbitrary: bo full r bs scratch prospective fragment rule: pieces.induct)
  case (2 b t frag data)
  from 2(2) have t: "t \<in> {1..4}" and fits: "slot bo + 7 + length frag \<le> 32768" and bo': "bo' = slot bo + 7 + length frag"
    and full: "full = replicate (gap bo) 0 @ physical t frag"
    by (auto elim: frames_ConsE)
  have len: "length full = gap bo + 7 + length frag" by (simp add: full physical_header)
  note rd = read_record [OF 2(3) t fits, of more_bytes lost fragment, folded len] 
  show ?case
  proof (cases "length bs < length full")
    case True
    then obtain r' where "ReadPhysicalRecord cls r fragment = (5, fragment, r')" "lr_reporter r' = lr_reporter r"
      "\<not> lr_resyncing r'" using rd 2(4) by (auto simp: full)
    then show ?thesis using True by (subst ReadRecord_loop.simps) (simp add: Let_def)
  next
    case False
    then obtain r' where r': "ReadPhysicalRecord cls r fragment = (t, frag, r')" "lr_reporter r' = lr_reporter r"
      "at_pos r' bo' (drop (length full) bs)" using rd 2(4) by (auto simp: full bo')
    then have "\<not> lr_resyncing r'" by (simp add: positioned_def)
    then show ?thesis using False r' 2(1,5)
      by (subst ReadRecord_loop.simps) (auto simp: Let_def positioned_def)
  qed
next
  case (3 b t frag p ps data)
  from 3(3) obtain tail where t: "t \<in> {1..4}" and fits: "slot bo + 7 + length frag \<le> 32768"
    and tail: "frames (slot bo + 7 + length frag) tail (p # ps) bo'"
    and full: "full = replicate (gap bo) 0 @ physical t frag @ tail"
    by (auto elim: frames_ConsE)
  let ?n = "gap bo + 7 + length frag"
  have len: "length full = ?n + length tail" by (simp add: full physical_header)
  from 3(2) obtain data' where data: "t = (if b then 2 else 3)" "data = frag @ data'" "pieces False (p # ps) data'" by auto
  have "replicate (gap bo) 0 @ physical t frag @ (tail @ more_bytes) = bs @ lost" using 3(5) by (simp add: full)
  note rd = read_record [OF 3(4) t fits this, of fragment]
  show ?case
  proof (cases "length bs < ?n")
    case True
    then obtain r' where "ReadPhysicalRecord cls r fragment = (5, fragment, r')" "lr_reporter r' = lr_reporter r"
      "\<not> lr_resyncing r'" using rd by auto
    then show ?thesis using True len by (subst ReadRecord_loop.simps) (simp add: Let_def)
  next
    case False
    then obtain r' where r': "ReadPhysicalRecord cls r fragment = (t, frag, r')" "lr_reporter r' = lr_reporter r"
      "at_pos r' (slot bo + 7 + length frag) (drop ?n bs)" using rd by auto
    have res: "\<not> lr_resyncing r'" using r'(3) by (simp add: positioned_def)
    then have same: "r'\<lparr>lr_resyncing := False\<rparr> = r'" by (cases r') simp
    have step: "\<exists>pros. ReadRecord_loop cls r scratch (\<not> b) prospective fragment =
        ReadRecord_loop cls r' (scratch @ frag) True pros frag"
      using r'(1) data(1) 3(6) res by (subst ReadRecord_loop.simps) (auto simp: Let_def same)
    have "tail @ more_bytes = drop ?n bs @ lost"
      using arg_cong [OF \<open>replicate (gap bo) 0 @ physical t frag @ (tail @ more_bytes) = bs @ lost\<close>, of "drop ?n"] False
      by (simp add: physical_header)
    note IH = 3(1) [OF data(3) tail r'(3) this, of "scratch @ frag"]
    obtain pros where step: "ReadRecord_loop cls r scratch (\<not> b) prospective fragment =
        ReadRecord_loop cls r' (scratch @ frag) True pros frag" using step by blast
    have "length (drop ?n bs) < length tail \<longleftrightarrow> length bs < length full" using False by (auto simp: len)
    moreover have "drop (length tail) (drop ?n bs) = drop (length full) bs" by (simp add: len add.commute)
    ultimately show ?thesis using IH [of pros frag] r'(2)
      by (cases "length bs < length full") (simp_all add: step data(2))
  qed
qed simp

lemma ReadRecord_at: "at_pos r bo bs \<Longrightarrow> ReadRecord cls r = ReadRecord_loop cls r [] False 0 []"
  by (simp add: ReadRecord_def positioned_def)

lemma ReadRecord_record:
  assumes "pieces True ps data" "frames bo full ps bo'" "at_pos r bo bs" "full @ more_bytes = bs @ lost"
  shows "if length bs < length full
    then \<exists>r'. ReadRecord cls r = Some (None, r') \<and> lr_reporter r' = lr_reporter r
    else \<exists>r'. ReadRecord cls r = Some (Some data, r') \<and> lr_reporter r' = lr_reporter r \<and>
      at_pos r' bo' (drop (length full) bs)"
  using ReadRecord_loop_pieces [OF assms, of "[]" 0 "[]"]
  by (cases "length bs < length full") (simp_all add: ReadRecord_at [OF assms(3)])

lemma ReadRecord_end:
  assumes "at_pos r bo []"
  shows "\<exists>r'. ReadRecord cls r = Some (None, r') \<and> lr_reporter r' = lr_reporter r"
proof -
  obtain r' where "ReadPhysicalRecord cls r [] = (5, [], r')" "lr_reporter r' = lr_reporter r" "\<not> lr_resyncing r'"
    using read_end [OF assms, of "[]"] by auto
  then show ?thesis using assms by (simp add: ReadRecord_def positioned_def) (subst ReadRecord_loop.simps, simp add: Let_def)
qed

end

text \<open>The files of \<open>env_posix.cc\<close> keep the contracts while there is room and no I/O error.\<close>

definition out_healthy :: "posix_out \<Rightarrow> bool" where
  "out_healthy f \<longleftrightarrow> out_room f = None \<and> out_flush_ok f"

abbreviation (input) new_file :: posix_out where
  "new_file \<equiv> \<lparr>out_data = [], out_room = None, out_flush_ok = True\<rparr>"

interpretation posix_log_out: writable_file posix_writable out_data out_healthy
  by unfold_locales (auto simp: posix_writable_def PosixWritableFile_Append_def PosixWritableFile_Flush_def out_healthy_def Let_def)

definition unread :: "posix_in \<Rightarrow> bytes" where
  "unread f = drop (in_pos f) (in_data f)"

interpretation posix_log_in: sequential_file posix_sequential unread "\<lambda>f. in_fault f = None"
proof
  fix f :: posix_in and n assume f: "in_fault f = None"
  have "take (min n (length (in_data f) - in_pos f)) (drop (in_pos f) (in_data f)) = take n (unread f)"
    by (simp add: unread_def min_def)
  moreover have "drop (in_pos f + length (take n (unread f))) (in_data f) = drop n (unread f)"
    by (cases "n \<le> length (in_data f) - in_pos f") (simp_all add: unread_def add.commute)
  ultimately show "\<exists>f'. sf_read posix_sequential f n = (Status_OK, take n (unread f), f') \<and> unread f' = drop n (unread f) \<and> in_fault f' = None"
    using f by (auto simp: posix_sequential_def PosixSequentialFile_Read_def fread_unlocked_def unread_def Let_def)
qed

section \<open>The log survives a crash\<close>

fun write_records :: "'f writable_file_class \<Rightarrow> 'f log_writer \<Rightarrow> bytes list \<Rightarrow> Status \<times> 'f log_writer" where
  "write_records cls w [] = (Status_OK, w)"
| "write_records cls w (d # ds) =
     (case AddRecord cls w d of (s, w) \<Rightarrow> if status_ok s then write_records cls w ds else (s, w))"

text \<open>Up to \<open>n\<close> calls of \<open>ReadRecord\<close>, until it returns false.\<close>

fun read_records :: "'f sequential_file_class \<Rightarrow> nat \<Rightarrow> 'f log_reader \<Rightarrow> (bytes list \<times> 'f log_reader) option" where
  "read_records cls 0 r = Some ([], r)"
| "read_records cls (Suc n) r =
     do {
       (rec, r) \<leftarrow> ReadRecord cls r;
       (case rec of
          None \<Rightarrow> Some ([], r)
        | Some d \<Rightarrow> do { (ds, r) \<leftarrow> read_records cls n r; Some (d # ds, r) })
     }"

text \<open>The bytes of each record in the file, in order.\<close>

inductive logs :: "nat \<Rightarrow> bytes list \<Rightarrow> bytes list \<Rightarrow> bool" where
  logs_Nil: "logs bo [] []"
| logs_Cons: "frames bo seg ps bo' \<Longrightarrow> pieces True ps d \<Longrightarrow> logs bo' segs ds \<Longrightarrow> logs bo (seg # segs) (d # ds)"

text \<open>The end of a block and the start of the next are the same place.\<close>

lemma logs_block_start:
  assumes "logs 0 segs ds"
  shows "logs kBlockSize segs ds"
  using assms
proof cases
  case (logs_Cons seg ps bo' d segs' ds')
  then obtain p qs where "ps = p # qs" by (cases ps) auto
  then have "frames kBlockSize seg ps bo'"
    using logs_Cons(3) frames_Cons [of "fst p" kBlockSize "snd p" _ qs bo']
    by (auto elim!: frames_ConsE simp: slot_def gap_def)
  then show ?thesis using logs_Cons logs.logs_Cons by blast
qed (simp add: logs.logs_Nil)

context writable_file
begin

lemma write_records_writes:
  assumes "healthy (lw_dest w)" "lw_type_crc w = InitTypeCrc" "lw_block_offset w \<le> kBlockSize"
  shows "\<exists>segs. logs (lw_block_offset w) segs ds \<and>
    (\<forall>j. \<exists>w'. write_records cls w (take j ds) = (Status_OK, w') \<and>
       content (lw_dest w') = content (lw_dest w) @ concat (take j segs))"
  using assms
proof (induction ds arbitrary: w)
  case Nil
  then show ?case by (intro exI [of _ "[]"]) (simp add: logs_Nil)
next
  case (Cons d ds)
  obtain w1 bs ps where w1: "AddRecord cls w d = (Status_OK, w1)" "healthy (lw_dest w1)" "lw_type_crc w1 = InitTypeCrc"
    "content (lw_dest w1) = content (lw_dest w) @ bs" "frames (lw_block_offset w) bs ps (lw_block_offset w1)"
    "pieces True ps d" "lw_block_offset w1 \<le> kBlockSize"
    by (rule AddRecord_writes [OF Cons.prems])
  from Cons.IH [OF w1(2,3,7)] obtain segs where segs: "logs (lw_block_offset w1) segs ds"
    "\<And>j. \<exists>w'. write_records cls w1 (take j ds) = (Status_OK, w') \<and>
       content (lw_dest w') = content (lw_dest w1) @ concat (take j segs)" by blast
  have "\<exists>w'. write_records cls w (take j (d # ds)) = (Status_OK, w') \<and>
       content (lw_dest w') = content (lw_dest w) @ concat (take j (bs # segs))" for j
    using segs(2) [of "j - 1"] w1(1,4) by (cases j) auto
  then show ?case using logs_Cons [OF w1(5,6) segs(1)] by blast
qed

end

context sequential_file
begin

lemma read_records_logs:
  assumes "logs bo segs ds" "at_pos r bo bs" "concat segs = bs @ lost"
  shows "\<exists>j r'. j \<le> length ds \<and> read_records cls (Suc (length ds)) r = Some (take j ds, r') \<and>
    lr_reporter r' = lr_reporter r \<and> length (concat (take j segs)) \<le> length bs \<and>
    (j = length ds \<or> length bs < length (concat (take (Suc j) segs)))"
  using assms
proof (induction arbitrary: r bs rule: logs.induct)
  case (logs_Nil bo)
  then show ?case using ReadRecord_end [of r bo] by auto
next
  case (logs_Cons bo seg ps bo' d segs ds)
  have split: "seg @ concat segs = bs @ lost" using logs_Cons.prems(2) by simp
  note rd = ReadRecord_record [OF logs_Cons.hyps(2,1) logs_Cons.prems(1) split]
  show ?case
  proof (cases "length bs < length seg")
    case True
    then obtain r' where "ReadRecord cls r = Some (None, r')" "lr_reporter r' = lr_reporter r" using rd by auto
    then show ?thesis using True by (intro exI [of _ 0]) simp
  next
    case False
    then obtain r' where r': "ReadRecord cls r = Some (Some d, r')" "lr_reporter r' = lr_reporter r"
      "at_pos r' bo' (drop (length seg) bs)" using rd by auto
    have "concat segs = drop (length seg) bs @ lost" using arg_cong [OF split, of "drop (length seg)"] False by simp
    from logs_Cons.IH [OF r'(3) this] obtain j r2 where IH: "j \<le> length ds"
      "read_records cls (Suc (length ds)) r' = Some (take j ds, r2)" "lr_reporter r2 = lr_reporter r'"
      "length (concat (take j segs)) \<le> length (drop (length seg) bs)"
      "j = length ds \<or> length (drop (length seg) bs) < length (concat (take (Suc j) segs))" by blast
    then show ?thesis using r' False
      by (intro exI [of _ "Suc j"] exI [of _ r2]) (auto simp del: read_records.simps(2) simp: read_records.simps(2) [of cls "Suc (length ds)"])
  qed
qed

end

text \<open>The log file after \<open>AddRecord\<close> of each of \<open>ds\<close> to a new file.\<close>

definition write_log :: "bytes list \<Rightarrow> Status \<times> posix_out log_writer" where
  "write_log ds = write_records posix_writable (Writer new_file 0) ds"

definition log_image :: "bytes list \<Rightarrow> bytes" where
  "log_image ds = out_data (lw_dest (snd (write_log ds)))"

text \<open>
  C27. The log loses nothing but its unfinished end in a crash: the writer succeeds on every
  list of records, of any sizes, and when the file is cut off after any \<open>k\<close> bytes, reading
  it from the start ends, returns exactly the records whose bytes all lie within the \<open>k\<close>
  bytes, in order, and reports no corruption. (With \<open>k\<close> the whole length, every record is
  read back.)
\<close>

theorem log_survives_crash:
  "fst (write_log ds) = Status_OK \<and>
   (\<exists>j r. j \<le> length ds \<and>
     read_records posix_sequential (Suc (length ds))
       (Reader \<lparr>in_data = take k (log_image ds), in_pos = 0, in_fault = None, in_seekable = True\<rparr> (Some []) checksum 0) = Some (take j ds, r) \<and>
     lr_reporter r = Some [] \<and> length (log_image (take j ds)) \<le> k \<and>
     (j = length ds \<or> k < length (log_image (take (Suc j) ds))))"
proof -
  let ?w = "Writer new_file 0"
  have w: "out_healthy (lw_dest ?w)" "lw_type_crc ?w = InitTypeCrc" "lw_block_offset ?w \<le> 32768" "lw_block_offset ?w = 0"
    by (simp_all add: Writer_def out_healthy_def)
  obtain segs where segs: "logs 0 segs ds"
    "\<And>j. \<exists>w'. write_records posix_writable ?w (take j ds) = (Status_OK, w') \<and>
       out_data (lw_dest w') = out_data (lw_dest ?w) @ concat (take j segs)"
    using posix_log_out.write_records_writes [OF w(1-3), of ds] w(4) by auto
  have image: "log_image (take j ds) = concat (take j segs)" for j
    using segs(2) [of j] by (auto simp: log_image_def write_log_def Writer_def)
  have "length segs = length ds" using segs(1) by (induction rule: logs.induct) simp_all
  then have whole: "log_image ds = concat segs" using image [of "length ds"] by simp
  have ok: "fst (write_log ds) = Status_OK" using segs(2) [of "length ds"] by (auto simp: write_log_def)
  let ?f = "\<lparr>in_data = take k (log_image ds), in_pos = 0, in_fault = None, in_seekable = True\<rparr>"
  let ?r = "Reader ?f (Some []) checksum 0"
  have at: "positioned unread (\<lambda>f. in_fault f = None) ?r 32768 (take k (concat segs))"
    by (simp add: positioned_def Reader_def unread_def whole)
  have cut: "concat segs = take k (concat segs) @ drop k (concat segs)" by simp
  obtain j r where j: "j \<le> length ds" "read_records posix_sequential (Suc (length ds)) ?r = Some (take j ds, r)"
    "lr_reporter r = lr_reporter ?r" "length (concat (take j segs)) \<le> length (take k (concat segs))"
    "j = length ds \<or> length (take k (concat segs)) < length (concat (take (Suc j) segs))"
    using posix_log_in.read_records_logs [OF logs_block_start [OF segs(1)] at cut] by blast
  have "k < length (concat (take (Suc j) segs))" if "length (take k (concat segs)) < length (concat (take (Suc j) segs))"
  proof -
    have "length (concat (take (Suc j) segs)) \<le> length (concat segs)"
      by (metis append_take_drop_id concat_append le_add1 length_append)
    then show ?thesis using that by simp
  qed
  then show ?thesis using ok j by (intro conjI exI [of _ j] exI [of _ r]) (auto simp: image Reader_def)
qed

section \<open>The reader terminates\<close>

text \<open>What a reader has not looked at yet.\<close>

definition unseen :: "posix_in log_reader \<Rightarrow> nat" where
  "unseen r = length (lr_buffer r) + length (unread (lr_file r))"

lemma ReportDrop_fields [simp]:
  "lr_buffer (ReportDrop r n s) = lr_buffer r" "lr_file (ReportDrop r n s) = lr_file r"
  "lr_buffer (ReportCorruption r n msg) = lr_buffer r" "lr_file (ReportCorruption r n msg) = lr_file r"
  by (simp_all add: ReportCorruption_def ReportDrop_def split: option.split)

lemma unseen_simps [simp]:
  "unseen (ReportDrop r n s) = unseen r" "unseen (ReportCorruption r n msg) = unseen r"
  "unseen (r\<lparr>lr_resyncing := b\<rparr>) = unseen r" "unseen (r\<lparr>lr_eof := b\<rparr>) = unseen r"
  by (simp_all add: unseen_def)

lemma PosixSequentialFile_Read_unseen:
  assumes "PosixSequentialFile_Read f n = (s, buf, f')"
  shows "length buf + length (unread f') \<le> length (unread f)"
proof -
  obtain m where m: "buf = take m (drop (in_pos f) (in_data f))" "f' = f\<lparr>in_pos := in_pos f + length buf\<rparr>"
    using assms unfolding PosixSequentialFile_Read_def fread_unlocked_def Let_def prod.case prod.inject by blast
  have "length buf \<le> length (in_data f) - in_pos f" by (simp add: m(1))
  then show ?thesis by (simp add: m(2) unread_def)
qed

text \<open>With a header in the buffer, something is taken from it.\<close>

lemma ReadPhysicalRecord_parse:
  assumes "kHeaderSize \<le> length (lr_buffer r)" "ReadPhysicalRecord cls r result = (t, frag, r')"
  shows "unseen r' < unseen r"
  using assms(2) assms(1)
  by (subst (asm) ReadPhysicalRecord.simps) (auto simp: Let_def unseen_def split: if_splits)

lemma ReadPhysicalRecord_progress:
  assumes "ReadPhysicalRecord posix_sequential r result = (t, frag, r')"
  shows "t = kEof \<or> unseen r' < unseen r"
proof -
  have settled: "t = kEof \<or> unseen r' < unseen r"
    if "lr_eof r \<or> 7 \<le> length (lr_buffer r)" "ReadPhysicalRecord posix_sequential r result = (t, frag, r')" for r
  proof (cases "7 \<le> length (lr_buffer r)")
    case True
    then show ?thesis using ReadPhysicalRecord_parse [OF _ that(2)] by simp
  next
    case False
    then have "ReadPhysicalRecord posix_sequential r result = (5, result, r\<lparr>lr_buffer := []\<rparr>)"
      using that(1) by (subst ReadPhysicalRecord.simps) simp
    then show ?thesis using that(2) by simp
  qed
  show ?thesis
  proof (cases "lr_eof r \<or> 7 \<le> length (lr_buffer r)")
    case True
    then show ?thesis using settled assms by blast
  next
    case False
    obtain s buf f' where rd: "PosixSequentialFile_Read (lr_file r) 32768 = (s, buf, f')"
      by (cases "PosixSequentialFile_Read (lr_file r) 32768") auto
    define r2 where "r2 = r\<lparr>lr_file := f', lr_buffer := buf,
        lr_end_of_buffer_offset := lr_end_of_buffer_offset r + of_nat (length buf)\<rparr>"
    define r3 where "r3 = (if length buf < 32768 then r2\<lparr>lr_eof := True\<rparr> else r2)"
    have less: "unseen r3 \<le> unseen r"
      using PosixSequentialFile_Read_unseen [OF rd] by (simp add: r3_def r2_def unseen_def)
    have "ReadPhysicalRecord posix_sequential r result =
        (if status_ok s then ReadPhysicalRecord posix_sequential r3 result
         else (5, result, (ReportDrop (r2\<lparr>lr_buffer := []\<rparr>) 32768 s)\<lparr>lr_eof := True\<rparr>))"
      using False by (subst ReadPhysicalRecord.simps) (simp add: Let_def posix_sequential_def rd r3_def r2_def)
    then have "t = 5 \<or> ReadPhysicalRecord posix_sequential r3 result = (t, frag, r')"
      using assms by (auto split: if_splits)
    moreover have "lr_eof r3 \<or> 7 \<le> length (lr_buffer r3)" by (auto simp: r3_def r2_def)
    ultimately show ?thesis using settled [of r3] less by auto
  qed
qed

lemma ReadRecord_loop_terminates:
  "\<exists>rec r'. ReadRecord_loop posix_sequential r scratch in_fragmented prospective fragment = Some (rec, r')"
proof (induction "unseen r" arbitrary: r scratch in_fragmented prospective fragment rule: less_induct)
  case less
  obtain t frag r1 where rd: "ReadPhysicalRecord posix_sequential r fragment = (t, frag, r1)"
    by (cases "ReadPhysicalRecord posix_sequential r fragment") auto
  show ?case
  proof (cases "t = 5")
    case True
    then show ?thesis by (subst ReadRecord_loop.simps) (simp add: rd Let_def)
  next
    case False
    then have "unseen r1 < unseen r" using ReadPhysicalRecord_progress [OF rd] by simp
    then have again: "\<exists>rec r'. ReadRecord_loop posix_sequential r2 sc inf pros fr = Some (rec, r')" if "unseen r2 = unseen r1"
      for r2 sc inf pros fr
      using less that by simp
    show ?thesis using False
      by (subst ReadRecord_loop.simps) (simp add: rd Let_def again)
  qed
qed

text \<open>
  C28. The reader terminates: on a file with any contents, with or without an I/O error in the
  middle, and from any state of the reader, \<open>ReadRecord\<close> returns.
\<close>

theorem ReadRecord_terminates: "\<exists>rec r'. ReadRecord posix_sequential r = Some (rec, r')"
  unfolding ReadRecord_def by (auto split: prod.split intro: ReadRecord_loop_terminates)

end
