(* ===== verification/Ldb_Iter.thy ===== *)
theory Ldb_Iter
  imports Ldb_Key Ldb_Log
begin

text \<open>
  The iterator interface of leveldb (\<open>include/leveldb/iterator.h\<close>, \<open>table/iterator.cc\<close>,
  \<open>table/iterator_wrapper.h\<close>): the virtual functions, the empty iterator and the caching
  wrapper. The contract of an iterator is the locale \<open>iterator_impl\<close>: it behaves like a cursor
  into a sorted list of entries.
\<close>

section \<open>Definitions\<close>

text \<open>
  The virtual functions of \<open>Iterator\<close>. An operation is \<open>None\<close> when it reads outside the
  memory of its container or does not return; a value is \<open>None\<close> when its slice lies outside.
\<close>

record 'i iterator_class =
  it_Valid :: "'i \<Rightarrow> bool"
  it_key :: "'i \<Rightarrow> bytes"
  it_value :: "'i \<Rightarrow> bytes option"
  it_status :: "'i \<Rightarrow> Status"
  it_SeekToFirst :: "'i \<Rightarrow> 'i option"
  it_SeekToLast :: "'i \<Rightarrow> 'i option"
  it_Seek :: "bytes \<Rightarrow> 'i \<Rightarrow> 'i option"
  it_Next :: "'i \<Rightarrow> 'i option"
  it_Prev :: "'i \<Rightarrow> 'i option"

text \<open>\<open>EmptyIterator\<close> holds a status.\<close>

definition EmptyIterator :: "Status iterator_class" where
  "EmptyIterator = \<lparr>it_Valid = (\<lambda>s. False), it_key = (\<lambda>s. []), it_value = (\<lambda>s. Some []), it_status = (\<lambda>s. s),
     it_SeekToFirst = Some, it_SeekToLast = Some, it_Seek = (\<lambda>target. Some), it_Next = Some, it_Prev = Some\<rparr>"

definition NewEmptyIterator :: Status where "NewEmptyIterator = Status_OK"

definition NewErrorIterator :: "Status \<Rightarrow> Status" where "NewErrorIterator status = status"

text \<open>\<open>IteratorWrapper\<close> caches \<open>Valid()\<close> and \<open>key()\<close> of the iterator it holds.\<close>

record 'i iterator_wrapper =
  iw_iter :: "'i option"
  iw_valid :: bool
  iw_key :: bytes

definition Wrapper_Update :: "'i iterator_class \<Rightarrow> 'i iterator_wrapper \<Rightarrow> 'i iterator_wrapper" where
  "Wrapper_Update cls w =
     (case iw_iter w of
        None \<Rightarrow> w
      | Some it \<Rightarrow>
          let w = w\<lparr>iw_valid := it_Valid cls it\<rparr> in
          if iw_valid w then w\<lparr>iw_key := it_key cls it\<rparr> else w)"

definition Wrapper_Set :: "'i iterator_class \<Rightarrow> 'i option \<Rightarrow> 'i iterator_wrapper \<Rightarrow> 'i iterator_wrapper" where
  "Wrapper_Set cls iter w =
     (let w = w\<lparr>iw_iter := iter\<rparr> in
      if iw_iter w = None then w\<lparr>iw_valid := False\<rparr> else Wrapper_Update cls w)"

definition IteratorWrapper :: "'i iterator_class \<Rightarrow> 'i option \<Rightarrow> 'i iterator_wrapper" where
  "IteratorWrapper cls iter = Wrapper_Set cls iter \<lparr>iw_iter = None, iw_valid = False, iw_key = []\<rparr>"

text \<open>The methods that require an iterator: the operation, then \<open>Update\<close>.\<close>

definition wrapper_op ::
    "'i iterator_class \<Rightarrow> ('i \<Rightarrow> 'i option) \<Rightarrow> 'i iterator_wrapper \<Rightarrow> 'i iterator_wrapper option" where
  "wrapper_op cls op w = do {
     it \<leftarrow> iw_iter w;
     it \<leftarrow> op it;
     Some (Wrapper_Update cls (w\<lparr>iw_iter := Some it\<rparr>))
   }"

definition wrapper_class :: "'i iterator_class \<Rightarrow> 'i iterator_wrapper iterator_class" where
  "wrapper_class cls = \<lparr>it_Valid = iw_valid, it_key = iw_key,
     it_value = (\<lambda>w. Option.bind (iw_iter w) (it_value cls)),
     it_status = (\<lambda>w. case iw_iter w of Some it \<Rightarrow> it_status cls it | None \<Rightarrow> Status_OK),
     it_SeekToFirst = wrapper_op cls (it_SeekToFirst cls),
     it_SeekToLast = wrapper_op cls (it_SeekToLast cls),
     it_Seek = (\<lambda>target. wrapper_op cls (it_Seek cls target)),
     it_Next = wrapper_op cls (it_Next cls),
     it_Prev = wrapper_op cls (it_Prev cls)\<rparr>"

section \<open>Cursors\<close>

text \<open>
  The abstract iterator: a position in a sorted list of entries, the length of the list for an
  invalid one. A client calls \<open>Next\<close> and \<open>Prev\<close> on a valid iterator only, as the interface
  requires.
\<close>

type_synonym entries = "(bytes \<times> bytes) list"

datatype iter_op = SeekToFirst | SeekToLast | Seek bytes | Next | Prev

definition entries_below :: "comparator_class \<Rightarrow> entries \<Rightarrow> bytes \<Rightarrow> nat" where
  "entries_below C kvs target = length (takeWhile (\<lambda>(k, v). Compare C k target < 0) kvs)"

fun cursor_op :: "comparator_class \<Rightarrow> entries \<Rightarrow> iter_op \<Rightarrow> nat \<Rightarrow> nat" where
  "cursor_op C kvs SeekToFirst i = 0"
| "cursor_op C kvs SeekToLast i = length kvs - 1"
| "cursor_op C kvs (Seek target) i = entries_below C kvs target"
| "cursor_op C kvs Next i = (if i < length kvs then i + 1 else i)"
| "cursor_op C kvs Prev i = (if i < length kvs then if i = 0 then length kvs else i - 1 else i)"

fun iterator_op :: "'i iterator_class \<Rightarrow> iter_op \<Rightarrow> 'i \<Rightarrow> 'i option" where
  "iterator_op cls SeekToFirst it = it_SeekToFirst cls it"
| "iterator_op cls SeekToLast it = it_SeekToLast cls it"
| "iterator_op cls (Seek target) it = it_Seek cls target it"
| "iterator_op cls Next it = (if it_Valid cls it then it_Next cls it else Some it)"
| "iterator_op cls Prev it = (if it_Valid cls it then it_Prev cls it else Some it)"

text \<open>What a client sees after each operation.\<close>

type_synonym observation = "(bytes \<times> bytes option) option \<times> Status"

definition cursor_observe :: "entries \<Rightarrow> nat \<Rightarrow> observation" where
  "cursor_observe kvs i = (if i < length kvs then Some (fst (kvs ! i), Some (snd (kvs ! i))) else None, Status_OK)"

definition iterator_observe :: "'i iterator_class \<Rightarrow> 'i \<Rightarrow> observation" where
  "iterator_observe cls it =
     (if it_Valid cls it then Some (it_key cls it, it_value cls it) else None, it_status cls it)"

fun cursor_run :: "comparator_class \<Rightarrow> entries \<Rightarrow> iter_op list \<Rightarrow> nat \<Rightarrow> observation list" where
  "cursor_run C kvs [] i = []"
| "cursor_run C kvs (op # ops) i =
     (let i = cursor_op C kvs op i in cursor_observe kvs i # cursor_run C kvs ops i)"

fun iterator_run :: "'i iterator_class \<Rightarrow> iter_op list \<Rightarrow> 'i \<Rightarrow> observation list option" where
  "iterator_run cls [] it = Some []"
| "iterator_run cls (op # ops) it = do {
     it \<leftarrow> iterator_op cls op it;
     os \<leftarrow> iterator_run cls ops it;
     Some (iterator_observe cls it # os)
   }"

text \<open>Entries in strictly ascending order with valid keys.\<close>

definition sorted_entries :: "comparator_class \<Rightarrow> (bytes \<Rightarrow> bool) \<Rightarrow> entries \<Rightarrow> bool" where
  "sorted_entries C ok kvs \<longleftrightarrow>
     sorted_wrt (\<lambda>a b. Compare C (fst a) (fst b) < 0) kvs \<and> (\<forall>k\<in>set (map fst kvs). ok k)"

lemma sorted_entries_ok: "sorted_entries C ok kvs \<Longrightarrow> i < length kvs \<Longrightarrow> ok (fst (kvs ! i))"
  by (auto simp: sorted_entries_def)

lemma sorted_entries_less:
  "sorted_entries C ok kvs \<Longrightarrow> i < j \<Longrightarrow> j < length kvs \<Longrightarrow> Compare C (fst (kvs ! i)) (fst (kvs ! j)) < 0"
  by (auto simp: sorted_entries_def sorted_wrt_iff_nth_less)

section \<open>The contract\<close>

text \<open>
  \<open>R kvs i it\<close> says that \<open>it\<close> is an iterator over the entries \<open>kvs\<close> at position \<open>i\<close>.
\<close>

locale iterator_impl = comparator C ok
  for C :: comparator_class and ok :: "bytes \<Rightarrow> bool" +
  fixes cls :: "'i iterator_class" and R :: "entries \<Rightarrow> nat \<Rightarrow> 'i \<Rightarrow> bool"
  assumes sorted: "R kvs i it \<Longrightarrow> sorted_entries C ok kvs"
    and bounded: "R kvs i it \<Longrightarrow> i \<le> length kvs"
    and valid: "R kvs i it \<Longrightarrow> it_Valid cls it \<longleftrightarrow> i < length kvs"
    and key: "R kvs i it \<Longrightarrow> i < length kvs \<Longrightarrow> it_key cls it = fst (kvs ! i)"
    and value_eq: "R kvs i it \<Longrightarrow> i < length kvs \<Longrightarrow> it_value cls it = Some (snd (kvs ! i))"
    and status: "R kvs i it \<Longrightarrow> it_status cls it = Status_OK"
    and first: "R kvs i it \<Longrightarrow> \<exists>it'. it_SeekToFirst cls it = Some it' \<and> R kvs 0 it'"
    and last: "R kvs i it \<Longrightarrow> \<exists>it'. it_SeekToLast cls it = Some it' \<and> R kvs (length kvs - 1) it'"
    and seek: "R kvs i it \<Longrightarrow> ok target \<Longrightarrow>
      \<exists>it'. it_Seek cls target it = Some it' \<and> R kvs (entries_below C kvs target) it'"
    and next_entry: "R kvs i it \<Longrightarrow> i < length kvs \<Longrightarrow> \<exists>it'. it_Next cls it = Some it' \<and> R kvs (i + 1) it'"
    and prev_entry: "R kvs i it \<Longrightarrow> i < length kvs \<Longrightarrow>
      \<exists>it'. it_Prev cls it = Some it' \<and> R kvs (if i = 0 then length kvs else i - 1) it'"
begin

lemma op_refines:
  assumes "R kvs i it" "\<forall>t. op = Seek t \<longrightarrow> ok t"
  shows "\<exists>it'. iterator_op cls op it = Some it' \<and> R kvs (cursor_op C kvs op i) it'"
  using assms
proof (cases op)
  case SeekToLast
  then show ?thesis using last [OF assms(1)] by simp
next
  case Next
  then show ?thesis using assms next_entry [of kvs i it] valid [of kvs i it] by auto
next
  case Prev
  then show ?thesis using assms prev_entry [of kvs i it] valid [of kvs i it] by auto
qed (auto intro: first seek)

lemma observe: "R kvs i it \<Longrightarrow> iterator_observe cls it = cursor_observe kvs i"
  by (simp add: iterator_observe_def cursor_observe_def valid key value_eq status)

lemma run_refines:
  assumes "R kvs i it" "\<forall>t\<in>set ops. \<forall>k. t = Seek k \<longrightarrow> ok k"
  shows "iterator_run cls ops it = Some (cursor_run C kvs ops i)"
  using assms
proof (induction ops arbitrary: i it)
  case (Cons op ops)
  then obtain it' where "iterator_op cls op it = Some it'" "R kvs (cursor_op C kvs op i) it'"
    using op_refines [of kvs i it op] by auto
  with Cons show ?case by (simp add: Let_def observe)
qed simp

end

section \<open>Sorted entries\<close>

lemma entries_below_append:
  assumes "\<And>x. x \<in> set A \<Longrightarrow> Compare C (fst x) t < 0" "\<And>x. x \<in> set B \<Longrightarrow> \<not> Compare C (fst x) t < 0"
  shows "entries_below C (A @ B) t = length A"
proof -
  have "takeWhile (\<lambda>(k, v). Compare C k t < 0) (A @ B) = A @ takeWhile (\<lambda>(k, v). Compare C k t < 0) B"
    using assms(1) by (intro takeWhile_append2) auto
  moreover have "takeWhile (\<lambda>(k, v). Compare C k t < 0) B = []" using assms(2) [of "hd B"] by (cases B) auto
  ultimately show ?thesis by (simp add: entries_below_def)
qed

context comparator
begin

text \<open>The entry a \<open>Seek\<close> finds is the one with only smaller keys before it.\<close>

lemma entries_below_eqI:
  assumes "i \<le> length kvs" "\<And>j. j < i \<Longrightarrow> lt (fst (kvs ! j)) t" "i < length kvs \<Longrightarrow> \<not> lt (fst (kvs ! i)) t"
  shows "entries_below C kvs t = i"
proof -
  have "takeWhile (\<lambda>(k, v). lt k t) kvs = take i kvs"
    using assms by (intro takeWhile_eq_take_P_nth) (auto simp: case_prod_unfold)
  then show ?thesis using assms(1) by (simp add: entries_below_def)
qed

lemma entries_below_le: "entries_below C kvs t \<le> length kvs"
  by (simp add: entries_below_def length_takeWhile_le)

lemma entries_below_less: "j < entries_below C kvs t \<Longrightarrow> lt (fst (kvs ! j)) t"
  unfolding entries_below_def using takeWhile_nth [of j "\<lambda>(k, v). lt k t" kvs] set_takeWhileD nth_mem
  by (metis (no_types, lifting) case_prod_unfold)

lemma entries_below_not:
  "entries_below C kvs t < length kvs \<Longrightarrow> \<not> lt (fst (kvs ! entries_below C kvs t)) t"
  unfolding entries_below_def using nth_length_takeWhile [of "\<lambda>(k, v). lt k t" kvs]
  by (auto simp: case_prod_unfold)

lemma entries_below_iff:
  assumes "sorted_entries C ok kvs" "ok t" "j < length kvs"
  shows "j < entries_below C kvs t \<longleftrightarrow> lt (fst (kvs ! j)) t"
proof
  assume j: "lt (fst (kvs ! j)) t"
  show "j < entries_below C kvs t"
  proof (rule ccontr)
    let ?n = "entries_below C kvs t"
    assume "\<not> j < ?n"
    then have n: "?n \<le> j" by simp
    have oks: "ok (fst (kvs ! ?n))" "ok (fst (kvs ! j))" using assms n by (auto intro: sorted_entries_ok)
    have "\<not> lt (fst (kvs ! ?n)) t" using n assms(3) by (intro entries_below_not) simp
    moreover have "?n = j \<or> lt (fst (kvs ! ?n)) (fst (kvs ! j))"
      using sorted_entries_less [OF assms(1), of ?n j] n assms(3) by (cases "?n = j") auto
    ultimately show False using j trans [OF oks assms(2)] by metis
  qed
qed (rule entries_below_less)

end

section \<open>The empty iterator and the wrapper\<close>

interpretation empty_iterator: iterator_impl BytewiseComparator "\<lambda>_. True" EmptyIterator
  "\<lambda>kvs i s. kvs = [] \<and> i = 0 \<and> s = NewEmptyIterator"
  by unfold_locales (auto simp: EmptyIterator_def NewEmptyIterator_def entries_below_def sorted_entries_def)

lemma wrapper_class_sel [simp]:
  "it_Valid (wrapper_class cls) = iw_valid" "it_key (wrapper_class cls) = iw_key"
  "it_value (wrapper_class cls) w = Option.bind (iw_iter w) (it_value cls)"
  "it_status (wrapper_class cls) w = (case iw_iter w of Some it \<Rightarrow> it_status cls it | None \<Rightarrow> Status_OK)"
  "it_SeekToFirst (wrapper_class cls) = wrapper_op cls (it_SeekToFirst cls)"
  "it_SeekToLast (wrapper_class cls) = wrapper_op cls (it_SeekToLast cls)"
  "it_Seek (wrapper_class cls) target = wrapper_op cls (it_Seek cls target)"
  "it_Next (wrapper_class cls) = wrapper_op cls (it_Next cls)"
  "it_Prev (wrapper_class cls) = wrapper_op cls (it_Prev cls)"
  by (simp_all add: wrapper_class_def)

context iterator_impl
begin

definition wrapped :: "entries \<Rightarrow> nat \<Rightarrow> 'i iterator_wrapper \<Rightarrow> bool" where
  "wrapped kvs i w \<longleftrightarrow> (\<exists>it. iw_iter w = Some it \<and> R kvs i it \<and> iw_valid w = (i < length kvs) \<and>
     (i < length kvs \<longrightarrow> iw_key w = fst (kvs ! i)))"

lemma wrapped_Update: "iw_iter w = Some it \<Longrightarrow> R kvs i it \<Longrightarrow> wrapped kvs i (Wrapper_Update cls w)"
  by (auto simp: wrapped_def Wrapper_Update_def Let_def valid key)

lemma wrapped_Set: "R kvs i it \<Longrightarrow> wrapped kvs i (Wrapper_Set cls (Some it) w)"
  by (simp add: Wrapper_Set_def Let_def wrapped_Update)

lemma wrapped_op:
  assumes "wrapped kvs i w" "\<And>it. R kvs i it \<Longrightarrow> \<exists>it'. op it = Some it' \<and> R kvs j it'"
  shows "\<exists>w'. wrapper_op cls op w = Some w' \<and> wrapped kvs j w'"
proof -
  from assms(1) obtain it where "iw_iter w = Some it" "R kvs i it" by (auto simp: wrapped_def)
  moreover from this assms(2) obtain it' where "op it = Some it'" "R kvs j it'" by blast
  ultimately show ?thesis by (auto simp: wrapper_op_def intro: wrapped_Update)
qed

lemma wrapper_impl: "iterator_impl C ok (wrapper_class cls) wrapped"
proof (unfold_locales, goal_cases)
  case (1 kvs i w) then show ?case using sorted by (auto simp: wrapped_def)
next
  case (7 kvs i w) then show ?case by (auto intro: wrapped_op first)
next
  case (8 kvs i w) then show ?case using wrapped_op [OF 8 last] by auto
next
  case (9 kvs i w target) then show ?case by (auto intro: wrapped_op seek)
next
  case (10 kvs i w) then show ?case using wrapped_op [OF 10(1) next_entry] by auto
next
  case (11 kvs i w) then show ?case using wrapped_op [OF 11(1) prev_entry] by auto
qed (auto simp: wrapped_def value_eq status bounded)

end

end
