(* ===== verification/Ldb_Block.thy ===== *)
theory Ldb_Block
  imports Ldb_Iter
begin

text \<open>
  The blocks of a table: \<open>BlockBuilder\<close> (\<open>table/block_builder.cc\<close>), which compresses the
  common prefix of adjacent keys and restarts the compression every few entries, and
  \<open>Block\<close> with its iterator (\<open>table/block.cc\<close>). The iterator over a finished block is an
  \<open>iterator_impl\<close> of the entries that were added.
\<close>

section \<open>Definitions\<close>

subsection \<open>The builder\<close>

record block_builder =
  bb_buffer :: bytes
  bb_restarts :: "u32 list"
  bb_counter :: int
  bb_finished :: bool
  bb_last_key :: bytes

definition BlockBuilder :: block_builder where
  "BlockBuilder = \<lparr>bb_buffer = [], bb_restarts = [0], bb_counter = 0, bb_finished = False, bb_last_key = []\<rparr>"

definition BlockBuilder_Reset :: "block_builder \<Rightarrow> block_builder" where
  "BlockBuilder_Reset b =
     b\<lparr>bb_buffer := [], bb_restarts := [0], bb_counter := 0, bb_finished := False, bb_last_key := []\<rparr>"

definition CurrentSizeEstimate :: "block_builder \<Rightarrow> nat" where
  "CurrentSizeEstimate b = length (bb_buffer b) + length (bb_restarts b) * 4 + 4"

definition BlockBuilder_empty :: "block_builder \<Rightarrow> bool" where
  "BlockBuilder_empty b \<longleftrightarrow> bb_buffer b = []"

definition BlockBuilder_Finish :: "block_builder \<Rightarrow> bytes \<times> block_builder" where
  "BlockBuilder_Finish b =
     (let buffer = foldl PutFixed32 (bb_buffer b) (bb_restarts b);
          buffer = PutFixed32 buffer (of_nat (length (bb_restarts b)))
      in (buffer, b\<lparr>bb_buffer := buffer, bb_finished := True\<rparr>))"

function shared_loop :: "bytes \<Rightarrow> bytes \<Rightarrow> nat \<Rightarrow> nat \<Rightarrow> nat" where
  "shared_loop last_key key min_length shared =
     (if shared < min_length \<and> last_key ! shared = key ! shared
      then shared_loop last_key key min_length (shared + 1) else shared)"
  by pat_completeness auto
termination
  by (relation "measure (\<lambda>(_, _, m, i). m - i)") auto

declare shared_loop.simps [simp del]

text \<open>\<open>options_->block_restart_interval\<close> is the first argument of \<open>Add\<close>.\<close>

definition BlockBuilder_Add :: "int \<Rightarrow> block_builder \<Rightarrow> bytes \<Rightarrow> bytes \<Rightarrow> block_builder" where
  "BlockBuilder_Add block_restart_interval b key val =
     (let (shared, b) =
        (if bb_counter b < block_restart_interval then
           (shared_loop (bb_last_key b) key (min (length (bb_last_key b)) (length key)) 0, b)
         else (0, b\<lparr>bb_restarts := bb_restarts b @ [of_nat (length (bb_buffer b))], bb_counter := 0\<rparr>));
        non_shared = length key - shared;
        buffer = PutVarint32 (bb_buffer b) (of_nat shared);
        buffer = PutVarint32 buffer (of_nat non_shared);
        buffer = PutVarint32 buffer (of_nat (length val));
        buffer = buffer @ take non_shared (drop shared key);
        buffer = buffer @ val;
        last_key = take shared (bb_last_key b) @ take non_shared (drop shared key)
      in b\<lparr>bb_buffer := buffer, bb_last_key := last_key, bb_counter := bb_counter b + 1\<rparr>)"

subsection \<open>The block\<close>

text \<open>\<open>restart_offset_\<close> is not initialised when the constructor finds an error.\<close>

record block =
  blk_data :: bytes
  blk_size :: nat
  blk_restart_offset :: u32

definition NumRestarts :: "block \<Rightarrow> u32" where
  "NumRestarts b = DecodeFixed32 (drop (blk_size b - 4) (blk_data b))"

definition Block :: "u32 \<Rightarrow> bytes \<Rightarrow> block" where
  "Block uninit contents =
     (let b = \<lparr>blk_data = contents, blk_size = length contents, blk_restart_offset = uninit\<rparr> in
      if blk_size b < 4 then b\<lparr>blk_size := 0\<rparr>
      else
        let max_restarts_allowed = (blk_size b - 4) div 4 in
        if unat (NumRestarts b) > max_restarts_allowed then b\<lparr>blk_size := 0\<rparr>
        else b\<lparr>blk_restart_offset := ucast (of_nat (blk_size b) - ucast (1 + NumRestarts b) * 4 :: u64)\<rparr>)"

text \<open>
  \<open>DecodeEntry\<close> on the bytes from \<open>p\<close> to \<open>limit\<close>: the three numbers and the bytes from the
  returned pointer on.
\<close>

definition DecodeEntry :: "bytes \<Rightarrow> (u32 \<times> u32 \<times> u32 \<times> bytes) option" where
  "DecodeEntry p =
     (if length p < 3 then None
      else do {
        (shared, non_shared, value_length, p) \<leftarrow>
          (let shared = ucast (p ! 0); non_shared = ucast (p ! 1); value_length = ucast (p ! 2) in
           if (shared OR non_shared OR value_length :: u32) < 128
           then Some (shared, non_shared, value_length, drop 3 p)
           else do {
             (shared, p) \<leftarrow> GetVarint32Ptr p;
             (non_shared, p) \<leftarrow> GetVarint32Ptr p;
             (value_length, p) \<leftarrow> GetVarint32Ptr p;
             Some (shared, non_shared, value_length, p)
           });
        if of_nat (length p) < non_shared + value_length then None
        else Some (shared, non_shared, value_length, p)
      })"

subsection \<open>The iterator\<close>

text \<open>
  \<open>Block::Iter\<close>. The slice \<open>value_\<close> is an offset into the block and a size; it is \<open>None\<close>
  when it refers to an empty string elsewhere.
\<close>

record block_iter =
  bi_data :: bytes
  bi_restarts :: u32
  bi_num_restarts :: u32
  bi_current :: u32
  bi_restart_index :: u32
  bi_key :: bytes
  bi_value :: "(nat \<times> nat) option"
  bi_status :: Status

definition Iter :: "bytes \<Rightarrow> u32 \<Rightarrow> u32 \<Rightarrow> block_iter" where
  "Iter data restarts num_restarts =
     \<lparr>bi_data = data, bi_restarts = restarts, bi_num_restarts = num_restarts, bi_current = restarts,
      bi_restart_index = num_restarts, bi_key = [], bi_value = None, bi_status = Status_OK\<rparr>"

definition NextEntryOffset :: "block_iter \<Rightarrow> u32 option" where
  "NextEntryOffset it = map_option (\<lambda>(off, n). of_nat (off + n)) (bi_value it)"

definition GetRestartPoint :: "block_iter \<Rightarrow> u32 \<Rightarrow> u32 option" where
  "GetRestartPoint it index =
     (let at = unat (bi_restarts it) + unat index * 4 in
      if at + 4 \<le> length (bi_data it) then Some (DecodeFixed32 (drop at (bi_data it))) else None)"

definition SeekToRestartPoint :: "u32 \<Rightarrow> block_iter \<Rightarrow> block_iter option" where
  "SeekToRestartPoint index it =
     (let it = it\<lparr>bi_key := [], bi_restart_index := index\<rparr> in do {
        offset \<leftarrow> GetRestartPoint it index;
        Some (it\<lparr>bi_value := Some (unat offset, 0)\<rparr>)
      })"

definition CorruptionError :: "block_iter \<Rightarrow> block_iter" where
  "CorruptionError it = it\<lparr>bi_current := bi_restarts it, bi_restart_index := bi_num_restarts it,
     bi_status := Corruption ''bad entry in block'', bi_key := [], bi_value := None\<rparr>"

text \<open>The bytes from an offset to the restart array, and a read of part of the block.\<close>

definition to_limit :: "block_iter \<Rightarrow> u32 \<Rightarrow> bytes" where
  "to_limit it offset =
     take (unat (bi_restarts it) - unat offset) (drop (unat offset) (bi_data it))"

definition read_block :: "block_iter \<Rightarrow> nat \<Rightarrow> nat \<Rightarrow> bytes option" where
  "read_block it off n = (if off + n \<le> length (bi_data it) then Some (take n (drop off (bi_data it))) else None)"

partial_function (option) restart_loop :: "block_iter \<Rightarrow> block_iter option" where
  "restart_loop it =
     (if bi_restart_index it + 1 < bi_num_restarts it then do {
        r \<leftarrow> GetRestartPoint it (bi_restart_index it + 1);
        if r < bi_current it then restart_loop (it\<lparr>bi_restart_index := bi_restart_index it + 1\<rparr>) else Some it
      } else Some it)"

definition ParseNextKey :: "block_iter \<Rightarrow> (bool \<times> block_iter) option" where
  "ParseNextKey it = do {
     current \<leftarrow> NextEntryOffset it;
     let it = it\<lparr>bi_current := current\<rparr>;
     if current \<ge> bi_restarts it then
       Some (False, it\<lparr>bi_current := bi_restarts it, bi_restart_index := bi_num_restarts it\<rparr>)
     else
       (let p = to_limit it current in
        case DecodeEntry p of
          None \<Rightarrow> Some (False, CorruptionError it)
        | Some (shared, non_shared, value_length, q) \<Rightarrow>
            if length (bi_key it) < unat shared then Some (False, CorruptionError it)
            else
              (let off = unat current + (length p - length q) in do {
                 delta \<leftarrow> read_block it off (unat non_shared);
                 let it = it\<lparr>bi_key := take (unat shared) (bi_key it) @ delta,
                             bi_value := Some (off + unat non_shared, unat value_length)\<rparr>;
                 it \<leftarrow> restart_loop it;
                 Some (True, it)
               }))
   }"

definition Iter_Valid :: "block_iter \<Rightarrow> bool" where
  "Iter_Valid it \<longleftrightarrow> bi_current it < bi_restarts it"

definition Iter_value :: "block_iter \<Rightarrow> bytes option" where
  "Iter_value it = (case bi_value it of None \<Rightarrow> Some [] | Some (off, n) \<Rightarrow> read_block it off n)"

definition Iter_Next :: "block_iter \<Rightarrow> block_iter option" where
  "Iter_Next it = map_option snd (ParseNextKey it)"

text \<open>The backward scan over the restart points; \<open>False\<close> is the early return.\<close>

partial_function (option) prev_restart_loop :: "u32 \<Rightarrow> block_iter \<Rightarrow> (bool \<times> block_iter) option" where
  "prev_restart_loop original it = do {
     r \<leftarrow> GetRestartPoint it (bi_restart_index it);
     if r \<ge> original then
       if bi_restart_index it = 0 then
         Some (False, it\<lparr>bi_current := bi_restarts it, bi_restart_index := bi_num_restarts it\<rparr>)
       else prev_restart_loop original (it\<lparr>bi_restart_index := bi_restart_index it - 1\<rparr>)
     else Some (True, it)
   }"

text \<open>The loop of \<open>Prev\<close> and \<open>SeekToLast\<close>: parse while the entry ends before a bound.\<close>

partial_function (option) scan_to :: "u32 \<Rightarrow> block_iter \<Rightarrow> block_iter option" where
  "scan_to bound it = do {
     (more, it) \<leftarrow> ParseNextKey it;
     if more then do {
       e \<leftarrow> NextEntryOffset it;
       if e < bound then scan_to bound it else Some it
     } else Some it
   }"

definition Iter_Prev :: "block_iter \<Rightarrow> block_iter option" where
  "Iter_Prev it = do {
     let original = bi_current it;
     (found, it) \<leftarrow> prev_restart_loop original it;
     if found then do {
       it \<leftarrow> SeekToRestartPoint (bi_restart_index it) it;
       scan_to original it
     } else Some it
   }"

text \<open>The binary search over the restart points; no result is the return on a corrupt entry.\<close>

partial_function (option) seek_search ::
    "comparator_class \<Rightarrow> bytes \<Rightarrow> u32 \<Rightarrow> u32 \<Rightarrow> block_iter \<Rightarrow> (u32 option \<times> block_iter) option" where
  "seek_search C target left right it =
     (if left < right then
        (let mid = (left + right + 1) div 2 in do {
           region_offset \<leftarrow> GetRestartPoint it mid;
           let p = to_limit it region_offset;
           (case DecodeEntry p of
              None \<Rightarrow> Some (None, CorruptionError it)
            | Some (shared, non_shared, value_length, q) \<Rightarrow>
                if shared \<noteq> 0 then Some (None, CorruptionError it)
                else do {
                  mid_key \<leftarrow> read_block it (unat region_offset + (length p - length q)) (unat non_shared);
                  if Compare C mid_key target < 0 then seek_search C target mid right it
                  else seek_search C target left (mid - 1) it
                })
         })
      else Some (Some left, it))"

partial_function (option) seek_scan :: "comparator_class \<Rightarrow> bytes \<Rightarrow> block_iter \<Rightarrow> block_iter option" where
  "seek_scan C target it = do {
     (more, it) \<leftarrow> ParseNextKey it;
     if \<not> more then Some it
     else if Compare C (bi_key it) target \<ge> 0 then Some it
     else seek_scan C target it
   }"

definition Iter_Seek :: "comparator_class \<Rightarrow> bytes \<Rightarrow> block_iter \<Rightarrow> block_iter option" where
  "Iter_Seek C target it = do {
     (found, it) \<leftarrow> seek_search C target 0 (bi_num_restarts it - 1) it;
     case found of
       None \<Rightarrow> Some it
     | Some left \<Rightarrow> do {
         it \<leftarrow> SeekToRestartPoint left it;
         seek_scan C target it
       }
   }"

definition Iter_SeekToFirst :: "block_iter \<Rightarrow> block_iter option" where
  "Iter_SeekToFirst it = do {
     it \<leftarrow> SeekToRestartPoint 0 it;
     map_option snd (ParseNextKey it)
   }"

definition Iter_SeekToLast :: "block_iter \<Rightarrow> block_iter option" where
  "Iter_SeekToLast it = do {
     it \<leftarrow> SeekToRestartPoint (bi_num_restarts it - 1) it;
     scan_to (bi_restarts it) it
   }"

definition block_iter_class :: "comparator_class \<Rightarrow> block_iter iterator_class" where
  "block_iter_class C = \<lparr>it_Valid = Iter_Valid, it_key = bi_key, it_value = Iter_value, it_status = bi_status,
     it_SeekToFirst = Iter_SeekToFirst, it_SeekToLast = Iter_SeekToLast, it_Seek = Iter_Seek C,
     it_Next = Iter_Next, it_Prev = Iter_Prev\<rparr>"

text \<open>\<open>NewIterator\<close> returns an empty iterator or one over the block.\<close>

definition Block_NewIterator :: "block \<Rightarrow> Status + block_iter" where
  "Block_NewIterator b =
     (if blk_size b < 4 then Inl (NewErrorIterator (Corruption ''bad block contents''))
      else
        let num_restarts = NumRestarts b in
        if num_restarts = 0 then Inl NewEmptyIterator
        else Inr (Iter (blk_data b) (blk_restart_offset b) num_restarts))"

section \<open>The layout of a block\<close>

text \<open>
  A block holds entries \<open>(s, k, v)\<close>, of which the first \<open>s\<close> bytes of the key are shared with
  the key before it, and the indexes of the entries that are restart points.
\<close>

type_synonym block_entry = "nat \<times> bytes \<times> bytes"

abbreviation shared_of :: "block_entry \<Rightarrow> nat" where "shared_of e \<equiv> fst e"
abbreviation key_of :: "block_entry \<Rightarrow> bytes" where "key_of e \<equiv> fst (snd e)"
abbreviation value_of :: "block_entry \<Rightarrow> bytes" where "value_of e \<equiv> snd (snd e)"

definition entry_bytes :: "block_entry \<Rightarrow> bytes" where
  "entry_bytes e = varint_bytes (shared_of e) @ varint_bytes (length (key_of e) - shared_of e) @
     varint_bytes (length (value_of e)) @ drop (shared_of e) (key_of e) @ value_of e"

definition body :: "block_entry list \<Rightarrow> bytes" where
  "body es = concat (map entry_bytes es)"

definition estart :: "block_entry list \<Rightarrow> nat \<Rightarrow> nat" where
  "estart es j = length (body (take j es))"

definition prev_key :: "block_entry list \<Rightarrow> nat \<Rightarrow> bytes" where
  "prev_key es j = (if j = 0 then [] else key_of (es ! (j - 1)))"

definition shares :: "block_entry list \<Rightarrow> nat \<Rightarrow> bool" where
  "shares es j \<longleftrightarrow> shared_of (es ! j) \<le> length (key_of (es ! j)) \<and> shared_of (es ! j) \<le> length (prev_key es j) \<and>
     take (shared_of (es ! j)) (prev_key es j) = take (shared_of (es ! j)) (key_of (es ! j))"

definition restarts_ok :: "block_entry list \<Rightarrow> nat list \<Rightarrow> bool" where
  "restarts_ok es rix \<longleftrightarrow> rix \<noteq> [] \<and> rix ! 0 = 0 \<and> sorted_wrt (<) rix \<and>
     (\<forall>r\<in>set rix. r < length es \<and> shared_of (es ! r) = 0 \<or> es = [] \<and> r = 0)"

definition trailer :: "block_entry list \<Rightarrow> nat list \<Rightarrow> bytes" where
  "trailer es rix = concat (map (\<lambda>r. le_bytes 4 (estart es r)) rix)"

definition block_image :: "block_entry list \<Rightarrow> nat list \<Rightarrow> bytes" where
  "block_image es rix = body es @ trailer es rix @ le_bytes 4 (length rix)"

definition wf_block :: "block_entry list \<Rightarrow> nat list \<Rightarrow> bool" where
  "wf_block es rix \<longleftrightarrow> (\<forall>j < length es. shares es j) \<and> restarts_ok es rix \<and> length (block_image es rix) < 2 ^ 32"

lemma drop_prefix: "drop a xs = h @ t \<Longrightarrow> b = a + length h \<Longrightarrow> drop b xs = t"
  by (metis add.commute append_eq_conv_conj drop_drop)

lemma varint_bytes_pos: "0 < length (varint_bytes n)"
  by (subst varint_bytes.simps) simp

lemma estart_simps [simp]: "estart es 0 = 0" "estart es (length es) = length (body es)"
  by (simp_all add: estart_def body_def)

lemma estart_Suc: "j < length es \<Longrightarrow> estart es (Suc j) = estart es j + length (entry_bytes (es ! j))"
  by (simp add: estart_def body_def take_Suc_conv_app_nth)

lemma entry_bytes_length:
  "length (entry_bytes e) \<ge> 3 + (length (key_of e) - shared_of e) + length (value_of e)"
  using varint_bytes_pos [of "shared_of e"] varint_bytes_pos [of "length (key_of e) - shared_of e"]
    varint_bytes_pos [of "length (value_of e)"] unfolding entry_bytes_def length_append length_drop by linarith

lemma estart_less: "i < j \<Longrightarrow> j \<le> length es \<Longrightarrow> estart es i < estart es j"
proof (induction j)
  case (Suc j)
  then show ?case using entry_bytes_length [of "es ! j"] by (cases "i = j") (auto simp: estart_Suc)
qed simp

lemma estart_less_iff: "i \<le> length es \<Longrightarrow> j \<le> length es \<Longrightarrow> estart es i < estart es j \<longleftrightarrow> i < j"
  using estart_less [of i j es] estart_less [of j i es] by (cases i j rule: linorder_cases) auto

lemma estart_le: "j \<le> length es \<Longrightarrow> estart es j \<le> length (body es)"
  using estart_less [of j "length es" es] by (cases "j = length es") auto

lemma body_split: "j \<le> length es \<Longrightarrow> drop (estart es j) (body es) = body (drop j es)"
proof -
  have "body es = body (take j es) @ body (drop j es)"
    by (metis append_take_drop_id body_def concat_append map_append)
  then show ?thesis by (simp add: estart_def)
qed

lemma body_at: "j < length es \<Longrightarrow> drop (estart es j) (body es) = entry_bytes (es ! j) @ body (drop (Suc j) es)"
  by (subst body_split) (simp_all add: body_def flip: Cons_nth_drop_Suc)

lemma key_length:
  assumes "\<forall>j < length es. shares es j"
  shows "j < length es \<Longrightarrow> length (key_of (es ! j)) \<le> estart es (Suc j)"
proof (induction j)
  case 0
  then show ?case using assms entry_bytes_length [of "es ! 0"] by (auto simp: shares_def prev_key_def estart_Suc)
next
  case (Suc j)
  then have "shared_of (es ! Suc j) \<le> length (key_of (es ! j))"
    using assms by (auto simp: shares_def prev_key_def)
  with Suc show ?case using entry_bytes_length [of "es ! Suc j"] estart_Suc [of "Suc j" es] by simp
qed

text \<open>The restart array.\<close>

lemma drop_blocks:
  "(\<And>x. x \<in> set xs \<Longrightarrow> length (f x) = n) \<Longrightarrow> r \<le> length xs \<Longrightarrow> drop (r * n) (concat (map f xs)) = concat (map f (drop r xs))"
proof (induction xs arbitrary: r)
  case (Cons x xs)
  then show ?case by (cases r) (auto simp: drop_append)
qed simp

lemma length_trailer: "length (trailer es rix) = 4 * length rix"
  by (simp add: trailer_def length_concat comp_def sum_list_triv)

lemma image_restart:
  assumes "r < length rix"
  shows "\<exists>rest. drop (length (body es) + r * 4) (block_image es rix) = le_bytes 4 (estart es (rix ! r)) @ rest"
proof -
  have "drop (r * 4) (trailer es rix) = le_bytes 4 (estart es (rix ! r)) @ trailer es (drop (Suc r) rix)"
    unfolding trailer_def using assms by (subst drop_blocks) (auto simp flip: Cons_nth_drop_Suc)
  moreover have "r * 4 \<le> length (trailer es rix)" using assms by (simp add: length_trailer)
  ultimately show ?thesis by (simp add: block_image_def)
qed

subsection \<open>The decoder\<close>

lemma single_byte:
  assumes "(ucast (b :: u8) :: u32) < 128"
  shows "GetVarint32Ptr (b # bs) = Some (ucast b, bs)"
proof -
  have "unat b < 2 ^ 7" using assms by (simp add: word_less_nat_alt unat_ucast_up)
  then have "take_bit 7 b = b" by (simp add: word_unat_eq_iff unsigned_take_bit_eq take_bit_nat_eq_self)
  then have "b AND 0x80 = b AND (mask 7 AND 0x80)" by (metis take_bit_eq_mask and.assoc)
  moreover have "(mask 7 AND 0x80 :: u8) = 0" by code_simp
  ultimately have "b AND 0x80 = 0" by simp
  then have "(ucast b :: u32) AND 128 = 0" using byte_masks [where 'a = 32, of b] by simp
  then show ?thesis by (simp add: GetVarint32Ptr_def)
qed

text \<open>The fast path of \<open>DecodeEntry\<close> decodes what the general one does.\<close>

lemma DecodeEntry_general:
  "DecodeEntry p =
     (if length p < 3 then None
      else do {
        (shared, p) \<leftarrow> GetVarint32Ptr p;
        (non_shared, p) \<leftarrow> GetVarint32Ptr p;
        (value_length, p) \<leftarrow> GetVarint32Ptr p;
        if of_nat (length p) < non_shared + value_length then None
        else Some (shared, non_shared, value_length, p)
      })"
proof (cases "length p < 3")
  case False
  then obtain a b c q where p: "p = a # b # c # q"
    by (cases p; cases "tl p"; cases "tl (tl p)") auto
  show ?thesis
  proof (cases "(ucast a OR ucast b OR ucast c :: u32) < 128")
    case True
    have le: "x \<le> (x OR y OR z :: u32)" "y \<le> (x OR y OR z :: u32)" "z \<le> (x OR y OR z :: u32)" for x y z :: u32
      by (metis le_word_or1 le_word_or2 or.assoc order_trans)+
    have "(ucast a :: u32) < 128" "(ucast b :: u32) < 128" "(ucast c :: u32) < 128"
      using True le by (meson le_less_trans)+
    then show ?thesis using True by (simp add: DecodeEntry_def p single_byte)
  next
    case False
    then show ?thesis by (simp add: DecodeEntry_def p bind_assoc split: Option.bind_split)
  qed
qed (simp add: DecodeEntry_def)

lemma DecodeEntry_entry:
  assumes "length (entry_bytes (s, k, v) @ rest) < 2 ^ 32" "s < 2 ^ 32" "s \<le> length k"
  shows "DecodeEntry (entry_bytes (s, k, v) @ rest) =
    Some (of_nat s, of_nat (length k - s), of_nat (length v), drop s k @ v @ rest)"
proof -
  have len: "length k - s < 2 ^ 32" "length v < 2 ^ 32" "length k - s + length v < 2 ^ 32"
    using assms(1) entry_bytes_length [of "(s, k, v)"] by simp_all
  have get: "GetVarint32Ptr (varint_bytes n @ r) = Some (of_nat n, r)" if "n < 2 ^ 32" for n r
    using GetVarint32Ptr_Encode [of "of_nat n" r] that by (simp add: EncodeVarint32_bytes unat_of_nat_eq)
  have "\<not> length (entry_bytes (s, k, v) @ rest) < 3" using entry_bytes_length [of "(s, k, v)"] by simp
  moreover have "(of_nat (length (drop s k @ v @ rest)) :: u32) \<ge> of_nat (length k - s) + of_nat (length v)"
  proof -
    have l: "length (drop s k @ v @ rest) < 2 ^ 32" using assms(1) by (simp add: entry_bytes_def)
    have "unat (of_nat (length k - s) + of_nat (length v) :: u32) = length k - s + length v"
      using len(3) unat_of_nat_eq [of "length k - s + length v", where 'a = 32] by simp
    moreover have "unat (of_nat (length (drop s k @ v @ rest)) :: u32) = length (drop s k @ v @ rest)"
      by (rule unat_of_nat_eq) (use l in simp)
    ultimately show ?thesis using l by (simp only: word_le_nat_alt) simp
  qed
  ultimately show ?thesis using len assms(2)
    by (simp add: DecodeEntry_general entry_bytes_def get not_less)
qed

section \<open>The iterator\<close>

definition on_block :: "block_entry list \<Rightarrow> nat list \<Rightarrow> block_iter \<Rightarrow> bool" where
  "on_block es rix it \<longleftrightarrow> bi_data it = block_image es rix \<and> bi_restarts it = of_nat (length (body es)) \<and>
     bi_num_restarts it = of_nat (length rix) \<and> bi_status it = Status_OK"

text \<open>Positioned at an entry, or at the end; and about to parse an entry.\<close>

definition restart_index_ok :: "nat list \<Rightarrow> nat \<Rightarrow> u32 \<Rightarrow> bool" where
  "restart_index_ok rix i w \<longleftrightarrow> (\<exists>ri < length rix. w = of_nat ri \<and> rix ! ri \<le> i \<and>
     (ri + 1 < length rix \<longrightarrow> i \<le> rix ! (ri + 1)))"

definition at_entry :: "block_entry list \<Rightarrow> nat list \<Rightarrow> nat \<Rightarrow> block_iter \<Rightarrow> bool" where
  "at_entry es rix i it \<longleftrightarrow> on_block es rix it \<and> i \<le> length es \<and> bi_current it = of_nat (estart es i) \<and>
     (i < length es \<longrightarrow> bi_key it = key_of (es ! i) \<and>
        bi_value it = Some (estart es (Suc i) - length (value_of (es ! i)), length (value_of (es ! i))) \<and>
        restart_index_ok rix i (bi_restart_index it))"

definition before_entry :: "block_entry list \<Rightarrow> nat list \<Rightarrow> nat \<Rightarrow> block_iter \<Rightarrow> bool" where
  "before_entry es rix j it \<longleftrightarrow> on_block es rix it \<and> j \<le> length es \<and>
     NextEntryOffset it = Some (of_nat (estart es j)) \<and>
     (j < length es \<longrightarrow> shared_of (es ! j) \<le> length (bi_key it) \<and>
        take (shared_of (es ! j)) (bi_key it) = take (shared_of (es ! j)) (key_of (es ! j))) \<and>
     (\<exists>ri < length rix. bi_restart_index it = of_nat ri \<and> rix ! ri \<le> j)"

lemma wf_sizes:
  assumes "wf_block es rix"
  shows "length (body es) < 2 ^ 32" "4 * length rix < 2 ^ 32"
  using assms by (auto simp: wf_block_def block_image_def length_trailer)

lemma estart_32:
  assumes "wf_block es rix" "j \<le> length es"
  shows "estart es j < 2 ^ 32" "unat (of_nat (estart es j) :: u32) = estart es j"
proof -
  show "estart es j < 2 ^ 32" using wf_sizes(1) [OF assms(1)] estart_le [OF assms(2)] by simp
  then show "unat (of_nat (estart es j) :: u32) = estart es j" by (simp add: unat_of_nat_eq)
qed

lemma estart_word_less:
  assumes "wf_block es rix" "i \<le> length es" "j \<le> length es"
  shows "(of_nat (estart es i) :: u32) < of_nat (estart es j) \<longleftrightarrow> i < j"
  using assms by (simp add: word_less_nat_alt estart_32 estart_less_iff)

lemma index_32:
  assumes "wf_block es rix" "r \<le> length rix"
  shows "unat (of_nat r :: u32) = r"
  using wf_sizes(2) [OF assms(1)] assms(2) by (intro unat_of_nat_eq) simp

lemma restart_entry:
  assumes "wf_block es rix" "r \<in> set rix"
  shows "r \<le> length es" "r < length es \<Longrightarrow> shared_of (es ! r) = 0" "es \<noteq> [] \<Longrightarrow> r < length es"
  using assms by (auto simp: wf_block_def restarts_ok_def)

lemma GetRestartPoint_eq:
  assumes "wf_block es rix" "on_block es rix it" "r < length rix"
  shows "GetRestartPoint it (of_nat r) = Some (of_nat (estart es (rix ! r)))"
proof -
  obtain rest where "drop (length (body es) + r * 4) (block_image es rix) = le_bytes 4 (estart es (rix ! r)) @ rest"
    using image_restart [OF assms(3)] by blast
  moreover have "DecodeFixed32 (le_bytes 4 (estart es (rix ! r)) @ rest) = of_nat (estart es (rix ! r))"
    using DecodeFixed32_Encode [of "of_nat (estart es (rix ! r))" rest] assms restart_entry(1) [OF assms(1)]
    by (simp add: estart_32)
  moreover have "unat (of_nat (length (body es)) :: u32) = length (body es)"
    using wf_sizes(1) [OF assms(1)] by (simp add: unat_of_nat_eq)
  moreover have "length (body es) + r * 4 + 4 \<le> length (block_image es rix)"
    using assms(3) by (simp add: block_image_def length_trailer)
  ultimately show ?thesis using assms index_32 [OF assms(1), of r]
    by (simp add: GetRestartPoint_def on_block_def Let_def)
qed

text \<open>The restart index moves up to the last restart point before the entry.\<close>

lemma restart_loop_eq:
  assumes "wf_block es rix" "on_block es rix it" "bi_current it = of_nat (estart es j)" "j \<le> length es"
    and "ri < length rix" "bi_restart_index it = of_nat ri" "rix ! ri \<le> j"
  shows "\<exists>w. restart_loop it = Some (it\<lparr>bi_restart_index := w\<rparr>) \<and> restart_index_ok rix j w"
  using assms(2-)
proof (induction "length rix - ri" arbitrary: ri it)
  case (Suc n)
  note [simp] = Suc.prems(5)
  have num: "bi_num_restarts it = of_nat (length rix)" using Suc.prems(1) by (simp add: on_block_def)
  have suc: "of_nat ri + 1 = (of_nat (Suc ri) :: u32)" by simp
  have less: "(of_nat (Suc ri) :: u32) < of_nat (length rix) \<longleftrightarrow> Suc ri < length rix"
    using Suc.prems(4) by (simp add: word_less_nat_alt index_32 [OF assms(1)] del: of_nat_Suc)
  show ?case
  proof (cases "Suc ri < length rix")
    case True
    let ?r = "rix ! Suc ri"
    have r: "?r \<le> length es" using restart_entry(1) [OF assms(1)] True by simp
    have get: "GetRestartPoint it (of_nat (Suc ri)) = Some (of_nat (estart es ?r))"
      by (rule GetRestartPoint_eq [OF assms(1) Suc.prems(1) True])
    have unfold: "restart_loop it = (if ?r < j then restart_loop (it\<lparr>bi_restart_index := of_nat (Suc ri)\<rparr>) else Some it)"
      using True less get estart_word_less [OF assms(1) r Suc.prems(3)]
      by (subst restart_loop.simps) (simp only: Suc.prems(2,5) num suc if_True bind.simps)
    show ?thesis
    proof (cases "?r < j")
      case True': True
      have "\<exists>w. restart_loop (it\<lparr>bi_restart_index := of_nat (Suc ri)\<rparr>) =
          Some (it\<lparr>bi_restart_index := of_nat (Suc ri)\<rparr>\<lparr>bi_restart_index := w\<rparr>) \<and> restart_index_ok rix j w"
        by (rule Suc.hyps(1) [of "Suc ri"]) (use Suc.hyps(2) Suc.prems True True' in \<open>auto simp: on_block_def\<close>)
      then show ?thesis using unfold True' by simp
    next
      case False
      then show ?thesis using unfold Suc.prems
        by (intro exI [of _ "of_nat ri"]) (auto simp: restart_index_ok_def)
    qed
  next
    case False
    then have "\<not> of_nat ri + 1 < (of_nat (length rix) :: u32)" unfolding suc less .
    then have "restart_loop it = Some it" by (subst restart_loop.simps) (simp only: Suc.prems(5) num if_False)
    then show ?thesis using False Suc.prems
      by (intro exI [of _ "of_nat ri"]) (auto simp: restart_index_ok_def)
  qed
qed simp

lemma to_limit_entry:
  assumes "wf_block es rix" "on_block es rix it" "j < length es"
  shows "to_limit it (of_nat (estart es j)) = entry_bytes (es ! j) @ body (drop (Suc j) es)"
proof -
  have u: "unat (bi_restarts it) = length (body es)"
    using assms(1,2) wf_sizes(1) by (simp add: on_block_def unat_of_nat_eq)
  have e: "estart es j \<le> length (body es)" using assms(3) by (intro estart_le) simp
  have "to_limit it (of_nat (estart es j)) = drop (estart es j) (body es)"
    using assms(1-3) u e by (simp add: to_limit_def estart_32 on_block_def block_image_def)
  then show ?thesis using assms(3) by (simp add: body_at)
qed

lemma length_body_drop: "j \<le> length es \<Longrightarrow> length (body (drop j es)) = length (body es) - estart es j"
  by (simp flip: body_split)

text \<open>What the iterator decodes at an entry, and where the parts of the entry are.\<close>

lemma decode_at:
  assumes "wf_block es rix" "on_block es rix it" "j < length es" "es ! j = (s, k, v)"
  defines "q \<equiv> drop s k @ v @ body (drop (Suc j) es)"
  defines "p \<equiv> to_limit it (of_nat (estart es j))"
  shows "DecodeEntry p = Some (of_nat s, of_nat (length k - s), of_nat (length v), q)"
    and "estart es j + (length p - length q) + (length k - s) + length v = estart es (Suc j)"
    and "read_block it (estart es j + (length p - length q)) (length k - s) = Some (drop s k)"
    and "s < 2 ^ 32" "length k - s < 2 ^ 32" "length v < 2 ^ 32" "s \<le> length k"
proof -
  have all: "\<forall>j < length es. shares es j" using assms(1) by (simp add: wf_block_def)
  have b: "estart es (Suc j) < 2 ^ 32" using estart_32(1) [OF assms(1), of "Suc j"] assms(3) by simp
  have k: "length k < 2 ^ 32" using key_length [OF all assms(3)] assms(4) b by simp
  show s: "s \<le> length k" using all assms(3,4) by (auto simp: shares_def)
  then show "s < 2 ^ 32" "length k - s < 2 ^ 32" using k by simp_all
  have e: "estart es (Suc j) = estart es j + length (entry_bytes (s, k, v))"
    using assms(3,4) by (simp add: estart_Suc)
  then show v: "length v < 2 ^ 32" using b entry_bytes_length [of "(s, k, v)"] by simp
  have p: "p = entry_bytes (s, k, v) @ body (drop (Suc j) es)"
    unfolding p_def to_limit_entry [OF assms(1-3)] assms(4) ..
  have "length p \<le> length (body es)"
    using assms(3) estart_le [of "Suc j" es] by (simp add: p e length_body_drop)
  then have "length (entry_bytes (s, k, v) @ body (drop (Suc j) es)) < 2 ^ 32"
    using wf_sizes(1) [OF assms(1)] p by simp
  from DecodeEntry_entry [OF this _ s] show "DecodeEntry p = Some (of_nat s, of_nat (length k - s), of_nat (length v), q)"
    using \<open>s < 2 ^ 32\<close> by (simp add: p q_def)
  let ?h = "varint_bytes s @ varint_bytes (length k - s) @ varint_bytes (length v)"
  have pq: "p = ?h @ q" by (simp add: p q_def entry_bytes_def)
  show "estart es j + (length p - length q) + (length k - s) + length v = estart es (Suc j)"
    by (simp add: pq e entry_bytes_def)
  have "drop (estart es j) (block_image es rix) = ?h @ drop s k @ v @ body (drop (Suc j) es) @ trailer es rix @ le_bytes 4 (length rix)"
    using body_at [OF assms(3)] assms(3,4) estart_le [of j es] by (simp add: block_image_def entry_bytes_def)
  then have "drop (estart es j + length ?h) (block_image es rix) =
      drop s k @ v @ body (drop (Suc j) es) @ trailer es rix @ le_bytes 4 (length rix)"
    by (rule drop_prefix) simp
  moreover have "estart es j + length ?h + (length k - s) \<le> length (block_image es rix)"
    using estart_le [of "Suc j" es] assms(3) by (simp add: block_image_def e entry_bytes_def)
  ultimately show "read_block it (estart es j + (length p - length q)) (length k - s) = Some (drop s k)"
    using assms(2) by (simp add: pq read_block_def on_block_def)
qed

lemma parse_entry:
  assumes wf: "wf_block es rix" and b: "before_entry es rix j it" and j: "j < length es"
  shows "\<exists>it'. ParseNextKey it = Some (True, it') \<and> at_entry es rix j it'"
proof -
  obtain s k v where e: "es ! j = (s, k, v)" by (metis prod_cases3)
  from b j e have on: "on_block es rix it" and nxt: "NextEntryOffset it = Some (of_nat (estart es j))"
    and sk: "s \<le> length (bi_key it)" "take s (bi_key it) = take s k"
    by (simp_all add: before_entry_def)
  from b obtain ri where ri: "ri < length rix" "bi_restart_index it = of_nat ri" "rix ! ri \<le> j"
    by (auto simp: before_entry_def)
  let ?it1 = "it\<lparr>bi_current := of_nat (estart es j)\<rparr>"
  have on1: "on_block es rix ?it1" using on by (simp add: on_block_def)
  obtain q m off where d: "DecodeEntry (to_limit ?it1 (of_nat (estart es j))) = Some (of_nat s, of_nat m, of_nat (length v), q)"
    "estart es j + (length (to_limit ?it1 (of_nat (estart es j))) - length q) = off"
    "off + m + length v = estart es (Suc j)" "read_block ?it1 off m = Some (drop s k)"
    and sizes: "s < 2 ^ 32" "m < 2 ^ 32" "length v < 2 ^ 32"
    using decode_at [OF wf on1 j e] by blast
  let ?it2 = "?it1\<lparr>bi_key := k, bi_value := Some (off + m, length v)\<rparr>"
  obtain w where w: "restart_loop ?it2 = Some (?it2\<lparr>bi_restart_index := w\<rparr>)" "restart_index_ok rix j w"
    using restart_loop_eq [OF wf, of ?it2 j ri] on ri j by (auto simp: on_block_def)
  have lt: "\<not> bi_restarts it \<le> of_nat (estart es j)"
    using on estart_word_less [OF wf, of j "length es"] j by (simp add: on_block_def not_le)
  have key: "take s (bi_key it) @ drop s k = k" using sk by simp
  have "ParseNextKey it = Some (True, ?it2\<lparr>bi_restart_index := w\<rparr>)"
    unfolding ParseNextKey_def using nxt lt d(1,2,4) sk(1) w(1) key estart_32(2) [OF wf, of j] j sizes
    by (simp add: Let_def unat_of_nat_eq)
  moreover have "at_entry es rix j (?it2\<lparr>bi_restart_index := w\<rparr>)"
    using on w(2) j e d(3) by (simp add: at_entry_def on_block_def)
  ultimately show ?thesis by blast
qed

lemma parse_end:
  assumes wf: "wf_block es rix" and b: "before_entry es rix (length es) it"
  shows "\<exists>it'. ParseNextKey it = Some (False, it') \<and> at_entry es rix (length es) it'"
  using b by (simp add: ParseNextKey_def before_entry_def on_block_def at_entry_def Let_def)

lemma at_before:
  assumes wf: "wf_block es rix" and a: "at_entry es rix i it" and i: "i < length es"
  shows "before_entry es rix (Suc i) it"
proof -
  have "length (value_of (es ! i)) \<le> estart es (Suc i)"
    using i entry_bytes_length [of "es ! i"] by (simp add: estart_Suc)
  moreover have "shares es (Suc i)" if "Suc i < length es" using wf that by (simp add: wf_block_def)
  ultimately show ?thesis using a i
    by (auto simp: before_entry_def at_entry_def NextEntryOffset_def shares_def prev_key_def restart_index_ok_def
        intro: le_SucI)
qed

lemma at_end: "at_entry es rix i it \<Longrightarrow> i < length es \<Longrightarrow> wf_block es rix \<Longrightarrow>
    NextEntryOffset it = Some (of_nat (estart es (Suc i)))"
  using at_before by (auto simp: before_entry_def)

lemma seek_restart:
  assumes wf: "wf_block es rix" and on: "on_block es rix it" and r: "r < length rix"
  shows "\<exists>it'. SeekToRestartPoint (of_nat r) it = Some it' \<and> before_entry es rix (rix ! r) it'"
proof -
  let ?it = "it\<lparr>bi_key := [], bi_restart_index := of_nat r\<rparr>"
  have "on_block es rix ?it" using on by (simp add: on_block_def)
  from GetRestartPoint_eq [OF wf this r]
  have "SeekToRestartPoint (of_nat r) it = Some (?it\<lparr>bi_value := Some (estart es (rix ! r), 0)\<rparr>)"
    using r restart_entry(1) [OF wf, of "rix ! r"] by (simp add: SeekToRestartPoint_def Let_def estart_32 [OF wf])
  moreover have "before_entry es rix (rix ! r) (?it\<lparr>bi_value := Some (estart es (rix ! r), 0)\<rparr>)"
    using on r restart_entry [OF wf, of "rix ! r"] by (auto simp: before_entry_def on_block_def NextEntryOffset_def)
  ultimately show ?thesis by blast
qed

text \<open>The forward scan stops at the last entry that starts before the bound.\<close>

lemma scan_to_eq:
  assumes wf: "wf_block es rix"
  shows "before_entry es rix j it \<Longrightarrow> j < i \<Longrightarrow> i \<le> length es \<Longrightarrow>
    \<exists>it'. scan_to (of_nat (estart es i)) it = Some it' \<and> at_entry es rix (i - 1) it'"
proof (induction "i - j" arbitrary: j it)
  case (Suc n)
  obtain it' where p: "ParseNextKey it = Some (True, it')" and a: "at_entry es rix j it'"
    using parse_entry [OF wf Suc.prems(1)] Suc.prems by auto
  have e: "NextEntryOffset it' = Some (of_nat (estart es (Suc j)))"
    using at_end [OF a _ wf] Suc.prems by simp
  have less: "(of_nat (estart es (Suc j)) :: u32) < of_nat (estart es i) \<longleftrightarrow> Suc j < i"
    using Suc.prems by (intro estart_word_less [OF wf]) simp_all
  show ?case
  proof (cases "Suc j < i")
    case True
    have "before_entry es rix (Suc j) it'" using at_before [OF wf a] Suc.prems by simp
    from Suc.hyps(1) [OF _ this True Suc.prems(3)] Suc.hyps(2)
    have "\<exists>it''. scan_to (of_nat (estart es i)) it' = Some it'' \<and> at_entry es rix (i - 1) it''" by simp
    then show ?thesis using p e less True by (subst scan_to.simps) simp
  next
    case False
    then have "i - 1 = j" using Suc.prems by simp
    then show ?thesis using p e less False a by (subst scan_to.simps) simp
  qed
qed simp

lemma scan_to_empty:
  assumes wf: "wf_block [] rix" and b: "before_entry [] rix 0 it"
  shows "\<exists>it'. scan_to bound it = Some it' \<and> at_entry [] rix 0 it'"
proof -
  obtain it' where "ParseNextKey it = Some (False, it')" "at_entry [] rix 0 it'" using parse_end [OF wf] b by auto
  then show ?thesis by (subst scan_to.simps) simp
qed

lemma Iter_SeekToFirst_eq:
  assumes wf: "wf_block es rix" and on: "on_block es rix it"
  shows "\<exists>it'. Iter_SeekToFirst it = Some it' \<and> at_entry es rix 0 it'"
proof -
  have r: "0 < length rix" "rix ! 0 = 0" using wf by (auto simp: wf_block_def restarts_ok_def)
  obtain it' where "SeekToRestartPoint 0 it = Some it'" "before_entry es rix 0 it'"
    using seek_restart [OF wf on r(1)] r(2) by auto
  then show ?thesis using parse_entry [OF wf, of 0 it'] parse_end [OF wf, of it']
    by (cases "es = []") (auto simp: Iter_SeekToFirst_def)
qed

lemma last_restart:
  assumes wf: "wf_block es rix" and on: "on_block es rix it"
  shows "bi_num_restarts it - 1 = of_nat (length rix - 1)" "length rix - 1 < length rix"
proof -
  have "rix \<noteq> []" using wf by (simp add: wf_block_def restarts_ok_def)
  then show "bi_num_restarts it - 1 = of_nat (length rix - 1)" "length rix - 1 < length rix"
    using on by (cases rix; simp add: on_block_def)+
qed

lemma Iter_SeekToLast_eq:
  assumes wf: "wf_block es rix" and on: "on_block es rix it"
  shows "\<exists>it'. Iter_SeekToLast it = Some it' \<and> at_entry es rix (length es - 1) it'"
proof -
  note r = last_restart [OF wf on]
  obtain it' where it': "SeekToRestartPoint (bi_num_restarts it - 1) it = Some it'"
    "before_entry es rix (rix ! (length rix - 1)) it'"
    using seek_restart [OF wf on r(2)] r(1) by auto
  note j = restart_entry [OF wf, of "rix ! (length rix - 1)"] r(2)
  have bound: "bi_restarts it' = of_nat (estart es (length es))" using it'(2) by (simp add: before_entry_def on_block_def)
  have "\<exists>it''. scan_to (bi_restarts it') it' = Some it'' \<and> at_entry es rix (length es - 1) it''"
  proof (cases "es = []")
    case True
    then have "rix ! (length rix - 1) = 0" using j by simp
    then show ?thesis using scan_to_empty it'(2) wf True by simp
  next
    case False
    then show ?thesis unfolding bound using j by (intro scan_to_eq [OF wf it'(2)]) simp_all
  qed
  then show ?thesis using it' by (simp add: Iter_SeekToLast_def)
qed

lemma Iter_Next_eq:
  assumes wf: "wf_block es rix" and a: "at_entry es rix i it" and i: "i < length es"
  shows "\<exists>it'. Iter_Next it = Some it' \<and> at_entry es rix (Suc i) it'"
proof -
  have b: "before_entry es rix (Suc i) it" by (rule at_before [OF wf a i])
  show ?thesis
  proof (cases "Suc i < length es")
    case True
    then show ?thesis using parse_entry [OF wf b] by (auto simp: Iter_Next_def)
  next
    case False
    then have "Suc i = length es" using i by simp
    then show ?thesis using parse_end [OF wf, of it] b by (auto simp: Iter_Next_def)
  qed
qed

lemma prev_restart_loop_eq:
  assumes wf: "wf_block es rix" and on: "on_block es rix it" and ri: "ri < length rix" "bi_restart_index it = of_nat ri"
    and i: "i \<le> length es"
  shows "if i = 0
    then prev_restart_loop (of_nat (estart es i)) it =
      Some (False, it\<lparr>bi_current := bi_restarts it, bi_restart_index := bi_num_restarts it\<rparr>)
    else \<exists>r < length rix. prev_restart_loop (of_nat (estart es i)) it = Some (True, it\<lparr>bi_restart_index := of_nat r\<rparr>) \<and> rix ! r < i"
  using on ri
proof (induction ri arbitrary: it)
  case 0
  have get: "GetRestartPoint it 0 = Some 0"
    using GetRestartPoint_eq [OF wf 0(1,2)] wf by (simp add: wf_block_def restarts_ok_def)
  have less: "(of_nat (estart es 0) :: u32) < of_nat (estart es i) \<longleftrightarrow> 0 < i"
    using i by (intro estart_word_less [OF wf]) simp_all
  then show ?case using get 0 wf
    by (subst (1 2) prev_restart_loop.simps) (auto simp: not_less wf_block_def restarts_ok_def intro!: exI [of _ 0])
next
  case (Suc ri)
  let ?r = "rix ! Suc ri"
  have get: "GetRestartPoint it (of_nat (Suc ri)) = Some (of_nat (estart es ?r))"
    by (rule GetRestartPoint_eq [OF wf Suc.prems(1,2)])
  have less: "of_nat (estart es i) \<le> (of_nat (estart es ?r) :: u32) \<longleftrightarrow> i \<le> ?r"
    using i restart_entry(1) [OF wf, of ?r] Suc.prems(2) estart_word_less [OF wf, of ?r i] by (simp add: not_less [symmetric])
  have nz: "(of_nat (Suc ri) :: u32) \<noteq> 0"
    using index_32 [OF wf, of "Suc ri"] Suc.prems(2) by (metis Suc_neq_Zero less_imp_le unat_0)
  have unfold: "prev_restart_loop (of_nat (estart es i)) it =
      (if i \<le> ?r then prev_restart_loop (of_nat (estart es i)) (it\<lparr>bi_restart_index := of_nat ri\<rparr>) else Some (True, it))"
    by (subst prev_restart_loop.simps) (simp only: Suc.prems(3) get nz less bind.simps if_False, simp)
  show ?case
  proof (cases "i \<le> ?r")
    case True
    let ?it = "it\<lparr>bi_restart_index := of_nat ri\<rparr>"
    have "on_block es rix ?it" using Suc.prems(1) by (simp add: on_block_def)
    from Suc.IH [OF this] show ?thesis using Suc.prems(2) True unfold by (auto simp: Suc_lessD)
  next
    case False
    then have "prev_restart_loop (of_nat (estart es i)) it = Some (True, it\<lparr>bi_restart_index := of_nat (Suc ri)\<rparr>)"
      using unfold Suc.prems(3) by simp
    moreover have "i \<noteq> 0" "?r < i" using False by simp_all
    ultimately show ?thesis using Suc.prems(2) by (simp only: if_False) blast
  qed
qed

lemma Iter_Prev_eq:
  assumes wf: "wf_block es rix" and a: "at_entry es rix i it" and i: "i < length es"
  shows "\<exists>it'. Iter_Prev it = Some it' \<and> at_entry es rix (if i = 0 then length es else i - 1) it'"
proof -
  from a i obtain ri where on: "on_block es rix it" and cur: "bi_current it = of_nat (estart es i)"
    and ri: "ri < length rix" "bi_restart_index it = of_nat ri"
    by (auto simp: at_entry_def restart_index_ok_def)
  note loop = prev_restart_loop_eq [OF wf on ri, of i]
  show ?thesis
  proof (cases "i = 0")
    case True
    then show ?thesis using loop i on cur by (simp add: Iter_Prev_def at_entry_def on_block_def)
  next
    case False
    then obtain r where r: "r < length rix" "rix ! r < i"
      "prev_restart_loop (of_nat (estart es i)) it = Some (True, it\<lparr>bi_restart_index := of_nat r\<rparr>)"
      using loop i by auto
    let ?it = "it\<lparr>bi_restart_index := of_nat r\<rparr>"
    have "on_block es rix ?it" using on by (simp add: on_block_def)
    from seek_restart [OF wf this r(1)] obtain it1
      where it1: "SeekToRestartPoint (of_nat r) ?it = Some it1" "before_entry es rix (rix ! r) it1" by blast
    with scan_to_eq [OF wf it1(2) r(2)] i False show ?thesis
      using r(3) by (auto simp: Iter_Prev_def cur Let_def)
  qed
qed

lemma mid_32:
  assumes wf: "wf_block es rix" and "l < r" "r < length rix"
  shows "(of_nat l + of_nat r + 1) div (2 :: u32) = of_nat ((l + r + 1) div 2)"
proof -
  have b: "l + r + 1 < 2 ^ 32" using wf_sizes(2) [OF wf] assms(2,3) by simp
  have "(of_nat l + of_nat r + 1 :: u32) = of_nat (l + r + 1)" by simp
  moreover have "unat (of_nat (l + r + 1) div (2 :: u32)) = unat (of_nat ((l + r + 1) div 2) :: u32)"
  proof -
    have "unat (of_nat (l + r + 1) :: u32) = l + r + 1" using b by (intro unat_of_nat_eq) simp
    moreover have "unat (of_nat ((l + r + 1) div 2) :: u32) = (l + r + 1) div 2" using b by (intro unat_of_nat_eq) simp
    ultimately show ?thesis by (simp only: unat_div) simp
  qed
  ultimately show ?thesis by (metis word_unat_eq_iff)
qed

context comparator
begin

abbreviation kvs_of :: "block_entry list \<Rightarrow> entries" where "kvs_of es \<equiv> map snd es"

lemma seek_search_eq:
  assumes wf: "wf_block es rix" and on: "on_block es rix it"
  shows "l \<le> r \<Longrightarrow> r < length rix \<Longrightarrow> l = 0 \<or> lt (key_of (es ! (rix ! l))) target \<Longrightarrow>
    \<exists>m < length rix. seek_search C target (of_nat l) (of_nat r) it = Some (Some (of_nat m), it) \<and>
      (m = 0 \<or> lt (key_of (es ! (rix ! m))) target)"
proof (induction "r - l" arbitrary: l r rule: less_induct)
  case less
  have word_less: "(of_nat l :: u32) < of_nat r \<longleftrightarrow> l < r"
    using less.prems by (simp add: word_less_nat_alt index_32 [OF wf])
  show ?case
  proof (cases "l < r")
    case False
    then show ?thesis using less.prems word_less
      by (intro exI [of _ l]) (subst seek_search.simps, auto)
  next
    case True
    define m where "m = (l + r + 1) div 2"
    have m: "l < m" "m \<le> r" using True by (simp_all add: m_def)
    have mlen: "m < length rix" using m less.prems by simp
    let ?e = "es ! (rix ! m)"
    have "sorted_wrt (<) rix" "rix ! 0 = 0" using wf by (simp_all add: wf_block_def restarts_ok_def)
    then have "0 < rix ! m" using sorted_wrt_nth_less [of "(<)" rix 0 m] m mlen by simp
    then have ne: "es \<noteq> []" using wf nth_mem [OF mlen] by (auto simp: wf_block_def restarts_ok_def)
    then have j: "rix ! m < length es" and s0: "shared_of ?e = 0"
      using restart_entry(2,3) [OF wf, of "rix ! m"] mlen by auto
    obtain k v where e: "?e = (0, k, v)" using s0 by (metis prod.collapse)
    let ?start = "estart es (rix ! m)"
    define q where "q = k @ v @ body (drop (Suc (rix ! m)) es)"
    define off where "off = ?start + (length (to_limit it (of_nat ?start)) - length q)"
    have d: "DecodeEntry (to_limit it (of_nat ?start)) = Some (0, of_nat (length k), of_nat (length v), q)"
      "read_block it off (length k) = Some k" "length k < 2 ^ 32"
      using decode_at(1,3,5) [OF wf on j e] by (simp_all add: q_def off_def)
    have get: "GetRestartPoint it (of_nat m) = Some (of_nat ?start)" by (rule GetRestartPoint_eq [OF wf on mlen])
    have pred: "of_nat m - 1 = (of_nat (m - 1) :: u32)" using m by (cases m) simp_all
    have mid: "(of_nat l + of_nat r + 1) div (2 :: u32) = of_nat m"
      using mid_32 [OF wf True less.prems(2)] by (simp add: m_def)
    have unfold: "seek_search C target (of_nat l) (of_nat r) it =
        (if lt k target then seek_search C target (of_nat m) (of_nat r) it
         else seek_search C target (of_nat l) (of_nat (m - 1)) it)"
    proof -
      have n: "unat (of_nat (length k) :: u32) = length k" using d(3) by (intro unat_of_nat_eq) simp
      show ?thesis
        by (subst seek_search.simps)
          (simp only: word_less True if_True Let_def mid get bind.simps d(1,2) n pred option.case prod.case off_def [symmetric]
            estart_32(2) [OF wf less_imp_le [OF j]] simp_thms if_False)
    qed
    show ?thesis
    proof (cases "lt k target")
      case True': True
      have "\<exists>m' < length rix. seek_search C target (of_nat m) (of_nat r) it = Some (Some (of_nat m'), it) \<and>
          (m' = 0 \<or> lt (key_of (es ! (rix ! m'))) target)"
        by (rule less.hyps) (use m less.prems True' e in auto)
      then show ?thesis using unfold True' by simp
    next
      case False
      have "\<exists>m' < length rix. seek_search C target (of_nat l) (of_nat (m - 1)) it = Some (Some (of_nat m'), it) \<and>
          (m' = 0 \<or> lt (key_of (es ! (rix ! m'))) target)"
        by (rule less.hyps) (use m less.prems in auto)
      then show ?thesis using unfold False by simp
    qed
  qed
qed

lemma seek_scan_eq:
  assumes wf: "wf_block es rix"
  shows "before_entry es rix j it \<Longrightarrow> j \<le> length es \<Longrightarrow> \<forall>i < j. lt (key_of (es ! i)) target \<Longrightarrow>
    \<exists>it'. seek_scan C target it = Some it' \<and> at_entry es rix (entries_below C (kvs_of es) target) it'"
proof (induction "length es - j" arbitrary: j it)
  case 0
  then have j: "j = length es" by simp
  with 0 have "entries_below C (kvs_of es) target = length es" by (intro entries_below_eqI) auto
  moreover obtain it' where "ParseNextKey it = Some (False, it')" "at_entry es rix (length es) it'"
    using parse_end [OF wf, of it] 0 j by auto
  ultimately show ?case by (subst seek_scan.simps) simp
next
  case (Suc n)
  have j: "j < length es" using Suc.hyps(2) by simp
  obtain it' where p: "ParseNextKey it = Some (True, it')" and a: "at_entry es rix j it'"
    using parse_entry [OF wf Suc.prems(1) j] by auto
  have k: "bi_key it' = key_of (es ! j)" using a j by (simp add: at_entry_def)
  show ?case
  proof (cases "lt (key_of (es ! j)) target")
    case True
    have b: "before_entry es rix (Suc j) it'" by (rule at_before [OF wf a j])
    have "\<forall>i < Suc j. lt (key_of (es ! i)) target" using Suc.prems(3) True by (auto simp: less_Suc_eq)
    with Suc.hyps(1) [OF _ b] Suc.hyps(2) j
    have "\<exists>it''. seek_scan C target it' = Some it'' \<and> at_entry es rix (entries_below C (kvs_of es) target) it''" by simp
    then show ?thesis using p True k by (subst seek_scan.simps) simp
  next
    case False
    with Suc.prems j have "entries_below C (kvs_of es) target = j" by (intro entries_below_eqI) auto
    then show ?thesis using p False k a by (subst seek_scan.simps) simp
  qed
qed

lemma Iter_Seek_eq:
  assumes wf: "wf_block es rix" and on: "on_block es rix it" and sorted: "sorted_entries C ok (kvs_of es)" and t: "ok target"
  shows "\<exists>it'. Iter_Seek C target it = Some it' \<and> at_entry es rix (entries_below C (kvs_of es) target) it'"
proof -
  note r = last_restart [OF wf on]
  have "\<exists>m < length rix. seek_search C target (of_nat 0) (of_nat (length rix - 1)) it = Some (Some (of_nat m), it) \<and>
      (m = 0 \<or> lt (key_of (es ! (rix ! m))) target)"
    by (rule seek_search_eq [OF wf on]) (use r in simp_all)
  then obtain m where m: "m < length rix"
      "seek_search C target (of_nat 0) (of_nat (length rix - 1)) it = Some (Some (of_nat m), it)"
      "m = 0 \<or> lt (key_of (es ! (rix ! m))) target"
    by (elim exE conjE) (rule that)
  have search: "seek_search C target 0 (bi_num_restarts it - 1) it = Some (Some (of_nat m), it)"
    using m(2) by (simp only: r(1) semiring_1_class.of_nat_0)
  obtain it' where it': "SeekToRestartPoint (of_nat m) it = Some it'" "before_entry es rix (rix ! m) it'"
    using seek_restart [OF wf on m(1)] by blast
  have j: "rix ! m \<le> length es" using restart_entry(1) [OF wf] m(1) by simp
  have "lt (key_of (es ! i)) target" if i: "i < rix ! m" for i
  proof -
    have "m \<noteq> 0" using i wf by (cases m) (simp_all add: wf_block_def restarts_ok_def)
    have "es \<noteq> []" using i j by auto
    then have j': "rix ! m < length es" using restart_entry(3) [OF wf, of "rix ! m"] m(1) by simp
    have oks: "ok (key_of (es ! i))" "ok (key_of (es ! (rix ! m)))"
      using sorted_entries_ok [OF sorted, of i] sorted_entries_ok [OF sorted, of "rix ! m"] i j' by simp_all
    have "lt (key_of (es ! i)) (key_of (es ! (rix ! m)))"
      using sorted_entries_less [OF sorted i] i j' by simp
    then show ?thesis using m(3) \<open>m \<noteq> 0\<close> trans [OF oks t] by blast
  qed
  then obtain it'' where "seek_scan C target it' = Some it''" "at_entry es rix (entries_below C (kvs_of es) target) it''"
    using seek_scan_eq [OF wf it'(2) j] by blast
  then show ?thesis using search it'(1) by (simp add: Iter_Seek_def)
qed

definition block_cursor :: "entries \<Rightarrow> nat \<Rightarrow> block_iter \<Rightarrow> bool" where
  "block_cursor kvs i it \<longleftrightarrow> (\<exists>es rix. kvs_of es = kvs \<and> wf_block es rix \<and> sorted_entries C ok kvs \<and> at_entry es rix i it)"

lemma block_iter_value:
  assumes wf: "wf_block es rix" and at: "at_entry es rix i it" and i: "i < length es"
  shows "Iter_value it = Some (value_of (es ! i))"
proof -
  obtain s k v where e: "es ! i = (s, k, v)" by (metis prod_cases3)
  have on: "on_block es rix it" using at by (simp add: at_entry_def)
  obtain q off where q: "off + (length k - s) + length v = estart es (Suc i)"
    "off = estart es i + (length (to_limit it (of_nat (estart es i))) - length q)" "q = drop s k @ v @ body (drop (Suc i) es)"
    using decode_at(2) [OF wf on i e] by blast
  have "drop (estart es (Suc i)) (body es) = body (drop (Suc i) es)" using i by (simp add: body_split)
  have "drop (estart es i) (block_image es rix) = entry_bytes (s, k, v) @ body (drop (Suc i) es) @ trailer es rix @ le_bytes 4 (length rix)"
    using body_at [OF i] e estart_le [of i es] i by (simp add: block_image_def)
  also have "\<dots> = (varint_bytes s @ varint_bytes (length k - s) @ varint_bytes (length v) @ drop s k) @
      v @ body (drop (Suc i) es) @ trailer es rix @ le_bytes 4 (length rix)" by (simp add: entry_bytes_def)
  finally have "drop (estart es (Suc i) - length v) (block_image es rix) = v @ body (drop (Suc i) es) @ trailer es rix @ le_bytes 4 (length rix)"
    by (rule drop_prefix) (use i e in \<open>simp add: estart_Suc entry_bytes_def\<close>)
  moreover have "estart es (Suc i) \<le> length (block_image es rix)"
    using estart_le [of "Suc i" es] i by (simp add: block_image_def)
  moreover have "length v \<le> estart es (Suc i)" using q by simp
  ultimately have "Iter_value it = Some v" using at i e on by (simp add: Iter_value_def at_entry_def read_block_def on_block_def)
  then show ?thesis using e by simp
qed

lemma block_iter_impl: "iterator_impl C ok (block_iter_class C) block_cursor"
proof (unfold_locales, goal_cases)
  case (3 kvs i it)
  then obtain es rix where wf: "wf_block es rix" "at_entry es rix i it" "kvs_of es = kvs" by (auto simp: block_cursor_def)
  then have "Iter_Valid it \<longleftrightarrow> (of_nat (estart es i) :: u32) < of_nat (estart es (length es))"
    by (simp add: at_entry_def Iter_Valid_def on_block_def)
  also have "\<dots> \<longleftrightarrow> i < length es" using wf by (intro estart_word_less [OF wf(1)]) (simp_all add: at_entry_def)
  finally show ?case using wf(3) by (auto simp add: block_iter_class_def)
next
  case (5 kvs i it)
  then obtain es rix where "wf_block es rix" "at_entry es rix i it" "kvs_of es = kvs" "i < length es"
    by (auto simp: block_cursor_def)
  then show ?case using block_iter_value by (auto simp: block_iter_class_def)
next
  case (7 kvs i it)
  then show ?case using Iter_SeekToFirst_eq [of _ _ it] by (fastforce simp: block_cursor_def at_entry_def block_iter_class_def)
next
  case (8 kvs i it)
  then show ?case using Iter_SeekToLast_eq [of _ _ it] by (fastforce simp: block_cursor_def at_entry_def block_iter_class_def)
next
  case (9 kvs i it target)
  then show ?case using Iter_Seek_eq [of _ _ it target] by (fastforce simp: block_cursor_def at_entry_def block_iter_class_def)
next
  case (10 kvs i it)
  then show ?case using Iter_Next_eq [of _ _ i it] by (fastforce simp: block_cursor_def block_iter_class_def)
next
  case (11 kvs i it)
  then show ?case using Iter_Prev_eq [of _ _ i it] by (fastforce simp: block_cursor_def block_iter_class_def)
qed (auto simp: block_cursor_def at_entry_def on_block_def block_iter_class_def)

end

interpretation bytewise_block: iterator_impl BytewiseComparator "\<lambda>_. True" "block_iter_class BytewiseComparator"
  bytewise.block_cursor
  by (rule bytewise.block_iter_impl)

interpretation internal_block: iterator_impl "InternalKeyComparator BytewiseComparator" "valid_ikey (\<lambda>_. True)"
  "block_iter_class (InternalKeyComparator BytewiseComparator)" internal.block_cursor
  by (rule internal.block_iter_impl)

section \<open>The builder writes a well-formed block\<close>

lemma shared_loop_diff: "shared_loop a b m i = diff_loop a b m i"
  by (induction a b m i rule: shared_loop.induct) (subst shared_loop.simps, subst diff_loop.simps, simp)

lemma varint32_of_nat: "n < 2 ^ 32 \<Longrightarrow> PutVarint32 dst (of_nat n) = dst @ varint_bytes n"
  by (simp add: PutVarint32_def EncodeVarint32_bytes unat_of_nat_eq)

lemma estart_append: "r \<le> length es \<Longrightarrow> estart (es @ xs) r = estart es r"
  by (simp add: estart_def)

lemma body_append: "body (es @ [e]) = body es @ entry_bytes e"
  by (simp add: body_def)

lemma shares_append:
  assumes "\<forall>j < length es. shares es j" "shared_of e \<le> length (key_of e)"
    "shared_of e \<le> length (prev_key es (length es))"
    "take (shared_of e) (prev_key es (length es)) = take (shared_of e) (key_of e)"
  shows "\<forall>j < length (es @ [e]). shares (es @ [e]) j"
proof (intro allI impI)
  fix j
  assume j: "j < length (es @ [e])"
  have "prev_key (es @ [e]) j = prev_key es j" using j by (auto simp: prev_key_def nth_append)
  then show "shares (es @ [e]) j" using assms j by (cases "j < length es") (auto simp: shares_def nth_append less_Suc_eq)
qed

definition builder_inv :: "block_builder \<Rightarrow> block_entry list \<Rightarrow> nat list \<Rightarrow> bool" where
  "builder_inv b es rix \<longleftrightarrow> bb_buffer b = body es \<and> bb_restarts b = map (\<lambda>r. of_nat (estart es r)) rix \<and>
     bb_last_key b = prev_key es (length es) \<and> (\<forall>j < length es. shares es j) \<and> restarts_ok es rix \<and>
     0 \<le> bb_counter b \<and> (es = [] \<longrightarrow> bb_counter b = 0)"

lemma builder_inv_init: "builder_inv BlockBuilder [] [0]"
  by (simp add: builder_inv_def BlockBuilder_def body_def restarts_ok_def prev_key_def)

lemma BlockBuilder_Add_eq:
  assumes "s \<le> length key" "s < 2 ^ 32" "length key < 2 ^ 32" "length val < 2 ^ 32"
    and "(if bb_counter b < interval
      then (shared_loop (bb_last_key b) key (min (length (bb_last_key b)) (length key)) 0, b)
      else (0, b\<lparr>bb_restarts := bb_restarts b @ [of_nat (length (bb_buffer b))], bb_counter := 0\<rparr>)) = (s, b')"
  shows "BlockBuilder_Add interval b key val =
    b'\<lparr>bb_buffer := bb_buffer b' @ entry_bytes (s, key, val), bb_last_key := take s (bb_last_key b') @ drop s key,
       bb_counter := bb_counter b' + 1\<rparr>"
proof -
  have "length key - s < 2 ^ 32" using assms(3) by simp
  then show ?thesis unfolding BlockBuilder_Add_def Let_def assms(5) prod.case
    using assms(1-4) by (simp only: varint32_of_nat) (simp add: entry_bytes_def)
qed

lemma builder_inv_Add:
  assumes inv: "builder_inv b es rix" and interval: "1 \<le> interval"
    and len: "length key < 2 ^ 32" "length val < 2 ^ 32"
  shows "\<exists>s rix'. builder_inv (BlockBuilder_Add interval b key val) (es @ [(s, key, val)]) rix'"
proof (cases "bb_counter b < interval")
  case True
  let ?last = "prev_key es (length es)"
  let ?m = "min (length ?last) (length key)"
  let ?s = "diff_loop ?last key ?m 0"
  have s: "?s \<le> ?m" "take ?s ?last = take ?s key" using diff_loop_spec [of 0 ?m ?last key] by auto
  have lk: "bb_last_key b = ?last" using inv by (simp add: builder_inv_def)
  have "BlockBuilder_Add interval b key val =
      b\<lparr>bb_buffer := body es @ entry_bytes (?s, key, val), bb_last_key := key, bb_counter := bb_counter b + 1\<rparr>"
    using BlockBuilder_Add_eq [of ?s key val b interval b] s len True inv
    by (simp add: shared_loop_diff lk builder_inv_def)
  moreover have "restarts_ok (es @ [(?s, key, val)]) rix"
  proof -
    have "es = [] \<Longrightarrow> ?s = 0" using s(1) by (simp add: prev_key_def)
    then show ?thesis using inv by (auto simp: builder_inv_def restarts_ok_def nth_append)
  qed
  moreover have "\<forall>j < length (es @ [(?s, key, val)]). shares (es @ [(?s, key, val)]) j"
    using inv s by (intro shares_append) (auto simp: builder_inv_def)
  moreover have "map (\<lambda>r. of_nat (estart (es @ [(?s, key, val)]) r)) rix = (map (\<lambda>r. of_nat (estart es r)) rix :: u32 list)"
    using inv by (auto simp: builder_inv_def restarts_ok_def estart_append)
  ultimately have "builder_inv (BlockBuilder_Add interval b key val) (es @ [(?s, key, val)]) rix"
    using inv by (simp add: builder_inv_def body_append prev_key_def)
  then show ?thesis by blast
next
  case False
  let ?e = "(0, key, val) :: block_entry"
  have ne: "es \<noteq> []" using inv False interval by (auto simp: builder_inv_def)
  have "BlockBuilder_Add interval b key val =
      b\<lparr>bb_restarts := bb_restarts b @ [of_nat (length (body es))], bb_buffer := body es @ entry_bytes ?e,
        bb_last_key := key, bb_counter := 1\<rparr>"
    using BlockBuilder_Add_eq [of 0 key val b interval] len False inv by (simp add: builder_inv_def)
  moreover have "restarts_ok (es @ [?e]) (rix @ [length es])"
    using inv ne by (auto simp: builder_inv_def restarts_ok_def nth_append sorted_wrt_append)
  moreover have "\<forall>j < length (es @ [?e]). shares (es @ [?e]) j"
    using inv by (intro shares_append) (auto simp: builder_inv_def)
  moreover have "map (\<lambda>r. of_nat (estart (es @ [?e]) r)) (rix @ [length es]) =
      (map (\<lambda>r. of_nat (estart es r)) rix @ [of_nat (length (body es))] :: u32 list)"
    using inv by (auto simp: builder_inv_def restarts_ok_def estart_append)
  ultimately have "builder_inv (BlockBuilder_Add interval b key val) (es @ [?e]) (rix @ [length es])"
    using inv by (simp add: builder_inv_def body_append prev_key_def)
  then show ?thesis by blast
qed

definition add_all :: "int \<Rightarrow> entries \<Rightarrow> block_builder" where
  "add_all interval kvs = foldl (\<lambda>b (k, v). BlockBuilder_Add interval b k v) BlockBuilder kvs"

definition build_block :: "int \<Rightarrow> entries \<Rightarrow> bytes" where
  "build_block interval kvs = fst (BlockBuilder_Finish (add_all interval kvs))"

lemma builder_inv_add_all:
  assumes "1 \<le> interval" "\<forall>(k, v)\<in>set kvs. length k < 2 ^ 32 \<and> length v < 2 ^ 32"
  shows "\<exists>es rix. map snd es = kvs \<and> builder_inv (add_all interval kvs) es rix"
  using assms(2)
proof (induction kvs rule: rev_induct)
  case Nil
  then show ?case using builder_inv_init by (auto simp: add_all_def)
next
  case (snoc kv kvs)
  then obtain es rix where es: "map snd es = kvs" "builder_inv (add_all interval kvs) es rix" by auto
  obtain k v where kv: "kv = (k, v)" by fastforce
  from builder_inv_Add [OF es(2) assms(1), of k v] snoc.prems kv obtain s rix'
    where "builder_inv (BlockBuilder_Add interval (add_all interval kvs) k v) (es @ [(s, k, v)]) rix'" by auto
  then show ?case using es(1) kv by (intro exI [of _ "es @ [(s, k, v)]"] exI [of _ rix']) (simp add: add_all_def)
qed

lemma foldl_PutFixed32: "foldl PutFixed32 buffer ws = buffer @ concat (map EncodeFixed32 ws)"
  by (induction ws arbitrary: buffer) (simp_all add: PutFixed32_def)

lemma BlockBuilder_Finish_image:
  assumes inv: "builder_inv b es rix" and len: "length (fst (BlockBuilder_Finish b)) < 2 ^ 32"
  shows "fst (BlockBuilder_Finish b) = block_image es rix" "wf_block es rix"
proof -
  let ?ws = "map (\<lambda>r. of_nat (estart es r)) rix :: u32 list"
  have f: "fst (BlockBuilder_Finish b) = body es @ concat (map EncodeFixed32 ?ws) @ EncodeFixed32 (of_nat (length rix))"
    using inv by (simp add: BlockBuilder_Finish_def Let_def builder_inv_def foldl_PutFixed32 PutFixed32_def del: EncodeFixed32_le)
  have l: "length (concat (map EncodeFixed32 ?ws)) = 4 * length rix"
    by (simp add: length_concat comp_def sum_list_triv)
  have b: "length (body es) + 4 * length rix + 4 < 2 ^ 32" using len l unfolding f by simp
  have "estart es r < 2 ^ 32" if "r \<in> set rix" for r
    using that inv b estart_le [of r es] by (auto simp: builder_inv_def restarts_ok_def)
  then have "map EncodeFixed32 ?ws = map (\<lambda>r. le_bytes 4 (estart es r)) rix"
    by (simp add: unat_of_nat_eq)
  moreover have "EncodeFixed32 (of_nat (length rix)) = le_bytes 4 (length rix)" using b by (simp add: unat_of_nat_eq)
  ultimately show img: "fst (BlockBuilder_Finish b) = block_image es rix"
    unfolding f block_image_def trailer_def by (simp only:)
  then show "wf_block es rix" using inv len by (simp add: wf_block_def builder_inv_def)
qed

section \<open>Opening a block\<close>

lemma Block_NewIterator_image:
  assumes wf: "wf_block es rix"
  shows "\<exists>it. Block_NewIterator (Block u (block_image es rix)) = Inr it \<and> at_entry es rix (length es) it"
proof -
  let ?img = "block_image es rix"
  have len: "length ?img = length (body es) + 4 * length rix + 4"
    by (simp add: block_image_def length_trailer)
  have small: "length ?img < 2 ^ 32" using wf by (simp add: wf_block_def)
  have ne: "rix \<noteq> []" using wf by (simp add: wf_block_def restarts_ok_def)
  have rl: "unat (of_nat (length rix) :: u32) = length rix" by (rule index_32 [OF wf order_refl])
  have "drop (length ?img - 4) ?img = le_bytes 4 (length rix)" unfolding len by (simp add: block_image_def length_trailer)
  then have num: "DecodeFixed32 (drop (length ?img - 4) ?img) = of_nat (length rix)"
    using DecodeFixed32_Encode [of "of_nat (length rix)" "[]"] by (simp add: rl)
  have "(of_nat (length ?img) - ucast (1 + of_nat (length rix) :: u32) * 4 :: u64) = of_nat (length (body es))"
  proof -
    have "unat (1 + of_nat (length rix) :: u32) = Suc (length rix)"
      using unat_of_nat_eq [of "Suc (length rix)", where 'a = 32] small len by simp
    then have "(ucast (1 + of_nat (length rix) :: u32) :: u64) = of_nat (Suc (length rix))"
      by (metis of_nat_unat)
    then show ?thesis by (simp add: len)
  qed
  moreover have "(ucast (of_nat (length (body es)) :: u64) :: u32) = of_nat (length (body es))"
  proof -
    have "unat (of_nat (length (body es)) :: u64) = length (body es)" using small len by (intro unat_of_nat_eq) simp
    then show ?thesis by (metis of_nat_unat)
  qed
  ultimately have off: "(ucast (of_nat (length ?img) - ucast (1 + of_nat (length rix) :: u32) * 4 :: u64) :: u32) =
      of_nat (length (body es))" by (simp only:)
  have "\<not> length ?img < 4" "\<not> length rix > (length ?img - 4) div 4" by (simp_all add: len)
  then have "Block u ?img = \<lparr>blk_data = ?img, blk_size = length ?img, blk_restart_offset = of_nat (length (body es))\<rparr>"
    using num off by (simp add: Block_def Let_def NumRestarts_def rl)
  moreover have "(of_nat (length rix) :: u32) \<noteq> 0" using rl ne by (metis length_0_conv unat_0)
  ultimately have "Block_NewIterator (Block u ?img) = Inr (Iter ?img (of_nat (length (body es))) (of_nat (length rix)))"
    using num len by (simp add: Block_NewIterator_def NumRestarts_def Let_def)
  then show ?thesis by (simp add: at_entry_def on_block_def Iter_def)
qed

section \<open>Properties\<close>

context comparator
begin

lemma open_built_block:
  assumes "1 \<le> interval" "sorted_entries C ok kvs" "\<forall>(k, v)\<in>set kvs. length k < 2 ^ 32 \<and> length v < 2 ^ 32"
    and "length (build_block interval kvs) < 2 ^ 32"
  shows "\<exists>it. Block_NewIterator (Block u (build_block interval kvs)) = Inr it \<and> block_cursor kvs (length kvs) it"
proof -
  obtain es rix where es: "kvs_of es = kvs" "builder_inv (add_all interval kvs) es rix"
    using builder_inv_add_all [OF assms(1,3)] by blast
  note fin = BlockBuilder_Finish_image [OF es(2) assms(4) [unfolded build_block_def]]
  obtain it where "Block_NewIterator (Block u (block_image es rix)) = Inr it" "at_entry es rix (length es) it"
    using Block_NewIterator_image [OF fin(2)] by blast
  moreover have "length es = length kvs" using es(1) by auto
  ultimately have "block_cursor kvs (length kvs) it" using es(1) fin(2) assms(2) by (auto simp: block_cursor_def)
  then show ?thesis using \<open>Block_NewIterator _ = _\<close> by (simp add: build_block_def fin(1))
qed

end

text \<open>
  C30. A block built from ascending entries and opened again gives an iterator that behaves as
  a cursor into the list of entries: for every sequence of operations the keys, the values, the
  validity and the status a client sees are those of the cursor. \<open>Seek\<close> stops at the first key
  that is not below the target. The block takes less than 4 GiB, and the comparator orders the
  keys. No operation reads outside the block, and all return.
\<close>

theorem block_iterator_refines_cursor:
  assumes "comparator C ok" and "1 \<le> block_restart_interval"
    and "sorted_wrt (\<lambda>a b. Compare C (fst a) (fst b) < 0) kvs"
    and "\<forall>(k, v)\<in>set kvs. ok k \<and> length k < 2 ^ 32 \<and> length v < 2 ^ 32"
    and "length (build_block block_restart_interval kvs) < 2 ^ 32"
    and "\<forall>op\<in>set ops. \<forall>k. op = Seek k \<longrightarrow> ok k"
  shows "\<exists>it. Block_NewIterator (Block u (build_block block_restart_interval kvs)) = Inr it \<and>
    iterator_run (block_iter_class C) ops it = Some (cursor_run C kvs ops (length kvs))"
proof -
  note cmp = assms(1)
  have "sorted_entries C ok kvs" "\<forall>(k, v)\<in>set kvs. length k < 2 ^ 32 \<and> length v < 2 ^ 32"
    using assms(3,4) by (auto simp: sorted_entries_def)
  from comparator.open_built_block [OF cmp assms(2) this assms(5)] obtain it
    where it: "Block_NewIterator (Block u (build_block block_restart_interval kvs)) = Inr it"
      "comparator.block_cursor C ok kvs (length kvs) it" by blast
  from iterator_impl.run_refines [OF comparator.block_iter_impl [OF cmp] it(2) assms(6)] show ?thesis using it(1) by blast
qed

theorem block_iterator_refines_cursor_witness:
  "\<exists>it. Block_NewIterator (Block 0 (build_block 2 [([1], [10]), ([1, 2], [20]), ([3], [])])) = Inr it \<and>
    iterator_run (block_iter_class BytewiseComparator) [Seek [1, 1], Next, Prev, Prev, SeekToLast] it =
      Some [(Some ([1, 2], Some [20]), Status_OK), (Some ([3], Some []), Status_OK),
        (Some ([1, 2], Some [20]), Status_OK), (Some ([1], Some [10]), Status_OK), (Some ([3], Some []), Status_OK)]"
proof -
  let ?kvs = "[([1], [10]), ([1, 2], [20]), ([3], [])] :: entries"
  have len: "length (build_block 2 ?kvs) < 2 ^ 32"
    by (simp add: build_block_def add_all_def BlockBuilder_def BlockBuilder_Add_def BlockBuilder_Finish_def Let_def
        shared_loop.simps PutVarint32_def PutFixed32_def EncodeVarint32_def)
  have "\<exists>it. Block_NewIterator (Block 0 (build_block 2 ?kvs)) = Inr it \<and>
      iterator_run (block_iter_class BytewiseComparator) [Seek [1, 1], Next, Prev, Prev, SeekToLast] it =
      Some (cursor_run BytewiseComparator ?kvs [Seek [1, 1], Next, Prev, Prev, SeekToLast] (length ?kvs))"
    by (rule block_iterator_refines_cursor [OF bytewise.comparator_axioms _ _ _ len]) (simp_all add: Slice_compare_def)
  then show ?thesis
    by (simp add: cursor_observe_def entries_below_def Let_def)
qed

end
