(* ===== verification/Ldb_Block_Safe.thy ===== *)
theory Ldb_Block_Safe
  imports Ldb_Block
begin

text \<open>
  The block iterator on bytes that no builder wrote: what \<open>DecodeEntry\<close> lets through, when
  the iterator stays inside the block and returns, and the entries that make it read outside.
\<close>

section \<open>Blocks of unknown content\<close>

text \<open>
  \<open>DecodeEntry\<close> adds the two sizes in 32 bits. When the sum does not wrap for any entry, the
  iterator stays within the block whatever its bytes are, and every operation returns.
\<close>

definition no_wrap :: "bytes \<Rightarrow> bool" where
  "no_wrap data \<longleftrightarrow> (\<forall>lo hi s n v q. DecodeEntry (take hi (drop lo data)) = Some (s, n, v, q) \<longrightarrow> unat n + unat v < 2 ^ 32)"

definition same_block :: "block_iter \<Rightarrow> block_iter \<Rightarrow> bool" where
  "same_block it it' \<longleftrightarrow> bi_data it' = bi_data it \<and> bi_restarts it' = bi_restarts it \<and>
     bi_num_restarts it' = bi_num_restarts it"

definition inside :: "block_iter \<Rightarrow> bool" where
  "inside it \<longleftrightarrow> no_wrap (bi_data it) \<and> 0 < bi_num_restarts it \<and>
     unat (bi_restarts it) + 4 * unat (bi_num_restarts it) + 4 \<le> length (bi_data it) \<and> length (bi_data it) < 2 ^ 32"

text \<open>Ready to parse from an offset; an entry parsed from an offset; and safe for a client.\<close>

definition parse_ready :: "u32 \<Rightarrow> block_iter \<Rightarrow> bool" where
  "parse_ready pos it \<longleftrightarrow> inside it \<and> bi_restart_index it < bi_num_restarts it \<and> NextEntryOffset it = Some pos"

definition parsed :: "u32 \<Rightarrow> block_iter \<Rightarrow> bool" where
  "parsed pos it \<longleftrightarrow> Iter_Valid it \<and> parse_ready pos it \<and>
     (\<exists>off n. bi_value it = Some (off, n) \<and> off + n = unat pos \<and> pos \<le> bi_restarts it)"

definition iter_safe :: "block_iter \<Rightarrow> bool" where
  "iter_safe it \<longleftrightarrow> inside it \<and> (Iter_Valid it \<longrightarrow> (\<exists>pos. parsed pos it))"

lemma inside_cong: "same_block it it' \<Longrightarrow> inside it \<Longrightarrow> inside it'"
  by (simp add: inside_def same_block_def)

lemma GetRestartPoint_inside: "inside it \<Longrightarrow> index < bi_num_restarts it \<Longrightarrow> \<exists>r. GetRestartPoint it index = Some r"
  by (auto simp: GetRestartPoint_def Let_def inside_def word_less_nat_alt)

lemma unat_Suc_less: "w < x \<Longrightarrow> unat (w + 1) = unat w + 1" for w x :: u32
  using unat_bound [of x] by (simp add: word_less_nat_alt unat_word_ariths)

lemma restart_loop_safe:
  "inside it \<Longrightarrow> bi_restart_index it < bi_num_restarts it \<Longrightarrow>
   \<exists>w < bi_num_restarts it. restart_loop it = Some (it\<lparr>bi_restart_index := w\<rparr>)"
proof (induction "unat (bi_num_restarts it) - unat (bi_restart_index it)" arbitrary: it rule: less_induct)
  case less
  show ?case
  proof (cases "bi_restart_index it + 1 < bi_num_restarts it")
    case False
    then show ?thesis using less.prems by (intro exI [of _ "bi_restart_index it"]) (subst restart_loop.simps, simp)
  next
    case True
    let ?it = "it\<lparr>bi_restart_index := bi_restart_index it + 1\<rparr>"
    obtain r where r: "GetRestartPoint it (bi_restart_index it + 1) = Some r"
      using GetRestartPoint_inside [OF less.prems(1) True] by blast
    note suc = unat_Suc_less [OF less.prems(2)]
    have "inside ?it" using less.prems(1) by (rule inside_cong [rotated]) (simp add: same_block_def)
    then have "\<exists>w < bi_num_restarts it. restart_loop ?it = Some (it\<lparr>bi_restart_index := w\<rparr>)"
      using less.hyps [of ?it] True suc less.prems(2) by (simp add: word_less_nat_alt)
    then show ?thesis using True r less.prems
      by (cases "r < bi_current it") (subst restart_loop.simps, auto intro: exI [of _ "bi_restart_index it"])+
  qed
qed

lemma GetVarint32Ptr_shorter: "GetVarint32Ptr p = Some (v, q) \<Longrightarrow> \<exists>g. p = g @ q \<and> 0 < length g"
  unfolding GetVarint32Ptr_exact by (metis length_greater_0_conv varint_group.simps(1))

lemma DecodeEntry_bounds:
  assumes "DecodeEntry p = Some (s, n, v, q)" "unat n + unat v < 2 ^ 32" "length p < 2 ^ 32"
  shows "length q < length p" "unat n + unat v \<le> length q"
proof -
  obtain a b where "GetVarint32Ptr p = Some (s, a)" "GetVarint32Ptr a = Some (n, b)" "GetVarint32Ptr b = Some (v, q)"
    and le: "\<not> of_nat (length q) < n + v"
    using assms(1) by (auto simp: DecodeEntry_general bind_eq_Some_conv split: if_splits)
  then have "\<exists>g. p = g @ q \<and> 0 < length g" by (fastforce dest!: GetVarint32Ptr_shorter)
  then show l: "length q < length p" by auto
  have "unat (n + v) = unat n + unat v" using assms(2) by (simp add: unat_word_ariths)
  moreover have "unat (of_nat (length q) :: u32) = length q" using l assms(3) by (intro unat_of_nat_eq) simp
  ultimately show "unat n + unat v \<le> length q" using le by (simp add: word_less_nat_alt)
qed

text \<open>What \<open>DecodeEntry\<close> accepts at an offset of a block lies before the restart array.\<close>

lemma decode_inside:
  assumes "inside it" "pos < bi_restarts it" "DecodeEntry (to_limit it pos) = Some (s, n, v, q)"
  defines "off \<equiv> unat pos + (length (to_limit it pos) - length q)"
  shows "unat pos < off" "off + unat n + unat v \<le> unat (bi_restarts it)" "\<exists>d. read_block it off (unat n) = Some d"
proof -
  have w: "unat n + unat v < 2 ^ 32" using assms(1,3) unfolding inside_def no_wrap_def to_limit_def by blast
  have len: "length (to_limit it pos) = unat (bi_restarts it) - unat pos"
    using assms(1,2) by (auto simp: to_limit_def inside_def word_less_nat_alt min_def)
  have "length (to_limit it pos) < 2 ^ 32" using len unat_bound [of "bi_restarts it"] by simp
  note b = DecodeEntry_bounds [OF assms(3) w this]
  show "unat pos < off" "off + unat n + unat v \<le> unat (bi_restarts it)"
    using b len assms(2) by (simp_all add: off_def word_less_nat_alt)
  then show "\<exists>d. read_block it off (unat n) = Some d" using assms(1) by (simp add: read_block_def inside_def)
qed

lemma CorruptionError_safe: "inside it \<Longrightarrow> same_block it (CorruptionError it) \<and> \<not> Iter_Valid (CorruptionError it)"
  by (simp add: CorruptionError_def same_block_def Iter_Valid_def)

lemma ParseNextKey_safe:
  assumes "parse_ready pos it"
  shows "\<exists>more it'. ParseNextKey it = Some (more, it') \<and> same_block it it' \<and>
    (if more then \<exists>pos'>pos. parsed pos' it' else \<not> Iter_Valid it')"
proof -
  note r = assms [unfolded parse_ready_def]
  let ?it = "it\<lparr>bi_current := pos\<rparr>"
  have ins: "inside ?it" using r by (intro inside_cong [of it ?it]) (simp_all add: same_block_def)
  show ?thesis
  proof (cases "pos < bi_restarts it")
    case False
    then show ?thesis using r
      by (intro exI [of _ False]) (simp add: ParseNextKey_def Let_def same_block_def Iter_Valid_def not_less)
  next
    case True
    then have le: "\<not> bi_restarts it \<le> pos" by simp
    show ?thesis
    proof (cases "DecodeEntry (to_limit ?it pos)")
      case None
      then have "ParseNextKey it = Some (False, CorruptionError ?it)" using le r by (simp add: ParseNextKey_def Let_def)
      then show ?thesis using CorruptionError_safe [OF ins] by (auto simp: same_block_def)
    next
      case (Some d)
      obtain s n v q where d: "d = (s, n, v, q)" by (metis prod_cases4)
      define off where "off = unat pos + (length (to_limit ?it pos) - length q)"
      have inner: "unat pos < off" "off + unat n + unat v \<le> unat (bi_restarts it)"
        and read: "\<exists>d. read_block ?it off (unat n) = Some d"
        using decode_inside [OF ins _ Some [unfolded d]] True by (simp_all add: off_def)
      show ?thesis
      proof (cases "length (bi_key it) < unat s")
        case small: True
        then have "ParseNextKey it = Some (False, CorruptionError ?it)" using le r Some d by (simp add: ParseNextKey_def Let_def)
        then show ?thesis using CorruptionError_safe [OF ins] by (auto simp: same_block_def)
      next
        case False
        obtain delta where delta: "read_block ?it off (unat n) = Some delta" using read by blast
        let ?it2 = "?it\<lparr>bi_key := take (unat s) (bi_key it) @ delta, bi_value := Some (off + unat n, unat v)\<rparr>"
        have "inside ?it2" using ins by (intro inside_cong [of ?it ?it2]) (simp_all add: same_block_def)
        then obtain w where w: "w < bi_num_restarts it" "restart_loop ?it2 = Some (?it2\<lparr>bi_restart_index := w\<rparr>)"
          using restart_loop_safe [of ?it2] r by auto
        let ?it3 = "?it2\<lparr>bi_restart_index := w\<rparr>"
        let ?pos = "of_nat (off + unat n + unat v) :: u32"
        have u: "unat ?pos = off + unat n + unat v"
          by (rule unat_of_nat_eq) (use inner unat_bound [of "bi_restarts it"] in simp)
        have "ParseNextKey it = Some (True, ?it3)"
          using le r Some d False delta w by (simp add: ParseNextKey_def Let_def off_def [symmetric])
        moreover have "inside ?it3" using \<open>inside ?it2\<close> by (intro inside_cong [of ?it2 ?it3]) (simp_all add: same_block_def)
        then have "parsed ?pos ?it3"
          using True w inner u by (simp add: parsed_def parse_ready_def Iter_Valid_def NextEntryOffset_def word_le_nat_alt del: of_nat_add)
        moreover have "pos < ?pos" using u inner by (simp add: word_less_nat_alt del: of_nat_add)
        ultimately show ?thesis by (intro exI [of _ True] exI [of _ ?it3]) (auto simp: same_block_def)
      qed
    qed
  qed
qed

lemma parsed_safe: "parsed pos it \<Longrightarrow> iter_safe it"
  by (auto simp: iter_safe_def parsed_def parse_ready_def)

lemma same_block_trans: "same_block a b \<Longrightarrow> same_block b c \<Longrightarrow> same_block a c"
  by (simp add: same_block_def)

lemma invalid_safe: "inside it \<Longrightarrow> same_block it it' \<Longrightarrow> \<not> Iter_Valid it' \<Longrightarrow> iter_safe it'"
  using inside_cong by (auto simp: iter_safe_def)

lemma SeekToRestartPoint_safe:
  assumes "inside it" "index < bi_num_restarts it"
  shows "\<exists>it' pos. SeekToRestartPoint index it = Some it' \<and> parse_ready pos it'"
proof -
  let ?it = "it\<lparr>bi_key := [], bi_restart_index := index\<rparr>"
  have "inside ?it" using assms(1) by (rule inside_cong [rotated]) (simp add: same_block_def)
  then obtain r where r: "GetRestartPoint ?it index = Some r" using GetRestartPoint_inside [of ?it index] assms(2) by auto
  have "inside (?it\<lparr>bi_value := Some (unat r, 0)\<rparr>)"
    using \<open>inside ?it\<close> by (rule inside_cong [rotated]) (simp add: same_block_def)
  then show ?thesis using r assms(2) by (simp add: SeekToRestartPoint_def Let_def parse_ready_def NextEntryOffset_def)
qed

lemma word_less_minus_one: "0 < (w :: u32) \<Longrightarrow> w - 1 < w"
  by (cases "w = 0") (simp_all add: word_less_nat_alt unat_minus_one unat_gt_0)

text \<open>The loops that parse on advance through the block.\<close>

lemma scan_to_safe: "parse_ready pos it \<Longrightarrow> \<exists>it'. scan_to bound it = Some it' \<and> iter_safe it'"
proof (induction "unat (bi_restarts it) - unat pos" arbitrary: pos it rule: less_induct)
  case less
  obtain more it' where p: "ParseNextKey it = Some (more, it')" "same_block it it'"
    "if more then \<exists>pos'>pos. parsed pos' it' else \<not> Iter_Valid it'"
    using ParseNextKey_safe [OF less.prems] by blast
  show ?case
  proof (cases more)
    case False
    then show ?thesis using p less.prems invalid_safe [of it it'] by (subst scan_to.simps) (simp add: parse_ready_def)
  next
    case True
    then obtain pos' where pos': "pos < pos'" "parsed pos' it'" using p(3) by auto
    then have ready: "parse_ready pos' it'" "pos' \<le> bi_restarts it'" by (auto simp: parsed_def)
    then have "unat (bi_restarts it') - unat pos' < unat (bi_restarts it) - unat pos"
      using pos'(1) p(2) by (simp add: same_block_def word_less_nat_alt word_le_nat_alt)
    from less.hyps [OF this ready(1)] show ?thesis using p(1) True ready(1) parsed_safe [OF pos'(2)]
      by (cases "pos' < bound") (subst scan_to.simps, simp add: parse_ready_def)+
  qed
qed

lemma seek_scan_safe: "parse_ready pos it \<Longrightarrow> \<exists>it'. seek_scan C target it = Some it' \<and> iter_safe it'"
proof (induction "unat (bi_restarts it) - unat pos" arbitrary: pos it rule: less_induct)
  case less
  obtain more it' where p: "ParseNextKey it = Some (more, it')" "same_block it it'"
    "if more then \<exists>pos'>pos. parsed pos' it' else \<not> Iter_Valid it'"
    using ParseNextKey_safe [OF less.prems] by blast
  show ?case
  proof (cases more)
    case False
    then show ?thesis using p less.prems invalid_safe [of it it'] by (subst seek_scan.simps) (simp add: parse_ready_def)
  next
    case True
    then obtain pos' where pos': "pos < pos'" "parsed pos' it'" using p(3) by auto
    then have ready: "parse_ready pos' it'" "pos' \<le> bi_restarts it'" by (auto simp: parsed_def)
    then have "unat (bi_restarts it') - unat pos' < unat (bi_restarts it) - unat pos"
      using pos'(1) p(2) by (simp add: same_block_def word_less_nat_alt word_le_nat_alt)
    from less.hyps [OF this ready(1)] show ?thesis using p(1) True parsed_safe [OF pos'(2)]
      by (cases "Compare C (bi_key it') target \<ge> 0") (subst seek_scan.simps, simp)+
  qed
qed

lemma prev_restart_loop_safe:
  "inside it \<Longrightarrow> bi_restart_index it < bi_num_restarts it \<Longrightarrow>
   \<exists>found it'. prev_restart_loop original it = Some (found, it') \<and> same_block it it' \<and>
     (if found then bi_restart_index it' < bi_num_restarts it' else \<not> Iter_Valid it')"
proof (induction "unat (bi_restart_index it)" arbitrary: it rule: less_induct)
  case less
  obtain r where r: "GetRestartPoint it (bi_restart_index it) = Some r" using GetRestartPoint_inside [OF less.prems] by blast
  let ?it = "it\<lparr>bi_restart_index := bi_restart_index it - 1\<rparr>"
  show ?case
  proof (cases "original \<le> r \<and> bi_restart_index it \<noteq> 0")
    case True
    then have "bi_restart_index it - 1 < bi_restart_index it" using word_less_minus_one word_neq_0_conv by blast
    moreover have "inside ?it" using less.prems(1) by (rule inside_cong [rotated]) (simp add: same_block_def)
    ultimately have "\<exists>found it'. prev_restart_loop original ?it = Some (found, it') \<and> same_block it it' \<and>
        (if found then bi_restart_index it' < bi_num_restarts it' else \<not> Iter_Valid it')"
      using less.hyps [of ?it] less.prems(2) by (simp add: word_less_nat_alt same_block_def)
    then show ?thesis using True r by (subst prev_restart_loop.simps) simp
  next
    case False
    then show ?thesis using r less.prems(2)
      by (subst prev_restart_loop.simps) (auto simp: same_block_def Iter_Valid_def)
  qed
qed

lemma seek_search_safe:
  "inside it \<Longrightarrow> right < bi_num_restarts it \<Longrightarrow> left \<le> right \<Longrightarrow>
   \<exists>found it'. seek_search C target left right it = Some (found, it') \<and> same_block it it' \<and>
     (case found of None \<Rightarrow> \<not> Iter_Valid it' | Some l \<Rightarrow> l < bi_num_restarts it')"
proof (induction "unat right - unat left" arbitrary: left right rule: less_induct)
  case less
  show ?case
  proof (cases "left < right")
    case False
    then show ?thesis using less.prems by (subst seek_search.simps) (simp add: same_block_def)
  next
    case True
    define mid where "mid = (left + right + 1) div 2"
    have "4 * unat (bi_num_restarts it) < 2 ^ 32" using less.prems(1) by (simp add: inside_def)
    then have b: "unat left + unat right + 1 < 2 ^ 32" using less.prems(2) True by (simp add: word_less_nat_alt)
    have "unat (left + right + 1) = unat left + unat right + 1" using b by (simp add: unat_word_ariths)
    then have "unat mid = (unat left + unat right + 1) div 2" by (simp only: mid_def unat_div) simp
    then have mid: "left < mid" "mid \<le> right" using True by (simp_all add: word_less_nat_alt word_le_nat_alt)
    then obtain r where r: "GetRestartPoint it mid = Some r"
      using GetRestartPoint_inside [OF less.prems(1), of mid] less.prems(2) by (meson le_less_trans)
    show ?thesis
    proof (cases "DecodeEntry (to_limit it r)")
      case None
      then show ?thesis using True r CorruptionError_safe [OF less.prems(1)]
        by (subst seek_search.simps) (simp add: Let_def flip: mid_def)
    next
      case (Some d)
      obtain s n v q where d: "d = (s, n, v, q)" by (metis prod_cases4)
      show ?thesis
      proof (cases "s = 0")
        case False
        then show ?thesis using True r Some d CorruptionError_safe [OF less.prems(1)]
          by (subst seek_search.simps) (simp add: Let_def flip: mid_def)
      next
        case s0: True
        have "r < bi_restarts it"
        proof (rule ccontr)
          assume "\<not> r < bi_restarts it"
          then have "to_limit it r = []" by (simp add: to_limit_def not_less word_le_nat_alt)
          then show False using Some by (simp add: DecodeEntry_def)
        qed
        from decode_inside(3) [OF less.prems(1) this Some [unfolded d]] obtain k
          where k: "read_block it (unat r + (length (to_limit it r) - length q)) (unat n) = Some k" by blast
        have unfold: "seek_search C target left right it =
            (if Compare C k target < 0 then seek_search C target mid right it else seek_search C target left (mid - 1) it)"
          by (subst seek_search.simps) (simp add: Let_def True r Some d s0 k flip: mid_def)
        have "mid \<noteq> 0" using mid(1) by (metis word_not_simps(1))
        then have m1: "unat (mid - 1) = unat mid - 1" using unat_minus_one by blast
        show ?thesis
        proof (cases "Compare C k target < 0")
          case True
          then show ?thesis unfolding unfold
            using less.hyps [of right mid] mid less.prems by (simp add: word_less_nat_alt word_le_nat_alt)
        next
          case False
          have "\<exists>found it'. seek_search C target left (mid - 1) it = Some (found, it') \<and> same_block it it' \<and>
              (case found of None \<Rightarrow> \<not> Iter_Valid it' | Some l \<Rightarrow> l < bi_num_restarts it')"
            by (rule less.hyps) (use m1 mid less.prems in \<open>auto simp: word_less_nat_alt word_le_nat_alt\<close>)
          then show ?thesis unfolding unfold using False by simp
        qed
      qed
    qed
  qed
qed

section \<open>The operations\<close>

lemma iterator_op_safe:
  assumes "iter_safe it"
  shows "\<exists>it'. iterator_op (block_iter_class C) op it = Some it' \<and> iter_safe it'"
proof -
  have ins: "inside it" using assms by (simp add: iter_safe_def)
  then have last: "bi_num_restarts it - 1 < bi_num_restarts it" "0 < bi_num_restarts it"
    using word_less_minus_one by (simp_all add: inside_def)
  have parse: "\<exists>it'. map_option snd (ParseNextKey it) = Some it' \<and> iter_safe it'" if ready: "parse_ready pos it" for pos it
  proof -
    obtain more it' where p: "ParseNextKey it = Some (more, it')" "same_block it it'"
      "if more then \<exists>pos'>pos. parsed pos' it' else \<not> Iter_Valid it'"
      using ParseNextKey_safe [OF ready] by blast
    then show ?thesis using ready parsed_safe invalid_safe [of it it'] by (cases more) (auto simp: parse_ready_def)
  qed
  show ?thesis
  proof (cases op)
    case SeekToFirst
    then show ?thesis using SeekToRestartPoint_safe [OF ins last(2)] parse
      by (fastforce simp: block_iter_class_def Iter_SeekToFirst_def)
  next
    case SeekToLast
    then show ?thesis using SeekToRestartPoint_safe [OF ins last(1)] scan_to_safe
      by (fastforce simp: block_iter_class_def Iter_SeekToLast_def)
  next
    case (Seek target)
    obtain found it' where f: "seek_search C target 0 (bi_num_restarts it - 1) it = Some (found, it')" "same_block it it'"
      "case found of None \<Rightarrow> \<not> Iter_Valid it' | Some l \<Rightarrow> l < bi_num_restarts it'"
      using seek_search_safe [where C = C and target = target, OF ins last(1), of 0] by auto
    show ?thesis
    proof (cases found)
      case None
      then show ?thesis using Seek f invalid_safe [OF ins f(2)] by (simp add: block_iter_class_def Iter_Seek_def)
    next
      case (Some l)
      then obtain it'' pos where s: "SeekToRestartPoint l it' = Some it''" "parse_ready pos it''"
        using SeekToRestartPoint_safe [OF inside_cong [OF f(2) ins], of l] f(3) by auto
      then show ?thesis using Seek f Some seek_scan_safe [OF s(2)] by (simp add: block_iter_class_def Iter_Seek_def)
    qed
  next
    case Next
    then show ?thesis using assms parse
      by (cases "Iter_Valid it") (auto simp: block_iter_class_def Iter_Next_def iter_safe_def parsed_def)
  next
    case Prev
    show ?thesis
    proof (cases "Iter_Valid it")
      case True
      then have "bi_restart_index it < bi_num_restarts it" using assms by (auto simp: iter_safe_def parsed_def parse_ready_def)
      from prev_restart_loop_safe [OF ins this, of "bi_current it"] obtain found it'
        where f: "prev_restart_loop (bi_current it) it = Some (found, it')" "same_block it it'"
          "if found then bi_restart_index it' < bi_num_restarts it' else \<not> Iter_Valid it'" by blast
      show ?thesis
      proof (cases found)
        case found: True
        then obtain it'' pos where s: "SeekToRestartPoint (bi_restart_index it') it' = Some it''" "parse_ready pos it''"
          using SeekToRestartPoint_safe [OF inside_cong [OF f(2) ins], of "bi_restart_index it'"] f(3) by auto
        then show ?thesis using Prev True f found scan_to_safe [OF s(2)]
          by (simp add: block_iter_class_def Iter_Prev_def Let_def)
      next
        case False
        then show ?thesis using Prev True f invalid_safe [OF ins f(2)]
          by (simp add: block_iter_class_def Iter_Prev_def Let_def)
      qed
    next
      case False
      then show ?thesis using Prev assms by (simp add: block_iter_class_def)
    qed
  qed
qed

lemma iterator_observe_safe:
  "iter_safe it \<Longrightarrow> fst (iterator_observe (block_iter_class C) it) \<noteq> Some (k, None)"
  by (auto simp: iterator_observe_def block_iter_class_def iter_safe_def parsed_def Iter_value_def read_block_def
      inside_def word_le_nat_alt)

lemma iterator_run_safe:
  "iter_safe it \<Longrightarrow> \<exists>os. iterator_run (block_iter_class C) ops it = Some os \<and> (\<forall>k. (Some (k, None)) \<notin> fst ` set os)"
proof (induction ops arbitrary: it)
  case (Cons op ops)
  obtain it' where it': "iterator_op (block_iter_class C) op it = Some it'" "iter_safe it'"
    using iterator_op_safe [OF Cons.prems] by blast
  then show ?case using Cons.IH [OF it'(2)] iterator_observe_safe [OF it'(2)]
    by (auto simp: image_iff) metis
qed simp

section \<open>Opening unknown bytes\<close>

lemma opened_fields:
  assumes "length contents < 2 ^ 32" "Block_NewIterator (Block u contents) = Inr it"
  shows "\<exists>restarts num. it = Iter contents restarts num \<and> num \<noteq> 0 \<and> unat restarts + 4 * unat num + 4 = length contents"
proof -
  define num where "num = DecodeFixed32 (drop (length contents - 4) contents)"
  have n4: "\<not> length contents < 4" and le: "unat num \<le> (length contents - 4) div 4" and nz: "num \<noteq> 0"
    and it: "it = Iter contents (ucast (of_nat (length contents) - ucast (1 + num) * 4 :: u64)) num"
    using assms(2) by (auto simp: Block_NewIterator_def Block_def Let_def NumRestarts_def num_def split: if_splits)
  have l: "4 * unat num + 4 \<le> length contents" using le n4 by linarith
  have "unat (1 + num) = unat num + 1"
    using l assms(1) by (simp add: unat_word_ariths)
  then have c: "(ucast (1 + num) :: u64) = of_nat (unat num + 1)" by (metis of_nat_unat)
  have "of_nat (length contents) - ucast (1 + num) * 4 = (of_nat (length contents - (4 * unat num + 4)) :: u64)"
    using l by (simp add: c of_nat_diff)
  moreover have "unat (of_nat (length contents - (4 * unat num + 4)) :: u64) = length contents - (4 * unat num + 4)"
    using assms(1) by (intro unat_of_nat_eq) simp
  ultimately have "ucast (of_nat (length contents) - ucast (1 + num) * 4 :: u64) =
      (of_nat (length contents - (4 * unat num + 4)) :: u32)" by (metis of_nat_unat)
  moreover have "unat (of_nat (length contents - (4 * unat num + 4)) :: u32) = length contents - (4 * unat num + 4)"
    using assms(1) by (intro unat_of_nat_eq) simp
  ultimately have "unat (ucast (of_nat (length contents) - ucast (1 + num) * 4 :: u64) :: u32)  = length contents - (4 * unat num + 4)"
    by (simp only:)
  then have "unat (ucast (of_nat (length contents) - ucast (1 + num) * 4 :: u64) :: u32) + 4 * unat num + 4 = length contents"
    using l by linarith
  then show ?thesis using nz it by blast
qed

lemma opened_safe:
  assumes "length contents < 2 ^ 32" "Block_NewIterator (Block u contents) = Inr it" "no_wrap contents"
  shows "iter_safe it"
  using opened_fields [OF assms(1,2)] assms(1,3)
  by (auto simp: iter_safe_def inside_def Iter_def Iter_Valid_def word_neq_0_conv)

text \<open>Blocks whose bytes are all below 128 have one-byte sizes.\<close>

lemma no_wrap_small:
  assumes "\<forall>b\<in>set data. b < 0x80"
  shows "no_wrap data"
  unfolding no_wrap_def
proof (intro allI impI)
  fix lo hi s n v q
  let ?p = "take hi (drop lo data)"
  assume d: "DecodeEntry ?p = Some (s, n, v, q)"
  then have "\<not> length ?p < 3" by (auto simp: DecodeEntry_def)
  then obtain a b c r where p: "?p = a # b # c # r"
    by (cases ?p; cases "tl ?p"; cases "tl (tl ?p)") auto
  have sub: "set ?p \<subseteq> set data" by (meson order_trans set_drop_subset set_take_subset)
  have small: "(ucast x :: u32) < 128" if "x \<in> set ?p" for x :: u8
  proof -
    have "x < 0x80" using that sub assms by blast
    then show ?thesis by (simp add: word_less_nat_alt unat_ucast_up)
  qed
  have "(ucast a :: u32) < 128" "(ucast b :: u32) < 128" "(ucast c :: u32) < 128"
    using small unfolding p by simp_all
  then have "n = ucast b" "v = ucast c"
    using d unfolding p by (auto simp: DecodeEntry_general single_byte split: if_splits)
  moreover have "unat (ucast b :: u32) < 128" "unat (ucast c :: u32) < 128"
    using \<open>(ucast b :: u32) < 128\<close> \<open>(ucast c :: u32) < 128\<close> by (simp_all add: word_less_nat_alt)
  ultimately show "unat n + unat v < 2 ^ 32" by simp
qed

section \<open>The first entry of a crafted block\<close>

text \<open>
  A block with any three numbers at its start, any bytes after them, and any restart points
  of which the first is 0.
\<close>

definition restart_array :: "u32 list \<Rightarrow> bytes" where
  "restart_array rs = concat (map EncodeFixed32 rs) @ EncodeFixed32 (of_nat (length rs))"

definition crafted_block :: "u32 \<Rightarrow> u32 \<Rightarrow> u32 \<Rightarrow> bytes \<Rightarrow> u32 list \<Rightarrow> bytes" where
  "crafted_block s n v rest rs =
     EncodeVarint32 s @ EncodeVarint32 n @ EncodeVarint32 v @ rest @ restart_array rs"

lemma length_restart_array: "length (restart_array rs) = 4 * length rs + 4"
  by (induction rs) (simp_all add: restart_array_def)

lemma crafted_opened:
  assumes "rs \<noteq> []" "length (crafted_block s n v rest rs) < 2 ^ 32"
  obtains restarts where
    "Block_NewIterator (Block u (crafted_block s n v rest rs)) = Inr (Iter (crafted_block s n v rest rs) restarts (of_nat (length rs)))"
    "unat restarts = length (EncodeVarint32 s @ EncodeVarint32 n @ EncodeVarint32 v @ rest)"
proof -
  let ?b = "crafted_block s n v rest rs" and ?e = "EncodeVarint32 s @ EncodeVarint32 n @ EncodeVarint32 v @ rest"
  have len: "length ?b = length ?e + 4 * length rs + 4" by (simp add: crafted_block_def length_restart_array)
  have rl: "unat (of_nat (length rs) :: u32) = length rs"
    using assms(2) unfolding len by (intro unat_of_nat_eq) simp
  have "drop (length ?b - 4) ?b = le_bytes 4 (unat (of_nat (length rs) :: u32)) @ []"
    using length_restart_array [of rs] by (simp add: crafted_block_def restart_array_def)
  then have num: "DecodeFixed32 (drop (length ?b - 4) ?b) = of_nat (length rs)" by (metis DecodeFixed32_Encode)
  have nz: "(of_nat (length rs) :: u32) \<noteq> 0" using rl assms(1) by (metis length_0_conv unat_0)
  have "length rs \<le> (length ?b - 4) div 4" "\<not> length ?b < 4" using len by linarith+
  then have "\<exists>it. Block_NewIterator (Block u ?b) = Inr it"
    using nz by (simp add: Block_NewIterator_def Block_def Let_def NumRestarts_def num rl)
  then obtain it where it: "Block_NewIterator (Block u ?b) = Inr it" by blast
  obtain restarts num' where f: "it = Iter ?b restarts num'" "unat restarts + 4 * unat num' + 4 = length ?b"
    using opened_fields [OF assms(2) it] by blast
  have "num' = of_nat (length rs)"
    using it f(1) by (auto simp: Block_NewIterator_def Block_def Let_def NumRestarts_def num Iter_def split: if_splits)
  then show thesis using that it f rl len by simp
qed

lemma crafted_decode:
  fixes s n v :: u32
  assumes "length rest < 2 ^ 32"
  shows "DecodeEntry (EncodeVarint32 s @ EncodeVarint32 n @ EncodeVarint32 v @ rest) =
    (if (unat n + unat v) mod 2 ^ 32 \<le> length rest then Some (s, n, v, rest) else None)"
proof -
  have pos: "0 < length (EncodeVarint32 w)" for w
    unfolding EncodeVarint32_bytes by (subst varint_bytes.simps) simp
  have "\<not> length (EncodeVarint32 s @ EncodeVarint32 n @ EncodeVarint32 v @ rest) < 3"
    using pos [of s] pos [of n] pos [of v] by (simp del: length_greater_0_conv)
  moreover have "of_nat (length rest) < n + v \<longleftrightarrow> length rest < (unat n + unat v) mod 2 ^ 32"
    using assms by (simp add: word_less_nat_alt unat_word_ariths unat_of_nat_eq)
  ultimately show ?thesis by (simp add: DecodeEntry_general GetVarint32Ptr_Encode not_less)
qed

text \<open>The first restart point is 0, so the iterator parses from there and stays at the first restart point.\<close>

lemma first_restart:
  assumes "rs \<noteq> []" "bi_data it = pre @ restart_array rs" "unat (bi_restarts it) = length pre"
  shows "GetRestartPoint it 0 = Some (hd rs)"
  using assms by (cases rs) (simp_all add: GetRestartPoint_def Let_def restart_array_def)

lemma restart_loop_first:
  assumes "unat (bi_restarts it) + 4 * unat (bi_num_restarts it) + 4 \<le> length (bi_data it)"
    and "bi_current it = 0" "bi_restart_index it = 0"
  shows "restart_loop it = Some it"
proof (cases "1 < bi_num_restarts it")
  case True
  then obtain r where "GetRestartPoint it 1 = Some r"
    using assms(1) by (auto simp: GetRestartPoint_def Let_def word_less_nat_alt)
  then show ?thesis using assms(2,3) by (subst restart_loop.simps) simp
qed (subst restart_loop.simps, simp add: assms(3))

lemma crafted_first:
  fixes s n v :: u32
  assumes "rs \<noteq> []" "hd rs = 0" "length (crafted_block s n v rest rs) < 2 ^ 32"
    and "unat restarts = length (EncodeVarint32 s @ EncodeVarint32 n @ EncodeVarint32 v @ rest)"
  defines "pre \<equiv> EncodeVarint32 s @ EncodeVarint32 n @ EncodeVarint32 v"
    and "start \<equiv> Iter (crafted_block s n v rest rs) restarts (of_nat (length rs))\<lparr>bi_current := 0, bi_restart_index := 0\<rparr>"
  shows "Iter_SeekToFirst (Iter (crafted_block s n v rest rs) restarts (of_nat (length rs))) =
    (if s = 0 \<and> (unat n + unat v) mod 2 ^ 32 \<le> length rest then
       if length rest + 4 * length rs + 4 < unat n then None
       else Some (start\<lparr>bi_key := take (unat n) (rest @ restart_array rs), bi_value := Some (length pre + unat n, unat v)\<rparr>)
     else Some (CorruptionError start))"
proof -
  let ?b = "crafted_block s n v rest rs"
  let ?it = "Iter ?b restarts (of_nat (length rs))"
  have b: "?b = pre @ rest @ restart_array rs" by (simp add: crafted_block_def pre_def)
  have r: "unat restarts = length pre + length rest" using assms(4) by (simp add: pre_def)
  have len: "length ?b = length pre + (length rest + 4 * length rs + 4)" by (simp add: b length_restart_array)
  have rl: "unat (of_nat (length rs) :: u32) = length rs"
    using assms(3) unfolding len by (intro unat_of_nat_eq) simp
  have "pre \<noteq> []" unfolding pre_def EncodeVarint32_bytes by (subst varint_bytes.simps) simp
  then have le: "restarts \<noteq> 0" using r by (metis length_0_conv add_is_0 unat_0)
  have s0: "0 < unat s \<longleftrightarrow> s \<noteq> 0" by (metis unat_eq_zero neq0_conv)
  have get: "GetRestartPoint (?it\<lparr>bi_key := [], bi_restart_index := 0\<rparr>) 0 = Some 0"
    by (rule first_restart [OF assms(1), of _ "pre @ rest", unfolded assms(2)]) (simp_all add: b r Iter_def)
  let ?X = "?it\<lparr>bi_key := [], bi_restart_index := 0, bi_value := Some (0, 0)\<rparr>"
  define S where "S = ?X\<lparr>bi_current := 0\<rparr>"
  have fields: "NextEntryOffset ?X = Some 0" "bi_restarts S = restarts" "bi_key S = []" "CorruptionError S = CorruptionError start"
    by (simp_all add: NextEntryOffset_def S_def start_def Iter_def CorruptionError_def)
  have limit: "to_limit S 0 = pre @ rest" by (simp add: to_limit_def S_def Iter_def r b)
  have dec: "DecodeEntry (pre @ rest) = (if (unat n + unat v) mod 2 ^ 32 \<le> length rest then Some (s, n, v, rest) else None)"
    using crafted_decode [of rest s n v] assms(3) len by (simp add: pre_def)
  have read: "read_block S (length pre) (unat n) =
      (if length rest + 4 * length rs + 4 < unat n then None else Some (take (unat n) (rest @ restart_array rs)))"
    using len by (simp add: read_block_def S_def Iter_def b)
  have loop: "restart_loop (S\<lparr>bi_key := k, bi_value := w\<rparr>) = Some (start\<lparr>bi_key := k, bi_value := w\<rparr>)" for k w
  proof -
    have "restart_loop (S\<lparr>bi_key := k, bi_value := w\<rparr>) = Some (S\<lparr>bi_key := k, bi_value := w\<rparr>)"
      by (rule restart_loop_first) (simp_all add: S_def Iter_def r len rl)
    then show ?thesis by (simp add: S_def start_def Iter_def)
  qed
  have "ParseNextKey ?X =
      (if s = 0 \<and> (unat n + unat v) mod 2 ^ 32 \<le> length rest then
         if length rest + 4 * length rs + 4 < unat n then None
         else Some (True, start\<lparr>bi_key := take (unat n) (rest @ restart_array rs), bi_value := Some (length pre + unat n, unat v)\<rparr>)
       else Some (False, CorruptionError start))"
    unfolding ParseNextKey_def fields(1) bind.simps Let_def S_def [symmetric]
    by (cases "s = 0") (auto simp add: fields le limit dec read loop s0)
  moreover have "Iter_SeekToFirst ?it = map_option snd (ParseNextKey ?X)"
    unfolding Iter_SeekToFirst_def SeekToRestartPoint_def Let_def get by simp
  ultimately show ?thesis by auto
qed

section \<open>Properties\<close>

text \<open>
  C31. The iterator over a block of unknown bytes never reads outside the block, and every
  operation returns, as long as no entry has sizes whose 32-bit sum wraps.
\<close>

theorem block_iterator_memory_safe:
  assumes "length contents < 2 ^ 32" and "Block_NewIterator (Block u contents) = Inr it" and "no_wrap contents"
  shows "\<exists>os. iterator_run (block_iter_class C) ops it = Some os \<and> (\<forall>k. Some (k, None) \<notin> fst ` set os)"
  using iterator_run_safe [OF opened_safe [OF assms]] .

theorem block_iterator_memory_safe_witness:
  "\<exists>os. iterator_run (block_iter_class BytewiseComparator) [SeekToLast, Prev, Seek [3], Next]
      (Iter [3, 1, 1, 97, 98, 0, 0, 0, 0, 1, 0, 0, 0] 5 1) = Some os \<and> (\<forall>k. Some (k, None) \<notin> fst ` set os)"
  by (rule block_iterator_memory_safe [where contents = "[3, 1, 1, 97, 98, 0, 0, 0, 0, 1, 0, 0, 0]" and u = 0])
    (simp_all add: Block_NewIterator_def Block_def Let_def NumRestarts_def DecodeFixed32_le no_wrap_small)


text \<open>
  C32. What the iterator makes of the first entry, whatever its three numbers are and whatever follows
  them, in a block with any number of restart points. The entry is refused when it shares bytes with a key
  that does not exist, or when the 32-bit sum of its sizes is above the number of bytes before the restart
  array. Otherwise, if the sizes add up to less than $2^{32}$, the key and the value are the bytes of the block
  that the sizes say. If the sum wraps, an access always leaves the block: either \<open>SeekToFirst\<close>
  already reads the key from outside, when the size of the key is above the bytes left, or the value it
  stores reaches past the end. So the condition of the property before is needed, for every such entry.
\<close>

theorem first_entry_exact:
  assumes "rs \<noteq> []" and "hd rs = 0" and "length (crafted_block s n v rest rs) < 2 ^ 32"
  shows "\<exists>it. Block_NewIterator (Block u (crafted_block s n v rest rs)) = Inr it \<and>
    (let cl = block_iter_class C; accepted = (s = 0 \<and> (unat n + unat v) mod 2 ^ 32 \<le> length rest) in
     case it_SeekToFirst cl it of
       None \<Rightarrow> accepted \<and> 2 ^ 32 \<le> unat n + unat v \<and> length rest + 4 * length rs + 4 < unat n
     | Some it' \<Rightarrow>
         if accepted then
           it_Valid cl it' \<and> unat n \<le> length rest + 4 * length rs + 4 \<and>
           it_key cl it' = take (unat n) (rest @ restart_array rs) \<and>
           it_value cl it' = (if 2 ^ 32 \<le> unat n + unat v then None else Some (take (unat v) (drop (unat n) rest)))
         else \<not> it_Valid cl it' \<and> it_status cl it' = Corruption ''bad entry in block'')"
proof -
  let ?b = "crafted_block s n v rest rs" and ?cl = "block_iter_class C"
  let ?pre = "EncodeVarint32 s @ EncodeVarint32 n @ EncodeVarint32 v"
  obtain restarts where new: "Block_NewIterator (Block u ?b) = Inr (Iter ?b restarts (of_nat (length rs)))"
    and r: "unat restarts = length (EncodeVarint32 s @ EncodeVarint32 n @ EncodeVarint32 v @ rest)"
    using crafted_opened [OF assms(1,3)] .
  define start where "start = Iter ?b restarts (of_nat (length rs))\<lparr>bi_current := 0, bi_restart_index := 0\<rparr>"
  have len: "length ?b = length ?pre + (length rest + 4 * length rs + 4)"
    by (simp add: crafted_block_def length_restart_array)
  have "0 < length ?pre" unfolding EncodeVarint32_bytes by (subst varint_bytes.simps) simp
  then have valid: "0 < restarts" using r by (auto simp: word_less_nat_alt)
  have val: "Iter_value (start\<lparr>bi_key := k, bi_value := Some (length ?pre + unat n, unat v)\<rparr>) =
      (if 2 ^ 32 \<le> unat n + unat v then None else Some (take (unat v) (drop (unat n) rest)))"
    if "(unat n + unat v) mod 2 ^ 32 \<le> length rest" for k
    using that assms(3) len
    by (cases "2 ^ 32 \<le> unat n + unat v") (auto simp: Iter_value_def read_block_def start_def Iter_def crafted_block_def)
  show ?thesis
    using crafted_first [OF assms r, folded start_def] valid val new
    by (auto simp: Let_def block_iter_class_def CorruptionError_def Iter_Valid_def start_def Iter_def)
qed

text \<open>
  A block of fifteen bytes whose entry claims 4294967295 bytes of key and one of value leaves the
  block; one with an entry of a one-byte key is read.
\<close>

theorem first_entry_exact_witness:
  "(\<exists>it. Block_NewIterator (Block 0 [0, 0xff, 0xff, 0xff, 0xff, 0x0f, 1, 0, 0, 0, 0, 1, 0, 0, 0]) = Inr it \<and>
      it_SeekToFirst (block_iter_class BytewiseComparator) it = None) \<and>
   (\<exists>it it'. Block_NewIterator (Block 0 [0, 1, 1, 97, 98, 0, 0, 0, 0, 1, 0, 0, 0]) = Inr it \<and>
      it_SeekToFirst (block_iter_class BytewiseComparator) it = Some it' \<and>
      it_key (block_iter_class BytewiseComparator) it' = [97] \<and> it_value (block_iter_class BytewiseComparator) it' = Some [98])"
proof -
  have b: "crafted_block 0 0xffffffff 1 [] [0] = [0, 0xff, 0xff, 0xff, 0xff, 0x0f, 1, 0, 0, 0, 0, 1, 0, 0, 0]"
    and c: "crafted_block 0 1 1 [97, 98] [0] = [0, 1, 1, 97, 98, 0, 0, 0, 0, 1, 0, 0, 0]" by code_simp+
  show ?thesis
    using first_entry_exact [where rs = "[0]" and s = 0 and n = "0xffffffff" and v = 1 and rest = "[]" and u = 0 and C = BytewiseComparator]
      first_entry_exact [where rs = "[0]" and s = 0 and n = 1 and v = 1 and rest = "[97, 98]" and u = 0 and C = BytewiseComparator]
    unfolding b c Let_def by (auto split: option.splits)
qed

end
