(* ===== verification/Ldb_Merge.thy ===== *)
theory Ldb_Merge
  imports Ldb_Block "HOL-Library.Multiset"
begin

text \<open>
  The merging iterator (\<open>table/merger.cc\<close>): it holds one iterator per source and moves all of
  them so that the current one is always the smallest, or, when it moves backwards, the
  largest. It is an \<open>iterator_impl\<close> of the merged entries whenever its children are of theirs.
\<close>

section \<open>Definitions\<close>

datatype Direction = kForward | kReverse

record 'i merging_iterator =
  mi_children :: "'i iterator_wrapper list"
  mi_current :: "nat option"
  mi_direction :: Direction

definition MergingIterator :: "'i iterator_class \<Rightarrow> 'i list \<Rightarrow> 'i merging_iterator" where
  "MergingIterator cls children =
     \<lparr>mi_children = map (\<lambda>it. IteratorWrapper cls (Some it)) children, mi_current = None, mi_direction = kForward\<rparr>"

definition FindSmallest :: "comparator_class \<Rightarrow> 'i merging_iterator \<Rightarrow> 'i merging_iterator" where
  "FindSmallest C m =
     (let ch = mi_children m;
          smallest = foldl (\<lambda>smallest i.
            if iw_valid (ch ! i) then
              (case smallest of
                 None \<Rightarrow> Some i
               | Some s \<Rightarrow> if Compare C (iw_key (ch ! i)) (iw_key (ch ! s)) < 0 then Some i else smallest)
            else smallest) None [0..<length ch]
      in m\<lparr>mi_current := smallest\<rparr>)"

definition FindLargest :: "comparator_class \<Rightarrow> 'i merging_iterator \<Rightarrow> 'i merging_iterator" where
  "FindLargest C m =
     (let ch = mi_children m;
          largest = foldl (\<lambda>largest i.
            if iw_valid (ch ! i) then
              (case largest of
                 None \<Rightarrow> Some i
               | Some s \<Rightarrow> if Compare C (iw_key (ch ! i)) (iw_key (ch ! s)) > 0 then Some i else largest)
            else largest) None (rev [0..<length ch])
      in m\<lparr>mi_current := largest\<rparr>)"

text \<open>A loop over all children, and one over all but the current child.\<close>

definition each_child ::
    "('i iterator_wrapper \<Rightarrow> 'i iterator_wrapper option) \<Rightarrow> 'i merging_iterator \<Rightarrow> 'i merging_iterator option" where
  "each_child f m = map_option (\<lambda>ch. m\<lparr>mi_children := ch\<rparr>) (those (map f (mi_children m)))"

definition other_children ::
    "('i iterator_wrapper \<Rightarrow> 'i iterator_wrapper option) \<Rightarrow> 'i merging_iterator \<Rightarrow> 'i merging_iterator option" where
  "other_children f m =
     map_option (\<lambda>ch. m\<lparr>mi_children := ch\<rparr>)
       (those (map (\<lambda>i. let child = mi_children m ! i in if Some i \<noteq> mi_current m then f child else Some child)
         [0..<length (mi_children m)]))"

definition current_child ::
    "('i iterator_wrapper \<Rightarrow> 'i iterator_wrapper option) \<Rightarrow> 'i merging_iterator \<Rightarrow> 'i merging_iterator option" where
  "current_child f m = do {
     c \<leftarrow> mi_current m;
     child \<leftarrow> f (mi_children m ! c);
     Some (m\<lparr>mi_children := (mi_children m)[c := child]\<rparr>)
   }"

definition Merging_Valid :: "'i merging_iterator \<Rightarrow> bool" where
  "Merging_Valid m \<longleftrightarrow> mi_current m \<noteq> None"

definition Merging_key :: "'i merging_iterator \<Rightarrow> bytes" where
  "Merging_key m = (case mi_current m of None \<Rightarrow> [] | Some c \<Rightarrow> iw_key (mi_children m ! c))"

definition Merging_value :: "'i iterator_class \<Rightarrow> 'i merging_iterator \<Rightarrow> bytes option" where
  "Merging_value cls m = Option.bind (mi_current m) (\<lambda>c. it_value (wrapper_class cls) (mi_children m ! c))"

fun status_loop :: "'i iterator_class \<Rightarrow> Status \<Rightarrow> 'i iterator_wrapper list \<Rightarrow> Status" where
  "status_loop cls status [] = status"
| "status_loop cls status (child # children) =
     (let status = it_status (wrapper_class cls) child in
      if \<not> status_ok status then status else status_loop cls status children)"

definition Merging_status :: "'i iterator_class \<Rightarrow> 'i merging_iterator \<Rightarrow> Status" where
  "Merging_status cls m = status_loop cls Status_OK (mi_children m)"

definition Merging_SeekToFirst :: "comparator_class \<Rightarrow> 'i iterator_class \<Rightarrow> 'i merging_iterator \<Rightarrow> 'i merging_iterator option" where
  "Merging_SeekToFirst C cls m = do {
     m \<leftarrow> each_child (it_SeekToFirst (wrapper_class cls)) m;
     Some ((FindSmallest C m)\<lparr>mi_direction := kForward\<rparr>)
   }"

definition Merging_SeekToLast :: "comparator_class \<Rightarrow> 'i iterator_class \<Rightarrow> 'i merging_iterator \<Rightarrow> 'i merging_iterator option" where
  "Merging_SeekToLast C cls m = do {
     m \<leftarrow> each_child (it_SeekToLast (wrapper_class cls)) m;
     Some ((FindLargest C m)\<lparr>mi_direction := kReverse\<rparr>)
   }"

definition Merging_Seek :: "comparator_class \<Rightarrow> 'i iterator_class \<Rightarrow> bytes \<Rightarrow> 'i merging_iterator \<Rightarrow> 'i merging_iterator option" where
  "Merging_Seek C cls target m = do {
     m \<leftarrow> each_child (it_Seek (wrapper_class cls) target) m;
     Some ((FindSmallest C m)\<lparr>mi_direction := kForward\<rparr>)
   }"

definition Merging_Next :: "comparator_class \<Rightarrow> 'i iterator_class \<Rightarrow> 'i merging_iterator \<Rightarrow> 'i merging_iterator option" where
  "Merging_Next C cls m = do {
     m \<leftarrow>
       (if mi_direction m \<noteq> kForward then do {
          m \<leftarrow> other_children (\<lambda>child. do {
            child \<leftarrow> it_Seek (wrapper_class cls) (Merging_key m) child;
            if iw_valid child \<and> Compare C (Merging_key m) (iw_key child) = 0
            then it_Next (wrapper_class cls) child
            else Some child
          }) m;
          Some (m\<lparr>mi_direction := kForward\<rparr>)
        } else Some m);
     m \<leftarrow> current_child (it_Next (wrapper_class cls)) m;
     Some (FindSmallest C m)
   }"

definition Merging_Prev :: "comparator_class \<Rightarrow> 'i iterator_class \<Rightarrow> 'i merging_iterator \<Rightarrow> 'i merging_iterator option" where
  "Merging_Prev C cls m = do {
     m \<leftarrow>
       (if mi_direction m \<noteq> kReverse then do {
          m \<leftarrow> other_children (\<lambda>child. do {
            child \<leftarrow> it_Seek (wrapper_class cls) (Merging_key m) child;
            if iw_valid child then it_Prev (wrapper_class cls) child
            else it_SeekToLast (wrapper_class cls) child
          }) m;
          Some (m\<lparr>mi_direction := kReverse\<rparr>)
        } else Some m);
     m \<leftarrow> current_child (it_Prev (wrapper_class cls)) m;
     Some (FindLargest C m)
   }"

definition merging_class :: "comparator_class \<Rightarrow> 'i iterator_class \<Rightarrow> 'i merging_iterator iterator_class" where
  "merging_class C cls = \<lparr>it_Valid = Merging_Valid, it_key = Merging_key, it_value = Merging_value cls,
     it_status = Merging_status cls, it_SeekToFirst = Merging_SeekToFirst C cls,
     it_SeekToLast = Merging_SeekToLast C cls, it_Seek = Merging_Seek C cls,
     it_Next = Merging_Next C cls, it_Prev = Merging_Prev C cls\<rparr>"

text \<open>\<open>NewMergingIterator\<close> returns an empty iterator, its only child, or a merging iterator.\<close>

definition NewMergingIterator :: "'i iterator_class \<Rightarrow> 'i list \<Rightarrow> Status + 'i + 'i merging_iterator" where
  "NewMergingIterator cls list =
     (if length list = 0 then Inl NewEmptyIterator
      else if length list = 1 then Inr (Inl (list ! 0))
      else Inr (Inr (MergingIterator cls list)))"

section \<open>Loops over the children\<close>

lemma those_map_Some:
  assumes "\<And>i. i < length xs \<Longrightarrow> \<exists>y. f (xs ! i) = Some y \<and> P i y"
  shows "\<exists>ys. those (map f xs) = Some ys \<and> length ys = length xs \<and> (\<forall>i < length xs. P i (ys ! i))"
  using assms
proof (induction xs arbitrary: P)
  case (Cons x xs)
  obtain y where y: "f x = Some y" "P 0 y" using Cons.prems [of 0] by auto
  have "\<exists>ys. those (map f xs) = Some ys \<and> length ys = length xs \<and> (\<forall>i < length xs. P (Suc i) (ys ! i))"
    by (rule Cons.IH) (use Cons.prems [of "Suc _"] in auto)
  then obtain ys where "those (map f xs) = Some ys" "length ys = length xs" "\<forall>i < length xs. P (Suc i) (ys ! i)" by blast
  then show ?case using y by (intro exI [of _ "y # ys"]) (auto simp: nth_Cons split: nat.split)
qed simp

text \<open>A scan that keeps the best of the candidates seen so far.\<close>

definition keep_best :: "(nat \<Rightarrow> bool) \<Rightarrow> (nat \<Rightarrow> nat \<Rightarrow> bool) \<Rightarrow> nat option \<Rightarrow> nat \<Rightarrow> nat option" where
  "keep_best cand better s i =
     (if cand i then (case s of None \<Rightarrow> Some i | Some x \<Rightarrow> if better i x then Some i else s) else s)"

lemma keep_best_in: "foldl (keep_best cand better) s is = Some x \<Longrightarrow> s = Some x \<or> x \<in> set is \<and> cand x"
  by (induction "is" arbitrary: s) (force simp: keep_best_def split: if_splits option.splits)+

lemma keep_best_stays:
  "(\<And>i. i \<in> set is \<Longrightarrow> cand i \<Longrightarrow> \<not> better i b) \<Longrightarrow> foldl (keep_best cand better) (Some b) is = Some b"
  by (induction "is") (auto simp: keep_best_def)

lemma keep_best_eq:
  assumes "distinct is" "b \<in> set is" "cand b" "\<And>i. i \<in> set is \<Longrightarrow> cand i \<Longrightarrow> i \<noteq> b \<Longrightarrow> better b i \<and> \<not> better i b"
  shows "foldl (keep_best cand better) None is = Some b"
proof -
  obtain us vs where s: "is = us @ b # vs" using split_list [OF assms(2)] by blast
  then have n: "b \<notin> set us" "b \<notin> set vs" using assms(1) by auto
  have "keep_best cand better (foldl (keep_best cand better) None us) b = Some b"
  proof (cases "foldl (keep_best cand better) None us")
    case None
    then show ?thesis using assms(3) by (simp add: keep_best_def)
  next
    case (Some x)
    then have "x \<in> set us" "cand x" using keep_best_in by fastforce+
    then have "better b x" using assms(4) n s by auto
    then show ?thesis using Some assms(3) by (simp add: keep_best_def)
  qed
  moreover have "foldl (keep_best cand better) (Some b) vs = Some b"
    using assms(4) n s by (intro keep_best_stays) auto
  ultimately show ?thesis by (simp add: s)
qed

lemma keep_best_none: "(\<And>i. i \<in> set is \<Longrightarrow> \<not> cand i) \<Longrightarrow> foldl (keep_best cand better) None is = None"
  by (induction "is") (auto simp: keep_best_def)

lemma FindSmallest_keep:
  "mi_current (FindSmallest C m) = foldl (keep_best (\<lambda>i. iw_valid (mi_children m ! i))
     (\<lambda>i s. Compare C (iw_key (mi_children m ! i)) (iw_key (mi_children m ! s)) < 0)) None [0..<length (mi_children m)]"
  by (simp add: FindSmallest_def Let_def keep_best_def [abs_def])

lemma FindLargest_keep:
  "mi_current (FindLargest C m) = foldl (keep_best (\<lambda>i. iw_valid (mi_children m ! i))
     (\<lambda>i s. Compare C (iw_key (mi_children m ! i)) (iw_key (mi_children m ! s)) > 0)) None (rev [0..<length (mi_children m)])"
  by (simp add: FindLargest_def Let_def keep_best_def [abs_def])

section \<open>Cuts\<close>

text \<open>
  The entries of the sources are those of the merged list. A position in the merged list cuts
  every source into the entries before the position and the others.
\<close>

definition merge_of :: "entries list \<Rightarrow> entries \<Rightarrow> bool" where
  "merge_of kss kvs \<longleftrightarrow> mset kvs = mset (concat kss)"

definition cut_at :: "entries \<Rightarrow> nat \<Rightarrow> entries \<Rightarrow> nat \<Rightarrow> bool" where
  "cut_at kvs i ks p \<longleftrightarrow> p \<le> length ks \<and> set (take p ks) \<subseteq> set (take i kvs) \<and> set (drop p ks) \<subseteq> set (drop i kvs)"

definition before_cut :: "entries \<Rightarrow> nat \<Rightarrow> nat" where
  "before_cut ks p = (if p = 0 then length ks else p - 1)"

lemma in_set_take: "x \<in> set (take i xs) \<longleftrightarrow> (\<exists>a < i. a < length xs \<and> x = xs ! a)"
  by (auto simp: in_set_conv_nth)

lemma in_set_drop: "x \<in> set (drop i xs) \<longleftrightarrow> (\<exists>a \<ge> i. a < length xs \<and> x = xs ! a)"
proof
  assume "x \<in> set (drop i xs)"
  then obtain d where "d < length xs - i" "x = xs ! (i + d)" by (auto simp: in_set_conv_nth)
  then show "\<exists>a \<ge> i. a < length xs \<and> x = xs ! a" by (intro exI [of _ "i + d"]) auto
next
  assume "\<exists>a \<ge> i. a < length xs \<and> x = xs ! a"
  then obtain a where "i \<le> a" "a < length xs" "x = xs ! a" by blast
  then show "x \<in> set (drop i xs)" by (auto simp: in_set_conv_nth intro!: exI [of _ "a - i"])
qed

lemma set_take_drop: "x \<in> set xs \<Longrightarrow> x \<in> set (take i xs) \<or> x \<in> set (drop i xs)"
  by (metis Un_iff append_take_drop_id set_append)

context comparator
begin

lemma sorted_entries_distinct: "sorted_entries C ok kvs \<Longrightarrow> distinct kvs"
  unfolding distinct_conv_nth
proof (intro allI impI)
  fix i j
  assume s: "sorted_entries C ok kvs" and ij: "i < length kvs" "j < length kvs" "i \<noteq> j"
  then consider "i < j" | "j < i" by linarith
  then show "kvs ! i \<noteq> kvs ! j"
    using sorted_entries_less [OF s, of i j] sorted_entries_less [OF s, of j i] irrefl sorted_entries_ok [OF s] ij
    by cases auto
qed

lemma take_before_drop:
  assumes "sorted_entries C ok kvs" "x \<in> set (take i kvs)" "y \<in> set (drop i kvs)"
  shows "lt (fst x) (fst y)"
proof -
  obtain a where a: "a < i" "a < length kvs" "x = kvs ! a" using assms(2) by (auto simp: in_set_take)
  obtain b where b: "i \<le> b" "b < length kvs" "y = kvs ! b" using assms(3) by (auto simp: in_set_drop)
  show ?thesis using sorted_entries_less [OF assms(1), of a b] a b by simp
qed

lemma sorted_entries_irrefl: "sorted_entries C ok kvs \<Longrightarrow> x \<in> set kvs \<Longrightarrow> \<not> lt (fst x) (fst x)"
  using irrefl [of "fst x"] by (auto simp: sorted_entries_def)

lemma sorted_entries_asym:
  "sorted_entries C ok kvs \<Longrightarrow> x \<in> set kvs \<Longrightarrow> y \<in> set kvs \<Longrightarrow> lt (fst x) (fst y) \<Longrightarrow> \<not> lt (fst y) (fst x)"
  using asym [of "fst x" "fst y"] by (auto simp: sorted_entries_def)

lemma cut_index:
  assumes ks: "sorted_entries C ok ks" and kvs: "sorted_entries C ok kvs" and cut: "cut_at kvs i ks p"
    and i: "i < length kvs" and x: "kvs ! i \<in> set ks"
  shows "p < length ks" "ks ! p = kvs ! i"
proof -
  have in_drop: "kvs ! i \<in> set (drop i kvs)" using i by (auto simp: in_set_drop)
  have self: "\<not> lt (fst (kvs ! i)) (fst (kvs ! i))" using i by (intro sorted_entries_irrefl [OF kvs]) simp
  have "kvs ! i \<notin> set (take p ks)"
    using take_before_drop [OF kvs _ in_drop, of "kvs ! i"] cut self unfolding cut_at_def by blast
  then obtain d where d: "p \<le> d" "d < length ks" "kvs ! i = ks ! d" using set_take_drop [OF x, of p] by (auto simp: in_set_drop)
  then show p: "p < length ks" by simp
  have "d = p"
  proof (rule ccontr)
    assume "d \<noteq> p"
    then have less: "lt (fst (ks ! p)) (fst (kvs ! i))" using sorted_entries_less [OF ks, of p d] d by simp
    have "ks ! p \<in> set (drop p ks)" using p by (auto simp: in_set_drop)
    then have "ks ! p \<in> set (drop i kvs)" using cut unfolding cut_at_def by blast
    then obtain b where b: "i \<le> b" "b < length kvs" "ks ! p = kvs ! b" by (auto simp: in_set_drop)
    then show False using less sorted_entries_asym [OF kvs, of "kvs ! b" "kvs ! i"] i
        sorted_entries_less [OF kvs, of i b] self by (cases "i = b") auto
  qed
  then show "ks ! p = kvs ! i" using d by simp
qed

lemma cut_index_pred:
  assumes ks: "sorted_entries C ok ks" and kvs: "sorted_entries C ok kvs" and cut: "cut_at kvs (Suc i) ks p"
    and i: "i < length kvs" and x: "kvs ! i \<in> set ks"
  shows "0 < p" "ks ! (p - 1) = kvs ! i"
proof -
  have self: "\<not> lt (fst (kvs ! i)) (fst (kvs ! i))" using i by (intro sorted_entries_irrefl [OF kvs]) simp
  have in_take: "kvs ! i \<in> set (take (Suc i) kvs)" using i by (auto simp: in_set_take)
  have "kvs ! i \<notin> set (drop p ks)"
    using take_before_drop [OF kvs in_take, of "kvs ! i"] cut self unfolding cut_at_def by blast
  then obtain d where d: "d < p" "d < length ks" "kvs ! i = ks ! d" using set_take_drop [OF x, of p] by (auto simp: in_set_take)
  then show "0 < p" by simp
  have p: "p \<le> length ks" using cut by (simp add: cut_at_def)
  have "d = p - 1"
  proof (rule ccontr)
    assume "d \<noteq> p - 1"
    then have less: "lt (fst (kvs ! i)) (fst (ks ! (p - 1)))" using sorted_entries_less [OF ks, of d "p - 1"] d p by simp
    have "ks ! (p - 1) \<in> set (take p ks)" using d p by (auto simp: in_set_take intro!: exI [of _ "p - 1"])
    then have "ks ! (p - 1) \<in> set (take (Suc i) kvs)" using cut unfolding cut_at_def by blast
    then obtain b where b: "b \<le> i" "ks ! (p - 1) = kvs ! b" by (auto simp: in_set_take less_Suc_eq_le)
    have "b \<noteq> i" using less b self by auto
    then have "lt (fst (kvs ! b)) (fst (kvs ! i))" using sorted_entries_less [OF kvs, of b i] b i by simp
    then show False using less b i sorted_entries_asym [OF kvs, of "kvs ! i" "kvs ! b"] by auto
  qed
  then show "ks ! (p - 1) = kvs ! i" using d by simp
qed

end

lemma before_cut_length: "before_cut ks (length ks) = length ks - 1"
  by (simp add: before_cut_def)

text \<open>Moving a cut by one entry.\<close>

lemma set_take_Suc: "i < length kvs \<Longrightarrow> set (take (Suc i) kvs) = insert (kvs ! i) (set (take i kvs))"
  by (simp add: take_Suc_conv_app_nth)

lemma set_drop_nth: "i < length kvs \<Longrightarrow> set (drop i kvs) = insert (kvs ! i) (set (drop (Suc i) kvs))"
  by (simp flip: Cons_nth_drop_Suc)

lemma cut_other:
  assumes "i < length kvs" "kvs ! i \<notin> set ks"
  shows "cut_at kvs (Suc i) ks p \<longleftrightarrow> cut_at kvs i ks p"
proof -
  have "set (take p ks) \<subseteq> set ks" "set (drop p ks) \<subseteq> set ks" by (simp_all add: set_take_subset set_drop_subset)
  then show ?thesis using assms unfolding cut_at_def set_take_Suc [OF assms(1)] set_drop_nth [OF assms(1)] by blast
qed

lemma cut_Suc:
  assumes cut: "cut_at kvs i ks p" and kvs: "distinct kvs" and ks: "distinct ks"
    and i: "i < length kvs" and p: "p < length ks" "ks ! p = kvs ! i"
  shows "cut_at kvs (Suc i) ks (Suc p)"
proof -
  have "kvs ! i \<notin> set (drop (Suc p) ks)"
    using ks p by (metis Cons_nth_drop_Suc distinct.simps(2) distinct_drop)
  then show ?thesis using cut i p by (auto simp: cut_at_def set_take_Suc set_drop_nth)
qed

lemma cut_pred:
  assumes cut: "cut_at kvs (Suc i) ks p" and kvs: "distinct kvs" and ks: "distinct ks"
    and i: "i < length kvs" and p: "0 < p" "ks ! (p - 1) = kvs ! i"
  shows "cut_at kvs i ks (p - 1)"
proof -
  obtain q where q: "p = Suc q" using p(1) by (cases p) auto
  then have l: "q < length ks" "ks ! q = kvs ! i" using cut p(2) by (auto simp: cut_at_def)
  have "kvs ! i \<notin> set (take q ks)"
  proof
    assume "kvs ! i \<in> set (take q ks)"
    then obtain a where "a < q" "ks ! q = ks ! a" using l by (auto simp: in_set_take)
    then show False using ks l nth_eq_iff_index_eq [OF ks, of q a] by simp
  qed
  then show ?thesis using cut i l q by (auto simp: cut_at_def set_take_Suc set_drop_nth)
qed

lemma cut_0: "set ks \<subseteq> set kvs \<Longrightarrow> cut_at kvs 0 ks 0"
  by (simp add: cut_at_def)

lemma cut_length: "set ks \<subseteq> set kvs \<Longrightarrow> cut_at kvs (length kvs) ks (length ks)"
  by (simp add: cut_at_def)

lemma cut_at_0_iff: "cut_at kvs 0 ks p \<Longrightarrow> p = 0"
  by (auto simp: cut_at_def)

lemma cut_at_length_iff: "cut_at kvs (length kvs) ks p \<Longrightarrow> p = length ks"
  by (simp add: cut_at_def)

context comparator
begin

lemma cut_seek:
  assumes kvs: "sorted_entries C ok kvs" and ks: "sorted_entries C ok ks" and sub: "set ks \<subseteq> set kvs" and t: "ok t"
  shows "cut_at kvs (entries_below C kvs t) ks (entries_below C ks t)"
proof -
  have tk: "x \<in> set (take (entries_below C xs t) xs) \<Longrightarrow> lt (fst x) t" for x and xs :: entries
    using entries_below_less [of _ xs t] by (auto simp: in_set_conv_nth)
  have dr: "x \<in> set (drop (entries_below C xs t) xs) \<Longrightarrow> \<not> lt (fst x) t" if "sorted_entries C ok xs" for x and xs :: entries
    using entries_below_iff [OF that t] unfolding in_set_drop by (metis leD)
  note all = set_take_drop
  have "set (take (entries_below C ks t) ks) \<subseteq> set (take (entries_below C kvs t) kvs)"
    using tk [of _ ks] dr [OF kvs] all [of _ kvs] sub by (meson in_set_takeD subsetD subsetI)
  moreover have "set (drop (entries_below C ks t) ks) \<subseteq> set (drop (entries_below C kvs t) kvs)"
    using tk [of _ kvs] dr [OF ks] all [of _ kvs] sub by (meson in_set_dropD subsetD subsetI)
  ultimately show ?thesis by (simp add: cut_at_def entries_below_le)
qed

lemma seek_cut:
  assumes kvs: "sorted_entries C ok kvs" and cut: "cut_at kvs i ks p" and i: "i < length kvs"
  shows "entries_below C ks (fst (kvs ! i)) = p"
proof (rule entries_below_eqI)
  show "p \<le> length ks" using cut by (simp add: cut_at_def)
  have in_drop: "kvs ! i \<in> set (drop i kvs)" using i by (simp add: set_drop_nth)
  show "lt (fst (ks ! j)) (fst (kvs ! i))" if "j < p" for j
  proof (rule take_before_drop [OF kvs _ in_drop])
    have "ks ! j \<in> set (take p ks)" using that \<open>p \<le> length ks\<close> by (auto simp: in_set_conv_nth intro!: exI [of _ j])
    then show "ks ! j \<in> set (take i kvs)" using cut by (auto simp: cut_at_def)
  qed
  assume "p < length ks"
  then have "ks ! p \<in> set (drop i kvs)" using cut by (auto simp: cut_at_def set_drop_nth)
  then obtain b where b: "i \<le> b" "b < length kvs" "ks ! p = kvs ! b" by (auto simp: in_set_drop)
  then show "\<not> lt (fst (ks ! p)) (fst (kvs ! i))"
    using sorted_entries_asym [OF kvs, of "kvs ! i" "kvs ! b"] sorted_entries_less [OF kvs, of i b]
      sorted_entries_irrefl [OF kvs, of "kvs ! i"] i by (cases "i = b") auto
qed

end

section \<open>The merged cursor\<close>

lemma merge_of_facts:
  assumes "merge_of kss kvs" "distinct kvs"
  shows "\<And>j. j < length kss \<Longrightarrow> set (kss ! j) \<subseteq> set kvs" "\<And>x. x \<in> set kvs \<Longrightarrow> \<exists>j < length kss. x \<in> set (kss ! j)"
    and "\<And>j k x. j < length kss \<Longrightarrow> k < length kss \<Longrightarrow> x \<in> set (kss ! j) \<Longrightarrow> x \<in> set (kss ! k) \<Longrightarrow> j = k"
proof -
  have s: "set kvs = set (concat kss)" using assms(1) unfolding merge_of_def by (metis set_mset_mset)
  show "\<And>j. j < length kss \<Longrightarrow> set (kss ! j) \<subseteq> set kvs" unfolding s using nth_mem by fastforce
  show "\<And>x. x \<in> set kvs \<Longrightarrow> \<exists>j < length kss. x \<in> set (kss ! j)" unfolding s set_concat by (metis UN_E in_set_conv_nth)
  have "distinct (concat kss)" using assms unfolding merge_of_def by (metis mset_eq_imp_distinct_iff)
  then show "\<And>j k x. j < length kss \<Longrightarrow> k < length kss \<Longrightarrow> x \<in> set (kss ! j) \<Longrightarrow> x \<in> set (kss ! k) \<Longrightarrow> j = k"
  proof (induction kss)
    case (Cons ks kss)
    then have d: "set ks \<inter> set (concat kss) = {}" "distinct (concat kss)" by auto
    have no: "x \<notin> set (kss ! k)" if "x \<in> set ks" "k < length kss" for x k
      using d(1) that by (auto dest: nth_mem)
    show ?case using Cons.prems(1-4) Cons.IH [OF _ _ _ _ d(2)] no by (cases j; cases k) auto
  qed simp
qed

context iterator_impl
begin

definition fwd :: "entries list \<Rightarrow> entries \<Rightarrow> nat \<Rightarrow> nat \<Rightarrow> 'i iterator_wrapper \<Rightarrow> bool" where
  "fwd kss kvs i j w \<longleftrightarrow> (\<exists>p. cut_at kvs i (kss ! j) p \<and> wrapped (kss ! j) p w)"

definition bwd :: "entries list \<Rightarrow> entries \<Rightarrow> nat \<Rightarrow> nat \<Rightarrow> 'i iterator_wrapper \<Rightarrow> bool" where
  "bwd kss kvs i j w \<longleftrightarrow> (\<exists>p. cut_at kvs i (kss ! j) p \<and> wrapped (kss ! j) (before_cut (kss ! j) p) w)"

definition sources :: "entries list \<Rightarrow> entries \<Rightarrow> 'i merging_iterator \<Rightarrow> bool" where
  "sources kss kvs m \<longleftrightarrow> sorted_entries C ok kvs \<and> merge_of kss kvs \<and> length (mi_children m) = length kss \<and>
     (\<forall>j < length kss. \<exists>p. wrapped (kss ! j) p (mi_children m ! j))"

text \<open>
  Positioned at an entry: the current child is at the entry, the others are at their first
  entry after it, or, in the reverse direction, at their last entry before it.
\<close>

definition merged :: "entries \<Rightarrow> nat \<Rightarrow> 'i merging_iterator \<Rightarrow> bool" where
  "merged kvs i m \<longleftrightarrow> i \<le> length kvs \<and> (\<exists>kss. sources kss kvs m \<and>
     (if i = length kvs then mi_current m = None
      else \<exists>c < length kss. mi_current m = Some c \<and> kvs ! i \<in> set (kss ! c) \<and> fwd kss kvs i c (mi_children m ! c) \<and>
        (\<forall>j < length kss. j \<noteq> c \<longrightarrow> (if mi_direction m = kForward then fwd else bwd) kss kvs i j (mi_children m ! j))))"

lemma wrapped_sorted: "wrapped ks p w \<Longrightarrow> sorted_entries C ok ks"
  by (auto simp: wrapped_def dest: sorted)

lemma wrapped_valid: "wrapped ks p w \<Longrightarrow> iw_valid w \<longleftrightarrow> p < length ks"
  by (auto simp: wrapped_def)

lemma wrapped_key: "wrapped ks p w \<Longrightarrow> p < length ks \<Longrightarrow> iw_key w = fst (ks ! p)"
  by (auto simp: wrapped_def)

lemma sources_kvs: "sources kss kvs m \<Longrightarrow> distinct kvs \<and> sorted_entries C ok kvs"
  by (simp add: sources_def sorted_entries_distinct)

lemma sources_subset: "sources kss kvs m \<Longrightarrow> j < length kss \<Longrightarrow> set (kss ! j) \<subseteq> set kvs"
  using merge_of_facts(1) [of kss kvs j] sources_kvs [of kss kvs m] unfolding sources_def by blast

lemma sources_owner: "sources kss kvs m \<Longrightarrow> i < length kvs \<Longrightarrow> \<exists>c < length kss. kvs ! i \<in> set (kss ! c)"
  using merge_of_facts(2) [of kss kvs "kvs ! i"] sources_kvs [of kss kvs m] unfolding sources_def by simp

lemma sources_unique:
  "sources kss kvs m \<Longrightarrow> j < length kss \<Longrightarrow> k < length kss \<Longrightarrow> x \<in> set (kss ! j) \<Longrightarrow> x \<in> set (kss ! k) \<Longrightarrow> j = k"
  using merge_of_facts(3) [of kss kvs j k x] sources_kvs [of kss kvs m] unfolding sources_def by simp

text \<open>The scans find the child that holds the entry on either side of the cut.\<close>

lemma FindSmallest_eq:
  assumes src: "sources kss kvs m" and f: "\<forall>j < length kss. fwd kss kvs i j (mi_children m ! j)" and i: "i \<le> length kvs"
  shows "merged kvs i ((FindSmallest C m)\<lparr>mi_direction := kForward\<rparr>)"
proof -
  let ?ch = "mi_children m"
  note kvs = conjunct2 [OF sources_kvs [OF src]]
  have len: "length ?ch = length kss" using src by (simp add: sources_def)
  obtain p where p: "\<And>j. j < length kss \<Longrightarrow> cut_at kvs i (kss ! j) (p j) \<and> wrapped (kss ! j) (p j) (?ch ! j)"
    using f unfolding fwd_def by metis
  have srcd: "sources kss kvs ((FindSmallest C m)\<lparr>mi_direction := kForward\<rparr>)"
    using src by (simp add: sources_def FindSmallest_def Let_def)
  show ?thesis
  proof (cases "i = length kvs")
    case True
    have "\<not> iw_valid (?ch ! j)" if "j < length kss" for j
      using p [OF that] True cut_at_length_iff [of kvs "kss ! j" "p j"] wrapped_valid [of "kss ! j" "p j"] by auto
    then have "mi_current (FindSmallest C m) = None"
      unfolding FindSmallest_keep len by (intro keep_best_none) simp
    then show ?thesis using srcd True by (auto simp: merged_def)
  next
    case False
    then have i': "i < length kvs" using i by simp
    obtain c where c: "c < length kss" "kvs ! i \<in> set (kss ! c)" using sources_owner [OF src i'] by blast
    have pc: "p c < length (kss ! c)" "kss ! c ! p c = kvs ! i"
      using cut_index [OF wrapped_sorted kvs _ i' c(2)] p [OF c(1)] by auto
    have kc: "iw_valid (?ch ! c)" "iw_key (?ch ! c) = fst (kvs ! i)"
      using p [OF c(1)] pc by (auto simp: wrapped_valid wrapped_key)
    have later: "lt (fst (kvs ! i)) (iw_key (?ch ! j)) \<and> \<not> lt (iw_key (?ch ! j)) (fst (kvs ! i))"
      if j: "j < length kss" "iw_valid (?ch ! j)" "j \<noteq> c" for j
    proof -
      have pj: "p j < length (kss ! j)" using p [OF j(1)] j(2) wrapped_valid by blast
      then have key: "iw_key (?ch ! j) = fst (kss ! j ! p j)" using p [OF j(1)] by (simp add: wrapped_key)
      have ne: "kss ! j ! p j \<noteq> kvs ! i" using sources_unique [OF src j(1) c(1)] c(2) j(3) pj by (metis nth_mem)
      have "kss ! j ! p j \<in> set (drop (p j) (kss ! j))" using pj by (auto simp: in_set_drop)
      then have "kss ! j ! p j \<in> set (drop i kvs)" using p [OF j(1)] unfolding cut_at_def by blast
      then obtain a where a: "i \<le> a" "a < length kvs" "kss ! j ! p j = kvs ! a" by (auto simp: in_set_drop)
      then have "i < a" using ne by (cases "i = a") auto
      then have "lt (fst (kvs ! i)) (fst (kvs ! a))" using sorted_entries_less [OF kvs] a by simp
      then show ?thesis using sorted_entries_asym [OF kvs, of "kvs ! i" "kvs ! a"] i' a key by auto
    qed
    have "mi_current (FindSmallest C m) = Some c"
      unfolding FindSmallest_keep len by (rule keep_best_eq) (use c(1) kc later in auto)
    then show ?thesis using srcd i i' c f by (auto simp: merged_def FindSmallest_def Let_def intro!: exI [of _ kss])
  qed
qed

lemma FindLargest_eq:
  assumes src: "sources kss kvs m" and b: "\<forall>j < length kss. bwd kss kvs i j (mi_children m ! j)" and i: "i \<le> length kvs"
  shows "merged kvs (if i = 0 then length kvs else i - 1) ((FindLargest C m)\<lparr>mi_direction := kReverse\<rparr>)"
proof -
  let ?ch = "mi_children m"
  note kvs = conjunct2 [OF sources_kvs [OF src]]
  have len: "length ?ch = length kss" using src by (simp add: sources_def)
  obtain p where p: "\<And>j. j < length kss \<Longrightarrow> cut_at kvs i (kss ! j) (p j) \<and> wrapped (kss ! j) (before_cut (kss ! j) (p j)) (?ch ! j)"
    using b unfolding bwd_def by metis
  have srcd: "sources kss kvs ((FindLargest C m)\<lparr>mi_direction := kReverse\<rparr>)"
    using src by (simp add: sources_def FindLargest_def Let_def)
  have before: "before_cut (kss ! j) (p j) < length (kss ! j) \<longleftrightarrow> 0 < p j" if "j < length kss" for j
    using p [OF that] by (auto simp: before_cut_def cut_at_def)
  show ?thesis
  proof (cases i)
    case 0
    have "\<not> iw_valid (?ch ! j)" if "j < length kss" for j
      using p [OF that] 0 by (auto simp: wrapped_valid before_cut_def dest!: cut_at_0_iff)
    then have "mi_current (FindLargest C m) = None"
      unfolding FindLargest_keep len by (intro keep_best_none) simp
    then show ?thesis using srcd 0 by (auto simp: merged_def)
  next
    case (Suc i')
    then have i': "i' < length kvs" using i by simp
    obtain c where c: "c < length kss" "kvs ! i' \<in> set (kss ! c)" using sources_owner [OF src i'] by blast
    have pc: "0 < p c" "kss ! c ! (p c - 1) = kvs ! i'"
      using cut_index_pred [OF wrapped_sorted kvs _ i' c(2)] p [OF c(1)] Suc by auto
    have bc: "before_cut (kss ! c) (p c) = p c - 1" using pc(1) by (simp add: before_cut_def)
    have kc: "iw_valid (?ch ! c)" "iw_key (?ch ! c) = fst (kvs ! i')"
      using p [OF c(1)] pc before [OF c(1)] bc by (auto simp: wrapped_valid wrapped_key)
    have earlier: "0 < Compare C (fst (kvs ! i')) (iw_key (?ch ! j)) \<and> \<not> 0 < Compare C (iw_key (?ch ! j)) (fst (kvs ! i'))"
      if j: "j < length kss" "iw_valid (?ch ! j)" "j \<noteq> c" for j
    proof -
      have pj: "0 < p j" using p [OF j(1)] j(2) before [OF j(1)] wrapped_valid by blast
      let ?x = "kss ! j ! (p j - 1)"
      have pl: "p j - 1 < length (kss ! j)" using p [OF j(1)] pj by (auto simp: cut_at_def)
      then have key: "iw_key (?ch ! j) = fst ?x" using p [OF j(1)] pj by (simp add: wrapped_key before_cut_def)
      have ne: "?x \<noteq> kvs ! i'" using sources_unique [OF src j(1) c(1)] c(2) j(3) pl by (metis nth_mem)
      have "?x \<in> set (take (p j) (kss ! j))" using pl pj by (auto simp: in_set_take intro!: exI [of _ "p j - 1"])
      then have "?x \<in> set (take i kvs)" using p [OF j(1)] unfolding cut_at_def by blast
      then obtain a where a: "a \<le> i'" "a < length kvs" "?x = kvs ! a" using Suc by (auto simp: in_set_take less_Suc_eq_le)
      then have "a < i'" using ne by (cases "a = i'") auto
      then have less: "lt (fst (kvs ! a)) (fst (kvs ! i'))" using sorted_entries_less [OF kvs] i' by simp
      then have "\<not> lt (fst (kvs ! i')) (fst (kvs ! a))" using sorted_entries_asym [OF kvs, of "kvs ! a" "kvs ! i'"] i' a by auto
      then show ?thesis using less swap sorted_entries_ok [OF kvs] i' a key by metis
    qed
    have "mi_current (FindLargest C m) = Some c"
      unfolding FindLargest_keep len by (rule keep_best_eq) (use c(1) kc earlier in auto)
    moreover have "fwd kss kvs i' c (?ch ! c)"
      using cut_pred [of kvs i' "kss ! c" "p c"] p [OF c(1)] Suc pc bc i' sources_kvs [OF src]
        sorted_entries_distinct [OF wrapped_sorted] by (auto simp: fwd_def)
    moreover have "bwd kss kvs i' j (?ch ! j)" if j: "j < length kss" "j \<noteq> c" for j
    proof -
      have "kvs ! i' \<notin> set (kss ! j)" using sources_unique [OF src j(1) c(1) _ c(2)] j(2) by blast
      then show ?thesis using p [OF j(1)] Suc cut_other [OF i'] by (auto simp: bwd_def)
    qed
    ultimately show ?thesis using srcd i i' c Suc
      by (auto simp: merged_def FindLargest_def Let_def intro!: exI [of _ kss])
  qed
qed

lemma each_child_eq:
  assumes src: "sources kss kvs m"
    and f: "\<And>ks p w. wrapped ks p w \<Longrightarrow> \<exists>w'. f w = Some w' \<and> wrapped ks (g ks) w'"
  shows "\<exists>m'. each_child f m = Some m' \<and> sources kss kvs m' \<and>
    (\<forall>j < length kss. wrapped (kss ! j) (g (kss ! j)) (mi_children m' ! j))"
proof -
  have len: "length (mi_children m) = length kss" using src by (simp add: sources_def)
  have "\<exists>w'. f (mi_children m ! j) = Some w' \<and> wrapped (kss ! j) (g (kss ! j)) w'" if "j < length (mi_children m)" for j
    using src that f len unfolding sources_def by metis
  then obtain ch where ch: "those (map f (mi_children m)) = Some ch" "length ch = length kss"
    "\<forall>j < length kss. wrapped (kss ! j) (g (kss ! j)) (ch ! j)"
    using those_map_Some [of "mi_children m" f "\<lambda>j. wrapped (kss ! j) (g (kss ! j))"] len by auto
  then show ?thesis using src by (auto simp: each_child_def sources_def)
qed

lemma other_children_eq:
  assumes src: "sources kss kvs m" and c: "mi_current m = Some c" and cl: "c < length kss"
    and f: "\<And>j. j < length kss \<Longrightarrow> j \<noteq> c \<Longrightarrow> \<exists>w'. f (mi_children m ! j) = Some w' \<and> P j w'"
    and P: "\<And>j w. P j w \<Longrightarrow> \<exists>p. wrapped (kss ! j) p w"
  shows "\<exists>m'. other_children f m = Some m' \<and> sources kss kvs m' \<and> mi_current m' = Some c \<and>
    mi_children m' ! c = mi_children m ! c \<and> (\<forall>j < length kss. j \<noteq> c \<longrightarrow> P j (mi_children m' ! j))"
proof -
  let ?ch = "mi_children m"
  let ?g = "\<lambda>i. let child = ?ch ! i in if Some i \<noteq> mi_current m then f child else Some child"
  have len: "length ?ch = length kss" using src by (simp add: sources_def)
  have "\<exists>w'. ?g ([0..<length kss] ! j) = Some w' \<and> (if j = c then w' = ?ch ! c else P j w')"
    if "j < length [0..<length kss]" for j
    using that f [of j] c by (auto simp: Let_def)
  then obtain ch where ch: "those (map ?g [0..<length kss]) = Some ch" "length ch = length kss"
    "\<forall>j < length kss. if j = c then ch ! j = ?ch ! c else P j (ch ! j)"
    using those_map_Some [of "[0..<length kss]" ?g "\<lambda>j w'. if j = c then w' = ?ch ! c else P j w'"] by auto
  have "\<exists>p. wrapped (kss ! j) p (ch ! j)" if "j < length kss" for j
    using ch(3) P that src by (cases "j = c") (auto simp: sources_def)
  then have "sources kss kvs (m\<lparr>mi_children := ch\<rparr>)" using src ch(2) by (simp add: sources_def)
  moreover have "other_children f m = Some (m\<lparr>mi_children := ch\<rparr>)" unfolding other_children_def len by (simp add: ch(1))
  ultimately show ?thesis using ch(3) c cl by auto
qed

text \<open>Repositioning the other children when the direction changes.\<close>

lemma turn_forward:
  assumes m: "merged kvs i m" and i: "i < length kvs" and d: "mi_direction m \<noteq> kForward"
  shows "\<exists>m'. other_children (\<lambda>child. do {
            child \<leftarrow> it_Seek (wrapper_class cls) (Merging_key m) child;
            if iw_valid child \<and> Compare C (Merging_key m) (iw_key child) = 0
            then it_Next (wrapper_class cls) child
            else Some child
          }) m = Some m' \<and> merged kvs i (m'\<lparr>mi_direction := kForward\<rparr>)"
proof -
  obtain kss c where src: "sources kss kvs m" and c: "c < length kss" "mi_current m = Some c" "kvs ! i \<in> set (kss ! c)"
    and fc: "fwd kss kvs i c (mi_children m ! c)" and b: "\<forall>j < length kss. j \<noteq> c \<longrightarrow> bwd kss kvs i j (mi_children m ! j)"
    using m i d by (auto simp: merged_def)
  note kvs = conjunct2 [OF sources_kvs [OF src]]
  note W = wrapper_impl
  have key: "Merging_key m = fst (kvs ! i)"
  proof -
    obtain p where p: "cut_at kvs i (kss ! c) p" "wrapped (kss ! c) p (mi_children m ! c)" using fc by (auto simp: fwd_def)
    then have "p < length (kss ! c)" "kss ! c ! p = kvs ! i"
      using cut_index [OF wrapped_sorted kvs _ i c(3)] by auto
    then show ?thesis using p(2) c(2) by (simp add: Merging_key_def wrapped_key)
  qed
  have ok: "ok (fst (kvs ! i))" by (rule sorted_entries_ok [OF kvs i])
  let ?f = "\<lambda>child. do {
      child \<leftarrow> it_Seek (wrapper_class cls) (Merging_key m) child;
      if iw_valid child \<and> Compare C (Merging_key m) (iw_key child) = 0
      then it_Next (wrapper_class cls) child
      else Some child
    }"
  have "\<exists>w'. ?f (mi_children m ! j) = Some w' \<and> fwd kss kvs i j w'" if j: "j < length kss" "j \<noteq> c" for j
  proof -
    obtain p where p: "cut_at kvs i (kss ! j) p" "wrapped (kss ! j) (before_cut (kss ! j) p) (mi_children m ! j)"
      using b j by (auto simp: bwd_def)
    obtain w where w: "it_Seek (wrapper_class cls) (fst (kvs ! i)) (mi_children m ! j) = Some w" "wrapped (kss ! j) p w"
      using iterator_impl.seek [OF W p(2) ok] seek_cut [OF kvs p(1) i] by auto
    have "Compare C (fst (kvs ! i)) (iw_key w) \<noteq> 0" if v: "iw_valid w"
    proof -
      have pl: "p < length (kss ! j)" using v w(2) wrapped_valid by blast
      then have "kss ! j ! p \<in> set (drop p (kss ! j))" by (auto simp: in_set_drop)
      then have "kss ! j ! p \<in> set (drop i kvs)" using p(1) unfolding cut_at_def by blast
      then obtain a where a: "i \<le> a" "a < length kvs" "kss ! j ! p = kvs ! a" by (auto simp: in_set_drop)
      have "a \<noteq> i" using sources_unique [OF src j(1) c(1)] c(3) j(2) pl a(3) by (metis nth_mem)
      then have "lt (fst (kvs ! i)) (fst (kvs ! a))" using sorted_entries_less [OF kvs, of i a] a by simp
      then show ?thesis using wrapped_key [OF w(2) pl] a(3) by simp
    qed
    then have "?f (mi_children m ! j) = Some w" using w(1) key by auto
    then show ?thesis using w(2) p(1) by (auto simp: fwd_def)
  qed
  from other_children_eq [OF src c(2) c(1), where P = "fwd kss kvs i", OF this] obtain m'
    where m': "other_children ?f m = Some m'" "sources kss kvs m'" "mi_current m' = Some c"
      "mi_children m' ! c = mi_children m ! c" "\<forall>j < length kss. j \<noteq> c \<longrightarrow> fwd kss kvs i j (mi_children m' ! j)"
    by (auto simp: fwd_def)
  have "merged kvs i (m'\<lparr>mi_direction := kForward\<rparr>)"
    using m' c fc i by (auto simp: merged_def sources_def intro!: exI [of _ kss])
  then show ?thesis using m'(1) by blast
qed

lemma turn_backward:
  assumes m: "merged kvs i m" and i: "i < length kvs" and d: "mi_direction m \<noteq> kReverse"
  shows "\<exists>m'. other_children (\<lambda>child. do {
            child \<leftarrow> it_Seek (wrapper_class cls) (Merging_key m) child;
            if iw_valid child then it_Prev (wrapper_class cls) child
            else it_SeekToLast (wrapper_class cls) child
          }) m = Some m' \<and> merged kvs i (m'\<lparr>mi_direction := kReverse\<rparr>)"
proof -
  have fwd_dir: "mi_direction m = kForward" using d by (cases "mi_direction m") auto
  obtain kss c where src: "sources kss kvs m" and c: "c < length kss" "mi_current m = Some c" "kvs ! i \<in> set (kss ! c)"
    and fc: "fwd kss kvs i c (mi_children m ! c)" and b: "\<forall>j < length kss. j \<noteq> c \<longrightarrow> fwd kss kvs i j (mi_children m ! j)"
    using m i fwd_dir by (auto simp: merged_def)
  note kvs = conjunct2 [OF sources_kvs [OF src]]
  note W = wrapper_impl
  have key: "Merging_key m = fst (kvs ! i)"
  proof -
    obtain p where p: "cut_at kvs i (kss ! c) p" "wrapped (kss ! c) p (mi_children m ! c)" using fc by (auto simp: fwd_def)
    then have "p < length (kss ! c)" "kss ! c ! p = kvs ! i"
      using cut_index [OF wrapped_sorted kvs _ i c(3)] by auto
    then show ?thesis using p(2) c(2) by (simp add: Merging_key_def wrapped_key)
  qed
  have ok: "ok (fst (kvs ! i))" by (rule sorted_entries_ok [OF kvs i])
  let ?f = "\<lambda>child. do {
      child \<leftarrow> it_Seek (wrapper_class cls) (Merging_key m) child;
      if iw_valid child then it_Prev (wrapper_class cls) child
      else it_SeekToLast (wrapper_class cls) child
    }"
  have "\<exists>w'. ?f (mi_children m ! j) = Some w' \<and> bwd kss kvs i j w'" if j: "j < length kss" "j \<noteq> c" for j
  proof -
    let ?ks = "kss ! j"
    obtain p where p: "cut_at kvs i ?ks p" "wrapped ?ks p (mi_children m ! j)" using b j by (auto simp: fwd_def)
    obtain w where w: "it_Seek (wrapper_class cls) (fst (kvs ! i)) (mi_children m ! j) = Some w" "wrapped ?ks p w"
      using iterator_impl.seek [OF W p(2) ok] seek_cut [OF kvs p(1) i] by auto
    show ?thesis
    proof (cases "iw_valid w")
      case True
      then have pl: "p < length ?ks" using w(2) wrapped_valid by blast
      from iterator_impl.prev_entry [OF W w(2) pl] obtain w'
        where "it_Prev (wrapper_class cls) w = Some w'" "wrapped ?ks (before_cut ?ks p) w'"
        by (auto simp: before_cut_def)
      then show ?thesis using w(1) True key p(1) by (auto simp: bwd_def)
    next
      case False
      then have "p = length ?ks" using w(2) wrapped_valid p(1) unfolding cut_at_def by (meson le_neq_implies_less)
      moreover obtain w' where w': "it_SeekToLast (wrapper_class cls) w = Some w'" "wrapped ?ks (length ?ks - 1) w'"
        using iterator_impl.last [OF W w(2)] by blast
      ultimately have "?f (mi_children m ! j) = Some w'" "bwd kss kvs i j w'"
        using w(1) w' False key p(1) before_cut_length [of ?ks] unfolding bwd_def by (simp, metis)
      then show ?thesis by blast
    qed
  qed
  from other_children_eq [OF src c(2) c(1), where P = "bwd kss kvs i", OF this] obtain m'
    where m': "other_children ?f m = Some m'" "sources kss kvs m'" "mi_current m' = Some c"
      "mi_children m' ! c = mi_children m ! c" "\<forall>j < length kss. j \<noteq> c \<longrightarrow> bwd kss kvs i j (mi_children m' ! j)"
    by (auto simp: bwd_def)
  have "merged kvs i (m'\<lparr>mi_direction := kReverse\<rparr>)"
    using m' c fc i by (auto simp: merged_def sources_def intro!: exI [of _ kss])
  then show ?thesis using m'(1) by blast
qed

lemma merged_current:
  assumes m: "merged kvs i m" and i: "i < length kvs"
  shows "\<exists>kss c p. sources kss kvs m \<and> c < length kss \<and> mi_current m = Some c \<and> kvs ! i \<in> set (kss ! c) \<and>
    cut_at kvs i (kss ! c) p \<and> wrapped (kss ! c) p (mi_children m ! c) \<and> p < length (kss ! c) \<and> kss ! c ! p = kvs ! i \<and>
    (\<forall>j < length kss. j \<noteq> c \<longrightarrow> (if mi_direction m = kForward then fwd else bwd) kss kvs i j (mi_children m ! j))"
proof -
  obtain kss c where src: "sources kss kvs m" and c: "c < length kss" "mi_current m = Some c" "kvs ! i \<in> set (kss ! c)"
    and fc: "fwd kss kvs i c (mi_children m ! c)"
    and o: "\<forall>j < length kss. j \<noteq> c \<longrightarrow> (if mi_direction m = kForward then fwd else bwd) kss kvs i j (mi_children m ! j)"
    using m i unfolding merged_def by auto
  obtain p where p: "cut_at kvs i (kss ! c) p" "wrapped (kss ! c) p (mi_children m ! c)" using fc by (auto simp: fwd_def)
  then have "p < length (kss ! c)" "kss ! c ! p = kvs ! i"
    using cut_index [OF wrapped_sorted conjunct2 [OF sources_kvs [OF src]] _ i c(3)] by auto
  then show ?thesis using src c p o by blast
qed

lemma current_child_eq:
  assumes src: "sources kss kvs m" and c: "mi_current m = Some c" "c < length kss"
    and f: "f (mi_children m ! c) = Some w" and w: "wrapped (kss ! c) p w"
  shows "\<exists>m'. current_child f m = Some m' \<and> sources kss kvs m' \<and> mi_direction m' = mi_direction m \<and>
    (\<forall>j < length kss. mi_children m' ! j = (if j = c then w else mi_children m ! j))"
proof -
  let ?m = "m\<lparr>mi_children := (mi_children m)[c := w]\<rparr>"
  have len: "length (mi_children m) = length kss" using src by (simp add: sources_def)
  have "\<forall>j < length kss. \<exists>p. wrapped (kss ! j) p ((mi_children m)[c := w] ! j)"
    using src w len c(2) by (auto simp: sources_def nth_list_update)
  then have "sources kss kvs ?m" using src by (simp add: sources_def)
  then show ?thesis using c f len by (auto simp: current_child_def)
qed

lemma Merging_Next_eq:
  assumes m: "merged kvs i m" and i: "i < length kvs"
  shows "\<exists>m'. Merging_Next C cls m = Some m' \<and> merged kvs (Suc i) m'"
proof -
  have step: "\<exists>m'. Option.bind (current_child (it_Next (wrapper_class cls)) m) (\<lambda>m. Some (FindSmallest C m)) = Some m' \<and>
      merged kvs (Suc i) m'" if m: "merged kvs i m" and d: "mi_direction m = kForward" for m
  proof -
    obtain kss c p where src: "sources kss kvs m" and c: "c < length kss" "mi_current m = Some c" "kvs ! i \<in> set (kss ! c)"
      and p: "cut_at kvs i (kss ! c) p" "wrapped (kss ! c) p (mi_children m ! c)" "p < length (kss ! c)" "kss ! c ! p = kvs ! i"
      and o: "\<forall>j < length kss. j \<noteq> c \<longrightarrow> fwd kss kvs i j (mi_children m ! j)"
      using merged_current [OF m i] d by auto
    note dist = conjunct1 [OF sources_kvs [OF src]] sorted_entries_distinct [OF wrapped_sorted [OF p(2)]]
    obtain w where w: "it_Next (wrapper_class cls) (mi_children m ! c) = Some w" "wrapped (kss ! c) (Suc p) w"
      using iterator_impl.next_entry [OF wrapper_impl p(2,3)] by auto
    obtain m' where m': "current_child (it_Next (wrapper_class cls)) m = Some m'" "sources kss kvs m'"
      "mi_direction m' = mi_direction m" "\<forall>j < length kss. mi_children m' ! j = (if j = c then w else mi_children m ! j)"
      using current_child_eq [where f = "it_Next (wrapper_class cls)", OF src c(2,1) w] by blast
    have "fwd kss kvs (Suc i) j (mi_children m' ! j)" if j: "j < length kss" for j
    proof (cases "j = c")
      case True
      then show ?thesis using m'(4) j w(2) cut_Suc [OF p(1) dist i p(3,4)] by (auto simp: fwd_def)
    next
      case False
      have "kvs ! i \<notin> set (kss ! j)" using sources_unique [OF src j c(1) _ c(3)] False by blast
      then show ?thesis using m'(4) j o False cut_other [OF i] by (auto simp: fwd_def)
    qed
    then have "merged kvs (Suc i) ((FindSmallest C m')\<lparr>mi_direction := kForward\<rparr>)"
      using i by (intro FindSmallest_eq [OF m'(2)]) auto
    moreover have "(FindSmallest C m')\<lparr>mi_direction := kForward\<rparr> = FindSmallest C m'"
      using m'(3) d by (simp add: FindSmallest_def Let_def)
    ultimately show ?thesis using m'(1) by simp
  qed
  show ?thesis
  proof (cases "mi_direction m = kForward")
    case True
    then show ?thesis using step [OF m] by (simp add: Merging_Next_def)
  next
    case False
    from turn_forward [OF m i this] obtain m'
      where m': "other_children (\<lambda>child. do {
            child \<leftarrow> it_Seek (wrapper_class cls) (Merging_key m) child;
            if iw_valid child \<and> Compare C (Merging_key m) (iw_key child) = 0
            then it_Next (wrapper_class cls) child
            else Some child
          }) m = Some m'" "merged kvs i (m'\<lparr>mi_direction := kForward\<rparr>)" by blast
    show ?thesis using step [OF m'(2)] False unfolding Merging_Next_def m'(1) by simp
  qed
qed

lemma Merging_Prev_eq:
  assumes m: "merged kvs i m" and i: "i < length kvs"
  shows "\<exists>m'. Merging_Prev C cls m = Some m' \<and> merged kvs (if i = 0 then length kvs else i - 1) m'"
proof -
  have step: "\<exists>m'. Option.bind (current_child (it_Prev (wrapper_class cls)) m) (\<lambda>m. Some (FindLargest C m)) = Some m' \<and>
      merged kvs (if i = 0 then length kvs else i - 1) m'" if m: "merged kvs i m" and d: "mi_direction m = kReverse" for m
  proof -
    obtain kss c p where src: "sources kss kvs m" and c: "c < length kss" "mi_current m = Some c" "kvs ! i \<in> set (kss ! c)"
      and p: "cut_at kvs i (kss ! c) p" "wrapped (kss ! c) p (mi_children m ! c)" "p < length (kss ! c)" "kss ! c ! p = kvs ! i"
      and o: "\<forall>j < length kss. j \<noteq> c \<longrightarrow> bwd kss kvs i j (mi_children m ! j)"
      using merged_current [OF m i] d by auto
    obtain w where w: "it_Prev (wrapper_class cls) (mi_children m ! c) = Some w" "wrapped (kss ! c) (before_cut (kss ! c) p) w"
      using iterator_impl.prev_entry [OF wrapper_impl p(2,3)] by (auto simp: before_cut_def)
    obtain m' where m': "current_child (it_Prev (wrapper_class cls)) m = Some m'" "sources kss kvs m'"
      "mi_direction m' = mi_direction m" "\<forall>j < length kss. mi_children m' ! j = (if j = c then w else mi_children m ! j)"
      using current_child_eq [where f = "it_Prev (wrapper_class cls)", OF src c(2,1) w] by blast
    have "\<forall>j < length kss. bwd kss kvs i j (mi_children m' ! j)" using m'(4) o w(2) p(1) by (auto simp: bwd_def)
    then have "merged kvs (if i = 0 then length kvs else i - 1) ((FindLargest C m')\<lparr>mi_direction := kReverse\<rparr>)"
      using i by (intro FindLargest_eq [OF m'(2)]) auto
    moreover have "(FindLargest C m')\<lparr>mi_direction := kReverse\<rparr> = FindLargest C m'"
      using m'(3) d by (simp add: FindLargest_def Let_def)
    ultimately show ?thesis using m'(1) by (simp only: bind.simps) blast
  qed
  show ?thesis
  proof (cases "mi_direction m = kReverse")
    case True
    then show ?thesis using step [OF m] by (simp add: Merging_Prev_def)
  next
    case False
    from turn_backward [OF m i this] obtain m'
      where m': "other_children (\<lambda>child. do {
            child \<leftarrow> it_Seek (wrapper_class cls) (Merging_key m) child;
            if iw_valid child then it_Prev (wrapper_class cls) child
            else it_SeekToLast (wrapper_class cls) child
          }) m = Some m'" "merged kvs i (m'\<lparr>mi_direction := kReverse\<rparr>)" by blast
    show ?thesis using step [OF m'(2)] False unfolding Merging_Prev_def m'(1) by simp
  qed
qed

lemma merged_sources: "merged kvs i m \<Longrightarrow> \<exists>kss. sources kss kvs m"
  by (auto simp: merged_def)

lemma Merging_SeekToFirst_eq:
  assumes "merged kvs i m"
  shows "\<exists>m'. Merging_SeekToFirst C cls m = Some m' \<and> merged kvs 0 m'"
proof -
  obtain kss where src: "sources kss kvs m" using merged_sources [OF assms] by blast
  obtain m' where m': "each_child (it_SeekToFirst (wrapper_class cls)) m = Some m'" "sources kss kvs m'"
    "\<forall>j < length kss. wrapped (kss ! j) 0 (mi_children m' ! j)"
    using each_child_eq [OF src, of "it_SeekToFirst (wrapper_class cls)" "\<lambda>_. 0"] iterator_impl.first [OF wrapper_impl] by blast
  then have "\<forall>j < length kss. fwd kss kvs 0 j (mi_children m' ! j)"
    using cut_0 sources_subset [OF src] unfolding fwd_def by blast
  from FindSmallest_eq [OF m'(2) this] show ?thesis using m'(1) by (simp add: Merging_SeekToFirst_def)
qed

lemma Merging_SeekToLast_eq:
  assumes "merged kvs i m"
  shows "\<exists>m'. Merging_SeekToLast C cls m = Some m' \<and> merged kvs (length kvs - 1) m'"
proof -
  obtain kss where src: "sources kss kvs m" using merged_sources [OF assms] by blast
  obtain m' where m': "each_child (it_SeekToLast (wrapper_class cls)) m = Some m'" "sources kss kvs m'"
    "\<forall>j < length kss. wrapped (kss ! j) (length (kss ! j) - 1) (mi_children m' ! j)"
    using each_child_eq [OF src, of "it_SeekToLast (wrapper_class cls)" "\<lambda>ks. length ks - 1"]
      iterator_impl.last [OF wrapper_impl] by blast
  then have "\<forall>j < length kss. bwd kss kvs (length kvs) j (mi_children m' ! j)"
    using cut_length sources_subset [OF src] before_cut_length unfolding bwd_def by metis
  from FindLargest_eq [OF m'(2) this] show ?thesis using m'(1) by (cases kvs) (simp_all add: Merging_SeekToLast_def)
qed

lemma Merging_Seek_eq:
  assumes "merged kvs i m" and t: "ok target"
  shows "\<exists>m'. Merging_Seek C cls target m = Some m' \<and> merged kvs (entries_below C kvs target) m'"
proof -
  obtain kss where src: "sources kss kvs m" using merged_sources [OF assms(1)] by blast
  obtain m' where m': "each_child (it_Seek (wrapper_class cls) target) m = Some m'" "sources kss kvs m'"
    "\<forall>j < length kss. wrapped (kss ! j) (entries_below C (kss ! j) target) (mi_children m' ! j)"
    using each_child_eq [OF src, of "it_Seek (wrapper_class cls) target" "\<lambda>ks. entries_below C ks target"]
      iterator_impl.seek [OF wrapper_impl _ t] by blast
  have "fwd kss kvs (entries_below C kvs target) j (mi_children m' ! j)" if j: "j < length kss" for j
    using m'(3) j cut_seek [OF conjunct2 [OF sources_kvs [OF src]] _ sources_subset [OF src j] t] wrapped_sorted
    unfolding fwd_def by metis
  then have "merged kvs (entries_below C kvs target) ((FindSmallest C m')\<lparr>mi_direction := kForward\<rparr>)"
    by (intro FindSmallest_eq [OF m'(2)]) (auto simp: entries_below_le)
  then show ?thesis using m'(1) by (simp add: Merging_Seek_def)
qed

lemma Merging_status_eq:
  assumes "merged kvs i m"
  shows "Merging_status cls m = Status_OK"
proof -
  obtain kss where src: "sources kss kvs m" using merged_sources [OF assms] by blast
  have ok: "it_status (wrapper_class cls) w = Status_OK" if "w \<in> set (mi_children m)" for w
  proof -
    obtain j where "j < length (mi_children m)" "w = mi_children m ! j" using \<open>w \<in> _\<close> by (auto simp: in_set_conv_nth)
    then obtain p where "wrapped (kss ! j) p w" using src by (auto simp: sources_def)
    then show ?thesis by (rule iterator_impl.status [OF wrapper_impl])
  qed
  have "status_loop cls Status_OK ws = Status_OK" if "\<forall>w\<in>set ws. it_status (wrapper_class cls) w = Status_OK" for ws
    using that by (induction ws) (auto simp: Let_def simp del: wrapper_class_sel)
  then show ?thesis using ok by (simp add: Merging_status_def)
qed

lemma merging_impl: "iterator_impl C ok (merging_class C cls) merged"
proof (unfold_locales, goal_cases)
  case (1 kvs i m) then show ?case using merged_sources sources_kvs by blast
next
  case (2 kvs i m) then show ?case by (simp add: merged_def)
next
  case (3 kvs i m)
  then show ?case by (cases "i = length kvs") (auto simp: merged_def merging_class_def Merging_Valid_def)
next
  case (4 kvs i m)
  from merged_current [OF this] show ?case by (auto simp: merging_class_def Merging_key_def wrapped_key)
next
  case (5 kvs i m)
  from merged_current [OF this] obtain kss c p where "mi_current m = Some c" "wrapped (kss ! c) p (mi_children m ! c)"
    "p < length (kss ! c)" "kss ! c ! p = kvs ! i" by blast
  then show ?case using iterator_impl.value_eq [OF wrapper_impl, of "kss ! c" p]
    by (simp add: merging_class_def Merging_value_def del: wrapper_class_sel)
next
  case (6 kvs i m) then show ?case by (simp add: merging_class_def Merging_status_eq)
next
  case (7 kvs i m) then show ?case using Merging_SeekToFirst_eq by (simp add: merging_class_def)
next
  case (8 kvs i m) then show ?case using Merging_SeekToLast_eq [of kvs i m] by (simp add: merging_class_def)
next
  case (9 kvs i m target) then show ?case using Merging_Seek_eq [of kvs i m target] by (simp add: merging_class_def)
next
  case (10 kvs i m) then show ?case using Merging_Next_eq [of kvs i m] by (simp add: merging_class_def)
next
  case (11 kvs i m)
  then show ?case using Merging_Prev_eq [of kvs i m] by (cases "i = 0") (simp_all add: merging_class_def)
qed

text \<open>A new merging iterator is not valid.\<close>

lemma MergingIterator_merged:
  assumes "length its = length kss" "\<forall>j < length kss. \<exists>p. R (kss ! j) p (its ! j)"
    and "sorted_entries C ok kvs" "merge_of kss kvs"
  shows "merged kvs (length kvs) (MergingIterator cls its)"
proof -
  have "\<exists>p. wrapped (kss ! j) p (IteratorWrapper cls (Some (its ! j)))" if j: "j < length kss" for j
    using assms(2) j wrapped_Set unfolding IteratorWrapper_def by blast
  then have "sources kss kvs (MergingIterator cls its)" using assms by (simp add: sources_def MergingIterator_def)
  then show ?thesis by (auto simp: merged_def MergingIterator_def)
qed

end

interpretation bytewise_merge: iterator_impl BytewiseComparator "\<lambda>_. True"
  "merging_class BytewiseComparator (block_iter_class BytewiseComparator)" bytewise_block.merged
  by (rule bytewise_block.merging_impl)

interpretation internal_merge: iterator_impl "InternalKeyComparator BytewiseComparator" "valid_ikey (\<lambda>_. True)"
  "merging_class (InternalKeyComparator BytewiseComparator) (block_iter_class (InternalKeyComparator BytewiseComparator))"
  internal_block.merged
  by (rule internal_block.merging_impl)

section \<open>Properties\<close>

text \<open>
  C33. The merging iterator over the iterators of several built blocks behaves as a cursor into
  the ascending list of all their entries, for every sequence of operations and whatever the
  changes of direction; the keys of the blocks are distinct.
\<close>

theorem merging_iterator_refines_cursor:
  assumes "comparator C ok" and "1 \<le> block_restart_interval" and "2 \<le> length kss"
    and "\<forall>ks\<in>set kss. sorted_entries C ok ks \<and> (\<forall>(k, v)\<in>set ks. length k < 2 ^ 32 \<and> length v < 2 ^ 32) \<and>
      length (build_block block_restart_interval ks) < 2 ^ 32"
    and "sorted_entries C ok kvs" and "mset kvs = mset (concat kss)"
    and "\<forall>op\<in>set ops. \<forall>k. op = Seek k \<longrightarrow> ok k"
  shows "\<exists>its m. map (\<lambda>ks. Block_NewIterator (Block u (build_block block_restart_interval ks))) kss = map Inr its \<and>
    NewMergingIterator (block_iter_class C) its = Inr (Inr m) \<and>
    iterator_run (merging_class C (block_iter_class C)) ops m = Some (cursor_run C kvs ops (length kvs))"
proof -
  note cmp = assms(1)
  note block = comparator.block_iter_impl [OF cmp]
  have "\<exists>it. Block_NewIterator (Block u (build_block block_restart_interval ks)) = Inr it \<and>
      comparator.block_cursor C ok ks (length ks) it" if "ks \<in> set kss" for ks
    using comparator.open_built_block [OF cmp assms(2)] assms(4) that by blast
  then obtain f where f: "\<And>ks. ks \<in> set kss \<Longrightarrow>
      Block_NewIterator (Block u (build_block block_restart_interval ks)) = Inr (f ks) \<and>
      comparator.block_cursor C ok ks (length ks) (f ks)" by metis
  let ?m = "MergingIterator (block_iter_class C) (map f kss)"
  have merged: "iterator_impl.merged C ok (comparator.block_cursor C ok) kvs (length kvs) ?m"
  proof (rule iterator_impl.MergingIterator_merged [OF block _ _ assms(5)])
    show "\<forall>j < length kss. \<exists>p. comparator.block_cursor C ok (kss ! j) p (map f kss ! j)"
      using f nth_mem by (metis nth_map)
  qed (use assms(6) in \<open>simp_all add: merge_of_def\<close>)
  have run: "iterator_run (merging_class C (block_iter_class C)) ops ?m = Some (cursor_run C kvs ops (length kvs))"
    by (rule iterator_impl.run_refines [OF iterator_impl.merging_impl [OF block] merged assms(7)])
  show ?thesis
    by (intro exI [of _ "map f kss"] exI [of _ ?m]) (use f assms(3) run in \<open>auto simp: NewMergingIterator_def\<close>)
qed

theorem merging_iterator_refines_cursor_witness:
  "\<exists>its m. map (\<lambda>ks. Block_NewIterator (Block 0 (build_block 16 ks))) [[([1], [10]), ([3], [30])], [([2], [20])]] = map Inr its \<and>
    NewMergingIterator (block_iter_class BytewiseComparator) its = Inr (Inr m) \<and>
    iterator_run (merging_class BytewiseComparator (block_iter_class BytewiseComparator)) [Seek [2], Prev, Next, Next] m =
      Some [(Some ([2], Some [20]), Status_OK), (Some ([1], Some [10]), Status_OK),
        (Some ([2], Some [20]), Status_OK), (Some ([3], Some [30]), Status_OK)]"
proof -
  let ?kss = "[[([1], [10]), ([3], [30])], [([2], [20])]] :: entries list"
  let ?kvs = "[([1], [10]), ([2], [20]), ([3], [30])] :: entries"
  note build = build_block_def add_all_def BlockBuilder_def BlockBuilder_Add_def BlockBuilder_Finish_def Let_def
    shared_loop.simps PutVarint32_def PutFixed32_def EncodeVarint32_def
  have "\<exists>its m. map (\<lambda>ks. Block_NewIterator (Block 0 (build_block 16 ks))) ?kss = map Inr its \<and>
      NewMergingIterator (block_iter_class BytewiseComparator) its = Inr (Inr m) \<and>
      iterator_run (merging_class BytewiseComparator (block_iter_class BytewiseComparator)) [Seek [2], Prev, Next, Next] m =
        Some (cursor_run BytewiseComparator ?kvs [Seek [2], Prev, Next, Next] (length ?kvs))"
    by (rule merging_iterator_refines_cursor [OF bytewise.comparator_axioms])
      (simp_all add: sorted_entries_def build)
  then show ?thesis by (simp add: cursor_observe_def entries_below_def Let_def)
qed

end
