(* ===== verification/Ldb_Random.thy ===== *)
theory Ldb_Random
  imports Prelude
begin

text \<open>
  The random number generator of leveldb (\<open>util/random.h\<close>): the seed is multiplied by 16807
  modulo the prime 2147483647, with the reduction done by shifts. A generator is its seed.
\<close>

section \<open>Definitions\<close>

definition Random :: "u32 \<Rightarrow> u32" where
  "Random s = (let seed = s AND 0x7fffffff in if seed = 0 \<or> seed = 2147483647 then 1 else seed)"

definition Random_Next :: "u32 \<Rightarrow> u32" where
  "Random_Next seed =
     (let M = 2147483647 :: u64;
          product = ucast seed * 16807 :: u64;
          seed = ucast (drop_bit 31 product + (product AND M)) :: u32
      in if seed > 2147483647 then seed - 2147483647 else seed)"

text \<open>A draw returns the number and the new seed.\<close>

definition Uniform :: "u32 \<Rightarrow> u32 \<Rightarrow> u32 \<times> u32" where
  "Uniform n seed = (let seed = Random_Next seed in (seed mod n, seed))"

definition OneIn :: "u32 \<Rightarrow> u32 \<Rightarrow> bool \<times> u32" where
  "OneIn n seed = (let seed = Random_Next seed in (seed mod n = 0, seed))"

definition Skewed :: "u32 \<Rightarrow> u32 \<Rightarrow> u32 \<times> u32" where
  "Skewed max_log seed = (let (bits, seed) = Uniform (max_log + 1) seed in Uniform (push_bit (unat bits) 1) seed)"

section \<open>The generator\<close>

definition good_seed :: "u32 \<Rightarrow> bool" where
  "good_seed w \<longleftrightarrow> 0 < unat w \<and> unat w < 2147483647"

lemma good_seed_Random: "good_seed (Random s)"
proof -
  have m: "(0x7fffffff :: u32) = mask 31" by (simp add: mask_eq_decr_exp)
  have "unat (s AND 0x7fffffff) < 2 ^ 31" unfolding m by (simp only: unat_and_mask) simp
  then show ?thesis by (auto simp: Random_def Let_def good_seed_def word_unat_eq_iff)
qed

lemma modulus_coprime: "coprime (2147483647 :: nat) 16807" "coprime (2147483647 :: int) (2 ^ 21)"
  by (simp_all add: coprime_iff_gcd_eq_1 gcd_non_0_nat gcd_non_0_int)

text \<open>One step multiplies modulo the prime: a number is its high part times \<open>2 ^ 31\<close>, which is one more than the modulus, and its low part.\<close>

lemma Random_Next_eq:
  assumes "good_seed w"
  shows "unat (Random_Next w) = unat w * 16807 mod 2147483647"
proof -
  let ?p = "unat w * 16807"
  let ?product = "ucast w * 16807 :: u64"
  have w: "unat w < 2147483647" using assms by (simp add: good_seed_def)
  have "unat (ucast w :: u64) = unat w" by (simp add: unat_ucast_up)
  then have p: "unat ?product = ?p" using w by (simp add: unat_word_ariths)
  have m: "(2147483647 :: u64) = mask 31" by (simp add: mask_eq_decr_exp)
  have lo: "unat (?product AND 2147483647) = ?p mod 2 ^ 31" unfolding m by (simp only: unat_and_mask p)
  have hi: "unat (drop_bit 31 ?product) = ?p div 2 ^ 31" by (simp only: unat_drop_bit p)
  have "?p < 16807 * 2 ^ 31" using w by simp
  then have hi_le: "?p div 2 ^ 31 < 16807" by (rule less_mult_imp_div_less)
  define r where "r = ?p div 2 ^ 31 + ?p mod 2 ^ 31"
  have "?p mod 2 ^ 31 < 2 ^ 31" by (rule mod_less_divisor) simp
  then have r: "r < 2 ^ 31 + 16807" using hi_le unfolding r_def by linarith
  have "unat (drop_bit 31 ?product + (?product AND 2147483647)) = r"
    using hi lo r by (simp add: unat_word_ariths r_def)
  then have s: "unat (ucast (drop_bit 31 ?product + (?product AND 2147483647)) :: u32) = r"
    using r by (simp add: unsigned_ucast_eq take_bit_eq_mod)
  have split: "?p = ?p div 2 ^ 31 * 2147483647 + r"
    using div_mult_mod_eq [of ?p "2 ^ 31"] by (simp add: r_def)
  then have mod: "?p mod 2147483647 = r mod 2147483647" by (metis mod_mult_self3)
  have "r \<noteq> 2147483647"
  proof
    assume "r = 2147483647"
    then have "2147483647 dvd unat w * 16807" using mod by (simp add: dvd_eq_mod_eq_0)
    then have "2147483647 dvd unat w" using coprime_dvd_mult_left_iff [OF modulus_coprime(1)] by blast
    then show False using assms by (auto simp: good_seed_def dest: dvd_imp_le)
  qed
  moreover have "r - 2147483647 < 2147483647" using r by simp
  ultimately have "(if r > 2147483647 then r - 2147483647 else r) = r mod 2147483647"
    by (auto simp: mod_if)
  moreover have "unat (Random_Next w) = (if r > 2147483647 then r - 2147483647 else r)"
    unfolding Random_Next_def Let_def using s
    by (simp add: word_less_nat_alt unat_sub word_le_nat_alt)
  ultimately show ?thesis using mod by simp
qed

lemma good_seed_Next:
  assumes "good_seed w"
  shows "good_seed (Random_Next w)"
proof -
  have "\<not> 2147483647 dvd unat w * 16807"
  proof
    assume "2147483647 dvd unat w * 16807"
    then have "2147483647 dvd unat w" using coprime_dvd_mult_left_iff [OF modulus_coprime(1)] by blast
    then show False using assms by (auto simp: good_seed_def dest: dvd_imp_le)
  qed
  then show ?thesis by (simp add: good_seed_def Random_Next_eq [OF assms] dvd_eq_mod_eq_0)
qed

text \<open>Two draws below \<open>2 ^ 21\<close> in a row are never both zero.\<close>

lemma no_two_zeros:
  assumes "good_seed w" "unat w mod 2 ^ 21 = 0"
  shows "unat (Random_Next w) mod 2 ^ 21 \<noteq> 0"
proof
  assume z: "unat (Random_Next w) mod 2 ^ 21 = 0"
  obtain k where k: "unat w = 2 ^ 21 * k" using assms(2) by (auto simp: mod_eq_0_iff_dvd elim: dvdE)
  obtain j where j: "unat (Random_Next w) = 2 ^ 21 * j" using z by (auto simp: mod_eq_0_iff_dvd elim: dvdE)
  have kb: "0 < k" "k < 1024" using assms(1) k by (auto simp: good_seed_def)
  have jb: "j < 1024" using good_seed_Next [OF assms(1)] j by (simp add: good_seed_def)
  have "2 ^ 21 * j = 2 ^ 21 * (k * 16807) mod 2147483647"
    using Random_Next_eq [OF assms(1)] j k by (simp add: mult.assoc)
  then have "2 ^ 21 * (k * 16807) mod 2147483647 = 2 ^ 21 * j mod 2147483647" by simp
  then have "int (2 ^ 21 * (k * 16807)) mod 2147483647 = int (2 ^ 21 * j) mod 2147483647" by (metis zmod_int of_nat_numeral)
  then have "(2147483647 :: int) dvd int (2 ^ 21 * (k * 16807)) - int (2 ^ 21 * j)" by (simp only: mod_eq_dvd_iff)
  also have "int (2 ^ 21 * (k * 16807)) - int (2 ^ 21 * j) = 2 ^ 21 * (int k * 16807 - int j)"
    by (simp add: right_diff_distrib)
  finally have "(2147483647 :: int) dvd 2 ^ 21 * (int k * 16807 - int j)" .
  then have "(2147483647 :: int) dvd int k * 16807 - int j"
    using coprime_dvd_mult_right_iff [OF modulus_coprime(2)] by blast
  moreover have "0 < int k * 16807 - int j" "int k * 16807 - int j < 2147483647" using kb jb by simp_all
  ultimately show False using zdvd_not_zless by blast
qed

end
