(* ===== verification/Ldb_DBIter.thy ===== *)
theory Ldb_DBIter
  imports Ldb_Merge Ldb_Random
begin

text \<open>
  The iterator of a database at a snapshot (\<open>db/db_iter.cc\<close>): it walks over the internal
  entries, of which there are several for a user key, and shows the newest one that is not later
  than the snapshot, unless it is a deletion. It is an \<open>iterator_impl\<close> of the snapshot view.
\<close>

section \<open>Definitions\<close>

text \<open>The keys passed to \<open>DBImpl::RecordReadSample\<close> are kept in \<open>di_samples\<close>.\<close>

record 'i db_iter =
  di_samples :: "bytes list"
  di_iter :: 'i
  di_sequence :: u64
  di_status :: Status
  di_saved_key :: bytes
  di_saved_value :: bytes
  di_direction :: Direction
  di_valid :: bool
  di_rnd :: u32
  di_bytes_counter :: int

definition kReadBytesPeriod :: u32 where "kReadBytesPeriod = 1048576"

definition RandomPeriod :: "u32 \<Rightarrow> int \<times> u32" where
  "RandomPeriod rnd = (let (n, rnd) = Uniform (2 * kReadBytesPeriod) rnd in (uint n, rnd))"

definition DBIter :: "'i \<Rightarrow> u64 \<Rightarrow> u32 \<Rightarrow> 'i db_iter" where
  "DBIter iter s seed =
     (let (period, rnd) = RandomPeriod (Random seed) in
      \<lparr>di_samples = [], di_iter = iter, di_sequence = s, di_status = Status_OK, di_saved_key = [],
       di_saved_value = [], di_direction = kForward, di_valid = False, di_rnd = rnd, di_bytes_counter = period\<rparr>)"

definition ClearSavedValue :: "'i db_iter \<Rightarrow> 'i db_iter" where
  "ClearSavedValue d = d\<lparr>di_saved_value := []\<rparr>"

partial_function (option) sample_loop :: "bytes \<Rightarrow> 'i db_iter \<Rightarrow> 'i db_iter option" where
  "sample_loop k d =
     (if di_bytes_counter d < 0 then
        let (period, rnd) = RandomPeriod (di_rnd d) in
        sample_loop k (d\<lparr>di_rnd := rnd, di_bytes_counter := di_bytes_counter d + period, di_samples := di_samples d @ [k]\<rparr>)
      else Some d)"

text \<open>The local \<open>pkey\<close> of a caller is only read when the key was parsed.\<close>

definition ParseKey :: "'i iterator_class \<Rightarrow> 'i db_iter \<Rightarrow> (bool \<times> ParsedInternalKey \<times> 'i db_iter) option" where
  "ParseKey cls d = do {
     let k = it_key cls (di_iter d);
     v \<leftarrow> it_value cls (di_iter d);
     let n = int (length k + length v);
     d \<leftarrow> sample_loop k (d\<lparr>di_bytes_counter := di_bytes_counter d - n\<rparr>);
     (case ParseInternalKey k \<lparr>user_key = [], sequence = 0, key_type = 0\<rparr> of
        (parsed, key) \<Rightarrow>
          if \<not> parsed then Some (False, key, d\<lparr>di_status := Corruption ''corrupted internal key in DBIter''\<rparr>)
          else Some (True, key, d))
   }"

text \<open>
  \<open>FindNextUserEntry\<close>; its argument \<open>skip\<close> is always \<open>&saved_key_\<close>. What an entry does: it is
  yielded, or the skipping changes.
\<close>

definition next_entry_action ::
    "comparator_class \<Rightarrow> bool \<Rightarrow> bool \<Rightarrow> ParsedInternalKey \<Rightarrow> 'i db_iter \<Rightarrow> bool \<times> bool \<times> 'i db_iter" where
  "next_entry_action C skipping parsed pkey d =
     (if parsed \<and> sequence pkey \<le> di_sequence d then
        if key_type pkey = kTypeDeletion then (False, True, d\<lparr>di_saved_key := user_key pkey\<rparr>)
        else if key_type pkey = kTypeValue then
          if skipping \<and> Compare C (user_key pkey) (di_saved_key d) \<le> 0 then (False, skipping, d)
          else (True, skipping, d\<lparr>di_valid := True, di_saved_key := []\<rparr>)
        else (False, skipping, d)
      else (False, skipping, d))"

partial_function (option) FindNextUserEntry ::
    "comparator_class \<Rightarrow> 'i iterator_class \<Rightarrow> bool \<Rightarrow> 'i db_iter \<Rightarrow> 'i db_iter option" where
  "FindNextUserEntry C cls skipping d = do {
     (parsed, pkey, d) \<leftarrow> ParseKey cls d;
     let (yield, skipping, d) = next_entry_action C skipping parsed pkey d;
     if yield then Some d
     else do {
       it \<leftarrow> it_Next cls (di_iter d);
       let d = d\<lparr>di_iter := it\<rparr>;
       if it_Valid cls it then FindNextUserEntry C cls skipping d
       else Some (d\<lparr>di_saved_key := [], di_valid := False\<rparr>)
     }
   }"

text \<open>One round of the loop of \<open>FindPrevUserEntry\<close>; \<open>True\<close> is the \<open>break\<close>.\<close>

definition prev_entry_action ::
    "comparator_class \<Rightarrow> 'i iterator_class \<Rightarrow> ValueType \<Rightarrow> bool \<Rightarrow> ParsedInternalKey \<Rightarrow> 'i db_iter \<Rightarrow>
     (bool \<times> ValueType \<times> 'i db_iter) option" where
  "prev_entry_action C cls value_type parsed pkey d =
     (if parsed \<and> sequence pkey \<le> di_sequence d then
        if value_type \<noteq> kTypeDeletion \<and> Compare C (user_key pkey) (di_saved_key d) < 0 then Some (True, value_type, d)
        else
          (let value_type = key_type pkey in
           if value_type = kTypeDeletion then Some (False, value_type, ClearSavedValue (d\<lparr>di_saved_key := []\<rparr>))
           else do {
             raw_value \<leftarrow> it_value cls (di_iter d);
             Some (False, value_type,
               d\<lparr>di_saved_key := ExtractUserKey (it_key cls (di_iter d)), di_saved_value := raw_value\<rparr>)
           })
      else Some (False, value_type, d))"

partial_function (option) prev_entry_loop ::
    "comparator_class \<Rightarrow> 'i iterator_class \<Rightarrow> ValueType \<Rightarrow> 'i db_iter \<Rightarrow> (ValueType \<times> 'i db_iter) option" where
  "prev_entry_loop C cls value_type d = do {
     (parsed, pkey, d) \<leftarrow> ParseKey cls d;
     (break, value_type, d) \<leftarrow> prev_entry_action C cls value_type parsed pkey d;
     if break then Some (value_type, d)
     else do {
       it \<leftarrow> it_Prev cls (di_iter d);
       let d = d\<lparr>di_iter := it\<rparr>;
       if it_Valid cls it then prev_entry_loop C cls value_type d else Some (value_type, d)
     }
   }"

definition FindPrevUserEntry :: "comparator_class \<Rightarrow> 'i iterator_class \<Rightarrow> 'i db_iter \<Rightarrow> 'i db_iter option" where
  "FindPrevUserEntry C cls d = do {
     (value_type, d) \<leftarrow>
       (if it_Valid cls (di_iter d) then prev_entry_loop C cls kTypeDeletion d else Some (kTypeDeletion, d));
     if value_type = kTypeDeletion
     then Some ((ClearSavedValue (d\<lparr>di_valid := False, di_saved_key := []\<rparr>))\<lparr>di_direction := kForward\<rparr>)
     else Some (d\<lparr>di_valid := True\<rparr>)
   }"

definition DBIter_key :: "'i iterator_class \<Rightarrow> 'i db_iter \<Rightarrow> bytes" where
  "DBIter_key cls d =
     (if di_direction d = kForward then ExtractUserKey (it_key cls (di_iter d)) else di_saved_key d)"

definition DBIter_value :: "'i iterator_class \<Rightarrow> 'i db_iter \<Rightarrow> bytes option" where
  "DBIter_value cls d =
     (if di_direction d = kForward then it_value cls (di_iter d) else Some (di_saved_value d))"

definition DBIter_status :: "'i iterator_class \<Rightarrow> 'i db_iter \<Rightarrow> Status" where
  "DBIter_status cls d = (if status_ok (di_status d) then it_status cls (di_iter d) else di_status d)"

definition DBIter_Next :: "comparator_class \<Rightarrow> 'i iterator_class \<Rightarrow> 'i db_iter \<Rightarrow> 'i db_iter option" where
  "DBIter_Next C cls d =
     (if di_direction d = kReverse then do {
        let d = d\<lparr>di_direction := kForward\<rparr>;
        it \<leftarrow> (if \<not> it_Valid cls (di_iter d) then it_SeekToFirst cls (di_iter d) else it_Next cls (di_iter d));
        let d = d\<lparr>di_iter := it\<rparr>;
        if \<not> it_Valid cls it then Some (d\<lparr>di_valid := False, di_saved_key := []\<rparr>)
        else FindNextUserEntry C cls True d
      } else
        FindNextUserEntry C cls True (d\<lparr>di_saved_key := ExtractUserKey (it_key cls (di_iter d))\<rparr>))"

text \<open>The scan of \<open>Prev\<close> back to a smaller user key; \<open>False\<close> is the early return.\<close>

partial_function (option) scan_back ::
    "comparator_class \<Rightarrow> 'i iterator_class \<Rightarrow> 'i db_iter \<Rightarrow> (bool \<times> 'i db_iter) option" where
  "scan_back C cls d = do {
     it \<leftarrow> it_Prev cls (di_iter d);
     let d = d\<lparr>di_iter := it\<rparr>;
     if \<not> it_Valid cls it then Some (False, ClearSavedValue (d\<lparr>di_valid := False, di_saved_key := []\<rparr>))
     else if Compare C (ExtractUserKey (it_key cls it)) (di_saved_key d) < 0 then Some (True, d)
     else scan_back C cls d
   }"

definition DBIter_Prev :: "comparator_class \<Rightarrow> 'i iterator_class \<Rightarrow> 'i db_iter \<Rightarrow> 'i db_iter option" where
  "DBIter_Prev C cls d =
     (if di_direction d = kForward then do {
        (found, d) \<leftarrow> scan_back C cls (d\<lparr>di_saved_key := ExtractUserKey (it_key cls (di_iter d))\<rparr>);
        if \<not> found then Some d
        else FindPrevUserEntry C cls (d\<lparr>di_direction := kReverse\<rparr>)
      } else FindPrevUserEntry C cls d)"

definition DBIter_Seek :: "comparator_class \<Rightarrow> 'i iterator_class \<Rightarrow> bytes \<Rightarrow> 'i db_iter \<Rightarrow> 'i db_iter option" where
  "DBIter_Seek C cls target d = do {
     let d = ClearSavedValue (d\<lparr>di_direction := kForward\<rparr>);
     let d = d\<lparr>di_saved_key := AppendInternalKey []
       \<lparr>user_key = target, sequence = di_sequence d, key_type = kValueTypeForSeek\<rparr>\<rparr>;
     it \<leftarrow> it_Seek cls (di_saved_key d) (di_iter d);
     let d = d\<lparr>di_iter := it\<rparr>;
     if it_Valid cls it then FindNextUserEntry C cls False d else Some (d\<lparr>di_valid := False\<rparr>)
   }"

definition DBIter_SeekToFirst :: "comparator_class \<Rightarrow> 'i iterator_class \<Rightarrow> 'i db_iter \<Rightarrow> 'i db_iter option" where
  "DBIter_SeekToFirst C cls d = do {
     let d = ClearSavedValue (d\<lparr>di_direction := kForward\<rparr>);
     it \<leftarrow> it_SeekToFirst cls (di_iter d);
     let d = d\<lparr>di_iter := it\<rparr>;
     if it_Valid cls it then FindNextUserEntry C cls False d else Some (d\<lparr>di_valid := False\<rparr>)
   }"

definition DBIter_SeekToLast :: "comparator_class \<Rightarrow> 'i iterator_class \<Rightarrow> 'i db_iter \<Rightarrow> 'i db_iter option" where
  "DBIter_SeekToLast C cls d = do {
     let d = ClearSavedValue (d\<lparr>di_direction := kReverse\<rparr>);
     it \<leftarrow> it_SeekToLast cls (di_iter d);
     FindPrevUserEntry C cls (d\<lparr>di_iter := it\<rparr>)
   }"

definition db_iter_class :: "comparator_class \<Rightarrow> 'i iterator_class \<Rightarrow> 'i db_iter iterator_class" where
  "db_iter_class C cls = \<lparr>it_Valid = di_valid, it_key = DBIter_key cls, it_value = DBIter_value cls,
     it_status = DBIter_status cls, it_SeekToFirst = DBIter_SeekToFirst C cls, it_SeekToLast = DBIter_SeekToLast C cls,
     it_Seek = DBIter_Seek C cls, it_Next = DBIter_Next C cls, it_Prev = DBIter_Prev C cls\<rparr>"

section \<open>The sampling loop ends\<close>

lemma RandomPeriod_eq: "RandomPeriod rnd = (int (unat (Random_Next rnd) mod 2 ^ 21), Random_Next rnd)"
  by (simp add: RandomPeriod_def Uniform_def Let_def kReadBytesPeriod_def uint_mod of_nat_mod)

text \<open>Two states with the same part that the iteration depends on.\<close>

definition same_core :: "'i db_iter \<Rightarrow> 'i db_iter \<Rightarrow> bool" where
  "same_core d d' \<longleftrightarrow> (\<exists>rnd n ks. d' = d\<lparr>di_rnd := rnd, di_bytes_counter := n, di_samples := ks\<rparr> \<and> good_seed rnd)"

lemma sample_loop_returns:
  "good_seed (di_rnd d) \<Longrightarrow> \<exists>d'. sample_loop k d = Some d' \<and> same_core d d'"
proof (induction "2 * nat (- di_bytes_counter d) + (if unat (di_rnd d) mod 2 ^ 21 = 0 then 0 else 1)"
    arbitrary: d rule: less_induct)
  case less
  show ?case
  proof (cases "di_bytes_counter d < 0")
    case False
    then show ?thesis using less.prems
      by (subst sample_loop.simps) (auto simp: same_core_def intro!: exI [of _ "di_rnd d"] exI [of _ "di_bytes_counter d"]
          exI [of _ "di_samples d"])
  next
    case True
    let ?w = "Random_Next (di_rnd d)"
    let ?n = "unat ?w mod 2 ^ 21"
    let ?d = "d\<lparr>di_rnd := ?w, di_bytes_counter := di_bytes_counter d + int ?n, di_samples := di_samples d @ [k]\<rparr>"
    have good: "good_seed (di_rnd ?d)" using good_seed_Next [OF less.prems] by simp
    have "2 * nat (- di_bytes_counter ?d) + (if unat (di_rnd ?d) mod 2 ^ 21 = 0 then 0 else 1) <
      2 * nat (- di_bytes_counter d) + (if unat (di_rnd d) mod 2 ^ 21 = 0 then 0 else 1)"
      using True no_two_zeros [OF less.prems] by (cases "?n = 0") auto
    from less.hyps [OF this good] obtain d' where "sample_loop k ?d = Some d'" "same_core ?d d'" by blast
    then show ?thesis using True
      by (subst sample_loop.simps) (auto simp: RandomPeriod_eq Let_def same_core_def)
  qed
qed

section \<open>The snapshot\<close>

text \<open>
  The internal entries as parsed keys with their values, the newest of a user key first. A
  snapshot shows a user key when its newest entry with a sequence number up to \<open>s\<close> is a value.
\<close>

type_synonym event = "ParsedInternalKey \<times> bytes"

definition encode_event :: "event \<Rightarrow> bytes \<times> bytes" where
  "encode_event e = (AppendInternalKey [] (fst e), snd e)"

definition newest :: "u64 \<Rightarrow> event list \<Rightarrow> bytes \<Rightarrow> event option" where
  "newest s es u = find (\<lambda>e. user_key (fst e) = u \<and> sequence (fst e) \<le> s) es"

definition snapshot :: "u64 \<Rightarrow> event list \<Rightarrow> entries" where
  "snapshot s es = map (\<lambda>e. (user_key (fst e), snd e))
     (filter (\<lambda>e. newest s es (user_key (fst e)) = Some e \<and> key_type (fst e) = kTypeValue) es)"

definition well_formed_events :: "comparator_class \<Rightarrow> (bytes \<Rightarrow> bool) \<Rightarrow> event list \<Rightarrow> bool" where
  "well_formed_events U uok es \<longleftrightarrow>
     sorted_entries (InternalKeyComparator U) (valid_ikey uok) (map encode_event es) \<and>
     (\<forall>e\<in>set es. sequence (fst e) \<le> kMaxSequenceNumber \<and> key_type (fst e) \<le> kTypeValue)"

text \<open>The same by positions: \<open>rank_of\<close> counts the entries shown before a position.\<close>

definition ukey_at :: "event list \<Rightarrow> nat \<Rightarrow> bytes" where
  "ukey_at es j = user_key (fst (es ! j))"

definition visible :: "u64 \<Rightarrow> event list \<Rightarrow> nat \<Rightarrow> bool" where
  "visible s es j \<longleftrightarrow> sequence (fst (es ! j)) \<le> s"

definition is_put :: "event list \<Rightarrow> nat \<Rightarrow> bool" where
  "is_put es j \<longleftrightarrow> key_type (fst (es ! j)) = kTypeValue"

definition shown :: "u64 \<Rightarrow> event list \<Rightarrow> nat \<Rightarrow> bool" where
  "shown s es j \<longleftrightarrow> visible s es j \<and> is_put es j \<and> (\<forall>i < j. visible s es i \<longrightarrow> ukey_at es i \<noteq> ukey_at es j)"

definition rank_of :: "u64 \<Rightarrow> event list \<Rightarrow> nat \<Rightarrow> nat" where
  "rank_of s es t = length (filter (shown s es) [0..<t])"

lemma shown_eq_newest:
  assumes "distinct es" "j < length es"
  shows "shown s es j \<longleftrightarrow> newest s es (user_key (fst (es ! j))) = Some (es ! j) \<and> key_type (fst (es ! j)) = kTypeValue"
proof -
  have "newest s es (ukey_at es j) = Some (es ! j) \<longleftrightarrow>
      visible s es j \<and> (\<forall>i < j. visible s es i \<longrightarrow> ukey_at es i \<noteq> ukey_at es j)"
    unfolding newest_def find_Some_iff
  proof (intro iffI, goal_cases)
    case 1
    then obtain i where i: "i < length es" "es ! j = es ! i" "sequence (fst (es ! i)) \<le> s"
      "\<forall>k < i. \<not> (user_key (fst (es ! k)) = ukey_at es j \<and> sequence (fst (es ! k)) \<le> s)" by blast
    then have "i = j" using assms nth_eq_iff_index_eq by metis
    then show ?case using i by (auto simp: visible_def ukey_at_def)
  next
    case 2
    then show ?case using assms(2) by (intro exI [of _ j]) (auto simp: visible_def ukey_at_def)
  qed
  then show ?thesis by (auto simp: shown_def is_put_def ukey_at_def)
qed

lemma snapshot_by_position:
  assumes "distinct es"
  shows "snapshot s es = map (\<lambda>j. (ukey_at es j, snd (es ! j))) (filter (shown s es) [0..<length es])"
proof -
  let ?P = "\<lambda>e. newest s es (user_key (fst e)) = Some e \<and> key_type (fst e) = kTypeValue"
  have "filter ?P es = filter ?P (map (nth es) [0..<length es])" by (simp only: map_nth)
  also have "\<dots> = map (nth es) (filter (?P \<circ> nth es) [0..<length es])" by (rule filter_map)
  also have "filter (?P \<circ> nth es) [0..<length es] = filter (shown s es) [0..<length es]"
    by (intro filter_cong) (simp_all add: shown_eq_newest [OF assms])
  finally show ?thesis by (simp add: snapshot_def ukey_at_def)
qed

lemma rank_of_mono_eq: "i \<le> t \<Longrightarrow> (\<And>k. i \<le> k \<Longrightarrow> k < t \<Longrightarrow> \<not> shown s es k) \<Longrightarrow> rank_of s es t = rank_of s es i"
  using upt_add_eq_append [of 0 i "t - i"] by (simp add: rank_of_def)

lemma rank_of_Suc: "shown s es y \<Longrightarrow> rank_of s es (Suc y) = Suc (rank_of s es y)"
  by (simp add: rank_of_def)

lemma rank_of_next:
  assumes "shown s es y" "y < t" "\<And>k. y < k \<Longrightarrow> k < t \<Longrightarrow> \<not> shown s es k"
  shows "rank_of s es t = Suc (rank_of s es y)"
  using rank_of_mono_eq [of "Suc y" t s es] rank_of_Suc [OF assms(1)] assms by auto

lemma filter_upt_nth:
  assumes "P y" "y < n"
  shows "length (filter P [0..<y]) < length (filter P [0..<n])" "filter P [0..<n] ! length (filter P [0..<y]) = y"
proof -
  have "[0..<n] = [0..<y] @ y # [Suc y..<n]"
    using assms(2) upt_add_eq_append [of 0 y "n - y"] by (simp add: upt_conv_Cons)
  then show "length (filter P [0..<y]) < length (filter P [0..<n])" "filter P [0..<n] ! length (filter P [0..<y]) = y"
    using assms(1) by (simp_all add: nth_append)
qed

lemma snapshot_nth:
  assumes "distinct es" "shown s es y" "y < length es"
  shows "rank_of s es y < length (snapshot s es)" "snapshot s es ! rank_of s es y = (ukey_at es y, snd (es ! y))"
  using filter_upt_nth [of "shown s es", OF assms(2,3)] by (simp_all add: snapshot_by_position [OF assms(1)] rank_of_def)

lemma snapshot_length: "distinct es \<Longrightarrow> length (snapshot s es) = rank_of s es (length es)"
  by (simp add: snapshot_by_position rank_of_def)

section \<open>Over a source of internal entries\<close>

locale db_source = user: comparator U uok + inner: iterator_impl "InternalKeyComparator U" "valid_ikey uok" cls R
  for U :: comparator_class and uok :: "bytes \<Rightarrow> bool"
    and cls :: "'i iterator_class" and R :: "entries \<Rightarrow> nat \<Rightarrow> 'i \<Rightarrow> bool"
begin

lemma events_key:
  assumes "well_formed_events U uok es" "i < length es"
  shows "ParseInternalKey (fst (encode_event (es ! i))) r = (True, fst (es ! i))"
    "ExtractUserKey (fst (encode_event (es ! i))) = ukey_at es i" "uok (ukey_at es i)"
proof -
  have e: "es ! i \<in> set es" using assms(2) by simp
  then have bounds: "sequence (fst (es ! i)) \<le> kMaxSequenceNumber" "key_type (fst (es ! i)) \<le> kTypeValue"
    using assms(1) unfolding well_formed_events_def by blast+
  then show "ParseInternalKey (fst (encode_event (es ! i))) r = (True, fst (es ! i))"
    by (simp add: encode_event_def AppendInternalKey_ikey ParseInternalKey_ikey)
  show "ExtractUserKey (fst (encode_event (es ! i))) = ukey_at es i"
    by (simp add: encode_event_def AppendInternalKey_ikey ukey_at_def)
  have "valid_ikey uok (fst (encode_event (es ! i)))"
    using e assms(1) by (auto simp: well_formed_events_def sorted_entries_def)
  then show "uok (ukey_at es i)" by (simp add: encode_event_def AppendInternalKey_ikey ukey_at_def)
qed

text \<open>User keys do not fall along the events.\<close>

lemma ukeys_ascend:
  assumes wf: "well_formed_events U uok es" and ij: "i \<le> j" "j < length es"
  shows "\<not> user.lt (ukey_at es j) (ukey_at es i)"
proof (cases "i = j")
  case True
  then show ?thesis using user.irrefl events_key(3) [OF wf ij(2)] by simp
next
  case False
  then have i: "i < length es" using ij by simp
  have "InternalKey_Compare U (fst (encode_event (es ! i))) (fst (encode_event (es ! j))) < 0"
    using sorted_entries_less [of "InternalKeyComparator U" "valid_ikey uok" "map encode_event es" i j] wf ij False
    by (simp add: well_formed_events_def)
  moreover have "valid_ikey uok (fst (encode_event (es ! i)))" "valid_ikey uok (fst (encode_event (es ! j)))"
    using wf i ij(2) by (auto simp: well_formed_events_def sorted_entries_def)
  ultimately have "user.lt (ukey_at es i) (ukey_at es j) \<or> ukey_at es i = ukey_at es j"
    using user.internal_lt events_key(2) [OF wf] i ij(2) by metis
  then show ?thesis using user.asym user.irrefl events_key(3) [OF wf] i ij(2) by metis
qed

lemma ukeys_between:
  assumes wf: "well_formed_events U uok es" and "i \<le> j" "j \<le> k" "k < length es" "ukey_at es i = ukey_at es k"
  shows "ukey_at es j = ukey_at es k"
proof -
  have "\<not> user.lt (ukey_at es j) (ukey_at es i)" "\<not> user.lt (ukey_at es k) (ukey_at es j)"
    using ukeys_ascend [OF wf, of i j] ukeys_ascend [OF wf, of j k] assms by auto
  then show ?thesis using user.not_lt events_key(3) [OF wf] assms by (metis le_less_trans)
qed

lemma wf_distinct:
  assumes "well_formed_events U uok es"
  shows "distinct es"
  using inner.sorted_entries_distinct [of "map encode_event es"] assms
  by (auto simp: well_formed_events_def distinct_map)

text \<open>Two entries shown in order have user keys in order.\<close>

lemma shown_less:
  assumes "well_formed_events U uok es" "shown s es i" "shown s es j" "i < j" "j < length es"
  shows "user.lt (ukey_at es i) (ukey_at es j)"
  using ukeys_ascend [OF assms(1), of i j] user.not_lt [of "ukey_at es j" "ukey_at es i"] events_key(3) [OF assms(1)]
    assms by (auto simp: shown_def)

lemma snapshot_sorted:
  assumes wf: "well_formed_events U uok es"
  shows "sorted_entries U uok (snapshot s es)"
  unfolding sorted_entries_def
proof
  let ?js = "filter (shown s es) [0..<length es]"
  have "sorted_wrt (\<lambda>i j. user.lt (ukey_at es i) (ukey_at es j)) ?js"
  proof (rule sorted_wrt_mono_rel [of _ "(<)"])
    show "sorted_wrt (<) ?js" by (simp add: sorted_wrt_filter)
  qed (auto intro: shown_less [OF wf])
  then show "sorted_wrt (\<lambda>a b. user.lt (fst a) (fst b)) (snapshot s es)"
    by (simp add: snapshot_by_position [OF wf_distinct [OF wf]] sorted_wrt_map)
  show "\<forall>k\<in>set (map fst (snapshot s es)). uok k"
    using events_key(3) [OF wf] by (auto simp: snapshot_by_position [OF wf_distinct [OF wf]])
qed

definition source_at :: "event list \<Rightarrow> nat \<Rightarrow> 'i db_iter \<Rightarrow> bool" where
  "source_at es i d \<longleftrightarrow> R (map encode_event es) i (di_iter d)"

definition core :: "u64 \<Rightarrow> 'i db_iter \<Rightarrow> bool" where
  "core s d \<longleftrightarrow> di_sequence d = s \<and> di_status d = Status_OK \<and> good_seed (di_rnd d)"

lemma ParseKey_eq:
  assumes wf: "well_formed_events U uok es" and at: "source_at es i d" "i < length es" and "core s d"
  obtains rnd n ks where
    "ParseKey cls d = Some (True, fst (es ! i), d\<lparr>di_rnd := rnd, di_bytes_counter := n, di_samples := ks\<rparr>)" "good_seed rnd"
proof -
  let ?k = "fst (encode_event (es ! i))"
  have k: "it_key cls (di_iter d) = ?k" using inner.key at unfolding source_at_def by fastforce
  have v: "it_value cls (di_iter d) = Some (snd (es ! i))"
    using inner.value_eq at unfolding source_at_def by (fastforce simp: encode_event_def)
  let ?d = "d\<lparr>di_bytes_counter := di_bytes_counter d - int (length ?k + length (snd (es ! i)))\<rparr>"
  have "good_seed (di_rnd ?d)" using assms(4) by (simp add: core_def)
  then obtain d' where "sample_loop ?k ?d = Some d'" "same_core ?d d'" using sample_loop_returns by blast
  then show ?thesis using that
    by (fastforce simp: ParseKey_def k v Let_def events_key(1) [OF wf at(2)] same_core_def simp del: of_nat_add)
qed

subsection \<open>Forwards\<close>

text \<open>The entries that a forward scan from \<open>i\<close> yields.\<close>

definition no_earlier :: "u64 \<Rightarrow> event list \<Rightarrow> nat \<Rightarrow> nat \<Rightarrow> bool" where
  "no_earlier s es i k \<longleftrightarrow> (\<forall>j. i \<le> j \<longrightarrow> j < k \<longrightarrow> visible s es j \<longrightarrow> ukey_at es j \<noteq> ukey_at es k)"

lemma no_earlier_Suc:
  assumes "i < k"
  shows "no_earlier s es i k \<longleftrightarrow> (visible s es i \<longrightarrow> ukey_at es i \<noteq> ukey_at es k) \<and> no_earlier s es (Suc i) k"
proof -
  have "(i \<le> j \<and> j < k) = (j = i \<or> Suc i \<le> j \<and> j < k)" for j using assms by auto
  then show ?thesis unfolding no_earlier_def by metis
qed

definition next_shown :: "u64 \<Rightarrow> event list \<Rightarrow> nat \<Rightarrow> bool \<Rightarrow> bytes \<Rightarrow> nat \<Rightarrow> bool" where
  "next_shown s es i skipping skip k \<longleftrightarrow> visible s es k \<and> is_put es k \<and> no_earlier s es i k \<and> (skipping \<longrightarrow> user.lt skip (ukey_at es k))"

definition skip_below :: "u64 \<Rightarrow> event list \<Rightarrow> nat \<Rightarrow> bool \<Rightarrow> bytes \<Rightarrow> bool" where
  "skip_below s es i skipping skip \<longleftrightarrow> (skipping \<longrightarrow> uok skip \<and>
     (\<forall>k. i \<le> k \<longrightarrow> k < length es \<longrightarrow> visible s es k \<longrightarrow> \<not> user.lt (ukey_at es k) skip))"

lemma next_shown_hidden:
  assumes "\<not> visible s es i" "i < k"
  shows "next_shown s es (Suc i) skipping skip k \<longleftrightarrow> next_shown s es i skipping skip k"
  using assms by (simp add: next_shown_def no_earlier_Suc)

lemma next_shown_deleted:
  assumes wf: "well_formed_events U uok es" and i: "visible s es i" and k: "i < k" "k < length es"
    and skip: "skip_below s es i skipping skip"
  shows "next_shown s es (Suc i) True (ukey_at es i) k \<longleftrightarrow> next_shown s es i skipping skip k"
proof -
  have ok: "uok (ukey_at es i)" "uok (ukey_at es k)" using events_key(3) [OF wf] k by auto
  have "user.lt (ukey_at es i) (ukey_at es k) \<longleftrightarrow> ukey_at es i \<noteq> ukey_at es k"
    using ukeys_ascend [OF wf less_imp_le [OF k(1)] k(2)] user.not_lt [OF ok(2,1)] user.irrefl [OF ok(1)] by metis
  moreover have "user.lt skip (ukey_at es k)" if "skipping" "user.lt (ukey_at es i) (ukey_at es k)"
  proof -
    have "uok skip" "\<not> user.lt (ukey_at es i) skip" using skip that(1) i k by (simp_all add: skip_below_def)
    then show ?thesis using user.le_lt_trans ok that(2) by blast
  qed
  ultimately show ?thesis using i k(1) by (auto simp: next_shown_def no_earlier_Suc)
qed

lemma next_shown_skipped:
  assumes wf: "well_formed_events U uok es" and i: "visible s es i" and k: "i < k" "k < length es"
    and skip: "skip_below s es i True skip" "\<not> user.lt skip (ukey_at es i)"
  shows "next_shown s es (Suc i) True skip k \<longleftrightarrow> next_shown s es i True skip k"
proof -
  have ok: "uok (ukey_at es i)" "uok skip" using events_key(3) [OF wf] k skip(1) by (auto simp: skip_below_def)
  have "\<not> user.lt (ukey_at es i) skip" using skip(1) i k by (simp add: skip_below_def)
  then have "ukey_at es i = skip" using skip(2) user.not_lt ok by blast
  then show ?thesis using i k(1) user.irrefl [OF ok(2)] by (auto simp: next_shown_def no_earlier_Suc)
qed

lemma skip_below_Suc: "skip_below s es i skipping skip \<Longrightarrow> skip_below s es (Suc i) skipping skip"
  by (simp add: skip_below_def)

lemma skip_below_self:
  "well_formed_events U uok es \<Longrightarrow> i < length es \<Longrightarrow> skip_below s es (Suc i) skipping (ukey_at es i)"
  using ukeys_ascend events_key(3) by (simp add: skip_below_def)

lemma next_entry_cases:
  assumes wf: "well_formed_events U uok es" and i: "i < length es" and c: "core s d"
    and skip: "skip_below s es i skipping (di_saved_key d)"
  obtains
    (yield) "next_shown s es i skipping (di_saved_key d) i"
      "next_entry_action U skipping True (fst (es ! i)) d = (True, skipping, d\<lparr>di_valid := True, di_saved_key := []\<rparr>)"
  | (pass) skipping' skip' where "\<not> next_shown s es i skipping (di_saved_key d) i"
      "next_entry_action U skipping True (fst (es ! i)) d = (False, skipping', d\<lparr>di_saved_key := skip'\<rparr>)"
      "skip_below s es (Suc i) skipping' skip'"
      "\<And>k. i < k \<Longrightarrow> k < length es \<Longrightarrow>
        next_shown s es (Suc i) skipping' skip' k \<longleftrightarrow> next_shown s es i skipping (di_saved_key d) k"
proof -
  let ?e = "fst (es ! i)"
  note here = next_shown_def visible_def is_put_def no_earlier_def
  note defs = next_entry_action_def kTypeDeletion_def kTypeValue_def
  consider (invisible) "\<not> visible s es i" | (deletion) "visible s es i" "key_type ?e = 0"
    | (put) "visible s es i" "key_type ?e = 1"
  proof -
    have "key_type ?e \<le> 1" using wf i by (auto simp: well_formed_events_def kTypeValue_def)
    then have "key_type ?e = 0 \<or> key_type ?e = 1" by (simp add: word_le_nat_alt word_unat_eq_iff le_Suc_eq)
    then show ?thesis using that by blast
  qed
  then show thesis
  proof cases
    case invisible
    show thesis
    proof (rule pass [of skipping "di_saved_key d"])
      show "next_entry_action U skipping True ?e d = (False, skipping, d\<lparr>di_saved_key := di_saved_key d\<rparr>)"
        using invisible c by (simp add: defs visible_def core_def)
    qed (use invisible in \<open>simp_all add: next_shown_hidden skip_below_Suc [OF skip]\<close>, simp add: next_shown_def)
  next
    case deletion
    show thesis
    proof (rule pass [of True "ukey_at es i"])
      show "next_entry_action U skipping True ?e d = (False, True, d\<lparr>di_saved_key := ukey_at es i\<rparr>)"
        using deletion c by (simp add: defs visible_def core_def ukey_at_def)
    qed (use deletion in \<open>simp_all add: next_shown_deleted [OF wf _ _ _ skip] skip_below_self [OF wf i]\<close>,
        simp add: next_shown_def is_put_def kTypeValue_def)
  next
    case put
    have hidden: "Compare U (user_key ?e) (di_saved_key d) \<le> 0 \<longleftrightarrow> \<not> user.lt (di_saved_key d) (ukey_at es i)"
      if "skipping" using that skip events_key(3) [OF wf i] user.swap [of "di_saved_key d" "ukey_at es i"]
      by (auto simp: skip_below_def ukey_at_def)
    show thesis
    proof (cases "skipping \<and> \<not> user.lt (di_saved_key d) (ukey_at es i)")
      case True
      show thesis
      proof (rule pass [of skipping "di_saved_key d"])
        show "next_entry_action U skipping True ?e d = (False, skipping, d\<lparr>di_saved_key := di_saved_key d\<rparr>)"
          using put c True hidden by (simp add: defs visible_def core_def)
        show "next_shown s es (Suc i) skipping (di_saved_key d) k \<longleftrightarrow> next_shown s es i skipping (di_saved_key d) k"
          if "i < k" "k < length es" for k
          using next_shown_skipped [OF wf put(1) that] True skip by auto
      qed (use True skip_below_Suc [OF skip] in \<open>simp_all add: next_shown_def\<close>)
    next
      case False
      then have "next_shown s es i skipping (di_saved_key d) i" using put by (auto simp: here kTypeValue_def)
      moreover have "next_entry_action U skipping True ?e d = (True, skipping, d\<lparr>di_valid := True, di_saved_key := []\<rparr>)"
        using put c False hidden by (auto simp: defs visible_def core_def)
      ultimately show thesis by (rule yield)
    qed
  qed
qed

lemma FindNextUserEntry_eq:
  assumes wf: "well_formed_events U uok es" and "source_at es i d" "i < length es" "core s d"
    and "skip_below s es i skipping (di_saved_key d)"
  shows "\<exists>d' t. FindNextUserEntry U cls skipping d = Some d' \<and> core s d' \<and> source_at es t d' \<and> i \<le> t \<and> t \<le> length es \<and>
    di_direction d' = di_direction d \<and> di_valid d' = (t < length es) \<and>
    (t < length es \<longrightarrow> next_shown s es i skipping (di_saved_key d) t) \<and>
    (\<forall>k. i \<le> k \<longrightarrow> k < t \<longrightarrow> \<not> next_shown s es i skipping (di_saved_key d) k)"
  using assms(2-)
proof (induction "length es - i" arbitrary: i skipping d)
  case (Suc m)
  note at = Suc.prems(1,2) and c = Suc.prems(3)
  let ?n = "length es"
  obtain rnd n ks where parse:
    "ParseKey cls d = Some (True, fst (es ! i), d\<lparr>di_rnd := rnd, di_bytes_counter := n, di_samples := ks\<rparr>)" "good_seed rnd"
    by (rule ParseKey_eq [OF wf at c])
  let ?d = "d\<lparr>di_rnd := rnd, di_bytes_counter := n, di_samples := ks\<rparr>"
  have c1: "core s ?d" using c parse(2) by (simp add: core_def)
  have skip: "skip_below s es i skipping (di_saved_key ?d)" using Suc.prems(4) by simp
  show ?case using wf at(2) c1 skip
  proof (cases rule: next_entry_cases)
    case yield
    let ?d' = "?d\<lparr>di_valid := True, di_saved_key := []\<rparr>"
    have "FindNextUserEntry U cls skipping d = Some ?d'"
      by (subst FindNextUserEntry.simps) (simp add: parse yield(2))
    then show ?thesis using yield(1) at c1
      by (intro exI [of _ ?d'] exI [of _ i]) (simp add: core_def source_at_def)
  next
    case (pass skipping' skip')
    obtain it where it: "it_Next cls (di_iter d) = Some it" "R (map encode_event es) (i + 1) it"
      using inner.next_entry [of "map encode_event es" i "di_iter d"] at by (auto simp: source_at_def)
    let ?d2 = "?d\<lparr>di_saved_key := skip', di_iter := it\<rparr>"
    have step: "FindNextUserEntry U cls skipping d =
        (if it_Valid cls it then FindNextUserEntry U cls skipping' ?d2 else Some (?d2\<lparr>di_saved_key := [], di_valid := False\<rparr>))"
      by (subst FindNextUserEntry.simps) (simp add: parse pass(2) it(1) Let_def)
    have at2: "source_at es (Suc i) ?d2" and c2: "core s ?d2" using it(2) c1 by (simp_all add: source_at_def core_def)
    have valid: "it_Valid cls it \<longleftrightarrow> Suc i < ?n" using inner.valid [OF it(2)] by simp
    have none: "\<not> next_shown s es i skipping (di_saved_key d) i" using pass(1) by simp
    have same: "next_shown s es (Suc i) skipping' skip' k \<longleftrightarrow> next_shown s es i skipping (di_saved_key d) k"
      if "i < k" "k < ?n" for k using pass(4) [OF that] by simp
    show ?thesis
    proof (cases "Suc i < ?n")
      case False
      let ?d' = "?d2\<lparr>di_saved_key := [], di_valid := False\<rparr>"
      have "FindNextUserEntry U cls skipping d = Some ?d'" using step valid False by simp
      moreover have "Suc i = ?n" using at(2) False by simp
      then have "core s ?d'" "source_at es ?n ?d'" using c2 at2 by (auto simp: core_def source_at_def)
      moreover have "\<forall>k. i \<le> k \<longrightarrow> k < ?n \<longrightarrow> \<not> next_shown s es i skipping (di_saved_key d) k"
        using none at(2) False by (metis Suc_leI le_less_Suc_eq le_neq_implies_less not_less_eq)
      ultimately show ?thesis using at(2) by (intro exI [of _ ?d'] exI [of _ ?n]) simp
    next
      case True
      have m: "m = ?n - Suc i" using Suc.hyps(2) by simp
      have skip2: "skip_below s es (Suc i) skipping' (di_saved_key ?d2)" using pass(3) by simp
      obtain d' t where IH: "FindNextUserEntry U cls skipping' ?d2 = Some d'" "core s d'" "source_at es t d'"
        "Suc i \<le> t" "t \<le> ?n" "di_direction d' = di_direction ?d2" "di_valid d' = (t < ?n)"
        "t < ?n \<longrightarrow> next_shown s es (Suc i) skipping' skip' t"
        "\<forall>k. Suc i \<le> k \<longrightarrow> k < t \<longrightarrow> \<not> next_shown s es (Suc i) skipping' skip' k"
        using Suc.hyps(1) [OF m at2 True c2 skip2] by auto
      have "\<not> next_shown s es i skipping (di_saved_key d) k" if "i \<le> k" "k < t" for k
        using that none same [of k] IH(5,9) by (cases "i = k") auto
      moreover have "t < ?n \<longrightarrow> next_shown s es i skipping (di_saved_key d) t" using IH(4,8) same [of t] by simp
      moreover have "FindNextUserEntry U cls skipping d = Some d'" using step valid True IH(1) by simp
      ultimately show ?thesis using IH by (intro exI [of _ d'] exI [of _ t]) simp
    qed
  qed
qed simp

subsection \<open>Backwards\<close>

text \<open>
  The state of the reverse scan after the entries from \<open>m\<close> to \<open>hi\<close>: the last entry was hidden,
  or the entry \<open>y\<close> is saved.
\<close>

definition hidden_between :: "u64 \<Rightarrow> event list \<Rightarrow> nat \<Rightarrow> nat \<Rightarrow> bool" where
  "hidden_between s es a b \<longleftrightarrow> (\<forall>k. a \<le> k \<longrightarrow> k < b \<longrightarrow> \<not> shown s es k)"

definition unseen_between :: "u64 \<Rightarrow> event list \<Rightarrow> nat \<Rightarrow> nat \<Rightarrow> bool" where
  "unseen_between s es a b \<longleftrightarrow> (\<forall>k. a \<le> k \<longrightarrow> k < b \<longrightarrow> \<not> visible s es k)"

definition saved_entry :: "event list \<Rightarrow> nat \<Rightarrow> 'i db_iter \<Rightarrow> bool" where
  "saved_entry es y d \<longleftrightarrow> di_saved_key d = ukey_at es y \<and> di_saved_value d = snd (es ! y)"

definition scanned :: "u64 \<Rightarrow> event list \<Rightarrow> nat \<Rightarrow> nat \<Rightarrow> ValueType \<Rightarrow> 'i db_iter \<Rightarrow> bool" where
  "scanned s es m hi vt d \<longleftrightarrow>
     vt = kTypeDeletion \<and> hidden_between s es m hi \<or>
     vt = kTypeValue \<and> (\<exists>y. m \<le> y \<and> y < hi \<and> visible s es y \<and> is_put es y \<and> saved_entry es y d \<and>
       unseen_between s es m y \<and> hidden_between s es (Suc y) hi)"

text \<open>The position of the source when entry \<open>y\<close> is shown in reverse.\<close>

definition source_before :: "u64 \<Rightarrow> event list \<Rightarrow> nat \<Rightarrow> 'i db_iter \<Rightarrow> bool" where
  "source_before s es y d \<longleftrightarrow>
     (\<exists>a < y. source_at es a d \<and> visible s es a \<and> unseen_between s es (Suc a) y) \<or>
     source_at es (length es) d \<and> unseen_between s es 0 y"

lemma hidden_step: "hidden_between s es (Suc i) b \<Longrightarrow> \<not> shown s es i \<Longrightarrow> hidden_between s es i b"
  unfolding hidden_between_def by (metis Suc_leI le_neq_implies_less)

lemma unseen_step: "unseen_between s es (Suc i) b \<Longrightarrow> \<not> visible s es i \<Longrightarrow> unseen_between s es i b"
  unfolding unseen_between_def by (metis Suc_leI le_neq_implies_less)

lemma unseen_hidden: "unseen_between s es a b \<Longrightarrow> hidden_between s es a b"
  by (simp add: unseen_between_def hidden_between_def shown_def)

lemma hidden_append: "hidden_between s es a b \<Longrightarrow> hidden_between s es b c \<Longrightarrow> hidden_between s es a c"
  unfolding hidden_between_def by (meson not_le)

lemma hidden_rank: "hidden_between s es a b \<Longrightarrow> a \<le> b \<Longrightarrow> rank_of s es b = rank_of s es a"
  by (intro rank_of_mono_eq) (auto simp: hidden_between_def)

lemma same_ukey_hidden: "visible s es i \<Longrightarrow> i < y \<Longrightarrow> ukey_at es i = ukey_at es y \<Longrightarrow> \<not> shown s es y"
  by (auto simp: shown_def)

lemma shown_first:
  assumes "visible s es y" "is_put es y" "\<And>i. i < y \<Longrightarrow> visible s es i \<Longrightarrow> ukey_at es i \<noteq> ukey_at es y"
  shows "shown s es y"
  using assms by (simp add: shown_def)

text \<open>What a visible entry does to the scan.\<close>

lemma scanned_break:
  assumes wf: "well_formed_events U uok es" and i: "i < length es" "visible s es i" and d: "source_at es i d"
    and y: "Suc i \<le> y" "y < length es" "visible s es y" "is_put es y" "unseen_between s es (Suc i) y"
    and lt: "user.lt (ukey_at es i) (ukey_at es y)"
  shows "shown s es y \<and> source_before s es y d"
proof
  show "source_before s es y d" using d y i by (auto simp: source_before_def Suc_le_eq)
  show "shown s es y"
  proof (rule shown_first [OF y(3,4)])
    fix j
    assume j: "j < y" "visible s es j"
    then have "j \<le> i" using y(5) unfolding unseen_between_def by (metis not_less_eq_eq)
    show "ukey_at es j \<noteq> ukey_at es y"
    proof
      assume eq: "ukey_at es j = ukey_at es y"
      then have "ukey_at es i = ukey_at es y" using ukeys_between [OF wf \<open>j \<le> i\<close> _ y(2) eq] y(1) by simp
      then show False using lt user.irrefl events_key(3) [OF wf y(2)] by metis
    qed
  qed
qed

lemma scanned_hides:
  assumes wf: "well_formed_events U uok es" and i: "i < length es" "visible s es i"
    and hi: "hi \<le> length es" and sc: "scanned s es (Suc i) hi vt d"
    and ge: "vt \<noteq> kTypeDeletion \<Longrightarrow> \<not> user.lt (ukey_at es i) (di_saved_key d)"
  shows "hidden_between s es (Suc i) hi"
proof (cases "vt = kTypeDeletion")
  case True
  then show ?thesis using sc by (auto simp: scanned_def kTypeDeletion_def kTypeValue_def)
next
  case False
  then obtain y where y: "Suc i \<le> y" "y < hi" "saved_entry es y d" "unseen_between s es (Suc i) y"
    "hidden_between s es (Suc y) hi" using sc by (auto simp: scanned_def)
  have "\<not> user.lt (ukey_at es i) (ukey_at es y)" using ge [OF False] y(3) by (simp add: saved_entry_def)
  moreover have "\<not> user.lt (ukey_at es y) (ukey_at es i)" using ukeys_ascend [OF wf, of i y] y hi by simp
  ultimately have "ukey_at es i = ukey_at es y"
    using user.not_lt events_key(3) [OF wf] i(1) y(2) hi by (meson order_less_le_trans)
  then have "\<not> shown s es y" using same_ukey_hidden [OF i(2), of y] y(1) by simp
  then show ?thesis using hidden_append [OF unseen_hidden [OF y(4)]] hidden_step [OF y(5)] by blast
qed

lemma prev_entry_cases:
  assumes wf: "well_formed_events U uok es" and at: "source_at es i d" "i < length es" and c: "core s d"
    and hi: "i < hi" "hi \<le> length es" and sc: "scanned s es (Suc i) hi vt d"
  obtains
    (stop) y where "prev_entry_action U cls vt True (fst (es ! i)) d = Some (True, vt, d)" "vt = kTypeValue"
      "y < hi" "shown s es y" "saved_entry es y d" "source_before s es y d" "hidden_between s es (Suc y) hi"
  | (pass) vt' k v where
      "prev_entry_action U cls vt True (fst (es ! i)) d = Some (False, vt', d\<lparr>di_saved_key := k, di_saved_value := v\<rparr>)"
      "scanned s es i hi vt' (d\<lparr>di_saved_key := k, di_saved_value := v\<rparr>)"
proof -
  let ?e = "fst (es ! i)"
  let ?less = "vt \<noteq> kTypeDeletion \<and> user.lt (user_key ?e) (di_saved_key d)"
  have ne: "kTypeValue \<noteq> kTypeDeletion" by (simp add: kTypeDeletion_def kTypeValue_def)
  have k: "ExtractUserKey (it_key cls (di_iter d)) = ukey_at es i"
    using inner.key [of "map encode_event es" i "di_iter d"] at events_key(2) [OF wf at(2)] by (simp add: source_at_def)
  have v: "it_value cls (di_iter d) = Some (snd (es ! i))"
    using inner.value_eq [of "map encode_event es" i "di_iter d"] at by (simp add: source_at_def encode_event_def)
  show thesis
  proof (cases "visible s es i")
    case False
    have "prev_entry_action U cls vt True ?e d =
        Some (False, vt, d\<lparr>di_saved_key := di_saved_key d, di_saved_value := di_saved_value d\<rparr>)"
      using False c by (simp add: prev_entry_action_def visible_def core_def)
    moreover have "scanned s es i hi vt d"
    proof -
      have "\<not> shown s es i" using False by (simp add: shown_def)
      then show ?thesis using sc hidden_step unseen_step [OF _ False] unfolding scanned_def
        by (meson Suc_leD)
    qed
    ultimately show thesis using pass [where vt' = vt and k = "di_saved_key d" and v = "di_saved_value d"] by simp
  next
    case seen: True
    then have seq: "sequence ?e \<le> di_sequence d" using c by (simp add: visible_def core_def)
    show thesis
    proof (cases ?less)
      case True
      then obtain y where y: "vt = kTypeValue" "Suc i \<le> y" "y < hi" "visible s es y" "is_put es y" "saved_entry es y d"
        "unseen_between s es (Suc i) y" "hidden_between s es (Suc y) hi" using sc by (auto simp: scanned_def)
      have "user.lt (ukey_at es i) (ukey_at es y)" using True y(6) by (simp add: ukey_at_def saved_entry_def)
      then have "shown s es y \<and> source_before s es y d"
        using scanned_break [OF wf at(2) seen at(1) y(2) _ y(4,5,7)] y(3) hi by simp
      moreover have "prev_entry_action U cls vt True ?e d = Some (True, vt, d)"
        using True seq by (simp add: prev_entry_action_def)
      ultimately show thesis using stop y by blast
    next
      case False
      then have "\<not> user.lt (ukey_at es i) (di_saved_key d)" if "vt \<noteq> kTypeDeletion" using that by (simp add: ukey_at_def)
      then have hidden: "hidden_between s es (Suc i) hi" by (rule scanned_hides [OF wf at(2) seen hi(2) sc])
      have "key_type ?e \<le> 1" using wf at(2) by (auto simp: well_formed_events_def kTypeValue_def)
      then consider "key_type ?e = kTypeDeletion" | "key_type ?e = kTypeValue"
        by (auto simp: word_le_nat_alt word_unat_eq_iff le_Suc_eq kTypeDeletion_def kTypeValue_def)
      then show thesis
      proof cases
        case 1
        have "\<not> shown s es i" using 1 ne by (simp add: shown_def is_put_def)
        then have "scanned s es i hi kTypeDeletion (d\<lparr>di_saved_key := [], di_saved_value := []\<rparr>)"
          using hidden_step [OF hidden] by (simp add: scanned_def)
        moreover have "prev_entry_action U cls vt True ?e d =
            Some (False, kTypeDeletion, d\<lparr>di_saved_key := [], di_saved_value := []\<rparr>)"
          using False seq 1 by (auto simp: prev_entry_action_def ClearSavedValue_def)
        ultimately show thesis using pass by blast
      next
        case 2
        let ?d = "d\<lparr>di_saved_key := ukey_at es i, di_saved_value := snd (es ! i)\<rparr>"
        have "scanned s es i hi kTypeValue ?d"
          using 2 seen hi(1) hidden unfolding scanned_def
          by (intro disjI2 conjI exI [of _ i]) (auto simp: is_put_def saved_entry_def unseen_between_def)
        moreover have "prev_entry_action U cls vt True ?e d = Some (False, kTypeValue, ?d)"
          using False seq 2 ne k v by (auto simp: prev_entry_action_def Let_def)
        ultimately show thesis using pass by blast
      qed
    qed
  qed
qed

definition found_prev :: "u64 \<Rightarrow> event list \<Rightarrow> nat \<Rightarrow> ValueType \<Rightarrow> 'i db_iter \<Rightarrow> bool" where
  "found_prev s es hi vt d \<longleftrightarrow>
     vt = kTypeDeletion \<and> hidden_between s es 0 hi \<and> source_at es (length es) d \<or>
     vt = kTypeValue \<and> (\<exists>y < hi. shown s es y \<and> saved_entry es y d \<and> source_before s es y d \<and> hidden_between s es (Suc y) hi)"

lemma found_at_start:
  assumes "scanned s es 0 hi vt d" "source_at es (length es) d"
  shows "found_prev s es hi vt d"
proof (cases "vt = kTypeDeletion")
  case True
  then show ?thesis using assms by (simp add: scanned_def found_prev_def kTypeDeletion_def kTypeValue_def)
next
  case False
  then obtain y where y: "vt = kTypeValue" "y < hi" "visible s es y" "is_put es y" "saved_entry es y d"
    "unseen_between s es 0 y" "hidden_between s es (Suc y) hi" using assms(1) by (auto simp: scanned_def)
  then have "shown s es y" by (auto simp: shown_def unseen_between_def)
  then show ?thesis using y assms(2) by (auto simp: found_prev_def source_before_def)
qed

lemma prev_entry_loop_eq:
  assumes wf: "well_formed_events U uok es" and hi: "hi \<le> length es"
    and "source_at es i d" "i < hi" "core s d" "scanned s es (Suc i) hi vt d"
  shows "\<exists>vt' d'. prev_entry_loop U cls vt d = Some (vt', d') \<and> core s d' \<and> di_direction d' = di_direction d \<and>
    found_prev s es hi vt' d'"
  using assms(3-)
proof (induction i arbitrary: vt d rule: less_induct)
  case (less i)
  note at = less.prems(1) and c = less.prems(3)
  have i: "i < length es" using less.prems(2) hi by simp
  obtain rnd n ks where parse:
    "ParseKey cls d = Some (True, fst (es ! i), d\<lparr>di_rnd := rnd, di_bytes_counter := n, di_samples := ks\<rparr>)" "good_seed rnd"
    by (rule ParseKey_eq [OF wf at i c])
  let ?d = "d\<lparr>di_rnd := rnd, di_bytes_counter := n, di_samples := ks\<rparr>"
  have c1: "core s ?d" using c parse(2) by (simp add: core_def)
  have at1: "source_at es i ?d" using at by (simp add: source_at_def)
  have sc: "scanned s es (Suc i) hi vt ?d" using less.prems(4) by (simp add: scanned_def saved_entry_def)
  show ?case using wf at1 i c1 less.prems(2) hi sc
  proof (cases rule: prev_entry_cases)
    case (stop y)
    have "prev_entry_loop U cls vt d = Some (vt, ?d)" by (subst prev_entry_loop.simps) (simp add: parse stop(1))
    then show ?thesis using stop c1 by (intro exI [of _ vt] exI [of _ ?d]) (auto simp: found_prev_def)
  next
    case (pass vt' k v)
    let ?j = "if i = 0 then length es else i - 1"
    obtain it where it: "it_Prev cls (di_iter d) = Some it" "R (map encode_event es) ?j it"
      using inner.prev_entry [of "map encode_event es" i "di_iter d"] at i unfolding source_at_def length_map by blast
    let ?d2 = "?d\<lparr>di_saved_key := k, di_saved_value := v, di_iter := it\<rparr>"
    have step: "prev_entry_loop U cls vt d =
        (if it_Valid cls it then prev_entry_loop U cls vt' ?d2 else Some (vt', ?d2))"
      by (subst prev_entry_loop.simps) (simp add: parse pass(1) it(1) Let_def)
    have at2: "source_at es ?j ?d2" and c2: "core s ?d2" using it(2) c1 by (simp_all add: source_at_def core_def)
    have sc2: "scanned s es i hi vt' ?d2" using pass(2) by (simp add: scanned_def saved_entry_def)
    have valid: "it_Valid cls it \<longleftrightarrow> 0 < i" using inner.valid [OF it(2)] i by auto
    show ?thesis
    proof (cases "i = 0")
      case True
      then show ?thesis using step valid c2 found_at_start [of s es hi vt' ?d2] sc2 at2
        by (intro exI [of _ vt'] exI [of _ ?d2]) simp
    next
      case False
      have "scanned s es (Suc (i - 1)) hi vt' ?d2" "source_at es (i - 1) ?d2" using sc2 at2 False by simp_all
      then obtain vt'' d' where "prev_entry_loop U cls vt' ?d2 = Some (vt'', d')" "core s d'"
        "di_direction d' = di_direction ?d2" "found_prev s es hi vt'' d'"
        using less.IH [of "i - 1", OF _ _ _ c2] False less.prems(2) by fastforce
      then show ?thesis using step valid False by (intro exI [of _ vt''] exI [of _ d']) simp
    qed
  qed
qed

text \<open>\<open>FindPrevUserEntry\<close> from entry \<open>i\<close> finds the last entry shown up to \<open>i\<close>.\<close>

definition reverse_at :: "u64 \<Rightarrow> event list \<Rightarrow> nat \<Rightarrow> 'i db_iter \<Rightarrow> bool" where
  "reverse_at s es y d \<longleftrightarrow> shown s es y \<and> saved_entry es y d \<and> source_before s es y d \<and> di_valid d \<and> di_direction d = kReverse"

lemma FindPrevUserEntry_eq:
  assumes wf: "well_formed_events U uok es" and at: "source_at es i d" "i < length es" and c: "core s d"
    and dir: "di_direction d = kReverse"
  shows "\<exists>d'. FindPrevUserEntry U cls d = Some d' \<and> core s d' \<and>
    (hidden_between s es 0 (Suc i) \<and> \<not> di_valid d' \<and> source_at es (length es) d' \<or>
     (\<exists>y \<le> i. reverse_at s es y d' \<and> hidden_between s es (Suc y) (Suc i)))"
proof -
  have "scanned s es (Suc i) (Suc i) kTypeDeletion d" by (simp add: scanned_def hidden_between_def)
  moreover have "Suc i \<le> length es" using at(2) by simp
  ultimately obtain vt d1 where loop: "prev_entry_loop U cls kTypeDeletion d = Some (vt, d1)" "core s d1"
    "di_direction d1 = kReverse" "found_prev s es (Suc i) vt d1"
    using prev_entry_loop_eq [OF wf _ at(1) lessI c] dir by metis
  have "it_Valid cls (di_iter d)" using inner.valid [of "map encode_event es" i "di_iter d"] at by (simp add: source_at_def)
  then have eq: "FindPrevUserEntry U cls d =
      (if vt = kTypeDeletion
       then Some (d1\<lparr>di_valid := False, di_saved_key := [], di_saved_value := [], di_direction := kForward\<rparr>)
       else Some (d1\<lparr>di_valid := True\<rparr>))"
    by (simp add: FindPrevUserEntry_def loop(1) ClearSavedValue_def)
  show ?thesis
  proof (cases "vt = kTypeDeletion")
    case True
    then have "hidden_between s es 0 (Suc i)" "source_at es (length es) d1"
      using loop(4) by (simp_all add: found_prev_def kTypeDeletion_def kTypeValue_def)
    then show ?thesis using eq True loop(2) by (simp add: core_def source_at_def)
  next
    case False
    then obtain y where "y < Suc i" "shown s es y" "saved_entry es y d1" "source_before s es y d1"
      "hidden_between s es (Suc y) (Suc i)" using loop(4) by (auto simp: found_prev_def)
    then show ?thesis using eq False loop(2,3)
      by (auto simp: core_def reverse_at_def saved_entry_def source_before_def source_at_def less_Suc_eq_le)
  qed
qed

lemma FindPrevUserEntry_start:
  assumes "source_at es (length es) d" "core s d"
  shows "\<exists>d'. FindPrevUserEntry U cls d = Some d' \<and> core s d' \<and> \<not> di_valid d' \<and> source_at es (length es) d'"
  using assms inner.valid [of "map encode_event es" "length es" "di_iter d"]
  by (simp add: FindPrevUserEntry_def source_at_def ClearSavedValue_def core_def)

text \<open>\<open>Prev\<close> scans back to a smaller user key.\<close>

lemma scan_back_eq:
  assumes wf: "well_formed_events U uok es" and "source_at es i d" "i \<le> y" "y < length es" "core s d"
    and "di_saved_key d = ukey_at es y" "shown s es y" "hidden_between s es i y"
  shows "\<exists>d' found. scan_back U cls d = Some (found, d') \<and> core s d' \<and> di_direction d' = di_direction d \<and>
    (found \<and> (\<exists>a < y. source_at es a d' \<and> hidden_between s es (Suc a) y) \<or>
     \<not> found \<and> \<not> di_valid d' \<and> source_at es (length es) d' \<and> hidden_between s es 0 y)"
  using assms(2-)
proof (induction i arbitrary: d)
  case 0
  then obtain it where it: "it_Prev cls (di_iter d) = Some it" "R (map encode_event es) (length es) it"
    using inner.prev_entry [of "map encode_event es" 0 "di_iter d"] by (cases es) (auto simp: source_at_def)
  then have "\<not> it_Valid cls it" using inner.valid by fastforce
  then have "scan_back U cls d = Some (False, d\<lparr>di_iter := it, di_valid := False, di_saved_key := [], di_saved_value := []\<rparr>)"
    by (subst scan_back.simps) (simp add: it(1) Let_def ClearSavedValue_def)
  then show ?case using 0 it(2) by (auto simp: core_def source_at_def)
next
  case (Suc i)
  note prems = Suc.prems
  have i: "i < length es" using prems(2,3) by simp
  obtain it where it: "it_Prev cls (di_iter d) = Some it" "R (map encode_event es) i it"
    using inner.prev_entry [of "map encode_event es" "Suc i" "di_iter d"] prems(1-3) by (auto simp: source_at_def)
  have valid: "it_Valid cls it" using inner.valid [OF it(2)] i by simp
  have key: "ExtractUserKey (it_key cls it) = ukey_at es i"
    using inner.key [OF it(2)] events_key(2) [OF wf i] i by simp
  let ?d = "d\<lparr>di_iter := it\<rparr>"
  have step: "scan_back U cls d = (if user.lt (ukey_at es i) (ukey_at es y) then Some (True, ?d) else scan_back U cls ?d)"
    by (subst scan_back.simps) (simp add: it(1) valid key prems(5) Let_def)
  have at: "source_at es i ?d" and c: "core s ?d" using it(2) prems(4) by (simp_all add: source_at_def core_def)
  show ?case
  proof (cases "user.lt (ukey_at es i) (ukey_at es y)")
    case True
    then show ?thesis using step at c prems
      by (intro exI [of _ ?d] exI [of _ True] conjI disjI1 exI [of _ i]) simp_all
  next
    case False
    have "\<not> user.lt (ukey_at es y) (ukey_at es i)" using ukeys_ascend [OF wf, of i y] prems by simp
    then have "ukey_at es i = ukey_at es y" using False user.not_lt events_key(3) [OF wf] i prems(3) by blast
    then have "\<not> shown s es i" using prems(2,6) by (auto simp: shown_def Suc_le_eq)
    then have "hidden_between s es i y" using hidden_step prems(7) by blast
    then show ?thesis using Suc.IH [of ?d] at c prems step False by simp
  qed
qed

subsection \<open>The iterator\<close>

text \<open>The database iterator at position \<open>p\<close> of the snapshot view.\<close>

definition shows_at :: "u64 \<Rightarrow> event list \<Rightarrow> nat \<Rightarrow> 'i db_iter \<Rightarrow> bool" where
  "shows_at s es p d \<longleftrightarrow>
     p = rank_of s es (length es) \<and> \<not> di_valid d \<and> (\<exists>i. source_at es i d) \<or>
     (\<exists>y < length es. shown s es y \<and> p = rank_of s es y \<and>
       (di_valid d \<and> di_direction d = kForward \<and> source_at es y d \<or> reverse_at s es y d))"

definition snapshot_cursor :: "entries \<Rightarrow> nat \<Rightarrow> 'i db_iter \<Rightarrow> bool" where
  "snapshot_cursor kvs p d \<longleftrightarrow> (\<exists>s es. well_formed_events U uok es \<and> s \<le> kMaxSequenceNumber \<and> core s d \<and>
     kvs = snapshot s es \<and> shows_at s es p d)"

lemma shows_at_source: "shows_at s es p d \<Longrightarrow> \<exists>i. source_at es i d"
  by (auto simp: shows_at_def reverse_at_def source_before_def)

text \<open>After a forward scan from \<open>i\<close>, when the scan yields what is shown.\<close>

lemma FindNext_shows:
  assumes wf: "well_formed_events U uok es" and at: "source_at es i d" "i < length es" and c: "core s d"
    and dir: "di_direction d = kForward" and skip: "skip_below s es i skipping (di_saved_key d)"
    and same: "\<And>k. i \<le> k \<Longrightarrow> k < length es \<Longrightarrow> next_shown s es i skipping (di_saved_key d) k \<longleftrightarrow> m \<le> k \<and> shown s es k"
    and m: "i \<le> m" "m \<le> length es"
  shows "\<exists>d'. FindNextUserEntry U cls skipping d = Some d' \<and> core s d' \<and> shows_at s es (rank_of s es m) d'"
proof -
  obtain d' t where d': "FindNextUserEntry U cls skipping d = Some d'" "core s d'" "source_at es t d'" "i \<le> t"
    "t \<le> length es" "di_direction d' = kForward" "di_valid d' = (t < length es)"
    "t < length es \<longrightarrow> next_shown s es i skipping (di_saved_key d) t"
    "\<forall>k. i \<le> k \<longrightarrow> k < t \<longrightarrow> \<not> next_shown s es i skipping (di_saved_key d) k"
    using FindNextUserEntry_eq [OF wf at c skip] dir by auto
  have mt: "t < length es \<Longrightarrow> m \<le> t \<and> shown s es t" using same [of t] d'(4,8) by simp
  have "\<not> shown s es k" if "m \<le> k" "k < t" for k using same [of k] d'(5,9) m(1) that by simp
  then have "rank_of s es t = rank_of s es m" using mt m(2) d'(5) by (cases "t < length es") (auto intro!: rank_of_mono_eq)
  then have "shows_at s es (rank_of s es m) d'" using mt d' by (cases "t < length es") (auto simp: shows_at_def)
  then show ?thesis using d' by blast
qed

lemma skip_past:
  assumes wf: "well_formed_events U uok es" and y: "shown s es y" "y < length es"
    and i: "i \<le> y" "unseen_between s es i y"
  shows "skip_below s es i True (ukey_at es y)"
    and "i \<le> k \<Longrightarrow> k < length es \<Longrightarrow> next_shown s es i True (ukey_at es y) k \<longleftrightarrow> Suc y \<le> k \<and> shown s es k"
proof -
  have later: "y \<le> k" if "i \<le> k" "visible s es k" for k
    using i(2) that unfolding unseen_between_def by (meson not_le)
  show "skip_below s es i True (ukey_at es y)"
    unfolding skip_below_def using ukeys_ascend [OF wf] events_key(3) [OF wf y(2)] later by blast
  assume k: "i \<le> k" "k < length es"
  note ok = events_key(3) [OF wf y(2)] events_key(3) [OF wf k(2)]
  show "next_shown s es i True (ukey_at es y) k \<longleftrightarrow> Suc y \<le> k \<and> shown s es k"
  proof
    assume next': "next_shown s es i True (ukey_at es y) k"
    then have lt: "user.lt (ukey_at es y) (ukey_at es k)" and k': "visible s es k" "is_put es k" "no_earlier s es i k"
      by (simp_all add: next_shown_def)
    have "k \<noteq> y" using lt user.irrefl [OF ok(1)] by blast
    then have "y < k" using later [OF k(1) k'(1)] by simp
    have "ukey_at es j \<noteq> ukey_at es k" if j: "j < k" "visible s es j" for j
    proof
      assume eq: "ukey_at es j = ukey_at es k"
      then have "j < i" using k'(3) j unfolding no_earlier_def by (meson not_le)
      then have "j \<le> y" "y \<le> k" using i(1) \<open>y < k\<close> by simp_all
      then have "ukey_at es y = ukey_at es k" by (rule ukeys_between [OF wf _ _ k(2) eq])
      then show False using lt user.irrefl [OF ok(2)] by metis
    qed
    then show "Suc y \<le> k \<and> shown s es k" using \<open>y < k\<close> k' by (simp add: shown_def)
  next
    assume shown_k: "Suc y \<le> k \<and> shown s es k"
    then have "ukey_at es y \<noteq> ukey_at es k" using y(1) by (simp add: shown_def)
    moreover have "\<not> user.lt (ukey_at es k) (ukey_at es y)" using ukeys_ascend [OF wf _ k(2)] shown_k by simp
    ultimately have "user.lt (ukey_at es y) (ukey_at es k)" using user.not_lt ok by metis
    then show "next_shown s es i True (ukey_at es y) k" using shown_k by (simp add: next_shown_def shown_def no_earlier_def)
  qed
qed

lemma rank_of_less: "shown s es y \<Longrightarrow> y < n \<Longrightarrow> rank_of s es y < rank_of s es n"
  using filter_upt_nth(1) [of "shown s es"] by (simp add: rank_of_def)

lemma shows_at_less:
  assumes "shows_at s es p d" "p < rank_of s es (length es)"
  obtains y where "y < length es" "shown s es y" "p = rank_of s es y"
    "di_valid d \<and> di_direction d = kForward \<and> source_at es y d \<or> reverse_at s es y d"
  using assms by (auto simp: shows_at_def)

lemma DBIter_Next_eq:
  assumes wf: "well_formed_events U uok es" and c: "core s d" and at: "shows_at s es p d"
    and p: "p < rank_of s es (length es)"
  shows "\<exists>d'. DBIter_Next U cls d = Some d' \<and> core s d' \<and> shows_at s es (p + 1) d'"
proof -
  let ?n = "length es"
  obtain y where y: "y < ?n" "shown s es y" "p = rank_of s es y"
    and pos: "di_valid d \<and> di_direction d = kForward \<and> source_at es y d \<or> reverse_at s es y d"
    using at p by (rule shows_at_less)
  have p1: "p + 1 = rank_of s es (Suc y)" using y rank_of_Suc by simp
  have scan: "\<exists>d'. FindNextUserEntry U cls True d2 = Some d' \<and> core s d' \<and> shows_at s es (p + 1) d'"
    if "source_at es i d2" "i \<le> y" "unseen_between s es i y" "core s d2" "di_direction d2 = kForward"
      "di_saved_key d2 = ukey_at es y" for i d2
    unfolding p1 using that y skip_past [OF wf y(2,1) that(2,3)]
    by (intro FindNext_shows [OF wf that(1)]) auto
  show ?thesis
  proof (cases "di_direction d = kReverse")
    case False
    then have "source_at es y d" using pos by (cases "di_direction d") (auto simp: reverse_at_def)
    moreover from this have "ExtractUserKey (it_key cls (di_iter d)) = ukey_at es y"
      using inner.key [of "map encode_event es" y "di_iter d"] y(1) events_key(2) [OF wf y(1)] by (simp add: source_at_def)
    ultimately show ?thesis
      using scan [of y "d\<lparr>di_saved_key := ukey_at es y\<rparr>"] c False
      by (cases "di_direction d") (auto simp: DBIter_Next_def source_at_def core_def unseen_between_def)
  next
    case True
    then have saved: "saved_entry es y d" and before: "source_before s es y d" using pos by (auto simp: reverse_at_def)
    have run: "\<exists>d'. DBIter_Next U cls d = Some d' \<and> core s d' \<and> shows_at s es (p + 1) d'"
      if it: "R (map encode_event es) i it" "i \<le> y" "unseen_between s es i y"
        "(if \<not> it_Valid cls (di_iter d) then it_SeekToFirst cls (di_iter d) else it_Next cls (di_iter d)) = Some it" for i it
    proof -
      have "it_Valid cls it" using inner.valid [OF it(1)] it(2) y(1) by simp
      then have "DBIter_Next U cls d = FindNextUserEntry U cls True (d\<lparr>di_direction := kForward, di_iter := it\<rparr>)"
        using it(4) True by (cases "it_Valid cls (di_iter d)") (simp_all add: DBIter_Next_def Let_def)
      then show ?thesis
        using scan [of i "d\<lparr>di_direction := kForward, di_iter := it\<rparr>"] it(1-3) saved c
        by (simp add: source_at_def core_def saved_entry_def)
    qed
    show ?thesis using before unfolding source_before_def
    proof (elim disjE exE conjE)
      fix a
      assume a: "a < y" "source_at es a d" "visible s es a" "unseen_between s es (Suc a) y"
      then have "it_Valid cls (di_iter d)" "a < length (map encode_event es)"
        using inner.valid [of "map encode_event es" a "di_iter d"] y(1) by (simp_all add: source_at_def)
      moreover from this obtain it where "it_Next cls (di_iter d) = Some it" "R (map encode_event es) (Suc a) it"
        using inner.next_entry [of "map encode_event es" a "di_iter d"] a(2) by (auto simp: source_at_def)
      ultimately show ?thesis using run [of "Suc a" it] a by simp
    next
      assume start: "source_at es ?n d" "unseen_between s es 0 y"
      then have "\<not> it_Valid cls (di_iter d)" using inner.valid [of "map encode_event es" ?n "di_iter d"] by (simp add: source_at_def)
      moreover obtain it where "it_SeekToFirst cls (di_iter d) = Some it" "R (map encode_event es) 0 it"
        using inner.first [of "map encode_event es" ?n "di_iter d"] start(1) by (auto simp: source_at_def)
      ultimately show ?thesis using run [of 0 it] start by simp
    qed
  qed
qed

lemma reverse_shows: "reverse_at s es y d \<Longrightarrow> y < length es \<Longrightarrow> shows_at s es (rank_of s es y) d"
  unfolding shows_at_def by (intro disjI2 exI [of _ y]) (simp add: reverse_at_def)

text \<open>\<open>FindPrevUserEntry\<close> from entry \<open>a\<close> when nothing after it is shown before position \<open>m\<close>.\<close>

lemma FindPrev_shows:
  assumes wf: "well_formed_events U uok es" and a: "source_at es a d" "a < m" "m \<le> length es" and c: "core s d"
    and dir: "di_direction d = kReverse" and hidden: "hidden_between s es (Suc a) m"
  shows "\<exists>d'. FindPrevUserEntry U cls d = Some d' \<and> core s d' \<and>
    shows_at s es (if rank_of s es m = 0 then rank_of s es (length es) else rank_of s es m - 1) d'"
proof -
  have an: "a < length es" using a(2,3) by simp
  obtain d' where d': "FindPrevUserEntry U cls d = Some d'" "core s d'"
    "hidden_between s es 0 (Suc a) \<and> \<not> di_valid d' \<and> source_at es (length es) d' \<or>
     (\<exists>y \<le> a. reverse_at s es y d' \<and> hidden_between s es (Suc y) (Suc a))"
    using FindPrevUserEntry_eq [OF wf a(1) an c dir] by blast
  from d'(3) show ?thesis
  proof
    assume none: "hidden_between s es 0 (Suc a) \<and> \<not> di_valid d' \<and> source_at es (length es) d'"
    then have "hidden_between s es 0 m" using hidden hidden_append by blast
    then have "rank_of s es m = 0" using hidden_rank [of s es 0 m] by (simp add: rank_of_def)
    then show ?thesis using d'(1,2) none by (auto simp: shows_at_def)
  next
    assume "\<exists>y \<le> a. reverse_at s es y d' \<and> hidden_between s es (Suc y) (Suc a)"
    then obtain y where y: "y \<le> a" "reverse_at s es y d'" "hidden_between s es (Suc y) (Suc a)" by blast
    then have "hidden_between s es (Suc y) m" using hidden hidden_append by blast
    then have "rank_of s es m = rank_of s es (Suc y)" using y(1) a(2) by (intro hidden_rank) simp_all
    also have "\<dots> = Suc (rank_of s es y)" using y(2) by (simp add: reverse_at_def rank_of_Suc)
    finally show ?thesis using d'(1,2) y(1,2) an reverse_shows by simp
  qed
qed

lemma FindPrev_first:
  assumes at: "source_at es (length es) d" and c: "core s d" and none: "rank_of s es m = 0"
  shows "\<exists>d'. FindPrevUserEntry U cls d = Some d' \<and> core s d' \<and>
    shows_at s es (if rank_of s es m = 0 then rank_of s es (length es) else rank_of s es m - 1) d'"
  using FindPrevUserEntry_start [OF at c] none by (auto simp: shows_at_def)

lemma rank_of_hidden: "hidden_between s es 0 m \<Longrightarrow> rank_of s es m = 0"
  using hidden_rank [of s es 0 m] by (simp add: rank_of_def)

lemma DBIter_Prev_eq:
  assumes wf: "well_formed_events U uok es" and c: "core s d" and at: "shows_at s es p d"
    and p: "p < rank_of s es (length es)"
  shows "\<exists>d'. DBIter_Prev U cls d = Some d' \<and> core s d' \<and>
    shows_at s es (if p = 0 then rank_of s es (length es) else p - 1) d'"
proof -
  let ?n = "length es"
  obtain y where y: "y < ?n" "shown s es y" "p = rank_of s es y"
    and pos: "di_valid d \<and> di_direction d = kForward \<and> source_at es y d \<or> reverse_at s es y d"
    using at p by (rule shows_at_less)
  note prev = FindPrev_shows [OF wf _ _ less_imp_le [OF y(1)]]
  show ?thesis
  proof (cases "di_direction d = kForward")
    case False
    then have dir: "di_direction d = kReverse" and "source_before s es y d" using pos by (auto simp: reverse_at_def)
    then consider a where "a < y" "source_at es a d" "unseen_between s es (Suc a) y"
      | "source_at es ?n d" "unseen_between s es 0 y" by (auto simp: source_before_def)
    then show ?thesis
    proof cases
      case 1
      then show ?thesis using prev [OF 1(2,1) c dir unseen_hidden] False by (cases "rank_of s es y = 0") (simp_all add: DBIter_Prev_def y(3))
    next
      case 2
      then have none: "rank_of s es y = 0" by (intro rank_of_hidden unseen_hidden)
      then show ?thesis using FindPrev_first [OF 2(1) c none] False by (simp add: DBIter_Prev_def y(3))
    qed
  next
    case True
    then have here: "source_at es y d" using pos by (auto simp: reverse_at_def)
    have key: "ExtractUserKey (it_key cls (di_iter d)) = ukey_at es y"
      using inner.key [of "map encode_event es" y "di_iter d"] y(1) events_key(2) [OF wf y(1)] here by (simp add: source_at_def)
    let ?d = "d\<lparr>di_saved_key := ukey_at es y\<rparr>"
    have "source_at es y ?d" "core s ?d" using here c by (simp_all add: source_at_def core_def)
    then obtain d1 found where scan: "scan_back U cls ?d = Some (found, d1)" "core s d1" and
      res: "found \<and> (\<exists>a < y. source_at es a d1 \<and> hidden_between s es (Suc a) y) \<or>
       \<not> found \<and> \<not> di_valid d1 \<and> source_at es ?n d1 \<and> hidden_between s es 0 y"
      using scan_back_eq [OF wf, of y ?d y s] y by (auto simp: hidden_between_def)
    have eq: "DBIter_Prev U cls d = (if \<not> found then Some d1 else FindPrevUserEntry U cls (d1\<lparr>di_direction := kReverse\<rparr>))"
      using True scan(1) by (simp add: DBIter_Prev_def key)
    from res show ?thesis
    proof (elim disjE conjE exE)
      fix a
      assume "found" "a < y" "source_at es a d1" "hidden_between s es (Suc a) y"
      then show ?thesis using prev [of a "d1\<lparr>di_direction := kReverse\<rparr>" s] scan(2) eq
        by (cases "rank_of s es y = 0") (simp_all add: core_def source_at_def y(3))
    next
      assume "\<not> found" "\<not> di_valid d1" "source_at es ?n d1" "hidden_between s es 0 y"
      moreover from this have "rank_of s es y = 0" using rank_of_hidden by simp
      ultimately show ?thesis using eq scan(2) by (auto simp: shows_at_def y(3))
    qed
  qed
qed

lemma DBIter_SeekToLast_eq:
  assumes wf: "well_formed_events U uok es" and c: "core s d" and at: "source_at es i d"
  shows "\<exists>d'. DBIter_SeekToLast U cls d = Some d' \<and> core s d' \<and> shows_at s es (rank_of s es (length es) - 1) d'"
proof -
  let ?n = "length es"
  obtain it where it: "it_SeekToLast cls (di_iter d) = Some it" "R (map encode_event es) (?n - 1) it"
    using inner.last [of "map encode_event es" i "di_iter d"] at by (auto simp: source_at_def)
  let ?d = "(ClearSavedValue (d\<lparr>di_direction := kReverse\<rparr>))\<lparr>di_iter := it\<rparr>"
  have eq: "DBIter_SeekToLast U cls d = FindPrevUserEntry U cls ?d"
    by (simp add: DBIter_SeekToLast_def ClearSavedValue_def it(1) Let_def)
  have d: "core s ?d" "source_at es (?n - 1) ?d" "di_direction ?d = kReverse"
    using c it(2) by (simp_all add: core_def source_at_def ClearSavedValue_def)
  show ?thesis
  proof (cases "?n = 0")
    case True
    then have "rank_of s es ?n = 0" by (simp add: rank_of_def)
    then show ?thesis using FindPrev_first [OF _ d(1), of es ?n] d(2) True eq by simp
  next
    case False
    then have "\<exists>d'. FindPrevUserEntry U cls ?d = Some d' \<and> core s d' \<and>
        shows_at s es (if rank_of s es ?n = 0 then rank_of s es ?n else rank_of s es ?n - 1) d'"
      by (intro FindPrev_shows [OF wf d(2) _ le_refl d(1,3)]) (simp_all add: hidden_between_def)
    then show ?thesis using eq by (cases "rank_of s es ?n = 0") simp_all
  qed
qed

lemma seek_shows:
  assumes wf: "well_formed_events U uok es" and c: "core s d" and at: "source_at es i d" "i \<le> length es"
    and dir: "di_direction d = kForward"
    and old: "\<And>j k. j < i \<Longrightarrow> visible s es j \<Longrightarrow> i \<le> k \<Longrightarrow> k < length es \<Longrightarrow> ukey_at es j \<noteq> ukey_at es k"
  shows "\<exists>d'. (if it_Valid cls (di_iter d) then FindNextUserEntry U cls False d else Some (d\<lparr>di_valid := False\<rparr>)) = Some d' \<and>
    core s d' \<and> shows_at s es (rank_of s es i) d'"
proof (cases "i < length es")
  case True
  have "it_Valid cls (di_iter d)" using inner.valid [of "map encode_event es" i "di_iter d"] at True by (simp add: source_at_def)
  moreover have "next_shown s es i False (di_saved_key d) k \<longleftrightarrow> i \<le> k \<and> shown s es k" if "i \<le> k" "k < length es" for k
    using old [OF _ _ that] that unfolding next_shown_def shown_def no_earlier_def by (metis not_le)
  then have "\<exists>d'. FindNextUserEntry U cls False d = Some d' \<and> core s d' \<and> shows_at s es (rank_of s es i) d'"
    using at(2) by (intro FindNext_shows [OF wf at(1) True c dir]) (auto simp: skip_below_def)
  ultimately show ?thesis by simp
next
  case False
  then have "\<not> it_Valid cls (di_iter d)" "i = length es"
    using inner.valid [of "map encode_event es" i "di_iter d"] at by (simp_all add: source_at_def)
  then show ?thesis using c at(1) by (auto simp: shows_at_def core_def source_at_def)
qed

lemma DBIter_SeekToFirst_eq:
  assumes wf: "well_formed_events U uok es" and c: "core s d" and at: "source_at es i d"
  shows "\<exists>d'. DBIter_SeekToFirst U cls d = Some d' \<and> core s d' \<and> shows_at s es 0 d'"
proof -
  obtain it where it: "it_SeekToFirst cls (di_iter d) = Some it" "R (map encode_event es) 0 it"
    using inner.first [of "map encode_event es" i "di_iter d"] at by (auto simp: source_at_def)
  let ?d = "(ClearSavedValue (d\<lparr>di_direction := kForward\<rparr>))\<lparr>di_iter := it\<rparr>"
  have d: "core s ?d" "source_at es 0 ?d" "di_direction ?d = kForward"
    using c it(2) by (simp_all add: core_def source_at_def ClearSavedValue_def)
  have "DBIter_SeekToFirst U cls d =
      (if it_Valid cls (di_iter ?d) then FindNextUserEntry U cls False ?d else Some (?d\<lparr>di_valid := False\<rparr>))"
    by (simp add: DBIter_SeekToFirst_def ClearSavedValue_def it(1) Let_def)
  moreover have "rank_of s es 0 = 0" by (simp add: rank_of_def)
  ultimately show ?thesis using seek_shows [OF wf d(1,2) _ d(3)] by simp
qed

text \<open>The internal key sought separates the visible entries of smaller user keys from the others.\<close>

lemma snapshot_below:
  assumes wf: "well_formed_events U uok es" and i: "i \<le> length es"
    and below: "\<And>j. j < i \<Longrightarrow> visible s es j \<Longrightarrow> user.lt (ukey_at es j) target"
    and above: "\<And>k. i \<le> k \<Longrightarrow> k < length es \<Longrightarrow> \<not> user.lt (ukey_at es k) target"
  shows "entries_below U (snapshot s es) target = rank_of s es i"
proof -
  let ?g = "\<lambda>j. (ukey_at es j, snd (es ! j))"
  have "[0..<length es] = [0..<i] @ [i..<length es]" using upt_add_eq_append [of 0 i "length es - i"] i by simp
  then have "snapshot s es = map ?g (filter (shown s es) [0..<i]) @ map ?g (filter (shown s es) [i..<length es])"
    by (simp add: snapshot_by_position [OF wf_distinct [OF wf]])
  moreover have "entries_below U (map ?g (filter (shown s es) [0..<i]) @ map ?g (filter (shown s es) [i..<length es])) target =
      length (map ?g (filter (shown s es) [0..<i]))"
    by (rule entries_below_append) (auto simp: shown_def below above)
  ultimately show ?thesis by (simp add: rank_of_def)
qed

lemma below_lookup:
  assumes wf: "well_formed_events U uok es" and j: "j < length es" and t: "uok target" and s: "s \<le> kMaxSequenceNumber"
  defines "target' \<equiv> ikey target s kValueTypeForSeek"
  shows "InternalKey_Compare U (fst (encode_event (es ! j))) target' < 0 \<longleftrightarrow>
    user.lt (ukey_at es j) target \<or> ukey_at es j = target \<and> \<not> visible s es j"
proof -
  let ?e = "fst (es ! j)"
  have e: "es ! j \<in> set es" using j by simp
  then have b: "sequence ?e \<le> kMaxSequenceNumber" "key_type ?e \<le> kTypeValue"
    using wf unfolding well_formed_events_def by blast+
  have "uok (user_key ?e)" using events_key(3) [OF wf j] by (simp add: ukey_at_def)
  then have "InternalKey_Compare U (fst (encode_event (es ! j))) target' < 0 \<longleftrightarrow>
      user.lt (user_key ?e) target \<or> user_key ?e = target \<and>
      (s < sequence ?e \<or> s = sequence ?e \<and> kValueTypeForSeek < key_type ?e)"
    using user.internal_lt [of "ikey (user_key ?e) (sequence ?e) (key_type ?e)" target'] t
    by (simp add: encode_event_def AppendInternalKey_ikey target'_def key_number_order [OF s b(1)])
  moreover have "\<not> kValueTypeForSeek < key_type ?e" using b(2) by (simp add: kValueTypeForSeek_def not_less)
  ultimately show ?thesis by (auto simp: ukey_at_def visible_def not_le)
qed

lemma DBIter_Seek_eq:
  assumes wf: "well_formed_events U uok es" and c: "core s d" and at: "source_at es i d"
    and t: "uok target" and s: "s \<le> kMaxSequenceNumber"
  shows "\<exists>d'. DBIter_Seek U cls target d = Some d' \<and> core s d' \<and> shows_at s es (entries_below U (snapshot s es) target) d'"
proof -
  let ?t = "ikey target s kValueTypeForSeek" and ?kvs = "map encode_event es"
  let ?i = "entries_below (InternalKeyComparator U) ?kvs ?t"
  have valid: "valid_ikey uok ?t" using t by simp
  have sorted: "sorted_entries (InternalKeyComparator U) (valid_ikey uok) ?kvs" using wf by (simp add: well_formed_events_def)
  obtain it where it: "it_Seek cls ?t (di_iter d) = Some it" "R ?kvs ?i it"
    using inner.seek [OF at [unfolded source_at_def] valid] by blast
  have i: "?i \<le> length es" using inner.entries_below_le [of ?kvs ?t] by simp
  have split: "j < ?i \<longleftrightarrow> user.lt (ukey_at es j) target \<or> ukey_at es j = target \<and> \<not> visible s es j" if "j < length es" for j
    using inner.entries_below_iff [OF sorted valid, of j] that below_lookup [OF wf that t s] by simp
  have below: "user.lt (ukey_at es j) target" if "j < ?i" "visible s es j" for j using split [of j] that i by auto
  have above: "\<not> user.lt (ukey_at es k) target" if "?i \<le> k" "k < length es" for k using split [of k] that by auto
  have old: "ukey_at es j \<noteq> ukey_at es k" if "j < ?i" "visible s es j" "?i \<le> k" "k < length es" for j k
    using below above that by metis
  let ?d = "(ClearSavedValue (d\<lparr>di_direction := kForward\<rparr>))\<lparr>di_saved_key := ?t, di_iter := it\<rparr>"
  have d: "core s ?d" "source_at es ?i ?d" "di_direction ?d = kForward"
    using c it(2) by (simp_all add: core_def source_at_def ClearSavedValue_def)
  have "DBIter_Seek U cls target d =
      (if it_Valid cls (di_iter ?d) then FindNextUserEntry U cls False ?d else Some (?d\<lparr>di_valid := False\<rparr>))"
    using c by (simp add: DBIter_Seek_def ClearSavedValue_def AppendInternalKey_ikey it(1) Let_def core_def)
  moreover note seek_shows [OF wf d(1,2) i d(3) old]
  moreover have "entries_below U (snapshot s es) target = rank_of s es ?i"
    by (rule snapshot_below [OF wf i below above])
  ultimately show ?thesis by simp
qed

lemma DBIter_impl: "iterator_impl U uok (db_iter_class U cls) snapshot_cursor"
proof (unfold_locales, goal_cases)
  case (1 kvs p d) then show ?case using snapshot_sorted by (auto simp: snapshot_cursor_def)
next
  case (2 kvs p d)
  then show ?case
    by (auto simp: snapshot_cursor_def shows_at_def snapshot_length [OF wf_distinct] intro!: less_imp_le [OF rank_of_less])
next
  case (3 kvs p d)
  then show ?case
    by (auto simp: snapshot_cursor_def shows_at_def reverse_at_def snapshot_length [OF wf_distinct] db_iter_class_def
        dest: rank_of_less)
next
  case (4 kvs p d)
  then obtain s es where wf: "well_formed_events U uok es" and kvs: "kvs = snapshot s es" and at: "shows_at s es p d"
    by (auto simp: snapshot_cursor_def)
  have "p < rank_of s es (length es)" using 4(2) by (simp add: kvs snapshot_length [OF wf_distinct [OF wf]])
  from at this obtain y where y: "y < length es" "shown s es y" "p = rank_of s es y"
    "di_valid d \<and> di_direction d = kForward \<and> source_at es y d \<or> reverse_at s es y d" by (rule shows_at_less)
  then show ?case
    using inner.key [of "map encode_event es" y "di_iter d"] events_key(2) [OF wf y(1)] snapshot_nth(2) [OF wf_distinct [OF wf] y(2,1)]
    by (auto simp: kvs db_iter_class_def DBIter_key_def source_at_def reverse_at_def saved_entry_def)
next
  case (5 kvs p d)
  then obtain s es where wf: "well_formed_events U uok es" and kvs: "kvs = snapshot s es" and at: "shows_at s es p d"
    by (auto simp: snapshot_cursor_def)
  have "p < rank_of s es (length es)" using 5(2) by (simp add: kvs snapshot_length [OF wf_distinct [OF wf]])
  from at this obtain y where y: "y < length es" "shown s es y" "p = rank_of s es y"
    "di_valid d \<and> di_direction d = kForward \<and> source_at es y d \<or> reverse_at s es y d" by (rule shows_at_less)
  then show ?case
    using inner.value_eq [of "map encode_event es" y "di_iter d"] snapshot_nth(2) [OF wf_distinct [OF wf] y(2,1)]
    by (auto simp: kvs db_iter_class_def DBIter_value_def source_at_def reverse_at_def saved_entry_def encode_event_def)
next
  case (6 kvs p d)
  then obtain s es where "core s d" "shows_at s es p d" by (auto simp: snapshot_cursor_def)
  then obtain i where "core s d" "source_at es i d" using shows_at_source by blast
  then show ?case using inner.status by (auto simp: db_iter_class_def DBIter_status_def core_def source_at_def)
next
  case (7 kvs p d)
  then obtain s es i where *: "well_formed_events U uok es" "s \<le> kMaxSequenceNumber" "core s d" "kvs = snapshot s es" "source_at es i d"
    using shows_at_source unfolding snapshot_cursor_def by blast
  then show ?case using DBIter_SeekToFirst_eq [OF *(1,3,5)] by (auto simp: snapshot_cursor_def db_iter_class_def)
next
  case (8 kvs p d)
  then obtain s es i where *: "well_formed_events U uok es" "s \<le> kMaxSequenceNumber" "core s d" "kvs = snapshot s es" "source_at es i d"
    using shows_at_source unfolding snapshot_cursor_def by blast
  then show ?case using DBIter_SeekToLast_eq [OF *(1,3,5)] snapshot_length [OF wf_distinct [OF *(1)]]
    by (auto simp: snapshot_cursor_def db_iter_class_def)
next
  case (9 kvs p d target)
  then obtain s es i where *: "well_formed_events U uok es" "s \<le> kMaxSequenceNumber" "core s d" "kvs = snapshot s es" "source_at es i d"
    using shows_at_source unfolding snapshot_cursor_def by blast
  then show ?case using DBIter_Seek_eq [OF *(1,3,5) 9(2) *(2)] by (auto simp: snapshot_cursor_def db_iter_class_def)
next
  case (10 kvs p d)
  then obtain s es where *: "well_formed_events U uok es" "s \<le> kMaxSequenceNumber" "core s d" "kvs = snapshot s es" "shows_at s es p d"
    by (auto simp: snapshot_cursor_def)
  have "p < rank_of s es (length es)" using 10(2) by (simp add: *(4) snapshot_length [OF wf_distinct [OF *(1)]])
  from DBIter_Next_eq [OF *(1,3,5) this] show ?case using * by (auto simp: snapshot_cursor_def db_iter_class_def)
next
  case (11 kvs p d)
  then obtain s es where *: "well_formed_events U uok es" "s \<le> kMaxSequenceNumber" "core s d" "kvs = snapshot s es" "shows_at s es p d"
    by (auto simp: snapshot_cursor_def)
  note len = snapshot_length [OF wf_distinct [OF *(1)]]
  have "p < rank_of s es (length es)" using 11(2) by (simp add: *(4) len)
  from DBIter_Prev_eq [OF *(1,3,5) this] show ?case using * unfolding snapshot_cursor_def db_iter_class_def
    by (cases "p = 0") (auto simp: len)
qed

lemma DBIter_start:
  assumes "well_formed_events U uok es" "s \<le> kMaxSequenceNumber" "R (map encode_event es) i it"
  shows "snapshot_cursor (snapshot s es) (length (snapshot s es)) (DBIter it s seed)"
proof -
  have "good_seed (Random_Next (Random seed))" by (intro good_seed_Next good_seed_Random)
  then have "core s (DBIter it s seed)" by (simp add: core_def DBIter_def RandomPeriod_eq Let_def)
  moreover have "shows_at s es (length (snapshot s es)) (DBIter it s seed)"
    using assms snapshot_length [OF wf_distinct [OF assms(1)]]
    by (auto simp: shows_at_def DBIter_def RandomPeriod_eq Let_def source_at_def)
  ultimately show ?thesis using assms unfolding snapshot_cursor_def by blast
qed

text \<open>A snapshot shows the value with the greatest sequence number, unless a deletion has it.\<close>

lemma numbers_fall:
  assumes wf: "well_formed_events U uok es" and ij: "i < j" "j < length es" "ukey_at es i = ukey_at es j"
  shows "sequence (fst (es ! j)) < sequence (fst (es ! i)) \<or>
    sequence (fst (es ! j)) = sequence (fst (es ! i)) \<and> key_type (fst (es ! j)) < key_type (fst (es ! i))"
proof -
  have i: "i < length es" using ij by simp
  have b: "sequence (fst (es ! k)) \<le> kMaxSequenceNumber" if "k < length es" for k
    using wf that nth_mem unfolding well_formed_events_def by blast
  have "InternalKey_Compare U (fst (encode_event (es ! i))) (fst (encode_event (es ! j))) < 0"
    using sorted_entries_less [of "InternalKeyComparator U" "valid_ikey uok" "map encode_event es" i j] wf ij
    by (simp add: well_formed_events_def)
  moreover have "uok (user_key (fst (es ! k)))" if "k < length es" for k
    using events_key(3) [OF wf that] by (simp add: ukey_at_def)
  ultimately have "user.lt (ukey_at es i) (ukey_at es j) \<or>
      PackSequenceAndType (sequence (fst (es ! j))) (key_type (fst (es ! j))) <
      PackSequenceAndType (sequence (fst (es ! i))) (key_type (fst (es ! i)))"
    using user.internal_lt i ij(2) by (auto simp: encode_event_def AppendInternalKey_ikey ukey_at_def)
  moreover have "\<not> user.lt (ukey_at es i) (ukey_at es j)" unfolding ij(3) by (rule user.irrefl [OF events_key(3) [OF wf ij(2)]])
  ultimately show ?thesis using key_number_order b i ij(2) by blast
qed

lemma snapshot_member:
  assumes wf: "well_formed_events U uok es"
  shows "(u, v) \<in> set (snapshot s es) \<longleftrightarrow>
    (\<exists>q. (\<lparr>user_key = u, sequence = q, key_type = kTypeValue\<rparr>, v) \<in> set es \<and> q \<le> s \<and>
      \<not> (\<exists>e\<in>set es. user_key (fst e) = u \<and> q < sequence (fst e) \<and> sequence (fst e) \<le> s))"
proof
  assume "(u, v) \<in> set (snapshot s es)"
  then obtain j where j: "j < length es" "shown s es j" "u = ukey_at es j" "v = snd (es ! j)"
    by (auto simp: snapshot_by_position [OF wf_distinct [OF wf]])
  let ?q = "sequence (fst (es ! j))"
  have "(\<lparr>user_key = u, sequence = ?q, key_type = kTypeValue\<rparr>, v) = es ! j"
    using j by (intro prod_eqI) (simp_all add: shown_def is_put_def ukey_at_def)
  then have "(\<lparr>user_key = u, sequence = ?q, key_type = kTypeValue\<rparr>, v) \<in> set es" using j(1) by simp
  moreover have "\<not> (\<exists>e\<in>set es. user_key (fst e) = u \<and> ?q < sequence (fst e) \<and> sequence (fst e) \<le> s)"
  proof
    assume "\<exists>e\<in>set es. user_key (fst e) = u \<and> ?q < sequence (fst e) \<and> sequence (fst e) \<le> s"
    then obtain k where k: "k < length es" "ukey_at es k = u" "?q < sequence (fst (es ! k))" "visible s es k"
      by (auto simp: in_set_conv_nth ukey_at_def visible_def)
    have "\<not> k < j" using j k by (auto simp: shown_def)
    moreover have "\<not> j < k" using numbers_fall [OF wf _ k(1), of j] j(3) k(2,3) by auto
    ultimately show False using k(3) by (cases "j = k") auto
  qed
  moreover have "?q \<le> s" using j(2) by (simp add: shown_def visible_def)
  ultimately show "\<exists>q. (\<lparr>user_key = u, sequence = q, key_type = kTypeValue\<rparr>, v) \<in> set es \<and> q \<le> s \<and>
      \<not> (\<exists>e\<in>set es. user_key (fst e) = u \<and> q < sequence (fst e) \<and> sequence (fst e) \<le> s)" by blast
next
  assume "\<exists>q. (\<lparr>user_key = u, sequence = q, key_type = kTypeValue\<rparr>, v) \<in> set es \<and> q \<le> s \<and>
      \<not> (\<exists>e\<in>set es. user_key (fst e) = u \<and> q < sequence (fst e) \<and> sequence (fst e) \<le> s)"
  then obtain q j where j: "j < length es" "es ! j = (\<lparr>user_key = u, sequence = q, key_type = kTypeValue\<rparr>, v)" "q \<le> s"
    and new: "\<not> (\<exists>e\<in>set es. user_key (fst e) = u \<and> q < sequence (fst e) \<and> sequence (fst e) \<le> s)"
    by (auto simp: in_set_conv_nth)
  have "ukey_at es i \<noteq> ukey_at es j" if i: "i < j" "visible s es i" for i
  proof
    assume "ukey_at es i = ukey_at es j"
    then have "q < sequence (fst (es ! i)) \<or> key_type (fst (es ! i)) > kTypeValue"
      using numbers_fall [OF wf i(1) j(1)] j(2) by auto
    moreover have "es ! i \<in> set es" "user_key (fst (es ! i)) = u" "sequence (fst (es ! i)) \<le> s"
      using i j \<open>ukey_at es i = ukey_at es j\<close> by (auto simp: ukey_at_def visible_def)
    moreover have "key_type (fst (es ! i)) \<le> kTypeValue" using wf calculation(2) unfolding well_formed_events_def by blast
    ultimately show False using new by (auto simp: not_less)
  qed
  then have "shown s es j" using j by (simp add: shown_def visible_def is_put_def)
  then show "(u, v) \<in> set (snapshot s es)"
    using j by (auto simp: snapshot_by_position [OF wf_distinct [OF wf]] ukey_at_def intro!: image_eqI [of _ _ j])
qed

end

interpretation db: db_source BytewiseComparator "\<lambda>_. True"
  "merging_class (InternalKeyComparator BytewiseComparator) (block_iter_class (InternalKeyComparator BytewiseComparator))"
  internal_block.merged
  by (intro db_source.intro bytewise.comparator_axioms internal_block.merging_impl)

interpretation db_iter: iterator_impl BytewiseComparator "\<lambda>_. True"
  "db_iter_class BytewiseComparator
     (merging_class (InternalKeyComparator BytewiseComparator) (block_iter_class (InternalKeyComparator BytewiseComparator)))"
  db.snapshot_cursor
  by (rule db.DBIter_impl)

section \<open>Properties\<close>

text \<open>
  C34. A database iterator at sequence number \<open>s\<close> over the merged blocks of a database behaves as
  a cursor into the view of the snapshot, for every sequence of operations and whatever the
  changes of direction; the view holds a user key with a value exactly if the newest entry of the
  key that is not later than \<open>s\<close> is that value.
\<close>

theorem db_iterator_shows_snapshot:
  assumes "comparator U uok" and "1 \<le> block_restart_interval" and "2 \<le> length ess"
    and "\<forall>es\<in>set ess. well_formed_events U uok es \<and> (\<forall>e\<in>set es. length (user_key (fst e)) + 8 < 2 ^ 32 \<and> length (snd e) < 2 ^ 32) \<and>
      length (build_block block_restart_interval (map encode_event es)) < 2 ^ 32"
    and "well_formed_events U uok es" and "mset es = mset (concat ess)" and "s \<le> kMaxSequenceNumber"
    and "\<forall>op\<in>set ops. \<forall>k. op = Seek k \<longrightarrow> uok k"
  defines "IC \<equiv> InternalKeyComparator U"
  shows "(\<exists>its m. map (\<lambda>es. Block_NewIterator (Block u (build_block block_restart_interval (map encode_event es)))) ess = map Inr its \<and>
      NewMergingIterator (block_iter_class IC) its = Inr (Inr m) \<and>
      iterator_run (db_iter_class U (merging_class IC (block_iter_class IC))) ops (DBIter m s seed) =
        Some (cursor_run U (snapshot s es) ops (length (snapshot s es)))) \<and>
    (\<forall>k v. (k, v) \<in> set (snapshot s es) \<longleftrightarrow>
      (\<exists>q. (\<lparr>user_key = k, sequence = q, key_type = kTypeValue\<rparr>, v) \<in> set es \<and> q \<le> s \<and>
        \<not> (\<exists>e\<in>set es. user_key (fst e) = k \<and> q < sequence (fst e) \<and> sequence (fst e) \<le> s)))"
proof -
  have cmp: "comparator IC (valid_ikey uok)" unfolding IC_def by (rule comparator.internal_comparator [OF assms(1)])
  note block = comparator.block_iter_impl [OF cmp]
  have "\<exists>it. Block_NewIterator (Block u (build_block block_restart_interval (map encode_event es))) = Inr it \<and>
      comparator.block_cursor IC (valid_ikey uok) (map encode_event es) (length es) it" if "es \<in> set ess" for es
    using comparator.open_built_block [OF cmp assms(2), of "map encode_event es" u] bspec [OF assms(4) that]
    by (auto simp: IC_def well_formed_events_def encode_event_def AppendInternalKey_ikey)
  then obtain f where f: "\<And>es. es \<in> set ess \<Longrightarrow>
      Block_NewIterator (Block u (build_block block_restart_interval (map encode_event es))) = Inr (f es) \<and>
      comparator.block_cursor IC (valid_ikey uok) (map encode_event es) (length es) (f es)" by metis
  let ?m = "MergingIterator (block_iter_class IC) (map f ess)"
  let ?merged = "iterator_impl.merged IC (valid_ikey uok) (comparator.block_cursor IC (valid_ikey uok))"
  have "mset (map encode_event es) = mset (concat (map (map encode_event) ess))"
    by (simp add: assms(6) mset_map map_concat [symmetric])
  then have merged: "?merged (map encode_event es) (length (map encode_event es)) ?m"
    using assms(5) f nth_mem
    by (intro iterator_impl.MergingIterator_merged [OF block, where kss = "map (map encode_event) ess"])
      (auto simp: merge_of_def well_formed_events_def IC_def)
  have db: "db_source U uok (merging_class IC (block_iter_class IC)) ?merged"
    unfolding IC_def by (intro db_source.intro assms(1) iterator_impl.merging_impl [OF block [unfolded IC_def]])
  have "iterator_run (db_iter_class U (merging_class IC (block_iter_class IC))) ops (DBIter ?m s seed) =
      Some (cursor_run U (snapshot s es) ops (length (snapshot s es)))"
    by (rule iterator_impl.run_refines [OF db_source.DBIter_impl [OF db] db_source.DBIter_start [OF db assms(5,7) merged] assms(8)])
  moreover have "NewMergingIterator (block_iter_class IC) (map f ess) = Inr (Inr ?m)"
    using assms(3) by (cases ess) (auto simp: NewMergingIterator_def)
  ultimately show ?thesis using f db_source.snapshot_member [OF db assms(5)]
    by (intro conjI exI [of _ "map f ess"] exI [of _ ?m]) (auto simp del: iterator_run.simps cursor_run.simps)
qed

theorem db_iterator_shows_snapshot_witness:
  "\<exists>its m. map (\<lambda>es. Block_NewIterator (Block 0 (build_block 16 (map encode_event es))))
      [[(\<lparr>user_key = [1], sequence = 5, key_type = 1\<rparr>, [50]), (\<lparr>user_key = [2], sequence = 7, key_type = 0\<rparr>, [])],
       [(\<lparr>user_key = [1], sequence = 9, key_type = 1\<rparr>, [90]), (\<lparr>user_key = [2], sequence = 3, key_type = 1\<rparr>, [30]),
        (\<lparr>user_key = [3], sequence = 4, key_type = 1\<rparr>, [40])]] = map Inr its \<and>
    NewMergingIterator (block_iter_class (InternalKeyComparator BytewiseComparator)) its = Inr (Inr m) \<and>
    iterator_run (db_iter_class BytewiseComparator (merging_class (InternalKeyComparator BytewiseComparator)
        (block_iter_class (InternalKeyComparator BytewiseComparator)))) [SeekToFirst, Next, Prev, Seek [2]] (DBIter m 8 301) =
      Some [(Some ([1], Some [50]), Status_OK), (Some ([3], Some [40]), Status_OK),
        (Some ([1], Some [50]), Status_OK), (Some ([3], Some [40]), Status_OK)]"
proof -
  let ?a5 = "(\<lparr>user_key = [1], sequence = 5, key_type = 1\<rparr>, [50]) :: event"
  let ?b7 = "(\<lparr>user_key = [2], sequence = 7, key_type = 0\<rparr>, []) :: event"
  let ?a9 = "(\<lparr>user_key = [1], sequence = 9, key_type = 1\<rparr>, [90]) :: event"
  let ?b3 = "(\<lparr>user_key = [2], sequence = 3, key_type = 1\<rparr>, [30]) :: event"
  let ?c4 = "(\<lparr>user_key = [3], sequence = 4, key_type = 1\<rparr>, [40]) :: event"
  let ?ess = "[[?a5, ?b7], [?a9, ?b3, ?c4]]" and ?es = "[?a9, ?a5, ?b7, ?b3, ?c4]"
  have kmax: "kMaxSequenceNumber = 72057594037927935" by (simp add: kMaxSequenceNumber_def push_bit_eq_mult)
  note build = build_block_def add_all_def BlockBuilder_def BlockBuilder_Add_def BlockBuilder_Finish_def Let_def
    shared_loop.simps PutVarint32_def PutFixed32_def EncodeVarint32_def
  note wf = well_formed_events_def sorted_entries_def encode_event_def AppendInternalKey_ikey kTypeValue_def
  have "Compare (InternalKeyComparator BytewiseComparator) (ikey u s t) (ikey u' s' t') < 0 \<longleftrightarrow>
      u < u' \<or> u = u' \<and> (s' < s \<or> s' = s \<and> t' < t)"
    if "s \<le> kMaxSequenceNumber" "s' \<le> kMaxSequenceNumber" for u u' s s' t t' using ikey_less [OF that] by simp
  then have ok: "well_formed_events BytewiseComparator (\<lambda>_. True) es" if "es \<in> {[?a5, ?b7], [?a9, ?b3, ?c4], ?es}" for es
    using that by (elim insertE emptyE) (simp_all add: wf kmax)
  have "length (build_block 16 (map encode_event [?a5, ?b7])) < 2 ^ 32"
    "length (build_block 16 (map encode_event [?a9, ?b3, ?c4])) < 2 ^ 32"
    by (simp_all add: build encode_event_def AppendInternalKey_ikey ikey_def)
  then have "\<forall>es\<in>set ?ess. well_formed_events BytewiseComparator (\<lambda>_. True) es \<and>
      (\<forall>e\<in>set es. length (user_key (fst e)) + 8 < 2 ^ 32 \<and> length (snd e) < 2 ^ 32) \<and>
      length (build_block 16 (map encode_event es)) < 2 ^ 32" using ok by simp
  moreover have "well_formed_events BytewiseComparator (\<lambda>_. True) ?es" by (rule ok) simp
  moreover have "snapshot 8 ?es = [([1], [50]), ([3], [40])]" by code_simp
  ultimately show ?thesis
    using db_iterator_shows_snapshot [OF bytewise.comparator_axioms, of 16 ?ess ?es 8 "[SeekToFirst, Next, Prev, Seek [2]]" 0 301]
    by (simp add: kmax cursor_observe_def entries_below_def Let_def del: iterator_run.simps)
qed

end
