(* ===== verification/Ldb_Format.thy ===== *)
theory Ldb_Format
  imports Ldb_Block
begin

text \<open>
  The file format of tables (\<open>table/format.cc\<close>): handles of blocks, the footer, and reading a
  block with its checksum; and the random-access files of \<open>util/env_posix.cc\<close> below it.
\<close>

section \<open>Definitions\<close>

subsection \<open>Files\<close>

text \<open>
  The virtual function \<open>RandomAccessFile::Read\<close> on an offset and a size: the status, the bytes,
  and whether they are in the scratch buffer; \<open>None\<close> is a slice outside the memory of the file.
\<close>

type_synonym random_access_file = "u64 \<Rightarrow> size_t \<Rightarrow> (Status \<times> bytes \<times> bool) option"

text \<open>
  \<open>PosixRandomAccessFile\<close> over the bytes of the file; without a descriptor of its own it opens the
  file for every read. The outcome of the system calls is part of the state.
\<close>

record posix_random_access =
  ra_data :: bytes
  ra_temporary_fd :: bool
  ra_open_ok :: bool
  ra_pread_ok :: bool

definition pread :: "posix_random_access \<Rightarrow> size_t \<Rightarrow> u64 \<Rightarrow> bytes option" where
  "pread f n off =
     (if \<not> ra_pread_ok f \<or> unat off \<ge> 2 ^ 63 then None else Some (take (unat n) (drop (unat off) (ra_data f))))"

definition PosixRandomAccessFile_Read :: "posix_random_access \<Rightarrow> random_access_file" where
  "PosixRandomAccessFile_Read f off n =
     (if ra_temporary_fd f \<and> \<not> ra_open_ok f then Some (IOError ''open'', [], False)
      else case pread f n off of
          None \<Rightarrow> Some (IOError ''pread'', [], True)
        | Some r \<Rightarrow> Some (Status_OK, r, True))"

text \<open>
  \<open>PosixMmapReadableFile\<close> returns a slice of the mapping. When \<open>offset + n\<close> wraps around, the check passes
  and the slice lies outside the mapping.
\<close>

definition PosixMmapReadableFile_Read :: "bytes \<Rightarrow> random_access_file" where
  "PosixMmapReadableFile_Read mmapped_region off n =
     (if off + n > of_nat (length mmapped_region) then Some (IOError ''Invalid argument'', [], False)
      else if unat off + unat n > length mmapped_region then None
      else Some (Status_OK, take (unat n) (drop (unat off) mmapped_region), False))"

subsection \<open>Handles and the footer\<close>

record block_handle =
  bh_offset :: u64
  bh_size :: u64

definition BlockHandle :: block_handle where
  "BlockHandle = \<lparr>bh_offset = NOT 0, bh_size = NOT 0\<rparr>"

definition BlockHandle_EncodeTo :: "block_handle \<Rightarrow> bytes \<Rightarrow> bytes" where
  "BlockHandle_EncodeTo h dst = PutVarint64 (PutVarint64 dst (bh_offset h)) (bh_size h)"

definition BlockHandle_DecodeFrom :: "block_handle \<Rightarrow> bytes \<Rightarrow> Status \<times> block_handle \<times> bytes" where
  "BlockHandle_DecodeFrom h input =
     (case GetVarint64 input of
        (None, input) \<Rightarrow> (Corruption ''bad block handle'', h, input)
      | (Some off, input) \<Rightarrow>
          (case GetVarint64 input of
             (None, input) \<Rightarrow> (Corruption ''bad block handle'', h\<lparr>bh_offset := off\<rparr>, input)
           | (Some sz, input) \<Rightarrow> (Status_OK, h\<lparr>bh_offset := off, bh_size := sz\<rparr>, input)))"

definition kMaxEncodedLength :: nat where "kMaxEncodedLength = 10 + 10"
definition kEncodedLength :: nat where "kEncodedLength = 2 * kMaxEncodedLength + 8"
definition kTableMagicNumber :: u64 where "kTableMagicNumber = 0xdb4775248b80fb57"
definition kBlockTrailerSize :: size_t where "kBlockTrailerSize = 5"

record footer =
  ft_metaindex_handle :: block_handle
  ft_index_handle :: block_handle

definition Footer :: footer where
  "Footer = \<lparr>ft_metaindex_handle = BlockHandle, ft_index_handle = BlockHandle\<rparr>"

text \<open>\<open>std::string::resize\<close>.\<close>

definition resize :: "nat \<Rightarrow> bytes \<Rightarrow> bytes" where
  "resize n s = take n s @ replicate (n - length s) 0"

definition Footer_EncodeTo :: "footer \<Rightarrow> bytes \<Rightarrow> bytes" where
  "Footer_EncodeTo f dst =
     (let dst = BlockHandle_EncodeTo (ft_metaindex_handle f) dst;
          dst = BlockHandle_EncodeTo (ft_index_handle f) dst;
          dst = resize (2 * kMaxEncodedLength) dst;
          dst = PutFixed32 dst (ucast (kTableMagicNumber AND 0xffffffff))
      in PutFixed32 dst (ucast (drop_bit 32 kTableMagicNumber)))"

text \<open>The magic number is read from the end of 48 bytes; \<open>None\<close> when the input is shorter.\<close>

definition Footer_DecodeFrom :: "footer \<Rightarrow> bytes \<Rightarrow> (Status \<times> footer \<times> bytes) option" where
  "Footer_DecodeFrom f input =
     (if length input < kEncodedLength then None
      else Some (
        let magic_ptr = drop (kEncodedLength - 8) input;
            magic_lo = DecodeFixed32 magic_ptr;
            magic_hi = DecodeFixed32 (drop 4 magic_ptr);
            magic = push_bit 32 (ucast magic_hi) OR ucast magic_lo
        in if magic \<noteq> kTableMagicNumber then (Corruption ''not an sstable (bad magic number)'', f, input)
           else
             let (result, h, rest) = BlockHandle_DecodeFrom (ft_metaindex_handle f) input;
                 f = f\<lparr>ft_metaindex_handle := h\<rparr>
             in if \<not> status_ok result then (result, f, rest)
                else
                  let (result, h, rest) = BlockHandle_DecodeFrom (ft_index_handle f) rest;
                      f = f\<lparr>ft_index_handle := h\<rparr>
                  in if \<not> status_ok result then (result, f, rest)
                     else (result, f, drop kEncodedLength input)))"

subsection \<open>Reading a block\<close>

definition kNoCompression :: u8 where "kNoCompression = 0"
definition kSnappyCompression :: u8 where "kSnappyCompression = 1"

text \<open>
  The Snappy library, when the build has it: the compressor, the length of the original that a
  compressed string states, and the decompressor into a buffer.
\<close>

record snappy_library =
  RawCompress :: "bytes \<Rightarrow> bytes"
  GetUncompressedLength :: "bytes \<Rightarrow> nat option"
  RawUncompress :: "bytes \<Rightarrow> bytes option"

definition Snappy_Compress :: "snappy_library option \<Rightarrow> bytes \<Rightarrow> bytes option" where
  "Snappy_Compress lib input = map_option (\<lambda>l. RawCompress l input) lib"

definition Snappy_GetUncompressedLength :: "snappy_library option \<Rightarrow> bytes \<Rightarrow> nat option" where
  "Snappy_GetUncompressedLength lib input = Option.bind lib (\<lambda>l. GetUncompressedLength l input)"

definition Snappy_Uncompress :: "snappy_library option \<Rightarrow> bytes \<Rightarrow> bytes option" where
  "Snappy_Uncompress lib input = Option.bind lib (\<lambda>l. RawUncompress l input)"

record read_options =
  ro_verify_checksums :: bool
  ro_fill_cache :: bool

definition ReadOptions :: read_options where
  "ReadOptions = \<lparr>ro_verify_checksums = False, ro_fill_cache = True\<rparr>"

record block_contents =
  bc_data :: bytes
  bc_cachable :: bool
  bc_heap_allocated :: bool

definition checksum_matches :: "size_t \<Rightarrow> bytes \<Rightarrow> bool" where
  "checksum_matches n data =
     (let crc = Unmask (DecodeFixed32 (drop (unat n + 1) data));
          actual = Value 0 (take (unat n + 1) data)
      in actual = crc)"

text \<open>
  \<open>n + kBlockTrailerSize\<close> is computed in \<open>size_t\<close>. \<open>None\<close> is a read outside the bytes that the file
  returned.
\<close>

definition ReadBlock ::
    "snappy_library option \<Rightarrow> random_access_file \<Rightarrow> read_options \<Rightarrow> block_handle \<Rightarrow> (Status \<times> block_contents) option" where
  "ReadBlock lib file options handle =
     (let result = \<lparr>bc_data = [], bc_cachable = False, bc_heap_allocated = False\<rparr>;
          n = bh_size handle
      in do {
         (s, data, in_buf) \<leftarrow> file (bh_offset handle) (n + kBlockTrailerSize);
         if \<not> status_ok s then Some (s, result)
         else if (of_nat (length data) :: size_t) \<noteq> n + kBlockTrailerSize then Some (Corruption ''truncated block read'', result)
         else if ro_verify_checksums options \<and> length data < unat n + 5 then None
         else if ro_verify_checksums options \<and> \<not> checksum_matches n data then Some (Corruption ''block checksum mismatch'', result)
         else if length data \<le> unat n then None
         else if data ! unat n = kNoCompression then
           (if \<not> in_buf then Some (Status_OK, result\<lparr>bc_data := take (unat n) data, bc_heap_allocated := False, bc_cachable := False\<rparr>)
            else Some (Status_OK, result\<lparr>bc_data := take (unat n) data, bc_heap_allocated := True, bc_cachable := True\<rparr>))
         else if data ! unat n = kSnappyCompression then
           (case Snappy_GetUncompressedLength lib (take (unat n) data) of
              None \<Rightarrow> Some (Corruption ''corrupted compressed block contents'', result)
            | Some ulength \<Rightarrow>
                (case Snappy_Uncompress lib (take (unat n) data) of
                   None \<Rightarrow> Some (Corruption ''corrupted compressed block contents'', result)
                 | Some ubuf \<Rightarrow>
                     Some (Status_OK, result\<lparr>bc_data := take ulength ubuf, bc_heap_allocated := True, bc_cachable := True\<rparr>)))
         else Some (Corruption ''bad block type'', result)
      })"

section \<open>What a file promises\<close>

locale random_access =
  fixes read_at :: random_access_file and content :: bytes
  assumes read: "unat off + unat n \<le> length content \<Longrightarrow> unat off + unat n < 2 ^ 63 \<Longrightarrow>
    \<exists>in_buf. read_at off n = Some (Status_OK, take (unat n) (drop (unat off) content), in_buf)"

interpretation posix_file: random_access
    "PosixRandomAccessFile_Read \<lparr>ra_data = content, ra_temporary_fd = t, ra_open_ok = True, ra_pread_ok = True\<rparr>" content
  for content t
  by unfold_locales (auto simp: PosixRandomAccessFile_Read_def pread_def)

lemma posix_mmap:
  assumes "length region < 2 ^ 64"
  shows "random_access (PosixMmapReadableFile_Read region) region"
proof
  fix off n :: u64
  assume "unat off + unat n \<le> length region" "unat off + unat n < 2 ^ 63"
  then have "\<not> off + n > of_nat (length region)"
    using assms by (simp add: word_less_nat_alt unat_word_ariths unat_of_nat_eq not_less)
  then show "\<exists>in_buf. PosixMmapReadableFile_Read region off n = Some (Status_OK, take (unat n) (drop (unat off) region), in_buf)"
    using \<open>unat off + unat n \<le> length region\<close>
    by (intro exI [of _ False]) (simp add: PosixMmapReadableFile_Read_def)
qed

section \<open>Round trips\<close>

lemma BlockHandle_Encode_append: "BlockHandle_EncodeTo h dst = dst @ BlockHandle_EncodeTo h []"
  by (simp add: BlockHandle_EncodeTo_def PutVarint64_def)

lemma BlockHandle_Decode_Encode [simp]:
  "BlockHandle_DecodeFrom h' (BlockHandle_EncodeTo h [] @ rest) = (Status_OK, h, rest)"
  by (simp add: BlockHandle_DecodeFrom_def BlockHandle_EncodeTo_def PutVarint64_def GetVarint64_Encode)

lemma BlockHandle_Encode_length: "length (BlockHandle_EncodeTo h []) \<le> 20"
  using varint_bytes_length_u64 [of "bh_offset h"] varint_bytes_length_u64 [of "bh_size h"]
  by (simp add: BlockHandle_EncodeTo_def PutVarint64_def EncodeVarint64_bytes)

lemma BlockHandle_Encode_inj:
  assumes "BlockHandle_EncodeTo h [] = BlockHandle_EncodeTo h' []"
  shows "h = h'"
  using BlockHandle_Decode_Encode [of BlockHandle h "[]"] BlockHandle_Decode_Encode [of BlockHandle h' "[]"] assms by simp

lemma Footer_length: "length (Footer_EncodeTo f []) = 48"
  by (simp add: Footer_EncodeTo_def Let_def resize_def kMaxEncodedLength_def PutFixed32_def EncodeFixed32_le)

lemma Footer_roundtrip: "Footer_DecodeFrom f' (Footer_EncodeTo f [] @ rest) = Some (Status_OK, f, rest)"
proof -
  let ?m = "BlockHandle_EncodeTo (ft_metaindex_handle f) []" and ?i = "BlockHandle_EncodeTo (ft_index_handle f) []"
  let ?pad = "replicate (40 - length (?m @ ?i)) 0 :: bytes"
  have len: "length (?m @ ?i) \<le> 40"
    using BlockHandle_Encode_length [of "ft_metaindex_handle f"] BlockHandle_Encode_length [of "ft_index_handle f"] by simp
  let ?lo = "ucast (kTableMagicNumber AND 0xffffffff) :: u32" and ?hi = "ucast (drop_bit 32 kTableMagicNumber) :: u32"
  have enc: "Footer_EncodeTo f [] = (?m @ ?i @ ?pad) @ EncodeFixed32 ?lo @ EncodeFixed32 ?hi"
    using len BlockHandle_Encode_append [of "ft_index_handle f" ?m]
    by (simp add: Footer_EncodeTo_def Let_def resize_def kMaxEncodedLength_def PutFixed32_def)
  have "length (?m @ ?i @ ?pad) = 40" using len by simp
  then have drops: "drop 40 (Footer_EncodeTo f [] @ rest) = EncodeFixed32 ?lo @ EncodeFixed32 ?hi @ rest"
    "drop 44 (Footer_EncodeTo f [] @ rest) = EncodeFixed32 ?hi @ rest" "drop 48 (Footer_EncodeTo f [] @ rest) = rest"
    unfolding enc by (simp_all add: EncodeFixed32_le)
  have split: "Footer_EncodeTo f [] @ rest = ?m @ ?i @ ?pad @ EncodeFixed32 ?lo @ EncodeFixed32 ?hi @ rest"
    unfolding enc by simp
  obtain E where E: "E = Footer_EncodeTo f [] @ rest" by simp
  have magic: "push_bit 32 (ucast (DecodeFixed32 (drop 44 E))) OR ucast (DecodeFixed32 (drop 40 E)) = kTableMagicNumber"
    unfolding E drops EncodeFixed32_le DecodeFixed32_Encode by (simp add: kTableMagicNumber_def)
  have meta: "BlockHandle_DecodeFrom (ft_metaindex_handle f') E =
      (Status_OK, ft_metaindex_handle f, ?i @ ?pad @ EncodeFixed32 ?lo @ EncodeFixed32 ?hi @ rest)"
    unfolding E split by (rule BlockHandle_Decode_Encode)
  have "48 \<le> length E" "drop 48 E = rest" using Footer_length [of f] drops(3) unfolding E by simp_all
  then have "Footer_DecodeFrom f' E = Some (Status_OK, f, rest)"
    using magic meta by (simp add: Footer_DecodeFrom_def Let_def kEncodedLength_def kMaxEncodedLength_def add.commute)
  then show ?thesis unfolding E .
qed

section \<open>A stored block\<close>

text \<open>A block in a file: its bytes, the type and the masked checksum of both.\<close>

definition stored :: "bytes \<Rightarrow> bytes" where
  "stored raw = raw @ [kNoCompression] @ EncodeFixed32 (Mask (Value 0 (raw @ [kNoCompression])))"

definition stored_at :: "bytes \<Rightarrow> block_handle \<Rightarrow> bytes \<Rightarrow> bool" where
  "stored_at content h raw \<longleftrightarrow> (\<exists>before after. content = before @ stored raw @ after \<and>
     bh_offset h = of_nat (length before) \<and> bh_size h = of_nat (length raw))"

lemma length_stored [simp]: "length (stored raw) = length raw + 5"
  by (simp add: stored_def EncodeFixed32_le)

lemma stored_at_append: "stored_at content h raw \<Longrightarrow> stored_at (content @ suffix) h raw"
  unfolding stored_at_def by (metis append.assoc)

lemma stored_at_offset:
  assumes "stored_at content h raw" "length content < 2 ^ 63"
  shows "unat (bh_offset h) + unat (bh_size h) + 5 \<le> length content" "unat (bh_size h) = length raw"
proof -
  obtain before after where c: "content = before @ stored raw @ after"
    "bh_offset h = of_nat (length before)" "bh_size h = of_nat (length raw)" using assms(1) by (auto simp: stored_at_def)
  have "length before < 2 ^ 64" "length raw < 2 ^ 64" using assms(2) unfolding c(1) by simp_all
  then show "unat (bh_offset h) + unat (bh_size h) + 5 \<le> length content" "unat (bh_size h) = length raw"
    using c by (simp_all add: unat_of_nat_eq)
qed

context random_access
begin

lemma ReadBlock_stored:
  assumes "stored_at content h raw" "length content < 2 ^ 63"
  shows "\<exists>r. ReadBlock lib read_at opts h = Some (Status_OK, r) \<and> bc_data r = raw"
proof -
  let ?n = "bh_size h" and ?data = "stored raw"
  obtain before after where c: "content = before @ stored raw @ after" "bh_offset h = of_nat (length before)"
    using assms(1) by (auto simp: stored_at_def)
  note bound = stored_at_offset [OF assms]
  have off: "unat (bh_offset h) = length before" using assms(2) c by (simp add: unat_of_nat_eq)
  have n5: "unat (?n + kBlockTrailerSize) = length raw + 5"
    using bound assms(2) by (simp add: kBlockTrailerSize_def unat_word_ariths)
  obtain in_buf where read: "read_at (bh_offset h) (?n + kBlockTrailerSize) = Some (Status_OK, ?data, in_buf)"
    using read [of "bh_offset h" "?n + kBlockTrailerSize"] bound assms(2) off n5 c(1) by auto
  have len: "(of_nat (length ?data) :: size_t) = ?n + kBlockTrailerSize"
    unfolding length_stored n5 [symmetric] by simp
  have n: "unat ?n = length raw" by (rule bound(2))
  have ty: "?data ! length raw = kNoCompression" by (simp add: stored_def)
  have "checksum_matches ?n ?data"
    using DecodeFixed32_Encode [of "Mask (Value 0 (raw @ [kNoCompression]))" "[]"]
    by (simp add: checksum_matches_def n stored_def EncodeFixed32_le Mask_inverse)
  then show ?thesis
    unfolding ReadBlock_def Let_def read using n ty len by (simp add: stored_def EncodeFixed32_le)
qed

end

end
