(* ===== verification/Ldb_Filter.thy ===== *)
theory Ldb_Filter
  imports Ldb_Block
begin

text \<open>
  Filters of leveldb: the hash (\<open>util/hash.cc\<close>), the Bloom filter policy (\<open>util/bloom.cc\<close>),
  the policy for internal keys (\<open>db/dbformat.cc\<close>) and the filter block of a table
  (\<open>table/filter_block.cc\<close>). What a policy promises is the locale \<open>filter_policy\<close>: a key that
  was added is never reported as absent.
\<close>

section \<open>Definitions\<close>

subsection \<open>The hash\<close>

text \<open>The loop that takes four bytes at a time; it returns the bytes left.\<close>

fun hash_words :: "bytes \<Rightarrow> u32 \<Rightarrow> bytes \<times> u32" where
  "hash_words (a # b # c # d # data) h =
     (let w = DecodeFixed32 [a, b, c, d];
          h = (h + w) * 0xc6a4a793;
          h = h XOR drop_bit 16 h
      in hash_words data h)"
| "hash_words data h = (data, h)"

definition Hash :: "bytes \<Rightarrow> u32 \<Rightarrow> u32" where
  "Hash data seed =
     (let h = seed XOR (of_nat (length data) * 0xc6a4a793);
          (rest, h) = hash_words data h;
          h = (if length rest = 3 then h + push_bit 16 (ucast (rest ! 2)) else h);
          h = (if length rest \<ge> 2 then h + push_bit 8 (ucast (rest ! 1)) else h)
      in if length rest \<ge> 1
         then let h = (h + ucast (rest ! 0)) * 0xc6a4a793 in h XOR drop_bit 24 h
         else h)"

subsection \<open>Policies\<close>

text \<open>The virtual functions of \<open>FilterPolicy\<close>; \<open>fp_CreateFilter keys dst\<close> is the new \<open>dst\<close>.\<close>

record filter_policy_class =
  fp_Name :: string
  fp_CreateFilter :: "bytes list \<Rightarrow> bytes \<Rightarrow> bytes"
  fp_KeyMayMatch :: "bytes \<Rightarrow> bytes \<Rightarrow> bool"

definition BloomHash :: "bytes \<Rightarrow> u32" where
  "BloomHash key = Hash key 0xbc9f1d34"

text \<open>
  \<open>BloomFilterPolicy\<close>: \<open>bits_per_key\<close> is a positive \<open>int\<close> and 0.69 the nearest \<open>double\<close>, whose
  error does not change the result below the bound of 30.
\<close>

record bloom_filter_policy =
  bits_per_key :: nat
  bloom_k :: nat

definition BloomFilterPolicy :: "nat \<Rightarrow> bloom_filter_policy" where
  "BloomFilterPolicy n =
     (let k = n * 69 div 100;
          k = (if k < 1 then 1 else k);
          k = (if k > 30 then 30 else k)
      in \<lparr>bits_per_key = n, bloom_k = k\<rparr>)"

text \<open>The probes of one key: \<open>j\<close> are left, \<open>array\<close> starts at \<open>init_size\<close> in \<open>dst\<close>.\<close>

fun set_probes :: "nat \<Rightarrow> nat \<Rightarrow> nat \<Rightarrow> u32 \<Rightarrow> u32 \<Rightarrow> bytes \<Rightarrow> bytes" where
  "set_probes init_size bits 0 delta h dst = dst"
| "set_probes init_size bits (Suc j) delta h dst =
     (let bitpos = unat h mod bits;
          i = init_size + bitpos div 8
      in set_probes init_size bits j delta (h + delta) (dst[i := dst ! i OR push_bit (bitpos mod 8) 1]))"

fun test_probes :: "nat \<Rightarrow> nat \<Rightarrow> u32 \<Rightarrow> u32 \<Rightarrow> bytes \<Rightarrow> bool" where
  "test_probes bits 0 delta h array = True"
| "test_probes bits (Suc j) delta h array =
     (let bitpos = unat h mod bits in
      if array ! (bitpos div 8) AND push_bit (bitpos mod 8) 1 = 0 then False
      else test_probes bits j delta (h + delta) array)"

definition bloom_delta :: "u32 \<Rightarrow> u32" where
  "bloom_delta h = drop_bit 17 h OR push_bit 15 h"

definition add_bloom_key :: "nat \<Rightarrow> nat \<Rightarrow> nat \<Rightarrow> bytes \<Rightarrow> bytes \<Rightarrow> bytes" where
  "add_bloom_key init_size bits k key dst =
     (let h = BloomHash key in set_probes init_size bits k (bloom_delta h) h dst)"

definition Bloom_CreateFilter :: "bloom_filter_policy \<Rightarrow> bytes list \<Rightarrow> bytes \<Rightarrow> bytes" where
  "Bloom_CreateFilter p keys dst =
     (let bits = length keys * bits_per_key p;
          bits = (if bits < 64 then 64 else bits);
          bytes = (bits + 7) div 8;
          bits = bytes * 8;
          init_size = length dst;
          dst = dst @ replicate bytes 0 @ [of_nat (bloom_k p)]
      in fold (add_bloom_key init_size bits (bloom_k p)) keys dst)"

definition Bloom_KeyMayMatch :: "bytes \<Rightarrow> bytes \<Rightarrow> bool" where
  "Bloom_KeyMayMatch key filt =
     (let len = length filt in
      if len < 2 then False
      else
        let bits = (len - 1) * 8; k = filt ! (len - 1) in
        if k > 30 then True
        else let h = BloomHash key in test_probes bits (unat k) (bloom_delta h) h filt)"

definition NewBloomFilterPolicy :: "nat \<Rightarrow> filter_policy_class" where
  "NewBloomFilterPolicy n =
     \<lparr>fp_Name = ''leveldb.BuiltinBloomFilter2'',
      fp_CreateFilter = Bloom_CreateFilter (BloomFilterPolicy n), fp_KeyMayMatch = Bloom_KeyMayMatch\<rparr>"

text \<open>\<open>InternalFilterPolicy\<close> hands the user keys to the policy of the user.\<close>

definition InternalFilterPolicy :: "filter_policy_class \<Rightarrow> filter_policy_class" where
  "InternalFilterPolicy user_policy =
     \<lparr>fp_Name = fp_Name user_policy,
      fp_CreateFilter = (\<lambda>keys. fp_CreateFilter user_policy (map ExtractUserKey keys)),
      fp_KeyMayMatch = (\<lambda>key. fp_KeyMayMatch user_policy (ExtractUserKey key))\<rparr>"

subsection \<open>The filter block\<close>

definition kFilterBaseLg :: nat where "kFilterBaseLg = 11"
definition kFilterBase :: u64 where "kFilterBase = push_bit kFilterBaseLg 1"

text \<open>\<open>tmp_keys_\<close> only lives inside \<open>GenerateFilter\<close>.\<close>

record filter_block_builder =
  fb_keys :: bytes
  fb_start :: "nat list"
  fb_result :: bytes
  fb_filter_offsets :: "u32 list"

definition FilterBlockBuilder :: filter_block_builder where
  "FilterBlockBuilder = \<lparr>fb_keys = [], fb_start = [], fb_result = [], fb_filter_offsets = []\<rparr>"

definition GenerateFilter :: "filter_policy_class \<Rightarrow> filter_block_builder \<Rightarrow> filter_block_builder" where
  "GenerateFilter policy b =
     (let num_keys = length (fb_start b) in
      if num_keys = 0
      then b\<lparr>fb_filter_offsets := fb_filter_offsets b @ [of_nat (length (fb_result b))]\<rparr>
      else
        let start = fb_start b @ [length (fb_keys b)];
            tmp_keys = map (\<lambda>i. take (start ! (i + 1) - start ! i) (drop (start ! i) (fb_keys b))) [0..<num_keys]
        in b\<lparr>fb_filter_offsets := fb_filter_offsets b @ [of_nat (length (fb_result b))],
             fb_result := fp_CreateFilter policy tmp_keys (fb_result b), fb_keys := [], fb_start := []\<rparr>)"

function StartBlock_loop :: "filter_policy_class \<Rightarrow> nat \<Rightarrow> filter_block_builder \<Rightarrow> filter_block_builder" where
  "StartBlock_loop policy filter_index b =
     (if filter_index > length (fb_filter_offsets b)
      then StartBlock_loop policy filter_index (GenerateFilter policy b) else b)"
  by pat_completeness auto
termination
  by (relation "measure (\<lambda>(_, n, b). n - length (fb_filter_offsets b))") (auto simp: GenerateFilter_def Let_def)

declare StartBlock_loop.simps [simp del]

definition StartBlock :: "filter_policy_class \<Rightarrow> u64 \<Rightarrow> filter_block_builder \<Rightarrow> filter_block_builder" where
  "StartBlock policy block_offset b = StartBlock_loop policy (unat (block_offset div kFilterBase)) b"

definition AddKey :: "bytes \<Rightarrow> filter_block_builder \<Rightarrow> filter_block_builder" where
  "AddKey key b = b\<lparr>fb_start := fb_start b @ [length (fb_keys b)], fb_keys := fb_keys b @ key\<rparr>"

definition FilterBlock_Finish :: "filter_policy_class \<Rightarrow> filter_block_builder \<Rightarrow> bytes \<times> filter_block_builder" where
  "FilterBlock_Finish policy b =
     (let b = (if fb_start b \<noteq> [] then GenerateFilter policy b else b);
          array_offset = of_nat (length (fb_result b));
          result = foldl PutFixed32 (fb_result b) (fb_filter_offsets b);
          result = PutFixed32 result array_offset @ [of_nat kFilterBaseLg]
      in (result, b\<lparr>fb_result := result\<rparr>))"

text \<open>
  The reader: \<open>data_\<close>, the offset of \<open>offset_\<close> in it, \<open>num_\<close> and \<open>base_lg_\<close>, a \<open>char\<close> converted to
  \<open>size_t\<close>. A shift by 64 or more has no defined result.
\<close>

record filter_block_reader =
  fr_data :: bytes
  fr_offset :: nat
  fr_num :: nat
  fr_base_lg :: size_t

definition FilterBlockReader :: "bytes \<Rightarrow> filter_block_reader" where
  "FilterBlockReader contents =
     (let r = \<lparr>fr_data = [], fr_offset = 0, fr_num = 0, fr_base_lg = 0\<rparr>; n = length contents in
      if n < 5 then r
      else
        let r = r\<lparr>fr_base_lg := scast (contents ! (n - 1))\<rparr>;
            last_word = unat (DecodeFixed32 (drop (n - 5) contents))
        in if last_word > n - 5 then r
           else r\<lparr>fr_data := contents, fr_offset := last_word, fr_num := (n - 5 - last_word) div 4\<rparr>)"

definition FilterBlock_KeyMayMatch ::
    "filter_policy_class \<Rightarrow> filter_block_reader \<Rightarrow> u64 \<Rightarrow> bytes \<Rightarrow> bool option" where
  "FilterBlock_KeyMayMatch policy r block_offset key =
     (if fr_base_lg r \<ge> 64 then None
      else
        let index = unat (drop_bit (unat (fr_base_lg r)) block_offset) in
        if index < fr_num r then
          let start = unat (DecodeFixed32 (drop (fr_offset r + index * 4) (fr_data r)));
              limit = unat (DecodeFixed32 (drop (fr_offset r + index * 4 + 4) (fr_data r)))
          in if start \<le> limit \<and> limit \<le> fr_offset r
             then Some (fp_KeyMayMatch policy key (take (limit - start) (drop start (fr_data r))))
             else if start = limit then Some False
             else Some True
        else Some True)"

section \<open>What a policy promises\<close>

text \<open>
  The filter is appended and depends on the keys only, and it matches all of them. The number of
  keys is an \<open>int\<close>.
\<close>

locale filter_policy =
  fixes P :: filter_policy_class
  assumes appends: "fp_CreateFilter P keys dst = dst @ fp_CreateFilter P keys []"
    and matches: "length keys < 2 ^ 31 \<Longrightarrow> key \<in> set keys \<Longrightarrow> fp_KeyMayMatch P key (fp_CreateFilter P keys [])"
begin

lemma internal_policy: "filter_policy (InternalFilterPolicy P)"
proof
  show "fp_CreateFilter (InternalFilterPolicy P) keys dst = dst @ fp_CreateFilter (InternalFilterPolicy P) keys []"
    for keys dst unfolding InternalFilterPolicy_def filter_policy_class.simps by (rule appends)
  show "fp_KeyMayMatch (InternalFilterPolicy P) key (fp_CreateFilter (InternalFilterPolicy P) keys [])"
    if "length keys < 2 ^ 31" "key \<in> set keys" for keys key
    using that by (simp add: InternalFilterPolicy_def matches)
qed

end

section \<open>The Bloom filter\<close>

lemma length_set_probes [simp]: "length (set_probes init_size bits j delta h dst) = length dst"
  by (induction init_size bits j delta h dst rule: set_probes.induct) (simp_all add: Let_def)

lemma length_add_bloom_key [simp]: "length (add_bloom_key init_size bits k key dst) = length dst"
  by (simp add: add_bloom_key_def Let_def)

lemma set_probes_prefix:
  "set_probes (length p) bits j delta h (p @ dst) = p @ set_probes 0 bits j delta h dst"
  by (induction j arbitrary: h dst) (simp_all add: Let_def nth_append list_update_append)

lemma fold_bloom_prefix:
  "fold (add_bloom_key (length p) bits k) keys (p @ dst) = p @ fold (add_bloom_key 0 bits k) keys dst"
  by (induction keys arbitrary: dst) (simp_all add: add_bloom_key_def Let_def set_probes_prefix)

lemma length_fold_bloom [simp]: "length (fold (add_bloom_key i bits k) keys dst) = length dst"
  by (induction keys arbitrary: dst) simp_all

definition bloom_bit :: "bytes \<Rightarrow> nat \<Rightarrow> bool" where
  "bloom_bit array pos \<longleftrightarrow> bit (array ! (pos div 8)) (pos mod 8)"

lemma bloom_bit_test: "array ! (pos div 8) AND 2 ^ (pos mod 8) = 0 \<longleftrightarrow> \<not> bloom_bit array pos"
  by (simp add: bloom_bit_def and_exp_eq_0_iff_not_bit)

lemma bloom_bit_set:
  assumes "q div 8 < length array"
  shows "bloom_bit (array[q div 8 := array ! (q div 8) OR push_bit (q mod 8) 1]) pos \<longleftrightarrow> bloom_bit array pos \<or> pos = q"
proof (cases "pos div 8 = q div 8")
  case True
  have "pos mod 8 = q mod 8 \<longleftrightarrow> pos = q" using True by (metis div_mult_mod_eq)
  moreover have "bit (push_bit (q mod 8) 1 :: u8) (pos mod 8) \<longleftrightarrow> pos mod 8 = q mod 8"
    by (auto simp: bit_exp_iff)
  ultimately show ?thesis using True assms by (simp add: bloom_bit_def bit_or_iff)
next
  case False
  then show ?thesis by (auto simp: bloom_bit_def)
qed

fun probes :: "nat \<Rightarrow> u32 \<Rightarrow> u32 \<Rightarrow> u32 list" where
  "probes 0 delta h = []"
| "probes (Suc j) delta h = h # probes j delta (h + delta)"

lemma test_probes_bits: "test_probes bits j delta h array \<longleftrightarrow> (\<forall>x\<in>set (probes j delta h). bloom_bit array (unat x mod bits))"
  by (induction j arbitrary: h) (simp_all add: Let_def bloom_bit_test)

lemma set_probes_bits:
  assumes "bits = m * 8" "0 < m" "m \<le> length array"
  shows "bloom_bit (set_probes 0 bits j delta h array) pos \<longleftrightarrow>
    bloom_bit array pos \<or> (\<exists>x\<in>set (probes j delta h). pos = unat x mod bits)"
  using assms(3)
proof (induction j arbitrary: h array)
  case (Suc j)
  have "unat h mod bits < m * 8" using assms by simp
  then have "unat h mod bits div 8 < m" by (simp add: div_less_iff_less_mult)
  then have "unat h mod bits div 8 < length array" using Suc.prems by simp
  from bloom_bit_set [OF this, of pos] Suc show ?case by (auto simp: Let_def)
qed simp

lemma add_bloom_keys_bits:
  assumes "bits = m * 8" "0 < m" "m \<le> length array"
  shows "bloom_bit (fold (add_bloom_key 0 bits k) keys array) pos \<longleftrightarrow> bloom_bit array pos \<or>
    (\<exists>key\<in>set keys. \<exists>x\<in>set (probes k (bloom_delta (BloomHash key)) (BloomHash key)). pos = unat x mod bits)"
  using assms(3)
proof (induction keys arbitrary: array)
  case (Cons key keys)
  then show ?case using set_probes_bits [OF assms(1,2) Cons.prems, of k] Cons.IH [of "add_bloom_key 0 bits k key array"]
    by (auto simp: add_bloom_key_def Let_def)
qed simp

lemma set_probes_end:
  assumes "bits = m * 8" "0 < m" "length array = m + 1"
  shows "set_probes 0 bits j delta h array ! m = array ! m"
  using assms(3)
proof (induction j arbitrary: h array)
  case (Suc j)
  have "unat h mod bits < m * 8" using assms by simp
  then have "unat h mod bits div 8 < m" by (simp add: div_less_iff_less_mult)
  then show ?case using Suc by (simp add: Let_def)
qed simp

lemma add_bloom_keys_end:
  assumes "bits = m * 8" "0 < m" "length array = m + 1"
  shows "fold (add_bloom_key 0 bits k) keys array ! m = array ! m"
  using assms(3)
proof (induction keys arbitrary: array)
  case (Cons key keys)
  then show ?case using set_probes_end [OF assms(1,2) Cons.prems, of k] by (simp add: add_bloom_key_def Let_def)
qed simp

lemma bloom_k_bounds: "1 \<le> bloom_k (BloomFilterPolicy n)" "bloom_k (BloomFilterPolicy n) \<le> 30"
  by (simp_all add: BloomFilterPolicy_def Let_def)

lemma bloom_policy: "filter_policy (NewBloomFilterPolicy n)"
proof
  let ?p = "BloomFilterPolicy n"
  let ?m = "\<lambda>keys :: bytes list. (max 64 (length keys * bits_per_key ?p) + 7) div 8"
  let ?empty = "\<lambda>keys. replicate (?m keys) 0 @ [of_nat (bloom_k ?p)] :: bytes"
  have create: "Bloom_CreateFilter ?p keys dst =
      dst @ fold (add_bloom_key 0 (?m keys * 8) (bloom_k ?p)) keys (?empty keys)" for keys dst
    by (simp add: Bloom_CreateFilter_def Let_def fold_bloom_prefix max_def)
  show "fp_CreateFilter (NewBloomFilterPolicy n) keys dst = dst @ fp_CreateFilter (NewBloomFilterPolicy n) keys []" for keys dst
    by (simp add: NewBloomFilterPolicy_def create)
  show "fp_KeyMayMatch (NewBloomFilterPolicy n) key (fp_CreateFilter (NewBloomFilterPolicy n) keys [])"
    if "key \<in> set keys" for keys key
  proof -
    let ?f = "fold (add_bloom_key 0 (?m keys * 8) (bloom_k ?p)) keys (?empty keys)"
    have m: "0 < ?m keys" by simp
    have len: "length ?f = ?m keys + 1" by simp
    have "?f ! ?m keys = of_nat (bloom_k ?p)"
      using add_bloom_keys_end [OF refl m, of "?empty keys"] by (simp add: nth_append)
    moreover have "unat (of_nat (bloom_k ?p) :: u8) = bloom_k ?p"
      using bloom_k_bounds(2) [of n] by (intro unat_of_nat_eq) simp
    moreover have "test_probes (?m keys * 8) (bloom_k ?p) (bloom_delta (BloomHash key)) (BloomHash key) ?f"
      using that by (auto simp: test_probes_bits add_bloom_keys_bits [OF refl m])
    moreover have "Bloom_KeyMayMatch key ?f" if "?f ! ?m keys = of_nat (bloom_k ?p)"
      "unat (of_nat (bloom_k ?p) :: u8) = bloom_k ?p"
      "test_probes (?m keys * 8) (bloom_k ?p) (bloom_delta (BloomHash key)) (BloomHash key) ?f"
      unfolding Bloom_KeyMayMatch_def Let_def using that len m by simp
    ultimately show ?thesis by (simp add: NewBloomFilterPolicy_def create)
  qed
qed

interpretation bloom: filter_policy "NewBloomFilterPolicy n" for n
  by (rule bloom_policy)

interpretation internal_bloom: filter_policy "InternalFilterPolicy (NewBloomFilterPolicy n)" for n
  by (rule bloom.internal_policy)

section \<open>The filter block\<close>

lemma take_drop_concat:
  assumes "i < length xs"
  shows "take (length (xs ! i)) (drop (length (concat (take i xs))) (concat xs @ rest)) = xs ! i"
proof -
  have "concat xs = concat (take i xs) @ xs ! i @ concat (drop (Suc i) xs)"
    using assms by (metis concat.simps(2) concat_append id_take_nth_drop)
  then show ?thesis by simp
qed

lemma length_nth_concat: "i < length xs \<Longrightarrow> length (xs ! i) \<le> length (concat xs)"
  by (induction xs arbitrary: i) (auto simp: nth_Cons intro: trans_le_add2 split: nat.splits)

lemma concat_take_Suc: "i < length xs \<Longrightarrow> concat (take (Suc i) xs) = concat (take i xs) @ xs ! i"
  by (simp add: take_Suc_conv_app_nth)

lemma FilterBlock_KeyMayMatch_defined:
  "fr_base_lg r < 64 \<Longrightarrow> \<exists>m. FilterBlock_KeyMayMatch policy r block_offset key = Some m"
  by (cases "FilterBlock_KeyMayMatch policy r block_offset key")
    (auto simp: FilterBlock_KeyMayMatch_def Let_def split: if_splits)

context filter_policy
begin

definition filter_of :: "bytes list \<Rightarrow> bytes" where
  "filter_of keys = (if keys = [] then [] else fp_CreateFilter P keys [])"

text \<open>The keys of the filters generated so far, and the keys of the next one.\<close>

definition builder_rep :: "filter_block_builder \<Rightarrow> bytes list list \<Rightarrow> bytes list \<Rightarrow> bool" where
  "builder_rep b groups pending \<longleftrightarrow>
     fb_result b = concat (map filter_of groups) \<and>
     fb_filter_offsets b = map (\<lambda>i. of_nat (length (concat (map filter_of (take i groups))))) [0..<length groups] \<and>
     fb_keys b = concat pending \<and> fb_start b = map (\<lambda>i. length (concat (take i pending))) [0..<length pending]"

lemma rep_init: "builder_rep FilterBlockBuilder [] []"
  by (simp add: builder_rep_def FilterBlockBuilder_def)

lemma rep_AddKey: "builder_rep b groups pending \<Longrightarrow> builder_rep (AddKey key b) groups (pending @ [key])"
  by (simp add: builder_rep_def AddKey_def)

lemma rep_GenerateFilter:
  assumes "builder_rep b groups pending"
  shows "builder_rep (GenerateFilter P b) (groups @ [pending]) []"
proof (cases "pending = []")
  case True
  then show ?thesis using assms by (simp add: builder_rep_def GenerateFilter_def filter_of_def)
next
  case False
  let ?start = "fb_start b @ [length (fb_keys b)]"
  have start: "?start ! i = length (concat (take i pending))" if "i \<le> length pending" for i
    using assms that by (auto simp: builder_rep_def nth_append)
  have "take (?start ! (i + 1) - ?start ! i) (drop (?start ! i) (fb_keys b)) = pending ! i" if "i < length pending" for i
  proof -
    have "?start ! (i + 1) - ?start ! i = length (pending ! i)"
      using start [of i] start [of "i + 1"] that by (simp only: concat_take_Suc Suc_eq_plus1 [symmetric]) simp
    then show ?thesis using start [of i] take_drop_concat [OF that, of "[]"] assms that by (simp add: builder_rep_def)
  qed
  then have "map (\<lambda>i. take (?start ! (i + 1) - ?start ! i) (drop (?start ! i) (fb_keys b))) [0..<length pending] =
      map (nth pending) [0..<length pending]" by (intro map_cong) auto
  then have "map (\<lambda>i. take (?start ! (i + 1) - ?start ! i) (drop (?start ! i) (fb_keys b))) [0..<length pending] = pending"
    by (simp only: map_nth)
  moreover have "length (fb_start b) = length pending" using assms by (simp add: builder_rep_def)
  ultimately show ?thesis using assms False appends [of pending "concat (map filter_of groups)"]
    by (simp add: builder_rep_def GenerateFilter_def Let_def filter_of_def)
qed

lemma rep_groups: "builder_rep b groups pending \<Longrightarrow> length (fb_filter_offsets b) = length groups"
  by (simp add: builder_rep_def)

text \<open>The keys added, each with the offset of its block, are in the group of the offset.\<close>

definition grouped :: "(u64 \<times> bytes) list \<Rightarrow> bytes list list \<Rightarrow> bool" where
  "grouped added gs \<longleftrightarrow> (\<forall>(off, key)\<in>set added. unat off div 2 ^ 11 < length gs \<and> key \<in> set (gs ! (unat off div 2 ^ 11))) \<and>
     length (concat gs) = length added"

definition filter_inv :: "filter_block_builder \<Rightarrow> (u64 \<times> bytes) list \<Rightarrow> u64 \<Rightarrow> bool" where
  "filter_inv b added off \<longleftrightarrow> (\<exists>groups pending. builder_rep b groups pending \<and> length groups = unat off div 2 ^ 11 \<and>
     grouped added (groups @ [pending]))"

lemma grouped_append: "grouped added gs \<Longrightarrow> grouped added (gs @ [[]])"
  by (auto simp: grouped_def nth_append)

lemma StartBlock_loop_rep:
  assumes "builder_rep b groups pending" "grouped added (groups @ [pending])" "length groups \<le> n"
  shows "\<exists>groups' pending'. builder_rep (StartBlock_loop P n b) groups' pending' \<and> length groups' = n \<and>
    grouped added (groups' @ [pending'])"
  using assms
proof (induction "n - length groups" arbitrary: b groups pending)
  case 0
  then show ?case using rep_groups [OF 0(2)] by (subst StartBlock_loop.simps) auto
next
  case (Suc m)
  have "StartBlock_loop P n b = StartBlock_loop P n (GenerateFilter P b)"
    using Suc.hyps(2) rep_groups [OF Suc.prems(1)] by (subst StartBlock_loop.simps) simp
  moreover have "m = n - length (groups @ [pending])" "length (groups @ [pending]) \<le> n" using Suc.hyps(2) by simp_all
  ultimately show ?case
    using Suc.hyps(1) [OF _ rep_GenerateFilter [OF Suc.prems(1)] grouped_append [OF Suc.prems(2)]] by simp
qed

lemma block_index: "unat (off div kFilterBase) = unat off div 2 ^ 11"
  by (simp add: kFilterBase_def kFilterBaseLg_def unat_div)

lemma filter_inv_init: "filter_inv (StartBlock P 0 FilterBlockBuilder) [] 0"
  using StartBlock_loop_rep [OF rep_init, of "[]" 0] unfolding filter_inv_def StartBlock_def block_index
  by (simp add: grouped_def)

lemma filter_inv_StartBlock:
  assumes "filter_inv b added off" "off \<le> off'"
  shows "filter_inv (StartBlock P off' b) added off'"
proof -
  have "unat off div 2 ^ 11 \<le> unat off' div 2 ^ 11" using assms(2) by (intro div_le_mono) (simp add: word_le_nat_alt)
  then show ?thesis using assms(1) StartBlock_loop_rep unfolding filter_inv_def StartBlock_def block_index by metis
qed

lemma filter_inv_AddKey:
  assumes "filter_inv b added off"
  shows "filter_inv (AddKey key b) ((off, key) # added) off"
proof -
  obtain groups pending where rep: "builder_rep b groups pending" "length groups = unat off div 2 ^ 11"
    and gr: "grouped added (groups @ [pending])" using assms by (auto simp: filter_inv_def)
  have "grouped ((off, key) # added) (groups @ [pending @ [key]])"
    using gr rep(2) by (auto simp: grouped_def nth_append split: if_splits)
  then show ?thesis using rep rep_AddKey unfolding filter_inv_def by blast
qed

text \<open>The finished block: the filters, their offsets and the end of the last, and the parameter.\<close>

definition filter_pos :: "bytes list list \<Rightarrow> nat \<Rightarrow> nat" where
  "filter_pos gs i = length (concat (map filter_of (take i gs)))"

definition filter_image :: "bytes list list \<Rightarrow> bytes" where
  "filter_image gs = concat (map filter_of gs) @
     concat (map (\<lambda>i. EncodeFixed32 (of_nat (filter_pos gs i))) [0..<Suc (length gs)]) @ [of_nat kFilterBaseLg]"

lemma FilterBlock_Finish_image:
  assumes "builder_rep b groups pending"
  shows "fst (FilterBlock_Finish P b) = filter_image (if pending = [] then groups else groups @ [pending])"
proof -
  have done': "fst (FilterBlock_Finish P b) = filter_image groups" if "builder_rep b groups []" for b groups
    using that by (simp add: FilterBlock_Finish_def Let_def builder_rep_def filter_image_def foldl_PutFixed32
        PutFixed32_def filter_pos_def comp_def)
  have "fb_start b = [] \<longleftrightarrow> pending = []" using assms by (auto simp: builder_rep_def)
  moreover have "fst (FilterBlock_Finish P b) = fst (FilterBlock_Finish P (GenerateFilter P b))" if "fb_start b \<noteq> []"
    using that rep_GenerateFilter [OF assms] by (simp add: FilterBlock_Finish_def Let_def builder_rep_def)
  ultimately show ?thesis using done' [of b groups] done' [OF rep_GenerateFilter [OF assms]] assms by auto
qed

lemma filter_image_length: "length (filter_image gs) = filter_pos gs (length gs) + 4 * length gs + 5"
  by (simp add: filter_image_def filter_pos_def length_concat comp_def sum_list_triv EncodeFixed32_le)

lemma filter_pos_le: "i \<le> j \<Longrightarrow> filter_pos gs i \<le> filter_pos gs j"
proof (induction "j - i" arbitrary: i)
  case (Suc m)
  then have "filter_pos gs (Suc i) \<le> filter_pos gs j" by simp
  moreover have "filter_pos gs i \<le> filter_pos gs (Suc i)"
    by (cases "i < length gs") (simp_all add: filter_pos_def take_Suc_conv_app_nth)
  ultimately show ?case by simp
qed simp

lemma filter_image_word:
  assumes "i \<le> length gs" "length (filter_image gs) < 2 ^ 32"
  shows "unat (DecodeFixed32 (drop (filter_pos gs (length gs) + i * 4) (filter_image gs))) = filter_pos gs i"
proof -
  let ?ws = "concat (map (\<lambda>i. EncodeFixed32 (of_nat (filter_pos gs i))) [0..<Suc (length gs)])"
  have len: "length ?ws = 4 * Suc (length gs)" by (simp add: length_concat comp_def sum_list_triv EncodeFixed32_le)
  have "drop (i * 4) ?ws = concat (map (\<lambda>i. EncodeFixed32 (of_nat (filter_pos gs i))) (drop i [0..<Suc (length gs)]))"
    using assms(1) by (intro drop_blocks) (auto simp: EncodeFixed32_le)
  also have "\<dots> = EncodeFixed32 (of_nat (filter_pos gs i)) @
      concat (map (\<lambda>i. EncodeFixed32 (of_nat (filter_pos gs i))) [Suc i..<Suc (length gs)])"
  proof -
    have "drop i [0..<Suc (length gs)] = i # [Suc i..<Suc (length gs)]"
      using assms(1) by (simp only: drop_upt add_0) (simp add: upt_conv_Cons del: upt_Suc)
    then show ?thesis by simp
  qed
  finally have "drop (filter_pos gs (length gs) + i * 4) (filter_image gs) =
      le_bytes 4 (unat (of_nat (filter_pos gs i) :: u32)) @
      concat (map (\<lambda>i. EncodeFixed32 (of_nat (filter_pos gs i))) [Suc i..<Suc (length gs)]) @ [of_nat kFilterBaseLg]"
    using assms(1) len by (simp add: filter_image_def filter_pos_def EncodeFixed32_le del: upt_Suc)
  then have "DecodeFixed32 (drop (filter_pos gs (length gs) + i * 4) (filter_image gs)) = of_nat (filter_pos gs i)"
    by simp
  moreover have "filter_pos gs i < 2 ^ 32"
    using filter_pos_le [OF assms(1), of gs] assms(2) unfolding filter_image_length by linarith
  ultimately show ?thesis by (simp add: unat_of_nat_eq)
qed

lemma FilterBlockReader_image:
  assumes "length (filter_image gs) < 2 ^ 32"
  shows "FilterBlockReader (filter_image gs) =
    \<lparr>fr_data = filter_image gs, fr_offset = filter_pos gs (length gs), fr_num = length gs, fr_base_lg = 11\<rparr>"
proof -
  let ?n = "length (filter_image gs)"
  have "unat (DecodeFixed32 (drop (?n - 5) (filter_image gs))) = filter_pos gs (length gs)"
    using filter_image_word [OF le_refl assms] by (simp add: filter_image_length mult.commute)
  moreover have "filter_image gs ! (?n - 1) = of_nat kFilterBaseLg"
    by (metis append.assoc filter_image_def last_conv_nth last_snoc snoc_eq_iff_butlast)
  then have "(scast (filter_image gs ! (?n - 1)) :: size_t) = 11" by (simp add: kFilterBaseLg_def)
  ultimately show ?thesis by (simp add: FilterBlockReader_def Let_def filter_image_length)
qed

lemma FilterBlock_KeyMayMatch_image:
  assumes len: "length (filter_image gs) < 2 ^ 32" and i: "i < length gs" "unat off div 2 ^ 11 = i"
    and key: "key \<in> set (gs ! i)" "length (gs ! i) < 2 ^ 31"
  shows "FilterBlock_KeyMayMatch P (FilterBlockReader (filter_image gs)) off key = Some True"
proof -
  let ?start = "filter_pos gs i" and ?limit = "filter_pos gs (Suc i)"
  have index: "unat (drop_bit 11 off) = i" using i(2) by (simp add: unat_drop_bit)
  have start: "unat (DecodeFixed32 (drop (filter_pos gs (length gs) + i * 4) (filter_image gs))) = ?start"
    using filter_image_word [OF _ len, of i] i by simp
  have limit: "unat (DecodeFixed32 (drop (filter_pos gs (length gs) + i * 4 + 4) (filter_image gs))) = ?limit"
    using filter_image_word [OF _ len, of "Suc i"] i by (simp add: ac_simps)
  have le: "?start \<le> ?limit" "?limit \<le> filter_pos gs (length gs)" using i by (intro filter_pos_le; simp)+
  have "?limit - ?start = length (filter_of (gs ! i))"
    using i(1) by (simp add: filter_pos_def take_Suc_conv_app_nth)
  then have "take (?limit - ?start) (drop ?start (filter_image gs)) = filter_of (gs ! i)"
    using take_drop_concat [of i "map filter_of gs"] i(1) unfolding filter_image_def filter_pos_def take_map [symmetric]
    by (simp only: length_map nth_map)
  moreover have "fp_KeyMayMatch P key (filter_of (gs ! i))"
    using key matches by (auto simp: filter_of_def)
  ultimately show ?thesis
    using index i start limit le by (simp add: FilterBlock_KeyMayMatch_def FilterBlockReader_image [OF len] Let_def)
qed

lemma filter_inv_found:
  assumes inv: "filter_inv b added off" and key: "(o', key) \<in> set added"
    and len: "length (fst (FilterBlock_Finish P b)) < 2 ^ 32" "length added < 2 ^ 31"
  shows "FilterBlock_KeyMayMatch P (FilterBlockReader (fst (FilterBlock_Finish P b))) o' key = Some True"
proof -
  obtain groups pending where rep: "builder_rep b groups pending" and gr: "grouped added (groups @ [pending])"
    using inv by (auto simp: filter_inv_def)
  let ?gs = "if pending = [] then groups else groups @ [pending]" and ?i = "unat o' div 2 ^ 11"
  note image = FilterBlock_Finish_image [OF rep]
  have i: "?i < length (groups @ [pending])" "key \<in> set ((groups @ [pending]) ! ?i)"
    using gr key by (auto simp: grouped_def)
  then have "?i < length ?gs \<and> ?gs ! ?i = (groups @ [pending]) ! ?i"
    by (auto simp: nth_append split: if_splits)
  moreover have "length ((groups @ [pending]) ! ?i) \<le> length (concat (groups @ [pending]))"
    by (rule length_nth_concat [OF i(1)])
  then have "length ((groups @ [pending]) ! ?i) < 2 ^ 31" using gr len(2) by (simp add: grouped_def)
  ultimately show ?thesis
    unfolding image using i(2) len(1) [unfolded image] by (intro FilterBlock_KeyMayMatch_image [of _ ?i]) auto
qed

lemma filter_inv_defined:
  assumes inv: "filter_inv b added off" and len: "length (fst (FilterBlock_Finish P b)) < 2 ^ 32"
  shows "\<exists>m. FilterBlock_KeyMayMatch P (FilterBlockReader (fst (FilterBlock_Finish P b))) o' key = Some m"
proof -
  obtain groups pending where rep: "builder_rep b groups pending" using inv by (auto simp: filter_inv_def)
  note image = FilterBlock_Finish_image [OF rep]
  have "fr_base_lg (FilterBlockReader (fst (FilterBlock_Finish P b))) = 11"
    unfolding image FilterBlockReader_image [OF len [unfolded image]] by simp
  then show ?thesis using FilterBlock_KeyMayMatch_defined by simp
qed

end

section \<open>Properties\<close>

text \<open>The calls a table makes: a block starts, then its keys are added.\<close>

definition add_filter_block :: "filter_policy_class \<Rightarrow> u64 \<times> bytes list \<Rightarrow> filter_block_builder \<Rightarrow> filter_block_builder" where
  "add_filter_block P blk b = fold AddKey (snd blk) (StartBlock P (fst blk) b)"

definition build_filter_block :: "filter_policy_class \<Rightarrow> (u64 \<times> bytes list) list \<Rightarrow> bytes" where
  "build_filter_block P blocks = fst (FilterBlock_Finish P (fold (add_filter_block P) blocks FilterBlockBuilder))"

context filter_policy
begin

lemma filter_inv_AddKeys:
  "filter_inv b added off \<Longrightarrow> filter_inv (fold AddKey keys b) (rev (map (Pair off) keys) @ added) off"
proof (induction keys arbitrary: b added)
  case (Cons key keys)
  from Cons.IH [OF filter_inv_AddKey [OF Cons.prems], of key] show ?case by simp
qed simp

lemma filter_inv_blocks:
  assumes "filter_inv b added off" "sorted_wrt (\<le>) (off # map fst blocks)"
  shows "\<exists>added' off'. filter_inv (fold (add_filter_block P) blocks b) added' off' \<and>
    set added' = set added \<union> (\<Union>(o', keys)\<in>set blocks. Pair o' ` set keys) \<and>
    length added' = length added + length (concat (map snd blocks))"
  using assms
proof (induction blocks arbitrary: b added off)
  case (Cons blk blocks)
  obtain o' keys where blk: "blk = (o', keys)" by (cases blk)
  have "filter_inv (add_filter_block P blk b) (rev (map (Pair o') keys) @ added) o'"
    unfolding add_filter_block_def blk fst_conv snd_conv
    by (rule filter_inv_AddKeys, rule filter_inv_StartBlock [OF Cons.prems(1)]) (use Cons.prems(2) blk in simp)
  moreover have "sorted_wrt (\<le>) (o' # map fst blocks)" using Cons.prems(2) blk by simp
  ultimately show ?case using Cons.IH blk by fastforce
qed auto

lemma filter_block_found:
  assumes "sorted_wrt (\<le>) (map fst blocks)" "length (build_filter_block P blocks) < 2 ^ 32"
    "length (concat (map snd blocks)) < 2 ^ 31" "(off, keys) \<in> set blocks" "key \<in> set keys"
  shows "FilterBlock_KeyMayMatch P (FilterBlockReader (build_filter_block P blocks)) off key = Some True"
proof -
  have "filter_inv FilterBlockBuilder [] 0"
    using rep_init unfolding filter_inv_def by (intro exI [of _ "[]"]) (simp add: grouped_def)
  moreover have "sorted_wrt (\<le>) (0 # map fst blocks)" using assms(1) by simp
  ultimately obtain added' off' where inv: "filter_inv (fold (add_filter_block P) blocks FilterBlockBuilder) added' off'"
    and added: "set added' = (\<Union>(o', keys)\<in>set blocks. Pair o' ` set keys)" "length added' = length (concat (map snd blocks))"
    using filter_inv_blocks by fastforce
  show ?thesis unfolding build_filter_block_def
    by (rule filter_inv_found [OF inv]) (use assms added in \<open>auto simp: build_filter_block_def\<close>)
qed

end

text \<open>
  C35. The filter block of a table has no false negatives: with the Bloom policy over internal
  keys, a key added to a block is reported as a possible match at the offset of the block,
  whatever blocks come before and after it.
\<close>

theorem filter_block_no_false_negatives:
  assumes "sorted_wrt (\<le>) (map fst blocks)"
    and "length (build_filter_block (InternalFilterPolicy (NewBloomFilterPolicy n)) blocks) < 2 ^ 32"
    and "length (concat (map snd blocks)) < 2 ^ 31" and "(off, keys) \<in> set blocks" and "key \<in> set keys"
  shows "let P = InternalFilterPolicy (NewBloomFilterPolicy n) in
    FilterBlock_KeyMayMatch P (FilterBlockReader (build_filter_block P blocks)) off key = Some True"
  unfolding Let_def by (rule internal_bloom.filter_block_found [OF assms])

theorem filter_block_no_false_negatives_witness:
  "let P = InternalFilterPolicy (NewBloomFilterPolicy 10) in
    FilterBlock_KeyMayMatch P (FilterBlockReader (build_filter_block P
      [(0, [ikey [1] 7 1, ikey [2] 3 1]), (1500, [ikey [3] 4 0]), (5000, [ikey [9] 4 1])])) 1500 (ikey [3] 4 0) = Some True"
proof -
  let ?P = "InternalFilterPolicy (NewBloomFilterPolicy 10)"
  let ?blocks = "[(0, [ikey [1] 7 1, ikey [2] 3 1]), (1500, [ikey [3] 4 0]), (5000, [ikey [9] 4 1])] :: (u64 \<times> bytes list) list"
  have "length (build_filter_block ?P ?blocks) < 2 ^ 32"
    by (simp add: build_filter_block_def add_filter_block_def StartBlock_def StartBlock_loop.simps GenerateFilter_def
        AddKey_def FilterBlock_Finish_def Let_def InternalFilterPolicy_def NewBloomFilterPolicy_def Bloom_CreateFilter_def
        FilterBlockBuilder_def kFilterBase_def kFilterBaseLg_def PutFixed32_def EncodeFixed32_le
        BloomFilterPolicy_def del: fold_simps)
  then show ?thesis
    by (intro filter_block_no_false_negatives [of ?blocks 10 1500 "[ikey [3] 4 0]"]) simp_all
qed

end
