(* ===== verification/Ldb_Two_Level.thy ===== *)
theory Ldb_Two_Level
  imports Ldb_Block
begin

text \<open>
  The two-level iterator (\<open>table/two_level_iterator.cc\<close>): an index iterator whose values are
  handles of blocks, and the iterator over the block at the index position. It is an
  \<open>iterator_impl\<close> of the concatenated blocks.
\<close>

section \<open>Definitions\<close>

text \<open>
  \<open>block_function\<close> is the function of the code applied to its argument and the options; it is
  \<open>None\<close> when it reads outside its memory.
\<close>

record ('i, 'j) two_level_iterator =
  tl_status :: Status
  tl_index_iter :: "'i iterator_wrapper"
  tl_data_iter :: "'j iterator_wrapper"
  tl_data_block_handle :: bytes

definition TwoLevelIterator :: "'i iterator_class \<Rightarrow> 'j iterator_class \<Rightarrow> 'i \<Rightarrow> ('i, 'j) two_level_iterator" where
  "TwoLevelIterator icls dcls index_iter =
     \<lparr>tl_status = Status_OK, tl_index_iter = IteratorWrapper icls (Some index_iter),
      tl_data_iter = IteratorWrapper dcls None, tl_data_block_handle = []\<rparr>"

definition TwoLevel_status :: "'i iterator_class \<Rightarrow> 'j iterator_class \<Rightarrow> ('i, 'j) two_level_iterator \<Rightarrow> Status" where
  "TwoLevel_status icls dcls t =
     (let index_status = it_status (wrapper_class icls) (tl_index_iter t);
          data_status = it_status (wrapper_class dcls) (tl_data_iter t)
      in if \<not> status_ok index_status then index_status
         else if iw_iter (tl_data_iter t) \<noteq> None \<and> \<not> status_ok data_status then data_status
         else tl_status t)"

definition SaveError :: "Status \<Rightarrow> ('i, 'j) two_level_iterator \<Rightarrow> ('i, 'j) two_level_iterator" where
  "SaveError s t = (if status_ok (tl_status t) \<and> \<not> status_ok s then t\<lparr>tl_status := s\<rparr> else t)"

definition SetDataIterator ::
    "'j iterator_class \<Rightarrow> 'j option \<Rightarrow> ('i, 'j) two_level_iterator \<Rightarrow> ('i, 'j) two_level_iterator" where
  "SetDataIterator dcls data_iter t =
     (let t = (if iw_iter (tl_data_iter t) \<noteq> None then SaveError (it_status (wrapper_class dcls) (tl_data_iter t)) t else t)
      in t\<lparr>tl_data_iter := Wrapper_Set dcls data_iter (tl_data_iter t)\<rparr>)"

definition InitDataBlock ::
    "'i iterator_class \<Rightarrow> 'j iterator_class \<Rightarrow> (bytes \<Rightarrow> 'j option) \<Rightarrow> ('i, 'j) two_level_iterator \<Rightarrow>
     ('i, 'j) two_level_iterator option" where
  "InitDataBlock icls dcls block_function t =
     (if \<not> iw_valid (tl_index_iter t) then Some (SetDataIterator dcls None t)
      else do {
        handle \<leftarrow> it_value (wrapper_class icls) (tl_index_iter t);
        if iw_iter (tl_data_iter t) \<noteq> None \<and> Slice_compare handle (tl_data_block_handle t) = 0 then Some t
        else do {
          iter \<leftarrow> block_function handle;
          Some (SetDataIterator dcls (Some iter) (t\<lparr>tl_data_block_handle := handle\<rparr>))
        }
      })"

text \<open>\<open>if (data_iter_.iter() != NULL) data_iter_.op()\<close>.\<close>

definition on_data ::
    "('j iterator_wrapper \<Rightarrow> 'j iterator_wrapper option) \<Rightarrow> ('i, 'j) two_level_iterator \<Rightarrow>
     ('i, 'j) two_level_iterator option" where
  "on_data op t =
     (if iw_iter (tl_data_iter t) \<noteq> None
      then map_option (\<lambda>w. t\<lparr>tl_data_iter := w\<rparr>) (op (tl_data_iter t)) else Some t)"

definition on_index ::
    "('i iterator_wrapper \<Rightarrow> 'i iterator_wrapper option) \<Rightarrow> ('i, 'j) two_level_iterator \<Rightarrow>
     ('i, 'j) two_level_iterator option" where
  "on_index op t = map_option (\<lambda>w. t\<lparr>tl_index_iter := w\<rparr>) (op (tl_index_iter t))"

partial_function (option) SkipEmptyDataBlocksForward ::
    "'i iterator_class \<Rightarrow> 'j iterator_class \<Rightarrow> (bytes \<Rightarrow> 'j option) \<Rightarrow> ('i, 'j) two_level_iterator \<Rightarrow>
     ('i, 'j) two_level_iterator option" where
  "SkipEmptyDataBlocksForward icls dcls block_function t =
     (if iw_iter (tl_data_iter t) = None \<or> \<not> iw_valid (tl_data_iter t) then
        if \<not> iw_valid (tl_index_iter t) then Some (SetDataIterator dcls None t)
        else do {
          t \<leftarrow> on_index (it_Next (wrapper_class icls)) t;
          t \<leftarrow> InitDataBlock icls dcls block_function t;
          t \<leftarrow> on_data (it_SeekToFirst (wrapper_class dcls)) t;
          SkipEmptyDataBlocksForward icls dcls block_function t
        }
      else Some t)"

partial_function (option) SkipEmptyDataBlocksBackward ::
    "'i iterator_class \<Rightarrow> 'j iterator_class \<Rightarrow> (bytes \<Rightarrow> 'j option) \<Rightarrow> ('i, 'j) two_level_iterator \<Rightarrow>
     ('i, 'j) two_level_iterator option" where
  "SkipEmptyDataBlocksBackward icls dcls block_function t =
     (if iw_iter (tl_data_iter t) = None \<or> \<not> iw_valid (tl_data_iter t) then
        if \<not> iw_valid (tl_index_iter t) then Some (SetDataIterator dcls None t)
        else do {
          t \<leftarrow> on_index (it_Prev (wrapper_class icls)) t;
          t \<leftarrow> InitDataBlock icls dcls block_function t;
          t \<leftarrow> on_data (it_SeekToLast (wrapper_class dcls)) t;
          SkipEmptyDataBlocksBackward icls dcls block_function t
        }
      else Some t)"

definition TwoLevel_Seek ::
    "'i iterator_class \<Rightarrow> 'j iterator_class \<Rightarrow> (bytes \<Rightarrow> 'j option) \<Rightarrow> bytes \<Rightarrow> ('i, 'j) two_level_iterator \<Rightarrow>
     ('i, 'j) two_level_iterator option" where
  "TwoLevel_Seek icls dcls block_function target t = do {
     t \<leftarrow> on_index (it_Seek (wrapper_class icls) target) t;
     t \<leftarrow> InitDataBlock icls dcls block_function t;
     t \<leftarrow> on_data (it_Seek (wrapper_class dcls) target) t;
     SkipEmptyDataBlocksForward icls dcls block_function t
   }"

definition TwoLevel_SeekToFirst ::
    "'i iterator_class \<Rightarrow> 'j iterator_class \<Rightarrow> (bytes \<Rightarrow> 'j option) \<Rightarrow> ('i, 'j) two_level_iterator \<Rightarrow>
     ('i, 'j) two_level_iterator option" where
  "TwoLevel_SeekToFirst icls dcls block_function t = do {
     t \<leftarrow> on_index (it_SeekToFirst (wrapper_class icls)) t;
     t \<leftarrow> InitDataBlock icls dcls block_function t;
     t \<leftarrow> on_data (it_SeekToFirst (wrapper_class dcls)) t;
     SkipEmptyDataBlocksForward icls dcls block_function t
   }"

definition TwoLevel_SeekToLast ::
    "'i iterator_class \<Rightarrow> 'j iterator_class \<Rightarrow> (bytes \<Rightarrow> 'j option) \<Rightarrow> ('i, 'j) two_level_iterator \<Rightarrow>
     ('i, 'j) two_level_iterator option" where
  "TwoLevel_SeekToLast icls dcls block_function t = do {
     t \<leftarrow> on_index (it_SeekToLast (wrapper_class icls)) t;
     t \<leftarrow> InitDataBlock icls dcls block_function t;
     t \<leftarrow> on_data (it_SeekToLast (wrapper_class dcls)) t;
     SkipEmptyDataBlocksBackward icls dcls block_function t
   }"

definition TwoLevel_Next ::
    "'i iterator_class \<Rightarrow> 'j iterator_class \<Rightarrow> (bytes \<Rightarrow> 'j option) \<Rightarrow> ('i, 'j) two_level_iterator \<Rightarrow>
     ('i, 'j) two_level_iterator option" where
  "TwoLevel_Next icls dcls block_function t = do {
     data \<leftarrow> it_Next (wrapper_class dcls) (tl_data_iter t);
     SkipEmptyDataBlocksForward icls dcls block_function (t\<lparr>tl_data_iter := data\<rparr>)
   }"

definition TwoLevel_Prev ::
    "'i iterator_class \<Rightarrow> 'j iterator_class \<Rightarrow> (bytes \<Rightarrow> 'j option) \<Rightarrow> ('i, 'j) two_level_iterator \<Rightarrow>
     ('i, 'j) two_level_iterator option" where
  "TwoLevel_Prev icls dcls block_function t = do {
     data \<leftarrow> it_Prev (wrapper_class dcls) (tl_data_iter t);
     SkipEmptyDataBlocksBackward icls dcls block_function (t\<lparr>tl_data_iter := data\<rparr>)
   }"

definition two_level_class ::
    "'i iterator_class \<Rightarrow> 'j iterator_class \<Rightarrow> (bytes \<Rightarrow> 'j option) \<Rightarrow> ('i, 'j) two_level_iterator iterator_class" where
  "two_level_class icls dcls block_function =
     \<lparr>it_Valid = (\<lambda>t. iw_valid (tl_data_iter t)), it_key = (\<lambda>t. iw_key (tl_data_iter t)),
      it_value = (\<lambda>t. it_value (wrapper_class dcls) (tl_data_iter t)), it_status = TwoLevel_status icls dcls,
      it_SeekToFirst = TwoLevel_SeekToFirst icls dcls block_function,
      it_SeekToLast = TwoLevel_SeekToLast icls dcls block_function,
      it_Seek = TwoLevel_Seek icls dcls block_function,
      it_Next = TwoLevel_Next icls dcls block_function, it_Prev = TwoLevel_Prev icls dcls block_function\<rparr>"

text \<open>Dispatch on the class of an iterator.\<close>

definition either_class :: "'a iterator_class \<Rightarrow> 'b iterator_class \<Rightarrow> ('a + 'b) iterator_class" where
  "either_class A B = \<lparr>it_Valid = case_sum (it_Valid A) (it_Valid B), it_key = case_sum (it_key A) (it_key B),
     it_value = case_sum (it_value A) (it_value B), it_status = case_sum (it_status A) (it_status B),
     it_SeekToFirst = case_sum (map_option Inl \<circ> it_SeekToFirst A) (map_option Inr \<circ> it_SeekToFirst B),
     it_SeekToLast = case_sum (map_option Inl \<circ> it_SeekToLast A) (map_option Inr \<circ> it_SeekToLast B),
     it_Seek = (\<lambda>target. case_sum (map_option Inl \<circ> it_Seek A target) (map_option Inr \<circ> it_Seek B target)),
     it_Next = case_sum (map_option Inl \<circ> it_Next A) (map_option Inr \<circ> it_Next B),
     it_Prev = case_sum (map_option Inl \<circ> it_Prev A) (map_option Inr \<circ> it_Prev B)\<rparr>"

context iterator_impl
begin

definition on_right :: "entries \<Rightarrow> nat \<Rightarrow> 'b + 'i \<Rightarrow> bool" where
  "on_right kvs i it \<longleftrightarrow> (\<exists>x. it = Inr x \<and> R kvs i x)"

lemma on_right_impl: "iterator_impl C ok (either_class A cls) on_right"
proof (unfold_locales, goal_cases)
  case (1 kvs i it) then show ?case using sorted by (auto simp: on_right_def)
next
  case (7 kvs i it) then show ?case using first by (fastforce simp: on_right_def either_class_def)
next
  case (8 kvs i it) then show ?case using last by (fastforce simp: on_right_def either_class_def)
next
  case (9 kvs i it target) then show ?case using seek by (fastforce simp: on_right_def either_class_def)
next
  case (10 kvs i it) then show ?case using next_entry by (fastforce simp: on_right_def either_class_def)
next
  case (11 kvs i it) then show ?case using prev_entry by (fastforce simp: on_right_def either_class_def)
qed (auto simp: on_right_def either_class_def valid key value_eq status bounded)

end

section \<open>Over an index and its blocks\<close>

text \<open>The entries of the blocks before index position \<open>j\<close>.\<close>

definition block_of :: "(bytes \<Rightarrow> entries) \<Rightarrow> entries \<Rightarrow> nat \<Rightarrow> entries" where
  "block_of contents ikvs j = contents (snd (ikvs ! j))"

definition entries_before :: "(bytes \<Rightarrow> entries) \<Rightarrow> entries \<Rightarrow> nat \<Rightarrow> entries" where
  "entries_before contents ikvs j = concat (map (contents \<circ> snd) (take j ikvs))"

lemma entries_before_Suc:
  "j < length ikvs \<Longrightarrow> entries_before contents ikvs (Suc j) = entries_before contents ikvs j @ block_of contents ikvs j"
  by (simp add: entries_before_def block_of_def take_Suc_conv_app_nth)

lemma entries_before_0 [simp]: "entries_before contents ikvs 0 = []"
  by (simp add: entries_before_def)

definition entries_from :: "(bytes \<Rightarrow> entries) \<Rightarrow> entries \<Rightarrow> nat \<Rightarrow> entries" where
  "entries_from contents ikvs j = concat (map (contents \<circ> snd) (drop j ikvs))"

lemma entries_split:
  assumes "j < length ikvs"
  shows "concat (map (contents \<circ> snd) ikvs) =
    entries_before contents ikvs j @ block_of contents ikvs j @ entries_from contents ikvs (Suc j)"
proof -
  have "concat (map (contents \<circ> snd) ikvs) = concat (map (contents \<circ> snd) (take j ikvs @ ikvs ! j # drop (Suc j) ikvs))"
    using assms by (simp add: id_take_nth_drop [symmetric])
  then show ?thesis by (simp add: entries_before_def entries_from_def block_of_def)
qed

lemma entries_from_in:
  assumes "x \<in> set (entries_from contents ikvs j)"
  shows "\<exists>i \<ge> j. i < length ikvs \<and> x \<in> set (block_of contents ikvs i)"
proof -
  obtain e where e: "e \<in> set (drop j ikvs)" "x \<in> set (contents (snd e))" using assms by (auto simp: entries_from_def)
  then obtain d where "d < length ikvs - j" "e = ikvs ! (j + d)" by (auto simp: in_set_conv_nth)
  then show ?thesis using e(2) by (intro exI [of _ "j + d"]) (auto simp: block_of_def)
qed

lemma entries_before_in:
  assumes "x \<in> set (entries_before contents ikvs j)"
  shows "\<exists>i < j. i < length ikvs \<and> x \<in> set (block_of contents ikvs i)"
proof -
  obtain e where e: "e \<in> set (take j ikvs)" "x \<in> set (contents (snd e))" using assms by (auto simp: entries_before_def)
  then obtain d where "d < j" "d < length ikvs" "e = ikvs ! d" by (auto simp: in_set_conv_nth)
  then show ?thesis using e(2) by (auto simp: block_of_def)
qed

locale two_level = index: iterator_impl C ok icls IR + data: iterator_impl C ok dcls DR
  for C :: comparator_class and ok :: "bytes \<Rightarrow> bool"
    and icls :: "'i iterator_class" and IR :: "entries \<Rightarrow> nat \<Rightarrow> 'i \<Rightarrow> bool"
    and dcls :: "'j iterator_class" and DR :: "entries \<Rightarrow> nat \<Rightarrow> 'j \<Rightarrow> bool" +
  fixes block_function :: "bytes \<Rightarrow> 'j option"
begin

text \<open>
  The separator of a block is not below its keys and below those of the later blocks, and the
  block function opens the block of every handle.
\<close>

definition layout :: "entries \<Rightarrow> (bytes \<Rightarrow> entries) \<Rightarrow> entries \<Rightarrow> bool" where
  "layout ikvs contents kvs \<longleftrightarrow>
     sorted_entries C ok kvs \<and> sorted_entries C ok ikvs \<and> kvs = concat (map (contents \<circ> snd) ikvs) \<and>
     (\<forall>j < length ikvs. \<forall>x\<in>set (block_of contents ikvs j). \<not> index.lt (fst (ikvs ! j)) (fst x)) \<and>
     (\<forall>i < length ikvs. \<forall>j < length ikvs. i < j \<longrightarrow> (\<forall>x\<in>set (block_of contents ikvs j). index.lt (fst (ikvs ! i)) (fst x))) \<and>
     (\<forall>j < length ikvs. \<exists>it p. block_function (snd (ikvs ! j)) = Some it \<and> DR (block_of contents ikvs j) p it)"

lemma layoutD:
  assumes "layout ikvs contents kvs"
  shows "sorted_entries C ok kvs" "sorted_entries C ok ikvs" "kvs = concat (map (contents \<circ> snd) ikvs)"
    "j < length ikvs \<Longrightarrow> x \<in> set (block_of contents ikvs j) \<Longrightarrow> \<not> index.lt (fst (ikvs ! j)) (fst x)"
    "i < j \<Longrightarrow> j < length ikvs \<Longrightarrow> x \<in> set (block_of contents ikvs j) \<Longrightarrow> index.lt (fst (ikvs ! i)) (fst x)"
    "j < length ikvs \<Longrightarrow> \<exists>it p. block_function (snd (ikvs ! j)) = Some it \<and> DR (block_of contents ikvs j) p it"
  using assms unfolding layout_def by (elim conjE, blast dest: order.strict_trans)+

definition no_data :: "('i, 'j) two_level_iterator \<Rightarrow> bool" where
  "no_data t \<longleftrightarrow> iw_iter (tl_data_iter t) = None \<and> \<not> iw_valid (tl_data_iter t)"

text \<open>The index at position \<open>j\<close> and the block of \<open>j\<close> at its position \<open>p\<close>.\<close>

definition loaded :: "entries \<Rightarrow> (bytes \<Rightarrow> entries) \<Rightarrow> nat \<Rightarrow> nat \<Rightarrow> ('i, 'j) two_level_iterator \<Rightarrow> bool" where
  "loaded ikvs contents j p t \<longleftrightarrow> tl_status t = Status_OK \<and> index.wrapped ikvs j (tl_index_iter t) \<and>
     (if j < length ikvs
      then tl_data_block_handle t = snd (ikvs ! j) \<and> data.wrapped (block_of contents ikvs j) p (tl_data_iter t)
      else j = length ikvs \<and> no_data t)"

definition two_level_at :: "entries \<Rightarrow> (bytes \<Rightarrow> entries) \<Rightarrow> nat \<Rightarrow> ('i, 'j) two_level_iterator \<Rightarrow> bool" where
  "two_level_at ikvs contents q t \<longleftrightarrow>
     (\<exists>j p. loaded ikvs contents j p t \<and>
       (if j < length ikvs then p < length (block_of contents ikvs j) \<and> q = length (entries_before contents ikvs j) + p
        else q = length (concat (map (contents \<circ> snd) ikvs))))"

definition two_level_cursor :: "entries \<Rightarrow> nat \<Rightarrow> ('i, 'j) two_level_iterator \<Rightarrow> bool" where
  "two_level_cursor kvs q t \<longleftrightarrow> (\<exists>ikvs contents. layout ikvs contents kvs \<and> two_level_at ikvs contents q t)"

text \<open>Before a block is loaded: the data iterator, if any, is over the block of its handle.\<close>

definition data_known :: "(bytes \<Rightarrow> entries) \<Rightarrow> ('i, 'j) two_level_iterator \<Rightarrow> bool" where
  "data_known contents t \<longleftrightarrow> no_data t \<or> (\<exists>p. data.wrapped (contents (tl_data_block_handle t)) p (tl_data_iter t))"

lemma wrapped_iter: "data.wrapped kvs p w \<Longrightarrow> iw_iter w \<noteq> None \<and> iw_valid w = (p < length kvs) \<and> p \<le> length kvs"
  using data.bounded by (auto simp: data.wrapped_def)

lemma wrapped_index: "index.wrapped kvs p w \<Longrightarrow> iw_iter w \<noteq> None \<and> iw_valid w = (p < length kvs) \<and> p \<le> length kvs"
  using index.bounded by (auto simp: index.wrapped_def)

lemma data_status: "data_known contents t \<Longrightarrow> iw_iter (tl_data_iter t) \<noteq> None \<Longrightarrow>
    it_status (wrapper_class dcls) (tl_data_iter t) = Status_OK"
  using iterator_impl.status [OF data.wrapper_impl] by (auto simp: data_known_def no_data_def simp del: wrapper_class_sel)

lemma loaded_known: "loaded ikvs contents j p t \<Longrightarrow> data_known contents t"
  by (auto simp: loaded_def data_known_def block_of_def split: if_splits)

lemma SetDataIterator_eq:
  assumes "data_known contents t" "tl_status t = Status_OK"
  shows "SetDataIterator dcls d t = t\<lparr>tl_data_iter := Wrapper_Set dcls d (tl_data_iter t)\<rparr>"
  using data_status [OF assms(1)] assms(2)
  by (simp add: SetDataIterator_def SaveError_def Let_def del: wrapper_class_sel)

lemma SetDataIterator_None:
  assumes "data_known contents t" "tl_status t = Status_OK"
  shows "no_data (SetDataIterator dcls None t)" "tl_status (SetDataIterator dcls None t) = Status_OK"
    "tl_index_iter (SetDataIterator dcls None t) = tl_index_iter t"
  using assms(2) by (simp_all add: SetDataIterator_eq [OF assms] no_data_def Wrapper_Set_def Let_def)

lemma InitDataBlock_eq:
  assumes lay: "layout ikvs contents kvs" and idx: "index.wrapped ikvs j (tl_index_iter t)"
    and known: "data_known contents t" and ok: "tl_status t = Status_OK"
  shows "\<exists>t' p. InitDataBlock icls dcls block_function t = Some t' \<and> loaded ikvs contents j p t'"
proof (cases "j < length ikvs")
  case False
  then have "\<not> iw_valid (tl_index_iter t)" "j = length ikvs" using wrapped_index [OF idx] by auto
  then show ?thesis using SetDataIterator_None [OF known ok] idx
    by (simp add: InitDataBlock_def loaded_def)
next
  case True
  let ?h = "snd (ikvs ! j)"
  have valid: "iw_valid (tl_index_iter t)" using wrapped_index [OF idx] True by simp
  have val: "it_value (wrapper_class icls) (tl_index_iter t) = Some ?h"
    by (rule iterator_impl.value_eq [OF index.wrapper_impl idx True])
  show ?thesis
  proof (cases "iw_iter (tl_data_iter t) \<noteq> None \<and> Slice_compare ?h (tl_data_block_handle t) = 0")
    case same: True
    then have "tl_data_block_handle t = ?h" by (simp add: Slice_compare_iff)
    moreover from this obtain p where "data.wrapped (block_of contents ikvs j) p (tl_data_iter t)"
      using known same by (auto simp: data_known_def no_data_def block_of_def)
    moreover have "InitDataBlock icls dcls block_function t = Some t"
      using valid val same by (simp add: InitDataBlock_def del: wrapper_class_sel)
    ultimately show ?thesis using idx ok True by (auto simp: loaded_def)
  next
    case False
    obtain it p where it: "block_function ?h = Some it" "DR (block_of contents ikvs j) p it"
      using layoutD(6) [OF lay True] by blast
    have "data_known contents t \<Longrightarrow> tl_status t = Status_OK \<Longrightarrow>
        SetDataIterator dcls (Some it) (t\<lparr>tl_data_block_handle := ?h\<rparr>) =
        t\<lparr>tl_data_block_handle := ?h, tl_data_iter := Wrapper_Set dcls (Some it) (tl_data_iter t)\<rparr>"
      using data_status by (simp add: SetDataIterator_def SaveError_def Let_def del: wrapper_class_sel)
    then have "InitDataBlock icls dcls block_function t =
        Some (t\<lparr>tl_data_block_handle := ?h, tl_data_iter := Wrapper_Set dcls (Some it) (tl_data_iter t)\<rparr>)"
      using valid val False it(1) known ok by (auto simp: InitDataBlock_def simp del: wrapper_class_sel)
    then show ?thesis using idx ok True data.wrapped_Set [OF it(2)] by (auto simp: loaded_def)
  qed
qed

text \<open>A move of the index, then of the block at its new position.\<close>

lemma move_blocks:
  assumes lay: "layout ikvs contents kvs" and at: "loaded ikvs contents i p t"
    and idx: "\<And>w. index.wrapped ikvs i w \<Longrightarrow> \<exists>w'. iop w = Some w' \<and> index.wrapped ikvs j w'"
    and dat: "\<And>w p. j < length ikvs \<Longrightarrow> data.wrapped (block_of contents ikvs j) p w \<Longrightarrow>
      \<exists>w'. dop w = Some w' \<and> data.wrapped (block_of contents ikvs j) p' w'"
  shows "\<exists>t'. do { t \<leftarrow> on_index iop t; t \<leftarrow> InitDataBlock icls dcls block_function t; on_data dop t } = Some t' \<and>
    loaded ikvs contents j p' t'"
proof -
  obtain w where w: "iop (tl_index_iter t) = Some w" "index.wrapped ikvs j w" using idx at by (auto simp: loaded_def)
  let ?t = "t\<lparr>tl_index_iter := w\<rparr>"
  have "data_known contents ?t" using loaded_known [OF at] by (simp add: data_known_def no_data_def)
  moreover have "tl_status ?t = Status_OK" using at by (simp add: loaded_def)
  ultimately obtain t2 p2 where init: "InitDataBlock icls dcls block_function ?t = Some t2" "loaded ikvs contents j p2 t2"
    using InitDataBlock_eq [OF lay, of j ?t] w(2) by auto
  have "\<exists>t'. on_data dop t2 = Some t' \<and> loaded ikvs contents j p' t'"
  proof (cases "j < length ikvs")
    case True
    then obtain w' where "dop (tl_data_iter t2) = Some w'" "data.wrapped (block_of contents ikvs j) p' w'"
      using dat init(2) by (auto simp: loaded_def)
    then show ?thesis using init(2) True wrapped_iter [of "block_of contents ikvs j" p2 "tl_data_iter t2"]
      by (auto simp: loaded_def on_data_def)
  next
    case False
    then show ?thesis using init(2) by (auto simp: loaded_def on_data_def no_data_def)
  qed
  then show ?thesis using w(1) init(1) by (simp add: on_index_def)
qed

lemma loaded_at:
  assumes "loaded ikvs contents j p t" "j < length ikvs" "p < length (block_of contents ikvs j)"
  shows "two_level_at ikvs contents (length (entries_before contents ikvs j) + p) t"
  using assms unfolding two_level_at_def by (intro exI [of _ j] exI [of _ p]) simp

lemma loaded_end:
  assumes "loaded ikvs contents (length ikvs) p t"
  shows "two_level_at ikvs contents (length (concat (map (contents \<circ> snd) ikvs))) (SetDataIterator dcls None t)"
  using SetDataIterator_None [OF loaded_known [OF assms]] assms unfolding two_level_at_def
  by (intro exI [of _ "length ikvs"] exI [of _ 0]) (simp add: loaded_def)

lemma loaded_end_flags:
  assumes "loaded ikvs contents (length ikvs) p t"
  shows "iw_iter (tl_data_iter t) = None" "\<not> iw_valid (tl_index_iter t)"
  using assms wrapped_index by (auto simp: loaded_def no_data_def)

lemma loaded_flags:
  assumes "loaded ikvs contents j p t" "j < length ikvs"
  shows "iw_iter (tl_data_iter t) \<noteq> None" "iw_valid (tl_data_iter t) = (p < length (block_of contents ikvs j))"
    "p \<le> length (block_of contents ikvs j)" "iw_valid (tl_index_iter t)"
proof -
  have "data.wrapped (block_of contents ikvs j) p (tl_data_iter t)" "index.wrapped ikvs j (tl_index_iter t)"
    using assms by (simp_all add: loaded_def)
  then show "iw_iter (tl_data_iter t) \<noteq> None" "iw_valid (tl_data_iter t) = (p < length (block_of contents ikvs j))"
    "p \<le> length (block_of contents ikvs j)" "iw_valid (tl_index_iter t)"
    using wrapped_iter wrapped_index assms(2) by blast+
qed

lemma SkipForward_eq:
  assumes lay: "layout ikvs contents kvs" and "loaded ikvs contents j p t"
  shows "\<exists>t'. SkipEmptyDataBlocksForward icls dcls block_function t = Some t' \<and>
    two_level_at ikvs contents (if j < length ikvs then length (entries_before contents ikvs j) + p else length kvs) t'"
  using assms(2)
proof (induction "length ikvs - j" arbitrary: j p t)
  case 0
  then have "j = length ikvs" by (auto simp: loaded_def split: if_splits)
  then show ?case using 0 loaded_end loaded_end_flags layoutD(3) [OF lay]
    by (subst SkipEmptyDataBlocksForward.simps) simp
next
  case (Suc n)
  then have j: "j < length ikvs" by simp
  note flags = loaded_flags [OF Suc.prems j]
  show ?case
  proof (cases "p < length (block_of contents ikvs j)")
    case True
    then show ?thesis using flags loaded_at [OF Suc.prems j] j by (subst SkipEmptyDataBlocksForward.simps) auto
  next
    case False
    then have p: "p = length (block_of contents ikvs j)" using flags(3) by simp
    have "\<exists>t'. do { t \<leftarrow> on_index (it_Next (wrapper_class icls)) t; t \<leftarrow> InitDataBlock icls dcls block_function t;
        on_data (it_SeekToFirst (wrapper_class dcls)) t } = Some t' \<and> loaded ikvs contents (j + 1) 0 t'"
      by (intro move_blocks [OF lay Suc.prems] iterator_impl.next_entry [OF index.wrapper_impl _ j]
          iterator_impl.first [OF data.wrapper_impl])
    then obtain t1 t2 t3 where steps: "on_index (it_Next (wrapper_class icls)) t = Some t1"
      "InitDataBlock icls dcls block_function t1 = Some t2" "on_data (it_SeekToFirst (wrapper_class dcls)) t2 = Some t3"
      and t3: "loaded ikvs contents (Suc j) 0 t3"
      by (auto simp: bind_eq_Some_conv simp del: wrapper_class_sel)
    have "SkipEmptyDataBlocksForward icls dcls block_function t = SkipEmptyDataBlocksForward icls dcls block_function t3"
      using flags False by (subst SkipEmptyDataBlocksForward.simps) (simp add: steps del: wrapper_class_sel)
    moreover have "n = length ikvs - Suc j" using Suc.hyps(2) by simp
    note Suc.hyps(1) [OF this t3]
    moreover have "(if Suc j < length ikvs then length (entries_before contents ikvs (Suc j)) + 0 else length kvs) =
        length (entries_before contents ikvs j) + p"
    proof (cases "Suc j < length ikvs")
      case True
      then show ?thesis using entries_before_Suc [OF j] p by simp
    next
      case False
      then have "entries_from contents ikvs (Suc j) = []" by (simp add: entries_from_def)
      then show ?thesis using entries_split [OF j] layoutD(3) [OF lay] p False by simp
    qed
    ultimately show ?thesis using j by simp
  qed
qed

lemma SkipBackward_eq:
  assumes lay: "layout ikvs contents kvs" and "loaded ikvs contents j p t" "j < length ikvs"
  defines "before \<equiv> \<lambda>j. length (entries_before contents ikvs j)"
  shows "\<exists>t'. SkipEmptyDataBlocksBackward icls dcls block_function t = Some t' \<and>
    two_level_at ikvs contents (if p < length (block_of contents ikvs j) then before j + p
      else if before j = 0 then length kvs else before j - 1) t'"
  using assms(2,3)
proof (induction j arbitrary: p t)
  case 0
  note flags = loaded_flags [OF 0]
  show ?case
  proof (cases "p < length (block_of contents ikvs 0)")
    case True
    then show ?thesis using flags loaded_at [OF 0] by (subst SkipEmptyDataBlocksBackward.simps) (auto simp: before_def)
  next
    case False
    have prev: "\<exists>w'. it_Prev (wrapper_class icls) w = Some w' \<and> index.wrapped ikvs (length ikvs) w'"
      if "index.wrapped ikvs 0 w" for w using iterator_impl.prev_entry [OF index.wrapper_impl that 0(2)] by simp
    have "\<exists>t'. do { t \<leftarrow> on_index (it_Prev (wrapper_class icls)) t; t \<leftarrow> InitDataBlock icls dcls block_function t;
        on_data (it_SeekToLast (wrapper_class dcls)) t } = Some t' \<and> loaded ikvs contents (length ikvs) 0 t'"
      by (rule move_blocks [OF lay 0(1) prev]) simp_all
    then obtain t1 t2 t3 where steps: "on_index (it_Prev (wrapper_class icls)) t = Some t1"
      "InitDataBlock icls dcls block_function t1 = Some t2" "on_data (it_SeekToLast (wrapper_class dcls)) t2 = Some t3"
      and t3: "loaded ikvs contents (length ikvs) 0 t3"
      by (auto simp: bind_eq_Some_conv simp del: wrapper_class_sel)
    have "SkipEmptyDataBlocksBackward icls dcls block_function t = SkipEmptyDataBlocksBackward icls dcls block_function t3"
      using flags False by (subst SkipEmptyDataBlocksBackward.simps) (simp add: steps del: wrapper_class_sel)
    also have "\<dots> = Some (SetDataIterator dcls None t3)"
      using loaded_end_flags [OF t3] by (subst SkipEmptyDataBlocksBackward.simps) simp
    finally show ?thesis using loaded_end [OF t3] False layoutD(3) [OF lay] by (simp add: before_def)
  qed
next
  case (Suc j)
  note flags = loaded_flags [OF Suc.prems]
  have j: "j < length ikvs" using Suc.prems(2) by simp
  show ?case
  proof (cases "p < length (block_of contents ikvs (Suc j))")
    case True
    then show ?thesis using flags loaded_at [OF Suc.prems]
      by (subst SkipEmptyDataBlocksBackward.simps) (auto simp: before_def)
  next
    case False
    let ?p = "length (block_of contents ikvs j) - 1"
    have prev: "\<exists>w'. it_Prev (wrapper_class icls) w = Some w' \<and> index.wrapped ikvs j w'"
      if "index.wrapped ikvs (Suc j) w" for w using iterator_impl.prev_entry [OF index.wrapper_impl that Suc.prems(2)] by simp
    have "\<exists>t'. do { t \<leftarrow> on_index (it_Prev (wrapper_class icls)) t; t \<leftarrow> InitDataBlock icls dcls block_function t;
        on_data (it_SeekToLast (wrapper_class dcls)) t } = Some t' \<and> loaded ikvs contents j ?p t'"
      by (rule move_blocks [OF lay Suc.prems(1) prev iterator_impl.last [OF data.wrapper_impl]])
    then obtain t1 t2 t3 where steps: "on_index (it_Prev (wrapper_class icls)) t = Some t1"
      "InitDataBlock icls dcls block_function t1 = Some t2" "on_data (it_SeekToLast (wrapper_class dcls)) t2 = Some t3"
      and t3: "loaded ikvs contents j ?p t3"
      by (auto simp: bind_eq_Some_conv simp del: wrapper_class_sel)
    have step: "SkipEmptyDataBlocksBackward icls dcls block_function t = SkipEmptyDataBlocksBackward icls dcls block_function t3"
      using flags False by (subst SkipEmptyDataBlocksBackward.simps) (simp add: steps del: wrapper_class_sel)
    have "before (Suc j) = before j + length (block_of contents ikvs j)"
      by (simp add: before_def entries_before_Suc [OF j])
    then have pos: "(if ?p < length (block_of contents ikvs j) then before j + ?p
        else if before j = 0 then length kvs else before j - 1) =
        (if p < length (block_of contents ikvs (Suc j)) then before (Suc j) + p
        else if before (Suc j) = 0 then length kvs else before (Suc j) - 1)"
      using False by (cases "block_of contents ikvs j") auto
    show ?thesis unfolding step using Suc.IH [OF t3 j] unfolding pos .
  qed
qed

lemma two_level_loaded:
  assumes "two_level_at ikvs contents q t"
  obtains j p where "loaded ikvs contents j p t" "j \<le> length ikvs"
    "j < length ikvs \<Longrightarrow> p < length (block_of contents ikvs j) \<and> q = length (entries_before contents ikvs j) + p"
    "j = length ikvs \<Longrightarrow> q = length (concat (map (contents \<circ> snd) ikvs))"
proof -
  from assms obtain j p where ld: "loaded ikvs contents j p t" and
    q: "if j < length ikvs then p < length (block_of contents ikvs j) \<and> q = length (entries_before contents ikvs j) + p
        else q = length (concat (map (contents \<circ> snd) ikvs))" unfolding two_level_at_def by blast
  show thesis by (rule that [OF ld]) (use ld q in \<open>auto simp: loaded_def split: if_splits\<close>)
qed

lemma position_in:
  assumes "layout ikvs contents kvs" "j < length ikvs" "p < length (block_of contents ikvs j)"
  shows "length (entries_before contents ikvs j) + p < length kvs"
    "kvs ! (length (entries_before contents ikvs j) + p) = block_of contents ikvs j ! p"
  using entries_split [OF assms(2), of contents] layoutD(3) [OF assms(1)] assms(3) by (simp_all add: nth_append)

text \<open>Where a key is sought: the block whose separator is the first not below it.\<close>

lemma seek_position:
  assumes lay: "layout ikvs contents kvs" and t: "ok target"
  defines "j \<equiv> entries_below C ikvs target"
  shows "entries_below C kvs target =
    (if j < length ikvs then length (entries_before contents ikvs j) + entries_below C (block_of contents ikvs j) target
     else length kvs)"
proof -
  note kvs = layoutD(3) [OF lay] and sorted = layoutD(1) [OF lay]
  have ok_sep: "ok (fst (ikvs ! i))" if "i < length ikvs" for i using sorted_entries_ok layoutD(2) [OF lay] that by blast
  have ok_key: "ok (fst x)" if "i < length ikvs" "x \<in> set (block_of contents ikvs i)" for i x
    using sorted that unfolding kvs sorted_entries_def by (auto simp: block_of_def)
  have jle: "j \<le> length ikvs" unfolding j_def by (rule index.entries_below_le)
  have before: "index.lt (fst x) target" if x: "x \<in> set (entries_before contents ikvs j)" for x
  proof -
    obtain i where i: "i < j" "i < length ikvs" "x \<in> set (block_of contents ikvs i)" using entries_before_in [OF x] by blast
    have "index.lt (fst (ikvs ! i)) target" using index.entries_below_less i(1) unfolding j_def by blast
    moreover have "\<not> index.lt (fst (ikvs ! i)) (fst x)" using layoutD(4) [OF lay i(2,3)] .
    ultimately show ?thesis using index.le_lt_trans [OF ok_key [OF i(2,3)] ok_sep [OF i(2)] t] by blast
  qed
  show ?thesis
  proof (cases "j < length ikvs")
    case False
    then have "j = length ikvs" using jle by simp
    then have "entries_before contents ikvs j = kvs" by (simp add: entries_before_def kvs)
    then show ?thesis using entries_below_append [of "entries_before contents ikvs j" C target "[]"] before False by simp
  next
    case True
    let ?B = "block_of contents ikvs j" and ?p = "entries_below C (block_of contents ikvs j) target"
    have nsep: "\<not> index.lt (fst (ikvs ! j)) target" using index.entries_below_not True unfolding j_def by blast
    obtain it p where "DR ?B p it" using layoutD(6) [OF lay True] by blast
    then have B: "sorted_entries C ok ?B" by (rule data.sorted)
    let ?L = "entries_before contents ikvs j @ take ?p ?B" and ?R = "drop ?p ?B @ entries_from contents ikvs (Suc j)"
    have "index.lt (fst x) target" if "x \<in> set (take ?p ?B)" for x
      using that index.entries_below_less [of _ ?B target] by (auto simp: in_set_conv_nth)
    then have L: "index.lt (fst x) target" if "x \<in> set ?L" for x using that before unfolding set_append by blast
    have "\<not> index.lt (fst x) target" if x: "x \<in> set (drop ?p ?B)" for x
    proof -
      obtain i where "?p + i < length ?B" "x = ?B ! (?p + i)" using x by (auto simp: in_set_conv_nth less_diff_conv add.commute)
      then show ?thesis using index.entries_below_iff [OF B t, of "?p + i"] by simp
    qed
    moreover have "\<not> index.lt (fst x) target" if x: "x \<in> set (entries_from contents ikvs (Suc j))" for x
    proof -
      obtain i where i: "Suc j \<le> i" "i < length ikvs" "x \<in> set (block_of contents ikvs i)" using entries_from_in [OF x] by blast
      then have "index.lt (fst (ikvs ! j)) (fst x)" using layoutD(5) [OF lay, of j i x] by simp
      then show ?thesis using nsep index.trans [OF ok_sep [OF True] ok_key [OF i(2,3)] t] by blast
    qed
    ultimately have R: "\<not> index.lt (fst x) target" if "x \<in> set ?R" for x using that unfolding set_append by blast
    have "kvs = entries_before contents ikvs j @ (take ?p ?B @ drop ?p ?B) @ entries_from contents ikvs (Suc j)"
      using entries_split [OF True, of contents] unfolding kvs append_take_drop_id .
    then have "entries_below C kvs target = entries_below C (?L @ ?R) target" by (simp only: append_assoc)
    also have "\<dots> = length ?L" by (rule entries_below_append [OF L R])
    also have "\<dots> = length (entries_before contents ikvs j) + ?p" using index.entries_below_le [of ?B target] by simp
    finally show ?thesis using True by simp
  qed
qed

lemma TwoLevel_Seek_eq:
  assumes lay: "layout ikvs contents kvs" and at: "two_level_at ikvs contents q t" and ok: "ok target"
  shows "\<exists>t'. TwoLevel_Seek icls dcls block_function target t = Some t' \<and>
    two_level_at ikvs contents (entries_below C kvs target) t'"
proof -
  obtain i p where ld: "loaded ikvs contents i p t" using at by (rule two_level_loaded)
  let ?j = "entries_below C ikvs target"
  have "\<exists>t'. do { t \<leftarrow> on_index (it_Seek (wrapper_class icls) target) t; t \<leftarrow> InitDataBlock icls dcls block_function t;
      on_data (it_Seek (wrapper_class dcls) target) t } = Some t' \<and>
      loaded ikvs contents ?j (entries_below C (block_of contents ikvs ?j) target) t'"
    by (intro move_blocks [OF lay ld] iterator_impl.seek [OF index.wrapper_impl _ ok] iterator_impl.seek [OF data.wrapper_impl _ ok])
  then obtain t1 t2 t3 where steps: "on_index (it_Seek (wrapper_class icls) target) t = Some t1"
    "InitDataBlock icls dcls block_function t1 = Some t2" "on_data (it_Seek (wrapper_class dcls) target) t2 = Some t3"
    and t3: "loaded ikvs contents ?j (entries_below C (block_of contents ikvs ?j) target) t3"
    by (auto simp: bind_eq_Some_conv simp del: wrapper_class_sel)
  show ?thesis using SkipForward_eq [OF lay t3] unfolding seek_position [OF lay ok]
    by (simp add: TwoLevel_Seek_def steps del: wrapper_class_sel)
qed

lemma TwoLevel_SeekToFirst_eq:
  assumes lay: "layout ikvs contents kvs" and at: "two_level_at ikvs contents q t"
  shows "\<exists>t'. TwoLevel_SeekToFirst icls dcls block_function t = Some t' \<and> two_level_at ikvs contents 0 t'"
proof -
  obtain i p where ld: "loaded ikvs contents i p t" using at by (rule two_level_loaded)
  have "\<exists>t'. do { t \<leftarrow> on_index (it_SeekToFirst (wrapper_class icls)) t; t \<leftarrow> InitDataBlock icls dcls block_function t;
      on_data (it_SeekToFirst (wrapper_class dcls)) t } = Some t' \<and> loaded ikvs contents 0 0 t'"
    by (intro move_blocks [OF lay ld] iterator_impl.first [OF index.wrapper_impl] iterator_impl.first [OF data.wrapper_impl])
  then obtain t1 t2 t3 where steps: "on_index (it_SeekToFirst (wrapper_class icls)) t = Some t1"
    "InitDataBlock icls dcls block_function t1 = Some t2" "on_data (it_SeekToFirst (wrapper_class dcls)) t2 = Some t3"
    and t3: "loaded ikvs contents 0 0 t3"
    by (auto simp: bind_eq_Some_conv simp del: wrapper_class_sel)
  have "(if 0 < length ikvs then length (entries_before contents ikvs 0) + 0 else length kvs) = 0"
    using layoutD(3) [OF lay] by simp
  then show ?thesis using SkipForward_eq [OF lay t3] by (simp add: TwoLevel_SeekToFirst_def steps del: wrapper_class_sel)
qed

lemma TwoLevel_SeekToLast_eq:
  assumes lay: "layout ikvs contents kvs" and at: "two_level_at ikvs contents q t"
  shows "\<exists>t'. TwoLevel_SeekToLast icls dcls block_function t = Some t' \<and> two_level_at ikvs contents (length kvs - 1) t'"
proof -
  obtain i p where ld: "loaded ikvs contents i p t" using at by (rule two_level_loaded)
  let ?j = "length ikvs - 1" and ?p = "length (block_of contents ikvs (length ikvs - 1)) - 1"
  have "\<exists>t'. do { t \<leftarrow> on_index (it_SeekToLast (wrapper_class icls)) t; t \<leftarrow> InitDataBlock icls dcls block_function t;
      on_data (it_SeekToLast (wrapper_class dcls)) t } = Some t' \<and> loaded ikvs contents ?j ?p t'"
    by (intro move_blocks [OF lay ld] iterator_impl.last [OF index.wrapper_impl] iterator_impl.last [OF data.wrapper_impl])
  then obtain t1 t2 t3 where steps: "on_index (it_SeekToLast (wrapper_class icls)) t = Some t1"
    "InitDataBlock icls dcls block_function t1 = Some t2" "on_data (it_SeekToLast (wrapper_class dcls)) t2 = Some t3"
    and t3: "loaded ikvs contents ?j ?p t3"
    by (auto simp: bind_eq_Some_conv simp del: wrapper_class_sel)
  have run: "TwoLevel_SeekToLast icls dcls block_function t = SkipEmptyDataBlocksBackward icls dcls block_function t3"
    by (simp add: TwoLevel_SeekToLast_def steps del: wrapper_class_sel)
  show ?thesis
  proof (cases "ikvs = []")
    case True
    then have "loaded ikvs contents (length ikvs) ?p t3" using t3 by simp
    from loaded_end [OF this] loaded_end_flags [OF this] show ?thesis using True layoutD(3) [OF lay] run
      by (subst (asm) SkipEmptyDataBlocksBackward.simps) simp
  next
    case False
    then have j: "?j < length ikvs" by simp
    have "entries_from contents ikvs (Suc ?j) = []" using j by (simp add: entries_from_def)
    then have "length kvs = length (entries_before contents ikvs ?j) + length (block_of contents ikvs ?j)"
      using entries_split [OF j, of contents] layoutD(3) [OF lay] by simp
    then have "(if ?p < length (block_of contents ikvs ?j) then length (entries_before contents ikvs ?j) + ?p
        else if length (entries_before contents ikvs ?j) = 0 then length kvs else length (entries_before contents ikvs ?j) - 1) =
        length kvs - 1"
      by (cases "block_of contents ikvs ?j") (auto split: if_splits)
    then show ?thesis using SkipBackward_eq [OF lay t3 j] run by simp
  qed
qed

lemma TwoLevel_Next_eq:
  assumes lay: "layout ikvs contents kvs" and at: "two_level_at ikvs contents q t" and q: "q < length kvs"
  shows "\<exists>t'. TwoLevel_Next icls dcls block_function t = Some t' \<and> two_level_at ikvs contents (q + 1) t'"
proof -
  obtain j p where ld: "loaded ikvs contents j p t" and j: "j < length ikvs" and p: "p < length (block_of contents ikvs j)"
    "q = length (entries_before contents ikvs j) + p"
    using at q layoutD(3) [OF lay] by (elim two_level_loaded) (auto simp: le_less)
  have "data.wrapped (block_of contents ikvs j) p (tl_data_iter t)" using ld j by (simp add: loaded_def)
  from iterator_impl.next_entry [OF data.wrapper_impl this p(1)]
  obtain w where w: "it_Next (wrapper_class dcls) (tl_data_iter t) = Some w" "data.wrapped (block_of contents ikvs j) (p + 1) w" by blast
  have "loaded ikvs contents j (p + 1) (t\<lparr>tl_data_iter := w\<rparr>)" using ld j w(2) by (simp add: loaded_def)
  from SkipForward_eq [OF lay this] show ?thesis using j p(2) w(1)
    by (simp add: TwoLevel_Next_def del: wrapper_class_sel)
qed

lemma TwoLevel_Prev_eq:
  assumes lay: "layout ikvs contents kvs" and at: "two_level_at ikvs contents q t" and q: "q < length kvs"
  shows "\<exists>t'. TwoLevel_Prev icls dcls block_function t = Some t' \<and>
    two_level_at ikvs contents (if q = 0 then length kvs else q - 1) t'"
proof -
  obtain j p where ld: "loaded ikvs contents j p t" and j: "j < length ikvs" and p: "p < length (block_of contents ikvs j)"
    "q = length (entries_before contents ikvs j) + p"
    using at q layoutD(3) [OF lay] by (elim two_level_loaded) (auto simp: le_less)
  let ?p = "if p = 0 then length (block_of contents ikvs j) else p - 1"
  have "data.wrapped (block_of contents ikvs j) p (tl_data_iter t)" using ld j by (simp add: loaded_def)
  from iterator_impl.prev_entry [OF data.wrapper_impl this p(1)]
  obtain w where w: "it_Prev (wrapper_class dcls) (tl_data_iter t) = Some w" "data.wrapped (block_of contents ikvs j) ?p w" by blast
  have "loaded ikvs contents j ?p (t\<lparr>tl_data_iter := w\<rparr>)" using ld j w(2) by (simp add: loaded_def)
  note SkipBackward_eq [OF lay this j]
  moreover have "(if ?p < length (block_of contents ikvs j) then length (entries_before contents ikvs j) + ?p
      else if length (entries_before contents ikvs j) = 0 then length kvs else length (entries_before contents ikvs j) - 1) =
      (if q = 0 then length kvs else q - 1)"
    using p by auto
  ultimately show ?thesis using w(1) by (simp only: TwoLevel_Prev_def bind.simps)
qed

lemma two_level_impl: "iterator_impl C ok (two_level_class icls dcls block_function) two_level_cursor"
proof (unfold_locales, goal_cases)
  case (1 kvs q t) then show ?case using layoutD(1) by (auto simp: two_level_cursor_def)
next
  case (2 kvs q t)
  then obtain ikvs contents where lay: "layout ikvs contents kvs" and at: "two_level_at ikvs contents q t" by (auto simp: two_level_cursor_def)
  from at show ?case using position_in(1) [OF lay] layoutD(3) [OF lay] by (elim two_level_loaded) (auto simp: le_less)
next
  case (3 kvs q t)
  then obtain ikvs contents where lay: "layout ikvs contents kvs" and at: "two_level_at ikvs contents q t" by (auto simp: two_level_cursor_def)
  from at obtain j p where ld: "loaded ikvs contents j p t" "j \<le> length ikvs"
    "j < length ikvs \<Longrightarrow> p < length (block_of contents ikvs j) \<and> q = length (entries_before contents ikvs j) + p"
    "j = length ikvs \<Longrightarrow> q = length (concat (map (contents \<circ> snd) ikvs))" by (rule two_level_loaded) blast
  show ?case
  proof (cases "j < length ikvs")
    case True
    then show ?thesis using ld(3) loaded_flags [OF ld(1) True] position_in(1) [OF lay True] by (simp add: two_level_class_def)
  next
    case False
    then show ?thesis using ld layoutD(3) [OF lay] by (simp add: two_level_class_def loaded_def no_data_def)
  qed
next
  case (4 kvs q t)
  then obtain ikvs contents where lay: "layout ikvs contents kvs" and at: "two_level_at ikvs contents q t" by (auto simp: two_level_cursor_def)
  obtain j p where ld: "loaded ikvs contents j p t" and j: "j < length ikvs" and p: "p < length (block_of contents ikvs j)"
    "q = length (entries_before contents ikvs j) + p"
    using at 4(2) layoutD(3) [OF lay] by (elim two_level_loaded) (auto simp: le_less)
  have "data.wrapped (block_of contents ikvs j) p (tl_data_iter t)" using ld j by (simp add: loaded_def)
  then show ?case using p position_in(2) [OF lay j p(1)] by (auto simp: two_level_class_def data.wrapped_def)
next
  case (5 kvs q t)
  then obtain ikvs contents where lay: "layout ikvs contents kvs" and at: "two_level_at ikvs contents q t" by (auto simp: two_level_cursor_def)
  obtain j p where ld: "loaded ikvs contents j p t" and j: "j < length ikvs" and p: "p < length (block_of contents ikvs j)"
    "q = length (entries_before contents ikvs j) + p"
    using at 5(2) layoutD(3) [OF lay] by (elim two_level_loaded) (auto simp: le_less)
  have "data.wrapped (block_of contents ikvs j) p (tl_data_iter t)" using ld j by (simp add: loaded_def)
  from iterator_impl.value_eq [OF data.wrapper_impl this p(1)] show ?case
    using p position_in(2) [OF lay j p(1)] by (simp add: two_level_class_def del: wrapper_class_sel)
next
  case (6 kvs q t)
  then obtain ikvs contents j p where ld: "loaded ikvs contents j p t" by (auto simp: two_level_cursor_def two_level_at_def)
  then have "index.wrapped ikvs j (tl_index_iter t)" by (simp add: loaded_def)
  from iterator_impl.status [OF index.wrapper_impl this] data_status [OF loaded_known [OF ld]] ld show ?case
    by (simp add: two_level_class_def TwoLevel_status_def Let_def loaded_def del: wrapper_class_sel)
next
  case (7 kvs q t) then show ?case using TwoLevel_SeekToFirst_eq unfolding two_level_cursor_def two_level_class_def by fastforce
next
  case (8 kvs q t) then show ?case using TwoLevel_SeekToLast_eq unfolding two_level_cursor_def two_level_class_def by fastforce
next
  case (9 kvs q t target) then show ?case using TwoLevel_Seek_eq unfolding two_level_cursor_def two_level_class_def by fastforce
next
  case (10 kvs q t) then show ?case using TwoLevel_Next_eq unfolding two_level_cursor_def two_level_class_def by fastforce
next
  case (11 kvs q t) then show ?case using TwoLevel_Prev_eq unfolding two_level_cursor_def two_level_class_def by fastforce
qed

lemma TwoLevelIterator_start:
  assumes lay: "layout ikvs contents kvs" and "IR ikvs (length ikvs) it"
  shows "two_level_cursor kvs (length kvs) (TwoLevelIterator icls dcls it)"
proof -
  have "index.wrapped ikvs (length ikvs) (IteratorWrapper icls (Some it))"
    unfolding IteratorWrapper_def by (rule index.wrapped_Set [OF assms(2)])
  then have "loaded ikvs contents (length ikvs) 0 (TwoLevelIterator icls dcls it)"
    by (simp add: loaded_def TwoLevelIterator_def no_data_def IteratorWrapper_def [of dcls] Wrapper_Set_def)
  then show ?thesis using lay layoutD(3) [OF lay] unfolding two_level_cursor_def two_level_at_def by force
qed

end

end
