(* ===== verification/Ldb_Table.thy ===== *)
theory Ldb_Table
  imports Ldb_Format Ldb_Filter Ldb_Two_Level
begin

text \<open>
  Tables: \<open>TableBuilder\<close> (\<open>table/table_builder.cc\<close>) writes sorted entries to a file as data
  blocks, a filter block, an index and a footer, and \<open>Table\<close> (\<open>table/table.cc\<close>) reads them back.
  The table is opened without a block cache.
\<close>

section \<open>Definitions\<close>

text \<open>The options that tables use.\<close>

record table_options =
  opt_comparator :: comparator_class
  opt_paranoid_checks :: bool
  opt_block_size :: nat
  opt_block_restart_interval :: int
  opt_compression :: u8
  opt_filter_policy :: "filter_policy_class option"

definition Options :: table_options where
  "Options = \<lparr>opt_comparator = BytewiseComparator, opt_paranoid_checks = False, opt_block_size = 4096,
     opt_block_restart_interval = 16, opt_compression = kSnappyCompression, opt_filter_policy = None\<rparr>"

definition string_bytes :: "string \<Rightarrow> bytes" where
  "string_bytes s = map of_char s"

subsection \<open>The builder\<close>

record 'f table_builder =
  tb_options :: table_options
  tb_index_block_options :: table_options
  tb_file :: 'f
  tb_offset :: u64
  tb_status :: Status
  tb_data_block :: block_builder
  tb_index_block :: block_builder
  tb_last_key :: bytes
  tb_num_entries :: int
  tb_closed :: bool
  tb_filter_block :: "filter_block_builder option"
  tb_filter_policy :: "filter_policy_class option"
  tb_pending_index_entry :: bool
  tb_pending_handle :: block_handle

text \<open>
  The operations of the filter block run only when there was a policy at the start. \<open>tb_filter_policy\<close> is
  the member \<open>policy_\<close> of the filter builder, which \<open>ChangeOptions\<close> leaves alone.
\<close>

definition on_filter ::
    "(filter_policy_class \<Rightarrow> filter_block_builder \<Rightarrow> filter_block_builder) \<Rightarrow> 'f table_builder \<Rightarrow> 'f table_builder" where
  "on_filter op r =
     (case (tb_filter_block r, tb_filter_policy r) of
        (Some b, Some policy) \<Rightarrow> r\<lparr>tb_filter_block := Some (op policy b)\<rparr>
      | _ \<Rightarrow> r)"

definition TableBuilder :: "table_options \<Rightarrow> 'f \<Rightarrow> 'f table_builder" where
  "TableBuilder options f =
     on_filter (\<lambda>policy. StartBlock policy 0)
       \<lparr>tb_options = options, tb_index_block_options = options\<lparr>opt_block_restart_interval := 1\<rparr>, tb_file = f,
        tb_offset = 0, tb_status = Status_OK, tb_data_block = BlockBuilder, tb_index_block = BlockBuilder,
        tb_last_key = [], tb_num_entries = 0, tb_closed = False,
        tb_filter_block = map_option (\<lambda>_. FilterBlockBuilder) (opt_filter_policy options),
        tb_filter_policy = opt_filter_policy options,
        tb_pending_index_entry = False, tb_pending_handle = BlockHandle\<rparr>"

text \<open>\<open>same_comparator\<close>: the new options have the same comparator object.\<close>

definition ChangeOptions :: "bool \<Rightarrow> table_options \<Rightarrow> 'f table_builder \<Rightarrow> Status \<times> 'f table_builder" where
  "ChangeOptions same_comparator options r =
     (if \<not> same_comparator then (InvalidArgument ''changing comparator while building table'', r)
      else (Status_OK, r\<lparr>tb_options := options,
        tb_index_block_options := options\<lparr>opt_block_restart_interval := 1\<rparr>\<rparr>))"

definition WriteRawBlock ::
    "'f writable_file_class \<Rightarrow> bytes \<Rightarrow> u8 \<Rightarrow> 'f table_builder \<Rightarrow> block_handle \<times> 'f table_builder" where
  "WriteRawBlock cls block_contents t r =
     (let handle = \<lparr>bh_offset = tb_offset r, bh_size = of_nat (length block_contents)\<rparr>;
          (s, f) = wf_append cls (tb_file r) block_contents;
          r = r\<lparr>tb_file := f, tb_status := s\<rparr>
      in if \<not> status_ok s then (handle, r)
         else
           let crc = Value 0 block_contents;
               crc = Extend 0 crc [t];
               trailer = t # EncodeFixed32 (Mask crc);
               (s, f) = wf_append cls (tb_file r) trailer;
               r = r\<lparr>tb_file := f, tb_status := s\<rparr>
           in if \<not> status_ok s then (handle, r)
              else (handle, r\<lparr>tb_offset := tb_offset r + (of_nat (length block_contents) + kBlockTrailerSize)\<rparr>))"

text \<open>\<open>WriteBlock\<close> on the bytes of a finished block; the caller resets the builder.\<close>

definition compress_block :: "snappy_library option \<Rightarrow> u8 \<Rightarrow> bytes \<Rightarrow> bytes \<times> u8" where
  "compress_block lib t raw =
     (if t = kSnappyCompression then
        (case Snappy_Compress lib raw of
           Some compressed \<Rightarrow>
             if length compressed < length raw - length raw div 8 then (compressed, t) else (raw, kNoCompression)
         | None \<Rightarrow> (raw, kNoCompression))
      else if t = kNoCompression then (raw, t)
      else ([], t))"

definition WriteBlock ::
    "snappy_library option \<Rightarrow> 'f writable_file_class \<Rightarrow> block_builder \<Rightarrow> 'f table_builder \<Rightarrow>
     block_builder \<times> block_handle \<times> 'f table_builder" where
  "WriteBlock lib cls block r =
     (let (raw, block) = BlockBuilder_Finish block;
          (block_contents, t) = compress_block lib (opt_compression (tb_options r)) raw;
          (handle, r) = WriteRawBlock cls block_contents t r
      in (BlockBuilder_Reset block, handle, r))"

definition TableBuilder_Flush ::
    "snappy_library option \<Rightarrow> 'f writable_file_class \<Rightarrow> 'f table_builder \<Rightarrow> 'f table_builder" where
  "TableBuilder_Flush lib cls r =
     (if \<not> status_ok (tb_status r) then r
      else if BlockBuilder_empty (tb_data_block r) then r
      else
        let (data_block, handle, r) = WriteBlock lib cls (tb_data_block r) r;
            r = r\<lparr>tb_data_block := data_block, tb_pending_handle := handle\<rparr>;
            r = (if status_ok (tb_status r) then
                   let (s, f) = wf_flush cls (tb_file r) in
                   r\<lparr>tb_pending_index_entry := True, tb_file := f, tb_status := s\<rparr>
                 else r)
        in on_filter (\<lambda>policy. StartBlock policy (tb_offset r)) r)"

definition add_index_entry :: "bytes \<Rightarrow> 'f table_builder \<Rightarrow> 'f table_builder" where
  "add_index_entry separator r =
     r\<lparr>tb_last_key := separator,
       tb_index_block := BlockBuilder_Add (opt_block_restart_interval (tb_index_block_options r)) (tb_index_block r)
         separator (BlockHandle_EncodeTo (tb_pending_handle r) []),
       tb_pending_index_entry := False\<rparr>"

definition TableBuilder_Add ::
    "snappy_library option \<Rightarrow> 'f writable_file_class \<Rightarrow> bytes \<Rightarrow> bytes \<Rightarrow> 'f table_builder \<Rightarrow> 'f table_builder" where
  "TableBuilder_Add lib cls key val r =
     (if \<not> status_ok (tb_status r) then r
      else
        let r = (if tb_pending_index_entry r
                 then add_index_entry (FindShortestSeparator (opt_comparator (tb_options r)) (tb_last_key r) key) r
                 else r);
            r = on_filter (\<lambda>policy. AddKey key) r;
            r = r\<lparr>tb_last_key := key, tb_num_entries := tb_num_entries r + 1,
                  tb_data_block := BlockBuilder_Add (opt_block_restart_interval (tb_options r)) (tb_data_block r) key val\<rparr>
        in if CurrentSizeEstimate (tb_data_block r) \<ge> opt_block_size (tb_options r)
           then TableBuilder_Flush lib cls r else r)"

definition TableBuilder_status :: "'f table_builder \<Rightarrow> Status" where
  "TableBuilder_status r = tb_status r"

text \<open>The steps of \<open>Finish\<close>.\<close>

definition filter_key :: "filter_policy_class \<Rightarrow> bytes" where
  "filter_key policy = string_bytes ''filter.'' @ string_bytes (fp_Name policy)"

definition finish_filter ::
    "'f writable_file_class \<Rightarrow> 'f table_builder \<Rightarrow> block_handle \<times> 'f table_builder" where
  "finish_filter cls r =
     (case (tb_filter_block r, tb_filter_policy r) of
        (Some b, Some policy) \<Rightarrow>
          if status_ok (tb_status r) then
            let (contents, b) = FilterBlock_Finish policy b
            in WriteRawBlock cls contents kNoCompression (r\<lparr>tb_filter_block := Some b\<rparr>)
          else (BlockHandle, r)
      | _ \<Rightarrow> (BlockHandle, r))"

text \<open>
  The name is that of the policy in the current options. If they have none any more while there is a
  filter block, the code dereferences \<open>NULL\<close>; that entry is left out here.
\<close>

definition finish_metaindex ::
    "snappy_library option \<Rightarrow> 'f writable_file_class \<Rightarrow> block_handle \<Rightarrow> 'f table_builder \<Rightarrow>
     block_handle \<times> 'f table_builder" where
  "finish_metaindex lib cls filter_block_handle r =
     (if status_ok (tb_status r) then
        let meta_index_block = BlockBuilder;
            meta_index_block =
              (case (tb_filter_block r, opt_filter_policy (tb_options r)) of
                 (Some b, Some policy) \<Rightarrow>
                   BlockBuilder_Add (opt_block_restart_interval (tb_options r)) meta_index_block (filter_key policy)
                     (BlockHandle_EncodeTo filter_block_handle [])
               | _ \<Rightarrow> meta_index_block)
        in snd (WriteBlock lib cls meta_index_block r)
      else (BlockHandle, r))"

definition finish_index ::
    "snappy_library option \<Rightarrow> 'f writable_file_class \<Rightarrow> 'f table_builder \<Rightarrow> block_handle \<times> 'f table_builder" where
  "finish_index lib cls r =
     (if status_ok (tb_status r) then
        let r = (if tb_pending_index_entry r
                 then add_index_entry (FindShortSuccessor (opt_comparator (tb_options r)) (tb_last_key r)) r
                 else r);
            (index_block, handle, r) = WriteBlock lib cls (tb_index_block r) r
        in (handle, r\<lparr>tb_index_block := index_block\<rparr>)
      else (BlockHandle, r))"

definition finish_footer ::
    "'f writable_file_class \<Rightarrow> block_handle \<Rightarrow> block_handle \<Rightarrow> 'f table_builder \<Rightarrow> 'f table_builder" where
  "finish_footer cls metaindex_block_handle index_block_handle r =
     (if status_ok (tb_status r) then
        let footer_encoding =
              Footer_EncodeTo \<lparr>ft_metaindex_handle = metaindex_block_handle, ft_index_handle = index_block_handle\<rparr> [];
            (s, f) = wf_append cls (tb_file r) footer_encoding;
            r = r\<lparr>tb_file := f, tb_status := s\<rparr>
        in if status_ok s then r\<lparr>tb_offset := tb_offset r + of_nat (length footer_encoding)\<rparr> else r
      else r)"

definition TableBuilder_Finish ::
    "snappy_library option \<Rightarrow> 'f writable_file_class \<Rightarrow> 'f table_builder \<Rightarrow> Status \<times> 'f table_builder" where
  "TableBuilder_Finish lib cls r =
     (let r = TableBuilder_Flush lib cls r;
          r = r\<lparr>tb_closed := True\<rparr>;
          (filter_block_handle, r) = finish_filter cls r;
          (metaindex_block_handle, r) = finish_metaindex lib cls filter_block_handle r;
          (index_block_handle, r) = finish_index lib cls r;
          r = finish_footer cls metaindex_block_handle index_block_handle r
      in (tb_status r, r))"

definition TableBuilder_Abandon :: "'f table_builder \<Rightarrow> 'f table_builder" where
  "TableBuilder_Abandon r = r\<lparr>tb_closed := True\<rparr>"

definition TableBuilder_NumEntries :: "'f table_builder \<Rightarrow> u64" where
  "TableBuilder_NumEntries r = of_int (tb_num_entries r)"

definition TableBuilder_FileSize :: "'f table_builder \<Rightarrow> u64" where
  "TableBuilder_FileSize r = tb_offset r"

subsection \<open>The reader\<close>

record sstable =
  tr_options :: table_options
  tr_file :: random_access_file
  tr_filter :: "filter_block_reader option"
  tr_metaindex_handle :: block_handle
  tr_index_block :: block

text \<open>\<open>None\<close> is a read outside the memory; \<open>uninit\<close> is the value of an uninitialised field.\<close>

definition meta_options :: "table_options \<Rightarrow> read_options" where
  "meta_options options = (if opt_paranoid_checks options then ReadOptions\<lparr>ro_verify_checksums := True\<rparr> else ReadOptions)"

definition ReadFilter :: "snappy_library option \<Rightarrow> filter_policy_class \<Rightarrow> bytes \<Rightarrow> sstable \<Rightarrow> sstable option" where
  "ReadFilter lib policy filter_handle_value t =
     (case BlockHandle_DecodeFrom BlockHandle filter_handle_value of
        (s, filter_handle, _) \<Rightarrow>
          if \<not> status_ok s then Some t
          else do {
            (s, block) \<leftarrow> ReadBlock lib (tr_file t) (meta_options (tr_options t)) filter_handle;
            if \<not> status_ok s then Some t
            else Some (t\<lparr>tr_filter := Some (FilterBlockReader (bc_data block))\<rparr>)
          })"

definition ReadMeta :: "snappy_library option \<Rightarrow> u32 \<Rightarrow> footer \<Rightarrow> sstable \<Rightarrow> sstable option" where
  "ReadMeta lib uninit f t =
     (case opt_filter_policy (tr_options t) of
        None \<Rightarrow> Some t
      | Some policy \<Rightarrow> do {
          (s, contents) \<leftarrow> ReadBlock lib (tr_file t) (meta_options (tr_options t)) (ft_metaindex_handle f);
          if \<not> status_ok s then Some t
          else do {
            let cls = either_class EmptyIterator (block_iter_class BytewiseComparator);
            let iter = Block_NewIterator (Block uninit (bc_data contents));
            let key = filter_key policy;
            iter \<leftarrow> it_Seek cls key iter;
            if it_Valid cls iter \<and> it_key cls iter = key then do {
              v \<leftarrow> it_value cls iter;
              ReadFilter lib policy v t
            } else Some t
          }
        })"

definition Table_Open ::
    "snappy_library option \<Rightarrow> u32 \<Rightarrow> table_options \<Rightarrow> random_access_file \<Rightarrow> u64 \<Rightarrow> (Status \<times> sstable option) option" where
  "Table_Open lib uninit options f sz =
     (if sz < of_nat kEncodedLength then Some (Corruption ''file is too short to be an sstable'', None)
      else
        do {
            (s, footer_input, _) \<leftarrow> f (sz - of_nat kEncodedLength) (of_nat kEncodedLength);
            if \<not> status_ok s then Some (s, None)
            else do {
              (s, ft, _) \<leftarrow> Footer_DecodeFrom Footer footer_input;
              if \<not> status_ok s then Some (s, None)
              else do {
                (s, contents) \<leftarrow> ReadBlock lib f (meta_options options) (ft_index_handle ft);
                if \<not> status_ok s then Some (s, None)
                else do {
                  t \<leftarrow> ReadMeta lib uninit ft
                    \<lparr>tr_options = options, tr_file = f, tr_filter = None, tr_metaindex_handle = ft_metaindex_handle ft,
                     tr_index_block = Block uninit (bc_data contents)\<rparr>;
                  Some (s, Some t)
                }
              }
            }
        })"

text \<open>Without a block cache, \<open>BlockReader\<close> reads the block.\<close>

type_synonym table_block_iter = "Status + block_iter"

definition table_iter_class :: "comparator_class \<Rightarrow> table_block_iter iterator_class" where
  "table_iter_class C = either_class EmptyIterator (block_iter_class C)"

definition BlockReader ::
    "snappy_library option \<Rightarrow> u32 \<Rightarrow> sstable \<Rightarrow> read_options \<Rightarrow> bytes \<Rightarrow> table_block_iter option" where
  "BlockReader lib uninit t options index_value =
     (case BlockHandle_DecodeFrom BlockHandle index_value of
        (s, handle, _) \<Rightarrow>
          if \<not> status_ok s then Some (Inl (NewErrorIterator s))
          else do {
            (s, contents) \<leftarrow> ReadBlock lib (tr_file t) options handle;
            if \<not> status_ok s then Some (Inl (NewErrorIterator s))
            else Some (Block_NewIterator (Block uninit (bc_data contents)))
          })"

definition Table_NewIterator ::
    "comparator_class \<Rightarrow> sstable \<Rightarrow> (table_block_iter, table_block_iter) two_level_iterator" where
  "Table_NewIterator C t =
     TwoLevelIterator (table_iter_class C) (table_iter_class C) (Block_NewIterator (tr_index_block t))"

definition table_class ::
    "snappy_library option \<Rightarrow> u32 \<Rightarrow> sstable \<Rightarrow> read_options \<Rightarrow>
     (table_block_iter, table_block_iter) two_level_iterator iterator_class" where
  "table_class lib uninit t options =
     (let cls = table_iter_class (opt_comparator (tr_options t)) in two_level_class cls cls (BlockReader lib uninit t options))"

text \<open>The status, and the entry that the callback is called with.\<close>

definition filter_excludes :: "sstable \<Rightarrow> bytes \<Rightarrow> bytes \<Rightarrow> bool option" where
  "filter_excludes t handle_value k =
     (case (tr_filter t, opt_filter_policy (tr_options t)) of
        (Some fr, Some policy) \<Rightarrow>
          (case BlockHandle_DecodeFrom BlockHandle handle_value of
             (s, handle, _) \<Rightarrow>
               if \<not> status_ok s then Some False
               else map_option Not (FilterBlock_KeyMayMatch policy fr (bh_offset handle) k))
      | _ \<Rightarrow> Some False)"

definition InternalGet ::
    "snappy_library option \<Rightarrow> u32 \<Rightarrow> sstable \<Rightarrow> read_options \<Rightarrow> bytes \<Rightarrow> (Status \<times> (bytes \<times> bytes) option) option" where
  "InternalGet lib uninit t options k = do {
     let cls = table_iter_class (opt_comparator (tr_options t));
     iiter \<leftarrow> it_Seek cls k (Block_NewIterator (tr_index_block t));
     (s, saved) \<leftarrow>
       (if it_Valid cls iiter then do {
          handle_value \<leftarrow> it_value cls iiter;
          excluded \<leftarrow> filter_excludes t handle_value k;
          if excluded then Some (Status_OK, None)
          else do {
            block_iter \<leftarrow> BlockReader lib uninit t options handle_value;
            block_iter \<leftarrow> it_Seek cls k block_iter;
            saved \<leftarrow> (if it_Valid cls block_iter then do {
                v \<leftarrow> it_value cls block_iter;
                Some (Some (it_key cls block_iter, v))
              } else Some None);
            Some (it_status cls block_iter, saved)
          }
        } else Some (Status_OK, None));
     Some (if status_ok s then it_status cls iiter else s, saved)
   }"

definition ApproximateOffsetOf :: "sstable \<Rightarrow> bytes \<Rightarrow> u64 option" where
  "ApproximateOffsetOf t key = do {
     let cls = table_iter_class (opt_comparator (tr_options t));
     index_iter \<leftarrow> it_Seek cls key (Block_NewIterator (tr_index_block t));
     if it_Valid cls index_iter then do {
       input \<leftarrow> it_value cls index_iter;
       (case BlockHandle_DecodeFrom BlockHandle input of
          (s, handle, _) \<Rightarrow> if status_ok s then Some (bh_offset handle) else Some (bh_offset (tr_metaindex_handle t)))
     } else Some (bh_offset (tr_metaindex_handle t))
   }"

section \<open>The iterator over a table\<close>

interpretation bytewise_table: two_level BytewiseComparator "\<lambda>_. True"
    "table_iter_class BytewiseComparator" bytewise_block.on_right
    "table_iter_class BytewiseComparator" bytewise_block.on_right "BlockReader lib uninit t options"
  for lib uninit t options
  unfolding two_level_def table_iter_class_def using bytewise_block.on_right_impl by blast

interpretation internal_table: two_level "InternalKeyComparator BytewiseComparator" "valid_ikey (\<lambda>_. True)"
    "table_iter_class (InternalKeyComparator BytewiseComparator)" internal_block.on_right
    "table_iter_class (InternalKeyComparator BytewiseComparator)" internal_block.on_right "BlockReader lib uninit t options"
  for lib uninit t options
  unfolding two_level_def table_iter_class_def using internal_block.on_right_impl by blast

end
