(* ===== verification/Ldb_Table_Build.thy ===== *)
theory Ldb_Table_Build
  imports Ldb_Table
begin

text \<open>
  What \<open>TableBuilder\<close> leaves in the file: the blocks with their entries, the separators of the
  index, the filter and the footer. The invariant of the builder is kept by every call of \<open>Add\<close>.
\<close>

section \<open>Blocks of the file\<close>

lemma BlockBuilder_Reset_eq [simp]: "BlockBuilder_Reset b = BlockBuilder"
  by (simp add: BlockBuilder_Reset_def BlockBuilder_def)

lemma add_all_snoc: "add_all i (kvs @ [(k, v)]) = BlockBuilder_Add i (add_all i kvs) k v"
  by (simp add: add_all_def)

lemma add_all_Nil [simp]: "add_all i [] = BlockBuilder"
  by (simp add: add_all_def)

lemma PutVarint32_append: "PutVarint32 dst x = dst @ varint_bytes (unat x)"
  by (simp add: PutVarint32_def EncodeVarint32_bytes)

lemma BlockBuilder_Add_buffer: "bb_buffer (BlockBuilder_Add i b k v) \<noteq> []"
proof -
  have "varint_bytes n \<noteq> []" for n using varint_bytes_pos [of n] by auto
  then show ?thesis by (simp add: BlockBuilder_Add_def Let_def PutVarint32_append split: prod.split)
qed

lemma BlockBuilder_empty_add_all: "BlockBuilder_empty (add_all i kvs) \<longleftrightarrow> kvs = []"
proof (cases kvs rule: rev_cases)
  case Nil
  then show ?thesis by (simp add: BlockBuilder_empty_def BlockBuilder_def)
next
  case (snoc ys y)
  then show ?thesis
    using BlockBuilder_Add_buffer [of i "add_all i ys" "fst y" "snd y"] add_all_snoc [of i ys "fst y" "snd y"]
    by (simp add: BlockBuilder_empty_def)
qed

lemma trailer_bytes:
  "stored raw = raw @ kNoCompression # EncodeFixed32 (Mask (Extend 0 (Value 0 raw) [kNoCompression]))"
  by (simp add: stored_def Value_def Extend_crc crc32c_append)

lemma build_block_single_length: "length (build_block i [(k, v)]) \<le> length k + length v + 27"
  using varint_bytes_length_u32 [of "of_nat (length v)"] varint_bytes_length_u32 [of "of_nat (length k)"]
    varint_bytes_length_u32 [of "of_nat (shared_loop [] k 0 0)"]
  by (auto simp: build_block_def add_all_def BlockBuilder_def BlockBuilder_Add_def BlockBuilder_Finish_def
      PutVarint32_append PutFixed32_def Let_def shared_loop.simps)

text \<open>A written block of the table: the separator of its index entry, its handle and its entries.\<close>

type_synonym table_block = "bytes \<times> block_handle \<times> entries"

abbreviation separator_of :: "table_block \<Rightarrow> bytes" where "separator_of b \<equiv> fst b"
abbreviation handle_of :: "table_block \<Rightarrow> block_handle" where "handle_of b \<equiv> fst (snd b)"
abbreviation entries_of :: "table_block \<Rightarrow> entries" where "entries_of b \<equiv> snd (snd b)"

definition index_entries :: "table_block list \<Rightarrow> entries" where
  "index_entries blocks = map (\<lambda>b. (separator_of b, BlockHandle_EncodeTo (handle_of b) [])) blocks"

lemma index_entries_append [simp]: "index_entries (xs @ ys) = index_entries xs @ index_entries ys"
  by (simp add: index_entries_def)

section \<open>The builder\<close>

text \<open>A client writes a table: it adds the entries and finishes.\<close>

definition add_entries ::
    "snappy_library option \<Rightarrow> 'f writable_file_class \<Rightarrow> entries \<Rightarrow> 'f table_builder \<Rightarrow> 'f table_builder" where
  "add_entries lib cls kvs r = foldl (\<lambda>r (k, v). TableBuilder_Add lib cls k v r) r kvs"

definition write_table ::
    "snappy_library option \<Rightarrow> 'f writable_file_class \<Rightarrow> table_options \<Rightarrow> entries \<Rightarrow> 'f \<Rightarrow> Status \<times> 'f table_builder" where
  "write_table lib cls options kvs f = TableBuilder_Finish lib cls (add_entries lib cls kvs (TableBuilder options f))"

text \<open>
  A comparator, a healthy file and options without compression: \<open>kSnappyCompression\<close> has no effect
  without the library.
\<close>

locale table_writer = comparator C ok + out: writable_file cls content healthy
  for C :: comparator_class and ok :: "bytes \<Rightarrow> bool"
    and cls :: "'f writable_file_class" and content :: "'f \<Rightarrow> bytes" and healthy :: "'f \<Rightarrow> bool" +
  fixes lib :: "snappy_library option" and options :: table_options
  assumes options_comparator: "opt_comparator options = C"
    and interval: "1 \<le> opt_block_restart_interval options"
    and compression: "opt_compression options = kNoCompression \<or> opt_compression options = kSnappyCompression \<and> lib = None"
    and policy: "opt_filter_policy options = Some P \<Longrightarrow> filter_policy P"
begin

abbreviation interval_of :: int where "interval_of \<equiv> opt_block_restart_interval options"

lemma compress: "compress_block lib (opt_compression options) raw = (raw, kNoCompression)"
  using compression by (auto simp: compress_block_def Snappy_Compress_def kNoCompression_def kSnappyCompression_def)

text \<open>The parts of the builder that writing a block leaves alone.\<close>

definition on_file :: "'f table_builder \<Rightarrow> bool" where
  "on_file r \<longleftrightarrow> healthy (tb_file r) \<and> tb_status r = Status_OK \<and> tb_options r = options \<and>
     tb_index_block_options r = options\<lparr>opt_block_restart_interval := 1\<rparr> \<and>
     tb_filter_policy r = opt_filter_policy options \<and> tb_offset r = of_nat (length (content (tb_file r)))"

abbreviation written :: "'f table_builder \<Rightarrow> bytes" where "written r \<equiv> content (tb_file r)"

lemma WriteRawBlock_writes:
  assumes "on_file r"
  shows "\<exists>f'. WriteRawBlock cls raw kNoCompression r =
      (\<lparr>bh_offset = of_nat (length (written r)), bh_size = of_nat (length raw)\<rparr>,
       r\<lparr>tb_file := f', tb_status := Status_OK, tb_offset := of_nat (length (content f'))\<rparr>) \<and> content f' = written r @ stored raw \<and> healthy f'"
proof -
  let ?trailer = "kNoCompression # EncodeFixed32 (Mask (Extend 0 (Value 0 raw) [kNoCompression]))"
  have r: "healthy (tb_file r)" "tb_offset r = of_nat (length (written r))" "tb_status r = Status_OK"
    using assms by (simp_all add: on_file_def)
  obtain f1 where f1: "wf_append cls (tb_file r) raw = (Status_OK, f1)" "content f1 = written r @ raw" "healthy f1"
    using out.append [OF r(1)] by blast
  obtain f2 where f2: "wf_append cls f1 ?trailer = (Status_OK, f2)" "content f2 = content f1 @ ?trailer" "healthy f2"
    using out.append [OF f1(3)] by blast
  have c: "content f2 = written r @ stored raw" unfolding trailer_bytes f2(2) f1(2) by simp
  have "tb_offset r + (of_nat (length raw) + kBlockTrailerSize) = of_nat (length (content f2))"
    by (simp add: c r(2) kBlockTrailerSize_def)
  then have "WriteRawBlock cls raw kNoCompression r =
      (\<lparr>bh_offset = of_nat (length (written r)), bh_size = of_nat (length raw)\<rparr>,
       r\<lparr>tb_file := f2, tb_status := Status_OK, tb_offset := of_nat (length (content f2))\<rparr>)"
    unfolding WriteRawBlock_def Let_def using f1(1) f2(1) by (simp add: r(2) del: EncodeFixed32_le)
  then show ?thesis using f2(3) c by blast
qed

lemma WriteBlock_writes:
  assumes "on_file r"
  shows "\<exists>f'. WriteBlock lib cls b r = (BlockBuilder,
      \<lparr>bh_offset = of_nat (length (written r)), bh_size = of_nat (length (fst (BlockBuilder_Finish b)))\<rparr>,
      r\<lparr>tb_file := f', tb_status := Status_OK, tb_offset := of_nat (length (content f'))\<rparr>) \<and>
      content f' = written r @ stored (fst (BlockBuilder_Finish b)) \<and> healthy f'"
proof -
  have o: "tb_options r = options" using assms by (simp add: on_file_def)
  obtain raw b' where fin: "BlockBuilder_Finish b = (raw, b')" by fastforce
  obtain f' where "WriteRawBlock cls raw kNoCompression r =
      (\<lparr>bh_offset = of_nat (length (written r)), bh_size = of_nat (length raw)\<rparr>,
       r\<lparr>tb_file := f', tb_status := Status_OK, tb_offset := of_nat (length (content f'))\<rparr>)"
    "content f' = written r @ stored raw" "healthy f'" using WriteRawBlock_writes [OF assms] by blast
  then show ?thesis by (intro exI [of _ f']) (simp add: WriteBlock_def Let_def o compress fin)
qed

text \<open>
  The state between two calls: the blocks with an index entry, the block that waits for one, and
  the entries of the data block.
\<close>

definition flushed :: "table_block list \<Rightarrow> (block_handle \<times> entries) option \<Rightarrow> (block_handle \<times> entries) list" where
  "flushed blocks pending = map snd blocks @ (case pending of None \<Rightarrow> [] | Some b \<Rightarrow> [b])"

definition all_entries :: "table_block list \<Rightarrow> (block_handle \<times> entries) option \<Rightarrow> entries \<Rightarrow> entries" where
  "all_entries blocks pending cur = concat (map snd (flushed blocks pending)) @ cur"

definition blocks_stored :: "bytes \<Rightarrow> (block_handle \<times> entries) list \<Rightarrow> bool" where
  "blocks_stored bs fl \<longleftrightarrow> (\<forall>(h, es)\<in>set fl. es \<noteq> [] \<and> stored_at bs h (build_block interval_of es)) \<and>
     (length bs < 2 ^ 63 \<longrightarrow> distinct (map fst fl))"

definition separated :: "table_block list \<Rightarrow> entries \<Rightarrow> bool" where
  "separated blocks rest \<longleftrightarrow>
     (\<forall>b\<in>set blocks. ok (separator_of b) \<and> (\<forall>x\<in>set (entries_of b). \<not> lt (separator_of b) (fst x)) \<and>
        (\<forall>x\<in>set rest. lt (separator_of b) (fst x))) \<and>
     sorted_wrt (\<lambda>b b'. \<forall>x\<in>set (entries_of b'). lt (separator_of b) (fst x)) blocks"

definition filter_holds :: "filter_block_builder option \<Rightarrow> u64 \<Rightarrow> (block_handle \<times> entries) list \<Rightarrow> entries \<Rightarrow> bool" where
  "filter_holds fb off fl cur \<longleftrightarrow>
     (case opt_filter_policy options of
        None \<Rightarrow> fb = None
      | Some P \<Rightarrow> \<exists>b added. fb = Some b \<and> filter_policy.filter_inv P b added off \<and>
          set added = (\<Union>(h, es)\<in>set fl. (\<lambda>x. (bh_offset h, fst x)) ` set es) \<union> (\<lambda>x. (off, fst x)) ` set cur \<and>
          length added = length (concat (map snd fl) @ cur))"

definition building ::
    "table_block list \<Rightarrow> (block_handle \<times> entries) option \<Rightarrow> entries \<Rightarrow> 'f table_builder \<Rightarrow> bool" where
  "building blocks pending cur r \<longleftrightarrow> on_file r \<and>
     sorted_entries C ok (all_entries blocks pending cur) \<and>
     blocks_stored (written r) (flushed blocks pending) \<and>
     separated blocks (all_entries [] pending cur) \<and>
     tb_index_block r = add_all 1 (index_entries blocks) \<and>
     tb_data_block r = add_all interval_of cur \<and>
     tb_pending_index_entry r = (pending \<noteq> None) \<and>
     (case pending of None \<Rightarrow> True
      | Some (h, es) \<Rightarrow> cur = [] \<and> tb_pending_handle r = h \<and> tb_last_key r = fst (last es)) \<and>
     (cur \<noteq> [] \<longrightarrow> tb_last_key r = fst (last cur)) \<and>
     (length (written r) < 2 ^ 63 \<longrightarrow> filter_holds (tb_filter_block r) (tb_offset r) (flushed blocks pending) cur)"

lemma on_filter_fields [simp]:
  "tb_options (on_filter op r) = tb_options r" "tb_index_block_options (on_filter op r) = tb_index_block_options r"
  "tb_file (on_filter op r) = tb_file r" "tb_offset (on_filter op r) = tb_offset r" "tb_status (on_filter op r) = tb_status r"
  "tb_data_block (on_filter op r) = tb_data_block r" "tb_index_block (on_filter op r) = tb_index_block r"
  "tb_last_key (on_filter op r) = tb_last_key r" "tb_filter_policy (on_filter op r) = tb_filter_policy r"
  "tb_pending_index_entry (on_filter op r) = tb_pending_index_entry r" "tb_pending_handle (on_filter op r) = tb_pending_handle r"
  by (simp_all add: on_filter_def split: option.split)

lemma on_file_on_filter [simp]: "on_file (on_filter op r) = on_file r"
  by (simp add: on_file_def)

lemma on_file_update [simp]:
  "on_file (r\<lparr>tb_last_key := k\<rparr>) = on_file r" "on_file (r\<lparr>tb_index_block := b\<rparr>) = on_file r"
  "on_file (r\<lparr>tb_data_block := b\<rparr>) = on_file r" "on_file (r\<lparr>tb_pending_index_entry := p\<rparr>) = on_file r"
  "on_file (r\<lparr>tb_num_entries := n\<rparr>) = on_file r" "on_file (r\<lparr>tb_filter_block := fb\<rparr>) = on_file r"
  "on_file (r\<lparr>tb_closed := c\<rparr>) = on_file r" "on_file (r\<lparr>tb_pending_handle := h\<rparr>) = on_file r"
  by (simp_all add: on_file_def)

definition block_keys :: "(block_handle \<times> entries) list \<Rightarrow> (u64 \<times> bytes) set" where
  "block_keys fl = (\<Union>(h, es)\<in>set fl. (\<lambda>x. (bh_offset h, fst x)) ` set es)"

lemma filter_holds_None:
  "opt_filter_policy options = None \<Longrightarrow> filter_holds fb off fl cur \<longleftrightarrow> fb = None"
  by (simp add: filter_holds_def)

lemma filter_holds_Some:
  "opt_filter_policy options = Some P \<Longrightarrow> filter_holds fb off fl cur \<longleftrightarrow>
     (\<exists>b added. fb = Some b \<and> filter_policy.filter_inv P b added off \<and>
       set added = block_keys fl \<union> (\<lambda>x. (off, fst x)) ` set cur \<and> length added = length (concat (map snd fl) @ cur))"
  by (simp add: filter_holds_def block_keys_def)

lemma filter_StartBlock:
  assumes "tb_filter_policy r = opt_filter_policy options" "filter_holds (tb_filter_block r) off fl cur" "off \<le> off'" "bh_offset h = off"
  shows "filter_holds (tb_filter_block (on_filter (\<lambda>P. StartBlock P off') r)) off' (fl @ [(h, cur)]) []"
proof (cases "opt_filter_policy options")
  case None
  then show ?thesis using assms by (simp add: filter_holds_None on_filter_def)
next
  case (Some P)
  then obtain b added where b: "tb_filter_block r = Some b" "filter_policy.filter_inv P b added off"
    "set added = block_keys fl \<union> (\<lambda>x. (off, fst x)) ` set cur" "length added = length (concat (map snd fl) @ cur)"
    using assms(2) by (auto simp: filter_holds_Some)
  have "filter_policy.filter_inv P (StartBlock P off' b) added off'"
    by (rule filter_policy.filter_inv_StartBlock [OF policy [OF Some] b(2) assms(3)])
  moreover have "tb_filter_block (on_filter (\<lambda>P. StartBlock P off') r) = Some (StartBlock P off' b)"
    by (simp add: on_filter_def b(1) Some assms(1))
  moreover have "set added = block_keys (fl @ [(h, cur)])" using b(3) assms(4) by (auto simp: block_keys_def)
  ultimately show ?thesis unfolding filter_holds_Some [OF Some] using b(4) by fastforce
qed

lemma filter_AddKey:
  assumes "tb_filter_policy r = opt_filter_policy options" "filter_holds (tb_filter_block r) off fl cur"
  shows "filter_holds (tb_filter_block (on_filter (\<lambda>P. AddKey key) r)) off fl (cur @ [(key, val)])"
proof (cases "opt_filter_policy options")
  case None
  then show ?thesis using assms by (simp add: filter_holds_None on_filter_def)
next
  case (Some P)
  then obtain b added where b: "tb_filter_block r = Some b" "filter_policy.filter_inv P b added off"
    "set added = block_keys fl \<union> (\<lambda>x. (off, fst x)) ` set cur" "length added = length (concat (map snd fl) @ cur)"
    using assms(2) by (auto simp: filter_holds_Some)
  have "filter_policy.filter_inv P (AddKey key b) ((off, key) # added) off"
    by (rule filter_policy.filter_inv_AddKey [OF policy [OF Some] b(2)])
  moreover have "tb_filter_block (on_filter (\<lambda>P. AddKey key) r) = Some (AddKey key b)"
    by (simp add: on_filter_def b(1) Some assms(1))
  moreover have "set ((off, key) # added) = block_keys fl \<union> (\<lambda>x. (off, fst x)) ` set (cur @ [(key, val)])"
    using b(3) by simp
  moreover have "length ((off, key) # added) = length (concat (map snd fl) @ cur @ [(key, val)])" using b(4) by simp
  ultimately show ?thesis unfolding filter_holds_Some [OF Some] by blast
qed

text \<open>\<open>Flush\<close> writes the data block, which then waits for its separator.\<close>

lemma blocks_stored_snoc:
  assumes "blocks_stored bs fl" "es \<noteq> []"
    and h: "h = \<lparr>bh_offset = of_nat (length bs), bh_size = of_nat (length (build_block interval_of es))\<rparr>"
  shows "blocks_stored (bs @ stored (build_block interval_of es)) (fl @ [(h, es)])"
proof -
  let ?bs = "bs @ stored (build_block interval_of es)"
  have "stored_at ?bs h (build_block interval_of es)"
    unfolding stored_at_def h by (intro exI [of _ bs] exI [of _ "[]"]) simp
  moreover have "h \<notin> fst ` set fl" if "length ?bs < 2 ^ 63"
  proof
    assume "h \<in> fst ` set fl"
    then obtain es' where "stored_at bs h (build_block interval_of es')" using assms(1) by (auto simp: blocks_stored_def)
    moreover have "length bs < 2 ^ 63" using that by simp
    ultimately have "unat (bh_offset h) + 5 \<le> length bs" using stored_at_offset(1) by fastforce
    moreover have "unat (bh_offset h) = length bs" using that by (simp add: h unat_of_nat_eq)
    ultimately show False by simp
  qed
  ultimately show ?thesis using assms(1,2) by (auto simp: blocks_stored_def intro: stored_at_append)
qed

lemma Flush_fields:
  assumes "on_file r" "\<not> BlockBuilder_empty (tb_data_block r)"
  shows "\<exists>r'. TableBuilder_Flush lib cls r = r' \<and> on_file r' \<and>
    written r' = written r @ stored (fst (BlockBuilder_Finish (tb_data_block r))) \<and>
    tb_pending_handle r' = \<lparr>bh_offset = of_nat (length (written r)),
      bh_size = of_nat (length (fst (BlockBuilder_Finish (tb_data_block r))))\<rparr> \<and>
    tb_pending_index_entry r' \<and> tb_data_block r' = BlockBuilder \<and> tb_index_block r' = tb_index_block r \<and>
    tb_last_key r' = tb_last_key r \<and>
    tb_filter_block r' = tb_filter_block (on_filter (\<lambda>P. StartBlock P (tb_offset r')) r)"
proof -
  let ?raw = "fst (BlockBuilder_Finish (tb_data_block r))"
  obtain f1 where f1: "WriteBlock lib cls (tb_data_block r) r = (BlockBuilder,
      \<lparr>bh_offset = of_nat (length (written r)), bh_size = of_nat (length ?raw)\<rparr>,
      r\<lparr>tb_file := f1, tb_status := Status_OK, tb_offset := of_nat (length (content f1))\<rparr>)"
    "content f1 = written r @ stored ?raw" "healthy f1"
    using WriteBlock_writes [OF assms(1)] by blast
  obtain f2 where f2: "wf_flush cls f1 = (Status_OK, f2)" "content f2 = content f1" "healthy f2"
    using out.flush [OF f1(3)] by blast
  have "tb_filter_block (on_filter op (r\<lparr>tb_file := f, tb_status := st, tb_offset := off, tb_data_block := b,
      tb_pending_handle := h, tb_pending_index_entry := p\<rparr>)) = tb_filter_block (on_filter op r)" for op f st off b h p
    by (simp add: on_filter_def split: option.split)
  then show ?thesis
    using assms f1 f2 by (auto simp: TableBuilder_Flush_def Let_def on_file_def on_filter_def split: option.split)
qed

lemma building_Flush:
  assumes inv: "building blocks None cur r" and ne: "cur \<noteq> []"
  shows "\<exists>h. building blocks (Some (h, cur)) [] (TableBuilder_Flush lib cls r)"
proof -
  have r: "on_file r" "tb_data_block r = add_all interval_of cur" "tb_last_key r = fst (last cur)"
    "blocks_stored (written r) (flushed blocks None)" using inv ne by (simp_all add: building_def)
  have "\<not> BlockBuilder_empty (tb_data_block r)" using ne r(2) by (simp add: BlockBuilder_empty_add_all)
  from Flush_fields [OF r(1) this] obtain r' where r': "TableBuilder_Flush lib cls r = r'" "on_file r'"
    "written r' = written r @ stored (build_block interval_of cur)"
    "tb_pending_handle r' = \<lparr>bh_offset = of_nat (length (written r)), bh_size = of_nat (length (build_block interval_of cur))\<rparr>"
    "tb_pending_index_entry r'" "tb_data_block r' = BlockBuilder" "tb_index_block r' = tb_index_block r"
    "tb_last_key r' = tb_last_key r" "tb_filter_block r' = tb_filter_block (on_filter (\<lambda>P. StartBlock P (tb_offset r')) r)"
    unfolding r(2) build_block_def [symmetric] by blast
  let ?h = "tb_pending_handle r'"
  have fl: "flushed blocks (Some (?h, cur)) = flushed blocks None @ [(?h, cur)]" by (simp add: flushed_def)
  have "filter_holds (tb_filter_block r') (tb_offset r') (flushed blocks (Some (?h, cur))) []" if "length (written r') < 2 ^ 63"
  proof -
    have off: "tb_offset r = of_nat (length (written r))" "tb_offset r' = of_nat (length (written r'))"
      "tb_filter_policy r = opt_filter_policy options" using r(1) r'(2) by (simp_all add: on_file_def)
    have "length (written r) \<le> length (written r')" using r'(3) by simp
    then have "tb_offset r \<le> tb_offset r'" using that by (simp add: off word_le_nat_alt unat_of_nat_eq)
    moreover have "bh_offset ?h = tb_offset r" by (simp add: r'(4) off)
    moreover have "filter_holds (tb_filter_block r) (tb_offset r) (flushed blocks None) cur"
      using inv that r'(3) by (simp add: building_def)
    ultimately show ?thesis unfolding r'(9) fl using off(3) by (intro filter_StartBlock)
  qed
  moreover have "blocks_stored (written r') (flushed blocks (Some (?h, cur)))"
    unfolding r'(3) fl by (rule blocks_stored_snoc [OF r(4) ne r'(4)])
  ultimately have "building blocks (Some (?h, cur)) [] r'"
    using inv r' r by (simp add: building_def all_entries_def flushed_def)
  then show ?thesis unfolding r'(1) by blast
qed

text \<open>The separator of the waiting block goes into the index.\<close>

lemma separated_snoc:
  assumes "separated blocks (es @ rest)" "ok sep" "\<forall>x\<in>set es. \<not> lt sep (fst x)" "\<forall>x\<in>set rest. lt sep (fst x)"
  shows "separated (blocks @ [(sep, h, es)]) rest"
  using assms by (auto simp: separated_def sorted_wrt_append)

lemma building_index:
  assumes inv: "building blocks (Some (h, es)) [] r" and sep: "ok sep" "\<forall>x\<in>set es. \<not> lt sep (fst x)"
  shows "building (blocks @ [(sep, h, es)]) None [] (add_index_entry sep r)"
proof -
  have fl: "flushed (blocks @ [(sep, h, es)]) None = flushed blocks (Some (h, es))" by (simp add: flushed_def)
  have "separated (blocks @ [(sep, h, es)]) []"
    using inv sep by (intro separated_snoc) (simp_all add: building_def all_entries_def flushed_def)
  moreover have "on_file (add_index_entry sep r) = on_file r" by (simp add: add_index_entry_def)
  moreover have "opt_block_restart_interval (tb_index_block_options r) = 1" using inv by (simp add: building_def on_file_def)
  ultimately show ?thesis
    using inv unfolding building_def fl all_entries_def
    by (simp add: add_index_entry_def index_entries_def add_all_snoc flushed_def)
qed

text \<open>An entry above all others goes into the data block.\<close>

definition add_entry :: "bytes \<Rightarrow> bytes \<Rightarrow> 'f table_builder \<Rightarrow> 'f table_builder" where
  "add_entry key val r =
     (let r = on_filter (\<lambda>P. AddKey key) r in
      r\<lparr>tb_last_key := key, tb_num_entries := tb_num_entries r + 1,
        tb_data_block := BlockBuilder_Add (opt_block_restart_interval (tb_options r)) (tb_data_block r) key val\<rparr>)"

lemma building_add_entry:
  assumes inv: "building blocks None cur r" and key: "ok key"
    and above: "\<forall>x\<in>set (all_entries blocks None cur). lt (fst x) key" "\<forall>b\<in>set blocks. lt (separator_of b) key"
  shows "building blocks None (cur @ [(key, val)]) (add_entry key val r)"
proof -
  let ?r = "add_entry key val r"
  have f: "on_file r" "tb_options r = options" "tb_filter_policy r = opt_filter_policy options"
    using inv by (simp_all add: building_def on_file_def)
  have r: "on_file ?r" "written ?r = written r" "tb_offset ?r = tb_offset r" "tb_index_block ?r = tb_index_block r"
    "tb_pending_index_entry ?r = tb_pending_index_entry r" "tb_last_key ?r = key"
    "tb_data_block ?r = BlockBuilder_Add interval_of (tb_data_block r) key val"
    "tb_filter_block ?r = tb_filter_block (on_filter (\<lambda>P. AddKey key) r)"
    using f by (simp_all add: add_entry_def Let_def)
  have "sorted_entries C ok (all_entries blocks None (cur @ [(key, val)]))"
    using inv key above(1) by (auto simp: building_def all_entries_def sorted_entries_def sorted_wrt_append)
  moreover have "separated blocks (all_entries [] None (cur @ [(key, val)]))"
    using inv above(2) by (auto simp: building_def all_entries_def flushed_def separated_def)
  moreover have "length (written ?r) < 2 ^ 63 \<longrightarrow>
      filter_holds (tb_filter_block ?r) (tb_offset ?r) (flushed blocks None) (cur @ [(key, val)])"
    using filter_AddKey [OF f(3)] inv unfolding r by (simp add: building_def)
  ultimately show ?thesis using inv r by (simp add: building_def add_all_snoc)
qed

definition ongoing :: "entries \<Rightarrow> 'f table_builder \<Rightarrow> bool" where
  "ongoing kvs r \<longleftrightarrow> (\<exists>blocks pending cur. building blocks pending cur r \<and> kvs = all_entries blocks pending cur \<and>
     (pending = None \<and> cur = [] \<longrightarrow> blocks = []))"

lemma separated_below:
  assumes "separated blocks rest" "x \<in> set rest" "b \<in> set blocks" "ok (fst x)" "ok key" "lt (fst x) key"
  shows "lt (separator_of b) key"
  using assms trans [of "separator_of b" "fst x" key] by (auto simp: separated_def)

lemma Add_eq: "tb_status r = Status_OK \<Longrightarrow> TableBuilder_Add lib cls key val r =
    (let r = add_entry key val
       (if tb_pending_index_entry r then add_index_entry (FindShortestSeparator (opt_comparator (tb_options r)) (tb_last_key r) key) r
        else r)
     in if CurrentSizeEstimate (tb_data_block r) \<ge> opt_block_size (tb_options r) then TableBuilder_Flush lib cls r else r)"
  by (simp add: TableBuilder_Add_def add_entry_def Let_def)

lemma ongoing_add_entry:
  assumes "ongoing kvs r" "ok key" "\<forall>x\<in>set kvs. lt (fst x) key"
  shows "\<exists>blocks cur. building blocks None (cur @ [(key, val)]) (add_entry key val
      (if tb_pending_index_entry r then add_index_entry (FindShortestSeparator (opt_comparator (tb_options r)) (tb_last_key r) key) r
       else r)) \<and> kvs @ [(key, val)] = all_entries blocks None (cur @ [(key, val)])"
proof -
  obtain blocks pending cur where inv: "building blocks pending cur r" "kvs = all_entries blocks pending cur"
    "pending = None \<and> cur = [] \<longrightarrow> blocks = []" using assms(1) by (auto simp: ongoing_def)
  have srt: "sorted_entries C ok kvs" and opts: "opt_comparator (tb_options r) = C"
    using inv options_comparator by (simp_all add: building_def on_file_def)
  have sep: "separated blocks (all_entries [] pending cur)" using inv(1) by (simp add: building_def)
  have okk: "ok (fst x)" if "x \<in> set kvs" for x using srt that by (auto simp: sorted_entries_def)
  have below: "lt (separator_of b) key" if "b \<in> set blocks" "x \<in> set (all_entries [] pending cur)" for b x
  proof -
    have "x \<in> set kvs" using that(2) inv(2) by (auto simp: all_entries_def flushed_def)
    then show ?thesis using separated_below [OF sep that(2,1) _ assms(2)] okk assms(3) by blast
  qed
  show ?thesis
  proof (cases pending)
    case None
    have "\<forall>b\<in>set blocks. lt (separator_of b) key"
    proof (cases cur)
      case (Cons x xs)
      then have "x \<in> set (all_entries [] pending cur)" by (simp add: all_entries_def)
      then show ?thesis using below by blast
    qed (use inv(3) None in simp)
    moreover have "\<not> tb_pending_index_entry r" using inv(1) None by (simp add: building_def)
    ultimately have "building blocks None (cur @ [(key, val)]) (add_entry key val r)"
      using building_add_entry [of blocks cur r key val] inv assms None by simp
    then show ?thesis using inv(2) None \<open>\<not> tb_pending_index_entry r\<close> by (auto simp: all_entries_def)
  next
    case (Some p)
    obtain h es where p: "p = (h, es)" by fastforce
    have cur: "cur = []" and last: "tb_last_key r = fst (last es)" and ne: "es \<noteq> []" and pend: "tb_pending_index_entry r"
      using inv(1) Some p by (simp_all add: building_def blocks_stored_def flushed_def)
    have es: "set es \<subseteq> set kvs" using inv(2) Some p by (auto simp: all_entries_def flushed_def)
    have "last es \<in> set kvs" using ne es by auto
    then have lok: "ok (fst (last es))" "lt (fst (last es)) key" using okk assms(3) by auto
    let ?sep = "FindShortestSeparator C (fst (last es)) key"
    have s: "ok ?sep" "?sep = fst (last es) \<or> lt (fst (last es)) ?sep \<and> lt ?sep key"
      using separator_ok [OF lok(1) assms(2)] separator [OF lok(1) assms(2)] lok(2) by auto
    have "\<not> lt ?sep (fst x)" if "x \<in> set es" for x
    proof -
      have "x = last es \<or> lt (fst x) (fst (last es))"
      proof (cases es rule: rev_cases)
        case (snoc ys y)
        then show ?thesis using srt inv(2) Some p cur that
          by (auto simp: sorted_entries_def all_entries_def flushed_def sorted_wrt_append)
      qed (use that in simp)
      moreover have "ok (fst x)" using that es okk by blast
      ultimately have "lt ?sep (fst x) \<Longrightarrow> lt ?sep (fst (last es))"
        using trans [OF s(1) _ lok(1), of "fst x"] by auto
      then show ?thesis using s(2) irrefl [OF lok(1)] asym [OF lok(1) s(1)] by auto
    qed
    then have b: "building (blocks @ [(?sep, h, es)]) None [] (add_index_entry ?sep r)"
      using building_index [of blocks h es r ?sep] inv(1) Some p cur s(1) by simp
    have all: "all_entries (blocks @ [(?sep, h, es)]) None [] = kvs"
      using inv(2) Some p cur by (simp add: all_entries_def flushed_def)
    have "last es \<in> set (all_entries [] pending cur)" using Some p ne by (simp add: all_entries_def flushed_def)
    then have "\<forall>b\<in>set (blocks @ [(?sep, h, es)]). lt (separator_of b) key" using below s(2) lok(2) by auto
    then have "building (blocks @ [(?sep, h, es)]) None ([] @ [(key, val)]) (add_entry key val (add_index_entry ?sep r))"
      using b all assms(2,3) by (intro building_add_entry) simp_all
    moreover have "kvs @ [(key, val)] = all_entries (blocks @ [(?sep, h, es)]) None ([] @ [(key, val)])"
      using all by (simp add: all_entries_def)
    ultimately show ?thesis unfolding if_P [OF pend] last opts by blast
  qed
qed

lemma ongoing_Add:
  assumes "ongoing kvs r" "ok key" "\<forall>x\<in>set kvs. lt (fst x) key"
  shows "ongoing (kvs @ [(key, val)]) (TableBuilder_Add lib cls key val r)"
proof -
  have "tb_status r = Status_OK" using assms(1) by (auto simp: ongoing_def building_def on_file_def)
  note eq = Add_eq [OF this, of key val]
  define r1 where "r1 = add_entry key val
      (if tb_pending_index_entry r then add_index_entry (FindShortestSeparator (opt_comparator (tb_options r)) (tb_last_key r) key) r
       else r)"
  obtain blocks cur where b: "building blocks None (cur @ [(key, val)]) r1"
    "kvs @ [(key, val)] = all_entries blocks None (cur @ [(key, val)])"
    using ongoing_add_entry [OF assms, of val] unfolding r1_def by blast
  obtain h where h: "building blocks (Some (h, cur @ [(key, val)])) [] (TableBuilder_Flush lib cls r1)"
    using building_Flush [OF b(1)] by auto
  have "ongoing (kvs @ [(key, val)]) r1" unfolding ongoing_def using b by blast
  moreover have "ongoing (kvs @ [(key, val)]) (TableBuilder_Flush lib cls r1)"
    unfolding ongoing_def using h b(2) by (intro exI [of _ blocks] exI) (auto simp: all_entries_def flushed_def)
  ultimately show ?thesis unfolding eq by (simp add: Let_def flip: r1_def)
qed

section \<open>The finished table\<close>

lemma on_file_start:
  assumes "healthy f" "content f = []"
  shows "ongoing [] (TableBuilder options f)"
proof -
  let ?r = "TableBuilder options f"
  have fields: "on_file ?r" "tb_index_block ?r = BlockBuilder" "tb_data_block ?r = BlockBuilder"
    "\<not> tb_pending_index_entry ?r" "written ?r = []" "tb_offset ?r = 0"
    using assms by (simp_all add: TableBuilder_def on_file_def on_filter_def split: option.split)
  have "filter_holds (tb_filter_block ?r) 0 [] []"
  proof (cases "opt_filter_policy options")
    case None
    then show ?thesis by (simp add: filter_holds_None TableBuilder_def on_filter_def)
  next
    case (Some P)
    have "tb_filter_block ?r = Some (StartBlock P 0 FilterBlockBuilder)"
      by (simp add: TableBuilder_def on_filter_def Some)
    then show ?thesis
      using filter_policy.filter_inv_init [OF policy [OF Some]] by (auto simp: filter_holds_Some [OF Some] block_keys_def)
  qed
  then have "building [] None [] ?r"
    using fields by (simp add: building_def all_entries_def flushed_def blocks_stored_def separated_def
        index_entries_def sorted_entries_def)
  then show ?thesis unfolding ongoing_def by (intro exI) (auto simp: all_entries_def flushed_def)
qed

lemma ongoing_add_entries:
  assumes "healthy f" "content f = []" "sorted_entries C ok kvs"
  shows "ongoing kvs (add_entries lib cls kvs (TableBuilder options f))"
  using assms(3)
proof (induction kvs rule: rev_induct)
  case Nil
  then show ?case using on_file_start [OF assms(1,2)] by (simp add: add_entries_def)
next
  case (snoc x kvs)
  have "sorted_entries C ok kvs" "ok (fst x)" "\<forall>y\<in>set kvs. lt (fst y) (fst x)"
    using snoc.prems by (auto simp: sorted_entries_def sorted_wrt_append)
  then have "ongoing (kvs @ [(fst x, snd x)]) (TableBuilder_Add lib cls (fst x) (snd x) (add_entries lib cls kvs (TableBuilder options f)))"
    using snoc.IH by (intro ongoing_Add)
  then show ?case by (simp add: add_entries_def case_prod_unfold)
qed

text \<open>The last flush and the last separator.\<close>

lemma ongoing_Flush:
  assumes "ongoing kvs r"
  shows "\<exists>blocks pending. building blocks pending [] (TableBuilder_Flush lib cls r) \<and> kvs = all_entries blocks pending []"
proof -
  obtain blocks pending cur where inv: "building blocks pending cur r" "kvs = all_entries blocks pending cur"
    using assms by (auto simp: ongoing_def)
  show ?thesis
  proof (cases "cur = []")
    case True
    then have "TableBuilder_Flush lib cls r = r"
      using inv(1) BlockBuilder_empty_add_all [of interval_of "[]"] by (simp add: TableBuilder_Flush_def building_def)
    then show ?thesis using inv True by auto
  next
    case False
    then have "pending = None" using inv(1) by (auto simp: building_def split: option.splits)
    then show ?thesis using building_Flush [OF _ False] inv by (fastforce simp: all_entries_def flushed_def)
  qed
qed

text \<open>The steps of \<open>Finish\<close>.\<close>

abbreviation handle_at :: "bytes \<Rightarrow> bytes \<Rightarrow> block_handle" where
  "handle_at bs raw \<equiv> \<lparr>bh_offset = of_nat (length bs), bh_size = of_nat (length raw)\<rparr>"

lemma handle_at_stored: "stored_at (bs @ stored raw @ rest) (handle_at bs raw) raw"
  unfolding stored_at_def by (intro exI [of _ bs] exI [of _ rest]) simp

definition same_index :: "'f table_builder \<Rightarrow> 'f table_builder \<Rightarrow> bool" where
  "same_index r r' \<longleftrightarrow> on_file r' \<and> tb_index_block r' = tb_index_block r \<and> tb_last_key r' = tb_last_key r \<and>
     tb_pending_index_entry r' = tb_pending_index_entry r \<and> tb_pending_handle r' = tb_pending_handle r \<and>
     (tb_filter_block r' = None \<longleftrightarrow> tb_filter_block r = None)"

lemma finish_filter_writes:
  assumes "on_file r"
  shows "\<exists>h r' x. finish_filter cls r = (h, r') \<and> same_index r r' \<and> written r' = written r @ x \<and>
    (\<forall>P b. opt_filter_policy options = Some P \<longrightarrow> tb_filter_block r = Some b \<longrightarrow>
       x = stored (fst (FilterBlock_Finish P b)) \<and> h = handle_at (written r) (fst (FilterBlock_Finish P b)))"
proof (cases "tb_filter_block r = None \<or> opt_filter_policy options = None")
  case True
  then have "finish_filter cls r = (BlockHandle, r)"
    using assms by (auto simp: finish_filter_def on_file_def split: option.splits)
  then show ?thesis using assms True by (auto simp: same_index_def)
next
  case False
  then obtain P b where P: "opt_filter_policy options = Some P" "tb_filter_block r = Some b" by auto
  obtain raw b' where fin: "FilterBlock_Finish P b = (raw, b')" by fastforce
  have r: "on_file (r\<lparr>tb_filter_block := Some b'\<rparr>)" using assms by simp
  from WriteRawBlock_writes [OF this, of raw] obtain f' where f: "WriteRawBlock cls raw kNoCompression (r\<lparr>tb_filter_block := Some b'\<rparr>) =
      (handle_at (written r) raw, r\<lparr>tb_filter_block := Some b', tb_file := f', tb_status := Status_OK,
         tb_offset := of_nat (length (content f'))\<rparr>)" "content f' = written r @ stored raw" "healthy f'" by auto
  have "finish_filter cls r = (handle_at (written r) raw, r\<lparr>tb_filter_block := Some b', tb_file := f', tb_status := Status_OK,
         tb_offset := of_nat (length (content f'))\<rparr>)"
    using assms P f(1) by (simp add: finish_filter_def on_file_def fin)
  then show ?thesis using f(2,3) P assms fin by (auto simp: same_index_def on_file_def)
qed

definition meta_entries :: "filter_block_builder option \<Rightarrow> block_handle \<Rightarrow> entries" where
  "meta_entries fb h = (case (fb, opt_filter_policy options) of
     (Some b, Some P) \<Rightarrow> [(filter_key P, BlockHandle_EncodeTo h [])] | _ \<Rightarrow> [])"

lemma finish_metaindex_writes:
  assumes "on_file r"
  shows "\<exists>r'. finish_metaindex lib cls h r =
      (handle_at (written r) (build_block interval_of (meta_entries (tb_filter_block r) h)), r') \<and>
    same_index r r' \<and> written r' = written r @ stored (build_block interval_of (meta_entries (tb_filter_block r) h))"
proof -
  have r: "tb_status r = Status_OK" "tb_options r = options" using assms by (simp_all add: on_file_def)
  have "finish_metaindex lib cls h r = snd (WriteBlock lib cls (add_all interval_of (meta_entries (tb_filter_block r) h)) r)"
    using r by (simp add: finish_metaindex_def meta_entries_def add_all_def split: option.split)
  moreover obtain f' where "WriteBlock lib cls (add_all interval_of (meta_entries (tb_filter_block r) h)) r =
      (BlockBuilder, handle_at (written r) (build_block interval_of (meta_entries (tb_filter_block r) h)),
       r\<lparr>tb_file := f', tb_status := Status_OK, tb_offset := of_nat (length (content f'))\<rparr>)"
    "content f' = written r @ stored (build_block interval_of (meta_entries (tb_filter_block r) h))" "healthy f'"
    using WriteBlock_writes [OF assms] unfolding build_block_def by blast
  ultimately show ?thesis using assms by (simp add: same_index_def on_file_def)
qed

lemma finish_index_writes:
  assumes "on_file r" "opt_comparator (tb_options r) = C"
    and r1: "r1 = (if tb_pending_index_entry r then add_index_entry (FindShortSuccessor C (tb_last_key r)) r else r)"
  shows "\<exists>r'. finish_index lib cls r = (handle_at (written r) (fst (BlockBuilder_Finish (tb_index_block r1))), r') \<and>
    on_file r' \<and> written r' = written r @ stored (fst (BlockBuilder_Finish (tb_index_block r1)))"
proof -
  have r: "on_file r1" "written r1 = written r" "tb_status r = Status_OK"
    using assms by (auto simp: add_index_entry_def on_file_def)
  from WriteBlock_writes [OF r(1), of "tb_index_block r1"] show ?thesis
    unfolding finish_index_def Let_def assms(2) r1 [symmetric] using r by (auto simp: on_file_def)
qed

lemma finish_footer_writes:
  assumes "on_file r"
  shows "\<exists>r'. finish_footer cls hm hi r = r' \<and> tb_status r' = Status_OK \<and>
    written r' = written r @ Footer_EncodeTo \<lparr>ft_metaindex_handle = hm, ft_index_handle = hi\<rparr> []"
proof -
  have r: "tb_status r = Status_OK" "healthy (tb_file r)" using assms by (simp_all add: on_file_def)
  then show ?thesis
    using out.append [OF r(2), of "Footer_EncodeTo \<lparr>ft_metaindex_handle = hm, ft_index_handle = hi\<rparr> []"]
    by (auto simp: finish_footer_def Let_def)
qed

text \<open>What the file of a finished table holds.\<close>

definition filter_stored :: "filter_policy_class \<Rightarrow> bytes \<Rightarrow> table_block list \<Rightarrow> block_handle \<Rightarrow> bool" where
  "filter_stored P bs blocks hm \<longleftrightarrow> (\<exists>hf b added off.
     stored_at bs hf (fst (FilterBlock_Finish P b)) \<and>
     stored_at bs hm (build_block interval_of [(filter_key P, BlockHandle_EncodeTo hf [])]) \<and>
     filter_policy.filter_inv P b added off \<and> set added = block_keys (map snd blocks) \<and>
     length added = length (concat (map entries_of blocks)))"

definition finished :: "table_block list \<Rightarrow> bytes \<Rightarrow> bool" where
  "finished blocks bs \<longleftrightarrow>
     sorted_entries C ok (concat (map entries_of blocks)) \<and> blocks_stored bs (map snd blocks) \<and> separated blocks [] \<and>
     (\<exists>pre hm hi. bs = pre @ Footer_EncodeTo \<lparr>ft_metaindex_handle = hm, ft_index_handle = hi\<rparr> [] \<and>
        stored_at bs hi (build_block 1 (index_entries blocks)) \<and>
        (\<forall>P. opt_filter_policy options = Some P \<longrightarrow> filter_stored P bs blocks hm))"

lemma building_successor:
  assumes inv: "building blocks pending [] r"
  shows "\<exists>blocks'. separated blocks' [] \<and> map snd blocks' = flushed blocks pending \<and>
    tb_index_block (if tb_pending_index_entry r then add_index_entry (FindShortSuccessor C (tb_last_key r)) r else r) =
      add_all 1 (index_entries blocks')"
proof (cases pending)
  case None
  then show ?thesis using inv by (intro exI [of _ blocks]) (auto simp: building_def flushed_def all_entries_def)
next
  case (Some p)
  obtain h es where p: "p = (h, es)" by fastforce
  have es: "es \<noteq> []" "tb_last_key r = fst (last es)" "tb_pending_index_entry r" and srt: "sorted_entries C ok es"
    using inv Some p by (auto simp: building_def blocks_stored_def flushed_def all_entries_def sorted_entries_def sorted_wrt_append)
  have lok: "ok (fst (last es))" using srt es(1) by (auto simp: sorted_entries_def)
  let ?sep = "FindShortSuccessor C (fst (last es))"
  have s: "ok ?sep" "?sep = fst (last es) \<or> lt (fst (last es)) ?sep" using successor_ok [OF lok] successor [OF lok] by auto
  have "\<not> lt ?sep (fst x)" if "x \<in> set es" for x
  proof -
    have "x = last es \<or> lt (fst x) (fst (last es))"
      using srt that es(1) by (cases es rule: rev_cases) (auto simp: sorted_entries_def sorted_wrt_append)
    moreover have "ok (fst x)" using srt that by (auto simp: sorted_entries_def)
    ultimately have "lt ?sep (fst x) \<Longrightarrow> lt ?sep (fst (last es))" using trans [OF s(1) _ lok, of "fst x"] by auto
    then show ?thesis using s(2) irrefl [OF lok] asym [OF lok s(1)] by auto
  qed
  then have "building (blocks @ [(?sep, h, es)]) None [] (add_index_entry ?sep r)"
    using building_index [of blocks h es r ?sep] inv Some p s(1) by simp
  then show ?thesis using es Some p
    by (intro exI [of _ "blocks @ [(?sep, h, es)]"]) (auto simp: building_def flushed_def all_entries_def)
qed

lemma building_closed [simp]: "building blocks pending cur (r\<lparr>tb_closed := c\<rparr>) = building blocks pending cur r"
  by (cases pending) (auto simp: building_def)

lemma same_index_trans: "same_index r r' \<Longrightarrow> same_index r' r'' \<Longrightarrow> same_index r r''"
  by (auto simp: same_index_def)

lemma same_index_successor:
  assumes "same_index r r'" "on_file r"
  shows "tb_index_block (if tb_pending_index_entry r' then add_index_entry (FindShortSuccessor C (tb_last_key r')) r' else r') =
    tb_index_block (if tb_pending_index_entry r then add_index_entry (FindShortSuccessor C (tb_last_key r)) r else r)"
  using assms by (simp add: same_index_def add_index_entry_def on_file_def)

lemma blocks_stored_append:
  assumes "blocks_stored bs fl"
  shows "blocks_stored (bs @ suffix) fl"
  using assms by (auto simp: blocks_stored_def intro: stored_at_append)

lemma meta_entries_cong: "(fb = None) = (fb' = None) \<Longrightarrow> meta_entries fb h = meta_entries fb' h"
  by (auto simp: meta_entries_def split: option.split)

definition last_index :: "'f table_builder \<Rightarrow> block_builder" where
  "last_index r = tb_index_block
     (if tb_pending_index_entry r then add_index_entry (FindShortSuccessor C (tb_last_key r)) r else r)"

lemma Finish_steps:
  assumes r0: "on_file (TableBuilder_Flush lib cls r)"
  defines "r0 \<equiv> TableBuilder_Flush lib cls r"
  shows "\<exists>hf x r'. let meta = build_block interval_of (meta_entries (tb_filter_block r0) hf);
      index = fst (BlockBuilder_Finish (last_index r0)); bs = written r0 @ x in
    TableBuilder_Finish lib cls r = (Status_OK, r') \<and>
    written r' = bs @ stored meta @ stored index @
      Footer_EncodeTo \<lparr>ft_metaindex_handle = handle_at bs meta, ft_index_handle = handle_at (bs @ stored meta) index\<rparr> [] \<and>
    (\<forall>P b. opt_filter_policy options = Some P \<longrightarrow> tb_filter_block r0 = Some b \<longrightarrow>
       x = stored (fst (FilterBlock_Finish P b)) \<and> hf = handle_at (written r0) (fst (FilterBlock_Finish P b)))"
proof -
  let ?r0 = "r0\<lparr>tb_closed := True\<rparr>"
  have on0: "on_file ?r0" using r0 by (simp add: r0_def)
  obtain hf r1 x where r1: "finish_filter cls ?r0 = (hf, r1)" "same_index ?r0 r1" "written r1 = written ?r0 @ x"
    "\<forall>P b. opt_filter_policy options = Some P \<longrightarrow> tb_filter_block ?r0 = Some b \<longrightarrow>
       x = stored (fst (FilterBlock_Finish P b)) \<and> hf = handle_at (written ?r0) (fst (FilterBlock_Finish P b))"
    using finish_filter_writes [OF on0] by blast
  let ?meta = "build_block interval_of (meta_entries (tb_filter_block r0) hf)"
  have on1: "on_file r1" "meta_entries (tb_filter_block r1) hf = meta_entries (tb_filter_block r0) hf"
    using r1(2) by (auto simp: same_index_def intro: meta_entries_cong)
  obtain r2 where r2: "finish_metaindex lib cls hf r1 = (handle_at (written r1) ?meta, r2)" "same_index r1 r2"
    "written r2 = written r1 @ stored ?meta" using finish_metaindex_writes [OF on1(1), of hf] unfolding on1(2) by blast
  have on2: "on_file r2" "opt_comparator (tb_options r2) = C"
    using r2(2) options_comparator by (simp_all add: same_index_def on_file_def)
  have "last_index r2 = last_index ?r0"
    using same_index_successor [OF same_index_trans [OF r1(2) r2(2)] on0] by (simp add: last_index_def)
  also have "\<dots> = last_index r0" by (simp add: last_index_def add_index_entry_def)
  finally have index: "last_index r2 = last_index r0" .
  let ?index = "fst (BlockBuilder_Finish (last_index r0))"
  obtain r4 where r4: "finish_index lib cls r2 = (handle_at (written r2) ?index, r4)"
    "on_file r4" "written r4 = written r2 @ stored ?index"
    using finish_index_writes [OF on2 refl] unfolding last_index_def [symmetric] index by blast
  obtain r5 where r5: "finish_footer cls (handle_at (written r1) ?meta) (handle_at (written r2) ?index) r4 = r5"
    "tb_status r5 = Status_OK"
    "written r5 = written r4 @ Footer_EncodeTo
      \<lparr>ft_metaindex_handle = handle_at (written r1) ?meta, ft_index_handle = handle_at (written r2) ?index\<rparr> []"
    using finish_footer_writes [OF r4(2)] by blast
  have "TableBuilder_Finish lib cls r = (Status_OK, r5)"
    using r1(1) r2(1) r4(1) r5(1,2) by (simp add: TableBuilder_Finish_def Let_def r0_def)
  moreover have bs: "written r1 = written r0 @ x" using r1(3) by simp
  moreover have "written r5 = (written r0 @ x) @ stored ?meta @ stored ?index @ Footer_EncodeTo
      \<lparr>ft_metaindex_handle = handle_at (written r0 @ x) ?meta, ft_index_handle = handle_at ((written r0 @ x) @ stored ?meta) ?index\<rparr> []"
    unfolding r5(3) r4(3) r2(3) bs by (simp only: append_assoc)
  ultimately show ?thesis using r1(4) unfolding Let_def by (intro exI [of _ hf] exI [of _ x] exI [of _ r5]) simp
qed

text \<open>The size of the file, when there is a filter and the last block is written.\<close>

lemma Finish_length:
  assumes r: "on_file r" "BlockBuilder_empty (tb_data_block r)" "tb_filter_block r = Some b" "opt_filter_policy options = Some P"
  shows "length (written (snd (TableBuilder_Finish lib cls r))) \<le> length (written r) + length (fst (FilterBlock_Finish P b)) +
     length (filter_key P) + length (fst (BlockBuilder_Finish (last_index r))) + 120"
proof -
  have flush: "TableBuilder_Flush lib cls r = r" using r(1,2) by (simp add: TableBuilder_Flush_def on_file_def)
  have meta: "meta_entries (tb_filter_block r) hf = [(filter_key P, BlockHandle_EncodeTo hf [])]" for hf
    using r(3,4) by (simp add: meta_entries_def)
  from Finish_steps [of r, unfolded flush, OF r(1)] obtain hf x r' h h' where
    "TableBuilder_Finish lib cls r = (Status_OK, r')" "x = stored (fst (FilterBlock_Finish P b))" and
    "written r' = (written r @ x) @ stored (build_block interval_of [(filter_key P, BlockHandle_EncodeTo hf [])]) @
      stored (fst (BlockBuilder_Finish (last_index r))) @ Footer_EncodeTo \<lparr>ft_metaindex_handle = h, ft_index_handle = h'\<rparr> []"
    using r(3,4) unfolding Let_def meta by blast
  moreover have "length (build_block interval_of [(filter_key P, BlockHandle_EncodeTo hf [])]) \<le> length (filter_key P) + 47"
    using build_block_single_length [of interval_of "filter_key P" "BlockHandle_EncodeTo hf []"]
      BlockHandle_Encode_length [of hf] by simp
  ultimately show ?thesis by (simp add: Footer_length)
qed

lemma Finish_writes:
  assumes "ongoing kvs r"
  shows "\<exists>r'. TableBuilder_Finish lib cls r = (Status_OK, r') \<and>
    (length (written r') < 2 ^ 63 \<longrightarrow> (\<exists>blocks. finished blocks (written r') \<and> kvs = concat (map entries_of blocks)))"
proof -
  let ?r0 = "TableBuilder_Flush lib cls r"
  obtain blocks pending where inv: "building blocks pending [] ?r0" and all: "kvs = all_entries blocks pending []"
    using ongoing_Flush [OF assms] by blast
  have "on_file ?r0" using inv by (simp add: building_def)
  from Finish_steps [OF this, unfolded Let_def] obtain hf x r' where
    fin: "TableBuilder_Finish lib cls r = (Status_OK, r')" and
    w: "written r' = (written ?r0 @ x) @ stored (build_block interval_of (meta_entries (tb_filter_block ?r0) hf)) @
      stored (fst (BlockBuilder_Finish (last_index ?r0))) @
      Footer_EncodeTo \<lparr>ft_metaindex_handle = handle_at (written ?r0 @ x) (build_block interval_of (meta_entries (tb_filter_block ?r0) hf)),
        ft_index_handle = handle_at ((written ?r0 @ x) @ stored (build_block interval_of (meta_entries (tb_filter_block ?r0) hf)))
          (fst (BlockBuilder_Finish (last_index ?r0)))\<rparr> []" and
    x: "\<forall>P b. opt_filter_policy options = Some P \<longrightarrow> tb_filter_block ?r0 = Some b \<longrightarrow>
       x = stored (fst (FilterBlock_Finish P b)) \<and> hf = handle_at (written ?r0) (fst (FilterBlock_Finish P b))"
    by blast
  obtain blocks' where blocks': "separated blocks' []" "map snd blocks' = flushed blocks pending"
    "last_index ?r0 = add_all 1 (index_entries blocks')"
    using building_successor [OF inv] unfolding last_index_def by blast
  have kvs: "concat (map entries_of blocks') = kvs"
    using all blocks'(2) by (simp add: all_entries_def flip: map_map [of snd snd, unfolded comp_def])
  let ?meta = "build_block interval_of (meta_entries (tb_filter_block ?r0) hf)" and ?index = "build_block 1 (index_entries blocks')"
  let ?hm = "handle_at (written ?r0 @ x) ?meta" and ?hi = "handle_at ((written ?r0 @ x) @ stored ?meta) ?index"
  note w = w [unfolded blocks'(3) build_block_def [symmetric, of 1]]
  have "finished blocks' (written r')" if bound: "length (written r') < 2 ^ 63"
  proof -
    have "filter_stored P (written r') blocks' ?hm" if P: "opt_filter_policy options = Some P" for P
    proof -
      have "length (written ?r0) < 2 ^ 63" using bound w by simp
      then have "filter_holds (tb_filter_block ?r0) (tb_offset ?r0) (flushed blocks pending) []"
        using inv by (simp add: building_def)
      then obtain fb added where fb: "tb_filter_block ?r0 = Some fb" "filter_policy.filter_inv P fb added (tb_offset ?r0)"
        "set added = block_keys (flushed blocks pending)" "length added = length (concat (map snd (flushed blocks pending)))"
        unfolding filter_holds_Some [OF P] by auto
      have x: "x = stored (fst (FilterBlock_Finish P fb))" "hf = handle_at (written ?r0) (fst (FilterBlock_Finish P fb))"
        using x P fb(1) by blast+
      have meta: "meta_entries (tb_filter_block ?r0) hf = [(filter_key P, BlockHandle_EncodeTo hf [])]"
        by (simp add: meta_entries_def P fb(1))
      have "stored_at (written r') hf (fst (FilterBlock_Finish P fb))" unfolding w x append_assoc by (rule handle_at_stored)
      moreover have "stored_at (written r') ?hm ?meta" unfolding w by (rule handle_at_stored)
      ultimately show ?thesis
        unfolding filter_stored_def blocks'(2) kvs using fb(2-4) all meta by (auto simp: all_entries_def)
    qed
    moreover have "stored_at (written r') ?hi ?index"
      using handle_at_stored [of "(written ?r0 @ x) @ stored ?meta" ?index] unfolding w append_assoc by blast
    moreover have "blocks_stored (written r') (map snd blocks')"
      unfolding w blocks'(2) append_assoc using inv by (intro blocks_stored_append) (simp add: building_def)
    moreover have "sorted_entries C ok (concat (map entries_of blocks'))"
      unfolding kvs all using inv by (simp add: building_def)
    moreover have "\<exists>pre. written r' = pre @ Footer_EncodeTo \<lparr>ft_metaindex_handle = ?hm, ft_index_handle = ?hi\<rparr> []"
      unfolding w by (intro exI [of _ "(written ?r0 @ x) @ stored ?meta @ stored ?index"]) (simp only: append_assoc)
    ultimately show ?thesis using blocks'(1) unfolding finished_def by blast
  qed
  then show ?thesis using fin kvs by blast
qed

lemma write_table_finished:
  assumes "healthy f" "content f = []" "sorted_entries C ok kvs"
  shows "\<exists>r. write_table lib cls options kvs f = (Status_OK, r) \<and>
    (length (written r) < 2 ^ 63 \<longrightarrow> (\<exists>blocks. finished blocks (written r) \<and> kvs = concat (map entries_of blocks)))"
  unfolding write_table_def by (rule Finish_writes [OF ongoing_add_entries [OF assms]])

end

interpretation posix_table: table_writer BytewiseComparator "\<lambda>_. True" posix_writable out_data out_healthy
    None "Options\<lparr>opt_block_size := m, opt_filter_policy := Some (NewBloomFilterPolicy n)\<rparr>"
  for m n
  by unfold_locales (auto simp: Options_def intro: bloom.appends bloom.matches)

end
