(* ===== verification/Ldb_Table_Read.thy ===== *)
theory Ldb_Table_Read
  imports Ldb_Table_Build
begin

text \<open>
  Reading a finished table back: opening it, the iterator over it, which is an \<open>iterator_impl\<close> of
  the entries that were added, and lookups through the filter.
\<close>

section \<open>Sizes\<close>

lemma foldl_PutFixed32_length: "length buffer \<le> length (foldl PutFixed32 buffer ws)"
  by (simp add: foldl_PutFixed32)

lemma BlockBuilder_Finish_length: "length (bb_buffer b) \<le> length (fst (BlockBuilder_Finish b))"
  by (simp add: BlockBuilder_Finish_def Let_def foldl_PutFixed32 PutFixed32_def)

text \<open>With a restart interval of 1 every key is in the block as a whole.\<close>

lemma BlockBuilder_Add_whole:
  assumes "1 \<le> bb_counter b \<or> bb_last_key b = []" "0 \<le> bb_counter b"
  shows "length (bb_buffer b) + length k \<le> length (bb_buffer (BlockBuilder_Add 1 b k v)) \<and>
    1 \<le> bb_counter (BlockBuilder_Add 1 b k v)"
proof (cases "bb_counter b < 1")
  case True
  have "shared_loop [] k 0 0 = 0" by (simp add: shared_loop.simps)
  then show ?thesis using assms True by (simp add: BlockBuilder_Add_def Let_def PutVarint32_append)
qed (simp add: BlockBuilder_Add_def Let_def PutVarint32_append)

lemma add_all_whole:
  "(kvs = [] \<or> 1 \<le> bb_counter (add_all 1 kvs)) \<and> (\<forall>x\<in>set kvs. length (fst x) \<le> length (bb_buffer (add_all 1 kvs)))"
proof (induction kvs rule: rev_induct)
  case (snoc x kvs)
  obtain k v where x: "x = (k, v)" by fastforce
  have "1 \<le> bb_counter (add_all 1 kvs) \<or> bb_last_key (add_all 1 kvs) = []" "0 \<le> bb_counter (add_all 1 kvs)"
    using snoc by (auto simp: BlockBuilder_def)
  note add = BlockBuilder_Add_whole [OF this, of k v]
  have "length (bb_buffer (add_all 1 kvs)) \<le> length (bb_buffer (BlockBuilder_Add 1 (add_all 1 kvs) k v))" using add by simp
  then show ?case using snoc add by (auto simp: x add_all_snoc intro: order_trans)
qed simp

lemma build_block_whole: "x \<in> set kvs \<Longrightarrow> length (fst x) \<le> length (build_block 1 kvs)"
  using add_all_whole [of kvs] BlockBuilder_Finish_length [of "add_all 1 kvs"] unfolding build_block_def by fastforce

lemma stored_at_length: "stored_at bs h raw \<Longrightarrow> length raw < length bs"
  by (auto simp: stored_at_def)

lemma build_block_single:
  assumes "1 \<le> i"
  shows "length k \<le> length (build_block i [(k, v)])" "length v \<le> length (build_block i [(k, v)])"
proof -
  have "shared_loop [] k 0 0 = 0" by (simp add: shared_loop.simps)
  then have "length k + length v \<le> length (bb_buffer (add_all i [(k, v)]))"
    using assms by (simp add: add_all_def BlockBuilder_Add_def BlockBuilder_def Let_def PutVarint32_append)
  then show "length k \<le> length (build_block i [(k, v)])" "length v \<le> length (build_block i [(k, v)])"
    using BlockBuilder_Finish_length [of "add_all i [(k, v)]"] unfolding build_block_def by linarith+
qed

section \<open>Reading\<close>

text \<open>A table over the file.\<close>

context table_writer
begin

definition readable :: "table_block list \<Rightarrow> random_access_file \<Rightarrow> bytes \<Rightarrow> bool" where
  "readable blocks read_at bs \<longleftrightarrow> finished blocks bs \<and> random_access read_at bs \<and> length bs < 2 ^ 32 \<and>
     (\<forall>(k, v)\<in>set (concat (map entries_of blocks)). length k < 2 ^ 32 \<and> length v < 2 ^ 32)"

lemma block_entries_sorted:
  assumes "sorted_entries C ok (concat (map entries_of blocks))" "b \<in> set blocks"
  shows "sorted_entries C ok (entries_of b)"
proof -
  obtain xs ys where "blocks = xs @ b # ys" using split_list [OF assms(2)] by blast
  then show ?thesis using assms(1) by (simp add: sorted_entries_def sorted_wrt_append)
qed

lemma index_sorted:
  assumes "finished blocks bs"
  shows "sorted_entries C ok (index_entries blocks)"
proof -
  have sep: "separated blocks []" and ne: "b \<in> set blocks \<Longrightarrow> entries_of b \<noteq> []" for b
    using assms by (auto simp: finished_def blocks_stored_def)
  have okx: "ok (fst x)" if "b \<in> set blocks" "x \<in> set (entries_of b)" for b x
    using assms that by (auto simp: finished_def sorted_entries_def)
  have "sorted_wrt (\<lambda>b b'. lt (separator_of b) (separator_of b')) blocks"
  proof (rule sorted_wrt_mono_rel)
    show "sorted_wrt (\<lambda>b b'. \<forall>x\<in>set (entries_of b'). lt (separator_of b) (fst x)) blocks"
      using sep by (simp add: separated_def)
    fix b b' assume b: "b \<in> set blocks" "b' \<in> set blocks" "\<forall>x\<in>set (entries_of b'). lt (separator_of b) (fst x)"
    let ?x = "hd (entries_of b')"
    have x: "?x \<in> set (entries_of b')" using ne [OF b(2)] by simp
    then have "\<not> lt (separator_of b') (fst ?x)" "lt (separator_of b) (fst ?x)" "ok (fst ?x)"
      "ok (separator_of b)" "ok (separator_of b')"
      using sep b okx [OF b(2)] by (auto simp: separated_def)
    then show "lt (separator_of b) (separator_of b')" using lt_le_trans by blast
  qed
  then show ?thesis
    using sep by (auto simp: sorted_entries_def index_entries_def sorted_wrt_map separated_def)
qed

lemma open_index:
  assumes "readable blocks read_at bs"
  shows "\<exists>it. Block_NewIterator (Block u (build_block 1 (index_entries blocks))) = Inr it \<and>
    block_cursor (index_entries blocks) (length blocks) it"
proof -
  have fin: "finished blocks bs" "length bs < 2 ^ 32" using assms by (simp_all add: readable_def)
  then have len: "length (build_block 1 (index_entries blocks)) < 2 ^ 32"
    by (auto simp: finished_def dest: stored_at_length)
  have "\<forall>(k, v)\<in>set (index_entries blocks). length k < 2 ^ 32 \<and> length v < 2 ^ 32"
  proof
    fix x assume x: "x \<in> set (index_entries blocks)"
    then obtain h where "snd x = BlockHandle_EncodeTo h []" by (auto simp: index_entries_def)
    then have "length (snd x) \<le> 20" by (simp add: BlockHandle_Encode_length)
    then show "case x of (k, v) \<Rightarrow> length k < 2 ^ 32 \<and> length v < 2 ^ 32"
      using build_block_whole [OF x] len by (simp add: case_prod_unfold)
  qed
  moreover have "length (index_entries blocks) = length blocks" by (simp add: index_entries_def)
  ultimately show ?thesis using open_built_block [OF order_refl index_sorted [OF fin(1)] _ len] by metis
qed

lemma read_data_block:
  assumes "readable blocks read_at bs" "b \<in> set blocks" "tr_file t = read_at"
  shows "\<exists>it. BlockReader lib u t ro (BlockHandle_EncodeTo (handle_of b) []) = Some (Inr it) \<and>
    block_cursor (entries_of b) (length (entries_of b)) it"
proof -
  have r: "finished blocks bs" "length bs < 2 ^ 32" "random_access read_at bs" using assms(1) by (simp_all add: readable_def)
  have st: "stored_at bs (handle_of b) (build_block interval_of (entries_of b))"
    using r(1) assms(2) by (fastforce simp: finished_def blocks_stored_def)
  have "length bs < 2 ^ 63" using r(2) by simp
  from random_access.ReadBlock_stored [OF r(3) st this, of lib ro] obtain c
    where c: "ReadBlock lib read_at ro (handle_of b) = Some (Status_OK, c)" "bc_data c = build_block interval_of (entries_of b)"
    by blast
  have "length (build_block interval_of (entries_of b)) < 2 ^ 32" using stored_at_length [OF st] r(2) by simp
  moreover have "sorted_entries C ok (entries_of b)"
    using r(1) assms(2) by (intro block_entries_sorted) (simp_all add: finished_def)
  moreover have "\<forall>(k, v)\<in>set (entries_of b). length k < 2 ^ 32 \<and> length v < 2 ^ 32"
    using assms(1,2) by (auto simp: readable_def)
  ultimately obtain it where it: "Block_NewIterator (Block u (build_block interval_of (entries_of b))) = Inr it"
    "block_cursor (entries_of b) (length (entries_of b)) it" using open_built_block [OF interval] by blast
  then show ?thesis
    using c BlockHandle_Decode_Encode [of BlockHandle "handle_of b" "[]"]
    by (simp add: BlockReader_def assms(3))
qed

text \<open>The entries of the block with a given handle.\<close>

definition contents_of :: "table_block list \<Rightarrow> bytes \<Rightarrow> entries" where
  "contents_of blocks v = the (map_of (map (\<lambda>b. (BlockHandle_EncodeTo (handle_of b) [], entries_of b)) blocks) v)"

lemma contents_of_block:
  assumes "distinct (map fst (map snd blocks))" "b \<in> set blocks"
  shows "contents_of blocks (BlockHandle_EncodeTo (handle_of b) []) = entries_of b"
proof -
  let ?enc = "\<lambda>h. BlockHandle_EncodeTo h []"
  have "inj ?enc" by (rule injI) (rule BlockHandle_Encode_inj)
  then have "distinct (map ?enc (map fst (map snd blocks)))" using assms(1)
    by (simp only: distinct_map [of ?enc] inj_on_subset [OF \<open>inj ?enc\<close> subset_UNIV] simp_thms)
  then have "distinct (map fst (map (\<lambda>b. (?enc (handle_of b), entries_of b)) blocks))" by (simp add: comp_def)
  then have "map_of (map (\<lambda>b. (?enc (handle_of b), entries_of b)) blocks) (?enc (handle_of b)) = Some (entries_of b)"
    using assms(2) by (intro map_of_is_SomeI) auto
  then show ?thesis by (simp add: contents_of_def)
qed

abbreviation entry_cursor :: "entries \<Rightarrow> nat \<Rightarrow> table_block_iter \<Rightarrow> bool" where
  "entry_cursor \<equiv> iterator_impl.on_right block_cursor"

lemma entry_iter_impl: "iterator_impl C ok (table_iter_class C) entry_cursor"
  unfolding table_iter_class_def by (rule iterator_impl.on_right_impl [OF block_iter_impl])

lemma entry_cursor_Inr [simp]: "entry_cursor kvs i (Inr it) = block_cursor kvs i it"
  by (simp add: iterator_impl.on_right_def [OF block_iter_impl])

lemma two_level_table:
  "two_level C ok (table_iter_class C) entry_cursor (table_iter_class C) entry_cursor"
  using entry_iter_impl by (simp add: two_level_def)

definition opened :: "table_block list \<Rightarrow> random_access_file \<Rightarrow> u32 \<Rightarrow> sstable \<Rightarrow> bool" where
  "opened blocks read_at u t \<longleftrightarrow> tr_options t = options \<and> tr_file t = read_at \<and>
     tr_index_block t = Block u (build_block 1 (index_entries blocks))"

lemma table_layout:
  assumes rd: "readable blocks read_at bs" and t: "tr_file t = read_at"
  shows "two_level.layout C ok (entry_cursor) (BlockReader lib u t ro) (index_entries blocks) (contents_of blocks)
    (concat (map entries_of blocks))"
proof -
  have fin: "finished blocks bs" and "length bs < 2 ^ 63" using rd by (simp_all add: readable_def)
  then have dist: "distinct (map fst (map snd blocks))" and sep: "separated blocks []"
    by (auto simp: finished_def blocks_stored_def)
  have cont: "contents_of blocks (snd (index_entries blocks ! j)) = entries_of (blocks ! j)" if "j < length blocks" for j
    using contents_of_block [OF dist, of "blocks ! j"] that by (simp add: index_entries_def)
  have blk: "block_of (contents_of blocks) (index_entries blocks) j = entries_of (blocks ! j)" if "j < length blocks" for j
    using cont [OF that] by (simp add: block_of_def)
  have len: "length (index_entries blocks) = length blocks" by (simp add: index_entries_def)
  have key: "fst (index_entries blocks ! j) = separator_of (blocks ! j)" if "j < length blocks" for j
    using that by (simp add: index_entries_def)
  have val: "snd (index_entries blocks ! j) = BlockHandle_EncodeTo (handle_of (blocks ! j)) []" if "j < length blocks" for j
    using that by (simp add: index_entries_def)
  have "concat (map entries_of blocks) = concat (map (contents_of blocks \<circ> snd) (index_entries blocks))"
    using contents_of_block [OF dist] by (auto simp: index_entries_def comp_def intro!: arg_cong [where f = concat])
  moreover have "lt (separator_of (blocks ! i)) (fst x)" if "i < j" "j < length blocks" "x \<in> set (entries_of (blocks ! j))" for i j x
    using sep that by (auto simp: separated_def sorted_wrt_iff_nth_less)
  moreover have "\<not> lt (separator_of (blocks ! j)) (fst x)" if "j < length blocks" "x \<in> set (entries_of (blocks ! j))" for j x
    using sep that by (auto simp: separated_def)
  moreover have "\<exists>it p. BlockReader lib u t ro (BlockHandle_EncodeTo (handle_of (blocks ! j)) []) = Some it \<and>
      entry_cursor (entries_of (blocks ! j)) p it" if "j < length blocks" for j
    using read_data_block [OF rd nth_mem [OF that] t, of u ro] by (metis entry_cursor_Inr)
  moreover have "sorted_entries C ok (concat (map entries_of blocks))" using fin by (simp add: finished_def)
  ultimately show ?thesis
    unfolding two_level.layout_def [OF two_level_table] using index_sorted [OF fin] by (simp add: len blk key val)
qed

section \<open>Opening the table\<close>

definition filter_opened :: "table_block list \<Rightarrow> sstable \<Rightarrow> bool" where
  "filter_opened blocks t \<longleftrightarrow>
     (case opt_filter_policy options of
        None \<Rightarrow> tr_filter t = None
      | Some P \<Rightarrow> \<exists>b added off. tr_filter t = Some (FilterBlockReader (fst (FilterBlock_Finish P b))) \<and>
          length (fst (FilterBlock_Finish P b)) < 2 ^ 32 \<and> filter_policy.filter_inv P b added off \<and>
          set added = block_keys (map snd blocks) \<and> length added = length (concat (map entries_of blocks)))"

lemma ReadMeta_filter:
  assumes rd: "readable blocks read_at bs" and t: "opened blocks read_at u t" "tr_filter t = None"
    and hm: "\<And>P. opt_filter_policy options = Some P \<Longrightarrow> filter_stored P bs blocks (ft_metaindex_handle ft)"
  shows "\<exists>t'. ReadMeta lib u ft t = Some t' \<and> opened blocks read_at u t' \<and> filter_opened blocks t'"
proof (cases "opt_filter_policy options")
  case None
  then show ?thesis using t by (simp add: ReadMeta_def opened_def filter_opened_def)
next
  case (Some P)
  have small: "length bs < 2 ^ 32" "length bs < 2 ^ 63" and ra: "random_access read_at bs"
    using rd by (simp_all add: readable_def)
  obtain hf b added off where f: "stored_at bs hf (fst (FilterBlock_Finish P b))"
    "stored_at bs (ft_metaindex_handle ft) (build_block interval_of [(filter_key P, BlockHandle_EncodeTo hf [])])"
    "filter_policy.filter_inv P b added off" "set added = block_keys (map snd blocks)"
    "length added = length (concat (map entries_of blocks))"
    using hm [OF Some] by (auto simp: filter_stored_def)
  let ?kvs = "[(filter_key P, BlockHandle_EncodeTo hf [])]" and ?opts = "meta_options options"
  let ?cls = "either_class EmptyIterator (block_iter_class BytewiseComparator) :: table_block_iter iterator_class"
  obtain c where c: "ReadBlock lib read_at ?opts (ft_metaindex_handle ft) = Some (Status_OK, c)"
    "bc_data c = build_block interval_of ?kvs" using random_access.ReadBlock_stored [OF ra f(2) small(2)] by blast
  obtain d where d: "ReadBlock lib read_at ?opts hf = Some (Status_OK, d)" "bc_data d = fst (FilterBlock_Finish P b)"
    using random_access.ReadBlock_stored [OF ra f(1) small(2)] by blast
  have len: "length (build_block interval_of ?kvs) < 2 ^ 32" using stored_at_length [OF f(2)] small(1) by simp
  then have "\<forall>(k, v)\<in>set ?kvs. length k < 2 ^ 32 \<and> length v < 2 ^ 32"
    using build_block_single [OF interval, where k = "filter_key P" and v = "BlockHandle_EncodeTo hf []"] by simp
  moreover have "sorted_entries BytewiseComparator (\<lambda>_. True) ?kvs" by (simp add: sorted_entries_def)
  ultimately obtain it where it: "Block_NewIterator (Block u (bc_data c)) = Inr it"
    "bytewise.block_cursor ?kvs (length ?kvs) it" using bytewise.open_built_block [OF interval _ _ len] c(2) by metis
  have start: "bytewise_block.on_right ?kvs (length ?kvs) (Inr it)" using it(2) by (simp add: bytewise_block.on_right_def)
  have impl: "iterator_impl BytewiseComparator (\<lambda>_. True) ?cls bytewise_block.on_right"
    by (rule bytewise_block.on_right_impl)
  have pos: "entries_below BytewiseComparator ?kvs (filter_key P) = 0"
    using bytewise.irrefl [of "filter_key P"] by (simp add: entries_below_def)
  obtain it' where it': "it_Seek ?cls (filter_key P) (Inr it) = Some it'" "bytewise_block.on_right ?kvs 0 it'"
    using iterator_impl.seek [OF impl start, of "filter_key P"] unfolding pos by auto
  have at: "it_Valid ?cls it'" "it_key ?cls it' = filter_key P" "it_value ?cls it' = Some (BlockHandle_EncodeTo hf [])"
    using iterator_impl.valid [OF impl it'(2)] iterator_impl.key [OF impl it'(2)] iterator_impl.value_eq [OF impl it'(2)]
    by simp_all
  have tt: "tr_options t = options" "tr_file t = read_at" using t(1) by (simp_all add: opened_def)
  have "ReadFilter lib P (BlockHandle_EncodeTo hf []) t = Some (t\<lparr>tr_filter := Some (FilterBlockReader (bc_data d))\<rparr>)"
    using BlockHandle_Decode_Encode [of BlockHandle hf "[]"] d(1) by (simp add: ReadFilter_def tt)
  then have "ReadMeta lib u ft t = Some (t\<lparr>tr_filter := Some (FilterBlockReader (bc_data d))\<rparr>)"
    using c(1) it(1) it'(1) at by (simp add: ReadMeta_def tt Some Let_def)
  moreover have "length (fst (FilterBlock_Finish P b)) < 2 ^ 32" using stored_at_length [OF f(1)] small(1) by simp
  ultimately show ?thesis using t(1) f(3-5) d(2) by (auto simp: opened_def filter_opened_def Some)
qed

lemma Table_Open_readable:
  assumes rd: "readable blocks read_at bs"
  shows "\<exists>t. Table_Open lib u options read_at (of_nat (length bs)) = Some (Status_OK, Some t) \<and>
    opened blocks read_at u t \<and> filter_opened blocks t"
proof -
  have fin: "finished blocks bs" and small: "length bs < 2 ^ 32" "length bs < 2 ^ 63" and ra: "random_access read_at bs"
    using rd by (simp_all add: readable_def)
  obtain pre hm hi where bs: "bs = pre @ Footer_EncodeTo \<lparr>ft_metaindex_handle = hm, ft_index_handle = hi\<rparr> []"
    and hi: "stored_at bs hi (build_block 1 (index_entries blocks))"
    and hm: "\<And>P. opt_filter_policy options = Some P \<Longrightarrow> filter_stored P bs blocks hm"
    using fin by (auto simp: finished_def)
  let ?ft = "\<lparr>ft_metaindex_handle = hm, ft_index_handle = hi\<rparr>" and ?sz = "of_nat (length bs) :: u64"
  have len: "length bs = length pre + 48" by (simp add: bs Footer_length)
  have sz: "\<not> ?sz < of_nat kEncodedLength" "?sz - of_nat kEncodedLength = of_nat (length pre)"
    using small(2) by (simp_all add: len kEncodedLength_def kMaxEncodedLength_def word_less_nat_alt unat_of_nat_eq del: of_nat_add)
      simp
  have u: "unat (of_nat (length pre) :: u64) = length pre" using small(2) len by (simp add: unat_of_nat_eq)
  obtain in_buf where read: "read_at (of_nat (length pre)) (of_nat kEncodedLength) = Some (Status_OK, Footer_EncodeTo ?ft [], in_buf)"
    using random_access.read [OF ra, of "of_nat (length pre)" "of_nat kEncodedLength"] small(2) u
    by (auto simp: bs Footer_length kEncodedLength_def kMaxEncodedLength_def)
  obtain c where c: "ReadBlock lib read_at (meta_options options) hi = Some (Status_OK, c)"
    "bc_data c = build_block 1 (index_entries blocks)" using random_access.ReadBlock_stored [OF ra hi small(2)] by blast
  let ?t = "\<lparr>tr_options = options, tr_file = read_at, tr_filter = None, tr_metaindex_handle = hm,
     tr_index_block = Block u (bc_data c)\<rparr>"
  have "opened blocks read_at u ?t" by (simp add: opened_def c(2))
  from ReadMeta_filter [OF rd this, of ?ft] hm obtain t'
    where t': "ReadMeta lib u ?ft ?t = Some t'" "opened blocks read_at u t'" "filter_opened blocks t'" by auto
  show ?thesis
    using t' sz read Footer_roundtrip [of Footer ?ft "[]"] c(1) by (simp add: Table_Open_def)
qed

section \<open>The iterator of the table\<close>

lemma table_iterator:
  assumes rd: "readable blocks read_at bs" and t: "opened blocks read_at u t"
  shows "\<exists>R. iterator_impl C ok (table_class lib u t ro) R \<and>
    R (concat (map entries_of blocks)) (length (concat (map entries_of blocks))) (Table_NewIterator C t)"
proof -
  have tt: "tr_file t = read_at" "opt_comparator (tr_options t) = C" "tr_index_block t = Block u (build_block 1 (index_entries blocks))"
    using t options_comparator by (simp_all add: opened_def)
  obtain it where it: "Block_NewIterator (tr_index_block t) = Inr it" "block_cursor (index_entries blocks) (length blocks) it"
    using open_index [OF rd] tt(3) by metis
  have "entry_cursor (index_entries blocks) (length (index_entries blocks)) (Block_NewIterator (tr_index_block t))"
    using it by (simp add: index_entries_def)
  from two_level.TwoLevelIterator_start [OF two_level_table table_layout [OF rd tt(1)] this]
    two_level.two_level_impl [OF two_level_table, of "BlockReader lib u t ro"]
  show ?thesis unfolding table_class_def Table_NewIterator_def Let_def tt(2) by blast
qed

section \<open>Lookups\<close>

text \<open>Where an entry of the table is: in the block that the index finds, at the position of its key.\<close>

lemma entry_position:
  assumes fin: "finished blocks bs" and x: "(k, v) \<in> set (concat (map entries_of blocks))"
  shows "\<exists>j < length blocks. entries_below C (index_entries blocks) k = j \<and> (k, v) \<in> set (entries_of (blocks ! j)) \<and>
    entries_below C (entries_of (blocks ! j)) k < length (entries_of (blocks ! j)) \<and>
    entries_of (blocks ! j) ! entries_below C (entries_of (blocks ! j)) k = (k, v)"
proof -
  obtain b where "b \<in> set blocks" "(k, v) \<in> set (entries_of b)" using x by auto
  then obtain j where j: "j < length blocks" "(k, v) \<in> set (entries_of (blocks ! j))" by (metis in_set_conv_nth)
  let ?es = "entries_of (blocks ! j)"
  obtain q where q: "q < length ?es" "?es ! q = (k, v)" using j(2) by (auto simp: in_set_conv_nth)
  have sep: "separated blocks []" and srt: "sorted_entries C ok ?es"
    using fin j(1) by (auto simp: finished_def intro: block_entries_sorted)
  have k: "ok k" using sorted_entries_ok [OF srt q(1)] q(2) by simp
  have "entries_below C (index_entries blocks) k = j"
  proof (rule entries_below_eqI)
    show "j \<le> length (index_entries blocks)" using j(1) by (simp add: index_entries_def)
    show "lt (fst (index_entries blocks ! i)) k" if "i < j" for i
      using sep j that by (fastforce simp: separated_def sorted_wrt_iff_nth_less index_entries_def)
    show "\<not> lt (fst (index_entries blocks ! j)) k"
      using sep j by (fastforce simp: separated_def index_entries_def)
  qed
  moreover have "entries_below C ?es k = q"
  proof (rule entries_below_eqI)
    show "lt (fst (?es ! i)) k" if "i < q" for i using sorted_entries_less [OF srt that q(1)] q(2) by simp
    show "\<not> lt (fst (?es ! q)) k" using irrefl [OF k] q(2) by simp
  qed (use q(1) in simp)
  ultimately show ?thesis using j q by blast
qed

text \<open>The filter may only say no to a key that is not in the table.\<close>

lemma filter_excludes_absent:
  assumes rd: "readable blocks read_at bs" and t: "opened blocks read_at u t" "filter_opened blocks t"
    and n: "length (concat (map entries_of blocks)) < 2 ^ 31" and b: "b \<in> set blocks"
  shows "\<exists>e. filter_excludes t (BlockHandle_EncodeTo (handle_of b) []) k = Some e \<and>
    (e \<longrightarrow> k \<notin> fst ` set (entries_of b))"
proof (cases "opt_filter_policy options")
  case None
  then have "tr_filter t = None" using t(2) by (simp add: filter_opened_def)
  then show ?thesis by (intro exI [of _ False]) (simp add: filter_excludes_def)
next
  case (Some P)
  then obtain fb added off where f: "tr_filter t = Some (FilterBlockReader (fst (FilterBlock_Finish P fb)))"
    "length (fst (FilterBlock_Finish P fb)) < 2 ^ 32" "filter_policy.filter_inv P fb added off"
    "set added = block_keys (map snd blocks)" "length added = length (concat (map entries_of blocks))"
    using t(2) by (auto simp: filter_opened_def)
  let ?may = "FilterBlock_KeyMayMatch P (FilterBlockReader (fst (FilterBlock_Finish P fb))) (bh_offset (handle_of b)) k"
  have pol: "opt_filter_policy (tr_options t) = Some P" using t(1) Some by (simp add: opened_def)
  have ex: "filter_excludes t (BlockHandle_EncodeTo (handle_of b) []) k = map_option Not ?may"
    using BlockHandle_Decode_Encode [of BlockHandle "handle_of b" "[]"] by (simp add: filter_excludes_def f(1) pol)
  obtain m where m: "?may = Some m" using filter_policy.filter_inv_defined [OF policy [OF Some] f(3,2)] by blast
  have "m" if "k \<in> fst ` set (entries_of b)"
  proof -
    have "(bh_offset (handle_of b), k) \<in> set added" using that b unfolding f(4) by (force simp: block_keys_def)
    then have "?may = Some True"
      using filter_policy.filter_inv_found [OF policy [OF Some] f(3) _ f(2)] f(5) n by simp
    then show ?thesis using m by simp
  qed
  then show ?thesis using ex m by auto
qed

lemma table_lookup:
  assumes rd: "readable blocks read_at bs" and t: "opened blocks read_at u t" "filter_opened blocks t"
    and n: "length (concat (map entries_of blocks)) < 2 ^ 31" and k: "ok k"
  defines "kvs \<equiv> concat (map entries_of blocks)"
  shows "\<exists>saved. InternalGet lib u t ro k = Some (Status_OK, saved) \<and>
    (saved = None \<or> entries_below C kvs k < length kvs \<and> saved = Some (kvs ! entries_below C kvs k)) \<and>
    (\<forall>v. (k, v) \<in> set kvs \<longrightarrow> saved = Some (k, v))"
proof -
  let ?cls = "table_iter_class C" and ?ikvs = "index_entries blocks" and ?j = "entries_below C (index_entries blocks) k"
  have fin: "finished blocks bs" using rd by (simp add: readable_def)
  have tt: "tr_file t = read_at" "opt_comparator (tr_options t) = C" "tr_index_block t = Block u (build_block 1 ?ikvs)"
    using t(1) options_comparator by (simp_all add: opened_def)
  note impl = entry_iter_impl
  obtain it where it: "Block_NewIterator (tr_index_block t) = Inr it" "block_cursor ?ikvs (length blocks) it"
    using open_index [OF rd] tt(3) by metis
  have "entry_cursor ?ikvs (length blocks) (Block_NewIterator (tr_index_block t))" using it by simp
  from iterator_impl.seek [OF impl this k] obtain ii where ii: "it_Seek ?cls k (Block_NewIterator (tr_index_block t)) = Some ii"
    "entry_cursor ?ikvs ?j ii" by blast
  have len: "length ?ikvs = length blocks" by (simp add: index_entries_def)
  have valid: "it_Valid ?cls ii \<longleftrightarrow> ?j < length blocks" and st: "it_status ?cls ii = Status_OK"
    using iterator_impl.valid [OF impl ii(2)] iterator_impl.status [OF impl ii(2)] len by simp_all
  show ?thesis
  proof (cases "?j < length blocks")
    case False
    then have "InternalGet lib u t ro k = Some (Status_OK, None)"
      using ii(1) valid st by (simp add: InternalGet_def tt Let_def)
    moreover have "(k, v) \<notin> set kvs" for v using entry_position [OF fin, of k v] False unfolding kvs_def by auto
    ultimately show ?thesis by simp
  next
    case True
    let ?b = "blocks ! ?j"
    let ?es = "entries_of ?b" and ?h = "BlockHandle_EncodeTo (handle_of (blocks ! ?j)) []"
    have b: "?b \<in> set blocks" using True by simp
    have value_ii: "it_value ?cls ii = Some ?h"
      using iterator_impl.value_eq [OF impl ii(2)] True len by (simp add: index_entries_def)
    obtain e where e: "filter_excludes t ?h k = Some e" "e \<longrightarrow> k \<notin> fst ` set ?es"
      using filter_excludes_absent [OF rd t n b] by blast
    have found: "(k, v) \<in> set ?es \<and> entries_below C ?es k < length ?es \<and> ?es ! entries_below C ?es k = (k, v)"
      if "(k, v) \<in> set kvs" for v using entry_position [OF fin that [unfolded kvs_def]] by auto
    show ?thesis
    proof (cases e)
      case True
      then have "InternalGet lib u t ro k = Some (Status_OK, None)"
        using ii(1) valid st e(1) value_ii \<open>?j < length blocks\<close> by (simp add: InternalGet_def tt Let_def)
      moreover have "(k, v) \<notin> set kvs" for v using found [of v] e(2) True by force
      ultimately show ?thesis by simp
    next
      case False
      obtain bi where bi: "BlockReader lib u t ro ?h = Some (Inr bi)" "entry_cursor ?es (length ?es) (Inr bi)"
        using read_data_block [OF rd b tt(1)] by (metis entry_cursor_Inr)
      let ?p = "entries_below C ?es k"
      obtain bj where bj: "it_Seek ?cls k (Inr bi) = Some bj" "entry_cursor ?es ?p bj"
        using iterator_impl.seek [OF impl bi(2) k] by blast
      have vb: "it_Valid ?cls bj \<longleftrightarrow> ?p < length ?es" "it_status ?cls bj = Status_OK"
        "?p < length ?es \<Longrightarrow> it_key ?cls bj = fst (?es ! ?p)" "?p < length ?es \<Longrightarrow> it_value ?cls bj = Some (snd (?es ! ?p))"
        using iterator_impl.valid [OF impl bj(2)] iterator_impl.status [OF impl bj(2)] iterator_impl.key [OF impl bj(2)]
          iterator_impl.value_eq [OF impl bj(2)] by simp_all
      let ?saved = "if ?p < length ?es then Some (?es ! ?p) else None"
      have get: "InternalGet lib u t ro k = Some (Status_OK, ?saved)"
        using ii(1) valid st e(1) value_ii \<open>?j < length blocks\<close> False bi(1) bj(1) vb by (simp add: InternalGet_def tt Let_def)
      note lay = table_layout [OF rd tt(1), of u ro, folded kvs_def]
      have blk: "block_of (contents_of blocks) ?ikvs ?j = ?es"
      proof -
        have "distinct (map fst (map snd blocks))" using rd by (auto simp: readable_def finished_def blocks_stored_def)
        from contents_of_block [OF this b] show ?thesis using \<open>?j < length blocks\<close> by (simp add: block_of_def index_entries_def)
      qed
      have "entries_below C kvs k < length kvs \<and> kvs ! entries_below C kvs k = ?es ! ?p" if "?p < length ?es"
        using two_level.seek_position [OF two_level_table lay k] two_level.position_in [OF two_level_table lay, of ?j ?p]
          that blk \<open>?j < length blocks\<close> len by simp
      then show ?thesis using get found by auto
    qed
  qed
qed

end

section \<open>Properties\<close>

text \<open>What a client of both classes has to provide.\<close>

definition table_client ::
    "comparator_class \<Rightarrow> (bytes \<Rightarrow> bool) \<Rightarrow> snappy_library option \<Rightarrow> table_options \<Rightarrow> entries \<Rightarrow> bool" where
  "table_client C ok lib options kvs \<longleftrightarrow>
     opt_comparator options = C \<and> 1 \<le> opt_block_restart_interval options \<and>
     (opt_compression options = kNoCompression \<or> opt_compression options = kSnappyCompression \<and> lib = None) \<and>
     sorted_wrt (\<lambda>a b. Compare C (fst a) (fst b) < 0) kvs \<and>
     (\<forall>(k, v)\<in>set kvs. ok k \<and> length k < 2 ^ 32 \<and> length v < 2 ^ 32)"

lemma written_table_opens:
  assumes "comparator C ok" "writable_file cls content healthy" and f: "healthy f" "content f = []"
    and client: "table_client C ok lib options kvs" and pol: "\<forall>P. opt_filter_policy options = Some P \<longrightarrow> filter_policy P"
    and w: "write_table lib cls options kvs f = (s, r)"
    and small: "length (content (tb_file r)) < 2 ^ 32" and ra: "random_access read_at (content (tb_file r))"
  shows "s = Status_OK \<and> table_writer C ok cls content healthy lib options \<and>
    (\<exists>t blocks. Table_Open lib u options read_at (of_nat (length (content (tb_file r)))) = Some (Status_OK, Some t) \<and>
      table_writer.readable C ok options blocks read_at (content (tb_file r)) \<and>
      table_writer.opened options blocks read_at u t \<and> table_writer.filter_opened options blocks t \<and>
      kvs = concat (map entries_of blocks))"
proof -
  have tw: "table_writer C ok cls content healthy lib options"
    using assms(1,2) client pol by (auto simp: table_writer_def table_writer_axioms_def table_client_def)
  have "sorted_entries C ok kvs" using client by (auto simp: table_client_def sorted_entries_def)
  from table_writer.write_table_finished [OF tw f this] w small obtain blocks
    where "s = Status_OK" "table_writer.finished C ok options blocks (content (tb_file r))"
      "kvs = concat (map entries_of blocks)" by auto
  then have rd: "table_writer.readable C ok options blocks read_at (content (tb_file r))"
    using small ra client by (auto simp: table_writer.readable_def [OF tw] table_client_def)
  show ?thesis
    using tw \<open>s = Status_OK\<close> table_writer.Table_Open_readable [OF tw rd] rd \<open>kvs = _\<close> by blast
qed

text \<open>A table of two blocks with a Bloom filter, in a posix file.\<close>

definition demo_options :: table_options where
  "demo_options = Options\<lparr>opt_block_size := 13, opt_filter_policy := Some (NewBloomFilterPolicy 10)\<rparr>"

definition demo_entries :: entries where
  "demo_entries = [([1], [10]), ([3], [20])]"

definition demo_table :: "posix_out table_builder" where
  "demo_table = snd (write_table None posix_writable demo_options demo_entries new_file)"

definition demo_bytes :: bytes where
  "demo_bytes = out_data (tb_file demo_table)"

definition demo_read :: random_access_file where
  "demo_read = PosixRandomAccessFile_Read \<lparr>ra_data = demo_bytes, ra_temporary_fd = False, ra_open_ok = True, ra_pread_ok = True\<rparr>"

definition demo_builder ::
    "u64 \<Rightarrow> bytes \<Rightarrow> block_builder \<Rightarrow> bytes \<Rightarrow> int \<Rightarrow> block_handle \<Rightarrow> bytes \<Rightarrow> nat list \<Rightarrow> posix_out table_builder" where
  "demo_builder off bs index key n h keys start =
     \<lparr>tb_options = demo_options, tb_index_block_options = demo_options\<lparr>opt_block_restart_interval := 1\<rparr>,
      tb_file = \<lparr>out_data = bs, out_room = None, out_flush_ok = True\<rparr>, tb_offset = off, tb_status = Status_OK, tb_data_block = BlockBuilder,
      tb_index_block = index, tb_last_key = key, tb_num_entries = n, tb_closed = False,
      tb_filter_block = Some \<lparr>fb_keys = keys, fb_start = start, fb_result = [], fb_filter_offsets = []\<rparr>,
      tb_filter_policy = opt_filter_policy demo_options, tb_pending_index_entry = True, tb_pending_handle = h\<rparr>"

lemma StartBlock_near: "unat off < 2048 \<Longrightarrow> StartBlock P off b = b"
  by (simp add: StartBlock_def kFilterBase_def kFilterBaseLg_def unat_div StartBlock_loop.simps)

lemma posix_WriteRawBlock:
  assumes "out_room (tb_file r) = None"
  shows "WriteRawBlock posix_writable raw kNoCompression r =
    (\<lparr>bh_offset = tb_offset r, bh_size = of_nat (length raw)\<rparr>,
     r\<lparr>tb_file := (tb_file r)\<lparr>out_data := out_data (tb_file r) @ stored raw\<rparr>, tb_status := Status_OK,
       tb_offset := tb_offset r + (of_nat (length raw) + 5)\<rparr>)"
  using assms by (simp add: WriteRawBlock_def Let_def posix_writable_def PosixWritableFile_Append_def trailer_bytes
      kBlockTrailerSize_def del: EncodeFixed32_le)

lemma posix_flush [simp]: "out_flush_ok f \<Longrightarrow> wf_flush posix_writable f = (Status_OK, f)"
  by (simp add: posix_writable_def PosixWritableFile_Flush_def)

lemmas demo_eval = demo_options_def Options_def on_filter_def StartBlock_near AddKey_def TableBuilder_Add_def
  TableBuilder_Flush_def BlockBuilder_def BlockBuilder_Add_def CurrentSizeEstimate_def shared_loop.simps PutVarint32_def
  EncodeVarint32_def BlockBuilder_empty_def WriteBlock_def BlockBuilder_Finish_def posix_WriteRawBlock compress_block_def
  Snappy_Compress_def kSnappyCompression_def PutFixed32_def add_index_entry_def BytewiseComparator_def
  Bytewise_FindShortestSeparator_def diff_loop.simps BlockHandle_EncodeTo_def PutVarint64_def EncodeVarint64.simps Let_def

lemma demo_first:
  "TableBuilder_Add None posix_writable [1] [10] (TableBuilder demo_options new_file) =
    demo_builder 18 (stored ([0, 1, 1, 1, 10] @ le_bytes 4 0 @ le_bytes 4 1)) BlockBuilder [1] 1
      \<lparr>bh_offset = 0, bh_size = 13\<rparr> [1] [0]"
  by (simp add: demo_eval TableBuilder_def FilterBlockBuilder_def demo_builder_def)

lemma demo_second:
  "TableBuilder_Add None posix_writable [3] [20] (demo_builder 18 bs BlockBuilder [1] 1 \<lparr>bh_offset = 0, bh_size = 13\<rparr> [1] [0]) =
    demo_builder 36 (bs @ stored ([0, 1, 1, 3, 20] @ le_bytes 4 0 @ le_bytes 4 1)) (BlockBuilder_Add 1 BlockBuilder [2] [0, 13])
      [3] 2 \<lparr>bh_offset = 18, bh_size = 13\<rparr> [1, 3] [0, 1]"
  by (simp add: demo_eval demo_builder_def)

lemma demo_size: "length demo_bytes < 2 ^ 32"
proof -
  let ?r = "demo_builder 36 (stored ([0, 1, 1, 1, 10] @ le_bytes 4 0 @ le_bytes 4 1) @
    stored ([0, 1, 1, 3, 20] @ le_bytes 4 0 @ le_bytes 4 1)) (BlockBuilder_Add 1 BlockBuilder [2] [0, 13]) [3] 2
      \<lparr>bh_offset = 18, bh_size = 13\<rparr> [1, 3] [0, 1]"
  let ?fb = "\<lparr>fb_keys = [1, 3], fb_start = [0, 1], fb_result = [], fb_filter_offsets = []\<rparr>" and ?P = "NewBloomFilterPolicy 10"
  have entries: "add_entries None posix_writable demo_entries (TableBuilder demo_options new_file) = ?r"
    by (simp add: add_entries_def demo_entries_def demo_first demo_second)
  have on: "posix_table.on_file 10 13 ?r"
    by (simp add: posix_table.on_file_def demo_builder_def demo_options_def out_healthy_def)
  have "length (fst (FilterBlock_Finish ?P ?fb)) \<le> 100"
    by (simp add: FilterBlock_Finish_def GenerateFilter_def Let_def NewBloomFilterPolicy_def Bloom_CreateFilter_def
        PutFixed32_def EncodeFixed32_le BloomFilterPolicy_def del: fold_simps)
  moreover have "length (filter_key ?P) \<le> 100"
    by (simp add: filter_key_def string_bytes_def NewBloomFilterPolicy_def)
  moreover have "length (fst (BlockBuilder_Finish (posix_table.last_index ?r))) \<le> 100"
    unfolding posix_table.last_index_def demo_builder_def
    by (simp add: demo_eval Bytewise_FindShortSuccessor_def successor_loop.simps)
  moreover have "length (out_data (tb_file ?r)) = 36" by (simp add: demo_builder_def)
  ultimately have "length (out_data (tb_file (snd (TableBuilder_Finish None posix_writable ?r)))) \<le> 500"
    using posix_table.Finish_length [OF on, of ?fb ?P]
    by (simp add: demo_builder_def BlockBuilder_empty_def BlockBuilder_def)
  then show ?thesis by (simp add: demo_bytes_def demo_table_def write_table_def entries)
qed

lemma demo_client: "table_client BytewiseComparator (\<lambda>_. True) None demo_options demo_entries"
  by (simp add: table_client_def demo_options_def Options_def demo_entries_def BytewiseComparator_def Slice_compare_def)

lemma demo_random_access: "random_access demo_read demo_bytes"
  unfolding demo_read_def by (rule posix_file.random_access_axioms)

text \<open>
  C36. A table written with \<open>TableBuilder\<close> and opened with \<open>Table\<close> is the list of entries added:
  building and opening succeed, and the iterator over the table behaves as a cursor into that list,
  for every sequence of operations. The file takes less than 4 GiB, keys and values too, and the
  compression is off or not built in; the comparator, the files and the filter policy, if any,
  keep their contracts. Nothing is read outside a buffer, and all operations return.
\<close>

theorem table_roundtrip:
  assumes "comparator C ok" and "writable_file cls content healthy" and "healthy f" and "content f = []"
    and "table_client C ok lib options kvs" and "\<forall>P. opt_filter_policy options = Some P \<longrightarrow> filter_policy P"
    and "write_table lib cls options kvs f = (s, r)"
    and "length (content (tb_file r)) < 2 ^ 32" and "random_access read_at (content (tb_file r))"
    and "\<forall>op\<in>set ops. \<forall>k. op = Seek k \<longrightarrow> ok k"
  shows "s = Status_OK \<and>
    (\<exists>t. Table_Open lib uninit options read_at (of_nat (length (content (tb_file r)))) = Some (Status_OK, Some t) \<and>
      iterator_run (table_class lib uninit t ro) ops (Table_NewIterator C t) = Some (cursor_run C kvs ops (length kvs)))"
proof -
  from written_table_opens [OF assms(1-9), of uninit] obtain t blocks where t: "s = Status_OK"
    "table_writer C ok cls content healthy lib options"
    "Table_Open lib uninit options read_at (of_nat (length (content (tb_file r)))) = Some (Status_OK, Some t)"
    "table_writer.readable C ok options blocks read_at (content (tb_file r))"
    "table_writer.opened options blocks read_at uninit t" "kvs = concat (map entries_of blocks)" by blast
  obtain R where "iterator_impl C ok (table_class lib uninit t ro) R" "R kvs (length kvs) (Table_NewIterator C t)"
    using table_writer.table_iterator [OF t(2,4,5)] unfolding t(6) by blast
  from iterator_impl.run_refines [OF this assms(10)] t(1,3) show ?thesis by blast
qed

theorem table_roundtrip_witness:
  "\<exists>t. Table_Open None 0 demo_options demo_read (of_nat (length demo_bytes)) = Some (Status_OK, Some t) \<and>
    iterator_run (table_class None 0 t ReadOptions) [Seek [2], Prev, Prev, SeekToLast] (Table_NewIterator BytewiseComparator t) =
      Some [(Some ([3], Some [20]), Status_OK), (Some ([1], Some [10]), Status_OK), (None, Status_OK),
        (Some ([3], Some [20]), Status_OK)]"
proof -
  let ?f = "new_file" and ?ops = "[Seek [2], Prev, Prev, SeekToLast]"
  obtain s r where w: "write_table None posix_writable demo_options demo_entries ?f = (s, r)" by fastforce
  then have r: "out_data (tb_file r) = demo_bytes" by (simp add: demo_bytes_def demo_table_def)
  have "\<exists>t. Table_Open None 0 demo_options demo_read (of_nat (length demo_bytes)) = Some (Status_OK, Some t) \<and>
      iterator_run (table_class None 0 t ReadOptions) ?ops (Table_NewIterator BytewiseComparator t) =
      Some (cursor_run BytewiseComparator demo_entries ?ops (length demo_entries))"
    using table_roundtrip [OF bytewise.comparator_axioms posix_log_out.writable_file_axioms, of ?f None demo_options
        demo_entries s r demo_read ?ops 0 ReadOptions]
      w demo_client demo_size demo_random_access bloom.filter_policy_axioms unfolding r by (simp add: demo_options_def out_healthy_def)
  then show ?thesis
    by (simp add: demo_entries_def cursor_observe_def entries_below_def Let_def BytewiseComparator_def Slice_compare_def)
qed

text \<open>
  C37. \<open>InternalGet\<close> on such a table finds the entry of every key that was added, through the Bloom
  filter of its block where there is one; for a key that was not added it calls the
  callback with the first entry above the key or not at all, and the status is OK.
\<close>

theorem table_lookup_finds:
  assumes "comparator C ok" and "writable_file cls content healthy" and "healthy f" and "content f = []"
    and "table_client C ok lib options kvs" and "\<forall>P. opt_filter_policy options = Some P \<longrightarrow> filter_policy P"
    and "write_table lib cls options kvs f = (s, r)"
    and "length (content (tb_file r)) < 2 ^ 32" and "random_access read_at (content (tb_file r))"
    and "ok k" and "length kvs < 2 ^ 31"
  shows "\<exists>t saved.
    Table_Open lib uninit options read_at (of_nat (length (content (tb_file r)))) = Some (Status_OK, Some t) \<and>
    InternalGet lib uninit t ro k = Some (Status_OK, saved) \<and>
    (\<forall>v. (k, v) \<in> set kvs \<longrightarrow> saved = Some (k, v)) \<and>
    (saved = None \<or> entries_below C kvs k < length kvs \<and> saved = Some (kvs ! entries_below C kvs k))"
proof -
  from written_table_opens [OF assms(1-9), of uninit] obtain t blocks where t:
    "table_writer C ok cls content healthy lib options"
    "Table_Open lib uninit options read_at (of_nat (length (content (tb_file r)))) = Some (Status_OK, Some t)"
    "table_writer.readable C ok options blocks read_at (content (tb_file r))"
    "table_writer.opened options blocks read_at uninit t" "table_writer.filter_opened options blocks t"
    "kvs = concat (map entries_of blocks)" by blast
  from table_writer.table_lookup [OF t(1,3,4,5) _ assms(10), of ro] assms(11) t(2) show ?thesis unfolding t(6) by blast
qed

theorem table_lookup_finds_witness:
  "\<exists>t. Table_Open None 0 demo_options demo_read (of_nat (length demo_bytes)) = Some (Status_OK, Some t) \<and>
    InternalGet None 0 t ReadOptions [3] = Some (Status_OK, Some ([3], [20]))"
proof -
  let ?f = "new_file"
  obtain s r where w: "write_table None posix_writable demo_options demo_entries ?f = (s, r)" by fastforce
  then have r: "out_data (tb_file r) = demo_bytes" by (simp add: demo_bytes_def demo_table_def)
  have "\<exists>t saved. Table_Open None 0 demo_options demo_read (of_nat (length demo_bytes)) = Some (Status_OK, Some t) \<and>
      InternalGet None 0 t ReadOptions [3] = Some (Status_OK, saved) \<and> (\<forall>v. ([3], v) \<in> set demo_entries \<longrightarrow> saved = Some ([3], v))"
    using table_lookup_finds [OF bytewise.comparator_axioms posix_log_out.writable_file_axioms, where f = ?f and lib = None
        and options = demo_options and kvs = demo_entries and s = s and r = r and read_at = demo_read and k = "[3]" and uninit = 0
        and ro = ReadOptions]
      w demo_client demo_size demo_random_access bloom.filter_policy_axioms unfolding r
    by (simp add: demo_options_def out_healthy_def) (blast | simp add: demo_entries_def)+
  moreover have "([3], [20]) \<in> set demo_entries" by (simp add: demo_entries_def)
  ultimately show ?thesis by blast
qed

end
