(* ===== verification/Avl_Spec.thy ===== *)
theory Avl_Spec
  imports Prelude "HOL-Library.Tree"
begin

text \<open>
  Balanced trees as values, the specification of the reference-counted trees of
  \<open>gRPC-Core/src/core/lib/avl/avl.c\<close>: what inserting, removing and looking up do to the
  entries of a tree, and that the trees stay balanced. The label of a node is its key, its value and the
  height that it stores.
\<close>

section \<open>Trees\<close>

type_synonym ('k, 'v) avl_tree = "('k \<times> 'v \<times> int) tree"

fun ht :: "('k, 'v) avl_tree \<Rightarrow> int" where
  "ht Leaf = 0"
| "ht (Node l (k, v, h) r) = h"

fun tree_height :: "('k, 'v) avl_tree \<Rightarrow> int" where
  "tree_height Leaf = 0"
| "tree_height (Node l a r) = 1 + max (tree_height l) (tree_height r)"

fun avl :: "('k, 'v) avl_tree \<Rightarrow> bool" where
  "avl Leaf = True"
| "avl (Node l (k, v, h) r) \<longleftrightarrow> h = 1 + max (ht l) (ht r) \<and> \<bar>ht l - ht r\<bar> \<le> 1 \<and> avl l \<and> avl r"

definition entries :: "('k, 'v) avl_tree \<Rightarrow> ('k \<times> 'v) list" where
  "entries t = map (\<lambda>(k, v, h). (k, v)) (inorder t)"

lemma entries_simps [simp]:
  "entries Leaf = []" "entries (Node l (k, v, h) r) = entries l @ (k, v) # entries r"
  by (simp_all add: entries_def)

lemma ht_nonneg: "avl t \<Longrightarrow> 0 \<le> ht t"
  by (induction t rule: avl.induct) auto

lemma ht_zero: "avl t \<Longrightarrow> ht t = 0 \<longleftrightarrow> t = Leaf"
  by (cases t rule: avl.cases) (auto dest: ht_nonneg)

lemma tree_height_ht: "avl t \<Longrightarrow> tree_height t = ht t"
  by (induction t rule: avl.induct) auto

section \<open>Operations\<close>

definition mk_node :: "'k \<Rightarrow> 'v \<Rightarrow> ('k, 'v) avl_tree \<Rightarrow> ('k, 'v) avl_tree \<Rightarrow> ('k, 'v) avl_tree" where
  "mk_node k v l r = Node l (k, v, 1 + max (ht l) (ht r)) r"

fun left_of :: "('k, 'v) avl_tree \<Rightarrow> ('k, 'v) avl_tree" where
  "left_of Leaf = Leaf" | "left_of (Node l a r) = l"

fun right_of :: "('k, 'v) avl_tree \<Rightarrow> ('k, 'v) avl_tree" where
  "right_of Leaf = Leaf" | "right_of (Node l a r) = r"

fun rot_left :: "'k \<Rightarrow> 'v \<Rightarrow> ('k, 'v) avl_tree \<Rightarrow> ('k, 'v) avl_tree \<Rightarrow> ('k, 'v) avl_tree" where
  "rot_left k v l (Node rl (rk, rv, rh) rr) = mk_node rk rv (mk_node k v l rl) rr"
| "rot_left k v l Leaf = mk_node k v l Leaf"

fun rot_right :: "'k \<Rightarrow> 'v \<Rightarrow> ('k, 'v) avl_tree \<Rightarrow> ('k, 'v) avl_tree \<Rightarrow> ('k, 'v) avl_tree" where
  "rot_right k v (Node ll (lk, lv, lh) lr) r = mk_node lk lv ll (mk_node k v lr r)"
| "rot_right k v Leaf r = mk_node k v Leaf r"

fun rot_left_right :: "'k \<Rightarrow> 'v \<Rightarrow> ('k, 'v) avl_tree \<Rightarrow> ('k, 'v) avl_tree \<Rightarrow> ('k, 'v) avl_tree" where
  "rot_left_right k v (Node ll (lk, lv, lh) (Node a (mk, mv, mh) b)) r =
     mk_node mk mv (mk_node lk lv ll a) (mk_node k v b r)"
| "rot_left_right k v l r = mk_node k v l r"

fun rot_right_left :: "'k \<Rightarrow> 'v \<Rightarrow> ('k, 'v) avl_tree \<Rightarrow> ('k, 'v) avl_tree \<Rightarrow> ('k, 'v) avl_tree" where
  "rot_right_left k v l (Node (Node a (mk, mv, mh) b) (rk, rv, rh) rr) =
     mk_node mk mv (mk_node k v l a) (mk_node rk rv b rr)"
| "rot_right_left k v l r = mk_node k v l r"

definition balance :: "'k \<Rightarrow> 'v \<Rightarrow> ('k, 'v) avl_tree \<Rightarrow> ('k, 'v) avl_tree \<Rightarrow> ('k, 'v) avl_tree" where
  "balance k v l r =
     (if ht l - ht r = 2 then
        if ht (left_of l) - ht (right_of l) = -1 then rot_left_right k v l r else rot_right k v l r
      else if ht l - ht r = -2 then
        if ht (left_of r) - ht (right_of r) = 1 then rot_right_left k v l r else rot_left k v l r
      else mk_node k v l r)"

fun find :: "('k \<Rightarrow> 'k \<Rightarrow> int) \<Rightarrow> 'k \<Rightarrow> ('k, 'v) avl_tree \<Rightarrow> 'v option" where
  "find cmp key Leaf = None"
| "find cmp key (Node l (k, v, h) r) =
     (if cmp k key = 0 then Some v else if cmp k key > 0 then find cmp key l else find cmp key r)"

fun insert_key :: "('k \<Rightarrow> 'k \<Rightarrow> int) \<Rightarrow> 'k \<Rightarrow> 'v \<Rightarrow> ('k, 'v) avl_tree \<Rightarrow> ('k, 'v) avl_tree" where
  "insert_key cmp key val Leaf = mk_node key val Leaf Leaf"
| "insert_key cmp key val (Node l (k, v, h) r) =
     (if cmp k key = 0 then mk_node key val l r
      else if cmp k key > 0 then balance k v (insert_key cmp key val l) r
      else balance k v l (insert_key cmp key val r))"

fun head_of :: "('k, 'v) avl_tree \<Rightarrow> 'k \<times> 'v" where
  "head_of (Node l (k, v, h) r) = (if l = Leaf then (k, v) else head_of l)"
| "head_of Leaf = undefined"

fun tail_of :: "('k, 'v) avl_tree \<Rightarrow> 'k \<times> 'v" where
  "tail_of (Node l (k, v, h) r) = (if r = Leaf then (k, v) else tail_of r)"
| "tail_of Leaf = undefined"

fun delete_key :: "('k \<Rightarrow> 'k \<Rightarrow> int) \<Rightarrow> 'k \<Rightarrow> ('k, 'v) avl_tree \<Rightarrow> ('k, 'v) avl_tree" where
  "delete_key cmp key Leaf = Leaf"
| "delete_key cmp key (Node l (k, v, h) r) =
     (if cmp k key = 0 then
        if l = Leaf then r
        else if r = Leaf then l
        else if ht l < ht r then balance (fst (head_of r)) (snd (head_of r)) l (delete_key cmp (fst (head_of r)) r)
        else balance (fst (tail_of l)) (snd (tail_of l)) (delete_key cmp (fst (tail_of l)) l) r
      else if cmp k key > 0 then balance k v (delete_key cmp key l) r
      else balance k v l (delete_key cmp key r))"

section \<open>The trees stay balanced\<close>

lemma mk_node_avl: "avl l \<Longrightarrow> avl r \<Longrightarrow> \<bar>ht l - ht r\<bar> \<le> 1 \<Longrightarrow> avl (mk_node k v l r)"
  by (simp add: mk_node_def)

lemma ht_mk_node [simp]: "ht (mk_node k v l r) = 1 + max (ht l) (ht r)"
  by (simp add: mk_node_def)

text \<open>What a rotation is applied to.\<close>

lemma avl_cases:
  assumes "avl t" "0 < ht t"
  obtains l k v r where "t = Node l (k, v, 1 + max (ht l) (ht r)) r" "avl l" "avl r" "\<bar>ht l - ht r\<bar> \<le> 1"
  using assms by (cases t rule: avl.cases) auto

lemma balance_avl:
  assumes l: "avl l" and r: "avl r" and d: "\<bar>ht l - ht r\<bar> \<le> 2"
  shows "avl (balance k v l r) \<and> max (ht l) (ht r) \<le> ht (balance k v l r) \<and>
    ht (balance k v l r) \<le> 1 + max (ht l) (ht r) \<and>
    (\<bar>ht l - ht r\<bar> \<le> 1 \<longrightarrow> ht (balance k v l r) = 1 + max (ht l) (ht r))"
proof -
  have n: "0 \<le> ht l" "0 \<le> ht r" using l r by (auto dest: ht_nonneg)
  consider (left) "ht l - ht r = 2" | (right) "ht l - ht r = -2" | (even) "\<bar>ht l - ht r\<bar> \<le> 1" using d by linarith
  then show ?thesis
  proof cases
    case left
    then obtain ll lk lv lr where lt: "l = Node ll (lk, lv, 1 + max (ht ll) (ht lr)) lr" "avl ll" "avl lr" "\<bar>ht ll - ht lr\<bar> \<le> 1"
      using avl_cases [OF l] n by (metis diff_gt_0_iff_gt order_le_less_trans zero_less_numeral)
    show ?thesis
    proof (cases "ht ll - ht lr = -1")
      case True
      then have "0 < ht lr" using ht_nonneg [OF lt(2)] by simp
      then obtain a mk mv b where m: "lr = Node a (mk, mv, 1 + max (ht a) (ht b)) b" "avl a" "avl b" "\<bar>ht a - ht b\<bar> \<le> 1"
        using avl_cases [OF lt(3)] by metis
      show ?thesis using left True lt m r by (auto simp: balance_def mk_node_def)
    next
      case False
      then show ?thesis using left lt r by (auto simp: balance_def mk_node_def)
    qed
  next
    case right
    then obtain rl rk rv rr where rt: "r = Node rl (rk, rv, 1 + max (ht rl) (ht rr)) rr" "avl rl" "avl rr" "\<bar>ht rl - ht rr\<bar> \<le> 1"
      using avl_cases [OF r] n by (metis add.inverse_inverse diff_gt_0_iff_gt minus_diff_eq order_le_less_trans zero_less_numeral)
    show ?thesis
    proof (cases "ht rl - ht rr = 1")
      case True
      then have "0 < ht rl" using ht_nonneg [OF rt(3)] by simp
      then obtain a mk mv b where m: "rl = Node a (mk, mv, 1 + max (ht a) (ht b)) b" "avl a" "avl b" "\<bar>ht a - ht b\<bar> \<le> 1"
        using avl_cases [OF rt(2)] by metis
      show ?thesis using right True rt m l by (auto simp: balance_def mk_node_def)
    next
      case False
      then show ?thesis using right rt l by (auto simp: balance_def mk_node_def)
    qed
  next
    case even
    then show ?thesis using l r by (auto simp: balance_def mk_node_def)
  qed
qed

lemma balance_grown:
  assumes "avl l" "avl r" "\<bar>a - b\<bar> \<le> 1" "a \<le> ht l \<and> ht l \<le> a + 1 \<and> ht r = b \<or> b \<le> ht r \<and> ht r \<le> b + 1 \<and> ht l = a"
  shows "avl (balance k v l r) \<and> 1 + max a b \<le> ht (balance k v l r) \<and> ht (balance k v l r) \<le> 2 + max a b"
proof -
  have "\<bar>ht l - ht r\<bar> \<le> 2" using assms(3,4) by auto
  from balance_avl [OF assms(1,2) this, of k v] assms(3,4) show ?thesis by (auto simp: max_def split: if_splits)
qed

lemma balance_shrunk:
  assumes "avl l" "avl r" "\<bar>a - b\<bar> \<le> 1" "a - 1 \<le> ht l \<and> ht l \<le> a \<and> ht r = b \<or> b - 1 \<le> ht r \<and> ht r \<le> b \<and> ht l = a"
  shows "avl (balance k v l r) \<and> max a b \<le> ht (balance k v l r) \<and> ht (balance k v l r) \<le> 1 + max a b"
proof -
  have "\<bar>ht l - ht r\<bar> \<le> 2" using assms(3,4) by auto
  from balance_avl [OF assms(1,2) this, of k v] assms(3,4) show ?thesis by (auto simp: max_def split: if_splits)
qed

lemma insert_key_avl: "avl t \<Longrightarrow> avl (insert_key cmp key val t) \<and>
    ht t \<le> ht (insert_key cmp key val t) \<and> ht (insert_key cmp key val t) \<le> ht t + 1"
proof (induction cmp key val t rule: insert_key.induct)
  case (2 cmp key val l k v h r)
  then have t: "avl l" "avl r" "\<bar>ht l - ht r\<bar> \<le> 1" "h = 1 + max (ht l) (ht r)" by simp_all
  consider (eq) "cmp k key = 0" | (below) "cmp k key > 0" | (above) "cmp k key < 0" by linarith
  then show ?case
  proof cases
    case below
    then show ?thesis using 2 t balance_grown [of "insert_key cmp key val l" r "ht l" "ht r" k v] by simp
  next
    case above
    then show ?thesis using 2 t balance_grown [of l "insert_key cmp key val r" "ht l" "ht r" k v] by simp
  qed (use t in \<open>simp add: mk_node_def\<close>)
qed (simp add: mk_node_def)

lemma delete_key_avl: "avl t \<Longrightarrow> avl (delete_key cmp key t) \<and>
    ht t - 1 \<le> ht (delete_key cmp key t) \<and> ht (delete_key cmp key t) \<le> ht t"
proof (induction cmp key t rule: delete_key.induct)
  case (2 cmp key l k v h r)
  then have t: "avl l" "avl r" "\<bar>ht l - ht r\<bar> \<le> 1" "h = 1 + max (ht l) (ht r)" by simp_all
  note nn = ht_nonneg [OF t(1)] ht_nonneg [OF t(2)]
  consider (left) "cmp k key = 0" "l = Leaf" | (right) "cmp k key = 0" "l \<noteq> Leaf" "r = Leaf"
    | (head) "cmp k key = 0" "l \<noteq> Leaf" "r \<noteq> Leaf" "ht l < ht r" | (tail) "cmp k key = 0" "l \<noteq> Leaf" "r \<noteq> Leaf" "\<not> ht l < ht r"
    | (below) "cmp k key > 0" | (above) "cmp k key < 0" by linarith
  then show ?case
  proof cases
    case left
    then show ?thesis using t nn by simp
  next
    case right
    then show ?thesis using t nn by simp
  next
    case head
    then show ?thesis
      using 2 t balance_shrunk [of l "delete_key cmp (fst (head_of r)) r" "ht l" "ht r" "fst (head_of r)" "snd (head_of r)"] by simp
  next
    case tail
    then show ?thesis
      using 2 t balance_shrunk [of "delete_key cmp (fst (tail_of l)) l" r "ht l" "ht r" "fst (tail_of l)" "snd (tail_of l)"] by simp
  next
    case below
    then show ?thesis using 2 t balance_shrunk [of "delete_key cmp key l" r "ht l" "ht r" k v] by simp
  next
    case above
    then show ?thesis using 2 t balance_shrunk [of l "delete_key cmp key r" "ht l" "ht r" k v] by simp
  qed
qed simp

text \<open>The height is logarithmic in the number of entries, which bounds the recursion of the code.\<close>

lemma avl_size: "avl t \<Longrightarrow> 2 ^ nat ((ht t + 1) div 2) \<le> length (entries t) + 1"
proof (induction t rule: avl.induct)
  case (2 l k v h r)
  then have t: "avl l" "avl r" "\<bar>ht l - ht r\<bar> \<le> 1" "h = 1 + max (ht l) (ht r)" by simp_all
  note nn = ht_nonneg [OF t(1)] ht_nonneg [OF t(2)]
  have mono: "(2::nat) ^ nat ((h - 1) div 2) \<le> length (entries x) + 1" if "x = l \<or> x = r" for x
  proof -
    have "(h - 1) div 2 \<le> (ht x + 1) div 2" using that t by (intro zdiv_mono1) auto
    then have "(2::nat) ^ nat ((h - 1) div 2) \<le> 2 ^ nat ((ht x + 1) div 2)" by (intro power_increasing) auto
    also have "\<dots> \<le> length (entries x) + 1" using 2 t(1,2) that by auto
    finally show ?thesis .
  qed
  have "nat ((h + 1) div 2) = Suc (nat ((h - 1) div 2))" using nn t(4) by (simp add: nat_add_distrib)
  then show ?case using mono [of l] mono [of r] by simp
qed simp

section \<open>The entries\<close>

lemma entries_mk_node [simp]: "entries (mk_node k v l r) = entries l @ (k, v) # entries r"
  by (simp add: mk_node_def)

lemma entries_rot [simp]:
  "entries (rot_left k v l r) = entries l @ (k, v) # entries r"
  "entries (rot_right k v l r) = entries l @ (k, v) # entries r"
  "entries (rot_left_right k v l r) = entries l @ (k, v) # entries r"
  "entries (rot_right_left k v l r) = entries l @ (k, v) # entries r"
  by (cases "(k, v, l, r)" rule: rot_left.cases; simp) (cases "(k, v, l, r)" rule: rot_right.cases; simp;
    cases "(k, v, l, r)" rule: rot_left_right.cases; simp; cases "(k, v, l, r)" rule: rot_right_left.cases; simp)+

lemma entries_balance [simp]: "entries (balance k v l r) = entries l @ (k, v) # entries r"
  by (simp add: balance_def)

lemma head_of_entries: "t \<noteq> Leaf \<Longrightarrow> entries t = head_of t # tl (entries t)"
proof (induction t)
  case (Node l a r)
  obtain k v h where a: "a = (k, v, h)" by (metis prod_cases3)
  show ?case
  proof (cases "l = Leaf")
    case False
    then have "entries l = head_of l # tl (entries l)" using Node by simp
    then show ?thesis using a False by (metis append_Cons entries_simps(2) head_of.simps(1) list.sel(3))
  qed (simp add: a)
qed simp

lemma tail_of_entries: "t \<noteq> Leaf \<Longrightarrow> entries t = butlast (entries t) @ [tail_of t]"
proof (induction t)
  case (Node l a r)
  obtain k v h where a: "a = (k, v, h)" by (metis prod_cases3)
  show ?case
  proof (cases "r = Leaf")
    case False
    then have "entries r = butlast (entries r) @ [tail_of r]" using Node by simp
    then show ?thesis using a False by (metis append_Cons append_assoc butlast_snoc entries_simps(2) tail_of.simps(1))
  qed (simp add: a)
qed simp

text \<open>What a comparison function of keys promises.\<close>

locale key_order =
  fixes cmp :: "'k \<Rightarrow> 'k \<Rightarrow> int"
  assumes cmp_eq: "cmp a b = 0 \<longleftrightarrow> a = b"
    and cmp_swap: "cmp a b > 0 \<longleftrightarrow> cmp b a < 0"
    and cmp_trans: "cmp a b < 0 \<Longrightarrow> cmp b c < 0 \<Longrightarrow> cmp a c < 0"
begin

definition sorted_keys :: "('k \<times> 'v) list \<Rightarrow> bool" where
  "sorted_keys xs \<longleftrightarrow> sorted_wrt (\<lambda>x y. cmp (fst x) (fst y) < 0) xs"

definition put :: "'k \<Rightarrow> 'v \<Rightarrow> ('k \<times> 'v) list \<Rightarrow> ('k \<times> 'v) list" where
  "put k v xs = filter (\<lambda>x. cmp (fst x) k < 0) xs @ (k, v) # filter (\<lambda>x. cmp (fst x) k > 0) xs"

definition del :: "'k \<Rightarrow> ('k \<times> 'v) list \<Rightarrow> ('k \<times> 'v) list" where
  "del k xs = filter (\<lambda>x. cmp (fst x) k \<noteq> 0) xs"

lemma sorted_append: "sorted_keys (xs @ (k, v) # ys) \<longleftrightarrow> sorted_keys xs \<and> sorted_keys ys \<and>
    (\<forall>x\<in>set xs. cmp (fst x) k < 0) \<and> (\<forall>y\<in>set ys. cmp k (fst y) < 0)"
  using cmp_trans by (fastforce simp: sorted_keys_def sorted_wrt_append)

lemma put_append:
  assumes "sorted_keys (xs @ (k, v) # ys)"
  shows "cmp k key > 0 \<Longrightarrow> put key val (xs @ (k, v) # ys) = put key val xs @ (k, v) # ys"
    "cmp k key < 0 \<Longrightarrow> put key val (xs @ (k, v) # ys) = xs @ (k, v) # put key val ys"
    "cmp k key = 0 \<Longrightarrow> put key val (xs @ (k, v) # ys) = xs @ (key, val) # ys"
proof -
  have s: "cmp (fst x) k < 0" if "x \<in> set xs" for x using assms that by (simp add: sorted_append)
  have t: "cmp k (fst y) < 0" if "y \<in> set ys" for y using assms that by (simp add: sorted_append)
  have above: "cmp (fst y) key > 0" if "y \<in> set ys" "cmp k key > 0 \<or> cmp k key = 0" for y
    using t [OF that(1)] that(2) cmp_swap cmp_trans cmp_eq by metis
  have below: "cmp (fst x) key < 0" if "x \<in> set xs" "cmp k key < 0 \<or> cmp k key = 0" for x
    using s [OF that(1)] that(2) cmp_trans cmp_eq by metis
  show "put key val (xs @ (k, v) # ys) = put key val xs @ (k, v) # ys" if "cmp k key > 0"
    using above that unfolding put_def by (auto simp: filter_empty_conv filter_id_conv dest: less_asym)
  show "put key val (xs @ (k, v) # ys) = xs @ (k, v) # put key val ys" if "cmp k key < 0"
    using below that unfolding put_def by (auto simp: filter_empty_conv filter_id_conv dest: less_asym)
  show "put key val (xs @ (k, v) # ys) = xs @ (key, val) # ys" if "cmp k key = 0"
  proof -
    have "filter (\<lambda>x. cmp (fst x) key < 0) ys = []" "filter (\<lambda>x. cmp (fst x) key > 0) ys = ys"
      using above that by (force simp: filter_empty_conv filter_id_conv)+
    moreover have "filter (\<lambda>x. cmp (fst x) key < 0) xs = xs" "filter (\<lambda>x. cmp (fst x) key > 0) xs = []"
      using below that by (force simp: filter_empty_conv filter_id_conv)+
    ultimately show ?thesis using that by (simp add: put_def)
  qed
qed

lemma del_append:
  assumes "sorted_keys (xs @ (k, v) # ys)"
  shows "cmp k key > 0 \<Longrightarrow> del key (xs @ (k, v) # ys) = del key xs @ (k, v) # ys"
    "cmp k key < 0 \<Longrightarrow> del key (xs @ (k, v) # ys) = xs @ (k, v) # del key ys"
    "cmp k key = 0 \<Longrightarrow> del key (xs @ (k, v) # ys) = xs @ ys"
proof -
  have s: "cmp (fst x) k < 0" if "x \<in> set xs" for x using assms that by (simp add: sorted_append)
  have t: "cmp k (fst y) < 0" if "y \<in> set ys" for y using assms that by (simp add: sorted_append)
  have above: "cmp (fst y) key > 0" if "y \<in> set ys" "cmp k key > 0 \<or> cmp k key = 0" for y
    using t [OF that(1)] that(2) cmp_swap cmp_trans cmp_eq by metis
  have below: "cmp (fst x) key < 0" if "x \<in> set xs" "cmp k key < 0 \<or> cmp k key = 0" for x
    using s [OF that(1)] that(2) cmp_trans cmp_eq by metis
  show "del key (xs @ (k, v) # ys) = del key xs @ (k, v) # ys" if "cmp k key > 0"
    using above that unfolding del_def by (force simp: filter_id_conv)
  show "del key (xs @ (k, v) # ys) = xs @ (k, v) # del key ys" if "cmp k key < 0"
    using below that unfolding del_def by (force simp: filter_id_conv)
  show "del key (xs @ (k, v) # ys) = xs @ ys" if "cmp k key = 0"
  proof -
    have "filter (\<lambda>x. cmp (fst x) key \<noteq> 0) ys = ys" "filter (\<lambda>x. cmp (fst x) key \<noteq> 0) xs = xs"
      using above below that by (force simp: filter_id_conv)+
    then show ?thesis using that by (simp add: del_def)
  qed
qed

lemma entries_insert_key: "sorted_keys (entries t) \<Longrightarrow> entries (insert_key cmp key val t) = put key val (entries t)"
proof (induction t)
  case (Node l a r)
  obtain k v h where a: "a = (k, v, h)" by (metis prod_cases3)
  note s = Node.prems [unfolded a entries_simps]
  then have "sorted_keys (entries l)" "sorted_keys (entries r)" by (simp_all add: sorted_append)
  then show ?case using Node.IH put_append [OF s, of key val] by (simp add: a)
qed (simp add: put_def mk_node_def)

lemma del_hd: "sorted_keys (x # xs) \<Longrightarrow> del (fst x) (x # xs) = xs"
  using del_append(3) [of "[]" "fst x" "snd x" xs] cmp_eq [of "fst x" "fst x"] by simp

lemma del_last: "sorted_keys (xs @ [x]) \<Longrightarrow> del (fst x) (xs @ [x]) = xs"
  using del_append(3) [of xs "fst x" "snd x" "[]"] cmp_eq [of "fst x" "fst x"] by simp

lemma entries_delete_key: "sorted_keys (entries t) \<Longrightarrow> entries (delete_key cmp key t) = del key (entries t)"
proof (induction t arbitrary: key)
  case (Node l a r)
  obtain k v h where a: "a = (k, v, h)" by (metis prod_cases3)
  note s = Node.prems [unfolded a entries_simps]
  then have sl: "sorted_keys (entries l)" and sr: "sorted_keys (entries r)" by (simp_all add: sorted_append)
  note cut = del_append [OF s, of key]
  consider (eq) "cmp k key = 0" | (below) "cmp k key > 0" | (above) "cmp k key < 0" by linarith
  then show ?case
  proof cases
    case eq
    have "entries (delete_key cmp (fst (head_of r)) r) = tl (entries r)" if "r \<noteq> Leaf"
      using Node.IH(2) [OF sr] head_of_entries [OF that] del_hd sr by metis
    moreover have "entries (delete_key cmp (fst (tail_of l)) l) = butlast (entries l)" if "l \<noteq> Leaf"
      using Node.IH(1) [OF sl] tail_of_entries [OF that] del_last sl by metis
    ultimately show ?thesis
      using cut(3) [OF eq] eq head_of_entries [of r] tail_of_entries [of l] by (auto simp: a)
  next
    case below
    then show ?thesis using Node.IH(1) [OF sl] cut(1) by (simp add: a)
  next
    case above
    then show ?thesis using Node.IH(2) [OF sr] cut(2) by (simp add: a)
  qed
qed (simp add: del_def)

text \<open>The entries are a map.\<close>

lemma sorted_put: "sorted_keys xs \<Longrightarrow> sorted_keys (put key val xs)"
  unfolding put_def sorted_append using cmp_swap by (auto simp: sorted_keys_def intro: sorted_wrt_filter)

lemma sorted_del: "sorted_keys xs \<Longrightarrow> sorted_keys (del key xs)"
  by (simp add: sorted_keys_def del_def sorted_wrt_filter)

lemma map_of_put: "map_of (put key val xs) = (map_of xs)(key \<mapsto> val)"
proof
  fix k
  have "map_of (filter (\<lambda>x. cmp (fst x) key < 0) xs) k = (if cmp k key < 0 then map_of xs k else None)"
    "map_of (filter (\<lambda>x. cmp (fst x) key > 0) xs) k = (if cmp k key > 0 then map_of xs k else None)"
    by (induction xs) auto
  then show "map_of (put key val xs) k = ((map_of xs)(key \<mapsto> val)) k"
    using cmp_eq [of k key] by (auto simp: put_def map_add_def split: option.split)
qed

lemma map_of_del: "map_of (del key xs) = (map_of xs)(key := None)"
  by (induction xs) (auto simp: del_def cmp_eq)

lemma find_entries: "sorted_keys (entries t) \<Longrightarrow> find cmp key t = map_of (entries t) key"
proof (induction t)
  case (Node l a r)
  obtain k v h where a: "a = (k, v, h)" by (metis prod_cases3)
  note s = Node.prems [unfolded a entries_simps, unfolded sorted_append]
  have l: "map_of (entries l) key = None" if "cmp k key \<le> 0"
  proof -
    have "cmp (fst x) key < 0" if "x \<in> set (entries l)" for x
      using s that \<open>cmp k key \<le> 0\<close> cmp_trans [of "fst x" k key] cmp_eq [of k key] by (cases "cmp k key = 0") auto
    then have "fst x \<noteq> key" if "x \<in> set (entries l)" for x using that cmp_eq [of "fst x" key] by fastforce
    then show ?thesis by (auto simp: map_of_eq_None_iff)
  qed
  have r: "map_of (entries r) key = None" if "cmp k key \<ge> 0"
  proof -
    have "cmp key (fst x) < 0" if "x \<in> set (entries r)" for x
      using s that \<open>cmp k key \<ge> 0\<close> cmp_trans [of key k "fst x"] cmp_eq [of k key] cmp_swap [of k key]
      by (cases "cmp k key = 0") auto
    then have "fst x \<noteq> key" if "x \<in> set (entries r)" for x using that cmp_eq [of key "fst x"] by fastforce
    then show ?thesis by (auto simp: map_of_eq_None_iff)
  qed
  show ?case using Node s l r cmp_eq [of k key] by (auto simp: a map_add_def split: option.split)
qed simp

end

end
