(* ===== verification/Avl.thy ===== *)
theory Avl
  imports Avl_Spec "HOL-Library.Multiset" "HOL-Library.Monad_Syntax"
begin

text \<open>
  The persistent balanced trees of gRPC (\<open>src/core/lib/avl/avl.c\<close>, \<open>avl.h\<close>): nodes are shared between
  trees and counted, and a tree is never changed: adding or removing a key makes new nodes on the way
  to it. The nodes are in a memory; a run that uses an address without a node, or in
  which an assertion fails, is \<open>None\<close>.

  A node owns its key and its value. The functions of the client that copy and destroy them act on a
  state of the client; a copy is equal to the original. Arguments of a call are evaluated from left to
  right.
\<close>

section \<open>Definitions\<close>

type_synonym ptr = "nat option"

record ('k, 'v) grpc_avl_node =
  an_refs :: int
  an_key :: 'k
  an_value :: 'v
  an_left :: ptr
  an_right :: ptr
  an_height :: int

record ('k, 'v, 'u) grpc_avl_vtable =
  destroy_key :: "'k \<Rightarrow> 'u \<Rightarrow> 'u option"
  copy_key :: "'k \<Rightarrow> 'u \<Rightarrow> 'u option"
  compare_keys :: "'k \<Rightarrow> 'k \<Rightarrow> int"
  destroy_value :: "'v \<Rightarrow> 'u \<Rightarrow> 'u option"
  copy_value :: "'v \<Rightarrow> 'u \<Rightarrow> 'u option"

type_synonym ('k, 'v) avl_nodes = "nat \<rightharpoonup> ('k, 'v) grpc_avl_node"

record ('k, 'v, 'u) avl_mem =
  am_nodes :: "('k, 'v) avl_nodes"
  am_user :: 'u

text \<open>The address of a new node, given the nodes there are.\<close>

type_synonym ('k, 'v) gpr_malloc = "('k, 'v) avl_nodes \<Rightarrow> nat"

definition load :: "ptr \<Rightarrow> ('k, 'v, 'u) avl_mem \<Rightarrow> ('k, 'v) grpc_avl_node option" where
  "load p s = Option.bind p (am_nodes s)"

definition on_user :: "('u \<Rightarrow> 'u option) \<Rightarrow> ('k, 'v, 'u) avl_mem \<Rightarrow> ('k, 'v, 'u) avl_mem option" where
  "on_user f s = map_option (\<lambda>u. s\<lparr>am_user := u\<rparr>) (f (am_user s))"

definition copy_entry ::
    "('k, 'v, 'u) grpc_avl_vtable \<Rightarrow> ('k, 'v) grpc_avl_node \<Rightarrow> ('k, 'v, 'u) avl_mem \<Rightarrow> ('k, 'v, 'u) avl_mem option" where
  "copy_entry vt n s = do {
     s \<leftarrow> on_user (copy_key vt (an_key n)) s;
     on_user (copy_value vt (an_value n)) s
   }"

subsection \<open>Counting references\<close>

definition ref_node :: "ptr \<Rightarrow> ('k, 'v, 'u) avl_mem \<Rightarrow> ('k, 'v, 'u) avl_mem option" where
  "ref_node p s =
     (case p of
        None \<Rightarrow> Some s
      | Some a \<Rightarrow> do {
          n \<leftarrow> am_nodes s a;
          Some (s\<lparr>am_nodes := (am_nodes s)(a \<mapsto> n\<lparr>an_refs := an_refs n + 1\<rparr>)\<rparr>)
        })"

text \<open>\<open>gpr_unref\<close> asserts that the count was positive.\<close>

partial_function (option) unref_node ::
    "('k, 'v, 'u) grpc_avl_vtable \<Rightarrow> ptr \<Rightarrow> ('k, 'v, 'u) avl_mem \<Rightarrow> ('k, 'v, 'u) avl_mem option" where
  "unref_node vt p s =
     (case p of
        None \<Rightarrow> Some s
      | Some a \<Rightarrow> do {
          n \<leftarrow> am_nodes s a;
          if an_refs n \<le> 0 then None
          else do {
            let s = s\<lparr>am_nodes := (am_nodes s)(a \<mapsto> n\<lparr>an_refs := an_refs n - 1\<rparr>)\<rparr>;
            if an_refs n = 1 then do {
              s \<leftarrow> on_user (destroy_key vt (an_key n)) s;
              s \<leftarrow> on_user (destroy_value vt (an_value n)) s;
              s \<leftarrow> unref_node vt (an_left n) s;
              s \<leftarrow> unref_node vt (an_right n) s;
              Some (s\<lparr>am_nodes := (am_nodes s)(a := None)\<rparr>)
            } else Some s
          }
        })"

subsection \<open>Nodes\<close>

definition node_height :: "ptr \<Rightarrow> ('k, 'v, 'u) avl_mem \<Rightarrow> int option" where
  "node_height p s = (case p of None \<Rightarrow> Some 0 | Some a \<Rightarrow> map_option an_height (am_nodes s a))"

partial_function (option) calculate_height :: "ptr \<Rightarrow> ('k, 'v, 'u) avl_mem \<Rightarrow> int option" where
  "calculate_height p s =
     (case p of
        None \<Rightarrow> Some 0
      | Some a \<Rightarrow> do {
          n \<leftarrow> am_nodes s a;
          l \<leftarrow> calculate_height (an_left n) s;
          r \<leftarrow> calculate_height (an_right n) s;
          Some (1 + max l r)
        })"

partial_function (option) assert_invariants :: "ptr \<Rightarrow> ('k, 'v, 'u) avl_mem \<Rightarrow> unit option" where
  "assert_invariants p s =
     (case p of
        None \<Rightarrow> Some ()
      | Some a \<Rightarrow> do {
          n \<leftarrow> am_nodes s a;
          _ \<leftarrow> assert_invariants (an_left n) s;
          _ \<leftarrow> assert_invariants (an_right n) s;
          h \<leftarrow> calculate_height p s;
          l \<leftarrow> node_height (an_left n) s;
          r \<leftarrow> node_height (an_right n) s;
          if h = an_height n \<and> \<bar>l - r\<bar> \<le> 1 then Some () else None
        })"

definition new_node ::
    "('k, 'v) gpr_malloc \<Rightarrow> 'k \<Rightarrow> 'v \<Rightarrow> ptr \<Rightarrow> ptr \<Rightarrow> ('k, 'v, 'u) avl_mem \<Rightarrow> (ptr \<times> ('k, 'v, 'u) avl_mem) option" where
  "new_node al key val l r s = do {
     let a = al (am_nodes s);
     _ \<leftarrow> assert_invariants l s;
     _ \<leftarrow> assert_invariants r s;
     hl \<leftarrow> node_height l s;
     hr \<leftarrow> node_height r s;
     Some (Some a, s\<lparr>am_nodes := (am_nodes s)(a \<mapsto>
       \<lparr>an_refs = 1, an_key = key, an_value = val, an_left = l, an_right = r, an_height = 1 + max hl hr\<rparr>)\<rparr>)
   }"

partial_function (option) get_node ::
    "('k, 'v, 'u) grpc_avl_vtable \<Rightarrow> ptr \<Rightarrow> 'k \<Rightarrow> ('k, 'v, 'u) avl_mem \<Rightarrow> ptr option" where
  "get_node vt p key s =
     (case p of
        None \<Rightarrow> Some None
      | Some a \<Rightarrow> do {
          n \<leftarrow> am_nodes s a;
          let cmp = compare_keys vt (an_key n) key;
          if cmp = 0 then Some p
          else if cmp > 0 then get_node vt (an_left n) key s
          else get_node vt (an_right n) key s
        })"

subsection \<open>Rotations\<close>

definition rotate_left ::
    "('k, 'v, 'u) grpc_avl_vtable \<Rightarrow> ('k, 'v) gpr_malloc \<Rightarrow> 'k \<Rightarrow> 'v \<Rightarrow> ptr \<Rightarrow> ptr \<Rightarrow> ('k, 'v, 'u) avl_mem \<Rightarrow>
     (ptr \<times> ('k, 'v, 'u) avl_mem) option" where
  "rotate_left vt al key val l r s = do {
     rn \<leftarrow> load r s;
     s \<leftarrow> copy_entry vt rn s;
     s \<leftarrow> ref_node (an_left rn) s;
     (i, s) \<leftarrow> new_node al key val l (an_left rn) s;
     s \<leftarrow> ref_node (an_right rn) s;
     (n, s) \<leftarrow> new_node al (an_key rn) (an_value rn) i (an_right rn) s;
     s \<leftarrow> unref_node vt r s;
     Some (n, s)
   }"

definition rotate_right ::
    "('k, 'v, 'u) grpc_avl_vtable \<Rightarrow> ('k, 'v) gpr_malloc \<Rightarrow> 'k \<Rightarrow> 'v \<Rightarrow> ptr \<Rightarrow> ptr \<Rightarrow> ('k, 'v, 'u) avl_mem \<Rightarrow>
     (ptr \<times> ('k, 'v, 'u) avl_mem) option" where
  "rotate_right vt al key val l r s = do {
     ln \<leftarrow> load l s;
     s \<leftarrow> copy_entry vt ln s;
     s \<leftarrow> ref_node (an_left ln) s;
     s \<leftarrow> ref_node (an_right ln) s;
     (i, s) \<leftarrow> new_node al key val (an_right ln) r s;
     (n, s) \<leftarrow> new_node al (an_key ln) (an_value ln) (an_left ln) i s;
     s \<leftarrow> unref_node vt l s;
     Some (n, s)
   }"

definition rotate_left_right ::
    "('k, 'v, 'u) grpc_avl_vtable \<Rightarrow> ('k, 'v) gpr_malloc \<Rightarrow> 'k \<Rightarrow> 'v \<Rightarrow> ptr \<Rightarrow> ptr \<Rightarrow> ('k, 'v, 'u) avl_mem \<Rightarrow>
     (ptr \<times> ('k, 'v, 'u) avl_mem) option" where
  "rotate_left_right vt al key val l r s = do {
     ln \<leftarrow> load l s;
     lrn \<leftarrow> load (an_right ln) s;
     s \<leftarrow> copy_entry vt lrn s;
     s \<leftarrow> copy_entry vt ln s;
     s \<leftarrow> ref_node (an_left ln) s;
     s \<leftarrow> ref_node (an_left lrn) s;
     (i, s) \<leftarrow> new_node al (an_key ln) (an_value ln) (an_left ln) (an_left lrn) s;
     s \<leftarrow> ref_node (an_right lrn) s;
     (j, s) \<leftarrow> new_node al key val (an_right lrn) r s;
     (n, s) \<leftarrow> new_node al (an_key lrn) (an_value lrn) i j s;
     s \<leftarrow> unref_node vt l s;
     Some (n, s)
   }"

definition rotate_right_left ::
    "('k, 'v, 'u) grpc_avl_vtable \<Rightarrow> ('k, 'v) gpr_malloc \<Rightarrow> 'k \<Rightarrow> 'v \<Rightarrow> ptr \<Rightarrow> ptr \<Rightarrow> ('k, 'v, 'u) avl_mem \<Rightarrow>
     (ptr \<times> ('k, 'v, 'u) avl_mem) option" where
  "rotate_right_left vt al key val l r s = do {
     rn \<leftarrow> load r s;
     rln \<leftarrow> load (an_left rn) s;
     s \<leftarrow> copy_entry vt rln s;
     s \<leftarrow> ref_node (an_left rln) s;
     (i, s) \<leftarrow> new_node al key val l (an_left rln) s;
     s \<leftarrow> copy_entry vt rn s;
     s \<leftarrow> ref_node (an_right rln) s;
     s \<leftarrow> ref_node (an_right rn) s;
     (j, s) \<leftarrow> new_node al (an_key rn) (an_value rn) (an_right rln) (an_right rn) s;
     (n, s) \<leftarrow> new_node al (an_key rln) (an_value rln) i j s;
     s \<leftarrow> unref_node vt r s;
     Some (n, s)
   }"

definition rebalance_node ::
    "('k, 'v, 'u) grpc_avl_vtable \<Rightarrow> ('k, 'v) gpr_malloc \<Rightarrow> 'k \<Rightarrow> 'v \<Rightarrow> ptr \<Rightarrow> ptr \<Rightarrow> ('k, 'v, 'u) avl_mem \<Rightarrow>
     (ptr \<times> ('k, 'v, 'u) avl_mem) option" where
  "rebalance_node vt al key val l r s = do {
     hl \<leftarrow> node_height l s;
     hr \<leftarrow> node_height r s;
     if hl - hr = 2 then do {
       ln \<leftarrow> load l s;
       hll \<leftarrow> node_height (an_left ln) s;
       hlr \<leftarrow> node_height (an_right ln) s;
       if hll - hlr = -1 then rotate_left_right vt al key val l r s
       else rotate_right vt al key val l r s
     } else if hl - hr = -2 then do {
       rn \<leftarrow> load r s;
       hrl \<leftarrow> node_height (an_left rn) s;
       hrr \<leftarrow> node_height (an_right rn) s;
       if hrl - hrr = 1 then rotate_right_left vt al key val l r s
       else rotate_left vt al key val l r s
     } else new_node al key val l r s
   }"

definition rebalance ::
    "('k, 'v, 'u) grpc_avl_vtable \<Rightarrow> ('k, 'v) gpr_malloc \<Rightarrow> 'k \<Rightarrow> 'v \<Rightarrow> ptr \<Rightarrow> ptr \<Rightarrow> ('k, 'v, 'u) avl_mem \<Rightarrow>
     (ptr \<times> ('k, 'v, 'u) avl_mem) option" where
  "rebalance vt al key val l r s = do {
     (n, s) \<leftarrow> rebalance_node vt al key val l r s;
     _ \<leftarrow> assert_invariants n s;
     Some (n, s)
   }"

subsection \<open>Adding and removing keys\<close>

partial_function (option) add_key ::
    "('k, 'v, 'u) grpc_avl_vtable \<Rightarrow> ('k, 'v) gpr_malloc \<Rightarrow> ptr \<Rightarrow> 'k \<Rightarrow> 'v \<Rightarrow> ('k, 'v, 'u) avl_mem \<Rightarrow>
     (ptr \<times> ('k, 'v, 'u) avl_mem) option" where
  "add_key vt al p key val s =
     (case p of
        None \<Rightarrow> new_node al key val None None s
      | Some a \<Rightarrow> do {
          n \<leftarrow> am_nodes s a;
          let cmp = compare_keys vt (an_key n) key;
          if cmp = 0 then do {
            s \<leftarrow> ref_node (an_left n) s;
            s \<leftarrow> ref_node (an_right n) s;
            new_node al key val (an_left n) (an_right n) s
          } else if cmp > 0 then do {
            s \<leftarrow> copy_entry vt n s;
            (l, s) \<leftarrow> add_key vt al (an_left n) key val s;
            s \<leftarrow> ref_node (an_right n) s;
            rebalance vt al (an_key n) (an_value n) l (an_right n) s
          } else do {
            s \<leftarrow> copy_entry vt n s;
            s \<leftarrow> ref_node (an_left n) s;
            (r, s) \<leftarrow> add_key vt al (an_right n) key val s;
            rebalance vt al (an_key n) (an_value n) (an_left n) r s
          }
        })"

partial_function (option) in_order_head :: "ptr \<Rightarrow> ('k, 'v, 'u) avl_mem \<Rightarrow> ptr option" where
  "in_order_head p s = do {
     n \<leftarrow> load p s;
     if an_left n \<noteq> None then in_order_head (an_left n) s else Some p
   }"

partial_function (option) in_order_tail :: "ptr \<Rightarrow> ('k, 'v, 'u) avl_mem \<Rightarrow> ptr option" where
  "in_order_tail p s = do {
     n \<leftarrow> load p s;
     if an_right n \<noteq> None then in_order_tail (an_right n) s else Some p
   }"

partial_function (option) remove_key ::
    "('k, 'v, 'u) grpc_avl_vtable \<Rightarrow> ('k, 'v) gpr_malloc \<Rightarrow> ptr \<Rightarrow> 'k \<Rightarrow> ('k, 'v, 'u) avl_mem \<Rightarrow>
     (ptr \<times> ('k, 'v, 'u) avl_mem) option" where
  "remove_key vt al p key s =
     (case p of
        None \<Rightarrow> Some (None, s)
      | Some a \<Rightarrow> do {
          n \<leftarrow> am_nodes s a;
          let cmp = compare_keys vt (an_key n) key;
          if cmp = 0 then
            if an_left n = None then do {
              s \<leftarrow> ref_node (an_right n) s;
              Some (an_right n, s)
            } else if an_right n = None then do {
              s \<leftarrow> ref_node (an_left n) s;
              Some (an_left n, s)
            } else do {
              ln \<leftarrow> load (an_left n) s;
              rn \<leftarrow> load (an_right n) s;
              if an_height ln < an_height rn then do {
                h \<leftarrow> in_order_head (an_right n) s;
                hn \<leftarrow> load h s;
                s \<leftarrow> copy_entry vt hn s;
                s \<leftarrow> ref_node (an_left n) s;
                (r, s) \<leftarrow> remove_key vt al (an_right n) (an_key hn) s;
                rebalance vt al (an_key hn) (an_value hn) (an_left n) r s
              } else do {
                h \<leftarrow> in_order_tail (an_left n) s;
                hn \<leftarrow> load h s;
                s \<leftarrow> copy_entry vt hn s;
                (l, s) \<leftarrow> remove_key vt al (an_left n) (an_key hn) s;
                s \<leftarrow> ref_node (an_right n) s;
                rebalance vt al (an_key hn) (an_value hn) l (an_right n) s
              }
            }
          else if cmp > 0 then do {
            s \<leftarrow> copy_entry vt n s;
            (l, s) \<leftarrow> remove_key vt al (an_left n) key s;
            s \<leftarrow> ref_node (an_right n) s;
            rebalance vt al (an_key n) (an_value n) l (an_right n) s
          } else do {
            s \<leftarrow> copy_entry vt n s;
            s \<leftarrow> ref_node (an_left n) s;
            (r, s) \<leftarrow> remove_key vt al (an_right n) key s;
            rebalance vt al (an_key n) (an_value n) (an_left n) r s
          }
        })"

subsection \<open>The interface\<close>

record ('k, 'v, 'u) grpc_avl =
  av_vtable :: "('k, 'v, 'u) grpc_avl_vtable"
  av_root :: ptr

definition grpc_avl_create :: "('k, 'v, 'u) grpc_avl_vtable \<Rightarrow> ('k, 'v, 'u) grpc_avl" where
  "grpc_avl_create vt = \<lparr>av_vtable = vt, av_root = None\<rparr>"

definition grpc_avl_get :: "('k, 'v, 'u) grpc_avl \<Rightarrow> 'k \<Rightarrow> ('k, 'v, 'u) avl_mem \<Rightarrow> 'v option option" where
  "grpc_avl_get t key s = do {
     p \<leftarrow> get_node (av_vtable t) (av_root t) key s;
     (case p of None \<Rightarrow> Some None | Some a \<Rightarrow> map_option (\<lambda>n. Some (an_value n)) (am_nodes s a))
   }"

text \<open>\<open>value0\<close> is what \<open>*value\<close> holds before the call.\<close>

definition grpc_avl_maybe_get ::
    "('k, 'v, 'u) grpc_avl \<Rightarrow> 'k \<Rightarrow> 'v \<Rightarrow> ('k, 'v, 'u) avl_mem \<Rightarrow> (int \<times> 'v) option" where
  "grpc_avl_maybe_get t key value0 s = do {
     p \<leftarrow> get_node (av_vtable t) (av_root t) key s;
     (case p of None \<Rightarrow> Some (0, value0) | Some a \<Rightarrow> map_option (\<lambda>n. (1, an_value n)) (am_nodes s a))
   }"

definition grpc_avl_add ::
    "('k, 'v) gpr_malloc \<Rightarrow> ('k, 'v, 'u) grpc_avl \<Rightarrow> 'k \<Rightarrow> 'v \<Rightarrow> ('k, 'v, 'u) avl_mem \<Rightarrow>
     (('k, 'v, 'u) grpc_avl \<times> ('k, 'v, 'u) avl_mem) option" where
  "grpc_avl_add al t key val s = do {
     let old_root = av_root t;
     (root, s) \<leftarrow> add_key (av_vtable t) al old_root key val s;
     _ \<leftarrow> assert_invariants root s;
     s \<leftarrow> unref_node (av_vtable t) old_root s;
     Some (t\<lparr>av_root := root\<rparr>, s)
   }"

definition grpc_avl_remove ::
    "('k, 'v) gpr_malloc \<Rightarrow> ('k, 'v, 'u) grpc_avl \<Rightarrow> 'k \<Rightarrow> ('k, 'v, 'u) avl_mem \<Rightarrow>
     (('k, 'v, 'u) grpc_avl \<times> ('k, 'v, 'u) avl_mem) option" where
  "grpc_avl_remove al t key s = do {
     let old_root = av_root t;
     (root, s) \<leftarrow> remove_key (av_vtable t) al old_root key s;
     _ \<leftarrow> assert_invariants root s;
     s \<leftarrow> unref_node (av_vtable t) old_root s;
     Some (t\<lparr>av_root := root\<rparr>, s)
   }"

definition grpc_avl_ref :: "('k, 'v, 'u) grpc_avl \<Rightarrow> ('k, 'v, 'u) avl_mem \<Rightarrow> ('k, 'v, 'u) avl_mem option" where
  "grpc_avl_ref t s = ref_node (av_root t) s"

definition grpc_avl_unref :: "('k, 'v, 'u) grpc_avl \<Rightarrow> ('k, 'v, 'u) avl_mem \<Rightarrow> ('k, 'v, 'u) avl_mem option" where
  "grpc_avl_unref t s = unref_node (av_vtable t) (av_root t) s"

definition grpc_avl_is_empty :: "('k, 'v, 'u) grpc_avl \<Rightarrow> bool" where
  "grpc_avl_is_empty t \<longleftrightarrow> av_root t = None"

end
