(* ===== verification/Avl_Refs.thy ===== *)
theory Avl_Refs
  imports Avl
begin

text \<open>
  Ownership in the reference-counted trees: the count of a node is the number of references to it, from
  nodes and from outside; what an operation consumes and what it returns; the tree that a
  pointer stands for; and the theorems about the interface.
\<close>

section \<open>The tree at a pointer\<close>

definition same_node :: "('k, 'v) grpc_avl_node \<Rightarrow> ('k, 'v) grpc_avl_node \<Rightarrow> bool" where
  "same_node n n' \<longleftrightarrow> an_key n = an_key n' \<and> an_value n = an_value n' \<and> an_left n = an_left n' \<and>
     an_right n = an_right n' \<and> an_height n = an_height n'"

lemma same_node_refl [simp]: "same_node n n"
  by (simp add: same_node_def)

lemma same_node_refs [simp]: "same_node n (n'\<lparr>an_refs := c\<rparr>) = same_node n n'" "same_node (n\<lparr>an_refs := c\<rparr>) n' = same_node n n'"
  by (simp_all add: same_node_def)

lemma same_node_trans: "same_node a b \<Longrightarrow> same_node b c \<Longrightarrow> same_node a c"
  by (simp add: same_node_def)

lemma same_node_sym: "same_node a b \<Longrightarrow> same_node b a"
  by (simp add: same_node_def)

primrec tree_at :: "('k, 'v) avl_nodes \<Rightarrow> ptr \<Rightarrow> ('k, 'v) avl_tree \<Rightarrow> bool" where
  "tree_at ns p Leaf \<longleftrightarrow> p = None"
| "tree_at ns p (Node l x r) \<longleftrightarrow> (\<exists>a n. p = Some a \<and> ns a = Some n \<and> x = (an_key n, an_value n, an_height n) \<and>
     tree_at ns (an_left n) l \<and> tree_at ns (an_right n) r)"

lemma tree_at_None [simp]: "tree_at ns None t \<longleftrightarrow> t = Leaf"
  by (cases t) auto

lemma tree_at_Some: "tree_at ns (Some a) t \<longleftrightarrow> (\<exists>n l r. ns a = Some n \<and> t = Node l (an_key n, an_value n, an_height n) r \<and>
    tree_at ns (an_left n) l \<and> tree_at ns (an_right n) r)"
  by (cases t) auto

lemma tree_at_unique: "tree_at ns p t \<Longrightarrow> tree_at ns p t' \<Longrightarrow> t = t'"
proof (induction t arbitrary: p t')
  case (Node l x r)
  then obtain a n where n: "p = Some a" "ns a = Some n" "x = (an_key n, an_value n, an_height n)"
    "tree_at ns (an_left n) l" "tree_at ns (an_right n) r" by auto
  then obtain l' r' where "t' = Node l' x r'" "tree_at ns (an_left n) l'" "tree_at ns (an_right n) r'"
    using Node.prems(2) by (auto simp: tree_at_Some)
  then show ?case using Node.IH n by blast
qed simp

text \<open>Every node of the first memory is in the second, with the same contents.\<close>

definition extends :: "('k, 'v) avl_nodes \<Rightarrow> ('k, 'v) avl_nodes \<Rightarrow> bool" where
  "extends ns ns' \<longleftrightarrow> (\<forall>a n. ns a = Some n \<longrightarrow> (\<exists>n'. ns' a = Some n' \<and> same_node n n'))"

lemma extends_refl [simp]: "extends ns ns"
  by (simp add: extends_def)

lemma extends_trans: "extends a b \<Longrightarrow> extends b c \<Longrightarrow> extends a c"
  unfolding extends_def using same_node_trans by meson

lemma extends_refs: "ns a = Some n \<Longrightarrow> extends ns (ns(a \<mapsto> n\<lparr>an_refs := c\<rparr>))" "ns a = Some n \<Longrightarrow> extends (ns(a \<mapsto> n\<lparr>an_refs := c\<rparr>)) ns"
  by (auto simp: extends_def)

lemma extends_new: "ns a = None \<Longrightarrow> extends ns (ns(a \<mapsto> n))"
  by (auto simp: extends_def)

lemma tree_at_extends: "extends ns ns' \<Longrightarrow> tree_at ns p t \<Longrightarrow> tree_at ns' p t"
proof (induction t arbitrary: p)
  case (Node l x r)
  then obtain a n where n: "p = Some a" "ns a = Some n" "x = (an_key n, an_value n, an_height n)"
    "tree_at ns (an_left n) l" "tree_at ns (an_right n) r" by auto
  then obtain n' where "ns' a = Some n'" "same_node n n'" using Node.prems(1) by (auto simp: extends_def)
  then show ?case using Node.IH [OF Node.prems(1)] n by (auto simp: same_node_def)
qed simp

section \<open>References\<close>

definition ptrs :: "ptr \<Rightarrow> nat multiset" where
  "ptrs p = (case p of None \<Rightarrow> {#} | Some a \<Rightarrow> {#a#})"

lemma ptrs_simps [simp]: "ptrs None = {#}" "ptrs (Some a) = {#a#}"
  by (simp_all add: ptrs_def)

lemma in_ptrs [simp]: "a \<in># ptrs p \<longleftrightarrow> p = Some a"
  by (cases p) auto

definition links_of :: "('k, 'v) grpc_avl_node \<Rightarrow> nat multiset" where
  "links_of n = ptrs (an_left n) + ptrs (an_right n)"

definition payload_of :: "('k, 'v) grpc_avl_node \<Rightarrow> ('k + 'v) multiset" where
  "payload_of n = {#Inl (an_key n), Inr (an_value n)#}"

lemma same_node_links: "same_node n n' \<Longrightarrow> links_of n = links_of n' \<and> payload_of n = payload_of n'"
  by (simp add: same_node_def links_of_def payload_of_def)

definition total :: "(('k, 'v) grpc_avl_node \<Rightarrow> 'a multiset) \<Rightarrow> ('k, 'v) avl_nodes \<Rightarrow> 'a multiset" where
  "total f ns = (\<Sum>a\<in>dom ns. f (the (ns a)))"

abbreviation links :: "('k, 'v) avl_nodes \<Rightarrow> nat multiset" where "links \<equiv> total links_of"
abbreviation payload :: "('k, 'v) avl_nodes \<Rightarrow> ('k + 'v) multiset" where "payload \<equiv> total payload_of"

lemma total_empty [simp]: "total f Map.empty = {#}"
  by (simp add: total_def)

lemma total_new:
  assumes "finite (dom ns)" "ns a = None"
  shows "total f (ns(a \<mapsto> n)) = f n + total f ns"
proof -
  have "(\<Sum>b\<in>dom ns. f (the ((ns(a \<mapsto> n)) b))) = (\<Sum>b\<in>dom ns. f (the (ns b)))"
    using assms(2) by (intro sum.cong) auto
  moreover have "a \<notin> dom ns" using assms(2) by auto
  ultimately show ?thesis using assms(1) by (simp add: total_def)
qed

lemma total_remove:
  assumes "finite (dom ns)" "ns a = Some n"
  shows "total f ns = f n + total f (ns(a := None))"
proof -
  have "ns = (ns(a := None))(a \<mapsto> n)" using assms(2) by auto
  moreover have "finite (dom (ns(a := None)))" "(ns(a := None)) a = None" using assms(1) by simp_all
  ultimately show ?thesis using total_new by metis
qed

lemma total_refs:
  assumes "finite (dom ns)" "ns a = Some n" "f n' = f n"
  shows "total f (ns(a \<mapsto> n')) = total f ns"
proof -
  have "(ns(a \<mapsto> n'))(a := None) = ns(a := None)" by auto
  then show ?thesis using total_remove [OF assms(1,2), of f] total_remove [of "ns(a \<mapsto> n')" a n' f] assms by simp
qed

lemma links_refs [simp]: "links_of (n\<lparr>an_refs := c\<rparr>) = links_of n" "payload_of (n\<lparr>an_refs := c\<rparr>) = payload_of n"
  by (simp_all add: links_of_def payload_of_def)

text \<open>The owned references are \<open>E\<close>: they and the links account for every count, and no node is without a reference.\<close>

definition counted :: "('k, 'v) avl_nodes \<Rightarrow> nat multiset \<Rightarrow> bool" where
  "counted ns E \<longleftrightarrow> finite (dom ns) \<and>
     (\<forall>a n. ns a = Some n \<longrightarrow> an_refs n = int (count (E + links ns) a) \<and> 0 < an_refs n) \<and>
     set_mset (E + links ns) \<subseteq> dom ns \<and> (\<forall>a\<in>dom ns. \<exists>t. tree_at ns (Some a) t)"

lemma countedD:
  assumes "counted ns E"
  shows "finite (dom ns)" "ns a = Some n \<Longrightarrow> an_refs n = int (count (E + links ns) a)" "ns a = Some n \<Longrightarrow> 0 < an_refs n"
    "a \<in># E \<Longrightarrow> \<exists>n. ns a = Some n" "a \<in># links ns \<Longrightarrow> \<exists>n. ns a = Some n" "ns a = Some n \<Longrightarrow> \<exists>t. tree_at ns (Some a) t"
  using assms unfolding counted_def by (blast dest: subsetD | force)+

lemma countedI:
  assumes "finite (dom ns)" "\<And>a n. ns a = Some n \<Longrightarrow> an_refs n = int (count (E + links ns) a)"
    "\<And>a n. ns a = Some n \<Longrightarrow> 0 < an_refs n" "\<And>a. a \<in># E + links ns \<Longrightarrow> \<exists>n. ns a = Some n"
    "\<And>a n. ns a = Some n \<Longrightarrow> \<exists>t. tree_at ns (Some a) t"
  shows "counted ns E"
  unfolding counted_def using assms by blast

lemma in_links: "finite (dom ns) \<Longrightarrow> ns a = Some n \<Longrightarrow> b \<in># links_of n \<Longrightarrow> b \<in># links ns"
  by (simp add: total_remove)

lemma child_in: "counted ns E \<Longrightarrow> ns a = Some n \<Longrightarrow> an_left n = Some b \<or> an_right n = Some b \<Longrightarrow> \<exists>m. ns b = Some m"
  using countedD(1,5) in_links by (fastforce simp: links_of_def)

lemma counted_ref:
  assumes "counted ns E" "ns a = Some n"
  shows "counted (ns(a \<mapsto> n\<lparr>an_refs := an_refs n + 1\<rparr>)) (add_mset a E)"
proof -
  note c = countedD [OF assms(1)]
  have l: "links (ns(a \<mapsto> n\<lparr>an_refs := an_refs n + 1\<rparr>)) = links ns" by (rule total_refs) (use c(1) assms(2) in auto)
  have "\<exists>t. tree_at (ns(a \<mapsto> n\<lparr>an_refs := an_refs n + 1\<rparr>)) (Some b) t" if "ns b = Some m" for b m
    using c(6) [OF that] tree_at_extends [OF extends_refs(1) [of ns a n, OF assms(2)]] by blast
  then show ?thesis
    unfolding counted_def l using assms c(1-3) by (auto simp: counted_def)
qed

lemma counted_unref:
  assumes "counted ns (add_mset a E)" "ns a = Some n" "an_refs n \<noteq> 1"
  shows "counted (ns(a \<mapsto> n\<lparr>an_refs := an_refs n - 1\<rparr>)) E" (is "counted ?ns E")
proof -
  note c = countedD [OF assms(1)]
  have l: "links ?ns = links ns" by (rule total_refs) (use c(1) assms(2) in auto)
  show ?thesis
  proof (rule countedI, unfold l)
    fix b m assume m: "?ns b = Some m"
    show "an_refs m = int (count (E + links ns) b)"
      using m c(2) [OF assms(2)] c(2) [of b m] by (cases "b = a") auto
    show "0 < an_refs m" using m c(3) [OF assms(2)] c(3) [of b m] assms(3) by (cases "b = a") auto
    have "ns b \<noteq> None" using m assms(2) by (cases "b = a") auto
    then show "\<exists>t. tree_at ?ns (Some b) t"
      using c(6) tree_at_extends [OF extends_refs(1) [of ns a n, OF assms(2)]] by blast
  next
    fix b assume "b \<in># E + links ns"
    then show "\<exists>m. ?ns b = Some m" using c(4,5) [of b] by auto
  qed (use c(1) in simp)
qed

lemma counted_new:
  assumes "counted ns (E + ptrs l + ptrs r)" "ns a = None"
  shows "counted (ns(a \<mapsto> \<lparr>an_refs = 1, an_key = k, an_value = v, an_left = l, an_right = r, an_height = h\<rparr>)) (add_mset a E)"
proof -
  let ?n = "\<lparr>an_refs = 1, an_key = k, an_value = v, an_left = l, an_right = r, an_height = h\<rparr>"
  note c = countedD [OF assms(1)]
  have l: "links (ns(a \<mapsto> ?n)) = ptrs l + ptrs r + links ns"
    using total_new [OF c(1) assms(2), of links_of ?n] by (simp add: links_of_def)
  have a: "a \<notin># E + ptrs l + ptrs r + links ns" using c(4,5) assms(2) by (metis option.distinct(1) union_iff)
  have ext: "extends ns (ns(a \<mapsto> ?n))" by (rule extends_new [of ns a, OF assms(2)])
  have t: "\<exists>t. tree_at (ns(a \<mapsto> ?n)) p t" if "p = None \<or> (\<exists>b m. p = Some b \<and> ns b = Some m)" for p
    using that c(6) tree_at_extends [OF ext] by (metis tree_at_None)
  have "\<exists>t. tree_at (ns(a \<mapsto> ?n)) l t" "\<exists>t. tree_at (ns(a \<mapsto> ?n)) r t"
    by (rule t, cases l; use c(4) in force) (rule t, cases r; use c(4) in force)
  then have "\<exists>t. tree_at (ns(a \<mapsto> ?n)) (Some a) t" by (auto simp: tree_at_Some)
  moreover have "count (E + ptrs l + ptrs r + links ns) a = 0" using a by (simp only: not_in_iff)
  ultimately show ?thesis
    unfolding counted_def l using c(1-3) assms t by (auto simp: counted_def ac_simps)
qed

lemma tree_at_drop:
  assumes "finite (dom ns)" "a \<notin># links ns"
  shows "p \<noteq> Some a \<Longrightarrow> tree_at ns p t \<Longrightarrow> tree_at (ns(a := None)) p t"
proof (induction t arbitrary: p)
  case (Node l x r)
  then obtain b n where n: "p = Some b" "ns b = Some n" "x = (an_key n, an_value n, an_height n)"
    "tree_at ns (an_left n) l" "tree_at ns (an_right n) r" by auto
  have "an_left n \<noteq> Some a" "an_right n \<noteq> Some a"
    using in_links [OF assms(1) n(2)] assms(2) by (force simp: links_of_def)+
  then show ?case using Node.IH n Node.prems(1) by auto
qed simp

lemma counted_free:
  assumes "counted ns (add_mset a E)" "ns a = Some n" "an_refs n = 1"
  shows "counted (ns(a := None)) (E + links_of n)" "a \<notin># links ns"
proof -
  note c = countedD [OF assms(1)]
  have l: "links ns = links_of n + links (ns(a := None))" by (rule total_remove [OF c(1) assms(2)])
  have z: "count (E + links ns) a = 0" using c(2) [OF assms(2)] assms(3) by simp
  then show na: "a \<notin># links ns" by (simp add: not_in_iff)
  have eq: "E + links_of n + links (ns(a := None)) = E + links ns" by (simp add: l)
  show "counted (ns(a := None)) (E + links_of n)"
  proof (rule countedI, unfold eq)
    fix b m assume "(ns(a := None)) b = Some m"
    then have m: "ns b = Some m" "b \<noteq> a" by (auto split: if_splits)
    show "an_refs m = int (count (E + links ns) b)" using c(2) [OF m(1)] m(2) by simp
    show "0 < an_refs m" using c(3) [OF m(1)] .
    show "\<exists>t. tree_at (ns(a := None)) (Some b) t"
      using c(6) [OF m(1)] tree_at_drop [OF c(1) na, of "Some b"] m(2) by blast
  next
    fix b assume b: "b \<in># E + links ns"
    then have "b \<noteq> a" using z by (metis not_in_iff)
    then show "\<exists>m. (ns(a := None)) b = Some m" using b c(4,5) [of b] by auto
  qed (use c(1) in simp)
qed

text \<open>Without references from outside there are no nodes: nothing is leaked.\<close>

lemma tree_size_child:
  assumes "ns b = Some n" "an_left n = Some a \<or> an_right n = Some a" "tree_at ns (Some b) t" "tree_at ns (Some a) u"
  shows "size u < size t"
proof -
  obtain l r where t: "t = Node l (an_key n, an_value n, an_height n) r" "tree_at ns (an_left n) l" "tree_at ns (an_right n) r"
    using assms(1,3) by (auto simp: tree_at_Some)
  then have "u = l \<or> u = r" using assms(2,4) tree_at_unique by metis
  then show ?thesis using t(1) by auto
qed

lemma counted_empty:
  assumes "counted ns {#}"
  shows "ns = Map.empty"
proof (rule ccontr)
  assume "ns \<noteq> Map.empty"
  then have ne: "dom ns \<noteq> {}" by auto
  note c = countedD [OF assms]
  define f where "f a = (SOME t. tree_at ns (Some a) t)" for a
  have f: "tree_at ns (Some a) (f a)" if "a \<in> dom ns" for a
    using c(6) that unfolding f_def by (metis domD someI_ex)
  let ?m = "Max ((\<lambda>a. size (f a)) ` dom ns)"
  have "?m \<in> (\<lambda>a. size (f a)) ` dom ns" by (rule Max_in) (use c(1) ne in auto)
  then obtain a where a: "a \<in> dom ns" "?m = size (f a)" by blast
  then obtain n where "ns a = Some n" by auto
  then have "a \<in># links ns" using c(2,3) by fastforce
  then obtain b m where b: "ns b = Some m" "a \<in># links_of m"
    unfolding total_def using c(1) by (auto simp: set_mset_sum)
  then have "an_left m = Some a \<or> an_right m = Some a" by (auto simp: links_of_def)
  then have "size (f a) < size (f b)" by (rule tree_size_child [OF b(1) _ f f]) (use a(1) b(1) in auto)
  moreover have "size (f b) \<le> ?m" by (rule Max_ge) (use c(1) b(1) in auto)
  ultimately show False using a(2) by simp
qed

section \<open>What an operation keeps\<close>

text \<open>The nodes that can be reached from the references in \<open>E\<close> keep their contents.\<close>

inductive_set reach :: "('k, 'v) avl_nodes \<Rightarrow> nat multiset \<Rightarrow> nat set" for ns E where
  outside: "a \<in># E \<Longrightarrow> a \<in> reach ns E"
| left: "a \<in> reach ns E \<Longrightarrow> ns a = Some n \<Longrightarrow> an_left n = Some b \<Longrightarrow> b \<in> reach ns E"
| right: "a \<in> reach ns E \<Longrightarrow> ns a = Some n \<Longrightarrow> an_right n = Some b \<Longrightarrow> b \<in> reach ns E"

definition keeps :: "nat multiset \<Rightarrow> ('k, 'v) avl_nodes \<Rightarrow> ('k, 'v) avl_nodes \<Rightarrow> bool" where
  "keeps E ns ns' \<longleftrightarrow> (\<forall>a\<in>reach ns E. \<forall>n. ns a = Some n \<longrightarrow> (\<exists>n'. ns' a = Some n' \<and> same_node n n'))"

lemma reach_mono: "a \<in> reach ns E \<Longrightarrow> set_mset E \<subseteq> set_mset F \<Longrightarrow> a \<in> reach ns F"
  by (induction rule: reach.induct) (auto intro: reach.intros)

lemma keeps_mono: "keeps F ns ns' \<Longrightarrow> set_mset E \<subseteq> set_mset F \<Longrightarrow> keeps E ns ns'"
  using reach_mono unfolding keeps_def by blast

lemma keeps_refl [simp]: "keeps E ns ns"
  by (simp add: keeps_def)

lemma keeps_grow: "extends ns ns' \<Longrightarrow> keeps E ns ns'"
  by (simp add: keeps_def extends_def)

lemma keeps_reach: "a \<in> reach ns E \<Longrightarrow> keeps E ns ns' \<Longrightarrow> a \<in> reach ns' E"
proof (induction rule: reach.induct)
  case (left a n b)
  then obtain n' where "ns' a = Some n'" "same_node n n'" by (auto simp: keeps_def)
  then show ?case using left by (auto simp: same_node_def intro: reach.left)
next
  case (right a n b)
  then obtain n' where "ns' a = Some n'" "same_node n n'" by (auto simp: keeps_def)
  then show ?case using right by (auto simp: same_node_def intro: reach.right)
qed (rule reach.outside)

lemma keeps_trans:
  assumes "keeps E ns ns'" "keeps E ns' ns''"
  shows "keeps E ns ns''"
  unfolding keeps_def
proof (intro ballI allI impI)
  fix a n assume a: "a \<in> reach ns E" "ns a = Some n"
  then obtain n' where n': "ns' a = Some n'" "same_node n n'" using assms(1) by (auto simp: keeps_def)
  moreover obtain n'' where "ns'' a = Some n''" "same_node n' n''"
    using assms(2) keeps_reach [OF a(1) assms(1)] n'(1) by (auto simp: keeps_def)
  ultimately show "\<exists>n''. ns'' a = Some n'' \<and> same_node n n''" using same_node_trans by blast
qed

lemma keeps_shrink:
  assumes "counted ns' E" "extends ns' ns"
  shows "keeps E ns ns'"
proof -
  note c = countedD [OF assms(1)]
  have same: "same_node n' n" if "ns' a = Some n'" "ns a = Some n" for a n n'
    using assms(2) that unfolding extends_def by fastforce
  have "\<exists>n'. ns' a = Some n'" if "a \<in> reach ns E" for a using that
  proof (induction rule: reach.induct)
    case (left a n b)
    then obtain n' where n': "ns' a = Some n'" by blast
    then show ?case using child_in [OF assms(1) n', of b] same [OF n' left(2)] left(3) by (simp add: same_node_def)
  next
    case (right a n b)
    then obtain n' where n': "ns' a = Some n'" by blast
    then show ?case using child_in [OF assms(1) n', of b] same [OF n' right(2)] right(3) by (simp add: same_node_def)
  qed (rule c(4))
  then show ?thesis unfolding keeps_def using same same_node_sym by blast
qed

text \<open>A pointer that may be followed.\<close>

abbreviation borrowed :: "('k, 'v) avl_nodes \<Rightarrow> nat multiset \<Rightarrow> ptr \<Rightarrow> bool" where
  "borrowed ns E p \<equiv> set_option p \<subseteq> reach ns E"

lemma borrowed_child: "borrowed ns E (Some a) \<Longrightarrow> ns a = Some n \<Longrightarrow> borrowed ns E (an_left n) \<and> borrowed ns E (an_right n)"
  by (auto intro: reach.intros)

lemma borrowed_keeps: "borrowed ns E p \<Longrightarrow> keeps E ns ns' \<Longrightarrow> borrowed ns' E p"
  using keeps_reach by blast

lemma borrowed_mono: "borrowed ns E p \<Longrightarrow> set_mset E \<subseteq> set_mset F \<Longrightarrow> borrowed ns F p"
  using reach_mono by blast

lemma borrowed_outside: "set_mset (ptrs p) \<subseteq> set_mset E \<Longrightarrow> borrowed ns E p"
  by (cases p) (auto intro: reach.outside)

lemma tree_at_keeps:
  assumes "keeps E ns ns'"
  shows "borrowed ns E p \<Longrightarrow> tree_at ns p t \<Longrightarrow> tree_at ns' p t"
proof (induction t arbitrary: p)
  case (Node l x r)
  then obtain a n where n: "p = Some a" "ns a = Some n" "x = (an_key n, an_value n, an_height n)"
    "tree_at ns (an_left n) l" "tree_at ns (an_right n) r" by auto
  moreover obtain n' where "ns' a = Some n'" "same_node n n'" using Node.prems(1) n(1,2) assms by (auto simp: keeps_def)
  ultimately show ?case using Node.IH borrowed_child [of a ns E n] Node.prems(1) by (auto simp: same_node_def)
qed simp

text \<open>The references \<open>E\<close> and the keys and values \<open>P\<close> are owned outside the trees.\<close>

definition owns :: "('u \<Rightarrow> ('k + 'v) multiset \<Rightarrow> bool) \<Rightarrow> ('k, 'v, 'u) avl_mem \<Rightarrow> nat multiset \<Rightarrow> ('k + 'v) multiset \<Rightarrow> bool" where
  "owns holds s E P \<longleftrightarrow> counted (am_nodes s) E \<and> holds (am_user s) (P + payload (am_nodes s))"

text \<open>A function returns a new reference to the tree \<open>t\<close>.\<close>

definition makes :: "('u \<Rightarrow> ('k + 'v) multiset \<Rightarrow> bool) \<Rightarrow> ('k, 'v, 'u) avl_mem \<Rightarrow> nat multiset \<Rightarrow> ('k + 'v) multiset \<Rightarrow>
    ('k, 'v) avl_tree \<Rightarrow> (ptr \<times> ('k, 'v, 'u) avl_mem) option \<Rightarrow> bool" where
  "makes holds s E P t res \<longleftrightarrow> (\<exists>p s'. res = Some (p, s') \<and> owns holds s' (E + ptrs p) P \<and>
     keeps E (am_nodes s) (am_nodes s') \<and> tree_at (am_nodes s') p t)"

lemma makesE:
  assumes "makes holds s E P t res"
  obtains p s' where "res = Some (p, s')" "owns holds s' (E + ptrs p) P" "keeps E (am_nodes s) (am_nodes s')" "tree_at (am_nodes s') p t"
  using assms unfolding makes_def by blast

text \<open>What a user of the trees sees: a map, in a balanced search tree.\<close>

definition avl_map :: "('k \<Rightarrow> 'k \<Rightarrow> int) \<Rightarrow> ('k, 'v) avl_nodes \<Rightarrow> ptr \<Rightarrow> ('k \<rightharpoonup> 'v) \<Rightarrow> bool" where
  "avl_map cmp ns p m \<longleftrightarrow> (\<exists>t. tree_at ns p t \<and> avl t \<and> sorted_wrt (\<lambda>x y. cmp (fst x) (fst y) < 0) (entries t) \<and>
     map_of (entries t) = m)"

lemma avl_map_keeps: "keeps E ns ns' \<Longrightarrow> set_mset (ptrs p) \<subseteq> set_mset E \<Longrightarrow> avl_map cmp ns p m \<Longrightarrow> avl_map cmp ns' p m"
  unfolding avl_map_def using tree_at_keeps borrowed_outside by blast

lemma avl_map_None [simp]: "avl_map cmp ns None m \<longleftrightarrow> m = Map.empty"
  by (auto simp: avl_map_def)

lemma avl_map_empty: "avl_map cmp ns p m \<Longrightarrow> p = None \<longleftrightarrow> m = Map.empty"
  unfolding avl_map_def by (cases p) (auto simp: tree_at_Some)

end
