(* ===== verification/Avl_Ops.thy ===== *)
theory Avl_Ops
  imports Avl_Refs
begin

text \<open>
  The functions of the trees against their specification, for any client that keeps the promises of the table of
  functions: each makes the tree that \<open>Avl_Spec\<close> says, no assertion fails, no freed node is
  used, and the references and the copies of keys and values are accounted for.
\<close>

section \<open>Heights and assertions\<close>

lemma node_height_tree: "tree_at (am_nodes s) p t \<Longrightarrow> node_height p s = Some (ht t)"
  by (cases t) (auto simp: node_height_def)

lemma calculate_height_tree: "tree_at (am_nodes s) p t \<Longrightarrow> calculate_height p s = Some (tree_height t)"
proof (induction t arbitrary: p)
  case (Node l x r)
  then show ?case by (subst calculate_height.simps) auto
qed (simp add: calculate_height.simps)

lemma assert_invariants_tree: "tree_at (am_nodes s) p t \<Longrightarrow> avl t \<Longrightarrow> assert_invariants p s = Some ()"
proof (induction t arbitrary: p)
  case (Node l x r)
  then obtain a n where n: "p = Some a" "am_nodes s a = Some n" "x = (an_key n, an_value n, an_height n)"
    "tree_at (am_nodes s) (an_left n) l" "tree_at (am_nodes s) (an_right n) r" by auto
  then have "calculate_height p s = Some (tree_height (Node l x r))" using Node.prems by (intro calculate_height_tree)
  then show ?case
    using Node.IH n Node.prems(2) tree_height_ht [OF Node.prems(2)] node_height_tree [OF n(4)] node_height_tree [OF n(5)]
    by (subst assert_invariants.simps) simp
qed (simp add: assert_invariants.simps)

lemma get_node_tree:
  "tree_at (am_nodes s) p t \<Longrightarrow> \<exists>q. get_node vt p key s = Some q \<and>
     (case q of None \<Rightarrow> find (compare_keys vt) key t = None
      | Some a \<Rightarrow> \<exists>n. am_nodes s a = Some n \<and> find (compare_keys vt) key t = Some (an_value n))"
proof (induction t arbitrary: p)
  case (Node l x r)
  then obtain a n where n: "p = Some a" "am_nodes s a = Some n" "x = (an_key n, an_value n, an_height n)"
    "tree_at (am_nodes s) (an_left n) l" "tree_at (am_nodes s) (an_right n) r" by auto
  then show ?case
    unfolding n(1,3) using Node.IH(1) [OF n(4)] Node.IH(2) [OF n(5)] by (subst get_node.simps) (simp add: Let_def cong: option.case_cong)
qed (simp add: get_node.simps)

lemma in_order_head_tree:
  "tree_at (am_nodes s) p t \<Longrightarrow> t \<noteq> Leaf \<Longrightarrow>
     \<exists>a n. in_order_head p s = Some (Some a) \<and> am_nodes s a = Some n \<and> head_of t = (an_key n, an_value n)"
proof (induction t arbitrary: p)
  case (Node l x r)
  then show ?case by (subst in_order_head.simps) (cases l; auto simp: load_def)
qed simp

lemma in_order_tail_tree:
  "tree_at (am_nodes s) p t \<Longrightarrow> t \<noteq> Leaf \<Longrightarrow>
     \<exists>a n. in_order_tail p s = Some (Some a) \<and> am_nodes s a = Some n \<and> tail_of t = (an_key n, an_value n)"
proof (induction t arbitrary: p)
  case (Node l x r)
  then show ?case by (subst in_order_tail.simps) (cases r; auto simp: load_def)
qed simp

lemma ref_node_owns:
  assumes "owns holds s E P" "tree_at (am_nodes s) p t"
  obtains s' where "ref_node p s = Some s'" "owns holds s' (E + ptrs p) P"
    "extends (am_nodes s) (am_nodes s')" "extends (am_nodes s') (am_nodes s)" "am_user s' = am_user s"
proof (cases p)
  case None
  then show ?thesis using that [of s] assms by (simp add: ref_node_def)
next
  case (Some a)
  then obtain n where n: "am_nodes s a = Some n" using assms(2) by (auto simp: tree_at_Some)
  let ?ns = "(am_nodes s)(a \<mapsto> n\<lparr>an_refs := an_refs n + 1\<rparr>)"
  have "payload ?ns = payload (am_nodes s)"
    by (rule total_refs) (use n assms(1) countedD(1) in \<open>auto simp: owns_def\<close>)
  then have "owns holds (s\<lparr>am_nodes := ?ns\<rparr>) (E + ptrs p) P"
    using assms(1) counted_ref [of "am_nodes s" E a n] n Some by (simp add: owns_def)
  then show ?thesis using that [of "s\<lparr>am_nodes := ?ns\<rparr>"] n Some extends_refs [of "am_nodes s" a n, OF n]
    by (simp add: ref_node_def)
qed

section \<open>The client\<close>

text \<open>
  What the client promises: \<open>holds u P\<close> says that its keys and values are, counting copies, those of \<open>P\<close>;
  a copy makes one more, and one that is there can be destroyed.
\<close>

locale avl_client = key_order "compare_keys vt" for vt :: "('k, 'v, 'u) grpc_avl_vtable" +
  fixes al :: "('k, 'v) gpr_malloc" and holds :: "'u \<Rightarrow> ('k + 'v) multiset \<Rightarrow> bool"
  assumes fresh: "finite (dom ns) \<Longrightarrow> ns (al ns) = None"
    and copied_key: "holds u (add_mset (Inl k) P) \<Longrightarrow>
      \<exists>u'. copy_key vt k u = Some u' \<and> holds u' (add_mset (Inl k) (add_mset (Inl k) P))"
    and copied_value: "holds u (add_mset (Inr v) P) \<Longrightarrow>
      \<exists>u'. copy_value vt v u = Some u' \<and> holds u' (add_mset (Inr v) (add_mset (Inr v) P))"
    and destroyed_key: "holds u (add_mset (Inl k) P) \<Longrightarrow> \<exists>u'. destroy_key vt k u = Some u' \<and> holds u' P"
    and destroyed_value: "holds u (add_mset (Inr v) P) \<Longrightarrow> \<exists>u'. destroy_value vt v u = Some u' \<and> holds u' P"
begin

lemma copy_entry_owns:
  assumes "owns holds s E P" "am_nodes s a = Some n"
  obtains u' where "copy_entry vt n s = Some (s\<lparr>am_user := u'\<rparr>)" "owns holds (s\<lparr>am_user := u'\<rparr>) E (P + payload_of n)"
proof -
  let ?Q = "P + payload ((am_nodes s)(a := None))"
  have pl: "payload (am_nodes s) = payload_of n + payload ((am_nodes s)(a := None))"
    by (rule total_remove) (use assms countedD(1) in \<open>auto simp: owns_def\<close>)
  then have "holds (am_user s) (add_mset (Inl (an_key n)) (add_mset (Inr (an_value n)) ?Q))"
    using assms(1) by (simp add: owns_def payload_of_def)
  from copied_key [OF this] obtain u1 where u1: "copy_key vt (an_key n) (am_user s) = Some u1"
    "holds u1 (add_mset (Inr (an_value n)) (add_mset (Inl (an_key n)) (add_mset (Inl (an_key n)) ?Q)))"
    by (auto simp: add_mset_commute)
  from copied_value [OF u1(2)] obtain u2 where u2: "copy_value vt (an_value n) u1 = Some u2"
    "holds u2 (P + payload_of n + payload (am_nodes s))"
    by (auto simp: pl payload_of_def add_mset_commute ac_simps)
  show ?thesis by (rule that [of u2]) (use u1 u2 assms(1) in \<open>simp_all add: copy_entry_def on_user_def owns_def\<close>)
qed

lemma new_node_owns:
  assumes "owns holds s (E + ptrs l + ptrs r) (P + {#Inl k, Inr v#})"
    "tree_at (am_nodes s) l lt" "tree_at (am_nodes s) r rt" "avl lt" "avl rt"
  obtains p s' where "new_node al k v l r s = Some (p, s')" "owns holds s' (E + ptrs p) P"
    "extends (am_nodes s) (am_nodes s')" "tree_at (am_nodes s') p (mk_node k v lt rt)"
proof -
  let ?a = "al (am_nodes s)"
  let ?n = "\<lparr>an_refs = 1, an_key = k, an_value = v, an_left = l, an_right = r, an_height = 1 + max (ht lt) (ht rt)\<rparr>"
  let ?s = "s\<lparr>am_nodes := (am_nodes s)(?a \<mapsto> ?n)\<rparr>"
  have c: "counted (am_nodes s) (E + ptrs l + ptrs r)" using assms(1) by (simp add: owns_def)
  then have a: "am_nodes s ?a = None" using fresh countedD(1) by blast
  have ext: "extends (am_nodes s) (am_nodes ?s)" using extends_new [of "am_nodes s" ?a, OF a] by simp
  have "payload (am_nodes ?s) = payload_of ?n + payload (am_nodes s)"
    using total_new [OF countedD(1) [OF c] a] by simp
  then have "owns holds ?s (E + ptrs (Some ?a)) P"
    using assms(1) counted_new [OF c a, of k v "1 + max (ht lt) (ht rt)"] by (simp add: owns_def payload_of_def ac_simps)
  moreover have "new_node al k v l r s = Some (Some ?a, ?s)"
    using assms(2-5) by (simp add: new_node_def assert_invariants_tree node_height_tree Let_def)
  moreover have "tree_at (am_nodes ?s) (Some ?a) (mk_node k v lt rt)"
    using tree_at_extends [OF ext] assms(2,3) by (simp add: mk_node_def)
  ultimately show ?thesis using that ext by blast
qed

lemma unref_node_memory:
  assumes "tree_at ns p t" "counted ns (E + ptrs p)" "holds (am_user s) (P + payload ns)"
    "am_nodes s = ns ++ D" "dom ns \<inter> dom D = {}"
  shows "\<exists>s' ns'. unref_node vt p s = Some s' \<and> am_nodes s' = ns' ++ D \<and> counted ns' E \<and> extends ns' ns \<and>
    holds (am_user s') (P + payload ns')"
  using assms
proof (induction t arbitrary: ns p E s D)
  case Leaf
  then show ?case by (auto simp: unref_node.simps intro: exI [of _ s] exI [of _ ns])
next
  case (Node l x r)
  from Node.prems(1) obtain a n where n: "p = Some a" "ns a = Some n" "tree_at ns (an_left n) l" "tree_at ns (an_right n) r"
    by auto
  have c: "counted ns (add_mset a E)" using Node.prems(2) n(1) by simp
  have aD: "D a = None" using Node.prems(5) n(2) by auto
  then have sa: "am_nodes s a = Some n" using Node.prems(4) n(2) by (simp add: map_add_def)
  have pos: "0 < an_refs n" using countedD(3) [OF c n(2)] .
  let ?s1 = "s\<lparr>am_nodes := (am_nodes s)(a \<mapsto> n\<lparr>an_refs := an_refs n - 1\<rparr>)\<rparr>"
  show ?case
  proof (cases "an_refs n = 1")
    case False
    let ?ns = "ns(a \<mapsto> n\<lparr>an_refs := an_refs n - 1\<rparr>)"
    have "payload ?ns = payload ns" by (rule total_refs) (use n(2) countedD(1) [OF c] in auto)
    then have "holds (am_user ?s1) (P + payload ?ns)" using Node.prems(3) by simp
    moreover have "am_nodes ?s1 = ?ns ++ D" using Node.prems(4) aD by (auto simp: map_add_def fun_eq_iff split: option.splits)
    moreover have "unref_node vt p s = Some ?s1" using n(1) sa pos False by (simp add: unref_node.simps)
    moreover have "counted ?ns E" "extends ?ns ns"
      using counted_unref [OF c n(2) False] extends_refs(2) [of ns a n, OF n(2)] by blast+
    ultimately show ?thesis by blast
  next
    case True
    let ?ns = "ns(a := None)" and ?D = "D(a \<mapsto> n\<lparr>an_refs := 0\<rparr>)"
    note free = counted_free [OF c n(2) True]
    have pl: "payload ns = payload_of n + payload ?ns" by (rule total_remove [OF countedD(1) [OF c] n(2)])
    then have "holds (am_user ?s1) (add_mset (Inl (an_key n)) (add_mset (Inr (an_value n)) (P + payload ?ns)))"
      using Node.prems(3) by (simp add: payload_of_def [of n])
    from destroyed_key [OF this] obtain u1 where u1: "destroy_key vt (an_key n) (am_user ?s1) = Some u1"
      "holds u1 (add_mset (Inr (an_value n)) (P + payload ?ns))" by blast
    from destroyed_value [OF u1(2)] obtain u2 where u2: "destroy_value vt (an_value n) u1 = Some u2"
      "holds u2 (P + payload ?ns)" by blast
    let ?s2 = "?s1\<lparr>am_user := u2\<rparr>"
    have mem: "am_nodes ?s2 = ?ns ++ ?D"
      using Node.prems(4) True by (auto simp: map_add_def fun_eq_iff split: option.splits)
    have dis: "dom ?ns \<inter> dom ?D = {}" using Node.prems(5) by auto
    have ne: "an_left n \<noteq> Some a" "an_right n \<noteq> Some a"
      using in_links [OF countedD(1) [OF c] n(2)] free(2) by (force simp: links_of_def)+
    have c1: "counted ?ns ((E + ptrs (an_right n)) + ptrs (an_left n))" using free(1) by (simp add: links_of_def ac_simps)
    have t: "tree_at ?ns (an_left n) l" "tree_at ?ns (an_right n) r"
      using tree_at_drop [OF countedD(1) [OF c] free(2)] ne n(3,4) by blast+
    have u2': "holds (am_user ?s2) (P + payload ?ns)" using u2(2) by simp
    from Node.IH(1) [OF t(1) c1 u2' mem dis] obtain s3 ns3 where s3:
      "unref_node vt (an_left n) ?s2 = Some s3" "am_nodes s3 = ns3 ++ ?D" "counted ns3 (E + ptrs (an_right n))"
      "extends ns3 ?ns" "holds (am_user s3) (P + payload ns3)" by blast
    have sub: "dom ns3 \<subseteq> dom ?ns" using s3(4) unfolding extends_def by blast
    have "\<exists>t. tree_at ns3 (an_right n) t" using countedD(4,6) [OF s3(3)] by (cases "an_right n") fastforce+
    then have "tree_at ns3 (an_right n) r" using tree_at_extends [OF s3(4)] tree_at_unique t(2) by metis
    from Node.IH(2) [OF this s3(3,5,2)] sub dis obtain s4 ns4 where s4:
      "unref_node vt (an_right n) s3 = Some s4" "am_nodes s4 = ns4 ++ ?D" "counted ns4 E"
      "extends ns4 ns3" "holds (am_user s4) (P + payload ns4)" by blast
    let ?s5 = "s4\<lparr>am_nodes := (am_nodes s4)(a := None)\<rparr>"
    have "ns4 a = None" using s4(4) sub unfolding extends_def by (metis domIff fun_upd_same not_Some_eq subsetD)
    then have "am_nodes ?s5 = ns4 ++ D" using s4(2) aD by (auto simp: map_add_def fun_eq_iff split: option.splits)
    moreover have "unref_node vt p s = Some ?s5"
      using n(1) sa True u1(1) u2(1) s3(1) s4(1) by (subst unref_node.simps) (simp add: on_user_def)
    moreover have "extends ?ns ns" by (simp add: extends_def)
    then have "extends ns4 ns" by (rule extends_trans [OF extends_trans [OF s4(4) s3(4)]])
    moreover have "holds (am_user ?s5) (P + payload ns4)" using s4(5) by simp
    ultimately show ?thesis using s4(3) by blast
  qed
qed

lemma unref_node_owns:
  assumes "owns holds s (E + ptrs p) P"
  obtains s' where "unref_node vt p s = Some s'" "owns holds s' E P" "keeps E (am_nodes s) (am_nodes s')"
proof -
  have c: "counted (am_nodes s) (E + ptrs p)" using assms by (simp add: owns_def)
  then obtain t where "tree_at (am_nodes s) p t" using countedD(4,6) [OF c] by (cases p) fastforce+
  from unref_node_memory [OF this c, of s P Map.empty] assms obtain s' where s':
    "unref_node vt p s = Some s'" "counted (am_nodes s') E" "extends (am_nodes s') (am_nodes s)"
    "holds (am_user s') (P + payload (am_nodes s'))" by (auto simp: owns_def)
  then show ?thesis using that [of s'] keeps_shrink [OF s'(2,3)] by (simp add: owns_def)
qed

section \<open>Rotations\<close>

text \<open>After the new nodes are made the old one is released.\<close>

lemma release:
  assumes "owns holds s' (E + ptrs q + ptrs p) P" "extends (am_nodes s) (am_nodes s')" "tree_at (am_nodes s') q t"
  obtains s'' where "unref_node vt p s' = Some s''" "makes holds s E P t (Some (q, s''))"
proof -
  from unref_node_owns [OF assms(1)] obtain s'' where s'': "unref_node vt p s' = Some s''"
    "owns holds s'' (E + ptrs q) P" "keeps (E + ptrs q) (am_nodes s') (am_nodes s'')" by blast
  have "keeps E (am_nodes s) (am_nodes s'')"
    using keeps_trans [OF keeps_grow [OF assms(2)]] keeps_mono [OF s''(3), of E] by auto
  moreover have "tree_at (am_nodes s'') q t"
    using tree_at_keeps [OF s''(3) borrowed_outside assms(3)] by simp
  ultimately show ?thesis using that s''(1,2) by (auto simp: makes_def)
qed

lemma load_tree:
  assumes "tree_at (am_nodes s) p (Node a (k, v, h) b)"
  obtains n where "load p s = Some n" "k = an_key n" "v = an_value n" "tree_at (am_nodes s) (an_left n) a"
    "tree_at (am_nodes s) (an_right n) b" "\<exists>c. am_nodes s c = Some n"
proof -
  obtain c n where "p = Some c" "am_nodes s c = Some n" "(k, v, h) = (an_key n, an_value n, an_height n)"
    "tree_at (am_nodes s) (an_left n) a" "tree_at (am_nodes s) (an_right n) b" using assms by auto
  then show ?thesis by (intro that [of n]) (auto simp: load_def)
qed

lemma copy_owns:
  assumes "owns holds s E P" "\<exists>c. am_nodes s c = Some n"
  obtains s' where "copy_entry vt n s = Some s'" "owns holds s' E (P + {#Inl (an_key n), Inr (an_value n)#})" "am_nodes s' = am_nodes s"
proof -
  obtain c where "am_nodes s c = Some n" using assms(2) by blast
  from copy_entry_owns [OF assms(1) this] obtain u where u: "copy_entry vt n s = Some (s\<lparr>am_user := u\<rparr>)"
    "owns holds (s\<lparr>am_user := u\<rparr>) E (P + payload_of n)" by blast
  show ?thesis by (rule that [OF u(1)]) (use u(2) in \<open>simp_all add: payload_of_def\<close>)
qed

lemma rotate_left_makes:
  assumes "owns holds s (E + ptrs l + ptrs r) (P + {#Inl k, Inr v#})"
    "tree_at (am_nodes s) l lt" "tree_at (am_nodes s) r (Node a (rk, rv, rh) b)"
    "avl lt" "avl a" "avl b" "\<bar>ht lt - ht a\<bar> \<le> 1"
  shows "makes holds s E P (rot_left k v lt (Node a (rk, rv, rh) b)) (rotate_left vt al k v l r s)"
proof -
  obtain rn where rn: "load r s = Some rn" "rk = an_key rn" "rv = an_value rn"
    "tree_at (am_nodes s) (an_left rn) a" "tree_at (am_nodes s) (an_right rn) b" "\<exists>c. am_nodes s c = Some rn"
    using load_tree [OF assms(3)] by metis
  obtain s1 where s1: "copy_entry vt rn s = Some s1"
    "owns holds s1 (E + ptrs l + ptrs r) ((P + {#Inl k, Inr v#}) + {#Inl rk, Inr rv#})" "am_nodes s1 = am_nodes s"
    using copy_owns [OF assms(1) rn(6)] rn(2,3) by metis
  obtain s2 where s2: "ref_node (an_left rn) s1 = Some s2"
    "owns holds s2 ((E + ptrs r) + ptrs l + ptrs (an_left rn)) ((P + {#Inl rk, Inr rv#}) + {#Inl k, Inr v#})"
    "extends (am_nodes s) (am_nodes s2)"
    using ref_node_owns [OF s1(2), of "an_left rn" a] rn(4) s1(3) by (auto simp: ac_simps)
  note t2 = tree_at_extends [OF s2(3)]
  obtain i s3 where s3: "new_node al k v l (an_left rn) s2 = Some (i, s3)"
    "owns holds s3 (E + ptrs r + ptrs i) (P + {#Inl rk, Inr rv#})" "extends (am_nodes s2) (am_nodes s3)"
    "tree_at (am_nodes s3) i (mk_node k v lt a)"
    using new_node_owns [OF s2(2) t2 t2, OF assms(2) rn(4)] assms(4,5) by blast
  note e3 = extends_trans [OF s2(3) s3(3)]
  obtain s4 where s4: "ref_node (an_right rn) s3 = Some s4"
    "owns holds s4 ((E + ptrs r) + ptrs i + ptrs (an_right rn)) (P + {#Inl rk, Inr rv#})"
    "extends (am_nodes s3) (am_nodes s4)"
    using ref_node_owns [OF s3(2) tree_at_extends [OF e3 rn(5)]] by blast
  note t4 = tree_at_extends [OF s4(3)]
  have "avl (mk_node k v lt a)" by (rule mk_node_avl [OF assms(4,5,7)])
  note n5 = new_node_owns [OF s4(2) t4 t4, OF s3(4) tree_at_extends [OF e3 rn(5)] this assms(6)]
  obtain q s5 where s5: "new_node al rk rv i (an_right rn) s4 = Some (q, s5)"
    "owns holds s5 (E + ptrs r + ptrs q) P" "extends (am_nodes s4) (am_nodes s5)"
    "tree_at (am_nodes s5) q (mk_node rk rv (mk_node k v lt a) b)"
    using n5 by blast
  have "owns holds s5 (E + ptrs q + ptrs r) P" using s5(2) by (simp add: ac_simps)
  from release [OF this extends_trans [OF e3 extends_trans [OF s4(3) s5(3)]] s5(4)] obtain s6 where
    "unref_node vt r s5 = Some s6" "makes holds s E P (mk_node rk rv (mk_node k v lt a) b) (Some (q, s6))" by blast
  then show ?thesis using rn(1-3) s1(1) s2(1) s3(1) s4(1) s5(1) by (simp add: rotate_left_def)
qed

lemma rotate_right_makes:
  assumes "owns holds s (E + ptrs l + ptrs r) (P + {#Inl k, Inr v#})"
    "tree_at (am_nodes s) l (Node a (lk, lv, lh) b)" "tree_at (am_nodes s) r rt"
    "avl rt" "avl a" "avl b" "\<bar>ht b - ht rt\<bar> \<le> 1"
  shows "makes holds s E P (rot_right k v (Node a (lk, lv, lh) b) rt) (rotate_right vt al k v l r s)"
proof -
  obtain ln where ln: "load l s = Some ln" "lk = an_key ln" "lv = an_value ln"
    "tree_at (am_nodes s) (an_left ln) a" "tree_at (am_nodes s) (an_right ln) b" "\<exists>c. am_nodes s c = Some ln"
    using load_tree [OF assms(2)] by metis
  obtain s1 where s1: "copy_entry vt ln s = Some s1"
    "owns holds s1 (E + ptrs l + ptrs r) ((P + {#Inl k, Inr v#}) + {#Inl lk, Inr lv#})" "am_nodes s1 = am_nodes s"
    using copy_owns [OF assms(1) ln(6)] ln(2,3) by metis
  obtain s2 where s2: "ref_node (an_left ln) s1 = Some s2"
    "owns holds s2 (E + ptrs l + ptrs r + ptrs (an_left ln)) ((P + {#Inl k, Inr v#}) + {#Inl lk, Inr lv#})"
    "extends (am_nodes s) (am_nodes s2)"
    using ref_node_owns [OF s1(2), of "an_left ln" a] ln(4) s1(3) by auto
  obtain s3 where s3: "ref_node (an_right ln) s2 = Some s3"
    "owns holds s3 ((E + ptrs l + ptrs (an_left ln)) + ptrs (an_right ln) + ptrs r) ((P + {#Inl lk, Inr lv#}) + {#Inl k, Inr v#})"
    "extends (am_nodes s2) (am_nodes s3)"
    using ref_node_owns [OF s2(2) tree_at_extends [OF s2(3) ln(5)]] by (auto simp: ac_simps)
  note e3 = extends_trans [OF s2(3) s3(3)] and t3 = tree_at_extends [OF extends_trans [OF s2(3) s3(3)]]
  obtain i s4 where s4: "new_node al k v (an_right ln) r s3 = Some (i, s4)"
    "owns holds s4 (E + ptrs l + ptrs (an_left ln) + ptrs i) (P + {#Inl lk, Inr lv#})" "extends (am_nodes s3) (am_nodes s4)"
    "tree_at (am_nodes s4) i (mk_node k v b rt)"
    using new_node_owns [OF s3(2) t3 t3, OF ln(5) assms(3)] assms(4,6) by blast
  have "avl (mk_node k v b rt)" by (rule mk_node_avl [OF assms(6,4,7)])
  note n5 = new_node_owns [OF s4(2) tree_at_extends [OF s4(3) t3 [OF ln(4)]] s4(4) assms(5) this]
  obtain q s5 where s5: "new_node al lk lv (an_left ln) i s4 = Some (q, s5)"
    "owns holds s5 (E + ptrs l + ptrs q) P" "extends (am_nodes s4) (am_nodes s5)"
    "tree_at (am_nodes s5) q (mk_node lk lv a (mk_node k v b rt))"
    using n5 by blast
  have "owns holds s5 (E + ptrs q + ptrs l) P" using s5(2) by (simp add: ac_simps)
  from release [OF this extends_trans [OF e3 extends_trans [OF s4(3) s5(3)]] s5(4)] obtain s6 where
    "unref_node vt l s5 = Some s6" "makes holds s E P (mk_node lk lv a (mk_node k v b rt)) (Some (q, s6))" by blast
  then show ?thesis using ln(1-3) s1(1) s2(1) s3(1) s4(1) s5(1) by (simp add: rotate_right_def)
qed

lemma rotate_left_right_makes:
  assumes "owns holds s (E + ptrs l + ptrs r) (P + {#Inl k, Inr v#})"
    "tree_at (am_nodes s) l (Node a (lk, lv, lh) (Node b (mk, mv, mh) c))" "tree_at (am_nodes s) r rt"
    "avl rt" "avl a" "avl b" "avl c" "\<bar>ht a - ht b\<bar> \<le> 1" "\<bar>ht c - ht rt\<bar> \<le> 1"
  shows "makes holds s E P (rot_left_right k v (Node a (lk, lv, lh) (Node b (mk, mv, mh) c)) rt) (rotate_left_right vt al k v l r s)"
proof -
  let ?i = "mk_node lk lv a b" and ?j = "mk_node k v c rt"
  obtain ln where ln: "load l s = Some ln" "lk = an_key ln" "lv = an_value ln" "tree_at (am_nodes s) (an_left ln) a"
    "tree_at (am_nodes s) (an_right ln) (Node b (mk, mv, mh) c)" "\<exists>c. am_nodes s c = Some ln"
    using load_tree [OF assms(2)] by metis
  obtain mn where mn: "load (an_right ln) s = Some mn" "mk = an_key mn" "mv = an_value mn" "tree_at (am_nodes s) (an_left mn) b"
    "tree_at (am_nodes s) (an_right mn) c" "\<exists>c. am_nodes s c = Some mn"
    using load_tree [OF ln(5)] by metis
  obtain s1 where s1: "copy_entry vt mn s = Some s1"
    "owns holds s1 (E + ptrs l + ptrs r) ((P + {#Inl k, Inr v#}) + {#Inl mk, Inr mv#})" "am_nodes s1 = am_nodes s"
    using copy_owns [OF assms(1) mn(6)] mn(2,3) by metis
  obtain s2 where s2: "copy_entry vt ln s1 = Some s2"
    "owns holds s2 (E + ptrs l + ptrs r) ((P + {#Inl k, Inr v#} + {#Inl mk, Inr mv#}) + {#Inl lk, Inr lv#})" "am_nodes s2 = am_nodes s"
    using copy_owns [OF s1(2), of ln] ln(2,3,6) s1(3) by metis
  obtain s3 where s3: "ref_node (an_left ln) s2 = Some s3"
    "owns holds s3 (E + ptrs l + ptrs r + ptrs (an_left ln)) ((P + {#Inl k, Inr v#} + {#Inl mk, Inr mv#}) + {#Inl lk, Inr lv#})"
    "extends (am_nodes s) (am_nodes s3)"
    using ref_node_owns [OF s2(2), of "an_left ln" a] ln(4) s2(3) by auto
  note t3 = tree_at_extends [OF s3(3)]
  obtain s4 where s4: "ref_node (an_left mn) s3 = Some s4"
    "owns holds s4 ((E + ptrs l + ptrs r) + ptrs (an_left ln) + ptrs (an_left mn)) ((P + {#Inl k, Inr v#} + {#Inl mk, Inr mv#}) + {#Inl lk, Inr lv#})"
    "extends (am_nodes s3) (am_nodes s4)"
    using ref_node_owns [OF s3(2) t3 [OF mn(4)]] by blast
  note e4 = extends_trans [OF s3(3) s4(3)] and t4 = tree_at_extends [OF extends_trans [OF s3(3) s4(3)]]
  obtain i s5 where s5: "new_node al lk lv (an_left ln) (an_left mn) s4 = Some (i, s5)"
    "owns holds s5 (E + ptrs l + ptrs r + ptrs i) (P + {#Inl k, Inr v#} + {#Inl mk, Inr mv#})" "extends (am_nodes s4) (am_nodes s5)"
    "tree_at (am_nodes s5) i ?i"
    using new_node_owns [OF s4(2) t4 t4, OF ln(4) mn(4)] assms(5,6) by blast
  note e5 = extends_trans [OF e4 s5(3)]
  obtain s6 where s6: "ref_node (an_right mn) s5 = Some s6"
    "owns holds s6 ((E + ptrs l + ptrs i) + ptrs (an_right mn) + ptrs r) ((P + {#Inl mk, Inr mv#}) + {#Inl k, Inr v#})"
    "extends (am_nodes s5) (am_nodes s6)"
    using ref_node_owns [OF s5(2) tree_at_extends [OF e5 mn(5)]] by (auto simp: ac_simps)
  note e6 = extends_trans [OF e5 s6(3)] and t6 = tree_at_extends [OF extends_trans [OF e5 s6(3)]]
  obtain j s7 where s7: "new_node al k v (an_right mn) r s6 = Some (j, s7)"
    "owns holds s7 (E + ptrs l + ptrs i + ptrs j) (P + {#Inl mk, Inr mv#})" "extends (am_nodes s6) (am_nodes s7)"
    "tree_at (am_nodes s7) j ?j"
    using new_node_owns [OF s6(2) t6 t6, OF mn(5) assms(3)] assms(4,7) by blast
  note av = mk_node_avl [OF assms(5,6,8), of lk lv] mk_node_avl [OF assms(7,4,9), of k v]
  note n8 = new_node_owns [OF s7(2) tree_at_extends [OF extends_trans [OF s6(3) s7(3)] s5(4)] s7(4) av]
  obtain q s8 where s8: "new_node al mk mv i j s7 = Some (q, s8)"
    "owns holds s8 (E + ptrs l + ptrs q) P" "extends (am_nodes s7) (am_nodes s8)" "tree_at (am_nodes s8) q (mk_node mk mv ?i ?j)"
    using n8 by blast
  have "owns holds s8 (E + ptrs q + ptrs l) P" using s8(2) by (simp add: ac_simps)
  from release [OF this extends_trans [OF e6 extends_trans [OF s7(3) s8(3)]] s8(4)] obtain s9 where
    "unref_node vt l s8 = Some s9" "makes holds s E P (mk_node mk mv ?i ?j) (Some (q, s9))" by blast
  then show ?thesis
    using ln(1-3) mn(1-3) s1(1) s2(1) s3(1) s4(1) s5(1) s6(1) s7(1) s8(1) by (simp add: rotate_left_right_def)
qed

lemma rotate_right_left_makes:
  assumes "owns holds s (E + ptrs l + ptrs r) (P + {#Inl k, Inr v#})"
    "tree_at (am_nodes s) l lt" "tree_at (am_nodes s) r (Node (Node a (mk, mv, mh) b) (rk, rv, rh) c)"
    "avl lt" "avl a" "avl b" "avl c" "\<bar>ht lt - ht a\<bar> \<le> 1" "\<bar>ht b - ht c\<bar> \<le> 1"
  shows "makes holds s E P (rot_right_left k v lt (Node (Node a (mk, mv, mh) b) (rk, rv, rh) c)) (rotate_right_left vt al k v l r s)"
proof -
  let ?i = "mk_node k v lt a" and ?j = "mk_node rk rv b c"
  obtain rn where rn: "load r s = Some rn" "rk = an_key rn" "rv = an_value rn" "tree_at (am_nodes s) (an_left rn) (Node a (mk, mv, mh) b)"
    "tree_at (am_nodes s) (an_right rn) c" "\<exists>c. am_nodes s c = Some rn"
    using load_tree [OF assms(3)] by metis
  obtain mn where mn: "load (an_left rn) s = Some mn" "mk = an_key mn" "mv = an_value mn" "tree_at (am_nodes s) (an_left mn) a"
    "tree_at (am_nodes s) (an_right mn) b" "\<exists>c. am_nodes s c = Some mn"
    using load_tree [OF rn(4)] by metis
  obtain s1 where s1: "copy_entry vt mn s = Some s1"
    "owns holds s1 (E + ptrs l + ptrs r) ((P + {#Inl k, Inr v#}) + {#Inl mk, Inr mv#})" "am_nodes s1 = am_nodes s"
    using copy_owns [OF assms(1) mn(6)] mn(2,3) by metis
  obtain s2 where s2: "ref_node (an_left mn) s1 = Some s2"
    "owns holds s2 ((E + ptrs r) + ptrs l + ptrs (an_left mn)) ((P + {#Inl mk, Inr mv#}) + {#Inl k, Inr v#})"
    "extends (am_nodes s) (am_nodes s2)"
    using ref_node_owns [OF s1(2), of "an_left mn" a] mn(4) s1(3) by (auto simp: ac_simps)
  note t2 = tree_at_extends [OF s2(3)]
  obtain i s3 where s3: "new_node al k v l (an_left mn) s2 = Some (i, s3)"
    "owns holds s3 (E + ptrs r + ptrs i) (P + {#Inl mk, Inr mv#})" "extends (am_nodes s2) (am_nodes s3)"
    "tree_at (am_nodes s3) i ?i"
    using new_node_owns [OF s2(2) t2 t2, OF assms(2) mn(4)] assms(4,5) by blast
  note e3 = extends_trans [OF s2(3) s3(3)]
  have "\<exists>c n. am_nodes s3 c = Some n \<and> same_node rn n" using rn(6) e3 unfolding extends_def by blast
  then obtain n3 where n3: "\<exists>c. am_nodes s3 c = Some n3" "same_node rn n3" by blast
  then have n3': "an_key n3 = rk" "an_value n3 = rv" "copy_entry vt n3 s3 = copy_entry vt rn s3"
    using rn(2,3) by (simp_all add: same_node_def copy_entry_def)
  obtain s4 where s4: "copy_entry vt rn s3 = Some s4"
    "owns holds s4 (E + ptrs r + ptrs i) ((P + {#Inl mk, Inr mv#}) + {#Inl rk, Inr rv#})" "am_nodes s4 = am_nodes s3"
    using copy_owns [OF s3(2) n3(1)] n3' by metis
  obtain s5 where s5: "ref_node (an_right mn) s4 = Some s5"
    "owns holds s5 (E + ptrs r + ptrs i + ptrs (an_right mn)) ((P + {#Inl mk, Inr mv#}) + {#Inl rk, Inr rv#})"
    "extends (am_nodes s3) (am_nodes s5)"
    using ref_node_owns [OF s4(2), of "an_right mn" b] tree_at_extends [OF e3 mn(5)] s4(3) by auto
  note e5 = extends_trans [OF e3 s5(3)]
  obtain s6 where s6: "ref_node (an_right rn) s5 = Some s6"
    "owns holds s6 ((E + ptrs r + ptrs i) + ptrs (an_right mn) + ptrs (an_right rn)) ((P + {#Inl mk, Inr mv#}) + {#Inl rk, Inr rv#})"
    "extends (am_nodes s5) (am_nodes s6)"
    using ref_node_owns [OF s5(2) tree_at_extends [OF e5 rn(5)]] by blast
  note e6 = extends_trans [OF e5 s6(3)] and t6 = tree_at_extends [OF extends_trans [OF e5 s6(3)]]
  obtain j s7 where s7: "new_node al rk rv (an_right mn) (an_right rn) s6 = Some (j, s7)"
    "owns holds s7 (E + ptrs r + ptrs i + ptrs j) (P + {#Inl mk, Inr mv#})" "extends (am_nodes s6) (am_nodes s7)"
    "tree_at (am_nodes s7) j ?j"
    using new_node_owns [OF s6(2) t6 t6, OF mn(5) rn(5)] assms(6,7) by blast
  note av = mk_node_avl [OF assms(4,5,8), of k v] mk_node_avl [OF assms(6,7,9), of rk rv]
  note n8 = new_node_owns [OF s7(2) tree_at_extends [OF extends_trans [OF extends_trans [OF s5(3) s6(3)] s7(3)] s3(4)] s7(4) av]
  obtain q s8 where s8: "new_node al mk mv i j s7 = Some (q, s8)"
    "owns holds s8 (E + ptrs r + ptrs q) P" "extends (am_nodes s7) (am_nodes s8)" "tree_at (am_nodes s8) q (mk_node mk mv ?i ?j)"
    using n8 by blast
  have "owns holds s8 (E + ptrs q + ptrs r) P" using s8(2) by (simp add: ac_simps)
  from release [OF this extends_trans [OF e6 extends_trans [OF s7(3) s8(3)]] s8(4)] obtain s9 where
    "unref_node vt r s8 = Some s9" "makes holds s E P (mk_node mk mv ?i ?j) (Some (q, s9))" by blast
  then show ?thesis
    using rn(1-3) mn(1-3) s1(1) s2(1) s3(1) s4(1) s5(1) s6(1) s7(1) s8(1) by (simp add: rotate_right_left_def)
qed

lemma rebalance_node_makes:
  assumes "owns holds s (E + ptrs l + ptrs r) (P + {#Inl k, Inr v#})" "tree_at (am_nodes s) l lt" "tree_at (am_nodes s) r rt"
    and l: "avl lt" and r: "avl rt" and d: "\<bar>ht lt - ht rt\<bar> \<le> 2"
  shows "makes holds s E P (balance k v lt rt) (rebalance_node vt al k v l r s)"
proof -
  have n: "0 \<le> ht lt" "0 \<le> ht rt" using l r by (auto dest: ht_nonneg)
  note h = node_height_tree [OF assms(2)] node_height_tree [OF assms(3)]
  consider (left) "ht lt - ht rt = 2" | (right) "ht lt - ht rt = -2" | (even) "\<bar>ht lt - ht rt\<bar> \<le> 1" using d by linarith
  then show ?thesis
  proof cases
    case left
    then have "0 < ht lt" using n by simp
    then obtain a lk lv b where lt: "lt = Node a (lk, lv, 1 + max (ht a) (ht b)) b" "avl a" "avl b" "\<bar>ht a - ht b\<bar> \<le> 1"
      using avl_cases [OF l] by metis
    obtain ln where ln: "load l s = Some ln" "tree_at (am_nodes s) (an_left ln) a" "tree_at (am_nodes s) (an_right ln) b"
      using load_tree assms(2) lt(1) by metis
    note hl = node_height_tree [OF ln(2)] node_height_tree [OF ln(3)]
    show ?thesis
    proof (cases "ht a - ht b = -1")
      case True
      then have "0 < ht b" using ht_nonneg [OF lt(2)] by simp
      then obtain c mk mv e where m: "b = Node c (mk, mv, 1 + max (ht c) (ht e)) e" "avl c" "avl e" "\<bar>ht c - ht e\<bar> \<le> 1"
        using avl_cases [OF lt(3)] by metis
      have "makes holds s E P (rot_left_right k v lt rt) (rotate_left_right vt al k v l r s)"
        unfolding lt(1) m(1)
        by (rule rotate_left_right_makes [OF assms(1) _ assms(3) r lt(2) m(2,3)]) (use assms(2) left True lt m in auto)
      then show ?thesis using left True h hl ln(1) lt(1) by (simp add: balance_def rebalance_node_def)
    next
      case False
      have "makes holds s E P (rot_right k v lt rt) (rotate_right vt al k v l r s)"
        unfolding lt(1)
        by (rule rotate_right_makes [OF assms(1) _ assms(3) r lt(2,3)]) (use assms(2) left False lt in auto)
      then show ?thesis using left False h hl ln(1) lt(1) by (simp add: balance_def rebalance_node_def)
    qed
  next
    case right
    then have "0 < ht rt" using n by simp
    then obtain a rk rv b where rt: "rt = Node a (rk, rv, 1 + max (ht a) (ht b)) b" "avl a" "avl b" "\<bar>ht a - ht b\<bar> \<le> 1"
      using avl_cases [OF r] by metis
    obtain rn where rn: "load r s = Some rn" "tree_at (am_nodes s) (an_left rn) a" "tree_at (am_nodes s) (an_right rn) b"
      using load_tree assms(3) rt(1) by metis
    note hr = node_height_tree [OF rn(2)] node_height_tree [OF rn(3)]
    show ?thesis
    proof (cases "ht a - ht b = 1")
      case True
      then have "0 < ht a" using ht_nonneg [OF rt(3)] by simp
      then obtain c mk mv e where m: "a = Node c (mk, mv, 1 + max (ht c) (ht e)) e" "avl c" "avl e" "\<bar>ht c - ht e\<bar> \<le> 1"
        using avl_cases [OF rt(2)] by metis
      have "makes holds s E P (rot_right_left k v lt rt) (rotate_right_left vt al k v l r s)"
        unfolding rt(1) m(1)
        by (rule rotate_right_left_makes [OF assms(1,2) _ l m(2,3) rt(3)]) (use assms(3) right True rt m in auto)
      then show ?thesis using right True h hr rn(1) rt(1) by (simp add: balance_def rebalance_node_def)
    next
      case False
      have "makes holds s E P (rot_left k v lt rt) (rotate_left vt al k v l r s)"
        unfolding rt(1)
        by (rule rotate_left_makes [OF assms(1,2) _ l rt(2,3)]) (use assms(3) right False rt in auto)
      then show ?thesis using right False h hr rn(1) rt(1) by (simp add: balance_def rebalance_node_def)
    qed
  next
    case even
    from new_node_owns [OF assms(1-3) l r] obtain p s' where "new_node al k v l r s = Some (p, s')"
      "owns holds s' (E + ptrs p) P" "extends (am_nodes s) (am_nodes s')" "tree_at (am_nodes s') p (mk_node k v lt rt)" by blast
    then show ?thesis using even h keeps_grow by (auto simp: balance_def rebalance_node_def makes_def)
  qed
qed

lemma rebalance_makes:
  assumes "owns holds s (E + ptrs l + ptrs r) (P + {#Inl k, Inr v#})" "tree_at (am_nodes s) l lt" "tree_at (am_nodes s) r rt"
    and "avl lt" "avl rt" "\<bar>ht lt - ht rt\<bar> \<le> 2"
  shows "makes holds s E P (balance k v lt rt) (rebalance vt al k v l r s)"
proof -
  from makesE [OF rebalance_node_makes [OF assms]] obtain p s' where p: "rebalance_node vt al k v l r s = Some (p, s')"
    "tree_at (am_nodes s') p (balance k v lt rt)" by blast
  then have "assert_invariants p s' = Some ()"
    using balance_avl [OF assms(4-6)] by (blast intro: assert_invariants_tree)
  then show ?thesis using rebalance_node_makes [OF assms] p(1) by (simp add: rebalance_def)
qed

section \<open>Adding and removing keys\<close>

lemma makes_after: "keeps E (am_nodes s) (am_nodes s1) \<Longrightarrow> makes holds s1 E P t res \<Longrightarrow> makes holds s E P t res"
  unfolding makes_def using keeps_trans by blast

text \<open>On the way back from a recursive call the node is copied, with the other child shared.\<close>

lemma rebuild_left:
  assumes own: "owns holds s E (P + Q)" and m: "\<exists>c. am_nodes s c = Some m" and q: "borrowed (am_nodes s) E q" "tree_at (am_nodes s) q tq"
    and rec: "\<And>s1. am_nodes s1 = am_nodes s \<Longrightarrow> owns holds s1 E ((P + {#Inl (an_key m), Inr (an_value m)#}) + Q) \<Longrightarrow>
      makes holds s1 E (P + {#Inl (an_key m), Inr (an_value m)#}) t (f s1)"
    and t: "avl t" "avl tq" "\<bar>ht t - ht tq\<bar> \<le> 2"
  shows "makes holds s E P (balance (an_key m) (an_value m) t tq)
    (do { s \<leftarrow> copy_entry vt m s; (l, s) \<leftarrow> f s; s \<leftarrow> ref_node q s; rebalance vt al (an_key m) (an_value m) l q s })"
proof -
  have sw: "P + Q + {#Inl (an_key m), Inr (an_value m)#} = P + {#Inl (an_key m), Inr (an_value m)#} + Q" by simp
  obtain s1 where s1: "copy_entry vt m s = Some s1" "owns holds s1 E ((P + {#Inl (an_key m), Inr (an_value m)#}) + Q)"
    "am_nodes s1 = am_nodes s"
    using copy_owns [OF own m] unfolding sw by blast
  obtain l s2 where s2: "f s1 = Some (l, s2)" "owns holds s2 (E + ptrs l) (P + {#Inl (an_key m), Inr (an_value m)#})"
    "keeps E (am_nodes s) (am_nodes s2)" "tree_at (am_nodes s2) l t"
    using makesE [OF rec [OF s1(3,2)]] s1(3) by metis
  have tq: "tree_at (am_nodes s2) q tq" by (rule tree_at_keeps [OF s2(3) q])
  obtain s3 where s3: "ref_node q s2 = Some s3" "owns holds s3 (E + ptrs l + ptrs q) (P + {#Inl (an_key m), Inr (an_value m)#})"
    "extends (am_nodes s2) (am_nodes s3)"
    using ref_node_owns [OF s2(2) tq] by blast
  have "makes holds s3 E P (balance (an_key m) (an_value m) t tq) (rebalance vt al (an_key m) (an_value m) l q s3)"
    by (rule rebalance_makes [OF s3(2) tree_at_extends [OF s3(3) s2(4)] tree_at_extends [OF s3(3) tq] t])
  then have "makes holds s E P (balance (an_key m) (an_value m) t tq) (rebalance vt al (an_key m) (an_value m) l q s3)"
    by (rule makes_after [OF keeps_trans [OF s2(3) keeps_grow [OF s3(3)]]])
  then show ?thesis using s1(1) s2(1) s3(1) by simp
qed

lemma rebuild_right:
  assumes own: "owns holds s E (P + Q)" and m: "\<exists>c. am_nodes s c = Some m" and q: "tree_at (am_nodes s) q tq"
    and rec: "\<And>s1. extends (am_nodes s) (am_nodes s1) \<Longrightarrow> owns holds s1 (E + ptrs q) ((P + {#Inl (an_key m), Inr (an_value m)#}) + Q) \<Longrightarrow>
      makes holds s1 (E + ptrs q) (P + {#Inl (an_key m), Inr (an_value m)#}) t (f s1)"
    and t: "avl t" "avl tq" "\<bar>ht tq - ht t\<bar> \<le> 2"
  shows "makes holds s E P (balance (an_key m) (an_value m) tq t)
    (do { s \<leftarrow> copy_entry vt m s; s \<leftarrow> ref_node q s; (r, s) \<leftarrow> f s; rebalance vt al (an_key m) (an_value m) q r s })"
proof -
  have sw: "P + Q + {#Inl (an_key m), Inr (an_value m)#} = P + {#Inl (an_key m), Inr (an_value m)#} + Q" by simp
  obtain s1 where s1: "copy_entry vt m s = Some s1" "owns holds s1 E ((P + {#Inl (an_key m), Inr (an_value m)#}) + Q)"
    "am_nodes s1 = am_nodes s"
    using copy_owns [OF own m] unfolding sw by blast
  obtain s2 where s2: "ref_node q s1 = Some s2" "owns holds s2 (E + ptrs q) ((P + {#Inl (an_key m), Inr (an_value m)#}) + Q)"
    "extends (am_nodes s) (am_nodes s2)"
    using ref_node_owns [OF s1(2), of q tq] q s1(3) by auto
  obtain r s3 where s3: "f s2 = Some (r, s3)" "owns holds s3 (E + ptrs q + ptrs r) (P + {#Inl (an_key m), Inr (an_value m)#})"
    "keeps (E + ptrs q) (am_nodes s2) (am_nodes s3)" "tree_at (am_nodes s3) r t"
    using makesE [OF rec [OF s2(3,2)]] by blast
  have tq: "tree_at (am_nodes s3) q tq"
    by (rule tree_at_keeps [OF s3(3) borrowed_outside tree_at_extends [OF s2(3) q]]) simp
  have "makes holds s3 E P (balance (an_key m) (an_value m) tq t) (rebalance vt al (an_key m) (an_value m) q r s3)"
    by (rule rebalance_makes [OF s3(2) tq s3(4) t(2,1,3)])
  moreover have "keeps E (am_nodes s2) (am_nodes s3)" by (rule keeps_mono [OF s3(3)]) simp
  ultimately have "makes holds s E P (balance (an_key m) (an_value m) tq t) (rebalance vt al (an_key m) (an_value m) q r s3)"
    using makes_after keeps_trans keeps_grow [OF s2(3)] by blast
  then show ?thesis using s1(1) s2(1) s3(1) by simp
qed

lemma add_key_makes:
  "owns holds s E (P + {#Inl key, Inr val#}) \<Longrightarrow> borrowed (am_nodes s) E p \<Longrightarrow> tree_at (am_nodes s) p t \<Longrightarrow> avl t \<Longrightarrow>
     makes holds s E P (insert_key (compare_keys vt) key val t) (add_key vt al p key val s)"
proof (induction t arbitrary: p s E P)
  case Leaf
  then have "owns holds s (E + ptrs None + ptrs None) (P + {#Inl key, Inr val#})" by simp
  from new_node_owns [OF this, of Leaf Leaf] obtain q s' where "new_node al key val None None s = Some (q, s')"
    "owns holds s' (E + ptrs q) P" "extends (am_nodes s) (am_nodes s')" "tree_at (am_nodes s') q (mk_node key val Leaf Leaf)"
    by auto
  then show ?case using Leaf keeps_grow by (subst add_key.simps) (auto simp: makes_def)
next
  case (Node l x r)
  then obtain a n where n: "p = Some a" "am_nodes s a = Some n" "x = (an_key n, an_value n, an_height n)"
    "tree_at (am_nodes s) (an_left n) l" "tree_at (am_nodes s) (an_right n) r" by auto
  have t: "avl l" "avl r" "\<bar>ht l - ht r\<bar> \<le> 1" using Node.prems(4) n(3) by simp_all
  have b: "borrowed (am_nodes s) E (an_left n)" "borrowed (am_nodes s) E (an_right n)"
    using borrowed_child [of a "am_nodes s" E n] Node.prems(2) n(1,2) by simp_all
  have m: "\<exists>c. am_nodes s c = Some n" using n(2) by blast
  let ?cmp = "compare_keys vt (an_key n) key"
  consider (eq) "?cmp = 0" | (below) "?cmp > 0" | (above) "?cmp < 0" by linarith
  then show ?case
  proof cases
    case eq
    obtain s1 where s1: "ref_node (an_left n) s = Some s1" "owns holds s1 (E + ptrs (an_left n)) (P + {#Inl key, Inr val#})"
      "extends (am_nodes s) (am_nodes s1)"
      using ref_node_owns [OF Node.prems(1) n(4)] by blast
    obtain s2 where s2: "ref_node (an_right n) s1 = Some s2"
      "owns holds s2 (E + ptrs (an_left n) + ptrs (an_right n)) (P + {#Inl key, Inr val#})" "extends (am_nodes s1) (am_nodes s2)"
      using ref_node_owns [OF s1(2) tree_at_extends [OF s1(3) n(5)]] by blast
    note e = extends_trans [OF s1(3) s2(3)]
    obtain q s3 where s3: "new_node al key val (an_left n) (an_right n) s2 = Some (q, s3)" "owns holds s3 (E + ptrs q) P"
      "extends (am_nodes s2) (am_nodes s3)" "tree_at (am_nodes s3) q (mk_node key val l r)"
      using new_node_owns [OF s2(2) tree_at_extends [OF e n(4)] tree_at_extends [OF e n(5)] t(1,2)] by blast
    then show ?thesis
      using s1(1) s2(1) n(1-3) eq keeps_grow [OF extends_trans [OF e s3(3)]] by (subst add_key.simps) (simp add: makes_def)
  next
    case below
    have "makes holds s E P (balance (an_key n) (an_value n) (insert_key (compare_keys vt) key val l) r)
      (do { s \<leftarrow> copy_entry vt n s; (l, s) \<leftarrow> add_key vt al (an_left n) key val s; s \<leftarrow> ref_node (an_right n) s;
            rebalance vt al (an_key n) (an_value n) l (an_right n) s })"
      by (rule rebuild_left [OF Node.prems(1) m b(2) n(5) Node.IH(1)])
        (use insert_key_avl [OF t(1), of "compare_keys vt" key val] t b(1) n(4) in \<open>auto\<close>)
    then show ?thesis using n(1-3) below by (subst add_key.simps) simp
  next
    case above
    have "makes holds s E P (balance (an_key n) (an_value n) l (insert_key (compare_keys vt) key val r))
      (do { s \<leftarrow> copy_entry vt n s; s \<leftarrow> ref_node (an_left n) s; (r, s) \<leftarrow> add_key vt al (an_right n) key val s;
            rebalance vt al (an_key n) (an_value n) (an_left n) r s })"
    proof (rule rebuild_right [OF Node.prems(1) m n(4)])
      fix s1 assume s1: "extends (am_nodes s) (am_nodes s1)"
        "owns holds s1 (E + ptrs (an_left n)) (P + {#Inl (an_key n), Inr (an_value n)#} + {#Inl key, Inr val#})"
      have "borrowed (am_nodes s1) (E + ptrs (an_left n)) (an_right n)"
        by (rule borrowed_mono [OF borrowed_keeps [OF b(2) keeps_grow [OF s1(1)]]]) simp
      then show "makes holds s1 (E + ptrs (an_left n)) (P + {#Inl (an_key n), Inr (an_value n)#})
        (insert_key (compare_keys vt) key val r) (add_key vt al (an_right n) key val s1)"
        by (rule Node.IH(2) [OF s1(2) _ tree_at_extends [OF s1(1) n(5)] t(2)])
    qed (use insert_key_avl [OF t(2), of "compare_keys vt" key val] t in auto)
    then show ?thesis using n(1-3) above by (subst add_key.simps) simp
  qed
qed

lemma remove_key_makes:
  "owns holds s E P \<Longrightarrow> borrowed (am_nodes s) E p \<Longrightarrow> tree_at (am_nodes s) p t \<Longrightarrow> avl t \<Longrightarrow>
     makes holds s E P (delete_key (compare_keys vt) key t) (remove_key vt al p key s)"
proof (induction t arbitrary: p s E P key)
  case Leaf
  then show ?case by (subst remove_key.simps) (simp add: makes_def)
next
  case (Node l x r)
  then obtain a n where n: "p = Some a" "am_nodes s a = Some n" "x = (an_key n, an_value n, an_height n)"
    "tree_at (am_nodes s) (an_left n) l" "tree_at (am_nodes s) (an_right n) r" by auto
  have t: "avl l" "avl r" "\<bar>ht l - ht r\<bar> \<le> 1" using Node.prems(4) n(3) by simp_all
  have b: "borrowed (am_nodes s) E (an_left n)" "borrowed (am_nodes s) E (an_right n)"
    using borrowed_child [of a "am_nodes s" E n] Node.prems(2) n(1,2) by simp_all
  have own: "owns holds s E (P + {#})" using Node.prems(1) by simp
  let ?rec = "delete_key (compare_keys vt)"
  have down_left: "makes holds s E P (balance (an_key m) (an_value m) (?rec k l) r)
      (do { s \<leftarrow> copy_entry vt m s; (l, s) \<leftarrow> remove_key vt al (an_left n) k s; s \<leftarrow> ref_node (an_right n) s;
            rebalance vt al (an_key m) (an_value m) l (an_right n) s })" if "\<exists>c. am_nodes s c = Some m" for m k
  proof (rule rebuild_left [OF own that b(2) n(5)])
    fix s1 assume s1: "am_nodes s1 = am_nodes s" "owns holds s1 E (P + {#Inl (an_key m), Inr (an_value m)#} + {#})"
    show "makes holds s1 E (P + {#Inl (an_key m), Inr (an_value m)#}) (?rec k l) (remove_key vt al (an_left n) k s1)"
      by (rule Node.IH(1)) (use s1 b(1) n(4) t(1) in simp_all)
  qed (use delete_key_avl [OF t(1), of "compare_keys vt" k] t in auto)
  have down_right: "makes holds s E P (balance (an_key m) (an_value m) l (?rec k r))
      (do { s \<leftarrow> copy_entry vt m s; s \<leftarrow> ref_node (an_left n) s; (r, s) \<leftarrow> remove_key vt al (an_right n) k s;
            rebalance vt al (an_key m) (an_value m) (an_left n) r s })" if "\<exists>c. am_nodes s c = Some m" for m k
  proof (rule rebuild_right [OF own that n(4)])
    fix s1 assume s1: "extends (am_nodes s) (am_nodes s1)"
      "owns holds s1 (E + ptrs (an_left n)) (P + {#Inl (an_key m), Inr (an_value m)#} + {#})"
    have "borrowed (am_nodes s1) (E + ptrs (an_left n)) (an_right n)"
      by (rule borrowed_mono [OF borrowed_keeps [OF b(2) keeps_grow [OF s1(1)]]]) simp
    then show "makes holds s1 (E + ptrs (an_left n)) (P + {#Inl (an_key m), Inr (an_value m)#}) (?rec k r)
      (remove_key vt al (an_right n) k s1)"
      by (rule Node.IH(2) [OF _ _ tree_at_extends [OF s1(1) n(5)] t(2), rotated]) (use s1(2) in simp)
  qed (use delete_key_avl [OF t(2), of "compare_keys vt" k] t in auto)
  have share: "makes holds s E P u (do { s \<leftarrow> ref_node q s; Some (q, s) })" if q: "tree_at (am_nodes s) q u" for q u
  proof -
    obtain s' where "ref_node q s = Some s'" "owns holds s' (E + ptrs q) P" "extends (am_nodes s) (am_nodes s')"
      using ref_node_owns [OF Node.prems(1) q] by blast
    then show ?thesis using keeps_grow tree_at_extends q by (auto simp: makes_def)
  qed
  have leaf: "an_left n = None \<longleftrightarrow> l = Leaf" "an_right n = None \<longleftrightarrow> r = Leaf" using n(4,5) by (cases l; cases r; auto)+
  let ?cmp = "compare_keys vt (an_key n) key"
  consider (left) "?cmp = 0" "l = Leaf" | (right) "?cmp = 0" "l \<noteq> Leaf" "r = Leaf" | (both) "?cmp = 0" "l \<noteq> Leaf" "r \<noteq> Leaf"
    | (below) "?cmp > 0" | (above) "?cmp < 0" by linarith
  then show ?case
  proof cases
    case left
    then show ?thesis using share [OF n(5)] n(1-3) leaf by (subst remove_key.simps) simp
  next
    case right
    then show ?thesis using share [OF n(4)] n(1-3) leaf by (subst remove_key.simps) (auto simp del: not_None_eq)
  next
    case both
    obtain ln rn where lr: "load (an_left n) s = Some ln" "an_height ln = ht l" "load (an_right n) s = Some rn" "an_height rn = ht r"
      using n(4,5) both(2,3) by (cases l; cases r) (auto simp: load_def)
    obtain c m where h: "in_order_head (an_right n) s = Some (Some c)" "am_nodes s c = Some m" "head_of r = (an_key m, an_value m)"
      using in_order_head_tree [OF n(5) both(3)] by blast
    obtain d m' where tl: "in_order_tail (an_left n) s = Some (Some d)" "am_nodes s d = Some m'" "tail_of l = (an_key m', an_value m')"
      using in_order_tail_tree [OF n(4) both(2)] by blast
    show ?thesis
    proof (cases "ht l < ht r")
      case True
      have "\<exists>c. am_nodes s c = Some m" using h(2) by blast
      note r = down_right [OF this, of "an_key m"]
      have "remove_key vt al p key s = do { s \<leftarrow> copy_entry vt m s; s \<leftarrow> ref_node (an_left n) s;
          (r, s) \<leftarrow> remove_key vt al (an_right n) (an_key m) s; rebalance vt al (an_key m) (an_value m) (an_left n) r s }"
        using n(1,2) both leaf lr h True by (subst remove_key.simps) (simp add: load_def del: not_None_eq)
      moreover have "?rec key (Node l x r) = balance (an_key m) (an_value m) l (?rec (an_key m) r)"
        using n(3) both h(3) True by simp
      ultimately show ?thesis using r by (simp only:)
    next
      case False
      have "\<exists>c. am_nodes s c = Some m'" using tl(2) by blast
      note r = down_left [OF this, of "an_key m'"]
      have "remove_key vt al p key s = do { s \<leftarrow> copy_entry vt m' s; (l, s) \<leftarrow> remove_key vt al (an_left n) (an_key m') s;
          s \<leftarrow> ref_node (an_right n) s; rebalance vt al (an_key m') (an_value m') l (an_right n) s }"
        using n(1,2) both leaf lr tl False by (subst remove_key.simps) (simp add: load_def del: not_None_eq)
      moreover have "?rec key (Node l x r) = balance (an_key m') (an_value m') (?rec (an_key m') l) r"
        using n(3) both tl(3) False by simp
      ultimately show ?thesis using r by (simp only:)
    qed
  next
    case below
    have "\<exists>c. am_nodes s c = Some n" using n(2) by blast
    from down_left [OF this, of key] show ?thesis using n(1-3) below by (subst remove_key.simps) simp
  next
    case above
    have "\<exists>c. am_nodes s c = Some n" using n(2) by blast
    from down_right [OF this, of key] show ?thesis using n(1-3) above by (subst remove_key.simps) simp
  qed
qed

section \<open>The interface\<close>

text \<open>The assertions hold for the new tree, and the reference to the old one is given up.\<close>

lemma swap_root:
  assumes "makes holds s (E + ptrs p) P t res" "avl t"
  obtains q s' where "do { (root, s) \<leftarrow> res; _ \<leftarrow> assert_invariants root s; s \<leftarrow> unref_node vt p s; Some (a\<lparr>av_root := root\<rparr>, s) } =
      Some (a\<lparr>av_root := q\<rparr>, s')"
    "owns holds s' (E + ptrs q) P" "keeps E (am_nodes s) (am_nodes s')" "tree_at (am_nodes s') q t"
proof -
  obtain q s1 where q: "res = Some (q, s1)" "owns holds s1 (E + ptrs p + ptrs q) P"
    "keeps (E + ptrs p) (am_nodes s) (am_nodes s1)" "tree_at (am_nodes s1) q t"
    using makesE [OF assms(1)] by blast
  have "owns holds s1 ((E + ptrs q) + ptrs p) P" using q(2) by (simp add: ac_simps)
  from unref_node_owns [OF this] obtain s2 where s2: "unref_node vt p s1 = Some s2" "owns holds s2 (E + ptrs q) P"
    "keeps (E + ptrs q) (am_nodes s1) (am_nodes s2)" by blast
  have "keeps E (am_nodes s) (am_nodes s2)"
    by (rule keeps_trans [OF keeps_mono [OF q(3)] keeps_mono [OF s2(3)]]) simp_all
  moreover have "tree_at (am_nodes s2) q t" by (rule tree_at_keeps [OF s2(3) borrowed_outside q(4)]) simp
  ultimately show ?thesis using that q(1) s2(1,2) assert_invariants_tree [OF q(4) assms(2)] by simp
qed

lemma add_refines:
  assumes "av_vtable a = vt" "owns holds s (E + ptrs (av_root a)) (P + {#Inl key, Inr val#})"
    "avl_map (compare_keys vt) (am_nodes s) (av_root a) m"
  obtains q s' where "grpc_avl_add al a key val s = Some (a\<lparr>av_root := q\<rparr>, s')" "owns holds s' (E + ptrs q) P"
    "keeps E (am_nodes s) (am_nodes s')" "avl_map (compare_keys vt) (am_nodes s') q (m(key \<mapsto> val))"
proof -
  obtain t where t: "tree_at (am_nodes s) (av_root a) t" "avl t" "sorted_keys (entries t)" "map_of (entries t) = m"
    using assms(3) by (auto simp: avl_map_def sorted_keys_def)
  have mk: "makes holds s (E + ptrs (av_root a)) P (insert_key (compare_keys vt) key val t) (add_key vt al (av_root a) key val s)"
    by (rule add_key_makes [OF assms(2) borrowed_outside t(1,2)]) simp
  have av: "avl (insert_key (compare_keys vt) key val t)" using insert_key_avl [OF t(2)] by blast
  obtain q s' where q: "grpc_avl_add al a key val s = Some (a\<lparr>av_root := q\<rparr>, s')" "owns holds s' (E + ptrs q) P"
    "keeps E (am_nodes s) (am_nodes s')" "tree_at (am_nodes s') q (insert_key (compare_keys vt) key val t)"
    using swap_root [OF mk av, of a] unfolding grpc_avl_add_def Let_def assms(1) by blast
  have "avl_map (compare_keys vt) (am_nodes s') q (m(key \<mapsto> val))"
    using q(4) t(3,4) insert_key_avl [OF t(2), of "compare_keys vt" key val] entries_insert_key [OF t(3), of key val]
      sorted_put [OF t(3), of key val] map_of_put [of key val "entries t"]
    unfolding avl_map_def sorted_keys_def by metis
  then show ?thesis using that q(1-3) by blast
qed

lemma remove_refines:
  assumes "av_vtable a = vt" "owns holds s (E + ptrs (av_root a)) P"
    "avl_map (compare_keys vt) (am_nodes s) (av_root a) m"
  obtains q s' where "grpc_avl_remove al a key s = Some (a\<lparr>av_root := q\<rparr>, s')" "owns holds s' (E + ptrs q) P"
    "keeps E (am_nodes s) (am_nodes s')" "avl_map (compare_keys vt) (am_nodes s') q (m(key := None))"
proof -
  obtain t where t: "tree_at (am_nodes s) (av_root a) t" "avl t" "sorted_keys (entries t)" "map_of (entries t) = m"
    using assms(3) by (auto simp: avl_map_def sorted_keys_def)
  have mk: "makes holds s (E + ptrs (av_root a)) P (delete_key (compare_keys vt) key t) (remove_key vt al (av_root a) key s)"
    by (rule remove_key_makes [OF assms(2) borrowed_outside t(1,2)]) simp
  have av: "avl (delete_key (compare_keys vt) key t)" using delete_key_avl [OF t(2)] by blast
  obtain q s' where q: "grpc_avl_remove al a key s = Some (a\<lparr>av_root := q\<rparr>, s')" "owns holds s' (E + ptrs q) P"
    "keeps E (am_nodes s) (am_nodes s')" "tree_at (am_nodes s') q (delete_key (compare_keys vt) key t)"
    using swap_root [OF mk av, of a] unfolding grpc_avl_remove_def Let_def assms(1) by blast
  have "avl_map (compare_keys vt) (am_nodes s') q (m(key := None))"
    using q(4) t(3,4) delete_key_avl [OF t(2), of "compare_keys vt" key] entries_delete_key [OF t(3), of key]
      sorted_del [OF t(3), of key] map_of_del [of key "entries t"]
    unfolding avl_map_def sorted_keys_def by metis
  then show ?thesis using that q(1-3) by blast
qed

lemma get_refines:
  assumes "av_vtable a = vt" "avl_map (compare_keys vt) (am_nodes s) (av_root a) m"
  shows "grpc_avl_get a key s = Some (m key)"
    "grpc_avl_maybe_get a key value0 s = Some (case m key of None \<Rightarrow> (0, value0) | Some v \<Rightarrow> (1, v))"
proof -
  obtain t where t: "tree_at (am_nodes s) (av_root a) t" "sorted_keys (entries t)" "map_of (entries t) = m"
    using assms(2) by (auto simp: avl_map_def sorted_keys_def)
  obtain q where q: "get_node vt (av_root a) key s = Some q" "case q of None \<Rightarrow> find (compare_keys vt) key t = None
      | Some b \<Rightarrow> \<exists>n. am_nodes s b = Some n \<and> find (compare_keys vt) key t = Some (an_value n)"
    using get_node_tree [OF t(1), of vt key] by blast
  have f: "find (compare_keys vt) key t = m key" using find_entries [OF t(2)] t(3) by simp
  show "grpc_avl_get a key s = Some (m key)"
    using q assms(1) by (cases q) (auto simp: grpc_avl_get_def f)
  show "grpc_avl_maybe_get a key value0 s = Some (case m key of None \<Rightarrow> (0, value0) | Some v \<Rightarrow> (1, v))"
    using q assms(1) by (cases q) (auto simp: grpc_avl_maybe_get_def f)
qed

lemma unref_refines:
  assumes "av_vtable a = vt" "owns holds s (E + ptrs (av_root a)) P"
  obtains s' where "grpc_avl_unref a s = Some s'" "owns holds s' E P" "keeps E (am_nodes s) (am_nodes s')"
  using unref_node_owns [OF assms(2)] assms(1) unfolding grpc_avl_unref_def by blast

lemma ref_refines:
  assumes "owns holds s E P" "avl_map cmp (am_nodes s) (av_root a) m"
  obtains s' where "grpc_avl_ref a s = Some s'" "owns holds s' (E + ptrs (av_root a)) P" "keeps F (am_nodes s) (am_nodes s')"
  using ref_node_owns [OF assms(1)] assms(2) keeps_grow unfolding grpc_avl_ref_def avl_map_def by metis

end

end
