(* ===== verification/Retry_Throttle.thy ===== *)
theory Retry_Throttle
  imports Avl_Ops "HOL-Library.Signed_Division"
begin

text \<open>
  Retry throttling of gRPC (\<open>client_channel/retry_throttle.cc\<close>): for every server name a count
  of tokens that failures take and successes give back; retries are allowed while more than half of them
  are left. The data of the servers are counted objects in a map from names, one of the trees of \<open>Avl\<close>.

  The heap of the client: the strings that are allocated, by contents and with their number, and
  the data. Reading or freeing what is not allocated is \<open>None\<close>. An
  \<open>int\<close> and a \<open>gpr_atm\<close> are unbounded integers; one thread runs at a time. The scaling of the tokens of replaced data, computed in
  \<open>double\<close>, is the argument \<open>scale\<close>.
\<close>

section \<open>Definitions\<close>

record grpc_server_retry_throttle_data =
  rd_refs :: int
  max_milli_tokens :: int
  milli_token_ratio :: int
  milli_tokens :: int
  replacement :: ptr

type_synonym throttle_data = "nat \<rightharpoonup> grpc_server_retry_throttle_data"

record throttle_heap =
  th_names :: "string multiset"
  th_data :: throttle_data

definition set_data :: "nat \<Rightarrow> grpc_server_retry_throttle_data \<Rightarrow> throttle_heap \<Rightarrow> throttle_heap" where
  "set_data d n h = h\<lparr>th_data := (th_data h)(d \<mapsto> n)\<rparr>"

subsection \<open>Tokens\<close>

text \<open>\<open>gpr_atm_no_barrier_clamped_add\<close>: the value returned is also the value stored.\<close>

definition gpr_clamp :: "int \<Rightarrow> int \<Rightarrow> int \<Rightarrow> int" where
  "gpr_clamp a lo hi = (if a < lo then lo else if a > hi then hi else a)"

definition gpr_atm_no_barrier_clamped_add :: "int \<Rightarrow> int \<Rightarrow> int \<Rightarrow> int \<Rightarrow> int" where
  "gpr_atm_no_barrier_clamped_add current_value delta lo hi = gpr_clamp (current_value + delta) lo hi"

partial_function (option) get_replacement_throttle_data_if_needed :: "nat \<Rightarrow> throttle_heap \<Rightarrow> nat option" where
  "get_replacement_throttle_data_if_needed d h = do {
     n \<leftarrow> th_data h d;
     (case replacement n of None \<Rightarrow> Some d | Some d' \<Rightarrow> get_replacement_throttle_data_if_needed d' h)
   }"

definition grpc_server_retry_throttle_data_record_failure :: "nat \<Rightarrow> throttle_heap \<Rightarrow> (bool \<times> throttle_heap) option" where
  "grpc_server_retry_throttle_data_record_failure d h = do {
     d \<leftarrow> get_replacement_throttle_data_if_needed d h;
     n \<leftarrow> th_data h d;
     let new_value = gpr_atm_no_barrier_clamped_add (milli_tokens n) (- 1000) 0 (max_milli_tokens n);
     Some (new_value > max_milli_tokens n sdiv 2, set_data d (n\<lparr>milli_tokens := new_value\<rparr>) h)
   }"

definition grpc_server_retry_throttle_data_record_success :: "nat \<Rightarrow> throttle_heap \<Rightarrow> throttle_heap option" where
  "grpc_server_retry_throttle_data_record_success d h = do {
     d \<leftarrow> get_replacement_throttle_data_if_needed d h;
     n \<leftarrow> th_data h d;
     Some (set_data d (n\<lparr>milli_tokens :=
       gpr_atm_no_barrier_clamped_add (milli_tokens n) (milli_token_ratio n) 0 (max_milli_tokens n)\<rparr>) h)
   }"

subsection \<open>Counting references\<close>

definition grpc_server_retry_throttle_data_ref :: "nat \<Rightarrow> throttle_heap \<Rightarrow> throttle_heap option" where
  "grpc_server_retry_throttle_data_ref d h =
     map_option (\<lambda>n. set_data d (n\<lparr>rd_refs := rd_refs n + 1\<rparr>) h) (th_data h d)"

partial_function (option) grpc_server_retry_throttle_data_unref :: "nat \<Rightarrow> throttle_heap \<Rightarrow> throttle_heap option" where
  "grpc_server_retry_throttle_data_unref d h = do {
     n \<leftarrow> th_data h d;
     if rd_refs n \<le> 0 then None
     else do {
       let h = set_data d (n\<lparr>rd_refs := rd_refs n - 1\<rparr>) h;
       if rd_refs n = 1 then do {
         h \<leftarrow> (case replacement n of None \<Rightarrow> Some h | Some r \<Rightarrow> grpc_server_retry_throttle_data_unref r h);
         Some (h\<lparr>th_data := (th_data h)(d := None)\<rparr>)
       } else Some h
     }
   }"

text \<open>\<open>dal\<close> chooses the address of new data; \<open>scale t old new\<close> is \<open>(int) (t / (double) old * new)\<close>.\<close>

definition grpc_server_retry_throttle_data_create ::
    "(int \<Rightarrow> int \<Rightarrow> int \<Rightarrow> int) \<Rightarrow> (throttle_data \<Rightarrow> nat) \<Rightarrow> int \<Rightarrow> int \<Rightarrow> ptr \<Rightarrow> throttle_heap \<Rightarrow> (nat \<times> throttle_heap) option" where
  "grpc_server_retry_throttle_data_create scale dal max_mt ratio old h = do {
     let d = dal (th_data h);
     initial \<leftarrow> (case old of
         None \<Rightarrow> Some max_mt
       | Some d' \<Rightarrow> map_option (\<lambda>m. scale (milli_tokens m) (max_milli_tokens m) max_mt) (th_data h d'));
     let n = \<lparr>rd_refs = 1, max_milli_tokens = max_mt, milli_token_ratio = ratio, milli_tokens = initial, replacement = None\<rparr>;
     let h = set_data d n h;
     (case old of
        None \<Rightarrow> Some (d, h)
      | Some d' \<Rightarrow> do {
          h \<leftarrow> grpc_server_retry_throttle_data_ref d h;
          m \<leftarrow> th_data h d';
          Some (d, set_data d' (m\<lparr>replacement := Some d\<rparr>) h)
        })
   }"

subsection \<open>The table of functions\<close>

definition copy_server_name :: "string \<Rightarrow> throttle_heap \<Rightarrow> throttle_heap option" where
  "copy_server_name key h = (if key \<in># th_names h then Some (h\<lparr>th_names := add_mset key (th_names h)\<rparr>) else None)"

text \<open>The bytes are compared as unsigned characters; the shorter of two strings that agree is the smaller one.\<close>

fun strcmp :: "string \<Rightarrow> string \<Rightarrow> int" where
  "strcmp [] [] = 0"
| "strcmp [] (y # ys) = -1"
| "strcmp (x # xs) [] = 1"
| "strcmp (x # xs) (y # ys) = (if x = y then strcmp xs ys else of_char x - of_char y)"

definition compare_server_name :: "string \<Rightarrow> string \<Rightarrow> int" where
  "compare_server_name key1 key2 = strcmp key1 key2"

definition destroy_server_retry_throttle_data :: "nat \<Rightarrow> throttle_heap \<Rightarrow> throttle_heap option" where
  "destroy_server_retry_throttle_data d h = grpc_server_retry_throttle_data_unref d h"

definition copy_server_retry_throttle_data :: "nat \<Rightarrow> throttle_heap \<Rightarrow> throttle_heap option" where
  "copy_server_retry_throttle_data d h = grpc_server_retry_throttle_data_ref d h"

definition destroy_server_name :: "string \<Rightarrow> throttle_heap \<Rightarrow> throttle_heap option" where
  "destroy_server_name key h = (if key \<in># th_names h then Some (h\<lparr>th_names := th_names h - {#key#}\<rparr>) else None)"

definition avl_vtable :: "(string, nat, throttle_heap) grpc_avl_vtable" where
  "avl_vtable = \<lparr>destroy_key = destroy_server_name, copy_key = copy_server_name, compare_keys = compare_server_name,
     destroy_value = destroy_server_retry_throttle_data, copy_value = copy_server_retry_throttle_data\<rparr>"

subsection \<open>The map\<close>

text \<open>The global \<open>g_avl\<close> is an argument.\<close>

type_synonym throttle_mem = "(string, nat, throttle_heap) avl_mem"
type_synonym throttle_map = "(string, nat, throttle_heap) grpc_avl"

definition grpc_retry_throttle_map_init :: throttle_map where
  "grpc_retry_throttle_map_init = grpc_avl_create avl_vtable"

definition grpc_retry_throttle_map_shutdown :: "throttle_map \<Rightarrow> throttle_mem \<Rightarrow> throttle_mem option" where
  "grpc_retry_throttle_map_shutdown g_avl s = grpc_avl_unref g_avl s"

definition grpc_retry_throttle_map_get_data_for_server ::
    "(int \<Rightarrow> int \<Rightarrow> int \<Rightarrow> int) \<Rightarrow> (throttle_data \<Rightarrow> nat) \<Rightarrow> (string, nat) gpr_malloc \<Rightarrow> string \<Rightarrow> int \<Rightarrow> int \<Rightarrow>
     throttle_map \<Rightarrow> throttle_mem \<Rightarrow> (nat \<times> throttle_map \<times> throttle_mem) option" where
  "grpc_retry_throttle_map_get_data_for_server scale dal al server_name max_mt ratio g_avl s = do {
     found \<leftarrow> grpc_avl_get g_avl server_name s;
     (case found of
        None \<Rightarrow> do {
          (d, h) \<leftarrow> grpc_server_retry_throttle_data_create scale dal max_mt ratio None (am_user s);
          (g_avl, s) \<leftarrow> grpc_avl_add al g_avl server_name d (s\<lparr>am_user := h\<rparr>);
          Some (d, g_avl, s)
        }
      | Some d \<Rightarrow> do {
          n \<leftarrow> th_data (am_user s) d;
          if max_milli_tokens n \<noteq> max_mt \<or> milli_token_ratio n \<noteq> ratio then do {
            (d, h) \<leftarrow> grpc_server_retry_throttle_data_create scale dal max_mt ratio (Some d) (am_user s);
            (g_avl, s) \<leftarrow> grpc_avl_add al g_avl server_name d (s\<lparr>am_user := h\<rparr>);
            Some (d, g_avl, s)
          } else do {
            h \<leftarrow> grpc_server_retry_throttle_data_ref d (am_user s);
            Some (d, g_avl, s\<lparr>am_user := h\<rparr>)
          }
        })
   }"

section \<open>The order of the names\<close>

lemma strcmp_eq: "strcmp a b = 0 \<longleftrightarrow> a = b"
  by (induction a b rule: strcmp.induct) (auto simp: of_char_eq_iff)

lemma strcmp_swap: "strcmp a b = - strcmp b a"
  by (induction a b rule: strcmp.induct) auto

lemma strcmp_less: "strcmp a b > 0 \<longleftrightarrow> strcmp b a < 0"
  using strcmp_swap [of a b] by simp

lemma strcmp_trans: "strcmp a b < 0 \<Longrightarrow> strcmp b c < 0 \<Longrightarrow> strcmp a c < 0"
proof (induction a b arbitrary: c rule: strcmp.induct)
  case (4 x xs y ys)
  then show ?case by (cases c) (auto split: if_splits)
qed (case_tac [!] c, auto)

interpretation server_names: key_order compare_server_name
  by unfold_locales (auto simp: compare_server_name_def strcmp_eq strcmp_less intro: strcmp_trans)

section \<open>The data are counted\<close>

text \<open>The data and their replacements are counted as the nodes of trees are: a link on the left, none on the right.\<close>

definition chain_node :: "grpc_server_retry_throttle_data \<Rightarrow> (unit, unit) grpc_avl_node" where
  "chain_node n = \<lparr>an_refs = rd_refs n, an_key = (), an_value = (), an_left = replacement n, an_right = None, an_height = 0\<rparr>"

definition chain :: "throttle_data \<Rightarrow> (unit, unit) avl_nodes" where
  "chain ds d = map_option chain_node (ds d)"

lemma chain_upd [simp]: "chain (ds(d \<mapsto> n)) = (chain ds)(d \<mapsto> chain_node n)" "chain (ds(d := None)) = (chain ds)(d := None)"
  by (auto simp: chain_def)

lemma chain_Some: "chain ds d = Some m \<longleftrightarrow> (\<exists>n. ds d = Some n \<and> m = chain_node n)"
  by (auto simp: chain_def)

lemma dom_chain [simp]: "dom (chain ds) = dom ds"
  by (auto simp: chain_def)

lemma chain_node_refs [simp]: "chain_node (n\<lparr>rd_refs := c\<rparr>) = (chain_node n)\<lparr>an_refs := c\<rparr>"
  "chain_node (n\<lparr>milli_tokens := t\<rparr>) = chain_node n"
  by (simp_all add: chain_node_def)

definition tokens_ok :: "throttle_data \<Rightarrow> bool" where
  "tokens_ok ds \<longleftrightarrow> (\<forall>n\<in>ran ds. 0 \<le> milli_tokens n \<and> milli_tokens n \<le> max_milli_tokens n)"

lemma tokens_ok_upd: "tokens_ok ds \<Longrightarrow> 0 \<le> milli_tokens n \<Longrightarrow> milli_tokens n \<le> max_milli_tokens n \<Longrightarrow> tokens_ok (ds(d \<mapsto> n))"
  by (auto simp: tokens_ok_def ran_def)

lemma tokens_okD: "tokens_ok ds \<Longrightarrow> ds d = Some n \<Longrightarrow> 0 \<le> milli_tokens n \<and> milli_tokens n \<le> max_milli_tokens n"
  by (auto simp: tokens_ok_def ran_def)

lemma tokens_ok_free: "tokens_ok ds \<Longrightarrow> tokens_ok (ds(d := None))"
  by (auto simp: tokens_ok_def ran_def)

lemma data_unref_memory:
  assumes "tree_at (chain ds) (Some d) t" "counted (chain ds) (add_mset d V)" "tokens_ok ds"
    "th_data h = ds ++ D" "dom ds \<inter> dom D = {}"
  shows "\<exists>h' ds'. grpc_server_retry_throttle_data_unref d h = Some h' \<and> th_names h' = th_names h \<and> th_data h' = ds' ++ D \<and>
    dom ds' \<subseteq> dom ds \<and> counted (chain ds') V \<and> tokens_ok ds'"
  using assms
proof (induction t arbitrary: ds d V h D)
  case (Node l x r)
  from Node.prems(1) obtain n where n: "ds d = Some n" "tree_at (chain ds) (replacement n) l"
    by (auto simp: chain_Some chain_node_def)
  note c = Node.prems(2)
  have cn: "chain ds d = Some (chain_node n)" using n(1) by (simp add: chain_def)
  have dD: "D d = None" using Node.prems(5) n(1) by auto
  then have hd: "th_data h d = Some n" using Node.prems(4) n(1) by (simp add: map_add_def)
  have pos: "0 < rd_refs n" using countedD(3) [OF c cn] by (simp add: chain_node_def)
  let ?h1 = "set_data d (n\<lparr>rd_refs := rd_refs n - 1\<rparr>) h"
  show ?case
  proof (cases "rd_refs n = 1")
    case False
    let ?ds = "ds(d \<mapsto> n\<lparr>rd_refs := rd_refs n - 1\<rparr>)"
    have "grpc_server_retry_throttle_data_unref d h = Some ?h1"
      using hd pos False by (simp add: grpc_server_retry_throttle_data_unref.simps)
    moreover have "th_data ?h1 = ?ds ++ D"
      using Node.prems(4) dD by (auto simp: set_data_def map_add_def fun_eq_iff split: option.splits)
    moreover have "counted (chain ?ds) V" using counted_unref [OF c cn] False by (simp add: chain_node_def)
    moreover have "tokens_ok ?ds" using tokens_ok_upd tokens_okD Node.prems(3) n(1) by simp
    moreover have "dom ?ds \<subseteq> dom ds" "th_names ?h1 = th_names h" using n(1) by (auto simp: set_data_def)
    ultimately show ?thesis by blast
  next
    case True
    let ?ds = "ds(d := None)" and ?D = "D(d \<mapsto> n\<lparr>rd_refs := 0\<rparr>)"
    have free: "counted (chain ?ds) (V + ptrs (replacement n))" "d \<notin># links (chain ds)"
      using counted_free [OF c cn] True by (simp_all add: chain_node_def links_of_def)
    have mem: "th_data ?h1 = ?ds ++ ?D"
      using Node.prems(4) True by (auto simp: set_data_def map_add_def fun_eq_iff split: option.splits)
    have dis: "dom ?ds \<inter> dom ?D = {}" using Node.prems(5) by auto
    obtain h2 ds2 where h2: "(case replacement n of None \<Rightarrow> Some ?h1 | Some r \<Rightarrow> grpc_server_retry_throttle_data_unref r ?h1) = Some h2"
      "th_names h2 = th_names h" "th_data h2 = ds2 ++ ?D" "dom ds2 \<subseteq> dom ?ds" "counted (chain ds2) V" "tokens_ok ds2"
    proof (cases "replacement n")
      case None
      then show ?thesis using that [of ?h1 ?ds] mem free(1) tokens_ok_free [OF Node.prems(3)] by (simp add: set_data_def)
    next
      case (Some e)
      have "e \<noteq> d" using in_links [OF countedD(1) [OF c] cn, of e] free(2) Some by (auto simp: links_of_def chain_node_def)
      then have "tree_at (chain ?ds) (Some e) l"
        using tree_at_drop [OF countedD(1) [OF c] free(2), of "Some e"] n(2) Some by simp
      moreover have "counted (chain ?ds) (add_mset e V)" using free(1) Some by simp
      ultimately obtain h2 ds2 where "grpc_server_retry_throttle_data_unref e ?h1 = Some h2"
        "th_names h2 = th_names ?h1" "th_data h2 = ds2 ++ ?D" "dom ds2 \<subseteq> dom ?ds" "counted (chain ds2) V" "tokens_ok ds2"
        using Node.IH(1) [of ?ds e V ?h1 ?D] tokens_ok_free [OF Node.prems(3)] mem dis by blast
      then show ?thesis using that Some by (simp add: set_data_def)
    qed
    let ?h3 = "h2\<lparr>th_data := (th_data h2)(d := None)\<rparr>"
    have "grpc_server_retry_throttle_data_unref d h = Some ?h3"
      using hd True h2(1) by (subst grpc_server_retry_throttle_data_unref.simps) (simp add: Let_def cong: option.case_cong)
    moreover have "ds2 d = None" using h2(4) by auto
    then have "th_data ?h3 = ds2 ++ D" using h2(3) dD by (auto simp: map_add_def fun_eq_iff split: option.splits)
    moreover have "dom ds2 \<subseteq> dom ds" using h2(4) by auto
    ultimately show ?thesis using h2(2,5,6) by (intro exI [of _ ?h3] exI [of _ ds2]) simp
  qed
qed simp

section \<open>The table keeps its promises\<close>

definition names_of :: "(string + nat) multiset \<Rightarrow> string multiset" where
  "names_of P = image_mset projl (filter_mset isl P)"

definition data_of :: "(string + nat) multiset \<Rightarrow> nat multiset" where
  "data_of P = image_mset projr (filter_mset (\<lambda>x. \<not> isl x) P)"

lemma names_data_of [simp]:
  "names_of {#} = {#}" "names_of (add_mset (Inl k) P) = add_mset k (names_of P)" "names_of (add_mset (Inr v) P) = names_of P"
  "data_of {#} = {#}" "data_of (add_mset (Inl k) P) = data_of P" "data_of (add_mset (Inr v) P) = add_mset v (data_of P)"
  "names_of (P + Q) = names_of P + names_of Q" "data_of (P + Q) = data_of P + data_of Q"
  by (simp_all add: names_of_def data_of_def)

definition throttle_holds :: "throttle_heap \<Rightarrow> (string + nat) multiset \<Rightarrow> bool" where
  "throttle_holds h P \<longleftrightarrow> th_names h = names_of P \<and> counted (chain (th_data h)) (data_of P) \<and> tokens_ok (th_data h)"

lemma throttle_unref:
  assumes "throttle_holds h (add_mset (Inr d) P)"
  obtains h' where "grpc_server_retry_throttle_data_unref d h = Some h'" "throttle_holds h' P"
proof -
  have c: "counted (chain (th_data h)) (add_mset d (data_of P))" using assms by (simp add: throttle_holds_def)
  then obtain n where "chain (th_data h) d = Some n" using countedD(4) by fastforce
  then obtain t where "tree_at (chain (th_data h)) (Some d) t" using countedD(6) [OF c] by blast
  from data_unref_memory [OF this c, of h Map.empty] assms show ?thesis
    using that by (auto simp: throttle_holds_def)
qed

lemma throttle_ref:
  assumes "throttle_holds h P" "th_data h d = Some n"
  shows "grpc_server_retry_throttle_data_ref d h = Some (set_data d (n\<lparr>rd_refs := rd_refs n + 1\<rparr>) h)"
    "throttle_holds (set_data d (n\<lparr>rd_refs := rd_refs n + 1\<rparr>) h) (add_mset (Inr d) P)"
proof -
  show "grpc_server_retry_throttle_data_ref d h = Some (set_data d (n\<lparr>rd_refs := rd_refs n + 1\<rparr>) h)"
    using assms(2) by (simp add: grpc_server_retry_throttle_data_ref_def)
  have "counted ((chain (th_data h))(d \<mapsto> (chain_node n)\<lparr>an_refs := an_refs (chain_node n) + 1\<rparr>)) (add_mset d (data_of P))"
    by (rule counted_ref) (use assms in \<open>simp_all add: throttle_holds_def chain_def\<close>)
  then show "throttle_holds (set_data d (n\<lparr>rd_refs := rd_refs n + 1\<rparr>) h) (add_mset (Inr d) P)"
    using assms tokens_ok_upd [of "th_data h" "n\<lparr>rd_refs := rd_refs n + 1\<rparr>" d] tokens_okD [of "th_data h" d n, OF _ assms(2)]
    by (simp add: throttle_holds_def set_data_def chain_node_def)
qed

lemma throttle_client:
  assumes "\<And>ns. finite (dom ns) \<Longrightarrow> ns (al ns) = None"
  shows "avl_client avl_vtable al throttle_holds"
proof
  fix u k P assume h: "throttle_holds u (add_mset (Inl k) P)"
  then show "\<exists>u'. copy_key avl_vtable k u = Some u' \<and> throttle_holds u' (add_mset (Inl k) (add_mset (Inl k) P))"
    by (simp add: avl_vtable_def copy_server_name_def throttle_holds_def)
  show "\<exists>u'. destroy_key avl_vtable k u = Some u' \<and> throttle_holds u' P"
    using h by (simp add: avl_vtable_def destroy_server_name_def throttle_holds_def)
next
  fix u v P assume h: "throttle_holds u (add_mset (Inr v) P)"
  then have "counted (chain (th_data u)) (add_mset v (data_of P))" by (simp add: throttle_holds_def)
  then obtain n where "th_data u v = Some n" using countedD(4) [of _ _ v] by (force simp: chain_def)
  from throttle_ref [OF h this]
  show "\<exists>u'. copy_value avl_vtable v u = Some u' \<and> throttle_holds u' (add_mset (Inr v) (add_mset (Inr v) P))"
    by (simp add: avl_vtable_def copy_server_retry_throttle_data_def)
  show "\<exists>u'. destroy_value avl_vtable v u = Some u' \<and> throttle_holds u' P"
    using throttle_unref [OF h] by (metis avl_vtable_def destroy_server_retry_throttle_data_def grpc_avl_vtable.select_convs(4))
qed (use assms server_names.cmp_trans in \<open>auto simp: avl_vtable_def server_names.cmp_eq server_names.cmp_swap\<close>)

text \<open>An allocator that the table works with.\<close>

definition next_address :: "(nat \<rightharpoonup> 'a) \<Rightarrow> nat" where
  "next_address ns = Suc (Max (insert 0 (dom ns)))"

lemma next_address_free: "finite (dom ns) \<Longrightarrow> ns (next_address ns) = None"
  unfolding next_address_def by (metis Max_ge domIff finite_insert insertCI lessI not_less)

interpretation throttle: avl_client avl_vtable next_address throttle_holds
  by (rule throttle_client) (rule next_address_free)

section \<open>Tokens\<close>

text \<open>The data in force are found, and their tokens stay in range.\<close>

lemma replacement_found:
  assumes "tree_at (chain ds) (Some d) t" "counted (chain ds) V"
  shows "\<exists>d' n. (\<forall>h. th_data h = ds \<longrightarrow> get_replacement_throttle_data_if_needed d h = Some d') \<and> ds d' = Some n \<and> replacement n = None"
  using assms(1)
proof (induction t arbitrary: d)
  case (Node l x r)
  then obtain n where n: "ds d = Some n" "tree_at (chain ds) (replacement n) l"
    by (auto simp: chain_Some chain_node_def)
  show ?case
  proof (cases "replacement n")
    case None
    then show ?thesis using n(1) by (subst get_replacement_throttle_data_if_needed.simps) auto
  next
    case (Some e)
    then show ?thesis using n Node.IH(1) [of e] by (subst get_replacement_throttle_data_if_needed.simps) auto
  qed
qed simp

lemma throttle_store_tokens:
  assumes "throttle_holds h P" "th_data h d = Some n" "0 \<le> t" "t \<le> max_milli_tokens n"
  shows "throttle_holds (set_data d (n\<lparr>milli_tokens := t\<rparr>) h) P"
proof -
  have "(chain (th_data h))(d \<mapsto> chain_node n) = chain (th_data h)" using assms(2) by (auto simp: chain_def)
  then show ?thesis using assms tokens_ok_upd [of "th_data h" "n\<lparr>milli_tokens := t\<rparr>" d] by (simp add: throttle_holds_def set_data_def)
qed

lemma clamped_add_range: "0 \<le> m \<Longrightarrow> 0 \<le> gpr_atm_no_barrier_clamped_add c k 0 m \<and> gpr_atm_no_barrier_clamped_add c k 0 m \<le> m"
  by (simp add: gpr_atm_no_barrier_clamped_add_def gpr_clamp_def)

lemma record_keeps:
  assumes "throttle_holds h P" "Inr d \<in># P"
  shows "\<exists>allowed h'. grpc_server_retry_throttle_data_record_failure d h = Some (allowed, h') \<and> throttle_holds h' P"
    "\<exists>h'. grpc_server_retry_throttle_data_record_success d h = Some h' \<and> throttle_holds h' P"
proof -
  have c: "counted (chain (th_data h)) (data_of P)" using assms(1) by (simp add: throttle_holds_def)
  have "d \<in># data_of P" using assms(2) by (force simp: data_of_def)
  then obtain t where "tree_at (chain (th_data h)) (Some d) t" using countedD(4,6) [OF c] by blast
  from replacement_found [OF this c] obtain d' n where n: "get_replacement_throttle_data_if_needed d h = Some d'" "th_data h d' = Some n"
    by blast
  then have r: "0 \<le> milli_tokens n" "milli_tokens n \<le> max_milli_tokens n"
    using tokens_okD [of "th_data h" d' n] assms(1) by (simp_all add: throttle_holds_def)
  then have m: "0 \<le> max_milli_tokens n" by simp
  note store = throttle_store_tokens [OF assms(1) n(2)]
  show "\<exists>allowed h'. grpc_server_retry_throttle_data_record_failure d h = Some (allowed, h') \<and> throttle_holds h' P"
    using n store clamped_add_range [OF m] by (simp add: grpc_server_retry_throttle_data_record_failure_def Let_def)
  show "\<exists>h'. grpc_server_retry_throttle_data_record_success d h = Some h' \<and> throttle_holds h' P"
    using n store clamped_add_range [OF m] by (simp add: grpc_server_retry_throttle_data_record_success_def)
qed

section \<open>Properties\<close>

text \<open>C38. The trees of the throttle map refine finite maps: with a free address for every new node,
  \<open>grpc_avl_add\<close>, \<open>grpc_avl_remove\<close> and \<open>grpc_avl_get\<close> update and look up the map of a tree that is
  owned; no assertion about heights fails and no freed node, name or data is used; every other tree that is owned keeps its map; the
  new tree takes the place of the old one among what is owned, the added name and data are owned by it.\<close>

theorem throttle_map_refines:
  assumes al: "\<forall>ns. finite (dom ns) \<longrightarrow> ns (al ns) = None" and g: "av_vtable g = avl_vtable"
    and own: "owns throttle_holds s (E + ptrs (av_root g)) (P + {#Inl name, Inr d#})"
    and m: "avl_map compare_server_name (am_nodes s) (av_root g) m"
  shows "(\<exists>q s'. grpc_avl_add al g name d s = Some (g\<lparr>av_root := q\<rparr>, s') \<and>
      owns throttle_holds s' (E + ptrs q) P \<and> avl_map compare_server_name (am_nodes s') q (m(name \<mapsto> d)) \<and>
      (\<forall>p m'. set_mset (ptrs p) \<subseteq> set_mset E \<and> avl_map compare_server_name (am_nodes s) p m' \<longrightarrow>
        avl_map compare_server_name (am_nodes s') p m')) \<and>
    (\<exists>q s'. grpc_avl_remove al g key s = Some (g\<lparr>av_root := q\<rparr>, s') \<and>
      owns throttle_holds s' (E + ptrs q) (P + {#Inl name, Inr d#}) \<and> avl_map compare_server_name (am_nodes s') q (m(key := None)) \<and>
      (\<forall>p m'. set_mset (ptrs p) \<subseteq> set_mset E \<and> avl_map compare_server_name (am_nodes s) p m' \<longrightarrow>
        avl_map compare_server_name (am_nodes s') p m')) \<and>
    grpc_avl_get g key s = Some (m key)"
proof -
  have vt: "compare_keys avl_vtable = compare_server_name" by (simp add: avl_vtable_def)
  have c: "avl_client avl_vtable al throttle_holds" by (rule throttle_client) (use al in blast)
  note m' = m [folded vt]
  show ?thesis
  proof (intro conjI)
    show "grpc_avl_get g key s = Some (m key)" by (rule avl_client.get_refines(1) [OF c g m'])
    obtain q s' where "grpc_avl_add al g name d s = Some (g\<lparr>av_root := q\<rparr>, s')" "owns throttle_holds s' (E + ptrs q) P"
      "keeps E (am_nodes s) (am_nodes s')" "avl_map compare_server_name (am_nodes s') q (m(name \<mapsto> d))"
      using avl_client.add_refines [OF c g own m'] unfolding vt by blast
    then show "\<exists>q s'. grpc_avl_add al g name d s = Some (g\<lparr>av_root := q\<rparr>, s') \<and>
      owns throttle_holds s' (E + ptrs q) P \<and> avl_map compare_server_name (am_nodes s') q (m(name \<mapsto> d)) \<and>
      (\<forall>p m'. set_mset (ptrs p) \<subseteq> set_mset E \<and> avl_map compare_server_name (am_nodes s) p m' \<longrightarrow>
        avl_map compare_server_name (am_nodes s') p m')" using avl_map_keeps by blast
    obtain q s' where "grpc_avl_remove al g key s = Some (g\<lparr>av_root := q\<rparr>, s')"
      "owns throttle_holds s' (E + ptrs q) (P + {#Inl name, Inr d#})"
      "keeps E (am_nodes s) (am_nodes s')" "avl_map compare_server_name (am_nodes s') q (m(key := None))"
      using avl_client.remove_refines [OF c g own m', of key] unfolding vt by blast
    then show "\<exists>q s'. grpc_avl_remove al g key s = Some (g\<lparr>av_root := q\<rparr>, s') \<and>
      owns throttle_holds s' (E + ptrs q) (P + {#Inl name, Inr d#}) \<and> avl_map compare_server_name (am_nodes s') q (m(key := None)) \<and>
      (\<forall>p m'. set_mset (ptrs p) \<subseteq> set_mset E \<and> avl_map compare_server_name (am_nodes s) p m' \<longrightarrow>
        avl_map compare_server_name (am_nodes s') p m')" using avl_map_keeps by blast
  qed
qed

text \<open>C39. Giving up the last reference to the map, as \<open>grpc_retry_throttle_map_shutdown\<close> does, returns and
  frees every node, every name and all data that only the map owned: what is left is what is owned outside, which is nothing if
  nothing is.\<close>

theorem throttle_map_shutdown_frees:
  assumes "av_vtable g = avl_vtable" and "owns throttle_holds s (ptrs (av_root g)) P"
  shows "\<exists>s'. grpc_retry_throttle_map_shutdown g s = Some s' \<and> am_nodes s' = Map.empty \<and> throttle_holds (am_user s') P \<and>
    (P = {#} \<longrightarrow> th_names (am_user s') = {#} \<and> th_data (am_user s') = Map.empty)"
proof -
  obtain s' where s': "grpc_avl_unref g s = Some s'" "owns throttle_holds s' {#} P"
    using throttle.unref_refines [OF assms(1), of s "{#}" P] assms(2) by auto
  then have e: "am_nodes s' = Map.empty" by (auto simp: owns_def intro: counted_empty)
  then have h: "throttle_holds (am_user s') P" using s'(2) by (simp add: owns_def)
  have "th_data (am_user s') = Map.empty" if "P = {#}"
  proof -
    have "chain (th_data (am_user s')) = Map.empty" using h that by (intro counted_empty) (simp add: throttle_holds_def)
    then have "dom (th_data (am_user s')) = {}" using dom_chain [of "th_data (am_user s')"] by simp
    then show ?thesis by simp
  qed
  then show ?thesis using s'(1) e h by (auto simp: grpc_retry_throttle_map_shutdown_def throttle_holds_def)
qed

text \<open>C40. The first call of \<open>grpc_retry_throttle_map_get_data_for_server\<close> gives the one reference to the new
  data and the name of the caller to the map, and returns the data as if the caller had a reference too. If the caller
  gives it up, as the interface asks, the data are freed while the map refers to them, and the next call for
  the name uses freed memory. If the caller frees the name, shutting the map down frees it again.\<close>

theorem get_data_shares_one_reference:
  "\<exists>d g s h s2. grpc_retry_throttle_map_get_data_for_server scale dal al name max_mt ratio grpc_retry_throttle_map_init
        \<lparr>am_nodes = Map.empty, am_user = \<lparr>th_names = {#name#}, th_data = ds\<rparr>\<rparr> = Some (d, g, s) \<and>
     grpc_avl_get g name s = Some (Some d) \<and> map_option rd_refs (th_data (am_user s) d) = Some 1 \<and>
     grpc_server_retry_throttle_data_unref d (am_user s) = Some h \<and> th_data h d = None \<and>
     grpc_retry_throttle_map_get_data_for_server scale dal al name max_mt ratio g (s\<lparr>am_user := h\<rparr>) = None \<and>
     on_user (destroy_server_name name) s = Some s2 \<and> grpc_retry_throttle_map_shutdown g s2 = None"
proof -
  let ?a = "al Map.empty" and ?d = "dal ds"
  let ?n = "\<lparr>rd_refs = 1, max_milli_tokens = max_mt, milli_token_ratio = ratio, milli_tokens = max_mt, replacement = None\<rparr>"
  let ?node = "\<lparr>an_refs = 1, an_key = name, an_value = ?d, an_left = None, an_right = None, an_height = 1\<rparr>"
  let ?g = "\<lparr>av_vtable = avl_vtable, av_root = Some ?a\<rparr>"
  let ?s = "\<lparr>am_nodes = [?a \<mapsto> ?node], am_user = \<lparr>th_names = {#name#}, th_data = ds(?d \<mapsto> ?n)\<rparr>\<rparr>"
  let ?h = "\<lparr>th_names = {#name#}, th_data = ds(?d := None)\<rparr>"
  let ?s2 = "\<lparr>am_nodes = [?a \<mapsto> ?node], am_user = \<lparr>th_names = {#}, th_data = ds(?d \<mapsto> ?n)\<rparr>\<rparr>"
  have t: "tree_at (am_nodes ?s) (Some ?a) (Node Leaf (name, ?d, 1) Leaf)" by simp
  have "assert_invariants None x = Some ()" for x :: throttle_mem by (simp add: assert_invariants.simps)
  moreover have "assert_invariants (Some ?a) ?s = Some ()" by (rule assert_invariants_tree [OF t]) simp
  ultimately have 1: "grpc_retry_throttle_map_get_data_for_server scale dal al name max_mt ratio grpc_retry_throttle_map_init
      \<lparr>am_nodes = Map.empty, am_user = \<lparr>th_names = {#name#}, th_data = ds\<rparr>\<rparr> = Some (?d, ?g, ?s)"
    by (simp add: grpc_retry_throttle_map_get_data_for_server_def grpc_retry_throttle_map_init_def grpc_avl_create_def grpc_avl_get_def
      get_node.simps grpc_server_retry_throttle_data_create_def set_data_def grpc_avl_add_def add_key.simps unref_node.simps
      new_node_def node_height_def Let_def)
  have get: "grpc_avl_get ?g name (?s\<lparr>am_user := u\<rparr>) = Some (Some ?d)" for u
    by (simp add: grpc_avl_get_def get_node.simps avl_vtable_def compare_server_name_def strcmp_eq)
  have 2: "grpc_server_retry_throttle_data_unref ?d (am_user ?s) = Some ?h"
    by (simp add: grpc_server_retry_throttle_data_unref.simps set_data_def Let_def)
  have 3: "grpc_retry_throttle_map_get_data_for_server scale dal al name max_mt ratio ?g (?s\<lparr>am_user := ?h\<rparr>) = None"
    using get [of ?h] by (simp add: grpc_retry_throttle_map_get_data_for_server_def)
  have 4: "on_user (destroy_server_name name) ?s = Some ?s2" by (simp add: on_user_def destroy_server_name_def)
  have 5: "grpc_retry_throttle_map_shutdown ?g ?s2 = None"
    by (simp add: grpc_retry_throttle_map_shutdown_def grpc_avl_unref_def unref_node.simps Let_def on_user_def
      avl_vtable_def destroy_server_name_def)
  have 6: "grpc_avl_get ?g name ?s = Some (Some ?d)" using get [of "am_user ?s"] by simp
  show ?thesis using 1 2 3 4 5 6 by (intro exI [of _ ?d] exI [of _ ?g] exI [of _ ?s] exI [of _ ?h] exI [of _ ?s2]) simp
qed

section \<open>Witnesses\<close>

definition demo_throttle_heap :: throttle_heap where
  "demo_throttle_heap = \<lparr>th_names = {#''a''#}, th_data = [0 \<mapsto> \<lparr>rd_refs = 1, max_milli_tokens = 10000, milli_token_ratio = 100,
     milli_tokens = 10000, replacement = None\<rparr>]\<rparr>"

lemma demo_throttle_owns:
  "owns throttle_holds \<lparr>am_nodes = Map.empty, am_user = demo_throttle_heap\<rparr> {#} {#Inl ''a'', Inr 0#}"
proof -
  let ?n = "\<lparr>rd_refs = 1, max_milli_tokens = 10000, milli_token_ratio = 100, milli_tokens = 10000, replacement = None\<rparr>"
  have e: "counted Map.empty {#}" by (rule countedI) simp_all
  have "counted (Map.empty(0 \<mapsto> chain_node ?n)) {#0#}"
    using counted_new [of Map.empty "{#}" None None 0 "()" "()" 0] e by (simp add: chain_node_def)
  moreover have "chain (th_data demo_throttle_heap) = Map.empty(0 \<mapsto> chain_node ?n)"
    by (auto simp: demo_throttle_heap_def chain_def)
  ultimately show ?thesis
    using e by (simp add: owns_def throttle_holds_def demo_throttle_heap_def tokens_ok_def)
qed

lemma throttle_map_refines_witness:
  "\<exists>q s'. grpc_avl_add next_address grpc_retry_throttle_map_init ''a'' 0 \<lparr>am_nodes = Map.empty, am_user = demo_throttle_heap\<rparr> =
      Some (grpc_retry_throttle_map_init\<lparr>av_root := q\<rparr>, s') \<and> owns throttle_holds s' (ptrs q) {#} \<and>
      avl_map compare_server_name (am_nodes s') q [''a'' \<mapsto> 0]"
proof -
  let ?g = grpc_retry_throttle_map_init and ?s = "\<lparr>am_nodes = Map.empty, am_user = demo_throttle_heap\<rparr>"
  have g: "av_vtable ?g = avl_vtable" "av_root ?g = None" by (simp_all add: grpc_retry_throttle_map_init_def grpc_avl_create_def)
  have al: "\<forall>ns :: (string, nat) avl_nodes. finite (dom ns) \<longrightarrow> ns (next_address ns) = None" by (simp add: next_address_free)
  have own: "owns throttle_holds ?s ({#} + ptrs (av_root ?g)) ({#} + {#Inl ''a'', Inr 0#})" using demo_throttle_owns g(2) by simp
  have m: "avl_map compare_server_name (am_nodes ?s) (av_root ?g) Map.empty" using g(2) by simp
  show ?thesis using throttle_map_refines [where al = next_address and g = ?g and s = ?s and E = "{#}" and P = "{#}" and m = Map.empty
        and name = "''a''" and d = 0, OF al g(1) own m] unfolding add_0 by blast
qed

text \<open>A map with one server, which an addition made.\<close>

lemma demo_throttle_map:
  "\<exists>q s. owns throttle_holds s (ptrs q) {#} \<and> avl_map compare_server_name (am_nodes s) q [''a'' \<mapsto> 0]"
proof -
  let ?g = grpc_retry_throttle_map_init and ?s = "\<lparr>am_nodes = Map.empty, am_user = demo_throttle_heap\<rparr>"
  have g: "av_vtable ?g = avl_vtable" "av_root ?g = None" by (simp_all add: grpc_retry_throttle_map_init_def grpc_avl_create_def)
  have c: "avl_client avl_vtable (next_address :: (string, nat) avl_nodes \<Rightarrow> nat) throttle_holds"
    by (rule throttle_client) (simp add: next_address_free)
  have own: "owns throttle_holds ?s ({#} + ptrs (av_root ?g)) ({#} + {#Inl ''a'', Inr 0#})" using demo_throttle_owns g(2) by simp
  have m: "avl_map (compare_keys avl_vtable) (am_nodes ?s) (av_root ?g) Map.empty" using g(2) by simp
  have vt: "compare_keys avl_vtable = compare_server_name" by (simp add: avl_vtable_def)
  show ?thesis using avl_client.add_refines [OF c g(1) own m] unfolding vt add_0 by blast
qed

lemma throttle_map_shutdown_frees_witness:
  "\<exists>g s s'. avl_map compare_server_name (am_nodes s) (av_root g) [''a'' \<mapsto> 0] \<and>
     grpc_retry_throttle_map_shutdown g s = Some s' \<and>
     am_nodes s' = Map.empty \<and> th_names (am_user s') = {#} \<and> th_data (am_user s') = Map.empty"
proof -
  obtain q s where s: "owns throttle_holds s (ptrs q) {#}" "avl_map compare_server_name (am_nodes s) q [''a'' \<mapsto> 0]"
    using demo_throttle_map by blast
  let ?g = "\<lparr>av_vtable = avl_vtable, av_root = q\<rparr>"
  from throttle_map_shutdown_frees [of ?g s "{#}"] s(1) obtain s' where
    "grpc_retry_throttle_map_shutdown ?g s = Some s'" "am_nodes s' = Map.empty" "th_names (am_user s') = {#}"
    "th_data (am_user s') = Map.empty" by auto
  then show ?thesis using s(2) by (intro exI [of _ ?g] exI [of _ s] exI [of _ s']) simp
qed

end
