(* ===== verification/Spec2Isabelle.thy ===== *)
theory Spec2Isabelle
  imports Cbb Base64 Stack Pool Pb_Encode Pb_Decode_Safe Ldb_Block_Safe Ldb_DBIter Ldb_Table_Read Retry_Throttle
begin

text \<open>
  \<^bold>\<open>The program.\<close> PetClump is a mobile application with two halves, an Android one in Java and an
  iOS one in Swift (\<open>android/\<close>, \<open>ios/PetClump/\<close>); both talk to Firebase. The C and C++ of the
  repository is the code that the iOS half is linked with (\<open>ios/Pods/\<close>). The Firebase
  clients, of which the repository has only the headers, keep their local data in leveldb
  (\<open>leveldb-library\<close>), describe small messages with nanopb (\<open>nanopb\<close>), which gRPC uses as well, and
  reach their server through gRPC (\<open>gRPC-Core\<close>), whose connections are secured by BoringSSL
  (\<open>BoringSSL\<close>). The development models, from these libraries, the parts on which the
  others stand: the parsers, builders, containers and buffers of BoringSSL's crypto library, the
  whole of nanopb, leveldb's path from a key to the bytes of a file and back, and the balanced trees of gRPC
  with the retry throttling that is built on them. The target is the
  64-bit little-endian iOS build: \<open>size_t\<close> has 64 bits and \<open>int\<close> has 32.

  \<^bold>\<open>How the code is read.\<close> A C integer is a word of its width and wraps where C wraps. A pointer to
  constant bytes with a length is the list of those bytes; a structure is a record; a function with
  out-parameters returns what it writes. A result type \<open>option\<close> is used in two ways. Where the
  function of the code reports failure by its return value, \<open>None\<close> (or the constructor that the
  theory names) is that failure. Where the theory says so, \<open>None\<close> is a run to which C gives no
  meaning, such as a read outside an array or a shift by too much, or a loop that does not return;
  the theorems about these functions say that the result is \<open>Some\<close>. Loops are structural or
  measured functions, or partial functions with \<open>None\<close> for a run without end; nothing is said of
  their results without a proof that there is one. The only bounds are the nesting depth of nanopb
  messages in \<open>pb_encode\<close> and \<open>pb_decode\<close>, which the theorems relate to the depth of the descriptor,
  itself a finite tree.

  \<^bold>\<open>The environment.\<close> Code that is not in the repository is an argument of the definitions that use
  it: \<open>malloc\<close> (\<open>heap_env\<close> in \<open>Cbb\<close> and \<open>Mem\<close>), \<open>qsort\<close> and \<open>bsearch\<close> (\<open>Stack\<close>, with the laws of the
  C standard in the locale \<open>libc_search\<close> and an instance), the callbacks of an application
  (\<open>Pb_Encode\<close>, \<open>Pb_Decode\<close>; their contract is \<open>callbacks_ok\<close> in \<open>Pb_Decode_Safe\<close>), the system calls below a file (the \<open>posix\<close> records of \<open>Ldb_Log\<close> and
  \<open>Ldb_Format\<close>), the Snappy library (\<open>snappy_library\<close> in \<open>Ldb_Format\<close>) and fresh memory, whose
  contents are arbitrary.

  \<^bold>\<open>The theories.\<close>

  \<^item> \<open>Prelude\<close>: integer types, byte strings, big- and little-endian numbers. \<open>Varint\<close>: base-128
    varints, as both nanopb and leveldb use them. \<open>Der_Spec\<close>: DER lengths, elements and integers.

  \<^item> \<open>Cbs\<close>, \<open>Cbb\<close> (\<open>BoringSSL/crypto/bytestring/cbs.c\<close>, \<open>cbb.c\<close>): the reader and the builder of byte
    strings. The reader accepts exactly the DER encodings; the builder, whose open children form a
    chain, writes the bytes that the nesting stands for (locale \<open>cbb_writer\<close> for the fixed-width
    writers). What one writes the other reads.

  \<^item> \<open>Const_Time\<close>, \<open>Base64\<close> (\<open>crypto/internal.h\<close>, \<open>crypto/base64/base64.c\<close>): branch-free comparisons
    agree with the ordinary ones, and both base64 interfaces are inverted by their decoders.

  \<^item> \<open>Stack\<close>, \<open>Lhash\<close>, \<open>Mem\<close>, \<open>Pool\<close> (\<open>crypto/stack/stack.c\<close>, \<open>crypto/lhash/lhash.c\<close>,
    \<open>crypto/mem.c\<close>, \<open>crypto/buf/buf.c\<close>, \<open>crypto/pool/pool.c\<close>, \<open>crypto/refcount_lock.c\<close>): a growing array
    refines a list, a hash table refines a map (locale \<open>hash_key\<close>) and keeps its load bounded, a
    buffer refines a byte string, except at six lengths for which \<open>OPENSSL_malloc\<close> wraps around. The pool is a transition system whose steps are the critical
    sections of the code, run by any number of threads; its invariant gives that objects are shared,
    that reference counts are the numbers of references and that nothing is left when all are
    released.

  \<^item> \<open>Pb_Common\<close>, \<open>Pb_Stream\<close>, \<open>Pb_Encode\<close>, \<open>Pb_Decode\<close>, \<open>Pb_Decode_Safe\<close> (\<open>nanopb/pb_common.c\<close>,
    \<open>pb_encode.c\<close>, \<open>pb_decode.c\<close>, \<open>pb.h\<close>): memory is a map from addresses to bytes, and descriptors
    are walked by the field iterator as the code does. The encoder writes the wire format of
    the message in memory and counts its size; the decoder, on any input, returns and writes only to
    its structure and to the memory of its callbacks; the descriptors of gRPC's load balancer messages are an
    instance (\<open>load_balancer.pb.c\<close>; locale \<open>byte_sink\<close> for output streams).

  \<^item> \<open>Ldb_Crc\<close>, \<open>Ldb_Coding\<close>, \<open>Ldb_Log\<close> (\<open>util/crc32c.cc\<close>, \<open>util/coding.cc\<close>, \<open>db/log_writer.cc\<close>,
    \<open>db/log_reader.cc\<close>): checksums, number encodings and the write-ahead log, over the interfaces
    \<open>writable_file\<close> and \<open>sequential_file\<close>, which the posix files of \<open>util/env_posix.cc\<close> satisfy.
    A log that was cut off anywhere gives back the complete records.

  \<^item> \<open>Ldb_Key\<close>, \<open>Ldb_Iter\<close> (\<open>util/comparator.cc\<close>, \<open>db/dbformat.cc\<close>, \<open>include/leveldb/iterator.h\<close>,
    \<open>table/iterator_wrapper.h\<close>): the two comparators satisfy the locale \<open>comparator\<close>. The locale
    \<open>iterator_impl\<close> is the contract of an iterator: a relation between its state and a position in a
    sorted list of entries that every virtual function keeps, as a cursor would.

  \<^item> \<open>Ldb_Block\<close>, \<open>Ldb_Block_Safe\<close>, \<open>Ldb_Merge\<close>, \<open>Ldb_Two_Level\<close>, \<open>Ldb_DBIter\<close> (\<open>table/block_builder.cc\<close>,
    \<open>block.cc\<close>, \<open>merger.cc\<close>, \<open>two_level_iterator.cc\<close>, \<open>db/db_iter.cc\<close>, with \<open>util/random.h\<close> in
    \<open>Ldb_Random\<close>): each iterator is shown to satisfy \<open>iterator_impl\<close>, given that the iterators below
    it do (locales \<open>two_level\<close> and \<open>db_source\<close>), so the contracts compose as the code does. On blocks
    of arbitrary bytes the block iterator stays within the block unless two sizes wrap, and what it makes of the
    first entry is stated exactly, wrap or not.

  \<^item> \<open>Ldb_Filter\<close>, \<open>Ldb_Format\<close>, \<open>Ldb_Table\<close>, \<open>Ldb_Table_Build\<close>, \<open>Ldb_Table_Read\<close> (\<open>util/hash.cc\<close>, \<open>util/bloom.cc\<close>, \<open>table/filter_block.cc\<close>,
    \<open>format.cc\<close>, \<open>table_builder.cc\<close>, \<open>table.cc\<close>): filters without false negatives (locale
    \<open>filter_policy\<close>), the file format (locale \<open>random_access\<close>), and the builder and the reader of
    tables. The invariant of the builder is in the locale \<open>table_writer\<close>; a finished file holds the
    blocks with their separators, so the table iterator, a two-level one, is a cursor into the
    entries, and lookups find them through the filter.

  \<^item> \<open>Avl_Spec\<close>, \<open>Avl\<close>, \<open>Avl_Refs\<close>, \<open>Avl_Ops\<close>, \<open>Retry_Throttle\<close> (\<open>gRPC-Core/src/core/lib/avl/avl.cc\<close>,
    \<open>ext/filters/client_channel/retry_throttle.cc\<close>): persistent trees of counted nodes. \<open>Avl_Spec\<close> has
    the trees as values, balanced and sorted (locale \<open>key_order\<close>), \<open>Avl\<close> the code on nodes in memory, \<open>Avl_Refs\<close> what
    the counts mean and what an operation keeps, and \<open>Avl_Ops\<close>, for any client in the locale \<open>avl_client\<close>, that the
    code makes the trees of the specification, that its assertions hold and that nothing is leaked or
    used after it was freed. \<open>Retry_Throttle\<close> is such a client; its map hands out references that it does not have,
    which is shown as an error.

  \<^bold>\<open>Not modelled.\<close> Of leveldb: the database object with its threads and compactions, version sets,
  memtables, the block cache, repair and the C binding. Of BoringSSL: the ciphers, big numbers,
  elliptic curves, X.509 and the TLS state machines. Of gRPC: transports, channels, security,
  polling and the other filters. These are left out for their size, and the development says nothing about them.
  The allocation failures of C++ (\<open>std::bad_alloc\<close>) end the program and have no model. Functions that
  only release memory have none either, except in \<open>Stack\<close>, \<open>Pool\<close> and \<open>Avl\<close>, where ownership is the point.
  Assertions of the code that only restate a caller's duty are hypotheses of the theorems.
\<close>

end
